(* ===== verification/Kernel_Prelude.thy ===== *)
theory Kernel_Prelude
  imports Main "HOL-Library.Word" "HOL-Library.Monad_Syntax"
begin

unbundle bit_operations_syntax

text \<open>
  What every component theory of the CoolPotOS development shares.

  Conventions.  A C computation that can hit undefined behaviour or a failed
  \<open>asserts\<close> (an access outside an array, a division by zero, an exhausted pool)
  returns \<open>'a option\<close>, with \<^const>\<open>None\<close> for the fault; a result code of the
  source stays a value inside the \<^const>\<open>Some\<close>.  Addresses and page counts that
  the code combines with wrapping or bitwise arithmetic are \<open>64 word\<close>; small
  indices bounded by an array are \<open>nat\<close>.  Arrays are lists, read and written
  through the checked accessors below.
\<close>

type_synonym u8 = "8 word"
type_synonym u16 = "16 word"
type_synonym u32 = "32 word"
type_synonym u64 = "64 word"

text \<open>Collections: facts that relate bytes and bits, words and numbers, and array accesses.\<close>

named_theorems bit_facts
named_theorems word_facts
named_theorems array_facts

section \<open>Checked array accesses\<close>

definition aget :: "'a list \<Rightarrow> nat \<Rightarrow> 'a option" where
  "aget xs i = (if i < length xs then Some (xs ! i) else None)"

definition aput :: "'a list \<Rightarrow> nat \<Rightarrow> 'a \<Rightarrow> 'a list option" where
  "aput xs i v = (if i < length xs then Some (xs[i := v]) else None)"

lemma aget_inside [simp, array_facts]: "i < length xs \<Longrightarrow> aget xs i = Some (xs ! i)"
  by (simp add: aget_def)

lemma aget_outside [simp, array_facts]: "length xs \<le> i \<Longrightarrow> aget xs i = None"
  by (simp add: aget_def)

lemma aput_inside [simp, array_facts]: "i < length xs \<Longrightarrow> aput xs i v = Some (xs[i := v])"
  by (simp add: aput_def)

lemma aput_outside [simp, array_facts]: "length xs \<le> i \<Longrightarrow> aput xs i v = None"
  by (simp add: aput_def)

lemma aget_eq_Some_iff: "aget xs i = Some v \<longleftrightarrow> i < length xs \<and> xs ! i = v"
  by (auto simp: aget_def)

lemma aput_eq_Some_iff: "aput xs i v = Some ys \<longleftrightarrow> i < length xs \<and> ys = xs[i := v]"
  by (auto simp: aput_def)

lemma aput_length: "aput xs i v = Some ys \<Longrightarrow> length ys = length xs"
  by (auto simp: aput_def split: if_splits)

section \<open>Powers of two, alignment and the buddy address\<close>

lemma unat_pow2 [word_facts]: "n < 64 \<Longrightarrow> unat (2 ^ n :: u64) = 2 ^ n"
  by transfer simp

lemma unat_push_bit_1 [word_facts]: "n < 64 \<Longrightarrow> unat (push_bit n 1 :: u64) = 2 ^ n"
  by (simp add: unat_pow2)

lemma aligned_iff_dvd [word_facts]:
  assumes "n < 64"
  shows "(a AND (push_bit n 1 - 1) = 0) = (2 ^ n dvd unat (a :: u64))"
proof -
  have "push_bit n 1 - 1 = (mask n :: u64)" by (simp add: mask_eq_exp_minus_1 push_bit_eq_mult)
  then have "(a AND (push_bit n 1 - 1) = 0) = (take_bit n a = 0)" by (simp add: take_bit_eq_mask)
  also have "\<dots> = (2 ^ n dvd unat a)"
    by (metis take_bit_eq_0_iff unsigned_take_bit_eq unsigned_0 unsigned_eq_0_iff take_bit_eq_0_iff)
  finally show ?thesis .
qed

lemma unat_add_no_wrap: "unat a + unat b < 2 ^ 64 \<Longrightarrow> unat (a + b) = unat a + unat b"
  for a b :: u64
  by (simp add: unat_word_ariths)

lemma unat_sub_no_wrap: "b \<le> a \<Longrightarrow> unat (a - b) = unat a - unat b" for a b :: u64
  by (simp add: unat_sub)

lemma wrap_check_iff: "(a + b < a) = (2 ^ 64 \<le> unat a + unat b)" for a b :: u64
  using unsigned_less [of a, where 'a = nat] unsigned_less [of b, where 'a = nat]
  by (auto simp: word_less_nat_alt unat_word_ariths mod_if not_less)

lemma bit_u64_iff: "bit a n = odd (unat a div 2 ^ n)" for a :: u64
proof -
  have "bit a n = bit (unat a) n" by (simp add: bit_unsigned_iff)
  also have "\<dots> = odd (unat a div 2 ^ n)" by (simp only: bit_iff_odd)
  finally show ?thesis .
qed

lemma unat_xor_clear:
  fixes a :: u64
  assumes "n < 64" "\<not> bit a n"
  shows "unat (a XOR 2 ^ n) = unat a + 2 ^ n"
proof -
  have "unat (a XOR 2 ^ n) = unat a XOR 2 ^ n" using assms by (simp add: unsigned_xor_eq unat_pow2)
  also have "\<dots> = flip_bit n (unat a)" by (simp add: flip_bit_eq_xor)
  also have "\<dots> = set_bit n (unat a)" using assms by (simp add: flip_bit_eq_if bit_unsigned_iff)
  finally show ?thesis using assms by (simp add: bit_unsigned_iff set_bit_eq)
qed

lemma unat_xor_set:
  fixes a :: u64
  assumes "n < 64" "bit a n"
  shows "unat (a XOR 2 ^ n) + 2 ^ n = unat a"
proof -
  have "\<not> bit (a XOR 2 ^ n) n" using assms by (simp add: bit_simps)
  from unat_xor_clear [OF assms(1) this] show ?thesis by (simp add: xor.assoc)
qed

end
