(* ===== verification/Buddy_Lists.thy ===== *)
theory Buddy_Lists
  imports Kernel_Prelude "HOL-Library.Multiset"
begin

text \<open>
  The free lists of the buddy allocator (\<^verbatim>\<open>src/src/mem/buddy.c\<close>): each order keeps its free
  blocks in a chain of metadata pages, a page holding up to 510 block addresses.
  Metadata pages come from a pool and, once returned, from a stack linked through
  their \<open>next_page\<close> fields.

  A chain \<^verbatim>\<open>head -> next_page -> ... -> 0\<close> is the list of its pages in link order (no page is
  shared between two chains, so updating a page in place is updating its list
  element); \<open>entry_num\<close> is the length of the entry list.  The sentinel 0 of \<open>page_list_pop\<close> is kept.
\<close>

section \<open>Metadata pages\<close>

abbreviation MIN_ORDER :: nat where "MIN_ORDER \<equiv> 12"
abbreviation MAX_ORDER :: nat where "MAX_ORDER \<equiv> 31"
abbreviation ORDER_COUNT :: nat where "ORDER_COUNT \<equiv> 19"
abbreviation PAGE_SIZE :: u64 where "PAGE_SIZE \<equiv> 4096"
abbreviation PAGE_LIST_ENTRY_CAPACITY :: nat where "PAGE_LIST_ENTRY_CAPACITY \<equiv> 510"

record page_list =
  pl_phys :: u64
  pl_entries :: "u64 list"

record metadata =
  metadata_pool_phys :: u64
  metadata_pool_pages :: nat
  metadata_pool_used :: nat
  metadata_free_list :: "u64 list"

definition metadata_page_alloc :: "metadata \<Rightarrow> (u64 \<times> metadata) option" where
  "metadata_page_alloc m =
     (case metadata_free_list m of
        phys # rest \<Rightarrow> Some (phys, m\<lparr>metadata_free_list := rest\<rparr>)
      | [] \<Rightarrow>
          if metadata_pool_used m < metadata_pool_pages m then
            Some (metadata_pool_phys m + of_nat (metadata_pool_used m) * PAGE_SIZE,
                  m\<lparr>metadata_pool_used := metadata_pool_used m + 1\<rparr>)
          else None)"

definition metadata_page_free :: "u64 \<Rightarrow> metadata \<Rightarrow> metadata" where
  "metadata_page_free phys m = m\<lparr>metadata_free_list := phys # metadata_free_list m\<rparr>"

section \<open>Push, pop and take on a chain\<close>

text \<open>
  The walks carry \<open>prev\<close>: whether \<open>prev_phys\<close> is set, that is, whether the current page has a
  predecessor in the chain that can be relinked around it.
\<close>

fun page_list_push_walk ::
    "bool \<Rightarrow> metadata \<Rightarrow> page_list list \<Rightarrow> u64 \<Rightarrow> metadata \<times> page_list list \<times> bool" where
  "page_list_push_walk prev m [] block_phys = (m, [], False)"
| "page_list_push_walk prev m (pg # pgs) block_phys =
     (if length (pl_entries pg) < PAGE_LIST_ENTRY_CAPACITY then
        (m, pg\<lparr>pl_entries := pl_entries pg @ [block_phys]\<rparr> # pgs, True)
      else if prev \<and> length (pl_entries pg) = 0 then
        page_list_push_walk prev (metadata_page_free (pl_phys pg) m) pgs block_phys
      else
        (case page_list_push_walk True m pgs block_phys of
           (m', pgs', stored) \<Rightarrow> (m', pg # pgs', stored)))"

definition chain_push :: "metadata \<Rightarrow> page_list list \<Rightarrow> u64 \<Rightarrow> (metadata \<times> page_list list) option" where
  "chain_push m pgs block_phys =
     (case page_list_push_walk False m pgs block_phys of
        (m', pgs', stored) \<Rightarrow>
          if stored then Some (m', pgs')
          else do {
            (new_head_phys, m'') \<leftarrow> metadata_page_alloc m';
            Some (m'', \<lparr>pl_phys = new_head_phys, pl_entries = [block_phys]\<rparr> # pgs')
          })"

fun chain_pop :: "bool \<Rightarrow> metadata \<Rightarrow> page_list list \<Rightarrow> metadata \<times> page_list list \<times> u64" where
  "chain_pop prev m [] = (m, [], 0)"
| "chain_pop prev m (pg # pgs) =
     (if length (pl_entries pg) \<noteq> 0 then
        let block = last (pl_entries pg); es = butlast (pl_entries pg) in
        if length es = 0 \<and> prev then (metadata_page_free (pl_phys pg) m, pgs, block)
        else (m, pg\<lparr>pl_entries := es\<rparr> # pgs, block)
      else if prev then chain_pop prev (metadata_page_free (pl_phys pg) m) pgs
      else
        (case chain_pop True m pgs of (m', pgs', block) \<Rightarrow> (m', pg # pgs', block)))"

fun find_entry :: "u64 \<Rightarrow> u64 list \<Rightarrow> nat option" where
  "find_entry target [] = None"
| "find_entry target (e # es) = (if e \<noteq> target then map_option Suc (find_entry target es) else Some 0)"

fun chain_take ::
    "bool \<Rightarrow> metadata \<Rightarrow> page_list list \<Rightarrow> u64 \<Rightarrow> metadata \<times> page_list list \<times> bool" where
  "chain_take prev m [] target_phys = (m, [], False)"
| "chain_take prev m (pg # pgs) target_phys =
     (case find_entry target_phys (pl_entries pg) of
        Some i \<Rightarrow>
          let es = butlast ((pl_entries pg)[i := last (pl_entries pg)]) in
          if length es = 0 \<and> prev then (metadata_page_free (pl_phys pg) m, pgs, True)
          else (m, pg\<lparr>pl_entries := es\<rparr> # pgs, True)
      | None \<Rightarrow>
          if prev \<and> length (pl_entries pg) = 0 then
            chain_take prev (metadata_page_free (pl_phys pg) m) pgs target_phys
          else
            (case chain_take True m pgs target_phys of
               (m', pgs', found) \<Rightarrow> (m', pg # pgs', found)))"

section \<open>What a chain holds\<close>

definition chain_entries :: "page_list list \<Rightarrow> u64 list" where
  "chain_entries pgs = concat (map pl_entries pgs)"

definition chain_wf :: "page_list list \<Rightarrow> bool" where
  "chain_wf pgs \<longleftrightarrow> (\<forall>pg\<in>set pgs. length (pl_entries pg) \<le> PAGE_LIST_ENTRY_CAPACITY)"

text \<open>The metadata pages in circulation: those of the chain and those of the free stack.\<close>

definition pages_of :: "metadata \<Rightarrow> page_list list \<Rightarrow> u64 multiset" where
  "pages_of m pgs = mset (map pl_phys pgs) + mset (metadata_free_list m)"

lemma chain_entries_simps [simp]:
  "chain_entries [] = []" "chain_entries (pg # pgs) = pl_entries pg @ chain_entries pgs"
  by (simp_all add: chain_entries_def)

lemma chain_wf_simps [simp]:
  "chain_wf []" "chain_wf (pg # pgs) \<longleftrightarrow> length (pl_entries pg) \<le> PAGE_LIST_ENTRY_CAPACITY \<and> chain_wf pgs"
  by (auto simp: chain_wf_def)

lemma pages_of_simps [simp]:
  "pages_of m (pg # pgs) = add_mset (pl_phys pg) (pages_of m pgs)"
  "pages_of (metadata_page_free p m) pgs = add_mset p (pages_of m pgs)"
  by (simp_all add: pages_of_def metadata_page_free_def)

text \<open>The pool itself is touched by \<open>metadata_page_alloc\<close> only.\<close>

definition same_pool :: "metadata \<Rightarrow> metadata \<Rightarrow> bool" where
  "same_pool m m' \<longleftrightarrow> metadata_pool_phys m' = metadata_pool_phys m \<and>
     metadata_pool_pages m' = metadata_pool_pages m \<and> metadata_pool_used m' = metadata_pool_used m"

lemma same_pool_refl [simp]: "same_pool m m"
  by (simp add: same_pool_def)

lemma same_pool_free [simp]: "same_pool (metadata_page_free p m) m' = same_pool m m'"
  "same_pool m (metadata_page_free p m')  = same_pool m m'"
  by (simp_all add: same_pool_def metadata_page_free_def)

lemma mset_last_butlast: "es \<noteq> [] \<Longrightarrow> add_mset (last es) (mset (butlast es)) = mset es"
  by (induction es rule: rev_induct) auto

lemma butlast_Nil_eq: "es \<noteq> [] \<Longrightarrow> butlast es = [] \<Longrightarrow> [last es] = es"
  by (induction es rule: rev_induct) auto

lemma push_walk_facts:
  assumes "page_list_push_walk prev m pgs b = (m', pgs', stored)"
  shows push_walk_entries:
      "mset (chain_entries pgs') = mset (chain_entries pgs) + (if stored then {#b#} else {#})"
    and push_walk_wf: "chain_wf pgs \<Longrightarrow> chain_wf pgs'"
    and push_walk_pages: "pages_of m' pgs' = pages_of m pgs"
    and push_walk_pool: "same_pool m m'"
    and push_walk_stored:
      "stored \<longleftrightarrow> (\<exists>pg\<in>set pgs. length (pl_entries pg) < PAGE_LIST_ENTRY_CAPACITY)"
proof -
  let ?walk = "page_list_push_walk prev m pgs b = (m', pgs', stored)"
  show "mset (chain_entries pgs') = mset (chain_entries pgs) + (if stored then {#b#} else {#})"
    using assms by (induction prev m pgs b arbitrary: m' pgs' stored rule: page_list_push_walk.induct)
      (auto split: if_splits prod.splits)
  have "?walk \<longrightarrow> chain_wf pgs \<longrightarrow> chain_wf pgs'"
    by (induction prev m pgs b arbitrary: m' pgs' stored rule: page_list_push_walk.induct)
      (auto split: if_splits prod.splits)
  then show "chain_wf pgs \<Longrightarrow> chain_wf pgs'" using assms by blast
  show "pages_of m' pgs' = pages_of m pgs" "same_pool m m'"
    using assms by (induction prev m pgs b arbitrary: m' pgs' stored rule: page_list_push_walk.induct)
      (auto split: if_splits prod.splits)
  show "stored \<longleftrightarrow> (\<exists>pg\<in>set pgs. length (pl_entries pg) < PAGE_LIST_ENTRY_CAPACITY)"
    using assms by (induction prev m pgs b arbitrary: m' pgs' stored rule: page_list_push_walk.induct)
      (auto split: if_splits prod.splits)
qed

lemma chain_push_facts:
  assumes "chain_push m pgs b = Some (m', pgs')"
  shows chain_push_entries: "mset (chain_entries pgs') = add_mset b (mset (chain_entries pgs))"
    and chain_push_wf: "chain_wf pgs \<Longrightarrow> chain_wf pgs'"
proof -
  obtain n qs st where w: "page_list_push_walk False m pgs b = (n, qs, st)" by (metis prod_cases3)
  note f = push_walk_entries [OF w] push_walk_wf [OF w]
  show "mset (chain_entries pgs') = add_mset b (mset (chain_entries pgs))"
    using assms w f(1) by (auto simp: chain_push_def split: if_splits bind_splits)
  show "chain_wf pgs \<Longrightarrow> chain_wf pgs'"
    using assms w f(2) by (auto simp: chain_push_def split: if_splits bind_splits)
qed

lemma push_walk_full:
  "\<forall>pg\<in>set pgs. PAGE_LIST_ENTRY_CAPACITY \<le> length (pl_entries pg) \<Longrightarrow>
   page_list_push_walk prev m pgs b = (m, pgs, False)"
  by (induction pgs arbitrary: prev) auto

text \<open>A push fails only when every page of the chain is full and the pool is used up.\<close>

lemma chain_push_None:
  "chain_push m pgs b = None \<longleftrightarrow>
     (\<forall>pg\<in>set pgs. PAGE_LIST_ENTRY_CAPACITY \<le> length (pl_entries pg)) \<and>
     metadata_free_list m = [] \<and> metadata_pool_pages m \<le> metadata_pool_used m"
proof (cases "\<forall>pg\<in>set pgs. PAGE_LIST_ENTRY_CAPACITY \<le> length (pl_entries pg)")
  case True
  then show ?thesis
    by (auto simp: chain_push_def push_walk_full metadata_page_alloc_def split: list.splits)
next
  case False
  obtain n qs st where w: "page_list_push_walk False m pgs b = (n, qs, st)" by (metis prod_cases3)
  with False push_walk_stored [OF w] show ?thesis by (auto simp: chain_push_def not_le)
qed

lemma chain_pop_facts:
  assumes "chain_pop prev m pgs = (m', pgs', b)"
  shows chain_pop_empty: "chain_entries pgs = [] \<Longrightarrow> b = 0 \<and> chain_entries pgs' = []"
    and chain_pop_entries:
      "chain_entries pgs \<noteq> [] \<Longrightarrow> mset (chain_entries pgs) = add_mset b (mset (chain_entries pgs'))"
    and chain_pop_wf: "chain_wf pgs \<Longrightarrow> chain_wf pgs'"
    and chain_pop_pages: "pages_of m' pgs' = pages_of m pgs"
    and chain_pop_pool: "same_pool m m'"
proof -
  let ?pop = "chain_pop prev m pgs = (m', pgs', b)"
  show "chain_entries pgs = [] \<Longrightarrow> b = 0 \<and> chain_entries pgs' = []"
    using assms by (induction prev m pgs arbitrary: m' pgs' b rule: chain_pop.induct)
      (auto split: if_splits prod.splits)
  show "chain_entries pgs \<noteq> [] \<Longrightarrow> mset (chain_entries pgs) = add_mset b (mset (chain_entries pgs'))"
    using assms by (induction prev m pgs arbitrary: m' pgs' b rule: chain_pop.induct)
      (auto simp: Let_def mset_last_butlast butlast_Nil_eq split: if_splits prod.splits
         simp flip: union_mset_add_mset_left)
  have "?pop \<longrightarrow> chain_wf pgs \<longrightarrow> chain_wf pgs'"
    by (induction prev m pgs arbitrary: m' pgs' b rule: chain_pop.induct)
      (auto simp: Let_def split: if_splits prod.splits)
  then show "chain_wf pgs \<Longrightarrow> chain_wf pgs'" using assms by blast
  show "pages_of m' pgs' = pages_of m pgs" "same_pool m m'"
    using assms by (induction prev m pgs arbitrary: m' pgs' b rule: chain_pop.induct)
      (auto simp: Let_def split: if_splits prod.splits)
qed

lemma mset_remove_entry:
  "i < length es \<Longrightarrow> add_mset (es ! i) (mset (butlast (es[i := last es]))) = mset es"
proof (induction es rule: rev_induct)
  case (snoc l ys)
  show ?case
  proof (cases "i = length ys")
    case False
    then have i: "i < length ys" using snoc by simp
    then have "mset (ys[i := l]) = add_mset l (mset ys - {#ys ! i#})" by (rule mset_update)
    moreover have "ys ! i \<in># mset ys" using i by simp
    ultimately show ?thesis using i by (simp add: list_update_append nth_append)
  qed simp
qed simp

lemma find_entry_Some: "find_entry t es = Some i \<Longrightarrow> i < length es \<and> es ! i = t"
  by (induction es arbitrary: i) (auto split: if_splits)

lemma find_entry_None: "find_entry t es = None \<longleftrightarrow> t \<notin> set es"
  by (induction es) auto

lemma mset_take_entry:
  "find_entry t es = Some i \<Longrightarrow> mset es = add_mset t (mset (butlast (es[i := last es])))"
  using mset_remove_entry [of i es] find_entry_Some [of t es i] by simp

lemma take_last_entry: "find_entry t es = Some i \<Longrightarrow> butlast (es[i := last es]) = [] \<Longrightarrow> es = [t]"
  using mset_take_entry [of t es i] by simp

lemma chain_take_facts:
  assumes "chain_take prev m pgs t = (m', pgs', found)"
  shows chain_take_found: "found \<longleftrightarrow> t \<in> set (chain_entries pgs)"
    and chain_take_entries:
      "mset (chain_entries pgs) = mset (chain_entries pgs') + (if found then {#t#} else {#})"
    and chain_take_wf: "chain_wf pgs \<Longrightarrow> chain_wf pgs'"
    and chain_take_pages: "pages_of m' pgs' = pages_of m pgs"
    and chain_take_pool: "same_pool m m'"
proof -
  let ?take = "chain_take prev m pgs t = (m', pgs', found)"
  show "found \<longleftrightarrow> t \<in> set (chain_entries pgs)"
    using assms by (induction prev m pgs t arbitrary: m' pgs' found rule: chain_take.induct)
      (auto simp: Let_def find_entry_None split: option.splits if_splits prod.splits dest!: find_entry_Some)
  show "mset (chain_entries pgs) = mset (chain_entries pgs') + (if found then {#t#} else {#})"
    using assms by (induction prev m pgs t arbitrary: m' pgs' found rule: chain_take.induct)
      (auto simp: Let_def split: option.splits if_splits prod.splits dest: mset_take_entry take_last_entry)
  have "?take \<longrightarrow> chain_wf pgs \<longrightarrow> chain_wf pgs'"
    by (induction prev m pgs t arbitrary: m' pgs' found rule: chain_take.induct)
      (auto simp: Let_def split: option.splits if_splits prod.splits)
  then show "chain_wf pgs \<Longrightarrow> chain_wf pgs'" using assms by blast
  show "pages_of m' pgs' = pages_of m pgs" "same_pool m m'"
    using assms by (induction prev m pgs t arbitrary: m' pgs' found rule: chain_take.induct)
      (auto simp: Let_def split: option.splits if_splits prod.splits)
qed

section \<open>The pages of a chain\<close>

text \<open>
  No operation but a push onto a chain of full pages makes a chain longer, and the pages
  handed out are those of the pool, each in one place.
\<close>

definition handed_out :: "metadata \<Rightarrow> u64 multiset" where
  "handed_out m = mset (map (\<lambda>i. metadata_pool_phys m + of_nat i * PAGE_SIZE) [0..<metadata_pool_used m])"

lemma size_handed_out [simp]: "size (handed_out m) = metadata_pool_used m"
  by (simp add: handed_out_def)

lemma handed_out_same_pool: "same_pool m m' \<Longrightarrow> handed_out m' = handed_out m"
  by (simp add: handed_out_def same_pool_def)

lemma push_walk_length: "page_list_push_walk prev m pgs b = (m', pgs', stored) \<Longrightarrow> length pgs' \<le> length pgs"
  by (induction prev m pgs b arbitrary: m' pgs' stored rule: page_list_push_walk.induct)
    (auto split: if_splits prod.splits intro: le_SucI)

lemma chain_pop_length: "chain_pop prev m pgs = (m', pgs', b) \<Longrightarrow> length pgs' \<le> length pgs"
  by (induction prev m pgs arbitrary: m' pgs' b rule: chain_pop.induct)
    (auto simp: Let_def split: if_splits prod.splits intro: le_SucI)

lemma chain_take_length: "chain_take prev m pgs t = (m', pgs', found) \<Longrightarrow> length pgs' \<le> length pgs"
  by (induction prev m pgs t arbitrary: m' pgs' found rule: chain_take.induct)
    (auto simp: Let_def split: option.splits if_splits prod.splits intro: le_SucI)

lemma metadata_page_alloc_handed_out:
  assumes "metadata_page_alloc m = Some (p, m')"
  shows "handed_out m' + mset (metadata_free_list m) = handed_out m + add_mset p (mset (metadata_free_list m'))"
    and "metadata_pool_pages m' = metadata_pool_pages m"
    and "metadata_pool_used m \<le> metadata_pool_pages m \<Longrightarrow> metadata_pool_used m' \<le> metadata_pool_pages m'"
  using assms by (auto simp: metadata_page_alloc_def handed_out_def atLeastLessThanSuc split: list.splits if_splits)

lemma chain_push_pages:
  assumes "chain_push m pgs b = Some (m', pgs')"
  shows "handed_out m' + pages_of m pgs = handed_out m + pages_of m' pgs'"
    and "metadata_pool_pages m' = metadata_pool_pages m"
    and "metadata_pool_used m \<le> metadata_pool_pages m \<Longrightarrow> metadata_pool_used m' \<le> metadata_pool_pages m'"
proof -
  obtain n qs st where w: "page_list_push_walk False m pgs b = (n, qs, st)" by (metis prod_cases3)
  have h: "handed_out n = handed_out m" "metadata_pool_pages n = metadata_pool_pages m"
      "metadata_pool_used n = metadata_pool_used m"
    using handed_out_same_pool [OF push_walk_pool [OF w]] push_walk_pool [OF w] by (simp_all add: same_pool_def)
  note pg = push_walk_pages [OF w]
  have *: "handed_out m' + pages_of m pgs = handed_out m + pages_of m' pgs' \<and>
    metadata_pool_pages m' = metadata_pool_pages m \<and>
    (metadata_pool_used m \<le> metadata_pool_pages m \<longrightarrow> metadata_pool_used m' \<le> metadata_pool_pages m')"
  proof (cases st)
    case True
    then show ?thesis using assms w h pg by (simp add: chain_push_def)
  next
    case False
    then obtain p where p: "metadata_page_alloc n = Some (p, m')"
      and q: "pgs' = \<lparr>pl_phys = p, pl_entries = [b]\<rparr> # qs"
      using assms w by (auto simp: chain_push_def split: bind_splits)
    have "handed_out m' + pages_of m pgs = handed_out m' + mset (metadata_free_list n) + mset (map pl_phys qs)"
      unfolding pg [symmetric] by (simp add: pages_of_def ac_simps)
    also have "\<dots> = handed_out m + pages_of m' pgs'"
      unfolding metadata_page_alloc_handed_out(1) [OF p] h(1) q by (simp add: pages_of_def ac_simps)
    finally show ?thesis using metadata_page_alloc_handed_out(2,3) [OF p] h by simp
  qed
  then show "handed_out m' + pages_of m pgs = handed_out m + pages_of m' pgs'"
    "metadata_pool_pages m' = metadata_pool_pages m"
    "metadata_pool_used m \<le> metadata_pool_pages m \<Longrightarrow> metadata_pool_used m' \<le> metadata_pool_pages m'"
    by auto
qed

lemma full_chain_entries:
  assumes "chain_wf pgs" "\<forall>pg\<in>set pgs. PAGE_LIST_ENTRY_CAPACITY \<le> length (pl_entries pg)"
  shows "length (chain_entries pgs) = 510 * length pgs"
  using assms by (induction pgs) auto

lemma chain_push_length:
  assumes "chain_push m pgs b = Some (m', pgs')" "chain_wf pgs"
  shows "length pgs' \<le> length pgs \<or>
    length pgs' = Suc (length pgs) \<and> length (chain_entries pgs) = 510 * length pgs"
proof (cases "\<forall>pg\<in>set pgs. PAGE_LIST_ENTRY_CAPACITY \<le> length (pl_entries pg)")
  case True
  then show ?thesis using assms full_chain_entries
    by (auto simp: chain_push_def push_walk_full split: bind_splits)
next
  case False
  obtain n qs st where w: "page_list_push_walk False m pgs b = (n, qs, st)" by (metis prod_cases3)
  then have "st" using False push_walk_stored [OF w] by (auto simp: not_le)
  then show ?thesis using assms w push_walk_length [OF w] by (simp add: chain_push_def)
qed

end
