(* ===== verification/Buddy_Blocks.thy ===== *)
theory Buddy_Blocks
  imports Kernel_Prelude "HOL-Library.Disjoint_Sets"
begin

text \<open>
  The abstract specification of a buddy zone, on page-frame numbers.  A block is a pair
  \<open>(k, p)\<close>: the \<open>2 ^ k\<close> frames from \<open>p\<close>, with \<open>p\<close> a multiple of \<open>2 ^ k\<close>.  A zone holds a
  finite set of blocks that are disjoint, lie inside the zone and are fully coalesced:
  no two blocks are buddies of each other below the largest order.  What the zone
  promises is its set of free frames.
\<close>

section \<open>Blocks of frames\<close>

definition block_frames :: "nat \<times> nat \<Rightarrow> nat set" where
  "block_frames = (\<lambda>(k, p). {p ..< p + 2 ^ k})"

definition free_frames_of :: "(nat \<times> nat) set \<Rightarrow> nat set" where
  "free_frames_of B = \<Union> (block_frames ` B)"

definition block_in :: "nat \<Rightarrow> nat \<Rightarrow> nat \<times> nat \<Rightarrow> bool" where
  "block_in lo hi = (\<lambda>(k, p). k < 19 \<and> 2 ^ k dvd p \<and> lo \<le> p \<and> p + 2 ^ k \<le> hi)"

definition disjoint_blocks :: "(nat \<times> nat) set \<Rightarrow> bool" where
  "disjoint_blocks B \<longleftrightarrow> disjoint_family_on block_frames B"

definition buddy_of :: "nat \<Rightarrow> nat \<Rightarrow> nat" where
  "buddy_of k p = (if even (p div 2 ^ k) then p + 2 ^ k else p - 2 ^ k)"

definition coalesced :: "(nat \<times> nat) set \<Rightarrow> bool" where
  "coalesced B \<longleftrightarrow> (\<forall>k p. (k, p) \<in> B \<longrightarrow> k < 18 \<longrightarrow> (k, buddy_of k p) \<notin> B)"

definition blocks_wf :: "nat \<Rightarrow> nat \<Rightarrow> (nat \<times> nat) set \<Rightarrow> bool" where
  "blocks_wf lo hi B \<longleftrightarrow> (\<forall>x\<in>B. block_in lo hi x) \<and> disjoint_blocks B \<and> coalesced B"

lemma mem_block_frames [simp]: "x \<in> block_frames (k, p) \<longleftrightarrow> p \<le> x \<and> x < p + 2 ^ k"
  by (simp add: block_frames_def)

lemma block_frames_nonempty [simp]: "block_frames x \<noteq> {}"
  by (cases x) (auto simp: block_frames_def)

lemma block_first_frame [simp]: "p \<in> block_frames (k, p)"
  by simp

lemma finite_block_frames [simp]: "finite (block_frames x)"
  by (cases x) (simp add: block_frames_def)

lemma card_block_frames [simp]: "card (block_frames (k, p)) = 2 ^ k"
  by (simp add: block_frames_def)

lemma block_frames_mono: "k \<le> j \<Longrightarrow> block_frames (k, p) \<subseteq> block_frames (j, p)"
  using power_increasing [of k j "2 :: nat"] by (auto simp: block_frames_def)

lemma free_frames_of_insert [simp]:
  "free_frames_of (insert x B) = block_frames x \<union> free_frames_of B"
  by (simp add: free_frames_of_def)

lemma free_frames_of_empty [simp]: "free_frames_of {} = {}"
  by (simp add: free_frames_of_def)

lemma mem_free_frames_of: "f \<in> free_frames_of B \<longleftrightarrow> (\<exists>x\<in>B. f \<in> block_frames x)"
  by (auto simp: free_frames_of_def)

section \<open>Alignment\<close>

text \<open>Two aligned blocks are nested or disjoint.\<close>

lemma aligned_bounds:
  fixes p q n m :: nat
  assumes "n dvd m" "n dvd q" "m dvd p" "0 < n" "q < p + m" "p < q + n"
  shows "p \<le> q \<and> q + n \<le> p + m"
proof -
  obtain a b c where abc: "m = n * a" "q = n * b" "p = m * c" using assms(1-3) unfolding dvd_def by blast
  have "n * b < n * (a * c + a)" "n * (a * c) < n * (b + 1)"
    using assms abc by (auto simp: algebra_simps)
  then have "b < a * c + a" "a * c < b + 1" using assms(4) by (simp_all only: mult_less_cancel1)
  then have "a * c \<le> b" "b + 1 \<le> a * c + a" by auto
  then have "n * (a * c) \<le> n * b" "n * (b + 1) \<le> n * (a * c + a)" by (simp_all only: mult_le_mono2)
  then show ?thesis using abc by (simp add: algebra_simps)
qed

lemma blocks_nested:
  assumes "2 ^ j dvd q" "2 ^ k dvd p" "j \<le> k"
    and meet: "block_frames (j, q) \<inter> block_frames (k, p) \<noteq> {}"
  shows "block_frames (j, q) \<subseteq> block_frames (k, p)"
proof -
  have "(2::nat) ^ j dvd 2 ^ k" using assms(3) by (simp add: le_imp_power_dvd)
  moreover have "q < p + 2 ^ k" "p < q + 2 ^ j" using meet by auto
  ultimately have "p \<le> q \<and> q + 2 ^ j \<le> p + 2 ^ k"
    using aligned_bounds [of "2 ^ j" "2 ^ k" q p] assms(1,2) by simp
  then show ?thesis by auto
qed

lemma same_order_meet:
  assumes "2 ^ k dvd q" "2 ^ k dvd p" "block_frames (k, q) \<inter> block_frames (k, p) \<noteq> {}"
  shows "q = p"
proof -
  have "block_frames (k, q) \<subseteq> block_frames (k, p)" "block_frames (k, p) \<subseteq> block_frames (k, q)"
    using blocks_nested [of k q k p] blocks_nested [of k p k q] assms by auto
  then have "q \<in> block_frames (k, p)" "p \<in> block_frames (k, q)" by auto
  then show ?thesis by simp
qed

section \<open>Buddies\<close>

lemma buddy_of_mult: "buddy_of k (2 ^ k * c) = 2 ^ k * (if even c then c + 1 else c - 1)"
  by (auto simp: buddy_of_def algebra_simps)

lemma buddy_aligned: "2 ^ k dvd p \<Longrightarrow> 2 ^ k dvd buddy_of k p"
  by (auto simp: buddy_of_mult)

lemma buddy_neq: "2 ^ k dvd p \<Longrightarrow> buddy_of k p \<noteq> p"
  unfolding dvd_def by (auto elim!: oddE simp: buddy_of_mult split: if_splits)

lemma buddy_buddy: "2 ^ k dvd p \<Longrightarrow> buddy_of k (buddy_of k p) = p"
  unfolding dvd_def by (auto elim!: oddE simp: buddy_of_mult)

lemma buddy_cases:
  assumes "2 ^ k dvd p"
  obtains (low) "2 ^ Suc k dvd p" "buddy_of k p = p + 2 ^ k"
        | (high) q where "2 ^ Suc k dvd q" "p = q + 2 ^ k" "buddy_of k p = q"
proof -
  obtain c where c: "p = 2 ^ k * c" using assms by auto
  show thesis
  proof (cases "even c")
    case True
    then obtain e where "c = 2 * e" by (auto elim!: evenE)
    then show thesis using low c buddy_of_mult [of k c] by (simp add: algebra_simps)
  next
    case False
    then obtain e where "c = 2 * e + 1" by (auto elim!: oddE)
    then show thesis using high [of "2 ^ Suc k * e"] c buddy_of_mult [of k c] by (simp add: algebra_simps)
  qed
qed

text \<open>A block and its buddy make up the parent block, at the smaller of the two addresses.\<close>

lemma buddy_parent:
  assumes "2 ^ k dvd p"
  shows "2 ^ Suc k dvd min p (buddy_of k p)"
    and "block_frames (Suc k, min p (buddy_of k p)) = block_frames (k, p) \<union> block_frames (k, buddy_of k p)"
    and "block_frames (k, p) \<inter> block_frames (k, buddy_of k p) = {}"
proof -
  show "2 ^ Suc k dvd min p (buddy_of k p)"
    by (rule buddy_cases [OF assms]) (auto simp: min_def)
  show "block_frames (Suc k, min p (buddy_of k p)) = block_frames (k, p) \<union> block_frames (k, buddy_of k p)"
    by (rule buddy_cases [OF assms]) (auto simp: min_def block_frames_def)
  show "block_frames (k, p) \<inter> block_frames (k, buddy_of k p) = {}"
    by (rule buddy_cases [OF assms]) (auto simp: block_frames_def)
qed

lemma split_block:
  assumes "2 ^ Suc k dvd p"
  shows "block_frames (Suc k, p) = block_frames (k, p) \<union> block_frames (k, p + 2 ^ k)"
    and "block_frames (k, p) \<inter> block_frames (k, p + 2 ^ k) = {}"
    and "2 ^ k dvd p" and "2 ^ k dvd p + 2 ^ k" and "buddy_of k (p + 2 ^ k) = p"
proof -
  show p: "2 ^ k dvd p" using assms by (auto dest: dvd_mult_right)
  then show "2 ^ k dvd p + 2 ^ k" by simp
  from assms obtain e where "p = 2 ^ k * (2 * e)" by auto
  then have "p + 2 ^ k = 2 ^ k * (2 * e + 1)" by (simp add: algebra_simps)
  then show "buddy_of k (p + 2 ^ k) = p"
    using \<open>p = 2 ^ k * (2 * e)\<close> buddy_of_mult [of k "2 * e + 1"] by (simp add: add.commute)
qed (auto simp: block_frames_def)

section \<open>Adding and removing a block\<close>

lemma blocks_wfD:
  assumes "blocks_wf lo hi B" "(k, p) \<in> B"
  shows "k < 19" "2 ^ k dvd p" "lo \<le> p" "p + 2 ^ k \<le> hi"
  using assms by (auto simp: blocks_wf_def block_in_def)

lemma blocks_wf_disjoint:
  "blocks_wf lo hi B \<Longrightarrow> x \<in> B \<Longrightarrow> y \<in> B \<Longrightarrow> x \<noteq> y \<Longrightarrow> block_frames x \<inter> block_frames y = {}"
  by (auto simp: blocks_wf_def disjoint_blocks_def disjoint_family_on_def)

lemma blocks_wf_finite:
  assumes "blocks_wf lo hi B"
  shows "finite B"
proof (rule finite_subset)
  show "B \<subseteq> {..<19} \<times> {..<hi}"
  proof
    fix x assume xB: "x \<in> B"
    obtain k p where x: "x = (k, p)" by fastforce
    have "p < p + 2 ^ k" by simp
    also have "\<dots> \<le> hi" using blocks_wfD(4) [OF assms] xB x by simp
    finally have "p < hi" .
    moreover have "k < 19" using blocks_wfD(1) [OF assms] xB x by simp
    ultimately show "x \<in> {..<19} \<times> {..<hi}" by (simp add: x)
  qed
qed simp

lemma blocks_wf_subset: "blocks_wf lo hi B \<Longrightarrow> C \<subseteq> B \<Longrightarrow> blocks_wf lo hi C"
  unfolding blocks_wf_def disjoint_blocks_def disjoint_family_on_def coalesced_def by blast

lemma blocks_wf_insert:
  assumes wf: "blocks_wf lo hi B" and x: "block_in lo hi (k, p)"
    and free: "block_frames (k, p) \<inter> free_frames_of B = {}"
    and nb: "k < 18 \<Longrightarrow> (k, buddy_of k p) \<notin> B"
  shows "blocks_wf lo hi (insert (k, p) B)"
proof -
  have al: "2 ^ k dvd p" using x by (simp add: block_in_def)
  have "disjoint_blocks (insert (k, p) B)"
    using wf free unfolding blocks_wf_def disjoint_blocks_def disjoint_family_on_def free_frames_of_def
    by blast
  moreover have "coalesced (insert (k, p) B)"
    unfolding coalesced_def
  proof (intro allI impI notI)
    fix j q assume jq: "(j, q) \<in> insert (k, p) B" "j < 18" "(j, buddy_of j q) \<in> insert (k, p) B"
    show False
    proof (cases "(j, q) = (k, p)")
      case True
      then show False using jq nb buddy_neq [OF al] by auto
    next
      case False
      then have "(j, q) \<in> B" using jq by blast
      moreover have "2 ^ j dvd q" using blocks_wfD(2) [OF wf \<open>(j, q) \<in> B\<close>] .
      ultimately show False
        using jq nb wf buddy_buddy [of j q] by (auto simp: blocks_wf_def coalesced_def)
    qed
  qed
  ultimately show ?thesis using wf x by (simp add: blocks_wf_def)
qed

lemma free_frames_of_remove:
  assumes "blocks_wf lo hi B" "x \<in> B"
  shows "free_frames_of (B - {x}) = free_frames_of B - block_frames x"
  using blocks_wf_disjoint [OF assms] by (auto simp: free_frames_of_def)

lemma free_frames_of_bounds: "blocks_wf lo hi B \<Longrightarrow> free_frames_of B \<subseteq> {lo ..< hi}"
  by (auto simp: free_frames_of_def) (metis blocks_wfD(3) order_trans,
      metis blocks_wfD(4) order_less_le_trans)

lemma finite_free_frames_of: "blocks_wf lo hi B \<Longrightarrow> finite (free_frames_of B)"
  by (rule finite_subset [OF free_frames_of_bounds]) auto

section \<open>Coalescing is complete\<close>

text \<open>
  If every frame of an aligned block is free then some free block is at least as large:
  the smallest free block inside would have a free buddy.
\<close>

lemma free_region_has_block:
  assumes wf: "blocks_wf lo hi B" and k: "k < 19" "2 ^ k dvd p"
    and free: "block_frames (k, p) \<subseteq> free_frames_of B"
  shows "\<exists>j q. (j, q) \<in> B \<and> k \<le> j"
proof (rule ccontr)
  assume none: "\<not> ?thesis"
  let ?R = "block_frames (k, p)"
  let ?P = "\<lambda>j. \<exists>q. (j, q) \<in> B \<and> block_frames (j, q) \<inter> ?R \<noteq> {}"
  have "p \<in> free_frames_of B" using free by auto
  moreover have "p \<in> ?R" by simp
  ultimately have ex: "\<exists>j. ?P j" unfolding mem_free_frames_of by fast
  define j where "j = (LEAST j. ?P j)"
  have "?P j" unfolding j_def by (rule LeastI_ex [OF ex])
  have least: "j \<le> i" if "?P i" for i unfolding j_def using that by (rule Least_le)
  from \<open>?P j\<close> obtain q where q: "(j, q) \<in> B" "block_frames (j, q) \<inter> ?R \<noteq> {}" by blast
  have al: "2 ^ j dvd q" using blocks_wfD(2) [OF wf q(1)] .
  have jk: "j < k" using none q(1) by auto
  let ?b = "buddy_of j q" and ?m = "min q (buddy_of j q)"
  note par = buddy_parent [OF al]
  have "block_frames (Suc j, ?m) \<subseteq> ?R"
    using blocks_nested [OF par(1) k(2)] jk q(2) by (auto simp: par(2))
  moreover have b: "?b \<in> block_frames (Suc j, ?m)" unfolding par(2) by simp
  ultimately have "?b \<in> free_frames_of B" "?b \<in> ?R" using free by blast+
  from this(1) obtain i r where r: "(i, r) \<in> B" "?b \<in> block_frames (i, r)"
    by (auto simp: mem_free_frames_of)
  with r \<open>?b \<in> ?R\<close> have "?P i" by blast
  then have ij: "j \<le> i" by (rule least)
  have ra: "2 ^ i dvd r" using blocks_wfD(2) [OF wf r(1)] .
  show False
  proof (cases "i = j")
    case True
    have "?b \<in> block_frames (j, ?b) \<inter> block_frames (j, r)" using r(2) True by simp
    then have "?b = r" using same_order_meet [OF buddy_aligned [OF al], of r] ra True by blast
    then show False using wf q(1) r(1) True jk k(1) by (auto simp: blocks_wf_def coalesced_def)
  next
    case False
    then have "Suc j \<le> i" using ij by simp
    then have "block_frames (Suc j, ?m) \<subseteq> block_frames (i, r)"
      using blocks_nested [OF par(1) ra] r(2) b by blast
    then have "block_frames (j, q) \<inter> block_frames (i, r) \<noteq> {}"
      using par(2) block_frames_nonempty [of "(j, q)"] by blast
    then show False using blocks_wf_disjoint [OF wf q(1) r(1)] False by auto
  qed
qed

section \<open>How many blocks a zone can hold\<close>

lemma finite_order_blocks:
  assumes "blocks_wf lo hi B"
  shows "finite {p. (k, p) \<in> B}"
  by (rule finite_subset [of _ "snd ` B"]) (force simp: blocks_wf_finite [OF assms])+

lemma card_disjoint_blocks:
  assumes S: "finite S" "inj_on g S" and al: "\<And>p. p \<in> S \<Longrightarrow> 2 ^ k dvd g p"
    and sub: "\<And>p. p \<in> S \<Longrightarrow> block_frames (k, g p) \<subseteq> {a ..< b}"
  shows "card S * 2 ^ k \<le> b - a"
proof -
  have "card (\<Union>p\<in>S. block_frames (k, g p)) = (\<Sum>p\<in>S. card (block_frames (k, g p)))"
  proof (rule card_UN_disjoint)
    show "\<forall>p\<in>S. \<forall>q\<in>S. p \<noteq> q \<longrightarrow> block_frames (k, g p) \<inter> block_frames (k, g q) = {}"
      using al same_order_meet S(2) by (meson inj_onD)
  qed (use S in auto)
  moreover have "card (\<Union>p\<in>S. block_frames (k, g p)) \<le> card {a ..< b}"
    using sub by (intro card_mono) auto
  ultimately show ?thesis by simp
qed

text \<open>
  Of a block and its buddy at most one is free, so the parents of the free blocks of one
  order are disjoint; they stick out of the zone by at most half a parent on each side.
\<close>

lemma card_order_blocks:
  assumes wf: "blocks_wf lo hi B" and k: "k < 18" and le: "lo \<le> hi"
  shows "(card {p. (k, p) \<in> B} - 1) * 2 ^ Suc k \<le> hi - lo"
proof -
  let ?S = "{p. (k, p) \<in> B}" and ?g = "\<lambda>p. min p (buddy_of k p)"
  have al: "2 ^ k dvd p" if "p \<in> ?S" for p using that blocks_wfD(2) [OF wf] by simp
  have fin: "finite ?S" by (rule finite_order_blocks [OF wf])
  have inj: "inj_on ?g ?S"
  proof (rule inj_onI)
    fix p q assume pq: "p \<in> ?S" "q \<in> ?S" "?g p = ?g q"
    then have "block_frames (k, p) \<union> block_frames (k, buddy_of k p) =
        block_frames (k, q) \<union> block_frames (k, buddy_of k q)"
      using buddy_parent(2) al by metis
    then have "p \<in> block_frames (k, q) \<or> p \<in> block_frames (k, buddy_of k q)"
      using block_first_frame by blast
    then have "p = q \<or> p = buddy_of k q"
      using same_order_meet [OF al al] same_order_meet [OF al buddy_aligned [OF al]] pq
        block_first_frame by blast
    then show "p = q" using pq wf k unfolding blocks_wf_def coalesced_def by blast
  qed
  have sub: "block_frames (Suc k, ?g p) \<subseteq> {lo - 2 ^ k ..< hi + 2 ^ k}" if "p \<in> ?S" for p
    using blocks_wfD(3,4) [OF wf, of k p] that
    by (rule_tac buddy_cases [OF al [OF that]]) (auto simp: min_def)
  have "card ?S * 2 ^ Suc k \<le> hi + 2 ^ k - (lo - 2 ^ k)"
    by (rule card_disjoint_blocks [OF fin inj buddy_parent(1) [OF al] sub])
  also have "\<dots> \<le> hi - lo + 2 ^ Suc k" using le by simp
  finally show ?thesis by (simp add: diff_mult_distrib)
qed

lemma card_top_blocks:
  assumes wf: "blocks_wf lo hi B"
  shows "card {p. (k, p) \<in> B} * 2 ^ k \<le> hi - lo"
proof (rule card_disjoint_blocks [where g = "\<lambda>p. p"])
  show "finite {p. (k, p) \<in> B}" by (rule finite_order_blocks [OF wf])
  fix p assume p: "p \<in> {p. (k, p) \<in> B}"
  then show "2 ^ k dvd p" using blocks_wfD(2) [OF wf] by simp
  show "block_frames (k, p) \<subseteq> {lo ..< hi}" using p blocks_wfD(3,4) [OF wf, of k p] by auto
qed simp

text \<open>The pages needed for the lists of all orders, beyond one page each.\<close>

definition order_quota :: "nat \<Rightarrow> nat \<Rightarrow> nat" where
  "order_quota F k = (if k < 18 then F div 2 ^ Suc k else F div 2 ^ 18) div 510"

lemma sum_halves: "(\<Sum>k<n. F div 2 ^ Suc k) + F div 2 ^ n \<le> (F::nat)"
proof (induction n)
  case (Suc n)
  have "F div 2 ^ Suc n = F div 2 ^ n div 2" by (simp only: power_Suc2 div_mult2_eq)
  then have "F div 2 ^ Suc n + F div 2 ^ Suc n \<le> F div 2 ^ n" by simp
  then show ?case using Suc by simp
qed simp

lemma sum_div_le: "(\<Sum>k\<in>A. f k div d) \<le> (\<Sum>k\<in>A. f k) div (d::nat)"
proof (cases "d = 0")
  case False
  have "(\<Sum>k\<in>A. f k div d) * d \<le> (\<Sum>k\<in>A. f k)"
    by (simp add: sum_distrib_right) (rule sum_mono, simp)
  then show ?thesis using False by (simp add: less_eq_div_iff_mult_less_eq)
qed simp

lemma sum_order_quota: "(\<Sum>k<19. order_quota F k) \<le> F div 510"
proof -
  let ?f = "\<lambda>k. if k < 18 then F div 2 ^ Suc k else F div 2 ^ 18"
  have "(\<Sum>k<19. ?f k) = (\<Sum>k<18. F div 2 ^ Suc k) + F div 2 ^ 18"
    by (simp add: lessThan_Suc [of 18, simplified] del: power_Suc)
  also have "\<dots> \<le> F" by (rule sum_halves)
  finally have "(\<Sum>k<19. ?f k) div 510 \<le> F div 510" by (rule div_le_mono)
  then show ?thesis unfolding order_quota_def using sum_div_le [of ?f 510 "{..<19}"] by linarith
qed

end
