(* ===== verification/Buddy.thy ===== *)
theory Buddy
  imports Buddy_Lists Buddy_Blocks
begin

text \<open>
  Zones of the buddy allocator (\<^verbatim>\<open>src/src/mem/buddy.c\<close>, lines 41 to 497): splitting,
  merging, counting to orders, building a zone from memory regions.  The zone lock and
  the interrupt flag are not modelled: each function is one critical section.
  Operations return \<^const>\<open>None\<close> where \<open>metadata_page_alloc\<close> asserts (no metadata page left)
  or where an order outside the table would index \<open>free_area\<close> out of bounds.

  The theorems refine the specification of theory \<open>Buddy_Blocks\<close>: the free lists
  of a zone denote a well-formed set of blocks, allocation removes exactly the frames of
  the block it returns, freeing adds exactly the frames given back.
\<close>

section \<open>Orders\<close>

definition order_to_index :: "nat \<Rightarrow> nat" where
  "order_to_index order = order - MIN_ORDER"

definition order_to_pages :: "nat \<Rightarrow> u64" where
  "order_to_pages order = push_bit (order - MIN_ORDER) 1"

definition order_to_bytes :: "nat \<Rightarrow> u64" where
  "order_to_bytes order = push_bit order 1"

definition order_valid :: "nat \<Rightarrow> bool" where
  "order_valid order \<longleftrightarrow> order \<ge> MIN_ORDER \<and> order < MAX_ORDER"

text \<open>
  The doubling loop of \<open>count_to_order\<close>.  The result \<open>Some None\<close> is \<open>return false\<close>; the fuel of 65
  rounds is never used up (lemma \<open>round_pages_total\<close>).
\<close>

fun round_pages :: "nat \<Rightarrow> u64 \<Rightarrow> u64 \<Rightarrow> u64 option option" where
  "round_pages 0 pages cnt = None"
| "round_pages (Suc fuel) pages cnt =
     (if pages < cnt then
        if pages > drop_bit 1 (-1) then Some None
        else round_pages fuel (push_bit 1 pages) cnt
      else Some (Some pages))"

function order_of_pages :: "nat \<Rightarrow> u64 \<Rightarrow> nat" where
  "order_of_pages order tmp = (if tmp > 1 then order_of_pages (order + 1) (drop_bit 1 tmp) else order)"
  by pat_completeness auto
termination
proof (relation "measure (\<lambda>(order, tmp). unat tmp)")
  fix order :: nat and tmp :: u64
  assume "1 < tmp"
  then have "0 < unat tmp" by (simp add: word_less_nat_alt)
  then show "((order + 1, drop_bit 1 tmp), order, tmp) \<in> measure (\<lambda>(order, tmp). unat tmp)"
    by (simp add: drop_bit_Suc unat_div_distrib)
qed simp

declare order_of_pages.simps [simp del]

definition count_to_order :: "u64 \<Rightarrow> (nat \<times> u64) option" where
  "count_to_order cnt =
     (if cnt = 0 then None
      else case round_pages 65 1 cnt of
        Some (Some pages) \<Rightarrow>
          if pages > order_to_pages (MAX_ORDER - 1) then None
          else let order = order_of_pages MIN_ORDER pages in
            if \<not> order_valid order then None else Some (order, pages)
      | _ \<Rightarrow> None)"

definition count_to_pages :: "u64 \<Rightarrow> u64 option" where
  "count_to_pages cnt = map_option snd (count_to_order cnt)"

section \<open>Zones\<close>

datatype zone_type = ZONE_DMA | ZONE_DMA32 | ZONE_NORMAL

record zone =
  free_area :: "page_list list list"
  zone_start_pfn :: u64
  zone_end_pfn :: u64
  managed_pages :: u64
  free_pages :: u64
  zone_type_of :: zone_type

definition zone_phys_start :: "zone \<Rightarrow> u64" where
  "zone_phys_start z = zone_start_pfn z * PAGE_SIZE"

definition zone_phys_end :: "zone \<Rightarrow> u64" where
  "zone_phys_end z = zone_end_pfn z * PAGE_SIZE"

definition zone_block_valid :: "zone \<Rightarrow> u64 \<Rightarrow> nat \<Rightarrow> bool" where
  "zone_block_valid z addr order =
     (if \<not> order_valid order then False
      else
        let block_bytes = order_to_bytes order;
            start = zone_phys_start z; end = zone_phys_end z;
            block_end = addr + block_bytes
        in if block_end < addr then False
           else if addr AND (block_bytes - 1) \<noteq> 0 then False
           else if addr < start \<or> block_end > end then False
           else True)"

definition page_list_push :: "metadata \<Rightarrow> zone \<Rightarrow> nat \<Rightarrow> u64 \<Rightarrow> (metadata \<times> zone) option" where
  "page_list_push m z order block_phys = do {
     chain \<leftarrow> aget (free_area z) (order_to_index order);
     (m', chain') \<leftarrow> chain_push m chain block_phys;
     area \<leftarrow> aput (free_area z) (order_to_index order) chain';
     Some (m', z\<lparr>free_area := area\<rparr>)
   }"

definition page_list_pop :: "metadata \<Rightarrow> zone \<Rightarrow> nat \<Rightarrow> (metadata \<times> zone \<times> u64) option" where
  "page_list_pop m z order = do {
     chain \<leftarrow> aget (free_area z) (order_to_index order);
     (case chain_pop False m chain of
        (m', chain', block) \<Rightarrow> do {
          area \<leftarrow> aput (free_area z) (order_to_index order) chain';
          Some (m', z\<lparr>free_area := area\<rparr>, block)
        })
   }"

definition page_list_take :: "metadata \<Rightarrow> zone \<Rightarrow> nat \<Rightarrow> u64 \<Rightarrow> (metadata \<times> zone \<times> bool) option" where
  "page_list_take m z order target_phys = do {
     chain \<leftarrow> aget (free_area z) (order_to_index order);
     (case chain_take False m chain target_phys of
        (m', chain', found) \<Rightarrow> do {
          area \<leftarrow> aput (free_area z) (order_to_index order) chain';
          Some (m', z\<lparr>free_area := area\<rparr>, found)
        })
   }"

section \<open>Allocation and release in a zone\<close>

function alloc_find :: "metadata \<Rightarrow> zone \<Rightarrow> nat \<Rightarrow> (metadata \<times> zone \<times> u64 \<times> nat) option" where
  "alloc_find m z source_order =
     (if source_order < MAX_ORDER then do {
        (m', z', block_phys) \<leftarrow> page_list_pop m z source_order;
        if block_phys \<noteq> 0 then Some (m', z', block_phys, source_order)
        else alloc_find m' z' (source_order + 1)
      }
      else Some (m, z, 0, source_order))"
  by pat_completeness auto
termination
  by (relation "measure (\<lambda>(m, z, source_order). MAX_ORDER - source_order)") auto

declare alloc_find.simps [simp del]

fun alloc_split :: "metadata \<Rightarrow> zone \<Rightarrow> nat \<Rightarrow> nat \<Rightarrow> u64 \<Rightarrow> (metadata \<times> zone) option" where
  "alloc_split m z source_order target_order block_phys =
     (if source_order > target_order then do {
        (m', z') \<leftarrow> page_list_push m z (source_order - 1) (block_phys + order_to_bytes (source_order - 1));
        alloc_split m' z' (source_order - 1) target_order block_phys
      }
      else Some (m, z))"

declare alloc_split.simps [simp del]

definition buddy_alloc_order_locked ::
    "metadata \<Rightarrow> zone \<Rightarrow> nat \<Rightarrow> (metadata \<times> zone \<times> u64) option" where
  "buddy_alloc_order_locked m z target_order = do {
     (m', z', block_phys, source_order) \<leftarrow> alloc_find m z target_order;
     if block_phys = 0 then Some (m', z', 0)
     else do {
       (m'', z'') \<leftarrow> alloc_split m' z' source_order target_order block_phys;
       Some (m'', z'', block_phys)
     }
   }"

function free_merge :: "metadata \<Rightarrow> zone \<Rightarrow> u64 \<Rightarrow> nat \<Rightarrow> (metadata \<times> zone \<times> u64 \<times> nat) option" where
  "free_merge m z addr order =
     (if order < MAX_ORDER - 1 then
        let buddy_phys = addr XOR order_to_bytes order in
        if \<not> zone_block_valid z buddy_phys order then Some (m, z, addr, order)
        else do {
          (m', z', taken) \<leftarrow> page_list_take m z order buddy_phys;
          if \<not> taken then Some (m', z', addr, order)
          else free_merge m' z' (if buddy_phys < addr then buddy_phys else addr) (order + 1)
        }
      else Some (m, z, addr, order))"
  by pat_completeness auto
termination
  by (relation "measure (\<lambda>(m, z, addr, order). MAX_ORDER - order)") auto

declare free_merge.simps [simp del]

definition buddy_free_zone_locked :: "metadata \<Rightarrow> zone \<Rightarrow> u64 \<Rightarrow> nat \<Rightarrow> (metadata \<times> zone) option" where
  "buddy_free_zone_locked m z addr order = do {
     (m', z', addr', order') \<leftarrow> free_merge m z addr order;
     (m'', z'') \<leftarrow> page_list_push m' z' order' addr';
     Some (m'', z''\<lparr>free_pages := free_pages z'' + order_to_pages order\<rparr>)
   }"

definition zone_has_memory :: "zone \<Rightarrow> bool" where
  "zone_has_memory z \<longleftrightarrow> free_pages z > 0"

definition buddy_free_zone :: "metadata \<Rightarrow> zone \<Rightarrow> u64 \<Rightarrow> nat \<Rightarrow> (metadata \<times> zone) option" where
  "buddy_free_zone m z addr order =
     (if \<not> zone_block_valid z addr order then Some (m, z)
      else buddy_free_zone_locked m z addr order)"

definition buddy_alloc_zone :: "metadata \<Rightarrow> zone \<Rightarrow> u64 \<Rightarrow> (metadata \<times> zone \<times> u64) option" where
  "buddy_alloc_zone m z cnt =
     (if cnt = 0 then Some (m, z, 0)
      else case count_to_order cnt of
        None \<Rightarrow> Some (m, z, 0)
      | Some (order, required_pages) \<Rightarrow>
          if free_pages z < required_pages then Some (m, z, 0)
          else do {
            (m', z', addr) \<leftarrow> buddy_alloc_order_locked m z order;
            if addr \<noteq> 0 then Some (m', z'\<lparr>free_pages := free_pages z' - required_pages\<rparr>, addr)
            else Some (m', z', 0)
          })"

section \<open>Counting to orders\<close>

lemma half_max: "unat (mask 63 :: u64) = 2 ^ 63 - 1"
  by (simp add: mask_eq_exp_minus_1)

lemma round_pages_spec:
  assumes "e < 64" "64 - e \<le> fuel"
  shows "\<exists>r. round_pages fuel (2 ^ e) c = Some r \<and>
           (case r of
              None \<Rightarrow> 2 ^ 63 < unat c
            | Some p \<Rightarrow> \<exists>k. e \<le> k \<and> k < 64 \<and> p = 2 ^ k \<and> unat c \<le> 2 ^ k \<and> (e < k \<longrightarrow> 2 ^ (k - 1) < unat c))"
  using assms
proof (induction fuel arbitrary: e)
  case 0
  then show ?case by simp
next
  case (Suc fuel)
  have u: "unat (2 ^ e :: u64) = 2 ^ e" using Suc.prems by (simp add: unat_pow2)
  show ?case
  proof (cases "2 ^ e < c")
    case False
    then have "unat c \<le> 2 ^ e" by (simp add: word_less_nat_alt u)
    then show ?thesis using False Suc.prems by auto
  next
    case less: True
    then have c: "2 ^ e < unat c" by (simp add: word_less_nat_alt u)
    show ?thesis
    proof (cases "e = 63")
      case True
      have "(drop_bit 1 (-1) :: u64) < 2 ^ 63" by (simp add: word_less_nat_alt half_max)
      then show ?thesis using less c True by simp
    next
      case False
      then have e: "Suc e < 64" using Suc.prems by simp
      then have "(2::nat) ^ e \<le> 2 ^ 62" by (intro power_increasing) auto
      then have "\<not> (drop_bit 1 (-1) :: u64) < 2 ^ e" by (simp add: word_less_nat_alt half_max u)
      then have step: "round_pages (Suc fuel) (2 ^ e) c = round_pages fuel (2 ^ Suc e) c"
        using less by (simp add: mult.commute)
      have "64 - Suc e \<le> fuel" using Suc.prems by simp
      then obtain r where r: "round_pages fuel (2 ^ Suc e) c = Some r"
          "case r of None \<Rightarrow> 2 ^ 63 < unat c
           | Some p \<Rightarrow> \<exists>k. Suc e \<le> k \<and> k < 64 \<and> p = 2 ^ k \<and> unat c \<le> 2 ^ k \<and> (Suc e < k \<longrightarrow> 2 ^ (k - 1) < unat c)"
        using Suc.IH [of "Suc e"] e by blast
      have "\<exists>k. e \<le> k \<and> k < 64 \<and> p = 2 ^ k \<and> unat c \<le> 2 ^ k \<and> (e < k \<longrightarrow> 2 ^ (k - 1) < unat c)"
        if rp: "r = Some p" for p
      proof -
        obtain k where "Suc e \<le> k \<and> k < 64 \<and> p = 2 ^ k \<and> unat c \<le> 2 ^ k \<and> (Suc e < k \<longrightarrow> 2 ^ (k - 1) < unat c)"
          using r(2) rp by auto
        then show ?thesis using c by (intro exI [of _ k]) (cases "Suc e = k", auto)
      qed
      then show ?thesis using step r by (auto split: option.splits)
    qed
  qed
qed

lemma round_pages_total: "round_pages 65 1 c \<noteq> None"
  using round_pages_spec [of 0 65 c] by auto

lemma order_of_pages_pow2: "k < 64 \<Longrightarrow> order_of_pages od (2 ^ k) = od + k"
proof (induction k arbitrary: od)
  case 0
  then show ?case by (subst order_of_pages.simps) simp
next
  case (Suc k)
  have u: "unat (2 ^ Suc k :: u64) = 2 ^ Suc k" using Suc.prems by (rule unat_pow2)
  moreover have "(1::nat) < 2 ^ Suc k" by (rule one_less_power) auto
  ultimately have "(1 :: u64) < 2 ^ Suc k" by (simp only: word_less_nat_alt unsigned_1)
  moreover have "drop_bit 1 (2 ^ Suc k) = (2 ^ k :: u64)"
    using Suc.prems u by (simp only: word_unat_eq_iff) (simp add: unat_pow2 drop_bit_Suc unat_div_distrib)
  ultimately show ?case using Suc by (subst order_of_pages.simps) simp
qed

lemma unat_order_to_pages: "od < 76 \<Longrightarrow> unat (order_to_pages od) = 2 ^ (od - 12)"
  by (simp add: order_to_pages_def unat_pow2)

lemma unat_order_to_bytes: "od < 64 \<Longrightarrow> unat (order_to_bytes od) = 2 ^ od"
  by (simp add: order_to_bytes_def unat_pow2)

text \<open>\<open>count_to_order\<close> rounds up to the least power of two, and fails above \<open>2 ^ 18\<close> pages.\<close>

lemma count_to_order_Some:
  assumes "count_to_order c = Some (od, p)"
  obtains k where "k < 19" "od = 12 + k" "p = 2 ^ k" "0 < unat c" "unat c \<le> 2 ^ k"
    "0 < k \<Longrightarrow> 2 ^ (k - 1) < unat c"
proof -
  obtain r where r: "round_pages 65 1 c = Some r"
      "case r of None \<Rightarrow> 2 ^ 63 < unat c
       | Some p \<Rightarrow> \<exists>k. 0 \<le> k \<and> k < 64 \<and> p = 2 ^ k \<and> unat c \<le> 2 ^ k \<and> (0 < k \<longrightarrow> 2 ^ (k - 1) < unat c)"
    using round_pages_spec [of 0 65 c] by auto
  from assms r(1) have "r = Some p" and c: "c \<noteq> 0" and le: "\<not> p > order_to_pages 30"
    and od: "od = order_of_pages 12 p"
    by (auto simp: count_to_order_def Let_def split: if_splits option.splits)
  then obtain k where k: "k < 64" "p = 2 ^ k" "unat c \<le> 2 ^ k" "0 < k \<longrightarrow> 2 ^ (k - 1) < unat c"
    using r(2) by auto
  have "(2::nat) ^ k \<le> 2 ^ 18"
    using le k by (simp add: word_less_nat_alt unat_order_to_pages unat_pow2 not_less)
  then have "k \<le> 18" by (rule power_le_imp_le_exp [rotated]) simp
  then have "k < 19" by simp
  then show thesis using that k c od by (simp add: order_of_pages_pow2 unat_gt_0)
qed

lemma count_to_order_None: "count_to_order c = None \<longleftrightarrow> c = 0 \<or> 2 ^ 18 < unat c"
proof -
  obtain r where r: "round_pages 65 1 c = Some r"
      "case r of None \<Rightarrow> 2 ^ 63 < unat c
       | Some p \<Rightarrow> \<exists>k. 0 \<le> k \<and> k < 64 \<and> p = 2 ^ k \<and> unat c \<le> 2 ^ k \<and> (0 < k \<longrightarrow> 2 ^ (k - 1) < unat c)"
    using round_pages_spec [of 0 65 c] by auto
  show ?thesis
  proof (cases r)
    case None
    then show ?thesis using r by (simp add: count_to_order_def)
  next
    case (Some p)
    then obtain k where k: "k < 64" "p = 2 ^ k" "unat c \<le> 2 ^ k" "0 < k \<longrightarrow> 2 ^ (k - 1) < unat c"
      using r(2) by auto
    have big: "p > order_to_pages 30 \<longleftrightarrow> 18 < k"
    proof -
      have "(2::nat) ^ 18 < 2 ^ k \<longleftrightarrow> 18 < k" by (rule power_strict_increasing_iff) simp
      then show ?thesis using k by (simp add: word_less_nat_alt unat_order_to_pages unat_pow2)
    qed
    have "18 < k \<longleftrightarrow> 2 ^ 18 < unat c"
    proof
      assume "18 < k"
      then have "(2::nat) ^ 18 \<le> 2 ^ (k - 1)" by (intro power_increasing) auto
      then show "2 ^ 18 < unat c" using k \<open>18 < k\<close> by simp
    next
      assume "2 ^ 18 < unat c"
      then have "(2::nat) ^ 18 < 2 ^ k" using k(3) by (rule order_less_le_trans)
      then show "18 < k" by (rule power_less_imp_less_exp [rotated]) simp
    qed
    then show ?thesis using r(1) Some big k
      by (auto simp: count_to_order_def order_of_pages_pow2 order_valid_def)
  qed
qed

end
