(* ===== verification/Buddy_Zone.thy ===== *)
theory Buddy_Zone
  imports Buddy
begin

text \<open>
  The refinement proof of the zone operations of theory \<open>Buddy\<close>: what the free lists
  denote, their invariant, and the effect of push, pop, take, allocation and release on
  the set of free frames.
\<close>

section \<open>Addresses and frames\<close>

definition pfn :: "u64 \<Rightarrow> nat" where
  "pfn a = unat a div 4096"

definition page_aligned :: "u64 \<Rightarrow> bool" where
  "page_aligned a \<longleftrightarrow> 4096 dvd unat a"

lemma unat_pfn: "page_aligned a \<Longrightarrow> unat a = pfn a * 4096"
  by (simp add: pfn_def page_aligned_def)

lemma pfn_inject: "page_aligned a \<Longrightarrow> page_aligned b \<Longrightarrow> pfn a = pfn b \<longleftrightarrow> a = b"
  by (metis unat_pfn word_unat_eq_iff)

lemma pow12: "(2::nat) ^ (12 + k) = 2 ^ k * 4096"
  by (simp add: power_add)

lemma block_aligned_iff: "2 ^ (12 + k) dvd unat a \<longleftrightarrow> page_aligned a \<and> 2 ^ k dvd pfn a"
proof
  assume "2 ^ (12 + k) dvd unat a"
  then obtain c where c: "unat a = 2 ^ k * 4096 * c" unfolding pow12 by auto
  then have "page_aligned a" by (simp add: page_aligned_def)
  moreover have "pfn a = 2 ^ k * c" by (simp add: pfn_def c mult.assoc mult.left_commute)
  ultimately show "page_aligned a \<and> 2 ^ k dvd pfn a" by simp
next
  assume "page_aligned a \<and> 2 ^ k dvd pfn a"
  then show "2 ^ (12 + k) dvd unat a" unfolding pow12 by (auto simp: unat_pfn)
qed

definition zone_bounds :: "zone \<Rightarrow> bool" where
  "zone_bounds z \<longleftrightarrow> zone_start_pfn z \<le> zone_end_pfn z \<and> unat (zone_end_pfn z) * 4096 < 2 ^ 64"

abbreviation zlo :: "zone \<Rightarrow> nat" where "zlo z \<equiv> unat (zone_start_pfn z)"
abbreviation zhi :: "zone \<Rightarrow> nat" where "zhi z \<equiv> unat (zone_end_pfn z)"

lemma zone_phys_bounds:
  assumes "zone_bounds z"
  shows "unat (zone_phys_start z) = zlo z * 4096" "unat (zone_phys_end z) = zhi z * 4096"
proof -
  have "zlo z \<le> zhi z" using assms by (simp add: zone_bounds_def word_le_nat_alt)
  then show "unat (zone_phys_start z) = zlo z * 4096" "unat (zone_phys_end z) = zhi z * 4096"
    using assms by (simp_all add: zone_phys_start_def zone_phys_end_def unat_word_ariths zone_bounds_def)
qed

text \<open>The run-time check of a block is the specification's, on frames.\<close>

lemma zone_block_valid_iff:
  assumes z: "zone_bounds z" and k: "k < 19"
  shows "zone_block_valid z a (12 + k) \<longleftrightarrow> page_aligned a \<and> block_in (zlo z) (zhi z) (k, pfn a)"
proof -
  let ?b = "order_to_bytes (12 + k)"
  have b: "unat ?b = 2 ^ k * 4096" using k by (simp add: unat_order_to_bytes power_add)
  have al: "a AND (?b - 1) = 0 \<longleftrightarrow> page_aligned a \<and> 2 ^ k dvd pfn a"
    using k aligned_iff_dvd [of "12 + k" a] block_aligned_iff [of k a] by (simp add: order_to_bytes_def)
  have wrap: "a + ?b < a \<longleftrightarrow> 2 ^ 64 \<le> unat a + 2 ^ k * 4096" by (simp only: wrap_check_iff b)
  have sum: "unat (a + ?b) = unat a + 2 ^ k * 4096" if "\<not> a + ?b < a"
    using that wrap by (simp add: unat_word_ariths b)
  have hi: "zhi z * 4096 < 2 ^ 64" using z by (simp add: zone_bounds_def)
  show ?thesis
  proof (cases "page_aligned a \<and> 2 ^ k dvd pfn a")
    case False
    then show ?thesis using al k by (auto simp: zone_block_valid_def Let_def block_in_def)
  next
    case True
    then have u: "unat a = pfn a * 4096" by (simp add: unat_pfn)
    have "zone_block_valid z a (12 + k) \<longleftrightarrow> \<not> a + ?b < a \<and> zlo z * 4096 \<le> unat a \<and> unat (a + ?b) \<le> zhi z * 4096"
      using True al k zone_phys_bounds [OF z]
      by (auto simp: zone_block_valid_def Let_def order_valid_def word_less_nat_alt not_less)
    also have "\<dots> \<longleftrightarrow> zlo z * 4096 \<le> pfn a * 4096 \<and> (pfn a + 2 ^ k) * 4096 \<le> zhi z * 4096"
      using sum wrap u hi by (cases "a + ?b < a") (auto simp: algebra_simps)
    also have "\<dots> \<longleftrightarrow> zlo z \<le> pfn a \<and> pfn a + 2 ^ k \<le> zhi z"
      by (simp only: mult_le_cancel2) simp
    finally show ?thesis using True k by (simp add: block_in_def)
  qed
qed

text \<open>Exclusive-or with the block size is the buddy on frames.\<close>

lemma buddy_address:
  assumes k: "k < 19" and a: "page_aligned a" "2 ^ k dvd pfn a"
  shows "page_aligned (a XOR order_to_bytes (12 + k))"
    and "pfn (a XOR order_to_bytes (12 + k)) = buddy_of k (pfn a)"
proof -
  let ?x = "a XOR 2 ^ (12 + k)"
  have x: "a XOR order_to_bytes (12 + k) = ?x" by (simp add: order_to_bytes_def)
  obtain c where c: "pfn a = 2 ^ k * c" using a(2) by auto
  have u: "unat a = 2 ^ k * c * 4096" using a(1) c by (simp add: unat_pfn)
  have "unat a div 2 ^ (12 + k) = c" unfolding pow12 u by (simp add: mult.commute mult.left_commute)
  then have bit: "bit a (12 + k) = odd c" by (simp only: bit_u64_iff)
  have "page_aligned ?x \<and> pfn ?x = buddy_of k (pfn a)"
  proof (cases "odd c")
    case False
    then have "unat ?x = 2 ^ k * (c + 1) * 4096"
      using unat_xor_clear [of "12 + k" a, unfolded pow12] k bit u by (simp add: algebra_simps)
    then show ?thesis using False c by (simp add: page_aligned_def pfn_def buddy_of_mult)
  next
    case True
    then have "unat ?x + 2 ^ k * 4096 = unat a"
      using unat_xor_set [of "12 + k" a, unfolded pow12] k bit by simp
    then have "unat ?x = 2 ^ k * (c - 1) * 4096" using u True by (simp add: algebra_simps)
    then show ?thesis using True c by (simp add: page_aligned_def pfn_def buddy_of_mult)
  qed
  then show "page_aligned (a XOR order_to_bytes (12 + k))"
    "pfn (a XOR order_to_bytes (12 + k)) = buddy_of k (pfn a)" by (simp_all add: x)
qed

lemma upper_half_address:
  assumes "page_aligned a" "k < 19" "(pfn a + 2 ^ k) * 4096 < 2 ^ 64"
  shows "page_aligned (a + order_to_bytes (12 + k))"
    and "pfn (a + order_to_bytes (12 + k)) = pfn a + 2 ^ k"
proof -
  have "unat (a + order_to_bytes (12 + k)) = (pfn a + 2 ^ k) * 4096"
    using assms by (subst unat_add_no_wrap) (simp_all add: unat_order_to_bytes unat_pfn power_add algebra_simps)
  then show "page_aligned (a + order_to_bytes (12 + k))"
    "pfn (a + order_to_bytes (12 + k)) = pfn a + 2 ^ k"
    by (simp_all add: page_aligned_def pfn_def)
qed

lemma pfn_min:
  assumes "page_aligned a" "page_aligned b"
  shows "pfn (if b < a then b else a) = min (pfn a) (pfn b)"
  using assms by (auto simp: min_def word_less_nat_alt unat_pfn)

section \<open>The free lists of a zone\<close>

definition zone_entries :: "zone \<Rightarrow> nat \<Rightarrow> u64 list" where
  "zone_entries z k = chain_entries (free_area z ! k)"

definition zone_blocks :: "zone \<Rightarrow> (nat \<times> nat) set" where
  "zone_blocks z = {(k, pfn a) | k a. k < 19 \<and> a \<in> set (zone_entries z k)}"

definition area_wf :: "page_list list \<Rightarrow> bool" where
  "area_wf c \<longleftrightarrow> chain_wf c \<and> distinct (chain_entries c) \<and>
     (\<forall>a\<in>set (chain_entries c). page_aligned a \<and> a \<noteq> 0)"

definition lists_wf :: "zone \<Rightarrow> bool" where
  "lists_wf z \<longleftrightarrow> zone_bounds z \<and> length (free_area z) = 19 \<and>
     (\<forall>k<19. area_wf (free_area z ! k)) \<and> blocks_wf (zlo z) (zhi z) (zone_blocks z)"

definition zone_free_frames :: "zone \<Rightarrow> nat set" where
  "zone_free_frames z = free_frames_of (zone_blocks z)"

text \<open>Everything but the free lists is unchanged.\<close>

definition same_zone :: "zone \<Rightarrow> zone \<Rightarrow> bool" where
  "same_zone z z' \<longleftrightarrow> (\<exists>area. z' = z\<lparr>free_area := area\<rparr>)"

lemma same_zone_fields:
  "same_zone z z' \<Longrightarrow> zone_start_pfn z' = zone_start_pfn z \<and> zone_end_pfn z' = zone_end_pfn z \<and>
     free_pages z' = free_pages z \<and> managed_pages z' = managed_pages z \<and>
     zone_type_of z' = zone_type_of z \<and> zone_bounds z' = zone_bounds z"
  by (auto simp: same_zone_def zone_bounds_def)

lemma same_zone_refl [simp]: "same_zone z z"
  unfolding same_zone_def by (rule exI [of _ "free_area z"]) simp

lemma same_zone_trans: "same_zone x y \<Longrightarrow> same_zone y z \<Longrightarrow> same_zone x z"
  by (auto simp: same_zone_def)

lemma zone_entries_update:
  "length (free_area z) = 19 \<Longrightarrow> k < 19 \<Longrightarrow>
   zone_entries (z\<lparr>free_area := (free_area z)[k := c]\<rparr>) j =
     (if j = k then chain_entries c else zone_entries z j)"
  by (auto simp: zone_entries_def)

lemma zone_blocks_update:
  assumes "length (free_area z) = 19" "k < 19"
  shows "zone_blocks (z\<lparr>free_area := (free_area z)[k := c]\<rparr>) =
           {x \<in> zone_blocks z. fst x \<noteq> k} \<union> (\<lambda>a. (k, pfn a)) ` set (chain_entries c)"
proof -
  have "(j, q) \<in> zone_blocks (z\<lparr>free_area := (free_area z)[k := c]\<rparr>) \<longleftrightarrow>
      (j, q) \<in> {x \<in> zone_blocks z. fst x \<noteq> k} \<union> (\<lambda>a. (k, pfn a)) ` set (chain_entries c)" for j q
    using assms(2) by (cases "j = k") (auto simp: zone_blocks_def zone_entries_update [OF assms])
  then show ?thesis by auto
qed

lemma zone_blocks_at:
  "k < 19 \<Longrightarrow> zone_blocks z =
     {x \<in> zone_blocks z. fst x \<noteq> k} \<union> (\<lambda>a. (k, pfn a)) ` set (zone_entries z k)"
  by (auto simp: zone_blocks_def)

lemma zone_blocks_mem:
  assumes "lists_wf z" "k < 19" "page_aligned a"
  shows "(k, pfn a) \<in> zone_blocks z \<longleftrightarrow> a \<in> set (zone_entries z k)"
proof
  assume "(k, pfn a) \<in> zone_blocks z"
  then obtain b where b: "b \<in> set (zone_entries z k)" "pfn b = pfn a" by (auto simp: zone_blocks_def)
  then have "page_aligned b" using assms by (auto simp: lists_wf_def area_wf_def zone_entries_def)
  then show "a \<in> set (zone_entries z k)" using b pfn_inject [of b a] assms(3) by simp
qed (use assms(2) in \<open>auto simp: zone_blocks_def\<close>)

lemma zone_entry_facts:
  assumes "lists_wf z" "k < 19" "a \<in> set (zone_entries z k)"
  shows "page_aligned a" "a \<noteq> 0" "(k, pfn a) \<in> zone_blocks z"
  using assms by (auto simp: lists_wf_def area_wf_def zone_entries_def zone_blocks_def)

lemma lists_wf_update:
  assumes wf: "lists_wf z" and k: "k < 19" and c: "area_wf c"
    and b: "blocks_wf (zlo z) (zhi z) (zone_blocks (z\<lparr>free_area := (free_area z)[k := c]\<rparr>))"
  shows "lists_wf (z\<lparr>free_area := (free_area z)[k := c]\<rparr>)"
  using assms by (auto simp: lists_wf_def zone_bounds_def nth_list_update)

text \<open>Putting a free block on its list.\<close>

definition can_insert :: "zone \<Rightarrow> nat \<Rightarrow> u64 \<Rightarrow> bool" where
  "can_insert z k a \<longleftrightarrow> k < 19 \<and> page_aligned a \<and> a \<noteq> 0 \<and> block_in (zlo z) (zhi z) (k, pfn a) \<and>
     block_frames (k, pfn a) \<inter> zone_free_frames z = {} \<and>
     (k < 18 \<longrightarrow> (k, buddy_of k (pfn a)) \<notin> zone_blocks z)"

lemma page_list_push_correct:
  assumes wf: "lists_wf z" and ins: "can_insert z k a"
    and push: "page_list_push m z (12 + k) a = Some (m', z')"
  shows "lists_wf z'" "zone_blocks z' = insert (k, pfn a) (zone_blocks z)" "same_zone z z'"
proof -
  have k: "k < 19" and al: "page_aligned a" "a \<noteq> 0" using ins by (auto simp: can_insert_def)
  have len: "length (free_area z) = 19" using wf by (simp add: lists_wf_def)
  let ?c = "free_area z ! k"
  from push len k obtain c' where c': "chain_push m ?c a = Some (m', c')"
    and z': "z' = z\<lparr>free_area := (free_area z)[k := c']\<rparr>"
    by (auto simp: page_list_push_def order_to_index_def split: bind_splits)
  have ms: "mset (chain_entries c') = add_mset a (mset (chain_entries ?c))"
    using chain_push_entries [OF c'] .
  then have st: "set (chain_entries c') = insert a (set (chain_entries ?c))"
    by (metis set_mset_mset set_mset_add_mset_insert)
  have "pfn a \<in> block_frames (k, pfn a)" by simp
  then have "pfn a \<notin> zone_free_frames z" using ins unfolding can_insert_def by blast
  then have "(k, pfn a) \<notin> zone_blocks z"
    unfolding zone_free_frames_def mem_free_frames_of using block_first_frame by blast
  then have "a \<notin> set (chain_entries ?c)"
    using zone_blocks_mem [OF wf k al(1)] by (simp add: zone_entries_def)
  moreover have "area_wf ?c" using wf k by (simp add: lists_wf_def)
  ultimately have aw: "area_wf c'"
    using chain_push_wf [OF c'] st ms al
      mset_eq_imp_distinct_iff [of "chain_entries c'" "a # chain_entries ?c"]
    by (auto simp: area_wf_def)
  show zb: "zone_blocks z' = insert (k, pfn a) (zone_blocks z)"
    unfolding z' zone_blocks_update [OF len k] using zone_blocks_at [OF k, of z] st
    by (simp add: zone_entries_def)
  have "blocks_wf (zlo z) (zhi z) (zone_blocks z')"
    unfolding zb using wf ins
    by (intro blocks_wf_insert) (auto simp: lists_wf_def can_insert_def zone_free_frames_def)
  then show "lists_wf z'" unfolding z' by (intro lists_wf_update [OF wf k aw]) simp
  show "same_zone z z'" by (auto simp: z' same_zone_def)
qed

text \<open>Taking a block off its list.\<close>

lemma union_remove: "x \<notin> N \<Longrightarrow> N \<union> (E - {x}) = (N \<union> E) - {x}"
  by blast

lemma list_removal:
  assumes wf: "lists_wf z" and k: "k < 19" and a: "a \<in> set (zone_entries z k)"
    and ms: "mset (zone_entries z k) = add_mset a (mset (chain_entries c'))" and cw: "chain_wf c'"
  defines "z' \<equiv> z\<lparr>free_area := (free_area z)[k := c']\<rparr>"
  shows "lists_wf z'" "zone_blocks z' = zone_blocks z - {(k, pfn a)}" "same_zone z z'"
proof -
  have len: "length (free_area z) = 19" using wf by (simp add: lists_wf_def)
  have d: "distinct (a # chain_entries c')"
    using wf k ms unfolding lists_wf_def area_wf_def zone_entries_def
    by (metis mset.simps(2) mset_eq_imp_distinct_iff)
  have st: "set (zone_entries z k) = insert a (set (chain_entries c'))"
    by (metis ms set_mset_mset set_mset_add_mset_insert)
  then have al: "\<forall>b\<in>set (chain_entries c'). page_aligned b \<and> b \<noteq> 0" "page_aligned a"
    using zone_entry_facts [OF wf k] by auto
  have aw: "area_wf c'" using d al cw by (simp add: area_wf_def)
  show zb: "zone_blocks z' = zone_blocks z - {(k, pfn a)}"
  proof -
    have "pfn b \<noteq> pfn a" if "b \<in> set (chain_entries c')" for b
      using that d al pfn_inject [of b a] by auto
    then have E: "(\<lambda>a. (k, pfn a)) ` set (chain_entries c') =
        (\<lambda>a. (k, pfn a)) ` set (zone_entries z k) - {(k, pfn a)}"
      using st by auto
    let ?N = "{x \<in> zone_blocks z. fst x \<noteq> k}" and ?E = "(\<lambda>a. (k, pfn a)) ` set (zone_entries z k)"
    have "zone_blocks z' = ?N \<union> (?E - {(k, pfn a)})"
      unfolding z'_def zone_blocks_update [OF len k] E ..
    also have "\<dots> = (?N \<union> ?E) - {(k, pfn a)}" by (rule union_remove) simp
    also have "?N \<union> ?E = zone_blocks z" by (rule zone_blocks_at [OF k, symmetric])
    finally show ?thesis .
  qed
  have "blocks_wf (zlo z) (zhi z) (zone_blocks z')"
    unfolding zb using wf by (auto simp: lists_wf_def intro: blocks_wf_subset [OF _ Diff_subset])
  then show "lists_wf z'" unfolding z'_def by (intro lists_wf_update [OF wf k aw]) simp
  show "same_zone z z'" by (auto simp: z'_def same_zone_def)
qed

lemma list_untouched:
  assumes wf: "lists_wf z" and k: "k < 19"
    and ms: "mset (zone_entries z k) = mset (chain_entries c')" and cw: "chain_wf c'"
  defines "z' \<equiv> z\<lparr>free_area := (free_area z)[k := c']\<rparr>"
  shows "lists_wf z'" "zone_blocks z' = zone_blocks z" "same_zone z z'"
proof -
  have len: "length (free_area z) = 19" using wf by (simp add: lists_wf_def)
  have st: "set (zone_entries z k) = set (chain_entries c')" by (metis ms set_mset_mset)
  have "area_wf (free_area z ! k)" using wf k by (simp add: lists_wf_def)
  then have aw: "area_wf c'"
    using st cw mset_eq_imp_distinct_iff [OF ms] by (simp add: area_wf_def zone_entries_def)
  show zb: "zone_blocks z' = zone_blocks z"
    unfolding z'_def zone_blocks_update [OF len k] using zone_blocks_at [OF k, of z] st by simp
  then show "lists_wf z'" unfolding z'_def
    using wf by (intro lists_wf_update [OF wf k aw]) (simp add: lists_wf_def)
  show "same_zone z z'" by (auto simp: z'_def same_zone_def)
qed

lemma page_list_pop_correct:
  assumes wf: "lists_wf z" and k: "k < 19"
  obtains m' z' b where "page_list_pop m z (12 + k) = Some (m', z', b)" "lists_wf z'" "same_zone z z'"
    "zone_entries z k = [] \<Longrightarrow> b = 0 \<and> zone_blocks z' = zone_blocks z"
    "zone_entries z k \<noteq> [] \<Longrightarrow> b \<noteq> 0 \<and> page_aligned b \<and> (k, pfn b) \<in> zone_blocks z \<and>
       zone_blocks z' = zone_blocks z - {(k, pfn b)}"
proof -
  have len: "length (free_area z) = 19" using wf by (simp add: lists_wf_def)
  obtain m' c' b where p: "chain_pop False m (free_area z ! k) = (m', c', b)" by (metis prod_cases3)
  let ?z = "z\<lparr>free_area := (free_area z)[k := c']\<rparr>"
  have pop: "page_list_pop m z (12 + k) = Some (m', ?z, b)"
    using p k len by (simp add: page_list_pop_def order_to_index_def)
  have cw: "chain_wf c'" using chain_pop_wf [OF p] wf k by (simp add: lists_wf_def area_wf_def)
  show thesis
  proof (cases "zone_entries z k = []")
    case True
    then have "b = 0" "mset (zone_entries z k) = mset (chain_entries c')"
      using chain_pop_empty [OF p] by (auto simp: zone_entries_def)
    then show thesis using that [OF pop] list_untouched [OF wf k _ cw] True by simp
  next
    case False
    then have ms: "mset (zone_entries z k) = add_mset b (mset (chain_entries c'))"
      using chain_pop_entries [OF p] by (simp add: zone_entries_def)
    then have b: "b \<in> set (zone_entries z k)" by (metis set_mset_mset union_single_eq_member)
    show thesis
      using that [OF pop] list_removal [OF wf k b ms cw] zone_entry_facts [OF wf k b] False by simp
  qed
qed

lemma page_list_take_correct:
  assumes wf: "lists_wf z" and k: "k < 19" and a: "page_aligned a"
  obtains m' z' f where "page_list_take m z (12 + k) a = Some (m', z', f)" "lists_wf z'" "same_zone z z'"
    "f \<longleftrightarrow> (k, pfn a) \<in> zone_blocks z"
    "zone_blocks z' = zone_blocks z - (if f then {(k, pfn a)} else {})"
    "f \<Longrightarrow> a \<noteq> 0"
proof -
  have len: "length (free_area z) = 19" using wf by (simp add: lists_wf_def)
  obtain m' c' f where t: "chain_take False m (free_area z ! k) a = (m', c', f)" by (metis prod_cases3)
  let ?z = "z\<lparr>free_area := (free_area z)[k := c']\<rparr>"
  have take: "page_list_take m z (12 + k) a = Some (m', ?z, f)"
    using t k len by (simp add: page_list_take_def order_to_index_def)
  have cw: "chain_wf c'" using chain_take_wf [OF t] wf k by (simp add: lists_wf_def area_wf_def)
  have f: "f \<longleftrightarrow> a \<in> set (zone_entries z k)" using chain_take_found [OF t] by (simp add: zone_entries_def)
  note ms = chain_take_entries [OF t, folded zone_entries_def]
  have mem: "f \<longleftrightarrow> (k, pfn a) \<in> zone_blocks z" using f zone_blocks_mem [OF wf k a] by simp
  show thesis
  proof (cases f)
    case True
    then show thesis
      using that [OF take] list_removal [OF wf k _ _ cw] ms f mem zone_entry_facts(2) [OF wf k] by simp
  next
    case False
    then show thesis using that [OF take] list_untouched [OF wf k _ cw] ms mem by simp
  qed
qed

section \<open>The search for a block\<close>

lemma alloc_find_correct:
  assumes "lists_wf z" "k \<le> 19"
  shows "\<exists>m' z' b so. alloc_find m z (12 + k) = Some (m', z', b, so) \<and> lists_wf z' \<and> same_zone z z' \<and>
    ((b = 0 \<and> zone_blocks z' = zone_blocks z \<and> (\<forall>j q. (j, q) \<in> zone_blocks z \<longrightarrow> j < k)) \<or>
     (b \<noteq> 0 \<and> page_aligned b \<and> (\<exists>j. k \<le> j \<and> j < 19 \<and> so = 12 + j \<and> (j, pfn b) \<in> zone_blocks z \<and>
        zone_blocks z' = zone_blocks z - {(j, pfn b)})))"
  using assms
proof (induction "19 - k" arbitrary: m z k)
  case 0
  then have "\<forall>j q. (j, q) \<in> zone_blocks z \<longrightarrow> j < k"
    by (auto simp: lists_wf_def dest: blocks_wfD(1))
  then show ?case using 0 by (subst alloc_find.simps) auto
next
  case (Suc n)
  then have k: "k < 19" by simp
  obtain m1 z1 b where pop: "page_list_pop m z (12 + k) = Some (m1, z1, b)" "lists_wf z1" "same_zone z z1"
    and e: "zone_entries z k = [] \<Longrightarrow> b = 0 \<and> zone_blocks z1 = zone_blocks z"
    and ne: "zone_entries z k \<noteq> [] \<Longrightarrow> b \<noteq> 0 \<and> page_aligned b \<and> (k, pfn b) \<in> zone_blocks z \<and>
       zone_blocks z1 = zone_blocks z - {(k, pfn b)}"
    by (rule page_list_pop_correct [OF Suc.prems(1) k, of m]) (rule that)
  show ?case
  proof (cases "zone_entries z k = []")
    case False
    then have "alloc_find m z (12 + k) = Some (m1, z1, b, 12 + k)"
      using pop ne k by (subst alloc_find.simps) simp
    then show ?thesis using pop ne False k by auto
  next
    case True
    then have find: "alloc_find m z (12 + k) = alloc_find m1 z1 (12 + Suc k)"
      using pop e k by (subst alloc_find.simps) simp
    have none: "(k, q) \<notin> zone_blocks z" for q using True by (auto simp: zone_blocks_def)
    have eq: "zone_blocks z1 = zone_blocks z" using e True by simp
    have "n = 19 - Suc k" "Suc k \<le> 19" using Suc.hyps(2) k by simp_all
    from Suc.hyps(1) [OF this(1) pop(2) this(2), of m1] obtain m' z' b' so where
      r: "alloc_find m1 z1 (12 + Suc k) = Some (m', z', b', so)" "lists_wf z'" "same_zone z1 z'"
      and cs: "(b' = 0 \<and> zone_blocks z' = zone_blocks z1 \<and> (\<forall>j q. (j, q) \<in> zone_blocks z1 \<longrightarrow> j < Suc k)) \<or>
        (b' \<noteq> 0 \<and> page_aligned b' \<and> (\<exists>j. Suc k \<le> j \<and> j < 19 \<and> so = 12 + j \<and> (j, pfn b') \<in> zone_blocks z1 \<and>
          zone_blocks z' = zone_blocks z1 - {(j, pfn b')}))"
      by blast
    have "same_zone z z'" using pop(3) r(3) by (rule same_zone_trans)
    moreover have "j < k" if "\<forall>j q. (j, q) \<in> zone_blocks z \<longrightarrow> j < Suc k" "(j, q) \<in> zone_blocks z" for j q
      using that none [of q] by (metis less_SucE)
    ultimately show ?thesis using r cs find eq by (auto dest: Suc_leD)
  qed
qed

section \<open>The merge loop\<close>

lemma free_merge_correct:
  assumes "lists_wf z" "page_aligned a" "a \<noteq> 0" "block_in (zlo z) (zhi z) (k, pfn a)"
    and "block_frames (k, pfn a) \<inter> zone_free_frames z = {}"
  shows "\<exists>m' z' a' j. free_merge m z a (12 + k) = Some (m', z', a', 12 + j) \<and> lists_wf z' \<and>
    same_zone z z' \<and> can_insert z' j a' \<and>
    zone_free_frames z' \<union> block_frames (j, pfn a') = zone_free_frames z \<union> block_frames (k, pfn a)"
  using assms
proof (induction "19 - k" arbitrary: m z k a)
  case 0
  then show ?case by (simp add: block_in_def)
next
  case (Suc n)
  let ?p = "pfn a" and ?b = "a XOR order_to_bytes (12 + k)"
  have k: "k < 19" "2 ^ k dvd ?p" and zb: "zone_bounds z"
    using Suc.prems by (auto simp: block_in_def lists_wf_def)
  note bud = buddy_address [OF k(1) Suc.prems(2) k(2)]
  show ?case
  proof (cases "k < 18 \<and> block_in (zlo z) (zhi z) (k, buddy_of k ?p)")
    case False
    have "free_merge m z a (12 + k) = Some (m, z, a, 12 + k)"
      using False zone_block_valid_iff [OF zb k(1), of ?b] bud
      by (subst free_merge.simps) auto
    moreover have "(k, buddy_of k ?p) \<notin> zone_blocks z" if "k < 18"
      using False that Suc.prems(1) by (auto simp: lists_wf_def blocks_wf_def)
    ultimately show ?thesis using Suc.prems k by (auto simp: can_insert_def)
  next
    case True
    obtain m1 z1 f where take: "page_list_take m z (12 + k) ?b = Some (m1, z1, f)" "lists_wf z1" "same_zone z z1"
      and f: "f \<longleftrightarrow> (k, pfn ?b) \<in> zone_blocks z"
      and zb1: "zone_blocks z1 = zone_blocks z - (if f then {(k, pfn ?b)} else {})"
      and b0: "f \<Longrightarrow> ?b \<noteq> 0"
      by (rule page_list_take_correct [OF Suc.prems(1) k(1) bud(1), of m]) (rule that)
    have valid: "zone_block_valid z ?b (12 + k)" using True bud zone_block_valid_iff [OF zb k(1)] by simp
    have same: "zone_start_pfn z1 = zone_start_pfn z" "zone_end_pfn z1 = zone_end_pfn z"
      using same_zone_fields [OF take(3)] by auto
    show ?thesis
    proof (cases f)
      case False
      then have "free_merge m z a (12 + k) = Some (m1, z1, a, 12 + k)"
        using valid take True by (subst free_merge.simps) simp
      moreover have "can_insert z1 k a"
        using False f zb1 bud Suc.prems k same by (simp add: can_insert_def zone_free_frames_def)
      ultimately show ?thesis using take zb1 False by (auto simp: zone_free_frames_def)
    next
      case taken: True
      let ?a = "if ?b < a then ?b else a"
      have pa: "page_aligned ?a" "?a \<noteq> 0" "pfn ?a = min ?p (buddy_of k ?p)"
        using bud Suc.prems(2,3) b0 taken pfn_min [OF Suc.prems(2) bud(1)] by auto
      note par = buddy_parent [OF k(2)]
      have merge: "free_merge m z a (12 + k) = free_merge m1 z1 ?a (12 + Suc k)"
        using valid take True taken by (subst free_merge.simps) simp
      have bw: "blocks_wf (zlo z) (zhi z) (zone_blocks z)" using Suc.prems(1) by (simp add: lists_wf_def)
      have mem: "(k, buddy_of k ?p) \<in> zone_blocks z" using f taken bud by simp
      have f1: "zone_free_frames z1 = zone_free_frames z - block_frames (k, buddy_of k ?p)"
        using zb1 taken bud free_frames_of_remove [OF bw mem] by (simp add: zone_free_frames_def)
      have sub: "block_frames (k, buddy_of k ?p) \<subseteq> zone_free_frames z"
        using mem unfolding zone_free_frames_def free_frames_of_def by blast
      have pf: "block_frames (Suc k, pfn ?a) = block_frames (k, ?p) \<union> block_frames (k, buddy_of k ?p)"
        using pa(3) par(2) by simp
      have bin: "block_in (zlo z1) (zhi z1) (Suc k, pfn ?a)"
        unfolding pa(3) using True Suc.prems(4) par(1) same k(2)
        by (rule_tac buddy_cases [OF k(2)]) (auto simp: block_in_def min_def)
      have disj: "block_frames (Suc k, pfn ?a) \<inter> zone_free_frames z1 = {}"
        using pf f1 Suc.prems(5) by blast
      have n: "n = 19 - Suc k" using Suc.hyps(2) by simp
      from Suc.hyps(1) [OF n take(2) pa(1,2) bin disj, of m1] obtain m' z' a' j where
        IH: "free_merge m1 z1 ?a (12 + Suc k) = Some (m', z', a', 12 + j)" "lists_wf z'" "same_zone z1 z'"
          "can_insert z' j a'"
          "zone_free_frames z' \<union> block_frames (j, pfn a') = zone_free_frames z1 \<union> block_frames (Suc k, pfn ?a)"
        by blast
      have "zone_free_frames z1 \<union> block_frames (Suc k, pfn ?a) = zone_free_frames z \<union> block_frames (k, ?p)"
        using pf f1 sub by blast
      then show ?thesis using IH merge same_zone_trans [OF take(3) IH(3)] by auto
    qed
  qed
qed

end
