(* ===== verification/Buddy_Alloc.thy ===== *)
theory Buddy_Alloc
  imports Buddy_Zone
begin

text \<open>
  Allocation and release in one zone, with the metadata pool: the assertion of
  \<open>metadata_page_alloc\<close> never fires, because the pool of \<open>buddy_init\<close> has a page for every 510 frames
  beside one page for each list, and the free lists of a fully coalesced zone never
  need more.  Every operation is therefore total.

  \<open>L\<close> stands for the other zones: the multiset of their metadata pages, which a zone operation
  leaves alone, and the number of pool pages set aside for them.
\<close>

section \<open>The zone and its share of the pool\<close>

definition zone_pages :: "zone \<Rightarrow> u64 multiset" where
  "zone_pages z = sum_list (map (\<lambda>c. mset (map pl_phys c)) (free_area z))"

definition zone_quota :: "zone \<Rightarrow> nat" where
  "zone_quota z = 19 + (zhi z - zlo z) div 510"

definition chains_bounded :: "zone \<Rightarrow> bool" where
  "chains_bounded z \<longleftrightarrow> (\<forall>k<19. length (free_area z ! k) \<le> Suc (order_quota (zhi z - zlo z) k))"

type_synonym other_zones = "u64 multiset \<times> nat"

definition zone_inv :: "other_zones \<Rightarrow> metadata \<Rightarrow> zone \<Rightarrow> bool" where
  "zone_inv L m z \<longleftrightarrow> lists_wf z \<and> chains_bounded z \<and>
     fst L + zone_pages z + mset (metadata_free_list m) = handed_out m \<and>
     metadata_pool_used m \<le> metadata_pool_pages m \<and> size (fst L) \<le> snd L \<and>
     snd L + zone_quota z \<le> metadata_pool_pages m"

lemma zone_inv_lists_wf: "zone_inv L m z \<Longrightarrow> lists_wf z"
  by (simp add: zone_inv_def)

lemma sum_list_map_update:
  fixes f :: "'a \<Rightarrow> 'b::comm_monoid_add"
  shows "k < length xs \<Longrightarrow> sum_list (map f (xs[k := c])) + f (xs ! k) = sum_list (map f xs) + f c"
  by (induction xs arbitrary: k) (auto simp: ac_simps split: nat.splits)

lemma size_zone_pages: "size (zone_pages z) = sum_list (map length (free_area z))"
proof -
  have "size (sum_list (map (\<lambda>c. mset (map pl_phys c)) cs)) = sum_list (map length cs)" for cs :: "page_list list list"
    by (induction cs) auto
  then show ?thesis by (simp add: zone_pages_def)
qed

lemma size_zone_pages_bound:
  assumes "length (free_area z) = 19" "chains_bounded z"
  shows "size (zone_pages z) \<le> zone_quota z"
proof -
  let ?F = "zhi z - zlo z"
  have "size (zone_pages z) = (\<Sum>k<19. length (free_area z ! k))"
    by (simp add: size_zone_pages sum_list_sum_nth assms(1) atLeast0LessThan)
  also have "\<dots> \<le> (\<Sum>k<19. Suc (order_quota ?F k))"
    using assms(2) by (intro sum_mono) (simp add: chains_bounded_def)
  also have "\<dots> = 19 + (\<Sum>k<19. order_quota ?F k)" by (simp add: sum_Suc)
  finally show ?thesis using sum_order_quota [of ?F] by (simp add: zone_quota_def)
qed

lemma zone_inv_update:
  assumes inv: "zone_inv L m z" and k: "k < 19"
    and wf: "lists_wf (z\<lparr>free_area := (free_area z)[k := c]\<rparr>)"
    and len: "length c \<le> Suc (order_quota (zhi z - zlo z) k)"
    and pages: "handed_out m' + pages_of m (free_area z ! k) = handed_out m + pages_of m' c"
    and pool: "metadata_pool_pages m' = metadata_pool_pages m" "metadata_pool_used m' \<le> metadata_pool_pages m'"
  shows "zone_inv L m' (z\<lparr>free_area := (free_area z)[k := c]\<rparr>)"
proof -
  let ?z = "z\<lparr>free_area := (free_area z)[k := c]\<rparr>" and ?c = "free_area z ! k"
  let ?p = "\<lambda>c. mset (map pl_phys c)"
  have l: "length (free_area z) = 19" using inv by (simp add: zone_inv_def lists_wf_def)
  have e: "zone_pages ?z + ?p ?c = zone_pages z + ?p c"
    using sum_list_map_update [of k "free_area z" ?p c] k l by (simp add: zone_pages_def)
  have h: "handed_out m = fst L + zone_pages z + mset (metadata_free_list m)"
    using inv by (simp add: zone_inv_def)
  have "handed_out m' + pages_of m ?c = fst L + mset (metadata_free_list m) + mset (metadata_free_list m') +
      (zone_pages z + ?p c)"
    unfolding pages h by (simp only: pages_of_def ac_simps)
  also have "\<dots> = (fst L + zone_pages ?z + mset (metadata_free_list m')) + pages_of m ?c"
    unfolding e [symmetric] pages_of_def by (simp only: ac_simps)
  finally have "handed_out m' = fst L + zone_pages ?z + mset (metadata_free_list m')"
    by (rule add_right_imp_eq)
  moreover have "chains_bounded ?z"
    using inv len l k by (simp add: zone_inv_def chains_bounded_def nth_list_update)
  ultimately show ?thesis using inv wf pool by (simp add: zone_inv_def zone_quota_def)
qed

text \<open>Each list operation keeps the invariant, and a push always finds a page.\<close>

lemma entries_card:
  assumes "lists_wf z" "k < 19"
  shows "length (zone_entries z k) = card {p. (k, p) \<in> zone_blocks z}"
proof -
  have d: "distinct (zone_entries z k)" and al: "\<forall>a\<in>set (zone_entries z k). page_aligned a"
    using assms by (auto simp: lists_wf_def area_wf_def zone_entries_def)
  have "{p. (k, p) \<in> zone_blocks z} = pfn ` set (zone_entries z k)"
    using assms(2) by (auto simp: zone_blocks_def)
  moreover have "inj_on pfn (set (zone_entries z k))" using al pfn_inject by (intro inj_onI) blast
  ultimately show ?thesis using d by (simp add: card_image distinct_card)
qed

lemma page_list_pop_inv:
  assumes "zone_inv L m z" "k < 19" "page_list_pop m z (12 + k) = Some (m', z', b)" "lists_wf z'"
  shows "zone_inv L m' z'"
proof -
  let ?c = "free_area z ! k"
  have len: "length (free_area z) = 19" using assms(1) by (simp add: zone_inv_def lists_wf_def)
  with assms(2,3) obtain c where p: "chain_pop False m ?c = (m', c, b)"
    and z': "z' = z\<lparr>free_area := (free_area z)[k := c]\<rparr>"
    by (auto simp: page_list_pop_def order_to_index_def split: prod.splits)
  have "handed_out m' + pages_of m ?c = handed_out m + pages_of m' c"
    using chain_pop_pages [OF p] handed_out_same_pool [OF chain_pop_pool [OF p]] by simp
  moreover have "length c \<le> Suc (order_quota (zhi z - zlo z) k)"
    using chain_pop_length [OF p] assms(1,2) by (auto simp: zone_inv_def chains_bounded_def intro: le_trans)
  ultimately show ?thesis
    using assms chain_pop_pool [OF p] unfolding z'
    by (intro zone_inv_update) (simp_all add: same_pool_def zone_inv_def)
qed

lemma page_list_take_inv:
  assumes "zone_inv L m z" "k < 19" "page_list_take m z (12 + k) a = Some (m', z', f)" "lists_wf z'"
  shows "zone_inv L m' z'"
proof -
  let ?c = "free_area z ! k"
  have len: "length (free_area z) = 19" using assms(1) by (simp add: zone_inv_def lists_wf_def)
  with assms(2,3) obtain c where p: "chain_take False m ?c a = (m', c, f)"
    and z': "z' = z\<lparr>free_area := (free_area z)[k := c]\<rparr>"
    by (auto simp: page_list_take_def order_to_index_def split: prod.splits)
  have "handed_out m' + pages_of m ?c = handed_out m + pages_of m' c"
    using chain_take_pages [OF p] handed_out_same_pool [OF chain_take_pool [OF p]] by simp
  moreover have "length c \<le> Suc (order_quota (zhi z - zlo z) k)"
    using chain_take_length [OF p] assms(1,2) by (auto simp: zone_inv_def chains_bounded_def intro: le_trans)
  ultimately show ?thesis
    using assms chain_take_pool [OF p] unfolding z'
    by (intro zone_inv_update) (simp_all add: same_pool_def zone_inv_def)
qed

lemma full_chain_quota:
  assumes wf: "lists_wf z" and ins: "can_insert z k a" and full: "length (zone_entries z k) = 510 * n"
  shows "n \<le> order_quota (zhi z - zlo z) k"
proof -
  have k: "k < 19" using ins by (simp add: can_insert_def)
  let ?B = "insert (k, pfn a) (zone_blocks z)" and ?F = "zhi z - zlo z"
  have bw: "blocks_wf (zlo z) (zhi z) ?B"
    by (rule blocks_wf_insert) (use wf ins in \<open>simp_all add: lists_wf_def can_insert_def zone_free_frames_def\<close>)
  have le: "zlo z \<le> zhi z" using wf by (simp add: lists_wf_def zone_bounds_def word_le_nat_alt)
  have "pfn a \<notin> {p. (k, p) \<in> zone_blocks z}"
    using ins block_first_frame unfolding can_insert_def zone_free_frames_def free_frames_of_def by blast
  moreover have "{p. (k, p) \<in> ?B} = insert (pfn a) {p. (k, p) \<in> zone_blocks z}" by auto
  moreover have "finite {p. (k, p) \<in> zone_blocks z}"
    using wf finite_order_blocks unfolding lists_wf_def by blast
  ultimately have card: "card {p. (k, p) \<in> ?B} = Suc (510 * n)"
    using entries_card [OF wf k] full by simp
  show ?thesis
  proof (cases "k < 18")
    case True
    then have "510 * n * 2 ^ Suc k \<le> ?F" using card_order_blocks [OF bw True le] card by simp
    then have "510 * n \<le> ?F div 2 ^ Suc k" by (subst less_eq_div_iff_mult_less_eq) auto
    then have "n \<le> ?F div 2 ^ Suc k div 510" by (subst less_eq_div_iff_mult_less_eq) auto
    then show ?thesis using True by (simp add: order_quota_def)
  next
    case False
    then have k18: "k = 18" using k by simp
    have "510 * n * 2 ^ 18 \<le> ?F" using card_top_blocks [OF bw, of k] card k18 by simp
    then have "510 * n \<le> ?F div 2 ^ 18" by (subst less_eq_div_iff_mult_less_eq) auto
    then have "n \<le> ?F div 2 ^ 18 div 510" by (subst less_eq_div_iff_mult_less_eq) auto
    then show ?thesis using k18 by (simp add: order_quota_def)
  qed
qed

lemma page_list_push_total:
  assumes inv: "zone_inv L m z" and ins: "can_insert z k a"
  obtains m' z' where "page_list_push m z (12 + k) a = Some (m', z')" "zone_inv L m' z'"
    "zone_blocks z' = insert (k, pfn a) (zone_blocks z)" "same_zone z z'"
proof -
  let ?c = "free_area z ! k" and ?q = "order_quota (zhi z - zlo z) k"
  have wf: "lists_wf z" and len: "length (free_area z) = 19" using inv by (auto simp: zone_inv_def lists_wf_def)
  have k: "k < 19" using ins by (simp add: can_insert_def)
  have cw: "chain_wf ?c" using wf k by (simp add: lists_wf_def area_wf_def)
  have full: "length ?c \<le> ?q" if "length (chain_entries ?c) = 510 * length ?c"
    using full_chain_quota [OF wf ins] that by (simp add: zone_entries_def)
  have "chain_push m ?c a \<noteq> None"
  proof
    assume none: "chain_push m ?c a = None"
    then have fl: "metadata_free_list m = []" "metadata_pool_pages m \<le> metadata_pool_used m"
      and "length (chain_entries ?c) = 510 * length ?c"
      using full_chain_entries [OF cw] by (auto simp: chain_push_None)
    then have "length ?c \<le> ?q" using full by simp
    let ?z = "z\<lparr>free_area := (free_area z)[k := \<lparr>pl_phys = 0, pl_entries = []\<rparr> # ?c]\<rparr>"
    have "chains_bounded ?z"
      using inv len k \<open>length ?c \<le> ?q\<close> by (simp add: zone_inv_def chains_bounded_def nth_list_update)
    then have "size (zone_pages ?z) \<le> zone_quota z"
      using size_zone_pages_bound [of ?z] len by (simp add: zone_quota_def)
    moreover have "size (zone_pages ?z) = Suc (size (zone_pages z))"
      using sum_list_map_update [of k "free_area z" length "\<lparr>pl_phys = 0, pl_entries = []\<rparr> # ?c"] k len
      by (simp add: size_zone_pages)
    moreover have "size (fst L) + size (zone_pages z) = metadata_pool_used m"
      using inv fl by (simp add: zone_inv_def flip: size_handed_out) (metis size_union)
    ultimately show False using inv fl(2) by (simp add: zone_inv_def)
  qed
  then obtain m' c where push: "chain_push m ?c a = Some (m', c)" by auto
  let ?z = "z\<lparr>free_area := (free_area z)[k := c]\<rparr>"
  have p: "page_list_push m z (12 + k) a = Some (m', ?z)"
    using push k len by (simp add: page_list_push_def order_to_index_def)
  note pc = page_list_push_correct [OF wf ins p]
  have "length c \<le> Suc ?q"
    using chain_push_length [OF push cw] full inv k by (auto simp: zone_inv_def chains_bounded_def intro: le_trans)
  then have "zone_inv L m' ?z"
    using inv k pc(1) chain_push_pages [OF push] by (intro zone_inv_update) (simp_all add: zone_inv_def)
  then show thesis using that [OF p] pc by simp
qed

lemma alloc_find_inv:
  assumes "zone_inv L m z" "k \<le> 19" "alloc_find m z (12 + k) = Some (m', z', b, so)"
  shows "zone_inv L m' z'"
  using assms
proof (induction "19 - k" arbitrary: m z k)
  case 0
  then show ?case by (subst (asm) alloc_find.simps) auto
next
  case (Suc n)
  then have k: "k < 19" by simp
  obtain m1 z1 b1 where pop: "page_list_pop m z (12 + k) = Some (m1, z1, b1)" "lists_wf z1"
    by (rule page_list_pop_correct [OF zone_inv_lists_wf [OF Suc.prems(1)] k, of m]) (rule that)
  have inv: "zone_inv L m1 z1" using page_list_pop_inv [OF Suc.prems(1) k pop] .
  have n: "n = 19 - Suc k" "Suc k \<le> 19" using Suc.hyps(2) k by simp_all
  show ?case
  proof (cases "b1 = 0")
    case True
    then have "alloc_find m1 z1 (12 + Suc k) = Some (m', z', b, so)"
      using Suc.prems(3) pop(1) k by (subst (asm) alloc_find.simps) simp
    then show ?thesis using Suc.hyps(1) [OF n(1) inv n(2)] by blast
  next
    case False
    then show ?thesis using Suc.prems(3) pop(1) k inv by (subst (asm) alloc_find.simps) simp
  qed
qed

lemma free_merge_inv:
  assumes "zone_inv L m z" "page_aligned a" "2 ^ k dvd pfn a" "k < 19"
    and "free_merge m z a (12 + k) = Some (m', z', a', j)"
  shows "zone_inv L m' z'"
  using assms
proof (induction "19 - k" arbitrary: m z k a)
  case (Suc n)
  let ?b = "a XOR order_to_bytes (12 + k)"
  note bud = buddy_address [OF Suc.prems(4,2,3)]
  obtain m1 z1 f where take: "page_list_take m z (12 + k) ?b = Some (m1, z1, f)" "lists_wf z1"
    by (rule page_list_take_correct [OF zone_inv_lists_wf [OF Suc.prems(1)] Suc.prems(4) bud(1), of m]) (rule that)
  have inv: "zone_inv L m1 z1" using page_list_take_inv [OF Suc.prems(1,4) take] .
  show ?case
  proof (cases "k < 18 \<and> zone_block_valid z ?b (12 + k) \<and> f")
    case False
    then show ?thesis using Suc.prems(1,5) take inv by (subst (asm) free_merge.simps) (auto simp: Let_def split: if_splits)
  next
    case True
    let ?a = "if ?b < a then ?b else a"
    have r: "free_merge m1 z1 ?a (12 + Suc k) = Some (m', z', a', j)"
      using Suc.prems(5) take True by (subst (asm) free_merge.simps) (simp add: Let_def)
    have "page_aligned ?a" "2 ^ Suc k dvd pfn ?a"
      using bud Suc.prems(2) buddy_parent(1) [OF Suc.prems(3)] pfn_min [OF Suc.prems(2) bud(1)] by auto
    then show ?thesis using Suc.hyps(1) [of "Suc k" m1 z1 ?a] Suc.hyps(2) inv r True by simp
  qed
qed simp

section \<open>Allocation\<close>

lemma alloc_split_correct:
  assumes "zone_inv L m z" "page_aligned b" "b \<noteq> 0" "block_in (zlo z) (zhi z) (j, pfn b)" "k \<le> j"
    and "block_frames (j, pfn b) \<inter> zone_free_frames z = {}"
  shows "\<exists>m' z'. alloc_split m z (12 + j) (12 + k) b = Some (m', z') \<and> zone_inv L m' z' \<and> same_zone z z' \<and>
    block_in (zlo z) (zhi z) (k, pfn b) \<and>
    zone_free_frames z' = zone_free_frames z \<union> (block_frames (j, pfn b) - block_frames (k, pfn b))"
  using assms
proof (induction "j - k" arbitrary: m z j)
  case 0
  then show ?case by (subst alloc_split.simps) auto
next
  case (Suc n)
  then obtain i where j: "j = Suc i" and ki: "k \<le> i" by (cases j) auto
  let ?p = "pfn b" and ?u = "b + order_to_bytes (12 + i)"
  have bin: "Suc i < 19" "2 ^ Suc i dvd ?p" "zlo z \<le> ?p" "?p + 2 ^ Suc i \<le> zhi z"
    using Suc.prems(4) by (auto simp: j block_in_def)
  note sp = split_block [OF bin(2)]
  have zb: "zone_bounds z" using Suc.prems(1) by (simp add: zone_inv_def lists_wf_def)
  have "(?p + 2 ^ i) * 4096 \<le> zhi z * 4096" using bin(4) by (intro mult_le_mono1) simp
  then have "(?p + 2 ^ i) * 4096 < 2 ^ 64" using zb by (simp only: zone_bounds_def) linarith
  then have u: "page_aligned ?u" "pfn ?u = ?p + 2 ^ i"
    using upper_half_address [OF Suc.prems(2), of i] bin(1) by auto
  have "?u \<noteq> 0" using u(2) by (auto simp: pfn_def)
  have disj: "block_frames (Suc i, ?p) \<inter> zone_free_frames z = {}" using Suc.prems(6) by (simp only: j)
  have "(i, ?p) \<notin> zone_blocks z"
  proof
    assume "(i, ?p) \<in> zone_blocks z"
    then have "?p \<in> zone_free_frames z"
      unfolding zone_free_frames_def mem_free_frames_of using block_first_frame by blast
    then show False using disj block_first_frame [of ?p "Suc i"] by blast
  qed
  then have ci: "can_insert z i ?u"
    using u \<open>?u \<noteq> 0\<close> bin sp disj unfolding can_insert_def by (auto simp: block_in_def)
  obtain m1 z1 where push: "page_list_push m z (12 + i) ?u = Some (m1, z1)" "zone_inv L m1 z1"
    and zb1: "zone_blocks z1 = insert (i, pfn ?u) (zone_blocks z)" and sz: "same_zone z z1"
    by (rule page_list_push_total [OF Suc.prems(1) ci]) (rule that)
  have step: "alloc_split m z (12 + j) (12 + k) b = alloc_split m1 z1 (12 + i) (12 + k) b"
    using push(1) ki by (subst alloc_split.simps) (simp add: j)
  have f1: "zone_free_frames z1 = block_frames (i, ?p + 2 ^ i) \<union> zone_free_frames z"
    using zb1 u(2) by (simp add: zone_free_frames_def)
  have same: "zone_start_pfn z1 = zone_start_pfn z" "zone_end_pfn z1 = zone_end_pfn z"
    using same_zone_fields [OF sz] by auto
  have "block_in (zlo z1) (zhi z1) (i, ?p)" using bin sp same by (simp add: block_in_def)
  moreover have "block_frames (i, ?p) \<inter> zone_free_frames z1 = {}" using disj sp(1,2) f1 by blast
  moreover have "n = i - k" using Suc.hyps(2) j by simp
  ultimately obtain m' z' where IH: "alloc_split m1 z1 (12 + i) (12 + k) b = Some (m', z')" "zone_inv L m' z'"
      "same_zone z1 z'" "block_in (zlo z1) (zhi z1) (k, ?p)"
      "zone_free_frames z' = zone_free_frames z1 \<union> (block_frames (i, ?p) - block_frames (k, ?p))"
    using Suc.hyps(1) [of i m1 z1] push(2) Suc.prems(2,3) ki by blast
  have "block_frames (k, ?p) \<subseteq> block_frames (i, ?p)"
    using ki by (rule block_frames_mono)
  then have "block_frames (i, ?p + 2 ^ i) \<inter> block_frames (k, ?p) = {}" using sp(2) by blast
  then have "zone_free_frames z' = zone_free_frames z \<union> (block_frames (j, ?p) - block_frames (k, ?p))"
    using IH(5) f1 sp(1) unfolding j by blast
  moreover have "same_zone z z'" using IH(3) same_zone_trans [OF sz] by blast
  ultimately show ?case using IH(1,2,4) same step by auto
qed

lemma buddy_alloc_order_correct:
  assumes inv: "zone_inv L m z" and k: "k < 19"
  shows "\<exists>m' z' b. buddy_alloc_order_locked m z (12 + k) = Some (m', z', b) \<and> zone_inv L m' z' \<and> same_zone z z' \<and>
    (if b = 0 then zone_free_frames z' = zone_free_frames z \<and> (\<forall>j q. (j, q) \<in> zone_blocks z \<longrightarrow> j < k)
     else page_aligned b \<and> block_in (zlo z) (zhi z) (k, pfn b) \<and>
       block_frames (k, pfn b) \<subseteq> zone_free_frames z \<and>
       zone_free_frames z' = zone_free_frames z - block_frames (k, pfn b))"
proof -
  have wf: "lists_wf z" using inv by (rule zone_inv_lists_wf)
  obtain m1 z1 b so where find: "alloc_find m z (12 + k) = Some (m1, z1, b, so)" and s1: "same_zone z z1"
    and cs: "(b = 0 \<and> zone_blocks z1 = zone_blocks z \<and> (\<forall>j q. (j, q) \<in> zone_blocks z \<longrightarrow> j < k)) \<or>
     (b \<noteq> 0 \<and> page_aligned b \<and> (\<exists>j. k \<le> j \<and> j < 19 \<and> so = 12 + j \<and> (j, pfn b) \<in> zone_blocks z \<and>
        zone_blocks z1 = zone_blocks z - {(j, pfn b)}))"
    using alloc_find_correct [OF wf, of k m] k by auto
  have i1: "zone_inv L m1 z1" using alloc_find_inv [OF inv _ find] k by simp
  show ?thesis
  proof (cases "b = 0")
    case True
    then show ?thesis using find i1 s1 cs by (auto simp: buddy_alloc_order_locked_def zone_free_frames_def)
  next
    case False
    then obtain j where j: "k \<le> j" "j < 19" "so = 12 + j" "(j, pfn b) \<in> zone_blocks z"
        "zone_blocks z1 = zone_blocks z - {(j, pfn b)}" and pa: "page_aligned b"
      using cs by auto
    have bw: "blocks_wf (zlo z) (zhi z) (zone_blocks z)" using wf by (simp add: lists_wf_def)
    have f1: "zone_free_frames z1 = zone_free_frames z - block_frames (j, pfn b)"
      unfolding zone_free_frames_def j(5) by (rule free_frames_of_remove [OF bw j(4)])
    have sub: "block_frames (j, pfn b) \<subseteq> zone_free_frames z"
      using j(4) by (auto simp: zone_free_frames_def free_frames_of_def)
    have same: "zone_start_pfn z1 = zone_start_pfn z" "zone_end_pfn z1 = zone_end_pfn z"
      using same_zone_fields [OF s1] by auto
    have "block_in (zlo z1) (zhi z1) (j, pfn b)" using bw j(4) same by (auto simp: blocks_wf_def)
    moreover have "block_frames (j, pfn b) \<inter> zone_free_frames z1 = {}" using f1 by blast
    ultimately obtain m' z' where S: "alloc_split m1 z1 (12 + j) (12 + k) b = Some (m', z')" "zone_inv L m' z'"
        "same_zone z1 z'" "block_in (zlo z1) (zhi z1) (k, pfn b)"
        "zone_free_frames z' = zone_free_frames z1 \<union> (block_frames (j, pfn b) - block_frames (k, pfn b))"
      using alloc_split_correct [OF i1 pa False _ j(1)] by blast
    have ks: "block_frames (k, pfn b) \<subseteq> block_frames (j, pfn b)" using j(1) by (rule block_frames_mono)
    have alloc: "buddy_alloc_order_locked m z (12 + k) = Some (m', z', b)"
      using find False S(1) j(3) by (simp add: buddy_alloc_order_locked_def)
    have "zone_free_frames z' = zone_free_frames z - block_frames (k, pfn b)" using S(5) f1 sub ks by blast
    moreover have "block_frames (k, pfn b) \<subseteq> zone_free_frames z" using ks sub by blast
    ultimately show ?thesis using alloc S(2,4) same pa False same_zone_trans [OF s1 S(3)] by auto
  qed
qed

text \<open>The free-page counter counts the free frames.\<close>

definition zone_ok :: "other_zones \<Rightarrow> metadata \<Rightarrow> zone \<Rightarrow> bool" where
  "zone_ok L m z \<longleftrightarrow> zone_inv L m z \<and> unat (free_pages z) = card (zone_free_frames z)"

definition same_bounds :: "zone \<Rightarrow> zone \<Rightarrow> bool" where
  "same_bounds z z' \<longleftrightarrow> zone_start_pfn z' = zone_start_pfn z \<and> zone_end_pfn z' = zone_end_pfn z \<and>
     managed_pages z' = managed_pages z \<and> zone_type_of z' = zone_type_of z"

lemma same_zone_bounds: "same_zone z z' \<Longrightarrow> same_bounds z z'"
  by (auto dest!: same_zone_fields simp: same_bounds_def)

lemma zone_free_pages_update [simp]:
  "zone_free_frames (z\<lparr>free_pages := n\<rparr>) = zone_free_frames z"
  "zone_inv L m (z\<lparr>free_pages := n\<rparr>) = zone_inv L m z"
  "same_bounds z (z'\<lparr>free_pages := n\<rparr>) = same_bounds z z'"
proof -
  have e: "zone_blocks (z\<lparr>free_pages := n\<rparr>) = zone_blocks z"
    by (simp add: zone_blocks_def zone_entries_def)
  show "zone_free_frames (z\<lparr>free_pages := n\<rparr>) = zone_free_frames z" by (simp add: zone_free_frames_def e)
  show "zone_inv L m (z\<lparr>free_pages := n\<rparr>) = zone_inv L m z"
    by (simp add: zone_inv_def lists_wf_def e zone_bounds_def chains_bounded_def zone_pages_def zone_quota_def)
  show "same_bounds z (z'\<lparr>free_pages := n\<rparr>) = same_bounds z z'" by (simp add: same_bounds_def)
qed

lemma zone_free_bounds: "lists_wf z \<Longrightarrow> zone_free_frames z \<subseteq> {zlo z ..< zhi z}"
  by (auto simp: lists_wf_def zone_free_frames_def dest!: free_frames_of_bounds)

lemma finite_zone_free [simp]: "lists_wf z \<Longrightarrow> finite (zone_free_frames z)"
  using zone_free_bounds finite_subset by blast

lemma card_zone_free:
  assumes "lists_wf z"
  shows "card (zone_free_frames z) < 2 ^ 64"
proof -
  have "card (zone_free_frames z) \<le> card {zlo z ..< zhi z}"
    by (intro card_mono zone_free_bounds [OF assms]) simp
  also have "\<dots> < 2 ^ 64" using unsigned_less [of "zone_end_pfn z", where 'a = nat] by simp
  finally show ?thesis .
qed

lemma count_order_least:
  fixes c :: nat
  assumes "c \<le> 2 ^ i" "0 < k \<Longrightarrow> 2 ^ (k - 1) < c"
  shows "k \<le> i"
proof (rule ccontr)
  assume "\<not> k \<le> i"
  then have "2 ^ i \<le> (2::nat) ^ (k - 1)" by (intro power_increasing) auto
  then show False using assms \<open>\<not> k \<le> i\<close> by linarith
qed

lemma too_few_frames:
  assumes "finite F" "card F < 2 ^ k" "k \<le> i"
  shows "\<not> block_frames (i, q) \<subseteq> F"
proof
  assume "block_frames (i, q) \<subseteq> F"
  then have "2 ^ i \<le> card F" using card_mono [OF assms(1), of "block_frames (i, q)"] by simp
  then show False using assms(2) power_increasing [OF assms(3), of "2 :: nat"] by linarith
qed

lemma buddy_alloc_zone_spec:
  assumes ok: "zone_ok L m z"
  shows "\<exists>m' z' a. buddy_alloc_zone m z cnt = Some (m', z', a) \<and> zone_ok L m' z' \<and> same_bounds z z' \<and>
    (if a = 0 then zone_free_frames z' = zone_free_frames z \<and>
       (cnt = 0 \<or> (\<forall>k p. k < 19 \<longrightarrow> unat cnt \<le> 2 ^ k \<longrightarrow> 2 ^ k dvd p \<longrightarrow>
          \<not> block_frames (k, p) \<subseteq> zone_free_frames z))
     else \<exists>k p. count_to_order cnt = Some (12 + k, p) \<and> page_aligned a \<and> block_in (zlo z) (zhi z) (k, pfn a) \<and>
       block_frames (k, pfn a) \<subseteq> zone_free_frames z \<and>
       zone_free_frames z' = zone_free_frames z - block_frames (k, pfn a))"
proof (cases "count_to_order cnt")
  case None
  then have c: "cnt = 0 \<or> 2 ^ 18 < unat cnt" by (simp only: count_to_order_None)
  have "\<not> unat cnt \<le> 2 ^ k" if "2 ^ 18 < unat cnt" "k < 19" for k
    using that power_increasing [of k 18 "2 :: nat"] by simp
  then show ?thesis using c None ok by (auto simp: buddy_alloc_zone_def same_bounds_def)
next
  case (Some op)
  then obtain od p where op: "count_to_order cnt = Some (od, p)" by (cases op) auto
  obtain k where k: "k < 19" "od = 12 + k" "p = 2 ^ k" "0 < unat cnt" "unat cnt \<le> 2 ^ k"
      "0 < k \<Longrightarrow> 2 ^ (k - 1) < unat cnt"
    by (rule count_to_order_Some [OF op]) (rule that)
  have up: "unat p = 2 ^ k" using k by (simp add: unat_pow2)
  have least: "k \<le> i" if "unat cnt \<le> 2 ^ i" for i
    using count_order_least [OF that k(6)] .
  have inv: "zone_inv L m z" and wf: "lists_wf z" and fp: "unat (free_pages z) = card (zone_free_frames z)"
    using ok by (auto simp: zone_ok_def zone_inv_def)
  have bw: "blocks_wf (zlo z) (zhi z) (zone_blocks z)" using wf by (simp add: lists_wf_def)
  have c0: "cnt \<noteq> 0" using k(4) by auto
  show ?thesis
  proof (cases "free_pages z < p")
    case True
    then have few: "card (zone_free_frames z) < 2 ^ k" using fp up by (simp add: word_less_nat_alt)
    have "\<not> block_frames (i, q) \<subseteq> zone_free_frames z" if "unat cnt \<le> 2 ^ i" for i q
      by (rule too_few_frames [OF finite_zone_free [OF wf] few least [OF that]])
    then show ?thesis using True op c0 ok by (auto simp: buddy_alloc_zone_def same_bounds_def)
  next
    case False
    obtain m' z' b where al: "buddy_alloc_order_locked m z (12 + k) = Some (m', z', b)" "zone_inv L m' z'" "same_zone z z'"
      and r: "if b = 0 then zone_free_frames z' = zone_free_frames z \<and> (\<forall>j q. (j, q) \<in> zone_blocks z \<longrightarrow> j < k)
        else page_aligned b \<and> block_in (zlo z) (zhi z) (k, pfn b) \<and> block_frames (k, pfn b) \<subseteq> zone_free_frames z \<and>
          zone_free_frames z' = zone_free_frames z - block_frames (k, pfn b)"
      using buddy_alloc_order_correct [OF inv k(1)] by blast
    have fp': "free_pages z' = free_pages z" using same_zone_fields [OF al(3)] by simp
    show ?thesis
    proof (cases "b = 0")
      case True
      then have none: "\<forall>j q. (j, q) \<in> zone_blocks z \<longrightarrow> j < k" using r by simp
      have "\<not> block_frames (i, q) \<subseteq> zone_free_frames z" if "i < 19" "unat cnt \<le> 2 ^ i" "2 ^ i dvd q" for i q
        using free_region_has_block [OF bw that(1,3)] none least [OF that(2)]
        unfolding zone_free_frames_def by (meson le_trans not_less)
      then show ?thesis using True op k(2) c0 False al r fp fp' same_zone_bounds [OF al(3)]
        by (auto simp: buddy_alloc_zone_def zone_ok_def)
    next
      case nz: False
      then have sub: "block_frames (k, pfn b) \<subseteq> zone_free_frames z"
        and eq: "zone_free_frames z' = zone_free_frames z - block_frames (k, pfn b)" using r by auto
      have "unat (free_pages z - p) = card (zone_free_frames z')"
        using False fp up eq sub by (simp add: unat_sub_no_wrap not_less card_Diff_subset)
      then show ?thesis using nz op k(2) c0 False al r fp' same_zone_bounds [OF al(3)]
        by (auto simp: buddy_alloc_zone_def zone_ok_def)
    qed
  qed
qed

section \<open>Release\<close>

lemma buddy_free_zone_locked_spec:
  assumes ok: "zone_ok L m z" and a: "page_aligned a" "a \<noteq> 0" and bin: "block_in (zlo z) (zhi z) (k, pfn a)"
    and used: "block_frames (k, pfn a) \<inter> zone_free_frames z = {}"
  shows "\<exists>m' z'. buddy_free_zone_locked m z a (12 + k) = Some (m', z') \<and> zone_ok L m' z' \<and> same_bounds z z' \<and>
    zone_free_frames z' = zone_free_frames z \<union> block_frames (k, pfn a)"
proof -
  have inv: "zone_inv L m z" and wf: "lists_wf z" and fp: "unat (free_pages z) = card (zone_free_frames z)"
    using ok by (auto simp: zone_ok_def zone_inv_def)
  have k: "k < 19" "2 ^ k dvd pfn a" using bin by (auto simp: block_in_def)
  obtain m1 z1 a1 j where mg: "free_merge m z a (12 + k) = Some (m1, z1, a1, 12 + j)" "same_zone z z1"
      "can_insert z1 j a1"
      "zone_free_frames z1 \<union> block_frames (j, pfn a1) = zone_free_frames z \<union> block_frames (k, pfn a)"
    using free_merge_correct [OF wf a bin used] by blast
  have i1: "zone_inv L m1 z1" using free_merge_inv [OF inv a(1) k(2,1) mg(1)] .
  obtain m2 z2 where push: "page_list_push m1 z1 (12 + j) a1 = Some (m2, z2)" "zone_inv L m2 z2"
      "zone_blocks z2 = insert (j, pfn a1) (zone_blocks z1)" "same_zone z1 z2"
    by (rule page_list_push_total [OF i1 mg(3)]) (rule that)
  let ?z = "z2\<lparr>free_pages := free_pages z2 + order_to_pages (12 + k)\<rparr>"
  have free: "buddy_free_zone_locked m z a (12 + k) = Some (m2, ?z)"
    using mg(1) push(1) by (simp add: buddy_free_zone_locked_def)
  have f2: "zone_free_frames z2 = zone_free_frames z \<union> block_frames (k, pfn a)"
    using push(3) mg(4) by (simp add: zone_free_frames_def Un_commute)
  have sz: "same_zone z z2" using mg(2) push(4) by (rule same_zone_trans)
  have card: "card (zone_free_frames z2) = card (zone_free_frames z) + 2 ^ k"
    unfolding f2 using used wf by (subst card_Un_disjoint) (auto simp: Int_commute)
  have "free_pages z2 = free_pages z" using same_zone_fields [OF sz] by simp
  then have "unat (free_pages ?z) = card (zone_free_frames z2)"
    using card fp card_zone_free [OF zone_inv_lists_wf [OF push(2)]] k(1)
    by (simp add: unat_add_no_wrap unat_order_to_pages)
  then have "zone_ok L m2 ?z" using push(2) by (simp add: zone_ok_def)
  moreover have "same_bounds z ?z" using same_zone_bounds [OF sz] by simp
  ultimately show ?thesis using free f2 by simp
qed

text \<open>
  The checked entry point: a block that is misaligned or outside the zone is refused, and
  a block of the zone that overlaps no free frame is given back whole.
\<close>

lemma buddy_free_zone_spec:
  assumes ok: "zone_ok L m z" and k: "k < 19" and a: "a \<noteq> 0"
    and used: "block_frames (k, pfn a) \<inter> zone_free_frames z = {}"
  shows "\<exists>m' z'. buddy_free_zone m z a (12 + k) = Some (m', z') \<and> zone_ok L m' z' \<and> same_bounds z z' \<and>
    zone_free_frames z' = zone_free_frames z \<union>
      (if page_aligned a \<and> block_in (zlo z) (zhi z) (k, pfn a) then block_frames (k, pfn a) else {})"
proof -
  have "zone_bounds z" using ok by (simp add: zone_ok_def zone_inv_def lists_wf_def)
  note valid = zone_block_valid_iff [OF this k, of a]
  show ?thesis
  proof (cases "page_aligned a \<and> block_in (zlo z) (zhi z) (k, pfn a)")
    case True
    then show ?thesis using buddy_free_zone_locked_spec [OF ok _ a _ used] valid by (simp add: buddy_free_zone_def)
  next
    case False
    then show ?thesis using valid ok by (auto simp: buddy_free_zone_def same_bounds_def)
  qed
qed

end
