(* ===== verification/Buddy_Regions.thy ===== *)
theory Buddy_Regions
  imports Buddy_Alloc
begin

text \<open>
  Building a zone: \<open>init_zone\<close> takes one metadata page for each order, \<open>add_memory_region\<close> cuts a
  region of memory into naturally aligned blocks and frees them into the zone
  (\<^verbatim>\<open>src/src/mem/buddy.c\<close>, lines 378 to 497).  Regions reach \<open>add_memory_region\<close> with a zone
  type; here it is the part that runs once \<open>get_zone\<close> has returned a zone.
\<close>

section \<open>Definitions\<close>

definition PADDING_DOWN :: "u64 \<Rightarrow> u64 \<Rightarrow> u64" where
  "PADDING_DOWN sz to = sz div to * to"

definition PADDING_UP :: "u64 \<Rightarrow> u64 \<Rightarrow> u64" where
  "PADDING_UP sz to = PADDING_DOWN (sz + to - 1) to"

primrec init_areas :: "nat \<Rightarrow> metadata \<Rightarrow> (metadata \<times> page_list list list) option" where
  "init_areas 0 m = Some (m, [])"
| "init_areas (Suc n) m = do {
     (head_phys, m') \<leftarrow> metadata_page_alloc m;
     (m'', areas) \<leftarrow> init_areas n m';
     Some (m'', [\<lparr>pl_phys = head_phys, pl_entries = []\<rparr>] # areas)
   }"

definition init_zone :: "metadata \<Rightarrow> zone_type \<Rightarrow> u64 \<Rightarrow> u64 \<Rightarrow> (metadata \<times> zone) option" where
  "init_zone m type start_pfn end_pfn = do {
     (m', areas) \<leftarrow> init_areas ORDER_COUNT m;
     Some (m', \<lparr>free_area = areas, zone_start_pfn = start_pfn, zone_end_pfn = end_pfn,
                managed_pages = 0, free_pages = 0, zone_type_of = type\<rparr>)
   }"

function floor_order_from :: "nat \<Rightarrow> u64 \<Rightarrow> nat" where
  "floor_order_from order bytes =
     (if order + 1 < MAX_ORDER \<and> push_bit (order + 1) 1 \<le> bytes then floor_order_from (order + 1) bytes
      else order)"
  by pat_completeness auto
termination
  by (relation "measure (\<lambda>(order, bytes). MAX_ORDER - order)") auto

declare floor_order_from.simps [simp del]

definition floor_order_for_size :: "u64 \<Rightarrow> nat" where
  "floor_order_for_size bytes = floor_order_from MIN_ORDER bytes"

definition builtin_ctzll :: "u64 \<Rightarrow> nat" where
  "builtin_ctzll w = length (takeWhile (\<lambda>n. \<not> bit w n) [0..<64])"

definition region_order :: "u64 \<Rightarrow> u64 \<Rightarrow> nat" where
  "region_order current end =
     (let remaining = end - current;
          order_by_size = floor_order_for_size remaining;
          order_by_align = (if current = 0 then MAX_ORDER - 1 else min (builtin_ctzll current) (MAX_ORDER - 1));
          order = min order_by_size order_by_align
      in if order < MIN_ORDER then MIN_ORDER else order)"

partial_function (option) add_blocks :: "u64 \<Rightarrow> u64 \<Rightarrow> metadata \<Rightarrow> zone \<Rightarrow> (metadata \<times> zone) option" where
  "add_blocks end current m z =
     (if current < end then
        let order = region_order current end in do {
          (m', z') \<leftarrow> buddy_free_zone_locked m z current order;
          add_blocks end (current + order_to_bytes order) m'
            (z'\<lparr>managed_pages := managed_pages z' + order_to_pages order\<rparr>)
        }
      else Some (m, z))"

definition add_region :: "metadata \<Rightarrow> zone \<Rightarrow> u64 \<Rightarrow> u64 \<Rightarrow> (metadata \<times> zone) option" where
  "add_region m z start end =
     (if start \<ge> end then Some (m, z)
      else
        let start = PADDING_UP start PAGE_SIZE; end = PADDING_DOWN end PAGE_SIZE in
        if start \<ge> end then Some (m, z)
        else
          let zone_start = zone_phys_start z; zone_end = zone_phys_end z;
              start = (if start < zone_start then zone_start else start);
              end = (if end > zone_end then zone_end else end)
          in if start \<ge> end then Some (m, z) else add_blocks end start m z)"

section \<open>A fresh zone\<close>

lemma init_areas_Some:
  assumes "length (metadata_free_list m) = 0" "metadata_pool_used m + n \<le> metadata_pool_pages m"
  shows "\<exists>m' areas. init_areas n m = Some (m', areas) \<and> length areas = n \<and>
    (\<forall>c\<in>set areas. length c = 1 \<and> chain_entries c = []) \<and>
    metadata_free_list m' = [] \<and> metadata_pool_used m' = metadata_pool_used m + n \<and>
    metadata_pool_pages m' = metadata_pool_pages m \<and> metadata_pool_phys m' = metadata_pool_phys m \<and>
    handed_out m' = handed_out m + sum_list (map (\<lambda>c. mset (map pl_phys c)) areas)"
  using assms
proof (induction n arbitrary: m)
  case (Suc n)
  let ?p = "metadata_pool_phys m + of_nat (metadata_pool_used m) * PAGE_SIZE"
  let ?m = "m\<lparr>metadata_pool_used := metadata_pool_used m + 1\<rparr>"
  have al: "metadata_page_alloc m = Some (?p, ?m)"
    using Suc.prems by (simp add: metadata_page_alloc_def)
  have h: "handed_out ?m = add_mset ?p (handed_out m)" by (simp add: handed_out_def atLeastLessThanSuc)
  obtain m' areas where "init_areas n ?m = Some (m', areas)" "length areas = n"
      "\<forall>c\<in>set areas. length c = 1 \<and> chain_entries c = []" "metadata_free_list m' = []"
      "metadata_pool_used m' = metadata_pool_used m + 1 + n" "metadata_pool_pages m' = metadata_pool_pages m"
      "metadata_pool_phys m' = metadata_pool_phys m"
      "handed_out m' = handed_out ?m + sum_list (map (\<lambda>c. mset (map pl_phys c)) areas)"
    using Suc.IH [of ?m] Suc.prems by auto
  then show ?case using al h by simp
qed simp

lemma init_zone_spec:
  assumes "metadata_free_list m = []" "handed_out m = fst L" "size (fst L) \<le> snd L"
    and "snd L + 19 + (unat hi - unat lo) div 510 \<le> metadata_pool_pages m"
    and "lo \<le> hi" "unat hi * 4096 < 2 ^ 64"
  shows "\<exists>m' z. init_zone m ty lo hi = Some (m', z) \<and> zone_ok L m' z \<and> zone_free_frames z = {} \<and>
    zone_start_pfn z = lo \<and> zone_end_pfn z = hi \<and> zone_type_of z = ty \<and> managed_pages z = 0 \<and>
    metadata_free_list m' = [] \<and> handed_out m' = fst L + zone_pages z \<and>
    metadata_pool_used m' = metadata_pool_used m + 19 \<and> metadata_pool_pages m' = metadata_pool_pages m"
proof -
  obtain m' areas where i: "init_areas 19 m = Some (m', areas)" "length areas = 19"
      "\<forall>c\<in>set areas. length c = 1 \<and> chain_entries c = []" "metadata_free_list m' = []"
      "metadata_pool_used m' = metadata_pool_used m + 19" "metadata_pool_pages m' = metadata_pool_pages m"
      "handed_out m' = handed_out m + sum_list (map (\<lambda>c. mset (map pl_phys c)) areas)"
    using init_areas_Some [of m 19] assms size_handed_out [of m] by auto
  let ?z = "\<lparr>free_area = areas, zone_start_pfn = lo, zone_end_pfn = hi,
     managed_pages = 0, free_pages = 0, zone_type_of = ty\<rparr>"
  have none: "zone_blocks ?z = {}" using i(2,3) by (auto simp: zone_blocks_def zone_entries_def)
  have one: "length c = 1 \<Longrightarrow> chain_entries c = [] \<Longrightarrow> chain_wf c" for c
    by (cases c) auto
  have "area_wf (areas ! k)" if "k < 19" for k
    using that i(2,3) nth_mem [of k areas] one by (auto simp: area_wf_def)
  then have "lists_wf ?z"
    using assms(5,6) none i(2)
    by (simp add: lists_wf_def zone_bounds_def blocks_wf_def disjoint_blocks_def disjoint_family_on_def coalesced_def)
  moreover have "chains_bounded ?z" using i(2,3) nth_mem [of _ areas] by (auto simp: chains_bounded_def)
  moreover have "zone_free_frames ?z = {}" by (simp add: zone_free_frames_def none)
  ultimately have "zone_ok L m' ?z"
    using assms i size_handed_out [of m] by (simp add: zone_ok_def zone_inv_def zone_pages_def zone_quota_def)
  then show ?thesis
    using i assms none by (simp add: init_zone_def zone_free_frames_def zone_pages_def)
qed

section \<open>Cutting a region into blocks\<close>

lemma floor_order_from_bounds:
  "od < 31 \<Longrightarrow> od \<le> floor_order_from od bytes \<and> floor_order_from od bytes < 31"
proof (induction od bytes rule: floor_order_from.induct)
  case (1 od bytes)
  then show ?case by (subst (1 2) floor_order_from.simps) auto
qed

lemma floor_order_from_fits:
  "push_bit od 1 \<le> bytes \<Longrightarrow> push_bit (floor_order_from od bytes) 1 \<le> bytes"
proof (induction od bytes rule: floor_order_from.induct)
  case (1 od bytes)
  then show ?case by (subst floor_order_from.simps) auto
qed

lemma builtin_ctzll_zero_bits: "i < builtin_ctzll w \<Longrightarrow> \<not> bit w i"
proof -
  assume i: "i < builtin_ctzll w"
  then have i64: "i < 64" unfolding builtin_ctzll_def
    by (metis length_takeWhile_le length_upt minus_nat.diff_0 order_less_le_trans)
  have "takeWhile (\<lambda>n. \<not> bit w n) [0..<64] ! i \<in> set (takeWhile (\<lambda>n. \<not> bit w n) [0..<64])"
    using i by (simp add: builtin_ctzll_def)
  then have "\<not> bit w (takeWhile (\<lambda>n. \<not> bit w n) [0..<64] ! i)" by (blast dest: set_takeWhileD)
  then show "\<not> bit w i" using i i64 by (simp add: builtin_ctzll_def takeWhile_nth)
qed

lemma take_bit_zero_dvd: "take_bit n a = 0 \<longleftrightarrow> 2 ^ n dvd unat (a :: u64)"
  by (metis take_bit_eq_0_iff unsigned_take_bit_eq unsigned_0 unsigned_eq_0_iff)

lemma builtin_ctzll_dvd: "n \<le> builtin_ctzll w \<Longrightarrow> 2 ^ n dvd unat w"
  using builtin_ctzll_zero_bits
  by (auto simp: bit_take_bit_iff simp flip: take_bit_zero_dvd intro!: bit_eqI)

lemma builtin_ctzll_least:
  assumes "w \<noteq> 0" "2 ^ n dvd unat w"
  shows "n \<le> builtin_ctzll w"
proof (rule ccontr)
  assume "\<not> n \<le> builtin_ctzll w"
  then have c: "builtin_ctzll w < n" by simp
  have z: "\<not> bit w i" if "i < n" for i
    using that assms(2) by (metis bit_take_bit_iff bit_0_eq take_bit_zero_dvd bot_apply bot_bool_def)
  show False
  proof (cases "builtin_ctzll w < 64")
    case True
    then have "\<not> \<not> bit w ([0..<64] ! builtin_ctzll w)"
      using nth_length_takeWhile [of "\<lambda>n. \<not> bit w n" "[0..<64]"] by (simp add: builtin_ctzll_def)
    then show False using z [OF c] True by simp
  next
    case False
    have "\<not> bit w i" for i
      using builtin_ctzll_zero_bits [of i w] False bit_imp_le_length [of w i] by (cases "i < 64") auto
    then show False using assms(1) by (simp add: bit_eq_iff)
  qed
qed

lemma region_order_spec:
  assumes cur: "page_aligned cur" "cur \<noteq> 0" and e: "page_aligned end" and lt: "cur < end"
  shows "\<exists>k<19. region_order cur end = 12 + k \<and> 2 ^ k dvd pfn cur \<and> pfn cur + 2 ^ k \<le> pfn end"
proof -
  let ?rem = "end - cur" and ?f = "floor_order_for_size (end - cur)"
  have rem: "unat ?rem = (pfn end - pfn cur) * 4096"
    using lt cur(1) e by (simp add: unat_sub_no_wrap unat_pfn diff_mult_distrib)
  have lt': "pfn cur < pfn end" using lt cur(1) e by (simp add: word_less_nat_alt unat_pfn)
  have "push_bit 12 1 \<le> ?rem" using rem lt' by (simp add: word_le_nat_alt)
  then have fit: "push_bit ?f 1 \<le> ?rem"
    unfolding floor_order_for_size_def by (rule floor_order_from_fits)
  have f: "12 \<le> ?f" "?f < 31" using floor_order_from_bounds [of 12] by (auto simp: floor_order_for_size_def)
  let ?c = "min (builtin_ctzll cur) 30"
  have c: "12 \<le> ?c" using builtin_ctzll_least [OF cur(2), of 12] cur(1) by (simp add: page_aligned_def)
  define k where "k = min ?f ?c - 12"
  have k: "region_order cur end = 12 + k" "k < 19" "12 + k \<le> ?f" "12 + k \<le> builtin_ctzll cur"
    using f c cur(2) by (auto simp: region_order_def Let_def k_def)
  have "2 ^ k dvd pfn cur" using builtin_ctzll_dvd [OF k(4)] block_aligned_iff [of k cur] by simp
  moreover have "2 ^ k * 4096 \<le> (pfn end - pfn cur) * 4096"
  proof -
    have "(2::nat) ^ (12 + k) \<le> 2 ^ ?f" using k(3) by (intro power_increasing) auto
    also have "\<dots> \<le> unat ?rem" using fit f(2) by (simp add: word_le_nat_alt unat_pow2)
    finally show ?thesis by (simp only: rem pow12)
  qed
  then have "2 ^ k \<le> pfn end - pfn cur" by simp
  ultimately show ?thesis using k lt' by (intro exI [of _ k]) simp
qed

definition same_span :: "zone \<Rightarrow> zone \<Rightarrow> bool" where
  "same_span z z' \<longleftrightarrow> zone_start_pfn z' = zone_start_pfn z \<and> zone_end_pfn z' = zone_end_pfn z \<and>
     zone_type_of z' = zone_type_of z"

lemma managed_pages_update [simp]:
  "zone_free_frames (z\<lparr>managed_pages := n\<rparr>) = zone_free_frames z"
  "zone_ok L m (z\<lparr>managed_pages := n\<rparr>) = zone_ok L m z"
proof -
  have e: "zone_blocks (z\<lparr>managed_pages := n\<rparr>) = zone_blocks z"
    by (simp add: zone_blocks_def zone_entries_def)
  show f: "zone_free_frames (z\<lparr>managed_pages := n\<rparr>) = zone_free_frames z" by (simp add: zone_free_frames_def e)
  show "zone_ok L m (z\<lparr>managed_pages := n\<rparr>) = zone_ok L m z"
    by (simp add: zone_ok_def zone_inv_def lists_wf_def e f zone_bounds_def chains_bounded_def zone_pages_def
        zone_quota_def)
qed

lemma add_blocks_spec:
  assumes "zone_ok L m z" "page_aligned cur" "cur \<noteq> 0" "page_aligned end" "cur \<le> end"
    and "zlo z \<le> pfn cur" "pfn end \<le> zhi z" "{pfn cur ..< pfn end} \<inter> zone_free_frames z = {}"
  shows "\<exists>m' z'. add_blocks end cur m z = Some (m', z') \<and> zone_ok L m' z' \<and> same_span z z' \<and>
    zone_free_frames z' = zone_free_frames z \<union> {pfn cur ..< pfn end} \<and>
    managed_pages z' = managed_pages z + of_nat (pfn end - pfn cur)"
  using assms
proof (induction "pfn end - pfn cur" arbitrary: m z cur rule: less_induct)
  case less
  note P = less.prems
  show ?case
  proof (cases "cur < end")
    case False
    then have "cur = end" using P(5) by simp
    then show ?thesis using P by (subst add_blocks.simps) (auto simp: same_span_def)
  next
    case True
    obtain k where k: "k < 19" "region_order cur end = 12 + k" "2 ^ k dvd pfn cur" "pfn cur + 2 ^ k \<le> pfn end"
      using region_order_spec [OF P(2,3,4) True] by blast
    have bf: "block_frames (k, pfn cur) = {pfn cur ..< pfn cur + 2 ^ k}" by (simp add: block_frames_def)
    have bin: "block_in (zlo z) (zhi z) (k, pfn cur)" using k P(6,7) by (simp add: block_in_def)
    have "block_frames (k, pfn cur) \<inter> zone_free_frames z = {}" using P(8) k(4) unfolding bf by fastforce
    then obtain m1 z1 where fr: "buddy_free_zone_locked m z cur (12 + k) = Some (m1, z1)" "zone_ok L m1 z1"
        "same_bounds z z1" "zone_free_frames z1 = zone_free_frames z \<union> block_frames (k, pfn cur)"
      using buddy_free_zone_locked_spec [OF P(1,2,3) bin] by blast
    let ?cur = "cur + order_to_bytes (12 + k)"
    let ?z = "z1\<lparr>managed_pages := managed_pages z1 + order_to_pages (12 + k)\<rparr>"
    have e: "unat end = pfn end * 4096" using P(4) by (rule unat_pfn)
    have "(pfn cur + 2 ^ k) * 4096 < 2 ^ 64"
      using mult_le_mono1 [OF k(4), of 4096] e unsigned_less [of "end", where 'a = nat] by simp
    note up = upper_half_address [OF P(2) k(1) this]
    have "?cur \<noteq> 0" using up(2) by (auto simp: pfn_def)
    moreover have "?cur \<le> end" using k(4) up P(4) by (simp add: word_le_nat_alt unat_pfn)
    moreover have "zone_ok L m1 ?z" using fr(2) by simp
    moreover have "zlo ?z \<le> pfn ?cur" "pfn end \<le> zhi ?z"
      using P(6,7) up(2) fr(3) by (auto simp: same_bounds_def)
    moreover have "{pfn ?cur ..< pfn end} \<inter> zone_free_frames ?z = {}"
      using P(8) fr(4) up(2) unfolding bf managed_pages_update disjoint_iff by auto
    moreover have "pfn end - pfn ?cur < pfn end - pfn cur"
      using up(2) k(4) zero_less_power [of "2 :: nat" k] by linarith
    ultimately obtain m' z' where IH: "add_blocks end ?cur m1 ?z = Some (m', z')" "zone_ok L m' z'" "same_span ?z z'"
        "zone_free_frames z' = zone_free_frames ?z \<union> {pfn ?cur ..< pfn end}"
        "managed_pages z' = managed_pages ?z + of_nat (pfn end - pfn ?cur)"
      using less.hyps [of ?cur m1 ?z] up(1) P(4) by blast
    have "add_blocks end cur m z = Some (m', z')"
      using True k(2) fr(1) IH(1) by (subst add_blocks.simps) simp
    moreover have "zone_free_frames z' = zone_free_frames z \<union> {pfn cur ..< pfn end}"
      using IH(4) fr(4) up(2) k(4) unfolding bf by auto
    moreover have "managed_pages z' = managed_pages z + of_nat (pfn end - pfn cur)"
    proof -
      have "order_to_pages (12 + k) = of_nat (2 ^ k)" by (simp add: order_to_pages_def)
      moreover have "pfn end - pfn cur = 2 ^ k + (pfn end - pfn ?cur)" using up(2) k(4) by simp
      ultimately show ?thesis using IH(5) fr(3) by (simp only: of_nat_add) (simp add: same_bounds_def)
    qed
    moreover have "same_span z z'" using IH(3) fr(3) by (simp add: same_span_def same_bounds_def)
    ultimately show ?thesis using IH(2) by blast
  qed
qed

text \<open>
  The frames a region gives to a zone: those that lie wholly inside the region and inside
  the zone.  The rounding up of \<open>start\<close> must not wrap.
\<close>

definition region_frames :: "zone \<Rightarrow> u64 \<Rightarrow> u64 \<Rightarrow> nat set" where
  "region_frames z start end =
     {max (zlo z) ((unat start + 4095) div 4096) ..< min (zhi z) (unat end div 4096)}"

lemma PADDING_DOWN_page:
  "unat (PADDING_DOWN a PAGE_SIZE) = unat a div 4096 * 4096" "page_aligned (PADDING_DOWN a PAGE_SIZE)"
  "pfn (PADDING_DOWN a PAGE_SIZE) = unat a div 4096"
proof -
  have "unat a div 4096 * 4096 \<le> unat a" by simp
  also have "\<dots> < 2 ^ 64" using unsigned_less [of a, where 'a = nat] by simp
  finally show u: "unat (PADDING_DOWN a PAGE_SIZE) = unat a div 4096 * 4096"
    by (simp add: PADDING_DOWN_def unat_word_ariths unat_div_distrib)
  show "page_aligned (PADDING_DOWN a PAGE_SIZE)" "pfn (PADDING_DOWN a PAGE_SIZE) = unat a div 4096"
    by (simp_all add: page_aligned_def pfn_def u)
qed

lemma PADDING_UP_page:
  assumes "unat a + 4095 < 2 ^ 64"
  shows "page_aligned (PADDING_UP a PAGE_SIZE)" "pfn (PADDING_UP a PAGE_SIZE) = (unat a + 4095) div 4096"
proof -
  have "a + PAGE_SIZE - 1 = a + 4095" by simp
  moreover have "unat (4095 :: u64) = 4095" by simp
  ultimately have "unat (a + PAGE_SIZE - 1) = unat a + 4095"
    using assms unat_add_no_wrap [of a 4095] by metis
  then show "page_aligned (PADDING_UP a PAGE_SIZE)" "pfn (PADDING_UP a PAGE_SIZE) = (unat a + 4095) div 4096"
    by (simp_all add: PADDING_UP_def PADDING_DOWN_page)
qed

lemma page_aligned_less: "page_aligned a \<Longrightarrow> page_aligned b \<Longrightarrow> a < b \<longleftrightarrow> pfn a < pfn b"
  by (simp add: word_less_nat_alt unat_pfn)

lemma add_region_spec:
  assumes ok: "zone_ok L m z" and s: "0 < start" "unat start + 4095 < 2 ^ 64"
    and fresh: "region_frames z start end \<inter> zone_free_frames z = {}"
  shows "\<exists>m' z'. add_region m z start end = Some (m', z') \<and> zone_ok L m' z' \<and> same_span z z' \<and>
    zone_free_frames z' = zone_free_frames z \<union> region_frames z start end \<and>
    managed_pages z' = managed_pages z + of_nat (card (region_frames z start end))"
proof -
  have zb: "zone_bounds z" using ok by (simp add: zone_ok_def zone_inv_def lists_wf_def)
  let ?s = "PADDING_UP start PAGE_SIZE" and ?e = "PADDING_DOWN end PAGE_SIZE"
  let ?s' = "if ?s < zone_phys_start z then zone_phys_start z else ?s"
  let ?e' = "if ?e > zone_phys_end z then zone_phys_end z else ?e"
  note up = PADDING_UP_page [OF s(2)] and down = PADDING_DOWN_page(2,3) [of "end"]
  have zp: "page_aligned (zone_phys_start z)" "pfn (zone_phys_start z) = zlo z"
      "page_aligned (zone_phys_end z)" "pfn (zone_phys_end z) = zhi z"
    using zone_phys_bounds [OF zb] by (simp_all add: page_aligned_def pfn_def)
  have s': "page_aligned ?s'" "pfn ?s' = max (zlo z) ((unat start + 4095) div 4096)"
    using up zp page_aligned_less [OF up(1) zp(1)] by auto
  have e': "page_aligned ?e'" "pfn ?e' = min (zhi z) (unat end div 4096)"
    using down zp page_aligned_less [OF zp(3) down(1)] by auto
  have rf: "region_frames z start end = {pfn ?s' ..< pfn ?e'}" by (simp only: region_frames_def s' e')
  show ?thesis
  proof (cases "?s' < ?e'")
    case False
    then have "pfn ?e' \<le> pfn ?s'" using page_aligned_less [OF s'(1) e'(1)] by simp
    moreover from False have "add_region m z start end = Some (m, z)"
      by (simp add: add_region_def Let_def not_less)
    ultimately show ?thesis using ok by (simp add: rf same_span_def)
  next
    case True
    then have lt: "pfn ?s' < pfn ?e'" using page_aligned_less [OF s'(1) e'(1)] by simp
    have "(unat start + 4095) div 4096 < unat end div 4096" using lt unfolding s'(2) e'(2) by simp
    then have "unat start div 4096 < unat end div 4096"
      using div_le_mono [of "unat start" "unat start + 4095" 4096] by linarith
    then have "start < end" unfolding word_less_nat_alt by (metis div_le_mono not_less)
    moreover have "?s < ?e" using lt s'(2) e'(2) up down page_aligned_less [OF up(1) down(1)] by simp
    ultimately have run: "add_region m z start end = add_blocks ?e' ?s' m z"
      using True by (simp only: add_region_def Let_def not_le [symmetric] if_False)
    have "0 < unat start" using s(1) by (simp add: word_less_nat_alt)
    then have "0 < (unat start + 4095) div 4096" by (simp add: div_greater_zero_iff)
    then have "?s' \<noteq> 0" using s'(2) by (auto simp: pfn_def)
    moreover have "zlo z \<le> pfn ?s'" "pfn ?e' \<le> zhi z" using s'(2) e'(2) by auto
    ultimately have "\<exists>m' z'. add_blocks ?e' ?s' m z = Some (m', z') \<and> zone_ok L m' z' \<and> same_span z z' \<and>
        zone_free_frames z' = zone_free_frames z \<union> {pfn ?s' ..< pfn ?e'} \<and>
        managed_pages z' = managed_pages z + of_nat (pfn ?e' - pfn ?s')"
      using True fresh rf by (intro add_blocks_spec [OF ok s'(1) _ e'(1)]) simp_all
    then show ?thesis unfolding run rf by simp
  qed
qed

end
