(* ===== verification/Frame_Interface.thy ===== *)
theory Frame_Interface
  imports Buddy_Regions
begin

text \<open>
  What the rest of the kernel relies on when it asks for page frames, as a locale: a
  request is answered with a whole, naturally aligned block taken from the free frames or
  with 0, and a block given back becomes free again.  Proved once, for every provider: in
  any sequence of requests and releases the blocks in use never overlap, none of their
  frames is free, and no frame is lost.  The zone operations of theory \<open>Buddy\<close> are the first
  provider; the kernel's \<open>alloc_frames\<close> and \<open>free_frames\<close> (theory \<open>Frames\<close>) are the second.
\<close>

section \<open>Sequences of requests\<close>

text \<open>The state is the provider's and the list of blocks in use, with their orders above \<open>MIN_ORDER\<close>.\<close>

inductive alloc_step ::
    "('s \<Rightarrow> u64 \<Rightarrow> ('s \<times> u64) option) \<Rightarrow> ('s \<Rightarrow> u64 \<Rightarrow> nat \<Rightarrow> 's option) \<Rightarrow>
     's \<times> (nat \<times> u64) list \<Rightarrow> 's \<times> (nat \<times> u64) list \<Rightarrow> bool"
  for alloc free where
  get: "alloc s c = Some (s', a) \<Longrightarrow> a \<noteq> 0 \<Longrightarrow> count_to_order c = Some (12 + k, p) \<Longrightarrow>
        alloc_step alloc free (s, live) (s', (k, a) # live)"
| none: "alloc s c = Some (s', 0) \<Longrightarrow> alloc_step alloc free (s, live) (s', live)"
| put: "(k, a) \<in> set live \<Longrightarrow> free s a k = Some s' \<Longrightarrow>
        alloc_step alloc free (s, live) (s', remove1 (k, a) live)"

inductive_cases alloc_stepE: "alloc_step alloc free x y"

definition live_frames :: "(nat \<times> u64) list \<Rightarrow> nat set" where
  "live_frames live = (\<Union>(k, a)\<in>set live. block_frames (k, pfn a))"

fun separate :: "(nat \<times> u64) list \<Rightarrow> bool" where
  "separate [] \<longleftrightarrow> True"
| "separate ((k, a) # live) \<longleftrightarrow> block_frames (k, pfn a) \<inter> live_frames live = {} \<and> separate live"

lemma live_frames_simps [simp]:
  "live_frames [] = {}" "live_frames ((k, a) # live) = block_frames (k, pfn a) \<union> live_frames live"
  by (auto simp: live_frames_def)

lemma live_frames_mem: "(k, a) \<in> set live \<Longrightarrow> block_frames (k, pfn a) \<subseteq> live_frames live"
  by (auto simp: live_frames_def)

lemma live_frames_remove1:
  "separate live \<Longrightarrow> (k, a) \<in> set live \<Longrightarrow>
   live_frames (remove1 (k, a) live) = live_frames live - block_frames (k, pfn a)"
proof (induction live)
  case (Cons x live)
  obtain j b where x: "x = (j, b)" by fastforce
  show ?case
  proof (cases "x = (k, a)")
    case True
    then show ?thesis using Cons.prems(1) by auto
  next
    case False
    then have mem: "(k, a) \<in> set live" using Cons.prems(2) by simp
    have "block_frames (j, pfn b) \<inter> block_frames (k, pfn a) = {}"
      using Cons.prems(1) live_frames_mem [OF mem] unfolding x separate.simps by blast
    moreover have "live_frames (remove1 (k, a) live) = live_frames live - block_frames (k, pfn a)"
      using Cons.IH Cons.prems(1) mem unfolding x by simp
    moreover have "live_frames (remove1 (k, a) (x # live)) =
        block_frames (j, pfn b) \<union> live_frames (remove1 (k, a) live)"
      using False unfolding x by (auto simp: live_frames_def)
    ultimately show ?thesis unfolding x live_frames_simps by blast
  qed
qed simp

lemma separate_remove1: "separate live \<Longrightarrow> separate (remove1 x live)"
proof (induction live)
  case (Cons y live)
  obtain j b where y: "y = (j, b)" by fastforce
  have "live_frames (remove1 x live) \<subseteq> live_frames live"
    unfolding live_frames_def using set_remove1_subset [of x live] by blast
  then have "block_frames (j, pfn b) \<inter> live_frames (remove1 x live) = {}"
    using Cons.prems unfolding y separate.simps by blast
  then show ?case using Cons unfolding y by (auto simp del: mem_block_frames)
qed simp

section \<open>The contract\<close>

locale frame_allocator =
  fixes alloc :: "'s \<Rightarrow> u64 \<Rightarrow> ('s \<times> u64) option"
    and free :: "'s \<Rightarrow> u64 \<Rightarrow> nat \<Rightarrow> 's option"
    and inv :: "'s \<Rightarrow> bool"
    and frames :: "'s \<Rightarrow> nat set"
    and inside :: "'s \<Rightarrow> nat \<times> nat \<Rightarrow> bool"
  assumes alloc_law: "inv s \<Longrightarrow> \<exists>s' a. alloc s c = Some (s', a) \<and> inv s' \<and> inside s' = inside s \<and>
      (if a = 0 then frames s' = frames s
       else \<exists>k p. count_to_order c = Some (12 + k, p) \<and> page_aligned a \<and> inside s (k, pfn a) \<and>
         block_frames (k, pfn a) \<subseteq> frames s \<and> frames s' = frames s - block_frames (k, pfn a))"
    and free_law: "inv s \<Longrightarrow> page_aligned a \<Longrightarrow> a \<noteq> 0 \<Longrightarrow> inside s (k, pfn a) \<Longrightarrow>
      block_frames (k, pfn a) \<inter> frames s = {} \<Longrightarrow>
      \<exists>s'. free s a k = Some s' \<and> inv s' \<and> inside s' = inside s \<and> frames s' = frames s \<union> block_frames (k, pfn a)"
begin

definition client_inv :: "nat set \<Rightarrow> 's \<times> (nat \<times> u64) list \<Rightarrow> bool" where
  "client_inv F = (\<lambda>(s, live). inv s \<and> separate live \<and> frames s \<inter> live_frames live = {} \<and>
     frames s \<union> live_frames live = F \<and>
     (\<forall>(k, a)\<in>set live. page_aligned a \<and> a \<noteq> 0 \<and> inside s (k, pfn a)))"

lemma alloc_result:
  assumes "inv s" "alloc s c = Some (s', a)"
  shows "inv s'" "inside s' = inside s" "a = 0 \<Longrightarrow> frames s' = frames s"
    "a \<noteq> 0 \<Longrightarrow> count_to_order c = Some (12 + k, p) \<Longrightarrow> page_aligned a \<and> inside s (k, pfn a) \<and>
       block_frames (k, pfn a) \<subseteq> frames s \<and> frames s' = frames s - block_frames (k, pfn a)"
  using alloc_law [OF assms(1), of c] assms(2) by (auto split: if_splits)

lemma client_step:
  assumes "alloc_step alloc free x y" "client_inv F x"
  shows "client_inv F y"
  using assms(1)
proof (cases rule: alloc_step.cases)
  case (get s c s' a k p live)
  then have inv: "inv s" and ci: "client_inv F (s, live)" using assms(2) by (auto simp: client_inv_def)
  note r = alloc_result [OF inv get(3)]
  note b = r(4) [OF get(4,5)]
  have "frames s' \<inter> live_frames ((k, a) # live) = {}" "frames s' \<union> live_frames ((k, a) # live) = F"
      "block_frames (k, pfn a) \<inter> live_frames live = {}"
    using ci b unfolding client_inv_def live_frames_simps by blast+
  then show ?thesis using r(1,2) b ci get(2,4) by (simp add: client_inv_def)
next
  case (none s c s' live)
  then show ?thesis using assms(2) alloc_result(1-3) [of s c s' 0] by (simp add: client_inv_def)
next
  case (put k a live s s')
  then have ci: "client_inv F (s, live)" using assms(2) by simp
  then have sep: "separate live" and inv: "inv s"
    and a: "page_aligned a" "a \<noteq> 0" "inside s (k, pfn a)"
    using put(3) by (auto simp: client_inv_def)
  note sub = live_frames_mem [OF put(3)] and rem = live_frames_remove1 [OF sep put(3)]
  have "block_frames (k, pfn a) \<inter> frames s = {}" using ci sub unfolding client_inv_def by blast
  then have s': "inv s'" "inside s' = inside s" "frames s' = frames s \<union> block_frames (k, pfn a)"
    using free_law [OF inv a] put(4) by auto
  have "frames s' \<inter> live_frames (remove1 (k, a) live) = {}" "frames s' \<union> live_frames (remove1 (k, a) live) = F"
    using ci sub unfolding rem s' client_inv_def by blast+
  moreover have "\<forall>(j, b)\<in>set (remove1 (k, a) live). page_aligned b \<and> b \<noteq> 0 \<and> inside s' (j, pfn b)"
    using ci s'(2) set_remove1_subset [of "(k, a)" live] by (auto simp: client_inv_def)
  ultimately show ?thesis using s'(1) separate_remove1 [OF sep] put(2) by (simp add: client_inv_def)
qed

lemma client_run: "(alloc_step alloc free)\<^sup>*\<^sup>* x y \<Longrightarrow> client_inv F x \<Longrightarrow> client_inv F y"
  by (induction rule: rtranclp_induct) (auto intro: client_step)

lemma blocks_never_overlap:
  assumes "inv s0" "(alloc_step alloc free)\<^sup>*\<^sup>* (s0, []) (s, live)"
  shows "inv s \<and> separate live \<and> frames s \<inter> live_frames live = {} \<and> frames s \<union> live_frames live = frames s0"
  using client_run [OF assms(2), of "frames s0"] assms(1) by (simp add: client_inv_def)

lemma never_stuck:
  assumes "inv s0" "(alloc_step alloc free)\<^sup>*\<^sup>* (s0, []) (s, live)"
  shows "alloc s c \<noteq> None" and "(k, a) \<in> set live \<Longrightarrow> free s a k \<noteq> None"
proof -
  have ci: "client_inv (frames s0) (s, live)"
    using client_run [OF assms(2)] assms(1) by (simp add: client_inv_def)
  then show "alloc s c \<noteq> None" using alloc_law [of s c] by (auto simp: client_inv_def)
  assume m: "(k, a) \<in> set live"
  have "block_frames (k, pfn a) \<inter> frames s = {}"
    using ci live_frames_mem [OF m] unfolding client_inv_def by blast
  moreover have "inv s" "page_aligned a" "a \<noteq> 0" "inside s (k, pfn a)"
    using ci m by (auto simp: client_inv_def)
  ultimately show "free s a k \<noteq> None" using free_law [of s a k] by auto
qed

text \<open>A block given back can be had again at once: the round trip restores the free frames.\<close>

lemma alloc_free_restores:
  assumes "inv s" "alloc s c = Some (s', a)" "a \<noteq> 0" "count_to_order c = Some (12 + k, p)"
  shows "\<exists>s''. free s' a k = Some s'' \<and> inv s'' \<and> frames s'' = frames s"
proof -
  note r = alloc_result [OF assms(1,2)]
  note b = r(4) [OF assms(3,4)]
  have "inside s' (k, pfn a)" "block_frames (k, pfn a) \<inter> frames s' = {}" using r(2) b by auto
  then obtain s'' where "free s' a k = Some s''" "inv s''" "frames s'' = frames s' \<union> block_frames (k, pfn a)"
    using free_law [OF r(1), of a k] b assms(3) by auto
  then show ?thesis using b by auto
qed

end

section \<open>The zones as a provider\<close>

definition zone_alloc :: "metadata \<times> zone \<Rightarrow> u64 \<Rightarrow> ((metadata \<times> zone) \<times> u64) option" where
  "zone_alloc = (\<lambda>(m, z) c. map_option (\<lambda>(m', z', a). ((m', z'), a)) (buddy_alloc_zone m z c))"

definition zone_free :: "metadata \<times> zone \<Rightarrow> u64 \<Rightarrow> nat \<Rightarrow> (metadata \<times> zone) option" where
  "zone_free = (\<lambda>(m, z) a k. buddy_free_zone m z a (12 + k))"

interpretation zone_provider: frame_allocator zone_alloc zone_free "\<lambda>(m, z). zone_ok L m z"
    "\<lambda>(m, z). zone_free_frames z" "\<lambda>(m, z). block_in (zlo z) (zhi z)" for L
proof unfold_locales
  fix s :: "metadata \<times> zone" and c
  obtain m z where s: "s = (m, z)" by fastforce
  assume "case s of (m, z) \<Rightarrow> zone_ok L m z"
  then have ok: "zone_ok L m z" by (simp add: s)
  show "\<exists>s' a. zone_alloc s c = Some (s', a) \<and> (case s' of (m, z) \<Rightarrow> zone_ok L m z) \<and>
     (case s' of (m, z) \<Rightarrow> block_in (zlo z) (zhi z)) = (case s of (m, z) \<Rightarrow> block_in (zlo z) (zhi z)) \<and>
     (if a = 0 then (case s' of (m, z) \<Rightarrow> zone_free_frames z) = (case s of (m, z) \<Rightarrow> zone_free_frames z)
      else \<exists>k p. count_to_order c = Some (12 + k, p) \<and> page_aligned a \<and>
        (case s of (m, z) \<Rightarrow> block_in (zlo z) (zhi z)) (k, pfn a) \<and>
        block_frames (k, pfn a) \<subseteq> (case s of (m, z) \<Rightarrow> zone_free_frames z) \<and>
        (case s' of (m, z) \<Rightarrow> zone_free_frames z) =
          (case s of (m, z) \<Rightarrow> zone_free_frames z) - block_frames (k, pfn a))"
  proof -
    obtain m' z' a where "buddy_alloc_zone m z c = Some (m', z', a)" "zone_ok L m' z'" "same_bounds z z'"
        "if a = 0 then zone_free_frames z' = zone_free_frames z
         else \<exists>k p. count_to_order c = Some (12 + k, p) \<and> page_aligned a \<and> block_in (zlo z) (zhi z) (k, pfn a) \<and>
           block_frames (k, pfn a) \<subseteq> zone_free_frames z \<and>
           zone_free_frames z' = zone_free_frames z - block_frames (k, pfn a)"
      using buddy_alloc_zone_spec [OF ok, of c] by (auto split: if_splits)
    then show ?thesis
      by (intro exI [of _ "(m', z')"] exI [of _ a]) (auto simp: s zone_alloc_def same_bounds_def split: if_splits)
  qed
next
  fix s :: "metadata \<times> zone" and a k
  obtain m z where s: "s = (m, z)" by fastforce
  assume "case s of (m, z) \<Rightarrow> zone_ok L m z" "page_aligned a" "a \<noteq> 0"
    "(case s of (m, z) \<Rightarrow> block_in (zlo z) (zhi z)) (k, pfn a)"
    "block_frames (k, pfn a) \<inter> (case s of (m, z) \<Rightarrow> zone_free_frames z) = {}"
  then show "\<exists>s'. zone_free s a k = Some s' \<and> (case s' of (m, z) \<Rightarrow> zone_ok L m z) \<and>
     (case s' of (m, z) \<Rightarrow> block_in (zlo z) (zhi z)) = (case s of (m, z) \<Rightarrow> block_in (zlo z) (zhi z)) \<and>
     (case s' of (m, z) \<Rightarrow> zone_free_frames z) =
       (case s of (m, z) \<Rightarrow> zone_free_frames z) \<union> block_frames (k, pfn a)"
    using buddy_free_zone_spec [of L m z k a]
    by (auto simp: s zone_free_def same_bounds_def block_in_def simp del: mem_block_frames)
qed

end
