(* ===== verification/Bitmap.thy ===== *)
theory Bitmap
  imports Kernel_Prelude
begin

text \<open>
  The bitmap of \<^verbatim>\<open>src/src/mem/bitmap.c\<close>, which the frame allocator uses for
  the usable and the allocated page frames.  The lock and the reference count field
  are not part of the model: every operation runs with the lock held.  A read or
  write outside \<open>buffer\<close> is a fault (\<^const>\<open>None\<close>).
\<close>

section \<open>The bitmap and its operations\<close>

record bitmap =
  bm_buffer :: "u8 list"
  bm_length :: nat

definition bitmap_init :: "nat \<Rightarrow> bitmap" where
  "bitmap_init sz = \<lparr>bm_buffer = replicate sz 0, bm_length = sz * 8\<rparr>"

definition bitmap_get :: "bitmap \<Rightarrow> nat \<Rightarrow> bool option" where
  "bitmap_get b index =
     (let word_index = index div 8; bit_index = index mod 8 in
      if word_index > bm_length b then Some False
      else do {
        w \<leftarrow> aget (bm_buffer b) word_index;
        Some (drop_bit bit_index w AND 1 \<noteq> 0)
      })"

definition bitmap_set :: "bitmap \<Rightarrow> nat \<Rightarrow> bool \<Rightarrow> bitmap option" where
  "bitmap_set b index value =
     (let word_index = index div 8; bit_index = index mod 8 in
      if word_index > bm_length b then Some b
      else do {
        w \<leftarrow> aget (bm_buffer b) word_index;
        buf \<leftarrow> aput (bm_buffer b) word_index
                 (if value then w OR push_bit bit_index 1 else w AND NOT (push_bit bit_index 1));
        Some (b\<lparr>bm_buffer := buf\<rparr>)
      })"

text \<open>The two loops of \<open>bitmap_set_range\<close>: bit by bit, and whole bytes.\<close>

primrec bitmap_set_each :: "bitmap \<Rightarrow> nat list \<Rightarrow> bool \<Rightarrow> bitmap option" where
  "bitmap_set_each b [] value = Some b"
| "bitmap_set_each b (i # ixs) value = do { b' \<leftarrow> bitmap_set b i value; bitmap_set_each b' ixs value }"

primrec bitmap_fill_each :: "bitmap \<Rightarrow> nat list \<Rightarrow> u8 \<Rightarrow> bitmap option" where
  "bitmap_fill_each b [] fill_value = Some b"
| "bitmap_fill_each b (i # ixs) fill_value = do {
     buf \<leftarrow> aput (bm_buffer b) i fill_value;
     bitmap_fill_each (b\<lparr>bm_buffer := buf\<rparr>) ixs fill_value }"

definition bitmap_set_range :: "bitmap \<Rightarrow> nat \<Rightarrow> nat \<Rightarrow> bool \<Rightarrow> bitmap option" where
  "bitmap_set_range b start end value =
     (if start \<ge> end \<or> start \<ge> bm_length b then Some b
      else let start_word = (start + 7) div 8; end_word = end div 8 in do {
        b \<leftarrow> bitmap_set_each b [start ..< min (start_word * 8) end] value;
        if start_word > end_word then Some b
        else do {
          b \<leftarrow> bitmap_fill_each b [start_word ..< end_word] (if value then -1 else 0);
          bitmap_set_each b [max (end_word * 8) start ..< end] value
        }
      })"


text \<open>
  \<open>bitmap_find_range_from\<close>.  The state of the byte loop is \<open>(count, start_index)\<close>; a byte
  either resets the run, extends it by eight, or is scanned bit by bit.  The source
  compares the byte with \<open>!byte_match\<close>, the logical negation of an integer: 0 for
  \<open>byte_match = 255\<close> and 1 for \<open>byte_match = 0\<close>.  \<^const>\<open>Inl\<close> is an early return.
\<close>

fun find_bits :: "nat \<Rightarrow> bool \<Rightarrow> u8 \<Rightarrow> nat \<Rightarrow> nat list \<Rightarrow> nat \<times> nat \<Rightarrow> nat + nat \<times> nat" where
  "find_bits len value byte byte_idx [] cs = Inr cs"
| "find_bits len value byte byte_idx (k # ks) (count, start_index) =
     (if (drop_bit k byte AND 1 \<noteq> 0) = value then
        let start_index = (if count = 0 then byte_idx * 8 + k else start_index);
            count = count + 1
        in if count = len then Inl start_index
           else find_bits len value byte byte_idx ks (count, start_index)
      else find_bits len value byte byte_idx ks (0, start_index))"

definition find_byte :: "nat \<Rightarrow> bool \<Rightarrow> u8 \<Rightarrow> nat \<Rightarrow> nat \<times> nat \<Rightarrow> nat + nat \<times> nat" where
  "find_byte len value byte byte_idx cs =
     (let byte_match = (if value then -1 else 0 :: u8); (count, start_index) = cs in
      if byte = (if byte_match = 0 then 1 else 0) then Inr (0, start_index)
      else if byte = byte_match then
        (if len < 8 then Inl (byte_idx * 8)
         else
           let start_index = (if count = 0 then byte_idx * 8 else start_index);
               count = count + 8
           in if count \<ge> len then Inl start_index else Inr (count, start_index))
      else find_bits len value byte byte_idx [0..<8] (count, start_index))"

primrec find_bytes :: "bitmap \<Rightarrow> nat \<Rightarrow> bool \<Rightarrow> nat list \<Rightarrow> nat \<times> nat \<Rightarrow> nat option option" where
  "find_bytes b len value [] cs = Some None"
| "find_bytes b len value (j # js) cs = do {
     byte \<leftarrow> aget (bm_buffer b) j;
     (case find_byte len value byte j cs of
        Inl r \<Rightarrow> Some (Some r)
      | Inr cs' \<Rightarrow> find_bytes b len value js cs') }"

text \<open>The result \<open>(size_t)-1\<close> is the inner \<^const>\<open>None\<close>; the outer one is a fault.\<close>

definition bitmap_find_range_from ::
    "bitmap \<Rightarrow> nat \<Rightarrow> bool \<Rightarrow> nat \<Rightarrow> nat option option" where
  "bitmap_find_range_from b len value start_from =
     find_bytes b len value [start_from div 8 ..< bm_length b div 8] (0, 0)"

definition bitmap_find_range :: "bitmap \<Rightarrow> nat \<Rightarrow> bool \<Rightarrow> nat option option" where
  "bitmap_find_range b len value = bitmap_find_range_from b len value 0"

section \<open>Bits\<close>

definition bitmap_wf :: "bitmap \<Rightarrow> bool" where
  "bitmap_wf b \<longleftrightarrow> bm_length b = 8 * length (bm_buffer b)"

definition bm_bit :: "bitmap \<Rightarrow> nat \<Rightarrow> bool" where
  "bm_bit b i = bit (bm_buffer b ! (i div 8)) (i mod 8)"

lemma bit_test_iff [bit_facts]: "(drop_bit k w AND 1 \<noteq> 0) = bit w k" for w :: "'a::len word"
  by (simp add: and_one_eq bit_iff_odd_drop_bit mod_2_eq_odd)

lemma byte_index_less [simp]: "bitmap_wf b \<Longrightarrow> i < bm_length b \<Longrightarrow> i div 8 < length (bm_buffer b)"
  by (simp add: bitmap_wf_def div_less_iff_less_mult mult.commute)

lemma bitmap_get_inside:
  assumes "bitmap_wf b" "i < bm_length b"
  shows "bitmap_get b i = Some (bm_bit b i)"
  using assms by (auto simp: bitmap_get_def Let_def bit_test_iff bm_bit_def)

lemma bit_set_cases [bit_facts]:
  assumes "j < 8"
  shows "bit (if v then (w::u8) OR push_bit k 1 else w AND NOT (push_bit k 1)) j =
         (if j = k then v else bit w j)"
  using assms by (auto simp: bit_simps)

definition same_shape :: "bitmap \<Rightarrow> bitmap \<Rightarrow> bool" where
  "same_shape b b' \<longleftrightarrow> bm_length b' = bm_length b \<and> length (bm_buffer b') = length (bm_buffer b)"

lemma same_shape_refl [simp]: "same_shape b b"
  by (simp add: same_shape_def)

lemma same_shape_trans: "same_shape a b \<Longrightarrow> same_shape b c \<Longrightarrow> same_shape a c"
  by (simp add: same_shape_def)

lemma same_shape_wf: "same_shape b b' \<Longrightarrow> bitmap_wf b' = bitmap_wf b"
  by (simp add: same_shape_def bitmap_wf_def)

lemma bitmap_set_inside:
  assumes wf: "bitmap_wf b" and i: "i < bm_length b"
  shows "\<exists>b'. bitmap_set b i v = Some b' \<and> same_shape b b' \<and>
           (\<forall>j. bm_bit b' j = (if j = i then v else bm_bit b j))"
proof -
  let ?w = "bm_buffer b ! (i div 8)"
  let ?x = "if v then ?w OR push_bit (i mod 8) 1 else ?w AND NOT (push_bit (i mod 8) 1)"
  let ?b = "b\<lparr>bm_buffer := (bm_buffer b)[i div 8 := ?x]\<rparr>"
  have ib: "i div 8 < length (bm_buffer b)" using wf i by simp
  then have set: "bitmap_set b i v = Some ?b"
    using i by (simp add: bitmap_set_def Let_def)
  have "bm_bit ?b j = (if j = i then v else bm_bit b j)" for j
  proof (cases "j div 8 = i div 8")
    case True
    then have "bm_bit ?b j = (if j mod 8 = i mod 8 then v else bit ?w (j mod 8))"
      using ib bit_set_cases [of "j mod 8" v ?w "i mod 8"] by (simp add: bm_bit_def)
    moreover have "j mod 8 = i mod 8 \<longleftrightarrow> j = i"
      using True by (metis div_mult_mod_eq)
    ultimately show ?thesis using True by (simp add: bm_bit_def)
  next
    case False
    then show ?thesis by (auto simp: bm_bit_def)
  qed
  with set show ?thesis by (auto simp: same_shape_def)
qed

lemma bitmap_set_each_inside:
  assumes "bitmap_wf b" "\<forall>i\<in>set ixs. i < bm_length b"
  shows "\<exists>b'. bitmap_set_each b ixs v = Some b' \<and> same_shape b b' \<and>
           (\<forall>j. bm_bit b' j = (if j \<in> set ixs then v else bm_bit b j))"
  using assms
proof (induction ixs arbitrary: b)
  case Nil
  then show ?case by simp
next
  case (Cons i ixs)
  then obtain c where c: "bitmap_set b i v = Some c" "same_shape b c"
      "\<forall>j. bm_bit c j = (if j = i then v else bm_bit b j)"
    using bitmap_set_inside [of b i v] by auto
  with Cons.prems have "bitmap_wf c" "\<forall>i\<in>set ixs. i < bm_length c"
    by (auto simp: same_shape_wf, simp add: same_shape_def)
  from Cons.IH [OF this] obtain d where "bitmap_set_each c ixs v = Some d" "same_shape c d"
      "\<forall>j. bm_bit d j = (if j \<in> set ixs then v else bm_bit c j)"
    by blast
  with c show ?case by (auto intro: same_shape_trans)
qed

lemma bit_fill_value [bit_facts]: "j < 8 \<Longrightarrow> bit (if v then -1 else 0 :: u8) j = v"
  by simp

lemma bitmap_fill_each_inside:
  assumes "\<forall>i\<in>set ixs. i < length (bm_buffer b)"
  shows "\<exists>b'. bitmap_fill_each b ixs (if v then -1 else 0) = Some b' \<and> same_shape b b' \<and>
           (\<forall>j. bm_bit b' j = (if j div 8 \<in> set ixs then v else bm_bit b j))"
  using assms
proof (induction ixs arbitrary: b)
  case Nil
  then show ?case by simp
next
  case (Cons i ixs)
  let ?f = "if v then -1 else 0 :: u8"
  let ?c = "b\<lparr>bm_buffer := (bm_buffer b)[i := ?f]\<rparr>"
  have i: "i < length (bm_buffer b)" using Cons.prems by simp
  have bits: "bm_bit ?c j = (if j div 8 = i then v else bm_bit b j)" for j
    using i bit_fill_value [of "j mod 8" v] by (auto simp: bm_bit_def)
  have "\<forall>i\<in>set ixs. i < length (bm_buffer ?c)" using Cons.prems by simp
  from Cons.IH [OF this] obtain d where "bitmap_fill_each ?c ixs ?f = Some d" "same_shape ?c d"
      "\<forall>j. bm_bit d j = (if j div 8 \<in> set ixs then v else bm_bit ?c j)"
    by blast
  with i bits show ?case
    by (auto simp: same_shape_def)
qed

lemma bitmap_set_beyond:
  assumes "bitmap_wf b" "bm_length b \<le> i" "i < bm_length b + 8"
  shows "bitmap_set b i v = None"
proof -
  have "length (bm_buffer b) \<le> i div 8" "i div 8 \<le> bm_length b"
    using assms by (auto simp: bitmap_wf_def)
  then show ?thesis by (simp add: bitmap_set_def Let_def)
qed

text \<open>
  The range of bits that the three loops of \<open>bitmap_set_range\<close> touch is exactly
  \<open>[start, end)\<close>: the leading bits up to a byte boundary, the whole bytes, the rest.
\<close>

lemma range_split_iff:
  fixes s e j :: nat
  assumes "s < e"
  shows "((s \<le> j \<and> j < min ((s + 7) div 8 * 8) e) \<or>
          ((s + 7) div 8 \<le> e div 8 \<and>
            (((s + 7) div 8 \<le> j div 8 \<and> j div 8 < e div 8) \<or> (max (e div 8 * 8) s \<le> j \<and> j < e))))
         \<longleftrightarrow> s \<le> j \<and> j < e"
  using assms by (auto simp: min_def max_def)

lemma bitmap_fill_each_outside:
  "\<exists>i\<in>set ixs. length (bm_buffer b) \<le> i \<Longrightarrow> bitmap_fill_each b ixs f = None"
proof (induction ixs arbitrary: b)
  case Nil
  then show ?case by simp
next
  case (Cons i ixs)
  show ?case
  proof (cases "i < length (bm_buffer b)")
    case True
    with Cons.prems have "\<exists>k\<in>set ixs. length (bm_buffer (b\<lparr>bm_buffer := (bm_buffer b)[i := f]\<rparr>)) \<le> k"
      by auto
    with True Cons.IH show ?thesis by simp
  qed simp
qed

section \<open>Setting a range\<close>

lemma set_range_leading:
  assumes wf: "bitmap_wf b" and s: "s < bm_length b"
  shows "\<exists>b'. bitmap_set_each b [s ..< min ((s + 7) div 8 * 8) e] v = Some b' \<and> same_shape b b' \<and>
           (\<forall>j. bm_bit b' j = (if s \<le> j \<and> j < min ((s + 7) div 8 * 8) e then v else bm_bit b j))"
proof -
  have "(s + 7) div 8 * 8 \<le> bm_length b" using wf s by (auto simp: bitmap_wf_def)
  then show ?thesis
    using bitmap_set_each_inside [of b "[s ..< min ((s + 7) div 8 * 8) e]" v] wf by auto
qed

lemma bitmap_set_range_inside:
  assumes wf: "bitmap_wf b" and e: "e \<le> bm_length b"
  shows "\<exists>b'. bitmap_set_range b s e v = Some b' \<and> same_shape b b' \<and>
           (\<forall>j. bm_bit b' j = (if s \<le> j \<and> j < e then v else bm_bit b j))"
proof (cases "s < e")
  case False
  then show ?thesis by (auto simp: bitmap_set_range_def)
next
  case True
  let ?sw = "(s + 7) div 8" and ?ew = "e div 8" and ?f = "if v then -1 else 0 :: u8"
  from True e wf obtain b1 where b1: "bitmap_set_each b [s ..< min (?sw * 8) e] v = Some b1"
      "same_shape b b1" "\<forall>j. bm_bit b1 j = (if s \<le> j \<and> j < min (?sw * 8) e then v else bm_bit b j)"
    using set_range_leading [of b s e v] by auto
  have "\<forall>i\<in>set [?sw ..< ?ew]. i < length (bm_buffer b1)"
    using wf e b1(2) by (auto simp: bitmap_wf_def same_shape_def)
  then obtain b2 where b2: "bitmap_fill_each b1 [?sw ..< ?ew] ?f = Some b2" "same_shape b1 b2"
      "\<forall>j. bm_bit b2 j = (if j div 8 \<in> set [?sw ..< ?ew] then v else bm_bit b1 j)"
    using bitmap_fill_each_inside [of "[?sw ..< ?ew]" b1 v] by blast
  have "same_shape b b2" using b1(2) b2(2) by (rule same_shape_trans)
  then have "bitmap_wf b2" "\<forall>i\<in>set [max (?ew * 8) s ..< e]. i < bm_length b2"
    using wf e by (auto simp: same_shape_wf, simp add: same_shape_def)
  then obtain b3 where b3: "bitmap_set_each b2 [max (?ew * 8) s ..< e] v = Some b3" "same_shape b2 b3"
      "\<forall>j. bm_bit b3 j = (if j \<in> set [max (?ew * 8) s ..< e] then v else bm_bit b2 j)"
    using bitmap_set_each_inside by blast
  have st: "\<not> (s \<ge> e \<or> s \<ge> bm_length b)" using True e by simp
  show ?thesis
  proof (cases "?sw > ?ew")
    case sw: True
    then have "bm_bit b1 j = (if s \<le> j \<and> j < e then v else bm_bit b j)" for j
      using b1(3) range_split_iff [OF True, of j] by simp
    then show ?thesis using st sw b1 by (simp add: bitmap_set_range_def Let_def)
  next
    case sw: False
    then have "bm_bit b3 j = (if s \<le> j \<and> j < e then v else bm_bit b j)" for j
      using b1(3) b2(3) b3(3) range_split_iff [OF True, of j] by (auto split: if_splits)
    moreover have "same_shape b b3" using \<open>same_shape b b2\<close> b3(2) by (rule same_shape_trans)
    ultimately show ?thesis using st sw b1(1) b2(1) b3(1)
      by (simp add: bitmap_set_range_def Let_def)
  qed
qed

lemma bitmap_set_range_outside:
  assumes wf: "bitmap_wf b" and se: "s < bm_length b" "bm_length b < e"
  shows "bitmap_set_range b s e v = None"
proof -
  let ?sw = "(s + 7) div 8" and ?ew = "e div 8" and ?f = "if v then -1 else 0 :: u8"
  let ?n = "length (bm_buffer b)"
  obtain b1 where b1: "bitmap_set_each b [s ..< min (?sw * 8) e] v = Some b1" "same_shape b b1"
    using set_range_leading [OF wf se(1)] by blast
  have sw: "?sw \<le> ?n" "?n \<le> ?ew" using wf se by (auto simp: bitmap_wf_def)
  have tail: "bitmap_fill_each b1 [?sw ..< ?ew] ?f \<bind>
                (\<lambda>c. bitmap_set_each c [max (?ew * 8) s ..< e] v) = None"
  proof (cases "?n < ?ew")
    case True
    then have "\<exists>i\<in>set [?sw ..< ?ew]. length (bm_buffer b1) \<le> i"
      using sw b1(2) by (intro bexI [of _ ?n]) (auto simp: same_shape_def)
    then show ?thesis by (simp add: bitmap_fill_each_outside)
  next
    case False
    with sw have n: "?ew = ?n" by simp
    then obtain b2 where b2: "bitmap_fill_each b1 [?sw ..< ?ew] ?f = Some b2" "same_shape b1 b2"
      using bitmap_fill_each_inside [of "[?sw ..< ?ew]" b1 v] b1(2) by (auto simp: same_shape_def)
    have sh: "same_shape b b2" using b1(2) b2(2) by (rule same_shape_trans)
    then have "bitmap_set b2 (bm_length b) v = None"
      using wf by (intro bitmap_set_beyond) (auto simp: same_shape_wf, auto simp: same_shape_def)
    moreover have "[max (?ew * 8) s ..< e] = bm_length b # [Suc (bm_length b) ..< e]"
      using wf n se by (simp add: bitmap_wf_def upt_conv_Cons mult.commute)
    ultimately show ?thesis using b2(1) by simp
  qed
  then show ?thesis
    using se sw b1(1) by (auto simp: bitmap_set_range_def Let_def)
qed

section \<open>Searching for a run\<close>

text \<open>
  \<open>run_at b v q n\<close>: the \<open>n\<close> bits from \<open>q\<close> all have the value \<open>v\<close>.  The scan keeps, at bit
  position \<open>p\<close> (from the first scanned bit \<open>B\<close> on), a run of \<open>c < len\<close> bits that ends
  at \<open>p\<close> (\<open>scan_ok\<close>), and misses no run (\<open>scan_max\<close>): the run is maximal to the left and
  no run of \<open>len\<close> bits ends at or before \<open>p\<close>.
\<close>

definition run_at :: "bitmap \<Rightarrow> bool \<Rightarrow> nat \<Rightarrow> nat \<Rightarrow> bool" where
  "run_at b v q n \<longleftrightarrow> (\<forall>i. q \<le> i \<and> i < q + n \<longrightarrow> bm_bit b i = v)"

definition scan_ok :: "bitmap \<Rightarrow> nat \<Rightarrow> bool \<Rightarrow> nat \<Rightarrow> nat \<Rightarrow> nat \<times> nat \<Rightarrow> bool" where
  "scan_ok b len v B p cs \<longleftrightarrow>
     (case cs of (c, st) \<Rightarrow> c < len \<and> B + c \<le> p \<and> run_at b v (p - c) c \<and> (c \<noteq> 0 \<longrightarrow> st + c = p))"

definition scan_max :: "bitmap \<Rightarrow> nat \<Rightarrow> bool \<Rightarrow> nat \<Rightarrow> nat \<Rightarrow> nat \<Rightarrow> bool" where
  "scan_max b len v B p c \<longleftrightarrow>
     (p = B + c \<or> bm_bit b (p - c - 1) \<noteq> v) \<and> (\<forall>q\<ge>B. q + len \<le> p \<longrightarrow> \<not> run_at b v q len)"

definition found :: "bitmap \<Rightarrow> nat \<Rightarrow> bool \<Rightarrow> nat \<Rightarrow> nat \<Rightarrow> nat \<Rightarrow> bool" where
  "found b len v B p r \<longleftrightarrow> B \<le> r \<and> r + len \<le> p \<and> run_at b v r len"

lemma run_at_0 [simp]: "run_at b v q 0"
  by (auto simp: run_at_def)

lemma run_at_extend:
  assumes "run_at b v (p - c) c" "c \<le> p" "run_at b v p m"
  shows "run_at b v (p - c) (c + m)"
proof -
  have "bm_bit b i = v" if "p - c \<le> i" "i < p - c + (c + m)" for i
    using assms that by (cases "i < p") (simp_all add: run_at_def)
  then show ?thesis by (simp add: run_at_def)
qed

lemma run_at_prefix: "run_at b v q n \<Longrightarrow> m \<le> n \<Longrightarrow> run_at b v q m"
  by (auto simp: run_at_def)

lemma scan_hits:
  assumes "scan_ok b len v B p (c, st)" "run_at b v p m" "0 < m"
  defines "st' \<equiv> (if c = 0 then p else st)"
  shows "st' + c = p" "B \<le> st'" "run_at b v st' (c + m)"
proof -
  show st: "st' + c = p" using assms by (auto simp: scan_ok_def)
  show "B \<le> st'" using assms st by (auto simp: scan_ok_def)
  show "run_at b v st' (c + m)"
    using run_at_extend [of b v p c m] assms(1,2) st by (auto simp: scan_ok_def)
qed

lemma scan_ok_hits:
  assumes "scan_ok b len v B p (c, st)" "run_at b v p m" "0 < m" "c + m < len"
  shows "scan_ok b len v B (p + m) (c + m, if c = 0 then p else st)"
  using scan_hits [OF assms(1-3)] assms(1,4) by (auto simp: scan_ok_def split: if_splits)

lemma scan_found:
  assumes "scan_ok b len v B p (c, st)" "run_at b v p m" "0 < m" "len \<le> c + m"
  shows "found b len v B (p + m) (if c = 0 then p else st)"
  using scan_hits [OF assms(1-3)] assms(4) by (auto simp: found_def intro: run_at_prefix)

lemma scan_ok_miss: "0 < len \<Longrightarrow> B \<le> p \<Longrightarrow> scan_ok b len v B p (0, st)"
  by (simp add: scan_ok_def)

lemma scan_max_hits:
  assumes "scan_ok b len v B p (c, st)" "scan_max b len v B p c" "c + m < len"
  shows "scan_max b len v B (p + m) (c + m)"
proof -
  have cp: "B + c \<le> p" using assms(1) by (simp add: scan_ok_def)
  have no: "\<not> run_at b v q len" if q: "B \<le> q" "q + len \<le> p + m" for q
  proof (cases "q + len \<le> p")
    case True
    with assms(2) q show ?thesis by (simp add: scan_max_def)
  next
    case False
    have "p \<noteq> B + c" using q assms(3) by auto
    then have "bm_bit b (p - c - 1) \<noteq> v" using assms(2) by (simp add: scan_max_def)
    moreover have "q \<le> p - c - 1" "p - c - 1 < q + len" using q assms(3) cp \<open>p \<noteq> B + c\<close> False by auto
    ultimately show ?thesis by (auto simp: run_at_def)
  qed
  then show ?thesis using assms(2) by (auto simp: scan_max_def)
qed

lemma scan_max_miss:
  assumes "scan_ok b len v B p (c, st)" "scan_max b len v B p c"
    and miss: "\<And>i. p \<le> i \<Longrightarrow> i < p + m \<Longrightarrow> bm_bit b i \<noteq> v" and "0 < m"
  shows "scan_max b len v B (p + m) 0"
proof -
  have "\<not> run_at b v q len" if q: "B \<le> q" "q + len \<le> p + m" for q
  proof (cases "q + len \<le> p")
    case True
    with q assms(2) show ?thesis by (simp add: scan_max_def)
  next
    case False
    have "0 < len" using assms(1) by (auto simp: scan_ok_def)
    with False q have "bm_bit b (q + len - 1) \<noteq> v" by (intro miss) auto
    moreover have "q \<le> q + len - 1" "q + len - 1 < q + len" using \<open>0 < len\<close> by auto
    ultimately show ?thesis unfolding run_at_def by blast
  qed
  then show ?thesis using miss [of "p + m - 1"] \<open>0 < m\<close> by (auto simp: scan_max_def)
qed

lemma bm_bit_byte: "k < 8 \<Longrightarrow> bm_bit b (8 * j + k) = bit (bm_buffer b ! j) k"
  by (simp add: bm_bit_def)

lemma byte_offset:
  fixes i j :: nat
  assumes "8 * j \<le> i" "i < 8 * j + 8"
  obtains k where "k < 8" "i = 8 * j + k"
  using assms that [of "i - 8 * j"] by auto

text \<open>One byte, scanned bit by bit from bit \<open>k\<close>.\<close>

lemma find_bits_scan:
  assumes "scan_ok b len v B (8 * j + k) cs" "k \<le> 8" "B \<le> 8 * j"
  shows "case find_bits len v (bm_buffer b ! j) j [k..<8] cs of
           Inl r \<Rightarrow> found b len v B (8 * j + 8) r
         | Inr cs' \<Rightarrow> scan_ok b len v B (8 * j + 8) cs' \<and>
             (scan_max b len v B (8 * j + k) (fst cs) \<longrightarrow> scan_max b len v B (8 * j + 8) (fst cs'))"
  using assms
proof (induction "8 - k" arbitrary: k cs)
  case 0
  then show ?case by simp
next
  case (Suc n)
  obtain c st where cs: "cs = (c, st)" by fastforce
  let ?p = "8 * j + k"
  from Suc have k: "k < 8" and up: "[k..<8] = k # [Suc k..<8]" by (auto simp: upt_conv_Cons)
  have bit: "(drop_bit k (bm_buffer b ! j) AND 1 \<noteq> 0) = bm_bit b ?p"
    using k by (simp add: bit_test_iff bm_bit_byte)
  show ?case
  proof (cases "bm_bit b ?p = v")
    case True
    then have run: "run_at b v ?p 1" by (auto simp: run_at_def less_Suc_eq_le dest!: le_antisym)
    let ?cs = "(c + 1, if c = 0 then ?p else st)"
    show ?thesis
    proof (cases "c + 1 = len")
      case fin: True
      have "found b len v B (?p + 1) (if c = 0 then ?p else st)"
        using scan_found [OF _ run] Suc.prems cs fin by auto
      then have "found b len v B (8 * j + 8) (if c = 0 then ?p else st)"
        using k by (auto simp: found_def)
      with fin show ?thesis using True bit cs by (auto simp: up Let_def mult.commute)
    next
      case False
      then have less: "c + 1 < len" using Suc.prems(1) cs by (simp add: scan_ok_def)
      have ok: "scan_ok b len v B (8 * j + Suc k) ?cs"
        using scan_ok_hits [OF _ run _ less] Suc.prems(1) cs by simp
      have mx: "scan_max b len v B ?p c \<longrightarrow> scan_max b len v B (8 * j + Suc k) (c + 1)"
        using scan_max_hits [of b len v B ?p c st 1] Suc.prems(1) cs less by auto
      from Suc.hyps(1) [of "Suc k" ?cs] Suc.hyps(2) k ok Suc.prems(3)
      show ?thesis using True bit cs False mx by (auto simp: up Let_def mult.commute split: sum.splits)
    qed
  next
    case False
    have "0 < len" using Suc.prems(1) cs by (auto simp: scan_ok_def)
    then have ok: "scan_ok b len v B (8 * j + Suc k) (0, st)"
      using Suc.prems(3) by (simp add: scan_ok_miss)
    have mx: "scan_max b len v B ?p c \<longrightarrow> scan_max b len v B (8 * j + Suc k) 0"
      using scan_max_miss [of b len v B ?p c st 1] Suc.prems(1) cs False by (auto simp: less_Suc_eq_le dest!: le_antisym)
    from Suc.hyps(1) [of "Suc k" "(0, st)"] Suc.hyps(2) k ok Suc.prems(3)
    show ?thesis using False bit cs mx by (auto simp: up Let_def split: sum.splits)
  qed
qed

definition byte_skip :: "bool \<Rightarrow> u8 \<Rightarrow> bool" where
  "byte_skip v byte \<longleftrightarrow> \<not> v \<and> byte = 1"

lemma find_byte_scan:
  assumes ok: "scan_ok b len v B (8 * j) cs" and B: "B \<le> 8 * j"
  shows "case find_byte len v (bm_buffer b ! j) j cs of
           Inl r \<Rightarrow> found b len v B (8 * j + 8) r
         | Inr cs' \<Rightarrow> scan_ok b len v B (8 * j + 8) cs' \<and>
             (scan_max b len v B (8 * j) (fst cs) \<and> \<not> byte_skip v (bm_buffer b ! j) \<longrightarrow>
                scan_max b len v B (8 * j + 8) (fst cs'))"
proof -
  obtain c st where cs: "cs = (c, st)" by fastforce
  let ?byte = "bm_buffer b ! j"
  have len: "0 < len" using ok cs by (auto simp: scan_ok_def)
  consider (other) "?byte = (if v then 0 else 1)" | (all) "?byte = (if v then -1 else 0)"
    | (bits) "?byte \<noteq> (if v then 0 else 1)" "?byte \<noteq> (if v then -1 else 0)"
    by blast
  then show ?thesis
  proof cases
    case other
    have "scan_max b len v B (8 * j + 8) 0" if "scan_max b len v B (8 * j) c" and v
      using other \<open>v\<close> by (intro scan_max_miss [OF ok [unfolded cs] that(1)]) (auto elim!: byte_offset simp: bm_bit_byte)
    then show ?thesis using other cs len B scan_ok_miss [OF len]
      by (auto simp: find_byte_def byte_skip_def)
  next
    case all
    let ?st = "if c = 0 then 8 * j else st"
    have run: "run_at b v (8 * j) 8"
      using all by (cases v) (auto simp: run_at_def bm_bit_byte elim!: byte_offset)
    show ?thesis
    proof (cases "len < 8 \<or> len \<le> c + 8")
      case True
      have "found b len v B (8 * j + 8) ?st" if "len \<le> c + 8"
        using scan_found [OF ok [unfolded cs] run _ that] by simp
      moreover have "found b len v B (8 * j + 8) (8 * j)" if "len < 8"
        using that B run run_at_prefix by (auto simp: found_def)
      ultimately show ?thesis using True all cs by (auto simp: find_byte_def Let_def mult.commute)
    next
      case False
      then have "scan_ok b len v B (8 * j + 8) (c + 8, ?st)"
        using scan_ok_hits [OF ok [unfolded cs] run] by simp
      then show ?thesis using False all cs scan_max_hits [of b len v B "8 * j" c st 8] ok
        by (auto simp: find_byte_def Let_def mult.commute)
    qed
  next
    case bits
    then have eq: "find_byte len v ?byte j cs = find_bits len v ?byte j [0..<8] cs"
      unfolding find_byte_def cs Let_def by (cases v) (simp_all only: if_False prod.case if_True simp_thms
        zero_neq_neg_one neg_equal_zero, simp_all)
    show ?thesis using find_bits_scan [of b len v B j 0 cs] ok B unfolding eq
      by (auto simp del: find_bits.simps upt.simps split: sum.splits)
  qed
qed

lemma find_bytes_scan:
  assumes "scan_ok b len v B (8 * j) cs" "B \<le> 8 * j" "j \<le> n" "n \<le> length (bm_buffer b)"
  shows "\<exists>r. find_bytes b len v [j..<n] cs = Some r \<and>
           (case r of
              Some q \<Rightarrow> found b len v B (8 * n) q
            | None \<Rightarrow> scan_max b len v B (8 * j) (fst cs) \<and>
                (\<forall>i<length (bm_buffer b). \<not> byte_skip v (bm_buffer b ! i)) \<longrightarrow>
                (\<exists>c. scan_max b len v B (8 * n) c))"
  using assms
proof (induction "n - j" arbitrary: j cs)
  case 0
  then show ?case by auto
next
  case (Suc m)
  then have j: "j < n" "j < length (bm_buffer b)" and up: "[j..<n] = j # [Suc j..<n]"
    by (auto simp: upt_conv_Cons)
  note scan = find_byte_scan [OF Suc.prems(1,2)]
  show ?case
  proof (cases "find_byte len v (bm_buffer b ! j) j cs")
    case (Inl r)
    then have "found b len v B (8 * n) r" using scan j by (auto simp: found_def)
    then show ?thesis using Inl j by (simp add: up)
  next
    case (Inr cs')
    then have "scan_ok b len v B (8 * Suc j) cs'" using scan by (simp add: algebra_simps)
    moreover have "m = n - Suc j" "B \<le> 8 * Suc j" "Suc j \<le> n" using Suc.hyps(2) Suc.prems j by auto
    ultimately obtain r where r: "find_bytes b len v [Suc j..<n] cs' = Some r"
        "case r of
           Some q \<Rightarrow> found b len v B (8 * n) q
         | None \<Rightarrow> scan_max b len v B (8 * Suc j) (fst cs') \<and>
             (\<forall>i<length (bm_buffer b). \<not> byte_skip v (bm_buffer b ! i)) \<longrightarrow>
             (\<exists>c. scan_max b len v B (8 * n) c)"
      using Suc.hyps(1) Suc.prems(4) by blast
    have "find_bytes b len v [j..<n] cs = Some r" using Inr j r(1) by (simp add: up)
    with r(2) scan Inr j show ?thesis by (auto simp: add.commute split: option.splits)
  qed
qed

lemma bitmap_find_range_from_scan:
  assumes "bitmap_wf b" "0 < len"
  shows "\<exists>r. bitmap_find_range_from b len v s = Some r \<and>
           (case r of
              Some q \<Rightarrow> found b len v (8 * (s div 8)) (bm_length b) q
            | None \<Rightarrow> (\<forall>i<length (bm_buffer b). \<not> byte_skip v (bm_buffer b ! i)) \<longrightarrow>
                (\<forall>q\<ge>8 * (s div 8). q + len \<le> bm_length b \<longrightarrow> \<not> run_at b v q len))"
proof (cases "s div 8 \<le> length (bm_buffer b)")
  case True
  let ?B = "8 * (s div 8)"
  have n: "bm_length b div 8 = length (bm_buffer b)" "8 * length (bm_buffer b) = bm_length b"
    using assms(1) by (simp_all add: bitmap_wf_def)
  have "scan_ok b len v ?B ?B (0, 0)" "scan_max b len v ?B ?B 0"
    using assms(2) by (auto simp: scan_ok_def scan_max_def)
  with True find_bytes_scan [of b len v ?B "s div 8" "(0, 0)" "length (bm_buffer b)"] show ?thesis
    by (auto simp: bitmap_find_range_from_def n scan_max_def split: option.splits)
next
  case False
  then have "bm_length b < 8 * (s div 8)" using assms(1) by (simp add: bitmap_wf_def)
  then show ?thesis using False assms by (auto simp: bitmap_find_range_from_def bitmap_wf_def)
qed

section \<open>Properties\<close>

text \<open>
  \<open>bitmap_set_range\<close> with an end inside the bitmap sets exactly the bits of the half-open range to the value, byte-wise
  fast path included, and leaves every other bit and the shape of the bitmap as they were.
\<close>

theorem bitmap_set_range_exact:
  assumes "bitmap_wf b" "e \<le> bm_length b"
  shows "\<exists>b'. bitmap_set_range b s e v = Some b' \<and> same_shape b b' \<and>
    (\<forall>j. bm_bit b' j = (if s \<le> j \<and> j < e then v else bm_bit b j))"
  using bitmap_set_range_inside [OF assms] .

theorem bitmap_set_range_exact_witness:
  "\<exists>b'. bitmap_set_range (bitmap_init 3) 5 18 True = Some b' \<and> bm_bit b' 17 \<and> \<not> bm_bit b' 18"
proof -
  have "bitmap_wf (bitmap_init 3)" "18 \<le> bm_length (bitmap_init 3)" by (simp_all add: bitmap_wf_def bitmap_init_def)
  moreover have "\<not> bm_bit (bitmap_init 3) 18" by (simp add: bm_bit_def bitmap_init_def)
  ultimately show ?thesis using bitmap_set_range_exact [of "bitmap_init 3" 18 5 True] by auto
qed

text \<open>
  \<open>bitmap_find_range_from\<close> returns the position of a run of the requested length and value inside the bitmap, at or
  after the byte of the starting bit; when it finds none and no byte is one that the byte test skips, no such run exists.
\<close>

theorem bitmap_find_range_correct:
  assumes "bitmap_wf b" "0 < len"
  shows "\<exists>r. bitmap_find_range_from b len v s = Some r \<and>
    (case r of
       Some q \<Rightarrow> found b len v (8 * (s div 8)) (bm_length b) q
     | None \<Rightarrow> (\<forall>i<length (bm_buffer b). \<not> byte_skip v (bm_buffer b ! i)) \<longrightarrow>
         (\<forall>q\<ge>8 * (s div 8). q + len \<le> bm_length b \<longrightarrow> \<not> run_at b v q len))"
  using bitmap_find_range_from_scan [OF assms] .

theorem bitmap_find_range_correct_witness:
  "\<exists>r. bitmap_find_range_from (bitmap_init 2) 9 False 0 = Some r \<and> r \<noteq> None"
proof -
  have wf: "bitmap_wf (bitmap_init 2)" by (simp add: bitmap_wf_def bitmap_init_def)
  have run: "run_at (bitmap_init 2) False 0 9" by (auto simp: run_at_def bm_bit_def bitmap_init_def nth_Cons' less_Suc_eq_0_disj)
  have "\<forall>i<length (bm_buffer (bitmap_init 2)). \<not> byte_skip False (bm_buffer (bitmap_init 2) ! i)"
    by (simp add: bitmap_init_def byte_skip_def)
  with bitmap_find_range_correct [OF wf, of 9 False 0] run show ?thesis
    by (auto simp: bitmap_init_def split: option.splits)
qed

text \<open>
  The bound check of \<open>bitmap_set_range\<close> looks at the start only: a range that starts inside the bitmap and ends past it
  writes outside the buffer.
\<close>

theorem bitmap_set_range_overruns:
  assumes "bitmap_wf b" "s < bm_length b" "bm_length b < e"
  shows "bitmap_set_range b s e v = None"
  using bitmap_set_range_outside [OF assms] .

theorem bitmap_set_range_overruns_witness: "bitmap_set_range (bitmap_init 1) 4 16 True = None"
  by (rule bitmap_set_range_overruns) (simp_all add: bitmap_wf_def bitmap_init_def)

end
