(* ===== verification/Page_Ref.thy ===== *)
theory Page_Ref
  imports Bitmap Buddy_Zone
begin

text \<open>
  Reference counts of page frames (\<^verbatim>\<open>src/src/mem/page_ref.c\<close>).  \<open>page_maps\<close> is an array of 32-bit
  counters, one per frame; a \<open>page_t *\<close> is an index into it, or \<open>NULL\<close> (\<^const>\<open>None\<close>).  Each function
  is one atomic read-modify-write, as its compare-and-exchange makes it: a failed exchange
  re-reads the counter and starts over, so only the successful round changes it.
  An access outside the array is a fault, and so is the signed overflow of \<open>refs + 1\<close>.
\<close>

section \<open>Counters\<close>

type_synonym page_map = "32 word list"
type_synonym page_ptr = "nat option"

definition page_ref_init :: "u64 \<Rightarrow> page_map" where
  "page_ref_init memory_size = replicate (unat (memory_size div PAGE_SIZE)) 0"

definition get_page_ref :: "u64 \<Rightarrow> page_ptr" where
  "get_page_ref addr = Some (unat (addr div PAGE_SIZE))"

definition page_refcount_read :: "page_map \<Rightarrow> page_ptr \<Rightarrow> 32 word option" where
  "page_refcount_read pm page = (case page of None \<Rightarrow> Some 0 | Some i \<Rightarrow> aget pm i)"

definition page_ref :: "page_map \<Rightarrow> page_ptr \<Rightarrow> page_map option" where
  "page_ref pm page =
     (case page of None \<Rightarrow> Some pm | Some i \<Rightarrow> do { refs \<leftarrow> aget pm i; aput pm i (refs + 1) })"

definition page_try_ref :: "page_map \<Rightarrow> page_ptr \<Rightarrow> (page_map \<times> bool) option" where
  "page_try_ref pm page =
     (case page of
        None \<Rightarrow> Some (pm, False)
      | Some i \<Rightarrow> do {
          refs \<leftarrow> aget pm i;
          if sint refs > 0 then
            if sint refs = 2 ^ 31 - 1 then None
            else do { pm' \<leftarrow> aput pm i (refs + 1); Some (pm', True) }
          else Some (pm, False)
        })"

definition page_unref :: "page_map \<Rightarrow> page_ptr \<Rightarrow> (page_map \<times> int) option" where
  "page_unref pm page =
     (case page of
        None \<Rightarrow> Some (pm, -1)
      | Some i \<Rightarrow> do {
          refs \<leftarrow> aget pm i;
          if sint refs > 0 then do { pm' \<leftarrow> aput pm i (refs - 1); Some (pm', sint (refs - 1)) }
          else Some (pm, -1)
        })"

definition page_try_release_last :: "page_map \<Rightarrow> page_ptr \<Rightarrow> (page_map \<times> bool) option" where
  "page_try_release_last pm page =
     (case page of
        None \<Rightarrow> Some (pm, False)
      | Some i \<Rightarrow> do {
          refs \<leftarrow> aget pm i;
          if refs = 1 then do { pm' \<leftarrow> aput pm i 0; Some (pm', True) }
          else Some (pm, False)
        })"

definition page_can_free :: "page_map \<Rightarrow> page_ptr \<Rightarrow> bool option" where
  "page_can_free pm page = map_option (\<lambda>refs. sint refs \<le> 0) (page_refcount_read pm page)"

section \<open>Addresses\<close>

definition address_is_managed :: "page_map option \<Rightarrow> u64 \<Rightarrow> bitmap \<Rightarrow> u64 \<Rightarrow> bool option" where
  "address_is_managed page_maps memory_size usable addr =
     (if page_maps = None \<or> addr \<ge> memory_size then Some False
      else let page_index = unat (addr div PAGE_SIZE) in
        if page_index \<ge> bm_length usable then Some False
        else bitmap_get usable page_index)"

definition address_ref ::
    "page_map option \<Rightarrow> u64 \<Rightarrow> bitmap \<Rightarrow> u64 \<Rightarrow> (page_map option \<times> bool) option" where
  "address_ref page_maps memory_size usable addr = do {
     managed \<leftarrow> address_is_managed page_maps memory_size usable addr;
     if \<not> managed then Some (page_maps, True)
     else do {
       pm \<leftarrow> page_maps;
       (pm', ok) \<leftarrow> page_try_ref pm (get_page_ref addr);
       Some (Some pm', ok)
     }
   }"

definition address_unref :: "page_map option \<Rightarrow> u64 \<Rightarrow> bitmap \<Rightarrow> u64 \<Rightarrow> page_map option option" where
  "address_unref page_maps memory_size usable addr = do {
     managed \<leftarrow> address_is_managed page_maps memory_size usable addr;
     if managed then do {
       pm \<leftarrow> page_maps;
       (pm', refs) \<leftarrow> page_unref pm (get_page_ref addr);
       Some (Some pm')
     }
     else Some page_maps
   }"

definition address_can_free :: "page_map option \<Rightarrow> u64 \<Rightarrow> bitmap \<Rightarrow> u64 \<Rightarrow> bool option" where
  "address_can_free page_maps memory_size usable addr = do {
     managed \<leftarrow> address_is_managed page_maps memory_size usable addr;
     if managed then do { pm \<leftarrow> page_maps; page_can_free pm (get_page_ref addr) }
     else Some False
   }"

section \<open>A page and its holders\<close>

text \<open>
  The life of one page: the allocator sets the first reference, holders take further ones
  with \<open>page_try_ref\<close> (from a lookup that may race with the last release) and drop them with
  \<open>page_unref\<close> or \<open>page_try_release_last\<close>.  The second component is the number of references held.
\<close>

inductive ref_step :: "nat \<Rightarrow> page_map \<times> nat \<Rightarrow> page_map \<times> nat \<Rightarrow> bool" for i where
  take_first: "page_refcount_read pm (Some i) = Some 0 \<Longrightarrow> page_ref pm (Some i) = Some pm' \<Longrightarrow>
    ref_step i (pm, 0) (pm', 1)"
| try_ref: "page_try_ref pm (Some i) = Some (pm', ok) \<Longrightarrow>
    ref_step i (pm, n) (pm', if ok then n + 1 else n)"
| unref: "0 < n \<Longrightarrow> page_unref pm (Some i) = Some (pm', r) \<Longrightarrow> ref_step i (pm, n) (pm', n - 1)"
| release_last: "0 < n \<Longrightarrow> page_try_release_last pm (Some i) = Some (pm', ok) \<Longrightarrow>
    ref_step i (pm, n) (pm', if ok then n - 1 else n)"

inductive_cases ref_stepE: "ref_step i x y"

definition ref_inv :: "nat \<Rightarrow> page_map \<times> nat \<Rightarrow> bool" where
  "ref_inv i = (\<lambda>(pm, n). i < length pm \<and> sint (pm ! i) = int n)"

lemma sint_u32_bounds: "- (2 ^ 31) \<le> sint (w :: 32 word)" "sint (w :: 32 word) < 2 ^ 31"
  using sint_range_size [of w] by (simp_all add: word_size)

lemma sint_inc:
  fixes w :: "32 word"
  assumes "sint w < 2 ^ 31 - 1"
  shows "sint (w + 1) = sint w + 1"
proof -
  have "sint (w + 1) = signed_take_bit 31 (sint w + 1)" by (simp add: sint_word_ariths)
  then show ?thesis using assms sint_u32_bounds [of w] by (simp add: signed_take_bit_int_eq_self)
qed

lemma sint_dec:
  fixes w :: "32 word"
  assumes "0 < sint w"
  shows "sint (w - 1) = sint w - 1"
proof -
  have "sint (w - 1) = signed_take_bit 31 (sint w - 1)" by (simp add: sint_word_ariths)
  then show ?thesis using assms sint_u32_bounds [of w] by (simp add: signed_take_bit_int_eq_self)
qed

lemma ref_inv_step:
  assumes "ref_step i x y" "ref_inv i x"
  shows "ref_inv i y"
  using assms(1)
proof (cases rule: ref_step.cases)
  case (take_first pm pm')
  then show ?thesis using assms(2)
    by (auto simp: ref_inv_def page_refcount_read_def page_ref_def aget_eq_Some_iff aput_eq_Some_iff split: bind_splits)
next
  case (try_ref pm pm' ok n)
  then show ?thesis using assms(2) sint_inc [of "pm ! i"] sint_u32_bounds [of "pm ! i"]
    by (auto simp: ref_inv_def page_try_ref_def split: bind_splits if_splits)
next
  case (unref n pm pm' r)
  then show ?thesis using assms(2) sint_dec [of "pm ! i"]
    by (auto simp: ref_inv_def page_unref_def split: bind_splits if_splits)
next
  case (release_last n pm pm' ok)
  have "n = 1" if "ok" using that release_last assms(2)
    by (auto simp: ref_inv_def page_try_release_last_def split: bind_splits if_splits)
  then show ?thesis using release_last assms(2)
    by (auto simp: ref_inv_def page_try_release_last_def split: bind_splits if_splits)
qed

lemma ref_inv_run: "(ref_step i)\<^sup>*\<^sup>* x y \<Longrightarrow> ref_inv i x \<Longrightarrow> ref_inv i y"
  by (induction rule: rtranclp_induct) (auto intro: ref_inv_step)

text \<open>Only the page itself is touched.\<close>

lemma ref_step_other: "ref_step i (pm, n) (pm', n') \<Longrightarrow> j \<noteq> i \<Longrightarrow> length pm' = length pm \<and> pm' ! j = pm ! j"
  by (auto elim!: ref_stepE simp: page_ref_def page_try_ref_def page_unref_def page_try_release_last_def
      aget_eq_Some_iff aput_eq_Some_iff split: bind_splits if_splits)

lemma get_page_ref_pfn: "get_page_ref a = Some (pfn a)"
  by (simp add: get_page_ref_def pfn_def unat_div_distrib)

section \<open>Properties\<close>

text \<open>
  The reference count of a page is the number of holders.  In every run in which a holder appears only by a first
  \<open>page_ref\<close> or a successful \<open>page_try_ref\<close> and leaves by \<open>page_unref\<close> or a successful \<open>page_try_release_last\<close>, the signed
  counter equals the number of holders, so it never wraps and never goes below zero.
\<close>

theorem refcount_counts_holders:
  assumes "(ref_step i)\<^sup>*\<^sup>* (pm, n) (pm', n')" "i < length pm" "sint (pm ! i) = int n"
  shows "i < length pm' \<and> sint (pm' ! i) = int n'"
  using ref_inv_run [OF assms(1)] assms(2,3) by (simp add: ref_inv_def)

theorem refcount_counts_holders_witness:
  "(ref_step 1)\<^sup>*\<^sup>* ([0, 0], 0) ([0, 1], 1) \<and> sint (([0, 1] :: page_map) ! 1) = int 1"
proof -
  have "page_refcount_read [0, 0] (Some 1) = Some 0" "page_ref [0, 0] (Some 1) = Some [0, 1]"
    by code_simp+
  then have run: "(ref_step 1)\<^sup>*\<^sup>* ([0, 0], 0) ([0, 1], 1)"
    by (blast intro: ref_step.take_first)
  from refcount_counts_holders [OF run] run show ?thesis by simp
qed

end
