(* ===== verification/Frames.thy ===== *)
theory Frames
  imports Frame_Interface Page_Ref
begin

text \<open>
  The kernel-wide frame allocator: three zones over one metadata pool, the bitmap of
  frames in use, the bitmap of usable frames and the reference counts
  (\<^verbatim>\<open>src/src/mem/buddy.c\<close>, lines 322 to 340 and 499 to 701, x86-64 configuration).

  The frame allocator's globals are one record.  A request runs as one step: the zone
  lock, which the source drops before it sets the bits of \<open>using_regions\<close>, is not modelled.
\<close>

section \<open>State and operations\<close>

record frame_state =
  zones :: "zone_type \<Rightarrow> zone option"
  nr_zones :: nat
  fs_metadata :: metadata
  using_regions :: bitmap
  usable_regions :: bitmap
  early_last_alloc_pos :: nat
  memory_size :: u64
  page_maps :: "page_map option"

abbreviation ZONE_DMA_END :: u64 where "ZONE_DMA_END \<equiv> 16777216"
abbreviation ZONE_DMA32_END :: u64 where "ZONE_DMA32_END \<equiv> 4294967296"

definition phys_to_zone_type :: "u64 \<Rightarrow> zone_type" where
  "phys_to_zone_type phys =
     (if phys < ZONE_DMA_END then ZONE_DMA
      else if phys < ZONE_DMA32_END then ZONE_DMA32
      else ZONE_NORMAL)"

definition get_zone :: "frame_state \<Rightarrow> zone_type \<Rightarrow> zone option" where
  "get_zone s type = zones s type"

definition put_zone :: "frame_state \<Rightarrow> zone_type \<Rightarrow> metadata \<times> zone \<Rightarrow> frame_state" where
  "put_zone s type = (\<lambda>(m, z). s\<lparr>zones := (zones s)(type := Some z), fs_metadata := m\<rparr>)"

definition add_memory_region :: "frame_state \<Rightarrow> u64 \<Rightarrow> u64 \<Rightarrow> zone_type \<Rightarrow> frame_state option" where
  "add_memory_region s start end type =
     (case get_zone s type of
        None \<Rightarrow> Some s
      | Some z \<Rightarrow> map_option (put_zone s type) (add_region (fs_metadata s) z start end))"

text \<open>One attempt of \<open>alloc_frames\<close>, and the attempts in order until one succeeds.\<close>

definition alloc_in :: "frame_state \<Rightarrow> zone_type \<Rightarrow> u64 \<Rightarrow> (frame_state \<times> u64) option" where
  "alloc_in s type cnt =
     (case zones s type of
        None \<Rightarrow> Some (s, 0)
      | Some z \<Rightarrow>
          if zone_has_memory z then
            map_option (\<lambda>(m, z', addr). (put_zone s type (m, z'), addr)) (buddy_alloc_zone (fs_metadata s) z cnt)
          else Some (s, 0))"

primrec alloc_first :: "frame_state \<Rightarrow> zone_type list \<Rightarrow> u64 \<Rightarrow> (frame_state \<times> u64) option" where
  "alloc_first s [] cnt = Some (s, 0)"
| "alloc_first s (type # types) cnt = do {
     (s', addr) \<leftarrow> alloc_in s type cnt;
     if addr \<noteq> 0 then Some (s', addr) else alloc_first s' types cnt
   }"

primrec page_ref_each :: "page_map \<Rightarrow> u64 \<Rightarrow> nat list \<Rightarrow> page_map option" where
  "page_ref_each pm addr [] = Some pm"
| "page_ref_each pm addr (offset # offsets) = do {
     pm' \<leftarrow> page_ref pm (get_page_ref (addr + of_nat offset * PAGE_SIZE));
     page_ref_each pm' addr offsets
   }"

definition mark_allocated :: "frame_state \<Rightarrow> u64 \<Rightarrow> u64 \<Rightarrow> frame_state option" where
  "mark_allocated s addr required_pages =
     (let page_index = unat (addr div PAGE_SIZE) in do {
        using \<leftarrow> bitmap_set_range (using_regions s) page_index (page_index + unat required_pages) True;
        pm \<leftarrow> page_maps s;
        pm' \<leftarrow> page_ref_each pm addr [0..<unat required_pages];
        Some (s\<lparr>using_regions := using, page_maps := Some pm'\<rparr>)
      })"

definition alloc_frames_from :: "zone_type list \<Rightarrow> frame_state \<Rightarrow> u64 \<Rightarrow> (frame_state \<times> u64) option" where
  "alloc_frames_from types s cnt =
     (if cnt = 0 then Some (s, 0)
      else case count_to_pages cnt of
        None \<Rightarrow> Some (s, 0)
      | Some required_pages \<Rightarrow> do {
          (s', addr) \<leftarrow> alloc_first s types cnt;
          if addr = 0 then Some (s', 0)
          else do { s'' \<leftarrow> mark_allocated s' addr required_pages; Some (s'', addr) }
        })"

definition alloc_frames :: "frame_state \<Rightarrow> u64 \<Rightarrow> (frame_state \<times> u64) option" where
  "alloc_frames = alloc_frames_from [ZONE_NORMAL, ZONE_DMA32, ZONE_DMA]"

definition alloc_frames_dma32 :: "frame_state \<Rightarrow> u64 \<Rightarrow> (frame_state \<times> u64) option" where
  "alloc_frames_dma32 = alloc_frames_from [ZONE_DMA32, ZONE_DMA]"

text \<open>
  \<open>claim_last_page_refs\<close>: on the first page that is not held exactly once, the references
  claimed so far (\<open>done\<close>) are given back.
\<close>

primrec claim_loop :: "page_map \<Rightarrow> u64 \<Rightarrow> nat list \<Rightarrow> nat list \<Rightarrow> (page_map \<times> bool) option" where
  "claim_loop pm addr claimed [] = Some (pm, True)"
| "claim_loop pm addr claimed (offset # offsets) = do {
     (pm', ok) \<leftarrow> page_try_release_last pm (get_page_ref (addr + of_nat offset * PAGE_SIZE));
     if ok then claim_loop pm' addr (claimed @ [offset]) offsets
     else do { pm'' \<leftarrow> page_ref_each pm' addr claimed; Some (pm'', False) }
   }"

definition claim_last_page_refs :: "page_map \<Rightarrow> u64 \<Rightarrow> u64 \<Rightarrow> (page_map \<times> bool) option" where
  "claim_last_page_refs pm addr pages = claim_loop pm addr [] [0..<unat pages]"

primrec unreferenced_loop :: "page_map \<Rightarrow> u64 \<Rightarrow> nat list \<Rightarrow> bool option" where
  "unreferenced_loop pm addr [] = Some True"
| "unreferenced_loop pm addr (offset # offsets) = do {
     refs \<leftarrow> page_refcount_read pm (get_page_ref (addr + of_nat offset * PAGE_SIZE));
     if refs \<noteq> 0 then Some False else unreferenced_loop pm addr offsets
   }"

definition pages_are_unreferenced :: "page_map \<Rightarrow> u64 \<Rightarrow> u64 \<Rightarrow> bool option" where
  "pages_are_unreferenced pm addr pages = unreferenced_loop pm addr [0..<unat pages]"

primrec all_in_use :: "bitmap \<Rightarrow> bitmap \<Rightarrow> nat list \<Rightarrow> bool option" where
  "all_in_use using usable [] = Some True"
| "all_in_use using usable (i # ixs) = do {
     u \<leftarrow> bitmap_get using i;
     if \<not> u then Some False
     else do {
       v \<leftarrow> bitmap_get usable i;
       if \<not> v then Some False else all_in_use using usable ixs
     }
   }"

definition free_frames_common :: "frame_state \<Rightarrow> u64 \<Rightarrow> u64 \<Rightarrow> bool \<Rightarrow> frame_state option" where
  "free_frames_common s addr cnt refs_already_released =
     (if addr = 0 \<or> cnt = 0 then Some s
      else if addr AND (PAGE_SIZE - 1) \<noteq> 0 then Some s
      else if addr > memory_size s then Some s
      else case count_to_order cnt of
        None \<Rightarrow> Some s
      | Some (required_order, required_pages) \<Rightarrow>
          let type = phys_to_zone_type addr in
          (case get_zone s type of
             None \<Rightarrow> Some s
           | Some z \<Rightarrow>
               let zone_start = zone_phys_start z; zone_end = zone_phys_end z;
                   free_end = addr + required_pages * PAGE_SIZE
               in if free_end < addr \<or> addr < zone_start \<or> free_end > zone_end then Some s
               else
                 let start_page_index = addr div PAGE_SIZE;
                     end_page_index = start_page_index + required_pages
                 in if end_page_index < start_page_index
                       \<or> unat end_page_index > bm_length (using_regions s)
                       \<or> unat end_page_index > bm_length (usable_regions s) then Some s
                 else do {
                   in_use \<leftarrow> all_in_use (using_regions s) (usable_regions s)
                               [unat start_page_index ..< unat start_page_index + unat required_pages];
                   if \<not> in_use then Some s
                   else do {
                     pm \<leftarrow> page_maps s;
                     (pm', ok) \<leftarrow> (if refs_already_released
                       then map_option (\<lambda>ok. (pm, ok)) (pages_are_unreferenced pm addr required_pages)
                       else claim_last_page_refs pm addr required_pages);
                     if \<not> ok then Some (s\<lparr>page_maps := Some pm'\<rparr>)
                     else do {
                       using \<leftarrow> bitmap_set_range (using_regions s) (unat start_page_index)
                                  (unat start_page_index + unat required_pages) False;
                       mz \<leftarrow> buddy_free_zone_locked (fs_metadata s) z addr required_order;
                       Some (put_zone (s\<lparr>using_regions := using, page_maps := Some pm'\<rparr>) type mz)
                     }
                   }
                 }))"

definition free_frames :: "frame_state \<Rightarrow> u64 \<Rightarrow> u64 \<Rightarrow> frame_state option" where
  "free_frames s addr cnt = free_frames_common s addr cnt False"

definition free_frame :: "frame_state \<Rightarrow> u64 \<Rightarrow> frame_state option" where
  "free_frame s addr = free_frames_common s addr 1 False"

definition free_frames_released :: "frame_state \<Rightarrow> u64 \<Rightarrow> u64 \<Rightarrow> frame_state option" where
  "free_frames_released s addr cnt = free_frames_common s addr cnt True"

definition free_frames_dma32 :: "frame_state \<Rightarrow> u64 \<Rightarrow> u64 \<Rightarrow> frame_state option" where
  "free_frames_dma32 = free_frames"

definition address_release :: "frame_state \<Rightarrow> u64 \<Rightarrow> frame_state option" where
  "address_release s addr = do {
     managed \<leftarrow> address_is_managed (page_maps s) (memory_size s) (usable_regions s) addr;
     if \<not> managed then Some s
     else do {
       pm \<leftarrow> page_maps s;
       (pm', refs) \<leftarrow> page_unref pm (get_page_ref addr);
       if refs > 0 \<or> refs < 0 then Some (s\<lparr>page_maps := Some pm'\<rparr>)
       else free_frames_released (s\<lparr>page_maps := Some pm'\<rparr>) addr 1
     }
   }"

end
