(* ===== verification/Frames_Spec.thy ===== *)
theory Frames_Spec
  imports Frames
begin

text \<open>
  Correctness of the kernel-wide frame allocator: the invariant that ties the zones, the
  bitmap of frames in use and the reference counts together, and the contract of theory
  \<open>Frame_Interface\<close> for \<open>alloc_frames\<close> and \<open>free_frames\<close>.
\<close>

section \<open>Loops over the pages of a block\<close>

lemma pfn_offset:
  assumes "page_aligned a" "(pfn a + n) * 4096 < 2 ^ 64"
  shows "pfn (a + of_nat n * PAGE_SIZE) = pfn a + n"
proof -
  have n: "unat (of_nat n * PAGE_SIZE :: u64) = n * 4096"
    using assms(2) by (simp add: unat_word_ariths unat_of_nat)
  have "unat (a + of_nat n * PAGE_SIZE) = (pfn a + n) * 4096"
    using assms by (subst unat_add_no_wrap) (simp_all only: n unat_pfn add_mult_distrib)
  then show ?thesis by (simp add: pfn_def)
qed

text \<open>The pages of the block at \<open>a\<close>, at the given offsets, lie inside the page map.\<close>

definition in_map :: "page_map \<Rightarrow> u64 \<Rightarrow> nat list \<Rightarrow> bool" where
  "in_map pm a offs \<longleftrightarrow> page_aligned a \<and> distinct offs \<and>
     (\<forall>n\<in>set offs. pfn a + n < length pm \<and> (pfn a + n) * 4096 < 2 ^ 64)"

lemma in_map_page: "in_map pm a offs \<Longrightarrow> n \<in> set offs \<Longrightarrow>
    get_page_ref (a + of_nat n * PAGE_SIZE) = Some (pfn a + n) \<and> pfn a + n < length pm"
  by (simp add: in_map_def get_page_ref_pfn pfn_offset)

lemma in_map_Cons: "in_map pm a (n # offs) \<Longrightarrow> length pm' = length pm \<Longrightarrow> in_map pm' a offs \<and> n \<notin> set offs"
  by (auto simp: in_map_def)

lemma page_ref_each_spec:
  assumes "in_map pm a offs"
  shows "\<exists>pm'. page_ref_each pm a offs = Some pm' \<and> length pm' = length pm \<and>
    (\<forall>j. pm' ! j = (if j \<in> (+) (pfn a) ` set offs then pm ! j + 1 else pm ! j))"
  using assms
proof (induction offs arbitrary: pm)
  case (Cons n offs)
  let ?pm = "pm[pfn a + n := pm ! (pfn a + n) + 1]"
  have g: "get_page_ref (a + of_nat n * PAGE_SIZE) = Some (pfn a + n)" "pfn a + n < length pm"
    using in_map_page [OF Cons.prems, of n] by auto
  have c: "in_map ?pm a offs" "n \<notin> set offs" using in_map_Cons [OF Cons.prems, of ?pm] by auto
  obtain pm' where "page_ref_each ?pm a offs = Some pm'" "length pm' = length ?pm"
      "\<forall>j. pm' ! j = (if j \<in> (+) (pfn a) ` set offs then ?pm ! j + 1 else ?pm ! j)"
    using Cons.IH [OF c(1)] by blast
  moreover have "\<forall>x\<in>set offs. x \<noteq> n" using c(2) by auto
  ultimately show ?case using g by (auto simp: page_ref_def nth_list_update)
qed simp

lemma claim_loop_success:
  assumes "in_map pm a offs" "\<forall>n\<in>set offs. pm ! (pfn a + n) = 1"
  shows "\<exists>pm'. claim_loop pm a done offs = Some (pm', True) \<and> length pm' = length pm \<and>
    (\<forall>j. pm' ! j = (if j \<in> (+) (pfn a) ` set offs then 0 else pm ! j))"
  using assms
proof (induction offs arbitrary: pm "done")
  case (Cons n offs)
  let ?pm = "pm[pfn a + n := 0]"
  have g: "get_page_ref (a + of_nat n * PAGE_SIZE) = Some (pfn a + n)" "pfn a + n < length pm"
    using in_map_page [OF Cons.prems(1), of n] by auto
  have c: "in_map ?pm a offs" "n \<notin> set offs" using in_map_Cons [OF Cons.prems(1), of ?pm] by auto
  have "\<forall>i\<in>set offs. ?pm ! (pfn a + i) = 1"
    using Cons.prems(2) c(2) g(2) by (auto simp: nth_list_update)
  from Cons.IH [OF c(1) this, of "done @ [n]"] obtain pm' where
      "claim_loop ?pm a (done @ [n]) offs = Some (pm', True)" "length pm' = length ?pm"
      "\<forall>j. pm' ! j = (if j \<in> (+) (pfn a) ` set offs then 0 else ?pm ! j)"
    by blast
  then show ?case using g Cons.prems(2) c(2) by (auto simp: page_try_release_last_def)
qed simp

text \<open>When some page is not held exactly once the claim fails and every counter is restored.\<close>

lemma claim_loop_rollback:
  assumes "in_map pm a offs" "in_map pm a done" "set offs \<inter> set done = {}"
    and "\<forall>n\<in>set done. pm ! (pfn a + n) = 0" "\<exists>n\<in>set offs. pm ! (pfn a + n) \<noteq> 1"
  shows "\<exists>pm'. claim_loop pm a done offs = Some (pm', False) \<and> length pm' = length pm \<and>
    (\<forall>j. pm' ! j = (if j \<in> (+) (pfn a) ` set done then 1 else pm ! j))"
  using assms
proof (induction offs arbitrary: pm "done")
  case (Cons n offs)
  note P = Cons.prems
  have g: "get_page_ref (a + of_nat n * PAGE_SIZE) = Some (pfn a + n)" "pfn a + n < length pm"
    using in_map_page [OF P(1), of n] by auto
  show ?case
  proof (cases "pm ! (pfn a + n) = 1")
    case False
    obtain pm' where "page_ref_each pm a done = Some pm'" "length pm' = length pm"
        "\<forall>j. pm' ! j = (if j \<in> (+) (pfn a) ` set done then pm ! j + 1 else pm ! j)"
      using page_ref_each_spec [OF P(2)] by blast
    then show ?thesis using False g P(4) by (auto simp: page_try_release_last_def)
  next
    case True
    let ?pm = "pm[pfn a + n := 0]"
    have c: "in_map ?pm a offs" "n \<notin> set offs" using in_map_Cons [OF P(1), of ?pm] by auto
    have d: "in_map ?pm a (done @ [n])" using P(1-3) by (auto simp: in_map_def)
    have e: "set offs \<inter> set (done @ [n]) = {}" using P(3) c(2) by auto
    have f: "\<forall>i\<in>set (done @ [n]). ?pm ! (pfn a + i) = 0"
      using P(4) g(2) by (auto simp: nth_list_update)
    from P(5) True obtain i where "i \<in> set offs" "pm ! (pfn a + i) \<noteq> 1" "i \<noteq> n" using c(2) by auto
    then have h: "\<exists>i\<in>set offs. ?pm ! (pfn a + i) \<noteq> 1" by (intro bexI [of _ i]) simp_all
    obtain pm' where r: "claim_loop ?pm a (done @ [n]) offs = Some (pm', False)" "length pm' = length ?pm"
        "\<forall>j. pm' ! j = (if j \<in> (+) (pfn a) ` set (done @ [n]) then 1 else ?pm ! j)"
      using Cons.IH [OF c(1) d e f h] by blast
    then have "pm' ! j = (if j \<in> (+) (pfn a) ` set done then 1 else pm ! j)" for j
      using True by (auto simp: nth_list_update)
    then show ?thesis using r True g by (auto simp: page_try_release_last_def)
  qed
qed simp

lemma all_in_use_spec:
  assumes "bitmap_wf using" "bitmap_wf usable" "\<forall>i\<in>set ixs. i < bm_length using \<and> i < bm_length usable"
  shows "all_in_use using usable ixs = Some (\<forall>i\<in>set ixs. bm_bit using i \<and> bm_bit usable i)"
  using assms(3) by (induction ixs) (auto simp: bitmap_get_inside assms(1,2))

lemma unreferenced_loop_spec:
  assumes "in_map pm a offs"
  shows "unreferenced_loop pm a offs = Some (\<forall>n\<in>set offs. pm ! (pfn a + n) = 0)"
  using assms
proof (induction offs)
  case (Cons n offs)
  have "in_map pm a offs" using in_map_Cons [OF Cons.prems] by simp
  then show ?case using Cons.IH in_map_page [OF Cons.prems, of n] by (auto simp: page_refcount_read_def)
qed simp

section \<open>The invariant\<close>

lemma UNIV_zone_type: "UNIV = {ZONE_DMA, ZONE_DMA32, ZONE_NORMAL}"
  using zone_type.exhaust by auto

instance zone_type :: finite
  by standard (simp add: UNIV_zone_type)

definition pages_at :: "frame_state \<Rightarrow> zone_type \<Rightarrow> u64 multiset" where
  "pages_at s t = (case zones s t of None \<Rightarrow> {#} | Some z \<Rightarrow> zone_pages z)"

definition quota_at :: "frame_state \<Rightarrow> zone_type \<Rightarrow> nat" where
  "quota_at s t = (case zones s t of None \<Rightarrow> 0 | Some z \<Rightarrow> zone_quota z)"

definition others :: "frame_state \<Rightarrow> zone_type \<Rightarrow> other_zones" where
  "others s t = (\<Sum>u\<in>UNIV - {t}. pages_at s u, \<Sum>u\<in>UNIV - {t}. quota_at s u)"

definition all_free :: "frame_state \<Rightarrow> nat set" where
  "all_free s = (\<Union>t. case zones s t of None \<Rightarrow> {} | Some z \<Rightarrow> zone_free_frames z)"

text \<open>A zone holds frames of its own type only, and all of them are in the bitmaps and the page map.\<close>

definition zone_placed :: "frame_state \<Rightarrow> zone_type \<Rightarrow> zone \<Rightarrow> bool" where
  "zone_placed s t z \<longleftrightarrow> (\<forall>f. zlo z \<le> f \<and> f < zhi z \<longrightarrow> phys_to_zone_type (of_nat f * 4096) = t) \<and>
     zhi z \<le> bm_length (using_regions s) \<and> zhi z \<le> bm_length (usable_regions s) \<and>
     zhi z * 4096 \<le> unat (memory_size s) \<and> zhi z \<le> length (the (page_maps s))"

definition zones_inv :: "frame_state \<Rightarrow> bool" where
  "zones_inv s \<longleftrightarrow> (\<forall>t z. zones s t = Some z \<longrightarrow> zone_ok (others s t) (fs_metadata s) z \<and> zone_placed s t z)"

definition frames_inv :: "frame_state \<Rightarrow> bool" where
  "frames_inv s \<longleftrightarrow> zones_inv s \<and> bitmap_wf (using_regions s) \<and> bitmap_wf (usable_regions s) \<and>
     page_maps s \<noteq> None \<and>
     (\<forall>f\<in>all_free s. bm_bit (usable_regions s) f \<and> \<not> bm_bit (using_regions s) f \<and> the (page_maps s) ! f = 0)"

text \<open>Frames the allocator answers for: free, or in use and held once.\<close>

definition owned :: "frame_state \<Rightarrow> nat set" where
  "owned s = {f. bm_bit (usable_regions s) f \<and>
     (f \<in> all_free s \<or> bm_bit (using_regions s) f \<and> the (page_maps s) ! f = 1)}"

definition owned_block :: "frame_state \<Rightarrow> nat \<times> nat \<Rightarrow> bool" where
  "owned_block s x \<longleftrightarrow> block_frames x \<subseteq> owned s \<and> (\<exists>t z. zones s t = Some z \<and> block_in (zlo z) (zhi z) x)"

lemma zones_put_zone [simp]: "zones (put_zone s t (m, z)) = (zones s)(t := Some z)"
  "fs_metadata (put_zone s t (m, z)) = m" "using_regions (put_zone s t (m, z)) = using_regions s"
  "usable_regions (put_zone s t (m, z)) = usable_regions s" "memory_size (put_zone s t (m, z)) = memory_size s"
  "page_maps (put_zone s t (m, z)) = page_maps s"
  by (simp_all add: put_zone_def)

lemma sum_others:
  fixes f :: "zone_type \<Rightarrow> 'b::comm_monoid_add"
  shows "(\<Sum>u\<in>UNIV - {t}. f u) + f t = (\<Sum>u\<in>UNIV. f u)"
  by (simp add: sum.remove [of UNIV t] add.commute)

lemma size_sum_mset: "size (\<Sum>u\<in>A. f u) = (\<Sum>u\<in>A. size (f u))" if "finite A" for f :: "'a \<Rightarrow> 'b multiset"
  using that by (induction rule: finite_induct) auto

lemma size_pages_at: "zones_inv s \<Longrightarrow> size (pages_at s t) \<le> quota_at s t"
  using size_zone_pages_bound
  by (auto simp: zones_inv_def pages_at_def quota_at_def zone_ok_def zone_inv_def lists_wf_def split: option.splits)

text \<open>An operation on one zone keeps the others' invariant: they share only the pool.\<close>

lemma zones_inv_put_zone:
  assumes inv: "zones_inv s" and z: "zones s t = Some z" and ok: "zone_ok (others s t) m' z'" and sp: "same_span z z'"
  shows "zones_inv (put_zone s t (m', z'))"
proof -
  let ?s = "put_zone s t (m', z')"
  have q: "zone_quota z' = zone_quota z" using sp by (simp add: zone_quota_def same_span_def)
  have quota: "quota_at ?s u = quota_at s u" for u using z q by (simp add: quota_at_def)
  have "pages_at ?s u = pages_at s u" if "u \<noteq> t" for u using that by (simp add: pages_at_def)
  then have eq: "others ?s t = others s t" by (simp add: others_def quota)
  have tot: "(\<Sum>u\<in>UNIV. pages_at ?s u) + mset (metadata_free_list m') = handed_out m'"
      "(\<Sum>u\<in>UNIV. quota_at ?s u) \<le> metadata_pool_pages m'" "metadata_pool_used m' \<le> metadata_pool_pages m'"
    using ok sum_others [of "pages_at ?s" t] sum_others [of "quota_at ?s" t]
    unfolding eq [symmetric] by (simp_all add: zone_ok_def zone_inv_def others_def pages_at_def quota_at_def)
  have "size (pages_at ?s u) \<le> quota_at ?s u" for u
  proof (cases "u = t")
    case True
    then show ?thesis using size_zone_pages_bound [of z'] ok
      by (simp add: pages_at_def quota_at_def zone_ok_def zone_inv_def lists_wf_def)
  next
    case False
    then show ?thesis using size_pages_at [OF inv, of u] by (simp add: pages_at_def quota_at_def)
  qed
  then have le: "size (fst (others ?s u)) \<le> snd (others ?s u)" for u
    by (simp add: others_def size_sum_mset sum_mono)
  have "zone_ok (others ?s u) m' y" if u: "zones ?s u = Some y" for u y
  proof (cases "u = t")
    case True
    then show ?thesis using ok u eq by simp
  next
    case False
    then have y: "zone_ok (others s u) (fs_metadata s) y" using inv u by (simp add: zones_inv_def)
    have "fst (others ?s u) + zone_pages y = (\<Sum>u\<in>UNIV. pages_at ?s u)"
      "snd (others ?s u) + zone_quota y = (\<Sum>u\<in>UNIV. quota_at ?s u)"
      using sum_others [of "pages_at ?s" u] sum_others [of "quota_at ?s" u] u
      by (simp_all add: others_def pages_at_def quota_at_def)
    then show ?thesis using y tot le [of u] by (simp add: zone_ok_def zone_inv_def)
  qed
  moreover have "zone_placed ?s u y" if u: "zones ?s u = Some y" for u y
    using inv z u sp by (cases "u = t") (auto simp: zones_inv_def zone_placed_def same_span_def)
  ultimately show ?thesis by (simp add: zones_inv_def)
qed

section \<open>Allocation\<close>

definition same_env :: "frame_state \<Rightarrow> frame_state \<Rightarrow> bool" where
  "same_env s s' \<longleftrightarrow> using_regions s' = using_regions s \<and> usable_regions s' = usable_regions s \<and>
     memory_size s' = memory_size s \<and> page_maps s' = page_maps s \<and>
     (\<forall>t. rel_option same_span (zones s t) (zones s' t))"

lemma same_span_refl [simp]: "same_span z z"
  by (simp add: same_span_def)

lemma same_bounds_span: "same_bounds z z' \<Longrightarrow> same_span z z'"
  by (simp add: same_bounds_def same_span_def)

lemma rel_option_span_refl [simp]: "rel_option same_span x x"
  by (cases x) auto

lemma same_env_refl [simp]: "same_env s s"
  by (simp add: same_env_def)

lemma same_env_trans: "same_env s s' \<Longrightarrow> same_env s' s'' \<Longrightarrow> same_env s s''"
proof -
  have "rel_option same_span x z" if "rel_option same_span x y" "rel_option same_span y z" for x y z
    using that by (cases x; cases y; cases z) (auto simp: same_span_def)
  then show "same_env s s' \<Longrightarrow> same_env s' s'' \<Longrightarrow> same_env s s''" unfolding same_env_def by metis
qed

lemma same_env_put_zone: "zones s t = Some z \<Longrightarrow> same_span z z' \<Longrightarrow> same_env s (put_zone s t (m, z'))"
  by (simp add: same_env_def)

definition zone_block_at :: "frame_state \<Rightarrow> nat \<times> nat \<Rightarrow> bool" where
  "zone_block_at s x \<longleftrightarrow> (\<exists>t z. zones s t = Some z \<and> block_in (zlo z) (zhi z) x)"

lemma zone_block_at_env:
  assumes "same_env s s'"
  shows "zone_block_at s' x = zone_block_at s x"
proof -
  have "(\<exists>z. zones s' t = Some z \<and> block_in (zlo z) (zhi z) x) =
      (\<exists>z. zones s t = Some z \<and> block_in (zlo z) (zhi z) x)" for t
    using assms unfolding same_env_def
    by (cases "zones s t"; cases "zones s' t") (auto dest!: spec [of _ t] simp: same_span_def)
  then show ?thesis by (simp add: zone_block_at_def)
qed

lemma zone_frame_type:
  assumes "zones_inv s" "zones s t = Some z" "f \<in> zone_free_frames z"
  shows "zlo z \<le> f" "f < zhi z" "phys_to_zone_type (of_nat f * 4096) = t"
proof -
  have wf: "lists_wf z" and pl: "zone_placed s t z"
    using assms by (auto simp: zones_inv_def zone_ok_def zone_inv_def)
  show b: "zlo z \<le> f" "f < zhi z" using zone_free_bounds [OF wf] assms(3) by auto
  show "phys_to_zone_type (of_nat f * 4096) = t" using pl b by (simp add: zone_placed_def)
qed

lemma Union_split: "(\<Union>u. F u) = (\<Union>u\<in>UNIV - {t}. F u) \<union> F t"
  by auto

lemma all_free_split:
  "zones s t = Some z \<Longrightarrow> all_free s =
     (\<Union>u\<in>UNIV - {t}. case zones s u of None \<Rightarrow> {} | Some z \<Rightarrow> zone_free_frames z) \<union> zone_free_frames z"
  unfolding all_free_def by (subst Union_split [of _ t]) simp

lemma all_free_put_zone:
  "all_free (put_zone s t (m, z')) =
     (\<Union>u\<in>UNIV - {t}. case zones s u of None \<Rightarrow> {} | Some z \<Rightarrow> zone_free_frames z) \<union> zone_free_frames z'"
  unfolding all_free_def by (subst Union_split [of _ t]) simp

lemma other_zones_disjoint:
  assumes "zones_inv s" "zones s t = Some z" "f < zhi z" "zlo z \<le> f"
  shows "f \<notin> (\<Union>u\<in>UNIV - {t}. case zones s u of None \<Rightarrow> {} | Some z \<Rightarrow> zone_free_frames z)"
proof -
  have "phys_to_zone_type (of_nat f * 4096) = t"
    using assms by (auto simp: zones_inv_def zone_placed_def)
  then show ?thesis using zone_frame_type(3) [OF assms(1)] by (auto split: option.splits)
qed

definition took :: "frame_state \<Rightarrow> frame_state \<Rightarrow> u64 \<Rightarrow> u64 \<Rightarrow> bool" where
  "took s s' c a \<longleftrightarrow> (if a = 0 then all_free s' = all_free s
     else \<exists>k p. count_to_order c = Some (12 + k, p) \<and> page_aligned a \<and> zone_block_at s (k, pfn a) \<and>
       block_frames (k, pfn a) \<subseteq> all_free s \<and> all_free s' = all_free s - block_frames (k, pfn a))"

lemma alloc_in_spec:
  assumes inv: "zones_inv s"
  shows "\<exists>s' a. alloc_in s t c = Some (s', a) \<and> zones_inv s' \<and> same_env s s' \<and> took s s' c a"
proof (cases "zones s t")
  case None
  then show ?thesis using inv by (simp add: alloc_in_def took_def)
next
  case (Some z)
  show ?thesis
  proof (cases "zone_has_memory z")
    case False
    then show ?thesis using inv Some by (simp add: alloc_in_def took_def)
  next
    case True
    have ok: "zone_ok (others s t) (fs_metadata s) z" using inv Some by (simp add: zones_inv_def)
    obtain m' z' a where r: "buddy_alloc_zone (fs_metadata s) z c = Some (m', z', a)"
        "zone_ok (others s t) m' z'" "same_bounds z z'"
      and d: "if a = 0 then zone_free_frames z' = zone_free_frames z
        else \<exists>k p. count_to_order c = Some (12 + k, p) \<and> page_aligned a \<and> block_in (zlo z) (zhi z) (k, pfn a) \<and>
          block_frames (k, pfn a) \<subseteq> zone_free_frames z \<and>
          zone_free_frames z' = zone_free_frames z - block_frames (k, pfn a)"
      using buddy_alloc_zone_spec [OF ok, of c] by (auto split: if_splits)
    let ?s = "put_zone s t (m', z')"
    note sp = same_bounds_span [OF r(3)]
    note sets = all_free_split [OF Some] all_free_put_zone [of s t m' z']
    have "took s ?s c a"
    proof (cases "a = 0")
      case True
      then show ?thesis using d sets by (simp add: took_def)
    next
      case False
      then obtain k p where k: "count_to_order c = Some (12 + k, p)" "page_aligned a"
          "block_in (zlo z) (zhi z) (k, pfn a)" "block_frames (k, pfn a) \<subseteq> zone_free_frames z"
          "zone_free_frames z' = zone_free_frames z - block_frames (k, pfn a)"
        using d by auto
      have "f \<notin> (\<Union>u\<in>UNIV - {t}. case zones s u of None \<Rightarrow> {} | Some z \<Rightarrow> zone_free_frames z)"
        if "f \<in> block_frames (k, pfn a)" for f
        using that k(4) zone_frame_type [OF inv Some] other_zones_disjoint [OF inv Some] by blast
      then have "all_free ?s = all_free s - block_frames (k, pfn a)" "block_frames (k, pfn a) \<subseteq> all_free s"
        unfolding sets k(5) using k(4) by blast+
      then show ?thesis using False k(1-3) Some by (auto simp: took_def zone_block_at_def)
    qed
    moreover have "alloc_in s t c = Some (?s, a)" using Some True r(1) by (simp add: alloc_in_def)
    ultimately show ?thesis
      using zones_inv_put_zone [OF inv Some r(2) sp] same_env_put_zone [OF Some sp] by blast
  qed
qed

lemma alloc_first_spec:
  assumes "zones_inv s"
  shows "\<exists>s' a. alloc_first s ts c = Some (s', a) \<and> zones_inv s' \<and> same_env s s' \<and> took s s' c a"
  using assms
proof (induction ts arbitrary: s)
  case Nil
  then show ?case by (simp add: took_def)
next
  case (Cons t ts)
  obtain s1 a where s1: "alloc_in s t c = Some (s1, a)" "zones_inv s1" "same_env s s1" "took s s1 c a"
    using alloc_in_spec [OF Cons.prems] by blast
  show ?case
  proof (cases "a = 0")
    case False
    then show ?thesis using s1 by auto
  next
    case True
    obtain s2 b where s2: "alloc_first s1 ts c = Some (s2, b)" "zones_inv s2" "same_env s1 s2" "took s1 s2 c b"
      using Cons.IH [OF s1(2)] by blast
    have af: "all_free s1 = all_free s" using s1(4) True by (simp add: took_def)
    have "took s1 s2 c b = took s s2 c b" by (simp only: took_def zone_block_at_env [OF s1(3)] af)
    then have "took s s2 c b" using s2(4) by simp
    then show ?thesis using s1 s2 True same_env_trans [OF s1(3) s2(3)] by simp
  qed
qed

lemma block_offsets: "(+) p ` set [0..<2 ^ k] = block_frames (k, p)"
  by (auto simp: block_frames_def)

lemma zones_inv_marks:
  assumes "zones_inv s" "same_shape (using_regions s) u" "length pm = length (the (page_maps s))"
  shows "zones_inv (s\<lparr>using_regions := u, page_maps := Some pm\<rparr>)"
proof -
  have "others (s\<lparr>using_regions := u, page_maps := Some pm\<rparr>) = others s"
    by (auto simp: others_def pages_at_def quota_at_def)
  then show ?thesis using assms by (auto simp: zones_inv_def zone_placed_def same_shape_def)
qed

lemma all_free_marks [simp]: "all_free (s\<lparr>using_regions := u, page_maps := pm\<rparr>) = all_free s"
  by (simp add: all_free_def)

text \<open>The pages of a block inside a zone are addressable.\<close>

lemma zone_block_pages:
  assumes "zones_inv s" "zone_block_at s (k, pfn a)" "page_aligned a" "page_maps s = Some pm"
  shows "in_map pm a [0..<2 ^ k]" "pfn a + 2 ^ k \<le> bm_length (using_regions s)"
    "pfn a + 2 ^ k \<le> bm_length (usable_regions s)" "k < 19"
proof -
  obtain t z where z: "zones s t = Some z" "block_in (zlo z) (zhi z) (k, pfn a)"
    using assms(2) by (auto simp: zone_block_at_def)
  then have pl: "zone_placed s t z" and zb: "zone_bounds z" and bi: "pfn a + 2 ^ k \<le> zhi z"
    using assms(1) by (auto simp: zones_inv_def zone_ok_def zone_inv_def lists_wf_def block_in_def)
  have "(pfn a + n) * 4096 < 2 ^ 64" if "n < 2 ^ k" for n
  proof -
    have "(pfn a + n) * 4096 \<le> zhi z * 4096" using that bi by (intro mult_le_mono1) simp
    then show ?thesis using zb by (simp only: zone_bounds_def) linarith
  qed
  moreover have "pfn a + n < length pm" if "n < 2 ^ k" for n
    using that pl bi assms(4) by (simp add: zone_placed_def)
  ultimately show "in_map pm a [0..<2 ^ k]" using assms(3) by (simp add: in_map_def)
  show "pfn a + 2 ^ k \<le> bm_length (using_regions s)" "pfn a + 2 ^ k \<le> bm_length (usable_regions s)" "k < 19"
    using pl bi z(2) by (auto simp: zone_placed_def block_in_def)
qed

lemma unat_addr_div: "unat (a div PAGE_SIZE) = pfn a"
  by (simp add: pfn_def unat_div_distrib)

lemma mark_allocated_spec:
  assumes "zones_inv s" "bitmap_wf (using_regions s)" "zone_block_at s (k, pfn a)" "page_aligned a"
    and "page_maps s = Some pm" "unat p = 2 ^ k"
  shows "\<exists>u pm'. mark_allocated s a p = Some (s\<lparr>using_regions := u, page_maps := Some pm'\<rparr>) \<and>
    same_shape (using_regions s) u \<and> length pm' = length pm \<and>
    (\<forall>j. bm_bit u j = (if j \<in> block_frames (k, pfn a) then True else bm_bit (using_regions s) j)) \<and>
    (\<forall>j. pm' ! j = (if j \<in> block_frames (k, pfn a) then pm ! j + 1 else pm ! j))"
proof -
  note zp = zone_block_pages [OF assms(1,3,4,5)]
  obtain u where u: "bitmap_set_range (using_regions s) (pfn a) (pfn a + 2 ^ k) True = Some u"
      "same_shape (using_regions s) u"
      "\<forall>j. bm_bit u j = (if pfn a \<le> j \<and> j < pfn a + 2 ^ k then True else bm_bit (using_regions s) j)"
    using bitmap_set_range_inside [OF assms(2) zp(2)] by blast
  obtain pm' where pm': "page_ref_each pm a [0..<2 ^ k] = Some pm'" "length pm' = length pm"
      "\<forall>j. pm' ! j = (if j \<in> block_frames (k, pfn a) then pm ! j + 1 else pm ! j)"
    using page_ref_each_spec [OF zp(1)] unfolding block_offsets by blast
  show ?thesis
    using u pm' assms(5,6) by (intro exI [of _ u] exI [of _ pm']) (simp add: mark_allocated_def unat_addr_div)
qed

lemma count_to_order_exact: "count_to_order c = Some (12 + k, p) \<Longrightarrow> unat p = 2 ^ k \<and> k < 19 \<and> c \<noteq> 0"
  by (erule count_to_order_Some) (auto simp: unat_pow2)

lemma alloc_frames_from_spec:
  assumes inv: "frames_inv s"
  shows "\<exists>s' a. alloc_frames_from ts s c = Some (s', a) \<and> frames_inv s' \<and> owned_block s' = owned_block s \<and>
    took s s' c a \<and> usable_regions s' = usable_regions s"
proof -
  obtain s1 a where s1: "alloc_first s ts c = Some (s1, a)" "zones_inv s1" "same_env s s1" "took s s1 c a"
    using alloc_first_spec inv unfolding frames_inv_def by blast
  have env: "using_regions s1 = using_regions s" "usable_regions s1 = usable_regions s" "page_maps s1 = page_maps s"
    using s1(3) by (auto simp: same_env_def)
  obtain pm where pm: "page_maps s = Some pm" using inv by (auto simp: frames_inv_def)
  note zba = zone_block_at_env [OF s1(3)]
  consider (refused) "count_to_order c = None" | (failed) od p where "count_to_order c = Some (od, p)" "a = 0"
    | (granted) od p where "count_to_order c = Some (od, p)" "a \<noteq> 0"
    by fastforce
  then show ?thesis
  proof cases
    case refused
    then show ?thesis using inv by (auto simp: alloc_frames_from_def count_to_pages_def took_def)
  next
    case failed
    then have c: "c \<noteq> 0" by (auto simp: count_to_order_def)
    have af: "all_free s1 = all_free s" using s1(4) failed by (simp add: took_def)
    have fi: "frames_inv s1" using inv s1(2) env af by (simp add: frames_inv_def)
    have "owned_block s1 = owned_block s"
      using zba env af by (simp add: fun_eq_iff owned_block_def owned_def zone_block_at_def)
    then show ?thesis
      using c s1 failed env fi by (simp add: alloc_frames_from_def count_to_pages_def)
  next
    case granted
    then obtain k p where k: "count_to_order c = Some (12 + k, p)" "page_aligned a" "zone_block_at s (k, pfn a)"
        "block_frames (k, pfn a) \<subseteq> all_free s" "all_free s1 = all_free s - block_frames (k, pfn a)"
      using s1(4) by (auto simp: took_def)
    have p: "unat p = 2 ^ k" "c \<noteq> 0" using count_to_order_exact [OF k(1)] by auto
    obtain u pm' where r: "mark_allocated s1 a p = Some (s1\<lparr>using_regions := u, page_maps := Some pm'\<rparr>)"
        "same_shape (using_regions s) u" "length pm' = length pm"
        "\<And>j. bm_bit u j = (if j \<in> block_frames (k, pfn a) then True else bm_bit (using_regions s) j)"
        "\<And>j. pm' ! j = (if j \<in> block_frames (k, pfn a) then pm ! j + 1 else pm ! j)"
      using mark_allocated_spec [of s1 k a pm p] s1(2) inv k(2,3) zba env pm p(1) by (auto simp: frames_inv_def)
    let ?s = "s1\<lparr>using_regions := u, page_maps := Some pm'\<rparr>"
    have fr: "bm_bit (usable_regions s) f \<and> \<not> bm_bit (using_regions s) f \<and> pm ! f = 0" if "f \<in> all_free s" for f
      using that inv pm by (simp add: frames_inv_def)
    have "zones_inv ?s" using zones_inv_marks [OF s1(2)] r(2,3) env pm by simp
    then have fi: "frames_inv ?s"
      using inv env fr r k(5) same_shape_wf [OF r(2)] by (simp add: frames_inv_def)
    have "owned ?s = owned s"
    proof (rule set_eqI)
      fix f
      show "f \<in> owned ?s \<longleftrightarrow> f \<in> owned s"
        using fr [of f] k(4,5) r(4,5) [of f] env pm
        by (cases "f \<in> block_frames (k, pfn a)") (auto simp: owned_def simp del: mem_block_frames)
    qed
    then have ob: "owned_block ?s = owned_block s"
      using zba by (simp add: fun_eq_iff owned_block_def zone_block_at_def)
    have "alloc_frames_from ts s c = Some (?s, a)"
      using s1(1) r(1) k(1) p(2) \<open>a \<noteq> 0\<close> by (simp add: alloc_frames_from_def count_to_pages_def)
    moreover have "took s ?s c a" using \<open>a \<noteq> 0\<close> k by (auto simp: took_def simp del: mem_block_frames)
    ultimately show ?thesis using fi ob env by simp
  qed
qed

section \<open>Release\<close>

lemma page_aligned_and: "a AND (PAGE_SIZE - 1) = 0 \<longleftrightarrow> page_aligned a"
  using aligned_iff_dvd [of 12 a] by (simp add: page_aligned_def)

lemma of_nat_pfn: "page_aligned a \<Longrightarrow> of_nat (pfn a) * PAGE_SIZE = a"
proof -
  assume "page_aligned a"
  then have "of_nat (unat a) = (of_nat (pfn a * 4096) :: u64)" by (simp only: unat_pfn)
  then show ?thesis by simp
qed

text \<open>The range checks of \<open>free_frames_common\<close> pass for a block of a zone.\<close>

lemma free_checks_pass:
  assumes inv: "zones_inv s" and z: "zones s t = Some z" and b: "block_in (zlo z) (zhi z) (k, pfn a)"
    and a: "page_aligned a" and p: "unat p = 2 ^ k"
  shows "phys_to_zone_type a = t" "\<not> a > memory_size s"
    "\<not> (a + p * PAGE_SIZE < a \<or> a < zone_phys_start z \<or> a + p * PAGE_SIZE > zone_phys_end z)"
    "unat (a div PAGE_SIZE + p) = pfn a + 2 ^ k" "\<not> a div PAGE_SIZE + p < a div PAGE_SIZE"
proof -
  have zb: "zone_bounds z" and pl: "zone_placed s t z" and bi: "zlo z \<le> pfn a" "pfn a + 2 ^ k \<le> zhi z" "k < 19"
    using inv z b by (auto simp: zones_inv_def zone_ok_def zone_inv_def lists_wf_def block_in_def)
  have lt: "pfn a < zhi z" using bi(2) zero_less_power [of "2 :: nat" k] by linarith
  show "phys_to_zone_type a = t"
    using pl bi(1) lt of_nat_pfn [OF a] by (auto simp: zone_placed_def)
  have "pfn a * 4096 \<le> zhi z * 4096" using lt by simp
  then show "\<not> a > memory_size s" using pl unat_pfn [OF a] by (simp add: zone_placed_def word_less_nat_alt)
  have hi: "(pfn a + 2 ^ k) * 4096 \<le> zhi z * 4096" using bi(2) by (rule mult_le_mono1)
  have small: "zhi z * 4096 < 2 ^ 64" using zb by (simp add: zone_bounds_def)
  have pb: "unat (p * PAGE_SIZE) = 2 ^ k * 4096" using hi small p by (simp add: unat_word_ariths)
  have e: "unat (a + p * PAGE_SIZE) = (pfn a + 2 ^ k) * 4096"
    using hi small by (subst unat_add_no_wrap) (simp_all only: pb unat_pfn [OF a] add_mult_distrib)
  show "\<not> (a + p * PAGE_SIZE < a \<or> a < zone_phys_start z \<or> a + p * PAGE_SIZE > zone_phys_end z)"
    using e hi bi(1) unat_pfn [OF a] zone_phys_bounds [OF zb] by (simp add: word_less_nat_alt)
  have "pfn a + 2 ^ k < 2 ^ 64" using hi small by simp
  then show q: "unat (a div PAGE_SIZE + p) = pfn a + 2 ^ k"
    by (subst unat_add_no_wrap) (simp_all add: unat_addr_div p)
  show "\<not> a div PAGE_SIZE + p < a div PAGE_SIZE" using q by (simp add: word_less_nat_alt unat_addr_div)
qed

lemma free_frames_spec:
  assumes inv: "frames_inv s" and a: "page_aligned a" "a \<noteq> 0" and ob: "owned_block s (k, pfn a)"
    and used: "block_frames (k, pfn a) \<inter> all_free s = {}" and c: "count_to_order c = Some (12 + k, p)"
  shows "\<exists>s'. free_frames s a c = Some s' \<and> frames_inv s' \<and> owned_block s' = owned_block s \<and>
    all_free s' = all_free s \<union> block_frames (k, pfn a)"
proof -
  let ?B = "block_frames (k, pfn a)"
  obtain t z where z: "zones s t = Some z" "block_in (zlo z) (zhi z) (k, pfn a)"
    using ob by (auto simp: owned_block_def)
  have zba: "zone_block_at s (k, pfn a)" using z by (auto simp: zone_block_at_def)
  have zi: "zones_inv s" and bw: "bitmap_wf (using_regions s)" "bitmap_wf (usable_regions s)"
    using inv by (auto simp: frames_inv_def)
  obtain pm where pm: "page_maps s = Some pm" using inv by (auto simp: frames_inv_def)
  have p: "unat p = 2 ^ k" "c \<noteq> 0" using count_to_order_exact [OF c] by auto
  note chk = free_checks_pass [OF zi z a(1) p(1)]
  note pg = zone_block_pages [OF zi zba a(1) pm]
  have own: "bm_bit (usable_regions s) f \<and> bm_bit (using_regions s) f \<and> pm ! f = 1" if "f \<in> ?B" for f
  proof -
    have "f \<in> owned s" "f \<notin> all_free s" using that ob used unfolding owned_block_def by blast+
    then show ?thesis using pm by (simp add: owned_def)
  qed
  have use: "all_in_use (using_regions s) (usable_regions s) [pfn a ..< pfn a + 2 ^ k] = Some True"
    using all_in_use_spec [OF bw, of "[pfn a ..< pfn a + 2 ^ k]"] pg(2,3) own by simp
  have "\<forall>n\<in>set [0..<2 ^ k]. pm ! (pfn a + n) = 1" using own by simp
  then obtain pm' where cl: "claim_loop pm a [] [0..<2 ^ k] = Some (pm', True)" "length pm' = length pm"
      "\<And>j. pm' ! j = (if j \<in> ?B then 0 else pm ! j)"
    using claim_loop_success [OF pg(1), of "[]"] unfolding block_offsets by blast
  obtain u where u: "bitmap_set_range (using_regions s) (pfn a) (pfn a + 2 ^ k) False = Some u"
      "same_shape (using_regions s) u"
      "\<And>j. bm_bit u j = (if j \<in> ?B then False else bm_bit (using_regions s) j)"
    using bitmap_set_range_inside [OF bw(1) pg(2), of "pfn a" False] by auto
  have zok: "zone_ok (others s t) (fs_metadata s) z" using zi z(1) by (simp add: zones_inv_def)
  have "?B \<inter> zone_free_frames z = {}" using used all_free_split [OF z(1)] by blast
  then obtain m' z' where fz: "buddy_free_zone_locked (fs_metadata s) z a (12 + k) = Some (m', z')"
      "zone_ok (others s t) m' z'" "same_bounds z z'" "zone_free_frames z' = zone_free_frames z \<union> ?B"
    using buddy_free_zone_locked_spec [OF zok a z(2)] by blast
  let ?s = "s\<lparr>using_regions := u, page_maps := Some pm'\<rparr>"
  let ?s' = "put_zone ?s t (m', z')"
  have "free_frames s a c = Some ?s'"
    using a(2) p c chk pg(2,3) pm use cl(1) u(1) fz(1) z(1) page_aligned_and [of a] a(1)
    by (simp add: free_frames_def free_frames_common_def get_zone_def claim_last_page_refs_def unat_addr_div Let_def)
  moreover have zi': "zones_inv ?s'"
  proof -
    have "zones_inv ?s" using zones_inv_marks [OF zi u(2)] cl(2) pm by simp
    moreover have "others ?s t = others s t" by (simp add: others_def pages_at_def quota_at_def)
    ultimately show ?thesis
      using zones_inv_put_zone [of ?s t z m' z'] z(1) fz(2) same_bounds_span [OF fz(3)] by simp
  qed
  moreover have af: "all_free ?s' = all_free s \<union> ?B"
  proof -
    have "all_free ?s' = (\<Union>u\<in>UNIV - {t}. case zones s u of None \<Rightarrow> {} | Some z \<Rightarrow> zone_free_frames z) \<union> zone_free_frames z'"
      unfolding all_free_put_zone by simp
    then show ?thesis unfolding all_free_split [OF z(1)] fz(4) by blast
  qed
  moreover have "frames_inv ?s'"
    using inv zi' af u cl pm own same_shape_wf [OF u(2)] unfolding frames_inv_def
    by (auto simp del: mem_block_frames)
  moreover have "owned_block ?s' = owned_block s"
  proof -
    have "owned ?s' = owned s"
      using own u(3) cl(3) pm af unfolding owned_def by (auto simp del: mem_block_frames split: if_splits)
    moreover have "same_env ?s ?s'" using same_env_put_zone [of ?s t z z' m'] z(1) same_bounds_span [OF fz(3)] by simp
    then have "zone_block_at ?s' x = zone_block_at s x" for x
      using zone_block_at_env [of ?s ?s' x] by (simp add: zone_block_at_def)
    ultimately show ?thesis by (simp add: fun_eq_iff owned_block_def zone_block_at_def)
  qed
  ultimately show ?thesis by blast
qed

text \<open>A release that does not come from the last holder changes nothing.\<close>

lemma claim_refused:
  assumes "in_map pm a [0..<unat p]" "\<exists>n<unat p. pm ! (pfn a + n) \<noteq> 1"
  shows "claim_last_page_refs pm a p = Some (pm, False)"
proof -
  have nil: "in_map pm a []" using assms(1) by (simp add: in_map_def)
  have ex: "\<exists>n\<in>set [0..<unat p]. pm ! (pfn a + n) \<noteq> 1" using assms(2) by auto
  obtain pm' where r: "claim_loop pm a [] [0..<unat p] = Some (pm', False)" "length pm' = length pm"
      "\<forall>j. pm' ! j = pm ! j"
    using claim_loop_rollback [OF assms(1) nil _ _ ex] by auto
  then have "pm' = pm" by (intro nth_equalityI) auto
  then show ?thesis using r by (simp add: claim_last_page_refs_def)
qed

section \<open>The kernel's allocator as a provider\<close>

lemma count_to_order_pow2:
  assumes "k < 19"
  shows "count_to_order (2 ^ k) = Some (12 + k, 2 ^ k)"
proof -
  have u: "unat (2 ^ k :: u64) = 2 ^ k" using assms by (simp add: unat_pow2)
  have "(2::nat) ^ k \<le> 2 ^ 18" using assms by (intro power_increasing) auto
  then have "count_to_order (2 ^ k) \<noteq> None"
    using u count_to_order_None [of "2 ^ k"] by (metis not_less unat_0 power_eq_0_iff zero_neq_numeral)
  then obtain od p where op: "count_to_order (2 ^ k) = Some (od, p)" by auto
  obtain j where j: "od = 12 + j" "p = 2 ^ j" "unat (2 ^ k :: u64) \<le> 2 ^ j" "0 < j \<Longrightarrow> 2 ^ (j - 1) < unat (2 ^ k :: u64)"
    by (rule count_to_order_Some [OF op]) (rule that)
  have "j \<le> k" using count_order_least [of "2 ^ k" k j] j(4) u by simp
  moreover have "k \<le> j" using j(3) u by simp
  ultimately show ?thesis using op j by simp
qed

definition kernel_free :: "frame_state \<Rightarrow> u64 \<Rightarrow> nat \<Rightarrow> frame_state option" where
  "kernel_free s addr k = free_frames s addr (2 ^ k)"

interpretation kernel_provider: frame_allocator "alloc_frames_from ts" kernel_free frames_inv all_free owned_block for ts
proof unfold_locales
  fix s c assume inv: "frames_inv s"
  obtain s' a where r: "alloc_frames_from ts s c = Some (s', a)" "frames_inv s'" "owned_block s' = owned_block s"
      "took s s' c a"
    using alloc_frames_from_spec [OF inv] by blast
  have "owned_block s (k, pfn a)" if "zone_block_at s (k, pfn a)" "block_frames (k, pfn a) \<subseteq> all_free s" for k
    using that inv unfolding owned_block_def zone_block_at_def owned_def frames_inv_def by blast
  then show "\<exists>s' a. alloc_frames_from ts s c = Some (s', a) \<and> frames_inv s' \<and> owned_block s' = owned_block s \<and>
    (if a = 0 then all_free s' = all_free s
     else \<exists>k p. count_to_order c = Some (12 + k, p) \<and> page_aligned a \<and> owned_block s (k, pfn a) \<and>
       block_frames (k, pfn a) \<subseteq> all_free s \<and> all_free s' = all_free s - block_frames (k, pfn a))"
    using r unfolding took_def by (intro exI [of _ s'] exI [of _ a]) (auto simp del: mem_block_frames split: if_splits)
next
  fix s a k assume inv: "frames_inv s" and a: "page_aligned a" "a \<noteq> 0" and ob: "owned_block s (k, pfn a)"
    and used: "block_frames (k, pfn a) \<inter> all_free s = {}"
  have "k < 19" using ob by (auto simp: owned_block_def block_in_def)
  then show "\<exists>s'. kernel_free s a k = Some s' \<and> frames_inv s' \<and> owned_block s' = owned_block s \<and>
      all_free s' = all_free s \<union> block_frames (k, pfn a)"
    using free_frames_spec [OF inv a ob used count_to_order_pow2] by (simp add: kernel_free_def)
qed

end
