(* ===== verification/Krlibc.thy ===== *)
theory Krlibc
  imports Kernel_Prelude
begin

text \<open>
  String and number routines of \<^verbatim>\<open>src/src/util/krlibc.c\<close>.  A C string is the list of its
  characters before the terminating NUL, which \<open>hd0\<close> reads; a pointer into it is a suffix,
  \<open>NULL\<close> is \<^const>\<open>None\<close>.  Plain \<open>char\<close> is signed on the supported targets.
  \<open>malloc_ok n\<close> says whether \<open>malloc (n)\<close> succeeds; a write past an allocated buffer and a read past a
  terminating NUL are faults (the outer \<^const>\<open>None\<close>).  The word-at-a-time routines (\<open>memset\<close>,
  \<open>memcpy\<close>, \<open>memmove\<close>, \<open>memchr\<close>, \<open>strlen\<close>) and the two-way search are not modelled; \<open>strlen\<close> is
  \<^const>\<open>length\<close> where it is called.
\<close>

section \<open>Characters\<close>

abbreviation NUL :: char where "NUL \<equiv> CHR 0x00"

definition cval :: "char \<Rightarrow> int" where
  "cval c = (let n = of_char c in if n < 128 then n else n - 256)"

definition uval :: "char \<Rightarrow> int" where
  "uval c = of_char c"

definition hd0 :: "string \<Rightarrow> char" where
  "hd0 s = (case s of [] \<Rightarrow> NUL | c # _ \<Rightarrow> c)"

lemma hd0_simps [simp]: "hd0 [] = NUL" "hd0 (c # s) = c"
  by (simp_all add: hd0_def)

definition isspace :: "char \<Rightarrow> bool" where
  "isspace c \<longleftrightarrow> c = CHR '' '' \<or> c = CHR 0x09 \<or> c = CHR 0x0A \<or> c = CHR 0x0D \<or> c = CHR 0x0C \<or> c = CHR 0x0B"

definition isdigit :: "char \<Rightarrow> bool" where
  "isdigit c \<longleftrightarrow> cval c \<ge> cval (CHR ''0'') \<and> cval c \<le> cval (CHR ''9'')"

section \<open>Comparison and search\<close>

fun memcmp :: "string \<Rightarrow> string \<Rightarrow> nat \<Rightarrow> int option" where
  "memcmp a b 0 = Some 0"
| "memcmp (x # a) (y # b) (Suc n) =
     (if x \<noteq> y then Some (if cval x > cval y then 1 else -1) else memcmp a b n)"
| "memcmp _ _ (Suc n) = None"

fun strncmp :: "string \<Rightarrow> string \<Rightarrow> nat \<Rightarrow> int" where
  "strncmp s1 s2 0 = 0"
| "strncmp s1 s2 (Suc n) =
     (if hd0 s1 \<noteq> hd0 s2 then uval (hd0 s1) - uval (hd0 s2)
      else if hd0 s1 = NUL then 0
      else strncmp (tl s1) (tl s2) n)"

fun strcmp :: "string \<Rightarrow> string \<Rightarrow> int" where
  "strcmp (c # s1) (d # s2) = (if c \<noteq> d then cval c - cval d else strcmp s1 s2)"
| "strcmp (c # s1) [] = 1"
| "strcmp [] (d # s2) = -1"
| "strcmp [] [] = 0"

fun strchr :: "string \<Rightarrow> char \<Rightarrow> string option" where
  "strchr [] c = (if c = NUL then Some [] else None)"
| "strchr (d # s) c = (if d = c then Some (d # s) else strchr s c)"

fun strchrnul :: "string \<Rightarrow> char \<Rightarrow> string" where
  "strchrnul [] c = []"
| "strchrnul (d # s) c = (if d = c then s else strchrnul s c)"

fun strrchr_from :: "string \<Rightarrow> char \<Rightarrow> string option \<Rightarrow> string option" where
  "strrchr_from [] c found = (if c = NUL then Some [] else found)"
| "strrchr_from (d # s) c found = strrchr_from s c (if d = c then Some (d # s) else found)"

definition strrchr :: "string \<Rightarrow> char \<Rightarrow> string option" where
  "strrchr s c = strrchr_from s c None"

definition strncpy :: "string \<Rightarrow> nat \<Rightarrow> string" where
  "strncpy src n = take n src @ replicate (n - length src) NUL"

section \<open>Tokens\<close>

text \<open>\<open>strtok\<close>: the static pointer \<open>last\<close> goes in and out; the result is the token.\<close>

definition strtok :: "string option \<Rightarrow> string \<Rightarrow> string option \<Rightarrow> string option \<times> string option" where
  "strtok str delim saved =
     (case (case str of Some s \<Rightarrow> Some s | None \<Rightarrow> saved) of
        None \<Rightarrow> (None, None)
      | Some p \<Rightarrow>
          let start = dropWhile (\<lambda>c. strchr delim c \<noteq> None) p in
          if start = [] then (None, None)
          else
            let tok = takeWhile (\<lambda>c. strchr delim c = None) start;
                end = dropWhile (\<lambda>c. strchr delim c = None) start
            in (Some tok, case end of [] \<Rightarrow> None | _ # r \<Rightarrow> Some r))"

section \<open>Numbers\<close>

definition digit_value :: "char \<Rightarrow> int option" where
  "digit_value c =
     (if cval c \<ge> cval (CHR ''0'') \<and> cval c \<le> cval (CHR ''9'') then Some (cval c - cval (CHR ''0''))
      else if cval c \<ge> cval (CHR ''A'') \<and> cval c \<le> cval (CHR ''Z'') then Some (cval c - (cval (CHR ''A'') - 10))
      else if cval c \<ge> cval (CHR ''a'') \<and> cval c \<le> cval (CHR ''z'') then Some (cval c - (cval (CHR ''a'') - 10))
      else None)"

text \<open>The digit loop of \<open>strtol\<close>; \<open>any\<close> is unsigned, so the test \<open>any < 0\<close> never holds.\<close>

fun strtol_digits ::
    "int \<Rightarrow> u64 \<Rightarrow> u64 \<Rightarrow> string \<Rightarrow> u64 \<Rightarrow> u64 \<Rightarrow> u64 \<times> u64 \<times> string" where
  "strtol_digits base cutoff cutlim [] any acc = (any, acc, [])"
| "strtol_digits base cutoff cutlim (c # s) any acc =
     (case digit_value c of
        None \<Rightarrow> (any, acc, c # s)
      | Some v \<Rightarrow>
          if v \<ge> base then (any, acc, c # s)
          else if any < 0 \<or> acc > cutoff \<or> (acc = cutoff \<and> of_int v > cutlim)
            then strtol_digits base cutoff cutlim s (-1) acc
          else strtol_digits base cutoff cutlim s 1 (acc * of_int base + of_int v))"

definition hex_digit :: "char \<Rightarrow> bool" where
  "hex_digit c \<longleftrightarrow> (cval c \<ge> cval (CHR ''0'') \<and> cval c \<le> cval (CHR ''9''))
     \<or> (cval c \<ge> cval (CHR ''A'') \<and> cval c \<le> cval (CHR ''F'')) \<or> (cval c \<ge> cval (CHR ''a'') \<and> cval c \<le> cval (CHR ''f''))"

definition strtol :: "string \<Rightarrow> int \<Rightarrow> u64 \<times> string" where
  "strtol str base =
     (let s = dropWhile isspace str;
          neg = (hd0 s = CHR ''-'');
          s = (if neg \<or> hd0 s = CHR ''+'' then tl s else s);
          hex = ((base = 0 \<or> base = 16) \<and> hd0 s = CHR ''0''
                 \<and> (hd0 (tl s) = CHR ''x'' \<or> hd0 (tl s) = CHR ''X'') \<and> hex_digit (hd0 (tl (tl s))));
          s = (if hex then tl (tl s) else s);
          base = (if hex then 16 else base);
          base = (if base = 0 then (if hd0 s = CHR ''0'' then 8 else 10) else base)
      in if base < 2 \<or> base > 36 then (0, str)
         else
           let cutoff = (if neg then 2 ^ 63 else 2 ^ 63 - 1 :: u64);
               cutlim = cutoff mod of_int base;
               cutoff = cutoff div of_int base
           in (case strtol_digits base cutoff cutlim s 0 0 of
                 (any, acc, rest) \<Rightarrow>
                   if any = 0 then (acc, str) else (if neg then - acc else acc, rest)))"

text \<open>\<open>atoi\<close> skips up to the first white space; the scan faults at the end of a string without one.\<close>

fun skip_nonspace :: "string \<Rightarrow> string option" where
  "skip_nonspace [] = None"
| "skip_nonspace (c # s) = (if \<not> isspace c then skip_nonspace s else Some (c # s))"

fun atoi_digits :: "string \<Rightarrow> int \<Rightarrow> int option" where
  "atoi_digits [] acc = Some acc"
| "atoi_digits (c # s) acc =
     (if cval c \<ge> cval (CHR ''0'') \<and> cval c \<le> cval (CHR ''9'') then
        let r = acc * 10 + cval c - cval (CHR ''0'') in
        if r \<ge> 2 ^ 31 then None else atoi_digits s r
      else Some acc)"

definition atoi :: "string option \<Rightarrow> int option" where
  "atoi pstr =
     (case pstr of
        None \<Rightarrow> Some 0
      | Some s \<Rightarrow> do {
          s \<leftarrow> skip_nonspace s;
          let sign = (if hd0 s = CHR ''-'' then -1 else 1);
          r \<leftarrow> atoi_digits (if hd0 s = CHR ''-'' \<or> hd0 s = CHR ''+'' then tl s else s) 0;
          Some (sign * r)
        })"

section \<open>Argument vectors\<close>

text \<open>\<open>build_proc_cmdline\<close> writes the arguments one after the other, each with its NUL.\<close>

definition build_proc_cmdline :: "(nat \<Rightarrow> bool) \<Rightarrow> string list \<Rightarrow> string option \<times> nat" where
  "build_proc_cmdline malloc_ok argv =
     (let total_length = sum_list (map (\<lambda>a. length a + 1) argv) in
      if total_length = 0 then (None, 0)
      else if \<not> malloc_ok total_length then (None, 0)
      else (Some (concat (map (\<lambda>a. a @ [NUL]) argv)), total_length))"

text \<open>
  \<open>restore_argv\<close>: the first \<open>argc\<close> strings of the buffer.  Reading an argument past the end of the
  buffer is a fault.
\<close>

fun split_args :: "(nat \<Rightarrow> bool) \<Rightarrow> nat \<Rightarrow> string \<Rightarrow> string list option option" where
  "split_args malloc_ok 0 buf = Some (Some [])"
| "split_args malloc_ok (Suc n) buf =
     (if buf = [] then Some (Some [])
      else
        let arg = takeWhile (\<lambda>c. c \<noteq> NUL) buf in
        if length arg = length buf then None
        else if \<not> malloc_ok (length arg + 1) then Some None
        else do {
          r \<leftarrow> split_args malloc_ok n (drop (length arg + 1) buf);
          Some (map_option (\<lambda>args. arg # args) r)
        })"

definition restore_argv :: "(nat \<Rightarrow> bool) \<Rightarrow> string option \<Rightarrow> string list option option \<times> nat" where
  "restore_argv malloc_ok cmdline_buf =
     (case cmdline_buf of
        None \<Rightarrow> (Some None, 0)
      | Some buf \<Rightarrow>
          if length buf = 0 then (Some None, 0)
          else
            let argc = length (filter (\<lambda>c. c = NUL) buf) in
            (if malloc_ok (8 * (argc + 1)) then split_args malloc_ok argc buf else Some None, argc))"

section \<open>Paths\<close>

text \<open>\<open>strcat\<close> into a buffer of \<open>cap\<close> bytes.\<close>

definition strcat :: "nat \<Rightarrow> string \<Rightarrow> string \<Rightarrow> string option" where
  "strcat cap dest src = (if length dest + length src + 1 \<le> cap then Some (dest @ src) else None)"

text \<open>\<open>strdup\<close> answers a null pointer for one, and writes through the result of \<open>malloc\<close> without testing it.\<close>

definition strdup :: "(nat \<Rightarrow> bool) \<Rightarrow> string option \<Rightarrow> string option option" where
  "strdup malloc_ok str =
     (case str of None \<Rightarrow> Some None | Some s \<Rightarrow> if malloc_ok (length s + 1) then Some (Some s) else None)"

definition normalize_token :: "nat \<Rightarrow> string \<Rightarrow> string \<Rightarrow> string option" where
  "normalize_token cap result token =
     (if strcmp token ''.'' = 0 then Some result
      else if strcmp token ''..'' = 0 then
        (case strrchr result (CHR ''/'') of
           None \<Rightarrow> None
         | Some last_slash \<Rightarrow>
             if length last_slash \<noteq> length result then Some (take (length result - length last_slash) result)
             else Some (take 1 result))
      else if result = [] then None
      else do {
        result \<leftarrow> (if last result \<noteq> CHR ''/'' then strcat cap result ''/'' else Some result);
        strcat cap result token
      })"

definition saved_size :: "string option \<times> string option \<Rightarrow> nat" where
  "saved_size tk = (case fst tk of None \<Rightarrow> 0 | Some _ \<Rightarrow>
     Suc (case snd tk of None \<Rightarrow> 0 | Some r \<Rightarrow> Suc (length r)))"

lemma strtok_next_size: "saved_size (strtok None delim saved) < saved_size (Some tok, saved)"
proof (cases saved)
  case None
  then show ?thesis by (simp add: strtok_def saved_size_def)
next
  case (Some p)
  define start where "start = dropWhile (\<lambda>c. strchr delim c \<noteq> None) p"
  define rest where "rest = dropWhile (\<lambda>c. strchr delim c = None) start"
  have "length rest \<le> length p" unfolding rest_def start_def
    by (rule le_trans [OF length_dropWhile_le length_dropWhile_le])
  moreover have "saved_size (strtok None delim (Some p)) \<le> Suc (length rest)"
    unfolding strtok_def Let_def option.case start_def [symmetric] rest_def [symmetric]
    by (cases rest) (auto simp: saved_size_def)
  ultimately show ?thesis using Some by (simp add: saved_size_def)
qed

function normalize_tokens :: "nat \<Rightarrow> string \<Rightarrow> string option \<times> string option \<Rightarrow> string option" where
  "normalize_tokens cap result (None, saved) = Some result"
| "normalize_tokens cap result (Some token, saved) = do {
     result \<leftarrow> normalize_token cap result token;
     normalize_tokens cap result (strtok None ''/'' saved)
   }"
  by pat_completeness auto
termination
  by (relation "measure (\<lambda>(cap, result, tk). saved_size tk)") (simp_all add: strtok_next_size)

definition normalize_path :: "(nat \<Rightarrow> bool) \<Rightarrow> string option \<Rightarrow> string option option" where
  "normalize_path malloc_ok path =
     (case path of
        None \<Rightarrow> Some None
      | Some path \<Rightarrow>
          if \<not> malloc_ok (length path + 1) then Some None
          else do {
            copy \<leftarrow> strdup malloc_ok (Some path);
            dup \<leftarrow> copy;
            if length path + 1 < 2 then None
            else if strcmp path ''/'' = 0 then Some (Some ''/'')
            else
              let start = (if hd0 dup = CHR ''/'' then tl dup else dup) in
              map_option Some (normalize_tokens (length path + 1) ''/'' (strtok (Some start) ''/'' None))
          })"

definition get_parent_path :: "(nat \<Rightarrow> bool) \<Rightarrow> string option \<Rightarrow> string option" where
  "get_parent_path malloc_ok path =
     (if path = None \<or> path = Some [] then strdup malloc_ok (Some ''.'') \<bind> id
      else do {
        copy \<leftarrow> strdup malloc_ok path \<bind> id;
        (case strrchr copy (CHR ''/'') of
           Some last_slash \<Rightarrow>
             if length last_slash \<noteq> length copy then Some (take (length copy - length last_slash) copy)
             else Some (take 1 copy)
         | None \<Rightarrow> strdup malloc_ok (Some ''.'') \<bind> id)
      })"

definition pathacat :: "string \<Rightarrow> string \<Rightarrow> string option" where
  "pathacat p1 p2 =
     (if p1 = [] then None
      else if last p1 = CHR ''/'' then Some (p1 @ p2) else Some (p1 @ ''/'' @ p2))"

section \<open>Comparison is equality\<close>

lemma of_char_bounds: "(of_char c :: int) < 256" "0 \<le> (of_char c :: int)"
proof -
  have "(of_char c :: int) = int (of_char c)" by (simp only: of_nat_of_char)
  then show "(of_char c :: int) < 256" "0 \<le> (of_char c :: int)"
    using nat_of_char_less_256 [of c] by linarith+
qed

lemma cval_inject [simp]: "cval c = cval d \<longleftrightarrow> c = d"
proof
  assume "cval c = cval d"
  then have "(of_char c :: int) = of_char d"
    using of_char_bounds [of c] of_char_bounds [of d] unfolding cval_def Let_def
    by (cases "(of_char c :: int) < 128"; cases "(of_char d :: int) < 128") simp_all
  then show "c = d" by simp
qed simp

lemma strcmp_eq_0 [simp]: "strcmp a b = 0 \<longleftrightarrow> a = b"
  by (induction a b rule: strcmp.induct) auto

lemma strrchr_from_split:
  "c \<notin> set s \<Longrightarrow> c \<noteq> NUL \<Longrightarrow> strrchr_from (pre @ c # s) c f = Some (c # s)"
proof (induction pre arbitrary: f)
  case Nil
  have "c \<notin> set s \<Longrightarrow> c \<noteq> NUL \<Longrightarrow> strrchr_from s c f = f" for f by (induction s) auto
  then show ?case using Nil by simp
qed simp

lemma strrchr_split: "c \<notin> set s \<Longrightarrow> c \<noteq> NUL \<Longrightarrow> strrchr (pre @ c # s) c = Some (c # s)"
  by (simp add: strrchr_def strrchr_from_split)

section \<open>Argument vectors\<close>

lemma takeWhile_NUL: "NUL \<notin> set a \<Longrightarrow> takeWhile (\<lambda>c. c \<noteq> NUL) (a @ NUL # r) = a"
  by (induction a) auto

lemma split_args_concat:
  "\<forall>a\<in>set argv. NUL \<notin> set a \<Longrightarrow> \<forall>n. malloc_ok n \<Longrightarrow>
   split_args malloc_ok (length argv) (concat (map (\<lambda>a. a @ [NUL]) argv)) = Some (Some argv)"
  by (induction argv) (auto simp: takeWhile_NUL Let_def)

lemma count_NULs:
  "\<forall>a\<in>set argv. NUL \<notin> set a \<Longrightarrow>
   length (filter (\<lambda>c. c = NUL) (concat (map (\<lambda>a. a @ [NUL]) argv))) = length argv"
  by (induction argv) (auto simp: filter_empty_conv)

lemma argv_roundtrip:
  assumes "argv \<noteq> []" "\<forall>a\<in>set argv. NUL \<notin> set a" "\<forall>n. malloc_ok n"
  shows "restore_argv malloc_ok (fst (build_proc_cmdline malloc_ok argv)) = (Some (Some argv), length argv)"
proof -
  have m: "malloc_ok = (\<lambda>_. True)" using assms(3) by auto
  have "sum_list (map (\<lambda>a. length a + 1) argv) \<noteq> 0" using assms(1) by (cases argv) auto
  moreover have "concat (map (\<lambda>a. a @ [NUL]) argv) \<noteq> []" using assms(1) by (cases argv) auto
  ultimately show ?thesis
    using assms(1) split_args_concat [OF assms(2,3)] count_NULs [OF assms(2)]
    by (simp add: build_proc_cmdline_def restore_argv_def Let_def m)
qed

section \<open>Path normalisation against its specification\<close>

text \<open>The components of a path, and the stack they resolve to.\<close>

fun split_slash :: "string \<Rightarrow> string list" where
  "split_slash [] = [[]]"
| "split_slash (c # s) =
     (if c = CHR ''/'' then [] # split_slash s
      else case split_slash s of w # ws \<Rightarrow> (c # w) # ws | [] \<Rightarrow> [[c]])"

definition components :: "string \<Rightarrow> string list" where
  "components p = filter (\<lambda>c. c \<noteq> []) (split_slash p)"

definition resolve_step :: "string list \<Rightarrow> string \<Rightarrow> string list" where
  "resolve_step st t = (if t = ''.'' then st else if t = ''..'' then butlast st else st @ [t])"

definition resolve :: "string list \<Rightarrow> string list" where
  "resolve ts = foldl resolve_step [] ts"

definition render :: "string list \<Rightarrow> string" where
  "render st = (if st = [] then ''/'' else concat (map (\<lambda>c. CHR ''/'' # c) st))"

definition plain :: "string \<Rightarrow> bool" where
  "plain t \<longleftrightarrow> t \<noteq> [] \<and> CHR ''/'' \<notin> set t \<and> NUL \<notin> set t"

lemma split_slash_nonempty [simp]: "split_slash s \<noteq> []"
  by (induction s) (auto split: list.splits)

lemma components_slash [simp]: "components (CHR ''/'' # s) = components s" "components [] = []"
  by (simp_all add: components_def)

lemma components_word:
  assumes "w \<noteq> []" "CHR ''/'' \<notin> set w"
  shows "components w = [w]" "components (w @ CHR ''/'' # s) = w # components s"
proof -
  have a: "CHR ''/'' \<notin> set w \<Longrightarrow> split_slash w = [w]" for w by (induction w) auto
  show "components w = [w]" using a [OF assms(2)] assms(1) by (simp add: components_def)
  have b: "CHR ''/'' \<notin> set w \<Longrightarrow> split_slash (w @ CHR ''/'' # s) = w # split_slash s" for w
    by (induction w) auto
  show "components (w @ CHR ''/'' # s) = w # components s"
    using b [OF assms(2)] assms(1) by (simp add: components_def)
qed

lemma components_dropWhile: "components (dropWhile (\<lambda>c. c = CHR ''/'') p) = components p"
  by (induction p) auto

lemma delim_slash: "c \<noteq> NUL \<Longrightarrow> strchr ''/'' c = None \<longleftrightarrow> c \<noteq> CHR ''/''"
  by auto

text \<open>One call of \<open>strtok\<close> takes one component off.\<close>

definition saved_components :: "string option \<Rightarrow> string list" where
  "saved_components sv = (case sv of None \<Rightarrow> [] | Some p \<Rightarrow> components p)"

lemma strtok_component:
  assumes nul: "NUL \<notin> set p" and tk: "strtok str ''/'' saved = (tok, saved')"
    and p: "str = Some p \<or> (str = None \<and> saved = Some p)"
  shows "(case tok of None \<Rightarrow> components p = []
      | Some t \<Rightarrow> components p = t # saved_components saved' \<and> plain t) \<and>
    (\<forall>q. saved' = Some q \<longrightarrow> NUL \<notin> set q)"
proof -
  define start where "start = dropWhile (\<lambda>c. c = CHR ''/'') p"
  define w where "w = takeWhile (\<lambda>c. c \<noteq> CHR ''/'') start"
  define rest where "rest = dropWhile (\<lambda>c. c \<noteq> CHR ''/'') start"
  have sub: "set start \<subseteq> set p" unfolding start_def by (auto dest: set_dropWhileD)
  then have nul': "NUL \<notin> set start" using nul by auto
  have s: "dropWhile (\<lambda>c. strchr ''/'' c \<noteq> None) p = start"
    unfolding start_def using nul by (intro dropWhile_cong) (auto simp: delim_slash)
  have w': "takeWhile (\<lambda>c. strchr ''/'' c = None) start = w"
    unfolding w_def using nul' by (intro takeWhile_cong) (auto simp: delim_slash)
  have r': "dropWhile (\<lambda>c. strchr ''/'' c = None) start = rest"
    unfolding rest_def using nul' by (intro dropWhile_cong) (auto simp: delim_slash)
  have tok: "(tok, saved') = (if start = [] then (None, None)
      else (Some w, case rest of [] \<Rightarrow> None | _ # r \<Rightarrow> Some r))"
  proof -
    have "strtok str ''/'' saved = (if dropWhile (\<lambda>c. strchr ''/'' c \<noteq> None) p = [] then (None, None)
      else (Some (takeWhile (\<lambda>c. strchr ''/'' c = None) (dropWhile (\<lambda>c. strchr ''/'' c \<noteq> None) p)),
        case dropWhile (\<lambda>c. strchr ''/'' c = None) (dropWhile (\<lambda>c. strchr ''/'' c \<noteq> None) p) of
          [] \<Rightarrow> None | _ # r \<Rightarrow> Some r))"
      using p unfolding strtok_def Let_def by (elim disjE conjE) (simp_all only: option.case)
    then show ?thesis unfolding tk s w' r' .
  qed
  have comp: "components p = components start" by (simp add: start_def components_dropWhile)
  have cat: "start = w @ rest" by (simp add: w_def rest_def)
  have rest_hd: "rest = CHR ''/'' # tl rest" if "rest \<noteq> []"
    using that hd_dropWhile [of "\<lambda>c. c \<noteq> CHR ''/''" start] by (cases rest) (auto simp: rest_def)
  show ?thesis
  proof (cases "start = []")
    case True
    then show ?thesis using tok comp by simp
  next
    case False
    then have "hd start \<noteq> CHR ''/''" unfolding start_def by (rule hd_dropWhile)
    then have w: "w \<noteq> []" "CHR ''/'' \<notin> set w"
      using False by (cases start, auto simp: w_def dest: set_takeWhileD)
    have "plain w" using w nul' cat by (simp add: plain_def)
    show ?thesis
    proof (cases "rest = []")
      case True
      then show ?thesis
        using tok False comp cat components_word(1) [OF w] \<open>plain w\<close> by (simp add: saved_components_def)
    next
      case r: False
      then obtain q where q: "rest = CHR ''/'' # q" using rest_hd by blast
      then have "NUL \<notin> set q" using nul' cat by simp
      then show ?thesis
        using tok False comp cat components_word(2) [OF w, of q] q \<open>plain w\<close> by (simp add: saved_components_def)
    qed
  qed
qed

text \<open>Each token does to the rendered stack what it does to the stack, while there is room.\<close>

definition weight :: "string list \<Rightarrow> nat" where
  "weight ts = sum_list (map (\<lambda>t. length t + 1) ts)"

lemma weight_simps [simp]: "weight [] = 0" "weight (t # ts) = length t + 1 + weight ts"
    "weight (xs @ ys) = weight xs + weight ys"
  by (simp_all add: weight_def)

lemma length_render: "st \<noteq> [] \<Longrightarrow> length (render st) = weight st"
  by (simp add: render_def weight_def length_concat comp_def)

lemma render_snoc: "render (st @ [t]) = (if st = [] then [] else render st) @ CHR ''/'' # t"
  by (simp add: render_def)

lemma render_last:
  assumes "\<forall>t\<in>set st. plain t"
  shows "render st \<noteq> []" "last (render st) = CHR ''/'' \<longleftrightarrow> st = []"
proof -
  show "render st \<noteq> []" by (cases st) (auto simp: render_def)
  show "last (render st) = CHR ''/'' \<longleftrightarrow> st = []"
  proof (cases st rule: rev_cases)
    case (snoc st' t)
    then have t: "t \<noteq> []" "CHR ''/'' \<notin> set t" using assms by (auto simp: plain_def)
    then have "last (render st) = last t" by (simp add: snoc render_snoc)
    moreover have "last t \<noteq> CHR ''/''" using t(2) last_in_set [OF t(1)] by metis
    ultimately show ?thesis by (simp add: snoc)
  qed (simp add: render_def)
qed

lemma plain_resolve_step: "\<forall>t\<in>set st. plain t \<Longrightarrow> plain t \<Longrightarrow> \<forall>u\<in>set (resolve_step st t). plain u"
  by (auto simp: resolve_step_def dest: in_set_butlastD)

lemma weight_resolve_step: "weight (resolve_step st t) \<le> weight st + (length t + 1)"
  by (cases st rule: rev_cases) (auto simp: resolve_step_def)

lemma normalize_token_spec:
  assumes st: "\<forall>u\<in>set st. plain u" and t: "plain t" and room: "weight st + length t + 2 \<le> cap"
  shows "normalize_token cap (render st) t = Some (render (resolve_step st t))"
proof -
  consider (dot) "t = ''.''" | (up) "t = ''..''" | (name) "t \<noteq> ''.''" "t \<noteq> ''..''" by blast
  then show ?thesis
  proof cases
    case dot
    then show ?thesis by (simp add: normalize_token_def resolve_step_def)
  next
    case up
    show ?thesis
    proof (cases st rule: rev_cases)
      case Nil
      have "strrchr ''/'' (CHR ''/'') = Some ''/''" using strrchr_split [of "CHR ''/''" "[]" "[]"] by simp
      then show ?thesis using up Nil by (simp add: normalize_token_def resolve_step_def render_def)
    next
      case (snoc st' u)
      have "CHR ''/'' \<notin> set u" using st by (auto simp: snoc plain_def)
      then have "strrchr (render st) (CHR ''/'') = Some (CHR ''/'' # u)"
        unfolding snoc render_snoc by (rule strrchr_split) simp
      moreover have "render [] = ''/''" by (simp add: render_def)
      ultimately show ?thesis
        using up render_last(1) [of st'] st snoc
        by (auto simp: normalize_token_def resolve_step_def render_snoc)
    qed
  next
    case name
    have ne: "render st \<noteq> []" using render_last(1) [OF st] .
    show ?thesis
    proof (cases "st = []")
      case True
      then show ?thesis using name room
        by (simp add: normalize_token_def resolve_step_def render_def strcat_def)
    next
      case False
      then have "last (render st) \<noteq> CHR ''/''" using render_last(2) [OF st] by simp
      moreover have "length (render st) = weight st" using length_render [OF False] .
      ultimately show ?thesis using name room ne False
        by (simp add: normalize_token_def resolve_step_def strcat_def render_snoc)
    qed
  qed
qed

lemma normalize_tokens_spec:
  assumes "\<forall>u\<in>set st. plain u" "\<forall>q. saved = Some q \<longrightarrow> NUL \<notin> set q" "\<forall>t. tok = Some t \<longrightarrow> plain t"
    and "weight st + weight (case tok of None \<Rightarrow> [] | Some t \<Rightarrow> t # saved_components saved) + 1 \<le> cap"
  shows "normalize_tokens cap (render st) (tok, saved) =
    Some (render (foldl resolve_step st (case tok of None \<Rightarrow> [] | Some t \<Rightarrow> t # saved_components saved)))"
  using assms
proof (induction "saved_size (tok, saved)" arbitrary: st tok saved rule: less_induct)
  case less
  show ?case
  proof (cases tok)
    case None
    then show ?thesis by simp
  next
    case (Some t)
    let ?st = "resolve_step st t"
    have t: "plain t" using less.prems(3) Some by simp
    have tk: "normalize_token cap (render st) t = Some (render ?st)"
      using less.prems(1,4) Some t by (intro normalize_token_spec) simp_all
    obtain tok' saved' where nx: "strtok None ''/'' saved = (tok', saved')" by fastforce
    have sz: "saved_size (tok', saved') < saved_size (tok, saved)"
      using strtok_next_size [of "''/''" saved t] nx Some by simp
    have comps: "(case tok' of None \<Rightarrow> [] | Some t \<Rightarrow> t # saved_components saved') = saved_components saved"
      and pl: "\<forall>t. tok' = Some t \<longrightarrow> plain t" and nul: "\<forall>q. saved' = Some q \<longrightarrow> NUL \<notin> set q"
    proof -
      have *: "(case tok' of None \<Rightarrow> [] | Some t \<Rightarrow> t # saved_components saved') = saved_components saved \<and>
        (\<forall>t. tok' = Some t \<longrightarrow> plain t) \<and> (\<forall>q. saved' = Some q \<longrightarrow> NUL \<notin> set q)"
      proof (cases saved)
        case None
        then show ?thesis using nx by (auto simp: strtok_def saved_components_def)
      next
        case (Some p)
        then show ?thesis using strtok_component [OF _ nx, of p] less.prems(2)
          by (auto simp: saved_components_def split: option.splits)
      qed
      then show "(case tok' of None \<Rightarrow> [] | Some t \<Rightarrow> t # saved_components saved') = saved_components saved"
        "\<forall>t. tok' = Some t \<longrightarrow> plain t" "\<forall>q. saved' = Some q \<longrightarrow> NUL \<notin> set q" by blast+
    qed
    have "weight ?st + weight (case tok' of None \<Rightarrow> [] | Some t \<Rightarrow> t # saved_components saved') + 1 \<le> cap"
      using less.prems(4) weight_resolve_step [of st t] Some unfolding comps by simp
    then have "normalize_tokens cap (render ?st) (tok', saved') =
        Some (render (foldl resolve_step ?st (saved_components saved)))"
      using less.hyps [OF sz plain_resolve_step [OF less.prems(1) t] nul pl] unfolding comps by blast
    then show ?thesis using tk nx Some by simp
  qed
qed

lemma weight_components: "weight (components p) \<le> length p + 1"
proof -
  have "weight (split_slash p) = length p + 1"
    by (induction p) (auto split: list.splits)
  moreover have "weight (filter (\<lambda>c. c \<noteq> []) ws) \<le> weight ws" for ws by (induction ws) auto
  ultimately show ?thesis unfolding components_def by metis
qed

lemma normalize_path_spec:
  assumes "NUL \<notin> set p" "\<forall>n. malloc_ok n"
  shows "normalize_path malloc_ok (Some (CHR ''/'' # p)) = Some (Some (render (resolve (components p))))"
proof -
  have m: "malloc_ok = (\<lambda>_. True)" using assms(2) by auto
  obtain tok saved where tk: "strtok (Some p) ''/'' None = (tok, saved)" by fastforce
  note c = strtok_component [OF assms(1) tk]
  have comps: "(case tok of None \<Rightarrow> [] | Some t \<Rightarrow> t # saved_components saved) = components p"
    and pl: "\<forall>t. tok = Some t \<longrightarrow> plain t" and nul: "\<forall>q. saved = Some q \<longrightarrow> NUL \<notin> set q"
    using c by (auto split: option.splits)
  have "normalize_tokens (length p + 2) (render []) (tok, saved) = Some (render (resolve (components p)))"
    using normalize_tokens_spec [of "[]" saved tok "length p + 2"] nul pl weight_components [of p]
    unfolding comps resolve_def by simp
  then show ?thesis using tk
    by (auto simp: normalize_path_def strdup_def m render_def resolve_def Let_def)
qed

lemma components_plain: "NUL \<notin> set p \<Longrightarrow> t \<in> set (components p) \<Longrightarrow> plain t"
proof -
  assume "NUL \<notin> set p"
  then have "\<forall>t\<in>set (split_slash p). CHR ''/'' \<notin> set t \<and> NUL \<notin> set t"
    by (induction p) (auto split: list.splits)
  then show "t \<in> set (components p) \<Longrightarrow> plain t" by (auto simp: components_def plain_def)
qed

definition resolved :: "string list \<Rightarrow> bool" where
  "resolved st \<longleftrightarrow> (\<forall>t\<in>set st. plain t \<and> t \<noteq> ''.'' \<and> t \<noteq> ''..'')"

lemma foldl_resolved: "resolved st \<Longrightarrow> \<forall>t\<in>set ts. plain t \<Longrightarrow> resolved (foldl resolve_step st ts)"
proof (induction ts arbitrary: st)
  case (Cons t ts)
  have "resolved (resolve_step st t)"
    using Cons.prems by (auto simp: resolved_def resolve_step_def dest: in_set_butlastD)
  then show ?case using Cons by simp
qed simp

lemma resolve_resolved: "resolved ts \<Longrightarrow> resolve ts = ts"
proof -
  have "resolved ts \<Longrightarrow> foldl resolve_step st ts = st @ ts" for st
    by (induction ts arbitrary: st) (auto simp: resolved_def resolve_step_def)
  then show "resolved ts \<Longrightarrow> resolve ts = ts" by (simp add: resolve_def)
qed

lemma components_render: "\<forall>t\<in>set st. plain t \<Longrightarrow> components (render st) = st"
proof -
  have "\<forall>t\<in>set st. plain t \<Longrightarrow> components (concat (map (\<lambda>c. CHR ''/'' # c) st)) = st"
  proof (induction st)
    case (Cons t st)
    then have t: "t \<noteq> []" "CHR ''/'' \<notin> set t" by (auto simp: plain_def)
    show ?case
      using Cons components_word(1) [OF t] components_word(2) [OF t] by (cases st) auto
  qed simp
  then show "\<forall>t\<in>set st. plain t \<Longrightarrow> components (render st) = st" by (simp add: render_def)
qed

lemma render_slash: "\<exists>q. render st = CHR ''/'' # q \<and> (NUL \<notin> set q \<longleftrightarrow> NUL \<notin> set (render st))"
  by (cases st) (auto simp: render_def)

lemma normalize_path_again:
  assumes "resolved st" "\<forall>n. malloc_ok n"
  shows "normalize_path malloc_ok (Some (render st)) = Some (Some (render st))"
proof -
  obtain q where q: "render st = CHR ''/'' # q" "NUL \<notin> set q \<longleftrightarrow> NUL \<notin> set (render st)" using render_slash by blast
  have pl: "\<forall>t\<in>set st. plain t" using assms(1) by (auto simp: resolved_def)
  then have "NUL \<notin> set (render st)" by (auto simp: render_def plain_def)
  then have n: "NUL \<notin> set q" using q(2) by simp
  have "components q = st" using components_render [OF pl] q(1) by simp
  then show ?thesis
    using normalize_path_spec [OF n assms(2)] resolve_resolved [OF assms(1)] q(1) by simp
qed

section \<open>Decimal numbers\<close>

definition digit_char :: "nat \<Rightarrow> char" where
  "digit_char d = char_of (48 + d)"

fun decimal_value :: "nat list \<Rightarrow> nat \<Rightarrow> nat" where
  "decimal_value [] acc = acc"
| "decimal_value (d # ds) acc = decimal_value ds (acc * 10 + d)"

lemma of_char_digit: "d < 10 \<Longrightarrow> (of_char (digit_char d) :: int) = 48 + int d"
proof -
  assume "d < 10"
  then have "(of_char (digit_char d) :: nat) = 48 + d" by (simp add: digit_char_def)
  then have "int (of_char (digit_char d)) = 48 + int d" by simp
  then show ?thesis by (simp only: of_nat_of_char)
qed

lemma digit_value_digit: "d < 10 \<Longrightarrow> digit_value (digit_char d) = Some (int d)"
  by (simp add: digit_value_def cval_def of_char_digit)

lemma decimal_value_mono: "acc \<le> decimal_value ds acc"
proof (induction ds arbitrary: acc)
  case (Cons d ds)
  have "acc \<le> acc * 10 + d" by simp
  then show ?case using Cons [of "acc * 10 + d"] by simp
qed simp

text \<open>Up to \<open>LONG_MAX\<close> the digit loop of \<open>strtol\<close> computes the decimal value.\<close>

lemma strtol_digits_decimal:
  assumes "\<forall>d\<in>set ds. d < 10" "decimal_value ds (unat acc) \<le> 2 ^ 63 - 1"
    and "digit_value (hd0 rest) = None"
  shows "strtol_digits 10 ((2 ^ 63 - 1) div 10) ((2 ^ 63 - 1) mod 10) (map digit_char ds @ rest) any acc =
    (if ds = [] then any else 1, of_nat (decimal_value ds (unat acc)), rest)"
  using assms
proof (induction ds arbitrary: any acc)
  case Nil
  then show ?case by (cases rest) auto
next
  case (Cons d ds)
  have d: "d < 10" using Cons.prems(1) by simp
  have "unat acc * 10 + d \<le> 2 ^ 63 - 1"
    using Cons.prems(2) decimal_value_mono [of "unat acc * 10 + d" ds] by simp
  then have small: "unat acc * 10 + d \<le> 9223372036854775807" by simp
  have lim: "((2 ^ 63 - 1) div 10 :: u64) = 922337203685477580" "((2 ^ 63 - 1) mod 10 :: u64) = 7"
    by simp_all
  have nov: "\<not> (any < 0 \<or> acc > (2 ^ 63 - 1) div 10 \<or> (acc = (2 ^ 63 - 1) div 10 \<and> of_int (int d) > ((2 ^ 63 - 1) mod 10 :: u64)))"
    using small d unfolding lim by (auto simp: word_less_nat_alt unat_of_nat)
  have acc: "unat (acc * of_int 10 + of_int (int d)) = unat acc * 10 + d"
    using small d by (simp add: unat_word_ariths unat_of_nat)
  show ?case
    using Cons.IH [of "acc * of_int 10 + of_int (int d)" 1] Cons.prems d acc digit_value_digit [OF d]
    by (simp only: list.map append_Cons strtol_digits.simps option.case nov if_False decimal_value.simps) simp
qed

lemma digit_char_neq:
  assumes "d < 10"
  shows "\<not> isspace (digit_char d)" "digit_char d \<noteq> CHR ''-''" "digit_char d \<noteq> CHR ''+''"
proof -
  have ne: "digit_char d \<noteq> c" if "(of_char c :: int) < 48 \<or> 57 < (of_char c :: int)" for c
    using that of_char_digit [OF assms] assms by auto
  show "\<not> isspace (digit_char d)" "digit_char d \<noteq> CHR ''-''" "digit_char d \<noteq> CHR ''+''"
    using ne by (simp_all add: isspace_def)
qed

lemma strtol_decimal:
  assumes "ds \<noteq> []" "\<forall>d\<in>set ds. d < 10" "decimal_value ds 0 \<le> 2 ^ 63 - 1" "digit_value (hd0 rest) = None"
  shows "strtol (map digit_char ds @ rest) 10 = (of_nat (decimal_value ds 0), rest)"
proof -
  obtain d es where ds: "ds = d # es" and d: "d < 10" using assms(1,2) by (cases ds) auto
  note ne = digit_char_neq [OF d]
  have "dropWhile isspace (map digit_char ds @ rest) = map digit_char ds @ rest"
    "hd0 (map digit_char ds @ rest) = digit_char d" using ne ds by simp_all
  moreover have "strtol_digits 10 ((2 ^ 63 - 1) div 10) ((2 ^ 63 - 1) mod 10) (map digit_char ds @ rest) 0 0 =
      (1, of_nat (decimal_value ds 0), rest)"
    using strtol_digits_decimal [OF assms(2) _ assms(4), of 0 0] assms(1,3) by simp
  ultimately show ?thesis using ne by (simp add: strtol_def Let_def)
qed

section \<open>Properties\<close>

text \<open>
  A process command line survives its packed form: restoring the arguments from the bytes that
  \<open>build_proc_cmdline\<close> wrote gives back the same argument vector and count.
\<close>

theorem cmdline_roundtrip:
  assumes "argv \<noteq> []" "\<forall>a\<in>set argv. NUL \<notin> set a" "\<forall>n. malloc_ok n"
  shows "restore_argv malloc_ok (fst (build_proc_cmdline malloc_ok argv)) = (Some (Some argv), length argv)"
  using argv_roundtrip [OF assms] .

theorem cmdline_roundtrip_witness:
  "restore_argv (\<lambda>n. True) (fst (build_proc_cmdline (\<lambda>n. True) [''sh'', '''', ''-c''])) = (Some (Some [''sh'', '''', ''-c'']), 3)"
  using cmdline_roundtrip [of "[''sh'', '''', ''-c'']" "\<lambda>n. True"] by simp

text \<open>
  \<open>normalize_path\<close> computes the canonical form of every absolute path: empty and \<open>.\<close> components vanish, \<open>..\<close> removes the
  component before it and stays at the root, and the buffer it allocates is large enough.
\<close>

theorem normalize_path_canonical:
  assumes "NUL \<notin> set p" "\<forall>n. malloc_ok n"
  shows "normalize_path malloc_ok (Some (CHR ''/'' # p)) = Some (Some (render (resolve (components p))))"
  using normalize_path_spec [OF assms] .

theorem normalize_path_canonical_witness:
  "normalize_path (\<lambda>n. True) (Some ''/a//./b/../c/'') = Some (Some ''/a/c'')"
  using normalize_path_canonical [of "''a//./b/../c/''" "\<lambda>n. True"]
  by (simp add: components_def resolve_def resolve_step_def render_def)

text \<open>
  Normalising twice is normalising once: the result of \<open>normalize_path\<close> on an absolute path is a fixed point.
\<close>

theorem normalize_path_idempotent:
  assumes "NUL \<notin> set p" "\<forall>n. malloc_ok n" "normalize_path malloc_ok (Some (CHR ''/'' # p)) = Some (Some r)"
  shows "normalize_path malloc_ok (Some r) = Some (Some r)"
proof -
  have "resolved (resolve (components p))"
    unfolding resolve_def using components_plain [OF assms(1)] by (intro foldl_resolved) (auto simp: resolved_def)
  then show ?thesis using normalize_path_again [OF _ assms(2)] normalize_path_spec [OF assms(1,2)] assms(3) by simp
qed

theorem normalize_path_idempotent_witness:
  "normalize_path (\<lambda>n. True) (Some ''/a/c'') = Some (Some ''/a/c'')"
proof -
  have "normalize_path (\<lambda>n. True) (Some (CHR ''/'' # ''a/b/../c'')) = Some (Some ''/a/c'')"
    using normalize_path_spec [of "''a/b/../c''" "\<lambda>n. True"] by (simp add: components_def resolve_def resolve_step_def render_def)
  from normalize_path_idempotent [OF _ _ this] show ?thesis by simp
qed

text \<open>
  \<open>strtol\<close> in base 10 reads back every decimal numeral up to \<open>LONG_MAX\<close> and stops at the first character that is not a
  digit.
\<close>

theorem strtol_reads_decimal:
  assumes "ds \<noteq> []" "\<forall>d\<in>set ds. d < 10" "decimal_value ds 0 \<le> 2 ^ 63 - 1" "digit_value (hd0 rest) = None"
  shows "strtol (map digit_char ds @ rest) 10 = (of_nat (decimal_value ds 0), rest)"
  using strtol_decimal [OF assms] .

theorem strtol_reads_decimal_witness: "strtol ''4096 kB'' 10 = (4096, '' kB'')"
proof -
  have "digit_value (hd0 '' kB'') = None" by code_simp
  moreover have "map digit_char [4, 0, 9, 6] = ''4096''" by code_simp
  ultimately show ?thesis using strtol_reads_decimal [of "[4, 0, 9, 6]" "'' kB''"] by simp
qed

end
