(* ===== verification/Bootarg.thy ===== *)
theory Bootarg
  imports Krlibc
begin

text \<open>
  The kernel command line (\<^verbatim>\<open>src/src/util/bootarg.c\<close>): up to 32 parameters \<open>key=value\<close>, cut to 19 and
  49 characters.  The table \<open>params\<close> with \<open>param_count\<close> is the list of the entries in use.
\<close>

section \<open>Definitions\<close>

abbreviation MAX_PARAMS :: nat where "MAX_PARAMS \<equiv> 32"

record boot_param =
  bp_key :: string
  bp_value :: string

text \<open>One round of the parse loop, at a character that is not a space.\<close>

definition parse_param :: "string \<Rightarrow> boot_param \<times> string" where
  "parse_param p =
     (let key = takeWhile (\<lambda>c. c \<noteq> CHR ''='' \<and> c \<noteq> CHR '' '') p;
          p = dropWhile (\<lambda>c. c \<noteq> CHR ''='' \<and> c \<noteq> CHR '' '') p;
          key_len = (if length key \<ge> 20 then 20 - 1 else length key)
      in if hd0 p = CHR ''='' then
           let p = tl p;
               val = takeWhile (\<lambda>c. c \<noteq> CHR '' '') p;
               p = dropWhile (\<lambda>c. c \<noteq> CHR '' '') p;
               val_len = (if length val \<ge> 50 then 50 - 1 else length val)
           in (\<lparr>bp_key = take key_len key, bp_value = take val_len val\<rparr>, p)
         else (\<lparr>bp_key = take key_len key, bp_value = []\<rparr>, p))"

function parse_params :: "nat \<Rightarrow> string \<Rightarrow> boot_param list" where
  "parse_params param_count p =
     (if p \<noteq> [] \<and> param_count < MAX_PARAMS then
        let p = dropWhile (\<lambda>c. c = CHR '' '') p in
        if p = [] then []
        else case parse_param p of (param, p) \<Rightarrow> param # parse_params (param_count + 1) p
      else [])"
  by pat_completeness auto
termination
  by (relation "measure (\<lambda>(param_count, p). MAX_PARAMS - param_count)") auto

declare parse_params.simps [simp del]

definition boot_parse_cmdline :: "string option \<Rightarrow> boot_param list" where
  "boot_parse_cmdline cmdline = (case cmdline of None \<Rightarrow> [] | Some s \<Rightarrow> if s = [] then [] else parse_params 0 s)"

primrec boot_get_cmdline_param :: "boot_param list \<Rightarrow> string \<Rightarrow> string option" where
  "boot_get_cmdline_param [] key = None"
| "boot_get_cmdline_param (q # params) key =
     (if strcmp (bp_key q) key = 0 then Some (bp_value q) else boot_get_cmdline_param params key)"

section \<open>Parsing what was printed\<close>

definition show_param :: "boot_param \<Rightarrow> string" where
  "show_param q = bp_key q @ CHR ''='' # bp_value q"

definition param_ok :: "boot_param \<Rightarrow> bool" where
  "param_ok q \<longleftrightarrow> length (bp_key q) < 20 \<and> length (bp_value q) < 50 \<and>
     CHR ''='' \<notin> set (bp_key q) \<and> CHR '' '' \<notin> set (bp_key q) \<and> CHR '' '' \<notin> set (bp_value q)"

fun show_params :: "boot_param list \<Rightarrow> string" where
  "show_params [] = []"
| "show_params (q # ps) = show_param q @ (if ps = [] then [] else CHR '' '' # show_params ps)"

lemma takeWhile_append_stop: "\<forall>x\<in>set a. P x \<Longrightarrow> \<not> P c \<Longrightarrow> takeWhile P (a @ c # r) = a"
  by (induction a) auto

lemma dropWhile_append_stop: "\<forall>x\<in>set a. P x \<Longrightarrow> \<not> P c \<Longrightarrow> dropWhile P (a @ c # r) = c # r"
  by (induction a) auto

lemma parse_param_show:
  assumes "param_ok q" "r = [] \<or> hd r = CHR '' ''"
  shows "parse_param (show_param q @ r) = (q, r)"
proof -
  let ?P = "\<lambda>c. c \<noteq> CHR ''='' \<and> c \<noteq> CHR '' ''" and ?Q = "\<lambda>c. c \<noteq> CHR '' ''"
  have k: "\<forall>c\<in>set (bp_key q). ?P c" "\<forall>c\<in>set (bp_value q). ?Q c" using assms(1) by (auto simp: param_ok_def)
  have "takeWhile ?P (show_param q @ r) = bp_key q"
    "dropWhile ?P (show_param q @ r) = CHR ''='' # bp_value q @ r"
    using takeWhile_append_stop [OF k(1)] dropWhile_append_stop [OF k(1)] by (simp_all add: show_param_def)
  moreover have "takeWhile ?Q (bp_value q @ r) = bp_value q" "dropWhile ?Q (bp_value q @ r) = r"
    using k(2) assms(2) by (cases r; auto simp: takeWhile_append dropWhile_append dest: bspec)+
  ultimately show ?thesis using assms(1) by (simp add: parse_param_def param_ok_def)
qed

lemma show_param_start:
  "param_ok q \<Longrightarrow> show_param q \<noteq> [] \<and> hd (show_param q) \<noteq> CHR '' ''"
  by (cases "bp_key q") (auto simp: show_param_def param_ok_def)

lemma parse_params_show:
  "\<forall>q\<in>set ps. param_ok q \<Longrightarrow> n + length ps \<le> MAX_PARAMS \<Longrightarrow>
   parse_params n (show_params ps) = ps \<and> parse_params n (CHR '' '' # show_params ps) = ps"
proof (induction ps arbitrary: n)
  case Nil
  then show ?case by (simp add: parse_params.simps [of n])
next
  case (Cons q ps)
  let ?r = "if ps = [] then [] else CHR '' '' # show_params ps"
  have q: "param_ok q" using Cons.prems by simp
  have start: "show_params (q # ps) \<noteq> []" "hd (show_params (q # ps)) \<noteq> CHR '' ''"
    using show_param_start [OF q] by auto
  then have drop: "dropWhile (\<lambda>c. c = CHR '' '') (show_params (q # ps)) = show_params (q # ps)"
    "dropWhile (\<lambda>c. c = CHR '' '') (CHR '' '' # show_params (q # ps)) = show_params (q # ps)"
    by (simp_all add: dropWhile_eq_self_iff)
  have pp: "parse_param (show_params (q # ps)) = (q, ?r)"
    using parse_param_show [OF q, of ?r] by simp
  have rest: "parse_params (n + 1) ?r = ps"
    using Cons.IH [of "n + 1"] Cons.prems by (cases ps) (simp_all add: parse_params.simps)
  have "n < MAX_PARAMS" using Cons.prems by simp
  then have "parse_params n s = q # ps"
    if "s \<noteq> []" "dropWhile (\<lambda>c. c = CHR '' '') s = show_params (q # ps)" for s
    using that start pp rest by (subst parse_params.simps) (simp only: Let_def, simp)
  then show ?case using drop start by simp
qed

lemma boot_parse_show:
  "\<forall>q\<in>set ps. param_ok q \<Longrightarrow> length ps \<le> MAX_PARAMS \<Longrightarrow> boot_parse_cmdline (Some (show_params ps)) = ps"
  using parse_params_show [of ps 0] show_param_start
  by (cases ps) (auto simp: boot_parse_cmdline_def)

lemma parse_params_length: "n + length (parse_params n p) \<le> max n MAX_PARAMS"
proof (induction n p rule: parse_params.induct)
  case (1 n p)
  then show ?case by (subst parse_params.simps) (auto simp: Let_def split: prod.splits)
qed

text \<open>Every entry fits its field of the table.\<close>

lemma parse_param_fits: "length (bp_key (fst (parse_param p))) < 20 \<and> length (bp_value (fst (parse_param p))) < 50"
  by (auto simp: parse_param_def Let_def)

lemma parse_params_fits: "q \<in> set (parse_params n p) \<Longrightarrow> length (bp_key q) < 20 \<and> length (bp_value q) < 50"
proof (induction n p rule: parse_params.induct)
  case (1 n p)
  let ?p = "dropWhile (\<lambda>c. c = CHR '' '') p"
  obtain param r where pr: "parse_param ?p = (param, r)" by fastforce
  have fit: "length (bp_key param) < 20 \<and> length (bp_value param) < 50" using parse_param_fits [of ?p] pr by simp
  have "p \<noteq> [] \<and> n < MAX_PARAMS \<and> ?p \<noteq> [] \<and> (q = param \<or> q \<in> set (parse_params (n + 1) r))"
    using "1.prems" pr unfolding parse_params.simps [of n p] Let_def by (simp split: if_splits)
  then have c: "p \<noteq> [] \<and> n < MAX_PARAMS" "?p \<noteq> []" and m: "q = param \<or> q \<in> set (parse_params (n + 1) r)"
    by blast+
  show ?case using m fit "1.IH" [OF c(1) refl c(2) pr [symmetric]] by blast
qed

section \<open>Properties\<close>

text \<open>
  Kernel command line round trip: parsing the printed form of at most \<open>MAX_PARAMS\<close> parameters whose keys and values fit
  their buffers gives the parameters back, in order.
\<close>

theorem boot_cmdline_roundtrip:
  assumes "\<forall>q\<in>set ps. param_ok q" "length ps \<le> MAX_PARAMS"
  shows "boot_parse_cmdline (Some (show_params ps)) = ps"
  using boot_parse_show [OF assms] .

theorem boot_cmdline_roundtrip_witness:
  "boot_parse_cmdline (Some ''root=/dev/sda mem=64M'') =
    [\<lparr>bp_key = ''root'', bp_value = ''/dev/sda''\<rparr>, \<lparr>bp_key = ''mem'', bp_value = ''64M''\<rparr>]"
  using boot_cmdline_roundtrip [of "[\<lparr>bp_key = ''root'', bp_value = ''/dev/sda''\<rparr>, \<lparr>bp_key = ''mem'', bp_value = ''64M''\<rparr>]"]
  by (simp add: param_ok_def show_param_def)

text \<open>
  Whatever the boot loader passes, no parameter overruns its buffer: at most \<open>MAX_PARAMS\<close> parameters are stored, every
  key has fewer than 20 characters and every value fewer than 50.
\<close>

theorem boot_cmdline_fits:
  "length (boot_parse_cmdline c) \<le> MAX_PARAMS \<and>
    list_all (\<lambda>q. length (bp_key q) < 20 \<and> length (bp_value q) < 50) (boot_parse_cmdline c)"
proof (cases c)
  case (Some s)
  then show ?thesis using parse_params_length [of 0 s] parse_params_fits [of _ 0 s]
    by (auto simp: boot_parse_cmdline_def list_all_iff)
qed (simp add: boot_parse_cmdline_def)

end
