(* ===== verification/Frame_Init.thy ===== *)
theory Frame_Init
  imports Frames_Spec Bootarg
begin

text \<open>
  Bringing the frame allocator up (\<^verbatim>\<open>src/src/mem/frame.c\<close>, \<open>page_ref_init\<close> and \<open>buddy_init\<close>, x86-64
  configuration).  The boot loader's memory map, a list of regions, and the kernel's
  command line parameters are inputs.  \<open>early_alloc\<close> hands out usable frames and returns a
  pointer; the model keeps the physical address, 0 for \<open>NULL\<close>.  The contents of the memory
  handed out are not modelled beyond being zeroed.  Clearing a buffer at address 0 is a fault.
\<close>

section \<open>The size of memory\<close>

datatype mmap_type = BOOT_MMAP_USABLE | BOOT_MMAP_RESERVED | BOOT_MMAP_ACPI_RECLAIMABLE | BOOT_MMAP_ACPI_NVS
  | BOOT_MMAP_BAD | BOOT_MMAP_BOOTLOADER_RECLAIMABLE | BOOT_MMAP_KERNEL_MODULE
  | BOOT_MMAP_EXECUTABLE_AND_MODULES | BOOT_MMAP_FRAMEBUFFER

record mmap_entry =
  mm_base :: u64
  mm_length :: u64
  mm_type :: mmap_type

text \<open>The scan starts at the last entry; with no usable entry it runs off the table.\<close>

fun last_usable :: "mmap_entry list \<Rightarrow> u64 option" where
  "last_usable [] = None"
| "last_usable (region # rev_entries) =
     (if mm_type region = BOOT_MMAP_USABLE then Some (mm_base region + mm_length region)
      else last_usable rev_entries)"

definition get_memory_size :: "mmap_entry list \<Rightarrow> u64 option" where
  "get_memory_size memory_map = last_usable (rev memory_map)"

fun parse_digits :: "u64 \<Rightarrow> string \<Rightarrow> u64 \<times> string" where
  "parse_digits value [] = (value, [])"
| "parse_digits value (c # p) =
     (if isdigit c then parse_digits (value * 10 + of_int (cval c - cval (CHR ''0''))) p else (value, c # p))"

definition mem_parse_size :: "string option \<Rightarrow> u64" where
  "mem_parse_size s =
     (case s of
        None \<Rightarrow> -1
      | Some s \<Rightarrow>
          (case parse_digits 0 s of
             (value, []) \<Rightarrow> value
           | (value, suffix # rest) \<Rightarrow>
               let suffix = (if cval suffix \<ge> cval (CHR ''a'') \<and> cval suffix \<le> cval (CHR ''z'')
                             then char_of (nat (cval suffix - (cval (CHR ''a'') - cval (CHR ''A'')))) else suffix)
               in if suffix = CHR ''K'' then if rest \<noteq> [] then -1 else value * 1024
                  else if suffix = CHR ''M'' then if rest \<noteq> [] then -1 else value * 1048576
                  else if suffix = CHR ''G'' then if rest \<noteq> [] then -1 else value * 1073741824
                  else value))"

section \<open>Early allocation\<close>

definition alloc_frames_early :: "frame_state \<Rightarrow> nat \<Rightarrow> (frame_state \<times> u64) option" where
  "alloc_frames_early s cnt =
     (if cnt = 0 then Some (s, -1)
      else do {
        r \<leftarrow> bitmap_find_range_from (usable_regions s) cnt True (early_last_alloc_pos s);
        (case r of
           None \<Rightarrow> Some (s, -1)
         | Some frame_index \<Rightarrow>
             if frame_index + cnt > bm_length (usable_regions s) then Some (s, -1)
             else do {
               bm \<leftarrow> bitmap_set_range (usable_regions s) frame_index (frame_index + cnt) False;
               Some (s\<lparr>usable_regions := bm, early_last_alloc_pos := frame_index + cnt\<rparr>,
                     of_nat frame_index * PAGE_SIZE)
             })
      })"

definition early_alloc :: "frame_state \<Rightarrow> nat \<Rightarrow> (frame_state \<times> u64) option" where
  "early_alloc s sz =
     (if sz = 0 then Some (s, 0)
      else do {
        (s', phys) \<leftarrow> alloc_frames_early s ((sz + 4096 - 1) div 4096);
        if phys = -1 then Some (s', 0)
        else if phys = 0 then None
        else Some (s', phys)
      })"

definition page_ref_setup :: "frame_state \<Rightarrow> frame_state option" where
  "page_ref_setup s = do {
     (s', p) \<leftarrow> early_alloc s (unat (memory_size s div PAGE_SIZE) * 4);
     if p = 0 then None else Some (s'\<lparr>page_maps := Some (page_ref_init (memory_size s'))\<rparr>)
   }"

abbreviation ZONE_T_SIZE :: nat where "ZONE_T_SIZE \<equiv> 208"

definition create_zone :: "frame_state \<Rightarrow> zone_type \<Rightarrow> u64 \<Rightarrow> u64 \<Rightarrow> frame_state option" where
  "create_zone s type start_pfn end_pfn =
     (if end_pfn \<le> start_pfn then Some (s\<lparr>zones := (zones s)(type := None)\<rparr>)
      else do {
        (s', p) \<leftarrow> early_alloc s ZONE_T_SIZE;
        if p = 0 then None
        else do {
          (m, z) \<leftarrow> init_zone (fs_metadata s') type start_pfn end_pfn;
          Some (s'\<lparr>fs_metadata := m, zones := (zones s')(type := Some z), nr_zones := nr_zones s' + 1\<rparr>)
        }
      })"

definition metadata_pages_for :: "nat \<Rightarrow> nat" where
  "metadata_pages_for total_frames =
     (total_frames + PAGE_LIST_ENTRY_CAPACITY - 1) div PAGE_LIST_ENTRY_CAPACITY + (ORDER_COUNT * 3 + 16)"

definition buddy_init :: "frame_state \<Rightarrow> frame_state option" where
  "buddy_init s =
     (let total_frames = unat (memory_size s div PAGE_SIZE);
          pool_pages = metadata_pages_for total_frames
      in do {
        (s, pool) \<leftarrow> early_alloc (s\<lparr>zones := \<lambda>_. None, nr_zones := 0\<rparr>) (pool_pages * 4096);
        if pool = 0 then None
        else
          let s = s\<lparr>fs_metadata := \<lparr>metadata_pool_phys = pool, metadata_pool_pages = pool_pages,
                                     metadata_pool_used = 0, metadata_free_list = []\<rparr>\<rparr>;
              max_pfn = memory_size s div PAGE_SIZE;
              dma32_end_pfn = min max_pfn (ZONE_DMA32_END div PAGE_SIZE);
              dma_end_pfn = min max_pfn (ZONE_DMA_END div PAGE_SIZE)
          in do {
            s \<leftarrow> create_zone s ZONE_DMA 0 dma_end_pfn;
            s \<leftarrow> create_zone s ZONE_DMA32 dma_end_pfn dma32_end_pfn;
            s \<leftarrow> create_zone s ZONE_NORMAL dma32_end_pfn max_pfn;
            let bitmap_bytes = (unat max_pfn + 7) div 8;
            let bitmap_bytes = (if bitmap_bytes = 0 then 1 else bitmap_bytes);
            (s, buf) \<leftarrow> early_alloc s bitmap_bytes;
            if buf = 0 then None else Some (s\<lparr>using_regions := bitmap_init bitmap_bytes\<rparr>)
          }
      })"

section \<open>Giving the usable frames to the zones\<close>

definition get_zone_boundary :: "zone_type \<Rightarrow> u64" where
  "get_zone_boundary type =
     (case type of ZONE_DMA \<Rightarrow> ZONE_DMA_END | ZONE_DMA32 \<Rightarrow> ZONE_DMA32_END | ZONE_NORMAL \<Rightarrow> -1)"

text \<open>The two inner loops: frames are skipped while their bit is \<open>b\<close>.\<close>

partial_function (option) skip_frames :: "bitmap \<Rightarrow> bool \<Rightarrow> u64 \<Rightarrow> u64 \<Rightarrow> u64 option" where
  "skip_frames usable b zone_end region_current =
     (if region_current < zone_end then do {
        u \<leftarrow> bitmap_get usable (unat (region_current div PAGE_SIZE));
        if u = b then skip_frames usable b zone_end (region_current + PAGE_SIZE) else Some region_current
      }
      else Some region_current)"

partial_function (option) add_usable_runs ::
    "zone_type \<Rightarrow> u64 \<Rightarrow> u64 \<Rightarrow> frame_state \<Rightarrow> frame_state option" where
  "add_usable_runs type zone_end region_current s =
     (if region_current < zone_end then do {
        usable_start \<leftarrow> skip_frames (usable_regions s) False zone_end region_current;
        if usable_start \<ge> zone_end then Some s
        else do {
          usable_end \<leftarrow> skip_frames (usable_regions s) True zone_end usable_start;
          s' \<leftarrow> (if usable_end > usable_start then add_memory_region s usable_start usable_end type else Some s);
          add_usable_runs type zone_end usable_end s'
        }
      }
      else Some s)"

partial_function (option) process_zones :: "u64 \<Rightarrow> u64 \<Rightarrow> frame_state \<Rightarrow> frame_state option" where
  "process_zones end current s =
     (if current < end then
        let type = phys_to_zone_type current;
            zone_end = min (get_zone_boundary type) end
        in do { s' \<leftarrow> add_usable_runs type zone_end current s; process_zones end zone_end s' }
      else Some s)"

definition process_memory_region :: "frame_state \<Rightarrow> u64 \<Rightarrow> u64 \<Rightarrow> frame_state option" where
  "process_memory_region s start end =
     (let start = PADDING_UP start PAGE_SIZE; end = PADDING_DOWN end PAGE_SIZE in
      if start \<ge> end then Some s else process_zones end start s)"

section \<open>Initialisation\<close>

definition low_region :: "mmap_entry \<Rightarrow> bool" where
  "low_region region \<longleftrightarrow> mm_base region < 0x100000"

fun find_bitmap_region :: "u64 \<Rightarrow> mmap_entry list \<Rightarrow> u64" where
  "find_bitmap_region sz [] = 0"
| "find_bitmap_region sz (region # regions) =
     (if low_region region then find_bitmap_region sz regions
      else if mm_type region = BOOT_MMAP_USABLE \<and> mm_length region \<ge> sz then mm_base region
      else find_bitmap_region sz regions)"

primrec mark_usable :: "bitmap \<Rightarrow> mmap_entry list \<Rightarrow> bitmap option" where
  "mark_usable bm [] = Some bm"
| "mark_usable bm (region # regions) =
     (if low_region region then mark_usable bm regions
      else if mm_type region = BOOT_MMAP_USABLE then
        let start_frame = unat (mm_base region div PAGE_SIZE);
            end_frame = unat ((mm_base region + mm_length region) div PAGE_SIZE)
        in if end_frame > start_frame
           then do { bm' \<leftarrow> bitmap_set_range bm start_frame end_frame True; mark_usable bm' regions }
           else mark_usable bm regions
      else mark_usable bm regions)"

definition add_region_around :: "frame_state \<Rightarrow> u64 \<Rightarrow> u64 \<Rightarrow> u64 \<Rightarrow> u64 \<Rightarrow> frame_state option" where
  "add_region_around s bitmap_address bitmap_size addr region_end =
     (if addr \<le> bitmap_address \<and> bitmap_address < region_end then
        let bitmap_end = PADDING_UP (bitmap_address + bitmap_size) PAGE_SIZE in do {
          s \<leftarrow> (if addr < bitmap_address then process_memory_region s addr bitmap_address else Some s);
          if bitmap_end < region_end then process_memory_region s bitmap_end region_end else Some s
        }
      else process_memory_region s addr region_end)"

primrec add_all_regions :: "u64 \<Rightarrow> u64 \<Rightarrow> frame_state \<Rightarrow> mmap_entry list \<Rightarrow> frame_state option" where
  "add_all_regions bitmap_address bitmap_size s [] = Some s"
| "add_all_regions bitmap_address bitmap_size s (region # regions) =
     (if low_region region \<or> mm_type region \<noteq> BOOT_MMAP_USABLE
      then add_all_regions bitmap_address bitmap_size s regions
      else do {
        s' \<leftarrow> add_region_around s bitmap_address bitmap_size (mm_base region) (mm_base region + mm_length region);
        add_all_regions bitmap_address bitmap_size s' regions
      })"

definition init_memory_size :: "boot_param list \<Rightarrow> mmap_entry list \<Rightarrow> u64 option" where
  "init_memory_size params memory_map =
     (case boot_get_cmdline_param params ''mem'' of
        None \<Rightarrow> get_memory_size memory_map
      | Some mem_str \<Rightarrow>
          if strcmp mem_str ''default'' \<noteq> 0 then
            let sz = mem_parse_size (Some mem_str) in
            if sz = -1 then get_memory_size memory_map else Some (PADDING_DOWN sz PAGE_SIZE)
          else get_memory_size memory_map)"

definition init_frame :: "boot_param list \<Rightarrow> mmap_entry list \<Rightarrow> frame_state option" where
  "init_frame params memory_map = do {
     memory_size \<leftarrow> init_memory_size params memory_map;
     let total_frames = unat (memory_size div PAGE_SIZE);
     let bitmap_size = (total_frames + 7) div 8;
     let bitmap_address = find_bitmap_region (PADDING_UP (of_nat bitmap_size) PAGE_SIZE) memory_map;
     bm \<leftarrow> (if bitmap_address = 0 \<and> bitmap_size \<noteq> 0 then None else Some (bitmap_init bitmap_size));
     bm \<leftarrow> mark_usable bm memory_map;
     bm \<leftarrow> bitmap_set_range bm 0 256 False;
     bm \<leftarrow> bitmap_set_range bm (unat (bitmap_address div PAGE_SIZE))
             (unat (PADDING_UP (bitmap_address + of_nat bitmap_size) PAGE_SIZE div PAGE_SIZE)) False;
     s \<leftarrow> page_ref_setup \<lparr>zones = \<lambda>_. None, nr_zones = 0,
             fs_metadata = \<lparr>metadata_pool_phys = 0, metadata_pool_pages = 0, metadata_pool_used = 0,
                            metadata_free_list = []\<rparr>,
             using_regions = bitmap_init 0, usable_regions = bm, early_last_alloc_pos = 0,
             memory_size = memory_size, page_maps = None\<rparr>;
     s \<leftarrow> buddy_init s;
     add_all_regions bitmap_address (of_nat bitmap_size) s memory_map
   }"

section \<open>The \<open>mem=\<close> parameter\<close>

lemma isdigit_digit: "d < 10 \<Longrightarrow> isdigit (digit_char d) \<and> cval (digit_char d) - cval (CHR ''0'') = int d"
  by (simp add: isdigit_def cval_def of_char_digit)

lemma parse_digits_decimal:
  assumes "\<forall>d\<in>set ds. d < 10" "rest = [] \<or> \<not> isdigit (hd rest)"
  shows "parse_digits (of_nat v) (map digit_char ds @ rest) = (of_nat (decimal_value ds v), rest)"
  using assms
proof (induction ds arbitrary: v)
  case Nil
  then show ?case by (cases rest) auto
next
  case (Cons d ds)
  then show ?case using Cons.IH [of "v * 10 + d"] isdigit_digit [of d] by simp
qed

definition suffix_factor :: "char \<Rightarrow> u64 option" where
  "suffix_factor c =
     (if c \<in> {CHR ''k'', CHR ''K''} then Some (2 ^ 10) else if c \<in> {CHR ''m'', CHR ''M''} then Some (2 ^ 20)
      else if c \<in> {CHR ''g'', CHR ''G''} then Some (2 ^ 30) else None)"

lemma mem_parse_size_suffix:
  assumes "\<forall>d\<in>set ds. d < 10" "suffix_factor c = Some f"
  shows "mem_parse_size (Some (map digit_char ds @ [c])) = of_nat (decimal_value ds 0) * f"
proof -
  have c: "c \<in> {CHR ''k'', CHR ''K'', CHR ''m'', CHR ''M'', CHR ''g'', CHR ''G''}"
    using assms(2) by (auto simp: suffix_factor_def split: if_splits)
  then have "\<not> isdigit c" by (auto simp: isdigit_def cval_def)
  then have "parse_digits 0 (map digit_char ds @ [c]) = (of_nat (decimal_value ds 0), [c])"
    using parse_digits_decimal [OF assms(1), of "[c]" 0] by simp
  then have "mem_parse_size (Some (map digit_char ds @ [c])) =
      (let suffix = (if cval c \<ge> 97 \<and> cval c \<le> 122 then char_of (nat (cval c - 32)) else c)
       in if suffix = CHR ''K'' then of_nat (decimal_value ds 0) * 1024
          else if suffix = CHR ''M'' then of_nat (decimal_value ds 0) * 1048576
          else if suffix = CHR ''G'' then of_nat (decimal_value ds 0) * 1073741824
          else of_nat (decimal_value ds 0))"
    by (simp add: mem_parse_size_def cval_def [of "CHR ''a''"] cval_def [of "CHR ''A''"] cval_def [of "CHR ''z''"])
  moreover have "char_of (75 :: nat) = CHR ''K''" "char_of (77 :: nat) = CHR ''M''" "char_of (71 :: nat) = CHR ''G''"
    by (simp_all add: char_of_eq_iff)
  ultimately show ?thesis using c assms(2)
    by (elim insertE emptyE) (simp_all add: suffix_factor_def cval_def Let_def)
qed

section \<open>Early allocation takes fresh frames\<close>

lemma byte_skip_True: "\<not> byte_skip True w"
  by (simp add: byte_skip_def)

lemma alloc_frames_early_spec:
  assumes wf: "bitmap_wf (usable_regions s)" and c: "0 < cnt"
    and small: "bm_length (usable_regions s) * 4096 < 2 ^ 64"
  shows "\<exists>s' a. alloc_frames_early s cnt = Some (s', a) \<and>
    (if a = -1 then s' = s \<and>
       (\<forall>q\<ge>8 * (early_last_alloc_pos s div 8). q + cnt \<le> bm_length (usable_regions s) \<longrightarrow>
          \<not> run_at (usable_regions s) True q cnt)
     else \<exists>q. a = of_nat q * PAGE_SIZE \<and> pfn a = q \<and> q + cnt \<le> bm_length (usable_regions s) \<and>
       run_at (usable_regions s) True q cnt \<and> same_shape (usable_regions s) (usable_regions s') \<and>
       (\<forall>j. bm_bit (usable_regions s') j = (bm_bit (usable_regions s) j \<and> \<not> (q \<le> j \<and> j < q + cnt))) \<and>
       s' = s\<lparr>usable_regions := usable_regions s', early_last_alloc_pos := q + cnt\<rparr>)"
proof -
  let ?u = "usable_regions s" and ?B = "8 * (early_last_alloc_pos s div 8)"
  obtain r where r: "bitmap_find_range_from ?u cnt True (early_last_alloc_pos s) = Some r"
    and cs: "case r of Some q \<Rightarrow> found ?u cnt True ?B (bm_length ?u) q
      | None \<Rightarrow> (\<forall>q\<ge>?B. q + cnt \<le> bm_length ?u \<longrightarrow> \<not> run_at ?u True q cnt)"
    using bitmap_find_range_from_scan [OF wf c, of True "early_last_alloc_pos s"]
    by (auto simp: byte_skip_True split: option.splits)
  show ?thesis
  proof (cases r)
    case None
    then show ?thesis using r cs c by (simp add: alloc_frames_early_def)
  next
    case (Some q)
    then have q: "q + cnt \<le> bm_length ?u" "run_at ?u True q cnt" using cs by (auto simp: found_def)
    obtain bm where bm: "bitmap_set_range ?u q (q + cnt) False = Some bm" "same_shape ?u bm"
        "\<forall>j. bm_bit bm j = (if q \<le> j \<and> j < q + cnt then False else bm_bit ?u j)"
      using bitmap_set_range_inside [OF wf q(1)] by blast
    let ?a = "of_nat q * PAGE_SIZE :: u64"
    have "q * 4096 < 2 ^ 64" using q(1) c small by simp
    then have ua: "unat ?a = q * 4096" by (simp add: unat_word_ariths unat_of_nat)
    have "unat (-1 :: u64) \<noteq> q * 4096"
    proof
      assume "unat (-1 :: u64) = q * 4096"
      then have "4096 dvd unat (-1 :: u64)" by simp
      then show False by (simp add: unsigned_minus_1_eq_mask mask_eq_exp_minus_1)
    qed
    then have "?a \<noteq> -1" using ua by metis
    moreover have "pfn ?a = q" using ua by (simp add: pfn_def)
    ultimately show ?thesis using r Some q bm c
      by (simp add: alloc_frames_early_def)
  qed
qed

text \<open>The pool of \<open>buddy_init\<close> covers the quota of the three zones together.\<close>

lemma metadata_pages_enough:
  "(19 + a div 510) + (19 + b div 510) + (19 + c div 510) + 16 \<le> metadata_pages_for (a + b + c)"
proof -
  have "a div 510 + b div 510 + c div 510 \<le> (a + b + c) div 510"
    using sum_div_le [of "\<lambda>i::nat. if i = 0 then a else if i = 1 then b else c" 510 "{0, 1, 2}"] by simp
  also have "\<dots> \<le> (a + b + c + 509) div 510" by (rule div_le_mono) simp
  finally show ?thesis by (simp add: metadata_pages_for_def)
qed

end
