(* ===== verification/Frame_Properties.thy ===== *)
theory Frame_Properties
  imports Frames_Spec Frame_Init
begin

text \<open>
  What the physical memory allocator guarantees, stated over the kernel's own functions, each with an instance on a
  small machine: one zone for the frames 16 to 31, built by \<open>init_zone\<close> and \<open>add_memory_region\<close>.
\<close>

section \<open>A small machine\<close>

definition demo_metadata :: metadata where
  "demo_metadata = \<lparr>metadata_pool_phys = 0x100000, metadata_pool_pages = 40, metadata_pool_used = 0, metadata_free_list = []\<rparr>"

definition demo_zone :: "(metadata \<times> zone) option" where
  "demo_zone = do {
     (m, z) \<leftarrow> init_zone demo_metadata ZONE_DMA 16 32;
     add_region m z 0x10000 0x20000
   }"

definition demo_frames :: "metadata \<Rightarrow> zone \<Rightarrow> frame_state" where
  "demo_frames m z = \<lparr>zones = (\<lambda>t. if t = ZONE_DMA then Some z else None), nr_zones = 1, fs_metadata = m,
     using_regions = \<lparr>bm_buffer = [0, 0, 0, 0], bm_length = 32\<rparr>,
     usable_regions = \<lparr>bm_buffer = [0, 0, -1, -1], bm_length = 32\<rparr>,
     early_last_alloc_pos = 0, memory_size = 0x20000, page_maps = Some (replicate 32 0)\<rparr>"

lemma demo_zone_built:
  obtains m z where "demo_zone = Some (m, z)" "zone_ok ({#}, 0) m z" "zone_free_frames z = {16..<32}" "zlo z = 16" "zhi z = 32"
proof -
  obtain m0 z0 where z0: "init_zone demo_metadata ZONE_DMA 16 32 = Some (m0, z0)" "zone_ok ({#}, 0) m0 z0"
    "zone_free_frames z0 = {}" "zone_start_pfn z0 = 16" "zone_end_pfn z0 = 32"
    using init_zone_spec [of demo_metadata "({#}, 0)" 32 16 ZONE_DMA] by (auto simp: demo_metadata_def handed_out_def)
  have rf: "region_frames z0 0x10000 0x20000 = {16..<32}" by (simp add: region_frames_def z0)
  obtain m z where z: "add_region m0 z0 0x10000 0x20000 = Some (m, z)" "zone_ok ({#}, 0) m z" "same_span z0 z"
    "zone_free_frames z = {16..<32}"
    using add_region_spec [OF z0(2), of "0x10000" "0x20000"] rf z0(3) by auto
  show ?thesis
    by (rule that [of m z]) (use z z0 in \<open>simp_all add: demo_zone_def same_span_def\<close>)
qed

lemma demo_usable_bits: "16 \<le> f \<Longrightarrow> f < 32 \<Longrightarrow> bit (([0, 0, -1, -1] :: u8 list) ! (f div 8)) (f mod 8)"
proof -
  assume f: "16 \<le> f" "f < 32"
  then have "f div 8 = 2 \<or> f div 8 = 3" by auto
  moreover have "f mod 8 < 8" by simp
  ultimately show ?thesis by auto
qed

lemma demo_frames_inv:
  obtains m z where "demo_zone = Some (m, z)" "frames_inv (demo_frames m z)" "all_free (demo_frames m z) = {16..<32}"
proof (rule demo_zone_built)
  fix m z assume z: "demo_zone = Some (m, z)" "zone_ok ({#}, 0) m z" "zone_free_frames z = {16..<32}" "zlo z = 16" "zhi z = 32"
  let ?s = "demo_frames m z"
  have af: "all_free ?s = {16..<32}" by (auto simp: all_free_def demo_frames_def z(3) split: if_splits)
  have "others ?s ZONE_DMA = ({#}, 0)"
    by (auto simp: others_def pages_at_def quota_at_def demo_frames_def intro!: sum.neutral)
  moreover have "phys_to_zone_type (of_nat f * 4096) = ZONE_DMA" if "f < 32" for f
  proof -
    have "unat (of_nat f * 4096 :: u64) = f * 4096" using that by (simp add: unat_word_ariths unat_of_nat)
    then have "of_nat f * 4096 < (16777216 :: u64)" using that by (simp add: word_less_nat_alt)
    then show ?thesis by (simp add: phys_to_zone_type_def)
  qed
  ultimately have "zones_inv ?s" using z(2,4,5) by (auto simp: zones_inv_def zone_placed_def demo_frames_def split: if_splits)
  moreover have "bm_bit (usable_regions ?s) f \<and> \<not> bm_bit (using_regions ?s) f \<and> the (page_maps ?s) ! f = 0"
    if "f \<in> {16..<32}" for f
    using that demo_usable_bits [of f] by (auto simp: bm_bit_def demo_frames_def nth_Cons' split: if_splits)
  ultimately have "frames_inv ?s" using af by (simp add: frames_inv_def bitmap_wf_def demo_frames_def)
  then show thesis by (rule that [OF z(1) _ af])
qed

section \<open>Properties\<close>

text \<open>
  C1: Physical frames are never handed out twice.  Whatever sequence of \<open>alloc_frames\<close> and \<open>free_frames\<close> calls a client
  that frees only what it holds makes, the invariant holds, live blocks are pairwise disjoint, no live frame is free, and
  free and live frames together are exactly the frames that were free at the start.
\<close>

theorem kernel_blocks_never_overlap:
  assumes "frames_inv s0" "(alloc_step (alloc_frames_from ts) kernel_free)\<^sup>*\<^sup>* (s0, []) (s, live)"
  shows "frames_inv s \<and> separate live \<and> all_free s \<inter> live_frames live = {} \<and>
    all_free s \<union> live_frames live = all_free s0"
  using kernel_provider.blocks_never_overlap [OF assms] .

theorem kernel_blocks_never_overlap_witness:
  "\<exists>m z s live. demo_zone = Some (m, z) \<and>
    (alloc_step (alloc_frames_from [ZONE_DMA]) kernel_free)\<^sup>+\<^sup>+ (demo_frames m z, []) (s, live) \<and>
    separate live \<and> all_free s \<union> live_frames live = {16..<32}"
proof (rule demo_frames_inv)
  fix m z assume d: "demo_zone = Some (m, z)" "frames_inv (demo_frames m z)" "all_free (demo_frames m z) = {16..<32}"
  obtain s a where a: "alloc_frames_from [ZONE_DMA] (demo_frames m z) (2 ^ 1) = Some (s, a)"
    using alloc_frames_from_spec [OF d(2)] by blast
  have "\<exists>live. alloc_step (alloc_frames_from [ZONE_DMA]) kernel_free (demo_frames m z, []) (s, live)"
  proof (cases "a = 0")
    case True
    then show ?thesis using a by (blast intro: alloc_step.none)
  next
    case False
    have "count_to_order (2 ^ 1) = Some (12 + 1, 2 ^ 1)" by (rule count_to_order_pow2) simp
    from alloc_step.get [of "alloc_frames_from [ZONE_DMA]", OF a False this] show ?thesis by blast
  qed
  then obtain live where l: "alloc_step (alloc_frames_from [ZONE_DMA]) kernel_free (demo_frames m z, []) (s, live)" ..
  from kernel_blocks_never_overlap [OF d(2) r_into_rtranclp [of "alloc_step (alloc_frames_from [ZONE_DMA]) kernel_free", OF l]]
  show ?thesis using d l by blast
qed

text \<open>
  The kernel allocator is never stuck: in every state such a client reaches, each request returns (a block, or 0), and
  freeing any live block returns; no array access is out of bounds and no metadata assertion fires.
\<close>

theorem kernel_allocator_never_stuck:
  assumes "frames_inv s0" "(alloc_step (alloc_frames_from ts) kernel_free)\<^sup>*\<^sup>* (s0, []) (s, live)"
  shows "alloc_frames_from ts s c \<noteq> None \<and> (\<forall>(k, a)\<in>set live. free_frames s a (2 ^ k) \<noteq> None)"
  using kernel_provider.never_stuck [OF assms] by (auto simp: kernel_free_def)

theorem kernel_allocator_never_stuck_witness:
  "\<exists>m z. demo_zone = Some (m, z) \<and> alloc_frames_from [ZONE_DMA] (demo_frames m z) 3 \<noteq> None"
proof (rule demo_frames_inv)
  fix m z assume d: "demo_zone = Some (m, z)" "frames_inv (demo_frames m z)"
  from kernel_allocator_never_stuck [OF d(2), of "[ZONE_DMA]" "demo_frames m z" "[]" 3] d(1) show ?thesis by blast
qed



text \<open>
  C30: \<open>buddy_free_zone\<close> gives back exactly the frames of an aligned block inside the zone, merging buddies, and ignores
  an address that is misaligned or outside; the invariant and the free-page counter stay correct.
\<close>

theorem buddy_free_exact:
  assumes "zone_ok L m z" "k < 19" "a \<noteq> 0" "block_frames (k, pfn a) \<inter> zone_free_frames z = {}"
  shows "\<exists>m' z'. buddy_free_zone m z a (12 + k) = Some (m', z') \<and> zone_ok L m' z' \<and> same_bounds z z' \<and>
    zone_free_frames z' = zone_free_frames z \<union>
      (if page_aligned a \<and> block_in (zlo z) (zhi z) (k, pfn a) then block_frames (k, pfn a) else {})"
  using buddy_free_zone_spec [OF assms] .

theorem buddy_free_exact_witness:
  "\<exists>m z m' z'. demo_zone = Some (m, z) \<and> buddy_free_zone m z 0x8000 13 = Some (m', z') \<and>
    zone_free_frames z' = {16..<32}"
proof (rule demo_zone_built)
  fix m z assume d: "demo_zone = Some (m, z)" "zone_ok ({#}, 0) m z" "zone_free_frames z = {16..<32}" "zlo z = 16" "zhi z = 32"
  have "block_frames (1, pfn 0x8000) \<inter> zone_free_frames z = {}" by (auto simp: d(3) block_frames_def pfn_def)
  from buddy_free_exact [OF d(2) _ _ this] show ?thesis using d by (auto simp: block_in_def pfn_def)
qed

text \<open>
  \<open>free_frames\<close> accepts a block it handed out: for a page-aligned block of owned frames that are not free, every check
  passes, the references are dropped, the in-use bits are cleared and exactly the frames of the block become free.
\<close>

theorem free_frames_gives_back:
  assumes "frames_inv s" "page_aligned a" "a \<noteq> 0" "owned_block s (k, pfn a)" "block_frames (k, pfn a) \<inter> all_free s = {}"
    "count_to_order c = Some (12 + k, p)"
  shows "\<exists>s'. free_frames s a c = Some s' \<and> frames_inv s' \<and> owned_block s' = owned_block s \<and>
    all_free s' = all_free s \<union> block_frames (k, pfn a)"
  using free_frames_spec [OF assms] .

lemma demo_alloc:
  obtains m z s a where "demo_zone = Some (m, z)" "alloc_frames (demo_frames m z) (2 ^ 1) = Some (s, a)" "frames_inv s"
    "a \<noteq> 0" "page_aligned a" "owned_block s (1, pfn a)" "block_frames (1, pfn a) \<inter> all_free s = {}"
    "all_free s \<union> block_frames (1, pfn a) = {16..<32}"
proof (rule demo_zone_built)
  fix m z assume z: "demo_zone = Some (m, z)" "zone_ok ({#}, 0) m z" "zone_free_frames z = {16..<32}"
  have inv: "frames_inv (demo_frames m z)" and af: "all_free (demo_frames m z) = {16..<32}"
    using demo_frames_inv z(1) by (metis option.inject prod.inject)+
  obtain s a where r: "alloc_frames (demo_frames m z) (2 ^ 1) = Some (s, a)" "frames_inv s"
      "owned_block s = owned_block (demo_frames m z)" "took (demo_frames m z) s (2 ^ 1) a"
    using alloc_frames_from_spec [OF inv] unfolding alloc_frames_def by metis
  have two: "count_to_order (2 ^ 1) = Some (12 + 1, 2 ^ 1)" by (rule count_to_order_pow2) simp
  have two': "count_to_order 2 = Some (13, 2)" using two by simp
  have "a \<noteq> 0"
  proof
    assume "a = 0"
    obtain m' z' b where b: "buddy_alloc_zone m z (2 ^ 1) = Some (m', z', b)"
      "b = 0 \<Longrightarrow> \<forall>k p. k < 19 \<longrightarrow> 2 \<le> (2::nat) ^ k \<longrightarrow> 2 ^ k dvd p \<longrightarrow> \<not> block_frames (k, p) \<subseteq> {16..<32}"
      using buddy_alloc_zone_spec [OF z(2), of "2 ^ 1"] unfolding z(3) by (auto split: if_splits)
    have "block_frames (1, 16) \<subseteq> {16..<32}" by (auto simp: block_frames_def)
    then have "b \<noteq> 0" using b(2) [rule_format, of 1 16] by auto
    moreover have "zone_has_memory z"
    proof -
      have "unat (free_pages z) = 16" using z(2) by (simp add: zone_ok_def z(3))
      then show ?thesis by (simp add: zone_has_memory_def word_less_nat_alt)
    qed
    ultimately have "snd (the (alloc_frames (demo_frames m z) (2 ^ 1))) \<noteq> 0"
      using b(1) r(1) by (auto simp: alloc_frames_def alloc_frames_from_def alloc_in_def demo_frames_def count_to_pages_def
          two' split: if_splits option.splits bind_splits)
    then show False using r(1) \<open>a = 0\<close> by simp
  qed
  with r(4) have t: "page_aligned a" "zone_block_at (demo_frames m z) (1, pfn a)"
      "block_frames (1, pfn a) \<subseteq> {16..<32}" "all_free s = {16..<32} - block_frames (1, pfn a)"
    using two by (auto simp: took_def af simp del: mem_block_frames)
  have "owned_block s (1, pfn a)"
    using t inv unfolding r(3) owned_block_def zone_block_at_def owned_def frames_inv_def af by blast
  with t \<open>a \<noteq> 0\<close> show thesis by (intro that [OF z(1) r(1,2)]) auto
qed

theorem free_frames_gives_back_witness:
  "\<exists>m z s a s'. demo_zone = Some (m, z) \<and> alloc_frames (demo_frames m z) 2 = Some (s, a) \<and>
    free_frames s a 2 = Some s' \<and> frames_inv s' \<and> all_free s' = {16..<32}"
proof (rule demo_alloc)
  fix m z s a assume d: "demo_zone = Some (m, z)" "alloc_frames (demo_frames m z) (2 ^ 1) = Some (s, a)" "frames_inv s"
    "a \<noteq> 0" "page_aligned a" "owned_block s (1, pfn a)" "block_frames (1, pfn a) \<inter> all_free s = {}"
    "all_free s \<union> block_frames (1, pfn a) = {16..<32}"
  have "count_to_order (2 ^ 1) = Some (12 + 1, 2 ^ 1)" by (rule count_to_order_pow2) simp
  from free_frames_gives_back [OF d(3,5,4,6,7) this] d(1,2,8) show ?thesis by auto
qed

text \<open>
  Allocating a block and freeing it at once restores the set of free frames, whatever splitting and merging happened
  in between.
\<close>

theorem alloc_then_free_restores:
  assumes "frames_inv s" "alloc_frames s c = Some (s', a)" "a \<noteq> 0" "count_to_order c = Some (12 + k, p)"
  shows "\<exists>s''. kernel_free s' a k = Some s'' \<and> frames_inv s'' \<and> all_free s'' = all_free s"
  using kernel_provider.alloc_free_restores [of s _ c s' a k p] assms by (simp add: alloc_frames_def)

theorem alloc_then_free_restores_witness:
  "\<exists>m z s a s'. demo_zone = Some (m, z) \<and> alloc_frames (demo_frames m z) (2 ^ 1) = Some (s, a) \<and>
    kernel_free s a 1 = Some s' \<and> all_free s' = all_free (demo_frames m z)"
proof (rule demo_alloc)
  fix m z s a assume d: "demo_zone = Some (m, z)" "alloc_frames (demo_frames m z) (2 ^ 1) = Some (s, a)" "a \<noteq> 0"
  have inv: "frames_inv (demo_frames m z)" using demo_frames_inv d(1) by (metis option.inject prod.inject)
  have "count_to_order (2 ^ 1) = Some (12 + 1, 2 ^ 1)" by (rule count_to_order_pow2) simp
  from alloc_then_free_restores [OF inv d(2,3) this] d(1,2) show ?thesis by blast
qed

text \<open>
  Freeing is refused as a whole when any page of the range is not held exactly once: \<open>claim_last_page_refs\<close> answers
  false and gives back every reference it had already claimed, so the page map is unchanged.
\<close>

theorem claim_last_page_refs_rolls_back:
  assumes "in_map pm a [0..<unat p]" "\<exists>n<unat p. pm ! (pfn a + n) \<noteq> 1"
  shows "claim_last_page_refs pm a p = Some (pm, False)"
  using claim_refused [OF assms] .

theorem claim_last_page_refs_rolls_back_witness:
  "claim_last_page_refs [0, 1, 1, 2] 0x1000 3 = Some ([0, 1, 1, 2], False)"
  by (rule claim_last_page_refs_rolls_back) (auto simp: in_map_def page_aligned_def pfn_def intro!: exI [of _ 2])

text \<open>
  C31: A zone never runs out of metadata pages: inserting any aligned block of the zone that is disjoint from the free
  blocks and whose buddy is not free succeeds, so the assertion in \<open>metadata_page_alloc\<close> cannot fire for a zone whose share of the pool was reserved by \<open>buddy_init\<close>.
\<close>

theorem metadata_pool_never_exhausted:
  assumes "zone_inv L m z" "can_insert z k a"
  shows "\<exists>m' z'. page_list_push m z (12 + k) a = Some (m', z') \<and> zone_inv L m' z' \<and>
    zone_blocks z' = insert (k, pfn a) (zone_blocks z)"
  using page_list_push_total [OF assms] by metis

theorem metadata_pool_never_exhausted_witness:
  "\<exists>m z m' z'. init_zone demo_metadata ZONE_DMA 16 32 = Some (m, z) \<and>
    page_list_push m z 13 0x10000 = Some (m', z') \<and> zone_blocks z' = {(1, 16)}"
proof -
  obtain m z where z: "init_zone demo_metadata ZONE_DMA 16 32 = Some (m, z)" "zone_ok ({#}, 0) m z"
    "zone_free_frames z = {}" "zone_start_pfn z = 16" "zone_end_pfn z = 32"
    using init_zone_spec [of demo_metadata "({#}, 0)" 32 16 ZONE_DMA] by (auto simp: demo_metadata_def handed_out_def)
  have empty: "zone_blocks z = {}"
    using z(3) block_first_frame unfolding zone_free_frames_def free_frames_of_def by fastforce
  have "can_insert z 1 0x10000" using z(3-5) empty
    by (auto simp: can_insert_def block_in_def page_aligned_def pfn_def)
  from metadata_pool_never_exhausted [OF _ this] z(1,2) empty show ?thesis
    by (force simp: zone_ok_def pfn_def)
qed

text \<open>
  C32: \<open>add_memory_region\<close> frees exactly the whole frames of the region that lie in the zone: the loop terminates, every
  such frame becomes free, no other frame does, and \<open>managed_pages\<close> grows by their number.
\<close>

theorem add_region_frees_exactly:
  assumes "zone_ok L m z" "0 < start" "unat start + 4095 < 2 ^ 64"
    "region_frames z start stop \<inter> zone_free_frames z = {}"
  shows "\<exists>m' z'. add_region m z start stop = Some (m', z') \<and> zone_ok L m' z' \<and> same_span z z' \<and>
    zone_free_frames z' = zone_free_frames z \<union> region_frames z start stop \<and>
    managed_pages z' = managed_pages z + of_nat (card (region_frames z start stop))"
  using add_region_spec [OF assms] .

theorem add_region_frees_exactly_witness:
  "\<exists>m z m' z'. init_zone demo_metadata ZONE_DMA 16 32 = Some (m, z) \<and>
    add_region m z 0x11800 0x14FFF = Some (m', z') \<and> zone_free_frames z' = {18, 19}"
proof -
  obtain m z where z: "init_zone demo_metadata ZONE_DMA 16 32 = Some (m, z)" "zone_ok ({#}, 0) m z"
    "zone_free_frames z = {}" "zone_start_pfn z = 16" "zone_end_pfn z = 32"
    using init_zone_spec [of demo_metadata "({#}, 0)" 32 16 ZONE_DMA] by (auto simp: demo_metadata_def handed_out_def)
  have "region_frames z 0x11800 0x14FFF = {18, 19}" by (auto simp: region_frames_def z)
  with add_region_frees_exactly [OF z(2), of "0x11800" "0x14FFF"] z(1,3) show ?thesis by auto
qed

text \<open>
  The early allocator is correct: it returns a run of usable frames of the requested length, clears exactly their
  bits, and answers \<open>-1\<close> only when no such run starts at or after the byte of the last allocation position.
\<close>

theorem early_allocation_correct:
  assumes "bitmap_wf (usable_regions s)" "0 < cnt" "bm_length (usable_regions s) * 4096 < 2 ^ 64"
  shows "\<exists>s' a. alloc_frames_early s cnt = Some (s', a) \<and>
    (if a = -1 then s' = s \<and>
       (\<forall>q\<ge>8 * (early_last_alloc_pos s div 8). q + cnt \<le> bm_length (usable_regions s) \<longrightarrow>
          \<not> run_at (usable_regions s) True q cnt)
     else \<exists>q. a = of_nat q * PAGE_SIZE \<and> pfn a = q \<and> q + cnt \<le> bm_length (usable_regions s) \<and>
       run_at (usable_regions s) True q cnt \<and> same_shape (usable_regions s) (usable_regions s') \<and>
       (\<forall>j. bm_bit (usable_regions s') j = (bm_bit (usable_regions s) j \<and> \<not> (q \<le> j \<and> j < q + cnt))) \<and>
       s' = s\<lparr>usable_regions := usable_regions s', early_last_alloc_pos := q + cnt\<rparr>)"
  using alloc_frames_early_spec [OF assms] .

theorem early_allocation_correct_witness:
  "\<exists>m z s' a. demo_zone = Some (m, z) \<and> alloc_frames_early (demo_frames m z) 4 = Some (s', a) \<and> a \<noteq> -1"
proof (rule demo_zone_built)
  fix m z assume d: "demo_zone = Some (m, z)"
  let ?s = "demo_frames m z"
  have wf: "bitmap_wf (usable_regions ?s)" "bm_length (usable_regions ?s) = 32" "early_last_alloc_pos ?s = 0"
    by (simp_all add: demo_frames_def bitmap_wf_def)
  have run: "run_at (usable_regions ?s) True 16 4"
    using demo_usable_bits by (auto simp: run_at_def bm_bit_def demo_frames_def)
  obtain s' a where r: "alloc_frames_early ?s 4 = Some (s', a)" "a = -1 \<Longrightarrow> \<forall>q. q + 4 \<le> 32 \<longrightarrow> \<not> run_at (usable_regions ?s) True q 4"
    using early_allocation_correct [OF wf(1), of 4] wf(2,3) by (auto split: if_splits)
  have "a \<noteq> -1" using r(2) run by (auto dest: spec [of _ 16])
  with d r(1) show ?thesis by blast
qed

end
