(* ===== verification/Vma.thy ===== *)
theory Vma
  imports Krlibc
begin

text \<open>
  The virtual memory areas of \<^verbatim>\<open>src/src/mem/vma.c\<close>.  The doubly linked chain \<open>vma_list\<close> is the list of its areas in
  \<open>vm_next\<close> order, and a \<open>vma_t *\<close> of the chain is its index there; the link fields are the list itself.
  \<open>malloc_ok\<close> says which request sizes \<open>malloc\<close> grants; where one call allocates repeatedly, \<open>mem n\<close> is the answer at
  the \<open>n\<close>-th split.  \<^const>\<open>None\<close> is a fault: \<open>strdup\<close> without memory, a freed area read again, a name freed twice.
\<close>

section \<open>Definitions\<close>

datatype vma_type_t = VMA_TYPE_ANON | VMA_TYPE_FILE | VMA_TYPE_SHM

record vma_t =
  vm_start :: u64
  vm_end :: u64
  vm_flags :: u64
  vm_type :: vma_type_t
  vm_fd :: int
  vm_offset :: u64
  shm_id :: int
  vm_name :: "string option"

record vma_manager_t =
  vma_list :: "vma_t list"
  vm_total :: u64
  vm_used :: u64

abbreviation vma_bytes :: nat where
  "vma_bytes \<equiv> 72"

definition vma_alloc :: "(nat \<Rightarrow> bool) \<Rightarrow> vma_t option" where
  "vma_alloc malloc_ok =
     (if \<not> malloc_ok vma_bytes then None
      else Some \<lparr>vm_start = 0, vm_end = 0, vm_flags = 0, vm_type = VMA_TYPE_ANON, vm_fd = -1, vm_offset = 0,
        shm_id = -1, vm_name = None\<rparr>)"

primrec vma_find_from :: "nat \<Rightarrow> vma_t list \<Rightarrow> u64 \<Rightarrow> nat option" where
  "vma_find_from i [] addr = None"
| "vma_find_from i (vma # vmas) addr =
     (if addr \<ge> vm_start vma \<and> addr < vm_end vma then Some i else vma_find_from (Suc i) vmas addr)"

definition vma_find :: "vma_manager_t \<Rightarrow> u64 \<Rightarrow> nat option" where
  "vma_find mgr addr = vma_find_from 0 (vma_list mgr) addr"

primrec vma_intersection_from :: "nat \<Rightarrow> vma_t list \<Rightarrow> u64 \<Rightarrow> u64 \<Rightarrow> nat option" where
  "vma_intersection_from i [] start stop = None"
| "vma_intersection_from i (vma # vmas) start stop =
     (if \<not> (stop \<le> vm_start vma \<or> start \<ge> vm_end vma) then Some i
      else vma_intersection_from (Suc i) vmas start stop)"

definition vma_find_intersection :: "vma_manager_t \<Rightarrow> u64 \<Rightarrow> u64 \<Rightarrow> nat option" where
  "vma_find_intersection mgr start stop = vma_intersection_from 0 (vma_list mgr) start stop"

text \<open>The walk to the insertion point and the relinking around it.\<close>

primrec link_sorted :: "vma_t \<Rightarrow> vma_t list \<Rightarrow> vma_t list" where
  "link_sorted new_vma [] = [new_vma]"
| "link_sorted new_vma (vma # vmas) =
     (if vm_start vma < vm_start new_vma then vma # link_sorted new_vma vmas else new_vma # vma # vmas)"

definition vma_insert :: "vma_manager_t \<Rightarrow> vma_t option \<Rightarrow> int \<times> vma_manager_t" where
  "vma_insert mgr new_vma =
     (case new_vma of
        None \<Rightarrow> (-1, mgr)
      | Some new_vma \<Rightarrow>
          if vma_find_intersection mgr (vm_start new_vma) (vm_end new_vma) \<noteq> None then (-1, mgr)
          else (0, mgr\<lparr>vma_list := link_sorted new_vma (vma_list mgr),
                       vm_used := vm_used mgr + (vm_end new_vma - vm_start new_vma)\<rparr>))"

definition vma_remove :: "vma_manager_t \<Rightarrow> nat option \<Rightarrow> (int \<times> vma_manager_t) option" where
  "vma_remove mgr vma =
     (case vma of
        None \<Rightarrow> Some (-1, mgr)
      | Some i \<Rightarrow> do {
          v \<leftarrow> aget (vma_list mgr) i;
          Some (0, mgr\<lparr>vma_list := take i (vma_list mgr) @ drop (Suc i) (vma_list mgr),
                       vm_used := vm_used mgr - (vm_end v - vm_start v)\<rparr>)
        })"

text \<open>The area cut at \<open>addr\<close>: the shortened area and the one linked behind it, none when the call answers \<open>-1\<close>.\<close>

definition vma_split :: "(nat \<Rightarrow> bool) \<Rightarrow> vma_t \<Rightarrow> u64 \<Rightarrow> (vma_t \<times> vma_t option) option" where
  "vma_split malloc_ok vma addr =
     (if addr \<le> vm_start vma \<or> addr \<ge> vm_end vma then Some (vma, None)
      else case vma_alloc malloc_ok of
        None \<Rightarrow> Some (vma, None)
      | Some _ \<Rightarrow> do {
          name \<leftarrow> strdup malloc_ok (vm_name vma);
          let new_vma = vma\<lparr>vm_name := name, vm_start := addr\<rparr>;
          let new_vma = (if vm_type vma = VMA_TYPE_FILE
             then new_vma\<lparr>vm_offset := vm_offset new_vma + (addr - vm_start vma)\<rparr> else new_vma);
          Some (vma\<lparr>vm_end := addr\<rparr>, Some new_vma)
        })"

text \<open>\<open>vma2\<close> is the successor of \<open>vma1\<close>.  \<open>free(vma2->vm_name)\<close> is followed by \<open>vma_free(vma2)\<close>, which frees it again.\<close>

definition vma_merge :: "vma_t option \<Rightarrow> vma_t option \<Rightarrow> (int \<times> vma_t list) option" where
  "vma_merge vma1 vma2 =
     (case (vma1, vma2) of
        (Some v1, Some v2) \<Rightarrow>
          if vm_end v1 \<noteq> vm_start v2 then Some (-1, [v1, v2])
          else if vm_flags v1 \<noteq> vm_flags v2 \<or> vm_type v1 \<noteq> vm_type v2 \<or> vm_fd v1 \<noteq> vm_fd v2 then Some (-1, [v1, v2])
          else if vm_name v2 \<noteq> None then None
          else Some (0, [v1\<lparr>vm_end := vm_end v2\<rparr>])
      | (Some v1, None) \<Rightarrow> Some (-1, [v1])
      | (None, Some v2) \<Rightarrow> Some (-1, [v2])
      | (None, None) \<Rightarrow> Some (-1, []))"

text \<open>
  The area that spans the whole range: both splits, then the removal of whatever follows \<open>vma\<close>.  The result is the
  list that replaces \<open>vma # rest\<close> up to the saved \<open>next\<close>, and the number of bytes taken off \<open>vm_used\<close>.  When neither
  split happened and the chain goes on, \<open>next\<close> itself is removed and read after being freed.
\<close>

definition unmap_spanning ::
  "(nat \<Rightarrow> bool) \<Rightarrow> (nat \<Rightarrow> bool) \<Rightarrow> u64 \<Rightarrow> u64 \<Rightarrow> vma_t \<Rightarrow> bool \<Rightarrow> (vma_t list \<times> u64) option" where
  "unmap_spanning mem1 mem2 start stop vma has_next = do {
     (vma, tail) \<leftarrow> vma_split mem1 vma stop;
     (vma, middle) \<leftarrow> vma_split mem2 vma start;
     (case (middle, tail) of
        (Some m, Some t) \<Rightarrow> Some ([vma, t], vm_end m - vm_start m)
      | (Some m, None) \<Rightarrow> Some ([vma], vm_end m - vm_start m)
      | (None, Some t) \<Rightarrow> Some ([vma], vm_end t - vm_start t)
      | (None, None) \<Rightarrow> if has_next then None else Some ([vma], 0))
   }"

primrec unmap_loop ::
  "(nat \<Rightarrow> nat \<Rightarrow> bool) \<Rightarrow> nat \<Rightarrow> u64 \<Rightarrow> u64 \<Rightarrow> vma_t list \<Rightarrow> u64 \<Rightarrow> (vma_t list \<times> u64) option" where
  "unmap_loop mem n start stop [] used = Some ([], used)"
| "unmap_loop mem n start stop (vma # vmas) used =
     (if vm_start vma \<ge> start \<and> vm_end vma \<le> stop then
        unmap_loop mem n start stop vmas (used - (vm_end vma - vm_start vma))
      else if \<not> (vm_end vma \<le> start \<or> vm_start vma \<ge> stop) then
        if vm_start vma < start \<and> vm_end vma > stop then do {
          (kept, bytes) \<leftarrow> unmap_spanning (mem n) (mem (n + 1)) start stop vma (vmas \<noteq> []);
          (rest, used) \<leftarrow> unmap_loop mem (n + 2) start stop vmas (used - bytes);
          Some (kept @ rest, used)
        }
        else if vm_start vma < start then do {
          (rest, used) \<leftarrow> unmap_loop mem n start stop vmas (used - (vm_end vma - start));
          Some (vma\<lparr>vm_end := start\<rparr> # rest, used)
        }
        else if vm_end vma > stop then do {
          (rest, used) \<leftarrow> unmap_loop mem n start stop vmas (used - (stop - vm_start vma));
          let vma = (if vm_type vma = VMA_TYPE_FILE
             then vma\<lparr>vm_offset := vm_offset vma + (stop - vm_start vma)\<rparr> else vma);
          Some (vma\<lparr>vm_start := stop\<rparr> # rest, used)
        }
        else map_option (map_prod ((#) vma) id) (unmap_loop mem n start stop vmas used)
      else map_option (map_prod ((#) vma) id) (unmap_loop mem n start stop vmas used))"

definition vma_unmap_range :: "(nat \<Rightarrow> nat \<Rightarrow> bool) \<Rightarrow> vma_manager_t \<Rightarrow> u64 \<Rightarrow> u64 \<Rightarrow> (int \<times> vma_manager_t) option" where
  "vma_unmap_range mem mgr start stop = do {
     (vmas, used) \<leftarrow> unmap_loop mem 0 start stop (vma_list mgr) (vm_used mgr);
     Some (0, mgr\<lparr>vma_list := vmas, vm_used := used\<rparr>)
   }"

text \<open>The walk of \<open>vma_manager_exit_cleanup\<close> unlinks the head until the chain is empty.\<close>

primrec cleanup_loop :: "vma_t list \<Rightarrow> vma_manager_t \<Rightarrow> vma_manager_t" where
  "cleanup_loop [] mgr = mgr"
| "cleanup_loop (vma # vmas) mgr =
     cleanup_loop vmas (mgr\<lparr>vma_list := vmas, vm_used := vm_used mgr - (vm_end vma - vm_start vma)\<rparr>)"

definition vma_manager_exit_cleanup :: "vma_manager_t option \<Rightarrow> vma_manager_t option" where
  "vma_manager_exit_cleanup mgr =
     map_option (\<lambda>mgr. (cleanup_loop (vma_list mgr) mgr)\<lparr>vma_list := [], vm_total := 0, vm_used := 0\<rparr>) mgr"

text \<open>One round of the copy loop; \<open>Inl\<close> is the cleaned-up destination of a failed clone.\<close>

definition clone_one :: "(nat \<Rightarrow> bool) \<Rightarrow> vma_t \<Rightarrow> vma_manager_t \<Rightarrow> (vma_manager_t + vma_manager_t) option" where
  "clone_one malloc_ok src_vma dst =
     (case vma_alloc malloc_ok of
        None \<Rightarrow> map_option Inl (vma_manager_exit_cleanup (Some dst))
      | Some new_vma \<Rightarrow> do {
          name \<leftarrow> (if vm_name src_vma \<noteq> None then strdup malloc_ok (vm_name src_vma) else Some None);
          let new_vma = new_vma\<lparr>vm_start := vm_start src_vma, vm_end := vm_end src_vma, vm_flags := vm_flags src_vma,
             vm_type := vm_type src_vma, vm_fd := vm_fd src_vma, vm_offset := vm_offset src_vma,
             shm_id := shm_id src_vma, vm_name := name\<rparr>;
          (case vma_insert dst (Some new_vma) of
             (r, dst') \<Rightarrow> if r \<noteq> 0 then map_option Inl (vma_manager_exit_cleanup (Some dst')) else Some (Inr dst'))
        })"

primrec clone_loop :: "(nat \<Rightarrow> nat \<Rightarrow> bool) \<Rightarrow> nat \<Rightarrow> vma_t list \<Rightarrow> vma_manager_t \<Rightarrow> (bool \<times> vma_manager_t) option" where
  "clone_loop mem n [] dst = Some (True, dst)"
| "clone_loop mem n (src_vma # vmas) dst = do {
     r \<leftarrow> clone_one (mem n) src_vma dst;
     (case r of Inl dst' \<Rightarrow> Some (False, dst') | Inr dst' \<Rightarrow> clone_loop mem (Suc n) vmas dst')
   }"

definition vma_manager_clone ::
  "(nat \<Rightarrow> nat \<Rightarrow> bool) \<Rightarrow> vma_manager_t option \<Rightarrow> vma_manager_t option \<Rightarrow> (bool \<times> vma_manager_t option) option" where
  "vma_manager_clone mem src_mgr dst_mgr =
     (case (src_mgr, dst_mgr) of
        (Some src, Some dst) \<Rightarrow>
          map_option (map_prod id Some)
            (clone_loop mem 0 (vma_list src) (dst\<lparr>vma_list := [], vm_total := vm_total src, vm_used := 0\<rparr>))
      | _ \<Rightarrow> Some (False, dst_mgr))"

section \<open>Areas as a partial function on addresses\<close>

text \<open>
  What an address maps to: protection, kind, descriptor, shared-memory id, name, and for a file mapping the position in
  the file.  A chain is read as the partial function \<open>mapped\<close> from addresses to such views.
\<close>

type_synonym view = "u64 \<times> vma_type_t \<times> int \<times> int \<times> string option \<times> u64"

definition inside :: "vma_t \<Rightarrow> u64 \<Rightarrow> bool" where
  "inside v a \<longleftrightarrow> vm_start v \<le> a \<and> a < vm_end v"

definition view_at :: "vma_t \<Rightarrow> u64 \<Rightarrow> view" where
  "view_at v a = (vm_flags v, vm_type v, vm_fd v, shm_id v, vm_name v,
     if vm_type v = VMA_TYPE_FILE then vm_offset v + (a - vm_start v) else vm_offset v)"

primrec mapped :: "vma_t list \<Rightarrow> u64 \<Rightarrow> view option" where
  "mapped [] a = None"
| "mapped (v # vs) a = (if inside v a then Some (view_at v a) else mapped vs a)"

definition area_bytes :: "vma_t \<Rightarrow> u64" where
  "area_bytes v = vm_end v - vm_start v"

definition total_bytes :: "vma_t list \<Rightarrow> u64" where
  "total_bytes vs = sum_list (map area_bytes vs)"

definition areas_ok :: "vma_t list \<Rightarrow> bool" where
  "areas_ok vs \<longleftrightarrow> sorted_wrt (\<lambda>v w. vm_end v \<le> vm_start w) vs \<and> (\<forall>v\<in>set vs. vm_start v < vm_end v)"

definition mgr_ok :: "vma_manager_t \<Rightarrow> bool" where
  "mgr_ok mgr \<longleftrightarrow> areas_ok (vma_list mgr) \<and> vm_used mgr = total_bytes (vma_list mgr)"

definition mgr_map :: "vma_manager_t \<Rightarrow> u64 \<Rightarrow> view option" where
  "mgr_map mgr = mapped (vma_list mgr)"

lemma total_bytes_simps [simp]:
  "total_bytes [] = 0" "total_bytes (v # vs) = area_bytes v + total_bytes vs"
  "total_bytes (vs @ ws) = total_bytes vs + total_bytes ws"
  by (simp_all add: total_bytes_def)

lemma areas_ok_Cons:
  "areas_ok (v # vs) \<longleftrightarrow> vm_start v < vm_end v \<and> (\<forall>w\<in>set vs. vm_end v \<le> vm_start w) \<and> areas_ok vs"
  by (auto simp: areas_ok_def)

lemma areas_ok_Nil [simp]: "areas_ok []"
  by (simp add: areas_ok_def)

lemma areas_ok_append:
  "areas_ok (vs @ ws) \<longleftrightarrow> areas_ok vs \<and> areas_ok ws \<and> (\<forall>v\<in>set vs. \<forall>w\<in>set ws. vm_end v \<le> vm_start w)"
  by (auto simp: areas_ok_def sorted_wrt_append)

lemma mapped_None: "mapped vs a = None \<longleftrightarrow> (\<forall>v\<in>set vs. \<not> inside v a)"
  by (induction vs) auto

lemma mapped_append: "mapped (vs @ ws) a = (case mapped vs a of None \<Rightarrow> mapped ws a | Some x \<Rightarrow> Some x)"
  by (induction vs) auto

lemma mapped_above: "\<forall>w\<in>set vs. lo \<le> vm_start w \<Longrightarrow> a < lo \<Longrightarrow> mapped vs a = None"
  unfolding mapped_None by (auto simp: inside_def)

lemma above_mapped:
  assumes "areas_ok vs'" "\<And>a. mapped vs a = None \<Longrightarrow> mapped vs' a = None" "\<forall>w\<in>set vs. lo \<le> vm_start w"
  shows "\<forall>w\<in>set vs'. lo \<le> vm_start w"
proof
  fix w assume w: "w \<in> set vs'"
  then have "inside w (vm_start w)" using assms(1) by (auto simp: areas_ok_def inside_def)
  then have "mapped vs (vm_start w) \<noteq> None" using assms(2) [of "vm_start w"] w by (auto simp: mapped_None)
  then obtain v where "v \<in> set vs" "inside v (vm_start w)" by (auto simp: mapped_None)
  then show "lo \<le> vm_start w" using assms(3) by (force simp: inside_def)
qed

subsection \<open>Finding\<close>

lemma vma_find_from_spec:
  "vma_find_from n vs a = (case vma_find_from 0 vs a of None \<Rightarrow> None | Some i \<Rightarrow> Some (n + i))"
proof (induction vs arbitrary: n)
  case (Cons v vs)
  show ?case using Cons.IH [of "Suc n"] Cons.IH [of "Suc 0"] by (simp split: option.split)
qed simp

lemma vma_find_spec:
  assumes "vma_find mgr a = Some i"
  shows "i < length (vma_list mgr)" "inside (vma_list mgr ! i) a" "mgr_map mgr a = Some (view_at (vma_list mgr ! i) a)"
proof -
  have "i < length vs \<and> inside (vs ! i) a \<and> mapped vs a = Some (view_at (vs ! i) a)"
    if "vma_find_from 0 vs a = Some i" for vs
    using that
  proof (induction vs arbitrary: i)
    case (Cons v vs)
    then show ?case using vma_find_from_spec [of "Suc 0" vs a]
      by (auto simp: inside_def split: if_splits option.splits)
  qed simp
  then show "i < length (vma_list mgr)" "inside (vma_list mgr ! i) a"
    "mgr_map mgr a = Some (view_at (vma_list mgr ! i) a)"
    using assms by (auto simp: vma_find_def mgr_map_def)
qed

lemma vma_find_None: "vma_find mgr a = None \<longleftrightarrow> mgr_map mgr a = None"
proof -
  have "vma_find_from n vs a = None \<longleftrightarrow> mapped vs a = None" for n vs
    by (induction vs arbitrary: n) (auto simp: inside_def)
  then show ?thesis by (simp add: vma_find_def mgr_map_def)
qed

lemma vma_find_intersection_None:
  assumes "areas_ok (vma_list mgr)" "start < stop"
  shows "vma_find_intersection mgr start stop = None \<longleftrightarrow> (\<forall>a. start \<le> a \<and> a < stop \<longrightarrow> mgr_map mgr a = None)"
proof -
  have iff: "vma_intersection_from n vs start stop = None \<longleftrightarrow>
      (\<forall>v\<in>set vs. stop \<le> vm_start v \<or> start \<ge> vm_end v)" for n vs
    by (induction vs arbitrary: n) auto
  have "(stop \<le> vm_start v \<or> start \<ge> vm_end v) \<longleftrightarrow> (\<forall>a. start \<le> a \<and> a < stop \<longrightarrow> \<not> inside v a)"
    if "v \<in> set (vma_list mgr)" for v
  proof -
    have "vm_start v < vm_end v" using that assms(1) by (simp add: areas_ok_def)
    then have "\<exists>a. start \<le> a \<and> a < stop \<and> inside v a" if "\<not> (stop \<le> vm_start v \<or> start \<ge> vm_end v)"
      using that assms(2) by (intro exI [of _ "max start (vm_start v)"]) (auto simp: inside_def max_def)
    then show ?thesis by (force simp: inside_def)
  qed
  then show ?thesis by (auto simp: vma_find_intersection_def iff mgr_map_def mapped_None)
qed

subsection \<open>Inserting and removing\<close>

text \<open>The areas that do not meet \<open>new\<close> end before it or start after it.\<close>

definition clear_of :: "vma_t \<Rightarrow> vma_t list \<Rightarrow> bool" where
  "clear_of new vs \<longleftrightarrow> (\<forall>v\<in>set vs. vm_end new \<le> vm_start v \<or> vm_end v \<le> vm_start new)"

lemma intersection_None_clear:
  "vma_find_intersection mgr (vm_start new) (vm_end new) = None \<longleftrightarrow> clear_of new (vma_list mgr)"
proof -
  have "vma_intersection_from n vs (vm_start new) (vm_end new) = None \<longleftrightarrow> clear_of new vs" for n vs
    by (induction vs arbitrary: n) (auto simp: clear_of_def)
  then show ?thesis by (simp add: vma_find_intersection_def)
qed

lemma set_link_sorted: "set (link_sorted new vs) = insert new (set vs)"
  by (induction vs) auto

lemma total_link_sorted: "total_bytes (link_sorted new vs) = total_bytes vs + area_bytes new"
  by (induction vs) (auto simp: algebra_simps)

lemma link_sorted_ok:
  assumes "areas_ok vs" "vm_start new < vm_end new" "clear_of new vs"
  shows "areas_ok (link_sorted new vs)"
    "mapped (link_sorted new vs) a = (if inside new a then Some (view_at new a) else mapped vs a)"
proof -
  have "areas_ok (link_sorted new vs) \<and>
      mapped (link_sorted new vs) a = (if inside new a then Some (view_at new a) else mapped vs a)"
    using assms
  proof (induction vs)
    case (Cons v vs)
    have v: "vm_start v < vm_end v" "vm_end new \<le> vm_start v \<or> vm_end v \<le> vm_start new"
      using Cons.prems by (auto simp: areas_ok_Cons clear_of_def)
    show ?case
    proof (cases "vm_start v < vm_start new")
      case True
      then have before: "vm_end v \<le> vm_start new" using v Cons.prems(2) by force
      moreover have "\<not> (inside new a \<and> inside v a)" using before by (auto simp: inside_def)
      ultimately show ?thesis using True Cons by (auto simp: areas_ok_Cons clear_of_def set_link_sorted)
    next
      case False
      then have "vm_end new \<le> vm_start v" using v Cons.prems(2) by force
      then show ?thesis using False Cons.prems v by (force simp: areas_ok_Cons)
    qed
  qed (simp add: areas_ok_Cons)
  then show "areas_ok (link_sorted new vs)"
    "mapped (link_sorted new vs) a = (if inside new a then Some (view_at new a) else mapped vs a)" by auto
qed

lemma vma_insert_spec:
  assumes "mgr_ok mgr" "vm_start new < vm_end new"
    and free: "\<And>a. vm_start new \<le> a \<Longrightarrow> a < vm_end new \<Longrightarrow> mgr_map mgr a = None"
  shows "\<exists>mgr'. vma_insert mgr (Some new) = (0, mgr') \<and> mgr_ok mgr' \<and> vm_total mgr' = vm_total mgr \<and>
    mgr_map mgr' = (\<lambda>a. if inside new a then Some (view_at new a) else mgr_map mgr a)"
proof -
  have none: "vma_find_intersection mgr (vm_start new) (vm_end new) = None"
    using assms by (simp add: vma_find_intersection_None mgr_ok_def)
  then have "clear_of new (vma_list mgr)" by (simp add: intersection_None_clear)
  note link = link_sorted_ok [OF _ assms(2) this]
  show ?thesis using assms(1) none
    by (auto simp: vma_insert_def mgr_ok_def total_link_sorted area_bytes_def mgr_map_def link fun_eq_iff)
qed

lemma vma_insert_overlap:
  assumes "mgr_ok mgr" "vm_start new \<le> a" "a < vm_end new" "mgr_map mgr a \<noteq> None"
  shows "vma_insert mgr (Some new) = (-1, mgr)"
proof -
  have "vm_start new < vm_end new" using assms(2,3) by simp
  then have "vma_find_intersection mgr (vm_start new) (vm_end new) \<noteq> None"
    using assms vma_find_intersection_None by (metis mgr_ok_def)
  then show ?thesis by (simp add: vma_insert_def)
qed

lemma vma_remove_spec:
  assumes "mgr_ok mgr" "i < length (vma_list mgr)"
  shows "\<exists>mgr'. vma_remove mgr (Some i) = Some (0, mgr') \<and> mgr_ok mgr' \<and>
    mgr_map mgr' = (\<lambda>a. if inside (vma_list mgr ! i) a then None else mgr_map mgr a)"
proof -
  let ?v = "vma_list mgr ! i"
  define pre post where "pre = take i (vma_list mgr)" and "post = drop (Suc i) (vma_list mgr)"
  have split: "vma_list mgr = pre @ ?v # post" using assms(2) by (simp add: pre_def post_def id_take_nth_drop)
  have ok: "areas_ok (pre @ ?v # post)" using assms(1) split by (simp add: mgr_ok_def)
  have "mapped (pre @ post) a = (if inside ?v a then None else mapped (pre @ ?v # post) a)" for a
  proof (cases "inside ?v a")
    case True
    then have "\<not> inside w a" if "w \<in> set (pre @ post)" for w
      using that ok by (auto simp: areas_ok_append areas_ok_Cons inside_def)
    then show ?thesis using True by (simp add: mapped_None)
  qed (simp add: mapped_append split: option.split)
  moreover have "areas_ok (pre @ post)" using ok by (auto simp: areas_ok_append areas_ok_Cons)
  moreover have "total_bytes (vma_list mgr) = total_bytes (pre @ post) + area_bytes ?v"
    by (subst split) simp
  ultimately show ?thesis using assms split
    by (simp add: vma_remove_def mgr_ok_def mgr_map_def fun_eq_iff pre_def [symmetric] post_def [symmetric]
        area_bytes_def [symmetric])
qed

subsection \<open>Splitting, merging and unmapping\<close>

text \<open>A split area covers the same addresses with the same views, the file position included.\<close>

lemma vma_split_spec:
  assumes "vm_start v < addr" "addr < vm_end v" "\<And>n. malloc_ok n"
  obtains new where "vma_split malloc_ok v addr = Some (v\<lparr>vm_end := addr\<rparr>, Some new)"
    "vm_start new = addr" "vm_end new = vm_end v"
    "\<And>a. view_at new a = view_at v a"
proof -
  have name: "strdup malloc_ok (vm_name v) = Some (vm_name v)"
    using assms(3) by (simp add: strdup_def split: option.split)
  define new where "new = (let w = v\<lparr>vm_start := addr\<rparr> in
    if vm_type v = VMA_TYPE_FILE then w\<lparr>vm_offset := vm_offset w + (addr - vm_start v)\<rparr> else w)"
  show ?thesis
  proof (rule that)
    show "vma_split malloc_ok v addr = Some (v\<lparr>vm_end := addr\<rparr>, Some new)"
      using assms name by (simp add: not_le vma_split_def vma_alloc_def new_def Let_def)
    show "view_at new a = view_at v a" for a by (simp add: view_at_def new_def Let_def)
  qed (simp_all add: new_def Let_def)
qed

lemma view_at_end [simp]: "view_at (v\<lparr>vm_end := e\<rparr>) a = view_at v a"
  by (simp add: view_at_def)

lemma unmap_spanning_spec:
  assumes "vm_start v < start" "start < stop" "stop < vm_end v" "\<And>n. mem1 n" "\<And>n. mem2 n"
  obtains t where "unmap_spanning mem1 mem2 start stop v has_next = Some ([v\<lparr>vm_end := start\<rparr>, t], stop - start)"
    "vm_start t = stop" "vm_end t = vm_end v" "\<And>a. view_at t a = view_at v a"
proof -
  obtain t where t: "vma_split mem1 v stop = Some (v\<lparr>vm_end := stop\<rparr>, Some t)"
    "vm_start t = stop" "vm_end t = vm_end v" "\<And>a. view_at t a = view_at v a"
    using vma_split_spec [of v stop mem1] assms by (metis less_trans)
  obtain m where m: "vma_split mem2 (v\<lparr>vm_end := stop\<rparr>) start = Some (v\<lparr>vm_end := start\<rparr>, Some m)"
    "vm_start m = start" "vm_end m = stop"
    using vma_split_spec [of "v\<lparr>vm_end := stop\<rparr>" start mem2] assms by auto
  show ?thesis by (rule that [of t]) (use t m in \<open>simp_all add: unmap_spanning_def\<close>)
qed

text \<open>The shortened head of an area that sticks out above the range.\<close>

definition cut_front :: "u64 \<Rightarrow> vma_t \<Rightarrow> vma_t" where
  "cut_front stop v = (let w = (if vm_type v = VMA_TYPE_FILE
     then v\<lparr>vm_offset := vm_offset v + (stop - vm_start v)\<rparr> else v) in w\<lparr>vm_start := stop\<rparr>)"

lemma cut_front_simps [simp]:
  "vm_start (cut_front stop v) = stop" "vm_end (cut_front stop v) = vm_end v"
  "view_at (cut_front stop v) a = view_at v a"
  by (simp_all add: cut_front_def Let_def view_at_def)

text \<open>What one area becomes: the pieces of it outside the range, in order.\<close>

definition unmapped_as :: "u64 \<Rightarrow> u64 \<Rightarrow> vma_t \<Rightarrow> vma_t list \<Rightarrow> bool" where
  "unmapped_as start stop v kept \<longleftrightarrow> areas_ok kept \<and>
     (\<forall>w\<in>set kept. vm_end w \<le> vm_end v) \<and>
     (\<forall>a. mapped kept a = (if inside v a \<and> \<not> (start \<le> a \<and> a < stop) then Some (view_at v a) else None))"

lemma unmap_loop_Cons:
  assumes "vm_start v < vm_end v" "start < stop" "\<And>n s. mem n s"
  shows "\<exists>kept bytes n'. unmapped_as start stop v kept \<and> bytes + total_bytes kept = area_bytes v \<and>
    unmap_loop mem n start stop (v # vs) used =
      map_option (map_prod ((@) kept) id) (unmap_loop mem n' start stop vs (used - bytes))"
proof -
  consider (gone) "start \<le> vm_start v" "vm_end v \<le> stop" | (span) "vm_start v < start" "stop < vm_end v"
    | (low) "vm_start v < start" "start < vm_end v" "vm_end v \<le> stop"
    | (high) "start \<le> vm_start v" "vm_start v < stop" "stop < vm_end v"
    | (away) "vm_end v \<le> start \<or> stop \<le> vm_start v"
    by force
  then show ?thesis
  proof cases
    case gone
    then show ?thesis
      by (intro exI [of _ "[]"] exI [of _ "area_bytes v"] exI [of _ n])
        (auto simp: unmapped_as_def area_bytes_def inside_def map_prod_def id_def intro!: option.map_ident [symmetric])
  next
    case span
    obtain t where t: "unmap_spanning (mem n) (mem (n + 1)) start stop v (vs \<noteq> []) =
        Some ([v\<lparr>vm_end := start\<rparr>, t], stop - start)"
      "vm_start t = stop" "vm_end t = vm_end v" "\<And>a. view_at t a = view_at v a"
      using unmap_spanning_spec [of v start stop "mem n" "mem (n + 1)" "vs \<noteq> []"] span assms by blast
    have "unmapped_as start stop v [v\<lparr>vm_end := start\<rparr>, t]" using t span assms
      by (auto simp: unmapped_as_def areas_ok_Cons inside_def)
    moreover have "stop - start + total_bytes [v\<lparr>vm_end := start\<rparr>, t] = area_bytes v"
      using t by (simp add: area_bytes_def)
    ultimately show ?thesis using span assms t(1)
      by (intro exI [of _ "[v\<lparr>vm_end := start\<rparr>, t]"] exI [of _ "stop - start"] exI [of _ "n + 2"])
        (cases "unmap_loop mem (n + 2) start stop vs (used - (stop - start))"; auto)
  next
    case low
    have "unmapped_as start stop v [v\<lparr>vm_end := start\<rparr>]" using low assms
      by (auto simp: unmapped_as_def areas_ok_Cons inside_def)
    then show ?thesis using low assms
      by (intro exI [of _ "[v\<lparr>vm_end := start\<rparr>]"] exI [of _ "vm_end v - start"] exI [of _ n])
        (cases "unmap_loop mem n start stop vs (used - (vm_end v - start))"; auto simp: area_bytes_def)
  next
    case high
    have "unmapped_as start stop v [cut_front stop v]" using high assms
      by (auto simp: unmapped_as_def areas_ok_Cons inside_def)
    then show ?thesis using high assms
      by (intro exI [of _ "[cut_front stop v]"] exI [of _ "stop - vm_start v"] exI [of _ n])
        (cases "unmap_loop mem n start stop vs (used - (stop - vm_start v))";
          auto simp: area_bytes_def cut_front_def Let_def)
  next
    case away
    have "unmapped_as start stop v [v]" using away assms
      by (auto simp: unmapped_as_def areas_ok_Cons inside_def)
    then show ?thesis using away assms
      by (intro exI [of _ "[v]"] exI [of _ 0] exI [of _ n]) (auto simp: map_prod_def)
  qed
qed

lemma unmap_loop_spec:
  assumes "areas_ok vs" "start < stop" "\<And>n s. mem n s"
  shows "\<exists>vs' used'. unmap_loop mem n start stop vs used = Some (vs', used') \<and> areas_ok vs' \<and>
    used' + total_bytes vs = used + total_bytes vs' \<and>
    (\<forall>a. mapped vs' a = (if start \<le> a \<and> a < stop then None else mapped vs a))"
  using assms(1)
proof (induction vs arbitrary: n used)
  case (Cons v vs)
  have v: "vm_start v < vm_end v" "\<forall>w\<in>set vs. vm_end v \<le> vm_start w" and ok: "areas_ok vs"
    using Cons.prems by (auto simp: areas_ok_Cons)
  obtain kept bytes n' where k: "unmapped_as start stop v kept" "bytes + total_bytes kept = area_bytes v"
    and eq: "unmap_loop mem n start stop (v # vs) used =
      map_option (map_prod ((@) kept) id) (unmap_loop mem n' start stop vs (used - bytes))"
    using unmap_loop_Cons [where mem = mem and n = n and vs = vs and used = used, OF v(1) assms(2,3)] by blast
  obtain vs' used' where r: "unmap_loop mem n' start stop vs (used - bytes) = Some (vs', used')"
    "areas_ok vs'" "used' + total_bytes vs = used - bytes + total_bytes vs'"
    and look: "\<And>a. mapped vs' a = (if start \<le> a \<and> a < stop then None else mapped vs a)"
    using Cons.IH [OF ok, of n' "used - bytes"] by blast
  have above: "\<forall>w\<in>set vs'. vm_end v \<le> vm_start w"
    using above_mapped [OF r(2) _ v(2)] look by simp
  have "areas_ok (kept @ vs')" using k(1) r(2) above by (force simp: unmapped_as_def areas_ok_append)
  moreover have "used' + total_bytes (v # vs) = used + total_bytes (kept @ vs')"
    using r(3) by (simp add: k(2) [symmetric] algebra_simps)
  moreover have "mapped (kept @ vs') a = (if start \<le> a \<and> a < stop then None else mapped (v # vs) a)" for a
  proof (cases "inside v a")
    case True
    then have "mapped vs' a = None" using mapped_above [OF above] by (simp add: inside_def)
    then show ?thesis using True k(1) by (simp add: unmapped_as_def mapped_append)
  qed (use k(1) look in \<open>simp add: unmapped_as_def mapped_append\<close>)
  ultimately show ?case using eq r(1) by auto
qed simp

lemma vma_unmap_range_spec:
  assumes "mgr_ok mgr" "start < stop" "\<And>n s. mem n s"
  shows "\<exists>mgr'. vma_unmap_range mem mgr start stop = Some (0, mgr') \<and> mgr_ok mgr' \<and>
    mgr_map mgr' = (\<lambda>a. if start \<le> a \<and> a < stop then None else mgr_map mgr a)"
proof -
  have ok: "areas_ok (vma_list mgr)" "vm_used mgr = total_bytes (vma_list mgr)"
    using assms(1) by (simp_all add: mgr_ok_def)
  obtain vs' used' where r: "unmap_loop mem 0 start stop (vma_list mgr) (vm_used mgr) = Some (vs', used')"
    "areas_ok vs'" "used' + total_bytes (vma_list mgr) = vm_used mgr + total_bytes vs'"
    "\<And>a. mapped vs' a = (if start \<le> a \<and> a < stop then None else mapped (vma_list mgr) a)"
    using unmap_loop_spec [where mem = mem and n = 0 and used = "vm_used mgr", OF ok(1) assms(2,3)] by blast
  then show ?thesis using ok(2)
    by (auto simp: vma_unmap_range_def mgr_ok_def mgr_map_def fun_eq_iff)
qed

subsection \<open>Cloning\<close>

lemma link_sorted_last:
  "areas_ok (vs @ [v]) \<Longrightarrow> link_sorted v vs = vs @ [v]"
proof (induction vs)
  case (Cons w vs)
  then have "vm_start w < vm_end w" "vm_end w \<le> vm_start v" by (auto simp: areas_ok_append areas_ok_Cons)
  then have "vm_start w < vm_start v" by simp
  then show ?case using Cons by (simp add: areas_ok_Cons)
qed simp

lemma clone_loop_spec:
  assumes "areas_ok (vma_list dst @ vs)" "\<And>n s. mem n s" "vm_used dst = total_bytes (vma_list dst)"
  shows "clone_loop mem n vs dst =
    Some (True, dst\<lparr>vma_list := vma_list dst @ vs, vm_used := total_bytes (vma_list dst @ vs)\<rparr>)"
  using assms(1,3)
proof (induction vs arbitrary: dst n)
  case (Cons v vs)
  let ?dst = "dst\<lparr>vma_list := vma_list dst @ [v], vm_used := total_bytes (vma_list dst @ [v])\<rparr>"
  have ok: "areas_ok (vma_list dst @ [v])" using Cons.prems(1) by (auto simp: areas_ok_append areas_ok_Cons)
  then have "clear_of v (vma_list dst)" by (auto simp: clear_of_def areas_ok_append)
  then have "vma_insert dst (Some v) = (0, ?dst)"
    using Cons.prems(2) link_sorted_last [OF ok] intersection_None_clear [of dst v]
    by (simp add: vma_insert_def area_bytes_def)
  then have "clone_one (mem n) v dst = Some (Inr ?dst)"
    by (cases v; cases "vm_name v") (simp_all add: clone_one_def vma_alloc_def strdup_def assms(2))
  then show ?case using Cons.IH [of ?dst "Suc n"] Cons.prems by simp
qed simp

lemma vma_manager_clone_spec:
  assumes "mgr_ok src" "\<And>n s. mem n s"
  shows "vma_manager_clone mem (Some src) (Some dst) =
    Some (True, Some (dst\<lparr>vma_list := vma_list src, vm_total := vm_total src, vm_used := vm_used src\<rparr>))"
proof -
  have "areas_ok (vma_list (dst\<lparr>vma_list := [], vm_total := vm_total src, vm_used := 0\<rparr>) @ vma_list src)"
    using assms(1) by (simp add: mgr_ok_def)
  from clone_loop_spec [OF this assms(2)] show ?thesis using assms(1)
    by (simp add: vma_manager_clone_def mgr_ok_def)
qed

section \<open>The contract of an address space\<close>

locale address_space =
  fixes enter :: "'m \<Rightarrow> 'v \<Rightarrow> 'm option"
    and unmap :: "'m \<Rightarrow> 'a :: linorder \<Rightarrow> 'a \<Rightarrow> 'm option"
    and inv :: "'m \<Rightarrow> bool"
    and abs :: "'m \<Rightarrow> 'a \<Rightarrow> 'w option"
    and valid :: "'v \<Rightarrow> bool"
    and area :: "'v \<Rightarrow> 'a \<Rightarrow> 'w option"
  assumes enter_law: "inv m \<Longrightarrow> valid v \<Longrightarrow> dom (area v) \<inter> dom (abs m) = {} \<Longrightarrow>
      \<exists>m'. enter m v = Some m' \<and> inv m' \<and> abs m' = abs m ++ area v"
    and refuse_law: "inv m \<Longrightarrow> valid v \<Longrightarrow> dom (area v) \<inter> dom (abs m) \<noteq> {} \<Longrightarrow> enter m v = None"
    and unmap_law: "inv m \<Longrightarrow> lo < hi \<Longrightarrow>
      \<exists>m'. unmap m lo hi = Some m' \<and> inv m' \<and> abs m' = abs m |` (- {lo..<hi})"
begin

text \<open>Mapping over a range that was just unmapped succeeds and leaves the rest as it was.\<close>

lemma map_fixed:
  assumes "inv m" "valid v" "lo < hi" "dom (area v) \<subseteq> {lo..<hi}"
  shows "\<exists>m1 m2. unmap m lo hi = Some m1 \<and> enter m1 v = Some m2 \<and> inv m2 \<and>
    abs m2 = abs m |` (- {lo..<hi}) ++ area v"
proof -
  obtain m1 where m1: "unmap m lo hi = Some m1" "inv m1" "abs m1 = abs m |` (- {lo..<hi})"
    using unmap_law [OF assms(1,3)] by blast
  have "dom (area v) \<inter> dom (abs m1) = {}" using m1(3) assms(4) by auto
  from enter_law [OF m1(2) assms(2) this] show ?thesis using m1 by auto
qed

lemma enter_twice_refused:
  assumes "inv m" "valid v" "enter m v = Some m'" "dom (area v) \<noteq> {}"
  shows "enter m' v = None"
proof -
  have d: "dom (area v) \<inter> dom (abs m) = {}" using refuse_law [OF assms(1,2)] assms(3) by fastforce
  then have "inv m'" "abs m' = abs m ++ area v" using enter_law [OF assms(1,2) d] assms(3) by auto
  then show ?thesis using refuse_law [OF _ assms(2), of m'] assms(4) by auto
qed

end

definition vma_enter :: "vma_manager_t \<Rightarrow> vma_t \<Rightarrow> vma_manager_t option" where
  "vma_enter mgr v = (case vma_insert mgr (Some v) of (r, mgr') \<Rightarrow> if r = 0 then Some mgr' else None)"

definition vma_unmap :: "vma_manager_t \<Rightarrow> u64 \<Rightarrow> u64 \<Rightarrow> vma_manager_t option" where
  "vma_unmap mgr start stop = map_option snd (vma_unmap_range (\<lambda>n s. True) mgr start stop)"

definition area_map :: "vma_t \<Rightarrow> u64 \<Rightarrow> view option" where
  "area_map v a = (if inside v a then Some (view_at v a) else None)"

definition area_valid :: "vma_t \<Rightarrow> bool" where
  "area_valid v \<longleftrightarrow> vm_start v < vm_end v"

lemma vma_enter_disjoint:
  assumes "mgr_ok m" "area_valid v" "dom (area_map v) \<inter> dom (mgr_map m) = {}"
  shows "\<exists>m'. vma_enter m v = Some m' \<and> mgr_ok m' \<and> mgr_map m' = mgr_map m ++ area_map v"
proof -
  have "mgr_map m a = None" if "vm_start v \<le> a" "a < vm_end v" for a
    using assms(3) that by (force simp: area_map_def inside_def)
  then obtain m' where m': "vma_insert m (Some v) = (0, m')" "mgr_ok m'"
    "mgr_map m' = (\<lambda>a. if inside v a then Some (view_at v a) else mgr_map m a)"
    using vma_insert_spec [of m v] assms(1,2) by (auto simp: area_valid_def)
  then show ?thesis using m' by (auto simp: vma_enter_def map_add_def area_map_def fun_eq_iff)
qed

lemma vma_enter_overlap:
  assumes "mgr_ok m" "dom (area_map v) \<inter> dom (mgr_map m) \<noteq> {}"
  shows "vma_enter m v = None"
proof -
  obtain a where "area_map v a \<noteq> None" and a: "mgr_map m a \<noteq> None" using assms(2) by (meson disjoint_iff domIff)
  then have "inside v a" by (simp add: area_map_def split: if_splits)
  then show ?thesis using vma_insert_overlap [of m v a] assms(1) a
    by (simp add: vma_enter_def inside_def)
qed

lemma vma_unmap_law:
  "mgr_ok m \<Longrightarrow> lo < hi \<Longrightarrow>
    \<exists>m'. vma_unmap m lo hi = Some m' \<and> mgr_ok m' \<and> mgr_map m' = mgr_map m |` (- {lo..<hi})"
  using vma_unmap_range_spec [of m lo hi "\<lambda>n s. True"]
  by (auto simp: vma_unmap_def fun_eq_iff restrict_map_def)

interpretation vmas: address_space vma_enter vma_unmap mgr_ok mgr_map area_valid area_map
  by unfold_locales (use vma_enter_disjoint vma_enter_overlap vma_unmap_law in auto)

section \<open>Merging and tearing down\<close>

text \<open>
  \<open>vma_merge\<close> compares flags, type and descriptor only.  It is faithful to the views when the file positions run on
  from one area to the next and the second area is not named.
\<close>

lemma vma_merge_spec:
  assumes "vm_start v1 < vm_end v1" "vm_start v2 < vm_end v2" "vm_end v1 = vm_start v2" "vm_flags v1 = vm_flags v2"
    "vm_type v1 = vm_type v2" "vm_fd v1 = vm_fd v2" "vm_name v1 = None" "vm_name v2 = None" "shm_id v1 = shm_id v2"
    and run_on: "vm_offset v2 = (if vm_type v1 = VMA_TYPE_FILE then vm_offset v1 + area_bytes v1 else vm_offset v1)"
  shows "\<exists>v. vma_merge (Some v1) (Some v2) = Some (0, [v]) \<and> area_bytes v = area_bytes v1 + area_bytes v2 \<and>
    mapped [v] = mapped [v1, v2]"
proof -
  have "area_bytes (v1\<lparr>vm_end := vm_end v2\<rparr>) = area_bytes v1 + area_bytes v2" using assms(3) by (simp add: area_bytes_def)
  moreover have "view_at v2 a = view_at v1 a" for a using assms by (simp add: view_at_def area_bytes_def)
  then have "mapped [v1\<lparr>vm_end := vm_end v2\<rparr>] a = mapped [v1, v2] a" for a
    using assms(1-3) by (auto simp: inside_def)
  ultimately show ?thesis using assms by (auto simp: vma_merge_def fun_eq_iff)
qed

text \<open>A second area with a name is freed twice.\<close>

lemma vma_merge_named:
  assumes "vm_end v1 = vm_start v2" "vm_flags v1 = vm_flags v2" "vm_type v1 = vm_type v2" "vm_fd v1 = vm_fd v2" "vm_name v2 \<noteq> None"
  shows "vma_merge (Some v1) (Some v2) = None"
  using assms by (simp add: vma_merge_def)

lemma cleanup_loop_used: "vm_used (cleanup_loop vs mgr) = vm_used mgr - total_bytes vs"
  by (induction vs arbitrary: mgr) (simp_all only: cleanup_loop.simps total_bytes_simps area_bytes_def
      diff_diff_eq, simp_all)

text \<open>Unmapping the empty range inside an area drops the area's tail: the second split refuses, and the tail is removed.\<close>

lemma unmap_empty_range:
  assumes "vm_start v < p" "p < vm_end v" "\<And>n s. mem n s" "mgr = \<lparr>vma_list = [v], vm_total = t, vm_used = area_bytes v\<rparr>"
  shows "vma_unmap_range mem mgr p p = Some (0, mgr\<lparr>vma_list := [v\<lparr>vm_end := p\<rparr>], vm_used := p - vm_start v\<rparr>)"
proof -
  obtain new where new: "vma_split (mem 0) v p = Some (v\<lparr>vm_end := p\<rparr>, Some new)" "vm_start new = p" "vm_end new = vm_end v"
    using vma_split_spec [OF assms(1,2), of "mem 0"] assms(3) by blast
  moreover have "vma_split (mem (Suc 0)) (v\<lparr>vm_end := p\<rparr>) p = Some (v\<lparr>vm_end := p\<rparr>, None)"
    by (simp add: vma_split_def)
  ultimately have "unmap_spanning (mem 0) (mem (Suc 0)) p p v False = Some ([v\<lparr>vm_end := p\<rparr>], vm_end v - p)"
    by (simp add: unmap_spanning_def)
  then show ?thesis using assms(1,2,4) by (auto simp: vma_unmap_range_def area_bytes_def not_le)
qed

section \<open>Properties\<close>

definition demo_area :: "u64 \<Rightarrow> u64 \<Rightarrow> vma_t" where
  "demo_area lo hi = \<lparr>vm_start = lo, vm_end = hi, vm_flags = 3, vm_type = VMA_TYPE_FILE, vm_fd = 5, vm_offset = 0x8000,
     shm_id = -1, vm_name = None\<rparr>"

definition demo_mgr :: vma_manager_t where
  "demo_mgr = \<lparr>vma_list = [demo_area 0x1000 0x5000, demo_area 0x8000 0x9000], vm_total = 0, vm_used = 0x5000\<rparr>"

lemma demo_mgr_ok: "mgr_ok demo_mgr"
  by (simp add: mgr_ok_def demo_mgr_def demo_area_def areas_ok_def area_bytes_def)

text \<open>
  C7: \<open>vma_unmap_range\<close> removes exactly the addresses of the range.  Every address outside keeps its protection, type,
  descriptor, name and position in the mapped file, also when an area is split in two or cut at the front; the chain stays
  sorted and disjoint and \<open>vm_used\<close> stays the sum of the area sizes.
\<close>

theorem vma_unmap_range_exact:
  assumes "mgr_ok mgr" "start < stop" "\<And>n s. mem n s"
  shows "\<exists>mgr'. vma_unmap_range mem mgr start stop = Some (0, mgr') \<and> mgr_ok mgr' \<and>
    mgr_map mgr' = (\<lambda>a. if start \<le> a \<and> a < stop then None else mgr_map mgr a)"
  using vma_unmap_range_spec [OF assms] .

theorem vma_unmap_range_exact_witness:
  "\<exists>mgr'. vma_unmap_range (\<lambda>n s. True) demo_mgr 0x2000 0x3000 = Some (0, mgr') \<and>
    mgr_map mgr' 0x2800 = None \<and> mgr_map mgr' 0x3000 = Some (3, VMA_TYPE_FILE, 5, -1, None, 0xA000)"
proof -
  have "mgr_map demo_mgr 0x3000 = Some (3, VMA_TYPE_FILE, 5, -1, None, 0xA000)"
    by (simp add: mgr_map_def demo_mgr_def demo_area_def inside_def view_at_def)
  then show ?thesis using vma_unmap_range_exact [OF demo_mgr_ok, of "0x2000" "0x3000" "\<lambda>n s. True"] by auto
qed

text \<open>
  Mapping at a fixed address: unmapping the range of a new area and then inserting it always succeeds, the new area
  answers for its addresses, and everything outside the range is as before.
\<close>

theorem vma_map_fixed:
  assumes "mgr_ok m" "area_valid v"
  shows "\<exists>m1 m2. vma_unmap m (vm_start v) (vm_end v) = Some m1 \<and> vma_enter m1 v = Some m2 \<and> mgr_ok m2 \<and>
    mgr_map m2 = mgr_map m |` (- {vm_start v..<vm_end v}) ++ area_map v"
proof -
  have "dom (area_map v) \<subseteq> {vm_start v..<vm_end v}"
    by (auto simp: area_map_def inside_def split: if_splits)
  then show ?thesis using vmas.map_fixed [OF assms, of "vm_start v" "vm_end v"] assms(2) by (simp add: area_valid_def)
qed

theorem vma_map_fixed_witness:
  "\<exists>m1 m2. vma_unmap demo_mgr 0x4000 0x8800 = Some m1 \<and> vma_enter m1 (demo_area 0x4000 0x8800) = Some m2 \<and> mgr_ok m2"
  using vma_map_fixed [OF demo_mgr_ok, of "demo_area 0x4000 0x8800"] by (simp add: area_valid_def demo_area_def) blast

text \<open>
  C33: \<open>vma_insert\<close> refuses, with \<open>-1\<close> and without a change, every area that shares an address with one in the chain, and
  accepts every other non-empty area, keeping the chain sorted and disjoint and \<open>vm_used\<close> exact.
\<close>

theorem vma_insert_decides:
  assumes "mgr_ok mgr" "vm_start new < vm_end new"
  shows "if \<exists>a. inside new a \<and> mgr_map mgr a \<noteq> None then vma_insert mgr (Some new) = (-1, mgr)
    else \<exists>mgr'. vma_insert mgr (Some new) = (0, mgr') \<and> mgr_ok mgr' \<and>
      mgr_map mgr' = (\<lambda>a. if inside new a then Some (view_at new a) else mgr_map mgr a)"
proof (cases "\<exists>a. inside new a \<and> mgr_map mgr a \<noteq> None")
  case True
  then show ?thesis using vma_insert_overlap [OF assms(1)] by (auto simp: inside_def)
next
  case False
  then have "mgr_map mgr a = None" if "vm_start new \<le> a" "a < vm_end new" for a
    using that unfolding inside_def by blast
  from vma_insert_spec [OF assms this] False show ?thesis by auto
qed

theorem vma_insert_decides_witness:
  "vma_insert demo_mgr (Some (demo_area 0x4000 0x6000)) = (-1, demo_mgr)"
proof -
  have "inside (demo_area 0x4000 0x6000) 0x4000" "mgr_map demo_mgr 0x4000 \<noteq> None"
    by (simp_all add: inside_def demo_area_def mgr_map_def demo_mgr_def)
  then show ?thesis using vma_insert_decides [OF demo_mgr_ok, of "demo_area 0x4000 0x6000"]
    by (simp add: demo_area_def split: if_splits)
qed

text \<open>
  C34: \<open>vma_manager_clone\<close> gives the child an equal address space: the same areas in the same order with the same totals.
\<close>

theorem vma_clone_equal:
  assumes "mgr_ok src" "\<And>n s. mem n s"
  shows "vma_manager_clone mem (Some src) (Some dst) =
    Some (True, Some (dst\<lparr>vma_list := vma_list src, vm_total := vm_total src, vm_used := vm_used src\<rparr>))"
  using vma_manager_clone_spec [OF assms] .

theorem vma_clone_equal_witness:
  "vma_manager_clone (\<lambda>n s. True) (Some demo_mgr) (Some \<lparr>vma_list = [], vm_total = 7, vm_used = 9\<rparr>) =
    Some (True, Some demo_mgr)"
  using vma_clone_equal [OF demo_mgr_ok, of "\<lambda>n s. True"] by (simp add: demo_mgr_def)

text \<open>
  Unmapping an empty range strictly inside an area is not a no-op: the area loses everything above the point, because
  the second split refuses and the tail made by the first one is removed.
\<close>

theorem vma_unmap_empty_range_drops_tail:
  assumes "vm_start v < p" "p < vm_end v" "\<And>n s. mem n s"
    "mgr = \<lparr>vma_list = [v], vm_total = t, vm_used = area_bytes v\<rparr>"
  shows "vma_unmap_range mem mgr p p = Some (0, mgr\<lparr>vma_list := [v\<lparr>vm_end := p\<rparr>], vm_used := p - vm_start v\<rparr>)"
  using unmap_empty_range [OF assms] .

theorem vma_unmap_empty_range_drops_tail_witness:
  "\<exists>mgr'. vma_unmap_range (\<lambda>n s. True) \<lparr>vma_list = [demo_area 0x1000 0x5000], vm_total = 0, vm_used = 0x4000\<rparr> 0x2000 0x2000 =
    Some (0, mgr') \<and> vma_list mgr' = [demo_area 0x1000 0x2000]"
  using vma_unmap_empty_range_drops_tail [of "demo_area 0x1000 0x5000" "0x2000" "\<lambda>n s. True" _ 0]
  by (simp add: demo_area_def area_bytes_def)

end
