(* ===== verification/Llist_Queue.thy ===== *)
theory Llist_Queue
  imports Kernel_Prelude
begin

text \<open>
  The linked queue of \<^verbatim>\<open>src/src/util/llist_queue.c\<close>, whose nodes the lazy allocator keeps handles to.  A node is a
  number that \<open>malloc\<close> hands out (\<open>next_node\<close> is the first one never used), the chain \<open>head -> next -> ...\<close> is the list
  of nodes with their data, and \<open>tail\<close> is the node the field points to.  \<open>malloc_ok\<close> is the answer of \<open>malloc\<close>.
\<close>

section \<open>Definitions\<close>

record 'a list_queue_t =
  lq_nodes :: "(nat \<times> 'a) list"
  lq_tail :: "nat option"
  lq_size :: nat
  next_node :: nat

definition create_llist_queue :: "bool \<Rightarrow> 'a list_queue_t option" where
  "create_llist_queue calloc_ok =
     (if calloc_ok then Some \<lparr>lq_nodes = [], lq_tail = None, lq_size = 0, next_node = 0\<rparr> else None)"

text \<open>The data may hold its own node (the \<open>index\<close> field), so it is given as a function of the node.\<close>

definition list_enqueue :: "bool \<Rightarrow> 'a list_queue_t \<Rightarrow> (nat \<Rightarrow> 'a) \<Rightarrow> nat option \<times> 'a list_queue_t" where
  "list_enqueue malloc_ok queue data =
     (if \<not> malloc_ok then (None, queue)
      else (Some (next_node queue),
        queue\<lparr>lq_nodes := lq_nodes queue @ [(next_node queue, data (next_node queue))],
              lq_tail := Some (next_node queue), lq_size := lq_size queue + 1, next_node := next_node queue + 1\<rparr>))"

primrec unlink_node :: "nat \<Rightarrow> (nat \<times> 'a) list \<Rightarrow> (nat \<times> 'a) list option" where
  "unlink_node node [] = None"
| "unlink_node node (n # ns) = (if fst n = node then Some ns else map_option ((#) n) (unlink_node node ns))"

definition list_remove_node :: "'a list_queue_t \<Rightarrow> nat option \<Rightarrow> 'a list_queue_t" where
  "list_remove_node queue node_to_remove =
     (case node_to_remove of
        None \<Rightarrow> queue
      | Some node \<Rightarrow>
          (case unlink_node node (lq_nodes queue) of
             None \<Rightarrow> queue
           | Some nodes \<Rightarrow> queue\<lparr>lq_nodes := nodes, lq_size := lq_size queue - 1\<rparr>))"

text \<open>
  \<open>free_llist_queue\<close> hands every datum to the callback and drops the chain; the result is the sequence of callback
  arguments and the emptied queue.
\<close>

definition free_llist_queue :: "bool \<Rightarrow> ('a \<Rightarrow> bool) \<Rightarrow> 'a list_queue_t \<Rightarrow> 'a list \<times> 'a list_queue_t" where
  "free_llist_queue has_func non_null queue =
     ((if has_func then filter non_null (map snd (lq_nodes queue)) else []), queue\<lparr>lq_nodes := [], lq_size := 0\<rparr>)"

text \<open>The copy loop; \<open>copy\<close> may fail, and \<open>index_clone\<close> receives the new node.  \<open>mem n\<close> is the \<open>n\<close>-th node allocation.\<close>

primrec copy_nodes ::
  "(nat \<Rightarrow> bool) \<Rightarrow> nat \<Rightarrow> ('a \<Rightarrow> 'b option) \<Rightarrow> ('b \<Rightarrow> nat \<Rightarrow> 'b) \<Rightarrow> (nat \<times> 'a) list \<Rightarrow> 'b list_queue_t \<Rightarrow> 'b list_queue_t option" where
  "copy_nodes mem n copy index_clone [] new_queue = Some new_queue"
| "copy_nodes mem n copy index_clone (cur # rest) new_queue = do {
     copied \<leftarrow> copy (snd cur);
     (case list_enqueue (mem n) new_queue (index_clone copied) of
        (None, _) \<Rightarrow> None
      | (Some node, new_queue') \<Rightarrow> copy_nodes mem (Suc n) copy index_clone rest new_queue')
   }"

definition copy_list_queue ::
  "bool \<Rightarrow> (nat \<Rightarrow> bool) \<Rightarrow> ('a \<Rightarrow> 'b option) \<Rightarrow> ('b \<Rightarrow> nat \<Rightarrow> 'b) \<Rightarrow> 'a list_queue_t \<Rightarrow> 'b list_queue_t option" where
  "copy_list_queue calloc_ok mem copy index_clone src_queue = do {
     new_queue \<leftarrow> create_llist_queue calloc_ok;
     copy_nodes mem 0 copy index_clone (lq_nodes src_queue) new_queue
   }"

section \<open>Lemmas\<close>

definition lq_wf :: "'a list_queue_t \<Rightarrow> bool" where
  "lq_wf q \<longleftrightarrow> distinct (map fst (lq_nodes q)) \<and> (\<forall>n\<in>set (lq_nodes q). fst n < next_node q) \<and> lq_size q = length (lq_nodes q)"

definition lq_data :: "'a list_queue_t \<Rightarrow> 'a list" where
  "lq_data q = map snd (lq_nodes q)"

lemma list_enqueue_spec:
  assumes "lq_wf q"
  shows "list_enqueue True q f = (Some (next_node q), snd (list_enqueue True q f))"
    "lq_wf (snd (list_enqueue True q f))" "lq_data (snd (list_enqueue True q f)) = lq_data q @ [f (next_node q)]"
  using assms by (auto simp: list_enqueue_def lq_wf_def lq_data_def)

lemma unlink_node_middle:
  "node \<notin> fst ` set pre \<Longrightarrow> unlink_node node (pre @ (node, x) # post) = Some (pre @ post)"
  by (induction pre) auto

lemma list_remove_node_spec:
  assumes "lq_wf q" "lq_nodes q = pre @ (node, x) # post"
  shows "lq_wf (list_remove_node q (Some node))" "lq_nodes (list_remove_node q (Some node)) = pre @ post"
    "next_node (list_remove_node q (Some node)) = next_node q"
proof -
  have "node \<notin> fst ` set pre" using assms by (auto simp: lq_wf_def)
  then have "list_remove_node q (Some node) = q\<lparr>lq_nodes := pre @ post, lq_size := lq_size q - 1\<rparr>"
    by (simp add: list_remove_node_def assms(2) unlink_node_middle)
  then show "lq_wf (list_remove_node q (Some node))" "lq_nodes (list_remove_node q (Some node)) = pre @ post"
    "next_node (list_remove_node q (Some node)) = next_node q"
    using assms by (auto simp: lq_wf_def)
qed

text \<open>Removing the last node leaves \<open>tail\<close> pointing at freed memory.\<close>

lemma list_remove_node_tail: "lq_tail (list_remove_node q node) = lq_tail q"
  by (simp add: list_remove_node_def split: option.split)

lemma copy_nodes_spec:
  assumes "\<And>n. mem n" "lq_wf new_queue" "\<And>x. copy x = Some (g x)"
  shows "\<exists>q'. copy_nodes mem n copy index_clone nodes new_queue = Some q' \<and> lq_wf q' \<and>
    next_node q' = next_node new_queue + length nodes \<and>
    lq_nodes q' = lq_nodes new_queue @
      map (\<lambda>(i, node). (i, index_clone (g (snd node)) i)) (enumerate (next_node new_queue) nodes)"
  using assms(2)
proof (induction nodes arbitrary: new_queue n)
  case (Cons cur rest)
  let ?q = "snd (list_enqueue True new_queue (index_clone (g (snd cur))))"
  have q: "lq_wf ?q" "next_node ?q = Suc (next_node new_queue)"
    "lq_nodes ?q = lq_nodes new_queue @ [(next_node new_queue, index_clone (g (snd cur)) (next_node new_queue))]"
    using list_enqueue_spec(2) [OF Cons.prems] by (simp_all add: list_enqueue_def)
  have "copy_nodes mem n copy index_clone (cur # rest) new_queue = copy_nodes mem (Suc n) copy index_clone rest ?q"
    using assms(1,3) by (simp add: list_enqueue_def)
  moreover obtain q' where "copy_nodes mem (Suc n) copy index_clone rest ?q = Some q'" "lq_wf q'"
    "next_node q' = next_node ?q + length rest" "lq_nodes q' = lq_nodes ?q @
      map (\<lambda>(i, node). (i, index_clone (g (snd node)) i)) (enumerate (next_node ?q) rest)"
    using Cons.IH [OF q(1), of "Suc n"] by blast
  ultimately show ?case using q by simp
qed simp

end
