(* ===== verification/Lazy_Alloc.thy ===== *)
theory Lazy_Alloc
  imports Llist_Queue Frames Buddy_Regions
begin

text \<open>
  Demand paging, \<^verbatim>\<open>src/src/mem/lazy_alloc.c\<close>: ranges that were reserved by \<open>mmap\<close> wait in the queue \<open>virt_queue\<close>
  until a page fault takes one page out of its range.  The queue nodes hold the ranges by value, each with the handle
  \<open>index\<close> of its own node.  \<open>ok n\<close> is the answer of the \<open>n\<close>-th \<open>malloc\<close> of a call; a write through a failed one is the
  fault \<^const>\<open>None\<close>.  The page that a fault maps and clears is returned as an \<open>lazy_effect\<close>; \<open>junk\<close> is what the
  uninitialised \<open>flags\<close> field of a fresh range holds.
\<close>

section \<open>Definitions\<close>

record mm_virtual_page_t =
  vp_start :: u64
  vp_count :: u64
  vp_flags :: u64
  vp_pte_flags :: u64
  vp_index :: "nat option"

type_synonym virt_queue = "mm_virtual_page_t list_queue_t"

datatype lazy_effect =
  Page_map_to u64 u64 u64
  | Unmap_page_range u64 u64

definition virt_copy :: "bool \<Rightarrow> nat option \<Rightarrow> mm_virtual_page_t option \<Rightarrow> mm_virtual_page_t option option" where
  "virt_copy malloc_ok junk_index ptr =
     (case ptr of
        None \<Rightarrow> Some None
      | Some src_page \<Rightarrow> if malloc_ok then Some (Some (src_page\<lparr>vp_index := junk_index\<rparr>)) else None)"

definition virt_copy_index :: "mm_virtual_page_t \<Rightarrow> nat \<Rightarrow> mm_virtual_page_t" where
  "virt_copy_index src_page node = src_page\<lparr>vp_index := Some node\<rparr>"

definition vp_end :: "mm_virtual_page_t \<Rightarrow> u64" where
  "vp_end vpage = vp_start vpage + vp_count vpage * PAGE_SIZE"

text \<open>A range allocated and queued, its \<open>index\<close> set to the node.\<close>

definition queue_range :: "bool \<Rightarrow> bool \<Rightarrow> virt_queue \<Rightarrow> mm_virtual_page_t \<Rightarrow> virt_queue option" where
  "queue_range malloc_ok node_ok queue vpage =
     (if \<not> malloc_ok then None else Some (snd (list_enqueue node_ok queue (virt_copy_index vpage))))"

definition lazy_tryalloc ::
  "(nat \<Rightarrow> bool) \<Rightarrow> u64 \<Rightarrow> frame_state \<Rightarrow> virt_queue \<Rightarrow> u64 \<Rightarrow> (int \<times> frame_state \<times> virt_queue \<times> lazy_effect list) option" where
  "lazy_tryalloc ok junk fs queue address =
     (if address = 0 then Some (-1, fs, queue, [])
      else case find (\<lambda>vpage. address \<ge> vp_start vpage \<and> address < vp_end vpage) (lq_data queue) of
        None \<Rightarrow> Some (-1, fs, queue, [])
      | Some virt_page \<Rightarrow> do {
          let fault_index = (address - vp_start virt_page) div PAGE_SIZE;
          let page_addr = vp_start virt_page + fault_index * PAGE_SIZE;
          (fs', phys) \<leftarrow> alloc_frames fs 1;
          let range_start = vp_start virt_page;
          queue \<leftarrow> (if fault_index > 0
             then queue_range (ok 0) (ok 1) queue
               \<lparr>vp_start = range_start, vp_count = fault_index, vp_flags = junk,
                vp_pte_flags = vp_pte_flags virt_page, vp_index = None\<rparr>
             else Some queue);
          queue \<leftarrow> (if fault_index + 1 < vp_count virt_page
             then queue_range (ok 2) (ok 3) queue
               \<lparr>vp_start = range_start + (fault_index + 1) * PAGE_SIZE,
                vp_count = vp_count virt_page - fault_index - 1, vp_flags = junk,
                vp_pte_flags = vp_pte_flags virt_page, vp_index = None\<rparr>
             else Some queue);
          Some (0, fs', list_remove_node queue (vp_index virt_page),
                [Page_map_to page_addr phys (vp_pte_flags virt_page)])
        })"

text \<open>One range that meets \<open>vaddr .. vaddr_end\<close> is replaced by what sticks out on either side.\<close>

definition keep_left :: "mm_virtual_page_t \<Rightarrow> u64 \<Rightarrow> mm_virtual_page_t" where
  "keep_left vpage vaddr = vpage\<lparr>vp_count := (vaddr - vp_start vpage) div PAGE_SIZE, vp_index := None\<rparr>"

definition keep_right :: "mm_virtual_page_t \<Rightarrow> u64 \<Rightarrow> mm_virtual_page_t" where
  "keep_right vpage vaddr_end =
     vpage\<lparr>vp_start := vaddr_end, vp_count := (vp_end vpage - vaddr_end) div PAGE_SIZE, vp_index := None\<rparr>"

definition unmap_one :: "(nat \<Rightarrow> bool) \<Rightarrow> virt_queue \<Rightarrow> u64 \<Rightarrow> u64 \<Rightarrow> mm_virtual_page_t \<Rightarrow> virt_queue option" where
  "unmap_one ok queue vaddr vaddr_end vpage =
     (let start = vp_start vpage; stop = vp_end vpage in do {
        queue \<leftarrow>
          (if vaddr \<le> start \<and> vaddr_end \<ge> stop then Some queue
           else if vaddr \<le> start \<and> vaddr_end < stop then
             queue_range (ok 0) (ok 1) queue (keep_right vpage vaddr_end)
           else if vaddr > start \<and> vaddr_end \<ge> stop then
             queue_range (ok 0) (ok 1) queue (keep_left vpage vaddr)
           else do {
             queue \<leftarrow> queue_range (ok 0) (ok 1) queue (keep_left vpage vaddr);
             queue_range (ok 2) (ok 3) queue (keep_right vpage vaddr_end)
           });
        Some (list_remove_node queue (vp_index vpage))
      })"

text \<open>The \<open>do ... while (true)\<close> loop; \<open>ok n\<close> are the allocation answers of round \<open>n\<close>.\<close>

partial_function (option) unmap_virtual_loop ::
  "(nat \<Rightarrow> nat \<Rightarrow> bool) \<Rightarrow> nat \<Rightarrow> u64 \<Rightarrow> u64 \<Rightarrow> virt_queue \<Rightarrow> virt_queue option" where
  "unmap_virtual_loop ok n vaddr vaddr_end queue =
     (case find (\<lambda>vpage. vp_end vpage > vaddr \<and> vp_start vpage < vaddr_end) (lq_data queue) of
        None \<Rightarrow> Some queue
      | Some vpage \<Rightarrow> do {
          queue \<leftarrow> unmap_one (ok n) queue vaddr vaddr_end vpage;
          unmap_virtual_loop ok (Suc n) vaddr vaddr_end queue
        })"

definition unmap_virtual_page :: "(nat \<Rightarrow> nat \<Rightarrow> bool) \<Rightarrow> virt_queue \<Rightarrow> u64 \<Rightarrow> u64 \<Rightarrow> virt_queue option" where
  "unmap_virtual_page ok queue vaddr len = unmap_virtual_loop ok 0 vaddr (vaddr + len) queue"

abbreviation MAP_FIXED :: u64 where
  "MAP_FIXED \<equiv> 0x10"

definition lazy_infoalloc ::
  "(nat \<Rightarrow> nat \<Rightarrow> bool) \<Rightarrow> bool \<Rightarrow> bool \<Rightarrow> virt_queue \<Rightarrow> u64 \<Rightarrow> u64 \<Rightarrow> u64 \<Rightarrow> u64 \<Rightarrow>
    (virt_queue \<times> lazy_effect list) option" where
  "lazy_infoalloc ok malloc_ok node_ok queue vaddr len page_flags flags = do {
     let cnt = (len + PAGE_SIZE - 1) div PAGE_SIZE;
     (queue, effects) \<leftarrow> (if flags AND MAP_FIXED \<noteq> 0
        then map_option (\<lambda>q. (q, [Unmap_page_range vaddr len])) (unmap_virtual_page ok queue vaddr len)
        else Some (queue, []));
     queue \<leftarrow> queue_range malloc_ok node_ok queue
       \<lparr>vp_start = vaddr, vp_count = cnt, vp_flags = flags, vp_pte_flags = page_flags, vp_index = None\<rparr>;
     Some (queue, effects)
   }"

text \<open>\<open>lazy_free\<close> removes the head until the queue is empty; it terminates because each round unlinks a node.\<close>

partial_function (option) refree_virt :: "virt_queue \<Rightarrow> virt_queue option" where
  "refree_virt queue =
     (case lq_data queue of
        [] \<Rightarrow> Some queue
      | virt_page # _ \<Rightarrow> refree_virt (list_remove_node queue (vp_index virt_page)))"

definition lazy_free :: "virt_queue \<Rightarrow> virt_queue option" where
  "lazy_free queue = (if lq_size queue > 0 then refree_virt queue else Some queue)"

section \<open>The reserved addresses\<close>

definition within :: "mm_virtual_page_t \<Rightarrow> u64 \<Rightarrow> bool" where
  "within p a \<longleftrightarrow> vp_start p \<le> a \<and> a < vp_end p"

definition range_ok :: "mm_virtual_page_t \<Rightarrow> bool" where
  "range_ok p \<longleftrightarrow> 4096 dvd unat (vp_start p) \<and> unat (vp_start p) + unat (vp_count p) * 4096 < 2 ^ 64"

definition apart :: "mm_virtual_page_t \<Rightarrow> mm_virtual_page_t \<Rightarrow> bool" where
  "apart p q \<longleftrightarrow> (\<forall>a. \<not> (within p a \<and> within q a))"

text \<open>Address and page-table flags of everything that is still to be mapped.\<close>

definition reserved :: "virt_queue \<Rightarrow> (u64 \<times> u64) set" where
  "reserved q = {(a, vp_pte_flags p) | a p. p \<in> set (lq_data q) \<and> within p a}"

definition lazy_ok :: "virt_queue \<Rightarrow> bool" where
  "lazy_ok q \<longleftrightarrow> lq_wf q \<and> (\<forall>(n, p)\<in>set (lq_nodes q). vp_index p = Some n \<and> range_ok p) \<and> sorted_wrt apart (lq_data q)"

lemma range_bounds:
  assumes "range_ok p"
  shows "unat (vp_end p) = unat (vp_start p) + unat (vp_count p) * 4096"
    "within p a \<longleftrightarrow> unat (vp_start p) \<le> unat a \<and> unat a < unat (vp_start p) + unat (vp_count p) * 4096"
proof -
  have "unat (vp_count p * PAGE_SIZE) = unat (vp_count p) * 4096"
    using assms by (simp add: range_ok_def unat_word_ariths)
  then show e: "unat (vp_end p) = unat (vp_start p) + unat (vp_count p) * 4096"
    using assms unat_add_no_wrap [of "vp_start p" "vp_count p * PAGE_SIZE"] by (simp add: vp_end_def range_ok_def)
  show "within p a \<longleftrightarrow> unat (vp_start p) \<le> unat a \<and> unat a < unat (vp_start p) + unat (vp_count p) * 4096"
    by (simp add: within_def word_le_nat_alt word_less_nat_alt e)
qed

lemma apart_sym: "apart p q \<longleftrightarrow> apart q p"
  by (auto simp: apart_def)

lemma apart_subrange: "apart p q \<Longrightarrow> (\<And>a. within p' a \<Longrightarrow> within p a) \<Longrightarrow> apart p' q"
  by (auto simp: apart_def)

lemma sorted_apart_snoc: "sorted_wrt apart (ps @ [p]) \<longleftrightarrow> sorted_wrt apart ps \<and> (\<forall>q\<in>set ps. apart p q)"
  by (auto simp: sorted_wrt_append apart_sym)

text \<open>
  The common step of a page fault and of unmapping: a range is taken out of the queue and some pieces of it, apart from
  each other, are queued at the end.
\<close>

definition enqueue_all :: "virt_queue \<Rightarrow> mm_virtual_page_t list \<Rightarrow> virt_queue" where
  "enqueue_all q ps = foldl (\<lambda>q p. snd (list_enqueue True q (virt_copy_index p))) q ps"

lemma within_index [simp]: "within (virt_copy_index p n) a = within p a"
  by (simp add: within_def virt_copy_index_def vp_end_def)

definition tagged :: "nat \<times> mm_virtual_page_t \<Rightarrow> mm_virtual_page_t \<Rightarrow> bool" where
  "tagged node y \<longleftrightarrow> snd node = virt_copy_index y (fst node)"

lemma enqueue_all_nodes:
  assumes "lq_wf q"
  shows "lq_wf (enqueue_all q ps) \<and> (\<exists>new. lq_nodes (enqueue_all q ps) = lq_nodes q @ new \<and> list_all2 tagged new ps)"
  using assms
proof (induction ps rule: rev_induct)
  case (snoc p ps)
  then obtain new where new: "lq_nodes (enqueue_all q ps) = lq_nodes q @ new" "list_all2 tagged new ps"
    and wf: "lq_wf (enqueue_all q ps)" by blast
  let ?n = "next_node (enqueue_all q ps)"
  have "enqueue_all q (ps @ [p]) = snd (list_enqueue True (enqueue_all q ps) (virt_copy_index p))"
    by (simp add: enqueue_all_def)
  moreover have "list_all2 tagged (new @ [(?n, virt_copy_index p ?n)]) (ps @ [p])"
    using new(2) by (intro list_all2_appendI) (simp_all add: tagged_def)
  ultimately show ?case using list_enqueue_spec(2) [OF wf, of "virt_copy_index p"] new(1)
    by (intro conjI exI [of _ "new @ [(?n, virt_copy_index p ?n)]"]) (simp_all add: list_enqueue_def)
qed (simp add: enqueue_all_def)

lemma tagged_forward: "list_all2 tagged new ps \<Longrightarrow> (n, x) \<in> set new \<Longrightarrow> \<exists>y\<in>set ps. x = virt_copy_index y n"
  by (induction rule: list_all2_induct) (auto simp: tagged_def)

lemma tagged_backward: "list_all2 tagged new ps \<Longrightarrow> y \<in> set ps \<Longrightarrow> \<exists>n. (n, virt_copy_index y n) \<in> set new"
  by (induction rule: list_all2_induct) (auto simp: tagged_def)

lemma tagged_apart: "list_all2 tagged new ps \<Longrightarrow> sorted_wrt apart (map snd new) = sorted_wrt apart ps"
proof (induction rule: list_all2_induct)
  case (Cons nx new y ps)
  have "(\<forall>x\<in>set (map snd new). apart (snd nx) x) \<longleftrightarrow> (\<forall>z\<in>set ps. apart y z)"
  proof
    assume l: "\<forall>x\<in>set (map snd new). apart (snd nx) x"
    show "\<forall>z\<in>set ps. apart y z"
    proof
      fix z assume "z \<in> set ps"
      then obtain n where "(n, virt_copy_index z n) \<in> set new" using tagged_backward [OF Cons.hyps(2)] by blast
      then show "apart y z" using l Cons.hyps(1) by (force simp: apart_def tagged_def)
    qed
  next
    assume r: "\<forall>z\<in>set ps. apart y z"
    show "\<forall>x\<in>set (map snd new). apart (snd nx) x"
    proof
      fix x assume "x \<in> set (map snd new)"
      then obtain n where "(n, x) \<in> set new" by auto
      then obtain z where "z \<in> set ps" "x = virt_copy_index z n" using tagged_forward [OF Cons.hyps(2)] by blast
      then show "apart (snd nx) x" using r Cons.hyps(1) by (simp add: apart_def tagged_def)
    qed
  qed
  then show ?case using Cons.IH by simp
qed simp

definition replaced :: "virt_queue \<Rightarrow> mm_virtual_page_t \<Rightarrow> mm_virtual_page_t list \<Rightarrow> virt_queue" where
  "replaced q p pieces = list_remove_node (enqueue_all q pieces) (vp_index p)"

lemma range_ok_index [simp]: "range_ok (virt_copy_index p n) = range_ok p"
  by (simp add: range_ok_def virt_copy_index_def)

lemma index_fields [simp]:
  "vp_index (virt_copy_index p n) = Some n" "vp_pte_flags (virt_copy_index p n) = vp_pte_flags p"
  "vp_start (virt_copy_index p n) = vp_start p" "vp_end (virt_copy_index p n) = vp_end p"
  by (simp_all add: virt_copy_index_def vp_end_def)

text \<open>The nodes of the queue after a replacement, and of the queue it came from.\<close>

lemma replaced_nodes:
  assumes ok: "lazy_ok q" and p: "p \<in> set (lq_data q)"
  obtains pre n post new where "lq_nodes q = pre @ (n, p) # post" "lq_nodes (replaced q p pieces) = pre @ post @ new"
    "list_all2 tagged new pieces" "lq_wf (replaced q p pieces)"
proof -
  obtain n where n: "(n, p) \<in> set (lq_nodes q)" using p by (auto simp: lq_data_def)
  then obtain pre post where split: "lq_nodes q = pre @ (n, p) # post" by (meson split_list)
  have idx: "vp_index p = Some n" using n ok by (auto simp: lazy_ok_def)
  obtain new where new: "lq_wf (enqueue_all q pieces)" "list_all2 tagged new pieces"
    "lq_nodes (enqueue_all q pieces) = pre @ (n, p) # post @ new"
    using enqueue_all_nodes [of q pieces] ok split by (auto simp: lazy_ok_def)
  from that [OF split _ new(2)] list_remove_node_spec [OF new(1,3)] show ?thesis by (simp add: replaced_def idx)
qed

lemma replaced_spec:
  assumes ok: "lazy_ok q" and p: "p \<in> set (lq_data q)"
    and pieces: "\<And>x. x \<in> set pieces \<Longrightarrow> range_ok x \<and> vp_pte_flags x = vp_pte_flags p \<and> (\<forall>a. within x a \<longrightarrow> within p a)"
    and sep: "sorted_wrt apart pieces"
  shows "lazy_ok (replaced q p pieces)"
    "reserved (replaced q p pieces) = reserved q - {(a, f). within p a \<and> (\<forall>x\<in>set pieces. \<not> within x a)}"
proof -
  obtain pre n post new where r: "lq_nodes q = pre @ (n, p) # post" "lq_nodes (replaced q p pieces) = pre @ post @ new"
    and new: "list_all2 tagged new pieces" and wf: "lq_wf (replaced q p pieces)"
    by (rule replaced_nodes [OF ok p])
  let ?pre = "map snd pre" and ?post = "map snd post" and ?new = "map snd new"
  have d: "lq_data q = ?pre @ p # ?post" "lq_data (replaced q p pieces) = ?pre @ ?post @ ?new"
    by (simp_all add: lq_data_def r)
  have old: "sorted_wrt apart (?pre @ p # ?post)" using ok d(1) by (simp add: lazy_ok_def)
  have others: "apart p y" if "y \<in> set ?pre \<union> set ?post" for y
    using that old unfolding sorted_wrt_append by (auto simp: apart_sym)
  have new_iff: "(\<exists>x\<in>set ?new. within x a \<and> f = vp_pte_flags x) \<longleftrightarrow> (\<exists>y\<in>set pieces. within y a \<and> f = vp_pte_flags y)" for a f
    using tagged_forward [OF new] tagged_backward [OF new] by force
  have sub: "within p a" if "x \<in> set ?new" "within x a" for x a using new_iff [of a "vp_pte_flags x"] that pieces by auto
  have "sorted_wrt apart ?new" using sep by (simp only: tagged_apart [OF new])
  moreover have "apart y x" if "y \<in> set ?pre \<union> set ?post" "x \<in> set ?new" for x y
    using others [OF that(1)] sub [OF that(2)] by (auto simp: apart_def)
  ultimately have "sorted_wrt apart (?pre @ ?post @ ?new)"
    using old unfolding sorted_wrt_append by auto
  moreover have "vp_index x = Some m \<and> range_ok x" if "(m, x) \<in> set new" for m x
    using tagged_forward [OF new that] pieces by auto
  moreover have "vp_index x = Some m \<and> range_ok x" if "(m, x) \<in> set pre \<union> set post" for m x
    using that ok unfolding lazy_ok_def r(1) by fastforce
  ultimately show "lazy_ok (replaced q p pieces)" using wf unfolding lazy_ok_def d r by auto
  have "(a, f) \<in> reserved (replaced q p pieces) \<longleftrightarrow>
      (a, f) \<in> reserved q - {(a, f). within p a \<and> (\<forall>x\<in>set pieces. \<not> within x a)}" for a f
  proof -
    have mem: "(a, f) \<in> reserved (replaced q p pieces) \<longleftrightarrow>
        (\<exists>y\<in>set ?pre \<union> set ?post. within y a \<and> f = vp_pte_flags y) \<or> (\<exists>y\<in>set pieces. within y a \<and> f = vp_pte_flags y)"
      unfolding new_iff [symmetric] reserved_def d by auto
    have mem0: "(a, f) \<in> reserved q \<longleftrightarrow>
        (\<exists>y\<in>set ?pre \<union> set ?post. within y a \<and> f = vp_pte_flags y) \<or> within p a \<and> f = vp_pte_flags p"
      unfolding reserved_def d by auto
    have flags: "(\<exists>y\<in>set pieces. within y a \<and> f = vp_pte_flags y) \<longleftrightarrow> f = vp_pte_flags p \<and> (\<exists>y\<in>set pieces. within y a)"
      using pieces by metis
    show ?thesis
    proof (cases "within p a")
      case True
      then have "\<not> (\<exists>y\<in>set ?pre \<union> set ?post. within y a \<and> f = vp_pte_flags y)"
        using others unfolding apart_def by blast
      then show ?thesis unfolding mem Diff_iff mem0 flags using True by simp blast
    next
      case False
      then have "\<not> (\<exists>y\<in>set pieces. within y a)" using pieces by blast
      then show ?thesis unfolding mem Diff_iff mem0 flags using False by simp
    qed
  qed
  then show "reserved (replaced q p pieces) = reserved q - {(a, f). within p a \<and> (\<forall>x\<in>set pieces. \<not> within x a)}"
    by auto
qed

section \<open>A page fault\<close>

definition left_of :: "u64 \<Rightarrow> mm_virtual_page_t \<Rightarrow> u64 \<Rightarrow> mm_virtual_page_t" where
  "left_of junk p i = \<lparr>vp_start = vp_start p, vp_count = i, vp_flags = junk, vp_pte_flags = vp_pte_flags p, vp_index = None\<rparr>"

definition right_of :: "u64 \<Rightarrow> mm_virtual_page_t \<Rightarrow> u64 \<Rightarrow> mm_virtual_page_t" where
  "right_of junk p i = \<lparr>vp_start = vp_start p + (i + 1) * PAGE_SIZE, vp_count = vp_count p - i - 1, vp_flags = junk,
     vp_pte_flags = vp_pte_flags p, vp_index = None\<rparr>"

definition fault_pieces :: "u64 \<Rightarrow> mm_virtual_page_t \<Rightarrow> u64 \<Rightarrow> mm_virtual_page_t list" where
  "fault_pieces junk p i =
     (if i > 0 then [left_of junk p i] else []) @ (if i + 1 < vp_count p then [right_of junk p i] else [])"

lemma fault_index_bounds:
  assumes "range_ok p" "within p a"
  shows "unat ((a - vp_start p) div PAGE_SIZE) = (unat a - unat (vp_start p)) div 4096"
    "unat ((a - vp_start p) div PAGE_SIZE) < unat (vp_count p)"
    "unat (vp_start p) + unat ((a - vp_start p) div PAGE_SIZE) * 4096 = unat a div 4096 * 4096"
proof -
  note w = range_bounds(2) [OF assms(1), of a]
  have le: "vp_start p \<le> a" using assms(2) by (simp add: within_def)
  show i: "unat ((a - vp_start p) div PAGE_SIZE) = (unat a - unat (vp_start p)) div 4096"
    by (simp add: unat_div_distrib unat_sub_no_wrap [OF le])
  show "unat ((a - vp_start p) div PAGE_SIZE) < unat (vp_count p)"
    using w assms(2) unfolding i by (intro less_mult_imp_div_less) linarith
  obtain k where k: "unat (vp_start p) = 4096 * k" using assms(1) by (auto simp: range_ok_def dvd_def)
  have "unat (vp_start p) \<le> unat a" using le by (simp add: word_le_nat_alt)
  then show "unat (vp_start p) + unat ((a - vp_start p) div PAGE_SIZE) * 4096 = unat a div 4096 * 4096"
    unfolding i k by (auto simp: le_iff_add)
qed

lemma right_of_bounds:
  assumes "range_ok p" "unat i < unat (vp_count p)"
  shows "unat (vp_start (right_of junk p i)) = unat (vp_start p) + (unat i + 1) * 4096"
    "unat (vp_count (right_of junk p i)) = unat (vp_count p) - unat i - 1"
proof -
  have lt: "unat (vp_start p) + unat (vp_count p) * 4096 < 2 ^ 64" using assms(1) by (simp add: range_ok_def)
  have i1: "unat (i + 1) = unat i + 1"
    using assms(2) unsigned_less [of "vp_count p", where 'a = nat] unat_add_no_wrap [of i 1] by simp
  have "(unat i + 1) * 4096 \<le> unat (vp_count p) * 4096" using assms(2) by simp
  then have "unat (vp_start p) + (unat i + 1) * 4096 < 2 ^ 64" using lt by linarith
  moreover from this have "unat ((i + 1) * PAGE_SIZE) = (unat i + 1) * 4096"
    unfolding unat_word_ariths i1 by (simp add: i1)
  ultimately show "unat (vp_start (right_of junk p i)) = unat (vp_start p) + (unat i + 1) * 4096"
    using unat_add_no_wrap [of "vp_start p" "(i + 1) * PAGE_SIZE"] by (simp add: right_of_def)
  have "i \<le> vp_count p" "1 \<le> vp_count p - i"
    using assms(2) by (simp_all add: word_le_nat_alt unat_sub_no_wrap word_less_nat_alt less_imp_le)
  then show "unat (vp_count (right_of junk p i)) = unat (vp_count p) - unat i - 1"
    by (simp add: right_of_def unat_sub_no_wrap)
qed

lemma right_of_ok:
  assumes "range_ok p" "unat i < unat (vp_count p)"
  shows "range_ok (right_of junk p i)"
    "within (right_of junk p i) b \<longleftrightarrow> unat (vp_start p) + (unat i + 1) * 4096 \<le> unat b \<and>
       unat b < unat (vp_start p) + unat (vp_count p) * 4096"
proof -
  have eq: "unat (vp_start p) + (unat i + 1) * 4096 + (unat (vp_count p) - unat i - 1) * 4096 =
      unat (vp_start p) + unat (vp_count p) * 4096"
    using assms(2) by (simp add: algebra_simps)
  show ok: "range_ok (right_of junk p i)" using assms(1) unfolding range_ok_def right_of_bounds [OF assms] eq by simp
  show "within (right_of junk p i) b \<longleftrightarrow> unat (vp_start p) + (unat i + 1) * 4096 \<le> unat b \<and>
       unat b < unat (vp_start p) + unat (vp_count p) * 4096"
    unfolding range_bounds(2) [OF ok] right_of_bounds [OF assms] eq ..
qed

lemma left_of_ok:
  assumes "range_ok p" "unat i < unat (vp_count p)"
  shows "range_ok (left_of junk p i)"
    "within (left_of junk p i) b \<longleftrightarrow> unat (vp_start p) \<le> unat b \<and> unat b < unat (vp_start p) + unat i * 4096"
proof -
  show ok: "range_ok (left_of junk p i)" using assms by (simp add: range_ok_def left_of_def)
  show "within (left_of junk p i) b \<longleftrightarrow> unat (vp_start p) \<le> unat b \<and> unat b < unat (vp_start p) + unat i * 4096"
    unfolding range_bounds(2) [OF ok] by (simp add: left_of_def)
qed

text \<open>The pieces left of a faulting range are the range without the page of the fault.\<close>

lemma fault_pieces_spec:
  assumes ok: "range_ok p" and w: "within p a" and i: "i = (a - vp_start p) div PAGE_SIZE"
  shows "\<And>x. x \<in> set (fault_pieces junk p i) \<Longrightarrow>
      range_ok x \<and> vp_pte_flags x = vp_pte_flags p \<and> (\<forall>b. within x b \<longrightarrow> within p b)"
    and "sorted_wrt apart (fault_pieces junk p i)"
    and "within p b \<and> (\<forall>x\<in>set (fault_pieces junk p i). \<not> within x b) \<longleftrightarrow> unat b div 4096 = unat a div 4096"
proof -
  note bounds = fault_index_bounds [OF ok w, folded i]
  note l = left_of_ok [OF ok bounds(2)] and r = right_of_ok [OF ok bounds(2)]
  note wp = range_bounds(2) [OF ok]
  let ?s = "unat (vp_start p)" and ?c = "unat (vp_count p)" and ?i = "unat i"
  show "range_ok x \<and> vp_pte_flags x = vp_pte_flags p \<and> (\<forall>b. within x b \<longrightarrow> within p b)"
    if "x \<in> set (fault_pieces junk p i)" for x
  proof -
    have "?i * 4096 \<le> ?c * 4096" using bounds(2) by simp
    then have "within (left_of junk p i) b \<Longrightarrow> within p b" for b unfolding l wp by linarith
    moreover have "within (right_of junk p i) b \<Longrightarrow> within p b" for b unfolding r wp by linarith
    ultimately show ?thesis using that l(1) r(1)
      by (auto simp: fault_pieces_def left_of_def [of _ _ i] right_of_def [of _ _ i] split: if_splits)
  qed
  show "sorted_wrt apart (fault_pieces junk p i)" by (auto simp: fault_pieces_def apart_def l r)
  have pieces: "(\<forall>x\<in>set (fault_pieces junk p i). \<not> within x b) \<longleftrightarrow>
      \<not> within (left_of junk p i) b \<and> \<not> within (right_of junk p i) b"
  proof -
    have "\<not> within (left_of junk p i) b" if "\<not> i > 0" using that unfolding l by (simp add: word_gt_0)
    moreover have "\<not> within (right_of junk p i) b" if "\<not> i + 1 < vp_count p"
    proof -
      have "unat (i + 1) = ?i + 1"
        using bounds(2) unsigned_less [of "vp_count p", where 'a = nat] unat_add_no_wrap [of i 1] by simp
      then have "?c \<le> ?i + 1" using that by (simp add: word_less_nat_alt)
      then have "?c * 4096 \<le> (?i + 1) * 4096" by (rule mult_le_mono1)
      then show ?thesis unfolding r by linarith
    qed
    ultimately show ?thesis by (auto simp: fault_pieces_def)
  qed
  have "within p b \<and> \<not> within (left_of junk p i) b \<and> \<not> within (right_of junk p i) b \<longleftrightarrow>
      ?s + ?i * 4096 \<le> unat b \<and> unat b < ?s + ?i * 4096 + 4096"
  proof -
    have "?i * 4096 + 4096 \<le> ?c * 4096" using bounds(2) by simp
    then show ?thesis unfolding wp l r by auto
  qed
  also have "\<dots> \<longleftrightarrow> unat b div 4096 = unat a div 4096" unfolding bounds(3) by linarith
  finally show "within p b \<and> (\<forall>x\<in>set (fault_pieces junk p i). \<not> within x b) \<longleftrightarrow> unat b div 4096 = unat a div 4096"
    unfolding pieces .
qed

lemma lazy_find_iff:
  assumes "lazy_ok q"
  shows "find (\<lambda>p. a \<ge> vp_start p \<and> a < vp_end p) (lq_data q) = None \<longleftrightarrow> (\<forall>f. (a, f) \<notin> reserved q)"
  by (auto simp: find_None_iff reserved_def within_def)

lemma queue_range_ok: "queue_range True True q p = Some (enqueue_all q [p])"
  by (simp add: queue_range_def enqueue_all_def)

lemma enqueue_all_append: "enqueue_all (enqueue_all q ps) ps' = enqueue_all q (ps @ ps')"
  by (simp add: enqueue_all_def)

lemma lazy_tryalloc_hit:
  assumes ok: "lazy_ok q" and a: "a \<noteq> 0" "(a, f) \<in> reserved q" and mem: "\<And>n. mem n"
    and frame: "alloc_frames fs 1 = Some (fs', phys)"
  shows "\<exists>q'. lazy_tryalloc mem junk fs q a = Some (0, fs', q', [Page_map_to (PADDING_DOWN a PAGE_SIZE) phys f]) \<and>
    lazy_ok q' \<and> reserved q' = {(b, g) \<in> reserved q. unat b div 4096 \<noteq> unat a div 4096}"
proof -
  obtain p where find: "find (\<lambda>p. a \<ge> vp_start p \<and> a < vp_end p) (lq_data q) = Some p"
    using lazy_find_iff [OF ok, of a] a(2) by auto
  then have p: "p \<in> set (lq_data q)" "within p a" by (auto simp: find_Some_iff within_def)
  have rp: "range_ok p" using ok p(1) by (auto simp: lazy_ok_def lq_data_def)
  have apart: "x = p" if x: "x \<in> set (lq_data q)" "within x a" for x
  proof -
    obtain j k where j: "j < length (lq_data q)" "x = lq_data q ! j" and k: "k < length (lq_data q)" "p = lq_data q ! k"
      using x(1) p(1) by (auto simp: in_set_conv_nth)
    have "apart (lq_data q ! m) (lq_data q ! n)" if "m < n" "n < length (lq_data q)" for m n
      using ok that unfolding lazy_ok_def sorted_wrt_iff_nth_less by blast
    then show ?thesis using j k x(2) p(2) unfolding apart_def by (metis linorder_neqE_nat)
  qed
  then have f: "f = vp_pte_flags p" using a(2) by (auto simp: reserved_def)
  define i where "i = (a - vp_start p) div PAGE_SIZE"
  note pieces = fault_pieces_spec [where junk = junk, OF rp p(2) i_def]
  have spec: "lazy_ok (replaced q p (fault_pieces junk p i))"
      "reserved (replaced q p (fault_pieces junk p i)) =
        reserved q - {(a, f). within p a \<and> (\<forall>x\<in>set (fault_pieces junk p i). \<not> within x a)}"
    using replaced_spec [OF ok p(1) _ pieces(2)] pieces(1) by blast+
  have page: "vp_start p + i * PAGE_SIZE = PADDING_DOWN a PAGE_SIZE"
  proof -
    have "unat (i * PAGE_SIZE) = unat i * 4096"
      using fault_index_bounds(2) [OF rp p(2), folded i_def] rp by (simp add: range_ok_def unat_word_ariths)
    moreover have "unat a div 4096 * 4096 < 2 ^ 64"
      using unsigned_less [of a, where 'a = nat] div_times_less_eq_dividend [of "unat a" 4096] by simp
    ultimately have "unat (vp_start p + i * PAGE_SIZE) = unat (PADDING_DOWN a PAGE_SIZE)"
      using fault_index_bounds(3) [OF rp p(2), folded i_def] PADDING_DOWN_page(1) [of a]
        unat_add_no_wrap [of "vp_start p" "i * PAGE_SIZE"] by simp
    then show ?thesis by (simp only: word_unat_eq_iff)
  qed
  have "lazy_tryalloc mem junk fs q a =
      Some (0, fs', replaced q p (fault_pieces junk p i), [Page_map_to (PADDING_DOWN a PAGE_SIZE) phys f])"
    using a(1) frame mem find page f
    by (simp add: lazy_tryalloc_def i_def [symmetric] queue_range_ok enqueue_all_append replaced_def fault_pieces_def
        left_of_def right_of_def enqueue_all_def Let_def)
  moreover have "reserved (replaced q p (fault_pieces junk p i)) =
      {(b, g) \<in> reserved q. unat b div 4096 \<noteq> unat a div 4096}"
    unfolding spec(2) using pieces(3) by auto
  ultimately show ?thesis using spec(1) by blast
qed

lemma lazy_tryalloc_miss:
  assumes "lazy_ok q" "a = 0 \<or> (\<forall>f. (a, f) \<notin> reserved q)"
  shows "lazy_tryalloc mem junk fs q a = Some (-1, fs, q, [])"
  using assms lazy_find_iff [OF assms(1), of a] by (auto simp: lazy_tryalloc_def)

section \<open>Unmapping a range\<close>

definition meets :: "u64 \<Rightarrow> u64 \<Rightarrow> mm_virtual_page_t \<Rightarrow> bool" where
  "meets lo hi p \<longleftrightarrow> vp_end p > lo \<and> vp_start p < hi"

definition unmap_pieces :: "u64 \<Rightarrow> u64 \<Rightarrow> mm_virtual_page_t \<Rightarrow> mm_virtual_page_t list" where
  "unmap_pieces lo hi p =
     (if lo > vp_start p then [keep_left p lo] else []) @ (if hi < vp_end p then [keep_right p hi] else [])"

lemma unmap_one_replaced: "(\<And>n. ok n) \<Longrightarrow> unmap_one ok q lo hi p = Some (replaced q p (unmap_pieces lo hi p))"
  by (auto simp: unmap_one_def Let_def queue_range_ok enqueue_all_append replaced_def unmap_pieces_def not_le not_less)
    (simp_all add: enqueue_all_def)

lemma aligned_difference:
  assumes "4096 dvd unat a" "4096 dvd unat b" "b \<le> (a :: u64)"
  shows "unat ((a - b) div PAGE_SIZE) * 4096 = unat a - unat b"
  using assms by (simp add: unat_div_distrib unat_sub_no_wrap)

lemma keep_left_ok:
  assumes "range_ok p" "4096 dvd unat lo" "vp_start p < lo" "lo < vp_end p"
  shows "range_ok (keep_left p lo)" "within (keep_left p lo) a \<longleftrightarrow> within p a \<and> a < lo" "vp_end (keep_left p lo) = lo"
proof -
  have c: "unat (vp_count (keep_left p lo)) * 4096 = unat lo - unat (vp_start p)"
    using aligned_difference [OF assms(2)] assms by (simp add: keep_left_def range_ok_def)
  have le: "unat (vp_start p) < unat lo" using assms(3) by (simp add: word_less_nat_alt)
  have s: "vp_start (keep_left p lo) = vp_start p" by (simp add: keep_left_def)
  show ok: "range_ok (keep_left p lo)" using assms(1) le unsigned_less [of lo, where 'a = nat]
    unfolding range_ok_def s c by simp
  show e: "vp_end (keep_left p lo) = lo" using range_bounds(1) [OF ok] le by (simp add: s c word_unat_eq_iff)
  show "within (keep_left p lo) a \<longleftrightarrow> within p a \<and> a < lo" using assms(4) by (auto simp: within_def s e)
qed

lemma keep_right_ok:
  assumes "range_ok p" "4096 dvd unat hi" "vp_start p < hi" "hi < vp_end p"
  shows "range_ok (keep_right p hi)" "within (keep_right p hi) a \<longleftrightarrow> within p a \<and> hi \<le> a"
    "vp_start (keep_right p hi) = hi"
proof -
  have d: "4096 dvd unat (vp_end p)" using assms(1) by (simp add: range_bounds(1) range_ok_def)
  have c: "unat (vp_count (keep_right p hi)) * 4096 = unat (vp_end p) - unat hi"
    using aligned_difference [OF d assms(2)] assms(4) by (simp add: keep_right_def)
  have le: "unat hi < unat (vp_end p)" using assms(4) by (simp add: word_less_nat_alt)
  show s: "vp_start (keep_right p hi) = hi" by (simp add: keep_right_def)
  show ok: "range_ok (keep_right p hi)" using assms(2) le unsigned_less [of "vp_end p", where 'a = nat]
    unfolding range_ok_def s c by simp
  have e: "vp_end (keep_right p hi) = vp_end p" using range_bounds(1) [OF ok] le by (simp add: s c word_unat_eq_iff)
  show "within (keep_right p hi) a \<longleftrightarrow> within p a \<and> hi \<le> a" using assms(3) by (auto simp: within_def s e)
qed

lemma unmap_pieces_spec:
  assumes ok: "range_ok p" and al: "4096 dvd unat lo" "4096 dvd unat hi" and lt: "lo \<le> hi" and m: "meets lo hi p"
  shows "\<And>x. x \<in> set (unmap_pieces lo hi p) \<Longrightarrow>
      range_ok x \<and> vp_pte_flags x = vp_pte_flags p \<and> (\<forall>b. within x b \<longrightarrow> within p b)"
    and "sorted_wrt apart (unmap_pieces lo hi p)"
    and "\<And>x. x \<in> set (unmap_pieces lo hi p) \<Longrightarrow> \<not> meets lo hi x"
    and "within p b \<and> (\<forall>x\<in>set (unmap_pieces lo hi p). \<not> within x b) \<longleftrightarrow> within p b \<and> lo \<le> b \<and> b < hi"
proof -
  have l: "range_ok (keep_left p lo)" "within (keep_left p lo) a \<longleftrightarrow> within p a \<and> a < lo" "vp_end (keep_left p lo) = lo"
    if "lo > vp_start p" for a
    using keep_left_ok [OF ok al(1) that] m by (simp_all add: meets_def)
  have r: "range_ok (keep_right p hi)" "within (keep_right p hi) a \<longleftrightarrow> within p a \<and> hi \<le> a" "vp_start (keep_right p hi) = hi"
    if "hi < vp_end p" for a
    using keep_right_ok [OF ok al(2) _ that] m by (simp_all add: meets_def)
  have flags: "vp_pte_flags (keep_left p lo) = vp_pte_flags p" "vp_pte_flags (keep_right p hi) = vp_pte_flags p"
    by (simp_all add: keep_left_def keep_right_def)
  show "range_ok x \<and> vp_pte_flags x = vp_pte_flags p \<and> (\<forall>b. within x b \<longrightarrow> within p b)"
    if "x \<in> set (unmap_pieces lo hi p)" for x
    using that l r flags by (auto simp: unmap_pieces_def split: if_splits)
  show "sorted_wrt apart (unmap_pieces lo hi p)"
    using l(2) r(2) lt by (fastforce simp: unmap_pieces_def apart_def)
  show "\<not> meets lo hi x" if "x \<in> set (unmap_pieces lo hi p)" for x
    using that l(3) r(3) by (auto simp: unmap_pieces_def meets_def split: if_splits)
  show "within p b \<and> (\<forall>x\<in>set (unmap_pieces lo hi p). \<not> within x b) \<longleftrightarrow> within p b \<and> lo \<le> b \<and> b < hi"
  proof (cases "within p b")
    case True
    then have "lo \<le> b" if "\<not> lo > vp_start p" using that by (auto simp: within_def)
    moreover have "b < hi" if "\<not> hi < vp_end p" using that True by (auto simp: within_def)
    ultimately show ?thesis using True l(2) [of b] r(2) [of b] unfolding unmap_pieces_def
      by (cases "lo > vp_start p"; cases "hi < vp_end p") auto
  qed simp
qed

lemma meets_index [simp]: "meets lo hi (virt_copy_index p n) = meets lo hi p"
  by (simp add: meets_def)

lemma replaced_meets:
  assumes "lazy_ok q" "p \<in> set (lq_data q)" "meets lo hi p" "\<And>x. x \<in> set pieces \<Longrightarrow> \<not> meets lo hi x"
  shows "length (filter (meets lo hi) (lq_data (replaced q p pieces))) < length (filter (meets lo hi) (lq_data q))"
proof -
  obtain pre n post new where r: "lq_nodes q = pre @ (n, p) # post" "lq_nodes (replaced q p pieces) = pre @ post @ new"
    and new: "list_all2 tagged new pieces"
    by (rule replaced_nodes [OF assms(1,2)])
  have "filter (meets lo hi) (map snd new) = []"
    using tagged_forward [OF new] assms(4) by (fastforce simp: filter_empty_conv)
  then show ?thesis using assms(3) by (simp add: lq_data_def r)
qed

lemma unmap_virtual_loop_spec:
  assumes "lazy_ok q" "4096 dvd unat lo" "4096 dvd unat hi" "lo \<le> hi" "\<And>n m. ok n m"
  shows "\<exists>q'. unmap_virtual_loop ok n lo hi q = Some q' \<and> lazy_ok q' \<and>
    reserved q' = {(a, f) \<in> reserved q. \<not> (lo \<le> a \<and> a < hi)}"
  using assms(1)
proof (induction "length (filter (meets lo hi) (lq_data q))" arbitrary: q n rule: less_induct)
  case less
  show ?case
  proof (cases "find (\<lambda>p. vp_end p > lo \<and> vp_start p < hi) (lq_data q)")
    case None
    have "\<not> (lo \<le> a \<and> a < hi)" if af: "(a, f) \<in> reserved q" for a f
    proof -
      obtain p where "p \<in> set (lq_data q)" "within p a" using af by (auto simp: reserved_def)
      then show ?thesis using None by (force simp: find_None_iff within_def)
    qed
    then show ?thesis using None less.prems by (subst unmap_virtual_loop.simps) auto
  next
    case (Some p)
    then have p: "p \<in> set (lq_data q)" "meets lo hi p" by (auto simp: find_Some_iff meets_def)
    then have rp: "range_ok p" using less.prems by (auto simp: lazy_ok_def lq_data_def)
    note pieces = unmap_pieces_spec [OF rp assms(2-4) p(2)]
    let ?q = "replaced q p (unmap_pieces lo hi p)"
    have spec: "lazy_ok ?q"
        "reserved ?q = reserved q - {(a, f). within p a \<and> (\<forall>x\<in>set (unmap_pieces lo hi p). \<not> within x a)}"
      using replaced_spec [OF less.prems p(1) _ pieces(2)] pieces(1) by blast+
    have fewer: "length (filter (meets lo hi) (lq_data ?q)) < length (filter (meets lo hi) (lq_data q))"
      using replaced_meets [OF less.prems p] pieces(3) by blast
    obtain q' where q': "unmap_virtual_loop ok (Suc n) lo hi ?q = Some q'" "lazy_ok q'"
      "reserved q' = {(a, f) \<in> reserved ?q. \<not> (lo \<le> a \<and> a < hi)}"
      using less.hyps [OF fewer spec(1), of "Suc n"] by blast
    have "unmap_virtual_loop ok n lo hi q = Some q'"
      using Some q'(1) assms(5) by (subst unmap_virtual_loop.simps) (simp add: unmap_one_replaced)
    moreover have "reserved q' = {(a, f) \<in> reserved q. \<not> (lo \<le> a \<and> a < hi)}"
      unfolding q'(3) spec(2) using pieces(4) by auto
    ultimately show ?thesis using q'(2) by blast
  qed
qed

lemma unmap_virtual_page_spec:
  assumes "lazy_ok q" "4096 dvd unat lo" "4096 dvd unat len" "unat lo + unat len < 2 ^ 64" "\<And>n m. ok n m"
  shows "\<exists>q'. unmap_virtual_page ok q lo len = Some q' \<and> lazy_ok q' \<and>
    reserved q' = {(a, f) \<in> reserved q. \<not> (lo \<le> a \<and> a < lo + len)}"
proof -
  have u: "unat (lo + len) = unat lo + unat len" using assms(4) by (rule unat_add_no_wrap)
  then have "4096 dvd unat (lo + len)" "lo \<le> lo + len" using assms(2,3) by (simp_all add: word_le_nat_alt)
  then show ?thesis unfolding unmap_virtual_page_def using unmap_virtual_loop_spec [OF assms(1,2)] assms(5) by blast
qed

text \<open>Reserving a range makes its addresses wait with the given flags; what is reserved elsewhere stays.\<close>

lemma lazy_infoalloc_spec:
  assumes "lazy_ok q" "4096 dvd unat va" "4096 dvd unat len" "unat va + unat len < 2 ^ 64 - 4096" "\<And>n m. ok n m"
    and fresh: "flags AND MAP_FIXED = 0 \<Longrightarrow> \<forall>(a, f)\<in>reserved q. \<not> (va \<le> a \<and> a < va + len)"
  shows "\<exists>q' es. lazy_infoalloc ok True True q va len pf flags = Some (q', es) \<and> lazy_ok q' \<and>
    reserved q' = {(a, f) \<in> reserved q. \<not> (va \<le> a \<and> a < va + len)} \<union> {(a, pf) | a. va \<le> a \<and> a < va + len}"
proof -
  have nowrap: "unat va + unat len < 2 ^ 64" using assms(4) by simp
  define cnt where "cnt = (len + PAGE_SIZE - 1) div PAGE_SIZE"
  let ?p = "\<lparr>vp_start = va, vp_count = cnt, vp_flags = flags, vp_pte_flags = pf, vp_index = None\<rparr>"
  have c: "unat cnt * 4096 = unat len"
  proof -
    have "unat (4095 :: u64) = 4095" by simp
    moreover have "len + PAGE_SIZE - 1 = len + 4095" by simp
    ultimately have "unat (len + PAGE_SIZE - 1) = unat len + 4095"
      using assms(4) unat_add_no_wrap [of len 4095] by (simp add: add.commute)
    then have "unat cnt = (unat len + 4095) div 4096" unfolding cnt_def unat_div_distrib by simp
    then show ?thesis using assms(3) by (auto elim!: dvdE)
  qed
  have ok_p: "range_ok ?p" using assms(2) nowrap by (simp add: range_ok_def c)
  have w: "within ?p a \<longleftrightarrow> va \<le> a \<and> a < va + len" for a
    using range_bounds(2) [OF ok_p, of a] nowrap
    by (simp add: c word_le_nat_alt word_less_nat_alt unat_add_no_wrap)
  obtain q1 es where q1: "lazy_ok q1" "reserved q1 = {(a, f) \<in> reserved q. \<not> (va \<le> a \<and> a < va + len)}"
    and run: "(if flags AND MAP_FIXED \<noteq> 0
        then map_option (\<lambda>q. (q, [Unmap_page_range va len])) (unmap_virtual_page ok q va len) else Some (q, [])) = Some (q1, es)"
  proof (cases "flags AND MAP_FIXED = 0")
    case True
    then have "reserved q = {(a, f) \<in> reserved q. \<not> (va \<le> a \<and> a < va + len)}" using fresh by auto
    with True assms(1) show ?thesis by (intro that [of q "[]"]) simp_all
  next
    case False
    obtain q' where "unmap_virtual_page ok q va len = Some q'" "lazy_ok q'"
      "reserved q' = {(a, f) \<in> reserved q. \<not> (va \<le> a \<and> a < va + len)}"
      using unmap_virtual_page_spec [where ok = ok, OF assms(1-3) nowrap assms(5)] by blast
    with False show ?thesis by (intro that [of q' "[Unmap_page_range va len]"]) simp_all
  qed
  let ?q = "snd (list_enqueue True q1 (virt_copy_index ?p))"
  have wf: "lq_wf q1" using q1(1) by (simp add: lazy_ok_def)
  note enq = list_enqueue_spec [OF wf, of "virt_copy_index ?p"]
  have nodes: "lq_nodes ?q = lq_nodes q1 @ [(next_node q1, virt_copy_index ?p (next_node q1))]"
    by (simp add: list_enqueue_def)
  have away: "apart (virt_copy_index ?p (next_node q1)) y" if "y \<in> set (lq_data q1)" for y
  proof -
    have "(a, vp_pte_flags y) \<in> reserved q1" if "within y a" for a using \<open>y \<in> set (lq_data q1)\<close> that by (auto simp: reserved_def)
    then show ?thesis using q1(2) w by (auto simp: apart_def)
  qed
  have "lazy_ok ?q" using q1(1) enq(2) ok_p away unfolding lazy_ok_def nodes enq(3) sorted_apart_snoc by auto
  moreover have "reserved ?q = reserved q1 \<union> {(a, pf) | a. va \<le> a \<and> a < va + len}"
  proof -
    have "reserved ?q = reserved q1 \<union> {(a, vp_pte_flags x) | a x. x = virt_copy_index ?p (next_node q1) \<and> within x a}"
      unfolding reserved_def enq(3) set_append list.set by blast
    then show ?thesis by (simp add: w)
  qed
  moreover have "lazy_infoalloc ok True True q va len pf flags = Some (?q, es)"
    unfolding lazy_infoalloc_def Let_def run cnt_def [symmetric] by (simp add: queue_range_def)
  ultimately show ?thesis using q1(2) by auto
qed

lemma lazy_free_spec:
  assumes "lazy_ok q"
  shows "\<exists>q'. lazy_free q = Some q' \<and> lq_nodes q' = []"
proof -
  have "\<exists>q'. refree_virt q = Some q' \<and> lq_nodes q' = []"
    using assms
  proof (induction "length (lq_nodes q)" arbitrary: q)
    case 0
    then show ?case by (subst refree_virt.simps) (simp add: lq_data_def)
  next
    case (Suc k)
    then obtain n p ns where q: "lq_nodes q = (n, p) # ns" by (cases "lq_nodes q") auto
    then have p: "p \<in> set (lq_data q)" and idx: "vp_index p = Some n"
      using Suc.prems by (auto simp: lq_data_def lazy_ok_def)
    let ?q = "list_remove_node q (vp_index p)"
    have r: "?q = replaced q p []" by (simp add: replaced_def enqueue_all_def)
    have ok: "lazy_ok ?q" unfolding r by (rule replaced_spec(1) [OF Suc.prems p]) simp_all
    have "lq_nodes ?q = ns"
      using list_remove_node_spec(2) [of q "[]" n p ns] Suc.prems q idx by (simp add: lazy_ok_def)
    then have "k = length (lq_nodes ?q)" using Suc.hyps(2) q by simp
    from Suc.hyps(1) [OF this ok] show ?case
      by (subst refree_virt.simps) (simp add: lq_data_def q)
  qed
  moreover have "lq_nodes q = []" if "\<not> lq_size q > 0" using that assms by (simp add: lazy_ok_def lq_wf_def)
  ultimately show ?thesis by (auto simp: lazy_free_def)
qed

section \<open>Properties\<close>

definition demo_range :: mm_virtual_page_t where
  "demo_range = \<lparr>vp_start = 0x10000, vp_count = 4, vp_flags = 0, vp_pte_flags = 7, vp_index = Some 0\<rparr>"

definition demo_queue :: virt_queue where
  "demo_queue = \<lparr>lq_nodes = [(0, demo_range)], lq_tail = Some 0, lq_size = 1, next_node = 1\<rparr>"

lemma demo_queue_ok: "lazy_ok demo_queue" "(0x12345, 7) \<in> reserved demo_queue"
  by (auto simp: lazy_ok_def lq_wf_def demo_queue_def demo_range_def range_ok_def lq_data_def reserved_def within_def vp_end_def)

text \<open>
  C8: A page fault inside a reserved range maps exactly the page of the fault, with the flags of the range and a frame of
  the allocator, and takes exactly that page out of the reservation: every other reserved address keeps its flags, and the
  ranges stay disjoint, aligned and linked to their queue nodes.
\<close>

theorem page_fault_maps_one_page:
  assumes "lazy_ok q" "a \<noteq> 0" "(a, f) \<in> reserved q" "\<And>n. mem n" "alloc_frames fs 1 = Some (fs', phys)"
  shows "\<exists>q'. lazy_tryalloc mem junk fs q a = Some (0, fs', q', [Page_map_to (PADDING_DOWN a PAGE_SIZE) phys f]) \<and>
    lazy_ok q' \<and> reserved q' = {(b, g) \<in> reserved q. unat b div 4096 \<noteq> unat a div 4096}"
  using lazy_tryalloc_hit [OF assms] .

definition no_zones :: frame_state where
  "no_zones = \<lparr>zones = (\<lambda>t. None), nr_zones = 0,
     fs_metadata = \<lparr>metadata_pool_phys = 0, metadata_pool_pages = 0, metadata_pool_used = 0, metadata_free_list = []\<rparr>,
     using_regions = \<lparr>bm_buffer = [], bm_length = 0\<rparr>, usable_regions = \<lparr>bm_buffer = [], bm_length = 0\<rparr>,
     early_last_alloc_pos = 0, memory_size = 0, page_maps = None\<rparr>"

theorem page_fault_maps_one_page_witness:
  "\<exists>q'. lazy_tryalloc (\<lambda>n. True) 0 no_zones demo_queue 0x12345 = Some (0, no_zones, q', [Page_map_to 0x12000 0 7]) \<and>
    (0x12345, 7) \<notin> reserved q'"
proof -
  have "alloc_frames no_zones 1 = Some (no_zones, 0)"
    by (auto simp: alloc_frames_def alloc_frames_from_def alloc_in_def no_zones_def split: option.split)
  moreover have "PADDING_DOWN 0x12345 PAGE_SIZE = 0x12000" by (simp add: PADDING_DOWN_def)
  ultimately show ?thesis
    using page_fault_maps_one_page [OF demo_queue_ok(1) _ demo_queue_ok(2), of "\<lambda>n. True" no_zones no_zones 0 0] by auto
qed

text \<open>
  \<open>unmap_virtual_page\<close> terminates and removes exactly the page-aligned range from the reservations, splitting the
  ranges that stick out on either side.
\<close>

theorem unmap_virtual_page_exact:
  assumes "lazy_ok q" "4096 dvd unat lo" "4096 dvd unat len" "unat lo + unat len < 2 ^ 64" "\<And>n m. ok n m"
  shows "\<exists>q'. unmap_virtual_page ok q lo len = Some q' \<and> lazy_ok q' \<and>
    reserved q' = {(a, f) \<in> reserved q. \<not> (lo \<le> a \<and> a < lo + len)}"
  using unmap_virtual_page_spec [OF assms] .

theorem unmap_virtual_page_exact_witness:
  "\<exists>q'. unmap_virtual_page (\<lambda>n m. True) demo_queue 0x11000 0x2000 = Some q' \<and> (0x12345, 7) \<notin> reserved q'"
  using unmap_virtual_page_exact [OF demo_queue_ok(1), of "0x11000" "0x2000" "\<lambda>n m. True"] by auto

end
