(* ===== verification/Pipefs.thy ===== *)
theory Pipefs
  imports Kernel_Prelude
begin

text \<open>
  Pipes: \<^verbatim>\<open>src/src/fs/pipefs.c\<close>, the pipe branch of \<open>vfs_close\<close> (\<^verbatim>\<open>src/src/fs/vfs.c\<close>), the pipe branch of \<open>fd_dup\<close>
  (\<^verbatim>\<open>src/src/fs/fds.c\<close>) and the objects \<open>pipe2\<close> builds (\<^verbatim>\<open>src/src/fs/fssys.c\<close>).  The three kinds of heap objects, pipes,
  ends and nodes, live in maps from addresses; \<open>free\<close> removes an entry, and reading or freeing an entry that is gone is the
  fault \<^const>\<open>None\<close>, as is a copy past the end of the buffer.  The code between taking and dropping \<open>pipe->lock\<close> is one
  step.  \<open>vfs_poll_notify\<close> is recorded in \<open>poll_log\<close>; a sleep in \<open>vfs_poll_wait_sleep\<close> consumes one entry of \<open>wakes\<close>: its
  answer and what the rest of the system did to the heap in the meantime.
\<close>

section \<open>Definitions\<close>

abbreviation PIPE_BUFF :: nat where "PIPE_BUFF \<equiv> 65536"
abbreviation PIPE_ATOMIC_MAX :: nat where "PIPE_ATOMIC_MAX \<equiv> 4096"
abbreviation EPOLLIN :: u64 where "EPOLLIN \<equiv> 1"
abbreviation EPOLLOUT :: u64 where "EPOLLOUT \<equiv> 4"
abbreviation EPOLLERR :: u64 where "EPOLLERR \<equiv> 8"
abbreviation EPOLLHUP :: u64 where "EPOLLHUP \<equiv> 0x10"
abbreviation O_NONBLOCK :: u64 where "O_NONBLOCK \<equiv> 0x800"
abbreviation file_pipe :: u16 where "file_pipe \<equiv> 0x100"
abbreviation EINTR_errno :: u64 where "EINTR_errno \<equiv> 4"
abbreviation EWOULDBLOCK_errno :: u64 where "EWOULDBLOCK_errno \<equiv> 11"
abbreviation EPIPE_errno :: u64 where "EPIPE_errno \<equiv> 32"

record pipe_info =
  ptr :: u32
  buf :: "nat \<Rightarrow> u8"
  assigned :: int
  write_fds :: int
  read_fds :: int
  pipe_active :: int
  pipe_free_pending :: bool
  read_node :: "nat option"
  write_node :: "nat option"

record pipe_specific =
  spec_write :: bool
  spec_info :: "nat option"
  spec_node :: "nat option"
  spec_active :: int
  spec_free_pending :: bool

text \<open>The fields of \<open>struct vfs_node\<close> that the pipe code uses.\<close>

record vfs_node =
  vn_size :: u64
  vn_flags :: u64
  vn_type :: u16
  vn_refcount :: u32
  vn_handle :: "nat option"

record pipe_heap =
  pipes :: "nat \<rightharpoonup> pipe_info"
  specs :: "nat \<rightharpoonup> pipe_specific"
  nodes :: "nat \<rightharpoonup> vfs_node"
  poll_log :: "(nat \<times> u64) list"

subsection \<open>Heap accesses\<close>

definition upd_node :: "nat option \<Rightarrow> (vfs_node \<Rightarrow> vfs_node) \<Rightarrow> pipe_heap \<Rightarrow> pipe_heap option" where
  "upd_node node f h =
     (case node of
        None \<Rightarrow> Some h
      | Some n \<Rightarrow> do { v \<leftarrow> nodes h n; Some (h\<lparr>nodes := (nodes h)(n \<mapsto> f v)\<rparr>) })"

definition vfs_poll_notify :: "nat option \<Rightarrow> u64 \<Rightarrow> pipe_heap \<Rightarrow> pipe_heap option" where
  "vfs_poll_notify node ev h =
     (case node of None \<Rightarrow> Some h | Some n \<Rightarrow> do { _ \<leftarrow> nodes h n; Some (h\<lparr>poll_log := poll_log h @ [(n, ev)]\<rparr>) })"

definition free_spec :: "nat \<Rightarrow> nat option \<Rightarrow> pipe_heap \<Rightarrow> pipe_heap option" where
  "free_spec a node h = do {
     h \<leftarrow> upd_node node (\<lambda>v. v\<lparr>vn_handle := None\<rparr>) h;
     _ \<leftarrow> specs h a;
     Some (h\<lparr>specs := (specs h)(a := None)\<rparr>)
   }"

definition free_pipe :: "nat \<Rightarrow> pipe_heap \<Rightarrow> pipe_heap option" where
  "free_pipe p h = do { _ \<leftarrow> pipes h p; Some (h\<lparr>pipes := (pipes h)(p := None)\<rparr>) }"

definition pipefs_release_node :: "nat option \<Rightarrow> pipe_heap \<Rightarrow> pipe_heap option" where
  "pipefs_release_node node h =
     (case node of None \<Rightarrow> Some h | Some n \<Rightarrow> do { _ \<leftarrow> nodes h n; Some (h\<lparr>nodes := (nodes h)(n := None)\<rparr>) })"

definition pipefs_update_nodes :: "pipe_info \<Rightarrow> pipe_heap \<Rightarrow> pipe_heap option" where
  "pipefs_update_nodes pipe h = do {
     h \<leftarrow> upd_node (read_node pipe) (\<lambda>v. v\<lparr>vn_size := ucast (ptr pipe)\<rparr>) h;
     upd_node (write_node pipe) (\<lambda>v. v\<lparr>vn_size := ucast (ptr pipe)\<rparr>) h
   }"

subsection \<open>Entering and leaving an operation\<close>

definition pipefs_enter :: "nat option \<Rightarrow> pipe_heap \<Rightarrow> pipe_heap option" where
  "pipefs_enter file h =
     (case file of
        None \<Rightarrow> Some h
      | Some a \<Rightarrow> do {
          spec \<leftarrow> specs h a;
          (case spec_info spec of
             None \<Rightarrow> Some h
           | Some p \<Rightarrow> do {
               pipe \<leftarrow> pipes h p;
               Some (h\<lparr>specs := (specs h)(a \<mapsto> spec\<lparr>spec_active := spec_active spec + 1\<rparr>),
                       pipes := (pipes h)(p \<mapsto> pipe\<lparr>pipe_active := pipe_active pipe + 1\<rparr>)\<rparr>)
             })
        })"

definition pipefs_leave :: "nat option \<Rightarrow> pipe_heap \<Rightarrow> pipe_heap option" where
  "pipefs_leave file h =
     (case file of
        None \<Rightarrow> Some h
      | Some a \<Rightarrow> do {
          spec \<leftarrow> specs h a;
          (case spec_info spec of
             None \<Rightarrow> Some h
           | Some p \<Rightarrow> do {
               pipe \<leftarrow> pipes h p;
               let spec = spec\<lparr>spec_active := spec_active spec - 1\<rparr>;
               let pipe = pipe\<lparr>pipe_active := pipe_active pipe - 1\<rparr>;
               let frees_spec = (spec_free_pending spec \<and> spec_active spec = 0);
               let frees_pipe = (pipe_free_pending pipe \<and> pipe_active pipe = 0 \<and> read_fds pipe = 0 \<and> write_fds pipe = 0);
               let h = h\<lparr>specs := (specs h)(a \<mapsto> spec), pipes := (pipes h)(p \<mapsto> pipe)\<rparr>;
               let node = spec_node spec;
               h \<leftarrow> (if frees_spec then free_spec a node h else Some h);
               h \<leftarrow> (if frees_pipe then free_pipe p h else Some h);
               (case node of
                  None \<Rightarrow> Some h
                | Some n \<Rightarrow>
                    if frees_spec then do {
                      v \<leftarrow> nodes h n;
                      if vn_refcount v = 0 then pipefs_release_node node h else Some h
                    } else Some h)
             })
        })"

subsection \<open>Reading\<close>

datatype round = Returns u64 "u8 list" | Sleeps

text \<open>One pass of the loop in \<open>pipefs_read\<close> under the lock.\<close>

definition read_round :: "nat \<Rightarrow> nat \<Rightarrow> pipe_heap \<Rightarrow> (round \<times> pipe_heap) option" where
  "read_round a sz h = do {
     spec \<leftarrow> specs h a;
     p \<leftarrow> spec_info spec;
     pipe \<leftarrow> pipes h p;
     if ptr pipe > 0 then do {
       let to_read = min sz (unat (ptr pipe));
       let bytes = map (buf pipe) [0..<to_read];
       let pipe = pipe\<lparr>buf := (\<lambda>i. if i < unat (ptr pipe) - to_read then buf pipe (i + to_read) else buf pipe i),
                       ptr := ptr pipe - of_nat to_read\<rparr>;
       let pipe = pipe\<lparr>assigned := uint (ptr pipe)\<rparr>;
       h \<leftarrow> pipefs_update_nodes pipe (h\<lparr>pipes := (pipes h)(p \<mapsto> pipe)\<rparr>);
       h \<leftarrow> vfs_poll_notify (write_node pipe) EPOLLOUT h;
       Some (Returns (of_nat to_read) bytes, h)
     }
     else if write_fds pipe = 0 then Some (Returns 0 [], h)
     else do {
       nonblock \<leftarrow> (case spec_node spec of None \<Rightarrow> Some False | Some n \<Rightarrow> do {
         v \<leftarrow> nodes h n; Some (vn_flags v AND O_NONBLOCK \<noteq> 0) });
       Some (if nonblock then Returns (- EWOULDBLOCK_errno) [] else Sleeps, h)
     }
   }"

datatype outcome = Returned u64 "u8 list" pipe_heap | Asleep pipe_heap

type_synonym wakes = "(int \<times> (pipe_heap \<Rightarrow> pipe_heap)) list"

fun read_loop :: "nat \<Rightarrow> nat \<Rightarrow> wakes \<Rightarrow> pipe_heap \<Rightarrow> outcome option" where
  "read_loop a sz wakes h = do {
     (r, h) \<leftarrow> read_round a sz h;
     (case (r, wakes) of
        (Returns ret bytes, _) \<Rightarrow> do { h \<leftarrow> pipefs_leave (Some a) h; Some (Returned ret bytes h) }
      | (Sleeps, []) \<Rightarrow> Some (Asleep h)
      | (Sleeps, (reason, others) # wakes') \<Rightarrow>
          if reason \<noteq> 0
          then do { h \<leftarrow> pipefs_leave (Some a) (others h); Some (Returned (- EINTR_errno) [] h) }
          else read_loop a sz wakes' (others h))
   }"

declare read_loop.simps [simp del]

definition pipefs_read :: "nat option \<Rightarrow> nat \<Rightarrow> wakes \<Rightarrow> pipe_heap \<Rightarrow> outcome option" where
  "pipefs_read file sz wakes h =
     (let sz = (if sz > PIPE_BUFF then PIPE_BUFF else sz) in
      if sz = 0 then Some (Returned 0 [] h)
      else case file of
        None \<Rightarrow> Some (Returned (- 1) [] h)
      | Some a \<Rightarrow> do {
          spec \<leftarrow> specs h a;
          if spec_write spec then Some (Returned (- 1) [] h)
          else if spec_info spec = None then Some (Returned (- 1) [] h)
          else do { h \<leftarrow> pipefs_enter file h; read_loop a sz wakes h }
        })"

subsection \<open>Writing\<close>

text \<open>One pass of the loop in \<open>pipe_write_inner\<close>; \<open>data\<close> is what \<open>addr\<close> points to, its length the argument \<open>size\<close>.\<close>

definition write_round :: "nat \<Rightarrow> u8 list \<Rightarrow> bool \<Rightarrow> bool \<Rightarrow> pipe_heap \<Rightarrow> (round \<times> pipe_heap) option" where
  "write_round a data atomic allow_wait h = do {
     spec \<leftarrow> specs h a;
     p \<leftarrow> spec_info spec;
     pipe \<leftarrow> pipes h p;
     if read_fds pipe = 0 then Some (Returns (- EPIPE_errno) [], h)
     else do {
       let available = unat (of_nat PIPE_BUFF - ptr pipe :: u32);
       if available > 0 \<and> (\<not> atomic \<or> available \<ge> length data) then do {
         let to_write = (if atomic then length data else min (length data) available);
         if unat (ptr pipe) + to_write > PIPE_BUFF then None
         else do {
           let pipe = pipe\<lparr>buf := (\<lambda>i. if unat (ptr pipe) \<le> i \<and> i < unat (ptr pipe) + to_write
                                        then data ! (i - unat (ptr pipe)) else buf pipe i),
                           ptr := ptr pipe + of_nat to_write\<rparr>;
           let pipe = pipe\<lparr>assigned := uint (ptr pipe)\<rparr>;
           h \<leftarrow> pipefs_update_nodes pipe (h\<lparr>pipes := (pipes h)(p \<mapsto> pipe)\<rparr>);
           h \<leftarrow> vfs_poll_notify (read_node pipe) EPOLLIN h;
           Some (Returns (of_nat to_write) (take to_write data), h)
         }
       }
       else Some (if \<not> allow_wait then Returns (- EWOULDBLOCK_errno) [] else Sleeps, h)
     }
   }"

text \<open>
  \<open>pipe_write_inner\<close> runs rounds until one returns; it hands back the unused wake-ups.  \<open>Inr\<close> is the call that is still
  asleep when the wake-ups run out.
\<close>

fun pipe_write_inner ::
  "nat \<Rightarrow> u8 list \<Rightarrow> bool \<Rightarrow> bool \<Rightarrow> wakes \<Rightarrow> pipe_heap \<Rightarrow> ((u64 \<times> wakes \<times> pipe_heap) + pipe_heap) option" where
  "pipe_write_inner a data atomic allow_wait wakes h = do {
     (r, h) \<leftarrow> write_round a data atomic allow_wait h;
     (case (r, wakes) of
        (Returns ret _, _) \<Rightarrow> Some (Inl (ret, wakes, h))
      | (Sleeps, []) \<Rightarrow> Some (Inr h)
      | (Sleeps, (reason, others) # wakes') \<Rightarrow>
          if reason \<noteq> 0 then Some (Inl (- EINTR_errno, wakes', others h))
          else pipe_write_inner a data atomic allow_wait wakes' (others h))
   }"

declare pipe_write_inner.simps [simp del]

text \<open>The loop of \<open>pipefs_write\<close>.  \<open>fuel\<close> bounds its rounds; each round that goes on writes a byte, so \<open>length data\<close> is enough.\<close>

primrec write_loop ::
  "nat \<Rightarrow> nat \<Rightarrow> u8 list \<Rightarrow> nat \<Rightarrow> bool \<Rightarrow> bool \<Rightarrow> wakes \<Rightarrow> pipe_heap \<Rightarrow> ((nat \<times> pipe_heap) + pipe_heap) option" where
  "write_loop 0 a data written atomic nonblock wakes h = Some (Inl (written, h))"
| "write_loop (Suc fuel) a data written atomic nonblock wakes h =
     (if written < length data then do {
        r \<leftarrow> pipe_write_inner a (drop written data) atomic (\<not> nonblock) wakes h;
        (case r of
           Inr h \<Rightarrow> Some (Inr h)
         | Inl (ret, wakes, h) \<Rightarrow>
             if sint ret \<le> 0 then Some (Inl (written, h))
             else write_loop fuel a data (written + unat ret) atomic nonblock wakes h)
      }
      else Some (Inl (written, h)))"

definition pipefs_write :: "nat option \<Rightarrow> u8 list \<Rightarrow> wakes \<Rightarrow> pipe_heap \<Rightarrow> outcome option" where
  "pipefs_write file data wakes h =
     (case file of
        None \<Rightarrow> Some (Returned (- 1) [] h)
      | Some a \<Rightarrow> do {
          spec \<leftarrow> specs h a;
          if spec_info spec = None \<or> \<not> spec_write spec then Some (Returned (- 1) [] h)
          else do {
            let atomic = (length data \<le> PIPE_ATOMIC_MAX);
            nonblock \<leftarrow> (case spec_node spec of None \<Rightarrow> Some False | Some n \<Rightarrow> do {
              v \<leftarrow> nodes h n; Some (vn_flags v AND O_NONBLOCK \<noteq> 0) });
            h \<leftarrow> pipefs_enter file h;
            r \<leftarrow> write_loop (length data) a data 0 atomic nonblock wakes h;
            (case r of
               Inr h \<Rightarrow> Some (Asleep h)
             | Inl (written, h) \<Rightarrow> do {
                 h \<leftarrow> pipefs_leave file h;
                 Some (Returned (if written \<noteq> 0 then of_nat written else - EWOULDBLOCK_errno) [] h)
               })
          }
        })"

subsection \<open>Closing\<close>

definition pipefs_close :: "nat option \<Rightarrow> pipe_heap \<Rightarrow> (bool \<times> pipe_heap) option" where
  "pipefs_close file h =
     (case file of
        None \<Rightarrow> Some (True, h)
      | Some a \<Rightarrow> do {
          spec \<leftarrow> specs h a;
          (case spec_info spec of
             None \<Rightarrow> do { h \<leftarrow> free_spec a (spec_node spec) h; Some (True, h) }
           | Some p \<Rightarrow> do {
               pipe \<leftarrow> pipes h p;
               let rnode = read_node pipe;
               let wnode = write_node pipe;
               let pipe = (if spec_write spec
                  then (if write_fds pipe > 0 then pipe\<lparr>write_fds := write_fds pipe - 1\<rparr> else pipe)
                  else (if read_fds pipe > 0 then pipe\<lparr>read_fds := read_fds pipe - 1\<rparr> else pipe));
               let last_one = (if spec_write spec then write_fds pipe = 0 else read_fds pipe = 0);
               let pipe = (if last_one
                  then (if spec_write spec then pipe\<lparr>write_node := None\<rparr> else pipe\<lparr>read_node := None\<rparr>) else pipe);
               let frees_spec = (last_one \<and> spec_active spec = 0);
               let spec = (if last_one \<and> spec_active spec \<noteq> 0 then spec\<lparr>spec_free_pending := True\<rparr> else spec);
               let unused = (write_fds pipe = 0 \<and> read_fds pipe = 0);
               let frees_pipe = (unused \<and> pipe_active pipe = 0);
               let pipe = (if unused \<and> pipe_active pipe \<noteq> 0 then pipe\<lparr>pipe_free_pending := True\<rparr> else pipe);
               let h = h\<lparr>specs := (specs h)(a \<mapsto> spec), pipes := (pipes h)(p \<mapsto> pipe)\<rparr>;
               h \<leftarrow> (if last_one \<and> spec_write spec then vfs_poll_notify rnode EPOLLHUP h else Some h);
               h \<leftarrow> (if last_one \<and> \<not> spec_write spec then vfs_poll_notify wnode EPOLLERR h else Some h);
               h \<leftarrow> (if frees_spec then free_spec a (spec_node spec) h else Some h);
               h \<leftarrow> (if frees_pipe then free_pipe p h else Some h);
               Some (True, h)
             })
        })"

text \<open>\<open>vfs_close\<close> on a node whose type has \<open>file_pipe\<close>; such a node is not \<open>rootdir\<close> and not a proxy.\<close>

definition vfs_close_pipe :: "nat option \<Rightarrow> pipe_heap \<Rightarrow> (int \<times> pipe_heap) option" where
  "vfs_close_pipe node h =
     (case node of
        None \<Rightarrow> Some (-22, h)
      | Some n \<Rightarrow> do {
          v \<leftarrow> nodes h n;
          let v = v\<lparr>vn_refcount := vn_refcount v - 1\<rparr>;
          let h = h\<lparr>nodes := (nodes h)(n \<mapsto> v)\<rparr>;
          (case vn_handle v of
             None \<Rightarrow> Some (0, h)
           | Some a \<Rightarrow> do {
               spec \<leftarrow> specs h a;
               let is_active = (spec_active spec > 0);
               (_, h) \<leftarrow> pipefs_close (Some a) h;
               v \<leftarrow> nodes h n;
               if vn_refcount v \<noteq> 0 then Some (0, h)
               else if is_active then do {
                 spec \<leftarrow> specs h a;
                 Some (0, h\<lparr>specs := (specs h)(a \<mapsto> spec\<lparr>spec_free_pending := True\<rparr>)\<rparr>)
               }
               else do { h \<leftarrow> pipefs_release_node node h; Some (0, h) }
             })
        })"

subsection \<open>Duplicating a descriptor and making a pipe\<close>

text \<open>The node and pipe part of \<open>fd_dup\<close>.\<close>

definition fd_dup_pipe :: "nat \<Rightarrow> pipe_heap \<Rightarrow> pipe_heap option" where
  "fd_dup_pipe n h = do {
     v \<leftarrow> nodes h n;
     let h = h\<lparr>nodes := (nodes h)(n \<mapsto> v\<lparr>vn_refcount := vn_refcount v + 1\<rparr>)\<rparr>;
     if vn_type v AND file_pipe \<noteq> 0 then do {
       a \<leftarrow> vn_handle v;
       spec \<leftarrow> specs h a;
       p \<leftarrow> spec_info spec;
       pipe \<leftarrow> pipes h p;
       Some (h\<lparr>pipes := (pipes h)(p \<mapsto>
         (if spec_write spec then pipe\<lparr>write_fds := write_fds pipe + 1\<rparr> else pipe\<lparr>read_fds := read_fds pipe + 1\<rparr>))\<rparr>)
     }
     else Some h
   }"

text \<open>The objects \<open>pipe2\<close> makes, at the addresses \<open>malloc\<close> chose: two nodes, the pipe, and an end for each node.\<close>

definition pipe2_objects :: "u64 \<Rightarrow> nat \<Rightarrow> nat \<Rightarrow> nat \<Rightarrow> nat \<Rightarrow> nat \<Rightarrow> pipe_heap \<Rightarrow> pipe_heap" where
  "pipe2_objects flags node_input node_output info read_spec write_spec h =
     h\<lparr>nodes := (nodes h)
         (node_input \<mapsto> \<lparr>vn_size = 0, vn_flags = flags, vn_type = file_pipe, vn_refcount = 1, vn_handle = Some read_spec\<rparr>,
          node_output \<mapsto> \<lparr>vn_size = 0, vn_flags = flags, vn_type = file_pipe, vn_refcount = 1, vn_handle = Some write_spec\<rparr>),
       pipes := (pipes h)(info \<mapsto> \<lparr>ptr = 0, buf = (\<lambda>_. 0), assigned = 0, write_fds = 1, read_fds = 1, pipe_active = 0,
          pipe_free_pending = False, read_node = Some node_input, write_node = Some node_output\<rparr>),
       specs := (specs h)
         (read_spec \<mapsto> \<lparr>spec_write = False, spec_info = Some info, spec_node = Some node_input, spec_active = 0,
            spec_free_pending = False\<rparr>,
          write_spec \<mapsto> \<lparr>spec_write = True, spec_info = Some info, spec_node = Some node_output, spec_active = 0,
            spec_free_pending = False\<rparr>)\<rparr>"

subsection \<open>Polling and the remaining callbacks\<close>

definition pipefs_poll :: "nat option \<Rightarrow> u64 \<Rightarrow> pipe_heap \<Rightarrow> u64 option" where
  "pipefs_poll file events h =
     (case file of
        None \<Rightarrow> Some 0
      | Some a \<Rightarrow> do {
          spec \<leftarrow> specs h a;
          (case spec_info spec of
             None \<Rightarrow> Some 0
           | Some p \<Rightarrow> do {
               pipe \<leftarrow> pipes h p;
               if \<not> spec_write spec then do {
                 let eof = (write_fds pipe = 0);
                 let out = (if eof then EPOLLHUP else 0);
                 Some (if events AND EPOLLIN \<noteq> 0 \<and> (ptr pipe > 0 \<or> eof) then out OR EPOLLIN else out)
               }
               else do {
                 let broken = (read_fds pipe = 0);
                 let out = (if broken then EPOLLERR else 0);
                 Some (if events AND EPOLLOUT \<noteq> 0 \<and> \<not> broken \<and> ptr pipe < of_nat PIPE_BUFF then out OR EPOLLOUT else out)
               }
             })
        })"

text \<open>The answer of \<open>pipefs_ioctl\<close> and the value it stores through \<open>arg\<close>.\<close>

definition pipefs_ioctl :: "nat option \<Rightarrow> int \<Rightarrow> int \<Rightarrow> pipe_heap \<Rightarrow> (int \<times> int option) option" where
  "pipefs_ioctl file cmd arg h =
     (case file of
        None \<Rightarrow> Some (-22, None)
      | Some a \<Rightarrow> do {
          spec \<leftarrow> specs h a;
          (case spec_info spec of
             None \<Rightarrow> Some (-22, None)
           | Some p \<Rightarrow>
               if arg = 0 then Some (-22, None)
               else if cmd = 0x541B then do { pipe \<leftarrow> pipes h p; Some (0, Some (uint (ptr pipe))) }
               else Some (-25, None))
        })"

definition pipefs_stat :: "nat option \<Rightarrow> nat \<Rightarrow> pipe_heap \<Rightarrow> (int \<times> pipe_heap) option" where
  "pipefs_stat file n h =
     (case file of
        None \<Rightarrow> Some (0, h)
      | Some a \<Rightarrow> do {
          spec \<leftarrow> specs h a;
          (case spec_info spec of
             None \<Rightarrow> Some (0, h)
           | Some p \<Rightarrow> do {
               pipe \<leftarrow> pipes h p;
               h \<leftarrow> upd_node (Some n) (\<lambda>v. v\<lparr>vn_size := ucast (ptr pipe)\<rparr>) h;
               Some (0, h)
             })
        })"

section \<open>Many processes on one pipe\<close>

text \<open>
  The operations of all processes that hold the pipe, interleaved at the granularity of the lock: \<open>busy\<close> lists the ends
  (\<^const>\<open>True\<close> for the write end) of the calls between \<open>pipefs_enter\<close> and \<open>pipefs_leave\<close>, \<open>opens\<close> counts the
  descriptors open on each end, \<open>sent\<close> and \<open>received\<close> collect the bytes that write calls accepted and read calls
  delivered.  A call starts on an open descriptor only; \<open>pipe_names\<close> holds the addresses of the five objects.
\<close>

record pipe_names =
  at_pipe :: nat
  at_spec :: "bool \<Rightarrow> nat"
  at_node :: "bool \<Rightarrow> nat"

record pipe_run =
  heap :: pipe_heap
  busy :: "bool list"
  opens :: "bool \<Rightarrow> nat"
  sent :: "u8 list"
  received :: "u8 list"

fun round_bytes :: "round \<Rightarrow> u8 list" where
  "round_bytes (Returns ret bytes) = bytes"
| "round_bytes Sleeps = []"

inductive pipe_step :: "pipe_names \<Rightarrow> pipe_run \<Rightarrow> pipe_run \<Rightarrow> bool" for c where
  enter_op: "0 < opens s b \<Longrightarrow> pipefs_enter (Some (at_spec c b)) (heap s) = Some h \<Longrightarrow>
    pipe_step c s (s\<lparr>heap := h, busy := b # busy s\<rparr>)"
| read_op: "False \<in> set (busy s) \<Longrightarrow> read_round (at_spec c False) sz (heap s) = Some (r, h) \<Longrightarrow>
    pipe_step c s (s\<lparr>heap := h, received := received s @ round_bytes r\<rparr>)"
| write_op: "True \<in> set (busy s) \<Longrightarrow> write_round (at_spec c True) data atomic allow_wait (heap s) = Some (r, h) \<Longrightarrow>
    pipe_step c s (s\<lparr>heap := h, sent := sent s @ round_bytes r\<rparr>)"
| leave_op: "b \<in> set (busy s) \<Longrightarrow> pipefs_leave (Some (at_spec c b)) (heap s) = Some h \<Longrightarrow>
    pipe_step c s (s\<lparr>heap := h, busy := remove1 b (busy s)\<rparr>)"
| dup_op: "0 < opens s b \<Longrightarrow> opens s b < 2 ^ 32 - 1 \<Longrightarrow> fd_dup_pipe (at_node c b) (heap s) = Some h \<Longrightarrow>
    pipe_step c s (s\<lparr>heap := h, opens := (opens s)(b := opens s b + 1)\<rparr>)"
| close_op: "0 < opens s b \<Longrightarrow> vfs_close_pipe (Some (at_node c b)) (heap s) = Some (r, h) \<Longrightarrow>
    pipe_step c s (s\<lparr>heap := h, opens := (opens s)(b := opens s b - 1)\<rparr>)"

inductive_cases pipe_stepE: "pipe_step c s s'"

definition pipe_started :: "pipe_names \<Rightarrow> u64 \<Rightarrow> pipe_heap \<Rightarrow> pipe_run" where
  "pipe_started c flags h =
     \<lparr>heap = pipe2_objects flags (at_node c False) (at_node c True) (at_pipe c) (at_spec c False) (at_spec c True) h,
      busy = [], opens = (\<lambda>_. 1), sent = [], received = []\<rparr>"

subsection \<open>The buffer as a queue of bytes\<close>

definition pipe_contents :: "pipe_info \<Rightarrow> u8 list" where
  "pipe_contents pi = map (buf pi) [0..<unat (ptr pi)]"

lemma length_pipe_contents [simp]: "length (pipe_contents pi) = unat (ptr pi)"
  by (simp add: pipe_contents_def)

definition shifted :: "nat \<Rightarrow> pipe_info \<Rightarrow> pipe_info" where
  "shifted n pi = pi\<lparr>buf := (\<lambda>i. if i < unat (ptr pi) - n then buf pi (i + n) else buf pi i), ptr := ptr pi - of_nat n,
     assigned := uint (ptr pi - of_nat n)\<rparr>"

definition appended :: "u8 list \<Rightarrow> nat \<Rightarrow> pipe_info \<Rightarrow> pipe_info" where
  "appended data n pi = pi\<lparr>buf := (\<lambda>i. if unat (ptr pi) \<le> i \<and> i < unat (ptr pi) + n
       then data ! (i - unat (ptr pi)) else buf pi i), ptr := ptr pi + of_nat n, assigned := uint (ptr pi + of_nat n)\<rparr>"

lemma unat_ptr_shifted: "n \<le> unat (ptr pi) \<Longrightarrow> unat (ptr (shifted n pi)) = unat (ptr pi) - n"
proof -
  assume n: "n \<le> unat (ptr pi)"
  have "unat (ptr pi) < 2 ^ 32" using unsigned_less [of "ptr pi"] by simp
  then have "unat (of_nat n :: u32) = n" using n by (simp add: unsigned_of_nat take_bit_nat_eq_self)
  then show ?thesis using n by (simp add: shifted_def unat_sub word_le_nat_alt)
qed

lemma contents_shifted:
  assumes "n \<le> unat (ptr pi)"
  shows "pipe_contents (shifted n pi) = drop n (pipe_contents pi)"
proof (rule nth_equalityI)
  fix i assume "i < length (pipe_contents (shifted n pi))"
  then have "i < unat (ptr pi) - n" using unat_ptr_shifted [OF assms] by simp
  then show "pipe_contents (shifted n pi) ! i = drop n (pipe_contents pi) ! i"
    using unat_ptr_shifted [OF assms] by (simp add: pipe_contents_def shifted_def add.commute)
qed (use unat_ptr_shifted [OF assms] in simp)

lemma unat_ptr_appended:
  assumes "unat (ptr pi) + n \<le> PIPE_BUFF"
  shows "unat (ptr (appended data n pi)) = unat (ptr pi) + n"
proof -
  have "unat (of_nat n :: u32) = n" using assms by (simp add: unsigned_of_nat take_bit_nat_eq_self)
  then show ?thesis using assms by (simp add: appended_def unat_word_ariths)
qed

lemma contents_appended:
  assumes "unat (ptr pi) + n \<le> PIPE_BUFF" "n \<le> length data"
  shows "pipe_contents (appended data n pi) = pipe_contents pi @ take n data"
proof (rule nth_equalityI)
  fix i assume "i < length (pipe_contents (appended data n pi))"
  then have "i < unat (ptr pi) + n" using unat_ptr_appended [OF assms(1)] by simp
  then show "pipe_contents (appended data n pi) ! i = (pipe_contents pi @ take n data) ! i"
    using unat_ptr_appended [OF assms(1)] assms(2)
    by (auto simp: pipe_contents_def appended_def nth_append)
qed (use unat_ptr_appended [OF assms(1)] assms(2) in simp)

lemma unat_available: "unat (ptr pi) \<le> PIPE_BUFF \<Longrightarrow> unat (of_nat PIPE_BUFF - ptr pi :: u32) = PIPE_BUFF - unat (ptr pi)"
  by (simp add: unat_sub word_le_nat_alt)

subsection \<open>The invariant\<close>

text \<open>The names are distinct within each kind.\<close>

definition names_ok :: "pipe_names \<Rightarrow> bool" where
  "names_ok c \<longleftrightarrow> at_spec c False \<noteq> at_spec c True \<and> at_node c False \<noteq> at_node c True"

text \<open>An end lives exactly as long as a descriptor is open on it or a call on it is in progress.\<close>

definition end_ok :: "pipe_names \<Rightarrow> pipe_run \<Rightarrow> bool \<Rightarrow> bool" where
  "end_ok c s b \<longleftrightarrow>
     (if opens s b = 0 \<and> b \<notin> set (busy s)
      then specs (heap s) (at_spec c b) = None \<and> nodes (heap s) (at_node c b) = None
      else specs (heap s) (at_spec c b) = Some \<lparr>spec_write = b, spec_info = Some (at_pipe c), spec_node = Some (at_node c b),
             spec_active = int (count_list (busy s) b), spec_free_pending = (opens s b = 0)\<rparr> \<and>
        (\<exists>v. nodes (heap s) (at_node c b) = Some v \<and> vn_type v = file_pipe \<and> vn_refcount v = of_nat (opens s b) \<and>
             vn_handle v = Some (at_spec c b)))"

definition info_ok :: "pipe_names \<Rightarrow> pipe_run \<Rightarrow> pipe_info \<Rightarrow> bool" where
  "info_ok c s pi \<longleftrightarrow> write_fds pi = int (opens s True) \<and> read_fds pi = int (opens s False) \<and>
     pipe_active pi = int (length (busy s)) \<and> pipe_free_pending pi = (opens s True = 0 \<and> opens s False = 0) \<and>
     read_node pi = (if opens s False = 0 then None else Some (at_node c False)) \<and>
     write_node pi = (if opens s True = 0 then None else Some (at_node c True)) \<and>
     unat (ptr pi) \<le> PIPE_BUFF \<and> sent s = received s @ pipe_contents pi"

definition idle :: "pipe_run \<Rightarrow> bool" where
  "idle s \<longleftrightarrow> opens s True = 0 \<and> opens s False = 0 \<and> busy s = []"

definition pipe_inv :: "pipe_names \<Rightarrow> pipe_run \<Rightarrow> bool" where
  "pipe_inv c s \<longleftrightarrow> (\<forall>b. opens s b < 2 ^ 32) \<and> (\<forall>b. end_ok c s b) \<and>
     (if idle s then pipes (heap s) (at_pipe c) = None \<and> (\<exists>lost. sent s = received s @ lost \<and> length lost \<le> PIPE_BUFF)
      else \<exists>pi. pipes (heap s) (at_pipe c) = Some pi \<and> info_ok c s pi)"

lemma pipe_started_inv:
  assumes "names_ok c"
  shows "pipe_inv c (pipe_started c flags h)"
  using assms
  by (auto simp: pipe_inv_def pipe_started_def pipe2_objects_def names_ok_def end_ok_def info_ok_def idle_def
      pipe_contents_def all_bool_eq)

subsection \<open>Every operation keeps the invariant and meets live objects only\<close>

definition live_spec :: "pipe_names \<Rightarrow> pipe_run \<Rightarrow> bool \<Rightarrow> pipe_specific" where
  "live_spec c s b = \<lparr>spec_write = b, spec_info = Some (at_pipe c), spec_node = Some (at_node c b),
     spec_active = int (count_list (busy s) b), spec_free_pending = (opens s b = 0)\<rparr>"

lemma live_end:
  assumes "pipe_inv c s" "0 < opens s b \<or> b \<in> set (busy s)"
  obtains v pi where "specs (heap s) (at_spec c b) = Some (live_spec c s b)"
    "nodes (heap s) (at_node c b) = Some v" "vn_type v = file_pipe" "vn_refcount v = of_nat (opens s b)"
    "vn_handle v = Some (at_spec c b)" "pipes (heap s) (at_pipe c) = Some pi" "info_ok c s pi" "\<not> idle s"
proof -
  have n: "\<not> idle s" using assms(2) by (cases b) (auto simp: idle_def)
  then obtain pi where pi: "pipes (heap s) (at_pipe c) = Some pi" "info_ok c s pi"
    using assms(1) by (auto simp: pipe_inv_def)
  have "\<not> (opens s b = 0 \<and> b \<notin> set (busy s))" "end_ok c s b" using assms by (auto simp: pipe_inv_def)
  then have "specs (heap s) (at_spec c b) = Some (live_spec c s b) \<and> (\<exists>v. nodes (heap s) (at_node c b) = Some v \<and>
      vn_type v = file_pipe \<and> vn_refcount v = of_nat (opens s b) \<and> vn_handle v = Some (at_spec c b))"
    unfolding end_ok_def live_spec_def by (simp only: if_False)
  then show ?thesis using that pi n by blast
qed

lemma contents_counters [simp]:
  "pipe_contents (pi\<lparr>write_fds := x\<rparr>) = pipe_contents pi" "pipe_contents (pi\<lparr>read_fds := x\<rparr>) = pipe_contents pi"
  "pipe_contents (pi\<lparr>pipe_active := x\<rparr>) = pipe_contents pi" "pipe_contents (pi\<lparr>pipe_free_pending := y\<rparr>) = pipe_contents pi"
  "pipe_contents (pi\<lparr>read_node := z\<rparr>) = pipe_contents pi" "pipe_contents (pi\<lparr>write_node := z\<rparr>) = pipe_contents pi"
  by (simp_all add: pipe_contents_def)

lemma count_list_pos: "b \<in> set xs \<longleftrightarrow> 0 < count_list xs b"
  using count_list_0_iff [of xs b] by (cases "count_list xs b") auto

lemma count_list_remove1: "count_list (remove1 b xs) b' = (if b = b' then count_list xs b' - 1 else count_list xs b')"
  by (induction xs) (auto simp: count_list_pos)

text \<open>The end that an operation does not work on: only the size field of its node may change.\<close>

definition sized :: "vfs_node \<Rightarrow> vfs_node" where
  "sized v = v\<lparr>vn_size := 0\<rparr>"

lemma sized_eqD:
  assumes "map_option sized x = map_option sized y"
  shows "x = None \<longleftrightarrow> y = None"
    "(\<exists>v. x = Some v \<and> vn_type v = t \<and> vn_refcount v = k \<and> vn_handle v = a) \<longleftrightarrow>
     (\<exists>v. y = Some v \<and> vn_type v = t \<and> vn_refcount v = k \<and> vn_handle v = a)"
proof -
  have "vn_type (sized v) = vn_type v \<and> vn_refcount (sized v) = vn_refcount v \<and> vn_handle (sized v) = vn_handle v" for v
    by (simp add: sized_def)
  then have "vn_type v = vn_type w \<and> vn_refcount v = vn_refcount w \<and> vn_handle v = vn_handle w"
    if "sized v = sized w" for v w by (metis that)
  from this [of "the x" "the y"] show "x = None \<longleftrightarrow> y = None"
    "(\<exists>v. x = Some v \<and> vn_type v = t \<and> vn_refcount v = k \<and> vn_handle v = a) \<longleftrightarrow>
     (\<exists>v. y = Some v \<and> vn_type v = t \<and> vn_refcount v = k \<and> vn_handle v = a)"
    using assms by (cases x; cases y; simp)+
qed

lemma end_ok_frame:
  assumes "end_ok c s b" "opens s' b = opens s b" "count_list (busy s') b = count_list (busy s) b"
    "specs (heap s') (at_spec c b) = specs (heap s) (at_spec c b)"
    "map_option sized (nodes (heap s') (at_node c b)) = map_option sized (nodes (heap s) (at_node c b))"
  shows "end_ok c s' b"
proof -
  have bz: "b \<in> set (busy s') \<longleftrightarrow> b \<in> set (busy s)" using assms(3) by (simp add: count_list_pos)
  have nodes_eq: "(nodes (heap s') (at_node c b) = None) = (nodes (heap s) (at_node c b) = None)"
    "(\<exists>v. nodes (heap s') (at_node c b) = Some v \<and> vn_type v = t \<and> vn_refcount v = k \<and> vn_handle v = a) =
     (\<exists>v. nodes (heap s) (at_node c b) = Some v \<and> vn_type v = t \<and> vn_refcount v = k \<and> vn_handle v = a)" for t k a
    using sized_eqD [OF assms(5)] by auto
  show ?thesis using assms(1) unfolding end_ok_def assms(2,3,4) bz nodes_eq .
qed

text \<open>The invariant after an operation on the end \<open>b\<close>.\<close>

lemma pipe_inv_change:
  assumes "pipe_inv c s" "opens s' b < 2 ^ 32" "opens s' (\<not> b) = opens s (\<not> b)"
    "count_list (busy s') (\<not> b) = count_list (busy s) (\<not> b)"
    "specs (heap s') (at_spec c (\<not> b)) = specs (heap s) (at_spec c (\<not> b))"
    "map_option sized (nodes (heap s') (at_node c (\<not> b))) = map_option sized (nodes (heap s) (at_node c (\<not> b)))"
    "end_ok c s' b"
    "if idle s' then pipes (heap s') (at_pipe c) = None \<and> (\<exists>lost. sent s' = received s' @ lost \<and> length lost \<le> PIPE_BUFF)
     else \<exists>pi. pipes (heap s') (at_pipe c) = Some pi \<and> info_ok c s' pi"
  shows "pipe_inv c s'"
proof -
  have "end_ok c s' (\<not> b)" using end_ok_frame [of c s "\<not> b" s'] assms by (simp add: pipe_inv_def)
  moreover have "opens s' (\<not> b) < 2 ^ 32" using assms(1,3) by (simp add: pipe_inv_def)
  ultimately show ?thesis using assms(2,7,8) unfolding pipe_inv_def all_bool_eq by (cases b) auto
qed

lemma names_okD:
  assumes "names_ok c"
  shows "at_spec c (\<not> b) \<noteq> at_spec c b" "at_node c (\<not> b) \<noteq> at_node c b" "at_spec c b \<noteq> at_spec c (\<not> b)" "at_node c b \<noteq> at_node c (\<not> b)"
  using assms by (cases b; auto simp: names_ok_def)+

lemma enter_keeps:
  assumes "names_ok c" "pipe_inv c s" "0 < opens s b"
  shows "\<exists>h. pipefs_enter (Some (at_spec c b)) (heap s) = Some h \<and> pipe_inv c (s\<lparr>heap := h, busy := b # busy s\<rparr>)"
proof -
  obtain v pi where l: "specs (heap s) (at_spec c b) = Some (live_spec c s b)"
    "nodes (heap s) (at_node c b) = Some v" "vn_type v = file_pipe" "vn_refcount v = of_nat (opens s b)"
    "vn_handle v = Some (at_spec c b)" "pipes (heap s) (at_pipe c) = Some pi" "info_ok c s pi" "\<not> idle s"
    using live_end [OF assms(2)] assms(3) by blast
  let ?h = "heap s\<lparr>specs := (specs (heap s))(at_spec c b \<mapsto> (live_spec c s b)\<lparr>spec_active := int (count_list (busy s) b) + 1\<rparr>),
      pipes := (pipes (heap s))(at_pipe c \<mapsto> pi\<lparr>pipe_active := pipe_active pi + 1\<rparr>)\<rparr>"
  have "pipefs_enter (Some (at_spec c b)) (heap s) = Some ?h" using l by (simp add: pipefs_enter_def live_spec_def)
  moreover have "pipe_inv c (s\<lparr>heap := ?h, busy := b # busy s\<rparr>)"
  proof (rule pipe_inv_change [OF assms(2), where b = b])
    show "opens (s\<lparr>heap := ?h, busy := b # busy s\<rparr>) b < 2 ^ 32" using assms(2) by (simp add: pipe_inv_def)
    show "end_ok c (s\<lparr>heap := ?h, busy := b # busy s\<rparr>) b" using l by (simp add: end_ok_def live_spec_def)
  qed (use l names_okD [OF assms(1)] in \<open>auto simp: idle_def info_ok_def\<close>)
  ultimately show ?thesis by blast
qed

subsubsection \<open>Moving bytes\<close>

text \<open>Whoever moves bytes changes the buffer and the size fields of the nodes only.\<close>

lemma pipe_inv_data:
  assumes "pipe_inv c s" "\<not> idle s" "opens s' = opens s" "busy s' = busy s" "specs (heap s') = specs (heap s)"
    "\<And>n. map_option sized (nodes (heap s') n) = map_option sized (nodes (heap s) n)"
    "pipes (heap s') (at_pipe c) = Some pi" "info_ok c s' pi"
  shows "pipe_inv c s'"
proof -
  have "end_ok c s' b" for b
    using end_ok_frame [of c s b s'] assms by (simp add: pipe_inv_def)
  then show ?thesis using assms by (simp add: pipe_inv_def idle_def)
qed

lemma upd_size:
  assumes "\<And>n. node = Some n \<Longrightarrow> nodes h n \<noteq> None"
  shows "\<exists>h'. upd_node node (\<lambda>v. v\<lparr>vn_size := k\<rparr>) h = Some h' \<and> pipes h' = pipes h \<and> specs h' = specs h \<and>
    (\<forall>n. map_option sized (nodes h' n) = map_option sized (nodes h n))"
  using assms by (cases node) (auto simp: upd_node_def sized_def)

lemma sized_None: "map_option sized x = map_option sized y \<Longrightarrow> x \<noteq> None \<Longrightarrow> y \<noteq> None"
  by (cases x; cases y) auto

lemma refresh_ok:
  assumes "\<And>n. read_node pi = Some n \<Longrightarrow> nodes h n \<noteq> None" "\<And>n. write_node pi = Some n \<Longrightarrow> nodes h n \<noteq> None"
    "node = read_node pi \<or> node = write_node pi"
  shows "\<exists>h1 h2. pipefs_update_nodes pi h = Some h1 \<and> vfs_poll_notify node ev h1 = Some h2 \<and> pipes h2 = pipes h \<and>
    specs h2 = specs h \<and> (\<forall>n. map_option sized (nodes h2 n) = map_option sized (nodes h n))"
proof -
  obtain h0 where h0: "upd_node (read_node pi) (\<lambda>v. v\<lparr>vn_size := ucast (ptr pi)\<rparr>) h = Some h0" "pipes h0 = pipes h"
    "specs h0 = specs h" and n0: "\<And>n. map_option sized (nodes h0 n) = map_option sized (nodes h n)"
    using upd_size [of "read_node pi" h] assms(1) by blast
  have live0: "nodes h0 n \<noteq> None" if "read_node pi = Some n \<or> write_node pi = Some n" for n
    using sized_None [OF n0 [symmetric]] assms(1,2) that by blast
  then obtain h1 where h1: "upd_node (write_node pi) (\<lambda>v. v\<lparr>vn_size := ucast (ptr pi)\<rparr>) h0 = Some h1" "pipes h1 = pipes h0"
    "specs h1 = specs h0" and n1: "\<And>n. map_option sized (nodes h1 n) = map_option sized (nodes h0 n)"
    using upd_size [of "write_node pi" h0] by blast
  have "nodes h1 n \<noteq> None" if "node = Some n" for n
    using sized_None [OF n1 [symmetric]] live0 assms(3) that by metis
  then have "\<exists>h2. vfs_poll_notify node ev h1 = Some h2 \<and> pipes h2 = pipes h1 \<and> specs h2 = specs h1 \<and> nodes h2 = nodes h1"
    by (cases node) (auto simp: vfs_poll_notify_def)
  then show ?thesis using h0 h1 n0 n1 by (auto simp: pipefs_update_nodes_def)
qed

lemma live_nodes:
  assumes "pipe_inv c s" "info_ok c s pi"
  shows "read_node pi = Some n \<Longrightarrow> nodes (heap s) n \<noteq> None" "write_node pi = Some n \<Longrightarrow> nodes (heap s) n \<noteq> None"
proof -
  have "end_ok c s True" "end_ok c s False" using assms(1) by (simp_all add: pipe_inv_def)
  then show "read_node pi = Some n \<Longrightarrow> nodes (heap s) n \<noteq> None" "write_node pi = Some n \<Longrightarrow> nodes (heap s) n \<noteq> None"
    using assms(2) by (auto simp: info_ok_def end_ok_def split: if_splits)
qed

lemma moved_fields:
  "write_fds (shifted n pi) = write_fds pi" "read_fds (shifted n pi) = read_fds pi"
  "pipe_active (shifted n pi) = pipe_active pi" "pipe_free_pending (shifted n pi) = pipe_free_pending pi"
  "read_node (shifted n pi) = read_node pi" "write_node (shifted n pi) = write_node pi"
  "write_fds (appended data n pi) = write_fds pi" "read_fds (appended data n pi) = read_fds pi"
  "pipe_active (appended data n pi) = pipe_active pi" "pipe_free_pending (appended data n pi) = pipe_free_pending pi"
  "read_node (appended data n pi) = read_node pi" "write_node (appended data n pi) = write_node pi"
  by (simp_all add: shifted_def appended_def)

lemma read_round_shifts:
  assumes "specs h a = Some spec" "spec_info spec = Some p" "pipes h p = Some pi" "ptr pi > 0" "n = min sz (unat (ptr pi))"
  shows "read_round a sz h = do {
    h \<leftarrow> pipefs_update_nodes (shifted n pi) (h\<lparr>pipes := (pipes h)(p \<mapsto> shifted n pi)\<rparr>);
    h \<leftarrow> vfs_poll_notify (write_node (shifted n pi)) EPOLLOUT h;
    Some (Returns (of_nat n) (map (buf pi) [0..<n]), h)
  }"
  using assms by (simp add: read_round_def shifted_def Let_def)

lemma read_keeps:
  assumes "pipe_inv c s" "False \<in> set (busy s)"
  shows "\<exists>r h. read_round (at_spec c False) sz (heap s) = Some (r, h) \<and>
    pipe_inv c (s\<lparr>heap := h, received := received s @ round_bytes r\<rparr>)"
proof -
  obtain v pi where l: "specs (heap s) (at_spec c False) = Some (live_spec c s False)"
    "nodes (heap s) (at_node c False) = Some v" "pipes (heap s) (at_pipe c) = Some pi" "info_ok c s pi" "\<not> idle s"
    using live_end [OF assms(1)] assms(2) by blast
  show ?thesis
  proof (cases "ptr pi > 0")
    case True
    define n where "n = min sz (unat (ptr pi))"
    let ?h = "heap s\<lparr>pipes := (pipes (heap s))(at_pipe c \<mapsto> shifted n pi)\<rparr>"
    have n: "n \<le> unat (ptr pi)" by (simp add: n_def)
    obtain h1 h2 where h: "pipefs_update_nodes (shifted n pi) ?h = Some h1"
      "vfs_poll_notify (write_node (shifted n pi)) EPOLLOUT h1 = Some h2" "pipes h2 = pipes ?h" "specs h2 = specs ?h"
      "\<And>n. map_option sized (nodes h2 n) = map_option sized (nodes ?h n)"
      using refresh_ok [of "shifted n pi" ?h "write_node (shifted n pi)" EPOLLOUT] live_nodes [OF assms(1) l(4)]
      by (simp add: moved_fields) blast
    have "read_round (at_spec c False) sz (heap s) = Some (Returns (of_nat n) (map (buf pi) [0..<n]), h2)"
      using read_round_shifts [OF l(1) _ l(3) True n_def] h(1,2) by (simp add: live_spec_def)
    moreover have "map (buf pi) [0..<n] = take n (pipe_contents pi)"
      by (simp add: pipe_contents_def take_map n_def)
    moreover have "pipe_inv c (s\<lparr>heap := h2, received := received s @ take n (pipe_contents pi)\<rparr>)"
    proof (rule pipe_inv_data [OF assms(1) l(5), where pi = "shifted n pi"])
      show "info_ok c (s\<lparr>heap := h2, received := received s @ take n (pipe_contents pi)\<rparr>) (shifted n pi)"
        using l(4) n le_trans [OF diff_le_self [of "unat (ptr pi)" n], of PIPE_BUFF]
        by (simp add: info_ok_def contents_shifted unat_ptr_shifted moved_fields)
    qed (use h in simp_all)
    ultimately show ?thesis by (auto intro!: exI)
  next
    case False
    then show ?thesis using l assms(1)
      by (auto simp: read_round_def live_spec_def intro!: pipe_inv_data [where s = s and pi = pi] simp: info_ok_def)
  qed
qed

text \<open>How many bytes a write round takes: all or nothing for an atomic write, what fits otherwise.\<close>

definition accepted :: "pipe_info \<Rightarrow> bool \<Rightarrow> u8 list \<Rightarrow> nat" where
  "accepted pi atomic data = (if atomic then length data else min (length data) (PIPE_BUFF - unat (ptr pi)))"

definition has_room :: "pipe_info \<Rightarrow> bool \<Rightarrow> u8 list \<Rightarrow> bool" where
  "has_room pi atomic data \<longleftrightarrow> unat (ptr pi) < PIPE_BUFF \<and> (\<not> atomic \<or> unat (ptr pi) + length data \<le> PIPE_BUFF)"

lemma accepted_fits:
  assumes "has_room pi atomic data"
  shows "unat (ptr pi) + accepted pi atomic data \<le> PIPE_BUFF" "accepted pi atomic data \<le> length data"
  using assms by (auto simp: has_room_def accepted_def)

lemma write_round_appends:
  assumes "specs h a = Some spec" "spec_info spec = Some p" "pipes h p = Some pi" "unat (ptr pi) \<le> PIPE_BUFF"
    "read_fds pi \<noteq> 0" "n = accepted pi atomic data"
  shows "write_round a data atomic allow_wait h =
    (if has_room pi atomic data then do {
       h \<leftarrow> pipefs_update_nodes (appended data n pi) (h\<lparr>pipes := (pipes h)(p \<mapsto> appended data n pi)\<rparr>);
       h \<leftarrow> vfs_poll_notify (read_node (appended data n pi)) EPOLLIN h;
       Some (Returns (of_nat n) (take n data), h)
     }
     else Some (if \<not> allow_wait then Returns (- EWOULDBLOCK_errno) [] else Sleeps, h))"
proof -
  have room: "(unat (of_nat PIPE_BUFF - ptr pi :: u32) > 0 \<and> (\<not> atomic \<or> unat (of_nat PIPE_BUFF - ptr pi :: u32) \<ge> length data)) =
      has_room pi atomic data"
    using assms(4) unfolding unat_available [OF assms(4)] by (auto simp: has_room_def)
  have n: "(if atomic then length data else min (length data) (unat (of_nat PIPE_BUFF - ptr pi :: u32))) = n"
    unfolding unat_available [OF assms(4)] using assms(6) by (simp add: accepted_def)
  show ?thesis
  proof (cases "has_room pi atomic data")
    case True
    then have "\<not> unat (ptr pi) + n > PIPE_BUFF" using accepted_fits(1) assms(6) by (simp add: not_less)
    then show ?thesis using True assms(1-3,5)
      by (simp only: write_round_def Let_def room n if_True bind.bind_lunit simp_thms if_False)
        (simp add: appended_def)
  next
    case False
    then show ?thesis using assms(1-3,5) by (simp only: write_round_def Let_def room bind.bind_lunit if_False simp_thms)
  qed
qed

definition write_answer :: "pipe_info \<Rightarrow> u8 list \<Rightarrow> bool \<Rightarrow> bool \<Rightarrow> round" where
  "write_answer pi data atomic allow_wait =
     (if read_fds pi = 0 then Returns (- EPIPE_errno) []
      else if has_room pi atomic data then Returns (of_nat (accepted pi atomic data)) (take (accepted pi atomic data) data)
      else if allow_wait then Sleeps else Returns (- EWOULDBLOCK_errno) [])"

lemma write_keeps:
  assumes "pipe_inv c s" "True \<in> set (busy s)" "pipes (heap s) (at_pipe c) = Some pi" "r = write_answer pi data atomic allow_wait"
  shows "\<exists>h. write_round (at_spec c True) data atomic allow_wait (heap s) = Some (r, h) \<and>
    pipe_inv c (s\<lparr>heap := h, sent := sent s @ round_bytes r\<rparr>)"
proof -
  obtain v where l: "specs (heap s) (at_spec c True) = Some (live_spec c s True)"
    "nodes (heap s) (at_node c True) = Some v" "pipes (heap s) (at_pipe c) = Some pi" "info_ok c s pi" "\<not> idle s"
    using live_end [OF assms(1)] assms(2,3) by (metis option.inject)
  have same: "pipe_inv c (s\<lparr>heap := heap s, sent := sent s @ []\<rparr>)"
    by (rule pipe_inv_data [OF assms(1) l(5) _ _ _ _ _ _, where pi = pi]) (use l in \<open>simp_all add: info_ok_def\<close>)
  consider "read_fds pi = 0" | "read_fds pi \<noteq> 0" "\<not> has_room pi atomic data" | "read_fds pi \<noteq> 0" "has_room pi atomic data"
    by blast
  then show ?thesis
  proof cases
    case 1
    then show ?thesis using l same assms(4) by (simp add: write_round_def live_spec_def write_answer_def)
  next
    case 2
    then show ?thesis using write_round_appends [OF l(1) _ l(3) _ 2(1) refl, where data = data] l(4) same assms(4)
      by (simp add: live_spec_def info_ok_def write_answer_def)
  next
    case 3
    define n where "n = accepted pi atomic data"
    note fits = accepted_fits [OF 3(2), folded n_def]
    let ?h = "heap s\<lparr>pipes := (pipes (heap s))(at_pipe c \<mapsto> appended data n pi)\<rparr>"
    obtain h1 h2 where h: "pipefs_update_nodes (appended data n pi) ?h = Some h1"
      "vfs_poll_notify (read_node (appended data n pi)) EPOLLIN h1 = Some h2" "pipes h2 = pipes ?h" "specs h2 = specs ?h"
      "\<And>n. map_option sized (nodes h2 n) = map_option sized (nodes ?h n)"
      using refresh_ok [of "appended data n pi" ?h "read_node (appended data n pi)" EPOLLIN] live_nodes [OF assms(1) l(4)]
      by (simp add: moved_fields) blast
    have "write_round (at_spec c True) data atomic allow_wait (heap s) = Some (Returns (of_nat n) (take n data), h2)"
      using write_round_appends [OF l(1) _ l(3) _ 3(1) n_def] l(4) h(1,2) 3(2) by (simp add: live_spec_def info_ok_def)
    moreover have "pipe_inv c (s\<lparr>heap := h2, sent := sent s @ take n data\<rparr>)"
    proof (rule pipe_inv_data [OF assms(1) l(5), where pi = "appended data n pi"])
      show "info_ok c (s\<lparr>heap := h2, sent := sent s @ take n data\<rparr>) (appended data n pi)"
        using l(4) fits by (simp add: info_ok_def contents_appended unat_ptr_appended moved_fields)
    qed (use h in simp_all)
    moreover have "r = Returns (of_nat n) (take n data)" using assms(4) 3 by (simp add: write_answer_def n_def)
    ultimately show ?thesis by auto
  qed
qed

subsubsection \<open>The last call on an end\<close>

lemma idle_iff: "idle s \<longleftrightarrow> opens s b = 0 \<and> opens s (\<not> b) = 0 \<and> busy s = []"
  by (cases b) (auto simp: idle_def)

lemma info_ok_free:
  "info_ok c s pi \<Longrightarrow> pipe_free_pending pi \<longleftrightarrow> opens s b = 0 \<and> opens s (\<not> b) = 0"
  "info_ok c s pi \<Longrightarrow> (write_fds pi = 0 \<and> read_fds pi = 0) \<longleftrightarrow> opens s b = 0 \<and> opens s (\<not> b) = 0"
  by (cases b; auto simp: info_ok_def)+

lemma leave_keeps:
  assumes "names_ok c" "pipe_inv c s" "b \<in> set (busy s)"
  shows "\<exists>h. pipefs_leave (Some (at_spec c b)) (heap s) = Some h \<and> pipe_inv c (s\<lparr>heap := h, busy := remove1 b (busy s)\<rparr>)"
proof -
  obtain v pi where l: "specs (heap s) (at_spec c b) = Some (live_spec c s b)"
    "nodes (heap s) (at_node c b) = Some v" "vn_type v = file_pipe" "vn_refcount v = of_nat (opens s b)"
    "vn_handle v = Some (at_spec c b)" "pipes (heap s) (at_pipe c) = Some pi" "info_ok c s pi" "\<not> idle s"
    using live_end [OF assms(2)] assms(3) by blast
  note names = names_okD [OF assms(1)]
  let ?n = "count_list (busy s) b"
  have n: "0 < ?n" "?n \<le> length (busy s)" using assms(3) by (simp_all add: count_list_pos count_le_length)
  then have len: "length (busy s) = Suc (length (remove1 b (busy s)))"
    using assms(3) by (simp add: length_remove1)
  have bound: "opens s b < 2 ^ 32" using assms(2) by (simp add: pipe_inv_def)
  have other: "count_list (remove1 b (busy s)) (\<not> b) = count_list (busy s) (\<not> b)" by (simp add: count_list_remove1)
  define pi' where "pi' = pi\<lparr>pipe_active := pipe_active pi - 1\<rparr>"
  have active: "pipe_active pi' = int (length (remove1 b (busy s)))" using l(7) len by (simp add: pi'_def info_ok_def)
  have info: "info_ok c (s\<lparr>heap := h, busy := remove1 b (busy s)\<rparr>) pi'" for h
    using l(7) active by (simp add: info_ok_def pi'_def)
  let ?s = "\<lambda>h. s\<lparr>heap := h, busy := remove1 b (busy s)\<rparr>"
  show ?thesis
  proof (cases "opens s b = 0 \<and> ?n = 1")
    case False
    let ?h = "heap s\<lparr>specs := (specs (heap s))(at_spec c b \<mapsto> (live_spec c s b)\<lparr>spec_active := int ?n - 1\<rparr>),
      pipes := (pipes (heap s))(at_pipe c \<mapsto> pi')\<rparr>"
    have stays: "opens s b \<noteq> 0 \<or> b \<in> set (remove1 b (busy s))"
      using False n by (auto simp: count_list_pos count_list_remove1)
    then have "\<not> idle (?s h)" for h by (auto simp: idle_iff [of _ b])
    moreover have "\<not> (pipe_free_pending pi \<and> pipe_active pi' = 0)"
      using stays info_ok_free(1) [OF l(7), of b] active by auto
    ultimately have "pipefs_leave (Some (at_spec c b)) (heap s) = Some ?h"
      using l False by (auto simp: pipefs_leave_def live_spec_def Let_def pi'_def)
    moreover have "pipe_inv c (?s ?h)"
    proof (rule pipe_inv_change [OF assms(2), where b = b])
      show "end_ok c (?s ?h) b" using l stays n
        by (auto simp: end_ok_def live_spec_def count_list_remove1 of_nat_diff)
    qed (use names other bound info stays in \<open>auto simp: idle_iff [of _ b]\<close>)
    ultimately show ?thesis by blast
  next
    case True
    let ?gone = "opens s (\<not> b) = 0 \<and> remove1 b (busy s) = []"
    let ?h = "heap s\<lparr>specs := (specs (heap s))(at_spec c b := None), nodes := (nodes (heap s))(at_node c b := None),
      pipes := (pipes (heap s))(at_pipe c := (if ?gone then None else Some pi'))\<rparr>"
    have left: "b \<notin> set (remove1 b (busy s))" using True by (simp add: count_list_pos count_list_remove1)
    have "(pipe_free_pending pi \<and> pipe_active pi' = 0 \<and> read_fds pi = 0 \<and> write_fds pi = 0) = ?gone"
      using info_ok_free [OF l(7), of b] active True by auto
    then have "pipefs_leave (Some (at_spec c b)) (heap s) = Some ?h"
      using l True by (auto simp: pipefs_leave_def live_spec_def Let_def pi'_def free_spec_def free_pipe_def upd_node_def
          pipefs_release_node_def)
    moreover have "pipe_inv c (?s ?h)"
    proof (rule pipe_inv_change [OF assms(2), where b = b])
      show "end_ok c (?s ?h) b" using left True by (simp add: end_ok_def)
      show "if idle (?s ?h) then pipes (heap (?s ?h)) (at_pipe c) = None \<and> (\<exists>lost. sent (?s ?h) = received (?s ?h) @ lost \<and> length lost \<le> PIPE_BUFF)
        else \<exists>pi. pipes (heap (?s ?h)) (at_pipe c) = Some pi \<and> info_ok c (?s ?h) pi"
        using l(7) info [of ?h] True by (auto simp: idle_iff [of _ b] info_ok_def)
    qed (use names other bound in auto)
    ultimately show ?thesis by blast
  qed
qed

subsubsection \<open>Duplicating and closing descriptors\<close>

lemma dup_keeps:
  assumes "names_ok c" "pipe_inv c s" "0 < opens s b" "opens s b < 2 ^ 32 - 1"
  shows "\<exists>h. fd_dup_pipe (at_node c b) (heap s) = Some h \<and>
    pipe_inv c (s\<lparr>heap := h, opens := (opens s)(b := opens s b + 1)\<rparr>)"
proof -
  obtain v pi where l: "specs (heap s) (at_spec c b) = Some (live_spec c s b)"
    "nodes (heap s) (at_node c b) = Some v" "vn_type v = file_pipe" "vn_refcount v = of_nat (opens s b)"
    "vn_handle v = Some (at_spec c b)" "pipes (heap s) (at_pipe c) = Some pi" "info_ok c s pi" "\<not> idle s"
    using live_end [OF assms(2)] assms(3) by blast
  define pi' where "pi' = (if b then pi\<lparr>write_fds := write_fds pi + 1\<rparr> else pi\<lparr>read_fds := read_fds pi + 1\<rparr>)"
  let ?h = "heap s\<lparr>nodes := (nodes (heap s))(at_node c b \<mapsto> v\<lparr>vn_refcount := vn_refcount v + 1\<rparr>),
    pipes := (pipes (heap s))(at_pipe c \<mapsto> pi')\<rparr>"
  let ?s = "s\<lparr>heap := ?h, opens := (opens s)(b := opens s b + 1)\<rparr>"
  have "fd_dup_pipe (at_node c b) (heap s) = Some ?h"
    using l by (auto simp: fd_dup_pipe_def live_spec_def pi'_def Let_def)
  moreover have "pipe_inv c ?s"
  proof (rule pipe_inv_change [OF assms(2), where b = b])
    show "end_ok c ?s b" using l assms(3) by (simp add: end_ok_def live_spec_def)
    have "info_ok c ?s pi'" using l(7) assms(3) by (cases b) (simp_all add: info_ok_def pi'_def)
    then show "if idle ?s then pipes (heap ?s) (at_pipe c) = None \<and> (\<exists>lost. sent ?s = received ?s @ lost \<and> length lost \<le> PIPE_BUFF)
        else \<exists>pi. pipes (heap ?s) (at_pipe c) = Some pi \<and> info_ok c ?s pi"
      by (simp add: idle_iff [of _ b])
  qed (use names_okD [OF assms(1)] assms(4) in auto)
  ultimately show ?thesis by blast
qed

text \<open>The pipe after \<open>pipefs_close\<close> on the end \<open>b\<close>.\<close>

definition closed :: "bool \<Rightarrow> pipe_info \<Rightarrow> pipe_info" where
  "closed b pi =
     (let pi = (if b then pi\<lparr>write_fds := write_fds pi - 1\<rparr> else pi\<lparr>read_fds := read_fds pi - 1\<rparr>);
          pi = (if b \<and> write_fds pi = 0 then pi\<lparr>write_node := None\<rparr> else pi);
          pi = (if \<not> b \<and> read_fds pi = 0 then pi\<lparr>read_node := None\<rparr> else pi)
      in if write_fds pi = 0 \<and> read_fds pi = 0 \<and> pipe_active pi \<noteq> 0 then pi\<lparr>pipe_free_pending := True\<rparr> else pi)"

definition ended :: "pipe_specific \<Rightarrow> pipe_specific" where
  "ended spec = (if spec_active spec \<noteq> 0 then spec\<lparr>spec_free_pending := True\<rparr> else spec)"

lemma closed_info:
  assumes "info_ok c s pi" "0 < opens s b"
    "\<not> (opens s b = 1 \<and> opens s (\<not> b) = 0 \<and> busy s = [])"
  shows "info_ok c (s\<lparr>heap := h, opens := (opens s)(b := opens s b - 1)\<rparr>) (closed b pi)"
  using assms by (cases b) (auto simp: info_ok_def closed_def Let_def of_nat_diff)

lemma notify_live:
  "(\<And>n. node = Some n \<Longrightarrow> nodes h n \<noteq> None) \<Longrightarrow> \<exists>log. vfs_poll_notify node ev h = Some (h\<lparr>poll_log := log\<rparr>)"
  by (cases node) (auto simp: vfs_poll_notify_def intro: exI [of _ "poll_log h"])

lemma pipefs_close_spec:
  assumes "specs h a = Some spec" "spec_info spec = Some p" "spec_node spec = Some n" "spec_write spec = b" "pipes h p = Some pi"
    "nodes h n = Some v" "0 < (if b then write_fds pi else read_fds pi)"
    and live: "\<And>n. read_node pi = Some n \<Longrightarrow> nodes h n \<noteq> None" "\<And>n. write_node pi = Some n \<Longrightarrow> nodes h n \<noteq> None"
    and last_one: "last_one = ((if b then write_fds pi else read_fds pi) = 1)"
    and gone: "gone = (write_fds (closed b pi) = 0 \<and> read_fds (closed b pi) = 0 \<and> pipe_active pi = 0)"
  shows "\<exists>log. pipefs_close (Some a) h = Some (True, h\<lparr>
      specs := (specs h)(a := (if last_one then if spec_active spec = 0 then None else Some (ended spec) else Some spec)),
      pipes := (pipes h)(p := (if gone then None else Some (closed b pi))),
      nodes := (nodes h)(n \<mapsto> (if last_one \<and> spec_active spec = 0 then v\<lparr>vn_handle := None\<rparr> else v)), poll_log := log\<rparr>)"
proof -
  let ?h = "h\<lparr>specs := (specs h)(a \<mapsto> (if last_one then ended spec else spec)), pipes := (pipes h)(p \<mapsto> closed b pi)\<rparr>"
  have "nodes ?h n \<noteq> None" if "(if b then read_node pi else write_node pi) = Some n" for n
    using that live by (cases b) auto
  then obtain log where log: "vfs_poll_notify (if b then read_node pi else write_node pi) (if b then EPOLLHUP else EPOLLERR) ?h =
      Some (?h\<lparr>poll_log := log\<rparr>)"
    using notify_live [of "if b then read_node pi else write_node pi" ?h] by blast
  have "pipefs_close (Some a) h = do {
      h \<leftarrow> (if last_one then vfs_poll_notify (if b then read_node pi else write_node pi) (if b then EPOLLHUP else EPOLLERR) ?h
           else Some ?h);
      h \<leftarrow> (if last_one \<and> spec_active spec = 0 then free_spec a (Some n) h else Some h);
      h \<leftarrow> (if gone then free_pipe p h else Some h);
      Some (True, h) }"
    using assms by (cases b) (auto simp: pipefs_close_def closed_def ended_def Let_def)
  moreover have "(nodes h)(n \<mapsto> v) = nodes h" using assms(6) by (simp add: fun_upd_idem)
  ultimately show ?thesis using log assms(1-6)
    by (intro exI [of _ "if last_one then log else poll_log h"], cases h)
      (auto simp: free_spec_def free_pipe_def upd_node_def ended_def)
qed

lemma of_nat_u32_0: "k < 2 ^ 32 \<Longrightarrow> of_nat k = (0 :: u32) \<longleftrightarrow> k = 0"
  by (auto simp: word_of_nat_eq_0_iff dest: dvd_imp_le)

lemma close_keeps:
  assumes "names_ok c" "pipe_inv c s" "0 < opens s b"
  shows "\<exists>h. vfs_close_pipe (Some (at_node c b)) (heap s) = Some (0, h) \<and>
    pipe_inv c (s\<lparr>heap := h, opens := (opens s)(b := opens s b - 1)\<rparr>)"
proof -
  obtain v pi where l: "specs (heap s) (at_spec c b) = Some (live_spec c s b)"
    "nodes (heap s) (at_node c b) = Some v" "vn_type v = file_pipe" "vn_refcount v = of_nat (opens s b)"
    "vn_handle v = Some (at_spec c b)" "pipes (heap s) (at_pipe c) = Some pi" "info_ok c s pi" "\<not> idle s"
    using live_end [OF assms(2)] assms(3) by blast
  let ?n = "count_list (busy s) b" and ?last = "opens s b = 1"
  let ?gone = "?last \<and> opens s (\<not> b) = 0 \<and> busy s = []"
  let ?v = "v\<lparr>vn_refcount := vn_refcount v - 1\<rparr>"
  let ?h = "heap s\<lparr>nodes := (nodes (heap s))(at_node c b \<mapsto> ?v)\<rparr>"
  have fds: "(if b then write_fds pi else read_fds pi) = int (opens s b)" using l(7) by (simp add: info_ok_def)
  have gone: "?gone = (write_fds (closed b pi) = 0 \<and> read_fds (closed b pi) = 0 \<and> pipe_active pi = 0)"
    using l(7) assms(3) by (cases b) (auto simp: info_ok_def closed_def Let_def)
  have live: "read_node pi = Some m \<Longrightarrow> nodes ?h m \<noteq> None" "write_node pi = Some m \<Longrightarrow> nodes ?h m \<noteq> None" for m
    using live_nodes [OF assms(2) l(7)] by auto
  obtain log where log: "pipefs_close (Some (at_spec c b)) ?h = Some (True, ?h\<lparr>
      specs := (specs ?h)(at_spec c b := (if ?last then if spec_active (live_spec c s b) = 0 then None
        else Some (ended (live_spec c s b)) else Some (live_spec c s b))),
      pipes := (pipes ?h)(at_pipe c := (if ?gone then None else Some (closed b pi))),
      nodes := (nodes ?h)(at_node c b \<mapsto> (if ?last \<and> spec_active (live_spec c s b) = 0 then ?v\<lparr>vn_handle := None\<rparr> else ?v)),
      poll_log := log\<rparr>)"
    using pipefs_close_spec [of ?h "at_spec c b" "live_spec c s b" "at_pipe c" "at_node c b" b pi ?v ?last ?gone, OF _ _ _ _ _ _ _ live]
      l fds gone assms(3) by (auto simp: live_spec_def)
  have bound: "opens s b < 2 ^ 32" using assms(2) by (simp add: pipe_inv_def)
  have ref: "vn_refcount ?v = of_nat (opens s b - 1)" using l(4) assms(3) by (simp add: of_nat_diff)
  have zero: "(of_nat (opens s b - 1) = (0 :: u32)) = ?last"
    using of_nat_u32_0 [of "opens s b - 1"] bound assms(3) by linarith
  define h where "h = ?h\<lparr>
      specs := (specs ?h)(at_spec c b := (if ?last then if ?n = 0 then None
        else Some ((live_spec c s b)\<lparr>spec_free_pending := True\<rparr>) else Some (live_spec c s b))),
      pipes := (pipes ?h)(at_pipe c := (if ?gone then None else Some (closed b pi))),
      nodes := (nodes ?h)(at_node c b := (if ?last \<and> ?n = 0 then None else Some ?v)), poll_log := log\<rparr>"
  have "vfs_close_pipe (Some (at_node c b)) (heap s) = Some (0, h)"
    using log l(1,2,5) ref zero
    by (auto simp: vfs_close_pipe_def Let_def live_spec_def ended_def pipefs_release_node_def h_def)
  moreover have "pipe_inv c (s\<lparr>heap := h, opens := (opens s)(b := opens s b - 1)\<rparr>)"
  proof (rule pipe_inv_change [OF assms(2), where b = b])
    show "end_ok c (s\<lparr>heap := h, opens := (opens s)(b := opens s b - 1)\<rparr>) b"
      using l ref assms(3) by (auto simp: end_ok_def live_spec_def h_def count_list_pos)
    let ?s = "s\<lparr>heap := h, opens := (opens s)(b := opens s b - 1)\<rparr>"
    show "if idle ?s then pipes (heap ?s) (at_pipe c) = None \<and> (\<exists>lost. sent ?s = received ?s @ lost \<and> length lost \<le> PIPE_BUFF)
        else \<exists>pi. pipes (heap ?s) (at_pipe c) = Some pi \<and> info_ok c ?s pi"
      using l(7) closed_info [OF l(7) assms(3), of h] assms(3) by (auto simp: idle_iff [of _ b] h_def info_ok_def)
  qed (use names_okD [OF assms(1)] bound in \<open>auto simp: h_def\<close>)
  ultimately show ?thesis by blast
qed

section \<open>Runs of a pipe\<close>

text \<open>In a state that satisfies the invariant every operation the rules allow returns, and keeps the invariant.\<close>

lemma no_fault:
  assumes "names_ok c" "pipe_inv c s"
  shows "0 < opens s b \<Longrightarrow> pipefs_enter (Some (at_spec c b)) (heap s) \<noteq> None"
    "0 < opens s b \<Longrightarrow> vfs_close_pipe (Some (at_node c b)) (heap s) \<noteq> None"
    "0 < opens s b \<Longrightarrow> opens s b < 2 ^ 32 - 1 \<Longrightarrow> fd_dup_pipe (at_node c b) (heap s) \<noteq> None"
    "b \<in> set (busy s) \<Longrightarrow> pipefs_leave (Some (at_spec c b)) (heap s) \<noteq> None"
    "False \<in> set (busy s) \<Longrightarrow> read_round (at_spec c False) sz (heap s) \<noteq> None"
    "True \<in> set (busy s) \<Longrightarrow> write_round (at_spec c True) data atomic allow_wait (heap s) \<noteq> None"
  using enter_keeps [OF assms, of b] close_keeps [OF assms, of b] dup_keeps [OF assms, of b] leave_keeps [OF assms, of b]
    read_keeps [OF assms(2), of sz] live_end [OF assms(2), of True] write_keeps [OF assms(2) _ _ refl]
  by (metis option.discI)+

lemma pipe_step_keeps:
  assumes "names_ok c" "pipe_step c s s'" "pipe_inv c s"
  shows "pipe_inv c s'"
  using assms(2)
proof cases
  case (write_op data atomic allow_wait r h)
  obtain pi where "pipes (heap s) (at_pipe c) = Some pi" using live_end [OF assms(3), of True] write_op(2) by metis
  then show ?thesis using write_keeps [OF assms(3) write_op(2) _ refl, of pi data atomic allow_wait] write_op by auto
next
  case (read_op sz r h)
  then show ?thesis using read_keeps [OF assms(3) read_op(2), of sz] by auto
next
  case (enter_op b h)
  then show ?thesis using enter_keeps [OF assms(1,3), of b] by auto
next
  case (leave_op b h)
  then show ?thesis using leave_keeps [OF assms(1,3), of b] by auto
next
  case (dup_op b h)
  then show ?thesis using dup_keeps [OF assms(1,3), of b] by auto
next
  case (close_op b r h)
  then show ?thesis using close_keeps [OF assms(1,3), of b] by auto
qed

lemma pipe_reachable_inv:
  assumes "names_ok c" "(pipe_step c)\<^sup>*\<^sup>* (pipe_started c flags h) s"
  shows "pipe_inv c s"
  using assms(2)
proof (induction rule: rtranclp_induct)
  case base
  then show ?case by (rule pipe_started_inv [OF assms(1)])
next
  case (step s s')
  then show ?case using pipe_step_keeps [OF assms(1)] by blast
qed

subsection \<open>A short write is all or nothing\<close>

lemma sint_small: "n < 2 ^ 63 \<Longrightarrow> sint (of_nat n :: u64) = int n"
  by (simp add: signed_of_nat signed_take_bit_int_eq_self)

lemma write_answer_active: "write_answer (pi\<lparr>pipe_active := x\<rparr>) = write_answer pi"
  by (intro ext) (auto simp: write_answer_def has_room_def accepted_def)

lemma word_nat_cast_id: "of_nat (unat w) = w" for w :: u64
  by simp

text \<open>One call of \<open>pipefs_write\<close> whose first round returns: what that round answered decides the result.\<close>

lemma pipefs_write_once:
  assumes "names_ok c" "pipe_inv c s" "0 < opens s True" "pipes (heap s) (at_pipe c) = Some pi"
    "nodes (heap s) (at_node c True) = Some v" "data \<noteq> []"
    and answer: "write_answer pi data (length data \<le> PIPE_ATOMIC_MAX) (vn_flags v AND O_NONBLOCK = 0) = Returns ret bytes"
    and once: "sint ret \<le> 0 \<or> unat ret = length data"
  shows "\<exists>h. pipefs_write (Some (at_spec c True)) data wakes (heap s) =
      Some (Returned (if sint ret \<le> 0 then - EWOULDBLOCK_errno else ret) [] h) \<and>
    pipe_inv c (s\<lparr>heap := h, sent := sent s @ bytes\<rparr>)"
proof -
  let ?atomic = "length data \<le> PIPE_ATOMIC_MAX" and ?nonblock = "vn_flags v AND O_NONBLOCK \<noteq> 0"
  obtain h1 where h1: "pipefs_enter (Some (at_spec c True)) (heap s) = Some h1"
    "pipe_inv c (s\<lparr>heap := h1, busy := True # busy s\<rparr>)" using enter_keeps [OF assms(1-3)] by blast
  have live: "specs (heap s) (at_spec c True) = Some (live_spec c s True)"
    using live_end [OF assms(2), of True] assms(3) by blast
  have pipe1: "pipes h1 (at_pipe c) = Some (pi\<lparr>pipe_active := pipe_active pi + 1\<rparr>)"
    using h1(1) live assms(4) by (auto simp: pipefs_enter_def live_spec_def)
  have "write_answer (pi\<lparr>pipe_active := pipe_active pi + 1\<rparr>) data ?atomic (\<not> ?nonblock) = Returns ret bytes"
    using answer by (simp add: write_answer_active)
  with write_keeps [OF h1(2) _ _ refl, of _ data ?atomic "\<not> ?nonblock"] pipe1
  obtain h2 where h2: "write_round (at_spec c True) data ?atomic (\<not> ?nonblock) h1 = Some (Returns ret bytes, h2)"
    "pipe_inv c (s\<lparr>busy := True # busy s, heap := h2, sent := sent s @ bytes\<rparr>)" by auto
  obtain fuel where fuel: "length data = Suc fuel" using assms(6) by (cases data) auto
  have inner: "pipe_write_inner (at_spec c True) data ?atomic (\<not> ?nonblock) wakes h1 = Some (Inl (ret, wakes, h2))"
    using h2(1) by (simp add: pipe_write_inner.simps)
  have rest: "write_loop fuel (at_spec c True) data (length data) ?atomic ?nonblock wakes h2 = Some (Inl (length data, h2))"
    by (cases fuel) simp_all
  have loop: "write_loop (length data) (at_spec c True) data 0 ?atomic ?nonblock wakes h1 =
      Some (Inl (if sint ret \<le> 0 then 0 else length data, h2))"
    unfolding fuel using inner rest once fuel by auto
  obtain h3 where h3: "pipefs_leave (Some (at_spec c True)) h2 = Some h3" "pipe_inv c (s\<lparr>heap := h3, sent := sent s @ bytes\<rparr>)"
    using leave_keeps [OF assms(1) h2(2), of True] by (cases s) auto
  have "of_nat (length data) = ret" if "\<not> sint ret \<le> 0" using once that by (metis word_nat_cast_id)
  then show ?thesis using live h1(1) loop h3 assms(5,6)
    by (intro exI [of _ h3]) (auto simp: pipefs_write_def live_spec_def Let_def)
qed

section \<open>Properties\<close>

definition demo_names :: pipe_names where
  "demo_names = \<lparr>at_pipe = 1, at_spec = (\<lambda>b. if b then 3 else 2), at_node = (\<lambda>b. if b then 5 else 4)\<rparr>"

definition demo_empty :: pipe_heap where
  "demo_empty = \<lparr>pipes = Map.empty, specs = Map.empty, nodes = Map.empty, poll_log = []\<rparr>"

lemma demo_names_ok: "names_ok demo_names"
  by (simp add: names_ok_def demo_names_def)

text \<open>A process sends three bytes through a fresh pipe.\<close>

lemma demo_sends:
  "\<exists>s. (pipe_step demo_names)\<^sup>*\<^sup>* (pipe_started demo_names flags demo_empty) s \<and> sent s = [7, 8, 9] \<and> busy s = [True] \<and>
    opens s = (\<lambda>_. 1) \<and> received s = []"
proof -
  let ?s = "pipe_started demo_names flags demo_empty"
  have inv: "pipe_inv demo_names ?s" by (rule pipe_started_inv [OF demo_names_ok])
  obtain h1 where h1: "pipefs_enter (Some (at_spec demo_names True)) (heap ?s) = Some h1"
    "pipe_inv demo_names (?s\<lparr>heap := h1, busy := True # busy ?s\<rparr>)"
    using enter_keeps [OF demo_names_ok inv, of True] by (auto simp: pipe_started_def)
  have "\<exists>pi. pipes h1 (at_pipe demo_names) = Some pi \<and> ptr pi = 0 \<and> read_fds pi = 1"
    using h1(1) by (auto simp: pipefs_enter_def pipe_started_def pipe2_objects_def demo_names_def demo_empty_def)
  then obtain pi where pi: "pipes h1 (at_pipe demo_names) = Some pi" "ptr pi = 0" "read_fds pi = 1" by blast
  then have "write_answer pi [7, 8, 9] True False = Returns 3 [7, 8, 9]"
    by (simp add: write_answer_def has_room_def accepted_def)
  with write_keeps [OF h1(2) _ _ refl, of pi "[7, 8, 9]" True False] pi(1)
  obtain h2 where h2: "write_round (at_spec demo_names True) [7, 8, 9] True False h1 = Some (Returns 3 [7, 8, 9], h2)" by auto
  have "pipe_step demo_names ?s (?s\<lparr>heap := h1, busy := True # busy ?s\<rparr>)"
    using h1(1) by (intro enter_op) (simp_all add: pipe_started_def)
  moreover have "pipe_step demo_names (?s\<lparr>heap := h1, busy := True # busy ?s\<rparr>)
      (?s\<lparr>heap := h1, busy := True # busy ?s, heap := h2, sent := sent ?s @ round_bytes (Returns 3 [7, 8, 9])\<rparr>)"
    using write_op [of "?s\<lparr>heap := h1, busy := True # busy ?s\<rparr>" demo_names "[7, 8, 9]" True False "Returns 3 [7, 8, 9]" h2] h2
    by simp
  ultimately have "(pipe_step demo_names)\<^sup>*\<^sup>* ?s
      (?s\<lparr>heap := h1, busy := True # busy ?s, heap := h2, sent := sent ?s @ round_bytes (Returns 3 [7, 8, 9])\<rparr>)"
    by (rule converse_rtranclp_into_rtranclp [OF _ r_into_rtranclp])
  then show ?thesis by (intro exI conjI) (auto simp: pipe_started_def)
qed





text \<open>
  A write of at most \<open>PIPE_ATOMIC_MAX\<close> bytes is all or nothing.  When it fits, the whole of it enters the pipe in one
  piece and the call returns its length; on a non-blocking descriptor a write that does not fit returns \<open>EWOULDBLOCK\<close> and
  leaves the stream as it was.
\<close>

theorem pipe_write_atomic:
  assumes "names_ok c" "pipe_inv c s" "0 < opens s True" "0 < opens s False" "pipes (heap s) (at_pipe c) = Some pi"
    "nodes (heap s) (at_node c True) = Some v" "data \<noteq> []" "length data \<le> PIPE_ATOMIC_MAX"
    "unat (ptr pi) + length data \<le> PIPE_BUFF \<or> vn_flags v AND O_NONBLOCK \<noteq> 0"
  shows "\<exists>h. pipefs_write (Some (at_spec c True)) data wakes (heap s) = Some (Returned
        (if unat (ptr pi) + length data \<le> PIPE_BUFF then of_nat (length data) else - EWOULDBLOCK_errno) [] h) \<and>
    pipe_inv c (s\<lparr>heap := h, sent := sent s @ (if unat (ptr pi) + length data \<le> PIPE_BUFF then data else [])\<rparr>)"
proof -
  have "info_ok c s pi" using assms(2,3,5) by (auto simp: pipe_inv_def idle_def)
  then have fds: "read_fds pi \<noteq> 0" using assms(4) by (simp add: info_ok_def)
  let ?fits = "unat (ptr pi) + length data \<le> PIPE_BUFF"
  have room: "has_room pi True data \<longleftrightarrow> ?fits" using assms(7) by (cases data) (auto simp: has_room_def)
  let ?ret = "if ?fits then of_nat (length data) else - EWOULDBLOCK_errno :: u64"
  have "write_answer pi data True (vn_flags v AND O_NONBLOCK = 0) = Returns ?ret (if ?fits then data else [])"
    using fds room assms(9) by (auto simp: write_answer_def accepted_def)
  moreover have "unat (of_nat (length data) :: u64) = length data"
    using assms(8) by (simp add: unsigned_of_nat take_bit_nat_eq_self)
  moreover have "sint (of_nat (length data) :: u64) = int (length data)" using assms(8) by (simp add: sint_small)
  ultimately show ?thesis
    using pipefs_write_once [OF assms(1-3,5-7), of ?ret "if ?fits then data else []" wakes] assms(7,8)
    by (auto split: if_splits)
qed

theorem pipe_write_atomic_witness:
  "\<exists>h. pipefs_write (Some 3) [7, 8, 9] [] (heap (pipe_started demo_names O_NONBLOCK demo_empty)) = Some (Returned 3 [] h) \<and>
    pipe_inv demo_names ((pipe_started demo_names O_NONBLOCK demo_empty)\<lparr>heap := h, sent := [7, 8, 9]\<rparr>)"
proof -
  let ?s = "pipe_started demo_names O_NONBLOCK demo_empty"
  obtain pi v where "pipes (heap ?s) (at_pipe demo_names) = Some pi" "ptr pi = 0" "nodes (heap ?s) (at_node demo_names True) = Some v"
    by (simp add: pipe_started_def pipe2_objects_def demo_names_def)
  then show ?thesis
    using pipe_write_atomic [OF demo_names_ok pipe_started_inv [OF demo_names_ok], of O_NONBLOCK demo_empty pi v "[7, 8, 9]" "[]"]
    by (simp add: pipe_started_def demo_names_def)
qed

text \<open>
  Writing to a pipe whose read end is closed reports \<open>EWOULDBLOCK\<close>, also on a blocking descriptor: \<open>pipe_write_inner\<close>
  answers \<open>EPIPE\<close>, but \<open>pipefs_write\<close> drops every error when nothing was written.
\<close>

theorem pipe_write_broken:
  assumes "names_ok c" "pipe_inv c s" "0 < opens s True" "opens s False = 0" "data \<noteq> []"
  shows "\<exists>h. pipefs_write (Some (at_spec c True)) data wakes (heap s) = Some (Returned (- EWOULDBLOCK_errno) [] h) \<and>
    pipe_inv c (s\<lparr>heap := h\<rparr>)"
proof -
  obtain v pi where l: "nodes (heap s) (at_node c True) = Some v" "pipes (heap s) (at_pipe c) = Some pi" "info_ok c s pi"
    using live_end [OF assms(2), of True] assms(3) by blast
  then have "write_answer pi data atomic wait = Returns (- EPIPE_errno) []" for atomic wait
    using assms(4) by (simp add: write_answer_def info_ok_def)
  from pipefs_write_once [OF assms(1-3) l(2,1) assms(5) this] show ?thesis by simp
qed

theorem pipe_write_broken_witness:
  "\<exists>h0 h. vfs_close_pipe (Some 4) (heap (pipe_started demo_names 0 demo_empty)) = Some (0, h0) \<and>
    pipefs_write (Some 3) [7] [] h0 = Some (Returned (- EWOULDBLOCK_errno) [] h)"
proof -
  let ?s = "pipe_started demo_names 0 demo_empty"
  obtain h0 where h0: "vfs_close_pipe (Some (at_node demo_names False)) (heap ?s) = Some (0, h0)"
    "pipe_inv demo_names (?s\<lparr>heap := h0, opens := (opens ?s)(False := opens ?s False - 1)\<rparr>)"
    using close_keeps [OF demo_names_ok pipe_started_inv [OF demo_names_ok], of 0 demo_empty False]
    by (auto simp: pipe_started_def)
  from pipe_write_broken [OF demo_names_ok h0(2), of "[7]" "[]"] h0(1) show ?thesis
    by (auto simp: pipe_started_def demo_names_def)
qed

end
