(* ===== verification/Fds.thy ===== *)
theory Fds
  imports Pipefs
begin

text \<open>
  File descriptor tables: \<^verbatim>\<open>src/src/fs/fds.c\<close> and the descriptor system calls of \<^verbatim>\<open>src/src/fs/fssys.c\<close>
  (\<open>close\<close>, \<open>dup\<close>, \<open>dup2\<close>, \<open>dup3\<close> and \<open>dup_with_minfd\<close>).  A table is the array \<open>fds\<close> of optional
  descriptions, its length the field \<open>fds_length\<close>; a description belongs to one slot, so it is stored there.  Nodes, pipes and
  ends live in the heap of the pipe theory, sockets in two maps beside it.  \<open>malloc_ok\<close> says which request sizes are granted;
  \<open>vfs_close\<close>, which calls into the file system of the node, is the argument \<open>close_node\<close>.  \<^const>\<open>None\<close> is a fault.
\<close>

section \<open>Definitions\<close>

abbreviation FD_INITIAL_CAPACITY :: u64 where "FD_INITIAL_CAPACITY \<equiv> 5"
abbreviation FD_GROWTH_FACTOR :: u64 where "FD_GROWTH_FACTOR \<equiv> 2"
abbreviation O_CLOEXEC :: u64 where "O_CLOEXEC \<equiv> 0x80000"
abbreviation file_socket :: u16 where "file_socket \<equiv> 0x200"
abbreviation fd_bytes :: nat where "fd_bytes \<equiv> 40"
abbreviation fdt_bytes :: nat where "fdt_bytes \<equiv> 16"

record fd_t =
  fd_node :: nat
  fd_offset :: u64
  fd_dir_last :: "nat option"
  fd_flags :: u64
  fd_fd :: int

type_synonym fdt_t = "fd_t option list"

record fd_heap =
  objects :: pipe_heap
  sock_info :: "nat \<rightharpoonup> nat option"
  sock_refs :: "nat \<rightharpoonup> int"

text \<open>\<open>(int)i\<close> for a \<open>size_t\<close> index, and \<open>(size_t)fd\<close> for an \<open>int\<close> descriptor.\<close>

definition c_int :: "nat \<Rightarrow> int" where
  "c_int i = sint (of_nat i :: u32)"

definition fd_index :: "int \<Rightarrow> u64" where
  "fd_index fd = of_int fd"

definition fds_length :: "fdt_t \<Rightarrow> u64" where
  "fds_length fdt = of_nat (length fdt)"

fun find_free_from :: "nat \<Rightarrow> fdt_t \<Rightarrow> int" where
  "find_free_from i [] = -9"
| "find_free_from i (x # xs) = (if x = None then c_int i else find_free_from (Suc i) xs)"

definition find_free_fd :: "fdt_t option \<Rightarrow> int" where
  "find_free_fd fdt = (case fdt of None \<Rightarrow> -2 | Some fdt \<Rightarrow> find_free_from 0 fdt)"

definition expand_fds_table :: "(nat \<Rightarrow> bool) \<Rightarrow> fdt_t \<Rightarrow> int \<times> fdt_t" where
  "expand_fds_table malloc_ok fdt =
     (let old_len = fds_length fdt;
          new_len = old_len * FD_GROWTH_FACTOR;
          new_len = (if new_len = 0 then FD_INITIAL_CAPACITY else new_len)
      in if \<not> malloc_ok (unat (new_len * 8)) then (-1, fdt)
         else (0, fdt @ replicate (unat (new_len - old_len)) None))"

definition add_fd :: "(nat \<Rightarrow> bool) \<Rightarrow> fdt_t option \<Rightarrow> fd_t \<Rightarrow> (int \<times> fdt_t option) option" where
  "add_fd malloc_ok fdt new_fd =
     (let fdid = find_free_fd fdt in
      if fdid < 0 then
        case fdt of
          None \<Rightarrow> None
        | Some t \<Rightarrow>
            (case expand_fds_table malloc_ok t of (r, t) \<Rightarrow>
               if r \<noteq> 0 then Some (-1, Some t)
               else
                 let fdid = find_free_fd (Some t) in
                 if fdid < 0 then Some (-1, Some t)
                 else do { t \<leftarrow> aput t (nat fdid) (Some new_fd); Some (fdid, Some t) })
      else do { t \<leftarrow> fdt; t \<leftarrow> aput t (nat fdid) (Some new_fd); Some (fdid, Some t) })"

definition get_fd :: "fdt_t \<Rightarrow> int \<Rightarrow> fd_t option option" where
  "get_fd table fd = (if fd_index fd \<ge> fds_length table then Some None else aget table (nat fd))"

definition set_fd :: "fdt_t \<Rightarrow> fd_t option \<Rightarrow> int \<Rightarrow> (int \<times> fdt_t) option" where
  "set_fd table handle fd =
     (if fd < 0 then None
      else do {
        old \<leftarrow> aget table (nat fd);
        if old \<noteq> None then Some (-17, table)
        else do { table \<leftarrow> aput table (nat fd) handle; Some (0, table) }
      })"

definition remove_fd :: "fdt_t option \<Rightarrow> int \<Rightarrow> (int \<times> fdt_t option) option" where
  "remove_fd fdt fd =
     (case fdt of
        None \<Rightarrow> Some (-2, None)
      | Some t \<Rightarrow>
          if fd < 0 \<or> fd_index fd \<ge> fds_length t then Some (-9, Some t)
          else do {
            x \<leftarrow> aget t (nat fd);
            if x = None then Some (-9, Some t)
            else do { t \<leftarrow> aput t (nat fd) None; Some (0, Some t) }
          })"

text \<open>The socket part of \<open>fd_dup\<close>: the handle of the node is the \<open>socket_specific_t\<close>.\<close>

definition dup_socket :: "nat option \<Rightarrow> fd_heap \<Rightarrow> fd_heap option" where
  "dup_socket handle h =
     (case handle of
        None \<Rightarrow> Some h
      | Some a \<Rightarrow> do {
          info \<leftarrow> sock_info h a;
          (case info of
             None \<Rightarrow> Some h
           | Some i \<Rightarrow> do { k \<leftarrow> sock_refs h i; Some (h\<lparr>sock_refs := (sock_refs h)(i \<mapsto> k + 1)\<rparr>) })
        })"

definition fd_dup :: "(nat \<Rightarrow> bool) \<Rightarrow> fd_t \<Rightarrow> fd_heap \<Rightarrow> (fd_t \<times> fd_heap) option" where
  "fd_dup malloc_ok src h =
     (if \<not> malloc_ok fd_bytes then None
      else do {
        objs \<leftarrow> fd_dup_pipe (fd_node src) (objects h);
        let h = h\<lparr>objects := objs\<rparr>;
        v \<leftarrow> nodes objs (fd_node src);
        h \<leftarrow> (if vn_type v AND file_socket \<noteq> 0 then dup_socket (vn_handle v) h else Some h);
        Some (src, h)
      })"

primrec copy_slots :: "(nat \<Rightarrow> nat \<Rightarrow> bool) \<Rightarrow> nat \<Rightarrow> fdt_t \<Rightarrow> fd_heap \<Rightarrow> (fdt_t \<times> fd_heap) option" where
  "copy_slots mem i [] h = Some ([], h)"
| "copy_slots mem i (x # xs) h = do {
     (y, h) \<leftarrow> (case x of
        None \<Rightarrow> Some (None, h)
      | Some src \<Rightarrow> do { (y, h) \<leftarrow> fd_dup (mem i) src h; Some (Some y, h) });
     (ys, h) \<leftarrow> copy_slots mem (Suc i) xs h;
     Some (y # ys, h)
   }"

text \<open>\<open>mem i\<close> answers the allocation for slot \<open>i\<close>, \<open>malloc_ok\<close> the two for the table itself.\<close>

definition copy_fdt ::
  "(nat \<Rightarrow> bool) \<Rightarrow> (nat \<Rightarrow> nat \<Rightarrow> bool) \<Rightarrow> fdt_t option \<Rightarrow> fd_heap \<Rightarrow> (fdt_t option \<times> fd_heap) option" where
  "copy_fdt malloc_ok mem src_fdt h =
     (case src_fdt of
        None \<Rightarrow> Some (None, h)
      | Some src \<Rightarrow>
          if \<not> malloc_ok fdt_bytes then Some (None, h)
          else if \<not> malloc_ok (unat (fds_length src * 8)) then Some (None, h)
          else do { (t, h) \<leftarrow> copy_slots mem 0 src h; Some (Some t, h) })"

text \<open>\<open>fds_init\<close> does not test the first allocation, only the second.\<close>

definition fds_init :: "(nat \<Rightarrow> bool) \<Rightarrow> fdt_t option" where
  "fds_init malloc_ok =
     (if \<not> malloc_ok fdt_bytes then None
      else Some (if malloc_ok (unat (FD_INITIAL_CAPACITY * 8)) then replicate (unat FD_INITIAL_CAPACITY) None else []))"

subsection \<open>System calls\<close>

text \<open>One round makes the table long enough, so the loop of \<open>ensure_fdt_capacity\<close> runs at most once.\<close>

definition ensure_fdt_capacity :: "(nat \<Rightarrow> bool) \<Rightarrow> fdt_t \<Rightarrow> int \<Rightarrow> int \<times> fdt_t" where
  "ensure_fdt_capacity malloc_ok fdt expect_fd =
     (if fd_index expect_fd \<ge> fds_length fdt then
        let old_len = fds_length fdt;
            new_len = old_len * FD_GROWTH_FACTOR;
            new_len = (if new_len = 0 then FD_INITIAL_CAPACITY else new_len);
            new_len = (if new_len \<le> fd_index expect_fd then fd_index expect_fd + 1 else new_len)
        in if \<not> malloc_ok (unat (new_len * 8)) then (-12, fdt)
           else (0, fdt @ replicate (unat (new_len - old_len)) None)
      else (0, fdt))"

definition sys_close :: "(nat \<Rightarrow> fd_heap \<Rightarrow> fd_heap option) \<Rightarrow> fdt_t \<Rightarrow> int \<Rightarrow> fd_heap \<Rightarrow> (int \<times> fdt_t \<times> fd_heap) option" where
  "sys_close close_node fdt fd h =
     (if fd < 0 then Some (-22, fdt, h)
      else do {
        handle \<leftarrow> get_fd fdt fd;
        (case handle of
           None \<Rightarrow> Some (-9, fdt, h)
         | Some handle \<Rightarrow> do {
             h \<leftarrow> close_node (fd_node handle) h;
             (_, t) \<leftarrow> remove_fd (Some fdt) fd;
             t \<leftarrow> t;
             Some (0, t, h)
           })
      })"

definition sys_dup :: "(nat \<Rightarrow> bool) \<Rightarrow> fdt_t \<Rightarrow> int \<Rightarrow> fd_heap \<Rightarrow> (int \<times> fdt_t \<times> fd_heap) option" where
  "sys_dup malloc_ok fdt fd h =
     (if fd < 0 then Some (-22, fdt, h)
      else do {
        handle \<leftarrow> get_fd fdt fd;
        (case handle of
           None \<Rightarrow> Some (-9, fdt, h)
         | Some handle \<Rightarrow> do {
             (new_handle, h) \<leftarrow> fd_dup malloc_ok handle h;
             let new_handle = new_handle\<lparr>fd_flags := fd_flags new_handle AND NOT O_CLOEXEC\<rparr>;
             (r, t) \<leftarrow> add_fd malloc_ok (Some fdt) new_handle;
             t \<leftarrow> t;
             let t = (if r \<ge> 0 then t[nat r := Some (new_handle\<lparr>fd_fd := r\<rparr>)] else t);
             Some (r, t, h)
           })
      })"

definition sys_dup2 ::
  "(nat \<Rightarrow> bool) \<Rightarrow> (nat \<Rightarrow> fd_heap \<Rightarrow> fd_heap option) \<Rightarrow> fdt_t \<Rightarrow> int \<Rightarrow> int \<Rightarrow> fd_heap \<Rightarrow> (int \<times> fdt_t \<times> fd_heap) option" where
  "sys_dup2 malloc_ok close_node fdt fd newfd h =
     (if newfd < 0 then Some (-22, fdt, h)
      else do {
        handle \<leftarrow> get_fd fdt fd;
        (case handle of
           None \<Rightarrow> Some (-9, fdt, h)
         | Some handle \<Rightarrow>
             if fd = newfd then Some (newfd, fdt, h)
             else case ensure_fdt_capacity malloc_ok fdt newfd of (r, fdt) \<Rightarrow>
               if r < 0 then Some (-12, fdt, h)
               else do {
                 old_handle \<leftarrow> aget fdt (nat newfd);
                 (fdt, h) \<leftarrow> (case old_handle of
                    None \<Rightarrow> Some (fdt, h)
                  | Some old \<Rightarrow> do { h \<leftarrow> close_node (fd_node old) h; Some (fdt[nat newfd := None], h) });
                 (new_handle, h) \<leftarrow> fd_dup malloc_ok handle h;
                 let new_handle = new_handle\<lparr>fd_fd := newfd, fd_flags := fd_flags new_handle AND NOT O_CLOEXEC\<rparr>;
                 fdt \<leftarrow> aput fdt (nat newfd) (Some new_handle);
                 Some (newfd, fdt, h)
               })
      })"

definition sys_dup3 ::
  "(nat \<Rightarrow> bool) \<Rightarrow> (nat \<Rightarrow> fd_heap \<Rightarrow> fd_heap option) \<Rightarrow> fdt_t \<Rightarrow> int \<Rightarrow> int \<Rightarrow> u64 \<Rightarrow> fd_heap \<Rightarrow>
   (int \<times> fdt_t \<times> fd_heap) option" where
  "sys_dup3 malloc_ok close_node fdt oldfd newfd flags h =
     (if flags AND NOT O_CLOEXEC \<noteq> 0 then Some (-22, fdt, h)
      else if oldfd = newfd then Some (-22, fdt, h)
      else do {
        (ret, fdt, h) \<leftarrow> sys_dup2 malloc_ok close_node fdt oldfd newfd h;
        if ret < 0 then Some (ret, fdt, h)
        else if flags AND O_CLOEXEC \<noteq> 0 then do {
          x \<leftarrow> get_fd fdt newfd;
          (case x of
             None \<Rightarrow> Some (ret, fdt, h)
           | Some d \<Rightarrow> Some (ret, fdt[nat newfd := Some (d\<lparr>fd_flags := fd_flags d OR O_CLOEXEC\<rparr>)], h))
        }
        else Some (ret, fdt, h)
      })"

text \<open>
  The search of \<open>dup_with_minfd\<close>.  Once \<open>newfd\<close> is the length, the table grows and the slot there is free, so
  \<open>length fdt + 2\<close> rounds are enough.
\<close>

primrec min_loop :: "nat \<Rightarrow> (nat \<Rightarrow> bool) \<Rightarrow> fdt_t \<Rightarrow> int \<Rightarrow> (int option \<times> fdt_t) option" where
  "min_loop 0 malloc_ok fdt newfd = None"
| "min_loop (Suc fuel) malloc_ok fdt newfd =
     (case (if fd_index newfd \<ge> fds_length fdt then ensure_fdt_capacity malloc_ok fdt newfd else (0, fdt)) of (r, fdt) \<Rightarrow>
        if r < 0 then Some (None, fdt)
        else do {
          x \<leftarrow> aget fdt (nat newfd);
          if x = None then Some (Some newfd, fdt) else min_loop fuel malloc_ok fdt (newfd + 1)
        })"

definition dup_with_minfd ::
  "(nat \<Rightarrow> bool) \<Rightarrow> fdt_t \<Rightarrow> fd_t \<Rightarrow> int \<Rightarrow> bool \<Rightarrow> fd_heap \<Rightarrow> (int \<times> fdt_t \<times> fd_heap) option" where
  "dup_with_minfd malloc_ok fdt handle min_fd cloexec h =
     (if min_fd < 0 then Some (-22, fdt, h)
      else case ensure_fdt_capacity malloc_ok fdt min_fd of (r, fdt) \<Rightarrow>
        if r < 0 then Some (-12, fdt, h)
        else do {
          (newfd, fdt) \<leftarrow> min_loop (length fdt + 2) malloc_ok fdt min_fd;
          (case newfd of
             None \<Rightarrow> Some (-12, fdt, h)
           | Some newfd \<Rightarrow> do {
               (new_handle, h) \<leftarrow> fd_dup malloc_ok handle h;
               let flags = fd_flags new_handle AND NOT O_CLOEXEC;
               let flags = (if cloexec then flags OR O_CLOEXEC else flags);
               fdt \<leftarrow> aput fdt (nat newfd) (Some (new_handle\<lparr>fd_fd := newfd, fd_flags := flags\<rparr>));
               Some (newfd, fdt, h)
             })
        })"

section \<open>A table as a finite map\<close>

definition first_free :: "fdt_t \<Rightarrow> nat" where
  "first_free t = length (takeWhile (\<lambda>x. x \<noteq> None) t)"

definition slot :: "fdt_t \<Rightarrow> nat \<Rightarrow> fd_t option" where
  "slot t i = (if i < length t then t ! i else None)"

lemma first_free_le: "first_free t \<le> length t"
  by (simp add: first_free_def length_takeWhile_le)

lemma slot_first_free: "slot t (first_free t) = None"
  using nth_length_takeWhile [of "\<lambda>x. x \<noteq> None" t] by (auto simp: slot_def first_free_def)

lemma slot_below_first_free: "j < first_free t \<Longrightarrow> slot t j \<noteq> None"
proof -
  assume j: "j < first_free t"
  then have "takeWhile (\<lambda>x. x \<noteq> None) t ! j \<in> set (takeWhile (\<lambda>x. x \<noteq> None) t)" by (simp add: first_free_def)
  then have "takeWhile (\<lambda>x. x \<noteq> None) t ! j \<noteq> None" by (auto dest!: set_takeWhileD)
  then show ?thesis using j first_free_le [of t] by (simp add: slot_def first_free_def takeWhile_nth)
qed

lemma slot_append_None [simp]: "slot (t @ replicate n None) = slot t"
  by (auto simp: slot_def fun_eq_iff nth_append)

lemma slot_update: "k < length t \<Longrightarrow> slot (t[k := x]) = (slot t)(k := x)"
  by (auto simp: slot_def fun_eq_iff nth_list_update)

lemma c_int_small: "i < 2 ^ 31 \<Longrightarrow> c_int i = int i"
  by (simp add: c_int_def signed_of_nat signed_take_bit_int_eq_self)

lemma fds_length_small: "length t < 2 ^ 31 \<Longrightarrow> unat (fds_length t) = length t"
  by (simp add: fds_length_def unsigned_of_nat take_bit_nat_eq_self)

lemma find_free_from_spec:
  "i + length t < 2 ^ 31 \<Longrightarrow> find_free_from i t = (if first_free t < length t then int (i + first_free t) else -9)"
proof (induction t arbitrary: i)
  case (Cons x t)
  then show ?case using Cons.IH [of "Suc i"] by (auto simp: first_free_def c_int_small)
qed (simp add: first_free_def)

lemma find_free_fd_spec:
  "length t < 2 ^ 31 \<Longrightarrow> find_free_fd (Some t) = (if first_free t < length t then int (first_free t) else -9)"
  using find_free_from_spec [of 0 t] by (simp add: find_free_fd_def)

text \<open>A descriptor is an \<open>int\<close>; the comparison as \<open>size_t\<close> turns the negative ones away.\<close>

lemma fd_index_cmp:
  assumes "length t < 2 ^ 31" "- (2 ^ 31) \<le> fd" "fd < 2 ^ 31"
  shows "fd_index fd \<ge> fds_length t \<longleftrightarrow> fd < 0 \<or> nat fd \<ge> length t"
proof (cases "fd < 0")
  case True
  have "fd mod 2 ^ 64 = (fd + 2 ^ 64) mod 2 ^ 64" by (rule mod_add_self2 [symmetric])
  also have "\<dots> = fd + 2 ^ 64" using assms(2) True by (intro mod_pos_pos_trivial) auto
  finally have "uint (fd_index fd) = fd + 2 ^ 64"
    by (simp only: fd_index_def uint_word_of_int_eq take_bit_eq_mod) simp
  moreover have "uint (fds_length t) = int (length t)"
    using fds_length_small [OF assms(1)] by (simp only: uint_nat)
  ultimately have "uint (fds_length t) \<le> uint (fd_index fd)" using assms(1,2) by simp
  then show ?thesis using True by (simp add: word_le_def)
next
  case False
  then have "unat (fd_index fd) = nat fd" using assms(3)
    by (simp add: fd_index_def unat_eq_nat_uint uint_word_of_int_eq take_bit_int_eq_self)
  then show ?thesis using False fds_length_small [OF assms(1)] by (simp add: word_le_nat_alt)
qed

lemma get_fd_spec:
  assumes "length t < 2 ^ 31" "- (2 ^ 31) \<le> fd" "fd < 2 ^ 31"
  shows "get_fd t fd = Some (if fd < 0 then None else slot t (nat fd))"
  using fd_index_cmp [OF assms] by (auto simp: get_fd_def slot_def)

text \<open>The table after an expansion; the new slots are free.\<close>

lemma expand_spec:
  assumes "length t < 2 ^ 30"
  obtains n where "0 < n" "expand_fds_table malloc_ok t =
    (if malloc_ok (8 * (length t + n)) then (0, t @ replicate n None) else (-1, t))" "length t + n \<le> max 5 (2 * length t)"
proof (cases "length t = 0")
  case True
  then show ?thesis using that [of 5] by (simp add: expand_fds_table_def fds_length_def Let_def)
next
  case False
  define l where "l = fds_length t"
  have l: "unat l = length t" using fds_length_small [of t] assms by (simp add: l_def)
  have "unat (l * FD_GROWTH_FACTOR) = 2 * length t" "unat (l * FD_GROWTH_FACTOR * 8) = 8 * (length t + length t)"
    "l * FD_GROWTH_FACTOR - l = l"
    using assms l by (simp_all add: unat_word_ariths)
  moreover have "l * FD_GROWTH_FACTOR \<noteq> 0" using calculation(1) False by (metis mult_eq_0_iff unsigned_0 zero_neq_numeral)
  ultimately show ?thesis using that [of "length t"] False l
    by (simp add: expand_fds_table_def Let_def l_def [symmetric])
qed

lemma first_free_full: "\<not> first_free t < length t \<Longrightarrow> 0 < n \<Longrightarrow> first_free (t @ replicate n None) = length t"
proof -
  assume full: "\<not> first_free t < length t" and n: "0 < n"
  then have "length (takeWhile (\<lambda>x. x \<noteq> None) t) = length t" using first_free_le [of t] by (simp add: first_free_def)
  then have "takeWhile (\<lambda>x. x \<noteq> None) t = t" by (metis takeWhile_eq_take take_all_iff order_refl)
  then show ?thesis using n by (cases n) (simp_all add: first_free_def takeWhile_append2 takeWhile_eq_all_conv)
qed

lemma add_fd_spec:
  assumes "length t < 2 ^ 30"
  shows "(\<exists>t'. add_fd malloc_ok (Some t) d = Some (int (first_free t), Some t') \<and> slot t' = (slot t)(first_free t \<mapsto> d) \<and>
      (t' = t[first_free t := Some d] \<or> malloc_ok (8 * length t') \<and> length t' \<le> max 5 (2 * length t))) \<or>
    add_fd malloc_ok (Some t) d = Some (-1, Some t) \<and> first_free t = length t \<and> (\<exists>n. \<not> malloc_ok n)"
proof (cases "first_free t < length t")
  case True
  then show ?thesis using assms find_free_fd_spec [of t]
    by (intro disjI1) (auto simp: add_fd_def Let_def slot_update)
next
  case False
  then have full: "first_free t = length t" using first_free_le [of t] by simp
  obtain n where n: "0 < n" "expand_fds_table malloc_ok t =
      (if malloc_ok (8 * (length t + n)) then (0, t @ replicate n None) else (-1, t))" "length t + n \<le> max 5 (2 * length t)"
    using expand_spec [OF assms] by blast
  have "length (t @ replicate n None) < 2 ^ 31" using assms n(3) by simp
  from find_free_fd_spec [OF this] have "find_free_fd (Some (t @ replicate n None)) = int (length t)"
    using first_free_full [OF False n(1)] n(1) by simp
  moreover have "find_free_fd (Some t) = -9" using find_free_fd_spec [of t] assms False by simp
  moreover have "slot ((t @ replicate n None)[length t := Some d]) = (slot t)(length t \<mapsto> d)"
    using slot_update [of "length t" "t @ replicate n None" "Some d"] n(1) by simp
  ultimately show ?thesis using n full
    by (cases "malloc_ok (8 * (length t + n))") (auto simp: add_fd_def Let_def)
qed

lemma remove_fd_spec:
  assumes "length t < 2 ^ 31" "- (2 ^ 31) \<le> fd" "fd < 2 ^ 31"
  shows "remove_fd (Some t) fd =
    Some (if fd < 0 \<or> slot t (nat fd) = None then (-9, Some t) else (0, Some (t[nat fd := None])))"
  using fd_index_cmp [OF assms] by (auto simp: remove_fd_def slot_def)

section \<open>The contract of a descriptor table\<close>

locale descriptor_table =
  fixes add :: "'t \<Rightarrow> 'd \<Rightarrow> (nat \<times> 't) option"
    and remove :: "'t \<Rightarrow> nat \<Rightarrow> 't option"
    and look :: "'t \<Rightarrow> nat \<Rightarrow> 'd option"
    and inv :: "'t \<Rightarrow> bool"
  assumes add_law: "inv t \<Longrightarrow> add t d = Some (k, t') \<Longrightarrow>
      look t k = None \<and> (\<forall>j<k. look t j \<noteq> None) \<and> look t' = (look t)(k \<mapsto> d) \<and> inv t'"
    and remove_law: "inv t \<Longrightarrow> look t k \<noteq> None \<Longrightarrow> \<exists>t'. remove t k = Some t' \<and> look t' = (look t)(k := None) \<and> inv t'"
    and refuse_law: "inv t \<Longrightarrow> look t k = None \<Longrightarrow> remove t k = None"
begin

text \<open>A descriptor just closed is the next one handed out, unless a lower one is free.\<close>

lemma reuse_lowest:
  assumes "inv t" "look t k \<noteq> None" "remove t k = Some t1" "add t1 d = Some (j, t2)"
  shows "j \<le> k" "j < k \<Longrightarrow> look t j = None"
proof -
  have t1: "look t1 = (look t)(k := None)" "inv t1" using remove_law [OF assms(1,2)] assms(3) by auto
  note a = add_law [OF t1(2) assms(4)]
  show "j \<le> k" using a t1(1) by (metis fun_upd_same linorder_not_less)
  show "j < k \<Longrightarrow> look t j = None" using a t1(1) by auto
qed

lemma adds_distinct:
  assumes "inv t" "add t d = Some (j, t1)" "add t1 e = Some (k, t2)"
  shows "j \<noteq> k" "look t2 j = Some d" "look t2 k = Some e"
proof -
  note a = add_law [OF assms(1,2)]
  then have "inv t1" by blast
  note b = add_law [OF this assms(3)]
  show "j \<noteq> k" using a b by fastforce
  then show "look t2 j = Some d" "look t2 k = Some e" using a b by auto
qed

lemma add_remove_restores:
  assumes "inv t" "add t d = Some (k, t1)"
  shows "\<exists>t2. remove t1 k = Some t2 \<and> look t2 = look t \<and> inv t2"
proof -
  note a = add_law [OF assms]
  then have "look t1 k \<noteq> None" by simp
  from remove_law [OF _ this] a show ?thesis by (auto simp: fun_upd_idem)
qed

end

text \<open>The kernel's table on a heap that grants no request of \<open>2 ^ 33\<close> bytes or more, so that descriptors stay \<open>int\<close>s.\<close>

definition fd_add :: "fdt_t \<Rightarrow> fd_t \<Rightarrow> (nat \<times> fdt_t) option" where
  "fd_add t d = (case add_fd (\<lambda>n. n < 2 ^ 33) (Some t) d of
     Some (r, Some t') \<Rightarrow> if r < 0 then None else Some (nat r, t') | _ \<Rightarrow> None)"

definition fd_remove :: "fdt_t \<Rightarrow> nat \<Rightarrow> fdt_t option" where
  "fd_remove t k = (case remove_fd (Some t) (int k) of Some (r, Some t') \<Rightarrow> if r = 0 then Some t' else None | _ \<Rightarrow> None)"

definition fdt_ok :: "fdt_t \<Rightarrow> bool" where
  "fdt_ok t \<longleftrightarrow> length t < 2 ^ 30"

lemma fd_add_law:
  assumes "fdt_ok t" "fd_add t d = Some (k, t')"
  shows "slot t k = None \<and> (\<forall>j<k. slot t j \<noteq> None) \<and> slot t' = (slot t)(k \<mapsto> d) \<and> fdt_ok t'"
proof -
  have len: "length t < 2 ^ 30" using assms(1) by (simp add: fdt_ok_def)
  from add_fd_spec [OF len, of "\<lambda>n. n < 2 ^ 33" d] assms(2)
  have "k = first_free t" "slot t' = (slot t)(first_free t \<mapsto> d)" "fdt_ok t'"
    using len by (auto simp: fd_add_def fdt_ok_def)
  then show ?thesis using slot_first_free slot_below_first_free by simp
qed

lemma fd_remove_laws:
  assumes "fdt_ok t"
  shows "slot t k \<noteq> None \<Longrightarrow> \<exists>t'. fd_remove t k = Some t' \<and> slot t' = (slot t)(k := None) \<and> fdt_ok t'"
    "slot t k = None \<Longrightarrow> fd_remove t k = None"
proof -
  have len: "length t < 2 ^ 31" using assms by (simp add: fdt_ok_def)
  show "\<exists>t'. fd_remove t k = Some t' \<and> slot t' = (slot t)(k := None) \<and> fdt_ok t'" if k: "slot t k \<noteq> None"
  proof -
    have "k < length t" using k by (simp add: slot_def split: if_splits)
    then show ?thesis using remove_fd_spec [OF len, of "int k"] k len assms
      by (simp add: fd_remove_def slot_update fdt_ok_def)
  qed
  show "fd_remove t k = None" if k: "slot t k = None"
  proof (cases "k < 2 ^ 31")
    case True
    then show ?thesis using remove_fd_spec [OF len, of "int k"] k by (simp add: fd_remove_def)
  next
    case False
    then show ?thesis using len by (auto simp: fd_remove_def remove_fd_def split: if_splits option.splits)
  qed
qed

interpretation fds: descriptor_table fd_add fd_remove slot fdt_ok
  by unfold_locales (use fd_add_law fd_remove_laws in blast)+

section \<open>Duplicating descriptions\<close>

text \<open>A node whose description can be duplicated: what its type says hangs off it is there.\<close>

definition node_ready :: "fd_heap \<Rightarrow> nat \<Rightarrow> bool" where
  "node_ready h n \<longleftrightarrow> (\<exists>v. nodes (objects h) n = Some v \<and>
     (vn_type v AND file_pipe \<noteq> 0 \<longrightarrow> (\<exists>a spec p. vn_handle v = Some a \<and> specs (objects h) a = Some spec \<and>
        spec_info spec = Some p \<and> pipes (objects h) p \<noteq> None)) \<and>
     (vn_type v AND file_socket \<noteq> 0 \<longrightarrow> (\<forall>a. vn_handle v = Some a \<longrightarrow>
        (\<exists>info. sock_info h a = Some info \<and> (\<forall>i. info = Some i \<longrightarrow> sock_refs h i \<noteq> None)))))"

definition refcount_of :: "fd_heap \<Rightarrow> nat \<Rightarrow> u32" where
  "refcount_of h n = (case nodes (objects h) n of None \<Rightarrow> 0 | Some v \<Rightarrow> vn_refcount v)"

lemma fd_dup_pipe_spec:
  assumes "node_ready h n"
  obtains v objs where "nodes (objects h) n = Some v" "fd_dup_pipe n (objects h) = Some objs"
    "nodes objs = (nodes (objects h))(n \<mapsto> v\<lparr>vn_refcount := vn_refcount v + 1\<rparr>)" "specs objs = specs (objects h)"
    "dom (pipes objs) = dom (pipes (objects h))"
proof -
  obtain v where v: "nodes (objects h) n = Some v" and pipe: "vn_type v AND file_pipe \<noteq> 0 \<Longrightarrow> \<exists>a spec p. vn_handle v = Some a \<and>
      specs (objects h) a = Some spec \<and> spec_info spec = Some p \<and> pipes (objects h) p \<noteq> None"
    using assms unfolding node_ready_def by blast
  show ?thesis
  proof (cases "vn_type v AND file_pipe \<noteq> 0")
    case True
    then obtain a spec p pi where "vn_handle v = Some a" "specs (objects h) a = Some spec" "spec_info spec = Some p"
      "pipes (objects h) p = Some pi" using pipe by blast
    then show ?thesis using v True that by (auto simp: fd_dup_pipe_def insert_absorb domIff)
  next
    case False
    then show ?thesis using v that by (auto simp: fd_dup_pipe_def)
  qed
qed

lemma dup_socket_spec:
  assumes "\<And>a. handle = Some a \<Longrightarrow> \<exists>info. sock_info h a = Some info \<and> (\<forall>i. info = Some i \<longrightarrow> sock_refs h i \<noteq> None)"
  shows "\<exists>h'. dup_socket handle h = Some h' \<and> objects h' = objects h \<and> sock_info h' = sock_info h \<and>
    dom (sock_refs h') = dom (sock_refs h)"
  using assms by (cases handle) (auto simp: dup_socket_def insert_absorb domIff split: option.splits)

text \<open>Duplicating copies the description, raises the count of its node by one, and leaves every node ready.\<close>

lemma fd_dup_spec:
  assumes "node_ready h (fd_node d)" "malloc_ok fd_bytes"
  shows "\<exists>h'. fd_dup malloc_ok d h = Some (d, h') \<and>
    refcount_of h' = (refcount_of h)(fd_node d := refcount_of h (fd_node d) + 1) \<and>
    (\<forall>n. node_ready h n \<longrightarrow> node_ready h' n)"
proof -
  let ?n = "fd_node d"
  obtain v objs where o: "nodes (objects h) ?n = Some v" "fd_dup_pipe ?n (objects h) = Some objs"
    "nodes objs = (nodes (objects h))(?n \<mapsto> v\<lparr>vn_refcount := vn_refcount v + 1\<rparr>)" "specs objs = specs (objects h)"
    "dom (pipes objs) = dom (pipes (objects h))"
    using fd_dup_pipe_spec [OF assms(1)] by blast
  let ?h = "h\<lparr>objects := objs\<rparr>"
  have "\<exists>h'. (if vn_type v AND file_socket \<noteq> 0 then dup_socket (vn_handle v) ?h else Some ?h) = Some h' \<and> objects h' = objs \<and>
      sock_info h' = sock_info h \<and> dom (sock_refs h') = dom (sock_refs h)"
    using dup_socket_spec [of "vn_handle v" ?h] assms(1) o(1) by (auto simp: node_ready_def)
  then obtain h' where h': "(if vn_type v AND file_socket \<noteq> 0 then dup_socket (vn_handle v) ?h else Some ?h) = Some h'"
    "objects h' = objs" "sock_info h' = sock_info h" "dom (sock_refs h') = dom (sock_refs h)" by blast
  have pipes_eq: "pipes objs p \<noteq> None \<longleftrightarrow> pipes (objects h) p \<noteq> None" for p using o(5) by (auto simp: domIff set_eq_iff)
  have refs_eq: "sock_refs h' i \<noteq> None \<longleftrightarrow> sock_refs h i \<noteq> None" for i using h'(4) by (auto simp: domIff set_eq_iff)
  have "fd_dup malloc_ok d h = Some (d, h')" using assms(2) o(2,3) h'(1) by (auto simp: fd_dup_def Let_def split: if_splits)
  moreover have "refcount_of h' = (refcount_of h)(?n := refcount_of h ?n + 1)"
    using o(1,3) h'(2) by (auto simp: refcount_of_def fun_eq_iff)
  moreover have "node_ready h' m" if "node_ready h m" for m
    using that o(1) unfolding node_ready_def h'(2,3) o(3,4) pipes_eq refs_eq by (cases "m = ?n") auto
  ultimately show ?thesis by blast
qed

definition uses :: "nat \<Rightarrow> fdt_t \<Rightarrow> nat" where
  "uses n t = length (filter (\<lambda>x. case x of None \<Rightarrow> False | Some d \<Rightarrow> fd_node d = n) t)"

lemma copy_slots_spec:
  assumes "\<And>d. Some d \<in> set t \<Longrightarrow> node_ready h (fd_node d)" "\<And>i. mem i fd_bytes"
  shows "\<exists>h'. copy_slots mem i t h = Some (t, h') \<and> (\<forall>n. refcount_of h' n = refcount_of h n + of_nat (uses n t))"
  using assms(1)
proof (induction t arbitrary: i h)
  case (Cons x t)
  show ?case
  proof (cases x)
    case None
    then show ?thesis using Cons.IH [of h "Suc i"] Cons.prems by (auto simp: uses_def)
  next
    case (Some d)
    then obtain h1 where h1: "fd_dup (mem i) d h = Some (d, h1)"
      "refcount_of h1 = (refcount_of h)(fd_node d := refcount_of h (fd_node d) + 1)" "\<And>n. node_ready h n \<Longrightarrow> node_ready h1 n"
      using fd_dup_spec [of h d "mem i"] Cons.prems assms(2) by auto
    obtain h2 where h2: "copy_slots mem (Suc i) t h1 = Some (t, h2)"
      "\<And>n. refcount_of h2 n = refcount_of h1 n + of_nat (uses n t)"
      using Cons.IH [of h1 "Suc i"] Cons.prems h1(3) by auto
    have "refcount_of h2 n = refcount_of h n + of_nat (uses n (x # t))" for n
      using h2(2) h1(2) Some by (auto simp: uses_def)
    then show ?thesis using h1(1) h2(1) Some by auto
  qed
qed (simp add: uses_def)

section \<open>System calls\<close>

lemma ensure_spec:
  assumes "length t < 2 ^ 30" "0 \<le> fd" "fd < 2 ^ 30" "\<And>n. malloc_ok n"
  obtains n where "ensure_fdt_capacity malloc_ok t fd = (0, t @ replicate n None)" "nat fd < length t + n" "length t + n < 2 ^ 31"
proof (cases "nat fd < length t")
  case True
  then show ?thesis using that [of 0] assms fd_index_cmp [of t fd] by (simp add: ensure_fdt_capacity_def not_le)
next
  case False
  define l where "l = fds_length t"
  have l: "unat l = length t" using fds_length_small [of t] assms by (simp add: l_def)
  have e: "unat (fd_index fd) = nat fd" using assms(2,3)
    by (simp add: fd_index_def unat_eq_nat_uint uint_word_of_int_eq take_bit_int_eq_self)
  define g where "g = (if l * FD_GROWTH_FACTOR = 0 then FD_INITIAL_CAPACITY else l * FD_GROWTH_FACTOR)"
  define m where "m = (if g \<le> fd_index fd then fd_index fd + 1 else g)"
  have g: "unat g < 2 ^ 31" using l assms(1) by (auto simp: g_def unat_word_ariths)
  have "unat (fd_index fd + 1) = nat fd + 1" using e assms(3) by (simp add: unat_word_ariths)
  then have m: "nat fd < unat m" "unat m < 2 ^ 31" using e g assms(3) by (auto simp: m_def word_le_nat_alt)
  then have d: "unat (m - l) = unat m - length t" using l False by (simp add: unat_sub word_le_nat_alt)
  have "ensure_fdt_capacity malloc_ok t fd = (0, t @ replicate (unat (m - l)) None)"
    using False fd_index_cmp [of t fd] assms by (simp add: ensure_fdt_capacity_def Let_def l_def g_def m_def)
  then show ?thesis using that d m False by auto
qed

lemma sys_dup2_spec:
  assumes "length t < 2 ^ 30" "0 \<le> fd" "fd < 2 ^ 30" "0 \<le> newfd" "newfd < 2 ^ 30" "fd \<noteq> newfd" "\<And>n. malloc_ok n"
    "slot t (nat fd) = Some d"
    and closed: "case slot t (nat newfd) of None \<Rightarrow> h1 = h | Some old \<Rightarrow> close_node (fd_node old) h = Some h1"
    and ready: "node_ready h1 (fd_node d)"
  shows "\<exists>t' h'. sys_dup2 malloc_ok close_node t fd newfd h = Some (newfd, t', h') \<and>
    slot t' = (slot t)(nat newfd \<mapsto> d\<lparr>fd_fd := newfd, fd_flags := fd_flags d AND NOT O_CLOEXEC\<rparr>) \<and>
    refcount_of h' = (refcount_of h1)(fd_node d := refcount_of h1 (fd_node d) + 1)"
proof -
  obtain n where n: "ensure_fdt_capacity malloc_ok t newfd = (0, t @ replicate n None)" "nat newfd < length t + n"
    using ensure_spec [of t newfd malloc_ok] assms by blast
  define t1 where "t1 = t @ replicate n None"
  have t1: "slot t1 = slot t" "nat newfd < length t1" using n(2) by (simp_all add: t1_def)
  obtain h' where h': "fd_dup malloc_ok d h1 = Some (d, h')"
    "refcount_of h' = (refcount_of h1)(fd_node d := refcount_of h1 (fd_node d) + 1)"
    using fd_dup_spec [OF ready] assms(7) by blast
  have old: "aget t1 (nat newfd) = Some (slot t (nat newfd))" using t1 by (metis aget_inside slot_def)
  have get: "get_fd t fd = Some (Some d)" using get_fd_spec [of t fd] assms by simp
  let ?d = "d\<lparr>fd_fd := newfd, fd_flags := fd_flags d AND NOT O_CLOEXEC\<rparr>"
  have "sys_dup2 malloc_ok close_node t fd newfd h = Some (newfd, t1[nat newfd := Some ?d], h')"
    using assms(4,6) get n(1) [folded t1_def] old closed h'(1) t1(2)
    by (cases "slot t (nat newfd)") (simp_all add: sys_dup2_def Let_def)
  then show ?thesis using slot_update [OF t1(2)] t1(1) h'(2) by auto
qed

section \<open>Properties\<close>

definition demo_fd :: "nat \<Rightarrow> fd_t" where
  "demo_fd n = \<lparr>fd_node = n, fd_offset = 0, fd_dir_last = None, fd_flags = O_CLOEXEC, fd_fd = 0\<rparr>"

definition demo_fd_heap :: fd_heap where
  "demo_fd_heap = \<lparr>objects = heap (pipe_started demo_names 0 demo_empty), sock_info = Map.empty, sock_refs = Map.empty\<rparr>"

lemma demo_fd_ready: "node_ready demo_fd_heap 4" "node_ready demo_fd_heap 5" "refcount_of demo_fd_heap 4 = 1"
  by (simp_all add: node_ready_def demo_fd_heap_def pipe_started_def pipe2_objects_def demo_names_def refcount_of_def)

text \<open>
  \<open>add_fd\<close> hands out the lowest free descriptor, growing a full table, and changes no other descriptor; \<open>get_fd\<close>
  answers with the new description, and without a fault for every \<open>int\<close>, negative ones included.
\<close>

theorem add_fd_lowest:
  assumes "length t < 2 ^ 30" "\<And>n. malloc_ok n"
  shows "\<exists>k t'. add_fd malloc_ok (Some t) d = Some (int k, Some t') \<and> (\<forall>j<k. slot t j \<noteq> None) \<and> slot t k = None \<and>
    (\<forall>fd. - (2 ^ 31) \<le> fd \<and> fd < 2 ^ 31 \<longrightarrow> get_fd t' fd = (if fd = int k then Some (Some d) else get_fd t fd))"
proof -
  obtain t' where t': "add_fd malloc_ok (Some t) d = Some (int (first_free t), Some t')" "slot t' = (slot t)(first_free t \<mapsto> d)"
    "t' = t[first_free t := Some d] \<or> length t' \<le> max 5 (2 * length t)"
    using add_fd_spec [OF assms(1), of malloc_ok d] assms(2) by blast
  have "length t' < 2 ^ 31" using t'(3) assms(1) by auto
  then have "get_fd t' fd = (if fd = int (first_free t) then Some (Some d) else get_fd t fd)"
    if "- (2 ^ 31) \<le> fd" "fd < 2 ^ 31" for fd
    using get_fd_spec [of t' fd] get_fd_spec [of t fd] that assms(1) t'(2) by auto
  then show ?thesis using t'(1) slot_below_first_free slot_first_free by blast
qed

theorem add_fd_lowest_witness:
  "\<exists>t'. add_fd (\<lambda>_. True) (Some [Some (demo_fd 4), None, Some (demo_fd 5)]) (demo_fd 7) = Some (1, Some t') \<and>
    get_fd t' 1 = Some (Some (demo_fd 7)) \<and> get_fd t' (-1) = Some None"
proof -
  let ?t = "[Some (demo_fd 4), None, Some (demo_fd 5)]"
  have "get_fd ?t (-1) = Some None" using get_fd_spec [of ?t "-1"] by simp
  moreover obtain k t' where k: "add_fd (\<lambda>_. True) (Some ?t) (demo_fd 7) = Some (int k, Some t')" "\<forall>j<k. slot ?t j \<noteq> None"
    "slot ?t k = None" and get: "\<forall>fd. - (2 ^ 31) \<le> fd \<and> fd < 2 ^ 31 \<longrightarrow>
      get_fd t' fd = (if fd = int k then Some (Some (demo_fd 7)) else get_fd ?t fd)"
    using add_fd_lowest [of ?t "\<lambda>_. True" "demo_fd 7"] by auto
  moreover have "k = 1"
  proof -
    have "slot ?t 1 = None" "slot ?t 0 \<noteq> None" by (simp_all add: slot_def)
    then show ?thesis using k(2,3) by (metis less_one linorder_neqE_nat)
  qed
  ultimately show ?thesis using get [rule_format, of 1] get [rule_format, of "-1"] by simp
qed

text \<open>
  After \<open>remove_fd\<close> the next \<open>add_fd\<close> reuses the freed descriptor or a lower free one, and two descriptors handed out in a
  row differ and keep their own descriptions.
\<close>

theorem fd_reuse:
  assumes "fdt_ok t" "slot t k \<noteq> None" "fd_remove t k = Some t1" "fd_add t1 d = Some (i, t2)" "fd_add t2 e = Some (j, t3)"
  shows "i \<le> k \<and> (i < k \<longrightarrow> slot t i = None) \<and> i \<noteq> j \<and> slot t3 i = Some d \<and> slot t3 j = Some e"
proof -
  have "fdt_ok t1" using fds.remove_law [OF assms(1,2)] assms(3) by auto
  then show ?thesis using fds.reuse_lowest [OF assms(1-4)] fds.adds_distinct [OF _ assms(4,5)] by blast
qed

theorem fd_reuse_witness:
  "\<exists>t1 t2 t3. fd_remove [Some (demo_fd 4), Some (demo_fd 5)] 0 = Some t1 \<and> fd_add t1 (demo_fd 7) = Some (0, t2) \<and>
    fd_add t2 (demo_fd 8) = Some (2, t3) \<and> slot t3 0 = Some (demo_fd 7)"
proof -
  let ?t = "[Some (demo_fd 4), Some (demo_fd 5)]"
  have r: "fd_remove ?t 0 = Some [None, Some (demo_fd 5)]"
    using remove_fd_spec [of ?t 0] by (simp add: fd_remove_def slot_def)
  have a: "fd_add [None, Some (demo_fd 5)] (demo_fd 7) = Some (0, [Some (demo_fd 7), Some (demo_fd 5)])"
    by (simp add: fd_add_def add_fd_def find_free_fd_def c_int_small)
  have two: "replicate 2 None = [None, None :: fd_t option]" by (simp add: numeral_2_eq_2)
  have b: "fd_add [Some (demo_fd 7), Some (demo_fd 5)] (demo_fd 8) =
      Some (2, [Some (demo_fd 7), Some (demo_fd 5), Some (demo_fd 8), None])"
    by (simp add: fd_add_def add_fd_def find_free_fd_def c_int_small expand_fds_table_def fds_length_def Let_def two)
  show ?thesis using fd_reuse [OF _ _ r a b] r a b by (simp add: fdt_ok_def slot_def)
qed

text \<open>
  \<open>copy_fdt\<close>, the table a forked process gets: every descriptor of the child has the parent's node, offset and flags,
  and the reference count of every node grows by the number of descriptors that name it.
\<close>

theorem copy_fdt_shares:
  assumes "\<And>d. Some d \<in> set t \<Longrightarrow> node_ready h (fd_node d)" "\<And>i n. mem i n" "\<And>n. malloc_ok n"
  shows "\<exists>h'. copy_fdt malloc_ok mem (Some t) h = Some (Some t, h') \<and>
    (\<forall>n. refcount_of h' n = refcount_of h n + of_nat (uses n t))"
  using copy_slots_spec [OF assms(1), of t mem 0] assms(2,3) by (auto simp: copy_fdt_def)

theorem copy_fdt_shares_witness:
  "\<exists>h'. copy_fdt (\<lambda>_. True) (\<lambda>_ _. True) (Some [Some (demo_fd 4), None, Some (demo_fd 5), Some (demo_fd 4)]) demo_fd_heap =
      Some (Some [Some (demo_fd 4), None, Some (demo_fd 5), Some (demo_fd 4)], h') \<and> refcount_of h' 4 = 3"
proof -
  let ?t = "[Some (demo_fd 4), None, Some (demo_fd 5), Some (demo_fd 4)]"
  have "node_ready demo_fd_heap (fd_node d)" if "Some d \<in> set ?t" for d
    using that demo_fd_ready by (auto simp: demo_fd_def)
  then obtain h' where "copy_fdt (\<lambda>_. True) (\<lambda>_ _. True) (Some ?t) demo_fd_heap = Some (Some ?t, h')"
    "\<forall>n. refcount_of h' n = refcount_of demo_fd_heap n + of_nat (uses n ?t)"
    using copy_fdt_shares [of ?t demo_fd_heap "\<lambda>_ _. True" "\<lambda>_. True"] by blast
  moreover have "uses 4 ?t = 2" by (simp add: uses_def demo_fd_def)
  ultimately show ?thesis using demo_fd_ready(3) by simp
qed

text \<open>
  \<open>dup2\<close> makes the new descriptor name the old one's node, with the close-on-exec flag cleared and the node's count one
  higher, after closing what the new descriptor named before; the table grows as far as needed and no other descriptor
  changes.
\<close>

theorem dup2_redirects:
  assumes "length t < 2 ^ 30" "0 \<le> fd" "fd < 2 ^ 30" "0 \<le> newfd" "newfd < 2 ^ 30" "fd \<noteq> newfd" "\<And>n. malloc_ok n"
    "slot t (nat fd) = Some d"
    "case slot t (nat newfd) of None \<Rightarrow> h1 = h | Some old \<Rightarrow> close_node (fd_node old) h = Some h1"
    "node_ready h1 (fd_node d)"
  shows "\<exists>t' h'. sys_dup2 malloc_ok close_node t fd newfd h = Some (newfd, t', h') \<and>
    slot t' = (slot t)(nat newfd \<mapsto> d\<lparr>fd_fd := newfd, fd_flags := fd_flags d AND NOT O_CLOEXEC\<rparr>) \<and>
    refcount_of h' = (refcount_of h1)(fd_node d := refcount_of h1 (fd_node d) + 1)"
  by (rule sys_dup2_spec) (use assms in blast)+

theorem dup2_redirects_witness:
  "\<exists>t' h'. sys_dup2 (\<lambda>_. True) (\<lambda>_ h. Some h) [Some (demo_fd 4)] 0 9 demo_fd_heap = Some (9, t', h') \<and>
    slot t' 9 = Some ((demo_fd 4)\<lparr>fd_fd := 9, fd_flags := 0\<rparr>) \<and> refcount_of h' 4 = 2"
proof -
  let ?d = "(demo_fd 4)\<lparr>fd_fd := 9, fd_flags := fd_flags (demo_fd 4) AND NOT O_CLOEXEC\<rparr>"
  have "slot [Some (demo_fd 4)] (nat 0) = Some (demo_fd 4)" "slot [Some (demo_fd 4)] (nat 9) = None" by (simp_all add: slot_def)
  moreover have "fd_node (demo_fd 4) = 4" by (simp add: demo_fd_def)
  ultimately obtain t' h' where "sys_dup2 (\<lambda>_. True) (\<lambda>_ h. Some h) [Some (demo_fd 4)] 0 9 demo_fd_heap = Some (9, t', h')"
    "slot t' = (slot [Some (demo_fd 4)])(nat 9 \<mapsto> ?d)"
    "refcount_of h' = (refcount_of demo_fd_heap)(4 := refcount_of demo_fd_heap 4 + 1)"
    using dup2_redirects [of "[Some (demo_fd 4)]" 0 9 "\<lambda>_. True" "demo_fd 4" demo_fd_heap demo_fd_heap "\<lambda>_ h. Some h"]
      demo_fd_ready(1) by auto
  moreover have "?d = (demo_fd 4)\<lparr>fd_fd := 9, fd_flags := 0\<rparr>" by (simp add: demo_fd_def)
  ultimately show ?thesis using demo_fd_ready(3) by simp
qed

end
