(* ===== verification/Memsys.thy ===== *)
theory Memsys
  imports Vma Lazy_Alloc Fds
begin

text \<open>
  User memory, \<^verbatim>\<open>src/src/mem/memsys.c\<close> in the x86-64 configuration: the checks on user pointers and the system calls
  that change the areas of a process.  The state is the area manager of the process, its queue of reserved ranges and
  \<open>mm_op_lock\<close>; taking that lock while it is held is the deadlock \<^const>\<open>None\<close>.  \<open>arch_virt_to_phys\<close>, the walk of the
  loaded page tables, is the argument \<open>translate\<close>; \<open>vfs_map\<close>, which calls into the file system of the node, is an
  argument too.  Writes to the page tables are appended to \<open>mm_effects\<close> in the order the code makes them.  \<open>mm_memory\<close>
  holds the answers of the allocator.  The loops that advance an address are \<open>partial_function\<close>s: not returning is
  \<^const>\<open>None\<close> as well.
\<close>

section \<open>Definitions\<close>

abbreviation KERNEL_AREA_MEM :: u64 where "KERNEL_AREA_MEM \<equiv> 0xf000000000000000"
abbreviation USER_MMAP_START :: u64 where "USER_MMAP_START \<equiv> 0x0000400000000000"
abbreviation VMA_READ :: u64 where "VMA_READ \<equiv> 1"
abbreviation VMA_WRITE :: u64 where "VMA_WRITE \<equiv> 2"
abbreviation VMA_EXEC :: u64 where "VMA_EXEC \<equiv> 4"
abbreviation VMA_SHARED :: u64 where "VMA_SHARED \<equiv> 8"
abbreviation VMA_ANON :: u64 where "VMA_ANON \<equiv> 0x10"
abbreviation PROT_NONE :: u64 where "PROT_NONE \<equiv> 0"
abbreviation PROT_READ :: u64 where "PROT_READ \<equiv> 1"
abbreviation PROT_WRITE :: u64 where "PROT_WRITE \<equiv> 2"
abbreviation PROT_EXEC :: u64 where "PROT_EXEC \<equiv> 4"
abbreviation MAP_SHARED :: u64 where "MAP_SHARED \<equiv> 1"
abbreviation MAP_ANONYMOUS :: u64 where "MAP_ANONYMOUS \<equiv> 0x20"
abbreviation MREMAP_MAYMOVE :: u64 where "MREMAP_MAYMOVE \<equiv> 1"
abbreviation EBADF :: u64 where "EBADF \<equiv> 9"
abbreviation ENOMEM :: u64 where "ENOMEM \<equiv> 12"
abbreviation EFAULT :: u64 where "EFAULT \<equiv> 14"
abbreviation EINVAL :: u64 where "EINVAL \<equiv> 22"

datatype mm_effect =
  Lazy lazy_effect
  | Vfs_map nat u64 u64 u64 u64 u64
  | Unmap_range u64 u64
  | Map_range u64 u64 u64 u64
  | Map_new_page u64 u64
  | Change_attribute u64 u64 u64

record mm_state =
  mm_mgr :: vma_manager_t
  mm_queue :: virt_queue
  mm_effects :: "mm_effect list"
  mm_op_locked :: bool

record mm_memory =
  split_ok :: "nat \<Rightarrow> nat \<Rightarrow> bool"
  queue_ok :: "nat \<Rightarrow> nat \<Rightarrow> bool"
  area_ok :: "nat \<Rightarrow> bool"
  range_mem_ok :: bool
  node_mem_ok :: bool

definition log_effects :: "mm_state \<Rightarrow> mm_effect list \<Rightarrow> mm_state" where
  "log_effects st es = st\<lparr>mm_effects := mm_effects st @ es\<rparr>"

definition check_user_overflow :: "u64 \<Rightarrow> u64 \<Rightarrow> bool" where
  "check_user_overflow addr sz \<longleftrightarrow> addr + sz > KERNEL_AREA_MEM"

definition mm_x86_64_pt_flags_from_prot :: "u64 \<Rightarrow> u64" where
  "mm_x86_64_pt_flags_from_prot prot =
     (let pt_flags = 4;
          pt_flags = (if prot \<noteq> PROT_NONE then pt_flags OR 1 else pt_flags);
          pt_flags = (if prot AND PROT_WRITE \<noteq> 0 then pt_flags OR 2 else pt_flags)
      in if prot AND PROT_EXEC = 0 then pt_flags OR push_bit 63 1 else pt_flags)"

text \<open>The loop over the pages of a user range; the list is the chain of the current process.\<close>

partial_function (option) validate_loop ::
  "(u64 \<Rightarrow> u64) \<Rightarrow> vma_manager_t \<Rightarrow> u64 \<Rightarrow> u64 \<Rightarrow> u64 \<Rightarrow> bool option" where
  "validate_loop translate mgr required_flags stop cursor =
     (if cursor < stop then
        let page_end = min stop (PADDING_UP (cursor + 1) PAGE_SIZE) in
        case vma_find mgr cursor of
          None \<Rightarrow> Some False
        | Some i \<Rightarrow>
            if vm_flags (vma_list mgr ! i) AND required_flags \<noteq> required_flags then Some False
            else if translate cursor = 0 then Some False
            else validate_loop translate mgr required_flags stop page_end
      else Some True)"

definition validate_user_range :: "(u64 \<Rightarrow> u64) \<Rightarrow> vma_manager_t option \<Rightarrow> u64 \<Rightarrow> u64 \<Rightarrow> u64 \<Rightarrow> bool option" where
  "validate_user_range translate current addr sz required_flags =
     (if check_user_overflow addr sz then Some False
      else case current of
        None \<Rightarrow> Some False
      | Some mgr \<Rightarrow> validate_loop translate mgr required_flags (addr + sz) addr)"

partial_function (option) unmapped_loop :: "(u64 \<Rightarrow> u64) \<Rightarrow> vma_manager_t \<Rightarrow> u64 \<Rightarrow> u64 \<Rightarrow> bool option" where
  "unmapped_loop translate mgr stop cursor =
     (if cursor < stop then
        let chunk_end = min stop (PADDING_UP (cursor + 1) PAGE_SIZE) in
        if translate cursor \<noteq> 0 then unmapped_loop translate mgr stop chunk_end
        else case vma_find mgr cursor of
          None \<Rightarrow> Some True
        | Some i \<Rightarrow> unmapped_loop translate mgr stop (min stop (vm_end (vma_list mgr ! i)))
      else Some False)"

definition check_unmapped :: "(u64 \<Rightarrow> u64) \<Rightarrow> vma_manager_t option \<Rightarrow> u64 \<Rightarrow> u64 \<Rightarrow> bool option" where
  "check_unmapped translate current addr len =
     (if len = 0 then Some False
      else case current of
        None \<Rightarrow> Some True
      | Some mgr \<Rightarrow>
          if check_user_overflow addr len then Some True else unmapped_loop translate mgr (addr + len) addr)"

text \<open>Memory is a function from virtual addresses to bytes; \<open>memcpy\<close> reads or writes \<open>sz\<close> of them.\<close>

definition memory_write :: "(u64 \<Rightarrow> u8) \<Rightarrow> u64 \<Rightarrow> u8 list \<Rightarrow> u64 \<Rightarrow> u8" where
  "memory_write mem dst bytes = (\<lambda>a. if unat (a - dst) < length bytes then bytes ! unat (a - dst) else mem a)"

definition copy_from_user ::
  "(u64 \<Rightarrow> u64) \<Rightarrow> vma_manager_t option \<Rightarrow> (u64 \<Rightarrow> u8) \<Rightarrow> u64 \<Rightarrow> u64 \<Rightarrow> (bool \<times> u8 list) option" where
  "copy_from_user translate current mem src sz =
     (if sz = 0 then Some (True, [])
      else do {
        valid \<leftarrow> validate_user_range translate current src sz VMA_READ;
        if \<not> valid then Some (False, [])
        else Some (True, map (\<lambda>i. mem (src + of_nat i)) [0..<unat sz])
      })"

definition copy_to_user ::
  "(u64 \<Rightarrow> u64) \<Rightarrow> vma_manager_t option \<Rightarrow> (u64 \<Rightarrow> u8) \<Rightarrow> u64 \<Rightarrow> u8 list \<Rightarrow> (bool \<times> (u64 \<Rightarrow> u8)) option" where
  "copy_to_user translate current mem dst src =
     (let sz = of_nat (length src) in
      if sz = 0 then Some (True, mem)
      else do {
        valid \<leftarrow> validate_user_range translate current dst sz VMA_WRITE;
        if \<not> valid then Some (False, mem) else Some (True, memory_write mem dst src)
      })"

text \<open>
  The search for a free address; the code raises \<open>start_addr\<close> and then compares it with \<open>KERNEL_AREA_MEM\<close>.  The second
  disjunct says the same of the address before the step: the search starts at \<open>USER_MMAP_START\<close>, so it never holds in a run of
  \<open>mmap\<close>, and it makes the recursion well-founded for every argument.
\<close>

function find_gap :: "vma_manager_t \<Rightarrow> u64 \<Rightarrow> u64 \<Rightarrow> u64 option" where
  "find_gap mgr len start_addr =
     (if vma_find_intersection mgr start_addr (start_addr + len) \<noteq> None then
        if start_addr + PAGE_SIZE > KERNEL_AREA_MEM \<or> start_addr > KERNEL_AREA_MEM then None
        else find_gap mgr len (start_addr + PAGE_SIZE)
      else Some start_addr)"
  by pat_completeness auto
termination
proof (relation "measure (\<lambda>(mgr, len, a). 2 ^ 64 - unat a)")
  fix mgr :: vma_manager_t and len a :: u64
  assume "\<not> (a + PAGE_SIZE > KERNEL_AREA_MEM \<or> a > KERNEL_AREA_MEM)"
  then have "unat a \<le> unat KERNEL_AREA_MEM" by (simp add: word_le_nat_alt not_less)
  then have "unat a + 4096 < 2 ^ 64" by simp
  then have "unat (a + PAGE_SIZE) = unat a + 4096" using unat_add_no_wrap [of a PAGE_SIZE] by simp
  then show "((mgr, len, a + PAGE_SIZE), mgr, len, a) \<in> measure (\<lambda>(mgr, len, a). 2 ^ 64 - unat a)"
    using \<open>unat a + 4096 < 2 ^ 64\<close> by simp
qed simp

declare find_gap.simps [simp del]

subsection \<open>mmap and munmap\<close>

definition page_down :: "u64 \<Rightarrow> u64" where
  "page_down a = a AND NOT (PAGE_SIZE - 1)"

definition page_up :: "u64 \<Rightarrow> u64" where
  "page_up a = (a + PAGE_SIZE - 1) AND NOT (PAGE_SIZE - 1)"

text \<open>Where \<open>mmap\<close> puts the new area: the error it returns, or the address and the manager after \<open>vma_unmap_range\<close>.\<close>

definition mmap_place ::
  "mm_memory \<Rightarrow> vma_manager_t \<Rightarrow> u64 \<Rightarrow> u64 \<Rightarrow> u64 \<Rightarrow> (u64 + u64 \<times> vma_manager_t) option" where
  "mmap_place mem mgr addr aligned_len flags =
     (if flags AND MAP_FIXED \<noteq> 0 then
        if addr = 0 then Some (Inl (- EINVAL))
        else if vma_find_intersection mgr addr (addr + aligned_len) \<noteq> None then do {
          (_, mgr) \<leftarrow> vma_unmap_range (split_ok mem) mgr addr (addr + aligned_len);
          Some (Inr (addr, mgr))
        }
        else Some (Inr (addr, mgr))
      else if addr \<noteq> 0 then
        if vma_find_intersection mgr addr (addr + aligned_len) \<noteq> None then Some (Inl (- ENOMEM))
        else Some (Inr (addr, mgr))
      else case find_gap mgr aligned_len USER_MMAP_START of
          None \<Rightarrow> Some (Inl (- ENOMEM))
        | Some start_addr \<Rightarrow> Some (Inr (start_addr, mgr)))"

definition prot_flags :: "u64 \<Rightarrow> u64" where
  "prot_flags prot =
     (let f = 0;
          f = (if prot AND PROT_READ \<noteq> 0 then f OR VMA_READ else f);
          f = (if prot AND PROT_WRITE \<noteq> 0 then f OR VMA_WRITE else f)
      in if prot AND PROT_EXEC \<noteq> 0 then f OR VMA_EXEC else f)"

definition mmap_area :: "vma_t \<Rightarrow> u64 \<Rightarrow> u64 \<Rightarrow> u64 \<Rightarrow> u64 \<Rightarrow> int \<Rightarrow> u64 \<Rightarrow> vma_t" where
  "mmap_area vma start_addr aligned_len prot flags fd offset =
     (let f = prot_flags prot;
          f = (if flags AND MAP_SHARED \<noteq> 0 then f OR VMA_SHARED else f);
          vma = vma\<lparr>vm_start := start_addr, vm_end := start_addr + aligned_len, vm_flags := f\<rparr>
      in if flags AND MAP_ANONYMOUS \<noteq> 0
         then vma\<lparr>vm_type := VMA_TYPE_ANON, vm_flags := f OR VMA_ANON, vm_fd := -1\<rparr>
         else vma\<lparr>vm_type := VMA_TYPE_FILE, vm_fd := fd, vm_offset := offset\<rparr>)"

text \<open>The part of \<open>mmap\<close> that runs under \<open>mm_op_lock\<close>.  The two \<open>ENOMEM\<close> returns leave it locked.\<close>

definition mmap_locked ::
  "mm_memory \<Rightarrow> (nat \<Rightarrow> u64 \<Rightarrow> u64 \<Rightarrow> u64 \<Rightarrow> u64 \<Rightarrow> u64 \<Rightarrow> u64) \<Rightarrow> fdt_t \<Rightarrow> u64 \<Rightarrow> u64 \<Rightarrow> u64 \<Rightarrow> u64 \<Rightarrow> int \<Rightarrow> u64 \<Rightarrow>
   mm_state \<Rightarrow> (u64 \<times> mm_state) option" where
  "mmap_locked mem vfs_map fdts start_addr aligned_len prot flags fd offset st =
     (if mm_op_locked st then None
      else let st = st\<lparr>mm_op_locked := True\<rparr> in
      case vma_alloc (area_ok mem) of
        None \<Rightarrow> Some (- ENOMEM, st)
      | Some vma \<Rightarrow> do {
          let vma = mmap_area vma start_addr aligned_len prot flags fd offset;
          mgr \<leftarrow> (case vma_find_intersection (mm_mgr st) start_addr (start_addr + aligned_len) of
             None \<Rightarrow> Some (mm_mgr st)
           | Some region \<Rightarrow> map_option snd (vma_remove (mm_mgr st) (Some region)));
          (case vma_insert mgr (Some vma) of (r, mgr) \<Rightarrow>
             let st = st\<lparr>mm_mgr := mgr\<rparr> in
             if r \<noteq> 0 then Some (- ENOMEM, st)
             else if flags AND MAP_ANONYMOUS = 0 then do {
               file \<leftarrow> get_fd fdts fd;
               file \<leftarrow> file;
               let st = log_effects st [Vfs_map (fd_node file) start_addr aligned_len prot flags offset];
               Some (vfs_map (fd_node file) start_addr aligned_len prot flags offset, st\<lparr>mm_op_locked := False\<rparr>)
             }
             else if prot = PROT_NONE then Some (start_addr, st\<lparr>mm_op_locked := False\<rparr>)
             else do {
               (queue, es) \<leftarrow> lazy_infoalloc (queue_ok mem) (range_mem_ok mem) (node_mem_ok mem) (mm_queue st)
                 start_addr aligned_len (mm_x86_64_pt_flags_from_prot prot) flags;
               Some (start_addr, (log_effects st (map Lazy es))\<lparr>mm_queue := queue, mm_op_locked := False\<rparr>)
             })
        })"

definition sys_mmap ::
  "mm_memory \<Rightarrow> (nat \<Rightarrow> u64 \<Rightarrow> u64 \<Rightarrow> u64 \<Rightarrow> u64 \<Rightarrow> u64 \<Rightarrow> u64) \<Rightarrow> fdt_t \<Rightarrow> u64 \<Rightarrow> u64 \<Rightarrow> u64 \<Rightarrow> u64 \<Rightarrow> int \<Rightarrow> u64 \<Rightarrow>
   mm_state \<Rightarrow> (u64 \<times> mm_state) option" where
  "sys_mmap mem vfs_map fdts addr len prot flags fd offset st =
     (let addr = page_down addr; aligned_len = page_up len in
      if check_user_overflow addr aligned_len then Some (- EFAULT, st)
      else if aligned_len = 0 then Some (- EINVAL, st)
      else do {
        place \<leftarrow> mmap_place mem (mm_mgr st) addr aligned_len flags;
        (case place of
           Inl err \<Rightarrow> Some (err, st)
         | Inr (start_addr, mgr) \<Rightarrow> do {
             let st = st\<lparr>mm_mgr := mgr\<rparr>;
             bad \<leftarrow> (if flags AND MAP_ANONYMOUS = 0 then map_option (\<lambda>f. f = None) (get_fd fdts fd) else Some False);
             if bad then Some (- EBADF, st)
             else mmap_locked mem vfs_map fdts start_addr aligned_len prot flags fd offset st
           })
      })"

text \<open>
  The loop of \<open>munmap\<close>.  It differs from \<open>vma_unmap_range\<close>: a truncated area does not lower \<open>vm_used\<close>, and the file offset is
  adjusted after \<open>vm_start\<close> was set to \<open>end\<close>, hence by \<open>end - end\<close>.
\<close>

primrec munmap_loop ::
  "(nat \<Rightarrow> nat \<Rightarrow> bool) \<Rightarrow> nat \<Rightarrow> u64 \<Rightarrow> u64 \<Rightarrow> vma_t list \<Rightarrow> u64 \<Rightarrow> (vma_t list \<times> u64) option" where
  "munmap_loop mem n start stop [] used = Some ([], used)"
| "munmap_loop mem n start stop (vma # vmas) used =
     (if vm_start vma \<ge> start \<and> vm_end vma \<le> stop then
        munmap_loop mem n start stop vmas (used - (vm_end vma - vm_start vma))
      else if \<not> (vm_end vma \<le> start \<or> vm_start vma \<ge> stop) then
        if vm_start vma < start \<and> vm_end vma > stop then do {
          (kept, bytes) \<leftarrow> unmap_spanning (mem n) (mem (n + 1)) start stop vma (vmas \<noteq> []);
          (rest, used) \<leftarrow> munmap_loop mem (n + 2) start stop vmas (used - bytes);
          Some (kept @ rest, used)
        }
        else if vm_start vma < start then
          map_option (map_prod ((#) (vma\<lparr>vm_end := start\<rparr>)) id) (munmap_loop mem n start stop vmas used)
        else if vm_end vma > stop then
          let vma = vma\<lparr>vm_start := stop\<rparr>;
              vma = (if vm_type vma = VMA_TYPE_FILE then vma\<lparr>vm_offset := vm_offset vma + (stop - vm_start vma)\<rparr> else vma)
          in map_option (map_prod ((#) vma) id) (munmap_loop mem n start stop vmas used)
        else map_option (map_prod ((#) vma) id) (munmap_loop mem n start stop vmas used)
      else map_option (map_prod ((#) vma) id) (munmap_loop mem n start stop vmas used))"

definition sys_munmap :: "mm_memory \<Rightarrow> u64 \<Rightarrow> u64 \<Rightarrow> mm_state \<Rightarrow> (u64 \<times> mm_state) option" where
  "sys_munmap mem addr sz st =
     (if sz = 0 then Some (0, st)
      else let addr = page_down addr; sz = page_up sz in
      if check_user_overflow addr sz then Some (- EFAULT, st)
      else do {
        let mgr = mm_mgr st;
        (vmas, used) \<leftarrow> munmap_loop (split_ok mem) 0 addr (addr + sz) (vma_list mgr) (vm_used mgr);
        queue \<leftarrow> unmap_virtual_page (queue_ok mem) (mm_queue st) addr sz;
        Some (0, log_effects (st\<lparr>mm_mgr := mgr\<lparr>vma_list := vmas, vm_used := used\<rparr>, mm_queue := queue\<rparr>) [Unmap_range addr sz])
      })"

subsection \<open>mremap\<close>

text \<open>
  \<open>set_end\<close> and \<open>page_map_range\<close> work on the area found.  The name of a moved area is copied here; the code copies the
  pointer.
\<close>

definition set_vm_end :: "vma_manager_t \<Rightarrow> nat \<Rightarrow> u64 \<Rightarrow> vma_manager_t" where
  "set_vm_end mgr i e = mgr\<lparr>vma_list := (vma_list mgr)[i := (vma_list mgr ! i)\<lparr>vm_end := e\<rparr>]\<rparr>"

definition mremap_pt_flags :: "u64 \<Rightarrow> u64" where
  "mremap_pt_flags vflags =
     (let f = 4 OR 1 OR 2;
          f = (if vflags AND VMA_READ \<noteq> 0 then f OR 1 else f);
          f = (if vflags AND VMA_WRITE \<noteq> 0 then f OR 2 else f)
      in if vflags AND VMA_EXEC = 0 then f OR push_bit 63 1 else f)"

definition mremap_move ::
  "mm_memory \<Rightarrow> u64 \<Rightarrow> vma_t \<Rightarrow> u64 \<Rightarrow> u64 \<Rightarrow> u64 \<Rightarrow> mm_state \<Rightarrow> (u64 \<times> mm_state) option" where
  "mremap_move mem old_addr_phys vma old_addr old_size new_size st =
     (case find_gap (mm_mgr st) new_size USER_MMAP_START of
        None \<Rightarrow> Some (- ENOMEM, st)
      | Some start_addr \<Rightarrow>
          (case vma_alloc (area_ok mem) of
             None \<Rightarrow> Some (- ENOMEM, st)
           | Some _ \<Rightarrow>
               let new_vma = vma\<lparr>vm_start := start_addr, vm_end := start_addr + new_size, vm_flags := 0\<rparr> in
               case vma_insert (mm_mgr st) (Some new_vma) of (r, mgr) \<Rightarrow>
                 let st = st\<lparr>mm_mgr := mgr\<rparr> in
                 if r \<noteq> 0 then Some (- ENOMEM, st)
                 else do {
                   let st = log_effects st [Map_range start_addr old_addr_phys new_size (mremap_pt_flags (vm_flags new_vma))];
                   (_, st) \<leftarrow> sys_munmap mem old_addr old_size st;
                   Some (start_addr, st)
                 }))"

definition sys_mremap ::
  "mm_memory \<Rightarrow> (u64 \<Rightarrow> u64) \<Rightarrow> u64 \<Rightarrow> u64 \<Rightarrow> u64 \<Rightarrow> u64 \<Rightarrow> u64 \<Rightarrow> mm_state \<Rightarrow> (u64 \<times> mm_state) option" where
  "sys_mremap mem translate old_addr old_size new_size flags new_addr st =
     (let old_addr = page_down old_addr; old_size = page_up old_size; new_size = page_up new_size; mgr = mm_mgr st in
      case vma_find mgr old_addr of
        None \<Rightarrow> Some (- EINVAL, st)
      | Some i \<Rightarrow>
          let vma = vma_list mgr ! i in
          if vm_start vma \<noteq> old_addr then Some (- EINVAL, st)
          else if new_size \<le> vm_end vma - vm_start vma then
            Some (old_addr, (log_effects st [Unmap_range (vm_end vma) (vm_start vma + new_size - vm_end vma)])
              \<lparr>mm_mgr := set_vm_end mgr i (vm_start vma + new_size)\<rparr>)
          else
            let new_end = vm_start vma + new_size in
            if vma_find_intersection mgr (vm_end vma) new_end = None then
              Some (old_addr, (log_effects st [Map_range (vm_end vma) (translate old_addr + vm_end vma - vm_start vma)
                  (new_end - vm_end vma) (vm_flags vma)])\<lparr>mm_mgr := set_vm_end mgr i new_end\<rparr>)
            else if flags AND MREMAP_MAYMOVE \<noteq> 0 then mremap_move mem (translate old_addr) vma old_addr old_size new_size st
            else Some (- ENOMEM, st))"

subsection \<open>mprotect\<close>

text \<open>
  The pages of the range that are not present get a frame or their file page; \<open>Inl\<close> is an early return.  The \<open>for\<close> loop runs
  \<open>length / PAGE_SIZE\<close> times, or not at all when \<open>addr + length\<close> wraps.
\<close>

primrec populate ::
  "(nat \<Rightarrow> u64 \<Rightarrow> u64 \<Rightarrow> u64 \<Rightarrow> u64 \<Rightarrow> u64 \<Rightarrow> u64) \<Rightarrow> (u64 \<Rightarrow> u64) \<Rightarrow> fdt_t \<Rightarrow> nat \<Rightarrow> u64 \<Rightarrow> u64 \<Rightarrow> u64 \<Rightarrow> u64 \<Rightarrow> mm_state \<Rightarrow>
   ((u64 \<times> mm_state) + mm_state) option" where
  "populate vfs_map translate fdts 0 a stop prot pt_flags st = Some (Inr st)"
| "populate vfs_map translate fdts (Suc n) a stop prot pt_flags st =
     (if \<not> a < stop then Some (Inr st)
      else if translate a \<noteq> 0 then populate vfs_map translate fdts n (a + PAGE_SIZE) stop prot pt_flags st
      else
        let area = map_option (\<lambda>i. vma_list (mm_mgr st) ! i) (vma_find (mm_mgr st) a);
            anonymous = populate vfs_map translate fdts n (a + PAGE_SIZE) stop prot pt_flags (log_effects st [Map_new_page a pt_flags])
        in case area of
             None \<Rightarrow> anonymous
           | Some vma \<Rightarrow>
               if vm_type vma = VMA_TYPE_FILE \<and> vm_fd vma \<ge> 0 then do {
                 file \<leftarrow> get_fd fdts (vm_fd vma);
                 (case file of
                    None \<Rightarrow> Some (Inl (- EBADF, st))
                  | Some file \<Rightarrow>
                      let page_base = page_down a;
                          file_offset = vm_offset vma + (page_base - vm_start vma);
                          st = log_effects st [Vfs_map (fd_node file) page_base PAGE_SIZE prot MAP_FIXED file_offset];
                          ret = vfs_map (fd_node file) page_base PAGE_SIZE prot MAP_FIXED file_offset
                      in if sint ret < 0 then Some (Inl (ret, st))
                         else populate vfs_map translate fdts n (a + PAGE_SIZE) stop prot pt_flags st)
               }
               else anonymous)"

text \<open>How often the splitting walk can still cut: its termination measure.\<close>

definition straddles :: "u64 \<Rightarrow> vma_t \<Rightarrow> bool" where
  "straddles p v \<longleftrightarrow> vm_start v < p \<and> p < vm_end v"

definition cuts_left :: "u64 \<Rightarrow> u64 \<Rightarrow> vma_t list \<Rightarrow> nat" where
  "cuts_left lo hi vs = sum_list (map (\<lambda>v. 1 + of_bool (straddles lo v) + of_bool (straddles hi v)) vs)"

lemma vma_split_None: "vma_split mem v p = Some (v', None) \<Longrightarrow> v' = v"
  by (auto simp: vma_split_def Let_def split: if_splits option.splits bind_splits)

lemma vma_split_Some:
  assumes "vma_split mem v p = Some (v', Some w)"
  shows "straddles p v" "v' = v\<lparr>vm_end := p\<rparr>" "vm_start w = p" "vm_end w = vm_end v"
  using assms by (auto simp: vma_split_def Let_def straddles_def not_le split: if_splits option.splits bind_splits)

definition opt_cons :: "'a option \<Rightarrow> 'a list \<Rightarrow> 'a list" where
  "opt_cons x xs = (case x of None \<Rightarrow> xs | Some y \<Rightarrow> y # xs)"

lemma straddles_pieces:
  assumes "straddles p v" "v' = v\<lparr>vm_end := p\<rparr>" "vm_start w = p" "vm_end w = vm_end v"
  shows "of_bool (straddles q v') + of_bool (straddles q w) \<le> (of_bool (straddles q v) :: nat)"
    "\<not> straddles p v'" "\<not> straddles p w"
proof -
  have "straddles q v' \<Longrightarrow> straddles q v" "straddles q w \<Longrightarrow> straddles q v" "\<not> (straddles q v' \<and> straddles q w)"
    using assms unfolding straddles_def by auto
  then show "of_bool (straddles q v') + of_bool (straddles q w) \<le> (of_bool (straddles q v) :: nat)" by auto
qed (use assms in \<open>auto simp: straddles_def\<close>)

lemma cuts_split:
  assumes "vma_split mem v p = Some (v', w)" "p = lo \<or> p = hi"
  shows "cuts_left lo hi (v' # opt_cons w []) \<le> cuts_left lo hi [v]"
    "w \<noteq> None \<Longrightarrow> cuts_left lo hi (opt_cons w []) < cuts_left lo hi [v]"
proof -
  have "cuts_left lo hi (v' # opt_cons w []) \<le> cuts_left lo hi [v] \<and>
    (w \<noteq> None \<longrightarrow> cuts_left lo hi (opt_cons w []) < cuts_left lo hi [v])"
  proof (cases w)
    case None
    then show ?thesis using vma_split_None assms(1) by (auto simp: opt_cons_def cuts_left_def)
  next
    case (Some x)
    note sp = vma_split_Some [OF assms(1) [unfolded Some]]
    note pieces = straddles_pieces [OF sp]
    have "of_bool (straddles lo v) + of_bool (straddles hi v) \<ge>
        1 + (of_bool (straddles lo v') + of_bool (straddles lo x) + (of_bool (straddles hi v') + of_bool (straddles hi x)) :: nat)"
      using assms(2) pieces(1) [of lo] pieces(1) [of hi] pieces(2,3) sp(1)
      by (auto simp: of_bool_def split: if_splits)
    then show ?thesis using Some by (simp add: opt_cons_def cuts_left_def)
  qed
  then show "cuts_left lo hi (v' # opt_cons w []) \<le> cuts_left lo hi [v]"
    "w \<noteq> None \<Longrightarrow> cuts_left lo hi (opt_cons w []) < cuts_left lo hi [v]" by auto
qed

lemma cuts_Cons: "cuts_left lo hi (v # vs) = cuts_left lo hi [v] + cuts_left lo hi vs" "0 < cuts_left lo hi [v]"
  by (simp_all add: cuts_left_def)

lemma cuts_opt_cons: "cuts_left lo hi (opt_cons w vs) = cuts_left lo hi (opt_cons w []) + cuts_left lo hi vs"
  by (cases w) (simp_all add: opt_cons_def cuts_left_def)

lemma cuts_first:
  assumes "(if vm_start vma < addr \<and> vm_end vma > addr then vma_split mem vma addr else Some (vma, None)) = Some (vma', upper)"
  shows "cuts_left addr stop (opt_cons upper vmas) < cuts_left addr stop (vma # vmas)"
proof (cases upper)
  case None
  then show ?thesis using cuts_Cons(1) [of addr stop vma vmas] cuts_Cons(2) [of addr stop vma] by (simp add: opt_cons_def)
next
  case (Some u)
  then have "vma_split mem vma addr = Some (vma', upper)" using assms by (simp split: if_splits)
  from cuts_split(2) [OF this, of addr stop] Some show ?thesis
    unfolding cuts_opt_cons [of addr stop upper vmas] cuts_Cons(1) [of addr stop vma vmas] by simp
qed

lemma cuts_second:
  assumes "vmas \<noteq> []" "vma_split mem (hd vmas) stop = Some (nxt, beyond)"
  shows "cuts_left addr stop (nxt # opt_cons beyond (tl vmas)) \<le> cuts_left addr stop vmas"
proof -
  have "cuts_left addr stop (nxt # opt_cons beyond []) \<le> cuts_left addr stop [hd vmas]"
    using cuts_split(1) [OF assms(2)] by blast
  moreover have "cuts_left addr stop vmas = cuts_left addr stop [hd vmas] + cuts_left addr stop (tl vmas)"
    using assms(1) cuts_Cons(1) [of addr stop "hd vmas" "tl vmas"] by simp
  ultimately show ?thesis
    using cuts_Cons(1) [of addr stop nxt "opt_cons beyond (tl vmas)"] cuts_Cons(1) [of addr stop nxt "opt_cons beyond []"]
      cuts_opt_cons [of addr stop beyond "tl vmas"] by simp
qed

lemma cuts_tail: "cuts_left addr stop vmas < cuts_left addr stop (vma # vmas)"
  using cuts_Cons(1) [of addr stop vma vmas] cuts_Cons(2) [of addr stop vma] by simp

text \<open>
  The first walk of \<open>mprotect\<close> cuts the areas at both ends of the range.  \<open>next\<close> is the head of the remaining chain; after a cut
  at \<open>addr\<close> it is the new upper part.
\<close>

function protect_split ::
  "(nat \<Rightarrow> nat \<Rightarrow> bool) \<Rightarrow> nat \<Rightarrow> u64 \<Rightarrow> u64 \<Rightarrow> vma_t list \<Rightarrow> vma_t list option" where
  "protect_split mem n addr stop [] = Some []"
| "protect_split mem n addr stop (vma # vmas) =
     (if \<not> (vm_end vma \<le> addr \<or> vm_start vma \<ge> stop) then
        case (if vm_start vma < addr \<and> vm_end vma > addr then vma_split (mem n) vma addr else Some (vma, None)) of
          None \<Rightarrow> None
        | Some (vma, upper) \<Rightarrow>
            (let vmas = opt_cons upper vmas in
             if vmas \<noteq> [] \<and> vm_start (hd vmas) < stop \<and> vm_end (hd vmas) > stop then
               case vma_split (mem (n + 1)) (hd vmas) stop of
                 None \<Rightarrow> None
               | Some (nxt, beyond) \<Rightarrow>
                   map_option ((#) vma) (protect_split mem (n + 2) addr stop (nxt # opt_cons beyond (tl vmas)))
             else if vm_start vma < stop \<and> vm_end vma > stop \<and> vm_start vma \<ge> addr then
               case vma_split (mem (n + 1)) vma stop of
                 None \<Rightarrow> None
               | Some (vma, beyond) \<Rightarrow>
                   map_option (\<lambda>r. vma # opt_cons beyond r) (protect_split mem (n + 2) addr stop vmas)
             else map_option ((#) vma) (protect_split mem (n + 2) addr stop vmas))
      else map_option ((#) vma) (protect_split mem n addr stop vmas))"
  by pat_completeness auto
termination
  apply (relation "measure (\<lambda>(mem, n, addr, stop, vmas). cuts_left addr stop vmas)")
      apply (rule wf_measure)
     apply (simp only: in_measure prod.case)
     apply (metis cuts_first cuts_second le_less_trans)
    apply (simp only: in_measure prod.case)
    apply (metis cuts_first)
   apply (simp only: in_measure prod.case)
   apply (metis cuts_first)
  apply (simp only: in_measure prod.case)
  apply (rule cuts_tail)
  done

declare protect_split.simps(2) [simp del]

definition reprotect :: "u64 \<Rightarrow> u64 \<Rightarrow> u64 \<Rightarrow> vma_t \<Rightarrow> vma_t" where
  "reprotect addr stop prot cur =
     (if vm_start cur \<ge> addr \<and> vm_end cur \<le> stop
      then cur\<lparr>vm_flags := (vm_flags cur AND NOT (VMA_READ OR VMA_WRITE OR VMA_EXEC)) OR prot_flags prot\<rparr> else cur)"

definition sys_mprotect ::
  "mm_memory \<Rightarrow> (nat \<Rightarrow> u64 \<Rightarrow> u64 \<Rightarrow> u64 \<Rightarrow> u64 \<Rightarrow> u64 \<Rightarrow> u64) \<Rightarrow> (u64 \<Rightarrow> u64) \<Rightarrow> fdt_t \<Rightarrow> u64 \<Rightarrow> u64 \<Rightarrow> u64 \<Rightarrow> mm_state \<Rightarrow>
   (u64 \<times> mm_state) option" where
  "sys_mprotect mem vfs_map translate fdts addr len prot st =
     (let addr = page_down addr; len = page_up len; stop = addr + len in
      if check_user_overflow addr len then Some (- EFAULT, st)
      else do {
        let pt_flags = mm_x86_64_pt_flags_from_prot prot;
        r \<leftarrow> (if prot \<noteq> PROT_NONE then populate vfs_map translate fdts (unat len div 4096) addr stop prot pt_flags st
             else Some (Inr st));
        (case r of
           Inl early \<Rightarrow> Some early
         | Inr st \<Rightarrow> do {
             let st = log_effects st [Change_attribute addr len pt_flags];
             vmas \<leftarrow> protect_split (split_ok mem) 0 addr stop (vma_list (mm_mgr st));
             Some (0, st\<lparr>mm_mgr := (mm_mgr st)\<lparr>vma_list := map (reprotect addr stop prot) vmas\<rparr>\<rparr>)
           })
      })"

subsection \<open>mincore and madvise\<close>

primrec mincore_loop :: "(u64 \<Rightarrow> u64) \<Rightarrow> nat \<Rightarrow> u64 \<Rightarrow> u64 \<Rightarrow> (u64 \<Rightarrow> u8) \<Rightarrow> u64 \<Rightarrow> u8" where
  "mincore_loop translate 0 current_addr out mem = mem"
| "mincore_loop translate (Suc n) current_addr out mem =
     mincore_loop translate n (current_addr + PAGE_SIZE) (out + 1)
       (memory_write mem out [if translate current_addr \<noteq> 0 then 1 else 0])"

definition sys_mincore ::
  "(u64 \<Rightarrow> u64) \<Rightarrow> u64 \<Rightarrow> u64 \<Rightarrow> u64 \<Rightarrow> mm_state \<Rightarrow> (u64 \<Rightarrow> u8) \<Rightarrow> (u64 \<times> (u64 \<Rightarrow> u8)) option" where
  "sys_mincore translate addr sz vec st mem =
     (if check_user_overflow addr sz then Some (- EFAULT, mem)
      else if sz = 0 then Some (0, mem)
      else
        let start_page = page_down addr;
            end_page = page_down (addr + sz - 1);
            num_pages = (end_page - start_page) div PAGE_SIZE + 1
        in if check_user_overflow vec num_pages then Some (- EFAULT, mem)
           else if mm_op_locked st then None
           else Some (0, mincore_loop translate (unat num_pages) start_page vec mem))"

definition sys_madvise :: "u64 \<Rightarrow> u64 \<Rightarrow> int \<Rightarrow> u64" where
  "sys_madvise addr len advice =
     (if len = 0 then 0 else if check_user_overflow addr len then - EFAULT else 0)"

section \<open>User pointers\<close>

text \<open>The area of an address has the required flags.\<close>

definition grants :: "vma_manager_t \<Rightarrow> u64 \<Rightarrow> u64 \<Rightarrow> bool" where
  "grants mgr required a \<longleftrightarrow> (\<exists>w. mgr_map mgr a = Some w \<and> fst w AND required = required)"

definition areas_aligned :: "vma_t list \<Rightarrow> bool" where
  "areas_aligned vs \<longleftrightarrow> (\<forall>v\<in>set vs. 4096 dvd unat (vm_start v) \<and> 4096 dvd unat (vm_end v))"

text \<open>A translation through page tables is decided page by page.\<close>

definition pagewise :: "(u64 \<Rightarrow> u64) \<Rightarrow> bool" where
  "pagewise translate \<longleftrightarrow> (\<forall>a b. unat a div 4096 = unat b div 4096 \<longrightarrow> (translate a = 0) = (translate b = 0))"

lemma page_end:
  assumes "a < KERNEL_AREA_MEM"
  shows "unat (PADDING_UP (a + 1) PAGE_SIZE) = (unat a div 4096 + 1) * 4096"
proof -
  have a: "unat a < 2 ^ 64 - 2 ^ 60" using assms by (simp add: word_less_nat_alt)
  then have "unat (a + 1) = unat a + 1" by (simp add: unat_word_ariths)
  moreover have "unat (PADDING_UP (a + 1) PAGE_SIZE) = (unat (a + 1) + 4095) div 4096 * 4096"
    using PADDING_UP_page [of "a + 1"] unat_pfn a calculation by simp
  moreover have "(unat a + 1 + 4095) div 4096 = unat a div 4096 + 1" by (simp add: div_add_self1)
  ultimately show ?thesis by metis
qed

lemma inside_page:
  assumes "4096 dvd unat (vm_start v)" "4096 dvd unat (vm_end v)" "unat a div 4096 = unat b div 4096"
  shows "inside v a = inside v b"
proof -
  obtain i j where ij: "unat (vm_start v) = 4096 * i" "unat (vm_end v) = 4096 * j" using assms(1,2) by (elim dvdE)
  have "inside v c \<longleftrightarrow> i \<le> unat c div 4096 \<and> unat c div 4096 < j" for c
    unfolding inside_def word_le_nat_alt word_less_nat_alt ij by (auto simp: less_eq_div_iff_mult_less_eq div_less_iff_less_mult mult.commute)
  then show ?thesis using assms(3) by simp
qed

lemma grants_page:
  assumes "areas_aligned (vma_list mgr)" "unat a div 4096 = unat b div 4096"
  shows "grants mgr required a = grants mgr required b"
proof -
  have "map_option fst (mapped vs a) = map_option fst (mapped vs b)" if "areas_aligned vs" for vs
    using that
  proof (induction vs)
    case (Cons v vs)
    then show ?case using inside_page [OF _ _ assms(2), of v] by (simp add: areas_aligned_def view_at_def)
  qed simp
  from this [OF assms(1)] show ?thesis unfolding grants_def mgr_map_def
    by (cases "mapped (vma_list mgr) a"; cases "mapped (vma_list mgr) b") auto
qed

lemma vma_find_grants:
  "(case vma_find mgr a of None \<Rightarrow> False | Some i \<Rightarrow> vm_flags (vma_list mgr ! i) AND required = required) = grants mgr required a"
  using vma_find_None [of mgr a] vma_find_spec(3) [of mgr a]
  by (auto simp: grants_def view_at_def split: option.split)

definition usable :: "(u64 \<Rightarrow> u64) \<Rightarrow> vma_manager_t \<Rightarrow> u64 \<Rightarrow> u64 \<Rightarrow> bool" where
  "usable translate mgr required a \<longleftrightarrow> grants mgr required a \<and> translate a \<noteq> 0"

lemma usable_page:
  "areas_aligned (vma_list mgr) \<Longrightarrow> pagewise translate \<Longrightarrow> unat a div 4096 = unat b div 4096 \<Longrightarrow>
    usable translate mgr required a = usable translate mgr required b"
  using grants_page [of mgr a b required] unfolding usable_def pagewise_def by blast

text \<open>The loop returns, and its answer is whether every address of the range is usable.\<close>

lemma validate_loop_spec:
  assumes "areas_aligned (vma_list mgr)" "pagewise translate" "stop \<le> KERNEL_AREA_MEM"
  shows "validate_loop translate mgr required stop a = Some (\<forall>x. a \<le> x \<and> x < stop \<longrightarrow> usable translate mgr required x)"
proof (induction "unat stop - unat a" arbitrary: a rule: less_induct)
  case less
  show ?case
  proof (cases "a < stop")
    case False
    then show ?thesis by (subst validate_loop.simps) auto
  next
    case True
    define e where "e = min stop (PADDING_UP (a + 1) PAGE_SIZE)"
    have pe: "unat (PADDING_UP (a + 1) PAGE_SIZE) = (unat a div 4096 + 1) * 4096"
      using page_end [of a] True assms(3) by (meson less_le_trans)
    have e: "unat e = min (unat stop) ((unat a div 4096 + 1) * 4096)"
      using pe by (simp add: e_def min_def word_le_nat_alt)
    then have ae: "unat a < unat e" "unat e \<le> unat stop" using True dividend_less_div_times [of 4096 "unat a"]
      by (auto simp: word_less_nat_alt min_def)
    have same: "usable translate mgr required x = usable translate mgr required a" if "a \<le> x" "x < e" for x
    proof (rule usable_page [OF assms(1,2)])
      have "unat a \<le> unat x" "unat x < (unat a div 4096 + 1) * 4096" using that e by (auto simp: word_le_nat_alt word_less_nat_alt)
      then show "unat x div 4096 = unat a div 4096"
        by (metis Suc_eq_plus1 div_le_mono le_antisym less_Suc_eq_le less_mult_imp_div_less)
    qed
    have split: "(\<forall>x. a \<le> x \<and> x < stop \<longrightarrow> usable translate mgr required x) \<longleftrightarrow>
        usable translate mgr required a \<and> (\<forall>x. e \<le> x \<and> x < stop \<longrightarrow> usable translate mgr required x)"
    proof -
      have "a \<le> x" if "e \<le> x" for x using that ae by (simp add: word_le_nat_alt)
      then show ?thesis using same True by (meson linorder_le_less_linear order_refl)
    qed
    have IH: "validate_loop translate mgr required stop e = Some (\<forall>x. e \<le> x \<and> x < stop \<longrightarrow> usable translate mgr required x)"
      using less [of e] ae by simp
    show ?thesis
      unfolding split using True IH vma_find_grants [where mgr = mgr and a = a and required = required]
      by (subst validate_loop.simps) (auto simp: e_def [symmetric] Let_def usable_def split: option.splits)
  qed
qed

end
