(* ===== verification/Memsys_Spec.thy ===== *)
theory Memsys_Spec
  imports Memsys
begin

text \<open>
  What the memory system calls do to an address space: the user copies touch permitted addresses only, \<open>munmap\<close> and \<open>mmap\<close>
  act on the map from addresses to areas and on the reserved ranges together, \<open>mprotect\<close> changes the protection of exactly
  its range.  Also the cases where the code does something else.
\<close>

section \<open>User copies\<close>

lemma validate_user_range_spec:
  assumes "areas_aligned (vma_list mgr)" "pagewise translate" "unat addr + unat sz \<le> unat KERNEL_AREA_MEM"
  shows "validate_user_range translate (Some mgr) addr sz required =
    Some (\<forall>x. addr \<le> x \<and> x < addr + sz \<longrightarrow> usable translate mgr required x)"
proof -
  have "unat (addr + sz) = unat addr + unat sz" using assms(3) by (intro unat_add_no_wrap) simp
  then have le: "addr + sz \<le> KERNEL_AREA_MEM" using assms(3) by (simp add: word_le_nat_alt)
  then have "\<not> check_user_overflow addr sz" by (simp add: check_user_overflow_def not_less)
  then show ?thesis using validate_loop_spec [OF assms(1,2) le, of required addr]
    by (simp add: validate_user_range_def)
qed

lemma in_copied_range:
  fixes a dst sz :: u64
  assumes "unat dst + n < 2 ^ 64" "sz = of_nat n"
  shows "unat (a - dst) < n \<longleftrightarrow> dst \<le> a \<and> a < dst + sz"
proof -
  have "unat (dst + sz) = unat dst + n"
    using assms unat_add_no_wrap [of dst sz] by (simp add: unsigned_of_nat take_bit_nat_eq_self)
  then show ?thesis using assms(1) unsigned_less [of a]
    by (cases "dst \<le> a") (auto simp: unat_sub word_le_nat_alt word_less_nat_alt unat_sub_if' not_le)
qed

section \<open>munmap\<close>

text \<open>No file mapping reaches over the upper end of the range from inside it; see below for what happens to one that does.\<close>

definition no_file_cut :: "u64 \<Rightarrow> u64 \<Rightarrow> vma_t list \<Rightarrow> bool" where
  "no_file_cut start stop vs \<longleftrightarrow>
     (\<forall>v\<in>set vs. vm_type v = VMA_TYPE_FILE \<longrightarrow> \<not> (start \<le> vm_start v \<and> vm_start v < stop \<and> stop < vm_end v))"

lemma munmap_loop_chain:
  "no_file_cut start stop vs \<Longrightarrow>
    map_option fst (munmap_loop mem n start stop vs used) = map_option fst (unmap_loop mem n start stop vs used')"
proof (induction vs arbitrary: n used used')
  case (Cons v vs)
  have "no_file_cut start stop vs" using Cons.prems by (simp add: no_file_cut_def)
  note IH = Cons.IH [OF this]
  have nocut: "\<not> (vm_type v = VMA_TYPE_FILE \<and> start \<le> vm_start v \<and> vm_start v < stop \<and> stop < vm_end v)"
    using Cons.prems by (simp add: no_file_cut_def)
  have fst_cons: "map_option fst (map_option (map_prod ((#) w) id) m) = map_option ((#) w) (map_option fst m)"
    for w :: vma_t and m :: "(vma_t list \<times> u64) option" by (cases m) auto
  have fst_bind: "map_option fst (m \<bind> (\<lambda>(rest, used). Some (f rest, used))) = map_option f (map_option fst m)"
    for f :: "vma_t list \<Rightarrow> vma_t list" and m :: "(vma_t list \<times> u64) option" by (cases m) auto
  have map_cong_arg: "x = y \<Longrightarrow> map_option f x = map_option f y" for f :: "vma_t list \<Rightarrow> vma_t list" and x y by simp
  consider (gone) "vm_start v \<ge> start \<and> vm_end v \<le> stop"
    | (span) "\<not> (vm_start v \<ge> start \<and> vm_end v \<le> stop)" "\<not> (vm_end v \<le> start \<or> vm_start v \<ge> stop)" "vm_start v < start \<and> vm_end v > stop"
    | (rest) "\<not> (vm_start v \<ge> start \<and> vm_end v \<le> stop)" "\<not> (vm_start v < start \<and> vm_end v > stop) \<or> vm_end v \<le> start \<or> vm_start v \<ge> stop"
    by blast
  then show ?case
  proof cases
    case gone
    then show ?thesis by (auto intro: IH)
  next
    case span
    then show ?thesis
      by (cases "unmap_spanning (mem n) (mem (n + 1)) start stop v (vs \<noteq> [])")
        (auto simp: fst_bind intro!: map_cong_arg IH)
  next
    case rest
    then show ?thesis using nocut
      by (auto simp: fst_cons fst_bind Let_def not_le intro!: map_cong_arg IH)
  qed
qed simp

text \<open>The call on a page-aligned view of its arguments.\<close>

lemma page_down_padding: "page_down a = PADDING_DOWN a PAGE_SIZE"
proof -
  have "PAGE_SIZE - 1 = (mask 12 :: u64)" by (simp add: mask_eq_exp_minus_1)
  then have "page_down a = a AND NOT (mask 12)" by (simp only: page_down_def)
  also have "\<dots> = push_bit 12 (drop_bit 12 a)" by (rule bit_eqI) (auto simp: bit_simps)
  finally show ?thesis by (simp add: PADDING_DOWN_def push_bit_eq_mult drop_bit_eq_div)
qed

lemma page_down_props: "unat (page_down a) = unat a div 4096 * 4096" "4096 dvd unat (page_down a)"
  by (simp_all add: page_down_padding PADDING_DOWN_page)

lemma page_up_padding: "page_up a = PADDING_UP a PAGE_SIZE"
proof -
  have "page_up a = page_down (a + PAGE_SIZE - 1)" by (simp only: page_up_def page_down_def)
  then show ?thesis by (simp only: page_down_padding PADDING_UP_def)
qed

lemma page_up_props:
  assumes "unat a \<le> unat KERNEL_AREA_MEM"
  shows "unat (page_up a) = (unat a + 4095) div 4096 * 4096" "4096 dvd unat (page_up a)"
proof -
  have "unat a + 4095 < 2 ^ 64" using assms by simp
  from PADDING_UP_page [OF this] show "unat (page_up a) = (unat a + 4095) div 4096 * 4096" "4096 dvd unat (page_up a)"
    using unat_pfn [of "page_up a"] by (simp_all add: page_up_padding page_aligned_def)
qed

text \<open>A page-aligned range below the kernel area, as the calls compute it from their arguments.\<close>

definition user_range :: "u64 \<Rightarrow> u64 \<Rightarrow> bool" where
  "user_range addr len \<longleftrightarrow> 0 < unat len \<and> unat addr + (unat len + 4095) \<le> unat KERNEL_AREA_MEM"

lemma user_rangeD:
  assumes "user_range addr len"
  shows "unat (page_down addr + page_up len) = unat (page_down addr) + unat (page_up len)"
    "page_down addr < page_down addr + page_up len" "\<not> check_user_overflow (page_down addr) (page_up len)"
    "4096 dvd unat (page_down addr)" "4096 dvd unat (page_up len)" "page_up len \<noteq> 0"
    "unat (page_down addr) + unat (page_up len) \<le> unat KERNEL_AREA_MEM"
proof -
  have len: "unat len \<le> unat KERNEL_AREA_MEM" "0 < unat len" using assms by (simp_all add: user_range_def)
  note up = page_up_props [OF len(1)]
  have lo: "unat (page_down addr) \<le> unat addr" by (simp add: page_down_props)
  have "(unat len + 4095) div 4096 * 4096 \<le> unat len + 4095" by simp
  then show sum: "unat (page_down addr) + unat (page_up len) \<le> unat KERNEL_AREA_MEM"
    using lo up(1) assms unfolding user_range_def by linarith
  then show u: "unat (page_down addr + page_up len) = unat (page_down addr) + unat (page_up len)"
    by (intro unat_add_no_wrap) simp
  have "0 < unat (page_up len)" using len(2) up(1) by (simp add: div_greater_zero_iff)
  then show "page_down addr < page_down addr + page_up len" "page_up len \<noteq> 0" using u by (auto simp: word_less_nat_alt)
  show "\<not> check_user_overflow (page_down addr) (page_up len)"
    using sum u by (simp add: check_user_overflow_def word_less_nat_alt)
  show "4096 dvd unat (page_down addr)" "4096 dvd unat (page_up len)" by (rule page_down_props(2), rule up(2))
qed

definition all_granted :: "mm_memory \<Rightarrow> bool" where
  "all_granted mem \<longleftrightarrow> (\<forall>n s. split_ok mem n s) \<and> (\<forall>n m. queue_ok mem n m) \<and> (\<forall>s. area_ok mem s) \<and> range_mem_ok mem \<and> node_mem_ok mem"

lemma sys_munmap_spec:
  assumes "all_granted mem" "areas_ok (vma_list (mm_mgr st))" "lazy_ok (mm_queue st)" "user_range addr sz"
    and cut: "no_file_cut (page_down addr) (page_down addr + page_up sz) (vma_list (mm_mgr st))"
  defines "lo \<equiv> page_down addr" and "hi \<equiv> page_down addr + page_up sz"
  shows "\<exists>st'. sys_munmap mem addr sz st = Some (0, st') \<and> areas_ok (vma_list (mm_mgr st')) \<and> lazy_ok (mm_queue st') \<and>
    mm_op_locked st' = mm_op_locked st \<and>
    mgr_map (mm_mgr st') = (\<lambda>a. if lo \<le> a \<and> a < hi then None else mgr_map (mm_mgr st) a) \<and>
    reserved (mm_queue st') = {(a, f) \<in> reserved (mm_queue st). \<not> (lo \<le> a \<and> a < hi)}"
proof -
  note r = user_rangeD [OF assms(4)]
  have granted: "split_ok mem n s" "queue_ok mem n m" for n s m using assms(1) by (auto simp: all_granted_def)
  obtain vs' used' where u: "unmap_loop (split_ok mem) 0 lo hi (vma_list (mm_mgr st)) 0 = Some (vs', used')" "areas_ok vs'"
    "\<forall>a. mapped vs' a = (if lo \<le> a \<and> a < hi then None else mapped (vma_list (mm_mgr st)) a)"
    using unmap_loop_spec [where mem = "split_ok mem" and n = 0 and used = 0, OF assms(2) r(2) granted(1)]
    unfolding lo_def hi_def by blast
  obtain used where m: "munmap_loop (split_ok mem) 0 lo hi (vma_list (mm_mgr st)) (vm_used (mm_mgr st)) = Some (vs', used)"
    using munmap_loop_chain [OF cut, of "split_ok mem" 0 "vm_used (mm_mgr st)" 0] u(1) unfolding lo_def hi_def by auto
  obtain q where q: "unmap_virtual_page (queue_ok mem) (mm_queue st) lo (page_up sz) = Some q" "lazy_ok q"
    "reserved q = {(a, f) \<in> reserved (mm_queue st). \<not> (lo \<le> a \<and> a < hi)}"
    using unmap_virtual_page_spec [where ok = "queue_ok mem", OF assms(3) r(4,5)] r(7) granted(2)
    unfolding lo_def hi_def by fastforce
  have "sz \<noteq> 0" using assms(4) by (auto simp: user_range_def)
  then show ?thesis using m q u(2,3) r(3)
    unfolding sys_munmap_def lo_def hi_def
    by (simp add: Let_def log_effects_def mgr_map_def fun_eq_iff)
qed

text \<open>An area cut at its front keeps its old file offset, so what it shows moves up by the length that was cut off.\<close>

lemma munmap_front_cut:
  assumes "start \<le> vm_start v" "vm_start v < stop" "stop < vm_end v" "vm_type v = VMA_TYPE_FILE"
  shows "munmap_loop mem n start stop [v] used = Some ([v\<lparr>vm_start := stop\<rparr>], used)"
    "inside (v\<lparr>vm_start := stop\<rparr>) a \<Longrightarrow> view_at (v\<lparr>vm_start := stop\<rparr>) a = view_at v (a - (stop - vm_start v))"
proof -
  have "stop - vm_start (v\<lparr>vm_start := stop\<rparr>) = 0" by simp
  then show "munmap_loop mem n start stop [v] used = Some ([v\<lparr>vm_start := stop\<rparr>], used)"
    using assms by (auto simp: Let_def not_le)
  show "view_at (v\<lparr>vm_start := stop\<rparr>) a = view_at v (a - (stop - vm_start v))"
    using assms(4) by (simp add: view_at_def)
qed

section \<open>mmap\<close>

lemma mapped_inside:
  assumes "areas_ok vs" "v \<in> set vs" "inside v a"
  shows "mapped vs a = Some (view_at v a)"
  using assms
proof (induction vs)
  case (Cons w vs)
  then show ?case by (fastforce simp: areas_ok_Cons inside_def)
qed simp

lemma insert_free:
  assumes "areas_ok (vma_list mgr)" "vm_start new < vm_end new"
    and free: "\<And>a. vm_start new \<le> a \<Longrightarrow> a < vm_end new \<Longrightarrow> mgr_map mgr a = None"
  shows "\<exists>mgr'. vma_insert mgr (Some new) = (0, mgr') \<and> areas_ok (vma_list mgr') \<and>
    mgr_map mgr' = (\<lambda>a. if inside new a then Some (view_at new a) else mgr_map mgr a)"
proof -
  have none: "vma_find_intersection mgr (vm_start new) (vm_end new) = None"
    using assms by (simp add: vma_find_intersection_None)
  then have "clear_of new (vma_list mgr)" by (simp add: intersection_None_clear)
  from link_sorted_ok [OF assms(1,2) this] none show ?thesis
    by (auto simp: vma_insert_def mgr_map_def fun_eq_iff)
qed

text \<open>
  A process between two system calls: its areas are sorted and disjoint, its reservations well formed and inside areas, and
  the lock is free.
\<close>

definition space_ok :: "mm_state \<Rightarrow> bool" where
  "space_ok st \<longleftrightarrow> areas_ok (vma_list (mm_mgr st)) \<and> lazy_ok (mm_queue st) \<and> \<not> mm_op_locked st \<and>
     (\<forall>(a, f)\<in>reserved (mm_queue st). mgr_map (mm_mgr st) a \<noteq> None)"

definition anonymous_view :: "u64 \<Rightarrow> u64 \<Rightarrow> view" where
  "anonymous_view prot flags =
     ((if flags AND MAP_SHARED \<noteq> 0 then prot_flags prot OR VMA_SHARED else prot_flags prot) OR VMA_ANON,
      VMA_TYPE_ANON, -1, -1, None, 0)"

text \<open>The part of \<open>mmap\<close> under the lock, for an anonymous mapping on a range with no area in it.\<close>

lemma mmap_locked_spec:
  assumes "all_granted mem" "areas_ok (vma_list (mm_mgr st))" "lazy_ok (mm_queue st)" "\<not> mm_op_locked st"
    "flags AND MAP_ANONYMOUS \<noteq> 0" "prot \<noteq> PROT_NONE" "4096 dvd unat s" "4096 dvd unat len" "0 < unat len"
    "unat s + unat len \<le> unat KERNEL_AREA_MEM"
    and free: "\<And>a. s \<le> a \<Longrightarrow> a < s + len \<Longrightarrow> mgr_map (mm_mgr st) a = None"
    and fresh: "flags AND MAP_FIXED = 0 \<Longrightarrow> \<forall>(a, f)\<in>reserved (mm_queue st). \<not> (s \<le> a \<and> a < s + len)"
  shows "\<exists>st'. mmap_locked mem vfs_map fdts s len prot flags fd offset st = Some (s, st') \<and>
    areas_ok (vma_list (mm_mgr st')) \<and> lazy_ok (mm_queue st') \<and> \<not> mm_op_locked st' \<and>
    mgr_map (mm_mgr st') = (\<lambda>a. if s \<le> a \<and> a < s + len then Some (anonymous_view prot flags) else mgr_map (mm_mgr st) a) \<and>
    reserved (mm_queue st') = {(a, f) \<in> reserved (mm_queue st). \<not> (s \<le> a \<and> a < s + len)} \<union>
      {(a, mm_x86_64_pt_flags_from_prot prot) | a. s \<le> a \<and> a < s + len}"
proof -
  have granted: "area_ok mem n" "queue_ok mem i m" "range_mem_ok mem" "node_mem_ok mem" for n i m
    using assms(1) by (auto simp: all_granted_def)
  define v0 where "v0 = \<lparr>vm_start = 0, vm_end = 0, vm_flags = 0, vm_type = VMA_TYPE_ANON, vm_fd = -1, vm_offset = 0,
    shm_id = -1, vm_name = None :: string option\<rparr>"
  define new where "new = mmap_area v0 s len prot flags fd offset"
  have new: "vm_start new = s" "vm_end new = s + len" "view_at new a = anonymous_view prot flags" for a
    using assms(5) by (simp_all add: new_def v0_def mmap_area_def Let_def view_at_def anonymous_view_def)
  have "unat (s + len) = unat s + unat len" using assms(10) by (intro unat_add_no_wrap) simp
  then have lt: "s < s + len" using assms(9) by (simp add: word_less_nat_alt)
  then obtain mgr where mgr: "vma_insert (mm_mgr st) (Some new) = (0, mgr)" "areas_ok (vma_list mgr)"
    "mgr_map mgr = (\<lambda>a. if s \<le> a \<and> a < s + len then Some (anonymous_view prot flags) else mgr_map (mm_mgr st) a)"
    using insert_free [OF assms(2), of new] free unfolding new inside_def by blast
  have none: "vma_find_intersection (mm_mgr st) s (s + len) = None"
    using vma_find_intersection_None [OF assms(2) lt] free by simp
  obtain q es where q: "lazy_infoalloc (queue_ok mem) True True (mm_queue st) s len (mm_x86_64_pt_flags_from_prot prot) flags =
      Some (q, es)" "lazy_ok q" "reserved q = {(a, f) \<in> reserved (mm_queue st). \<not> (s \<le> a \<and> a < s + len)} \<union>
      {(a, mm_x86_64_pt_flags_from_prot prot) | a. s \<le> a \<and> a < s + len}"
    using lazy_infoalloc_spec [where ok = "queue_ok mem" and flags = flags and pf = "mm_x86_64_pt_flags_from_prot prot",
        OF assms(3,7,8)] assms(10) granted(2) fresh by fastforce
  have "vma_alloc (area_ok mem) = Some v0" using granted(1) by (simp add: vma_alloc_def v0_def)
  then show ?thesis
    using assms(4-6) none mgr q granted(3,4)
    by (simp add: mmap_locked_def Let_def new_def [symmetric] log_effects_def)
qed

lemma find_gap_spec:
  assumes "find_gap mgr len a = Some s"
  shows "vma_find_intersection mgr s (s + len) = None" "4096 dvd unat a \<Longrightarrow> 4096 dvd unat s"
proof -
  have "vma_find_intersection mgr s (s + len) = None \<and> (4096 dvd unat a \<longrightarrow> 4096 dvd unat s)"
    using assms
  proof (induction mgr len a rule: find_gap.induct)
    case (1 mgr len a)
    have step: "4096 dvd unat (a + PAGE_SIZE)" if "4096 dvd unat a" "\<not> a > KERNEL_AREA_MEM"
    proof -
      have "unat (a + PAGE_SIZE) = unat a + 4096"
        using that(2) unat_add_no_wrap [of a PAGE_SIZE] by (simp add: word_less_nat_alt)
      then show ?thesis using that(1) by simp
    qed
    show ?case using 1 step by (subst (asm) find_gap.simps) (auto simp: find_gap.simps [of mgr len a] split: if_splits)
  qed
  then show "vma_find_intersection mgr s (s + len) = None" "4096 dvd unat a \<Longrightarrow> 4096 dvd unat s" by auto
qed

lemma mmap_fixed_place:
  assumes "all_granted mem" "areas_ok (vma_list mgr)" "lo < lo + len" "lo \<noteq> 0" "flags AND MAP_FIXED \<noteq> 0"
  shows "\<exists>mgr'. mmap_place mem mgr lo len flags = Some (Inr (lo, mgr')) \<and> areas_ok (vma_list mgr') \<and>
    mgr_map mgr' = (\<lambda>a. if lo \<le> a \<and> a < lo + len then None else mgr_map mgr a)"
proof (cases "vma_find_intersection mgr lo (lo + len)")
  case None
  then have "mgr_map mgr = (\<lambda>a. if lo \<le> a \<and> a < lo + len then None else mgr_map mgr a)"
    using vma_find_intersection_None [OF assms(2,3)] by auto
  then show ?thesis using None assms(2,4,5) by (auto simp: mmap_place_def)
next
  case (Some i)
  have granted: "split_ok mem n s" for n s using assms(1) by (simp add: all_granted_def)
  obtain vs' used' where "unmap_loop (split_ok mem) 0 lo (lo + len) (vma_list mgr) (vm_used mgr) = Some (vs', used')" "areas_ok vs'"
    "\<forall>a. mapped vs' a = (if lo \<le> a \<and> a < lo + len then None else mapped (vma_list mgr) a)"
    using unmap_loop_spec [where mem = "split_ok mem" and n = 0 and used = "vm_used mgr", OF assms(2,3) granted] by blast
  then show ?thesis using Some assms(4,5)
    by (auto simp: mmap_place_def vma_unmap_range_def mgr_map_def fun_eq_iff)
qed

lemma still_inside:
  assumes "\<forall>(a, f)\<in>R. m a \<noteq> None" "R' = {(a, f) \<in> R. \<not> (lo \<le> a \<and> a < hi)} \<union> {(a, pf) | a. lo \<le> a \<and> a < hi}"
    "m' = (\<lambda>a. if lo \<le> a \<and> a < hi then Some w else m a)"
  shows "\<forall>(a, f)\<in>R'. m' a \<noteq> None"
  unfolding assms(2,3) using assms(1) by (auto simp del: not_None_eq)

text \<open>A fixed anonymous mapping, and one whose place the kernel chooses.\<close>

lemma sys_mmap_fixed:
  assumes "all_granted mem" "space_ok st" "user_range addr len" "page_down addr \<noteq> 0" "flags AND MAP_FIXED \<noteq> 0"
    "flags AND MAP_ANONYMOUS \<noteq> 0" "prot \<noteq> PROT_NONE"
  defines "lo \<equiv> page_down addr" and "hi \<equiv> page_down addr + page_up len"
  shows "\<exists>st'. sys_mmap mem vfs_map fdts addr len prot flags fd offset st = Some (lo, st') \<and> space_ok st' \<and>
    mgr_map (mm_mgr st') = (\<lambda>a. if lo \<le> a \<and> a < hi then Some (anonymous_view prot flags) else mgr_map (mm_mgr st) a) \<and>
    reserved (mm_queue st') = {(a, f) \<in> reserved (mm_queue st). \<not> (lo \<le> a \<and> a < hi)} \<union>
      {(a, mm_x86_64_pt_flags_from_prot prot) | a. lo \<le> a \<and> a < hi}"
proof -
  note r = user_rangeD [OF assms(3)]
  have ok: "areas_ok (vma_list (mm_mgr st))" "lazy_ok (mm_queue st)" "\<not> mm_op_locked st"
    "\<forall>(a, f)\<in>reserved (mm_queue st). mgr_map (mm_mgr st) a \<noteq> None" using assms(2) by (auto simp: space_ok_def)
  obtain mgr where mgr: "mmap_place mem (mm_mgr st) lo (page_up len) flags = Some (Inr (lo, mgr))" "areas_ok (vma_list mgr)"
    "mgr_map mgr = (\<lambda>a. if lo \<le> a \<and> a < hi then None else mgr_map (mm_mgr st) a)"
    using mmap_fixed_place [OF assms(1) ok(1) r(2) assms(4,5)] unfolding lo_def hi_def by blast
  have pos: "0 < unat (page_up len)" using r(6) by (metis unat_eq_zero not_gr_zero)
  let ?st = "st\<lparr>mm_mgr := mgr\<rparr>"
  have sel: "mm_mgr ?st = mgr" "mm_queue ?st = mm_queue st" by simp_all
  have pre: "areas_ok (vma_list (mm_mgr ?st))" "lazy_ok (mm_queue ?st)" "\<not> mm_op_locked ?st" using ok mgr(2) by simp_all
  have free: "mgr_map (mm_mgr ?st) a = None" if "lo \<le> a" "a < lo + page_up len" for a
    using that mgr(3) by (simp add: lo_def hi_def)
  have fresh: "\<forall>(a, f)\<in>reserved (mm_queue ?st). \<not> (lo \<le> a \<and> a < lo + page_up len)" if "flags AND MAP_FIXED = 0"
    using that assms(5) by simp
  obtain st' where st': "mmap_locked mem vfs_map fdts lo (page_up len) prot flags fd offset ?st = Some (lo, st')"
    "areas_ok (vma_list (mm_mgr st'))" "lazy_ok (mm_queue st')" "\<not> mm_op_locked st'"
    "mgr_map (mm_mgr st') = (\<lambda>a. if lo \<le> a \<and> a < hi then Some (anonymous_view prot flags) else mgr_map mgr a)"
    "reserved (mm_queue st') = {(a, f) \<in> reserved (mm_queue st). \<not> (lo \<le> a \<and> a < hi)} \<union>
      {(a, mm_x86_64_pt_flags_from_prot prot) | a. lo \<le> a \<and> a < hi}"
    using mmap_locked_spec [where vfs_map = vfs_map and fdts = fdts and fd = fd and offset = offset,
        OF assms(1) pre assms(6,7) r(4,5) pos r(7), folded lo_def, OF free fresh]
    unfolding hi_def lo_def sel by blast
  have "sys_mmap mem vfs_map fdts addr len prot flags fd offset st = Some (lo, st')"
    using mgr(1) st'(1) r(3,6) assms(6) by (simp add: sys_mmap_def Let_def lo_def)
  moreover have map: "mgr_map (mm_mgr st') = (\<lambda>a. if lo \<le> a \<and> a < hi then Some (anonymous_view prot flags) else mgr_map (mm_mgr st) a)"
    unfolding st'(5) mgr(3) by auto
  moreover have "space_ok st'" using st'(2-4) still_inside [OF ok(4) st'(6) map] by (simp add: space_ok_def)
  ultimately show ?thesis using st'(6) by blast
qed

lemma sys_mmap_chosen:
  assumes "all_granted mem" "space_ok st" "page_down addr = 0" "0 < unat len" "unat len \<le> unat KERNEL_AREA_MEM - 4096"
    "flags AND MAP_FIXED = 0" "flags AND MAP_ANONYMOUS \<noteq> 0" "prot \<noteq> PROT_NONE"
    and gap: "find_gap (mm_mgr st) (page_up len) USER_MMAP_START = Some lo" "unat lo + unat (page_up len) \<le> unat KERNEL_AREA_MEM"
  shows "\<exists>st'. sys_mmap mem vfs_map fdts addr len prot flags fd offset st = Some (lo, st') \<and> space_ok st' \<and>
    (\<forall>a. lo \<le> a \<and> a < lo + page_up len \<longrightarrow> mgr_map (mm_mgr st) a = None) \<and>
    mgr_map (mm_mgr st') = (\<lambda>a. if lo \<le> a \<and> a < lo + page_up len then Some (anonymous_view prot flags) else mgr_map (mm_mgr st) a) \<and>
    reserved (mm_queue st') = reserved (mm_queue st) \<union> {(a, mm_x86_64_pt_flags_from_prot prot) | a. lo \<le> a \<and> a < lo + page_up len}"
proof -
  have ok: "areas_ok (vma_list (mm_mgr st))" "lazy_ok (mm_queue st)" "\<not> mm_op_locked st"
    "\<forall>(a, f)\<in>reserved (mm_queue st). mgr_map (mm_mgr st) a \<noteq> None" using assms(2) by (auto simp: space_ok_def)
  have len: "unat (page_up len) = (unat len + 4095) div 4096 * 4096" "4096 dvd unat (page_up len)"
    using page_up_props [of len] assms(5) by simp_all
  then have pos: "0 < unat (page_up len)" "page_up len \<noteq> 0" using assms(4) by (auto simp: div_greater_zero_iff)
  have sum: "unat (lo + page_up len) = unat lo + unat (page_up len)" using gap(2) by (intro unat_add_no_wrap) simp
  then have lt: "lo < lo + page_up len" using pos by (simp add: word_less_nat_alt)
  have al: "4096 dvd unat lo" using find_gap_spec(2) [OF gap(1)] by simp
  have free: "mgr_map (mm_mgr st) a = None" if "lo \<le> a" "a < lo + page_up len" for a
    using find_gap_spec(1) [OF gap(1)] vma_find_intersection_None [OF ok(1) lt] that by blast
  then have fresh: "\<forall>(a, f)\<in>reserved (mm_queue st). \<not> (lo \<le> a \<and> a < lo + page_up len)" using ok(4) by blast
  have "\<not> check_user_overflow 0 (page_up len)" using gap(2) by (simp add: check_user_overflow_def word_less_nat_alt)
  then have "sys_mmap mem vfs_map fdts addr len prot flags fd offset st =
      mmap_locked mem vfs_map fdts lo (page_up len) prot flags fd offset (st\<lparr>mm_mgr := mm_mgr st\<rparr>)"
    using gap(1) pos assms(3,6,7) by (simp add: sys_mmap_def Let_def mmap_place_def)
  moreover obtain st' where st': "mmap_locked mem vfs_map fdts lo (page_up len) prot flags fd offset st = Some (lo, st')"
    "areas_ok (vma_list (mm_mgr st'))" "lazy_ok (mm_queue st')" "\<not> mm_op_locked st'"
    "mgr_map (mm_mgr st') = (\<lambda>a. if lo \<le> a \<and> a < lo + page_up len then Some (anonymous_view prot flags) else mgr_map (mm_mgr st) a)"
    "reserved (mm_queue st') = {(a, f) \<in> reserved (mm_queue st). \<not> (lo \<le> a \<and> a < lo + page_up len)} \<union>
      {(a, mm_x86_64_pt_flags_from_prot prot) | a. lo \<le> a \<and> a < lo + page_up len}"
    using mmap_locked_spec [where vfs_map = vfs_map and fdts = fdts and fd = fd and offset = offset,
        OF assms(1) ok(1-3) assms(7,8) al len(2) pos(1) gap(2) free fresh] by blast
  moreover have kept: "{(a, f) \<in> reserved (mm_queue st). \<not> (lo \<le> a \<and> a < lo + page_up len)} = reserved (mm_queue st)"
    using fresh by auto
  moreover have "space_ok st'" using st'(2-4) still_inside [OF ok(4) st'(6,5)] by (simp add: space_ok_def)
  ultimately show ?thesis using free by simp
qed

text \<open>Unmapping a fresh anonymous mapping gives back the address space there was.\<close>

lemma anonymous_no_file_cut:
  assumes "areas_ok (vma_list mgr)"
    "mgr_map mgr = (\<lambda>a. if lo \<le> a \<and> a < hi then Some (anonymous_view prot flags) else m a)"
  shows "no_file_cut lo hi (vma_list mgr)"
  unfolding no_file_cut_def
proof (intro ballI impI notI)
  fix v assume v: "v \<in> set (vma_list mgr)" "vm_type v = VMA_TYPE_FILE" "lo \<le> vm_start v \<and> vm_start v < hi \<and> hi < vm_end v"
  then have "inside v (vm_start v)" using assms(1) by (auto simp: inside_def areas_ok_def)
  from mapped_inside [OF assms(1) v(1) this] have "mgr_map mgr (vm_start v) = Some (view_at v (vm_start v))"
    by (simp add: mgr_map_def)
  then show False using assms(2) v(2,3) by (simp add: view_at_def anonymous_view_def)
qed

section \<open>mprotect\<close>

text \<open>What the splitting walk turns a chain into: the same map, with no area across either end of the range.\<close>

definition cut_at :: "u64 \<Rightarrow> u64 \<Rightarrow> vma_t list \<Rightarrow> vma_t list \<Rightarrow> bool" where
  "cut_at lo hi vs vs' \<longleftrightarrow> areas_ok vs' \<and> mapped vs' = mapped vs \<and> (\<forall>v\<in>set vs'. \<not> straddles lo v \<and> \<not> straddles hi v)"

lemma cut_at_Cons:
  assumes "cut_at lo hi vs vs'" "areas_ok (v # vs)" "\<not> straddles lo v" "\<not> straddles hi v"
  shows "cut_at lo hi (v # vs) (v # vs')"
proof -
  have v: "vm_start v < vm_end v" "\<forall>w\<in>set vs. vm_end v \<le> vm_start w" using assms(2) by (auto simp: areas_ok_Cons)
  have c: "areas_ok vs'" "mapped vs' = mapped vs" using assms(1) by (auto simp: cut_at_def)
  have "\<forall>w\<in>set vs'. vm_end v \<le> vm_start w" using above_mapped [OF c(1) _ v(2)] c(2) by simp
  then show ?thesis using assms(1,3,4) v(1) c by (auto simp: cut_at_def areas_ok_Cons fun_eq_iff)
qed

lemma cut_at_eq: "mapped us = mapped vs \<Longrightarrow> cut_at lo hi us vs' \<Longrightarrow> cut_at lo hi vs vs'"
  by (simp add: cut_at_def)

text \<open>Splitting one area of a chain.\<close>

lemma split_in_chain:
  assumes "areas_ok (v # vs)" "straddles p v" "\<And>s. mem s"
  obtains w where "vma_split mem v p = Some (v\<lparr>vm_end := p\<rparr>, Some w)" "areas_ok (v\<lparr>vm_end := p\<rparr> # w # vs)"
    "mapped (v\<lparr>vm_end := p\<rparr> # w # vs) = mapped (v # vs)" "vm_start w = p" "vm_end w = vm_end v"
proof -
  obtain w where w: "vma_split mem v p = Some (v\<lparr>vm_end := p\<rparr>, Some w)" "vm_start w = p" "vm_end w = vm_end v"
    "\<And>a. view_at w a = view_at v a"
    using vma_split_spec [of v p mem] assms(2,3) unfolding straddles_def by blast
  have "areas_ok (v\<lparr>vm_end := p\<rparr> # w # vs)" using assms(1,2) w(2,3) by (auto simp: areas_ok_Cons straddles_def)
  moreover have "mapped (v\<lparr>vm_end := p\<rparr> # w # vs) a = mapped (v # vs) a" for a
    using assms(2) w(2-4) by (auto simp: inside_def straddles_def)
  ultimately show ?thesis using that w by blast
qed

lemma areas_ok_tail: "areas_ok (v # vs) \<Longrightarrow> areas_ok vs"
  by (simp add: areas_ok_Cons)

text \<open>The step of the walk on an area across \<open>lo\<close>, and on one that starts inside the range.\<close>

definition protect_next :: "(nat \<Rightarrow> nat \<Rightarrow> bool) \<Rightarrow> nat \<Rightarrow> u64 \<Rightarrow> u64 \<Rightarrow> vma_t list \<Rightarrow> vma_t list option" where
  "protect_next mem n lo hi ws =
     (if ws \<noteq> [] \<and> straddles hi (hd ws) then
        case vma_split (mem (n + 1)) (hd ws) hi of
          None \<Rightarrow> None
        | Some (nxt, beyond) \<Rightarrow> protect_split mem (n + 2) lo hi (nxt # opt_cons beyond (tl ws))
      else protect_split mem (n + 2) lo hi ws)"

lemma protect_low:
  assumes "straddles lo v" "vm_start v < hi" "vma_split (mem n) v lo = Some (v\<lparr>vm_end := lo\<rparr>, Some u)"
  shows "protect_split mem n lo hi (v # ws) = map_option ((#) (v\<lparr>vm_end := lo\<rparr>)) (protect_next mem n lo hi (u # ws))"
proof -
  have "\<not> (vm_end v \<le> lo \<or> hi \<le> vm_start v)" "vm_start v < lo \<and> lo < vm_end v" "\<not> lo \<le> vm_start (v\<lparr>vm_end := lo\<rparr>)"
    using assms(1,2) by (auto simp: straddles_def)
  then show ?thesis using assms(3) unfolding protect_split.simps(2) [of mem n lo hi v ws] protect_next_def
    by (simp only: if_True if_False simp_thms option.case prod.case opt_cons_def Let_def list.sel list.distinct straddles_def)
      (simp split: option.split)
qed

lemma protect_mid:
  assumes "lo \<le> vm_start v" "vm_start v < hi" "vm_start v < vm_end v"
  shows "protect_split mem n lo hi (v # ws) =
    (if (ws \<noteq> [] \<and> straddles hi (hd ws)) \<or> \<not> straddles hi v then map_option ((#) v) (protect_next mem n lo hi ws)
     else case vma_split (mem (n + 1)) v hi of
         None \<Rightarrow> None
       | Some (v, beyond) \<Rightarrow> map_option (\<lambda>r. v # opt_cons beyond r) (protect_split mem (n + 2) lo hi ws))"
proof -
  have c: "\<not> (vm_end v \<le> lo \<or> hi \<le> vm_start v)" "\<not> vm_start v < lo" "\<not> (vm_start v < lo \<and> lo < vm_end v)" using assms by auto
  have "(vm_start v < hi \<and> hi < vm_end v \<and> lo \<le> vm_start v) = straddles hi v" using assms(1) by (auto simp: straddles_def)
  then show ?thesis using c unfolding protect_split.simps(2) [of mem n lo hi v ws] protect_next_def
    by (simp only: if_True if_False simp_thms option.case prod.case opt_cons_def Let_def straddles_def)
      (auto split: option.split)
qed

lemma protect_next_spec:
  assumes IH: "\<And>us m. cuts_left lo hi us < k \<Longrightarrow> areas_ok us \<Longrightarrow> \<exists>r. protect_split mem m lo hi us = Some r \<and> cut_at lo hi us r"
    and "cuts_left lo hi ws < k" "areas_ok ws" "\<And>n s. mem n s"
  shows "\<exists>z. protect_next mem n lo hi ws = Some z \<and> cut_at lo hi ws z"
proof (cases "ws \<noteq> [] \<and> straddles hi (hd ws)")
  case True
  then obtain u us where ws: "ws = u # us" by (cases ws) auto
  obtain t where t: "vma_split (mem (n + 1)) u hi = Some (u\<lparr>vm_end := hi\<rparr>, Some t)" "areas_ok (u\<lparr>vm_end := hi\<rparr> # t # us)"
    "mapped (u\<lparr>vm_end := hi\<rparr> # t # us) = mapped (u # us)"
    using split_in_chain [of u us hi "mem (n + 1)"] assms(3,4) True ws by auto
  have "cuts_left lo hi (u\<lparr>vm_end := hi\<rparr> # t # us) < k"
    using cuts_second [of ws "mem (n + 1)" hi "u\<lparr>vm_end := hi\<rparr>" "Some t" lo] t(1) assms(2) ws by (simp add: opt_cons_def)
  from IH [OF this t(2), of "n + 2"] obtain z where "protect_split mem (n + 2) lo hi (u\<lparr>vm_end := hi\<rparr> # t # us) = Some z"
    "cut_at lo hi (u\<lparr>vm_end := hi\<rparr> # t # us) z" by blast
  then show ?thesis using True t(1) cut_at_eq [OF t(3)] ws by (auto simp: protect_next_def opt_cons_def)
next
  case False
  then show ?thesis using IH [OF assms(2,3), of "n + 2"] unfolding protect_next_def by (simp only: if_False)
qed

lemma protect_split_spec:
  assumes "areas_ok vs" "lo < hi" "\<And>n s. mem n s"
  shows "\<exists>vs'. protect_split mem n lo hi vs = Some vs' \<and> cut_at lo hi vs vs'"
  using assms(1)
proof (induction "cuts_left lo hi vs" arbitrary: vs n rule: less_induct)
  case less
  show ?case
  proof (cases vs)
    case Nil
    then show ?thesis by (simp add: cut_at_def)
  next
    case vs: (Cons v ws)
    note ok = less.prems [unfolded vs]
    have okw: "areas_ok ws" using ok by (rule areas_ok_tail)
    have ne: "vm_start v < vm_end v" "\<And>w. w \<in> set ws \<Longrightarrow> vm_end v \<le> vm_start w" using ok by (auto simp: areas_ok_Cons)
    have tail: "\<exists>r. protect_split mem m lo hi ws = Some r \<and> cut_at lo hi ws r" for m
      using less.hyps [of ws m] cuts_tail [of lo hi ws v] okw vs by metis
    consider (away) "vm_end v \<le> lo \<or> hi \<le> vm_start v" | (low) "straddles lo v" "vm_start v < hi"
      | (mid) "lo \<le> vm_start v" "vm_start v < hi" using ne(1) unfolding straddles_def by fastforce
    then show ?thesis
    proof cases
      case away
      then have n: "\<not> straddles lo v" "\<not> straddles hi v" using assms(2) by (auto simp: straddles_def)
      obtain r where r: "protect_split mem n lo hi ws = Some r" "cut_at lo hi ws r" using tail by blast
      then have "protect_split mem n lo hi vs = Some (v # r)"
        using away unfolding vs by (subst protect_split.simps(2)) simp
      then show ?thesis using cut_at_Cons [OF r(2) ok n] vs by blast
    next
      case low
      obtain u where u: "vma_split (mem n) v lo = Some (v\<lparr>vm_end := lo\<rparr>, Some u)" "areas_ok (v\<lparr>vm_end := lo\<rparr> # u # ws)"
        "mapped (v\<lparr>vm_end := lo\<rparr> # u # ws) = mapped (v # ws)"
        using split_in_chain [OF ok low(1), of "mem n"] assms(3) by metis
      have nv: "\<not> straddles lo (v\<lparr>vm_end := lo\<rparr>)" "\<not> straddles hi (v\<lparr>vm_end := lo\<rparr>)" using assms(2) by (auto simp: straddles_def)
      have cuts: "cuts_left lo hi (u # ws) < cuts_left lo hi vs"
        using cuts_first [of v lo "mem n" "v\<lparr>vm_end := lo\<rparr>" "Some u" hi ws] u(1) low(1) vs by (simp add: opt_cons_def straddles_def)
      obtain z where z: "protect_split mem n lo hi vs = Some (v\<lparr>vm_end := lo\<rparr> # z)" "cut_at lo hi (u # ws) z"
        using protect_next_spec [OF less.hyps cuts areas_ok_tail [OF u(2)] assms(3)] protect_low [where mem = mem and n = n, OF low u(1)] vs by fastforce
      show ?thesis using z(1) cut_at_eq [OF u(3) cut_at_Cons [OF z(2) u(2) nv]] vs by blast
    next
      case mid
      show ?thesis
      proof (cases "straddles hi v")
        case True
        then have "\<not> (ws \<noteq> [] \<and> straddles hi (hd ws))" using ne(2) [of "hd ws"] by (auto simp: straddles_def)
        moreover obtain t where t: "vma_split (mem (n + 1)) v hi = Some (v\<lparr>vm_end := hi\<rparr>, Some t)" "areas_ok (v\<lparr>vm_end := hi\<rparr> # t # ws)"
          "mapped (v\<lparr>vm_end := hi\<rparr> # t # ws) = mapped (v # ws)" "vm_start t = hi"
          using split_in_chain [OF ok True, of "mem (n + 1)"] assms(3) by metis
        moreover obtain r where r: "protect_split mem (n + 2) lo hi ws = Some r" "cut_at lo hi ws r" using tail by blast
        ultimately have run: "protect_split mem n lo hi vs = Some (v\<lparr>vm_end := hi\<rparr> # t # r)"
          using protect_mid [OF mid ne(1), of mem n ws] True vs by (auto simp: opt_cons_def)
        have "\<not> straddles lo t" "\<not> straddles hi t" using t(4) assms(2) by (auto simp: straddles_def)
        then have "cut_at lo hi (t # ws) (t # r)" using cut_at_Cons [OF r(2) areas_ok_tail [OF t(2)]] by blast
        moreover have "\<not> straddles lo (v\<lparr>vm_end := hi\<rparr>)" "\<not> straddles hi (v\<lparr>vm_end := hi\<rparr>)"
          using mid(1) by (auto simp: straddles_def)
        ultimately have "cut_at lo hi (v\<lparr>vm_end := hi\<rparr> # t # ws) (v\<lparr>vm_end := hi\<rparr> # t # r)"
          using cut_at_Cons [OF _ t(2)] by blast
        then show ?thesis using run cut_at_eq [OF t(3)] vs by blast
      next
        case False
        obtain z where z: "protect_next mem n lo hi ws = Some z" "cut_at lo hi ws z"
          using protect_next_spec [OF less.hyps _ okw assms(3)] cuts_tail [of lo hi ws v] vs by blast
        have "\<not> straddles lo v" using mid(1) by (auto simp: straddles_def)
        then show ?thesis using protect_mid [OF mid ne(1), of mem n ws] z cut_at_Cons [OF z(2) ok _ False] False vs by simp
      qed
    qed
  qed
qed

text \<open>The second walk rewrites the flags of the areas inside the range.\<close>

definition new_protection :: "u64 \<Rightarrow> view \<Rightarrow> view" where
  "new_protection prot w = ((fst w AND NOT (VMA_READ OR VMA_WRITE OR VMA_EXEC)) OR prot_flags prot, snd w)"

lemma reprotect_fields [simp]:
  "vm_start (reprotect lo hi prot v) = vm_start v" "vm_end (reprotect lo hi prot v) = vm_end v"
  "inside (reprotect lo hi prot v) a = inside v a"
  by (simp_all add: reprotect_def inside_def)

lemma view_at_reprotect:
  "view_at (reprotect lo hi prot v) a =
    (if lo \<le> vm_start v \<and> vm_end v \<le> hi then new_protection prot (view_at v a) else view_at v a)"
  by (simp add: view_at_def reprotect_def new_protection_def)

lemma areas_ok_reprotect: "areas_ok vs \<Longrightarrow> areas_ok (map (reprotect lo hi prot) vs)"
  by (induction vs) (auto simp: areas_ok_Cons)

lemma mapped_reprotect:
  assumes "\<forall>v\<in>set vs. vm_start v < vm_end v \<and> \<not> straddles lo v \<and> \<not> straddles hi v"
  shows "mapped (map (reprotect lo hi prot) vs) a =
    (if lo \<le> a \<and> a < hi then map_option (new_protection prot) (mapped vs a) else mapped vs a)"
  using assms
proof (induction vs)
  case (Cons v vs)
  have v: "\<not> straddles lo v" "\<not> straddles hi v" using Cons.prems by simp_all
  show ?case
  proof (cases "inside v a")
    case True
    have "(lo \<le> a \<and> a < hi) = (lo \<le> vm_start v \<and> vm_end v \<le> hi)" using True v by (auto simp: inside_def straddles_def)
    then show ?thesis using True by (simp add: view_at_reprotect)
  next
    case False
    then show ?thesis using Cons by simp
  qed
qed simp

lemma populate_present:
  assumes "\<And>a. lo \<le> a \<Longrightarrow> a < hi \<Longrightarrow> translate a \<noteq> 0" "lo \<le> a" "unat a + n * 4096 < 2 ^ 64"
  shows "populate vfs_map translate fdts n a hi prot pf st = Some (Inr st)"
  using assms(2,3)
proof (induction n arbitrary: a)
  case (Suc n)
  have "unat (a + PAGE_SIZE) = unat a + 4096" using Suc.prems(2) unat_add_no_wrap [of a PAGE_SIZE] by simp
  then have "lo \<le> a + PAGE_SIZE" "unat (a + PAGE_SIZE) + n * 4096 < 2 ^ 64" using Suc.prems by (auto simp: word_le_nat_alt)
  from Suc.IH [OF this] show ?case using assms(1) [of a] Suc.prems(1) by simp
qed simp

lemma sys_mprotect_spec:
  assumes "all_granted mem" "areas_ok (vma_list (mm_mgr st))" "user_range addr len"
  defines "lo \<equiv> page_down addr" and "hi \<equiv> page_down addr + page_up len"
  assumes present: "prot = PROT_NONE \<or> (\<forall>a. lo \<le> a \<and> a < hi \<longrightarrow> translate a \<noteq> 0)"
  shows "\<exists>st'. sys_mprotect mem vfs_map translate fdts addr len prot st = Some (0, st') \<and> areas_ok (vma_list (mm_mgr st')) \<and>
    mm_queue st' = mm_queue st \<and>
    mm_effects st' = mm_effects st @ [Change_attribute lo (page_up len) (mm_x86_64_pt_flags_from_prot prot)] \<and>
    mgr_map (mm_mgr st') = (\<lambda>a. if lo \<le> a \<and> a < hi then map_option (new_protection prot) (mgr_map (mm_mgr st) a)
      else mgr_map (mm_mgr st) a)"
proof -
  note r = user_rangeD [OF assms(3)]
  have granted: "split_ok mem n s" for n s using assms(1) by (simp add: all_granted_def)
  have lt: "lo < hi" using r(2) by (simp add: lo_def hi_def)
  have pop: "(if prot \<noteq> PROT_NONE then populate vfs_map translate fdts (unat (page_up len) div 4096) lo hi prot
      (mm_x86_64_pt_flags_from_prot prot) st else Some (Inr st)) = Some (Inr st)"
  proof (cases "prot = PROT_NONE")
    case False
    have "unat (page_up len) div 4096 * 4096 = unat (page_up len)" using r(5) by simp
    then show ?thesis using populate_present [of lo hi translate lo "unat (page_up len) div 4096"] present False r(7)
      by (simp add: lo_def)
  qed simp
  obtain vs' where vs': "protect_split (split_ok mem) 0 lo hi (vma_list (mm_mgr st)) = Some vs'" "cut_at lo hi (vma_list (mm_mgr st)) vs'"
    using protect_split_spec [where mem = "split_ok mem" and n = 0, OF assms(2) lt granted] by blast
  then have c: "areas_ok vs'" "mapped vs' = mapped (vma_list (mm_mgr st))"
    "\<forall>v\<in>set vs'. vm_start v < vm_end v \<and> \<not> straddles lo v \<and> \<not> straddles hi v"
    by (auto simp: cut_at_def areas_ok_def)
  define st1 where "st1 = log_effects st [Change_attribute lo (page_up len) (mm_x86_64_pt_flags_from_prot prot)]"
  have "sys_mprotect mem vfs_map translate fdts addr len prot st =
      Some (0, st1\<lparr>mm_mgr := (mm_mgr st1)\<lparr>vma_list := map (reprotect lo hi prot) vs'\<rparr>\<rparr>)"
    using r(3) vs'(1) unfolding sys_mprotect_def Let_def hi_def [symmetric] unfolding lo_def [symmetric] pop
    by (simp add: st1_def log_effects_def)
  then show ?thesis using areas_ok_reprotect [OF c(1)] mapped_reprotect [OF c(3)] c(2)
    by (auto simp: st1_def log_effects_def mgr_map_def fun_eq_iff)
qed

section \<open>Properties\<close>

definition demo_mem :: mm_memory where
  "demo_mem = \<lparr>split_ok = (\<lambda>_ _. True), queue_ok = (\<lambda>_ _. True), area_ok = (\<lambda>_. True), range_mem_ok = True, node_mem_ok = True\<rparr>"

definition demo_space :: mm_state where
  "demo_space = \<lparr>mm_mgr = demo_mgr, mm_queue = \<lparr>lq_nodes = [], lq_tail = None, lq_size = 0, next_node = 0\<rparr>, mm_effects = [], mm_op_locked = False\<rparr>"

lemma demo_granted: "all_granted demo_mem"
  by (simp add: all_granted_def demo_mem_def)

lemma demo_space_ok: "space_ok demo_space"
  using demo_mgr_ok by (simp add: space_ok_def demo_space_def mgr_ok_def lazy_ok_def lq_wf_def lq_data_def reserved_def)

lemma demo_aligned: "areas_aligned (vma_list demo_mgr)" "pagewise (\<lambda>_. 1)"
  by (simp_all add: areas_aligned_def demo_mgr_def demo_area_def pagewise_def)

text \<open>
  \<open>copy_to_user\<close> on a range that does not wrap returns, succeeds exactly when every address of the range is mapped writable
  and present, and then writes the bytes there; whatever it answers, it changes no address outside the writable areas.
\<close>

theorem copy_to_user_permitted:
  assumes "areas_aligned (vma_list mgr)" "pagewise translate" "unat dst + length src \<le> unat KERNEL_AREA_MEM"
  shows "\<exists>ok mem'. copy_to_user translate (Some mgr) mem dst src = Some (ok, mem') \<and>
    (ok \<longleftrightarrow> (\<forall>a. dst \<le> a \<and> a < dst + of_nat (length src) \<longrightarrow> usable translate mgr VMA_WRITE a)) \<and>
    (\<forall>a. mem' a \<noteq> mem a \<longrightarrow> usable translate mgr VMA_WRITE a) \<and>
    (ok \<longrightarrow> (\<forall>i<length src. mem' (dst + of_nat i) = src ! i))"
proof -
  define sz where "sz = (of_nat (length src) :: u64)"
  have len: "length src < 2 ^ 64" using assms(3) by simp
  then have u: "unat sz = length src" by (simp add: sz_def unsigned_of_nat take_bit_nat_eq_self)
  let ?all = "\<forall>a. dst \<le> a \<and> a < dst + sz \<longrightarrow> usable translate mgr VMA_WRITE a"
  have v: "validate_user_range translate (Some mgr) dst sz VMA_WRITE = Some ?all"
    using validate_user_range_spec [OF assms(1,2), of dst sz] assms(3) u by simp
  have range: "unat (a - dst) < length src \<longleftrightarrow> dst \<le> a \<and> a < dst + sz" for a
    using in_copied_range [of dst "length src" sz a] assms(3) by (simp add: sz_def)
  have index: "unat (of_nat i :: u64) = i" if "i < length src" for i
    using that len by (simp add: unsigned_of_nat take_bit_nat_eq_self)
  have nil: "src = []" if "sz = 0" using that u by simp
  show ?thesis
  proof (cases "sz = 0")
    case True
    then show ?thesis using nil by (auto simp: copy_to_user_def sz_def [symmetric])
  next
    case False
    then have run: "copy_to_user translate (Some mgr) mem dst src = Some (?all, if ?all then memory_write mem dst src else mem)"
      using v by (auto simp: copy_to_user_def sz_def [symmetric] Let_def)
    have "usable translate mgr VMA_WRITE a" if "?all" "memory_write mem dst src a \<noteq> mem a" for a
      using that range [of a] by (auto simp: memory_write_def split: if_splits)
    moreover have "memory_write mem dst src (dst + of_nat i) = src ! i" if "i < length src" for i
      using that index by (simp add: memory_write_def)
    ultimately show ?thesis using run unfolding sz_def [symmetric] by auto
  qed
qed

theorem copy_to_user_permitted_witness:
  "\<exists>mem'. copy_to_user (\<lambda>_. 1) (Some demo_mgr) (\<lambda>_. 0) 0x1ffe [1, 2, 3, 4] = Some (True, mem') \<and> mem' 0x2000 = 3"
proof -
  have "usable (\<lambda>_. 1) demo_mgr VMA_WRITE a" if "0x1ffe \<le> a \<and> a < 0x1ffe + of_nat (length [1, 2, 3, 4 :: u8])" for a
  proof -
    have "0x1000 \<le> a" "a < 0x5000" using that by (auto simp: word_le_nat_alt word_less_nat_alt)
    then show ?thesis by (simp add: usable_def grants_def mgr_map_def demo_mgr_def demo_area_def inside_def view_at_def)
  qed
  moreover obtain ok mem' where r: "copy_to_user (\<lambda>_. 1) (Some demo_mgr) (\<lambda>_. 0) 0x1ffe [1, 2, 3, 4] = Some (ok, mem')"
    "ok \<longleftrightarrow> (\<forall>a. 0x1ffe \<le> a \<and> a < 0x1ffe + of_nat (length [1, 2, 3, 4 :: u8]) \<longrightarrow> usable (\<lambda>_. 1) demo_mgr VMA_WRITE a)"
    "ok \<longrightarrow> (\<forall>i<length [1, 2, 3, 4 :: u8]. mem' (0x1ffe + of_nat i) = [1, 2, 3, 4] ! i)"
    using copy_to_user_permitted [OF demo_aligned, of "0x1ffe" "[1, 2, 3, 4]" "\<lambda>_. 0"] by auto
  ultimately have ok by blast
  moreover have "2 < length [1, 2, 3, 4 :: u8]" by simp
  ultimately have "mem' (0x1ffe + of_nat 2) = [1, 2, 3, 4 :: u8] ! 2" using r(3) by blast
  then show ?thesis using r(1) \<open>ok\<close> by simp
qed

text \<open>
  A range that wraps past the top of the address space passes every check: \<open>check_user_overflow\<close> compares the wrapped sum and
  the loop over the pages does not start, so \<open>copy_to_user\<close> writes to any address so close to the top, kernel memory included.
\<close>

theorem copy_to_user_wraps:
  assumes "0 < length src" "length src < 2 ^ 64" "2 ^ 64 \<le> unat dst + length src"
    "unat dst + length src - 2 ^ 64 \<le> unat KERNEL_AREA_MEM"
  shows "copy_to_user translate (Some mgr) mem dst src = Some (True, memory_write mem dst src)"
proof -
  define sz where "sz = (of_nat (length src) :: u64)"
  have u: "unat sz = length src" using assms(2) by (simp add: sz_def unsigned_of_nat take_bit_nat_eq_self)
  have "unat dst < 2 ^ 64" using unsigned_less [of dst] by simp
  then have "unat (dst + sz) = unat dst + length src - 2 ^ 64"
    using assms(2,3) u by (simp add: unat_word_ariths mod_if)
  then have "\<not> dst + sz > KERNEL_AREA_MEM" "\<not> dst < dst + sz"
    using assms(2,4) by (simp_all add: word_less_nat_alt)
  moreover have "sz \<noteq> 0" using assms(1) u by auto
  ultimately show ?thesis
    by (simp add: copy_to_user_def sz_def [symmetric] Let_def validate_user_range_def check_user_overflow_def)
      (subst validate_loop.simps, simp)
qed

theorem copy_to_user_wraps_witness:
  "copy_to_user (\<lambda>_. 0) (Some \<lparr>vma_list = [], vm_total = 0, vm_used = 0\<rparr>) (\<lambda>_. 0) 0xfffffffffffffffe [7, 8] =
    Some (True, memory_write (\<lambda>_. 0) 0xfffffffffffffffe [7, 8])"
  by (rule copy_to_user_wraps) simp_all



text \<open>
  \<open>mmap\<close> without a hint puts an anonymous mapping where nothing was mapped, and \<open>munmap\<close> of the returned range gives back
  the address space and the reservations there were before.
\<close>

theorem mmap_munmap_roundtrip:
  assumes "all_granted mem" "space_ok st" "0 < unat len" "unat len \<le> unat KERNEL_AREA_MEM - 4096"
    "flags AND MAP_FIXED = 0" "flags AND MAP_ANONYMOUS \<noteq> 0" "prot \<noteq> PROT_NONE"
    "find_gap (mm_mgr st) (page_up len) USER_MMAP_START = Some lo" "unat lo + unat len + 4095 \<le> unat KERNEL_AREA_MEM"
  shows "\<exists>st1 st2. sys_mmap mem vfs_map fdts 0 len prot flags fd offset st = Some (lo, st1) \<and> space_ok st1 \<and>
    mgr_map (mm_mgr st1) lo = Some (anonymous_view prot flags) \<and>
    sys_munmap mem lo len st1 = Some (0, st2) \<and> space_ok st2 \<and>
    mgr_map (mm_mgr st2) = mgr_map (mm_mgr st) \<and> reserved (mm_queue st2) = reserved (mm_queue st)"
proof -
  have range: "user_range lo len" using assms(3,9) by (simp add: user_range_def)
  note r = user_rangeD [OF range]
  have al: "page_down lo = lo"
    using find_gap_spec(2) [OF assms(8)] page_down_props(1) [of lo] by (auto simp: word_unat_eq_iff elim!: dvdE)
  have zero: "page_down 0 = 0" by (simp add: page_down_def)
  obtain st1 where m: "sys_mmap mem vfs_map fdts 0 len prot flags fd offset st = Some (lo, st1)" "space_ok st1"
    "\<forall>a. lo \<le> a \<and> a < lo + page_up len \<longrightarrow> mgr_map (mm_mgr st) a = None"
    "mgr_map (mm_mgr st1) = (\<lambda>a. if lo \<le> a \<and> a < lo + page_up len then Some (anonymous_view prot flags) else mgr_map (mm_mgr st) a)"
    "reserved (mm_queue st1) = reserved (mm_queue st) \<union> {(a, mm_x86_64_pt_flags_from_prot prot) | a. lo \<le> a \<and> a < lo + page_up len}"
    using sys_mmap_chosen [OF assms(1,2) zero assms(3-8)] r(7) unfolding al by blast
  have ok1: "areas_ok (vma_list (mm_mgr st1))" "lazy_ok (mm_queue st1)" "\<not> mm_op_locked st1" using m(2) by (auto simp: space_ok_def)
  have cut: "no_file_cut (page_down lo) (page_down lo + page_up len) (vma_list (mm_mgr st1))"
    using anonymous_no_file_cut [OF ok1(1) m(4)] by (simp only: al)
  obtain st2 where u: "sys_munmap mem lo len st1 = Some (0, st2)" "areas_ok (vma_list (mm_mgr st2))" "lazy_ok (mm_queue st2)"
    "mm_op_locked st2 = mm_op_locked st1"
    "mgr_map (mm_mgr st2) = (\<lambda>a. if lo \<le> a \<and> a < lo + page_up len then None else mgr_map (mm_mgr st1) a)"
    "reserved (mm_queue st2) = {(a, f) \<in> reserved (mm_queue st1). \<not> (lo \<le> a \<and> a < lo + page_up len)}"
    using sys_munmap_spec [OF assms(1) ok1(1,2) range cut] unfolding al by blast
  have inside: "\<forall>(a, f)\<in>reserved (mm_queue st). mgr_map (mm_mgr st) a \<noteq> None" using assms(2) by (simp add: space_ok_def)
  have map: "mgr_map (mm_mgr st2) = mgr_map (mm_mgr st)" unfolding u(5) m(4) using m(3) by (auto simp: fun_eq_iff)
  have res: "reserved (mm_queue st2) = reserved (mm_queue st)" unfolding u(6) m(5) using m(3) inside by (auto simp del: not_None_eq)
  have "space_ok st2" using u(2-4) ok1(3) inside by (simp add: space_ok_def map res)
  moreover have "mgr_map (mm_mgr st1) lo = Some (anonymous_view prot flags)" using m(4) r(2) by (simp add: al)
  ultimately show ?thesis using m(1,2) u(1) map res by blast
qed

theorem mmap_munmap_roundtrip_witness:
  "\<exists>st1 st2. sys_mmap demo_mem (\<lambda>_ _ _ _ _ _. 0) [] 0 0x1800 PROT_READ 0x20 (-1) 0 demo_space = Some (USER_MMAP_START, st1) \<and>
    sys_munmap demo_mem USER_MMAP_START 0x1800 st1 = Some (0, st2) \<and> mgr_map (mm_mgr st2) = mgr_map demo_mgr"
proof -
  have up: "page_up 0x1800 = 0x2000" by (simp add: page_up_def)
  have "find_gap (mm_mgr demo_space) (page_up 0x1800) USER_MMAP_START = Some USER_MMAP_START"
    unfolding up by (subst find_gap.simps) (simp add: vma_find_intersection_def demo_space_def demo_mgr_def demo_area_def)
  note round = mmap_munmap_roundtrip [OF demo_granted demo_space_ok, of "0x1800" "0x20" PROT_READ, OF _ _ _ _ _ this]
  have "\<exists>st1 st2. sys_mmap demo_mem (\<lambda>_ _ _ _ _ _. 0) [] 0 0x1800 PROT_READ 0x20 (-1) 0 demo_space = Some (USER_MMAP_START, st1) \<and>
    space_ok st1 \<and> mgr_map (mm_mgr st1) USER_MMAP_START = Some (anonymous_view PROT_READ 0x20) \<and>
    sys_munmap demo_mem USER_MMAP_START 0x1800 st1 = Some (0, st2) \<and> space_ok st2 \<and>
    mgr_map (mm_mgr st2) = mgr_map (mm_mgr demo_space) \<and> reserved (mm_queue st2) = reserved (mm_queue demo_space)"
    by (rule round) simp_all
  moreover have "mm_mgr demo_space = demo_mgr" by (simp add: demo_space_def)
  ultimately show ?thesis by (simp only:) blast
qed



text \<open>
  \<open>munmap\<close> over the front of a file mapping damages it: the rest of the area keeps the old file offset, because \<open>vm_start\<close> is
  overwritten before the difference is taken, so each remaining address now shows the file that many bytes too early, and
  \<open>vm_used\<close> still counts the bytes cut off.
\<close>

theorem munmap_front_cut_shifts_file:
  assumes "start \<le> vm_start v" "vm_start v < stop" "stop < vm_end v" "vm_type v = VMA_TYPE_FILE" "stop \<le> a" "a < vm_end v"
  shows "\<exists>vs. munmap_loop mem n start stop [v] used = Some (vs, used) \<and>
    mapped vs a = Some (view_at v (a - (stop - vm_start v))) \<and> mapped [v] a = Some (view_at v a)"
proof -
  have "inside (v\<lparr>vm_start := stop\<rparr>) a" "inside v a" using assms by (auto simp: inside_def)
  then show ?thesis using munmap_front_cut [OF assms(1-4)] by simp
qed

theorem munmap_front_cut_shifts_file_witness:
  "\<exists>vs. munmap_loop (\<lambda>_ _. True) 0 0x1000 0x2000 [demo_area 0x1000 0x5000] 0x4000 = Some (vs, 0x4000) \<and>
    mapped vs 0x2000 = Some (3, VMA_TYPE_FILE, 5, -1, None, 0x8000) \<and>
    mapped [demo_area 0x1000 0x5000] 0x2000 = Some (3, VMA_TYPE_FILE, 5, -1, None, 0x9000)"
  using munmap_front_cut_shifts_file [of "0x1000" "demo_area 0x1000 0x5000" "0x2000" "0x2000" "\<lambda>_ _. True" 0 "0x4000"]
  by (simp add: demo_area_def view_at_def inside_def)

end
