(* ===== verification/Signals.thy ===== *)
theory Signals
  imports Kernel_Prelude
begin

text \<open>
  Signals: \<^verbatim>\<open>src/src/task/signal.c\<close> and the signal system calls of \<^verbatim>\<open>src/src/task/prsys.c\<close>.  A thread has its pending and
  blocked sets as 64-bit words, the array of actions (index \<open>sig - 1\<close>) and the array of pending information (index \<open>sig\<close>).
  Of \<open>siginfo_t\<close> the three common fields and the sender are modelled.  What \<open>do_signal\<close> starts, \<open>kill_proc\<close> or
  \<open>arch_signal_setup\<close>, is returned as a \<open>sig_event\<close>.  A slot of \<open>child_threads\<close> or of the process list may be empty, as in
  the copy-on-write array lists.  \<^const>\<open>None\<close> is an access outside an array.
\<close>

section \<open>Definitions\<close>

abbreviation MINSIG :: int where "MINSIG \<equiv> 1"
abbreviation MAXSIG :: int where "MAXSIG \<equiv> 32"
abbreviation SIGKILL :: int where "SIGKILL \<equiv> 9"
abbreviation SIGSTOP :: int where "SIGSTOP \<equiv> 19"
abbreviation SIG_DFL :: u64 where "SIG_DFL \<equiv> 0"
abbreviation SIG_IGN :: u64 where "SIG_IGN \<equiv> 1"
abbreviation SA_RESTART :: u64 where "SA_RESTART \<equiv> 0x10000000"
abbreviation SI_KERNEL :: int where "SI_KERNEL \<equiv> 0x80"

datatype signal_internal_t = SIGNAL_INTERNAL_CORE | SIGNAL_INTERNAL_TERM | SIGNAL_INTERNAL_IGN | SIGNAL_INTERNAL_STOP
  | SIGNAL_INTERNAL_CONT

datatype task_status = T_CREATE | T_RUNNING | T_WAIT | T_DEATH | T_START | T_FUTEX | T_OUT | T_IO_WAIT | T_ZOMBIE

record siginfo_t =
  si_signo :: int
  si_errno :: int
  si_code :: int
  si_pid :: int
  si_uid :: int

record sigaction_t =
  sa_handler :: u64
  sa_flags :: u64
  sa_restorer :: u64
  sa_mask :: u64

record tcb =
  actions :: "sigaction_t list"
  sig_pending :: u64
  pending_siginfo :: "siginfo_t list"
  pending_siginfo_mask :: u64
  blocked :: u64
  saved_sigmask :: u64
  has_saved_sigmask :: bool
  t_status :: task_status

record pcb =
  p_pid :: int
  p_uid :: int
  p_pgid :: int
  p_status :: task_status
  child_threads :: "tcb option list"

definition zero_siginfo :: siginfo_t where
  "zero_siginfo = \<lparr>si_signo = 0, si_errno = 0, si_code = 0, si_pid = 0, si_uid = 0\<rparr>"

definition SIGMASK :: "int \<Rightarrow> u64" where
  "SIGMASK sig = push_bit (nat sig) 1"

definition signal_sig_in_range :: "int \<Rightarrow> bool" where
  "signal_sig_in_range sig \<longleftrightarrow> sig \<ge> MINSIG \<and> sig \<le> MAXSIG"

definition signal_sig_maskable :: "int \<Rightarrow> bool" where
  "signal_sig_maskable sig \<longleftrightarrow> sig \<ge> MINSIG \<and> sig < 64"

definition signal_sigbit :: "int \<Rightarrow> u64" where
  "signal_sigbit sig = push_bit (nat sig) 1"

definition sigset_user_to_kernel :: "u64 \<Rightarrow> u64" where
  "sigset_user_to_kernel user_mask =
     (let kernel_mask = push_bit 1 user_mask;
          kernel_mask = (if signal_sig_maskable SIGKILL then kernel_mask AND NOT (signal_sigbit SIGKILL) else kernel_mask)
      in if signal_sig_maskable SIGSTOP then kernel_mask AND NOT (signal_sigbit SIGSTOP) else kernel_mask)"

definition sigset_kernel_to_user :: "u64 \<Rightarrow> u64" where
  "sigset_kernel_to_user kernel_mask = drop_bit 1 kernel_mask"

text \<open>\<open>sender\<close> is the process of the current task: its pid and uid.\<close>

definition signal_fill_kernel_siginfo :: "(int \<times> int) option \<Rightarrow> int \<Rightarrow> int \<Rightarrow> siginfo_t" where
  "signal_fill_kernel_siginfo sender sig code =
     (let info = zero_siginfo\<lparr>si_signo := sig, si_errno := 0, si_code := code\<rparr>
      in case sender of None \<Rightarrow> info | Some (pid, uid) \<Rightarrow> info\<lparr>si_pid := pid, si_uid := uid\<rparr>)"

definition signal_clear_pending_info :: "tcb \<Rightarrow> int \<Rightarrow> tcb option" where
  "signal_clear_pending_info task sig =
     (if \<not> signal_sig_maskable sig then Some task
      else do {
        infos \<leftarrow> aput (pending_siginfo task) (nat sig) zero_siginfo;
        Some (task\<lparr>pending_siginfo_mask := pending_siginfo_mask task AND NOT (signal_sigbit sig), pending_siginfo := infos\<rparr>)
      })"

primrec pending_quick_loop :: "signal_internal_t list \<Rightarrow> int list \<Rightarrow> tcb \<Rightarrow> bool option" where
  "pending_quick_loop decisions [] task = Some False"
| "pending_quick_loop decisions (i # sigs) task =
     (if (sig_pending task AND NOT (blocked task)) AND SIGMASK i = 0 then pending_quick_loop decisions sigs task
      else do {
        action \<leftarrow> aget (actions task) (nat (i - 1));
        if sa_handler action = SIG_IGN then pending_quick_loop decisions sigs task
        else do {
          decision \<leftarrow> aget decisions (nat (i - 1));
          if sa_handler action = SIG_DFL \<and> decision = SIGNAL_INTERNAL_IGN then pending_quick_loop decisions sigs task
          else Some True
        }
      })"

definition all_signals :: "int list" where
  "all_signals = [MINSIG..MAXSIG]"

definition signals_pending_quick :: "signal_internal_t list \<Rightarrow> tcb \<Rightarrow> bool option" where
  "signals_pending_quick decisions task = pending_quick_loop decisions all_signals task"

text \<open>The assignments of \<open>signal_init\<close> in order; the array starts as zeros, which are \<open>SIGNAL_INTERNAL_CORE\<close>.\<close>

definition signal_init :: "signal_internal_t list" where
  "signal_init = foldl (\<lambda>d (sig, x). d[sig - 1 := x]) (replicate 32 SIGNAL_INTERNAL_CORE)
     [(6, SIGNAL_INTERNAL_CORE), (14, SIGNAL_INTERNAL_TERM), (7, SIGNAL_INTERNAL_CORE), (17, SIGNAL_INTERNAL_IGN),
      (18, SIGNAL_INTERNAL_CONT), (8, SIGNAL_INTERNAL_CORE), (1, SIGNAL_INTERNAL_TERM), (4, SIGNAL_INTERNAL_CORE),
      (2, SIGNAL_INTERNAL_TERM), (29, SIGNAL_INTERNAL_TERM), (6, SIGNAL_INTERNAL_CORE), (9, SIGNAL_INTERNAL_TERM),
      (13, SIGNAL_INTERNAL_TERM), (29, SIGNAL_INTERNAL_TERM), (27, SIGNAL_INTERNAL_TERM), (30, SIGNAL_INTERNAL_TERM),
      (3, SIGNAL_INTERNAL_CORE), (11, SIGNAL_INTERNAL_CORE), (16, SIGNAL_INTERNAL_TERM), (19, SIGNAL_INTERNAL_STOP),
      (20, SIGNAL_INTERNAL_STOP), (31, SIGNAL_INTERNAL_CORE), (15, SIGNAL_INTERNAL_TERM), (5, SIGNAL_INTERNAL_CORE),
      (21, SIGNAL_INTERNAL_STOP), (22, SIGNAL_INTERNAL_STOP), (31, SIGNAL_INTERNAL_CORE), (23, SIGNAL_INTERNAL_IGN),
      (10, SIGNAL_INTERNAL_TERM), (12, SIGNAL_INTERNAL_TERM), (26, SIGNAL_INTERNAL_TERM), (24, SIGNAL_INTERNAL_CORE),
      (25, SIGNAL_INTERNAL_CORE), (28, SIGNAL_INTERNAL_IGN)]"

subsection \<open>Sending\<close>

text \<open>The index of the first thread: \<open>cow_foreach\<close> with a \<open>break\<close> as its body.\<close>

primrec first_thread :: "nat \<Rightarrow> 'a option list \<Rightarrow> (nat \<times> 'a) option" where
  "first_thread i [] = None"
| "first_thread i (x # xs) = (case x of None \<Rightarrow> first_thread (Suc i) xs | Some t \<Rightarrow> Some (i, t))"

definition post_signal :: "(int \<times> int) option \<Rightarrow> tcb \<Rightarrow> int \<Rightarrow> siginfo_t option \<Rightarrow> tcb option" where
  "post_signal sender target sig info = do {
     target \<leftarrow> (if signal_sig_maskable sig \<and> sig_pending target AND signal_sigbit sig = 0 then do {
        infos \<leftarrow> aput (pending_siginfo target) (nat sig)
          (case info of Some i \<Rightarrow> i\<lparr>si_signo := sig\<rparr> | None \<Rightarrow> signal_fill_kernel_siginfo sender sig SI_KERNEL);
        Some (target\<lparr>pending_siginfo := infos, pending_siginfo_mask := pending_siginfo_mask target OR signal_sigbit sig\<rparr>)
      } else Some target);
     let target = target\<lparr>sig_pending := sig_pending target OR SIGMASK sig\<rparr>;
     Some (if t_status target = T_WAIT then target\<lparr>t_status := T_RUNNING\<rparr> else target)
   }"

definition send_signal_to_process_info ::
  "(int \<times> int) option \<Rightarrow> pcb option \<Rightarrow> int \<Rightarrow> siginfo_t option \<Rightarrow> (int \<times> pcb option) option" where
  "send_signal_to_process_info sender process sig info =
     (case process of
        None \<Rightarrow> Some (-22, None)
      | Some p \<Rightarrow>
          if \<not> signal_sig_in_range sig then Some (-22, Some p)
          else if p_status p = T_DEATH \<or> p_status p = T_ZOMBIE then Some (-3, Some p)
          else case first_thread 0 (child_threads p) of
            None \<Rightarrow> Some (-3, Some p)
          | Some (i, target) \<Rightarrow> do {
              target \<leftarrow> post_signal sender target sig info;
              Some (0, Some (p\<lparr>child_threads := (child_threads p)[i := Some target]\<rparr>))
            })"

definition send_signal_to_process :: "(int \<times> int) option \<Rightarrow> pcb option \<Rightarrow> int \<Rightarrow> (int \<times> pcb option) option" where
  "send_signal_to_process sender process sig = send_signal_to_process_info sender process sig None"

primrec pgroup_loop ::
  "(int \<times> int) option \<Rightarrow> int \<Rightarrow> int \<Rightarrow> siginfo_t option \<Rightarrow> pcb option list \<Rightarrow> nat \<Rightarrow> (nat \<times> pcb option list) option" where
  "pgroup_loop sender pgid sig info [] sent = Some (sent, [])"
| "pgroup_loop sender pgid sig info (x # xs) sent = do {
     (sent, x) \<leftarrow> (case x of
        None \<Rightarrow> Some (sent, None)
      | Some p \<Rightarrow>
          if p_pgid p = pgid then do {
            (r, p) \<leftarrow> send_signal_to_process_info sender (Some p) sig info;
            Some (if r = 0 then Suc sent else sent, p)
          }
          else Some (sent, Some p));
     (sent, xs) \<leftarrow> pgroup_loop sender pgid sig info xs sent;
     Some (sent, x # xs)
   }"

definition send_signal_to_pgroup_info ::
  "(int \<times> int) option \<Rightarrow> pcb option list \<Rightarrow> int \<Rightarrow> int \<Rightarrow> siginfo_t option \<Rightarrow> (int \<times> pcb option list) option" where
  "send_signal_to_pgroup_info sender procs pgid sig info =
     (if \<not> signal_sig_in_range sig then Some (-22, procs)
      else do {
        (sent, procs) \<leftarrow> pgroup_loop sender pgid sig info procs 0;
        Some (if sent > 0 then 0 else -3, procs)
      })"

definition send_signal_to_pgroup ::
  "(int \<times> int) option \<Rightarrow> pcb option list \<Rightarrow> int \<Rightarrow> int \<Rightarrow> (int \<times> pcb option list) option" where
  "send_signal_to_pgroup sender procs pgid sig = send_signal_to_pgroup_info sender procs pgid sig None"

subsection \<open>Delivering\<close>

datatype sig_event = Kill_proc int | Signal_setup int sigaction_t

definition clear_signal :: "tcb \<Rightarrow> int \<Rightarrow> tcb option" where
  "clear_signal task sig = signal_clear_pending_info (task\<lparr>sig_pending := sig_pending task AND NOT (SIGMASK sig)\<rparr>) sig"

primrec do_signal_loop :: "signal_internal_t list \<Rightarrow> int list \<Rightarrow> tcb \<Rightarrow> (tcb \<times> sig_event option) option" where
  "do_signal_loop decisions [] task = Some (task, None)"
| "do_signal_loop decisions (sig # sigs) task =
     (if sig_pending task AND SIGMASK sig = 0 then do_signal_loop decisions sigs task
      else if blocked task AND SIGMASK sig \<noteq> 0 then do_signal_loop decisions sigs task
      else do {
        action \<leftarrow> aget (actions task) (nat (sig - 1));
        task' \<leftarrow> clear_signal task sig;
        if sig = SIGKILL then Some (task', Some (Kill_proc sig))
        else if sa_handler action = SIG_IGN then do_signal_loop decisions sigs task'
        else if sa_handler action = SIG_DFL then do {
          decision \<leftarrow> aget decisions (nat (sig - 1));
          (case decision of
             SIGNAL_INTERNAL_TERM \<Rightarrow> Some (task', Some (Kill_proc sig))
           | SIGNAL_INTERNAL_CORE \<Rightarrow> Some (task', Some (Kill_proc sig))
           | SIGNAL_INTERNAL_IGN \<Rightarrow> do_signal_loop decisions sigs task'
           | SIGNAL_INTERNAL_STOP \<Rightarrow> do_signal_loop decisions sigs task'
           | SIGNAL_INTERNAL_CONT \<Rightarrow> do_signal_loop decisions sigs task')
        }
        else Some (task', Some (Signal_setup sig action))
      })"

definition do_signal :: "signal_internal_t list \<Rightarrow> tcb option \<Rightarrow> (tcb option \<times> sig_event option) option" where
  "do_signal decisions task =
     (case task of
        None \<Rightarrow> Some (None, None)
      | Some t \<Rightarrow> map_option (map_prod Some id) (do_signal_loop decisions all_signals t))"

subsection \<open>System calls\<close>

text \<open>The new thread, the value stored through \<open>oset\<close>, and the answer.\<close>

definition sys_ssetmask :: "int \<Rightarrow> u64 option \<Rightarrow> bool \<Rightarrow> tcb \<Rightarrow> int \<times> u64 option \<times> tcb" where
  "sys_ssetmask how nset oset thread =
     (let old = (if oset then Some (sigset_kernel_to_user (blocked thread)) else None) in
      case nset of
        None \<Rightarrow> (0, old, thread)
      | Some n \<Rightarrow>
          let safe = sigset_user_to_kernel n in
          if how = 0 then (0, old, thread\<lparr>blocked := blocked thread OR safe\<rparr>)
          else if how = 1 then (0, old, thread\<lparr>blocked := blocked thread AND NOT safe\<rparr>)
          else if how = 2 then (0, old, thread\<lparr>blocked := safe\<rparr>)
          else (-22, old, thread))"

definition sys_sig_action :: "int \<Rightarrow> sigaction_t option \<Rightarrow> bool \<Rightarrow> tcb \<Rightarrow> (int \<times> sigaction_t option \<times> tcb) option" where
  "sys_sig_action sig action oldaction thread =
     (if \<not> signal_sig_in_range sig \<or> sig = SIGKILL \<or> sig = SIGSTOP then Some (-22, None, thread)
      else do {
        p \<leftarrow> aget (actions thread) (nat (sig - 1));
        let old = (if oldaction then Some (p\<lparr>sa_mask := sigset_kernel_to_user (sa_mask p)\<rparr>) else None);
        (case action of
           None \<Rightarrow> Some (0, old, thread)
         | Some a \<Rightarrow> do {
             acts \<leftarrow> aput (actions thread) (nat (sig - 1)) (a\<lparr>sa_mask := sigset_user_to_kernel (sa_mask a)\<rparr>);
             Some (0, old, thread\<lparr>actions := acts\<rparr>)
           })
      })"

definition sys_signal :: "int \<Rightarrow> u64 \<Rightarrow> tcb \<Rightarrow> (u64 \<times> tcb) option" where
  "sys_signal sig handler thread =
     (if \<not> signal_sig_in_range sig \<or> sig = SIGKILL \<or> sig = SIGSTOP then Some (- 22, thread)
      else do {
        p \<leftarrow> aget (actions thread) (nat (sig - 1));
        acts \<leftarrow> aput (actions thread) (nat (sig - 1)) \<lparr>sa_handler = handler, sa_flags = SA_RESTART, sa_restorer = 0, sa_mask = 0\<rparr>;
        Some (sa_handler p, thread\<lparr>actions := acts\<rparr>)
      })"

definition sys_sigpending :: "bool \<Rightarrow> u64 \<Rightarrow> tcb \<Rightarrow> int \<times> u64 option" where
  "sys_sigpending set_ptr sigsetsize thread =
     (if \<not> set_ptr then (-22, None)
      else if sigsetsize < 8 then (-22, None)
      else (0, Some (sigset_kernel_to_user (sig_pending thread))))"

text \<open>
  \<open>scheduler_block_current\<close> is an argument: its answer and the thread when the call returns, to which other processes may have
  sent signals.
\<close>

definition sys_sigsuspend ::
  "signal_internal_t list \<Rightarrow> (tcb \<Rightarrow> int \<times> tcb) \<Rightarrow> u64 option \<Rightarrow> u64 \<Rightarrow> tcb \<Rightarrow> (int \<times> tcb) option" where
  "sys_sigsuspend decisions scheduler_block_current new_mask sigsetsize task =
     (case new_mask of
        None \<Rightarrow> Some (-22, task)
      | Some m \<Rightarrow>
          if sigsetsize < 8 then Some (-22, task)
          else do {
            let old = blocked task;
            let task = task\<lparr>blocked := sigset_user_to_kernel m\<rparr>;
            pending \<leftarrow> signals_pending_quick decisions task;
            let (wait_ret, task) = (if pending then (-4, task) else scheduler_block_current task);
            if wait_ret \<noteq> -4 then Some (wait_ret, task\<lparr>blocked := old\<rparr>)
            else Some (-4, task\<lparr>saved_sigmask := old, has_saved_sigmask := True\<rparr>)
          })"

primrec pick_from :: "int list \<Rightarrow> u64 \<Rightarrow> int" where
  "pick_from [] pending = 0"
| "pick_from (i # sigs) pending = (if pending AND SIGMASK i \<noteq> 0 then i else pick_from sigs pending)"

definition pick_pending_signal :: "u64 \<Rightarrow> int" where
  "pick_pending_signal pending = pick_from all_signals pending"

definition timedwait_round ::
  "u64 \<Rightarrow> u64 option \<Rightarrow> u64 \<Rightarrow> u64 \<Rightarrow> tcb \<Rightarrow> (int \<times> siginfo_t option \<times> tcb) option option" where
  "timedwait_round wanted timeout_ns start now thread =
     (let pending = sig_pending thread AND wanted in
      if pending \<noteq> 0 then do {
        let signum = pick_pending_signal pending;
        info \<leftarrow> (if signum > 0 \<and> signal_sig_maskable signum \<and> pending_siginfo_mask thread AND signal_sigbit signum \<noteq> 0
           then aget (pending_siginfo thread) (nat signum) else Some (zero_siginfo\<lparr>si_signo := signum\<rparr>));
        thread \<leftarrow> (if signum > 0 \<and> signal_sig_maskable signum then clear_signal thread signum else Some thread);
        Some (Some (if signum > 0 then signum else -11, Some info, thread))
      }
      else Some (if timeout_ns \<noteq> None \<and> now - start \<ge> the timeout_ns then Some (-11, None, thread) else None))"

text \<open>
  The polling loop of \<open>sigtimedwait\<close>: \<open>ticks\<close> are the clock reading and the thread at the start of each later round.  \<open>Inr\<close> is
  the call still polling when they run out.
\<close>

primrec timedwait_loop ::
  "u64 \<Rightarrow> u64 option \<Rightarrow> u64 \<Rightarrow> (u64 \<times> tcb) list \<Rightarrow> u64 \<Rightarrow> tcb \<Rightarrow> ((int \<times> siginfo_t option \<times> tcb) + tcb) option" where
  "timedwait_loop wanted timeout_ns start [] now thread = do {
     r \<leftarrow> timedwait_round wanted timeout_ns start now thread;
     Some (case r of Some answer \<Rightarrow> Inl answer | None \<Rightarrow> Inr thread)
   }"
| "timedwait_loop wanted timeout_ns start (tick # ticks) now thread = do {
     r \<leftarrow> timedwait_round wanted timeout_ns start now thread;
     (case r of
        Some answer \<Rightarrow> Some (Inl answer)
      | None \<Rightarrow> timedwait_loop wanted timeout_ns start ticks (fst tick) (snd tick))
   }"

definition sys_sigtimedwait ::
  "u64 option \<Rightarrow> (u64 \<times> u64) option \<Rightarrow> u64 \<Rightarrow> (u64 \<times> tcb) list \<Rightarrow> u64 \<Rightarrow> tcb \<Rightarrow>
   ((int \<times> siginfo_t option \<times> tcb) + tcb) option" where
  "sys_sigtimedwait set_ptr timeout sigsetsize ticks start thread =
     (case set_ptr of
        None \<Rightarrow> Some (Inl (-22, None, thread))
      | Some s \<Rightarrow>
          if sigsetsize < 8 then Some (Inl (-22, None, thread))
          else if sigset_user_to_kernel s = 0 then Some (Inl (-22, None, thread))
          else case timeout of
            None \<Rightarrow> timedwait_loop (sigset_user_to_kernel s) None start ticks start thread
          | Some (tv_sec, tv_nsec) \<Rightarrow>
              if tv_nsec \<ge> 1000000000 then Some (Inl (-22, None, thread))
              else timedwait_loop (sigset_user_to_kernel s) (Some (tv_sec * 1000000000 + tv_nsec)) start ticks start thread)"

text \<open>\<open>process\<close> is what \<open>found_pcb\<close> answers for the pid.\<close>

definition sys_sigqueueinfo ::
  "(int \<times> int) option \<Rightarrow> pcb option \<Rightarrow> int \<Rightarrow> siginfo_t option \<Rightarrow> (int \<times> pcb option) option" where
  "sys_sigqueueinfo sender process sig info =
     (if \<not> signal_sig_in_range sig then Some (-22, process)
      else case process of
        None \<Rightarrow> Some (-3, None)
      | Some p \<Rightarrow>
          if p_status p = T_DEATH then Some (-3, Some p)
          else if first_thread 0 (child_threads p) = None then Some (-3, Some p)
          else do {
            (r, p) \<leftarrow> send_signal_to_process_info sender (Some p) sig info;
            Some (if r = 0 then 0 else -3, p)
          })"

section \<open>Signal sets\<close>

lemma mask_bits:
  assumes "0 \<le> sig" "sig < 64"
  shows "w AND SIGMASK sig = 0 \<longleftrightarrow> \<not> bit w (nat sig)"
    "k < 64 \<Longrightarrow> bit (w AND NOT (SIGMASK sig)) k \<longleftrightarrow> bit w k \<and> k \<noteq> nat sig"
    "k < 64 \<Longrightarrow> bit (w OR SIGMASK sig) k \<longleftrightarrow> bit w k \<or> k = nat sig"
proof -
  have n: "nat sig < 64" using assms by simp
  show "w AND SIGMASK sig = 0 \<longleftrightarrow> \<not> bit w (nat sig)"
    by (simp add: SIGMASK_def and_exp_eq_0_iff_not_bit)
  show "k < 64 \<Longrightarrow> bit (w AND NOT (SIGMASK sig)) k \<longleftrightarrow> bit w k \<and> k \<noteq> nat sig"
    "k < 64 \<Longrightarrow> bit (w OR SIGMASK sig) k \<longleftrightarrow> bit w k \<or> k = nat sig"
    using n by (auto simp: SIGMASK_def bit_simps)
qed

lemma user_to_kernel_bits:
  assumes "k < 64"
  shows "bit (sigset_user_to_kernel m) k \<longleftrightarrow> 0 < k \<and> bit m (k - 1) \<and> k \<noteq> 9 \<and> k \<noteq> 19"
proof -
  have "sigset_user_to_kernel m = (push_bit 1 m AND NOT (SIGMASK 9)) AND NOT (SIGMASK 19)"
    by (simp only: sigset_user_to_kernel_def signal_sig_maskable_def signal_sigbit_def SIGMASK_def Let_def) simp
  moreover have "bit (push_bit 1 m) k \<longleftrightarrow> 0 < k \<and> bit m (k - 1)" using assms by (auto simp only: bit_push_bit_iff) auto
  ultimately show ?thesis using assms mask_bits(2) [of 19 k] mask_bits(2) [of 9 k] by auto
qed

lemma kernel_to_user_bits: "bit (sigset_kernel_to_user m) k \<longleftrightarrow> bit m (k + 1)"
  by (simp add: sigset_kernel_to_user_def bit_simps)

section \<open>Threads\<close>

definition tcb_ok :: "tcb \<Rightarrow> bool" where
  "tcb_ok t \<longleftrightarrow> length (actions t) = 32 \<and> length (pending_siginfo t) = 33"

definition deliverable :: "tcb \<Rightarrow> int \<Rightarrow> bool" where
  "deliverable t sig \<longleftrightarrow> bit (sig_pending t) (nat sig) \<and> \<not> bit (blocked t) (nat sig)"

text \<open>What the delivery of one signal starts; nothing for a signal that is ignored, stops or continues.\<close>

definition fate :: "signal_internal_t list \<Rightarrow> tcb \<Rightarrow> int \<Rightarrow> sig_event option" where
  "fate d t sig =
     (let action = actions t ! nat (sig - 1) in
      if sig = SIGKILL then Some (Kill_proc sig)
      else if sa_handler action = SIG_IGN then None
      else if sa_handler action = SIG_DFL then
        (if d ! nat (sig - 1) \<in> {SIGNAL_INTERNAL_TERM, SIGNAL_INTERNAL_CORE} then Some (Kill_proc sig) else None)
      else Some (Signal_setup sig action))"

text \<open>The first signal of a list whose delivery starts something.\<close>

definition first_fatal :: "signal_internal_t list \<Rightarrow> tcb \<Rightarrow> int list \<Rightarrow> int option" where
  "first_fatal d t sigs = find (\<lambda>s. deliverable t s \<and> fate d t s \<noteq> None) sigs"

lemma first_fatal_Cons:
  "first_fatal d t (s # sigs) = (if deliverable t s \<and> fate d t s \<noteq> None then Some s else first_fatal d t sigs)"
  by (auto simp: first_fatal_def)

lemma find_cong_set: "(\<And>x. x \<in> set xs \<Longrightarrow> P x = Q x) \<Longrightarrow> find P xs = find Q xs"
  by (induction xs) auto

lemma clear_signal_spec:
  assumes "tcb_ok t" "1 \<le> sig" "sig \<le> 32"
  obtains t' where "clear_signal t sig = Some t'" "tcb_ok t'" "actions t' = actions t" "blocked t' = blocked t"
    "\<And>k. k < 64 \<Longrightarrow> bit (sig_pending t') k \<longleftrightarrow> bit (sig_pending t) k \<and> k \<noteq> nat sig"
proof -
  let ?t = "t\<lparr>sig_pending := sig_pending t AND NOT (SIGMASK sig), pending_siginfo_mask := pending_siginfo_mask t AND NOT (signal_sigbit sig),
    pending_siginfo := (pending_siginfo t)[nat sig := zero_siginfo]\<rparr>"
  have "clear_signal t sig = Some ?t"
    using assms by (simp add: clear_signal_def signal_clear_pending_info_def signal_sig_maskable_def tcb_ok_def)
  then show ?thesis using that [of ?t] assms mask_bits(2) [of sig] by (simp add: tcb_ok_def)
qed

text \<open>
  The delivery loop on an ascending list: it returns, starts what the first signal with an effect starts, and takes out of the
  pending set the deliverable signals up to that one.
\<close>

definition delivered :: "signal_internal_t list \<Rightarrow> tcb \<Rightarrow> int list \<Rightarrow> int \<Rightarrow> bool" where
  "delivered d t sigs s \<longleftrightarrow> s \<in> set sigs \<and> deliverable t s \<and> (\<forall>f. first_fatal d t sigs = Some f \<longrightarrow> s \<le> f)"

definition loop_post :: "signal_internal_t list \<Rightarrow> tcb \<Rightarrow> int list \<Rightarrow> tcb \<Rightarrow> sig_event option \<Rightarrow> bool" where
  "loop_post d t sigs t' e \<longleftrightarrow> tcb_ok t' \<and> actions t' = actions t \<and> blocked t' = blocked t \<and>
     e = (case first_fatal d t sigs of None \<Rightarrow> None | Some s \<Rightarrow> fate d t s) \<and>
     (\<forall>k<64. bit (sig_pending t') k \<longleftrightarrow> bit (sig_pending t) k \<and> \<not> (\<exists>s. delivered d t sigs s \<and> nat s = k))"

lemma loop_post_skip:
  assumes "loop_post d t sigs t' e" "\<not> deliverable t s"
  shows "loop_post d t (s # sigs) t' e"
  using assms by (auto simp: loop_post_def delivered_def first_fatal_Cons)

lemma loop_post_clear:
  assumes "loop_post d t1 sigs t' e" "deliverable t s" "fate d t s = None" "\<forall>x\<in>set sigs. s < x" "1 \<le> s"
    and t1: "actions t1 = actions t" "blocked t1 = blocked t"
    "\<And>k. k < 64 \<Longrightarrow> bit (sig_pending t1) k \<longleftrightarrow> bit (sig_pending t) k \<and> k \<noteq> nat s"
    and range: "\<forall>x\<in>set (s # sigs). x \<le> 32"
  shows "loop_post d t (s # sigs) t' e"
proof -
  have same: "deliverable t1 x = deliverable t x" "fate d t1 x = fate d t x" if "x \<in> set sigs" for x
  proof -
    have "nat x < 64" "nat x \<noteq> nat s" using that assms(4,5) range by force+
    then show "deliverable t1 x = deliverable t x" using t1 by (simp add: deliverable_def)
    show "fate d t1 x = fate d t x" using t1(1) by (simp add: fate_def)
  qed
  then have first: "first_fatal d t1 sigs = first_fatal d t sigs" unfolding first_fatal_def by (intro find_cong_set) simp
  have del: "delivered d t (s # sigs) x \<longleftrightarrow> x = s \<or> delivered d t1 sigs x" for x
  proof -
    have "s \<le> f" if "first_fatal d t sigs = Some f" for f
      using that assms(4) by (metis first_fatal_def find_Some_iff less_imp_le nth_mem)
    then show ?thesis using assms(2,3) same first by (auto simp: delivered_def first_fatal_Cons)
  qed
  have fates: "fate d t1 = fate d t" using t1(1) by (simp add: fate_def fun_eq_iff)
  have shape: "first_fatal d t (s # sigs) = first_fatal d t sigs" using assms(3) by (simp add: first_fatal_Cons)
  have "bit (sig_pending t') k \<longleftrightarrow> bit (sig_pending t) k \<and> \<not> (\<exists>x. delivered d t (s # sigs) x \<and> nat x = k)"
    if "k < 64" for k
    using assms(1) t1(3) [OF that] that unfolding loop_post_def del by blast
  then show ?thesis using assms(1) t1(1,2) unfolding loop_post_def shape first fates by metis
qed

lemma do_signal_loop_spec:
  assumes "tcb_ok t" "length d = 32" "sorted_wrt (<) sigs" "\<forall>s\<in>set sigs. 1 \<le> s \<and> s \<le> 32"
  shows "\<exists>t' e. do_signal_loop d sigs t = Some (t', e) \<and> loop_post d t sigs t' e"
  using assms(1,3,4)
proof (induction sigs arbitrary: t)
  case Nil
  then show ?case by (simp add: loop_post_def first_fatal_def delivered_def)
next
  case (Cons s sigs)
  have s: "1 \<le> s" "s \<le> 32" and rest: "sorted_wrt (<) sigs" "\<forall>x\<in>set sigs. 1 \<le> x \<and> x \<le> 32" "\<forall>x\<in>set sigs. s < x"
    using Cons.prems by auto
  have bits: "sig_pending t AND SIGMASK s = 0 \<longleftrightarrow> \<not> bit (sig_pending t) (nat s)" "blocked t AND SIGMASK s = 0 \<longleftrightarrow> \<not> bit (blocked t) (nat s)"
    using mask_bits(1) s by simp_all
  show ?case
  proof (cases "deliverable t s")
    case False
    obtain t' e where "do_signal_loop d sigs t = Some (t', e)" "loop_post d t sigs t' e"
      using Cons.IH [OF Cons.prems(1) rest(1,2)] by blast
    then show ?thesis using False bits loop_post_skip by (auto simp: deliverable_def)
  next
    case True
    obtain t1 where t1: "clear_signal t s = Some t1" "tcb_ok t1" "actions t1 = actions t" "blocked t1 = blocked t"
      "\<And>k. k < 64 \<Longrightarrow> bit (sig_pending t1) k \<longleftrightarrow> bit (sig_pending t) k \<and> k \<noteq> nat s"
      using clear_signal_spec [OF Cons.prems(1) s] by blast
    have act: "aget (actions t) (nat (s - 1)) = Some (actions t ! nat (s - 1))" "aget d (nat (s - 1)) = Some (d ! nat (s - 1))"
      using Cons.prems(1) assms(2) s by (simp_all add: tcb_ok_def)
    have head: "do_signal_loop d (s # sigs) t =
        (case fate d t s of None \<Rightarrow> do_signal_loop d sigs t1 | Some e \<Rightarrow> Some (t1, Some e))"
      using True bits act t1(1) unfolding deliverable_def
      by (cases "d ! nat (s - 1)") (auto simp: fate_def Let_def)
    show ?thesis
    proof (cases "fate d t s")
      case None
      obtain t' e where r: "do_signal_loop d sigs t1 = Some (t', e)" "loop_post d t1 sigs t' e"
        using Cons.IH [OF t1(2) rest(1,2)] by blast
      have "\<forall>x\<in>set (s # sigs). x \<le> 32" using Cons.prems(3) by auto
      from loop_post_clear [OF r(2) True None rest(3) s(1) t1(3-5) this] show ?thesis using head None r(1) by auto
    next
      case (Some e)
      have "delivered d t (s # sigs) x \<longleftrightarrow> x = s" for x
        using True Some rest(3) by (auto simp: delivered_def first_fatal_Cons)
      then have "loop_post d t (s # sigs) t1 (Some e)"
        using t1 True Some by (auto simp: loop_post_def first_fatal_Cons)
      then show ?thesis using head Some by auto
    qed
  qed
qed

section \<open>Delivery\<close>

lemma signal_init_length [simp]: "length signal_init = 32"
  by (simp add: signal_init_def)

lemma all_signals_facts [simp]: "set all_signals = {1..32}" "sorted_wrt (<) all_signals"
  by (simp_all add: all_signals_def)

lemma sorted_find_Some:
  fixes xs :: "int list"
  assumes "sorted_wrt (<) xs" "find P xs = Some x"
  shows "x \<in> set xs \<and> P x \<and> (\<forall>y\<in>set xs. y < x \<longrightarrow> \<not> P y)"
  using assms by (induction xs) (auto split: if_splits)

lemma do_signal_spec:
  assumes "tcb_ok t"
  obtains t' e where "do_signal signal_init (Some t) = Some (Some t', e)" "loop_post signal_init t all_signals t' e"
proof -
  obtain t' e where "do_signal_loop signal_init all_signals t = Some (t', e)" "loop_post signal_init t all_signals t' e"
    using do_signal_loop_spec [OF assms signal_init_length all_signals_facts(2)] by auto
  then show ?thesis using that by (simp add: do_signal_def)
qed

lemma signal_sets_roundtrip:
  "sigset_kernel_to_user (sigset_user_to_kernel m) = ((m AND NOT (SIGMASK 8)) AND NOT (SIGMASK 18)) AND NOT (SIGMASK 63)"
proof (rule bit_word_eqI)
  fix n
  assume "n < LENGTH(64)"
  then have n: "n < 64" by simp
  have "bit (sigset_user_to_kernel m) (n + 1) \<longleftrightarrow> n + 1 < 64 \<and> bit m n \<and> n \<noteq> 8 \<and> n \<noteq> 18"
    using user_to_kernel_bits [of "n + 1" m] bit_imp_le_length [of "sigset_user_to_kernel m" "n + 1"] by auto
  then show "bit (sigset_kernel_to_user (sigset_user_to_kernel m)) n \<longleftrightarrow>
      bit (((m AND NOT (SIGMASK 8)) AND NOT (SIGMASK 18)) AND NOT (SIGMASK 63)) n"
    using n mask_bits(2) [of 8 n] mask_bits(2) [of 18 n] mask_bits(2) [of 63 n] by (auto simp: kernel_to_user_bits)
qed

text \<open>
  Signals are delivered lowest number first.  On the table of \<open>signal_init\<close>, \<open>do_signal\<close> starts what the smallest pending,
  unblocked signal with an effect asks for (the kill of the process or the entry of a handler) and nothing when there is none; it
  takes out of the pending set that signal and the pending unblocked ones below it, whose default or action is to do nothing, and
  leaves every other pending signal, the mask and the actions alone.
\<close>

theorem do_signal_delivers_lowest:
  assumes "tcb_ok t"
  shows "\<exists>t' e. do_signal signal_init (Some t) = Some (Some t', e) \<and> tcb_ok t' \<and> actions t' = actions t \<and> blocked t' = blocked t \<and>
    (case e of
       None \<Rightarrow> (\<forall>s\<in>{1..32}. deliverable t s \<longrightarrow> fate signal_init t s = None) \<and>
         (\<forall>s\<in>{1..32}. bit (sig_pending t') (nat s) \<longleftrightarrow> bit (sig_pending t) (nat s) \<and> \<not> deliverable t s)
     | Some ev \<Rightarrow> \<exists>f\<in>{1..32}. deliverable t f \<and> fate signal_init t f = Some ev \<and>
         (\<forall>s\<in>{1..<f}. deliverable t s \<longrightarrow> fate signal_init t s = None) \<and>
         (\<forall>s\<in>{1..32}. bit (sig_pending t') (nat s) \<longleftrightarrow> bit (sig_pending t) (nat s) \<and> \<not> (deliverable t s \<and> s \<le> f)))"
proof -
  obtain t' e where run: "do_signal signal_init (Some t) = Some (Some t', e)" and post: "loop_post signal_init t all_signals t' e"
    using do_signal_spec [OF assms] .
  have pend: "bit (sig_pending t') (nat s) \<longleftrightarrow> bit (sig_pending t) (nat s) \<and> \<not> delivered signal_init t all_signals s"
    if "s \<in> {1..32}" for s
  proof -
    have "(\<exists>x. delivered signal_init t all_signals x \<and> nat x = nat s) \<longleftrightarrow> delivered signal_init t all_signals s"
      using that by (metis all_signals_facts(1) atLeastAtMost_iff delivered_def eq_nat_nat_iff zero_le_one order_trans)
    moreover have "nat s < 64" using that by auto
    ultimately show ?thesis using post unfolding loop_post_def by metis
  qed
  show ?thesis
  proof (cases "first_fatal signal_init t all_signals")
    case None
    have "e = None" using post None by (simp add: loop_post_def)
    moreover have "\<forall>s\<in>{1..32}. deliverable t s \<longrightarrow> fate signal_init t s = None"
      using None unfolding first_fatal_def find_None_iff by simp
    ultimately show ?thesis using run post pend None by (auto simp: loop_post_def delivered_def)
  next
    case (Some f)
    have f: "f \<in> {1..32}" "deliverable t f" "fate signal_init t f \<noteq> None"
      "\<forall>s\<in>{1..<f}. deliverable t s \<longrightarrow> fate signal_init t s = None"
      using sorted_find_Some [OF all_signals_facts(2) Some [unfolded first_fatal_def]] by auto
    obtain ev where ev: "fate signal_init t f = Some ev" using f(3) by blast
    have "e = Some ev" using post Some ev by (simp add: loop_post_def)
    then show ?thesis using run post pend Some f ev by (auto simp: loop_post_def delivered_def intro!: bexI [of _ f])
  qed
qed

definition sample_thread :: tcb where
  "sample_thread = \<lparr>actions = (replicate 32 \<lparr>sa_handler = 0, sa_flags = 0, sa_restorer = 0, sa_mask = 0\<rparr>)
       [9 := \<lparr>sa_handler = 0x1000, sa_flags = 0, sa_restorer = 0, sa_mask = 0\<rparr>],
     sig_pending = 2 ^ 17 + 2 ^ 12 + 2 ^ 10 + 2 ^ 2, pending_siginfo = replicate 33 zero_siginfo, pending_siginfo_mask = 0,
     blocked = 2 ^ 2, saved_sigmask = 0, has_saved_sigmask = False, t_status = T_RUNNING\<rparr>"

lemma sample_thread_ok: "tcb_ok sample_thread"
  by (simp add: tcb_ok_def sample_thread_def)

theorem do_signal_delivers_lowest_witness:
  "tcb_ok sample_thread \<and> (\<exists>t' e. do_signal signal_init (Some sample_thread) = Some (Some t', e) \<and> blocked t' = 4)"
  using do_signal_delivers_lowest [OF sample_thread_ok] sample_thread_ok by (auto simp: sample_thread_def)

end
