(* ===== verification/Signal_Frame.thy ===== *)
theory Signal_Frame
  imports Signals
begin

text \<open>
  Signal frames of x86-64: \<^verbatim>\<open>src/src/arch/x86_64/task/signal_x64.c\<close> and the way every system call ends,
  \<open>syscall_handler\<close> of \<^verbatim>\<open>src/src/arch/x86_64/syscall.c\<close>.  \<open>struct syscall_regs\<close> and \<open>struct signal_frame\<close> share fourteen
  registers, the record \<open>gp_regs\<close>.  User memory is seen as a map from addresses to the frames written there, and the FPU state
  as one value that \<open>fxsave\<close> stores and \<open>fxrstor\<close> loads.  \<open>kill_proc\<close> is recorded in \<open>killed\<close>.  The writes of the FS base
  and the opening of interrupts around the handler are not modelled.
\<close>

section \<open>Definitions\<close>

abbreviation SA_RESTORER :: u64 where "SA_RESTORER \<equiv> 0x04000000"
abbreviation SA_NODEFER :: u64 where "SA_NODEFER \<equiv> 0x40000000"
abbreviation SA_RESETHAND :: u64 where "SA_RESETHAND \<equiv> 0x80000000"
abbreviation SIGNAL_FRAME_MAGIC :: u64 where "SIGNAL_FRAME_MAGIC \<equiv> 0x4350534947464D00"
abbreviation SIGNAL_FRAME_SIZE :: u64 where "SIGNAL_FRAME_SIZE \<equiv> 720"
abbreviation SIGNUM_OFFSET :: u64 where "SIGNUM_OFFSET \<equiv> 8"
abbreviation TRAMPOLINE_OFFSET :: u64 where "TRAMPOLINE_OFFSET \<equiv> 696"
abbreviation SYSCALL_SIGRET :: u64 where "SYSCALL_SIGRET \<equiv> 15"
abbreviation MAX_SYSCALLS :: u64 where "MAX_SYSCALLS \<equiv> 550"

record gp_regs =
  r15 :: u64
  r14 :: u64
  r13 :: u64
  r12 :: u64
  r11 :: u64
  r10 :: u64
  r9 :: u64
  r8 :: u64
  rbx :: u64
  rcx :: u64
  rdx :: u64
  rsi :: u64
  rdi :: u64
  rbp :: u64

record syscall_regs =
  gp :: gp_regs
  ds :: u64
  es :: u64
  rax :: u64
  rip :: u64
  cs :: u64
  rflags :: u64
  rsp :: u64
  ss :: u64

record signal_frame =
  pretcode :: u64
  signum :: u32
  f_gp :: gp_regs
  f_rax :: u64
  f_rip :: u64
  f_rflags :: u64
  f_rsp :: u64
  saved_blocked :: u64
  saved_call_in_signal :: u64
  fpu_state :: nat
  magic :: u64
  trampoline :: "nat list"

record machine =
  task :: tcb
  syscall_stack_user :: u64
  call_in_signal :: u64
  regs :: syscall_regs
  fpu :: nat
  frames :: "u64 \<Rightarrow> signal_frame"
  killed :: "int option"

definition frame_address :: "u64 \<Rightarrow> u64" where
  "frame_address stack = (stack - SIGNAL_FRAME_SIZE) AND NOT 0xF"

definition trampoline_code :: "nat list" where
  "trampoline_code = [0x48, 0xc7, 0xc0, 0x0f, 0, 0, 0, 0x0f, 0x05] @ replicate 7 0x90"

text \<open>The frame \<open>arch_signal_setup\<close> writes on the user stack.\<close>

definition build_frame :: "machine \<Rightarrow> int \<Rightarrow> sigaction_t \<Rightarrow> signal_frame" where
  "build_frame m sig action =
     \<lparr>pretcode = (if sa_flags action AND SA_RESTORER \<noteq> 0 then sa_restorer action
        else frame_address (syscall_stack_user m) + TRAMPOLINE_OFFSET),
      signum = word_of_int sig, f_gp = gp (regs m), f_rax = rax (regs m), f_rip = rcx (gp (regs m)),
      f_rflags = r11 (gp (regs m)), f_rsp = syscall_stack_user m,
      saved_blocked = (if has_saved_sigmask (task m) then saved_sigmask (task m) else blocked (task m)),
      saved_call_in_signal = call_in_signal m, fpu_state = fpu m, magic = SIGNAL_FRAME_MAGIC, trampoline = trampoline_code\<rparr>"

text \<open>The masks and the action of the thread after the delivery of \<open>sig\<close>.\<close>

definition setup_task :: "tcb \<Rightarrow> int \<Rightarrow> sigaction_t \<Rightarrow> tcb" where
  "setup_task t sig action =
     (let t = t\<lparr>has_saved_sigmask := False\<rparr>;
          t = (if sa_flags action AND SA_NODEFER = 0 then t\<lparr>blocked := blocked t OR SIGMASK sig\<rparr> else t);
          t = t\<lparr>blocked := blocked t OR sa_mask action\<rparr>;
          t = t\<lparr>blocked := blocked t AND NOT (SIGMASK SIGKILL OR SIGMASK SIGSTOP)\<rparr>;
          t = t\<lparr>sig_pending := sig_pending t AND NOT (SIGMASK sig)\<rparr>
      in if sa_flags action AND SA_RESETHAND \<noteq> 0
         then t\<lparr>actions := (actions t)[nat (sig - 1) := action\<lparr>sa_handler := SIG_DFL\<rparr>]\<rparr> else t)"

definition arch_signal_setup :: "int \<Rightarrow> sigaction_t \<Rightarrow> machine \<Rightarrow> bool \<times> machine" where
  "arch_signal_setup sig action m =
     (let handler = sa_handler action in
      if handler = 0 \<or> handler = 1 then (False, m)
      else
        let user_rsp = frame_address (syscall_stack_user m);
            frame = build_frame m sig action
        in (True, m\<lparr>frames := (frames m)(user_rsp := frame),
              regs := (regs m)\<lparr>gp := (gp (regs m))\<lparr>rcx := handler, r11 := 0x202, rdi := word_of_int sig\<rparr>\<rparr>,
              syscall_stack_user := user_rsp,
              call_in_signal := 1,
              task := setup_task (task m) sig action\<rparr>))"

definition arch_signal_sigreturn :: "machine \<Rightarrow> u64 \<times> machine" where
  "arch_signal_sigreturn m =
     (let frame = frames m (syscall_stack_user m - SIGNUM_OFFSET) in
      if magic frame \<noteq> SIGNAL_FRAME_MAGIC then (-1, m)
      else (f_rax frame, m\<lparr>
        regs := (regs m)\<lparr>gp := (f_gp frame)\<lparr>r11 := f_rflags frame, rcx := f_rip frame\<rparr>\<rparr>,
        syscall_stack_user := f_rsp frame,
        task := (task m)\<lparr>blocked := saved_blocked frame\<rparr>,
        call_in_signal := saved_call_in_signal frame,
        fpu := fpu_state frame\<rparr>))"

text \<open>\<open>do_signal\<close> with what it starts carried out.\<close>

definition do_signal_x64 :: "signal_internal_t list \<Rightarrow> machine \<Rightarrow> machine option" where
  "do_signal_x64 decisions m = do {
     (t, event) \<leftarrow> do_signal decisions (Some (task m));
     let m = (case t of Some t \<Rightarrow> m\<lparr>task := t\<rparr> | None \<Rightarrow> m);
     Some (case event of
        None \<Rightarrow> m
      | Some (Kill_proc sig) \<Rightarrow> m\<lparr>killed := Some sig\<rparr>
      | Some (Signal_setup sig action) \<Rightarrow> snd (arch_signal_setup sig action m))
   }"

definition restore_sigmask :: "tcb \<Rightarrow> tcb" where
  "restore_sigmask t = (if has_saved_sigmask t then t\<lparr>blocked := saved_sigmask t, has_saved_sigmask := False\<rparr> else t)"

text \<open>\<open>handlers\<close> is the table \<open>syscall_handlers\<close>.\<close>

definition syscall_handler ::
  "signal_internal_t list \<Rightarrow> (u64 \<Rightarrow> (machine \<Rightarrow> u64 \<times> machine) option) \<Rightarrow> u64 \<Rightarrow> machine \<Rightarrow> machine option" where
  "syscall_handler decisions handlers user_regs m = do {
     let r = regs m;
     let r = r\<lparr>rip := rcx (gp r), rflags := r11 (gp r), cs := 0x23, ss := 0x1b, ds := 0x1b, es := 0x1b, rsp := user_regs\<rparr>;
     let m = m\<lparr>regs := r\<rparr>;
     let syscall_id = rax r AND 0xFFFFFFFF;
     let (ret, m) = (if syscall_id < MAX_SYSCALLS then (case handlers syscall_id of Some h \<Rightarrow> h m | None \<Rightarrow> (- 38, m)) else (- 38, m));
     let m = m\<lparr>regs := (regs m)\<lparr>rax := ret\<rparr>\<rparr>;
     m \<leftarrow> (if syscall_id \<noteq> SYSCALL_SIGRET then do_signal_x64 decisions m else Some m);
     Some (m\<lparr>task := restore_sigmask (task m)\<rparr>)
   }"

section \<open>The signal frame\<close>

lemma sigret_call:
  assumes "rax (regs m) = SYSCALL_SIGRET"
  shows "syscall_handler d (handlers(SYSCALL_SIGRET \<mapsto> h)) user_regs m =
    (let m = m\<lparr>regs := (regs m)\<lparr>rip := rcx (gp (regs m)), rflags := r11 (gp (regs m)), cs := 0x23, ss := 0x1b, ds := 0x1b,
           es := 0x1b, rsp := user_regs\<rparr>\<rparr>;
         (ret, m) = h m;
         m = m\<lparr>regs := (regs m)\<lparr>rax := ret\<rparr>\<rparr>
     in Some (m\<lparr>task := restore_sigmask (task m)\<rparr>))"
  using assms by (simp add: syscall_handler_def Let_def split: prod.splits)

text \<open>
  C23: a handler returns to where the signal interrupted the program.  \<open>arch_signal_setup\<close> writes a frame and enters the handler;
  whatever the handler then does to the registers, the FPU, the pending signals and its own memory, when it leaves that frame as it
  is, pops the return address and makes the \<open>sigret\<close> call, the call gives back all the registers, the FPU state, the user
  stack pointer and the nesting flag of the moment the signal came, returns the interrupted call's answer in \<open>rax\<close>, and puts
  back the mask of that moment, or the mask that \<open>sigsuspend\<close> had replaced.
\<close>

theorem signal_frame_roundtrip:
  assumes entered: "arch_signal_setup sig action m = (True, m1)"
    and intact: "frames m2 (syscall_stack_user m1) = frames m1 (syscall_stack_user m1)"
    and popped: "syscall_stack_user m2 = syscall_stack_user m1 + 8"
    and call: "rax (regs m2) = SYSCALL_SIGRET" "\<not> has_saved_sigmask (task m2)"
  shows "\<exists>m3. syscall_handler d (handlers(SYSCALL_SIGRET \<mapsto> arch_signal_sigreturn)) user_regs m2 = Some m3 \<and>
    gp (regs m3) = gp (regs m) \<and> rax (regs m3) = rax (regs m) \<and> fpu m3 = fpu m \<and>
    syscall_stack_user m3 = syscall_stack_user m \<and> call_in_signal m3 = call_in_signal m \<and>
    blocked (task m3) = (if has_saved_sigmask (task m) then saved_sigmask (task m) else blocked (task m)) \<and>
    sig_pending (task m3) = sig_pending (task m2) \<and> actions (task m3) = actions (task m2)"
proof -
  have m1: "syscall_stack_user m1 = frame_address (syscall_stack_user m)"
    "frames m1 (frame_address (syscall_stack_user m)) = build_frame m sig action"
    using entered by (auto simp: arch_signal_setup_def Let_def split: if_splits)
  then have "frames m2 (syscall_stack_user m2 - 8) = build_frame m sig action" using intact popped by simp
  then show ?thesis unfolding sigret_call [OF call(1)] arch_signal_sigreturn_def using call(2)
    by (simp add: Let_def build_frame_def restore_sigmask_def)
qed

definition sample_regs :: syscall_regs where
  "sample_regs = \<lparr>gp = \<lparr>r15 = 15, r14 = 14, r13 = 13, r12 = 12, r11 = 0x246, r10 = 10, r9 = 9, r8 = 8, rbx = 3, rcx = 0x401000,
     rdx = 2, rsi = 6, rdi = 7, rbp = 5\<rparr>, ds = 0, es = 0, rax = 42, rip = 0, cs = 0, rflags = 0, rsp = 0, ss = 0\<rparr>"

definition sample_machine :: machine where
  "sample_machine = \<lparr>task = sample_thread, syscall_stack_user = 0x7fff0000, call_in_signal = 0, regs = sample_regs, fpu = 77,
     frames = (\<lambda>_. \<lparr>pretcode = 0, signum = 0, f_gp = gp sample_regs, f_rax = 0, f_rip = 0, f_rflags = 0, f_rsp = 0, saved_blocked = 0,
       saved_call_in_signal = 0, fpu_state = 0, magic = 0, trampoline = []\<rparr>), killed = None\<rparr>"

definition sample_action :: sigaction_t where
  "sample_action = \<lparr>sa_handler = 0x1000, sa_flags = 0, sa_restorer = 0, sa_mask = 0\<rparr>"

definition in_handler :: machine where
  "in_handler = snd (arch_signal_setup 10 sample_action sample_machine)"

definition at_sigret :: machine where
  "at_sigret = in_handler\<lparr>syscall_stack_user := syscall_stack_user in_handler + 8,
     regs := (regs in_handler)\<lparr>rax := 15, gp := (gp (regs in_handler))\<lparr>rbx := 0, r11 := 0\<rparr>\<rparr>, fpu := 1\<rparr>"

theorem signal_frame_roundtrip_witness:
  "\<exists>m3. syscall_handler signal_init (Map.empty(SYSCALL_SIGRET \<mapsto> arch_signal_sigreturn)) 0 at_sigret = Some m3 \<and>
    gp (regs m3) = gp sample_regs \<and> rax (regs m3) = 42 \<and> fpu m3 = 77 \<and> blocked (task m3) = 4"
proof -
  have "arch_signal_setup 10 sample_action sample_machine = (True, in_handler)"
    by (simp add: arch_signal_setup_def Let_def sample_action_def in_handler_def)
  moreover have "rax (regs at_sigret) = SYSCALL_SIGRET" "\<not> has_saved_sigmask (task at_sigret)"
    "frames at_sigret (syscall_stack_user in_handler) = frames in_handler (syscall_stack_user in_handler)"
    "syscall_stack_user at_sigret = syscall_stack_user in_handler + 8"
    by (simp_all add: at_sigret_def) (simp add: in_handler_def arch_signal_setup_def Let_def setup_task_def sample_action_def)
  ultimately show ?thesis
    using signal_frame_roundtrip [of 10 sample_action sample_machine in_handler at_sigret signal_init Map.empty 0]
    by (auto simp: sample_machine_def sample_thread_def sample_regs_def)
qed

section \<open>SIGKILL\<close>

definition mask_safe :: "u64 \<Rightarrow> bool" where
  "mask_safe w \<longleftrightarrow> \<not> bit w 9 \<and> \<not> bit w 19"

definition thread_safe :: "tcb \<Rightarrow> bool" where
  "thread_safe t \<longleftrightarrow> tcb_ok t \<and> mask_safe (blocked t) \<and> (has_saved_sigmask t \<longrightarrow> mask_safe (saved_sigmask t))"

text \<open>
  What happens to a thread: its own system calls, a signal from another process, the delivery at the end of a call, the restore of
  a mask that \<open>sigsuspend\<close> replaced, user code, and the return from a frame whose saved mask is safe, as the ones
  \<open>arch_signal_setup\<close> writes are.  Blocking in \<open>sigsuspend\<close> leaves the masks and the sizes of the arrays alone.
\<close>

inductive sig_step :: "machine \<Rightarrow> machine \<Rightarrow> bool" where
  ssetmask: "sys_ssetmask how nset oset (task m) = (r, old, t) \<Longrightarrow> sig_step m (m\<lparr>task := t\<rparr>)"
| sig_action: "sys_sig_action sig action oldaction (task m) = Some (r, old, t) \<Longrightarrow> sig_step m (m\<lparr>task := t\<rparr>)"
| signal: "sys_signal sig handler (task m) = Some (prev, t) \<Longrightarrow> sig_step m (m\<lparr>task := t\<rparr>)"
| sigsuspend: "sys_sigsuspend d wait new_mask sigsetsize (task m) = Some (r, t) \<Longrightarrow>
    (\<And>t r t'. wait t = (r, t') \<Longrightarrow> tcb_ok t \<Longrightarrow> tcb_ok t' \<and> blocked t' = blocked t \<and>
       saved_sigmask t' = saved_sigmask t \<and> has_saved_sigmask t' = has_saved_sigmask t) \<Longrightarrow>
    sig_step m (m\<lparr>task := t\<rparr>)"
| post: "signal_sig_in_range sig \<Longrightarrow> post_signal sender (task m) sig info = Some t \<Longrightarrow> sig_step m (m\<lparr>task := t\<rparr>)"
| deliver: "do_signal_x64 signal_init m = Some m' \<Longrightarrow> sig_step m m'"
| restore: "sig_step m (m\<lparr>task := restore_sigmask (task m)\<rparr>)"
| user: "task m' = task m \<Longrightarrow> sig_step m m'"
| sigreturn: "mask_safe (saved_blocked (frames m (syscall_stack_user m - SIGNUM_OFFSET))) \<Longrightarrow>
    sig_step m (snd (arch_signal_sigreturn m))"

lemma mask_safe_user [simp]: "mask_safe (sigset_user_to_kernel w)"
  by (simp add: mask_safe_def user_to_kernel_bits)

lemma mask_safe_ops:
  "mask_safe v \<Longrightarrow> mask_safe w \<Longrightarrow> mask_safe (v OR w)" "mask_safe v \<Longrightarrow> mask_safe (v AND w)"
  "mask_safe (v AND NOT (SIGMASK SIGKILL) AND NOT (SIGMASK SIGSTOP))"
  by (auto simp: mask_safe_def bit_simps SIGMASK_def)

lemma setup_task_safe: "thread_safe t \<Longrightarrow> thread_safe (setup_task t sig action)"
  by (simp add: setup_task_def thread_safe_def Let_def tcb_ok_def mask_safe_ops)

lemma setup_safe: "thread_safe (task m) \<Longrightarrow> thread_safe (task (snd (arch_signal_setup sig action m)))"
  by (simp add: arch_signal_setup_def Let_def setup_task_safe)

lemma build_frame_safe: "thread_safe (task m) \<Longrightarrow> mask_safe (saved_blocked (build_frame m sig action))"
  by (simp add: build_frame_def thread_safe_def)

lemma clear_signal_frame:
  assumes "clear_signal t sig = Some t'"
  shows "blocked t' = blocked t" "saved_sigmask t' = saved_sigmask t" "has_saved_sigmask t' = has_saved_sigmask t"
    "tcb_ok t \<Longrightarrow> tcb_ok t'"
  using assms by (auto simp: clear_signal_def signal_clear_pending_info_def tcb_ok_def split: if_splits bind_splits dest: aput_length)

lemma do_signal_loop_frame:
  "do_signal_loop d sigs t = Some (t', e) \<Longrightarrow> thread_safe t \<Longrightarrow> thread_safe t'"
proof (induction sigs arbitrary: t)
  case (Cons s sigs)
  have "thread_safe u" if "clear_signal t s = Some u" for u
    using clear_signal_frame [OF that] Cons.prems(2) by (simp add: thread_safe_def)
  then show ?case using Cons.prems Cons.IH
    by (auto split: if_splits bind_splits signal_internal_t.splits)
qed simp

lemma do_signal_x64_safe: "do_signal_x64 signal_init m = Some m' \<Longrightarrow> thread_safe (task m) \<Longrightarrow> thread_safe (task m')"
  by (auto simp: do_signal_x64_def do_signal_def Let_def setup_safe split: bind_splits option.splits sig_event.splits
      dest!: do_signal_loop_frame)

lemma syscalls_safe:
  assumes "thread_safe t"
  shows "sys_ssetmask how nset oset t = (r, old, t') \<Longrightarrow> thread_safe t'"
    "sys_sig_action sig action oldaction t = Some (r, old', t') \<Longrightarrow> thread_safe t'"
    "sys_signal sig handler t = Some (prev, t') \<Longrightarrow> thread_safe t'"
    "post_signal sender t sig info = Some t' \<Longrightarrow> thread_safe t'"
proof -
  show "sys_ssetmask how nset oset t = (r, old, t') \<Longrightarrow> thread_safe t'"
    using assms by (auto simp: sys_ssetmask_def thread_safe_def Let_def tcb_ok_def mask_safe_ops split: option.splits if_splits)
  show "sys_sig_action sig action oldaction t = Some (r, old', t') \<Longrightarrow> thread_safe t'"
    using assms by (auto simp: sys_sig_action_def thread_safe_def Let_def tcb_ok_def dest: aput_length
        split: option.splits if_splits bind_splits)
  show "sys_signal sig handler t = Some (prev, t') \<Longrightarrow> thread_safe t'"
    using assms by (auto simp: sys_signal_def thread_safe_def tcb_ok_def dest: aput_length split: if_splits bind_splits)
  show "post_signal sender t sig info = Some t' \<Longrightarrow> thread_safe t'"
    using assms by (auto simp: post_signal_def thread_safe_def tcb_ok_def Let_def dest: aput_length split: if_splits bind_splits)
qed

lemma sigsuspend_safe:
  assumes "sys_sigsuspend d wait new_mask sigsetsize t = Some (r, t')" "thread_safe t"
    and wait: "\<And>t r t'. wait t = (r, t') \<Longrightarrow> tcb_ok t \<Longrightarrow> tcb_ok t' \<and> blocked t' = blocked t \<and>
       saved_sigmask t' = saved_sigmask t \<and> has_saved_sigmask t' = has_saved_sigmask t"
  shows "thread_safe t'"
proof (cases "new_mask = None \<or> sigsetsize < 8")
  case True
  then show ?thesis using assms(1,2) by (auto simp: sys_sigsuspend_def split: option.splits if_splits)
next
  case False
  then obtain w where w: "new_mask = Some w" "\<not> sigsetsize < 8" by auto
  define u where "u = t\<lparr>blocked := sigset_user_to_kernel w\<rparr>"
  have u: "tcb_ok u" using assms(2) by (simp add: u_def thread_safe_def tcb_ok_def)
  obtain ret v where v: "wait u = (ret, v)" by fastforce
  have safe: "thread_safe (x\<lparr>blocked := blocked t\<rparr>) \<and> thread_safe (x\<lparr>saved_sigmask := blocked t, has_saved_sigmask := True\<rparr>)"
    if "x = u \<or> x = v" for x
    using that wait [OF v u] u assms(2) by (auto simp: thread_safe_def u_def tcb_ok_def)
  show ?thesis using assms(1) w safe v
    by (auto simp: sys_sigsuspend_def Let_def u_def [symmetric] split: bind_splits if_splits)
qed

lemma sig_step_safe: "sig_step m m' \<Longrightarrow> thread_safe (task m) \<Longrightarrow> thread_safe (task m')"
proof (induction rule: sig_step.induct)
  case (sigsuspend d wait new_mask sigsetsize m r t)
  then show ?case using sigsuspend_safe [OF sigsuspend.hyps(1) sigsuspend.prems sigsuspend.hyps(2)] by simp
next
  case (restore m)
  then show ?case by (auto simp: restore_sigmask_def thread_safe_def tcb_ok_def)
next
  case (sigreturn m)
  then show ?case by (auto simp: arch_signal_sigreturn_def Let_def thread_safe_def tcb_ok_def)
qed (auto dest: syscalls_safe do_signal_x64_safe)

lemma reachable_safe: "sig_step\<^sup>*\<^sup>* m m' \<Longrightarrow> thread_safe (task m) \<Longrightarrow> thread_safe (task m')"
  by (induction rule: rtranclp_induct) (auto dest: sig_step_safe)

lemma pending_kill_acts:
  assumes safe: "thread_safe (task m)" and pending: "bit (sig_pending (task m)) 9"
  shows "\<exists>f\<in>{1..9}. \<exists>m'. deliverable (task m) f \<and> do_signal_x64 signal_init m = Some m' \<and>
    (killed m' = Some f \<or>
     f < 9 \<and> rcx (gp (regs m')) = sa_handler (actions (task m) ! nat (f - 1)) \<and> bit (sig_pending (task m')) 9)"
proof -
  have nine: "deliverable (task m) 9" "fate signal_init (task m) 9 = Some (Kill_proc 9)"
    using assms by (simp_all add: deliverable_def thread_safe_def mask_safe_def fate_def)
  obtain t' e where run: "do_signal signal_init (Some (task m)) = Some (Some t', e)"
    and post: "loop_post signal_init (task m) all_signals t' e"
    using safe do_signal_spec unfolding thread_safe_def by blast
  have "first_fatal signal_init (task m) all_signals \<noteq> None"
    using nine unfolding first_fatal_def find_None_iff all_signals_facts(1) by force
  then obtain f where f: "first_fatal signal_init (task m) all_signals = Some f" by blast
  have props: "f \<in> {1..32}" "deliverable (task m) f" "fate signal_init (task m) f \<noteq> None" "f \<le> 9"
    using sorted_find_Some [OF all_signals_facts(2) f [unfolded first_fatal_def]] nine by (auto simp: not_less [symmetric])
  have e: "e = fate signal_init (task m) f" using post f by (simp add: loop_post_def)
  show ?thesis
  proof (cases "\<exists>s. e = Some (Kill_proc s)")
    case True
    then have "e = Some (Kill_proc f)" using e by (auto simp: fate_def Let_def split: if_splits)
    then show ?thesis using props run by (intro bexI [of _ f]) (auto simp: do_signal_x64_def)
  next
    case False
    let ?a = "actions (task m) ! nat (f - 1)"
    have entry: "e = Some (Signal_setup f ?a)" "f \<noteq> 9" "sa_handler ?a \<noteq> 0" "sa_handler ?a \<noteq> 1"
      using False e props(3) by (auto simp: fate_def Let_def split: if_splits)
    have "\<not> delivered signal_init (task m) all_signals s" if "nat s = 9" for s
      using that f props(4) entry(2) by (auto simp: delivered_def)
    then have "bit (sig_pending t') 9" using post pending unfolding loop_post_def by auto
    then have "bit (sig_pending (setup_task t' f ?a)) 9"
      using props entry(2) mask_bits(2) [of f 9 "sig_pending t'"] by (auto simp: setup_task_def Let_def)
    then show ?thesis using props entry run
      by (intro bexI [of _ f] exI [of _ "snd (arch_signal_setup f ?a (m\<lparr>task := t'\<rparr>))"])
        (auto simp: do_signal_x64_def arch_signal_setup_def Let_def)
  qed
qed

text \<open>
  C22: SIGKILL cannot be held off.  Whatever sequence of \<open>ssetmask\<close>, \<open>sig_action\<close>, \<open>signal\<close> and \<open>sigsuspend\<close> calls, arriving
  signals, deliveries, user code and returns from the frames the kernel wrote a thread goes through, neither SIGKILL nor SIGSTOP is
  ever in its mask, and the next \<open>do_signal\<close> with SIGKILL pending kills the process or enters the handler of a pending signal with
  a smaller number and keeps SIGKILL pending.
\<close>

theorem sigkill_cannot_be_held_off:
  assumes "sig_step\<^sup>*\<^sup>* m0 m" "thread_safe (task m0)"
  shows "\<not> bit (blocked (task m)) 9 \<and> \<not> bit (blocked (task m)) 19 \<and>
    (bit (sig_pending (task m)) 9 \<longrightarrow> (\<exists>f\<in>{1..9}. \<exists>m'. deliverable (task m) f \<and> do_signal_x64 signal_init m = Some m' \<and>
      (killed m' = Some f \<or>
       f < 9 \<and> rcx (gp (regs m')) = sa_handler (actions (task m) ! nat (f - 1)) \<and> bit (sig_pending (task m')) 9)))"
proof -
  have "thread_safe (task m)" using reachable_safe assms by blast
  then show ?thesis using pending_kill_acts [of m] by (simp add: thread_safe_def mask_safe_def)
qed

definition masked_machine :: machine where
  "masked_machine = sample_machine\<lparr>task := snd (snd (sys_ssetmask 2 (Some (- 1)) False (sample_thread\<lparr>sig_pending := 2 ^ 9\<rparr>)))\<rparr>"

theorem sigkill_cannot_be_held_off_witness:
  "\<not> bit (blocked (task masked_machine)) 9 \<and> (\<exists>m'. do_signal_x64 signal_init masked_machine = Some m' \<and> killed m' = Some 9)"
proof -
  let ?m0 = "sample_machine\<lparr>task := sample_thread\<lparr>sig_pending := 2 ^ 9\<rparr>\<rparr>"
  have "thread_safe (task ?m0)" by (simp add: thread_safe_def tcb_ok_def sample_thread_def mask_safe_def)
  moreover have "sig_step ?m0 masked_machine"
    using sig_step.ssetmask [of 2 "Some (- 1)" False ?m0] by (cases "sys_ssetmask 2 (Some (- 1)) False (task ?m0)") (simp add: masked_machine_def)
  ultimately have held: "\<not> bit (blocked (task masked_machine)) 9 \<and> \<not> bit (blocked (task masked_machine)) 19 \<and>
    (bit (sig_pending (task masked_machine)) 9 \<longrightarrow> (\<exists>f\<in>{1..9}. \<exists>m'. deliverable (task masked_machine) f \<and>
      do_signal_x64 signal_init masked_machine = Some m' \<and> (killed m' = Some f \<or> f < 9 \<and>
      rcx (gp (regs m')) = sa_handler (actions (task masked_machine) ! nat (f - 1)) \<and> bit (sig_pending (task m')) 9)))"
    by (intro sigkill_cannot_be_held_off [of ?m0 masked_machine]) auto
  have "sig_pending (task masked_machine) = 2 ^ 9" by (simp add: masked_machine_def sys_ssetmask_def Let_def)
  then have pend: "bit (sig_pending (task masked_machine)) k \<longleftrightarrow> k = 9" for k by (auto simp only: bit_exp_iff) simp
  then have only: "f = 9" if "deliverable (task masked_machine) f" for f using that by (auto simp: deliverable_def)
  show ?thesis using held pend only by blast
qed



end
