(* ===== verification/Data_Refinement.thy ===== *)
theory Data_Refinement
  imports Kernel_Prelude
begin

text \<open>
  Operations on a representation that implement operations on an abstract value.  A step of the representation may fault
  (\<^const>\<open>None\<close>); a correct one does not in a state that satisfies the invariant.
\<close>

primrec run_ops :: "('op \<Rightarrow> 's \<Rightarrow> 's option) \<Rightarrow> 'op list \<Rightarrow> 's \<Rightarrow> 's option" where
  "run_ops step [] s = Some s"
| "run_ops step (op # ops) s = do { s \<leftarrow> step op s; run_ops step ops s }"

primrec spec_ops :: "('op \<Rightarrow> 'a \<Rightarrow> 'a) \<Rightarrow> 'op list \<Rightarrow> 'a \<Rightarrow> 'a" where
  "spec_ops spec [] a = a"
| "spec_ops spec (op # ops) a = spec_ops spec ops (spec op a)"

locale data_refinement =
  fixes step :: "'op \<Rightarrow> 's \<Rightarrow> 's option"
    and spec :: "'op \<Rightarrow> 'a \<Rightarrow> 'a"
    and legal :: "'op \<Rightarrow> 'a \<Rightarrow> bool"
    and inv :: "'s \<Rightarrow> bool"
    and abs :: "'s \<Rightarrow> 'a"
  assumes step_law: "inv s \<Longrightarrow> legal op (abs s) \<Longrightarrow> \<exists>s'. step op s = Some s' \<and> inv s' \<and> abs s' = spec op (abs s)"
begin

primrec legal_ops :: "'op list \<Rightarrow> 'a \<Rightarrow> bool" where
  "legal_ops [] a = True"
| "legal_ops (op # ops) a = (legal op a \<and> legal_ops ops (spec op a))"

lemma run_refines:
  assumes "inv s" "legal_ops ops (abs s)"
  shows "\<exists>s'. run_ops step ops s = Some s' \<and> inv s' \<and> abs s' = spec_ops spec ops (abs s)"
  using assms
proof (induction ops arbitrary: s)
  case (Cons op ops)
  obtain s1 where s1: "step op s = Some s1" "inv s1" "abs s1 = spec op (abs s)"
    using step_law [OF Cons.prems(1)] Cons.prems(2) by auto
  then show ?case using Cons.IH [of s1] Cons.prems(2) by auto
qed simp

lemma reachable_inv: "inv s \<Longrightarrow> legal_ops ops (abs s) \<Longrightarrow> run_ops step ops s = Some s' \<Longrightarrow> inv s'"
  using run_refines by fastforce

end

end
