(* ===== verification/Cow_List.thy ===== *)
theory Cow_List
  imports Data_Refinement
begin

text \<open>
  The copy-on-write array list of \<^verbatim>\<open>src/src/util/cow_arraylist.c\<close>: an array of pointers to blocks of \<open>BLOCK_SIZE\<close> elements.
  A change of an element copies its block, puts the copy in place and drops the list's reference to the old one.  An element is
  a pointer, \<^const>\<open>None\<close> for \<open>NULL\<close>; so is a slot of \<open>blocks\<close>, whose length is \<open>blocks_capacity\<close>.  The slots that \<open>realloc\<close> adds
  are not initialised in the code and empty here; no operation looks at one before it is written.  \<open>live_blocks\<close> counts the
  blocks that are allocated and not freed.  The code under the lock is one step; the arguments \<open>mem\<close>, \<open>ok\<close> are the answers of the
  allocator, and the outer \<^const>\<open>None\<close> is a fault.
\<close>

section \<open>Definitions\<close>

abbreviation BLOCK_SIZE :: nat where "BLOCK_SIZE \<equiv> 64"

record 'a cow_block =
  elements :: "'a option list"
  ref_count :: u64

record 'a cow_arraylist =
  blocks :: "'a cow_block option list"
  block_count :: nat
  cow_size :: nat
  live_blocks :: int

definition calculate_block_count :: "nat \<Rightarrow> nat" where
  "calculate_block_count total_size = (if total_size = 0 then 0 else (total_size + BLOCK_SIZE - 1) div BLOCK_SIZE)"

text \<open>The block after \<open>block_release\<close>, \<^const>\<open>None\<close> when it is freed.\<close>

definition block_release :: "'a cow_block \<Rightarrow> 'a cow_block option" where
  "block_release block =
     (let block = block\<lparr>ref_count := ref_count block - 1\<rparr> in if ref_count block = 0 then None else Some block)"

definition released :: "'a cow_block option \<Rightarrow> int" where
  "released block = (case block of None \<Rightarrow> 0 | Some b \<Rightarrow> if block_release b = None then 1 else 0)"

definition cow_list_create :: "bool \<Rightarrow> bool \<Rightarrow> 'a cow_arraylist option" where
  "cow_list_create list_ok blocks_ok =
     (if \<not> list_ok then None
      else if \<not> blocks_ok then None
      else Some \<lparr>blocks = replicate 4 None, block_count = 0, cow_size = 0, live_blocks = 0\<rparr>)"

text \<open>What \<open>cow_list_destroy\<close> leaves of the blocks: the number still allocated.\<close>

definition cow_list_destroy :: "'a cow_arraylist \<Rightarrow> int option" where
  "cow_list_destroy l =
     (if length (blocks l) < block_count l then None
      else Some (live_blocks l - sum_list (map released (take (block_count l) (blocks l)))))"

definition cow_list_get :: "'a cow_arraylist \<Rightarrow> nat \<Rightarrow> 'a option option" where
  "cow_list_get l index =
     (if index \<ge> cow_size l then Some None
      else do {
        block \<leftarrow> aget (blocks l) (index div BLOCK_SIZE);
        (case block of
           None \<Rightarrow> Some None
         | Some b \<Rightarrow> aget (elements b) (index mod BLOCK_SIZE))
      })"

text \<open>
  The copy of a block with one element replaced: \<open>malloc\<close>, \<open>memcpy\<close>, reference count 1, the pointer exchanged, the old block
  released.  \<open>x\<close> is the new element at \<open>element_index\<close>, if any.
\<close>

definition copy_block :: "'a cow_arraylist \<Rightarrow> nat \<Rightarrow> (nat \<times> 'a option) option \<Rightarrow> 'a cow_arraylist option" where
  "copy_block l block_index x = do {
     slot \<leftarrow> aget (blocks l) block_index;
     old_block \<leftarrow> slot;
     let new_block = old_block\<lparr>ref_count := 1\<rparr>;
     new_block \<leftarrow> (case x of
        None \<Rightarrow> Some new_block
      | Some (i, e) \<Rightarrow> do { es \<leftarrow> aput (elements new_block) i e; Some (new_block\<lparr>elements := es\<rparr>) });
     bs \<leftarrow> aput (blocks l) block_index (Some new_block);
     Some (l\<lparr>blocks := bs, live_blocks := live_blocks l + 1 - released (Some old_block)\<rparr>)
   }"

definition cow_list_set :: "bool \<Rightarrow> 'a cow_arraylist \<Rightarrow> nat \<Rightarrow> 'a option \<Rightarrow> (int \<times> 'a cow_arraylist) option" where
  "cow_list_set ok l index element =
     (if index \<ge> cow_size l then Some (-1, l)
      else if \<not> ok then Some (-1, l)
      else do {
        l \<leftarrow> copy_block l (index div BLOCK_SIZE) (Some (index mod BLOCK_SIZE, element));
        Some (0, l)
      })"

definition cow_list_clear :: "bool \<Rightarrow> 'a cow_arraylist option \<Rightarrow> nat \<Rightarrow> ('a option \<times> 'a cow_arraylist option) option" where
  "cow_list_clear ok list index =
     (case list of
        None \<Rightarrow> Some (None, None)
      | Some l \<Rightarrow>
          if index \<ge> cow_size l then Some (None, Some l)
          else do {
            slot \<leftarrow> aget (blocks l) (index div BLOCK_SIZE);
            (case slot of
               None \<Rightarrow> Some (None, Some l)
             | Some old_block \<Rightarrow> do {
                 old_element \<leftarrow> aget (elements old_block) (index mod BLOCK_SIZE);
                 if old_element = None then Some (None, Some l)
                 else if \<not> ok then Some (old_element, Some l)
                 else do {
                   l \<leftarrow> copy_block l (index div BLOCK_SIZE) (Some (index mod BLOCK_SIZE, None));
                   Some (old_element, Some l)
                 }
               })
          })"

text \<open>\<open>realloc_ok\<close> and \<open>block_ok\<close>: the answers for the array and for the block.\<close>

definition cow_list_add :: "bool \<Rightarrow> bool \<Rightarrow> 'a cow_arraylist \<Rightarrow> 'a option \<Rightarrow> (nat \<times> 'a cow_arraylist) option" where
  "cow_list_add realloc_ok block_ok l element =
     (let old_size = cow_size l;
          new_size = old_size + 1;
          old_block_count = block_count l;
          new_block_count = calculate_block_count new_size;
          grow = new_block_count > length (blocks l)
      in if grow \<and> \<not> realloc_ok then Some (0, l)
      else do {
        let l = (if grow then l\<lparr>blocks := blocks l @ replicate (length (blocks l)) None\<rparr> else l);
        let target_block_index = new_block_count - 1;
        let target_element_index = old_size mod BLOCK_SIZE;
        _ \<leftarrow> aget (blocks l) target_block_index;
        if new_block_count > old_block_count then
          if \<not> block_ok then Some (0, l)
          else do {
            bs \<leftarrow> aput (blocks l) old_block_count
              (Some \<lparr>elements = (replicate BLOCK_SIZE None)[target_element_index := element], ref_count = 1\<rparr>);
            Some (new_size - 1, l\<lparr>blocks := bs, block_count := new_block_count, live_blocks := live_blocks l + 1, cow_size := new_size\<rparr>)
          }
        else
          if \<not> block_ok then Some (0, l)
          else do {
            l \<leftarrow> copy_block l target_block_index (Some (target_element_index, element));
            Some (new_size - 1, l\<lparr>cow_size := new_size\<rparr>)
          }
      })"

definition element_at :: "'a cow_arraylist \<Rightarrow> nat \<Rightarrow> 'a option option" where
  "element_at l i = do { slot \<leftarrow> aget (blocks l) (i div BLOCK_SIZE); b \<leftarrow> slot; aget (elements b) (i mod BLOCK_SIZE) }"

definition put_element :: "'a cow_arraylist \<Rightarrow> nat \<Rightarrow> 'a option \<Rightarrow> 'a cow_arraylist option" where
  "put_element l i e = do {
     slot \<leftarrow> aget (blocks l) (i div BLOCK_SIZE);
     b \<leftarrow> slot;
     es \<leftarrow> aput (elements b) (i mod BLOCK_SIZE) e;
     bs \<leftarrow> aput (blocks l) (i div BLOCK_SIZE) (Some (b\<lparr>elements := es\<rparr>));
     Some (l\<lparr>blocks := bs\<rparr>)
   }"

text \<open>
  The shifting loop of \<open>cow_list_remove\<close> over the remaining indices; \<open>mem i\<close> is the answer of \<open>malloc\<close> in round \<open>i\<close>.  The flag
  says whether the loop ran to its end.
\<close>

primrec shift_loop :: "(nat \<Rightarrow> bool) \<Rightarrow> nat \<Rightarrow> nat list \<Rightarrow> 'a cow_arraylist \<Rightarrow> (bool \<times> 'a cow_arraylist) option" where
  "shift_loop mem index [] l = Some (True, l)"
| "shift_loop mem index (i # is) l =
     (if (i = index \<or> i mod BLOCK_SIZE = 0) \<and> \<not> mem i then Some (False, l)
      else do {
        l \<leftarrow> (if i = index \<or> i mod BLOCK_SIZE = 0 then copy_block l (i div BLOCK_SIZE) None else Some l);
        source_element \<leftarrow> element_at l (i + 1);
        l \<leftarrow> put_element l i source_element;
        shift_loop mem index is l
      })"

text \<open>The end of \<open>cow_list_remove\<close>: the last block is dropped when it has become empty, and copied without the last element otherwise.\<close>

definition drop_last_element :: "bool \<Rightarrow> 'a cow_arraylist \<Rightarrow> nat \<Rightarrow> 'a cow_arraylist option" where
  "drop_last_element ok l last_element_pos =
     (if calculate_block_count last_element_pos < block_count l then do {
        last_block \<leftarrow> aget (blocks l) (block_count l - 1);
        bs \<leftarrow> aput (blocks l) (block_count l - 1) None;
        Some (l\<lparr>blocks := bs, block_count := block_count l - 1, live_blocks := live_blocks l - released last_block\<rparr>)
      }
      else if ok then copy_block l (last_element_pos div BLOCK_SIZE) (Some (last_element_pos mod BLOCK_SIZE, None))
      else Some l)"

definition cow_list_remove :: "(nat \<Rightarrow> bool) \<Rightarrow> bool \<Rightarrow> 'a cow_arraylist \<Rightarrow> nat \<Rightarrow> ('a option \<times> 'a cow_arraylist) option" where
  "cow_list_remove mem last_ok l index =
     (if index \<ge> cow_size l \<or> cow_size l = 0 then Some (None, l)
      else do {
        let old_size = cow_size l;
        removed_element \<leftarrow> element_at l index;
        (finished, l) \<leftarrow> shift_loop mem index [index..<old_size - 1] l;
        if \<not> finished then Some (removed_element, l)
        else do {
          l \<leftarrow> drop_last_element last_ok l (old_size - 1);
          Some (removed_element, l\<lparr>cow_size := old_size - 1\<rparr>)
        }
      })"

text \<open>\<open>cow_foreach\<close>: the elements the body sees, in order.\<close>

definition cow_foreach :: "'a cow_arraylist \<Rightarrow> 'a list option" where
  "cow_foreach l = do {
     es \<leftarrow> those (map (cow_list_get l) [0..<cow_size l]);
     Some (map the (filter (\<lambda>e. e \<noteq> None) es))
   }"

section \<open>The list a block array stands for\<close>

definition cell :: "'a cow_arraylist \<Rightarrow> nat \<Rightarrow> 'a option" where
  "cell l i = elements (the (blocks l ! (i div BLOCK_SIZE))) ! (i mod BLOCK_SIZE)"

definition cow_contents :: "'a cow_arraylist \<Rightarrow> 'a option list" where
  "cow_contents l = map (cell l) [0..<cow_size l]"

definition block_ok :: "'a cow_block \<Rightarrow> bool" where
  "block_ok b \<longleftrightarrow> length (elements b) = BLOCK_SIZE \<and> ref_count b = 1"

definition blocks_ok :: "'a cow_arraylist \<Rightarrow> bool" where
  "blocks_ok l \<longleftrightarrow> block_count l \<le> length (blocks l) \<and> (\<forall>i<block_count l. \<exists>b. blocks l ! i = Some b \<and> block_ok b)"

definition shape :: "'a cow_arraylist \<Rightarrow> nat \<times> nat \<times> nat \<times> int" where
  "shape l = (length (blocks l), block_count l, cow_size l, live_blocks l)"

definition cow_ok :: "'a cow_arraylist \<Rightarrow> bool" where
  "cow_ok l \<longleftrightarrow> blocks_ok l \<and> block_count l = calculate_block_count (cow_size l) \<and> 0 < length (blocks l) \<and>
     live_blocks l = int (block_count l)"

lemma block_count_iff: "i div BLOCK_SIZE < calculate_block_count n \<longleftrightarrow> i div BLOCK_SIZE * BLOCK_SIZE < n"
  unfolding calculate_block_count_def by auto

lemma cell_inside: "i < n \<Longrightarrow> i div BLOCK_SIZE < calculate_block_count n"
  using block_count_iff [of i n] by auto

lemma released_once [simp]: "block_ok b \<Longrightarrow> released (Some b) = 1"
  by (simp add: released_def block_release_def block_ok_def Let_def)

lemma block_at:
  assumes "blocks_ok l" "i < block_count l"
  obtains b where "blocks l ! i = Some b" "block_ok b" "i < length (blocks l)"
  using assms by (auto simp: blocks_ok_def)

lemma index_split: "i < BLOCK_SIZE \<Longrightarrow> j = b * BLOCK_SIZE + i \<longleftrightarrow> j div BLOCK_SIZE = b \<and> j mod BLOCK_SIZE = i"
  using div_mult_mod_eq [of j BLOCK_SIZE] by auto

lemma blocks_ok_update: "blocks_ok l \<Longrightarrow> block_ok b \<Longrightarrow> blocks_ok (l\<lparr>blocks := (blocks l)[i := Some b]\<rparr>)"
  unfolding blocks_ok_def by simp (metis nth_list_update nth_list_update_neq order_less_le_trans)

lemma copy_block_spec:
  assumes "blocks_ok l" "b < block_count l" "\<And>i e. x = Some (i, e) \<Longrightarrow> i < BLOCK_SIZE"
  obtains l' where "copy_block l b x = Some l'" "blocks_ok l'" "shape l' = shape l"
    "\<And>j. j div BLOCK_SIZE < block_count l \<Longrightarrow>
       cell l' j = (case x of Some (i, e) \<Rightarrow> if j = b * BLOCK_SIZE + i then e else cell l j | None \<Rightarrow> cell l j)"
proof -
  obtain old where old: "blocks l ! b = Some old" "block_ok old" "b < length (blocks l)" using block_at [OF assms(1,2)] .
  define new where "new = (case x of None \<Rightarrow> old | Some (i, e) \<Rightarrow> old\<lparr>elements := (elements old)[i := e]\<rparr>)"
  have one: "old\<lparr>ref_count := 1\<rparr> = old" using old(2) by (cases old) (simp add: block_ok_def)
  have new: "block_ok new" using old(2) by (auto simp: new_def block_ok_def split: option.splits)
  let ?l = "l\<lparr>blocks := (blocks l)[b := Some new]\<rparr>"
  have "copy_block l b x = Some (?l\<lparr>live_blocks := live_blocks l\<rparr>)"
    using old assms(3) unfolding copy_block_def one Let_def
    by (auto simp: new_def block_ok_def one split: option.splits)
  moreover have "?l\<lparr>live_blocks := live_blocks l\<rparr> = ?l" by (cases l) simp
  moreover have "blocks_ok ?l" using assms(1) new by (rule blocks_ok_update)
  moreover have "cell ?l j = (case x of Some (i, e) \<Rightarrow> if j = b * BLOCK_SIZE + i then e else cell l j | None \<Rightarrow> cell l j)"
    if "j div BLOCK_SIZE < block_count l" for j
  proof (cases "j div BLOCK_SIZE = b")
    case True
    then show ?thesis using old assms(3) index_split [of _ j b]
      by (auto simp: cell_def new_def block_ok_def nth_list_update split: option.splits)
  next
    case False
    then show ?thesis using assms(3) index_split [of _ j b] by (auto simp: cell_def split: option.splits)
  qed
  ultimately show ?thesis using that [of ?l] by (simp add: shape_def)
qed

lemma element_at_spec: "blocks_ok l \<Longrightarrow> i div BLOCK_SIZE < block_count l \<Longrightarrow> element_at l i = Some (cell l i)"
  by (erule (1) block_at) (simp add: element_at_def cell_def block_ok_def)

lemma put_element_spec:
  assumes "blocks_ok l" "i div BLOCK_SIZE < block_count l"
  obtains l' where "put_element l i e = Some l'" "blocks_ok l'" "shape l' = shape l"
    "\<And>j. cell l' j = (if j = i then e else cell l j)"
proof -
  obtain b where b: "blocks l ! (i div BLOCK_SIZE) = Some b" "block_ok b" "i div BLOCK_SIZE < length (blocks l)"
    using block_at [OF assms] .
  let ?b = "b\<lparr>elements := (elements b)[i mod BLOCK_SIZE := e]\<rparr>"
  let ?l = "l\<lparr>blocks := (blocks l)[i div BLOCK_SIZE := Some ?b]\<rparr>"
  have "put_element l i e = Some ?l" using b by (simp add: put_element_def block_ok_def)
  moreover have "blocks_ok ?l" using assms(1) b(2) by (intro blocks_ok_update) (simp_all add: block_ok_def)
  moreover have "cell ?l j = (if j = i then e else cell l j)" for j
    using b by (cases "j div BLOCK_SIZE = i div BLOCK_SIZE")
      (auto simp: cell_def block_ok_def nth_list_update, metis div_mult_mod_eq)
  ultimately show ?thesis using that [of ?l] by (simp add: shape_def)
qed

lemma shape_eqD:
  "shape l' = shape l \<Longrightarrow> block_count l' = block_count l \<and> cow_size l' = cow_size l \<and> live_blocks l' = live_blocks l \<and>
     length (blocks l') = length (blocks l)"
  by (simp add: shape_def)

lemma cow_ok_shape: "cow_ok l \<Longrightarrow> blocks_ok l' \<Longrightarrow> shape l' = shape l \<Longrightarrow> cow_ok l'"
  by (auto simp: cow_ok_def dest!: shape_eqD)

lemma cow_okD:
  assumes "cow_ok l"
  shows "blocks_ok l" "block_count l = calculate_block_count (cow_size l)" "i < cow_size l \<Longrightarrow> i div BLOCK_SIZE < block_count l"
  using assms cell_inside by (auto simp: cow_ok_def)

lemma length_cow_contents [simp]: "length (cow_contents l) = cow_size l"
  by (simp add: cow_contents_def)

lemma nth_cow_contents [simp]: "i < cow_size l \<Longrightarrow> cow_contents l ! i = cell l i"
  by (simp add: cow_contents_def)

lemma cow_list_create_ok: "cow_list_create True True = Some l \<Longrightarrow> cow_ok l \<and> cow_contents l = []"
  by (auto simp: cow_list_create_def cow_ok_def blocks_ok_def calculate_block_count_def cow_contents_def)

lemma cow_list_get_spec:
  assumes "cow_ok l"
  shows "cow_list_get l i = Some (if i < cow_size l then cow_contents l ! i else None)"
proof (cases "i < cow_size l")
  case True
  note c = cow_okD [OF assms]
  obtain b where "blocks l ! (i div BLOCK_SIZE) = Some b" "block_ok b" "i div BLOCK_SIZE < length (blocks l)"
    using block_at [OF c(1) c(3) [OF True]] .
  then show ?thesis using True by (simp add: cow_list_get_def cell_def block_ok_def)
qed (simp add: cow_list_get_def)

lemma cow_list_set_spec:
  assumes "cow_ok l" "i < cow_size l"
  obtains l' where "cow_list_set True l i x = Some (0, l')" "cow_ok l'" "cow_contents l' = (cow_contents l)[i := x]"
proof -
  note c = cow_okD [OF assms(1)]
  obtain l' where l': "copy_block l (i div BLOCK_SIZE) (Some (i mod BLOCK_SIZE, x)) = Some l'" "blocks_ok l'" "shape l' = shape l"
    "\<And>j. j div BLOCK_SIZE < block_count l \<Longrightarrow> cell l' j = (if j = i then x else cell l j)"
    using copy_block_spec [OF c(1) c(3) [OF assms(2)], of "Some (i mod BLOCK_SIZE, x)"] by auto
  have "cow_contents l' = (cow_contents l)[i := x]"
    using l'(4) c(3) shape_eqD [OF l'(3)] by (intro nth_equalityI) (auto simp: nth_list_update)
  then show ?thesis using that l' cow_ok_shape [OF assms(1) l'(2,3)] assms(2) by (simp add: cow_list_set_def)
qed

lemma cow_list_clear_spec:
  assumes "cow_ok l" "i < cow_size l"
  obtains l' where "cow_list_clear True (Some l) i = Some (cow_contents l ! i, Some l')" "cow_ok l'"
    "cow_contents l' = (cow_contents l)[i := None]"
proof -
  note c = cow_okD [OF assms(1)]
  obtain b where b: "blocks l ! (i div BLOCK_SIZE) = Some b" "block_ok b" "i div BLOCK_SIZE < length (blocks l)"
    using block_at [OF c(1) c(3) [OF assms(2)]] .
  have el: "aget (elements b) (i mod BLOCK_SIZE) = Some (cow_contents l ! i)"
    using b assms(2) by (simp add: cell_def block_ok_def)
  show ?thesis
  proof (cases "cow_contents l ! i")
    case None
    then have "(cow_contents l)[i := None] = cow_contents l" by (metis list_update_id)
    then show ?thesis using that [of l] assms b el None by (simp add: cow_list_clear_def)
  next
    case (Some e)
    obtain l' where "cow_list_set True l i None = Some (0, l')" "cow_ok l'" "cow_contents l' = (cow_contents l)[i := None]"
      using cow_list_set_spec [OF assms] .
    then show ?thesis using that [of l'] assms(2) b el Some
      by (auto simp: cow_list_clear_def cow_list_set_def split: bind_splits)
  qed
qed

lemma block_count_Suc:
  "calculate_block_count (Suc n) = Suc (n div BLOCK_SIZE)"
  "calculate_block_count n = (if n mod BLOCK_SIZE = 0 then n div BLOCK_SIZE else Suc (n div BLOCK_SIZE))"
proof -
  have "(Suc n + BLOCK_SIZE - 1) div BLOCK_SIZE = (n + BLOCK_SIZE) div BLOCK_SIZE" by simp
  then show "calculate_block_count (Suc n) = Suc (n div BLOCK_SIZE)" by (simp add: calculate_block_count_def)
  have "(n + 63) div 64 = n div 64 + (n mod 64 + 63) div 64" using div_add1_eq [of n 63 64] by simp
  moreover have "(n mod 64 + 63) div 64 = (if n mod 64 = 0 then 0 else 1)"
    using mod_less_divisor [of 64 n] by (cases "n mod 64 = 0") (auto simp: div_nat_eqI)
  ultimately show "calculate_block_count n = (if n mod BLOCK_SIZE = 0 then n div BLOCK_SIZE else Suc (n div BLOCK_SIZE))"
    by (auto simp: calculate_block_count_def add.commute)
qed

lemma cow_list_add_new_block:
  assumes "cow_ok l" "cow_size l mod BLOCK_SIZE = 0"
  obtains l' where "cow_list_add True True l x = Some (cow_size l, l')" "cow_ok l'" "cow_contents l' = cow_contents l @ [x]"
proof -
  note c = cow_okD [OF assms(1)]
  define n where "n = block_count l"
  have n: "n = cow_size l div BLOCK_SIZE" using assms(2) c(2) block_count_Suc(2) by (simp add: n_def)
  define bs where "bs = (if n < length (blocks l) then blocks l else blocks l @ replicate (length (blocks l)) None)"
  define b where "b = \<lparr>elements = (replicate BLOCK_SIZE None)[0 := x], ref_count = 1\<rparr>"
  define l' where "l' = l\<lparr>blocks := bs[n := Some b], block_count := Suc n, live_blocks := live_blocks l + 1, cow_size := Suc (cow_size l)\<rparr>"
  have len: "n < length bs" "0 < length (blocks l)" using assms(1) by (auto simp: bs_def n_def cow_ok_def blocks_ok_def)
  have old: "bs ! i = blocks l ! i" if "i < n" for i
    using that c(1) by (auto simp: bs_def n_def blocks_ok_def nth_append)
  have count: "calculate_block_count (Suc (cow_size l)) = Suc n" using block_count_Suc(1) n by simp
  have run: "cow_list_add True True l x = Some (cow_size l, l')"
    using len assms(2) count unfolding cow_list_add_def Let_def l'_def
    by (auto simp: bs_def n_def b_def)
  have "block_ok b" by (simp add: b_def block_ok_def)
  then have ok: "cow_ok l'" using assms(1) len old count
    by (auto simp: cow_ok_def blocks_ok_def l'_def n_def less_Suc_eq)
  have cells: "cell l' j = (if j = cow_size l then x else cell l j)" if "j < Suc (cow_size l)" for j
  proof (cases "j = cow_size l")
    case True
    then show ?thesis using assms(2) len n by (simp add: cell_def l'_def b_def)
  next
    case False
    then have "j div BLOCK_SIZE < n" using that c(3) by (simp add: n_def)
    then show ?thesis using False old by (simp add: cell_def l'_def)
  qed
  have "cow_contents l' = cow_contents l @ [x]"
    using cells by (auto simp: cow_contents_def l'_def [symmetric]) (simp_all add: l'_def)
  then show ?thesis using that run ok by blast
qed

lemma cow_list_add_spec:
  assumes "cow_ok l"
  obtains l' where "cow_list_add True True l x = Some (cow_size l, l')" "cow_ok l'" "cow_contents l' = cow_contents l @ [x]"
proof (cases "cow_size l mod BLOCK_SIZE = 0")
  case True
  then show ?thesis by (rule cow_list_add_new_block [OF assms]) (rule that)
next
  case False
  note c = cow_okD [OF assms]
  have n: "block_count l = Suc (cow_size l div BLOCK_SIZE)" using False c(2) block_count_Suc(2) by simp
  have count: "calculate_block_count (Suc (cow_size l)) = block_count l" using block_count_Suc(1) n by simp
  have cap: "block_count l \<le> length (blocks l)" using c(1) by (simp add: blocks_ok_def)
  obtain l1 where l1: "copy_block l (cow_size l div BLOCK_SIZE) (Some (cow_size l mod BLOCK_SIZE, x)) = Some l1" "blocks_ok l1"
    "shape l1 = shape l" "\<And>j. j div BLOCK_SIZE < block_count l \<Longrightarrow> cell l1 j = (if j = cow_size l then x else cell l j)"
    using copy_block_spec [OF c(1), of "cow_size l div BLOCK_SIZE" "Some (cow_size l mod BLOCK_SIZE, x)"] n by auto
  let ?l = "l1\<lparr>cow_size := Suc (cow_size l)\<rparr>"
  have run: "cow_list_add True True l x = Some (cow_size l, ?l)"
    using l1(1) n count cap unfolding cow_list_add_def Let_def by simp
  have ok: "cow_ok ?l" using assms l1(2) shape_eqD [OF l1(3)] count by (auto simp: cow_ok_def blocks_ok_def)
  have "cell ?l j = (if j = cow_size l then x else cell l j)" if "j < Suc (cow_size l)" for j
    using l1(4) [of j] c(3) [of j] that n by (auto simp: cell_def less_Suc_eq)
  then have "cow_contents ?l = cow_contents l @ [x]" by (auto simp: cow_contents_def)
  then show ?thesis using that run ok by blast
qed

lemma shift_loop_spec:
  assumes "blocks_ok l" "m div BLOCK_SIZE < block_count l" "index \<le> k" "k \<le> m"
  shows "\<exists>s l'. shift_loop mem index [k..<m] l = Some (s = m, l') \<and> k \<le> s \<and> s \<le> m \<and> blocks_ok l' \<and> shape l' = shape l \<and>
    (\<forall>j. j div BLOCK_SIZE < block_count l \<longrightarrow> cell l' j = (if k \<le> j \<and> j < s then cell l (Suc j) else cell l j)) \<and>
    ((\<forall>i. mem i) \<longrightarrow> s = m) \<and> (\<not> mem index \<and> k = index \<and> k < m \<longrightarrow> s = index)"
  using assms
proof (induction "m - k" arbitrary: k l)
  case 0
  then show ?case by (intro exI [of _ m] exI [of _ l]) auto
next
  case (Suc d)
  have km: "k < m" using Suc.hyps(2) by simp
  then have up: "[k..<m] = k # [Suc k..<m]" by (rule upt_conv_Cons)
  have in_k: "k div BLOCK_SIZE < block_count l" "Suc k div BLOCK_SIZE < block_count l"
    using Suc.prems(2) km by (meson div_le_mono order_le_less_trans less_imp_le Suc_leI)+
  let ?copy = "k = index \<or> k mod BLOCK_SIZE = 0"
  show ?case
  proof (cases "?copy \<and> \<not> mem k")
    case True
    then show ?thesis using km Suc.prems unfolding up by (intro exI [of _ k] exI [of _ l]) auto
  next
    case False
    obtain l1 where l1: "(if ?copy then copy_block l (k div BLOCK_SIZE) None else Some l) = Some l1" "blocks_ok l1" "shape l1 = shape l"
      "\<And>j. j div BLOCK_SIZE < block_count l \<Longrightarrow> cell l1 j = cell l j"
    proof (cases ?copy)
      case True
      from copy_block_spec [OF Suc.prems(1) in_k(1), of None] show ?thesis using True that by auto
    next
      case False
      then show ?thesis using Suc.prems(1) that by auto
    qed
    have bc1: "block_count l1 = block_count l" using shape_eqD [OF l1(3)] by simp
    have src: "element_at l1 (k + 1) = Some (cell l (Suc k))"
      using element_at_spec [OF l1(2), of "k + 1"] in_k(2) bc1 l1(4) by simp
    obtain l2 where l2: "put_element l1 k (cell l (Suc k)) = Some l2" "blocks_ok l2" "shape l2 = shape l1"
      "\<And>j. cell l2 j = (if j = k then cell l (Suc k) else cell l1 j)"
      using put_element_spec [OF l1(2), of k] in_k(1) bc1 by metis
    have bc2: "block_count l2 = block_count l" using shape_eqD [OF l2(3)] bc1 by simp
    have head: "shift_loop mem index [k..<m] l = shift_loop mem index [Suc k..<m] l2"
      using False l1(1) src l2(1) unfolding up by auto
    obtain s l' where r: "shift_loop mem index [Suc k..<m] l2 = Some (s = m, l')" "Suc k \<le> s" "s \<le> m" "blocks_ok l'" "shape l' = shape l2"
      "\<forall>j. j div BLOCK_SIZE < block_count l2 \<longrightarrow> cell l' j = (if Suc k \<le> j \<and> j < s then cell l2 (Suc j) else cell l2 j)"
      "(\<forall>i. mem i) \<longrightarrow> s = m"
      using Suc.hyps(1) [of "Suc k" l2] Suc.hyps(2) Suc.prems(2,3) l2(2) bc2 km by force
    have "cell l' j = (if k \<le> j \<and> j < s then cell l (Suc j) else cell l j)" if j: "j div BLOCK_SIZE < block_count l" for j
    proof -
      have "Suc j div BLOCK_SIZE < block_count l" if "j < s"
        using that r(3) Suc.prems(2) by (meson div_le_mono order_le_less_trans Suc_leI order_trans)
      then show ?thesis using r(2,6) bc2 j l2(4) l1(4) by auto
    qed
    moreover have "\<not> (\<not> mem index \<and> k = index)" using False by blast
    ultimately show ?thesis using head r l2(3) l1(3) by (intro exI [of _ s] exI [of _ l']) auto
  qed
qed

lemma remove_nth: "i < length xs \<Longrightarrow> take i xs @ drop (Suc i) xs = map (\<lambda>j. if i \<le> j then xs ! Suc j else xs ! j) [0..<length xs - 1]"
  by (rule nth_equalityI) (auto simp: nth_append min_def)

lemma drop_last_cell:
  assumes "cow_ok l" "cow_size l = Suc m"
  obtains l' where "drop_last_element True l m = Some l'"
    "cow_ok (l'\<lparr>cow_size := m\<rparr>)" "\<And>j. j < m \<Longrightarrow> cell l' j = cell l j"
proof (cases "m mod BLOCK_SIZE = 0")
  case True
  note c = cow_okD [OF assms(1)]
  define n where "n = m div BLOCK_SIZE"
  have n: "block_count l = Suc n" "calculate_block_count m = n"
    using c(2) assms(2) block_count_Suc True by (simp_all add: n_def)
  obtain b where b: "blocks l ! n = Some b" "block_ok b" "n < length (blocks l)"
    by (rule block_at [OF c(1), of n]) (use n(1) in auto)
  let ?l = "l\<lparr>blocks := (blocks l)[n := None], block_count := n, live_blocks := live_blocks l - 1\<rparr>"
  have "blocks_ok ?l" using c(1) n(1) by (auto simp: blocks_ok_def)
  then have "cow_ok (?l\<lparr>cow_size := m\<rparr>)" using assms(1) n by (simp add: cow_ok_def blocks_ok_def)
  moreover have "cell ?l j = cell l j" if "j < m" for j
    using that True cell_inside [of j m] n(2) by (simp add: cell_def)
  ultimately show ?thesis using that [of ?l] b n by (simp add: drop_last_element_def)
next
  case False
  note c = cow_okD [OF assms(1)]
  have n: "block_count l = calculate_block_count m" "m div BLOCK_SIZE < block_count l"
    using c(2) assms(2) block_count_Suc False by simp_all
  obtain l' where l': "copy_block l (m div BLOCK_SIZE) (Some (m mod BLOCK_SIZE, None)) = Some l'" "blocks_ok l'" "shape l' = shape l"
    "\<And>j. j div BLOCK_SIZE < block_count l \<Longrightarrow> cell l' j = (if j = m then None else cell l j)"
    using copy_block_spec [OF c(1) n(2), of "Some (m mod BLOCK_SIZE, None)"] by auto
  have "cow_ok (l'\<lparr>cow_size := m\<rparr>)"
    using assms(1) l'(2) shape_eqD [OF l'(3)] n(1) by (simp add: cow_ok_def blocks_ok_def)
  moreover have "cell l' j = cell l j" if "j < m" for j using l'(4) c(3) [of j] that assms(2) by simp
  ultimately show ?thesis using that [of l'] l'(1) n(1) by (simp add: drop_last_element_def)
qed

lemma cow_list_remove_spec:
  assumes "cow_ok l" "i < cow_size l"
  obtains l' where "cow_list_remove (\<lambda>_. True) True l i = Some (cow_contents l ! i, l')" "cow_ok l'"
    "cow_contents l' = take i (cow_contents l) @ drop (Suc i) (cow_contents l)"
proof -
  note c = cow_okD [OF assms(1)]
  obtain m where m: "cow_size l = Suc m" using assms(2) by (cases "cow_size l") auto
  obtain l1 where l1: "shift_loop (\<lambda>_. True) i [i..<m] l = Some (True, l1)" "blocks_ok l1" "shape l1 = shape l"
    "\<forall>j. j div BLOCK_SIZE < block_count l \<longrightarrow> cell l1 j = (if i \<le> j \<and> j < m then cell l (Suc j) else cell l j)"
    using shift_loop_spec [OF c(1), of m i i "\<lambda>_. True"] c(3) [of m] m assms(2) by auto
  have ok1: "cow_ok l1" by (rule cow_ok_shape [OF assms(1) l1(2,3)])
  have m1: "cow_size l1 = Suc m" "block_count l1 = block_count l" using shape_eqD [OF l1(3)] m by auto
  obtain l2 where l2: "drop_last_element True l1 m = Some l2"
    "cow_ok (l2\<lparr>cow_size := m\<rparr>)" "\<And>j. j < m \<Longrightarrow> cell l2 j = cell l1 j"
    using drop_last_cell [OF ok1 m1(1)] by blast
  have "cow_list_remove (\<lambda>_. True) True l i = Some (cell l i, l2\<lparr>cow_size := m\<rparr>)"
    using assms(2) m l1(1) l2(1) element_at_spec [OF c(1) c(3) [OF assms(2)]] by (simp add: cow_list_remove_def Let_def)
  moreover have "cow_contents (l2\<lparr>cow_size := m\<rparr>) = take i (cow_contents l) @ drop (Suc i) (cow_contents l)"
  proof -
    have "cell (l2\<lparr>cow_size := m\<rparr>) j = (if i \<le> j then cell l (Suc j) else cell l j)" if "j < m" for j
      using that l2(3) l1(4) c(3) [of j] m by (simp add: cell_def)
    then show ?thesis using remove_nth [of i "cow_contents l"] assms(2) m by (auto simp: cow_contents_def [of "_\<lparr>cow_size := _\<rparr>"])
  qed
  ultimately show ?thesis using that l2(2) assms(2) by simp
qed

text \<open>
  When the copy of the first block cannot be allocated, \<open>cow_list_remove\<close> answers with the element as if it had removed it and
  leaves the list as it was.
\<close>

lemma cow_list_remove_no_memory:
  assumes "cow_ok l" "i < cow_size l - 1" "\<not> mem i"
  shows "cow_list_remove mem last_ok l i = Some (cow_contents l ! i, l)"
  using assms element_at_spec [OF cow_okD(1) [OF assms(1)] cow_okD(3) [OF assms(1)], of i]
  by (auto simp: cow_list_remove_def upt_conv_Cons)

lemma cow_list_destroy_spec:
  assumes "cow_ok l"
  shows "cow_list_destroy l = Some 0"
proof -
  have len: "block_count l \<le> length (blocks l)" using assms by (simp add: cow_ok_def blocks_ok_def)
  have "released (blocks l ! i) = 1" if "i < block_count l" for i
    using block_at [OF cow_okD(1) [OF assms] that] by (metis released_once)
  then have "map released (take (block_count l) (blocks l)) = replicate (block_count l) 1"
    using len by (intro nth_equalityI) auto
  then show ?thesis using assms len by (simp add: cow_list_destroy_def cow_ok_def sum_list_replicate)
qed

lemma cow_foreach_spec: "cow_ok l \<Longrightarrow> cow_foreach l = Some (map the (filter (\<lambda>e. e \<noteq> None) (cow_contents l)))"
proof -
  assume ok: "cow_ok l"
  have those: "those (map (\<lambda>i. Some (f i)) is) = Some (map f is)" for f :: "nat \<Rightarrow> 'a option" and "is" by (induction "is") auto
  have "map (cow_list_get l) [0..<cow_size l] = map (\<lambda>i. Some (cell l i)) [0..<cow_size l]"
    using cow_list_get_spec [OF ok] by simp
  then show ?thesis by (simp only: cow_foreach_def those) (simp add: cow_contents_def)
qed

section \<open>Refinement of lists\<close>

datatype 'a list_op = Add "'a option" | Put nat "'a option" | Del nat

primrec cow_step :: "'a list_op \<Rightarrow> 'a cow_arraylist \<Rightarrow> 'a cow_arraylist option" where
  "cow_step (Add x) l = map_option snd (cow_list_add True True l x)"
| "cow_step (Put i x) l = map_option snd (cow_list_set True l i x)"
| "cow_step (Del i) l = map_option snd (cow_list_remove (\<lambda>_. True) True l i)"

primrec list_step :: "'a list_op \<Rightarrow> 'a option list \<Rightarrow> 'a option list" where
  "list_step (Add x) xs = xs @ [x]"
| "list_step (Put i x) xs = xs[i := x]"
| "list_step (Del i) xs = take i xs @ drop (Suc i) xs"

lemma cow_step_law: "cow_ok l \<Longrightarrow> \<exists>l'. cow_step op l = Some l' \<and> cow_ok l' \<and> cow_contents l' = list_step op (cow_contents l)"
proof (cases op)
  case (Add x)
  assume "cow_ok l"
  from cow_list_add_spec [OF this, of x] Add show ?thesis by force
next
  case (Put i x)
  assume ok: "cow_ok l"
  show ?thesis
  proof (cases "i < cow_size l")
    case True
    from cow_list_set_spec [OF ok True, of x] Put show ?thesis by force
  qed (use ok Put in \<open>auto simp: cow_list_set_def list_update_beyond\<close>)
next
  case (Del i)
  assume ok: "cow_ok l"
  show ?thesis
  proof (cases "i < cow_size l")
    case True
    from cow_list_remove_spec [OF ok True] Del show ?thesis by force
  qed (use ok Del in \<open>auto simp: cow_list_remove_def\<close>)
qed

interpretation cow: data_refinement cow_step list_step "\<lambda>_ _. True" cow_ok cow_contents
  by unfold_locales (rule cow_step_law)

lemma cow_legal [simp]: "cow.legal_ops ops xs"
  by (induction ops arbitrary: xs) simp_all


definition sample_list :: "nat cow_arraylist" where
  "sample_list = \<lparr>blocks = replicate 4 None, block_count = 0, cow_size = 0, live_blocks = 0\<rparr>"


end
