(* ===== verification/Rrs.thy ===== *)
theory Rrs
  imports Llist_Queue Cow_List Signals
begin

text \<open>
  The round-robin scheduler \<^verbatim>\<open>src/src/task/rrs.c\<close>, the default one.  Each processor has a queue of entities whose first is the
  idle one; an entity names its thread and its queue node, and a thread its entity (\<open>sched_handle\<close>).  Entities and threads are
  heap objects: \<open>free\<close> removes an entry, and reading an entry or a queue node that is gone is the fault \<^const>\<open>None\<close>, as is a failed
  \<open>asserts\<close> and the loop that never ends.  Of \<open>struct thread_control_block\<close> the fields the schedulers use are here; those of the
  signals, and the status, are the \<^typ>\<open>tcb\<close> of theory Signals.  A processor that is enabled has its queue; the operations are stated for every extension of the state, so
  that the process table can be added to it.
\<close>

section \<open>Definitions\<close>

record sched_entity =
  se_thread :: u64
  se_node :: "nat option"

record rrs_t =
  sched_queue :: "nat list_queue_t"
  rrs_idle :: nat
  rrs_curr :: nat

record thread =
  th_handle :: "nat option"
  th_tcb :: tcb
  sleep_deadline :: u64
  block_code :: int
  cpu_id :: nat
  th_prio :: u64
  th_process :: u64
  ct_index :: nat
  syscall_stack :: u64
  signal_stack :: u64
  tid_address :: u64
  tid_directory :: u64

record cpu_local =
  cpu_rrs :: rrs_t
  cl_id :: nat
  current_task :: u64
  idle_task :: u64
  enable :: bool
  directory :: u64
  task_count :: u64
  jiffies :: u64
  idle_jiffies :: u64
  is_yield :: bool

record sched_state =
  entities :: "nat \<rightharpoonup> sched_entity"
  next_entity :: nat
  threads :: "u64 \<rightharpoonup> thread"
  cpus :: "cpu_local list"
  sleep_list :: "u64 cow_arraylist option"

abbreviation MAX_CPU :: nat where "MAX_CPU \<equiv> 256"

text \<open>A processor is named by its index in \<open>cpu_local_infos\<close>, \<^const>\<open>None\<close> for \<open>NULL\<close>; its \<open>id\<close> need not be the index.\<close>

definition get_cpu_local :: "nat \<Rightarrow> cpu_local list \<Rightarrow> nat option" where
  "get_cpu_local cpu cs =
     (if cpu \<ge> MAX_CPU then None else find (\<lambda>i. enable (cs ! i) \<and> cl_id (cs ! i) = cpu) [0..<length cs])"

definition upd_thread :: "u64 \<Rightarrow> (thread \<Rightarrow> thread) \<Rightarrow> 'a sched_state_scheme \<Rightarrow> 'a sched_state_scheme option" where
  "upd_thread t f st = do { th \<leftarrow> threads st t; Some (st\<lparr>threads := (threads st)(t \<mapsto> f th)\<rparr>) }"

definition set_rrs :: "nat \<Rightarrow> rrs_t \<Rightarrow> 'a sched_state_scheme \<Rightarrow> 'a sched_state_scheme option" where
  "set_rrs c r st = do { cpu \<leftarrow> aget (cpus st) c; cs \<leftarrow> aput (cpus st) c (cpu\<lparr>cpu_rrs := r\<rparr>); Some (st\<lparr>cpus := cs\<rparr>) }"

text \<open>\<open>node_ok\<close> is the answer of \<open>malloc\<close> inside \<open>list_enqueue\<close>; the entity itself is asserted.\<close>

definition add_rrs_entity :: "bool \<Rightarrow> bool \<Rightarrow> u64 \<Rightarrow> nat option \<Rightarrow> 'a sched_state_scheme \<Rightarrow> 'a sched_state_scheme option" where
  "add_rrs_entity entity_ok node_ok t local st = do {
     c \<leftarrow> local;
     cpu \<leftarrow> aget (cpus st) c;
     if \<not> entity_ok then None
     else do {
       let e = next_entity st;
       let (node, queue) = list_enqueue node_ok (sched_queue (cpu_rrs cpu)) (\<lambda>_. e);
       st \<leftarrow> set_rrs c ((cpu_rrs cpu)\<lparr>sched_queue := queue\<rparr>)
         (st\<lparr>next_entity := e + 1, entities := (entities st)(e \<mapsto> \<lparr>se_thread = t, se_node = node\<rparr>)\<rparr>);
       upd_thread t (\<lambda>th. th\<lparr>th_handle := Some e\<rparr>) st
     }
   }"

definition remove_rrs_entity :: "u64 \<Rightarrow> nat option \<Rightarrow> 'a sched_state_scheme \<Rightarrow> 'a sched_state_scheme option" where
  "remove_rrs_entity t local st =
     (if t = 0 \<or> local = None then Some st
      else do {
        th \<leftarrow> threads st t;
        (case th_handle th of
           None \<Rightarrow> Some st
         | Some e \<Rightarrow> do {
             c \<leftarrow> local;
             cpu \<leftarrow> aget (cpus st) c;
             entity \<leftarrow> entities st e;
             let r = cpu_rrs cpu;
             let r = r\<lparr>sched_queue := list_remove_node (sched_queue r) (se_node entity)\<rparr>;
             let r = (if rrs_curr r = e then r\<lparr>rrs_curr := rrs_idle r\<rparr> else r);
             st \<leftarrow> set_rrs c r st;
             upd_thread t (\<lambda>th. th\<lparr>th_handle := None\<rparr>) (st\<lparr>entities := (entities st)(e := None)\<rparr>)
           })
      })"

text \<open>\<open>node->next->data\<close>: the inner \<^const>\<open>None\<close> is a \<open>NULL\<close> link, the outer one a node that is not in the queue.\<close>

primrec next_datum :: "nat \<Rightarrow> (nat \<times> 'a) list \<Rightarrow> 'a option option" where
  "next_datum node [] = None"
| "next_datum node (n # ns) =
     (if fst n = node then Some (case ns of [] \<Rightarrow> None | m # _ \<Rightarrow> Some (snd m)) else next_datum node ns)"

partial_function (option) resche :: "(nat \<rightharpoonup> sched_entity) \<Rightarrow> rrs_t \<Rightarrow> (nat \<times> rrs_t) option" where
  "resche es r = do {
     entity \<leftarrow> es (rrs_curr r);
     node \<leftarrow> se_node entity;
     following \<leftarrow> next_datum node (lq_nodes (sched_queue r));
     let nxt = (case following of None \<Rightarrow> rrs_idle r | Some e \<Rightarrow> e);
     let r = r\<lparr>rrs_curr := nxt\<rparr>;
     if rrs_curr r = rrs_idle r then resche es r else Some (nxt, r)
   }"

definition rrs_pick_next_task :: "nat \<Rightarrow> 'a sched_state_scheme \<Rightarrow> (u64 \<times> 'a sched_state_scheme) option" where
  "rrs_pick_next_task c st = do {
     cpu \<leftarrow> aget (cpus st) c;
     let r = cpu_rrs cpu;
     if lq_size (sched_queue r) = 1 then do { entity \<leftarrow> entities st (rrs_idle r); Some (se_thread entity, st) }
     else do {
       (e, r) \<leftarrow> resche (entities st) r;
       entity \<leftarrow> entities st e;
       st \<leftarrow> set_rrs c r st;
       Some (se_thread entity, st)
     }
   }"

text \<open>The idle thread's \<open>sched_handle\<close> is not set.\<close>

definition init_cpu_idle_rrs :: "bool \<Rightarrow> u64 \<Rightarrow> nat \<Rightarrow> 'a sched_state_scheme \<Rightarrow> 'a sched_state_scheme option" where
  "init_cpu_idle_rrs ok t c st = do {
     if \<not> ok then None
     else do {
       queue \<leftarrow> create_llist_queue True;
       let e = next_entity st;
       let (node, queue) = list_enqueue True queue (\<lambda>_. e);
       set_rrs c \<lparr>sched_queue = queue, rrs_idle = e, rrs_curr = e\<rparr>
         (st\<lparr>next_entity := e + 1, entities := (entities st)(e \<mapsto> \<lparr>se_thread = t, se_node = node\<rparr>)\<rparr>)
     }
   }"

section \<open>The run queue of a processor\<close>

lemma get_cpu_localD:
  assumes "get_cpu_local i cs = Some c"
  shows "c < length cs" "cl_id (cs ! c) = i" "enable (cs ! c)" "i < MAX_CPU"
  using assms by (auto simp: get_cpu_local_def find_Some_iff split: if_splits)

lemma get_cpu_local_cong:
  assumes "length ds = length cs" "\<And>k. k < length cs \<Longrightarrow> enable (ds ! k) = enable (cs ! k) \<and> cl_id (ds ! k) = cl_id (cs ! k)"
  shows "get_cpu_local i ds = get_cpu_local i cs"
  unfolding get_cpu_local_def using assms by (auto intro!: find_cong)

lemma get_cpu_local_upd [simp]:
  assumes "enable u = enable (cs ! c)" "cl_id u = cl_id (cs ! c)"
  shows "get_cpu_local i (cs[c := u]) = get_cpu_local i cs"
proof (rule get_cpu_local_cong)
  show "enable (cs[c := u] ! k) = enable (cs ! k) \<and> cl_id (cs[c := u] ! k) = cl_id (cs ! k)" if "k < length cs" for k
    using that assms by (cases "k = c") simp_all
qed simp

definition queue_of :: "nat \<Rightarrow> 'a sched_state_scheme \<Rightarrow> nat list_queue_t" where
  "queue_of c st = sched_queue (cpu_rrs (cpus st ! c))"

text \<open>The entities of a processor in queue order, the idle one first, and the threads behind it.\<close>

definition run_entities :: "nat \<Rightarrow> 'a sched_state_scheme \<Rightarrow> nat list" where
  "run_entities c st = lq_data (queue_of c st)"

definition run_queue :: "nat \<Rightarrow> 'a sched_state_scheme \<Rightarrow> u64 list" where
  "run_queue c st = map (\<lambda>e. se_thread (the (entities st e))) (tl (run_entities c st))"

definition cpu_ok :: "nat \<Rightarrow> 'a sched_state_scheme \<Rightarrow> bool" where
  "cpu_ok c st \<longleftrightarrow> lq_wf (queue_of c st) \<and> distinct (run_entities c st) \<and> run_entities c st \<noteq> [] \<and>
     hd (run_entities c st) = rrs_idle (cpu_rrs (cpus st ! c)) \<and> rrs_curr (cpu_rrs (cpus st ! c)) \<in> set (run_entities c st) \<and>
     (\<forall>(n, e)\<in>set (lq_nodes (queue_of c st)). \<exists>t. entities st e = Some \<lparr>se_thread = t, se_node = Some n\<rparr>)"

lemma next_datum_append:
  "node \<notin> fst ` set pre \<Longrightarrow> next_datum node (pre @ (node, x) # post) = Some (case post of [] \<Rightarrow> None | m # _ \<Rightarrow> Some (snd m))"
  by (induction pre) auto

text \<open>The position after position \<open>i\<close> in a queue of \<open>n + 1\<close> entities: the idle entity at 0 is skipped.\<close>

definition next_pos :: "nat \<Rightarrow> nat \<Rightarrow> nat" where
  "next_pos n i = (if i < n then i + 1 else 1)"

lemma next_pos_mod:
  assumes "i \<le> n" "0 < n"
  shows "next_pos n i - 1 = i mod n" "(next_pos n i + m) mod n = (i + Suc m) mod n"
proof -
  show "next_pos n i - 1 = i mod n" using assms by (cases "i < n") (auto simp: next_pos_def)
  show "(next_pos n i + m) mod n = (i + Suc m) mod n"
  proof (cases "i < n")
    case False
    then have "i = n" using assms(1) by simp
    then show ?thesis using mod_add_self1 [of n "Suc m"] by (simp add: next_pos_def)
  qed (simp add: next_pos_def)
qed

lemma entity_at:
  assumes "cpu_ok c st" "i < length (run_entities c st)"
  obtains n t where "lq_nodes (queue_of c st) ! i = (n, run_entities c st ! i)" "entities st (run_entities c st ! i) = Some \<lparr>se_thread = t, se_node = Some n\<rparr>"
    "next_datum n (lq_nodes (queue_of c st)) =
       Some (if Suc i < length (run_entities c st) then Some (run_entities c st ! Suc i) else None)"
proof -
  let ?ns = "lq_nodes (queue_of c st)"
  have i: "i < length ?ns" using assms(2) by (simp add: run_entities_def lq_data_def)
  obtain n e where ne: "?ns ! i = (n, e)" by fastforce
  then have e: "e = run_entities c st ! i" using i by (simp add: run_entities_def lq_data_def)
  obtain t where t: "entities st e = Some \<lparr>se_thread = t, se_node = Some n\<rparr>"
    using assms(1) i ne nth_mem [OF i] by (auto simp: cpu_ok_def)
  have split: "?ns = take i ?ns @ (n, e) # drop (Suc i) ?ns" using i ne by (metis id_take_nth_drop)
  have "distinct (map fst (take i ?ns @ (n, e) # drop (Suc i) ?ns))" unfolding split [symmetric] using assms(1) by (simp add: cpu_ok_def lq_wf_def)
  then have "n \<notin> fst ` set (take i ?ns)" by auto
  then have "next_datum n ?ns = Some (case drop (Suc i) ?ns of [] \<Rightarrow> None | m # _ \<Rightarrow> Some (snd m))"
    using next_datum_append split by metis
  moreover have "(case drop (Suc i) ?ns of [] \<Rightarrow> None | m # _ \<Rightarrow> Some (snd m)) =
      (if Suc i < length (run_entities c st) then Some (run_entities c st ! Suc i) else None)"
    by (cases "Suc i < length ?ns") (simp_all add: run_entities_def lq_data_def flip: Cons_nth_drop_Suc)
  ultimately show ?thesis using that ne e t by simp
qed

lemma resche_spec:
  assumes "cpu_ok c st" "i < length (run_entities c st)" "rrs_curr (cpu_rrs (cpus st ! c)) = run_entities c st ! i"
    "1 < length (run_entities c st)"
  shows "resche (entities st) (cpu_rrs (cpus st ! c)) =
    (let e = run_entities c st ! next_pos (length (run_entities c st) - 1) i in Some (e, (cpu_rrs (cpus st ! c))\<lparr>rrs_curr := e\<rparr>))"
proof -
  let ?r = "cpu_rrs (cpus st ! c)" and ?es = "run_entities c st"
  have idle: "rrs_idle ?r = ?es ! 0" using assms(1) hd_conv_nth [of ?es] by (simp add: cpu_ok_def)
  have nodes: "lq_nodes (sched_queue ?r) = lq_nodes (queue_of c st)" by (simp add: queue_of_def)
  have dist: "distinct ?es" using assms(1) by (simp add: cpu_ok_def)
  have one: "resche (entities st) (?r\<lparr>rrs_curr := ?es ! j\<rparr>) = Some (?es ! Suc j, ?r\<lparr>rrs_curr := ?es ! Suc j\<rparr>)" if j: "Suc j < length ?es" for j
  proof -
    obtain n t where "entities st (?es ! j) = Some \<lparr>se_thread = t, se_node = Some n\<rparr>"
      "next_datum n (lq_nodes (queue_of c st)) = Some (Some (?es ! Suc j))"
      using entity_at [OF assms(1), of j] j by (metis Suc_lessD)
    moreover have "?es ! Suc j \<noteq> ?es ! 0" using dist j by (metis Suc_lessD nth_eq_iff_index_eq nat.distinct(1) length_greater_0_conv list.size(3) not_less0)
    ultimately show ?thesis by (subst resche.simps) (simp add: nodes idle Let_def)
  qed
  have cur: "?r = ?r\<lparr>rrs_curr := ?es ! i\<rparr>" using assms(3) by (cases ?r) simp
  show ?thesis
  proof (cases "Suc i < length ?es")
    case True
    then have "next_pos (length ?es - 1) i = Suc i" by (auto simp: next_pos_def)
    then show ?thesis using one [OF True] cur by (simp add: Let_def)
  next
    case False
    obtain n t where "entities st (?es ! i) = Some \<lparr>se_thread = t, se_node = Some n\<rparr>"
      "next_datum n (lq_nodes (queue_of c st)) = Some None"
      using entity_at [OF assms(1,2)] False by metis
    then have "resche (entities st) ?r = resche (entities st) (?r\<lparr>rrs_curr := ?es ! 0\<rparr>)"
      using assms(3) by (subst resche.simps) (simp add: nodes idle Let_def)
    moreover have "next_pos (length ?es - 1) i = Suc 0" using False assms(2,4) by (simp add: next_pos_def)
    ultimately show ?thesis using one [of 0] assms(4) by (simp add: Let_def)
  qed
qed

text \<open>
  One pick: the entity after the current one, in the queue that stays as it is.  \<open>pos c st i\<close>: the current entity is at
  position \<open>i\<close>.
\<close>

definition pos :: "nat \<Rightarrow> 'a sched_state_scheme \<Rightarrow> nat \<Rightarrow> bool" where
  "pos c st i \<longleftrightarrow> i < length (run_entities c st) \<and> rrs_curr (cpu_rrs (cpus st ! c)) = run_entities c st ! i"

lemma pick_spec:
  assumes "c < length (cpus st)" "cpu_ok c st" "pos c st i" "run_queue c st \<noteq> []"
    "j = next_pos (length (run_queue c st)) i"
  obtains st' where "rrs_pick_next_task c st = Some (run_queue c st ! (j - 1), st')" "cpu_ok c st'" "pos c st' j"
    "run_queue c st' = run_queue c st" "length (cpus st') = length (cpus st)" "0 < j" "j \<le> length (run_queue c st)"
    "entities st' = entities st" "threads st' = threads st" "sleep_list st' = sleep_list st" "next_entity st' = next_entity st"
    "\<And>k. run_entities k st' = run_entities k st" "\<And>k. k \<noteq> c \<Longrightarrow> cpus st' ! k = cpus st ! k"
    "\<And>i. get_cpu_local i (cpus st') = get_cpu_local i (cpus st)"
proof -
  let ?es = "run_entities c st" and ?r = "cpu_rrs (cpus st ! c)"
  have len: "length (run_queue c st) = length ?es - 1" "1 < length ?es"
    using assms(4) by (auto simp: run_queue_def) (metis One_nat_def length_tl zero_less_diff length_greater_0_conv)
  have j: "0 < j" "j < length ?es" using assms(5) len by (auto simp: next_pos_def)
  have size: "lq_size (sched_queue ?r) \<noteq> 1"
    using assms(2) len(2) by (simp add: cpu_ok_def lq_wf_def run_entities_def lq_data_def queue_of_def)
  have r: "resche (entities st) ?r = Some (?es ! j, ?r\<lparr>rrs_curr := ?es ! j\<rparr>)"
    using resche_spec [OF assms(2), of i] assms(3,5) len by (simp add: pos_def Let_def)
  obtain t n where e: "entities st (?es ! j) = Some \<lparr>se_thread = t, se_node = Some n\<rparr>"
    using entity_at [OF assms(2) j(2)] by metis
  let ?st = "st\<lparr>cpus := (cpus st)[c := (cpus st ! c)\<lparr>cpu_rrs := ?r\<lparr>rrs_curr := ?es ! j\<rparr>\<rparr>]\<rparr>"
  have "rrs_pick_next_task c st = Some (t, ?st)"
    using assms(1) size r e by (simp add: rrs_pick_next_task_def set_rrs_def)
  moreover have "t = run_queue c st ! (j - 1)" using e j by (cases j) (simp_all add: run_queue_def nth_tl)
  moreover have same: "run_entities k ?st = run_entities k st" "queue_of k ?st = queue_of k st" for k
    using assms(1) by (cases "k = c"; simp add: run_entities_def queue_of_def)+
  moreover have "cpu_ok c ?st" using assms(1,2) j(2) by (simp add: cpu_ok_def same)
  moreover have "pos c ?st j" using assms(1) j by (simp add: pos_def same)
  ultimately show ?thesis using that [of ?st] j len by (simp add: run_queue_def same)
qed

primrec picks :: "nat \<Rightarrow> nat \<Rightarrow> 'a sched_state_scheme \<Rightarrow> (u64 list \<times> 'a sched_state_scheme) option" where
  "picks 0 c st = Some ([], st)"
| "picks (Suc k) c st = do { (t, st) \<leftarrow> rrs_pick_next_task c st; (ts, st) \<leftarrow> picks k c st; Some (t # ts, st) }"

lemma picks_spec:
  assumes "c < length (cpus st)" "cpu_ok c st" "pos c st i" "run_queue c st \<noteq> []"
  shows "\<exists>st'. picks k c st = Some (map (\<lambda>m. run_queue c st ! ((i + m) mod length (run_queue c st))) [0..<k], st') \<and> cpu_ok c st' \<and>
    run_queue c st' = run_queue c st"
  using assms
proof (induction k arbitrary: st i)
  case (Suc k)
  let ?n = "length (run_queue c st)"
  have n: "0 < ?n" using Suc.prems(4) by simp
  obtain st1 j where st1: "rrs_pick_next_task c st = Some (run_queue c st ! (j - 1), st1)" "cpu_ok c st1" "pos c st1 j"
    "run_queue c st1 = run_queue c st" "length (cpus st1) = length (cpus st)" "j = next_pos ?n i" "0 < j" "j \<le> ?n"
    using pick_spec [OF Suc.prems refl] by metis
  have i: "i \<le> ?n" using Suc.prems(3,4) by (auto simp: pos_def run_queue_def)
  have first: "j - 1 = i mod ?n" "\<And>m. (j + m) mod ?n = (i + Suc m) mod ?n"
    unfolding st1(6) using next_pos_mod [OF i n] by blast+
  obtain st2 where "picks k c st1 = Some (map (\<lambda>m. run_queue c st ! ((j + m) mod ?n)) [0..<k], st2)" "cpu_ok c st2"
    "run_queue c st2 = run_queue c st"
    using Suc.IH [OF _ st1(2,3)] Suc.prems(1,4) st1(4,5) by auto
  then show ?case using st1(1) first by (simp add: upt_conv_Cons map_Suc_upt [symmetric] comp_def del: upt_Suc)
qed simp

section \<open>All processors\<close>

text \<open>
  Every queue is sound, no entity is in two queues, and a thread's handle and its entity point at each other: an entity behind
  the idle one belongs to a thread with that handle on that processor, and a handle names such an entity.
\<close>

definition handles_ok :: "'a sched_state_scheme \<Rightarrow> bool" where
  "handles_ok st \<longleftrightarrow>
     (\<forall>c<length (cpus st). \<forall>e\<in>set (tl (run_entities c st)).
        \<exists>th. threads st (se_thread (the (entities st e))) = Some th \<and> th_handle th = Some e \<and> get_cpu_local (cpu_id th) (cpus st) = Some c) \<and>
     (\<forall>t th e. threads st t = Some th \<and> th_handle th = Some e \<longrightarrow>
        (\<exists>c. get_cpu_local (cpu_id th) (cpus st) = Some c \<and> e \<in> set (tl (run_entities c st))) \<and> se_thread (the (entities st e)) = t)"

definition sched_ok :: "'a sched_state_scheme \<Rightarrow> bool" where
  "sched_ok st \<longleftrightarrow> (\<forall>c<length (cpus st). cpu_ok c st \<and> (\<forall>e\<in>set (run_entities c st). e < next_entity st)) \<and>
     (\<forall>c<length (cpus st). \<forall>d<length (cpus st). c \<noteq> d \<longrightarrow> set (run_entities c st) \<inter> set (run_entities d st) = {}) \<and> handles_ok st"

lemma sched_okD:
  assumes "sched_ok st"
  shows "c < length (cpus st) \<Longrightarrow> cpu_ok c st" "c < length (cpus st) \<Longrightarrow> e \<in> set (run_entities c st) \<Longrightarrow> e < next_entity st"
    "c < length (cpus st) \<Longrightarrow> d < length (cpus st) \<Longrightarrow> c \<noteq> d \<Longrightarrow> e \<in> set (run_entities c st) \<Longrightarrow> e \<notin> set (run_entities d st)"
    "c < length (cpus st) \<Longrightarrow> e \<in> set (tl (run_entities c st)) \<Longrightarrow>
       \<exists>th. threads st (se_thread (the (entities st e))) = Some th \<and> th_handle th = Some e \<and> get_cpu_local (cpu_id th) (cpus st) = Some c"
    "threads st t = Some th \<Longrightarrow> th_handle th = Some e \<Longrightarrow>
       (\<exists>c. get_cpu_local (cpu_id th) (cpus st) = Some c \<and> e \<in> set (tl (run_entities c st))) \<and> se_thread (the (entities st e)) = t"
  using assms unfolding sched_ok_def handles_ok_def by blast+

lemma run_queue_distinct:
  assumes "sched_ok st" "c < length (cpus st)"
  shows "distinct (run_queue c st)"
proof -
  have d: "distinct (tl (run_entities c st))" using sched_okD(1) [OF assms] by (simp add: cpu_ok_def distinct_tl)
  have "inj_on (\<lambda>e. se_thread (the (entities st e))) (set (tl (run_entities c st)))"
    by (rule inj_onI) (metis sched_okD(4) [OF assms] option.inject)
  then show ?thesis using d by (simp add: run_queue_def distinct_map)
qed

lemma in_run_queue:
  assumes "sched_ok st" "c < length (cpus st)"
  shows "t \<in> set (run_queue c st) \<longleftrightarrow> (\<exists>th. threads st t = Some th \<and> th_handle th \<noteq> None \<and> get_cpu_local (cpu_id th) (cpus st) = Some c)"
proof
  assume "t \<in> set (run_queue c st)"
  then obtain e where "e \<in> set (tl (run_entities c st))" "t = se_thread (the (entities st e))" by (auto simp: run_queue_def)
  then show "\<exists>th. threads st t = Some th \<and> th_handle th \<noteq> None \<and> get_cpu_local (cpu_id th) (cpus st) = Some c" using sched_okD(4) [OF assms] by blast
next
  assume "\<exists>th. threads st t = Some th \<and> th_handle th \<noteq> None \<and> get_cpu_local (cpu_id th) (cpus st) = Some c"
  then obtain th e where "threads st t = Some th" "th_handle th = Some e" "get_cpu_local (cpu_id th) (cpus st) = Some c" by blast
  then show "t \<in> set (run_queue c st)" using sched_okD(5) [OF assms(1)] by (fastforce simp: run_queue_def image_iff)
qed

text \<open>Adding a thread that has no entity.\<close>

lemma add_spec:
  assumes "sched_ok st" "threads st t = Some th" "th_handle th = None" "get_cpu_local (cpu_id th) (cpus st) = Some c"
  obtains st' where "add_rrs_entity True True t (Some c) st = Some st'" "sched_ok st'" "length (cpus st') = length (cpus st)"
    "threads st' = (threads st)(t \<mapsto> th\<lparr>th_handle := Some (next_entity st)\<rparr>)" "sleep_list st' = sleep_list st"
    "\<And>i. get_cpu_local i (cpus st') = get_cpu_local i (cpus st)"
    "\<And>k. k < length (cpus st) \<Longrightarrow> run_queue k st' = (if k = c then run_queue c st @ [t] else run_queue k st)"
proof -
  have c: "c < length (cpus st)" using get_cpu_localD(1) [OF assms(4)] .
  let ?e = "next_entity st" and ?r = "cpu_rrs (cpus st ! c)" and ?q = "queue_of c st"
  let ?n = "next_node ?q"
  let ?q' = "snd (list_enqueue True ?q (\<lambda>_. ?e))"
  define st' where "st' = st\<lparr>next_entity := ?e + 1, entities := (entities st)(?e \<mapsto> \<lparr>se_thread = t, se_node = Some ?n\<rparr>),
    cpus := (cpus st)[c := (cpus st ! c)\<lparr>cpu_rrs := ?r\<lparr>sched_queue := ?q'\<rparr>\<rparr>], threads := (threads st)(t \<mapsto> th\<lparr>th_handle := Some ?e\<rparr>)\<rparr>"
  have run: "add_rrs_entity True True t (Some c) st = Some st'"
    using assms(2) c by (simp add: add_rrs_entity_def set_rrs_def upd_thread_def list_enqueue_def queue_of_def st'_def Let_def)
  have qs: "queue_of k st' = (if k = c then ?q' else queue_of k st)" for k
    using c by (auto simp: queue_of_def st'_def)
  have ok: "cpu_ok c st" using sched_okD(1) [OF assms(1) c] .
  have nodes': "lq_nodes ?q' = lq_nodes ?q @ [(?n, ?e)]" by (simp add: list_enqueue_def)
  have es: "run_entities k st' = (if k = c then run_entities c st @ [?e] else run_entities k st)" for k
    using nodes' by (simp add: run_entities_def qs lq_data_def)
  have old: "entities st' e = entities st e" if "k < length (cpus st)" "e \<in> set (run_entities k st)" for k e
    using sched_okD(2) [OF assms(1) that] by (simp add: st'_def)
  have ne: "run_entities c st \<noteq> []" using ok by (simp add: cpu_ok_def)
  have tls: "tl (run_entities k st') = (if k = c then tl (run_entities c st) @ [?e] else tl (run_entities k st))" for k
    using ne by (simp add: es)
  have here: "entities st' ?e = Some \<lparr>se_thread = t, se_node = Some ?n\<rparr>" by (simp add: st'_def)
  have in_tl: "e \<in> set (tl xs) \<Longrightarrow> e \<in> set xs" for e :: nat and xs by (cases xs) auto
  have rq: "run_queue k st' = (if k = c then run_queue c st @ [t] else run_queue k st)" if "k < length (cpus st)" for k
    using old [OF that in_tl] old [OF c in_tl] here by (simp add: run_queue_def tls)
  have cpu: "cpu_ok k st'" if k: "k < length (cpus st)" for k
  proof -
    have oks: "cpu_ok k st" using sched_okD(1) [OF assms(1) k] .
    have idle: "rrs_idle (cpu_rrs (cpus st' ! k)) = rrs_idle (cpu_rrs (cpus st ! k))"
      "rrs_curr (cpu_rrs (cpus st' ! k)) = rrs_curr (cpu_rrs (cpus st ! k))"
      using c by (cases "k = c"; simp add: st'_def)+
    have wf: "lq_wf (queue_of k st')" using oks list_enqueue_spec(2) [of ?q "\<lambda>_. ?e"] by (auto simp: qs cpu_ok_def)
    have fresh: "?e \<notin> set (run_entities k st)" using sched_okD(2) [OF assms(1) k] by blast
    have ents: "\<exists>u. entities st' e = Some \<lparr>se_thread = u, se_node = Some n\<rparr>" if "(n, e) \<in> set (lq_nodes (queue_of k st))" for n e
    proof -
      have "e \<in> set (run_entities k st)" using that by (force simp: run_entities_def lq_data_def)
      then show ?thesis using oks that old [OF k] by (auto simp: cpu_ok_def)
    qed
    show ?thesis
      using oks idle wf fresh ents here nodes' unfolding cpu_ok_def by (auto simp: es qs)
  qed
  have ids: "get_cpu_local i (cpus st') = get_cpu_local i (cpus st)" for i by (simp add: st'_def)
  have hs: "handles_ok st'" unfolding handles_ok_def
  proof (intro conjI allI impI ballI)
    fix k e
    assume k: "k < length (cpus st')" and e: "e \<in> set (tl (run_entities k st'))"
    then have kl: "k < length (cpus st)" by (simp add: st'_def)
    show "\<exists>th. threads st' (se_thread (the (entities st' e))) = Some th \<and> th_handle th = Some e \<and> get_cpu_local (cpu_id th) (cpus st') = Some k"
    proof (cases "e = ?e")
      case True
      then have "k = c" using e sched_okD(2) [OF assms(1) kl] in_tl by (auto simp: tls split: if_splits)
      then show ?thesis using True here assms(4) ids by (simp add: st'_def)
    next
      case False
      then have "e \<in> set (tl (run_entities k st))" using e by (auto simp: tls split: if_splits)
      then obtain u where u: "threads st (se_thread (the (entities st e))) = Some u" "th_handle u = Some e" "get_cpu_local (cpu_id u) (cpus st) = Some k"
        using sched_okD(4) [OF assms(1) kl] by blast
      moreover have "se_thread (the (entities st e)) \<noteq> t" using u(1,2) assms(2,3) by auto
      moreover have "entities st' e = entities st e" using False by (simp add: st'_def)
      ultimately show ?thesis using ids by (simp add: st'_def)
    qed
  next
    fix u uth e
    assume u: "threads st' u = Some uth \<and> th_handle uth = Some e"
    have "(\<exists>k. get_cpu_local (cpu_id uth) (cpus st') = Some k \<and> e \<in> set (tl (run_entities k st'))) \<and> se_thread (the (entities st' e)) = u"
    proof (cases "u = t")
      case True
      then have "uth = th\<lparr>th_handle := Some ?e\<rparr>" "e = ?e" using u by (auto simp: st'_def)
      then show ?thesis using assms(4) here True ids by (simp add: tls)
    next
      case False
      then have "threads st u = Some uth" "th_handle uth = Some e" using u by (simp_all add: st'_def)
      then obtain k where o: "get_cpu_local (cpu_id uth) (cpus st) = Some k" "e \<in> set (tl (run_entities k st))" "se_thread (the (entities st e)) = u"
        using sched_okD(5) [OF assms(1)] by blast
      then show ?thesis using old [OF get_cpu_localD(1) [OF o(1)] in_tl [OF o(2)]] by (auto simp: tls ids)
    qed
    then show "\<exists>k. get_cpu_local (cpu_id uth) (cpus st') = Some k \<and> e \<in> set (tl (run_entities k st'))" "se_thread (the (entities st' e)) = u"
      by blast+
  qed
  have len: "length (cpus st') = length (cpus st)" by (simp add: st'_def)
  have "next_entity st' = Suc (next_entity st)" by (simp add: st'_def)
  then have "e < next_entity st'" if "k < length (cpus st)" "e \<in> set (run_entities k st')" for k e
    using that sched_okD(2) [OF assms(1) that(1), of e] by (auto simp: es less_Suc_eq split: if_splits)
  moreover have "set (run_entities k st') \<inter> set (run_entities d st') = {}" if "k < length (cpus st)" "d < length (cpus st)" "k \<noteq> d" for k d
  proof -
    have "x \<noteq> ?e" if "x \<in> set (run_entities d st) \<union> set (run_entities k st)" for x
      using that sched_okD(2) [OF assms(1)] \<open>k < _\<close> \<open>d < _\<close> by blast
    moreover have "set (run_entities k st) \<inter> set (run_entities d st) = {}" using sched_okD(3) [OF assms(1) that] by blast
    ultimately show ?thesis using that(3) by (auto simp: es)
  qed
  ultimately have "sched_ok st'" using cpu hs len by (simp add: sched_ok_def)
  then show ?thesis using that run len rq ids by (simp add: st'_def)
qed

text \<open>Removing a thread that has an entity; when it is the current one, the idle entity takes its place.\<close>

lemma remove_spec:
  assumes "sched_ok st" "threads st t = Some th" "th_handle th = Some e" "get_cpu_local (cpu_id th) (cpus st) = Some c" "t \<noteq> 0"
  obtains st' where "remove_rrs_entity t (Some c) st = Some st'" "sched_ok st'" "length (cpus st') = length (cpus st)"
    "threads st' = (threads st)(t \<mapsto> th\<lparr>th_handle := None\<rparr>)" "sleep_list st' = sleep_list st"
    "\<And>i. get_cpu_local i (cpus st') = get_cpu_local i (cpus st)"
    "\<And>k. k < length (cpus st) \<Longrightarrow> run_queue k st' = remove1 t (run_queue k st)"
proof -
  have c: "c < length (cpus st)" using get_cpu_localD(1) [OF assms(4)] .
  have ok: "cpu_ok c st" using sched_okD(1) [OF assms(1) c] .
  have e: "e \<in> set (tl (run_entities c st))" "se_thread (the (entities st e)) = t"
    using sched_okD(5) [OF assms(1-3)] assms(4) by auto
  have "e \<in> snd ` set (tl (lq_nodes (queue_of c st)))" using e(1) by (simp add: run_entities_def lq_data_def map_tl [symmetric])
  then obtain n where "(n, e) \<in> set (tl (lq_nodes (queue_of c st)))" by auto
  then obtain pre post where "tl (lq_nodes (queue_of c st)) = pre @ (n, e) # post" using split_list by metis
  then obtain n0 e0 where nodes: "lq_nodes (queue_of c st) = ((n0, e0) # pre) @ (n, e) # post" by (cases "lq_nodes (queue_of c st)") auto
  have entity: "entities st e = Some \<lparr>se_thread = t, se_node = Some n\<rparr>" using ok e(2) nodes by (auto simp: cpu_ok_def)
  have idle: "rrs_idle (cpu_rrs (cpus st ! c)) = e0" using ok nodes by (simp add: cpu_ok_def run_entities_def lq_data_def)
  let ?r = "cpu_rrs (cpus st ! c)"
  define q' where "q' = list_remove_node (queue_of c st) (Some n)"
  have q': "lq_wf q'" "lq_nodes q' = (n0, e0) # pre @ post"
    using list_remove_node_spec [OF _ nodes] ok by (simp_all add: q'_def cpu_ok_def)
  define r' where "r' = ?r\<lparr>sched_queue := q', rrs_curr := (if rrs_curr ?r = e then rrs_idle ?r else rrs_curr ?r)\<rparr>"
  define st' where "st' = st\<lparr>cpus := (cpus st)[c := (cpus st ! c)\<lparr>cpu_rrs := r'\<rparr>], entities := (entities st)(e := None),
    threads := (threads st)(t \<mapsto> th\<lparr>th_handle := None\<rparr>)\<rparr>"
  have run: "remove_rrs_entity t (Some c) st = Some st'"
    using assms(2,3,5) c entity
    by (simp add: remove_rrs_entity_def set_rrs_def upd_thread_def st'_def r'_def q'_def queue_of_def Let_def)
  have ids: "get_cpu_local i (cpus st') = get_cpu_local i (cpus st)" for i by (simp add: st'_def)
  have qs: "queue_of k st' = (if k = c then q' else queue_of k st)" for k using c by (auto simp: queue_of_def st'_def r'_def)
  have esc: "run_entities c st = e0 # map snd pre @ e # map snd post" using nodes by (simp add: run_entities_def lq_data_def)
  have es: "run_entities k st' = (if k = c then e0 # map snd pre @ map snd post else run_entities k st)" for k
    using q'(2) by (simp add: run_entities_def qs lq_data_def)
  have dist: "distinct (run_entities c st)" using ok by (simp add: cpu_ok_def)
  have in_tl: "x \<in> set (tl xs) \<Longrightarrow> x \<in> set xs" for x :: nat and xs by (cases xs) auto
  have gone: "e \<notin> set (run_entities k st')" if "k < length (cpus st)" for k
    using sched_okD(3) [OF assms(1) c that, of e] esc dist by (auto simp: es)
  have sub: "set (run_entities k st') \<subseteq> set (run_entities k st)" "set (tl (run_entities k st')) = set (tl (run_entities k st)) - {e}"
    if "k < length (cpus st)" for k
    using gone [OF that] esc dist in_tl [of e "run_entities k st"] by (auto simp: es split: if_splits)
  have old: "entities st' x = entities st x" if "x \<noteq> e" for x using that by (simp add: st'_def)
  have keep: "map (\<lambda>x. se_thread (the (entities st' x))) xs = map (\<lambda>x. se_thread (the (entities st x))) xs" if "e \<notin> set xs" for xs
    using that old by (metis (mono_tags, lifting) map_eq_conv)
  have rq: "run_queue k st' = remove1 t (run_queue k st)" if k: "k < length (cpus st)" for k
  proof (cases "k = c")
    case True
    have "distinct (run_queue c st)" using run_queue_distinct [OF assms(1) c] .
    then show ?thesis using True dist keep [of "map snd pre @ map snd post"] e(2) by (auto simp: run_queue_def es esc remove1_append)
  next
    case False
    have "t \<notin> set (run_queue k st)" using in_run_queue [OF assms(1) k, of t] assms(2,4) False by auto
    moreover have "e \<notin> set (tl (run_entities k st))" using False gone [OF k] in_tl by (auto simp: es)
    ultimately show ?thesis using False keep [of "tl (run_entities k st)"] by (simp add: run_queue_def es remove1_idem)
  qed
  have cpu: "cpu_ok k st'" if k: "k < length (cpus st)" for k
  proof -
    have oks: "cpu_ok k st" using sched_okD(1) [OF assms(1) k] .
    have ents: "\<exists>u. entities st' x = Some \<lparr>se_thread = u, se_node = Some m\<rparr>" if x: "(m, x) \<in> set (lq_nodes (queue_of k st'))" for m x
    proof -
      have "x \<in> set (run_entities k st')" using x by (force simp: run_entities_def lq_data_def)
      then have "x \<noteq> e" using gone [OF k] by blast
      moreover have "(m, x) \<in> set (lq_nodes (queue_of k st))" using x nodes q'(2) by (auto simp: qs split: if_splits)
      ultimately show ?thesis using oks old by (auto simp: cpu_ok_def)
    qed
    show ?thesis
    proof (cases "k = c")
      case True
      have "rrs_curr ?r \<in> set (run_entities c st)" using ok by (simp add: cpu_ok_def)
      moreover have "cpu_rrs (cpus st' ! c) = r'" using c by (simp add: st'_def)
      ultimately show ?thesis using True ents q' dist idle unfolding cpu_ok_def by (auto simp: qs es esc r'_def)
    next
      case False
      then have "cpus st' ! k = cpus st ! k" by (simp add: st'_def)
      then show ?thesis using False oks ents unfolding cpu_ok_def by (auto simp: qs es)
    qed
  qed
  have hs: "handles_ok st'" unfolding handles_ok_def
  proof (intro conjI allI impI ballI)
    fix k x
    assume k: "k < length (cpus st')" and x: "x \<in> set (tl (run_entities k st'))"
    then have kl: "k < length (cpus st)" by (simp add: st'_def)
    have x': "x \<in> set (tl (run_entities k st))" "x \<noteq> e" using x sub(2) [OF kl] by auto
    then obtain u where u: "threads st (se_thread (the (entities st x))) = Some u" "th_handle u = Some x" "get_cpu_local (cpu_id u) (cpus st) = Some k"
      using sched_okD(4) [OF assms(1) kl] by blast
    moreover have "se_thread (the (entities st x)) \<noteq> t" using u(1,2) assms(2,3) x'(2) by auto
    ultimately show "\<exists>th. threads st' (se_thread (the (entities st' x))) = Some th \<and> th_handle th = Some x \<and> get_cpu_local (cpu_id th) (cpus st') = Some k"
      using old [OF x'(2)] ids by (simp add: st'_def)
  next
    fix u uth x
    assume u: "threads st' u = Some uth \<and> th_handle uth = Some x"
    then have "u \<noteq> t" by (auto simp: st'_def)
    then have "threads st u = Some uth" "th_handle uth = Some x" using u by (simp_all add: st'_def)
    then obtain k where o: "get_cpu_local (cpu_id uth) (cpus st) = Some k" "x \<in> set (tl (run_entities k st))" "se_thread (the (entities st x)) = u"
      using sched_okD(5) [OF assms(1)] by blast
    have "x \<noteq> e" using o(3) e(2) \<open>u \<noteq> t\<close> by auto
    then show "\<exists>k. get_cpu_local (cpu_id uth) (cpus st') = Some k \<and> x \<in> set (tl (run_entities k st'))" "se_thread (the (entities st' x)) = u"
      using o old sub(2) [OF get_cpu_localD(1) [OF o(1)]] ids by auto
  qed
  have len: "length (cpus st') = length (cpus st)" by (simp add: st'_def)
  have "x < next_entity st'" if "k < length (cpus st)" "x \<in> set (run_entities k st')" for k x
    using sched_okD(2) [OF assms(1) that(1)] sub(1) [OF that(1)] that(2) by (auto simp: st'_def)
  moreover have "set (run_entities k st') \<inter> set (run_entities d st') = {}" if "k < length (cpus st)" "d < length (cpus st)" "k \<noteq> d" for k d
    using that sched_okD(3) [OF assms(1) that] sub(1) by blast
  ultimately have "sched_ok st'" using cpu hs len by (simp add: sched_ok_def)
  then show ?thesis using that run len rq ids by (simp add: st'_def)
qed

text \<open>A thread is in the run queue of one processor, its own, and there once, exactly when it has an entity.\<close>

lemma pick_sched_ok:
  assumes "sched_ok st" "c < length (cpus st)" "run_queue c st \<noteq> []"
  obtains t st' where "rrs_pick_next_task c st = Some (t, st')" "t \<in> set (run_queue c st)" "sched_ok st'" "threads st' = threads st"
    "sleep_list st' = sleep_list st" "length (cpus st') = length (cpus st)" "\<And>k. run_queue k st' = run_queue k st"
    "\<And>i. get_cpu_local i (cpus st') = get_cpu_local i (cpus st)"
proof -
  have ok: "cpu_ok c st" using sched_okD(1) [OF assms(1,2)] .
  then obtain i where i: "pos c st i" unfolding cpu_ok_def pos_def by (metis in_set_conv_nth)
  obtain st' j where st': "rrs_pick_next_task c st = Some (run_queue c st ! (j - 1), st')" "cpu_ok c st'" "length (cpus st') = length (cpus st)"
    "0 < j" "j \<le> length (run_queue c st)" "entities st' = entities st" "threads st' = threads st" "sleep_list st' = sleep_list st"
    "next_entity st' = next_entity st" "\<And>k. run_entities k st' = run_entities k st" "\<And>k. k \<noteq> c \<Longrightarrow> cpus st' ! k = cpus st ! k"
    "\<And>i. get_cpu_local i (cpus st') = get_cpu_local i (cpus st)"
    using pick_spec [OF assms(2) ok i assms(3) refl] by metis
  have "cpu_ok k st'" if "k < length (cpus st)" for k
    using sched_okD(1) [OF assms(1) that] st'(2,6,10,11) by (cases "k = c") (simp_all add: cpu_ok_def queue_of_def)
  moreover have "handles_ok st' = handles_ok st" using st' by (simp add: handles_ok_def)
  ultimately have "sched_ok st'" using assms(1) st' by (simp add: sched_ok_def)
  moreover have "run_queue c st ! (j - 1) \<in> set (run_queue c st)" using st'(4,5) by simp
  moreover have "run_queue k st' = run_queue k st" for k using st' by (simp add: run_queue_def)
  ultimately show ?thesis using that st' by blast
qed

section \<open>Properties\<close>

text \<open>
  C16: When a processor has n threads in its run queue, n picks return each of them once, in queue order from the one after the
  current entity on: no thread waits longer than one round, and the search for the next one ends.
\<close>

theorem rrs_round_robin:
  assumes "c < length (cpus st)" "cpu_ok c st" "pos c st i" "run_queue c st \<noteq> []"
  shows "\<exists>st'. picks (length (run_queue c st)) c st = Some (rotate i (run_queue c st), st') \<and> run_queue c st' = run_queue c st"
proof -
  have "map (\<lambda>m. run_queue c st ! ((i + m) mod length (run_queue c st))) [0..<length (run_queue c st)] = rotate i (run_queue c st)"
    by (rule nth_equalityI) (simp_all add: nth_rotate)
  then show ?thesis using picks_spec [OF assms, of "length (run_queue c st)"] by auto
qed

definition example_thread :: thread where
  "example_thread = \<lparr>th_handle = None, th_tcb = \<lparr>actions = replicate 32 \<lparr>sa_handler = 0, sa_flags = 0, sa_restorer = 0, sa_mask = 0\<rparr>,
       sig_pending = 0, pending_siginfo = replicate 65 zero_siginfo, pending_siginfo_mask = 0, blocked = 0, saved_sigmask = 0,
       has_saved_sigmask = False, t_status = T_RUNNING\<rparr>,
     sleep_deadline = 0, block_code = 0, cpu_id = 5, th_prio = 0, th_process = 0, ct_index = 0,
     syscall_stack = 0, signal_stack = 0, tid_address = 0, tid_directory = 0\<rparr>"

definition example_cpu :: cpu_local where
  "example_cpu = \<lparr>cpu_rrs = \<lparr>sched_queue = \<lparr>lq_nodes = [], lq_tail = None, lq_size = 0, next_node = 0\<rparr>, rrs_idle = 0, rrs_curr = 0\<rparr>,
     cl_id = 5, current_task = 1, idle_task = 1, enable = True, directory = 0, task_count = 0, jiffies = 0, idle_jiffies = 0, is_yield = False\<rparr>"

definition example_state :: sched_state where
  "example_state = the (do {
     st \<leftarrow> init_cpu_idle_rrs True 1 0 \<lparr>entities = Map.empty, next_entity = 0,
       threads = [1 \<mapsto> example_thread, 2 \<mapsto> example_thread, 3 \<mapsto> example_thread], cpus = [example_cpu], sleep_list = None\<rparr>;
     st \<leftarrow> add_rrs_entity True True 2 (Some 0) st;
     add_rrs_entity True True 3 (Some 0) st
   })"

lemmas example_defs = example_state_def example_cpu_def example_thread_def init_cpu_idle_rrs_def add_rrs_entity_def set_rrs_def
  upd_thread_def create_llist_queue_def list_enqueue_def aget_def aput_def

lemma example_state_ok:
  "cpu_ok 0 example_state" "pos 0 example_state 0" "run_queue 0 example_state = [2, 3]" "length (cpus example_state) = 1"
  by (simp_all add: example_defs cpu_ok_def pos_def run_queue_def run_entities_def queue_of_def lq_wf_def lq_data_def)

theorem rrs_round_robin_witness:
  "\<exists>st'. picks 2 0 example_state = Some ([2, 3], st') \<and> run_queue 0 st' = [2, 3]"
  using rrs_round_robin [of 0 example_state 0] by (simp add: example_state_ok numeral_2_eq_2)

end
