(* ===== verification/Hash_Map.thy ===== *)
theory Hash_Map
  imports Kernel_Prelude
begin

text \<open>
  The pointer-keyed hash table of \<^verbatim>\<open>src/src/util/map.c\<close>: buckets of singly linked entries, doubled when
  the load factor would exceed 0.75.  A chain \<^verbatim>\<open>buckets[i] -> next -> ...\<close> is the list of its entries.
  The test \<open>(double)(size + 1) / (double)capacity > 0.75\<close> is written on integers, which agrees with the
  floating-point one below \<open>2 ^ 51\<close> entries.  \<open>ok\<close> says whether \<open>calloc\<close> or \<open>malloc\<close> succeeds; a modulo by a zero
  capacity and the write through a failed \<open>malloc\<close> are faults.
\<close>

section \<open>Definitions\<close>

record map =
  map_capacity :: nat
  map_size :: nat
  map_buckets :: "(u64 \<times> u64) list list"

definition hash_ptr :: "u64 \<Rightarrow> u64" where
  "hash_ptr p = drop_bit 4 p * 2654435761"

definition bucket_of :: "u64 \<Rightarrow> nat \<Rightarrow> nat option" where
  "bucket_of key capacity = (if capacity = 0 then None else Some (unat (hash_ptr key) mod capacity))"

text \<open>The loops of \<open>map_resize\<close>: every entry goes to the front of its new bucket.\<close>

primrec rehash :: "nat \<Rightarrow> (u64 \<times> u64) list list \<Rightarrow> (u64 \<times> u64) list \<Rightarrow> (u64 \<times> u64) list list" where
  "rehash new_capacity new_buckets [] = new_buckets"
| "rehash new_capacity new_buckets (entry # entries) =
     (let new_index = unat (hash_ptr (fst entry)) mod new_capacity in
      rehash new_capacity (new_buckets[new_index := entry # new_buckets ! new_index]) entries)"

definition map_resize :: "bool \<Rightarrow> map \<Rightarrow> map" where
  "map_resize ok m =
     (let new_capacity = map_capacity m * 2 in
      if \<not> ok then m
      else m\<lparr>map_buckets := rehash new_capacity (replicate new_capacity []) (concat (map_buckets m)),
             map_capacity := new_capacity\<rparr>)"

definition map_create :: "bool \<Rightarrow> nat \<Rightarrow> map option" where
  "map_create ok capacity =
     (if \<not> ok then None else Some \<lparr>map_capacity = capacity, map_size = 0, map_buckets = replicate capacity []\<rparr>)"

fun set_entry :: "u64 \<Rightarrow> u64 \<Rightarrow> (u64 \<times> u64) list \<Rightarrow> (u64 \<times> u64) list option" where
  "set_entry key value [] = None"
| "set_entry key value (entry # entries) =
     (if fst entry = key then Some ((key, value) # entries) else map_option ((#) entry) (set_entry key value entries))"

definition map_set :: "bool \<Rightarrow> bool \<Rightarrow> map \<Rightarrow> u64 \<Rightarrow> u64 \<Rightarrow> map option" where
  "map_set calloc_ok malloc_ok m key value =
     (let m = (if 4 * (map_size m + 1) > 3 * map_capacity m then map_resize calloc_ok m else m) in do {
        index \<leftarrow> bucket_of key (map_capacity m);
        bucket \<leftarrow> aget (map_buckets m) index;
        (case set_entry key value bucket of
           Some bucket' \<Rightarrow> do { bs \<leftarrow> aput (map_buckets m) index bucket'; Some (m\<lparr>map_buckets := bs\<rparr>) }
         | None \<Rightarrow>
             if \<not> malloc_ok then None
             else do {
               bs \<leftarrow> aput (map_buckets m) index ((key, value) # bucket);
               Some (m\<lparr>map_buckets := bs, map_size := map_size m + 1\<rparr>)
             })
      })"

fun remove_entry :: "u64 \<Rightarrow> (u64 \<times> u64) list \<Rightarrow> (u64 \<times> u64) list option" where
  "remove_entry key [] = None"
| "remove_entry key (entry # entries) =
     (if fst entry = key then Some entries else map_option ((#) entry) (remove_entry key entries))"

definition map_remove :: "map \<Rightarrow> u64 \<Rightarrow> map option" where
  "map_remove m key = do {
     index \<leftarrow> bucket_of key (map_capacity m);
     bucket \<leftarrow> aget (map_buckets m) index;
     (case remove_entry key bucket of
        None \<Rightarrow> Some m
      | Some bucket' \<Rightarrow> do {
          bs \<leftarrow> aput (map_buckets m) index bucket';
          Some (m\<lparr>map_buckets := bs, map_size := (if map_size m > 0 then map_size m - 1 else map_size m)\<rparr>)
        })
   }"

fun find_value :: "u64 \<Rightarrow> (u64 \<times> u64) list \<Rightarrow> u64 option" where
  "find_value key [] = None"
| "find_value key (entry # entries) = (if fst entry = key then Some (snd entry) else find_value key entries)"

text \<open>\<open>NULL\<close>, the answer for a key that is not there, is the inner \<^const>\<open>None\<close>.\<close>

definition map_get :: "map \<Rightarrow> u64 \<Rightarrow> u64 option option" where
  "map_get m key = do {
     index \<leftarrow> bucket_of key (map_capacity m);
     bucket \<leftarrow> aget (map_buckets m) index;
     Some (find_value key bucket)
   }"

section \<open>The contract of a map\<close>

primrec put_all :: "('m \<Rightarrow> 'k \<Rightarrow> 'v \<Rightarrow> 'm option) \<Rightarrow> 'm \<Rightarrow> ('k \<times> 'v) list \<Rightarrow> 'm option" where
  "put_all put m [] = Some m"
| "put_all put m (kv # kvs) = do { m' \<leftarrow> put m (fst kv) (snd kv); put_all put m' kvs }"

locale partial_map =
  fixes put :: "'m \<Rightarrow> 'k \<Rightarrow> 'v \<Rightarrow> 'm option"
    and del :: "'m \<Rightarrow> 'k \<Rightarrow> 'm option"
    and get :: "'m \<Rightarrow> 'k \<Rightarrow> 'v option option"
    and inv :: "'m \<Rightarrow> bool"
    and abs :: "'m \<Rightarrow> 'k \<Rightarrow> 'v option"
  assumes put_law: "inv m \<Longrightarrow> \<exists>m'. put m k v = Some m' \<and> inv m' \<and> abs m' = (abs m)(k \<mapsto> v)"
    and del_law: "inv m \<Longrightarrow> \<exists>m'. del m k = Some m' \<and> inv m' \<and> abs m' = (abs m)(k := None)"
    and get_law: "inv m \<Longrightarrow> get m k = Some (abs m k)"
begin

lemma get_after_put:
  assumes "inv m" "put m k v = Some m'"
  shows "get m' j = Some (if j = k then Some v else abs m j)"
  using put_law [OF assms(1), of k v] assms(2) get_law by auto

lemma get_after_del:
  assumes "inv m" "del m k = Some m'"
  shows "get m' j = Some (if j = k then None else abs m j)"
  using del_law [OF assms(1), of k] assms(2) get_law by auto

lemma put_all_spec:
  assumes "inv m"
  shows "\<exists>m'. put_all put m kvs = Some m' \<and> inv m' \<and> abs m' = abs m ++ map_of (rev kvs)"
  using assms
proof (induction kvs arbitrary: m)
  case (Cons kv kvs)
  obtain m1 where m1: "put m (fst kv) (snd kv) = Some m1" "inv m1" "abs m1 = (abs m)(fst kv \<mapsto> snd kv)"
    using put_law [OF Cons.prems, of "fst kv" "snd kv"] by blast
  obtain m2 where m2: "put_all put m1 kvs = Some m2" "inv m2" "abs m2 = abs m1 ++ map_of (rev kvs)"
    using Cons.IH [OF m1(2)] by blast
  have "abs m2 = abs m ++ map_of (rev (kv # kvs))" unfolding m2(3) m1(3)
    by (simp add: map_add_def fun_eq_iff split: option.split)
  then show ?case using m1(1) m2(1,2) by simp
qed simp

text \<open>A batch of updates with distinct keys, read back.\<close>

lemma get_after_put_all:
  assumes "inv m" "put_all put m kvs = Some m'" "distinct (map fst kvs)" "(k, v) \<in> set kvs"
  shows "get m' k = Some (Some v)"
proof -
  have "inv m'" "abs m' = abs m ++ map_of (rev kvs)" using put_all_spec [OF assms(1), of kvs] assms(2) by auto
  moreover have "map_of (rev kvs) k = Some v" using assms(3,4) by (simp add: rev_map [symmetric])
  ultimately show ?thesis by (simp add: get_law)
qed

end

section \<open>The table as a map\<close>

definition map_wf :: "map \<Rightarrow> bool" where
  "map_wf m \<longleftrightarrow> 0 < map_capacity m \<and> length (map_buckets m) = map_capacity m \<and>
     map_size m = length (concat (map_buckets m)) \<and>
     (\<forall>i<map_capacity m. distinct (map fst (map_buckets m ! i)) \<and>
        (\<forall>kv\<in>set (map_buckets m ! i). unat (hash_ptr (fst kv)) mod map_capacity m = i))"

definition map_abs :: "map \<Rightarrow> u64 \<Rightarrow> u64 option" where
  "map_abs m k = map_of (map_buckets m ! (unat (hash_ptr k) mod map_capacity m)) k"

lemma find_value_map_of: "find_value k es = map_of es k"
  by (induction k es rule: find_value.induct) (auto split: prod.splits)

lemma set_entry_None: "set_entry k v es = None \<longleftrightarrow> map_of es k = None"
  by (induction es) auto

lemma set_entry_Some:
  assumes "set_entry k v es = Some es'"
  shows "map_of es' = (map_of es)(k \<mapsto> v)" "map fst es' = map fst es"
proof -
  show "map_of es' = (map_of es)(k \<mapsto> v)"
    using assms by (induction es arbitrary: es') (auto split: if_splits simp: fun_eq_iff)
  show "map fst es' = map fst es" using assms by (induction es arbitrary: es') (auto split: if_splits)
qed

lemma remove_entry_None: "remove_entry k es = None \<longleftrightarrow> map_of es k = None"
  by (induction es) auto

lemma remove_entry_subset: "remove_entry k es = Some es' \<Longrightarrow> set es' \<subseteq> set es"
  by (induction es arbitrary: es') (auto split: if_splits)

lemma remove_entry_length: "remove_entry k es = Some es' \<Longrightarrow> length es = Suc (length es')"
  by (induction es arbitrary: es') (auto split: if_splits)

lemma remove_entry_distinct:
  "remove_entry k es = Some es' \<Longrightarrow> distinct (map fst es) \<Longrightarrow> distinct (map fst es')"
proof (induction es arbitrary: es')
  case (Cons e es)
  show ?case
  proof (cases "fst e = k")
    case False
    then obtain es1 where es1: "remove_entry k es = Some es1" "es' = e # es1" using Cons.prems by auto
    have "set es1 \<subseteq> set es" by (rule remove_entry_subset [OF es1(1)])
    then show ?thesis using es1 Cons.IH Cons.prems(2) by auto
  qed (use Cons.prems in auto)
qed simp

lemma remove_entry_map_of:
  assumes "remove_entry k es = Some es'" "distinct (map fst es)"
  shows "map_of es' = (map_of es)(k := None)"
  using assms
proof (induction es arbitrary: es')
  case (Cons e es)
  show ?case
  proof (cases "fst e = k")
    case True
    then have "map_of es k = None" using Cons.prems(2) by (simp add: map_of_eq_None_iff)
    then show ?thesis using Cons.prems True by (auto simp: fun_eq_iff)
  next
    case False
    then obtain es1 where es1: "remove_entry k es = Some es1" "es' = e # es1" using Cons.prems by auto
    have "distinct (map fst es)" using Cons.prems(2) by simp
    note Cons.IH [OF es1(1) this]
    then show ?thesis using es1(2) False by (cases e) (simp add: fun_eq_iff)
  qed
qed simp

subsection \<open>Resizing\<close>

abbreviation index_in :: "nat \<Rightarrow> u64 \<times> u64 \<Rightarrow> nat" where
  "index_in n e \<equiv> unat (hash_ptr (fst e)) mod n"

lemma rehash_length: "length (rehash n bs es) = length bs"
  by (induction es arbitrary: bs) (simp_all add: Let_def)

lemma rehash_nth:
  assumes "length bs = n" "i < n"
  shows "rehash n bs es ! i = rev (filter (\<lambda>e. index_in n e = i) es) @ bs ! i"
  using assms
proof (induction es arbitrary: bs)
  case (Cons e es)
  have "index_in n e < n" using Cons.prems by simp
  then show ?case using Cons by (auto simp: Let_def nth_list_update)
qed simp

lemma length_concat_update:
  "i < length bs \<Longrightarrow> length (concat (bs[i := b])) + length (bs ! i) = length (concat bs) + length b"
proof (induction bs arbitrary: i)
  case (Cons c bs)
  then show ?case by (cases i) auto
qed simp

lemma rehash_size:
  assumes "length bs = n" "0 < n"
  shows "length (concat (rehash n bs es)) = length es + length (concat bs)"
  using assms
proof (induction es arbitrary: bs)
  case (Cons e es)
  have "index_in n e < length bs" using Cons.prems by simp
  from length_concat_update [OF this, of "e # bs ! index_in n e"] show ?case
    using Cons by (simp add: Let_def)
qed simp

lemma in_concat_nth: "e \<in> set (concat bs) \<longleftrightarrow> (\<exists>i<length bs. e \<in> set (bs ! i))"
  by (metis (no_types, lifting) UN_iff in_set_conv_nth set_concat)

lemma buckets_distinct:
  assumes "\<forall>i<length bs. distinct (map fst (bs ! i)) \<and> (\<forall>e\<in>set (bs ! i). h (fst e) = off + i)"
  shows "distinct (map fst (concat bs))"
  using assms
proof (induction bs arbitrary: off)
  case (Cons b bs)
  have each: "distinct (map fst ((b # bs) ! i)) \<and> (\<forall>e\<in>set ((b # bs) ! i). h (fst e) = off + i)"
    if "i < length (b # bs)" for i using Cons.prems that by blast
  have "distinct (map fst (concat bs))"
  proof (rule Cons.IH [of "Suc off"], intro allI impI)
    fix i assume "i < length bs"
    then show "distinct (map fst (bs ! i)) \<and> (\<forall>e\<in>set (bs ! i). h (fst e) = Suc off + i)"
      using each [of "Suc i"] by simp
  qed
  moreover have "fst ` set b \<inter> fst ` set (concat bs) = {}"
  proof -
    have "h (fst e) = off" if "e \<in> set b" for e using each [of 0] that by simp
    moreover have "h (fst e) \<noteq> off" if e: "e \<in> set (concat bs)" for e
    proof -
      obtain i where "i < length bs" "e \<in> set (bs ! i)" using e unfolding in_concat_nth by blast
      then show ?thesis using each [of "Suc i"] by auto
    qed
    ultimately show ?thesis by fastforce
  qed
  moreover have "distinct (map fst b)" using each [of 0] by simp
  ultimately show ?case by simp
qed simp

lemma map_wf_distinct: "map_wf m \<Longrightarrow> distinct (map fst (concat (map_buckets m)))"
  by (rule buckets_distinct [where h = "\<lambda>k. unat (hash_ptr k) mod map_capacity m" and off = 0])
    (simp add: map_wf_def)

lemma map_wf_bucket:
  assumes "map_wf m" "i < map_capacity m"
  shows "distinct (map fst (map_buckets m ! i))" "\<And>e. e \<in> set (map_buckets m ! i) \<Longrightarrow> index_in (map_capacity m) e = i"
  using assms by (auto simp: map_wf_def)

lemma map_abs_iff:
  assumes "map_wf m"
  shows "map_abs m k = Some v \<longleftrightarrow> (k, v) \<in> set (concat (map_buckets m))"
proof -
  let ?n = "map_capacity m" and ?bs = "map_buckets m"
  let ?i = "unat (hash_ptr k) mod ?n"
  have i: "?i < ?n" "length ?bs = ?n" using assms by (simp_all add: map_wf_def)
  have "map_abs m k = Some v \<longleftrightarrow> (k, v) \<in> set (?bs ! ?i)"
    using map_wf_bucket(1) [OF assms i(1)] by (simp add: map_abs_def)
  also have "\<dots> \<longleftrightarrow> (k, v) \<in> set (concat ?bs)"
  proof
    show "(k, v) \<in> set (?bs ! ?i) \<Longrightarrow> (k, v) \<in> set (concat ?bs)" using i by auto
    assume "(k, v) \<in> set (concat ?bs)"
    then obtain j where j: "j < ?n" "(k, v) \<in> set (?bs ! j)" using i(2) unfolding in_concat_nth by auto
    then show "(k, v) \<in> set (?bs ! ?i)" using map_wf_bucket(2) [OF assms j(1) j(2)] by simp
  qed
  finally show ?thesis .
qed

lemma set_concat_rehash:
  assumes "length bs = n" "0 < n"
  shows "set (concat (rehash n bs es)) = set es \<union> set (concat bs)"
proof -
  have "e \<in> set (concat (rehash n bs es)) \<longleftrightarrow> e \<in> set es \<union> set (concat bs)" for e
  proof -
    have "e \<in> set (concat (rehash n bs es)) \<longleftrightarrow> (\<exists>i<n. e \<in> set (rehash n bs es ! i))"
      unfolding in_concat_nth rehash_length using assms by blast
    also have "\<dots> \<longleftrightarrow> (\<exists>i<n. (index_in n e = i \<and> e \<in> set es) \<or> e \<in> set (bs ! i))"
      using assms by (intro arg_cong [where f = Ex] ext) (auto simp: rehash_nth)
    also have "\<dots> \<longleftrightarrow> e \<in> set es \<union> set (concat bs)" unfolding in_concat_nth Un_iff
      using assms by (metis mod_less_divisor)
    finally show ?thesis .
  qed
  then show ?thesis by blast
qed

lemma map_resize_spec:
  assumes "map_wf m"
  shows "map_wf (map_resize ok m)" "map_abs (map_resize ok m) = map_abs m" "map_size (map_resize ok m) = map_size m"
proof -
  let ?n = "map_capacity m * 2" and ?es = "concat (map_buckets m)"
  let ?bs = "rehash ?n (replicate ?n []) ?es"
  have n: "0 < ?n" using assms by (simp add: map_wf_def)
  have nth: "?bs ! i = rev (filter (\<lambda>e. index_in ?n e = i) ?es)" if "i < ?n" for i
    using rehash_nth [of "replicate ?n []" ?n i] that by simp
  have "distinct (map fst (?bs ! i)) \<and> (\<forall>e\<in>set (?bs ! i). index_in ?n e = i)" if "i < ?n" for i
    using that map_wf_distinct [OF assms] by (simp add: nth rev_map [symmetric] distinct_map_filter)
  moreover have "length (concat ?bs) = length ?es" using rehash_size [of "replicate ?n []" ?n] n by simp
  ultimately show wf: "map_wf (map_resize ok m)" using assms n
    by (simp add: map_wf_def map_resize_def Let_def rehash_length)
  have "set (concat (map_buckets (map_resize ok m))) = set ?es"
    using set_concat_rehash [of "replicate ?n []" ?n] n by (simp add: map_resize_def Let_def)
  then have "map_abs (map_resize ok m) k = Some v \<longleftrightarrow> map_abs m k = Some v" for k v
    by (simp only: map_abs_iff [OF wf] map_abs_iff [OF assms])
  then show "map_abs (map_resize ok m) = map_abs m"
    by (intro ext) (metis option.exhaust)
  show "map_size (map_resize ok m) = map_size m" by (simp add: map_resize_def Let_def)
qed

subsection \<open>One bucket replaced\<close>

lemma bucket_of_wf: "map_wf m \<Longrightarrow> bucket_of k (map_capacity m) = Some (unat (hash_ptr k) mod map_capacity m)"
  by (simp add: bucket_of_def map_wf_def)

text \<open>Replacing the bucket of \<open>k\<close> keeps the invariant and changes the map at \<open>k\<close> only.\<close>

lemma bucket_update:
  assumes wf: "map_wf m" and i: "i = unat (hash_ptr k) mod map_capacity m"
    and b: "distinct (map fst b)" "fst ` set b \<subseteq> insert k (fst ` set (map_buckets m ! i))"
      "map_of b = (map_of (map_buckets m ! i))(k := v)"
    and sz: "sz + length (map_buckets m ! i) = map_size m + length b"
  shows "map_wf (m\<lparr>map_buckets := (map_buckets m)[i := b], map_size := sz\<rparr>)"
    "map_abs (m\<lparr>map_buckets := (map_buckets m)[i := b], map_size := sz\<rparr>) = (map_abs m)(k := v)"
proof -
  have il: "i < map_capacity m" "length (map_buckets m) = map_capacity m" using wf i by (simp_all add: map_wf_def)
  have "unat (hash_ptr (fst e)) mod map_capacity m = i" if "e \<in> set b" for e
  proof (cases "fst e = k")
    case False
    then have "fst e \<in> fst ` set (map_buckets m ! i)" using b(2) that by auto
    then obtain e' where "e' \<in> set (map_buckets m ! i)" "fst e' = fst e" by auto
    then show ?thesis using map_wf_bucket(2) [OF wf il(1)] by metis
  qed (simp add: i)
  moreover have "sz = length (concat ((map_buckets m)[i := b]))"
    using length_concat_update [of i "map_buckets m" b] il sz wf by (simp add: map_wf_def)
  ultimately show "map_wf (m\<lparr>map_buckets := (map_buckets m)[i := b], map_size := sz\<rparr>)"
    using wf b(1) il(1) unfolding map_wf_def by (auto simp: nth_list_update split: if_splits)
  show "map_abs (m\<lparr>map_buckets := (map_buckets m)[i := b], map_size := sz\<rparr>) = (map_abs m)(k := v)"
    using il b(3) i by (auto simp: map_abs_def fun_eq_iff nth_list_update)
qed

lemma map_get_spec: "map_wf m \<Longrightarrow> map_get m k = Some (map_abs m k)"
  by (simp add: map_get_def bucket_of_wf map_wf_def map_abs_def find_value_map_of)

lemma map_remove_spec:
  assumes wf: "map_wf m"
  shows "\<exists>m'. map_remove m k = Some m' \<and> map_wf m' \<and> map_abs m' = (map_abs m)(k := None)"
proof -
  define i where "i = unat (hash_ptr k) mod map_capacity m"
  let ?b = "map_buckets m ! i"
  have il: "i < length (map_buckets m)" using wf by (simp add: map_wf_def i_def)
  have d: "distinct (map fst ?b)" using map_wf_bucket(1) [OF wf] wf by (simp add: map_wf_def i_def)
  note step = map_remove_def bucket_of_wf [OF wf] i_def [symmetric]
  show ?thesis
  proof (cases "remove_entry k ?b")
    case None
    then have "map_abs m k = None" by (simp add: remove_entry_None map_abs_def i_def)
    then show ?thesis using wf None il by (simp add: step fun_upd_idem)
  next
    case (Some b)
    note len = remove_entry_length [OF Some]
    have "0 < length ?b" "length ?b \<le> length (concat (map_buckets m))"
      using len il length_concat_update [of i "map_buckets m" "[]"] by auto
    then have "0 < length (concat (map_buckets m))" by linarith
    then have pos: "0 < map_size m" using wf unfolding map_wf_def by metis
    have "fst ` set b \<subseteq> insert k (fst ` set ?b)" using remove_entry_subset [OF Some] by auto
    moreover have "map_size m - 1 + length ?b = map_size m + length b" using len pos by simp
    ultimately have "map_wf (m\<lparr>map_buckets := (map_buckets m)[i := b], map_size := map_size m - 1\<rparr>)"
        "map_abs (m\<lparr>map_buckets := (map_buckets m)[i := b], map_size := map_size m - 1\<rparr>) = (map_abs m)(k := None)"
      by (rule bucket_update [OF wf i_def remove_entry_distinct [OF Some d] _ remove_entry_map_of [OF Some d]])+
    then show ?thesis using il Some pos by (simp add: step)
  qed
qed

lemma map_set_spec:
  assumes wf: "map_wf m"
  shows "\<exists>m'. map_set calloc_ok True m k v = Some m' \<and> map_wf m' \<and> map_abs m' = (map_abs m)(k \<mapsto> v)"
proof -
  define n where "n = (if 4 * (map_size m + 1) > 3 * map_capacity m then map_resize calloc_ok m else m)"
  have n: "map_wf n" "map_abs n = map_abs m" using wf map_resize_spec [OF wf] by (simp_all add: n_def)
  define i where "i = unat (hash_ptr k) mod map_capacity n"
  let ?b = "map_buckets n ! i"
  have il: "i < length (map_buckets n)" using n(1) by (simp add: map_wf_def i_def)
  have d: "distinct (map fst ?b)" using map_wf_bucket(1) [OF n(1)] n(1) by (simp add: map_wf_def i_def)
  have step: "map_set calloc_ok True m k v = (case set_entry k v ?b of
      Some b \<Rightarrow> Some (n\<lparr>map_buckets := (map_buckets n)[i := b], map_size := map_size n\<rparr>)
    | None \<Rightarrow> Some (n\<lparr>map_buckets := (map_buckets n)[i := (k, v) # ?b], map_size := map_size n + 1\<rparr>))"
    unfolding map_set_def Let_def n_def [symmetric] bucket_of_wf [OF n(1)] i_def [symmetric]
    using il by (simp split: option.split)
  show ?thesis
  proof (cases "set_entry k v ?b")
    case None
    then have fresh: "map_of ?b k = None" by (simp add: set_entry_None)
    have "map_wf (n\<lparr>map_buckets := (map_buckets n)[i := (k, v) # ?b], map_size := map_size n + 1\<rparr>) \<and>
        map_abs (n\<lparr>map_buckets := (map_buckets n)[i := (k, v) # ?b], map_size := map_size n + 1\<rparr>) = (map_abs n)(k \<mapsto> v)"
      by (intro conjI bucket_update [OF n(1) i_def, where v = "Some v"])
        (use d fresh in \<open>auto simp: map_of_eq_None_iff\<close>)
    then show ?thesis using None n(2) by (simp add: step)
  next
    case (Some b)
    note b = set_entry_Some [OF Some]
    have "length b = length ?b" "fst ` set b = fst ` set ?b" using b(2) by (metis length_map, metis set_map)
    then have "map_wf (n\<lparr>map_buckets := (map_buckets n)[i := b], map_size := map_size n\<rparr>) \<and>
        map_abs (n\<lparr>map_buckets := (map_buckets n)[i := b], map_size := map_size n\<rparr>) = (map_abs n)(k \<mapsto> v)"
      by (intro conjI bucket_update [OF n(1) i_def, where v = "Some v"]) (use d b in auto)
    then show ?thesis using Some n(2) by (simp add: step)
  qed
qed

interpretation ptr_map: partial_map "map_set calloc_ok True" map_remove map_get map_wf map_abs for calloc_ok
  by unfold_locales (simp_all add: map_set_spec map_remove_spec map_get_spec)

lemma map_create_wf:
  "0 < capacity \<Longrightarrow> map_create True capacity = Some m \<Longrightarrow> map_wf m \<and> map_abs m = (\<lambda>k. None)"
  by (auto simp: map_create_def map_wf_def map_abs_def fun_eq_iff)

section \<open>Properties\<close>

lemma map_create_demo: "map_wf (the (map_create True 4))" "map_abs (the (map_create True 4)) = (\<lambda>k. None)"
  using map_create_wf [of 4 "the (map_create True 4)"] by (simp_all add: map_create_def)

text \<open>
  The hash table refines a finite map: any batch of \<open>map_set\<close> calls, with the resizes it triggers (succeeding or
  not), succeeds and leaves the table denoting the map updated in order; a later entry for a key wins.
\<close>

theorem map_set_refines_update:
  assumes "map_wf m"
  shows "\<exists>m'. put_all (map_set calloc_ok True) m kvs = Some m' \<and> map_wf m' \<and> map_abs m' = map_abs m ++ map_of (rev kvs) \<and>
    (\<forall>k. map_get m' k = Some (map_abs m' k))"
  using ptr_map.put_all_spec [OF assms, of calloc_ok kvs] map_get_spec by blast

theorem map_set_refines_update_witness:
  "\<exists>m'. put_all (map_set True True) (the (map_create True 4)) [(16, 1), (32, 2), (16, 3), (48, 4), (64, 5)] = Some m' \<and>
    map_get m' 16 = Some (Some 3) \<and> map_get m' 80 = Some None"
  using map_set_refines_update [OF map_create_demo(1), of True "[(16, 1), (32, 2), (16, 3), (48, 4), (64, 5)]"]
  by (auto simp: map_create_demo(2) map_add_def)

text \<open>
  \<open>map_remove\<close> deletes the key and nothing else, for present and absent keys alike.
\<close>

theorem map_remove_deletes:
  assumes "map_wf m"
  shows "\<exists>m'. map_remove m k = Some m' \<and> map_wf m' \<and> (\<forall>j. map_get m' j = Some (if j = k then None else map_abs m j))"
proof -
  obtain m' where m': "map_remove m k = Some m'" "map_wf m'" using map_remove_spec [OF assms] by blast
  with ptr_map.get_after_del [OF assms m'(1)] show ?thesis by blast
qed

theorem map_remove_deletes_witness: "\<exists>m'. map_remove (the (map_create True 4)) 16 = Some m' \<and> map_get m' 16 = Some None"
  using map_remove_deletes [OF map_create_demo(1), of 16] by auto

end
