(* ===== verification/Futex.thy ===== *)
theory Futex
  imports Hash_Map Cow_List Signals
begin

text \<open>
  Futexes: \<^verbatim>\<open>src/src/task/futex.c\<close> and the system call \<open>futex\<close> of \<^verbatim>\<open>src/src/task/prsys.c\<close>.  The hash table maps the physical address
  of a futex word to the list of waiting threads; lists are objects at addresses, \<open>queues\<close>, and freeing one removes it.
  Threads are named by their addresses.  What \<open>futex_block_task\<close> and \<open>futex_wake_task\<close> ask of the scheduler is logged in order.
  \<open>futex_memory\<close> holds the answers of the allocator, and \<^const>\<open>None\<close> is a fault or a loop that does not end.
\<close>

section \<open>Definitions\<close>

datatype sched_request = Block u64 | Wake u64

record futex_state =
  futex_map :: map
  queues :: "u64 \<rightharpoonup> u64 cow_arraylist"
  statuses :: "u64 \<Rightarrow> task_status"
  futex_index :: "u64 \<Rightarrow> nat"
  requests :: "sched_request list"

record futex_memory =
  create_ok :: bool
  buckets_ok :: bool
  entry_ok :: bool
  realloc_ok :: bool
  add_ok :: bool
  shift_ok :: "nat \<Rightarrow> bool"
  last_ok :: bool

definition futex_init :: "bool \<Rightarrow> map option" where
  "futex_init ok = map_create ok 20"

definition futex_block_task :: "u64 \<Rightarrow> futex_state \<Rightarrow> futex_state" where
  "futex_block_task thread st = st\<lparr>requests := requests st @ [Block thread]\<rparr>"

definition futex_wake_task :: "u64 \<Rightarrow> futex_state \<Rightarrow> futex_state" where
  "futex_wake_task thread st = st\<lparr>requests := requests st @ [Wake thread]\<rparr>"

text \<open>\<open>new_queue\<close> is the address a new list gets.\<close>

definition futex_add :: "futex_memory \<Rightarrow> u64 \<Rightarrow> u64 \<Rightarrow> u64 \<Rightarrow> futex_state \<Rightarrow> futex_state option" where
  "futex_add mem new_queue phys_addr thread st = do {
     found \<leftarrow> map_get (futex_map st) phys_addr;
     (queue, st) \<leftarrow> (case found of
        Some q \<Rightarrow> Some (q, st)
      | None \<Rightarrow> do {
          l \<leftarrow> cow_list_create (create_ok mem) (create_ok mem);
          m \<leftarrow> map_set (buckets_ok mem) (entry_ok mem) (futex_map st) phys_addr new_queue;
          Some (new_queue, st\<lparr>futex_map := m, queues := (queues st)(new_queue \<mapsto> l)\<rparr>)
        });
     l \<leftarrow> queues st queue;
     (i, l) \<leftarrow> cow_list_add (realloc_ok mem) (add_ok mem) l (Some thread);
     Some (futex_block_task thread
       (st\<lparr>queues := (queues st)(queue \<mapsto> l), futex_index := (futex_index st)(thread := i)\<rparr>))
   }"

text \<open>The loop of \<open>futex_wake\<close>; each round passes one element or counts one thread, so \<open>size + count\<close> rounds and the last test are enough.\<close>

primrec wake_loop :: "nat \<Rightarrow> futex_memory \<Rightarrow> u64 \<Rightarrow> int \<Rightarrow> nat \<Rightarrow> int \<Rightarrow> futex_state \<Rightarrow> (int \<times> futex_state) option" where
  "wake_loop 0 mem queue count index woken st = None"
| "wake_loop (Suc fuel) mem queue count index woken st = do {
     l \<leftarrow> queues st queue;
     if index < cow_size l \<and> woken < count then do {
       thread \<leftarrow> cow_list_get l index;
       (case thread of
          None \<Rightarrow> wake_loop fuel mem queue count (index + 1) woken st
        | Some t \<Rightarrow> do {
            (_, l) \<leftarrow> cow_list_remove (shift_ok mem) (last_ok mem) l index;
            wake_loop fuel mem queue count index (woken + 1)
              (futex_wake_task t (st\<lparr>queues := (queues st)(queue \<mapsto> l), statuses := (statuses st)(t := T_START)\<rparr>))
          })
     }
     else Some (woken, st)
   }"

text \<open>An empty list is taken out of the table and destroyed.\<close>

definition drop_empty :: "u64 \<Rightarrow> u64 \<Rightarrow> futex_state \<Rightarrow> futex_state option" where
  "drop_empty phys_addr queue st = do {
     l \<leftarrow> queues st queue;
     if cow_size l = 0 then do {
       m \<leftarrow> map_remove (futex_map st) phys_addr;
       _ \<leftarrow> cow_list_destroy l;
       Some (st\<lparr>futex_map := m, queues := (queues st)(queue := None)\<rparr>)
     }
     else Some st
   }"

definition futex_wake :: "futex_memory \<Rightarrow> u64 \<Rightarrow> int \<Rightarrow> futex_state \<Rightarrow> (int \<times> futex_state) option" where
  "futex_wake mem phys_addr count st = do {
     found \<leftarrow> map_get (futex_map st) phys_addr;
     (case found of
        None \<Rightarrow> Some (0, st)
      | Some queue \<Rightarrow>
          if count \<le> 0 then Some (0, st)
          else do {
            l \<leftarrow> queues st queue;
            (woken, st) \<leftarrow> wake_loop (cow_size l + nat count + 1) mem queue count 0 0 st;
            st \<leftarrow> drop_empty phys_addr queue st;
            Some (woken, st)
          })
   }"

primrec find_waiter :: "u64 cow_arraylist \<Rightarrow> u64 \<Rightarrow> nat list \<Rightarrow> nat option option" where
  "find_waiter l thread [] = Some None"
| "find_waiter l thread (index # indices) = do {
     item \<leftarrow> cow_list_get l index;
     if item \<noteq> Some thread then find_waiter l thread indices else Some (Some index)
   }"

definition futex_unblock :: "futex_memory \<Rightarrow> u64 \<Rightarrow> u64 option \<Rightarrow> futex_state \<Rightarrow> (bool \<times> futex_state) option" where
  "futex_unblock mem phys_addr thread st = do {
     found \<leftarrow> map_get (futex_map st) phys_addr;
     (case (found, thread) of
        (Some queue, Some t) \<Rightarrow> do {
          l \<leftarrow> queues st queue;
          place \<leftarrow> find_waiter l t [0..<cow_size l];
          (case place of
             None \<Rightarrow> Some (False, st)
           | Some index \<Rightarrow> do {
               (_, l) \<leftarrow> cow_list_remove (shift_ok mem) (last_ok mem) l index;
               let st = st\<lparr>queues := (queues st)(queue \<mapsto> l)\<rparr>;
               let st = (if statuses st t = T_FUTEX then futex_wake_task t (st\<lparr>statuses := (statuses st)(t := T_START)\<rparr>) else st);
               st \<leftarrow> drop_empty phys_addr queue st;
               Some (True, st)
             })
        }
      | _ \<Rightarrow> Some (False, st))
   }"

text \<open>The innermost loop of \<open>futex_free\<close>; a round passes an element or removes one.\<close>

primrec purge_loop :: "nat \<Rightarrow> futex_memory \<Rightarrow> u64 \<Rightarrow> nat \<Rightarrow> u64 cow_arraylist \<Rightarrow> u64 cow_arraylist option" where
  "purge_loop 0 mem thread index l = None"
| "purge_loop (Suc fuel) mem thread index l =
     (if index < cow_size l then do {
        item \<leftarrow> cow_list_get l index;
        if item = Some thread then do {
          (_, l) \<leftarrow> cow_list_remove (shift_ok mem) (last_ok mem) l index;
          purge_loop fuel mem thread index l
        }
        else purge_loop fuel mem thread (index + 1) l
      }
      else Some l)"

text \<open>
  The loops of \<open>futex_free\<close> over buckets and entries.  The table has the entries of its chains at the start: only the entry at
  hand is ever removed, after its successor was read.
\<close>

primrec free_entries :: "futex_memory \<Rightarrow> u64 \<Rightarrow> (u64 \<times> u64) list \<Rightarrow> futex_state \<Rightarrow> futex_state option" where
  "free_entries mem thread [] st = Some st"
| "free_entries mem thread (entry # entries) st = do {
     l \<leftarrow> queues st (snd entry);
     l \<leftarrow> purge_loop (cow_size l + 1) mem thread 0 l;
     st \<leftarrow> drop_empty (fst entry) (snd entry) (st\<lparr>queues := (queues st)(snd entry \<mapsto> l)\<rparr>);
     free_entries mem thread entries st
   }"

definition futex_free :: "futex_memory \<Rightarrow> u64 option \<Rightarrow> futex_state \<Rightarrow> futex_state option" where
  "futex_free mem thread st =
     (case thread of None \<Rightarrow> Some st | Some t \<Rightarrow> free_entries mem t (concat (map_buckets (futex_map st))) st)"

subsection \<open>The system call\<close>

abbreviation FUTEX_FLAGS :: u32 where "FUTEX_FLAGS \<equiv> 0x180"

text \<open>The checks of \<open>FUTEX_WAIT\<close>: the error, or the timeout in nanoseconds, -1 for none.\<close>

definition wait_check :: "int \<Rightarrow> int \<Rightarrow> (u64 \<times> u64) option \<Rightarrow> int + u64" where
  "wait_check observed val time =
     (if observed \<noteq> val then Inl (-11)
      else case time of
        None \<Rightarrow> Inr (- 1)
      | Some (tv_sec, tv_nsec) \<Rightarrow>
          if sint tv_sec < 0 \<or> sint tv_nsec < 0 \<or> sint tv_nsec \<ge> 1000000000 then Inl (-22)
          else let timeout_ns = tv_sec * 1000000000 + tv_nsec in if timeout_ns = 0 then Inl (-110) else Inr timeout_ns)"

definition wait_enqueue :: "futex_memory \<Rightarrow> u64 \<Rightarrow> u64 \<Rightarrow> u64 \<Rightarrow> futex_state \<Rightarrow> futex_state option" where
  "wait_enqueue mem new_queue key thread st = futex_add mem new_queue key thread (st\<lparr>statuses := (statuses st)(thread := T_FUTEX)\<rparr>)"

text \<open>
  The polling loop.  Each later round starts with the pending-signal test, the elapsed time and the state that other threads left;
  \<open>Inr\<close> is the call still waiting when the rounds run out.
\<close>

primrec wait_loop ::
  "futex_memory \<Rightarrow> u64 \<Rightarrow> u64 \<Rightarrow> u64 \<Rightarrow> (bool \<times> u64 \<times> futex_state) list \<Rightarrow> futex_state \<Rightarrow> ((int \<times> futex_state) + futex_state) option" where
  "wait_loop mem key thread timeout_ns [] st = Some (Inr st)"
| "wait_loop mem key thread timeout_ns (poll # polls) st =
     (let (pending, elapsed, st) = poll in
      if statuses st thread \<noteq> T_FUTEX then Some (Inl (0, st))
      else if pending then do { (_, st) \<leftarrow> futex_unblock mem key (Some thread) st; Some (Inl (-4, st)) }
      else if sint timeout_ns \<ge> 0 \<and> elapsed \<ge> timeout_ns then do { (_, st) \<leftarrow> futex_unblock mem key (Some thread) st; Some (Inl (-110, st)) }
      else wait_loop mem key thread timeout_ns polls st)"

text \<open>\<open>translate\<close> is \<open>arch_virt_to_phys\<close>, \<open>load\<close> the read of the word through the user's address.\<close>

definition sys_futex ::
  "futex_memory \<Rightarrow> u64 \<Rightarrow> (u64 \<Rightarrow> u64) \<Rightarrow> (u64 \<Rightarrow> int) \<Rightarrow> u64 \<Rightarrow> u64 \<Rightarrow> u32 \<Rightarrow> int \<Rightarrow> (u64 \<times> u64) option \<Rightarrow>
   (bool \<times> u64 \<times> futex_state) list \<Rightarrow> futex_state \<Rightarrow> ((int \<times> futex_state) + futex_state) option" where
  "sys_futex mem new_queue translate load thread uaddr op val time polls st =
     (if uaddr = 0 then Some (Inl (-22, st))
      else if uaddr AND 3 \<noteq> 0 then Some (Inl (-22, st))
      else let key = translate uaddr in
      if key = 0 then Some (Inl (-14, st))
      else let cmd = op AND NOT FUTEX_FLAGS in
      if cmd = 0 \<or> cmd = 9 then
        (case wait_check (load uaddr) val time of
           Inl err \<Rightarrow> Some (Inl (err, st))
         | Inr timeout_ns \<Rightarrow> do {
             st \<leftarrow> wait_enqueue mem new_queue key thread st;
             wait_loop mem key thread timeout_ns polls st
           })
      else if cmd = 1 \<or> cmd = 10 then
        if val < 0 then Some (Inl (-22, st)) else map_option Inl (futex_wake mem key val st)
      else Some (Inl (-22, st)))"

section \<open>Waiting threads\<close>

definition all_memory :: "futex_memory \<Rightarrow> bool" where
  "all_memory mem \<longleftrightarrow> create_ok mem \<and> entry_ok mem \<and> realloc_ok mem \<and> add_ok mem \<and> shift_ok mem = (\<lambda>_. True) \<and> last_ok mem"

definition queue_ok :: "u64 cow_arraylist \<Rightarrow> bool" where
  "queue_ok l \<longleftrightarrow> cow_ok l \<and> None \<notin> set (cow_contents l)"

definition waiting :: "u64 cow_arraylist \<Rightarrow> u64 list" where
  "waiting l = map the (cow_contents l)"

text \<open>The threads waiting at an address, longest waiting first.\<close>

definition waiters :: "futex_state \<Rightarrow> u64 \<Rightarrow> u64 list" where
  "waiters st a = (case map_abs (futex_map st) a of None \<Rightarrow> [] | Some q \<Rightarrow> waiting (the (queues st q)))"

definition futex_ok :: "futex_state \<Rightarrow> bool" where
  "futex_ok st \<longleftrightarrow> map_wf (futex_map st) \<and> inj_on (map_abs (futex_map st)) (dom (map_abs (futex_map st))) \<and>
     dom (queues st) = ran (map_abs (futex_map st)) \<and>
     (\<forall>q l. queues st q = Some l \<longrightarrow> queue_ok l \<and> waiting l \<noteq> [])"

lemma queue_contents: "queue_ok l \<Longrightarrow> cow_contents l = map Some (waiting l)"
proof -
  have "None \<notin> set xs \<Longrightarrow> xs = map Some (map the xs)" for xs :: "'b option list" by (induction xs) auto
  then show "queue_ok l \<Longrightarrow> cow_contents l = map Some (waiting l)" unfolding queue_ok_def waiting_def by blast
qed

lemma length_waiting [simp]: "length (waiting l) = cow_size l"
  by (simp add: waiting_def)

lemma queue_get: "queue_ok l \<Longrightarrow> i < cow_size l \<Longrightarrow> cow_list_get l i = Some (Some (waiting l ! i))"
  using cow_list_get_spec [of l i] queue_contents [of l] by (simp add: queue_ok_def del: nth_cow_contents)

lemma queue_remove:
  assumes "queue_ok l" "i < cow_size l"
  obtains x l' where "cow_list_remove (\<lambda>_. True) True l i = Some (x, l')" "queue_ok l'" "waiting l' = take i (waiting l) @ drop (Suc i) (waiting l)"
proof -
  obtain l' where l': "cow_list_remove (\<lambda>_. True) True l i = Some (cow_contents l ! i, l')" "cow_ok l'"
    "cow_contents l' = take i (cow_contents l) @ drop (Suc i) (cow_contents l)"
    using cow_list_remove_spec [of l i] assms by (auto simp: queue_ok_def)
  then have "queue_ok l'" using assms(1) by (auto simp: queue_ok_def dest: in_set_takeD in_set_dropD)
  then show ?thesis using that l' by (simp add: waiting_def take_map drop_map)
qed

lemma queue_add:
  assumes "queue_ok l"
  obtains l' where "cow_list_add True True l (Some t) = Some (cow_size l, l')" "queue_ok l'" "waiting l' = waiting l @ [t]"
proof -
  obtain l' where "cow_list_add True True l (Some t) = Some (cow_size l, l')" "cow_ok l'" "cow_contents l' = cow_contents l @ [Some t]"
    using cow_list_add_spec [of l "Some t"] assms by (auto simp: queue_ok_def)
  then show ?thesis using that assms by (simp add: queue_ok_def waiting_def)
qed

text \<open>A thread list as the loops find it: the state with the list at \<open>queue\<close> replaced.\<close>

lemma wake_loop_spec:
  assumes "all_memory mem" "queue_ok l" "queues st queue = Some l" "cow_size l + nat (count - woken) < fuel" "woken \<le> count"
    "k = min (nat (count - woken)) (cow_size l)"
  shows "\<exists>l'. wake_loop fuel mem queue count 0 woken st = Some (woken + int k,
      st\<lparr>queues := (queues st)(queue \<mapsto> l'), statuses := (\<lambda>t. if t \<in> set (take k (waiting l)) then T_START else statuses st t),
         requests := requests st @ map Wake (take k (waiting l))\<rparr>) \<and>
    queue_ok l' \<and> waiting l' = drop k (waiting l)"
  using assms(2-)
proof (induction fuel arbitrary: l st woken k)
  case (Suc fuel)
  show ?case
  proof (cases "k = 0")
    case True
    then have "\<not> (0 < cow_size l \<and> woken < count)" using Suc.prems by auto
    moreover have "(queues st)(queue \<mapsto> l) = queues st" using Suc.prems(2) by auto
    ultimately show ?thesis using True Suc.prems(1,2) by (intro exI [of _ l]) (auto simp del: fun_upd_apply)
  next
    case False
    then obtain t ts where ts: "waiting l = t # ts" "0 < cow_size l" "woken < count"
      using Suc.prems(5) by (cases "waiting l") (auto simp flip: length_waiting)
    obtain x l1 where l1: "cow_list_remove (\<lambda>_. True) True l 0 = Some (x, l1)" "queue_ok l1" "waiting l1 = ts"
      by (rule queue_remove [OF Suc.prems(1) ts(2)]) (use ts(1) in auto)
    let ?st = "futex_wake_task t (st\<lparr>queues := (queues st)(queue \<mapsto> l1), statuses := (statuses st)(t := T_START)\<rparr>)"
    have size: "cow_size l = Suc (cow_size l1)" using ts(1) l1(3) by (metis length_Cons length_waiting)
    have run: "wake_loop (Suc fuel) mem queue count 0 woken st = wake_loop fuel mem queue count 0 (woken + 1) ?st"
      using ts queue_get [OF Suc.prems(1) ts(2)] Suc.prems(2) l1(1) assms(1) by (simp add: all_memory_def)
    obtain k' where k': "k = Suc k'" "k' = min (nat (count - (woken + 1))) (cow_size l1)"
      using False Suc.prems(5) ts(3) size by (cases k) auto
    have here: "queues ?st queue = Some l1" by (simp add: futex_wake_task_def)
    have enough: "cow_size l1 + nat (count - (woken + 1)) < fuel" using Suc.prems(3) size by linarith
    have more: "woken + 1 \<le> count" using ts(3) by simp
    obtain l' where "wake_loop fuel mem queue count 0 (woken + 1) ?st = Some (woken + 1 + int k',
        ?st\<lparr>queues := (queues ?st)(queue \<mapsto> l'), statuses := (\<lambda>u. if u \<in> set (take k' ts) then T_START else statuses ?st u),
          requests := requests ?st @ map Wake (take k' ts)\<rparr>)" "queue_ok l'" "waiting l' = drop k' ts"
      using Suc.IH [OF l1(2) here enough more k'(2)] unfolding l1(3) by blast
    then show ?thesis unfolding run using k'(1) ts(1)
      by (intro exI [of _ l']) (auto simp: futex_wake_task_def fun_eq_iff)
  qed
qed simp

section \<open>The table of futexes\<close>

text \<open>The state between a change of the list at \<open>a\<close> and \<open>drop_empty\<close>: that list may be empty.\<close>

definition futex_mid :: "u64 \<Rightarrow> futex_state \<Rightarrow> bool" where
  "futex_mid a st \<longleftrightarrow> map_wf (futex_map st) \<and> inj_on (map_abs (futex_map st)) (dom (map_abs (futex_map st))) \<and>
     dom (queues st) = ran (map_abs (futex_map st)) \<and>
     (\<forall>q l. queues st q = Some l \<longrightarrow> queue_ok l \<and> (waiting l \<noteq> [] \<or> map_abs (futex_map st) a = Some q))"

lemma map_abs_inj:
  assumes "inj_on m (dom m)" "m a = Some q" "m b = Some q"
  shows "a = b"
  using assms by (metis domI inj_onD)

lemma queue_of:
  assumes "futex_ok st" "map_abs (futex_map st) a = Some q"
  obtains l where "queues st q = Some l" "queue_ok l" "waiters st a = waiting l" "waiting l \<noteq> []"
proof -
  have "q \<in> ran (map_abs (futex_map st))" using assms(2) by (rule ranI)
  then have "q \<in> dom (queues st)" using assms(1) by (simp add: futex_ok_def)
  then obtain l where l: "queues st q = Some l" by blast
  then have "queue_ok l" "waiting l \<noteq> []" using assms(1) unfolding futex_ok_def by blast+
  then show ?thesis using that l assms(2) by (simp add: waiters_def)
qed

lemma replace_queue:
  assumes "futex_ok st" "map_abs (futex_map st) a = Some q" "queue_ok l"
    and st': "futex_map st' = futex_map st" "queues st' = (queues st)(q \<mapsto> l)"
  shows "futex_mid a st'" "waiters st' = (waiters st)(a := waiting l)"
proof -
  have ok: "map_wf (futex_map st)" "inj_on (map_abs (futex_map st)) (dom (map_abs (futex_map st)))"
    "dom (queues st) = ran (map_abs (futex_map st))" "\<And>q l. queues st q = Some l \<Longrightarrow> queue_ok l \<and> waiting l \<noteq> []"
    using assms(1) unfolding futex_ok_def by blast+
  have "q \<in> ran (map_abs (futex_map st))" using assms(2) by (rule ranI)
  then have "dom (queues st') = ran (map_abs (futex_map st'))" using ok(3) st' by (simp add: insert_absorb)
  moreover have "queue_ok l' \<and> (waiting l' \<noteq> [] \<or> map_abs (futex_map st) a = Some q')" if "queues st' q' = Some l'" for q' l'
    using that ok(4) [of q' l'] st'(2) assms(2,3) by (cases "q' = q") auto
  ultimately show "futex_mid a st'" using ok(1,2) st'(1) unfolding futex_mid_def by simp
  have "waiters st' b = ((waiters st)(a := waiting l)) b" for b
  proof (cases "b = a")
    case True
    then show ?thesis using assms(2) st' by (simp add: waiters_def)
  next
    case False
    then have "map_abs (futex_map st) b \<noteq> Some q" using map_abs_inj [OF ok(2) assms(2)] by blast
    then show ?thesis using False st' by (auto simp: waiters_def split: option.splits)
  qed
  then show "waiters st' = (waiters st)(a := waiting l)" by blast
qed

lemma drop_empty_spec:
  assumes "futex_mid a st" "map_abs (futex_map st) a = Some q"
  obtains st' where "drop_empty a q st = Some st'" "futex_ok st'" "waiters st' = waiters st" "statuses st' = statuses st"
    "requests st' = requests st"
proof -
  have mid: "map_wf (futex_map st)" "inj_on (map_abs (futex_map st)) (dom (map_abs (futex_map st)))"
    "dom (queues st) = ran (map_abs (futex_map st))"
    "\<And>q l. queues st q = Some l \<Longrightarrow> queue_ok l \<and> (waiting l \<noteq> [] \<or> map_abs (futex_map st) a = Some q)"
    using assms(1) by (auto simp: futex_mid_def)
  have "q \<in> dom (queues st)" using mid(3) assms(2) by (auto simp: ran_def)
  then obtain l where l: "queues st q = Some l" "queue_ok l" using mid(4) by auto
  show ?thesis
  proof (cases "cow_size l = 0")
    case False
    then have "waiting l \<noteq> []" by (metis length_waiting list.size(3))
    then have "futex_ok st" using mid l(1) assms(2) by (auto simp: futex_ok_def)
    then show ?thesis using that [of st] False l(1) by (simp add: drop_empty_def)
  next
    case True
    obtain m where m: "map_remove (futex_map st) a = Some m" "map_wf m" "map_abs m = (map_abs (futex_map st))(a := None)"
      using map_remove_spec [OF mid(1)] by blast
    let ?st = "st\<lparr>futex_map := m, queues := (queues st)(q := None)\<rparr>"
    have others: "map_abs m b = Some x \<longleftrightarrow> map_abs (futex_map st) b = Some x \<and> x \<noteq> q" for b x
    proof (cases "b = a")
      case True
      then show ?thesis using assms(2) m(3) by simp
    next
      case False
      then have "map_abs (futex_map st) b \<noteq> Some q" using map_abs_inj [OF mid(2) assms(2)] by blast
      then show ?thesis using False m(3) by auto
    qed
    have ran: "ran (map_abs m) = ran (map_abs (futex_map st)) - {q}" unfolding ran_def others by blast
    have "inj_on (map_abs m) (dom (map_abs m))" using mid(2) unfolding m(3) inj_on_def by simp
    moreover have "queue_ok l' \<and> waiting l' \<noteq> []" if "queues ?st q' = Some l'" for q' l'
      using that mid(4) [of q' l'] assms(2) by (auto split: if_splits)
    moreover have "dom (queues ?st) = ran (map_abs m)" using mid(3) ran by simp
    ultimately have ok: "futex_ok ?st" using m(2) unfolding futex_ok_def by simp
    have "waiters ?st b = waiters st b" for b
    proof (cases "b = a")
      case True
      have "waiting l = []" using \<open>cow_size l = 0\<close> by (metis length_0_conv length_waiting)
      then show ?thesis using True assms(2) l(1) m(3) by (simp add: waiters_def)
    next
      case False
      then have "map_abs m b = map_abs (futex_map st) b" "map_abs (futex_map st) b \<noteq> Some q"
        using m(3) map_abs_inj [OF mid(2) assms(2), of b] by auto
      then show ?thesis by (auto simp: waiters_def split: option.splits)
    qed
    moreover have "drop_empty a q st = Some ?st"
      using True l m(1) cow_list_destroy_spec [of l] by (simp add: drop_empty_def queue_ok_def)
    ultimately show ?thesis using that [of ?st] ok by auto
  qed
qed

lemma futex_wake_spec:
  assumes "all_memory mem" "futex_ok st" "k = min (nat count) (length (waiters st a))"
  obtains st' where "futex_wake mem a count st = Some (int k, st')" "futex_ok st'" "waiters st' = (waiters st)(a := drop k (waiters st a))"
    "statuses st' = (\<lambda>t. if t \<in> set (take k (waiters st a)) then T_START else statuses st t)"
    "requests st' = requests st @ map Wake (take k (waiters st a))"
proof -
  have wf: "map_wf (futex_map st)" using assms(2) by (simp add: futex_ok_def)
  note get = map_get_spec [OF wf, of a]
  show ?thesis
  proof (cases "map_abs (futex_map st) a")
    case None
    then have "waiters st a = []" by (simp add: waiters_def)
    then show ?thesis using that [of st] get None assms by (simp add: futex_wake_def fun_upd_idem)
  next
    case (Some q)
    obtain l where l: "queues st q = Some l" "queue_ok l" "waiters st a = waiting l" using queue_of [OF assms(2) Some] by blast
    show ?thesis
    proof (cases "count \<le> 0")
      case True
      then show ?thesis using that [of st] get Some assms by (simp add: futex_wake_def)
    next
      case False
      let ?st1 = "\<lambda>l'. st\<lparr>queues := (queues st)(q \<mapsto> l'), statuses := (\<lambda>t. if t \<in> set (take k (waiting l)) then T_START else statuses st t),
         requests := requests st @ map Wake (take k (waiting l))\<rparr>"
      obtain l' where l': "wake_loop (cow_size l + nat count + 1) mem q count 0 0 st = Some (0 + int k, ?st1 l')" "queue_ok l'"
        "waiting l' = drop k (waiting l)"
        using wake_loop_spec [OF assms(1) l(2,1), of count 0 "cow_size l + nat count + 1" k] False assms(3) l(3) by auto
      have mid: "futex_mid a (?st1 l')" "waiters (?st1 l') = (waiters st)(a := waiting l')"
        by (rule replace_queue [OF assms(2) Some l'(2)]; simp)+
      have at: "map_abs (futex_map (?st1 l')) a = Some q" using Some by simp
      obtain st2 where "drop_empty a q (?st1 l') = Some st2" "futex_ok st2" "waiters st2 = waiters (?st1 l')"
        "statuses st2 = statuses (?st1 l')" "requests st2 = requests (?st1 l')"
        using drop_empty_spec [OF mid(1) at] .
      then show ?thesis using that [of st2] get Some False l l'(1,3) mid(2) by (simp add: futex_wake_def)
    qed
  qed
qed

lemma futex_add_spec:
  assumes "all_memory mem" "futex_ok st" "queues st new_queue = None"
  obtains st' where "futex_add mem new_queue a t st = Some st'" "futex_ok st'" "waiters st' = (waiters st)(a := waiters st a @ [t])"
    "statuses st' = statuses st" "requests st' = requests st @ [Block t]" "futex_index st' t = length (waiters st a)"
proof -
  have ok: "map_wf (futex_map st)" "inj_on (map_abs (futex_map st)) (dom (map_abs (futex_map st)))"
    "dom (queues st) = ran (map_abs (futex_map st))" "\<And>q l. queues st q = Some l \<Longrightarrow> queue_ok l \<and> waiting l \<noteq> []"
    using assms(2) unfolding futex_ok_def by blast+
  note get = map_get_spec [OF ok(1), of a]
  show ?thesis
  proof (cases "map_abs (futex_map st) a")
    case (Some q)
    obtain l where l: "queues st q = Some l" "queue_ok l" "waiters st a = waiting l" using queue_of [OF assms(2) Some] by blast
    obtain l' where l': "cow_list_add True True l (Some t) = Some (cow_size l, l')" "queue_ok l'" "waiting l' = waiting l @ [t]"
      using queue_add [OF l(2)] .
    let ?st = "futex_block_task t (st\<lparr>queues := (queues st)(q \<mapsto> l'), futex_index := (futex_index st)(t := cow_size l)\<rparr>)"
    have mid: "futex_mid a ?st" "waiters ?st = (waiters st)(a := waiting l')"
      by (rule replace_queue [OF assms(2) Some l'(2)]; simp add: futex_block_task_def)+
    have "futex_ok ?st" unfolding futex_ok_def
    proof (intro conjI allI impI)
      fix q' l2
      assume "queues ?st q' = Some l2"
      then show "queue_ok l2" "waiting l2 \<noteq> []" using ok(4) l' by (auto simp: futex_block_task_def split: if_splits)
    qed (use mid(1) in \<open>auto simp: futex_mid_def\<close>)
    moreover have "futex_add mem new_queue a t st = Some ?st"
      using get Some l(1) l'(1) assms(1) by (simp add: futex_add_def all_memory_def)
    ultimately show ?thesis using that [of ?st] mid(2) l(3) l'(3) by (simp add: futex_block_task_def)
  next
    case None
    obtain m where m: "map_set (buckets_ok mem) True (futex_map st) a new_queue = Some m" "map_wf m"
      "map_abs m = (map_abs (futex_map st))(a \<mapsto> new_queue)"
      using map_set_spec [OF ok(1)] by blast
    define l0 :: "u64 cow_arraylist" where "l0 = \<lparr>blocks = replicate 4 None, block_count = 0, cow_size = 0, live_blocks = 0\<rparr>"
    have l0: "cow_list_create True True = Some l0" by (simp add: cow_list_create_def l0_def)
    then have q0: "queue_ok l0" "waiting l0 = []" using cow_list_create_ok by (auto simp: queue_ok_def waiting_def)
    obtain l' where l': "cow_list_add True True l0 (Some t) = Some (cow_size l0, l')" "queue_ok l'" "waiting l' = waiting l0 @ [t]"
      using queue_add [OF q0(1)] .
    let ?st = "futex_block_task t (st\<lparr>futex_map := m, queues := (queues st)(new_queue \<mapsto> l'), futex_index := (futex_index st)(t := 0)\<rparr>)"
    have fresh: "map_abs (futex_map st) b \<noteq> Some new_queue" for b
      using ok(3) assms(3) ranI [of "map_abs (futex_map st)" b new_queue] by auto
    have "futex_add mem new_queue a t st = Some ?st"
      using get None m(1) l0 l'(1) assms(1) by (simp add: futex_add_def all_memory_def l0_def)
    moreover have "futex_ok ?st" unfolding futex_ok_def
    proof (intro conjI allI impI)
      show "inj_on (map_abs (futex_map ?st)) (dom (map_abs (futex_map ?st)))"
        using ok(2) fresh unfolding inj_on_def m(3) futex_block_task_def by (simp add: m(3)) metis
      show "dom (queues ?st) = ran (map_abs (futex_map ?st))"
        using ok(3) None by (simp add: futex_block_task_def m(3) ran_map_upd)
      fix q' l2
      assume "queues ?st q' = Some l2"
      then show "queue_ok l2" "waiting l2 \<noteq> []" using ok(4) l' by (auto simp: futex_block_task_def split: if_splits)
    qed (use m(2) in \<open>simp add: futex_block_task_def\<close>)
    moreover have all: "waiters ?st b = ((waiters st)(a := waiters st a @ [t])) b" for b
    proof (cases "b = a")
      case True
      then show ?thesis using None m(3) l'(3) q0(2) by (simp add: waiters_def futex_block_task_def)
    next
      case False
      then show ?thesis using fresh [of b] m(3) by (auto simp: waiters_def futex_block_task_def split: option.splits)
    qed
    moreover have "waiters st a = []" using None by (simp add: waiters_def)
    moreover have "waiters ?st = (waiters st)(a := waiters st a @ [t])" using all by blast
    ultimately show ?thesis using that [of ?st] by (simp add: futex_block_task_def)
  qed
qed

lemma find_waiter_spec:
  assumes "queue_ok l" "\<forall>i\<in>set is. i < cow_size l"
  shows "find_waiter l t is = Some (find (\<lambda>i. waiting l ! i = t) is)"
  using assms(2) by (induction "is") (auto simp: queue_get [OF assms(1)])

lemma find_upt_remove1:
  "case find (\<lambda>i. xs ! i = t) [0..<length xs] of
     None \<Rightarrow> t \<notin> set xs
   | Some i \<Rightarrow> i < length xs \<and> xs ! i = t \<and> take i xs @ drop (Suc i) xs = remove1 t xs"
proof (induction xs)
  case (Cons x xs)
  have up: "[0..<length (x # xs)] = 0 # map Suc [0..<length xs]" by (simp add: map_Suc_upt upt_conv_Cons del: upt_Suc)
  have "find (\<lambda>i. (x # xs) ! i = t) (map Suc is) = map_option Suc (find (\<lambda>i. xs ! i = t) is)" for "is"
    by (induction "is") auto
  then show ?case unfolding up using Cons by (auto split: option.splits)
qed simp

lemma futex_unblock_spec:
  assumes "all_memory mem" "futex_ok st"
  obtains st' where "futex_unblock mem a (Some t) st = Some (t \<in> set (waiters st a), st')" "futex_ok st'"
    "waiters st' = (waiters st)(a := remove1 t (waiters st a))"
    "t \<in> set (waiters st a) \<Longrightarrow> statuses st t = T_FUTEX \<Longrightarrow>
       statuses st' = (statuses st)(t := T_START) \<and> requests st' = requests st @ [Wake t]"
    "t \<notin> set (waiters st a) \<or> statuses st t \<noteq> T_FUTEX \<Longrightarrow> statuses st' = statuses st \<and> requests st' = requests st"
proof -
  have wf: "map_wf (futex_map st)" using assms(2) by (simp add: futex_ok_def)
  note get = map_get_spec [OF wf, of a]
  show ?thesis
  proof (cases "map_abs (futex_map st) a")
    case None
    then have "waiters st a = []" by (simp add: waiters_def)
    then show ?thesis using that [of st] get None assms(2) by (simp add: futex_unblock_def fun_upd_idem)
  next
    case (Some q)
    obtain l where l: "queues st q = Some l" "queue_ok l" "waiters st a = waiting l" using queue_of [OF assms(2) Some] by blast
    have place: "find_waiter l t [0..<cow_size l] = Some (find (\<lambda>i. waiting l ! i = t) [0..<length (waiting l)])"
      using find_waiter_spec [OF l(2), of "[0..<cow_size l]"] by simp
    show ?thesis
    proof (cases "find (\<lambda>i. waiting l ! i = t) [0..<length (waiting l)]")
      case None
      then have "t \<notin> set (waiting l)" using find_upt_remove1 [where xs = "waiting l" and t = t] by simp
      then show ?thesis using that [of st] get Some l None place assms(2) by (simp add: futex_unblock_def remove1_idem fun_upd_idem)
    next
      case (Some i)
      then have i: "i < cow_size l" "waiting l ! i = t" "take i (waiting l) @ drop (Suc i) (waiting l) = remove1 t (waiting l)"
        using find_upt_remove1 [where xs = "waiting l" and t = t] by simp_all
      obtain x l' where l': "cow_list_remove (\<lambda>_. True) True l i = Some (x, l')" "queue_ok l'" "waiting l' = remove1 t (waiting l)"
        using queue_remove [OF l(2) i(1)] i(3) by metis
      let ?st = "st\<lparr>queues := (queues st)(q \<mapsto> l')\<rparr>"
      let ?st1 = "if statuses ?st t = T_FUTEX then futex_wake_task t (?st\<lparr>statuses := (statuses ?st)(t := T_START)\<rparr>) else ?st"
      have mid: "futex_mid a ?st1" "waiters ?st1 = (waiters st)(a := waiting l')"
        by (rule replace_queue [OF assms(2) \<open>map_abs (futex_map st) a = Some q\<close> l'(2)]; simp add: futex_wake_task_def)+
      have at: "map_abs (futex_map ?st1) a = Some q" using \<open>map_abs (futex_map st) a = Some q\<close> by (simp add: futex_wake_task_def)
      obtain st2 where st2: "drop_empty a q ?st1 = Some st2" "futex_ok st2" "waiters st2 = waiters ?st1"
        "statuses st2 = statuses ?st1" "requests st2 = requests ?st1"
        using drop_empty_spec [OF mid(1) at] .
      have "t \<in> set (waiting l)" using i by (metis length_waiting nth_mem)
      moreover have "futex_unblock mem a (Some t) st = Some (True, st2)"
        using get \<open>map_abs (futex_map st) a = Some q\<close> l(1) place Some l'(1) st2(1) assms(1)
        by (simp add: futex_unblock_def all_memory_def Let_def)
      ultimately show ?thesis using that [of st2] st2 mid(2) l(3) l'(3) by (auto simp: futex_wake_task_def)
    qed
  qed
qed

lemma purge_loop_spec:
  assumes "all_memory mem" "queue_ok l" "index \<le> cow_size l" "cow_size l - index < fuel" "t \<notin> set (take index (waiting l))"
  obtains l' where "purge_loop fuel mem t index l = Some l'" "queue_ok l'" "waiting l' = removeAll t (waiting l)"
proof -
  have "\<exists>l'. purge_loop fuel mem t index l = Some l' \<and> queue_ok l' \<and> waiting l' = removeAll t (waiting l)"
    using assms(2-)
  proof (induction fuel arbitrary: index l)
    case (Suc fuel)
    show ?case
    proof (cases "index < cow_size l")
      case False
      then have "t \<notin> set (waiting l)" using Suc.prems(2,4) by simp
      then show ?thesis using False Suc.prems(1) by simp
    next
      case True
      note get = queue_get [OF Suc.prems(1) True]
      have at: "waiting l = take index (waiting l) @ waiting l ! index # drop (Suc index) (waiting l)"
        using True by (simp add: id_take_nth_drop)
      show ?thesis
      proof (cases "waiting l ! index = t")
        case here: True
        obtain x l1 where l1: "cow_list_remove (\<lambda>_. True) True l index = Some (x, l1)" "queue_ok l1"
          "waiting l1 = take index (waiting l) @ drop (Suc index) (waiting l)"
          using queue_remove [OF Suc.prems(1) True] .
        have size: "cow_size l1 = cow_size l - 1" using l1(3) True by (simp flip: length_waiting)
        have "purge_loop (Suc fuel) mem t index l = purge_loop fuel mem t index l1"
          using True get here l1(1) assms(1) by (simp add: all_memory_def)
        moreover have "t \<notin> set (take index (waiting l1))" using Suc.prems(4) l1(3) True by simp
        moreover have "removeAll t (waiting l1) = removeAll t (waiting l)"
          using at here l1(3) by (metis removeAll.simps(2) removeAll_append)
        ultimately show ?thesis using Suc.IH [OF l1(2), of index] size True Suc.prems(3) by auto
      next
        case False
        have "purge_loop (Suc fuel) mem t index l = purge_loop fuel mem t (index + 1) l" using True get False by simp
        moreover have "t \<notin> set (take (index + 1) (waiting l))"
          using Suc.prems(4) False True by (simp add: take_Suc_conv_app_nth)
        ultimately show ?thesis using Suc.IH [OF Suc.prems(1), of "index + 1"] True Suc.prems(3) by auto
      qed
    qed
  qed simp
  then show ?thesis using that by blast
qed

text \<open>One entry of the table: its list loses the thread, and the entry goes when the list is empty.\<close>

lemma free_entry:
  assumes "all_memory mem" "futex_ok st" "map_abs (futex_map st) a = Some q"
  obtains st' where "free_entries mem t ((a, q) # es) st = free_entries mem t es st'" "futex_ok st'"
    "waiters st' = (waiters st)(a := removeAll t (waiters st a))" "statuses st' = statuses st" "requests st' = requests st"
    "\<And>b x. b \<noteq> a \<Longrightarrow> map_abs (futex_map st) b = Some x \<Longrightarrow> map_abs (futex_map st') b = Some x"
proof -
  obtain l where l: "queues st q = Some l" "queue_ok l" "waiters st a = waiting l" using queue_of [OF assms(2,3)] by blast
  obtain l' where l': "purge_loop (cow_size l + 1) mem t 0 l = Some l'" "queue_ok l'" "waiting l' = removeAll t (waiting l)"
    by (rule purge_loop_spec [OF assms(1) l(2), of 0 "cow_size l + 1" t]) auto
  let ?st = "st\<lparr>queues := (queues st)(q \<mapsto> l')\<rparr>"
  have mid: "futex_mid a ?st" "waiters ?st = (waiters st)(a := waiting l')"
    by (rule replace_queue [OF assms(2,3) l'(2)]; simp)+
  have at: "map_abs (futex_map ?st) a = Some q" using assms(3) by simp
  obtain st2 where st2: "drop_empty a q ?st = Some st2" "futex_ok st2" "waiters st2 = waiters ?st" "statuses st2 = statuses ?st"
    "requests st2 = requests ?st"
    using drop_empty_spec [OF mid(1) at] .
  have "map_abs (futex_map st2) b = Some x" if "b \<noteq> a" "map_abs (futex_map st) b = Some x" for b x
    using st2(1) that map_remove_spec [of "futex_map st" a] assms(2)
    by (auto simp: drop_empty_def futex_ok_def split: if_splits bind_splits)
  then show ?thesis using that [of st2] l l' st2 mid(2) by simp
qed

lemma free_entries_spec:
  assumes "all_memory mem" "futex_ok st" "\<forall>e\<in>set es. map_abs (futex_map st) (fst e) = Some (snd e)" "distinct (map fst es)"
  shows "\<exists>st'. free_entries mem t es st = Some st' \<and> futex_ok st' \<and> statuses st' = statuses st \<and> requests st' = requests st \<and>
    waiters st' = (\<lambda>a. if a \<in> fst ` set es then removeAll t (waiters st a) else waiters st a)"
  using assms(2-)
proof (induction es arbitrary: st)
  case (Cons e es)
  obtain a q where e: "e = (a, q)" by fastforce
  have here: "map_abs (futex_map st) a = Some q" using Cons.prems(2) e by simp
  obtain st1 where st1: "free_entries mem t ((a, q) # es) st = free_entries mem t es st1" "futex_ok st1"
    "waiters st1 = (waiters st)(a := removeAll t (waiters st a))" "statuses st1 = statuses st" "requests st1 = requests st"
    "\<And>b x. b \<noteq> a \<Longrightarrow> map_abs (futex_map st) b = Some x \<Longrightarrow> map_abs (futex_map st1) b = Some x"
    using free_entry [OF assms(1) Cons.prems(1) here] by blast
  have "a \<notin> fst ` set es" using Cons.prems(3) e by simp
  then have "\<forall>e\<in>set es. map_abs (futex_map st1) (fst e) = Some (snd e)"
    using Cons.prems(2) st1(6) by (metis imageI list.set_intros(2))
  then obtain st' where "free_entries mem t es st1 = Some st'" "futex_ok st'" "statuses st' = statuses st1" "requests st' = requests st1"
    "waiters st' = (\<lambda>b. if b \<in> fst ` set es then removeAll t (waiters st1 b) else waiters st1 b)"
    using Cons.IH [OF st1(2)] Cons.prems(3) by auto
  moreover have "a \<notin> fst ` set es" using Cons.prems(3) e by simp
  ultimately show ?case using st1 e by (auto simp: fun_eq_iff)
qed simp

lemma futex_free_spec:
  assumes "all_memory mem" "futex_ok st"
  obtains st' where "futex_free mem (Some t) st = Some st'" "futex_ok st'" "waiters st' = (\<lambda>a. removeAll t (waiters st a))"
    "statuses st' = statuses st" "requests st' = requests st"
proof -
  have wf: "map_wf (futex_map st)" using assms(2) by (simp add: futex_ok_def)
  let ?es = "concat (map_buckets (futex_map st))"
  have keys: "\<forall>e\<in>set ?es. map_abs (futex_map st) (fst e) = Some (snd e)"
    using map_abs_iff [OF wf] by auto
  obtain st' where st': "free_entries mem t ?es st = Some st'" "futex_ok st'" "statuses st' = statuses st" "requests st' = requests st"
    "waiters st' = (\<lambda>a. if a \<in> fst ` set ?es then removeAll t (waiters st a) else waiters st a)"
    using free_entries_spec [OF assms keys map_wf_distinct [OF wf]] by blast
  have "waiters st a = []" if "a \<notin> fst ` set ?es" for a
  proof -
    have "map_abs (futex_map st) a = None" using that map_abs_iff [OF wf] by (metis fst_conv image_eqI not_None_eq)
    then show ?thesis by (simp add: waiters_def)
  qed
  then have "waiters st' = (\<lambda>a. removeAll t (waiters st a))" using st'(5) by (auto simp: fun_eq_iff)
  then show ?thesis using that st' by (simp add: futex_free_def)
qed

section \<open>Runs\<close>

datatype futex_op = F_add u64 u64 | F_wake u64 int | F_unblock u64 u64 | F_free u64

primrec futex_spec :: "futex_op \<Rightarrow> (u64 \<Rightarrow> u64 list) \<Rightarrow> u64 \<Rightarrow> u64 list" where
  "futex_spec (F_add a t) w = w(a := w a @ [t])"
| "futex_spec (F_wake a count) w = w(a := drop (nat count) (w a))"
| "futex_spec (F_unblock a t) w = w(a := remove1 t (w a))"
| "futex_spec (F_free t) w = (\<lambda>a. removeAll t (w a))"

lemma futex_laws:
  assumes "all_memory mem" "futex_ok st"
  shows "queues st q = None \<Longrightarrow> \<exists>st'. futex_add mem q a t st = Some st' \<and> futex_ok st' \<and>
      waiters st' = futex_spec (F_add a t) (waiters st) \<and> statuses st' = statuses st \<and> requests st' = requests st @ [Block t]"
    "\<exists>r st'. futex_wake mem a count st = Some (r, st') \<and> futex_ok st' \<and> waiters st' = futex_spec (F_wake a count) (waiters st)"
    "\<exists>r st'. futex_unblock mem a (Some t) st = Some (r, st') \<and> futex_ok st' \<and> waiters st' = futex_spec (F_unblock a t) (waiters st)"
    "\<exists>st'. futex_free mem (Some t) st = Some st' \<and> futex_ok st' \<and> waiters st' = futex_spec (F_free t) (waiters st)"
proof -
  show "\<exists>st'. futex_add mem q a t st = Some st' \<and> futex_ok st' \<and> waiters st' = futex_spec (F_add a t) (waiters st) \<and>
      statuses st' = statuses st \<and> requests st' = requests st @ [Block t]" if "queues st q = None"
    by (rule futex_add_spec [OF assms that, of a t]) simp
  obtain st' where st': "futex_wake mem a count st = Some (int (min (nat count) (length (waiters st a))), st')" "futex_ok st'"
    "waiters st' = (waiters st)(a := drop (min (nat count) (length (waiters st a))) (waiters st a))"
    using futex_wake_spec [OF assms refl] by blast
  moreover have "drop (min (nat count) (length (waiters st a))) (waiters st a) = drop (nat count) (waiters st a)"
    by (simp add: min_def)
  ultimately show "\<exists>r st'. futex_wake mem a count st = Some (r, st') \<and> futex_ok st' \<and> waiters st' = futex_spec (F_wake a count) (waiters st)"
    by simp
  show "\<exists>r st'. futex_unblock mem a (Some t) st = Some (r, st') \<and> futex_ok st' \<and> waiters st' = futex_spec (F_unblock a t) (waiters st)"
    by (rule futex_unblock_spec [OF assms, of a t]) simp
  show "\<exists>st'. futex_free mem (Some t) st = Some st' \<and> futex_ok st' \<and> waiters st' = futex_spec (F_free t) (waiters st)"
    by (rule futex_free_spec [OF assms, of t]) simp
qed

text \<open>Operations one after the other, a new list each time at an address that is free.\<close>

inductive futex_run :: "futex_memory \<Rightarrow> futex_state \<Rightarrow> futex_op list \<Rightarrow> futex_state \<Rightarrow> bool" for mem where
  stop: "futex_run mem st [] st"
| add: "queues st q = None \<Longrightarrow> futex_add mem q a t st = Some st1 \<Longrightarrow> futex_run mem st1 ops st' \<Longrightarrow> futex_run mem st (F_add a t # ops) st'"
| wake: "futex_wake mem a count st = Some (r, st1) \<Longrightarrow> futex_run mem st1 ops st' \<Longrightarrow> futex_run mem st (F_wake a count # ops) st'"
| unblock: "futex_unblock mem a (Some t) st = Some (r, st1) \<Longrightarrow> futex_run mem st1 ops st' \<Longrightarrow> futex_run mem st (F_unblock a t # ops) st'"
| free: "futex_free mem (Some t) st = Some st1 \<Longrightarrow> futex_run mem st1 ops st' \<Longrightarrow> futex_run mem st (F_free t # ops) st'"

lemma futex_run_refines:
  assumes "futex_run mem st ops st'" "all_memory mem" "futex_ok st"
  shows "futex_ok st' \<and> waiters st' = spec_ops futex_spec ops (waiters st)"
  using assms(1,3)
proof (induction rule: futex_run.induct)
  case (add st q a t st1 ops st')
  then show ?case using futex_laws(1) [OF assms(2) add.prems add.hyps(1), of a t] by (auto simp del: futex_spec.simps)
next
  case (wake a count st r st1 ops st')
  then show ?case using futex_laws(2) [OF assms(2) wake.prems, of a count] by (auto simp del: futex_spec.simps)
next
  case (unblock a t st r st1 ops st')
  then show ?case using futex_laws(3) [OF assms(2) unblock.prems, of a t] by (auto simp del: futex_spec.simps)
next
  case (free t st st1 ops st')
  then show ?case using futex_laws(4) [OF assms(2) free.prems, of t] by (auto simp del: futex_spec.simps)
qed simp

lemma futex_no_fault:
  assumes "all_memory mem" "futex_ok st"
  shows "queues st q = None \<Longrightarrow> futex_add mem q a t st \<noteq> None" "futex_wake mem a count st \<noteq> None"
    "futex_unblock mem a (Some t) st \<noteq> None" "futex_free mem (Some t) st \<noteq> None"
  using futex_laws(1) [OF assms, of q a t] futex_laws(2) [OF assms, of a count] futex_laws(3) [OF assms, of a t] futex_laws(4) [OF assms, of t] by auto

lemma futex_add_dom: "futex_add mem q a t st = Some st' \<Longrightarrow> dom (queues st') \<subseteq> insert q (dom (queues st))"
  by (auto simp: futex_add_def futex_block_task_def split: bind_splits option.splits if_splits)

section \<open>Properties\<close>

definition sample_map :: map where
  "sample_map = \<lparr>map_capacity = 20, map_size = 0, map_buckets = replicate 20 []\<rparr>"

definition sample_futexes :: futex_state where
  "sample_futexes = \<lparr>futex_map = sample_map, queues = Map.empty, statuses = (\<lambda>_. T_RUNNING), futex_index = (\<lambda>_. 0), requests = []\<rparr>"

definition plenty :: futex_memory where
  "plenty = \<lparr>create_ok = True, buckets_ok = True, entry_ok = True, realloc_ok = True, add_ok = True, shift_ok = (\<lambda>_. True), last_ok = True\<rparr>"

lemma sample_futexes_ok: "futex_ok sample_futexes" "waiters sample_futexes = (\<lambda>_. [])" "all_memory plenty"
proof -
  have "futex_init True = Some sample_map" by (simp add: futex_init_def map_create_def sample_map_def)
  then have "map_wf sample_map" "map_abs sample_map = (\<lambda>k. None)" using map_create_wf [of 20] by (auto simp: futex_init_def)
  then show "futex_ok sample_futexes" "waiters sample_futexes = (\<lambda>_. [])"
    by (simp_all add: futex_ok_def sample_futexes_def waiters_def fun_eq_iff [of "waiters _"])
  show "all_memory plenty" by (simp add: all_memory_def plenty_def)
qed

text \<open>
  C24: the futex table is a family of queues.  Over any sequence of waits, wakes, time-outs and thread exits the threads waiting at
  each address are those of a FIFO queue per address; every list in the heap is the list of exactly one address with a waiter, so
  empty lists are freed, and from every state reached no operation faults or runs forever.
\<close>

theorem futex_table_refines_queues:
  assumes "all_memory mem" "futex_ok st" "futex_run mem st ops st'"
  shows "waiters st' = spec_ops futex_spec ops (waiters st) \<and> futex_ok st' \<and>
    card (dom (queues st')) = card {a. waiters st' a \<noteq> []} \<and>
    (\<forall>q a t. queues st' q = None \<longrightarrow> futex_add mem q a t st' \<noteq> None) \<and> (\<forall>a count. futex_wake mem a count st' \<noteq> None) \<and>
    (\<forall>a t. futex_unblock mem a (Some t) st' \<noteq> None) \<and> (\<forall>t. futex_free mem (Some t) st' \<noteq> None)"
proof -
  have r: "futex_ok st'" "waiters st' = spec_ops futex_spec ops (waiters st)" using futex_run_refines [OF assms(3,1,2)] by auto
  let ?m = "map_abs (futex_map st')"
  have "a \<in> dom ?m \<longleftrightarrow> waiters st' a \<noteq> []" for a
  proof (cases "?m a")
    case (Some q)
    then show ?thesis by (metis queue_of [OF r(1) Some] domI)
  qed (simp add: waiters_def domIff)
  then have "dom ?m = {a. waiters st' a \<noteq> []}" by auto
  moreover have "card (dom ?m) = card (ran ?m)"
  proof -
    have "inj_on (\<lambda>a. the (?m a)) (dom ?m)"
    proof (rule inj_onI)
      fix x y
      assume xy: "x \<in> dom ?m" "y \<in> dom ?m" "the (?m x) = the (?m y)"
      then have "?m x = ?m y" by auto
      moreover have "inj_on ?m (dom ?m)" using r(1) by (simp add: futex_ok_def)
      ultimately show "x = y" using xy(1,2) by (metis inj_onD)
    qed
    moreover have "(\<lambda>a. the (?m a)) ` dom ?m = ran ?m" by (force simp: ran_def)
    ultimately show ?thesis by (metis card_image)
  qed
  ultimately have "card (dom (queues st')) = card {a. waiters st' a \<noteq> []}" using r(1) by (simp add: futex_ok_def)
  then show ?thesis using r futex_no_fault [OF assms(1) r(1)] by blast
qed

theorem futex_table_refines_queues_witness:
  "\<exists>st'. futex_run plenty sample_futexes [F_add 0x1000 1, F_add 0x1000 2, F_wake 0x1000 1] st' \<and> waiters st' 0x1000 = [2]"
proof -
  note ok = sample_futexes_ok
  have none: "queues sample_futexes q = None" for q by (simp add: sample_futexes_def)
  then obtain st1 where st1: "futex_add plenty 8 0x1000 1 sample_futexes = Some st1" "futex_ok st1" using futex_laws(1) [OF ok(3,1)] by blast
  have "queues st1 16 = None" using futex_add_dom [OF st1(1)] none by (auto simp: domIff)
  then obtain st2 where st2: "futex_add plenty 16 0x1000 2 st1 = Some st2" "futex_ok st2" "queues st1 16 = None"
    using futex_laws(1) [OF ok(3) st1(2)] by blast
  obtain r st3 where st3: "futex_wake plenty 0x1000 1 st2 = Some (r, st3)" using futex_no_fault(2) [OF ok(3) st2(2)] by fastforce
  have run: "futex_run plenty sample_futexes [F_add 0x1000 1, F_add 0x1000 2, F_wake 0x1000 1] st3"
    using none st1(1) st2(1,3) st3 by (blast intro: futex_run.intros)
  then show ?thesis using futex_table_refines_queues [OF ok(3,1) run] ok(2) by auto
qed

text \<open>
  \<open>futex_wake\<close> wakes the longest waiting threads: the answer is the smaller of \<open>count\<close> and the number of waiters, exactly
  that many leave the queue from its front, in order each is made runnable and handed to the scheduler, and no other thread and no
  other queue is touched.
\<close>

theorem futex_wake_longest_waiting:
  assumes "all_memory mem" "futex_ok st" "k = min (nat count) (length (waiters st a))"
  shows "\<exists>st'. futex_wake mem a count st = Some (int k, st') \<and> waiters st' = (waiters st)(a := drop k (waiters st a)) \<and>
    requests st' = requests st @ map Wake (take k (waiters st a)) \<and>
    (\<forall>t. statuses st' t = (if t \<in> set (take k (waiters st a)) then T_START else statuses st t))"
  by (rule futex_wake_spec [OF assms]) auto

theorem futex_wake_longest_waiting_witness:
  "\<exists>st'. futex_wake plenty 0x1000 1 sample_futexes = Some (0, st') \<and> requests st' = []"
  using futex_wake_longest_waiting [OF sample_futexes_ok(3,1), of 0 1 "0x1000"] sample_futexes_ok(2)
  by (auto simp: sample_futexes_def)



end
