(* ===== verification/Scheduler.thy ===== *)
theory Scheduler
  imports Rrs Futex
begin

text \<open>
  The scheduler interface \<^verbatim>\<open>src/src/task/scheduler.c\<close> over the round-robin queues, and the table of processors
  \<^verbatim>\<open>src/src/task/smp.c\<close>.  A sleeping thread is in \<open>sleep_list\<close> and in no run queue.  A call that waits is in two parts, what
  it does before \<open>scheduler_yield\<close> and after it is scheduled again.  The argument \<open>mem\<close> says whether the allocations of the
  call succeed, \<open>now\<close> is the value of \<open>nano_time\<close>; threads are named by address, 0 for \<open>NULL\<close>.
\<close>

section \<open>Definitions\<close>

abbreviation EINTR :: int where "EINTR \<equiv> 4"
abbreviation EINVAL :: int where "EINVAL \<equiv> 22"
abbreviation ETIMEDOUT :: int where "ETIMEDOUT \<equiv> 110"
abbreviation scheduler_block_pending :: int where "scheduler_block_pending \<equiv> 0x7fffffff"
abbreviation DEFAULT_PRIO :: u64 where "DEFAULT_PRIO \<equiv> 120"

definition set_status :: "task_status \<Rightarrow> thread \<Rightarrow> thread" where
  "set_status s th = th\<lparr>th_tcb := (th_tcb th)\<lparr>t_status := s\<rparr>\<rparr>"

definition local_of :: "u64 \<Rightarrow> 'a sched_state_scheme \<Rightarrow> nat option option" where
  "local_of t st = do { th \<leftarrow> threads st t; Some (get_cpu_local (cpu_id th) (cpus st)) }"

definition sleep_block_task :: "u64 \<Rightarrow> 'a sched_state_scheme \<Rightarrow> 'a sched_state_scheme option" where
  "sleep_block_task t st = do { cpu \<leftarrow> local_of t st; remove_rrs_entity t cpu st }"

definition sleep_wake_task :: "bool \<Rightarrow> u64 \<Rightarrow> 'a sched_state_scheme \<Rightarrow> 'a sched_state_scheme option" where
  "sleep_wake_task mem t st = do { cpu \<leftarrow> local_of t st; add_rrs_entity mem mem t cpu st }"

definition sleep_remove_task_locked :: "bool \<Rightarrow> u64 \<Rightarrow> 'a sched_state_scheme \<Rightarrow> (bool \<times> 'a sched_state_scheme) option" where
  "sleep_remove_task_locked mem t st =
     (case sleep_list st of
        None \<Rightarrow> Some (False, st)
      | Some l \<Rightarrow> do {
          place \<leftarrow> find_waiter l t [0..<cow_size l];
          (case place of
             None \<Rightarrow> Some (False, st)
           | Some i \<Rightarrow> do {
               (_, l) \<leftarrow> cow_list_remove (\<lambda>_. mem) mem l i;
               Some (True, st\<lparr>sleep_list := Some l\<rparr>)
             })
        })"

text \<open>The fields a thread gets when its sleep ends in \<open>scheduler_check_sleep\<close>.\<close>

definition woken_thread :: "thread \<Rightarrow> thread option" where
  "woken_thread th = do {
     let th = th\<lparr>sleep_deadline := 0\<rparr>;
     th \<leftarrow> (if block_code th = scheduler_block_pending then do {
         pending \<leftarrow> signals_pending_quick signal_init (th_tcb th);
         Some (th\<lparr>block_code := (if pending then - EINTR else ETIMEDOUT)\<rparr>)
       }
       else Some th);
     Some (set_status T_START th)
   }"

partial_function (option) check_loop :: "bool \<Rightarrow> u64 \<Rightarrow> nat \<Rightarrow> 'a sched_state_scheme \<Rightarrow> 'a sched_state_scheme option" where
  "check_loop mem now i st = do {
     l \<leftarrow> sleep_list st;
     if i < cow_size l then do {
       item \<leftarrow> cow_list_get l i;
       (case item of
          None \<Rightarrow> do {
            (_, l) \<leftarrow> cow_list_remove (\<lambda>_. mem) mem l i;
            check_loop mem now i (st\<lparr>sleep_list := Some l\<rparr>)
          }
        | Some t \<Rightarrow> do {
            th \<leftarrow> threads st t;
            wake \<leftarrow> (if sleep_deadline th \<le> now then Some True else signals_pending_quick signal_init (th_tcb th));
            if wake then do {
              (_, l) \<leftarrow> cow_list_remove (\<lambda>_. mem) mem l i;
              th \<leftarrow> woken_thread th;
              st \<leftarrow> sleep_wake_task mem t (st\<lparr>sleep_list := Some l, threads := (threads st)(t \<mapsto> th)\<rparr>);
              check_loop mem now i st
            }
            else check_loop mem now (i + 1) st
          })
     }
     else Some st
   }"

text \<open>\<open>trylock\<close>: whether \<open>spin_trylock\<close> gets the lock.\<close>

definition scheduler_check_sleep :: "bool \<Rightarrow> bool \<Rightarrow> u64 \<Rightarrow> 'a sched_state_scheme \<Rightarrow> 'a sched_state_scheme option" where
  "scheduler_check_sleep mem trylock now st =
     (case sleep_list st of
        None \<Rightarrow> Some st
      | Some l \<Rightarrow> if cow_size l = 0 \<or> \<not> trylock then Some st else check_loop mem now 0 st)"

text \<open>The common part of \<open>scheduler_nano_sleep\<close> and \<open>scheduler_block_current\<close> up to the yield.\<close>

definition start_sleep :: "bool \<Rightarrow> u64 \<Rightarrow> u64 \<Rightarrow> 'a sched_state_scheme \<Rightarrow> 'a sched_state_scheme option" where
  "start_sleep mem deadline current st = do {
     l \<leftarrow> (case sleep_list st of None \<Rightarrow> cow_list_create mem mem | Some l \<Rightarrow> Some l);
     st \<leftarrow> upd_thread current
       (\<lambda>th. set_status T_WAIT (th\<lparr>block_code := scheduler_block_pending, sleep_deadline := deadline\<rparr>)) st;
     (_, l) \<leftarrow> cow_list_add mem mem l (Some current);
     sleep_block_task current (st\<lparr>sleep_list := Some l\<rparr>)
   }"

definition nano_sleep_before :: "bool \<Rightarrow> u64 \<Rightarrow> u64 \<Rightarrow> u64 \<Rightarrow> 'a sched_state_scheme \<Rightarrow> 'a sched_state_scheme option" where
  "nano_sleep_before mem now nano current st = start_sleep mem (now + nano) current st"

definition nano_sleep_after :: "u64 \<Rightarrow> 'a sched_state_scheme \<Rightarrow> (int \<times> 'a sched_state_scheme) option" where
  "nano_sleep_after current st = do {
     th \<leftarrow> threads st current;
     interrupted \<leftarrow> (if block_code th = - EINTR then Some True else signals_pending_quick signal_init (th_tcb th));
     st \<leftarrow> upd_thread current (\<lambda>th. th\<lparr>block_code := 0\<rparr>) st;
     Some (if interrupted then - EINTR else 0, st)
   }"

text \<open>\<open>Inl\<close> is the early return.\<close>

definition block_current_before ::
  "bool \<Rightarrow> u64 \<Rightarrow> u64 \<Rightarrow> u64 \<Rightarrow> 'a sched_state_scheme \<Rightarrow> (int \<times> 'a sched_state_scheme + 'a sched_state_scheme) option" where
  "block_current_before mem now timeout_ns current st =
     (if current = 0 then do {
        l \<leftarrow> Some (case sleep_list st of None \<Rightarrow> cow_list_create mem mem | Some l \<Rightarrow> Some l);
        Some (Inl (- EINVAL, st\<lparr>sleep_list := l\<rparr>))
      }
      else do {
        st \<leftarrow> start_sleep mem (if timeout_ns = - 1 then - 1 else now + timeout_ns) current st;
        Some (Inr st)
      })"

definition block_current_after :: "'a sched_state_scheme \<Rightarrow> int \<times> 'a sched_state_scheme" where
  "block_current_after st = (0, st)"

definition scheduler_unblock :: "bool \<Rightarrow> u64 \<Rightarrow> int \<Rightarrow> 'a sched_state_scheme \<Rightarrow> 'a sched_state_scheme option" where
  "scheduler_unblock mem t code st =
     (if t = 0 then Some st
      else do {
        (found, st) \<leftarrow> sleep_remove_task_locked mem t st;
        if found then do {
          st \<leftarrow> upd_thread t (\<lambda>th. set_status T_START (th\<lparr>sleep_deadline := 0, block_code := code\<rparr>)) st;
          sleep_wake_task mem t st
        }
        else Some st
      })"

text \<open>The scan of \<open>get_min_task_count_cpu\<close> over the remaining indices, with the best processor so far and its count.\<close>

primrec min_count_loop :: "cpu_local list \<Rightarrow> nat list \<Rightarrow> nat option \<times> u64 \<Rightarrow> nat option \<times> u64" where
  "min_count_loop cs [] acc = acc"
| "min_count_loop cs (i # is) acc =
     min_count_loop cs is
       (if enable (cs ! i) \<and> task_count (cs ! i) < snd acc then (Some i, task_count (cs ! i)) else acc)"

definition get_min_task_count_cpu :: "cpu_local list \<Rightarrow> nat option" where
  "get_min_task_count_cpu cs = fst (min_count_loop cs [0..<length cs] (None, - 1))"

definition get_cpu_local_by_index :: "nat \<Rightarrow> cpu_local list \<Rightarrow> nat option" where
  "get_cpu_local_by_index index cs = (if index \<ge> length cs then None else Some index)"

definition upd_cpu :: "nat \<Rightarrow> (cpu_local \<Rightarrow> cpu_local) \<Rightarrow> 'a sched_state_scheme \<Rightarrow> 'a sched_state_scheme option" where
  "upd_cpu c f st = do { cpu \<leftarrow> aget (cpus st) c; cs \<leftarrow> aput (cpus st) c (f cpu); Some (st\<lparr>cpus := cs\<rparr>) }"

definition scheduler_add_task_cpu ::
  "bool \<Rightarrow> u64 \<Rightarrow> u64 \<Rightarrow> nat option \<Rightarrow> 'a sched_state_scheme \<Rightarrow> (bool \<times> 'a sched_state_scheme) option" where
  "scheduler_add_task_cpu mem t prio cpu st =
     (case cpu of
        None \<Rightarrow> Some (False, st)
      | Some c \<Rightarrow>
          if t = 0 then Some (False, st)
          else do {
            st \<leftarrow> upd_cpu c (\<lambda>cpu. cpu\<lparr>task_count := task_count cpu + 1\<rparr>) st;
            cl \<leftarrow> aget (cpus st) c;
            st \<leftarrow> upd_thread t (\<lambda>th. th\<lparr>th_prio := prio, cpu_id := cl_id cl\<rparr>) st;
            st \<leftarrow> add_rrs_entity mem mem t (Some c) st;
            Some (True, st)
          })"

text \<open>\<open>current\<close> is \<open>arch_current_cpu\<close>; the rest is the body of \<open>scheduler_add_task_cpu\<close>.\<close>

definition scheduler_add_task ::
  "bool \<Rightarrow> u64 \<Rightarrow> u64 \<Rightarrow> nat option \<Rightarrow> 'a sched_state_scheme \<Rightarrow> (bool \<times> 'a sched_state_scheme) option" where
  "scheduler_add_task mem t prio current st =
     (if t = 0 then Some (False, st)
      else
        let local = get_min_task_count_cpu (cpus st);
            local = (if local = None then current else local)
        in scheduler_add_task_cpu mem t prio local st)"

definition scheduler_set_bsp_cpu :: "bool \<Rightarrow> u64 \<Rightarrow> u64 \<Rightarrow> nat \<Rightarrow> 'a sched_state_scheme \<Rightarrow> 'a sched_state_scheme option" where
  "scheduler_set_bsp_cpu mem kernel_pagedir bsp_idle_thread c st = do {
     st \<leftarrow> upd_cpu c (\<lambda>cpu. cpu\<lparr>enable := True, directory := kernel_pagedir, current_task := bsp_idle_thread, is_yield := False,
       jiffies := 0, idle_jiffies := 0, task_count := 1, idle_task := bsp_idle_thread\<rparr>) st;
     cl \<leftarrow> aget (cpus st) c;
     st \<leftarrow> upd_thread bsp_idle_thread (\<lambda>th. th\<lparr>th_prio := DEFAULT_PRIO, cpu_id := cl_id cl\<rparr>) st;
     init_cpu_idle_rrs mem bsp_idle_thread c st
   }"

definition scheduler_set_cpu_idle :: "bool \<Rightarrow> u64 \<Rightarrow> nat \<Rightarrow> 'a sched_state_scheme \<Rightarrow> 'a sched_state_scheme option" where
  "scheduler_set_cpu_idle mem t c st = do {
     st \<leftarrow> upd_cpu c (\<lambda>cpu. cpu\<lparr>idle_task := t, current_task := t, is_yield := False, jiffies := 0, idle_jiffies := 0,
       task_count := 1\<rparr>) st;
     cl \<leftarrow> aget (cpus st) c;
     st \<leftarrow> upd_thread t (\<lambda>th. th\<lparr>th_prio := DEFAULT_PRIO - 20, cpu_id := cl_id cl\<rparr>) st;
     init_cpu_idle_rrs mem t c st
   }"

definition scheduler_remove_task :: "bool \<Rightarrow> u64 \<Rightarrow> nat option \<Rightarrow> 'a sched_state_scheme \<Rightarrow> 'a sched_state_scheme option" where
  "scheduler_remove_task mem t cpu st =
     (case cpu of
        None \<Rightarrow> Some st
      | Some c \<Rightarrow>
          if t = 0 then Some st
          else do {
            th \<leftarrow> threads st t;
            if th_handle th = None then Some st
            else do {
              st \<leftarrow> upd_cpu c (\<lambda>cpu. if task_count cpu > 0 then cpu\<lparr>task_count := task_count cpu - 1\<rparr> else cpu) st;
              if t_status (th_tcb th) = T_WAIT \<and> sleep_deadline th \<noteq> 0 then do {
                (_, st) \<leftarrow> sleep_remove_task_locked mem t st;
                st \<leftarrow> upd_thread t (\<lambda>th. th\<lparr>sleep_deadline := 0\<rparr>) st;
                st \<leftarrow> add_rrs_entity mem mem t cpu st;
                remove_rrs_entity t cpu st
              }
              else if t_status (th_tcb th) = T_FUTEX then remove_rrs_entity t cpu st
              else remove_rrs_entity t cpu st
            }
          })"

definition scheduler_pick_next :: "nat \<Rightarrow> 'a sched_state_scheme \<Rightarrow> (u64 \<times> 'a sched_state_scheme) option" where
  "scheduler_pick_next cpu st = do {
     c \<leftarrow> get_cpu_local cpu (cpus st);
     (next_thread, st) \<leftarrow> rrs_pick_next_task c st;
     cl \<leftarrow> aget (cpus st) c;
     Some (if next_thread = 0 then idle_task cl else next_thread, st)
   }"

text \<open>\<open>arch_send_scheduler\<close> raises the interrupt whose handler is \<open>scheduler_handler\<close>; the flag is what this call itself changes.\<close>

definition scheduler_yield :: "nat option \<Rightarrow> 'a sched_state_scheme \<Rightarrow> 'a sched_state_scheme option" where
  "scheduler_yield current st =
     (case current of None \<Rightarrow> Some st | Some c \<Rightarrow> upd_cpu c (\<lambda>cpu. cpu\<lparr>is_yield := True\<rparr>) st)"

text \<open>What \<open>futex_block_task\<close> and \<open>futex_wake_task\<close> do with the run queues.\<close>

definition serve_request :: "bool \<Rightarrow> sched_request \<Rightarrow> 'a sched_state_scheme \<Rightarrow> 'a sched_state_scheme option" where
  "serve_request mem r st =
     (case r of
        Block t \<Rightarrow> do { cpu \<leftarrow> local_of t st; remove_rrs_entity t cpu st }
      | Wake t \<Rightarrow> do { cpu \<leftarrow> local_of t st; add_rrs_entity mem mem t cpu st })"

section \<open>Frame conditions\<close>

text \<open>What the queues' invariant depends on: the entities, the queues, the handles, and the processors of threads with a handle.\<close>

definition placement :: "thread \<Rightarrow> (nat \<times> nat) option" where
  "placement th = map_option (\<lambda>e. (e, cpu_id th)) (th_handle th)"

definition same_queues :: "'a sched_state_scheme \<Rightarrow> 'b sched_state_scheme \<Rightarrow> bool" where
  "same_queues st st' \<longleftrightarrow> entities st' = entities st \<and> next_entity st' = next_entity st \<and> length (cpus st') = length (cpus st) \<and>
     (\<forall>k<length (cpus st). cpu_rrs (cpus st' ! k) = cpu_rrs (cpus st ! k)) \<and>
     (\<forall>i. get_cpu_local i (cpus st') = get_cpu_local i (cpus st)) \<and>
     (\<forall>t. map_option placement (threads st' t) = map_option placement (threads st t))"

lemma same_queues_views:
  assumes "same_queues st st'" "k < length (cpus st)"
  shows "run_entities k st' = run_entities k st" "run_queue k st' = run_queue k st" "cpu_ok k st' = cpu_ok k st"
  using assms by (auto simp: same_queues_def run_entities_def run_queue_def cpu_ok_def queue_of_def)

lemma same_queues_thread:
  assumes "same_queues st st'" "threads st' t = Some th'"
  obtains th where "threads st t = Some th" "th_handle th = th_handle th'" "th_handle th \<noteq> None \<Longrightarrow> cpu_id th' = cpu_id th"
proof -
  have "map_option placement (threads st t) = Some (placement th')" using assms(2) spec [of _ t]
    by (metis assms(1) same_queues_def option.map(2))
  then obtain th where "threads st t = Some th" "placement th = placement th'" by auto
  then show ?thesis using that by (auto simp: placement_def map_option_case split: option.splits)
qed

lemma same_queues_sym: "same_queues st st' \<Longrightarrow> same_queues st' st"
  by (simp add: same_queues_def)

lemma same_queues_trans: "same_queues a b \<Longrightarrow> same_queues b c \<Longrightarrow> same_queues a c"
  by (simp add: same_queues_def)

lemma same_queues_ok:
  assumes "same_queues st st'" "sched_ok st"
  shows "sched_ok st'"
proof -
  have len: "length (cpus st') = length (cpus st)" and ids: "\<And>i. get_cpu_local i (cpus st') = get_cpu_local i (cpus st)"
    and es: "entities st' = entities st" "next_entity st' = next_entity st"
    using assms(1) by (auto simp: same_queues_def)
  note views = same_queues_views [OF assms(1)]
  have "\<exists>th. threads st' (se_thread (the (entities st' e))) = Some th \<and> th_handle th = Some e \<and> get_cpu_local (cpu_id th) (cpus st') = Some c"
    if c: "c < length (cpus st')" "e \<in> set (tl (run_entities c st'))" for c e
  proof -
    obtain th where th: "threads st (se_thread (the (entities st e))) = Some th" "th_handle th = Some e" "get_cpu_local (cpu_id th) (cpus st) = Some c"
      using sched_okD(4) [OF assms(2), of c e] c views len by auto
    obtain th' where "threads st' (se_thread (the (entities st e))) = Some th'" "th_handle th' = Some e" "cpu_id th' = cpu_id th"
      using same_queues_thread [OF same_queues_sym [OF assms(1)] th(1)] th(2) by (metis option.distinct(1))
    then show ?thesis using th(3) es ids by simp
  qed
  moreover have "(\<exists>c. get_cpu_local (cpu_id th) (cpus st') = Some c \<and> e \<in> set (tl (run_entities c st'))) \<and> se_thread (the (entities st' e)) = t"
    if th: "threads st' t = Some th" "th_handle th = Some e" for t th e
  proof -
    obtain th0 where "threads st t = Some th0" "th_handle th0 = Some e" "cpu_id th = cpu_id th0"
      using same_queues_thread [OF assms(1) th(1)] th(2) by (metis option.distinct(1))
    then obtain c where c: "get_cpu_local (cpu_id th) (cpus st) = Some c" "e \<in> set (tl (run_entities c st))" "se_thread (the (entities st e)) = t"
      using sched_okD(5) [OF assms(2)] by fastforce
    then show ?thesis using views(1) [OF get_cpu_localD(1) [OF c(1)]] es ids by auto
  qed
  ultimately have "handles_ok st'" unfolding handles_ok_def by blast
  then show ?thesis using assms(2) views len es by (auto simp: sched_ok_def)
qed

lemma same_queues_update:
  assumes "threads st t = Some th" "th_handle th' = th_handle th" "th_handle th \<noteq> None \<Longrightarrow> cpu_id th' = cpu_id th"
  shows "same_queues st (st\<lparr>threads := (threads st)(t \<mapsto> th')\<rparr>)"
  using assms by (auto simp: same_queues_def placement_def map_option_case split: option.splits)

lemma same_queues_sleep_list [simp]: "same_queues st (st\<lparr>sleep_list := x\<rparr>)"
  by (auto simp: same_queues_def)

section \<open>What the queues stand for\<close>

record sched_view =
  runs :: "nat \<Rightarrow> u64 list"
  sleeping :: "u64 list"
  infos :: "u64 \<rightharpoonup> thread"
  place :: "nat \<Rightarrow> nat option"

definition sleepers :: "'a sched_state_scheme \<Rightarrow> u64 list" where
  "sleepers st = (case sleep_list st of None \<Rightarrow> [] | Some l \<Rightarrow> waiting l)"

definition info :: "thread \<Rightarrow> thread" where
  "info th = th\<lparr>th_handle := None\<rparr>"

text \<open>The run queue of every processor, the sleeping threads in the order of their list, the threads without their handles, and which processor an id names.\<close>

definition view :: "'a sched_state_scheme \<Rightarrow> sched_view" where
  "view st = \<lparr>runs = (\<lambda>c. if c < length (cpus st) then run_queue c st else []), sleeping = sleepers st,
     infos = (\<lambda>t. map_option info (threads st t)), place = (\<lambda>i. get_cpu_local i (cpus st))\<rparr>"

text \<open>
  The invariant: the queues are sound, and a sleeping thread is in the sleep list once, has no entity and sits on a processor that
  can take it back.
\<close>

definition view_ok :: "sched_view \<Rightarrow> bool" where
  "view_ok v \<longleftrightarrow> distinct (sleeping v) \<and> infos v 0 = None \<and> (\<forall>t th. infos v t = Some th \<longrightarrow> length (actions (th_tcb th)) = 32) \<and>
     (\<forall>t\<in>set (sleeping v). (\<exists>th c. infos v t = Some th \<and> place v (cpu_id th) = Some c) \<and> (\<forall>c. t \<notin> set (runs v c)))"

definition sleep_ok :: "'a sched_state_scheme \<Rightarrow> bool" where
  "sleep_ok st \<longleftrightarrow> sched_ok st \<and> (\<forall>l. sleep_list st = Some l \<longrightarrow> queue_ok l) \<and> view_ok (view st)"

lemma info_simps [simp]:
  "info (info th) = info th" "info (th\<lparr>th_handle := e\<rparr>) = info th" "cpu_id (info th) = cpu_id th" "th_tcb (info th) = th_tcb th"
  "sleep_deadline (info th) = sleep_deadline th" "block_code (info th) = block_code th" "th_handle (info th) = None"
  by (simp_all add: info_def)

lemma length_signal_init: "length signal_init = 32"
  by (simp add: signal_init_def)

lemma pending_quick_total:
  assumes "length (actions task) = 32" "\<forall>i\<in>set sigs. 1 \<le> i \<and> i \<le> 32"
  shows "pending_quick_loop signal_init sigs task \<noteq> None"
  using assms(2)
proof (induction sigs)
  case (Cons i sigs)
  then have "nat (i - 1) < 32" by auto
  then show ?case using Cons assms(1) length_signal_init by auto
qed simp

definition pending :: "thread \<Rightarrow> bool" where
  "pending th \<longleftrightarrow> signals_pending_quick signal_init (th_tcb th) = Some True"

lemma pending_spec: "length (actions (th_tcb th)) = 32 \<Longrightarrow> signals_pending_quick signal_init (th_tcb th) = Some (pending th)"
  using pending_quick_total [of "th_tcb th" all_signals] by (auto simp: pending_def signals_pending_quick_def all_signals_def)

lemma run_queue_view: "sched_ok st \<Longrightarrow> t \<in> set (runs (view st) c) \<longleftrightarrow>
    (\<exists>th. threads st t = Some th \<and> th_handle th \<noteq> None \<and> get_cpu_local (cpu_id th) (cpus st) = Some c)"
  using in_run_queue [of st c t] get_cpu_localD(1) by (fastforce simp: view_def)

lemma add_view:
  assumes "sched_ok st" "threads st t = Some th" "th_handle th = None" "get_cpu_local (cpu_id th) (cpus st) = Some c"
  obtains st' where "add_rrs_entity True True t (Some c) st = Some st'" "sched_ok st'" "sleep_list st' = sleep_list st"
    "threads st' = (threads st)(t \<mapsto> th\<lparr>th_handle := Some (next_entity st)\<rparr>)"
    "view st' = (view st)\<lparr>runs := (runs (view st))(c := runs (view st) c @ [t])\<rparr>"
proof -
  obtain st' where st': "add_rrs_entity True True t (Some c) st = Some st'" "sched_ok st'" "length (cpus st') = length (cpus st)"
    "threads st' = (threads st)(t \<mapsto> th\<lparr>th_handle := Some (next_entity st)\<rparr>)" "sleep_list st' = sleep_list st"
    "\<And>i. get_cpu_local i (cpus st') = get_cpu_local i (cpus st)"
    "\<And>k. k < length (cpus st) \<Longrightarrow> run_queue k st' = (if k = c then run_queue c st @ [t] else run_queue k st)"
    using add_spec [OF assms] by metis
  have "view st' = (view st)\<lparr>runs := (runs (view st))(c := runs (view st) c @ [t])\<rparr>"
    using st'(3-7) assms(2) get_cpu_localD(1) [OF assms(4)] by (auto simp: view_def sleepers_def fun_eq_iff)
  then show ?thesis using that st' by blast
qed

lemma block_view:
  assumes "sched_ok st" "threads st t = Some th" "t \<noteq> 0"
  obtains st' where "sleep_block_task t st = Some st'" "sched_ok st'" "sleep_list st' = sleep_list st"
    "threads st' = (threads st)(t \<mapsto> th\<lparr>th_handle := None\<rparr>)" "view st' = (view st)\<lparr>runs := \<lambda>k. remove1 t (runs (view st) k)\<rparr>"
proof (cases "th_handle th")
  case None
  then have "t \<notin> set (runs (view st) k)" for k using run_queue_view [OF assms(1)] assms(2) by auto
  then have "view st = (view st)\<lparr>runs := \<lambda>k. remove1 t (runs (view st) k)\<rparr>" by (simp add: remove1_idem)
  moreover have "sleep_block_task t st = Some st"
    using None assms(2) by (simp add: sleep_block_task_def local_of_def remove_rrs_entity_def)
  moreover have "threads st = (threads st)(t \<mapsto> th\<lparr>th_handle := None\<rparr>)" using None assms(2) by (cases th) (auto simp: fun_eq_iff)
  ultimately show ?thesis using that [of st] assms(1) by blast
next
  case (Some e)
  then obtain c where c: "get_cpu_local (cpu_id th) (cpus st) = Some c" using sched_okD(5) [OF assms(1,2)] by blast
  obtain st' where st': "remove_rrs_entity t (Some c) st = Some st'" "sched_ok st'" "length (cpus st') = length (cpus st)"
    "threads st' = (threads st)(t \<mapsto> th\<lparr>th_handle := None\<rparr>)" "sleep_list st' = sleep_list st"
    "\<And>i. get_cpu_local i (cpus st') = get_cpu_local i (cpus st)" "\<And>k. k < length (cpus st) \<Longrightarrow> run_queue k st' = remove1 t (run_queue k st)"
    using remove_spec [OF assms(1,2) Some c assms(3)] by metis
  have "view st' = (view st)\<lparr>runs := \<lambda>k. remove1 t (runs (view st) k)\<rparr>"
    using st'(3-7) assms(2) by (auto simp: view_def sleepers_def fun_eq_iff)
  then show ?thesis using that [of st'] st' c assms(2) by (simp add: sleep_block_task_def local_of_def)
qed

lemma view_update:
  assumes "sched_ok st" "threads st t = Some th" "th_handle th' = th_handle th" "th_handle th \<noteq> None \<Longrightarrow> cpu_id th' = cpu_id th"
  shows "sched_ok (st\<lparr>threads := (threads st)(t \<mapsto> th')\<rparr>)"
    "view (st\<lparr>threads := (threads st)(t \<mapsto> th')\<rparr>) = (view st)\<lparr>infos := (infos (view st))(t \<mapsto> info th')\<rparr>"
proof -
  have same: "same_queues st (st\<lparr>threads := (threads st)(t \<mapsto> th')\<rparr>)" using assms(2-4) by (rule same_queues_update)
  then show "sched_ok (st\<lparr>threads := (threads st)(t \<mapsto> th')\<rparr>)" using assms(1) by (rule same_queues_ok)
  show "view (st\<lparr>threads := (threads st)(t \<mapsto> th')\<rparr>) = (view st)\<lparr>infos := (infos (view st))(t \<mapsto> info th')\<rparr>"
    using same_queues_views(2) [OF same] by (auto simp: view_def sleepers_def fun_eq_iff)
qed

lemma view_sleep_list:
  assumes "sched_ok st"
  shows "sched_ok (st\<lparr>sleep_list := Some l\<rparr>)" "view (st\<lparr>sleep_list := Some l\<rparr>) = (view st)\<lparr>sleeping := waiting l\<rparr>"
proof -
  show "sched_ok (st\<lparr>sleep_list := Some l\<rparr>)" using same_queues_sleep_list assms by (rule same_queues_ok)
  show "view (st\<lparr>sleep_list := Some l\<rparr>) = (view st)\<lparr>sleeping := waiting l\<rparr>"
    using same_queues_views(2) [OF same_queues_sleep_list [of st "Some l"]] by (auto simp: view_def sleepers_def fun_eq_iff)
qed

section \<open>The abstract scheduler\<close>

definition sleep_info :: "u64 \<Rightarrow> thread \<Rightarrow> thread" where
  "sleep_info deadline th = set_status T_WAIT (th\<lparr>block_code := scheduler_block_pending, sleep_deadline := deadline\<rparr>)"

definition wake_info :: "thread \<Rightarrow> thread" where
  "wake_info th = set_status T_START (th\<lparr>sleep_deadline := 0, block_code :=
     if block_code th = scheduler_block_pending then if pending th then - EINTR else ETIMEDOUT else block_code th\<rparr>)"

definition unblock_info :: "int \<Rightarrow> thread \<Rightarrow> thread" where
  "unblock_info code th = set_status T_START (th\<lparr>sleep_deadline := 0, block_code := code\<rparr>)"

definition due :: "u64 \<Rightarrow> sched_view \<Rightarrow> u64 \<Rightarrow> bool" where
  "due now v t \<longleftrightarrow> sleep_deadline (the (infos v t)) \<le> now \<or> pending (the (infos v t))"

definition home :: "sched_view \<Rightarrow> u64 \<Rightarrow> nat" where
  "home v t = the (place v (cpu_id (the (infos v t))))"

text \<open>A sleeping thread becomes runnable, behind the threads its processor already has.\<close>

definition view_wake :: "(thread \<Rightarrow> thread) \<Rightarrow> u64 \<Rightarrow> sched_view \<Rightarrow> sched_view" where
  "view_wake f t v = v\<lparr>runs := (runs v)(home v t := runs v (home v t) @ [t]), sleeping := remove1 t (sleeping v),
     infos := (infos v)(t \<mapsto> f (the (infos v t)))\<rparr>"

definition keeps :: "(thread \<Rightarrow> thread) \<Rightarrow> bool" where
  "keeps f \<longleftrightarrow> (\<forall>th. th_handle (f th) = th_handle th \<and> cpu_id (f th) = cpu_id th \<and> actions (th_tcb (f th)) = actions (th_tcb th) \<and>
     f (info th) = info (f th))"

lemma keeps_infos [simp]: "keeps (sleep_info d)" "keeps wake_info" "keeps (unblock_info code)"
  by (simp_all add: keeps_def sleep_info_def wake_info_def unblock_info_def set_status_def info_def pending_def)

lemma view_ok_wake:
  assumes "view_ok v" "t \<in> set (sleeping v)" "keeps f"
  shows "view_ok (view_wake f t v)"
  using assms by (auto simp: view_ok_def view_wake_def keeps_def)

lemma woken_thread_spec: "length (actions (th_tcb th)) = 32 \<Longrightarrow> woken_thread th = Some (wake_info th)"
  using pending_spec [of th] by (simp add: woken_thread_def wake_info_def Let_def)

lemma sleeper:
  assumes "sleep_ok st" "t \<in> set (sleepers st)"
  obtains th c where "threads st t = Some th" "th_handle th = None" "get_cpu_local (cpu_id th) (cpus st) = Some c"
    "length (actions (th_tcb th)) = 32" "home (view st) t = c" "t \<noteq> 0" "the (infos (view st) t) = info th"
proof -
  have v: "view_ok (view st)" and s: "sched_ok st" using assms(1) by (simp_all add: sleep_ok_def)
  have "t \<in> set (sleeping (view st))" using assms(2) by (simp add: view_def)
  then obtain i c where i: "infos (view st) t = Some i" "place (view st) (cpu_id i) = Some c" "\<And>c. t \<notin> set (runs (view st) c)"
    using v by (auto simp: view_ok_def)
  then obtain th where th: "threads st t = Some th" "i = info th" by (auto simp: view_def)
  then have c: "get_cpu_local (cpu_id th) (cpus st) = Some c" using i(2) by (simp add: view_def)
  have "th_handle th = None" using i(3) th c run_queue_view [OF s, of t c] by auto
  moreover have "length (actions (th_tcb i)) = 32" using v i(1) unfolding view_ok_def by blast
  moreover have "t \<noteq> 0" using v i(1) by (auto simp: view_ok_def)
  ultimately show ?thesis using that th c i(1,2) by (simp add: home_def)
qed

lemma wake_sleeper:
  assumes "sleep_ok st" "sleep_list st = Some l" "i < cow_size l" "t = waiting l ! i" "threads st t = Some th" "keeps f"
  obtains x l' st' where "cow_list_remove (\<lambda>_. True) True l i = Some (x, l')"
    "sleep_wake_task True t (st\<lparr>sleep_list := Some l', threads := (threads st)(t \<mapsto> f th)\<rparr>) = Some st'" "sleep_ok st'"
    "sleep_list st' = Some l'" "waiting l' = take i (waiting l) @ drop (Suc i) (waiting l)" "view st' = view_wake f t (view st)"
proof -
  have q: "queue_ok l" and s: "sched_ok st" and v: "view_ok (view st)" using assms(1,2) by (auto simp: sleep_ok_def)
  have sl: "sleepers st = waiting l" by (simp add: sleepers_def assms(2))
  then have t: "t \<in> set (sleepers st)" using assms(3,4) by simp
  obtain c where c: "th_handle th = None" "get_cpu_local (cpu_id th) (cpus st) = Some c" "home (view st) t = c" "the (infos (view st) t) = info th"
    using sleeper [OF assms(1) t] assms(5) by auto
  obtain x l' where l': "cow_list_remove (\<lambda>_. True) True l i = Some (x, l')" "queue_ok l'" "waiting l' = take i (waiting l) @ drop (Suc i) (waiting l)"
    using queue_remove [OF q assms(3)] .
  have rem: "waiting l' = remove1 t (waiting l)"
  proof -
    have split: "waiting l = take i (waiting l) @ t # drop (Suc i) (waiting l)" using assms(3,4) by (simp add: id_take_nth_drop)
    have "distinct (take i (waiting l) @ t # drop (Suc i) (waiting l))" unfolding split [symmetric] using v sl by (simp add: view_ok_def view_def)
    then have "t \<notin> set (take i (waiting l))" by simp
    then have "remove1 t (take i (waiting l) @ t # drop (Suc i) (waiting l)) = take i (waiting l) @ drop (Suc i) (waiting l)" by (simp add: remove1_append)
    then show ?thesis using l'(3) split by simp
  qed
  let ?st1 = "st\<lparr>sleep_list := Some l'\<rparr>"
  let ?st2 = "?st1\<lparr>threads := (threads ?st1)(t \<mapsto> f th)\<rparr>"
  have s1: "sched_ok ?st1" "view ?st1 = (view st)\<lparr>sleeping := waiting l'\<rparr>" using view_sleep_list [OF s] by blast+
  have f: "th_handle (f th) = None" "cpu_id (f th) = cpu_id th" "f (info th) = info (f th)" using assms(6) c(1) by (simp_all add: keeps_def)
  have s2: "sched_ok ?st2" "view ?st2 = (view st)\<lparr>sleeping := waiting l', infos := (infos (view st))(t \<mapsto> info (f th))\<rparr>"
    using view_update [OF s1(1), of t th "f th"] assms(5) f c(1) by (simp_all add: s1(2))
  obtain st' where st': "add_rrs_entity True True t (Some c) ?st2 = Some st'" "sched_ok st'" "sleep_list st' = Some l'"
    "view st' = (view ?st2)\<lparr>runs := (runs (view ?st2))(c := runs (view ?st2) c @ [t])\<rparr>"
    using add_view [OF s2(1), of t "f th" c] f c(2) by auto
  have vw: "view st' = view_wake f t (view st)"
    unfolding st'(4) s2(2) view_wake_def using c rem f sl by (cases "view st") (simp add: view_def)
  have "sleep_ok st'" unfolding sleep_ok_def vw
    using st'(2,3) l'(2) view_ok_wake [OF v _ assms(6)] t by (simp add: view_def)
  moreover have "sleep_wake_task True t ?st2 = Some st'" using st'(1) f c(2) by (simp add: sleep_wake_task_def local_of_def)
  ultimately show ?thesis using that l' st'(3) vw by simp
qed

lemma pending_info [simp]: "pending (info th) = pending th"
  by (simp add: pending_def)

lemma check_loop_spec:
  assumes "sleep_ok st" "sleep_list st = Some l" "waiting l = pre @ post" "i = length pre"
  shows "\<exists>st'. check_loop True now i st = Some st' \<and> sleep_ok st' \<and>
    view st' = fold (view_wake wake_info) (filter (due now (view st)) post) (view st)"
  using assms
proof (induction post arbitrary: pre l st i)
  case Nil
  then have "i = cow_size l" using length_waiting [of l] by simp
  then show ?case using Nil by (subst check_loop.simps) simp
next
  case (Cons t post)
  have i: "i < cow_size l" "waiting l ! i = t" using Cons.prems(3,4) length_waiting [of l] by (simp_all del: length_waiting)
  have q: "queue_ok l" using Cons.prems(1,2) by (simp add: sleep_ok_def)
  have "t \<in> set (sleepers st)" using Cons.prems(2,3) by (simp add: sleepers_def)
  from sleeper [OF Cons.prems(1) this]
  obtain th where th: "threads st t = Some th" "length (actions (th_tcb th)) = 32" "the (infos (view st) t) = info th" by metis
  have due: "due now (view st) t \<longleftrightarrow> sleep_deadline th \<le> now \<or> pending th" by (simp add: due_def th(3))
  show ?case
  proof (cases "due now (view st) t")
    case False
    then have "check_loop True now i st = check_loop True now (i + 1) st"
      using Cons.prems(2) i queue_get [OF q i(1)] th pending_spec [OF th(2)] due by (subst check_loop.simps) simp
    then show ?thesis using Cons.IH [OF Cons.prems(1,2), of "pre @ [t]" "i + 1"] Cons.prems(3,4) False by simp
  next
    case True
    obtain x l' st1 where st1: "cow_list_remove (\<lambda>_. True) True l i = Some (x, l')"
      "sleep_wake_task True t (st\<lparr>sleep_list := Some l', threads := (threads st)(t \<mapsto> wake_info th)\<rparr>) = Some st1" "sleep_ok st1"
      "sleep_list st1 = Some l'" "waiting l' = take i (waiting l) @ drop (Suc i) (waiting l)" "view st1 = view_wake wake_info t (view st)"
      using wake_sleeper [OF Cons.prems(1,2) i(1) i(2) [symmetric] th(1) keeps_infos(2)] by metis
    have w: "waiting l' = pre @ post" using st1(5) Cons.prems(3,4) by simp
    have "check_loop True now i st = check_loop True now i st1"
      using Cons.prems(2) i queue_get [OF q i(1)] th pending_spec [OF th(2)] due True st1(1,2) woken_thread_spec [OF th(2)]
      by (subst check_loop.simps) auto
    moreover have "distinct (pre @ t # post)" using Cons.prems by (simp add: sleep_ok_def view_ok_def view_def sleepers_def)
    then have "filter (due now (view st1)) post = filter (due now (view st)) post"
      using st1(6) by (intro filter_cong) (auto simp: due_def view_wake_def)
    ultimately show ?thesis using Cons.IH [OF st1(3,4) w Cons.prems(4)] True st1(6) by simp
  qed
qed

text \<open>The threads \<open>ts\<close> of the sleep list all become runnable.\<close>

definition view_wakes :: "(thread \<Rightarrow> thread) \<Rightarrow> u64 list \<Rightarrow> sched_view \<Rightarrow> sched_view" where
  "view_wakes f ts v = v\<lparr>runs := \<lambda>c. runs v c @ filter (\<lambda>t. home v t = c) ts, sleeping := filter (\<lambda>t. t \<notin> set ts) (sleeping v),
     infos := \<lambda>t. if t \<in> set ts then Some (f (the (infos v t))) else infos v t\<rparr>"

lemma fold_view_wake:
  assumes "distinct ts" "distinct (sleeping v)"
  shows "fold (view_wake f) ts v = view_wakes f ts v"
  using assms
proof (induction ts arbitrary: v)
  case Nil
  then show ?case by (cases v) (simp add: view_wakes_def)
next
  case (Cons t ts)
  let ?v = "view_wake f t v"
  have d: "distinct (sleeping ?v)" using Cons.prems(2) by (simp add: view_wake_def)
  have h: "filter (\<lambda>u. home ?v u = c) ts = filter (\<lambda>u. home v u = c) ts" for c
    using Cons.prems(1) by (intro filter_cong) (auto simp: home_def view_wake_def)
  have s: "filter (\<lambda>u. u \<notin> set ts) (sleeping ?v) = filter (\<lambda>u. u \<notin> set (t # ts)) (sleeping v)"
    using Cons.prems(2) by (auto simp: view_wake_def distinct_remove1_removeAll removeAll_filter_not_eq intro!: filter_cong)
  have n: "(if u \<in> set ts then Some (f (the (infos ?v u))) else infos ?v u) = (if u \<in> set (t # ts) then Some (f (the (infos v u))) else infos v u)" for u
    using Cons.prems(1) by (auto simp: view_wake_def)
  have "fold (view_wake f) (t # ts) v = view_wakes f ts ?v" using Cons.IH [OF _ d] Cons.prems(1) by simp
  also have "\<dots> = view_wakes f (t # ts) v"
    unfolding view_wakes_def h s n by (simp add: view_wake_def fun_eq_iff)
  finally show ?case .
qed

definition view_check :: "u64 \<Rightarrow> sched_view \<Rightarrow> sched_view" where
  "view_check now v = view_wakes wake_info (filter (due now v) (sleeping v)) v"

lemma check_sleep_spec:
  assumes "sleep_ok st"
  shows "\<exists>st'. scheduler_check_sleep True True now st = Some st' \<and> sleep_ok st' \<and> view st' = view_check now (view st)"
proof -
  have d: "distinct (sleeping (view st))" using assms by (simp add: sleep_ok_def view_ok_def)
  have idle: "view_check now (view st) = view st" if "sleeping (view st) = []"
    using that by (cases "view st") (simp add: view_check_def view_wakes_def)
  show ?thesis
  proof (cases "sleep_list st")
    case None
    then show ?thesis using idle assms by (simp add: scheduler_check_sleep_def view_def sleepers_def)
  next
    case (Some l)
    then have s: "sleeping (view st) = waiting l" by (simp add: view_def sleepers_def)
    show ?thesis
    proof (cases "cow_size l = 0")
      case True
      then have "waiting l = []" by (metis length_waiting length_0_conv)
      then show ?thesis using True Some idle assms s by (simp add: scheduler_check_sleep_def)
    next
      case False
      from check_loop_spec [OF assms Some, of "[]" "waiting l" 0 now] show ?thesis
        using False Some s d by (simp add: scheduler_check_sleep_def view_check_def fold_view_wake)
    qed
  qed
qed

lemma view_sleepers [simp]: "sleeping (view st) = sleepers st"
  by (simp add: view_def)

lemma view_infos: "infos (view st) t = map_option info (threads st t)"
  by (simp add: view_def)

lemma view_place [simp]: "place (view st) i = get_cpu_local i (cpus st)"
  by (simp add: view_def)

definition view_unblock :: "u64 \<Rightarrow> int \<Rightarrow> sched_view \<Rightarrow> sched_view" where
  "view_unblock t code v = (if t \<in> set (sleeping v) then view_wake (unblock_info code) t v else v)"

lemma unblock_spec:
  assumes "sleep_ok st"
  shows "\<exists>st'. scheduler_unblock True t code st = Some st' \<and> sleep_ok st' \<and> view st' = view_unblock t code (view st)"
proof (cases "t \<in> set (sleepers st)")
  case False
  have "scheduler_unblock True t code st = Some st"
  proof (cases "sleep_list st")
    case (Some l)
    then have q: "queue_ok l" "t \<notin> set (waiting l)" using assms False by (auto simp: sleep_ok_def sleepers_def)
    then have "find (\<lambda>i. waiting l ! i = t) [0..<cow_size l] = None" using find_upt_remove1 [where xs = "waiting l" and t = t]
      by (auto split: option.splits)
    then have "find_waiter l t [0..<cow_size l] = Some None" using find_waiter_spec [OF q(1), of "[0..<cow_size l]" t] by simp
    then show ?thesis using Some by (simp add: scheduler_unblock_def sleep_remove_task_locked_def)
  qed (simp add: scheduler_unblock_def sleep_remove_task_locked_def)
  then show ?thesis using False assms by (simp add: view_unblock_def)
next
  case True
  then obtain l where l: "sleep_list st = Some l" "t \<in> set (waiting l)" by (cases "sleep_list st") (auto simp: sleepers_def)
  have q: "queue_ok l" using assms l(1) by (simp add: sleep_ok_def)
  obtain i where i: "find (\<lambda>i. waiting l ! i = t) [0..<cow_size l] = Some i" "i < cow_size l" "waiting l ! i = t"
    using find_upt_remove1 [where xs = "waiting l" and t = t] l(2) by (auto split: option.splits)
  obtain th where th: "threads st t = Some th" "t \<noteq> 0" using sleeper [OF assms True] by metis
  obtain x l' st' where st': "cow_list_remove (\<lambda>_. True) True l i = Some (x, l')"
    "sleep_wake_task True t (st\<lparr>sleep_list := Some l', threads := (threads st)(t \<mapsto> unblock_info code th)\<rparr>) = Some st'" "sleep_ok st'"
    "view st' = view_wake (unblock_info code) t (view st)"
    using wake_sleeper [OF assms l(1) i(2) i(3) [symmetric] th(1) keeps_infos(3) [of code]] by metis
  have "scheduler_unblock True t code st = Some st'"
    using l(1) find_waiter_spec [OF q, of "[0..<cow_size l]" t] i st'(1,2) th
    by (simp add: scheduler_unblock_def sleep_remove_task_locked_def upd_thread_def unblock_info_def)
  then show ?thesis using st' True by (simp add: view_unblock_def)
qed

definition view_sleep :: "u64 \<Rightarrow> u64 \<Rightarrow> sched_view \<Rightarrow> sched_view" where
  "view_sleep deadline t v = v\<lparr>runs := \<lambda>c. remove1 t (runs v c), sleeping := sleeping v @ [t],
     infos := (infos v)(t \<mapsto> sleep_info deadline (the (infos v t)))\<rparr>"

lemma sleep_spec:
  assumes "sleep_ok st" "t \<notin> set (sleepers st)" "threads st t = Some th" "get_cpu_local (cpu_id th) (cpus st) = Some c"
  shows "\<exists>st'. start_sleep True deadline t st = Some st' \<and> sleep_ok st' \<and> view st' = view_sleep deadline t (view st)"
proof -
  have s: "sched_ok st" and v: "view_ok (view st)" using assms(1) by (simp_all add: sleep_ok_def)
  obtain l where l: "(case sleep_list st of None \<Rightarrow> cow_list_create True True | Some l \<Rightarrow> Some l) = Some l" "queue_ok l" "waiting l = sleepers st"
  proof (cases "sleep_list st")
    case None
    obtain l :: "u64 cow_arraylist" where l: "cow_list_create True True = Some l" by (simp add: cow_list_create_def)
    then have "queue_ok l" "waiting l = []" using cow_list_create_ok [of l] by (auto simp: queue_ok_def waiting_def)
    then show ?thesis using that l None by (simp add: sleepers_def)
  next
    case (Some l)
    then show ?thesis using that [of l] assms(1) by (simp add: sleepers_def sleep_ok_def)
  qed
  obtain l' where l': "cow_list_add True True l (Some t) = Some (cow_size l, l')" "queue_ok l'" "waiting l' = waiting l @ [t]"
    using queue_add [OF l(2)] .
  let ?th = "sleep_info deadline th"
  let ?st1 = "st\<lparr>threads := (threads st)(t \<mapsto> ?th)\<rparr>"
  have f: "th_handle ?th = th_handle th" "cpu_id ?th = cpu_id th" "sleep_info deadline (info th) = info ?th" "actions (th_tcb ?th) = actions (th_tcb th)"
    using keeps_infos(1) [of deadline] unfolding keeps_def by blast+
  have s1: "sched_ok ?st1" "view ?st1 = (view st)\<lparr>infos := (infos (view st))(t \<mapsto> info ?th)\<rparr>"
    using view_update [OF s assms(3) f(1)] f(2) by blast+
  have s2: "sched_ok (?st1\<lparr>sleep_list := Some l'\<rparr>)" "view (?st1\<lparr>sleep_list := Some l'\<rparr>) = (view ?st1)\<lparr>sleeping := waiting l'\<rparr>"
    using view_sleep_list [OF s1(1)] by blast+
  have t0: "t \<noteq> 0" using v assms(3) by (auto simp: view_ok_def view_infos)
  obtain st' where st': "sleep_block_task t (?st1\<lparr>sleep_list := Some l'\<rparr>) = Some st'" "sched_ok st'" "sleep_list st' = Some l'"
    "view st' = (view (?st1\<lparr>sleep_list := Some l'\<rparr>))\<lparr>runs := \<lambda>k. remove1 t (runs (view (?st1\<lparr>sleep_list := Some l'\<rparr>)) k)\<rparr>"
    using block_view [OF s2(1), of t ?th] t0 by auto
  have vw: "view st' = view_sleep deadline t (view st)"
    unfolding st'(4) s2(2) s1(2) view_sleep_def using l'(3) l(3) assms(3) f(3) by (simp add: view_infos)
  have "distinct (runs (view st) c)" for c using run_queue_distinct [OF s] by (simp add: view_def)
  moreover have "length (actions (th_tcb (info th))) = 32" using v assms(3) unfolding view_ok_def view_infos by blast
  ultimately have "view_ok (view_sleep deadline t (view st))"
    using v assms f by (auto simp: view_ok_def view_sleep_def view_infos)
  then have "sleep_ok st'" unfolding sleep_ok_def vw using st'(2,3) l'(2) by simp
  moreover have "start_sleep True deadline t st = Some st'"
    using l(1) l'(1) st'(1) assms(3) by (simp add: start_sleep_def upd_thread_def sleep_info_def)
  ultimately show ?thesis using vw by blast
qed

lemma sleepers_cong: "sleep_list st' = sleep_list st \<Longrightarrow> sleepers st' = sleepers st"
  by (simp add: sleepers_def)

lemma request_block_spec:
  assumes "sleep_ok st" "threads st t = Some th"
  shows "\<exists>st'. serve_request True (Block t) st = Some st' \<and> sleep_ok st' \<and>
    view st' = (view st)\<lparr>runs := \<lambda>c. remove1 t (runs (view st) c)\<rparr>"
proof -
  have v: "view_ok (view st)" using assms(1) by (simp add: sleep_ok_def)
  then have "t \<noteq> 0" using assms(2) by (auto simp: view_ok_def view_infos)
  then obtain st' where st': "sleep_block_task t st = Some st'" "sched_ok st'" "sleep_list st' = sleep_list st"
    "view st' = (view st)\<lparr>runs := \<lambda>k. remove1 t (runs (view st) k)\<rparr>"
    using block_view [OF _ assms(2)] assms(1) by (auto simp: sleep_ok_def)
  have "view_ok (view st')" unfolding st'(4) using v notin_set_remove1 by (fastforce simp: view_ok_def)
  then show ?thesis using st' assms(1) by (simp add: serve_request_def sleep_block_task_def sleep_ok_def)
qed

lemma place_thread:
  assumes "sleep_ok st" "threads st t = Some th" "t \<notin> set (sleepers st)" "\<And>c. t \<notin> set (runs (view st) c)"
    "get_cpu_local (cpu_id th) (cpus st) = Some c"
  shows "\<exists>st'. add_rrs_entity True True t (Some c) st = Some st' \<and> sleep_ok st' \<and>
    view st' = (view st)\<lparr>runs := (runs (view st))(c := runs (view st) c @ [t])\<rparr>"
proof -
  have s: "sched_ok st" and v: "view_ok (view st)" using assms(1) by (simp_all add: sleep_ok_def)
  have "th_handle th = None" using run_queue_view [OF s, of t c] assms(2,4,5) by auto
  then obtain st' where st': "add_rrs_entity True True t (Some c) st = Some st'" "sched_ok st'" "sleep_list st' = sleep_list st"
    "view st' = (view st)\<lparr>runs := (runs (view st))(c := runs (view st) c @ [t])\<rparr>"
    using add_view [OF s assms(2) _ assms(5)] by metis
  have "view_ok (view st')" unfolding st'(4) using v assms(3) by (auto simp: view_ok_def)
  then show ?thesis using st' assms(1) by (simp add: sleep_ok_def)
qed

lemma request_wake_spec:
  assumes "sleep_ok st" "threads st t = Some th" "t \<notin> set (sleepers st)" "\<And>c. t \<notin> set (runs (view st) c)"
    "get_cpu_local (cpu_id th) (cpus st) = Some c"
  shows "\<exists>st'. serve_request True (Wake t) st = Some st' \<and> sleep_ok st' \<and>
    view st' = (view st)\<lparr>runs := (runs (view st))(c := runs (view st) c @ [t])\<rparr>"
  using place_thread [OF assms] assms(2,5) by (simp add: serve_request_def local_of_def)

lemma idle_pick:
  assumes "cpu_ok c st" "c < length (cpus st)" "run_queue c st = []"
  shows "\<exists>t. rrs_pick_next_task c st = Some (t, st)"
proof -
  have "tl (run_entities c st) = []" using assms(3) by (simp add: run_queue_def)
  then have e: "run_entities c st = [rrs_idle (cpu_rrs (cpus st ! c))]"
    using assms(1) by (cases "run_entities c st") (auto simp: cpu_ok_def)
  then have "lq_size (sched_queue (cpu_rrs (cpus st ! c))) = 1"
    using assms(1) by (auto simp: cpu_ok_def lq_wf_def run_entities_def lq_data_def queue_of_def)
  moreover obtain t n where "entities st (rrs_idle (cpu_rrs (cpus st ! c))) = Some \<lparr>se_thread = t, se_node = Some n\<rparr>"
    by (rule entity_at [OF assms(1), of 0]) (use e in auto)
  ultimately show ?thesis using assms(2) by (simp add: rrs_pick_next_task_def)
qed

lemma pick_view:
  assumes "sleep_ok st" "get_cpu_local i (cpus st) = Some c"
  shows "\<exists>t st'. scheduler_pick_next i st = Some (t, st') \<and> sleep_ok st' \<and> view st' = view st"
proof -
  have s: "sched_ok st" using assms(1) by (simp add: sleep_ok_def)
  have c: "c < length (cpus st)" using get_cpu_localD(1) [OF assms(2)] .
  show ?thesis
  proof (cases "run_queue c st = []")
    case True
    then obtain t where "rrs_pick_next_task c st = Some (t, st)" using idle_pick [OF sched_okD(1) [OF s c] c] by blast
    then show ?thesis using assms c by (auto simp: scheduler_pick_next_def)
  next
    case False
    obtain t st' where st': "rrs_pick_next_task c st = Some (t, st')" "sched_ok st'" "threads st' = threads st"
      "sleep_list st' = sleep_list st" "length (cpus st') = length (cpus st)" "\<And>k. run_queue k st' = run_queue k st"
      "\<And>i. get_cpu_local i (cpus st') = get_cpu_local i (cpus st)"
      using pick_sched_ok [OF s c False] by metis
    have v: "view st' = view st" using st'(3-7) by (simp add: view_def sleepers_def fun_eq_iff)
    then have "sleep_ok st'" using assms(1) st'(2,4) by (simp add: sleep_ok_def)
    then show ?thesis using st'(1,5) c v assms(2) by (simp add: scheduler_pick_next_def)
  qed
qed

lemma same_queues_cpu:
  assumes "c < length (cpus st)" "cpu_rrs u = cpu_rrs (cpus st ! c)" "cl_id u = cl_id (cpus st ! c)" "enable u = enable (cpus st ! c)"
  shows "same_queues st (st\<lparr>cpus := (cpus st)[c := u]\<rparr>)"
  unfolding same_queues_def using assms by (auto simp: nth_list_update)

lemma add_task_spec:
  assumes "sleep_ok st" "threads st t = Some th" "t \<notin> set (sleepers st)" "\<And>c. t \<notin> set (runs (view st) c)"
    "th_handle th = None" "get_cpu_local i (cpus st) = Some c"
  shows "\<exists>st'. scheduler_add_task_cpu True t prio (Some c) st = Some (True, st') \<and> sleep_ok st' \<and>
    view st' = (view st)\<lparr>runs := (runs (view st))(c := runs (view st) c @ [t]),
      infos := (infos (view st))(t \<mapsto> (info th)\<lparr>th_prio := prio, cpu_id := i\<rparr>)\<rparr>"
proof -
  have s: "sched_ok st" and v: "view_ok (view st)" using assms(1) by (simp_all add: sleep_ok_def)
  note c = get_cpu_localD [OF assms(6)]
  have t0: "t \<noteq> 0" using v assms(2) by (auto simp: view_ok_def view_infos)
  let ?u = "(cpus st ! c)\<lparr>task_count := task_count (cpus st ! c) + 1\<rparr>"
  let ?st1 = "st\<lparr>cpus := (cpus st)[c := ?u]\<rparr>"
  have q: "same_queues st ?st1" using c(1) by (intro same_queues_cpu) simp_all
  have s1: "sched_ok ?st1" using q s by (rule same_queues_ok)
  have v1: "view ?st1 = view st" using same_queues_views(2) [OF q] by (auto simp: view_def sleepers_def fun_eq_iff)
  let ?th = "th\<lparr>th_prio := prio, cpu_id := i\<rparr>"
  let ?st2 = "?st1\<lparr>threads := (threads ?st1)(t \<mapsto> ?th)\<rparr>"
  have s2: "sched_ok ?st2" "view ?st2 = (view st)\<lparr>infos := (infos (view st))(t \<mapsto> info ?th)\<rparr>"
    using view_update [OF s1, of t th ?th] assms(2,5) by (simp_all add: v1)
  have "length (actions (th_tcb (info th))) = 32" using v assms(2) unfolding view_ok_def view_infos by blast
  then have "view_ok (view ?st2)" unfolding s2(2) using v assms(3) t0 by (auto simp: view_ok_def)
  then have ok2: "sleep_ok ?st2" using s2(1) assms(1) by (simp add: sleep_ok_def)
  have ids: "get_cpu_local i (cpus ?st2) = Some c" using assms(6) by simp
  have "\<exists>st'. add_rrs_entity True True t (Some c) ?st2 = Some st' \<and> sleep_ok st' \<and>
    view st' = (view ?st2)\<lparr>runs := (runs (view ?st2))(c := runs (view ?st2) c @ [t])\<rparr>"
    using assms(3,4) ids s2(2) by (intro place_thread [OF ok2, of t ?th]) (simp_all add: sleepers_def)
  moreover have "info ?th = (info th)\<lparr>th_prio := prio, cpu_id := i\<rparr>" by (cases th) (simp add: info_def)
  moreover have "scheduler_add_task_cpu True t prio (Some c) st = map_option (Pair True) (add_rrs_entity True True t (Some c) ?st2)"
    using c t0 assms(2) by (simp add: scheduler_add_task_cpu_def upd_cpu_def upd_thread_def map_conv_bind_option comp_def)
  ultimately show ?thesis using s2(2) by (cases "view st") auto
qed

section \<open>Refinement\<close>

text \<open>
  The operations on threads, each with what it promises about the view: \<open>S_add t prio i\<close> starts a thread on processor \<open>i\<close>, \<open>S_sleep\<close>
  and \<open>S_check\<close> are the two ends of a sleep, \<open>S_unblock\<close> ends one early, \<open>S_pick\<close> chooses the next thread and \<open>S_request\<close> is the
  futex code taking a thread out of its run queue or putting it back.
\<close>

datatype sched_op = S_add u64 u64 nat | S_sleep u64 u64 | S_check u64 | S_unblock u64 int | S_pick nat | S_request sched_request

fun sched_step :: "sched_op \<Rightarrow> 'a sched_state_scheme \<Rightarrow> 'a sched_state_scheme option" where
  "sched_step (S_add t prio i) st = map_option snd (scheduler_add_task_cpu True t prio (get_cpu_local i (cpus st)) st)"
| "sched_step (S_sleep deadline t) st = start_sleep True deadline t st"
| "sched_step (S_check now) st = scheduler_check_sleep True True now st"
| "sched_step (S_unblock t code) st = scheduler_unblock True t code st"
| "sched_step (S_pick i) st = map_option snd (scheduler_pick_next i st)"
| "sched_step (S_request r) st = serve_request True r st"

fun sched_spec :: "sched_op \<Rightarrow> sched_view \<Rightarrow> sched_view" where
  "sched_spec (S_add t prio i) v = (let c = the (place v i) in
     v\<lparr>runs := (runs v)(c := runs v c @ [t]), infos := (infos v)(t \<mapsto> (the (infos v t))\<lparr>th_prio := prio, cpu_id := i\<rparr>)\<rparr>)"
| "sched_spec (S_sleep deadline t) v = view_sleep deadline t v"
| "sched_spec (S_check now) v = view_check now v"
| "sched_spec (S_unblock t code) v = view_unblock t code v"
| "sched_spec (S_pick i) v = v"
| "sched_spec (S_request (Block t)) v = v\<lparr>runs := \<lambda>c. remove1 t (runs v c)\<rparr>"
| "sched_spec (S_request (Wake t)) v = v\<lparr>runs := (runs v)(home v t := runs v (home v t) @ [t])\<rparr>"

text \<open>A thread that is started, put to sleep or woken exists; one that is started or woken is neither running nor asleep.\<close>

definition parked :: "u64 \<Rightarrow> sched_view \<Rightarrow> bool" where
  "parked t v \<longleftrightarrow> infos v t \<noteq> None \<and> t \<notin> set (sleeping v) \<and> (\<forall>c. t \<notin> set (runs v c))"

fun sched_legal :: "sched_op \<Rightarrow> sched_view \<Rightarrow> bool" where
  "sched_legal (S_add t prio i) v = (parked t v \<and> place v i \<noteq> None)"
| "sched_legal (S_sleep deadline t) v =
     (t \<notin> set (sleeping v) \<and> infos v t \<noteq> None \<and> place v (cpu_id (the (infos v t))) \<noteq> None)"
| "sched_legal (S_check now) v = True"
| "sched_legal (S_unblock t code) v = True"
| "sched_legal (S_pick i) v = (place v i \<noteq> None)"
| "sched_legal (S_request (Block t)) v = (infos v t \<noteq> None)"
| "sched_legal (S_request (Wake t)) v = (parked t v \<and> place v (cpu_id (the (infos v t))) \<noteq> None)"

lemma sched_step_add:
  assumes "sleep_ok st" "sched_legal (S_add t prio i) (view st)"
  shows "\<exists>st'. sched_step (S_add t prio i) st = Some st' \<and> sleep_ok st' \<and> view st' = sched_spec (S_add t prio i) (view st)"
proof -
  obtain th c where a: "threads st t = Some th" "t \<notin> set (sleepers st)" "\<And>k. t \<notin> set (runs (view st) k)" "get_cpu_local i (cpus st) = Some c"
    using assms(2) by (auto simp: parked_def view_infos)
  have s: "sched_ok st" using assms(1) by (simp add: sleep_ok_def)
  have "th_handle th = None" using a(1,3) sched_okD(5) [OF s a(1)] run_queue_view [OF s, of t] by (cases "th_handle th") auto
  from add_task_spec [OF assms(1) a(1,2,3) this a(4), of prio] show ?thesis using a by (auto simp: view_infos Let_def)
qed

lemma sched_step_law:
  assumes "sleep_ok st" "sched_legal op (view st)"
  shows "\<exists>st'. sched_step op st = Some st' \<and> sleep_ok st' \<and> view st' = sched_spec op (view st)"
proof (cases op)
  case (S_add t prio i)
  then show ?thesis using sched_step_add [OF assms(1)] assms(2) by simp
next
  case (S_sleep deadline t)
  then show ?thesis using assms(2) sleep_spec [OF assms(1)] by (auto simp: view_infos)
next
  case (S_check now)
  then show ?thesis using check_sleep_spec [OF assms(1)] by simp
next
  case (S_unblock t code)
  then show ?thesis using unblock_spec [OF assms(1)] by simp
next
  case (S_pick i)
  then show ?thesis using assms(2) pick_view [OF assms(1), of i] by fastforce
next
  case (S_request r)
  show ?thesis
  proof (cases r)
    case (Block t)
    then show ?thesis using S_request assms(2) request_block_spec [OF assms(1)] by (auto simp: view_infos)
  next
    case (Wake t)
    then obtain th c where "threads st t = Some th" "t \<notin> set (sleepers st)" "\<And>c. t \<notin> set (runs (view st) c)"
      "get_cpu_local (cpu_id th) (cpus st) = Some c"
      using S_request assms(2) by (auto simp: parked_def view_infos)
    from request_wake_spec [OF assms(1) this] this(1,4) show ?thesis using S_request Wake by (simp add: home_def view_infos)
  qed
qed

interpretation sch: data_refinement sched_step sched_spec sched_legal sleep_ok view
  by unfold_locales (rule sched_step_law)

section \<open>Properties\<close>

text \<open>
  C2: The scheduler with its entities, queues, handles and block-structured sleep list implements the plain lists of the view:
  every sequence of starts, sleeps, wake-ups by time, signal, call or futex and picks runs without a fault and ends in the state
  the list operations give, in which the invariant holds again.
\<close>

theorem scheduler_refines_lists:
  assumes "sleep_ok st" "sch.legal_ops ops (view st)"
  shows "\<exists>st'. run_ops sched_step ops st = Some st' \<and> sleep_ok st' \<and> view st' = spec_ops sched_spec ops (view st)"
  using assms by (rule sch.run_refines)

lemma example_view: "view example_state = \<lparr>runs = (\<lambda>c. if c = 0 then [2, 3] else []), sleeping = [],
    infos = [1 \<mapsto> example_thread, 2 \<mapsto> example_thread, 3 \<mapsto> example_thread], place = (\<lambda>i. if i = 5 then Some 0 else None)\<rparr>"
  by (auto simp: view_def fun_eq_iff example_defs sleepers_def info_def get_cpu_local_def run_queue_def run_entities_def queue_of_def lq_data_def)

lemma example_sleep_ok: "sleep_ok example_state"
proof -
  have "view_ok (view example_state)" unfolding example_view by (auto simp: view_ok_def example_thread_def)
  moreover have "sched_ok example_state" unfolding sched_ok_def handles_ok_def
    by (auto simp: example_defs cpu_ok_def run_queue_def run_entities_def queue_of_def lq_wf_def lq_data_def get_cpu_local_def split: if_splits)
  moreover have "sleep_list example_state = None" by (simp add: example_defs)
  ultimately show ?thesis by (simp add: sleep_ok_def)
qed

lemma pending_quick_status [simp]: "pending_quick_loop d sigs (task\<lparr>t_status := x\<rparr>) = pending_quick_loop d sigs task"
  by (induction sigs) (simp_all cong: if_cong)

lemma pending_infos [simp]: "pending (sleep_info d th) = pending th" "pending (wake_info th) = pending th"
  by (simp_all add: pending_def signals_pending_quick_def sleep_info_def wake_info_def set_status_def)

lemma example_pending: "\<not> pending example_thread"
proof -
  have "pending_quick_loop d sigs (th_tcb example_thread) = Some False" for d sigs
    by (induction sigs) (simp_all add: example_thread_def)
  then show ?thesis by (simp add: pending_def signals_pending_quick_def)
qed

theorem scheduler_refines_lists_witness:
  "\<exists>st'. run_ops sched_step [S_sleep 100 2, S_pick 5, S_check 50, S_check 200] example_state = Some st' \<and> runs (view st') 0 = [3, 2]"
proof -
  note p = example_pending
  have c: "cpu_id example_thread = 5" by (simp add: example_thread_def)
  have "sch.legal_ops [S_sleep 100 2, S_pick 5, S_check 50, S_check 200] (view example_state)"
    by (simp add: example_view view_sleep_def view_check_def view_wakes_def due_def c)
  from scheduler_refines_lists [OF example_sleep_ok this]
  obtain st' where st': "run_ops sched_step [S_sleep 100 2, S_pick 5, S_check 50, S_check 200] example_state = Some st'"
    "view st' = spec_ops sched_spec [S_sleep 100 2, S_pick 5, S_check 50, S_check 200] (view example_state)" by blast
  have "runs (view st') 0 = [3, 2]" unfolding st'(2)
    by (simp add: example_view view_sleep_def view_check_def view_wakes_def due_def home_def c p) (simp add: sleep_info_def set_status_def c)
  then show ?thesis using st'(1) by blast
qed

text \<open>
  C9: One run of \<open>scheduler_check_sleep\<close> wakes exactly the sleeping threads whose deadline has passed or that have a signal to take: they
  leave the sleep list, whose other threads keep their order, are appended to the run queue of their own processor in the order they
  slept, and get the answer \<open>-EINTR\<close> or \<open>ETIMEDOUT\<close>; no other thread is touched.
\<close>

theorem check_sleep_wakes_due:
  assumes "sleep_ok st"
  shows "\<exists>st'. scheduler_check_sleep True True now st = Some st' \<and>
    sleepers st' = filter (\<lambda>t. \<not> due now (view st) t) (sleepers st) \<and>
    (\<forall>c. runs (view st') c = runs (view st) c @ filter (\<lambda>t. due now (view st) t \<and> home (view st) t = c) (sleepers st)) \<and>
    (\<forall>t. infos (view st') t = (if t \<in> set (sleepers st) \<and> due now (view st) t then map_option wake_info (infos (view st) t) else infos (view st) t))"
proof -
  obtain st' where st': "scheduler_check_sleep True True now st = Some st'" "view st' = view_check now (view st)"
    using check_sleep_spec [OF assms] by blast
  have "sleepers st' = filter (\<lambda>t. \<not> due now (view st) t) (sleepers st)"
    unfolding view_sleepers [symmetric] st'(2) by (auto simp: view_check_def view_wakes_def intro: filter_cong)
  moreover have "filter (\<lambda>t. home (view st) t = c) (filter (due now (view st)) (sleepers st)) =
    filter (\<lambda>t. due now (view st) t \<and> home (view st) t = c) (sleepers st)" for c by (simp add: conj_commute)
  moreover have "Some (wake_info (the (infos (view st) t))) = map_option wake_info (infos (view st) t)" if "t \<in> set (sleepers st)" for t
    using assms that by (fastforce simp: sleep_ok_def view_ok_def)
  ultimately show ?thesis using st' by (auto simp: view_check_def view_wakes_def)
qed

theorem check_sleep_wakes_due_witness:
  "\<exists>st1 st2. start_sleep True 100 2 example_state = Some st1 \<and> scheduler_check_sleep True True 100 st1 = Some st2 \<and>
     sleepers st1 = [2] \<and> sleepers st2 = [] \<and> runs (view st2) 0 = [3, 2]"
proof -
  have t: "threads example_state 2 = Some (example_thread\<lparr>th_handle := Some 1\<rparr>)" "sleepers example_state = []"
    "get_cpu_local 5 (cpus example_state) = Some 0" by (simp_all add: example_defs sleepers_def get_cpu_local_def)
  have c: "cpu_id example_thread = 5" by (simp add: example_thread_def)
  obtain st1 where st1: "start_sleep True 100 2 example_state = Some st1" "sleep_ok st1" "view st1 = view_sleep 100 2 (view example_state)"
    using sleep_spec [OF example_sleep_ok _ t(1), of 0 100] t(2,3) c by auto
  have s: "sleepers st1 = [2]" unfolding view_sleepers [symmetric] st1(3) by (simp add: view_sleep_def t)
  have d: "due 100 (view st1) 2" "home (view st1) 2 = 0" "runs (view st1) 0 = [3]" unfolding st1(3)
    by (simp_all add: view_sleep_def due_def home_def example_view sleep_info_def set_status_def c)
  from check_sleep_wakes_due [OF st1(2), of 100] show ?thesis using st1(1) s d by auto
qed

text \<open>
  A thread sleeps until its time: when a check after \<open>scheduler_nano_sleep\<close> put it to sleep has woken it, the call returns
  \<open>-EINTR\<close> exactly when the thread has a signal to take, and otherwise 0 and then the time has reached the deadline, the 64-bit sum
  of the time of the call and the duration.
\<close>

theorem nano_sleep_returns:
  assumes "sleep_ok st" "t \<notin> set (sleepers st)" "threads st t = Some th" "get_cpu_local (cpu_id th) (cpus st) = Some c"
    "nano_sleep_before True start nano t st = Some st1" "scheduler_check_sleep True True now st1 = Some st2" "t \<notin> set (sleepers st2)"
  shows "(pending th \<or> start + nano \<le> now) \<and>
    (\<exists>st3. nano_sleep_after t st2 = Some (if pending th then - EINTR else 0, st3))"
proof -
  have st1: "sleep_ok st1" "view st1 = view_sleep (start + nano) t (view st)"
    using sleep_spec [OF assms(1-4), of "start + nano"] assms(5) by (auto simp: nano_sleep_before_def)
  have i1: "infos (view st1) t = Some (sleep_info (start + nano) (info th))" "t \<in> set (sleepers st1)"
    using assms(3) unfolding view_sleepers [symmetric] st1(2) by (simp_all add: view_sleep_def view_infos)
  obtain st' where "scheduler_check_sleep True True now st1 = Some st'" "sleep_ok st'" "view st' = view_check now (view st1)"
    using check_sleep_spec [OF st1(1)] by blast
  then have st2: "sleep_ok st2" "view st2 = view_check now (view st1)" using assms(6) by auto
  have d: "due now (view st1) t" using assms(7) i1(2) unfolding view_sleepers [symmetric] st2(2)
    by (auto simp: view_check_def view_wakes_def)
  then have "pending th \<or> start + nano \<le> now" using i1(1) by (simp add: due_def) (auto simp: sleep_info_def set_status_def)
  have "infos (view st2) t = Some (wake_info (sleep_info (start + nano) (info th)))"
    unfolding st2(2) using d i1 by (simp add: view_check_def view_wakes_def)
  then obtain th2 where th2: "threads st2 t = Some th2" "info th2 = wake_info (sleep_info (start + nano) (info th))" by (auto simp: view_infos)
  then have "pending th2 = pending th" by (metis pending_infos pending_info)
  moreover have "block_code th2 = (if pending th then - EINTR else ETIMEDOUT)"
    using arg_cong [OF th2(2), of block_code] by (simp add: wake_info_def) (simp add: sleep_info_def set_status_def)
  moreover have "length (actions (th_tcb (info th2))) = 32" using st2(1) th2(1) unfolding sleep_ok_def view_ok_def view_infos by blast
  then have "signals_pending_quick signal_init (th_tcb th2) = Some (pending th2)" using pending_spec [of th2] by simp
  ultimately have "\<exists>st3. nano_sleep_after t st2 = Some (if pending th then - EINTR else 0, st3)"
    using th2(1) by (simp add: nano_sleep_after_def upd_thread_def)
  then show ?thesis using \<open>pending th \<or> start + nano \<le> now\<close> by blast
qed

theorem nano_sleep_returns_witness:
  "\<exists>st1 st2 st3. nano_sleep_before True 90 10 2 example_state = Some st1 \<and> scheduler_check_sleep True True 100 st1 = Some st2 \<and>
     nano_sleep_after 2 st2 = Some (0, st3)"
proof -
  have t: "threads example_state 2 = Some (example_thread\<lparr>th_handle := Some 1\<rparr>)" "2 \<notin> set (sleepers example_state)"
    "get_cpu_local (cpu_id (example_thread\<lparr>th_handle := Some 1\<rparr>)) (cpus example_state) = Some 0" by (simp_all add: example_defs sleepers_def get_cpu_local_def)
  obtain st1 where st1: "nano_sleep_before True 90 10 2 example_state = Some st1" "sleep_ok st1" "view st1 = view_sleep 100 2 (view example_state)"
    using sleep_spec [OF example_sleep_ok t(2,1,3), of 100] by (auto simp: nano_sleep_before_def)
  obtain st2 where st2: "scheduler_check_sleep True True 100 st1 = Some st2" "view st2 = view_check 100 (view st1)"
    using check_sleep_spec [OF st1(2)] by blast
  have "sleepers st2 = []" unfolding view_sleepers [symmetric] st2(2) unfolding view_check_def view_wakes_def
    by (simp add: st1(3) view_sleep_def due_def example_view) (simp add: sleep_info_def set_status_def)
  then have "2 \<notin> set (sleepers st2)" by simp
  moreover have "\<not> pending (example_thread\<lparr>th_handle := Some 1\<rparr>)" using example_pending by (simp add: pending_def)
  ultimately show ?thesis using nano_sleep_returns [OF example_sleep_ok t(2,1,3) st1(1) st2(1)] st1(1) st2(1) by auto
qed

end
