(* ===== verification/Ring_Queue.thy ===== *)
theory Ring_Queue
  imports Kernel_Prelude
begin

text \<open>
  What a bounded queue promises, as a locale, and the ring-buffer facts its providers share.
  The kernel's ring queues are the byte queue of \<^verbatim>\<open>src/src/util/atom_queue.c\<close> (theory \<open>Atom_Queue\<close>)
  and the message queue of \<^verbatim>\<open>src/src/task/ipc.c\<close> (theory \<open>Ipc\<close>).
\<close>

section \<open>Ring buffers\<close>

definition ring_contents :: "'a list \<Rightarrow> nat \<Rightarrow> nat \<Rightarrow> 'a list" where
  "ring_contents buf start n = map (\<lambda>i. buf ! ((start + i) mod length buf)) [0..<n]"

lemma length_ring_contents [simp]: "length (ring_contents buf start n) = n"
  by (simp add: ring_contents_def)

lemma ring_contents_0 [simp]: "ring_contents buf start 0 = []"
  by (simp add: ring_contents_def)

lemma mod_neq_offset:
  fixes i n C s :: nat
  assumes "i < n" "n < C"
  shows "(s + i) mod C \<noteq> (s + n) mod C"
proof
  assume "(s + i) mod C = (s + n) mod C"
  then have "C dvd (s + n) - (s + i)" using assms(1) mod_eq_dvd_iff_nat [of "s + i" "s + n" C] by simp
  then have "C dvd n - i" by simp
  then show False using assms by (auto dest!: dvd_imp_le)
qed

lemma ring_push:
  assumes "n < length buf" "start < length buf"
  shows "ring_contents (buf[(start + n) mod length buf := x]) start (Suc n) = ring_contents buf start n @ [x]"
proof -
  have C: "0 < length buf" using assms by auto
  have "map (\<lambda>i. buf[(start + n) mod length buf := x] ! ((start + i) mod length buf)) [0..<n] = ring_contents buf start n"
    unfolding ring_contents_def
  proof (rule map_cong [OF refl])
    fix i assume "i \<in> set [0..<n]"
    then have "(start + n) mod length buf \<noteq> (start + i) mod length buf"
      using mod_neq_offset [of i n "length buf" start] assms(1) by force
    then show "buf[(start + n) mod length buf := x] ! ((start + i) mod length buf) = buf ! ((start + i) mod length buf)"
      by simp
  qed
  then show ?thesis using C by (simp add: ring_contents_def)
qed

lemma ring_pop:
  assumes "0 < n" "start < length buf"
  shows "ring_contents buf start n = buf ! start # ring_contents buf ((start + 1) mod length buf) (n - 1)"
proof -
  obtain m where m: "n = Suc m" using assms(1) by (cases n) auto
  have "[0..<Suc m] = 0 # map Suc [0..<m]" by (simp add: upt_conv_Cons map_Suc_upt del: upt_Suc)
  then show ?thesis using assms(2) by (simp add: m ring_contents_def mod_add_left_eq del: upt_Suc)
qed

section \<open>The contract\<close>

datatype 'a queue_op = Push 'a | Pop

text \<open>Running a sequence of operations: the state, what was accepted and what came out.\<close>

fun queue_run ::
    "('q \<Rightarrow> 'a \<Rightarrow> ('q \<times> bool) option) \<Rightarrow> ('q \<Rightarrow> ('q \<times> 'a option) option) \<Rightarrow>
     'a queue_op list \<Rightarrow> 'q \<Rightarrow> ('q \<times> 'a list \<times> 'a list) option" where
  "queue_run push pop [] q = Some (q, [], [])"
| "queue_run push pop (Push x # ops) q = do {
     (q', ok) \<leftarrow> push q x;
     (q'', acc, out) \<leftarrow> queue_run push pop ops q';
     Some (q'', (if ok then x # acc else acc), out)
   }"
| "queue_run push pop (Pop # ops) q = do {
     (q', r) \<leftarrow> pop q;
     (q'', acc, out) \<leftarrow> queue_run push pop ops q';
     Some (q'', acc, (case r of None \<Rightarrow> out | Some x \<Rightarrow> x # out))
   }"

locale bounded_queue =
  fixes push :: "'q \<Rightarrow> 'a \<Rightarrow> ('q \<times> bool) option"
    and pop :: "'q \<Rightarrow> ('q \<times> 'a option) option"
    and inv :: "'q \<Rightarrow> bool"
    and contents :: "'q \<Rightarrow> 'a list"
    and room :: "'q \<Rightarrow> nat"
  assumes push_law: "inv q \<Longrightarrow> \<exists>q' ok. push q x = Some (q', ok) \<and> inv q' \<and> room q' = room q \<and>
      (ok \<longleftrightarrow> length (contents q) < room q) \<and> contents q' = (if ok then contents q @ [x] else contents q)"
    and pop_law: "inv q \<Longrightarrow> \<exists>q' r. pop q = Some (q', r) \<and> inv q' \<and> room q' = room q \<and>
      (case r of None \<Rightarrow> contents q = [] \<and> contents q' = [] | Some x \<Rightarrow> contents q = x # contents q')"
begin

lemma run_fifo:
  assumes "inv q"
  shows "\<exists>q' acc out. queue_run push pop ops q = Some (q', acc, out) \<and> inv q' \<and> room q' = room q \<and>
    contents q @ acc = out @ contents q'"
  using assms
proof (induction ops arbitrary: q)
  case (Cons op ops)
  show ?case
  proof (cases op)
    case (Push x)
    obtain q1 ok where q1: "push q x = Some (q1, ok)" "inv q1" "room q1 = room q"
        "contents q1 = (if ok then contents q @ [x] else contents q)"
      using push_law [OF Cons.prems, of x] by blast
    obtain q2 acc out where "queue_run push pop ops q1 = Some (q2, acc, out)" "inv q2" "room q2 = room q1"
        "contents q1 @ acc = out @ contents q2"
      using Cons.IH [OF q1(2)] by blast
    then show ?thesis using q1 Push by auto
  next
    case Pop
    obtain q1 r where q1: "pop q = Some (q1, r)" "inv q1" "room q1 = room q"
        "case r of None \<Rightarrow> contents q = [] \<and> contents q1 = [] | Some x \<Rightarrow> contents q = x # contents q1"
      using pop_law [OF Cons.prems] by blast
    obtain q2 acc out where "queue_run push pop ops q1 = Some (q2, acc, out)" "inv q2" "room q2 = room q1"
        "contents q1 @ acc = out @ contents q2"
      using Cons.IH [OF q1(2)] by blast
    then show ?thesis using q1 Pop by (auto split: option.splits)
  qed
qed simp

text \<open>Filling an empty queue and draining it gives everything back, in order.\<close>

lemma fill_accepts:
  assumes "inv q" "length (contents q) + length xs \<le> room q"
  shows "\<exists>q'. queue_run push pop (map Push xs) q = Some (q', xs, []) \<and> inv q' \<and> contents q' = contents q @ xs"
  using assms
proof (induction xs arbitrary: q)
  case (Cons x xs)
  then obtain q1 where q1: "push q x = Some (q1, True)" "inv q1" "room q1 = room q" "contents q1 = contents q @ [x]"
    using push_law [OF Cons.prems(1), of x] by auto
  then obtain q' where "queue_run push pop (map Push xs) q1 = Some (q', xs, [])" "inv q'" "contents q' = contents q1 @ xs"
    using Cons.IH [of q1] Cons.prems(2) by auto
  then show ?case using q1 by simp
qed simp

end

section \<open>Masks\<close>

lemma unat_and_mask:
  fixes w m :: u64
  assumes "m + 1 = 2 ^ n" "n < 64"
  shows "unat (w AND m) = unat w mod 2 ^ n"
proof -
  have "m = mask n" using assms(1) by (simp add: mask_eq_exp_minus_1 eq_diff_eq)
  then have "w AND m = take_bit n w" by (simp add: take_bit_eq_mask)
  then have "unat (w AND m) = take_bit n (unat w)" by (simp only: unsigned_take_bit_eq)
  then show ?thesis by (simp only: take_bit_eq_mod)
qed

lemma power_of_two_nat: "0 < x \<Longrightarrow> x AND (x - 1) = 0 \<Longrightarrow> \<exists>n. x = 2 ^ n" for x :: nat
proof (induction x rule: less_induct)
  case (less x)
  note r = and_rec [of x "x - 1"]
  show ?case
  proof (cases "odd x")
    case True
    then obtain m where m: "x = 2 * m + 1" by (auto elim: oddE)
    then have "x AND (x - 1) = 2 * m" using r by simp
    then have "x = 2 ^ 0" using less.prems(2) m by simp
    then show ?thesis by blast
  next
    case False
    then obtain m where m: "x = 2 * m" by (auto elim: evenE)
    then have pos: "0 < m" using less.prems(1) by simp
    have "(x - 1) div 2 = m - 1" using m pos by (cases m) auto
    then have "2 * (m AND (m - 1)) = 0" using r m less.prems(2) by simp
    then obtain n where "m = 2 ^ n" using less.IH [of m] m pos by auto
    then have "x = 2 ^ Suc n" using m by simp
    then show ?thesis by blast
  qed
qed

lemma power_of_two_check:
  fixes s :: u64
  assumes "s \<noteq> 0" "s AND (s - 1) = 0"
  obtains n where "n < 64" "s = 2 ^ n"
proof -
  have pos: "0 < unat s" using assms(1) by (simp add: unat_gt_0)
  have "unat (s - 1) = unat s - 1" using pos by (subst unat_sub_no_wrap) (auto simp: word_le_nat_alt)
  then have "unat s AND (unat s - 1) = 0" using assms(2) by (metis unsigned_and_eq unsigned_0)
  then obtain n where n: "unat s = 2 ^ n" using power_of_two_nat [OF pos] by blast
  have "2 ^ n < (2::nat) ^ 64" using n unsigned_less [of s, where 'a = nat] by simp
  then have "n < 64" by (rule power_less_imp_less_exp [rotated]) simp
  moreover have "s = 2 ^ n" using n \<open>n < 64\<close> by (simp add: word_unat_eq_iff unat_pow2)
  ultimately show thesis using that by blast
qed

end
