(* ===== verification/Ipc.thy ===== *)
theory Ipc
  imports Ring_Queue
begin

text \<open>
  Message queues between tasks (\<^verbatim>\<open>src/src/task/ipc.c\<close>): a ring of 256 pointers to messages under a
  spin lock.  \<open>ipc_queue_enqueue\<close> returns with the lock held and its callers release it; taking a lock
  that is held never returns (\<^const>\<open>None\<close>).  A slot holds the message with its \<open>index\<close> field, which the
  caller sets right after the enqueue.  The waiting loops around \<open>ipc_recv\<close> yield to the scheduler
  and are not modelled.
\<close>

section \<open>Definitions\<close>

record ipc_message =
  msg_pid :: u32
  msg_type :: u8
  msg_data :: "u8 list"

record ipc_queue =
  iq_lock :: bool
  iq_items :: "(ipc_message \<times> u64) list"
  iq_capacity :: nat
  iq_head :: nat
  iq_tail :: nat
  iq_size :: nat

abbreviation IPC_QUEUE_CAPACITY :: nat where "IPC_QUEUE_CAPACITY \<equiv> 256"

definition ipc_queue_init :: "(ipc_message \<times> u64) list \<Rightarrow> ipc_queue" where
  "ipc_queue_init junk =
     \<lparr>iq_lock = False, iq_items = junk, iq_capacity = IPC_QUEUE_CAPACITY, iq_head = 0, iq_tail = 0, iq_size = 0\<rparr>"

definition spin_lock :: "ipc_queue \<Rightarrow> ipc_queue option" where
  "spin_lock q = (if iq_lock q then None else Some (q\<lparr>iq_lock := True\<rparr>))"

definition spin_unlock :: "ipc_queue \<Rightarrow> ipc_queue" where
  "spin_unlock q = q\<lparr>iq_lock := False\<rparr>"

definition ipc_queue_dequeue :: "ipc_queue \<Rightarrow> (ipc_queue \<times> ipc_message option) option" where
  "ipc_queue_dequeue q = do {
     q \<leftarrow> spin_lock q;
     if iq_size q = 0 then Some (spin_unlock q, None)
     else do {
       item \<leftarrow> aget (iq_items q) (iq_head q);
       Some (spin_unlock (q\<lparr>iq_head := (iq_head q + 1) mod iq_capacity q, iq_size := iq_size q - 1\<rparr>), Some (fst item))
     }
   }"

definition ipc_queue_enqueue :: "ipc_queue \<Rightarrow> ipc_message \<Rightarrow> (ipc_queue \<times> u64) option" where
  "ipc_queue_enqueue q item = do {
     q \<leftarrow> spin_lock q;
     if iq_size q = iq_capacity q then Some (q, -1)
     else do {
       items \<leftarrow> aput (iq_items q) (iq_tail q) (item, of_nat (iq_tail q));
       Some (q\<lparr>iq_items := items, iq_tail := (iq_tail q + 1) mod iq_capacity q, iq_size := iq_size q + 1\<rparr>,
             of_nat (iq_tail q))
     }
   }"

text \<open>\<open>ipc_send\<close>; the flag says whether the message went in, which the code does not report.\<close>

definition ipc_send :: "ipc_queue \<Rightarrow> ipc_message \<Rightarrow> (ipc_queue \<times> bool) option" where
  "ipc_send q message = do {
     (q, index) \<leftarrow> ipc_queue_enqueue q message;
     Some (spin_unlock q, index \<noteq> -1)
   }"

text \<open>The two scans, with the loop counter; the fuel is the number of rounds left.\<close>

primrec ipc_free_loop :: "nat \<Rightarrow> nat \<Rightarrow> ipc_queue \<Rightarrow> u8 \<Rightarrow> ipc_queue option" where
  "ipc_free_loop 0 i q type = None"
| "ipc_free_loop (Suc fuel) i q type =
     (if i < iq_size q then do {
        (q, m) \<leftarrow> ipc_queue_dequeue q;
        message \<leftarrow> m;
        q \<leftarrow> (if msg_type message = type then Some q else map_option fst (ipc_queue_enqueue q message));
        ipc_free_loop fuel (i + 1) (spin_unlock q) type
      }
      else Some q)"

definition ipc_free_type :: "ipc_queue \<Rightarrow> u8 \<Rightarrow> ipc_queue option" where
  "ipc_free_type q type = ipc_free_loop (iq_size q + 1) 0 q type"

primrec ipc_recv_loop :: "nat \<Rightarrow> nat \<Rightarrow> ipc_queue \<Rightarrow> u8 \<Rightarrow> (ipc_queue \<times> ipc_message option) option" where
  "ipc_recv_loop 0 i q type = None"
| "ipc_recv_loop (Suc fuel) i q type =
     (if i < iq_size q then do {
        (q, m) \<leftarrow> ipc_queue_dequeue q;
        message \<leftarrow> m;
        if msg_type message = type then Some (q, Some message)
        else do {
          (q, index) \<leftarrow> ipc_queue_enqueue q message;
          ipc_recv_loop fuel (i + 1) (spin_unlock q) type
        }
      }
      else Some (q, None))"

definition ipc_recv :: "ipc_queue \<Rightarrow> u8 \<Rightarrow> (ipc_queue \<times> ipc_message option) option" where
  "ipc_recv q type = ipc_recv_loop (iq_size q + 1) 0 q type"

section \<open>The queue as a ring\<close>

definition iq_contents :: "ipc_queue \<Rightarrow> ipc_message list" where
  "iq_contents q = map fst (ring_contents (iq_items q) (iq_head q) (iq_size q))"

definition iq_wf :: "ipc_queue \<Rightarrow> bool" where
  "iq_wf q \<longleftrightarrow> \<not> iq_lock q \<and> iq_capacity q = IPC_QUEUE_CAPACITY \<and> length (iq_items q) = iq_capacity q \<and>
     iq_head q < iq_capacity q \<and> iq_size q \<le> iq_capacity q \<and> iq_tail q = (iq_head q + iq_size q) mod iq_capacity q"

lemma length_iq_contents [simp]: "length (iq_contents q) = iq_size q"
  by (simp add: iq_contents_def)

lemma iq_empty: "iq_contents q = [] \<longleftrightarrow> iq_size q = 0"
  by (metis length_0_conv length_iq_contents)

lemma dequeue_spec:
  assumes "iq_wf q"
  shows "\<exists>q' r. ipc_queue_dequeue q = Some (q', r) \<and> iq_wf q' \<and> iq_capacity q' = iq_capacity q \<and>
    (case r of None \<Rightarrow> iq_contents q = [] \<and> iq_contents q' = [] | Some m \<Rightarrow> iq_contents q = m # iq_contents q')"
proof (cases "iq_size q = 0")
  case True
  then show ?thesis using assms
    by (simp add: ipc_queue_dequeue_def spin_lock_def spin_unlock_def iq_wf_def iq_empty)
next
  case False
  let ?q = "q\<lparr>iq_head := (iq_head q + 1) mod iq_capacity q, iq_size := iq_size q - 1, iq_lock := False\<rparr>"
  have "ring_contents (iq_items q) (iq_head q) (iq_size q) =
      iq_items q ! iq_head q # ring_contents (iq_items q) ((iq_head q + 1) mod length (iq_items q)) (iq_size q - 1)"
    using False assms by (intro ring_pop) (auto simp: iq_wf_def)
  then have c: "iq_contents q = fst (iq_items q ! iq_head q) # iq_contents ?q"
    using assms by (simp add: iq_contents_def iq_wf_def)
  have "((iq_head q + 1) mod iq_capacity q + (iq_size q - 1)) mod iq_capacity q = (iq_head q + iq_size q) mod iq_capacity q"
    using False unfolding mod_add_left_eq by simp
  then have wf: "iq_wf ?q" using assms by (auto simp: iq_wf_def)
  have "ipc_queue_dequeue q = Some (?q, Some (fst (iq_items q ! iq_head q)))"
    using False assms by (simp add: ipc_queue_dequeue_def spin_lock_def spin_unlock_def iq_wf_def)
  then show ?thesis using wf c by auto
qed

lemma enqueue_spec:
  assumes "iq_wf q"
  shows "\<exists>q' index. ipc_queue_enqueue q m = Some (q', index) \<and> iq_lock q' \<and> iq_wf (spin_unlock q') \<and>
    iq_capacity q' = iq_capacity q \<and> (index \<noteq> -1 \<longleftrightarrow> iq_size q < iq_capacity q) \<and>
    iq_contents (spin_unlock q') = (if iq_size q < iq_capacity q then iq_contents q @ [m] else iq_contents q)"
proof (cases "iq_size q = iq_capacity q")
  case True
  then show ?thesis using assms
    by (auto simp: ipc_queue_enqueue_def spin_lock_def spin_unlock_def iq_wf_def iq_contents_def)
next
  case False
  then have lt: "iq_size q < iq_capacity q" using assms by (simp add: iq_wf_def)
  let ?t = "iq_tail q"
  let ?items = "(iq_items q)[?t := (m, of_nat ?t)]"
  let ?q = "q\<lparr>iq_lock := True, iq_items := ?items, iq_tail := (?t + 1) mod iq_capacity q, iq_size := iq_size q + 1\<rparr>"
  have t: "?t = (iq_head q + iq_size q) mod length (iq_items q)" "?t < 256" using assms by (auto simp: iq_wf_def)
  have "(of_nat ?t :: u64) \<noteq> -1"
  proof
    assume "(of_nat ?t :: u64) = -1"
    then have "unat (of_nat ?t :: u64) = unat (-1 :: u64)" by simp
    then show False using t(2) by (simp add: unat_of_nat unsigned_minus_1_eq_mask mask_eq_exp_minus_1)
  qed
  moreover have "ring_contents ?items (iq_head q) (Suc (iq_size q)) =
      ring_contents (iq_items q) (iq_head q) (iq_size q) @ [(m, of_nat ?t)]"
    unfolding t(1) using assms lt by (intro ring_push) (auto simp: iq_wf_def)
  then have "iq_contents (spin_unlock ?q) = iq_contents q @ [m]"
    by (simp add: iq_contents_def spin_unlock_def)
  moreover have "((iq_head q + iq_size q) mod 256 + 1) mod 256 = (iq_head q + (iq_size q + 1)) mod 256"
    by (simp add: mod_Suc_eq)
  then have "iq_wf (spin_unlock ?q)" using assms lt by (auto simp: iq_wf_def spin_unlock_def)
  moreover have "ipc_queue_enqueue q m = Some (?q, of_nat ?t)"
    using assms False t(2) by (simp add: ipc_queue_enqueue_def spin_lock_def iq_wf_def)
  ultimately show ?thesis using lt by auto
qed

interpretation ipc: bounded_queue ipc_send ipc_queue_dequeue iq_wf iq_contents iq_capacity
proof unfold_locales
  fix q m assume wf: "iq_wf q"
  show "\<exists>q' ok. ipc_send q m = Some (q', ok) \<and> iq_wf q' \<and> iq_capacity q' = iq_capacity q \<and>
    ok = (length (iq_contents q) < iq_capacity q) \<and> iq_contents q' = (if ok then iq_contents q @ [m] else iq_contents q)"
    using enqueue_spec [OF wf, of m] by (auto simp: ipc_send_def spin_unlock_def)
next
  fix q assume "iq_wf q"
  then show "\<exists>q' r. ipc_queue_dequeue q = Some (q', r) \<and> iq_wf q' \<and> iq_capacity q' = iq_capacity q \<and>
    (case r of None \<Rightarrow> iq_contents q = [] \<and> iq_contents q' = [] | Some m \<Rightarrow> iq_contents q = m # iq_contents q')"
    by (rule dequeue_spec)
qed

section \<open>Receiving by type\<close>

text \<open>
  The scan takes the oldest message of the type; the messages it passed over are moved behind
  the ones it did not look at.
\<close>

lemma ipc_recv_loop_spec:
  assumes "iq_wf q" "iq_contents q = todo @ passed" "length passed = i" "length todo < fuel"
    and "\<forall>m\<in>set passed. msg_type m \<noteq> type"
  shows "\<exists>q' r. ipc_recv_loop fuel i q type = Some (q', r) \<and> iq_wf q' \<and>
    (case r of
       None \<Rightarrow> (\<forall>m\<in>set (iq_contents q). msg_type m \<noteq> type) \<and> iq_contents q' = passed @ todo
     | Some m \<Rightarrow> \<exists>pre post. todo = pre @ m # post \<and> msg_type m = type \<and> (\<forall>x\<in>set pre. msg_type x \<noteq> type) \<and>
         iq_contents q' = post @ passed @ pre)"
  using assms
proof (induction fuel arbitrary: i q todo passed)
  case (Suc fuel)
  note P = Suc.prems
  show ?case
  proof (cases todo)
    case Nil
    then have "\<not> i < iq_size q" using P(2,3) length_iq_contents [of q] by simp
    then show ?thesis using P Nil by auto
  next
    case (Cons m todo')
    have "iq_size q = i + length todo" using P(2,3) length_iq_contents [of q] by simp
    then have i: "i < iq_size q" using Cons by simp
    obtain q1 where q1: "ipc_queue_dequeue q = Some (q1, Some m)" "iq_wf q1" "iq_capacity q1 = iq_capacity q"
        "iq_contents q1 = todo' @ passed"
      using dequeue_spec [OF P(1)] P(2) Cons by (auto split: option.splits)
    show ?thesis
    proof (cases "msg_type m = type")
      case True
      then have run: "ipc_recv_loop (Suc fuel) i q type = Some (q1, Some m)" using q1(1) i by simp
      moreover have "todo = [] @ m # todo'" "iq_contents q1 = todo' @ passed @ []" using Cons q1(4) by simp_all
      ultimately have "\<exists>pre post. todo = pre @ m # post \<and> msg_type m = type \<and> (\<forall>x\<in>set pre. msg_type x \<noteq> type) \<and>
          iq_contents q1 = post @ passed @ pre" using True by (intro exI [of _ "[]"] exI [of _ todo']) simp
      then show ?thesis using run q1(2) by (intro exI [of _ q1] exI [of _ "Some m"]) simp
    next
      case False
      have "iq_size q1 < iq_capacity q1"
        using length_iq_contents [of q] length_iq_contents [of q1] q1(3,4) P(1,2) Cons by (auto simp: iq_wf_def)
      then obtain q2 ix where q2: "ipc_queue_enqueue q1 m = Some (q2, ix)" "iq_wf (spin_unlock q2)"
          "iq_contents (spin_unlock q2) = iq_contents q1 @ [m]"
        using enqueue_spec [OF q1(2), of m] by auto
      let ?q = "spin_unlock q2"
      have c: "iq_contents ?q = todo' @ (passed @ [m])" using q1(4) q2(3) by simp
      have "length todo' < fuel" "length (passed @ [m]) = i + 1" "\<forall>x\<in>set (passed @ [m]). msg_type x \<noteq> type"
        using P(3,4,5) Cons False by auto
      then obtain q' r where r: "ipc_recv_loop fuel (i + 1) ?q type = Some (q', r)" "iq_wf q'"
          "case r of
             None \<Rightarrow> (\<forall>m\<in>set (iq_contents ?q). msg_type m \<noteq> type) \<and> iq_contents q' = (passed @ [m]) @ todo'
           | Some y \<Rightarrow> \<exists>pre post. todo' = pre @ y # post \<and> msg_type y = type \<and> (\<forall>x\<in>set pre. msg_type x \<noteq> type) \<and>
               iq_contents q' = post @ (passed @ [m]) @ pre"
        using Suc.IH [OF q2(2) c] by blast
      have run: "ipc_recv_loop (Suc fuel) i q type = Some (q', r)" using i q1(1) q2(1) False r(1) by simp
      show ?thesis
      proof (cases r)
        case None
        then show ?thesis using run r(2,3) c Cons P(2) by auto
      next
        case (Some y)
        then obtain pre post where "todo' = pre @ y # post" "msg_type y = type" "\<forall>x\<in>set pre. msg_type x \<noteq> type"
            "iq_contents q' = post @ (passed @ [m]) @ pre" using r(3) by auto
        then have "todo = (m # pre) @ y # post" "\<forall>x\<in>set (m # pre). msg_type x \<noteq> type"
            "iq_contents q' = post @ passed @ (m # pre)" using Cons False by auto
        then have "\<exists>pre post. todo = pre @ y # post \<and> msg_type y = type \<and> (\<forall>x\<in>set pre. msg_type x \<noteq> type) \<and>
            iq_contents q' = post @ passed @ pre" using \<open>msg_type y = type\<close> by blast
        then show ?thesis using run r(2) Some by (intro exI [of _ q'] exI [of _ r]) simp
      qed
    qed
  qed
qed simp

lemma ipc_recv_spec:
  assumes "iq_wf q"
  shows "\<exists>q' r. ipc_recv q type = Some (q', r) \<and> iq_wf q' \<and>
    (case r of
       None \<Rightarrow> (\<forall>m\<in>set (iq_contents q). msg_type m \<noteq> type) \<and> iq_contents q' = iq_contents q
     | Some m \<Rightarrow> \<exists>pre post. iq_contents q = pre @ m # post \<and> msg_type m = type \<and>
         (\<forall>x\<in>set pre. msg_type x \<noteq> type) \<and> iq_contents q' = post @ pre)"
  using ipc_recv_loop_spec [OF assms, of "iq_contents q" "[]" 0 "iq_size q + 1" type]
  unfolding ipc_recv_def append_Nil append_Nil2 by simp

section \<open>Properties\<close>

text \<open>
  \<open>ipc_recv\<close> returns the oldest message of the requested type and no other, keeps every other message, and answers
  none exactly when no message of the type is queued; the messages that were passed over move behind the rest.
\<close>

theorem ipc_recv_oldest_of_type:
  assumes "iq_wf q"
  shows "\<exists>q' r. ipc_recv q type = Some (q', r) \<and> iq_wf q' \<and>
    (case r of
       None \<Rightarrow> (\<forall>m\<in>set (iq_contents q). msg_type m \<noteq> type) \<and> iq_contents q' = iq_contents q
     | Some m \<Rightarrow> \<exists>pre post. iq_contents q = pre @ m # post \<and> msg_type m = type \<and>
         (\<forall>x\<in>set pre. msg_type x \<noteq> type) \<and> iq_contents q' = post @ pre)"
  using ipc_recv_spec [OF assms] .

definition demo_message :: "u8 \<Rightarrow> ipc_message" where
  "demo_message t = \<lparr>msg_pid = 1, msg_type = t, msg_data = []\<rparr>"

lemma demo_ipc:
  assumes "length ms \<le> IPC_QUEUE_CAPACITY"
  obtains q where "iq_wf q" "iq_contents q = ms"
proof -
  let ?q = "ipc_queue_init (replicate IPC_QUEUE_CAPACITY (demo_message 0, 0))"
  have wf: "iq_wf ?q" "iq_contents ?q = []" by (simp_all add: iq_wf_def ipc_queue_init_def iq_contents_def)
  have "iq_capacity ?q = IPC_QUEUE_CAPACITY" by (simp add: ipc_queue_init_def)
  then show ?thesis using ipc.fill_accepts [OF wf(1), of ms] wf(2) assms that by auto
qed

theorem ipc_recv_oldest_of_type_witness:
  "\<exists>q q' m. iq_contents q = [demo_message 1, demo_message 2, demo_message 3] \<and> ipc_recv q 2 = Some (q', Some m) \<and>
    iq_contents q' = [demo_message 3, demo_message 1]"
proof (rule demo_ipc [of "[demo_message 1, demo_message 2, demo_message 3]"])
  fix q assume q: "iq_wf q" "iq_contents q = [demo_message 1, demo_message 2, demo_message 3]"
  obtain q' r where r: "ipc_recv q 2 = Some (q', r)" "case r of
       None \<Rightarrow> (\<forall>m\<in>set (iq_contents q). msg_type m \<noteq> 2) \<and> iq_contents q' = iq_contents q
     | Some m \<Rightarrow> \<exists>pre post. iq_contents q = pre @ m # post \<and> msg_type m = 2 \<and>
         (\<forall>x\<in>set pre. msg_type x \<noteq> 2) \<and> iq_contents q' = post @ pre"
    using ipc_recv_oldest_of_type [OF q(1), of 2] by blast
  then obtain m pre post where m: "r = Some m" "[demo_message 1, demo_message 2, demo_message 3] = pre @ m # post"
      "msg_type m = 2" "iq_contents q' = post @ pre"
    unfolding q(2) by (auto simp: demo_message_def split: option.splits)
  then have "pre = [demo_message 1]" "post = [demo_message 3]"
    by (auto simp: Cons_eq_append_conv append_eq_Cons_conv demo_message_def)
  with r(1) q(2) m show ?thesis by auto
qed simp

lemma ipc_free_loop_all:
  assumes "iq_wf q" "\<forall>m\<in>set (iq_contents q). msg_type m = type" "iq_size q \<le> fuel + i"
  shows "\<exists>q'. ipc_free_loop (Suc fuel) i q type = Some q' \<and> iq_wf q' \<and>
    iq_contents q' = drop ((iq_size q + 1 - i) div 2) (iq_contents q)"
  using assms
proof (induction fuel arbitrary: i q)
  case 0
  then show ?case by simp
next
  case (Suc fuel)
  show ?case
  proof (cases "i < iq_size q")
    case False
    then show ?thesis using Suc.prems(1) by (auto simp: not_less)
  next
    case True
    obtain q1 r where q1: "ipc_queue_dequeue q = Some (q1, r)" "iq_wf q1"
      "case r of None \<Rightarrow> iq_contents q = [] \<and> iq_contents q1 = [] | Some m \<Rightarrow> iq_contents q = m # iq_contents q1"
      using dequeue_spec [OF Suc.prems(1)] by blast
    have "iq_contents q \<noteq> []" using True by (metis iq_empty less_nat_zero_code)
    then obtain m where m: "r = Some m" "iq_contents q = m # iq_contents q1" using q1(3) by (cases r) auto
    have sz: "iq_size q = Suc (iq_size q1)" using m(2) by (metis length_Cons length_iq_contents)
    have un: "spin_unlock q1 = q1" using q1(2) by (simp add: spin_unlock_def iq_wf_def)
    have "(iq_size q + 1 - i) div 2 = Suc ((iq_size q1 + 1 - Suc i) div 2)" using True sz by linarith
    moreover obtain q' where "ipc_free_loop (Suc fuel) (Suc i) q1 type = Some q'" "iq_wf q'"
      "iq_contents q' = drop ((iq_size q1 + 1 - Suc i) div 2) (iq_contents q1)"
      using Suc.IH [OF q1(2), of "Suc i"] Suc.prems(2,3) m(2) sz by auto
    ultimately show ?thesis using True q1(1) m Suc.prems(2) un by auto
  qed
qed

text \<open>
  \<open>ipc_free_type\<close> does not free all messages of the type: its loop bound is the size that the loop itself shrinks, so
  from a queue that holds only messages of the type it removes the older half and leaves the rest.
\<close>

theorem ipc_free_type_leaves_half:
  assumes "iq_wf q" "\<forall>m\<in>set (iq_contents q). msg_type m = type"
  shows "\<exists>q'. ipc_free_type q type = Some q' \<and> iq_contents q' = drop ((iq_size q + 1) div 2) (iq_contents q)"
  using ipc_free_loop_all [OF assms, of "iq_size q" 0] by (auto simp: ipc_free_type_def)

theorem ipc_free_type_leaves_half_witness:
  "\<exists>q q'. iq_contents q = [demo_message 1, demo_message 1] \<and> ipc_free_type q 1 = Some q' \<and> iq_contents q' = [demo_message 1]"
proof (rule demo_ipc [of "[demo_message 1, demo_message 1]"])
  fix q assume q: "iq_wf q" "iq_contents q = [demo_message 1, demo_message 1]"
  then have "iq_size q = 2" by (metis length_iq_contents length_Cons list.size(3) numeral_2_eq_2)
  with ipc_free_type_leaves_half [OF q(1), of 1] q(2) show ?thesis by (auto simp: demo_message_def)
qed simp

end
