(* ===== verification/Task.thy ===== *)
theory Task
  imports Scheduler Ipc "HOL-Library.Multiset"
begin

text \<open>
  The end of threads and processes: \<^verbatim>\<open>src/src/task/task.c\<close>.  The state of the scheduler is extended by the process table, the two
  lists of objects that wait to be freed and the futex table.  An exited thread or process is retired with the tick counts of all
  processors and freed by a later tick.  Threads and processes are named by address, 0 for \<open>NULL\<close>; an address whose object was freed
  is not in the table, and using it is the fault \<^const>\<open>None\<close>.  What the code asks of other parts is logged in \<open>effects\<close>; \<open>mem\<close> says
  whether the allocations of the call succeed.
\<close>

section \<open>Definitions\<close>

abbreviation MAX_STACK_SIZE :: u64 where "MAX_STACK_SIZE \<equiv> 131072"
abbreviation IPC_MSG_TYPE_EPID :: u8 where "IPC_MSG_TYPE_EPID \<equiv> 5"
abbreviation SIGCHLD :: int where "SIGCHLD \<equiv> 17"

record process =
  pid :: u32
  parent :: u64
  pl_index :: nat
  ppl_index :: nat
  threads_of :: "u64 cow_arraylist option"
  children_of :: "u64 cow_arraylist option"
  status :: task_status
  utime :: u64
  stime :: u64
  cutime :: u64
  cstime :: u64
  ipc_of :: "ipc_queue option"
  has_virt_queue :: bool
  fds_of :: "u64 option list option"
  exec_node :: u64
  cwd_node :: u64
  root_node :: u64
  mm_of :: u64
  tty_of :: u64
  retired_threads_pending :: u64
  exit_fds_released :: bool

text \<open>The calls into other parts: stacks given back, thread contexts and objects freed, nodes closed, address spaces released, a signal sent.\<close>

datatype task_effect = Free_frames u64 nat | Free_context u64 | Free_thread u64 | Free_process u64 | Close_node u64 | Release_mm u64
  | Retain_mm u64 | Procfs_exit u64 | Lazy_free u64 | Clear_tid u64 u64 | Send_signal u64 int

record task_state = sched_state +
  processes :: "u64 \<rightharpoonup> process"
  process_list :: "u64 cow_arraylist"
  retired_threads :: "(u64 \<times> u64 list) list"
  retired_processes :: "(u64 \<times> u64 list) list"
  futexes :: futex_state
  fgproc :: "u64 \<Rightarrow> u32"
  kernel_process :: u64
  now_pid :: u32
  scheduler_status :: bool
  effects :: "task_effect list"

definition effect :: "task_effect \<Rightarrow> task_state \<Rightarrow> task_state" where
  "effect e st = st\<lparr>effects := effects st @ [e]\<rparr>"

definition upd_process :: "u64 \<Rightarrow> (process \<Rightarrow> process) \<Rightarrow> task_state \<Rightarrow> task_state option" where
  "upd_process p f st = do { proc \<leftarrow> processes st p; Some (st\<lparr>processes := (processes st)(p \<mapsto> f proc)\<rparr>) }"

primrec find_pid :: "u32 \<Rightarrow> u64 list \<Rightarrow> task_state \<Rightarrow> u64 option option" where
  "find_pid i [] st = Some None"
| "find_pid i (p # ps) st = do { proc \<leftarrow> processes st p; if pid proc = i then Some (Some p) else find_pid i ps st }"

definition found_pcb :: "u32 \<Rightarrow> task_state \<Rightarrow> u64 option option" where
  "found_pcb i st = do { ps \<leftarrow> cow_foreach (process_list st); find_pid i ps st }"

subsection \<open>Links to the lists\<close>

primrec refresh_threads :: "u64 cow_arraylist \<Rightarrow> nat list \<Rightarrow> task_state \<Rightarrow> task_state option" where
  "refresh_threads l [] st = Some st"
| "refresh_threads l (i # is) st = do {
     item \<leftarrow> cow_list_get l i;
     st \<leftarrow> (case item of None \<Rightarrow> Some st | Some t \<Rightarrow> upd_thread t (\<lambda>th. th\<lparr>ct_index := i\<rparr>) st);
     refresh_threads l is st
   }"

definition refresh_child_thread_links :: "u64 \<Rightarrow> task_state \<Rightarrow> task_state option" where
  "refresh_child_thread_links p st =
     (if p = 0 then Some st
      else do {
        proc \<leftarrow> processes st p;
        (case threads_of proc of None \<Rightarrow> Some st | Some l \<Rightarrow> refresh_threads l [0..<cow_size l] st)
      })"

primrec refresh_children :: "u64 \<Rightarrow> u64 cow_arraylist \<Rightarrow> nat list \<Rightarrow> task_state \<Rightarrow> task_state option" where
  "refresh_children p l [] st = Some st"
| "refresh_children p l (i # is) st = do {
     item \<leftarrow> cow_list_get l i;
     st \<leftarrow> (case item of None \<Rightarrow> Some st | Some c \<Rightarrow> upd_process c (\<lambda>child. child\<lparr>parent := p, ppl_index := i\<rparr>) st);
     refresh_children p l is st
   }"

definition refresh_child_process_links :: "u64 \<Rightarrow> task_state \<Rightarrow> task_state option" where
  "refresh_child_process_links p st =
     (if p = 0 then Some st
      else do {
        proc \<leftarrow> processes st p;
        (case children_of proc of None \<Rightarrow> Some st | Some l \<Rightarrow> refresh_children p l [0..<cow_size l] st)
      })"

subsection \<open>Retiring\<close>

definition capture_reclaim_epoch :: "cpu_local list \<Rightarrow> u64 list" where
  "capture_reclaim_epoch cs = map (\<lambda>i. if i < length cs \<and> enable (cs ! i) then jiffies (cs ! i) else 0) [0..<MAX_CPU]"

definition reclaim_epoch_elapsed :: "u64 list \<Rightarrow> cpu_local list \<Rightarrow> bool" where
  "reclaim_epoch_elapsed epoch cs \<longleftrightarrow> list_all (\<lambda>i. enable (cs ! i) \<longrightarrow> \<not> jiffies (cs ! i) \<le> epoch ! i) [0..<length cs]"

definition thread_reclaim_ready :: "u64 \<Rightarrow> u64 list \<Rightarrow> task_state \<Rightarrow> bool option" where
  "thread_reclaim_ready t epoch st =
     (if t = 0 then Some False
      else do {
        th \<leftarrow> threads st t;
        (case get_cpu_local (cpu_id th) (cpus st) of
           Some c \<Rightarrow> if current_task (cpus st ! c) = t then Some False else Some (reclaim_epoch_elapsed epoch (cpus st))
         | None \<Rightarrow> Some (reclaim_epoch_elapsed epoch (cpus st)))
      })"

definition enqueue_retired_thread :: "bool \<Rightarrow> u64 \<Rightarrow> task_state \<Rightarrow> task_state option" where
  "enqueue_retired_thread mem t st =
     (if t = 0 then Some st
      else if \<not> mem then None
      else do {
        th \<leftarrow> threads st t;
        st \<leftarrow> (if th_process th \<noteq> 0
          then upd_process (th_process th) (\<lambda>p. p\<lparr>retired_threads_pending := retired_threads_pending p + 1\<rparr>) st else Some st);
        Some (st\<lparr>retired_threads := (t, capture_reclaim_epoch (cpus st)) # retired_threads st\<rparr>)
      })"

definition enqueue_retired_process :: "bool \<Rightarrow> u64 \<Rightarrow> task_state \<Rightarrow> task_state option" where
  "enqueue_retired_process mem p st =
     (if p = 0 then Some st
      else if \<not> mem then None
      else Some (st\<lparr>retired_processes := (p, capture_reclaim_epoch (cpus st)) # retired_processes st\<rparr>))"

text \<open>\<open>virt_to_phys\<close> of a stack's lower end is logged as the virtual address.\<close>

definition free_stack :: "u64 \<Rightarrow> task_state \<Rightarrow> task_state" where
  "free_stack stack st = (if stack = 0 then st else effect (Free_frames (stack - MAX_STACK_SIZE) (unat MAX_STACK_SIZE div 4096)) st)"

definition destroy_thread :: "u64 \<Rightarrow> task_state \<Rightarrow> task_state option" where
  "destroy_thread t st =
     (if t = 0 then Some st
      else do {
        th \<leftarrow> threads st t;
        let st = free_stack (signal_stack th) (free_stack (syscall_stack th) st);
        let st = effect (Free_thread t) (effect (Free_context t) st);
        Some (st\<lparr>threads := (threads st)(t := None)\<rparr>)
      })"

subsection \<open>Reaping\<close>

definition process_threads_reclaimed :: "u64 \<Rightarrow> task_state \<Rightarrow> bool option" where
  "process_threads_reclaimed p st =
     (if p = 0 then Some False
      else do {
        proc \<leftarrow> processes st p;
        (case threads_of proc of
           None \<Rightarrow> Some False
         | Some l \<Rightarrow> Some (retired_threads_pending proc = 0 \<and> cow_size l = 0))
      })"

definition claim_process_fd_release :: "u64 \<Rightarrow> task_state \<Rightarrow> (bool \<times> task_state) option" where
  "claim_process_fd_release p st =
     (if p = 0 then Some (False, st)
      else do {
        proc \<leftarrow> processes st p;
        if exit_fds_released proc then Some (False, st)
        else do { st \<leftarrow> upd_process p (\<lambda>proc. proc\<lparr>exit_fds_released := True\<rparr>) st; Some (True, st) }
      })"

definition close_nodes :: "u64 list \<Rightarrow> task_state \<Rightarrow> task_state" where
  "close_nodes nodes st = st\<lparr>effects := effects st @ map Close_node nodes\<rparr>"

definition process_close_fds :: "u64 \<Rightarrow> task_state \<Rightarrow> task_state option" where
  "process_close_fds p st =
     (if p = 0 then Some st
      else do {
        proc \<leftarrow> processes st p;
        (case fds_of proc of
           None \<Rightarrow> Some st
         | Some fds \<Rightarrow>
             let st = close_nodes (map the (filter (\<lambda>h. h \<noteq> None) fds)) st;
                 st = (if exec_node proc \<noteq> 0 then effect (Close_node (exec_node proc)) st else st)
             in upd_process p (\<lambda>proc. proc\<lparr>fds_of := None, exec_node := 0\<rparr>) st)
      })"

definition release_process_fds_if_ready :: "u64 \<Rightarrow> task_state \<Rightarrow> task_state option" where
  "release_process_fds_if_ready p st = do {
     ready \<leftarrow> process_threads_reclaimed p st;
     if \<not> ready then Some st
     else do {
       (claimed, st) \<leftarrow> claim_process_fd_release p st;
       if \<not> claimed then Some st else process_close_fds p st
     }
   }"

definition destroy_process :: "u64 \<Rightarrow> task_state \<Rightarrow> task_state option" where
  "destroy_process p st =
     (if p = 0 then Some st
      else do {
        st \<leftarrow> process_close_fds p st;
        proc \<leftarrow> processes st p;
        _ \<leftarrow> (case threads_of proc of None \<Rightarrow> Some 0 | Some l \<Rightarrow> cow_list_destroy l);
        _ \<leftarrow> (case children_of proc of None \<Rightarrow> Some 0 | Some l \<Rightarrow> cow_list_destroy l);
        let st = (if mm_of proc \<noteq> 0 then effect (Release_mm (mm_of proc)) st else st);
        Some (effect (Free_process p) (st\<lparr>processes := (processes st)(p := None)\<rparr>))
      })"

text \<open>The first node of a retired list that is ready, and the list without it.\<close>

primrec take_ready :: "('n \<Rightarrow> bool option) \<Rightarrow> 'n list \<Rightarrow> ('n \<times> 'n list) option option" where
  "take_ready ready [] = Some None"
| "take_ready ready (n # ns) = do {
     r \<leftarrow> ready n;
     if r then Some (Some (n, ns))
     else do { found \<leftarrow> take_ready ready ns; Some (map_option (\<lambda>(m, rest). (m, n # rest)) found) }
   }"

partial_function (option) reap_threads :: "task_state \<Rightarrow> task_state option" where
  "reap_threads st = do {
     found \<leftarrow> take_ready (\<lambda>(t, epoch). thread_reclaim_ready t epoch st) (retired_threads st);
     (case found of
        None \<Rightarrow> Some st
      | Some ((t, epoch), rest) \<Rightarrow> do {
          th \<leftarrow> threads st t;
          st \<leftarrow> destroy_thread t (st\<lparr>retired_threads := rest\<rparr>);
          st \<leftarrow> (if th_process th \<noteq> 0
            then upd_process (th_process th) (\<lambda>p. p\<lparr>retired_threads_pending := retired_threads_pending p - 1\<rparr>) st else Some st);
          reap_threads st
        })
   }"

primrec release_zombie_fds :: "u64 list \<Rightarrow> task_state \<Rightarrow> task_state option" where
  "release_zombie_fds [] st = Some st"
| "release_zombie_fds (p # ps) st = do {
     proc \<leftarrow> processes st p;
     st \<leftarrow> (if status proc \<noteq> T_ZOMBIE then Some st else release_process_fds_if_ready p st);
     release_zombie_fds ps st
   }"

definition process_reclaim_ready :: "u64 \<Rightarrow> u64 list \<Rightarrow> task_state \<Rightarrow> bool option" where
  "process_reclaim_ready p epoch st = do {
     proc \<leftarrow> processes st p;
     Some (retired_threads_pending proc = 0 \<and> (case threads_of proc of None \<Rightarrow> False | Some l \<Rightarrow> cow_size l = 0) \<and>
       reclaim_epoch_elapsed epoch (cpus st))
   }"

partial_function (option) reap_processes :: "task_state \<Rightarrow> task_state option" where
  "reap_processes st = do {
     found \<leftarrow> take_ready (\<lambda>(p, epoch). process_reclaim_ready p epoch st) (retired_processes st);
     (case found of
        None \<Rightarrow> Some st
      | Some ((p, epoch), rest) \<Rightarrow> do {
          st \<leftarrow> release_process_fds_if_ready p (st\<lparr>retired_processes := rest\<rparr>);
          st \<leftarrow> destroy_process p st;
          reap_processes st
        })
   }"

definition task_reap_retired :: "task_state \<Rightarrow> task_state option" where
  "task_reap_retired st = do {
     st \<leftarrow> reap_threads st;
     ps \<leftarrow> cow_foreach (process_list st);
     st \<leftarrow> release_zombie_fds ps st;
     reap_processes st
   }"

subsection \<open>Exit\<close>

definition futex_mem :: "bool \<Rightarrow> futex_memory" where
  "futex_mem mem = \<lparr>create_ok = mem, buckets_ok = mem, entry_ok = mem, realloc_ok = mem, add_ok = mem, shift_ok = (\<lambda>_. mem), last_ok = mem\<rparr>"

definition remove_thread_from_process :: "bool \<Rightarrow> u64 \<Rightarrow> task_state \<Rightarrow> task_state option" where
  "remove_thread_from_process mem t st =
     (if t = 0 then Some st
      else do {
        th \<leftarrow> threads st t;
        if th_process th = 0 then Some st
        else do {
          proc \<leftarrow> processes st (th_process th);
          (case threads_of proc of
             None \<Rightarrow> Some st
           | Some l \<Rightarrow>
               if ct_index th \<ge> cow_size l then Some st
               else do {
                 item \<leftarrow> cow_list_get l (ct_index th);
                 if item \<noteq> Some t then Some st
                 else do {
                   (_, l) \<leftarrow> cow_list_remove (\<lambda>_. mem) mem l (ct_index th);
                   st \<leftarrow> upd_process (th_process th) (\<lambda>proc. proc\<lparr>threads_of := Some l\<rparr>) st;
                   refresh_child_thread_links (th_process th) st
                 }
               })
        }
      })"

definition get_reparent_target :: "u64 \<Rightarrow> task_state \<Rightarrow> u64 option" where
  "get_reparent_target p st =
     (if p = 0 then Some (kernel_process st)
      else do {
        proc \<leftarrow> processes st p;
        if parent proc = 0 then Some (kernel_process st)
        else do {
          pp \<leftarrow> processes st (parent proc);
          Some (if parent pp = 0 then kernel_process st else parent pp)
        }
      })"

partial_function (option) reparent_loop :: "bool \<Rightarrow> u64 \<Rightarrow> u64 \<Rightarrow> task_state \<Rightarrow> task_state option" where
  "reparent_loop mem p new_parent st = do {
     proc \<leftarrow> processes st p;
     l \<leftarrow> children_of proc;
     if cow_size l > 0 then do {
       child \<leftarrow> cow_list_get l 0;
       (_, l) \<leftarrow> cow_list_remove (\<lambda>_. mem) mem l 0;
       st \<leftarrow> upd_process p (\<lambda>proc. proc\<lparr>children_of := Some l\<rparr>) st;
       (case child of
          None \<Rightarrow> reparent_loop mem p new_parent st
        | Some c \<Rightarrow> do {
            st \<leftarrow> upd_process c (\<lambda>child. child\<lparr>parent := new_parent\<rparr>) st;
            np \<leftarrow> processes st new_parent;
            nl \<leftarrow> children_of np;
            (i, nl) \<leftarrow> cow_list_add mem mem nl (Some c);
            st \<leftarrow> upd_process new_parent (\<lambda>np. np\<lparr>children_of := Some nl\<rparr>) st;
            st \<leftarrow> upd_process c (\<lambda>child. child\<lparr>ppl_index := i\<rparr>) st;
            reparent_loop mem p new_parent st
          })
     }
     else Some st
   }"

definition reparent_process_children :: "bool \<Rightarrow> u64 \<Rightarrow> task_state \<Rightarrow> task_state option" where
  "reparent_process_children mem p st =
     (if p = 0 then Some st
      else do {
        proc \<leftarrow> processes st p;
        (case children_of proc of
           None \<Rightarrow> Some st
         | Some l \<Rightarrow>
             if cow_size l = 0 then Some st
             else do { new_parent \<leftarrow> get_reparent_target p st; reparent_loop mem p new_parent st })
      })"

definition kill_thread0 :: "bool \<Rightarrow> u64 \<Rightarrow> task_state \<Rightarrow> task_state option" where
  "kill_thread0 mem t st = do { st \<leftarrow> upd_thread t (set_status T_OUT) st; enqueue_retired_thread mem t st }"

definition claim_thread_exit :: "u64 \<Rightarrow> task_state \<Rightarrow> (bool \<times> task_state) option" where
  "claim_thread_exit t st = do {
     th \<leftarrow> threads st t;
     if t_status (th_tcb th) = T_DEATH \<or> t_status (th_tcb th) = T_OUT then Some (False, st)
     else do { st \<leftarrow> upd_thread t (set_status T_DEATH) st; Some (True, st) }
   }"

definition claim_process_zombie_exit :: "u64 \<Rightarrow> task_state \<Rightarrow> (bool \<times> task_state) option" where
  "claim_process_zombie_exit p st = do {
     proc \<leftarrow> processes st p;
     if status proc = T_DEATH \<or> status proc = T_OUT \<or> status proc = T_ZOMBIE then Some (False, st)
     else do { st \<leftarrow> upd_process p (\<lambda>proc. proc\<lparr>status := T_DEATH\<rparr>) st; Some (True, st) }
   }"

definition claim_process_reap :: "u64 \<Rightarrow> task_state \<Rightarrow> (bool \<times> task_state) option" where
  "claim_process_reap p st = do {
     proc \<leftarrow> processes st p;
     if status proc \<noteq> T_ZOMBIE then Some (False, st)
     else do { st \<leftarrow> upd_process p (\<lambda>proc. proc\<lparr>status := T_DEATH\<rparr>) st; Some (True, st) }
   }"

text \<open>\<open>translate\<close> is \<open>arch_virt_to_phys\<close> in a page directory.\<close>

definition clear_tid :: "(u64 \<Rightarrow> u64 \<Rightarrow> u64) \<Rightarrow> u64 \<Rightarrow> task_state \<Rightarrow> task_state option" where
  "clear_tid translate t st = do {
     th \<leftarrow> threads st t;
     if tid_directory th = 0 then Some st
     else
       let st = (if tid_address th \<noteq> 0 \<and> translate (tid_directory th) (tid_address th) \<noteq> 0
             then effect (Clear_tid (tid_directory th) (tid_address th)) st else st)
       in upd_thread t (\<lambda>th. th\<lparr>tid_address := 0, tid_directory := 0\<rparr>) st
   }"

definition kill_thread :: "bool \<Rightarrow> (u64 \<Rightarrow> u64 \<Rightarrow> u64) \<Rightarrow> u64 \<Rightarrow> task_state \<Rightarrow> task_state option" where
  "kill_thread mem translate t st =
     (if t = 0 then Some st
      else do {
        (claimed, st) \<leftarrow> claim_thread_exit t st;
        if \<not> claimed then Some st
        else do {
          st \<leftarrow> clear_tid translate t st;
          fs \<leftarrow> futex_free (futex_mem mem) (Some t) (futexes st);
          let st = st\<lparr>futexes := fs\<rparr>;
          th \<leftarrow> threads st t;
          st \<leftarrow> (if th_handle th \<noteq> None then scheduler_remove_task mem t (get_cpu_local (cpu_id th) (cpus st)) st else Some st);
          st \<leftarrow> remove_thread_from_process mem t st;
          st \<leftarrow> upd_thread t (set_status T_OUT) st;
          enqueue_retired_thread mem t st
        }
      })"

partial_function (option) drop_threads :: "bool \<Rightarrow> u64 \<Rightarrow> task_state \<Rightarrow> task_state option" where
  "drop_threads mem p st = do {
     proc \<leftarrow> processes st p;
     l \<leftarrow> threads_of proc;
     if cow_size l > 0 then do {
       item \<leftarrow> cow_list_get l 0;
       (_, l) \<leftarrow> cow_list_remove (\<lambda>_. mem) mem l 0;
       st \<leftarrow> upd_process p (\<lambda>proc. proc\<lparr>threads_of := Some l\<rparr>) st;
       (case item of
          None \<Rightarrow> drop_threads mem p st
        | Some t \<Rightarrow> do {
            th \<leftarrow> threads st t;
            st \<leftarrow> (if t_status (th_tcb th) \<noteq> T_OUT then kill_thread0 mem t st else Some st);
            drop_threads mem p st
          })
     }
     else Some st
   }"

definition kill_proc0 :: "bool \<Rightarrow> u64 \<Rightarrow> task_state \<Rightarrow> task_state option" where
  "kill_proc0 mem p st = do {
     st \<leftarrow> upd_process p (\<lambda>proc. proc\<lparr>status := T_OUT\<rparr>) st;
     st \<leftarrow> reparent_process_children mem p st;
     proc \<leftarrow> processes st p;
     pp \<leftarrow> processes st (parent proc);
     l \<leftarrow> children_of pp;
     (_, l) \<leftarrow> cow_list_remove (\<lambda>_. mem) mem l (ppl_index proc);
     st \<leftarrow> upd_process (parent proc) (\<lambda>pp. pp\<lparr>children_of := Some l\<rparr>) st;
     st \<leftarrow> refresh_child_process_links (parent proc) st;
     st \<leftarrow> drop_threads mem p st;
     (_, pl) \<leftarrow> cow_list_clear mem (Some (process_list st)) (pl_index proc);
     let st = effect (Lazy_free p) (effect (Procfs_exit p) (st\<lparr>process_list := the pl\<rparr>));
     proc \<leftarrow> processes st p;
     let st = close_nodes (filter (\<lambda>n. n \<noteq> 0) [cwd_node proc, root_node proc]) st;
     st \<leftarrow> upd_process p (\<lambda>proc. proc\<lparr>ipc_of := None, has_virt_queue := False, cwd_node := 0, root_node := 0\<rparr>) st;
     enqueue_retired_process mem p st
   }"

primrec kill_threads :: "bool \<Rightarrow> (u64 \<Rightarrow> u64 \<Rightarrow> u64) \<Rightarrow> u64 \<Rightarrow> nat list \<Rightarrow> task_state \<Rightarrow> task_state option" where
  "kill_threads mem translate p [] st = Some st"
| "kill_threads mem translate p (i # is) st = do {
     proc \<leftarrow> processes st p;
     l \<leftarrow> threads_of proc;
     item \<leftarrow> cow_list_get l (i - 1);
     st \<leftarrow> (case item of
        None \<Rightarrow> do {
          (_, l) \<leftarrow> cow_list_remove (\<lambda>_. mem) mem l (i - 1);
          st \<leftarrow> upd_process p (\<lambda>proc. proc\<lparr>threads_of := Some l\<rparr>) st;
          refresh_child_thread_links p st
        }
      | Some t \<Rightarrow> do {
          th \<leftarrow> threads st t;
          if t_status (th_tcb th) \<noteq> T_OUT then kill_thread mem translate t st else Some st
        });
     kill_threads mem translate p is st
   }"

text \<open>The bytes of the message behind the exit code are not initialised in the code and not read.\<close>

definition exit_message :: "u32 \<Rightarrow> u32 \<Rightarrow> ipc_message" where
  "exit_message i exit_code = \<lparr>msg_pid = i, msg_type = IPC_MSG_TYPE_EPID,
     msg_data = map (\<lambda>n. ucast (drop_bit (8 * n) exit_code AND 0xFF)) [0..<4] @ replicate 60 0\<rparr>"

definition message_exit_code :: "ipc_message \<Rightarrow> u32 option" where
  "message_exit_code m = do {
     d0 \<leftarrow> aget (msg_data m) 0;
     d1 \<leftarrow> aget (msg_data m) 1;
     d2 \<leftarrow> aget (msg_data m) 2;
     d3 \<leftarrow> aget (msg_data m) 3;
     Some (push_bit 24 (ucast d3) OR push_bit 16 (ucast d2) OR push_bit 8 (ucast d1) OR ucast d0)
   }"

definition send_message :: "u64 \<Rightarrow> ipc_message \<Rightarrow> task_state \<Rightarrow> task_state option" where
  "send_message p m st = do {
     proc \<leftarrow> processes st p;
     q \<leftarrow> ipc_of proc;
     (q, _) \<leftarrow> ipc_send q m;
     upd_process p (\<lambda>proc. proc\<lparr>ipc_of := Some q\<rparr>) st
   }"

definition kill_proc :: "bool \<Rightarrow> (u64 \<Rightarrow> u64 \<Rightarrow> u64) \<Rightarrow> u64 \<Rightarrow> u32 \<Rightarrow> bool \<Rightarrow> task_state \<Rightarrow> task_state option" where
  "kill_proc mem translate p exit_code is_zombie st =
     (if p = 0 then Some st
      else do {
        proc \<leftarrow> processes st p;
        kproc \<leftarrow> processes st (kernel_process st);
        if pid proc = pid kproc then Some st
        else do {
          let st = (if tty_of proc \<noteq> 0 \<and> fgproc st (tty_of proc) = pid proc then st\<lparr>fgproc := (fgproc st)(tty_of proc := 0)\<rparr> else st);
          if is_zombie then do {
            (claimed, st) \<leftarrow> claim_process_zombie_exit p st;
            if \<not> claimed then Some st
            else do {
              l \<leftarrow> threads_of proc;
              st \<leftarrow> kill_threads mem translate p (rev [1..<cow_size l + 1]) (st\<lparr>scheduler_status := False\<rparr>);
              st \<leftarrow> reparent_process_children mem p st;
              st \<leftarrow> upd_process p (\<lambda>proc. proc\<lparr>status := T_ZOMBIE\<rparr>) st;
              if \<not> mem then None
              else do {
                proc \<leftarrow> processes st p;
                st \<leftarrow> send_message (parent proc) (exit_message (pid proc) exit_code) st;
                let st = effect (Send_signal (parent proc) SIGCHLD) st;
                st \<leftarrow> upd_process (parent proc) (\<lambda>pp. pp\<lparr>cutime := cutime pp + utime proc\<rparr>) st;
                proc \<leftarrow> processes st p;
                st \<leftarrow> upd_process (parent proc) (\<lambda>pp. pp\<lparr>cstime := cstime pp + cstime proc\<rparr>) st;
                st \<leftarrow> upd_process p (\<lambda>proc. proc\<lparr>status := T_ZOMBIE\<rparr>) st;
                Some (st\<lparr>scheduler_status := True\<rparr>)
              }
            }
          }
          else do {
            (claimed, st) \<leftarrow> claim_process_reap p st;
            if \<not> claimed then Some st else kill_proc0 mem p st
          }
        }
      })"

text \<open>
  \<open>waitpid\<close>.  Without waiting it looks at each message that is there at the start at most once; a round of the waiting loop is a scan of
  one message, repeated until it finds the right one.
\<close>

definition receive :: "u64 \<Rightarrow> task_state \<Rightarrow> (ipc_message option \<times> task_state) option" where
  "receive p st = do {
     proc \<leftarrow> processes st p;
     q \<leftarrow> ipc_of proc;
     (q, m) \<leftarrow> ipc_recv q IPC_MSG_TYPE_EPID;
     st \<leftarrow> upd_process p (\<lambda>proc. proc\<lparr>ipc_of := Some q\<rparr>) st;
     Some (m, st)
   }"

primrec wait_scan :: "nat \<Rightarrow> u64 \<Rightarrow> u32 \<Rightarrow> task_state \<Rightarrow> (ipc_message option \<times> task_state) option" where
  "wait_scan 0 p target st = Some (None, st)"
| "wait_scan (Suc tries) p target st = do {
     (m, st) \<leftarrow> receive p st;
     (case m of
        None \<Rightarrow> Some (None, st)
      | Some msg \<Rightarrow>
          if target = - 1 \<or> target = msg_pid msg then Some (Some msg, st)
          else do { st \<leftarrow> send_message p msg st; wait_scan tries p target st })
   }"

text \<open>What both do with the message: a zombie is reaped, and the answer is the exit code and the process.\<close>

definition waitpid_finish :: "bool \<Rightarrow> (u64 \<Rightarrow> u64 \<Rightarrow> u64) \<Rightarrow> u64 \<Rightarrow> ipc_message \<Rightarrow> task_state \<Rightarrow> (u32 \<times> u32 \<times> task_state) option" where
  "waitpid_finish mem translate current m st = do {
     exit_code \<leftarrow> message_exit_code m;
     wait_p \<leftarrow> found_pcb (msg_pid m) st;
     st \<leftarrow> (case wait_p of
        None \<Rightarrow> Some st
      | Some wp \<Rightarrow> do {
          proc \<leftarrow> processes st wp;
          if status proc = T_ZOMBIE then kill_proc mem translate wp exit_code False st else Some st
        });
     st \<leftarrow> upd_thread current (set_status T_RUNNING) st;
     Some (exit_code, msg_pid m, st)
   }"

definition waitpid_nohang :: "bool \<Rightarrow> (u64 \<Rightarrow> u64 \<Rightarrow> u64) \<Rightarrow> u64 \<Rightarrow> u32 \<Rightarrow> task_state \<Rightarrow> (u32 \<times> u32 \<times> task_state) option" where
  "waitpid_nohang mem translate current target st = do {
     st \<leftarrow> upd_thread current (set_status T_WAIT) st;
     th \<leftarrow> threads st current;
     proc \<leftarrow> processes st (th_process th);
     q \<leftarrow> ipc_of proc;
     (m, st) \<leftarrow> wait_scan (iq_size q) (th_process th) target st;
     (case m of
        None \<Rightarrow> do { st \<leftarrow> upd_thread current (set_status T_RUNNING) st; Some (0, 0, st) }
      | Some msg \<Rightarrow> waitpid_finish mem translate current msg st)
   }"

section \<open>Exit codes\<close>

lemma bit_low_byte: "bit (ucast (ucast (x AND 0xFF :: u32) :: u8) :: u32) k \<longleftrightarrow> k < 8 \<and> bit x k"
proof -
  have "bit (0xFF :: u32) k \<longleftrightarrow> k < 8" using bit_mask_iff [of 8 k, where 'a = u32] by (auto simp: mask_eq_exp_minus_1)
  then show ?thesis by (auto simp: bit_simps)
qed

lemma exit_code_roundtrip: "message_exit_code (exit_message i c) = Some c"
proof -
  have "(push_bit 24 (ucast (ucast (drop_bit 24 c AND 0xFF) :: u8)) OR push_bit 16 (ucast (ucast (drop_bit 16 c AND 0xFF) :: u8)) OR
      push_bit 8 (ucast (ucast (drop_bit 8 c AND 0xFF) :: u8)) OR ucast (ucast (drop_bit 0 c AND 0xFF) :: u8)) = c"
    (is "?w = c")
  proof (rule bit_word_eqI)
    fix n assume "n < LENGTH(32)"
    then consider "n < 8" | "8 \<le> n" "n < 16" | "16 \<le> n" "n < 24" | "24 \<le> n" "n < 32" by fastforce
    then show "bit ?w n \<longleftrightarrow> bit c n"
      by cases (auto simp: bit_or_iff bit_push_bit_iff bit_low_byte bit_drop_bit_eq)
  qed
  then show ?thesis by (simp add: message_exit_code_def exit_message_def aget_def numeral_eq_Suc)
qed

section \<open>A thread is killed once\<close>

lemma enqueue_retired_thread_spec:
  assumes "enqueue_retired_thread mem t st = Some st'" "t \<noteq> 0"
  shows "threads st' = threads st" "retired_threads st' = (t, capture_reclaim_epoch (cpus st)) # retired_threads st"
    "cpus st' = cpus st" "sleep_list st' = sleep_list st"
  using assms by (auto simp: enqueue_retired_thread_def upd_process_def split: bind_splits if_splits)

lemma kill_thread_status:
  assumes "kill_thread mem translate t st = Some st'" "t \<noteq> 0"
  obtains th where "threads st' t = Some th" "t_status (th_tcb th) = T_OUT \<or> t_status (th_tcb th) = T_DEATH"
proof -
  obtain th where th: "threads st t = Some th" using assms by (auto simp: kill_thread_def claim_thread_exit_def split: bind_splits)
  show ?thesis
  proof (cases "t_status (th_tcb th) = T_DEATH \<or> t_status (th_tcb th) = T_OUT")
    case True
    then have "st' = st" using assms th by (auto simp: kill_thread_def claim_thread_exit_def)
    then show ?thesis using that th True by auto
  next
    case False
    then obtain st1 st2 where "upd_thread t (set_status T_OUT) st1 = Some st2" "enqueue_retired_thread mem t st2 = Some st'"
      using assms th by (auto simp: kill_thread_def claim_thread_exit_def Let_def split: bind_splits)
    then show ?thesis using that enqueue_retired_thread_spec(1) [OF _ assms(2)]
      by (auto simp: upd_thread_def set_status_def split: bind_splits)
  qed
qed

lemma kill_thread_again:
  assumes "threads st t = Some th" "t_status (th_tcb th) = T_OUT \<or> t_status (th_tcb th) = T_DEATH"
  shows "kill_thread mem translate t st = Some st"
  using assms by (auto simp: kill_thread_def claim_thread_exit_def)

section \<open>Reaping\<close>

text \<open>Every retired thread is there once, with its object and its process.\<close>

definition retired_ok :: "task_state \<Rightarrow> bool" where
  "retired_ok st \<longleftrightarrow> distinct (map fst (retired_threads st)) \<and>
     (\<forall>(t, epoch)\<in>set (retired_threads st). \<exists>th. t \<noteq> 0 \<and> threads st t = Some th \<and> (th_process th \<noteq> 0 \<longrightarrow> processes st (th_process th) \<noteq> None))"

definition ready :: "task_state \<Rightarrow> u64 \<times> u64 list \<Rightarrow> bool" where
  "ready st n \<longleftrightarrow> thread_reclaim_ready (fst n) (snd n) st = Some True"

lemma take_ready_spec:
  assumes "\<And>n. n \<in> set ns \<Longrightarrow> r n = Some (P n)"
  shows "take_ready r ns = Some (if \<exists>n\<in>set ns. P n then Some (hd (filter P ns), takeWhile (\<lambda>n. \<not> P n) ns @ tl (dropWhile (\<lambda>n. \<not> P n) ns)) else None)"
  using assms by (induction ns) auto

lemma ready_total: "n \<in> set (retired_threads st) \<Longrightarrow> retired_ok st \<Longrightarrow> thread_reclaim_ready (fst n) (snd n) st = Some (ready st n)"
  by (cases n) (auto simp: retired_ok_def ready_def thread_reclaim_ready_def split: option.splits if_splits dest!: bspec)

lemma free_stack_fields [simp]:
  "threads (free_stack s st) = threads st" "cpus (free_stack s st) = cpus st" "processes (free_stack s st) = processes st"
  "retired_threads (free_stack s st) = retired_threads st" "sleep_list (free_stack s st) = sleep_list st"
  "entities (free_stack s st) = entities st" "next_entity (free_stack s st) = next_entity st"
  by (simp_all add: free_stack_def effect_def)

lemma destroy_thread_spec:
  assumes "threads st t = Some th" "t \<noteq> 0"
  obtains st' where "destroy_thread t st = Some st'" "threads st' = (threads st)(t := None)" "cpus st' = cpus st"
    "processes st' = processes st" "retired_threads st' = retired_threads st" "sleep_list st' = sleep_list st"
    "entities st' = entities st" "next_entity st' = next_entity st"
  using assms by (auto simp: destroy_thread_def Let_def effect_def)

text \<open>One round of the loop: the first ready thread is freed and its process has one thread less to wait for.\<close>

lemma reap_round:
  assumes "retired_ok st" "retired_threads st = pre @ (t, epoch) # post" "\<forall>n\<in>set pre. \<not> ready st n" "ready st (t, epoch)"
  obtains st1 where "reap_threads st = reap_threads st1" "retired_ok st1" "retired_threads st1 = pre @ post"
    "threads st1 = (threads st)(t := None)" "cpus st1 = cpus st" "sleep_list st1 = sleep_list st" "entities st1 = entities st" "next_entity st1 = next_entity st"
    "\<And>n. n \<in> set (pre @ post) \<Longrightarrow> ready st1 n = ready st n"
proof -
  have "(t, epoch) \<in> set (retired_threads st)" using assms(2) by simp
  then obtain th where th: "threads st t = Some th" "t \<noteq> 0" "th_process th \<noteq> 0 \<Longrightarrow> processes st (th_process th) \<noteq> None"
    using assms(1) by (auto simp: retired_ok_def)
  have found: "take_ready (\<lambda>(t, epoch). thread_reclaim_ready t epoch st) (retired_threads st) = Some (Some ((t, epoch), pre @ post))"
  proof -
    have "filter (ready st) pre = []" "takeWhile (\<lambda>n. \<not> ready st n) pre = pre" "dropWhile (\<lambda>n. \<not> ready st n) pre = []"
      using assms(3) by (simp_all add: filter_empty_conv)
    then show ?thesis using take_ready_spec [of "retired_threads st" "\<lambda>(t, epoch). thread_reclaim_ready t epoch st" "ready st"]
        ready_total [OF _ assms(1)] assms(2-4) by (auto simp: split_beta takeWhile_append2 dropWhile_append2)
  qed
  obtain st2 where st2: "destroy_thread t (st\<lparr>retired_threads := pre @ post\<rparr>) = Some st2" "threads st2 = (threads st)(t := None)" "cpus st2 = cpus st"
    "processes st2 = processes st" "retired_threads st2 = pre @ post" "sleep_list st2 = sleep_list st" "entities st2 = entities st" "next_entity st2 = next_entity st"
    using destroy_thread_spec [of "st\<lparr>retired_threads := pre @ post\<rparr>" t th] th by auto
  obtain st1 where st1: "(if th_process th \<noteq> 0
      then upd_process (th_process th) (\<lambda>p. p\<lparr>retired_threads_pending := retired_threads_pending p - 1\<rparr>) st2 else Some st2) = Some st1"
    "threads st1 = threads st2" "cpus st1 = cpus st2" "retired_threads st1 = retired_threads st2" "sleep_list st1 = sleep_list st2" "entities st1 = entities st2" "next_entity st1 = next_entity st2"
    "\<And>p. processes st1 p = None \<longleftrightarrow> processes st p = None"
    using th(3) st2(4) by (cases "th_process th = 0") (auto simp: upd_process_def)
  have run: "reap_threads st = reap_threads st1" using found th(1) st2(1) st1(1) by (subst reap_threads.simps) simp
  have other: "fst n \<noteq> t" if "n \<in> set (pre @ post)" for n
    using assms(1,2) that by (auto simp: retired_ok_def image_iff)
  have "retired_ok st1" unfolding retired_ok_def
  proof (intro conjI ballI)
    show "distinct (map fst (retired_threads st1))" using assms(1,2) st1(4) st2(5) by (auto simp: retired_ok_def)
    fix n assume "n \<in> set (retired_threads st1)"
    then have n: "n \<in> set (retired_threads st)" "fst n \<noteq> t" using other st1(4) st2(5) assms(2) by auto
    then show "case n of (t, epoch) \<Rightarrow> \<exists>th. t \<noteq> 0 \<and> threads st1 t = Some th \<and> (th_process th \<noteq> 0 \<longrightarrow> processes st1 (th_process th) \<noteq> None)"
      using assms(1) st1(2,8) st2(2) unfolding retired_ok_def by (cases n) (auto dest!: bspec)
  qed
  moreover have "ready st1 n = ready st n" if "n \<in> set (pre @ post)" for n
    unfolding ready_def thread_reclaim_ready_def st1(2,3) st2(2,3) using other [OF that] by simp
  ultimately show ?thesis using that run st1 st2 by simp
qed

lemma reap_threads_spec:
  assumes "retired_ok st"
  shows "\<exists>st'. reap_threads st = Some st' \<and> retired_ok st' \<and> retired_threads st' = filter (\<lambda>n. \<not> ready st n) (retired_threads st) \<and>
    (\<forall>t. threads st' t = (if \<exists>epoch. (t, epoch) \<in> set (retired_threads st) \<and> ready st (t, epoch) then None else threads st t)) \<and>
    cpus st' = cpus st \<and> sleep_list st' = sleep_list st \<and> entities st' = entities st \<and> next_entity st' = next_entity st"
  using assms
proof (induction "length (retired_threads st)" arbitrary: st rule: less_induct)
  case less
  show ?case
  proof (cases "\<exists>n\<in>set (retired_threads st). ready st n")
    case False
    then have "reap_threads st = Some st"
      using take_ready_spec [of "retired_threads st" "\<lambda>(t, epoch). thread_reclaim_ready t epoch st" "ready st"] ready_total [OF _ less.prems]
      by (subst reap_threads.simps) (auto simp: split_beta)
    moreover have "filter (\<lambda>n. \<not> ready st n) (retired_threads st) = retired_threads st" using False by (simp add: filter_id_conv)
    ultimately show ?thesis using less.prems False by auto
  next
    case True
    then obtain pre n post where split: "retired_threads st = pre @ n # post" "ready st n" "\<forall>m\<in>set pre. \<not> ready st m"
      using split_list_first_prop [of "retired_threads st" "ready st"] by blast
    obtain t epoch where n: "n = (t, epoch)" by fastforce
    obtain st1 where st1: "reap_threads st = reap_threads st1" "retired_ok st1" "retired_threads st1 = pre @ post"
      "threads st1 = (threads st)(t := None)" "cpus st1 = cpus st" "sleep_list st1 = sleep_list st" "entities st1 = entities st" "next_entity st1 = next_entity st"
      "\<And>n. n \<in> set (pre @ post) \<Longrightarrow> ready st1 n = ready st n"
      using reap_round [OF less.prems split(1) [unfolded n] split(3) split(2) [unfolded n]] by metis
    obtain st' where st': "reap_threads st1 = Some st'" "retired_ok st'" "retired_threads st' = filter (\<lambda>n. \<not> ready st1 n) (pre @ post)"
      "\<And>u. threads st' u = (if \<exists>epoch. (u, epoch) \<in> set (pre @ post) \<and> ready st1 (u, epoch) then None else threads st1 u)"
      "cpus st' = cpus st" "sleep_list st' = sleep_list st" "entities st' = entities st" "next_entity st' = next_entity st"
      using less.hyps [of st1] st1 split(1) by auto
    have "filter (\<lambda>n. \<not> ready st1 n) (pre @ post) = filter (\<lambda>n. \<not> ready st n) (pre @ post)" by (rule filter_cong) (simp_all only: st1(9))
    then have "filter (\<lambda>n. \<not> ready st1 n) (pre @ post) = filter (\<lambda>n. \<not> ready st n) (retired_threads st)" using split(1,2) by simp
    moreover have "threads st' u = (if \<exists>epoch. (u, epoch) \<in> set (retired_threads st) \<and> ready st (u, epoch) then None else threads st u)" for u
      unfolding st'(4) using st1(4,9) split(1,2) n by auto
    ultimately show ?thesis using st1(1) st' by auto
  qed
qed

section \<open>A killed sleeper\<close>

lemma wake_task_frame:
  assumes "sleep_wake_task mem u st = Some st'"
  shows "sleep_list st' = sleep_list st" "t \<noteq> u \<Longrightarrow> threads st' t = threads st t"
  using assms by (auto simp: sleep_wake_task_def local_of_def add_rrs_entity_def set_rrs_def upd_thread_def Let_def list_enqueue_def
      split: bind_splits if_splits)

definition freed_sleeper :: "u64 \<Rightarrow> nat \<Rightarrow> 'a sched_state_scheme \<Rightarrow> bool" where
  "freed_sleeper t i st \<longleftrightarrow> (\<exists>l. sleep_list st = Some l \<and> queue_ok l \<and> t \<in> set (drop i (waiting l))) \<and> threads st t = None"

text \<open>The loop cannot end in a state whose list has a freed thread still to come.\<close>

lemma check_loop_freed: "check_loop True now i st = Some st' \<Longrightarrow> \<not> freed_sleeper t i st"
proof -
  have step: "\<not> (mem \<and> freed_sleeper t i st)"
    if IH: "\<And>mem now i st y. loop mem now i st = Some y \<Longrightarrow> \<not> (mem \<and> freed_sleeper t i st)"
      and body: "do {
       l \<leftarrow> sleep_list st;
       if i < cow_size l then do {
         item \<leftarrow> cow_list_get l i;
         (case item of
            None \<Rightarrow> do { (_, l) \<leftarrow> cow_list_remove (\<lambda>_. mem) mem l i; loop mem now i (st\<lparr>sleep_list := Some l\<rparr>) }
          | Some t \<Rightarrow> do {
              th \<leftarrow> threads st t;
              wake \<leftarrow> (if sleep_deadline th \<le> now then Some True else signals_pending_quick signal_init (th_tcb th));
              if wake then do {
                (_, l) \<leftarrow> cow_list_remove (\<lambda>_. mem) mem l i;
                th \<leftarrow> woken_thread th;
                st \<leftarrow> sleep_wake_task mem t (st\<lparr>sleep_list := Some l, threads := (threads st)(t \<mapsto> th)\<rparr>);
                loop mem now i st
              }
              else loop mem now (i + 1) st
            })
       }
       else Some st
     } = Some y"
    for loop :: "bool \<Rightarrow> u64 \<Rightarrow> nat \<Rightarrow> 'a sched_state_scheme \<Rightarrow> 'a sched_state_scheme option" and mem now i st y
  proof
    assume "mem \<and> freed_sleeper t i st"
    then obtain l where m: mem and l: "sleep_list st = Some l" "queue_ok l" "t \<in> set (drop i (waiting l))" "threads st t = None"
      by (auto simp: freed_sleeper_def)
    have i: "i < cow_size l" using l(3) by (metis drop_all length_waiting not_le list.set(1) empty_iff)
    let ?u = "waiting l ! i"
    have get: "cow_list_get l i = Some (Some ?u)" using queue_get [OF l(2) i] .
    have split: "drop i (waiting l) = ?u # drop (Suc i) (waiting l)" using i by (simp add: Cons_nth_drop_Suc)
    from body l(1) i get obtain th wake where th: "threads st ?u = Some th" and
      wake: "(if sleep_deadline th \<le> now then Some True else signals_pending_quick signal_init (th_tcb th)) = Some wake"
      by (auto split: bind_splits if_splits)
    have ne: "t \<noteq> ?u" using th l(4) by auto
    then have rest: "t \<in> set (drop (Suc i) (waiting l))" using l(3) split by auto
    show False
    proof (cases wake)
      case False
      then have "loop mem now (i + 1) st = Some y" using body l(1) i get th wake by simp
      from IH [OF this] m l rest show ?thesis by (auto simp: freed_sleeper_def)
    next
      case True
      obtain x l' where l': "cow_list_remove (\<lambda>_. True) True l i = Some (x, l')" "queue_ok l'" "waiting l' = take i (waiting l) @ drop (Suc i) (waiting l)"
        using queue_remove [OF l(2) i] .
      from body l(1) i get th wake True l'(1) m obtain th1 st1 where st1:
        "sleep_wake_task mem ?u (st\<lparr>sleep_list := Some l', threads := (threads st)(?u \<mapsto> th1)\<rparr>) = Some st1" "loop mem now i st1 = Some y"
        by (auto split: bind_splits)
      have "drop i (waiting l') = drop (Suc i) (waiting l)" using l'(3) i by simp
      then show ?thesis using IH [OF st1(2)] m l'(2) wake_task_frame [OF st1(1)] rest ne l(4) by (auto simp: freed_sleeper_def)
    qed
  qed
  show "check_loop True now i st = Some st' \<Longrightarrow> \<not> freed_sleeper t i st"
    using check_loop.raw_induct [where P = "\<lambda>mem now i st y. \<not> (mem \<and> freed_sleeper t i st)"] step by blast
qed

text \<open>What the steps of \<open>kill_thread\<close> leave alone when the thread has no entity: the sleep list, the processors and the retired list.\<close>

definition quiet :: "task_state \<Rightarrow> task_state \<Rightarrow> bool" where
  "quiet st st' \<longleftrightarrow> sleep_list st' = sleep_list st \<and> cpus st' = cpus st \<and> retired_threads st' = retired_threads st \<and>
     (\<forall>t. map_option (\<lambda>th. (th_handle th, cpu_id th)) (threads st' t) = map_option (\<lambda>th. (th_handle th, cpu_id th)) (threads st t))"

lemma quiet_refl [simp]: "quiet st st"
  by (simp add: quiet_def)

lemma quiet_trans: "quiet a b \<Longrightarrow> quiet b c \<Longrightarrow> quiet a c"
  by (simp add: quiet_def)

lemma quiet_upd_thread:
  "upd_thread t f st = Some st' \<Longrightarrow> (\<And>th. th_handle (f th) = th_handle th \<and> cpu_id (f th) = cpu_id th) \<Longrightarrow> quiet st st'"
  by (auto simp: quiet_def upd_thread_def split: bind_splits)

lemma quiet_upd_process: "upd_process p f st = Some st' \<Longrightarrow> quiet st st'"
  by (auto simp: quiet_def upd_process_def split: bind_splits)

lemma quiet_refresh: "refresh_threads l is st = Some st' \<Longrightarrow> quiet st st'"
proof (induction "is" arbitrary: st)
  case (Cons i "is")
  then obtain item st1 where "(case item of None \<Rightarrow> Some st | Some t \<Rightarrow> upd_thread t (\<lambda>th. th\<lparr>ct_index := i\<rparr>) st) = Some st1"
    "refresh_threads l is st1 = Some st'" by (auto split: bind_splits)
  then show ?case using Cons.IH by (auto intro: quiet_trans dest!: quiet_upd_thread split: option.splits)
qed simp

lemma quiet_remove_thread: "remove_thread_from_process mem t st = Some st' \<Longrightarrow> quiet st st'"
  by (auto simp: remove_thread_from_process_def refresh_child_thread_links_def split: bind_splits if_splits option.splits
      intro: quiet_trans dest!: quiet_upd_process quiet_refresh)

lemma kill_thread_without_entity:
  assumes "kill_thread mem translate t st = Some st'" "t \<noteq> 0" "threads st t = Some th" "th_handle th = None"
    "t_status (th_tcb th) \<noteq> T_DEATH" "t_status (th_tcb th) \<noteq> T_OUT"
  shows "sleep_list st' = sleep_list st" "cpus st' = cpus st" "retired_threads st' = (t, capture_reclaim_epoch (cpus st)) # retired_threads st"
proof -
  obtain st1 where st1: "upd_thread t (set_status T_DEATH) st = Some st1" using assms(3) by (simp add: upd_thread_def)
  have q1: "quiet st st1" using st1 by (rule quiet_upd_thread) (simp add: set_status_def)
  obtain st2 where st2: "clear_tid translate t st1 = Some st2"
    using assms st1 by (auto simp: kill_thread_def claim_thread_exit_def split: bind_splits)
  have q2: "quiet st1 st2" using st2
    by (auto simp: clear_tid_def Let_def effect_def upd_thread_def quiet_def split: bind_splits if_splits)
  then have "quiet st st2" using q1 quiet_trans by blast
  then have "map_option (\<lambda>th. (th_handle th, cpu_id th)) (threads st2 t) = Some (None, cpu_id th)" using assms(3,4) by (simp add: quiet_def)
  then obtain fs st3 st4 where r: "futex_free (futex_mem mem) (Some t) (futexes st2) = Some fs"
    "remove_thread_from_process mem t (st2\<lparr>futexes := fs\<rparr>) = Some st3" "upd_thread t (set_status T_OUT) st3 = Some st4"
    "enqueue_retired_thread mem t st4 = Some st'"
    using assms st1 st2 by (auto simp: kill_thread_def claim_thread_exit_def Let_def split: bind_splits)
  have "quiet st2 (st2\<lparr>futexes := fs\<rparr>)" by (simp add: quiet_def)
  moreover have "quiet st3 st4" using r(3) by (rule quiet_upd_thread) (simp add: set_status_def)
  ultimately have "quiet st st4" using \<open>quiet st st2\<close> quiet_remove_thread [OF r(2)] quiet_trans by blast
  then show "sleep_list st' = sleep_list st" "cpus st' = cpus st" "retired_threads st' = (t, capture_reclaim_epoch (cpus st)) # retired_threads st"
    using enqueue_retired_thread_spec [OF r(4) assms(2)] by (simp_all add: quiet_def)
qed

section \<open>Properties\<close>


text \<open>
  A thread is killed once: a second \<open>kill_thread\<close>, by whatever caller, changes nothing, so the thread is retired and freed once.
\<close>

theorem kill_thread_once:
  assumes "kill_thread mem translate t st = Some st'" "t \<noteq> 0"
  shows "kill_thread mem' translate' t st' = Some st'"
proof -
  obtain th where "threads st' t = Some th" "t_status (th_tcb th) = T_OUT \<or> t_status (th_tcb th) = T_DEATH"
    using kill_thread_status [OF assms] .
  then show ?thesis by (rule kill_thread_again)
qed

text \<open>
  C37: Killing a sleeping thread leaves it in the sleep list, because \<open>kill_thread\<close> calls \<open>scheduler_remove_task\<close> only for a thread with an
  entity and a sleeping one has none.  When the thread has been freed after the next ticks, the following \<open>scheduler_check_sleep\<close> reads the
  freed object.
\<close>

theorem killed_sleeper_read_after_free:
  assumes "sleep_ok st" "t \<in> set (sleepers st)" "threads st t = Some th" "t_status (th_tcb th) \<notin> {T_DEATH, T_OUT}"
    "kill_thread mem translate t st = Some st1" "retired_ok (st1\<lparr>cpus := cs\<rparr>)" "ready (st1\<lparr>cpus := cs\<rparr>) (t, capture_reclaim_epoch (cpus st))"
  shows "\<exists>st2. reap_threads (st1\<lparr>cpus := cs\<rparr>) = Some st2 \<and> threads st2 t = None \<and> t \<in> set (sleepers st2) \<and>
    scheduler_check_sleep True True now st2 = None"
proof -
  have t: "th_handle th = None" "t \<noteq> 0" using sleeper [OF assms(1,2)] assms(3) by auto
  obtain l where l: "sleep_list st = Some l" "t \<in> set (waiting l)" using assms(2) by (cases "sleep_list st") (auto simp: sleepers_def)
  have q: "queue_ok l" using assms(1) l(1) by (simp add: sleep_ok_def)
  have k: "sleep_list st1 = Some l" "retired_threads st1 = (t, capture_reclaim_epoch (cpus st)) # retired_threads st"
    using kill_thread_without_entity [OF assms(5) t(2) assms(3) t(1)] assms(4) l(1) by auto
  obtain st2 where st2: "reap_threads (st1\<lparr>cpus := cs\<rparr>) = Some st2" "sleep_list st2 = Some l"
    "\<And>u. threads st2 u = (if \<exists>epoch. (u, epoch) \<in> set (retired_threads st1) \<and> ready (st1\<lparr>cpus := cs\<rparr>) (u, epoch) then None else threads (st1\<lparr>cpus := cs\<rparr>) u)"
    using reap_threads_spec [OF assms(6)] k(1) by auto
  have gone: "threads st2 t = None" using st2(3) [of t] k(2) assms(7) by auto
  have "freed_sleeper t 0 st2" using st2(2) q l(2) gone by (simp add: freed_sleeper_def)
  then have "check_loop True now 0 st2 = None" using check_loop_freed by (metis option.exhaust)
  moreover have "cow_size l \<noteq> 0" using l(2) by (metis length_waiting length_0_conv empty_iff list.set(1))
  ultimately show ?thesis using st2(1,2) gone l(2) by (auto simp: scheduler_check_sleep_def sleepers_def)
qed

text \<open>A processor with its idle thread 1 and thread 2 asleep until 100.\<close>

definition sleep_list_of_2 :: "u64 cow_arraylist" where
  "sleep_list_of_2 = snd (the (cow_list_add True True (the (cow_list_create True True)) (Some 2)))"

definition example_tasks :: task_state where
  "example_tasks = \<lparr>entities = [0 \<mapsto> \<lparr>se_thread = 1, se_node = Some 0\<rparr>], next_entity = 1,
     threads = [1 \<mapsto> example_thread, 2 \<mapsto> sleep_info 100 example_thread],
     cpus = [example_cpu\<lparr>cpu_rrs := \<lparr>sched_queue = \<lparr>lq_nodes = [(0, 0)], lq_tail = Some 0, lq_size = 1, next_node = 1\<rparr>, rrs_idle = 0, rrs_curr = 0\<rparr>\<rparr>],
     sleep_list = Some sleep_list_of_2, processes = Map.empty, process_list = the (cow_list_create True True), retired_threads = [],
     retired_processes = [], futexes = sample_futexes, fgproc = (\<lambda>_. 0), kernel_process = 0, now_pid = 0, scheduler_status = True, effects = []\<rparr>"

lemma sleep_list_of_2_ok: "queue_ok sleep_list_of_2" "waiting sleep_list_of_2 = [2]"
proof -
  obtain l :: "u64 cow_arraylist" where l: "cow_list_create True True = Some l" by (simp add: cow_list_create_def)
  then have q: "queue_ok l" "waiting l = []" using cow_list_create_ok [of l] by (auto simp: queue_ok_def waiting_def)
  obtain l' where "cow_list_add True True l (Some 2) = Some (cow_size l, l')" "queue_ok l'" "waiting l' = waiting l @ [2]"
    using queue_add [OF q(1)] .
  then show "queue_ok sleep_list_of_2" "waiting sleep_list_of_2 = [2]" using l q(2) by (simp_all add: sleep_list_of_2_def)
qed

lemma example_tasks_ok: "sleep_ok example_tasks" "sleepers example_tasks = [2]"
proof -
  show s: "sleepers example_tasks = [2]" by (simp add: example_tasks_def sleepers_def sleep_list_of_2_ok)
  have v: "view example_tasks = \<lparr>runs = (\<lambda>c. []), sleeping = [2], infos = [1 \<mapsto> example_thread, 2 \<mapsto> sleep_info 100 example_thread],
      place = (\<lambda>i. if i = 5 then Some 0 else None)\<rparr>"
    using s by (auto simp: view_def fun_eq_iff sleepers_def info_def example_tasks_def sleep_info_def set_status_def example_defs
        get_cpu_local_def run_queue_def run_entities_def queue_of_def lq_data_def)
  have "view_ok (view example_tasks)" unfolding v by (auto simp: view_ok_def example_thread_def sleep_info_def set_status_def)
  moreover have "sched_ok example_tasks" unfolding sched_ok_def handles_ok_def
    by (auto simp: example_tasks_def sleep_info_def set_status_def example_defs cpu_ok_def run_queue_def run_entities_def queue_of_def lq_wf_def
        lq_data_def get_cpu_local_def split: if_splits)
  moreover have "sleep_list example_tasks = Some sleep_list_of_2" by (simp add: example_tasks_def)
  ultimately show "sleep_ok example_tasks" using sleep_list_of_2_ok by (simp add: sleep_ok_def)
qed

lemma example_kill:
  obtains st1 where "kill_thread True (\<lambda>_ _. 0) 2 example_tasks = Some st1" "retired_threads st1 = [(2, capture_reclaim_epoch (cpus example_tasks))]"
    "threads st1 2 = Some (set_status T_OUT (set_status T_DEATH (sleep_info 100 example_thread)))"
proof -
  have f: "futex_free (futex_mem True) (Some 2) sample_futexes = Some sample_futexes"
    by (simp add: futex_free_def sample_futexes_def sample_map_def)
  have "threads example_tasks 2 = Some (sleep_info 100 example_thread)" "futexes example_tasks = sample_futexes"
    by (simp_all add: example_tasks_def)
  moreover have "t_status (th_tcb (sleep_info 100 example_thread)) = T_WAIT" "th_handle (sleep_info 100 example_thread) = None"
    "th_process (sleep_info 100 example_thread) = 0" "tid_directory (sleep_info 100 example_thread) = 0"
    by (simp_all add: sleep_info_def set_status_def example_thread_def)
  ultimately show ?thesis using that f
    by (simp add: kill_thread_def claim_thread_exit_def clear_tid_def upd_thread_def remove_thread_from_process_def enqueue_retired_thread_def
        set_status_def example_tasks_def)
qed

definition example_ticked :: "cpu_local list" where
  "example_ticked = [(hd (cpus example_tasks))\<lparr>jiffies := 1\<rparr>]"

lemma example_retired:
  assumes "retired_threads st1 = [(2, capture_reclaim_epoch (cpus example_tasks))]"
    "threads st1 2 = Some (set_status T_OUT (set_status T_DEATH (sleep_info 100 example_thread)))"
  shows "retired_ok (st1\<lparr>cpus := example_ticked\<rparr>)" "ready (st1\<lparr>cpus := example_ticked\<rparr>) (2, capture_reclaim_epoch (cpus example_tasks))"
proof -
  show "retired_ok (st1\<lparr>cpus := example_ticked\<rparr>)"
    using assms by (simp add: retired_ok_def set_status_def sleep_info_def example_thread_def)
  have "cpu_id (set_status T_OUT (set_status T_DEATH (sleep_info 100 example_thread))) = 5" by (simp add: set_status_def sleep_info_def example_thread_def)
  moreover have "get_cpu_local 5 example_ticked = Some 0" "current_task (example_ticked ! 0) = 1"
    by (simp_all add: example_ticked_def example_tasks_def example_cpu_def get_cpu_local_def)
  moreover have "reclaim_epoch_elapsed (capture_reclaim_epoch (cpus example_tasks)) example_ticked"
    by (simp add: reclaim_epoch_elapsed_def capture_reclaim_epoch_def example_ticked_def example_tasks_def example_cpu_def)
  ultimately show "ready (st1\<lparr>cpus := example_ticked\<rparr>) (2, capture_reclaim_epoch (cpus example_tasks))"
    using assms by (simp add: ready_def thread_reclaim_ready_def)
qed


theorem kill_thread_once_witness:
  "\<exists>st1. kill_thread True (\<lambda>_ _. 0) 2 example_tasks = Some st1 \<and> kill_thread True (\<lambda>_ _. 0) 2 st1 = Some st1 \<and> st1 \<noteq> example_tasks"
proof -
  obtain st1 where st1: "kill_thread True (\<lambda>_ _. 0) 2 example_tasks = Some st1" "retired_threads st1 = [(2, capture_reclaim_epoch (cpus example_tasks))]"
    using example_kill by metis
  then have "st1 \<noteq> example_tasks" by (auto simp: example_tasks_def)
  then show ?thesis using kill_thread_once [OF st1(1), of True "\<lambda>_ _. 0"] st1(1) by simp
qed

theorem killed_sleeper_read_after_free_witness:
  "\<exists>st1 st2. kill_thread True (\<lambda>_ _. 0) 2 example_tasks = Some st1 \<and> reap_threads (st1\<lparr>cpus := example_ticked\<rparr>) = Some st2 \<and>
     threads st2 2 = None \<and> scheduler_check_sleep True True 50 st2 = None"
proof -
  obtain st1 where st1: "kill_thread True (\<lambda>_ _. 0) 2 example_tasks = Some st1" "retired_threads st1 = [(2, capture_reclaim_epoch (cpus example_tasks))]"
    "threads st1 2 = Some (set_status T_OUT (set_status T_DEATH (sleep_info 100 example_thread)))" using example_kill .
  have t: "2 \<in> set (sleepers example_tasks)" "threads example_tasks 2 = Some (sleep_info 100 example_thread)"
    "t_status (th_tcb (sleep_info 100 example_thread)) \<notin> {T_DEATH, T_OUT}"
    using example_tasks_ok(2) by (simp_all add: example_tasks_def sleep_info_def set_status_def)
  from killed_sleeper_read_after_free [OF example_tasks_ok(1) t st1(1) example_retired [OF st1(2,3)]] show ?thesis using st1(1) by blast
qed

section \<open>Exit messages\<close>

definition exits :: "ipc_queue \<Rightarrow> ipc_message list" where
  "exits q = filter (\<lambda>m. msg_type m = IPC_MSG_TYPE_EPID) (iq_contents q)"

lemma receive_spec:
  assumes "processes st p = Some proc" "ipc_of proc = Some q" "iq_wf q" "exits q = m # ms"
  obtains q' where "receive p st = Some (Some m, st\<lparr>processes := (processes st)(p \<mapsto> proc\<lparr>ipc_of := Some q'\<rparr>)\<rparr>)" "iq_wf q'" "exits q' = ms"
    "mset (iq_contents q) = add_mset m (mset (iq_contents q'))"
proof -
  have "m \<in> set (exits q)" using assms(4) by simp
  then have some: "\<not> (\<forall>m\<in>set (iq_contents q). msg_type m \<noteq> IPC_MSG_TYPE_EPID)" by (auto simp: exits_def)
  obtain q' r where q': "ipc_recv q IPC_MSG_TYPE_EPID = Some (q', r)" "iq_wf q'"
    "case r of None \<Rightarrow> (\<forall>m\<in>set (iq_contents q). msg_type m \<noteq> IPC_MSG_TYPE_EPID) \<and> iq_contents q' = iq_contents q
     | Some m \<Rightarrow> \<exists>pre post. iq_contents q = pre @ m # post \<and> msg_type m = IPC_MSG_TYPE_EPID \<and>
         (\<forall>x\<in>set pre. msg_type x \<noteq> IPC_MSG_TYPE_EPID) \<and> iq_contents q' = post @ pre"
    using ipc_recv_spec [OF assms(3)] by blast
  then obtain m' pre post where r: "r = Some m'" "iq_contents q = pre @ m' # post" "msg_type m' = IPC_MSG_TYPE_EPID"
    "\<forall>x\<in>set pre. msg_type x \<noteq> IPC_MSG_TYPE_EPID" "iq_contents q' = post @ pre"
    using some by (cases r) auto
  have "filter (\<lambda>m. msg_type m = IPC_MSG_TYPE_EPID) pre = []" using r(4) by (simp add: filter_empty_conv)
  then have "m' = m" "exits q' = ms" using assms(4) r by (simp_all add: exits_def)
  then show ?thesis using that [of q'] q'(1,2) r assms(1,2) by (simp add: receive_def upd_process_def)
qed

lemma send_spec:
  assumes "processes st p = Some proc" "ipc_of proc = Some q" "iq_wf q" "iq_size q < IPC_QUEUE_CAPACITY"
  obtains q' where "send_message p m st = Some (st\<lparr>processes := (processes st)(p \<mapsto> proc\<lparr>ipc_of := Some q'\<rparr>)\<rparr>)" "iq_wf q'"
    "iq_contents q' = iq_contents q @ [m]"
proof -
  have cap: "iq_capacity q = IPC_QUEUE_CAPACITY" using assms(3) by (simp add: iq_wf_def)
  obtain q1 i where q1: "ipc_queue_enqueue q m = Some (q1, i)" "iq_wf (spin_unlock q1)" "iq_contents (spin_unlock q1) = iq_contents q @ [m]"
    using enqueue_spec [OF assms(3), of m] assms(4) cap by auto
  then show ?thesis using that [of "spin_unlock q1"] assms(1,2) by (simp add: send_message_def ipc_send_def upd_process_def)
qed

lemma wait_scan_spec:
  assumes "processes st p = Some proc" "ipc_of proc = Some q" "iq_wf q" "exits q = es @ m # fs" "target = - 1 \<or> target = msg_pid m"
    "\<forall>x\<in>set es. \<not> (target = - 1 \<or> target = msg_pid x)" "length es < n"
  shows "\<exists>q'. wait_scan n p target st = Some (Some m, st\<lparr>processes := (processes st)(p \<mapsto> proc\<lparr>ipc_of := Some q'\<rparr>)\<rparr>) \<and> iq_wf q' \<and>
    mset (iq_contents q) = add_mset m (mset (iq_contents q'))"
  using assms
proof (induction es arbitrary: n st proc q fs)
  case Nil
  obtain k where n: "n = Suc k" using Nil.prems(7) by (cases n) auto
  from receive_spec [OF Nil.prems(1-3), of m fs] Nil.prems(4) obtain q' where
    "receive p st = Some (Some m, st\<lparr>processes := (processes st)(p \<mapsto> proc\<lparr>ipc_of := Some q'\<rparr>)\<rparr>)" "iq_wf q'"
    "mset (iq_contents q) = add_mset m (mset (iq_contents q'))" by auto
  then show ?case using Nil.prems(5) n by (intro exI [of _ q']) (auto simp del: fun_upd_apply)
next
  case (Cons x es)
  obtain k where n: "n = Suc k" "length es < k" using Cons.prems(7) by (cases n) auto
  from receive_spec [OF Cons.prems(1-3), of x "es @ m # fs"] Cons.prems(4) obtain q1 where
    q1: "receive p st = Some (Some x, st\<lparr>processes := (processes st)(p \<mapsto> proc\<lparr>ipc_of := Some q1\<rparr>)\<rparr>)" "iq_wf q1" "exits q1 = es @ m # fs"
    "mset (iq_contents q) = add_mset x (mset (iq_contents q1))" by auto
  let ?st1 = "st\<lparr>processes := (processes st)(p \<mapsto> proc\<lparr>ipc_of := Some q1\<rparr>)\<rparr>"
  have "size (mset (iq_contents q)) = Suc (size (mset (iq_contents q1)))" by (simp add: q1(4))
  then have room: "iq_size q1 < IPC_QUEUE_CAPACITY" using Cons.prems(3) by (simp add: iq_wf_def)
  obtain q2 where q2: "send_message p x ?st1 = Some (st\<lparr>processes := (processes st)(p \<mapsto> proc\<lparr>ipc_of := Some q2\<rparr>)\<rparr>)" "iq_wf q2"
    "iq_contents q2 = iq_contents q1 @ [x]"
    using send_spec [of ?st1 p "proc\<lparr>ipc_of := Some q1\<rparr>" q1 x] q1(2) room by auto
  have "exits q2 = es @ m # (fs @ [x])" "msg_type x = IPC_MSG_TYPE_EPID"
  proof -
    have "x \<in> set (exits q)" using Cons.prems(4) by simp
    then show "msg_type x = IPC_MSG_TYPE_EPID" by (simp add: exits_def)
    then show "exits q2 = es @ m # (fs @ [x])" using q1(3) q2(3) by (simp add: exits_def)
  qed
  let ?st2 = "st\<lparr>processes := (processes st)(p \<mapsto> proc\<lparr>ipc_of := Some q2\<rparr>)\<rparr>"
  have "\<exists>q'. wait_scan k p target ?st2 = Some (Some m, ?st2\<lparr>processes := (processes ?st2)(p \<mapsto> proc\<lparr>ipc_of := Some q2\<rparr>\<lparr>ipc_of := Some q'\<rparr>)\<rparr>) \<and> iq_wf q' \<and>
    mset (iq_contents q2) = add_mset m (mset (iq_contents q'))"
    using Cons.prems(5,6) n(2) q2(2) \<open>exits q2 = es @ m # (fs @ [x])\<close> by (intro Cons.IH [of ?st2]) auto
  moreover have "wait_scan n p target st = wait_scan k p target ?st2" using n(1) q1(1) q2(1) Cons.prems(6) by auto
  ultimately show ?case using q1(4) q2(3) by (auto simp del: fun_upd_apply)
qed

text \<open>
  C18: The exit status of a process reaches its parent: after \<open>kill_proc\<close> has queued the exit message of process \<open>i\<close> with code \<open>c\<close>, for which
  the queue has room, the scan of \<open>waitpid\<close> for \<open>i\<close> finds that message, whatever other messages are queued, decodes \<open>c\<close> from its bytes and
  leaves exactly the other messages.
\<close>

theorem exit_status_delivered:
  assumes "processes st p = Some proc" "ipc_of proc = Some q" "iq_wf q" "iq_size q < IPC_QUEUE_CAPACITY"
    "\<forall>m\<in>set (exits q). msg_pid m \<noteq> i" "i \<noteq> - 1"
  shows "\<exists>st1 st2 m q2. send_message p (exit_message i c) st = Some st1 \<and> wait_scan (iq_size q + 1) p i st1 = Some (Some m, st2) \<and>
    msg_pid m = i \<and> message_exit_code m = Some c \<and> ipc_of (the (processes st2 p)) = Some q2 \<and> mset (iq_contents q2) = mset (iq_contents q)"
proof -
  let ?m = "exit_message i c"
  obtain q1 where q1: "send_message p ?m st = Some (st\<lparr>processes := (processes st)(p \<mapsto> proc\<lparr>ipc_of := Some q1\<rparr>)\<rparr>)" "iq_wf q1"
    "iq_contents q1 = iq_contents q @ [?m]" using send_spec [OF assms(1-4)] .
  let ?st1 = "st\<lparr>processes := (processes st)(p \<mapsto> proc\<lparr>ipc_of := Some q1\<rparr>)\<rparr>"
  have "exits q1 = exits q @ ?m # []" using q1(3) by (simp add: exits_def exit_message_def)
  moreover have "length (exits q) < iq_size q + 1" using length_filter_le [of _ "iq_contents q"] by (simp add: exits_def less_Suc_eq_le)
  ultimately have "\<exists>q'. wait_scan (iq_size q + 1) p i ?st1 =
      Some (Some ?m, ?st1\<lparr>processes := (processes ?st1)(p \<mapsto> proc\<lparr>ipc_of := Some q1\<rparr>\<lparr>ipc_of := Some q'\<rparr>)\<rparr>) \<and> iq_wf q' \<and>
      mset (iq_contents q1) = add_mset ?m (mset (iq_contents q'))"
    using assms(5,6) q1(2) by (intro wait_scan_spec) (auto simp: exit_message_def)
  then obtain q2 where "wait_scan (iq_size q + 1) p i ?st1 = Some (Some ?m, ?st1\<lparr>processes := (processes ?st1)(p \<mapsto> proc\<lparr>ipc_of := Some q1\<rparr>\<lparr>ipc_of := Some q2\<rparr>)\<rparr>)"
    "mset (iq_contents q1) = add_mset ?m (mset (iq_contents q2))" by blast
  moreover have "msg_pid ?m = i" by (simp add: exit_message_def)
  ultimately show ?thesis using q1(1,3) exit_code_roundtrip by fastforce
qed

definition example_process :: "ipc_queue \<Rightarrow> process" where
  "example_process q = \<lparr>pid = 1, parent = 0, pl_index = 0, ppl_index = 0, threads_of = None, children_of = None, status = T_RUNNING, utime = 0, stime = 0,
     cutime = 0, cstime = 0, ipc_of = Some q, has_virt_queue = False, fds_of = None, exec_node = 0, cwd_node = 0, root_node = 0, mm_of = 0, tty_of = 0,
     retired_threads_pending = 0, exit_fds_released = False\<rparr>"

theorem exit_status_delivered_witness:
  "\<exists>st st1 st2 m. send_message 9 (exit_message 7 0xFFFFFF85) st = Some st1 \<and> wait_scan 3 9 7 st1 = Some (Some m, st2) \<and>
     msg_pid m = 7 \<and> message_exit_code m = Some 0xFFFFFF85"
proof -
  obtain q where q: "iq_wf q" "iq_contents q = [demo_message 1, exit_message 6 1]" by (rule demo_ipc [of "[demo_message 1, exit_message 6 1]"]) simp_all
  let ?st = "example_tasks\<lparr>processes := [9 \<mapsto> example_process q]\<rparr>"
  have s: "iq_size q = 2" using q(2) by (metis length_iq_contents length_Cons list.size(3) One_nat_def Suc_1)
  have "\<forall>m\<in>set (exits q). msg_pid m \<noteq> 7" using q(2) by (auto simp: exits_def exit_message_def demo_message_def)
  then show ?thesis using exit_status_delivered [of ?st 9 "example_process q" q 7 "0xFFFFFF85"] q(1) s by (auto simp: example_process_def)
qed

end
