(* ===== verification/Family.thy ===== *)
theory Family
  imports Task
begin

text \<open>
  Parents and children: the list of children of a process and the back links \<open>parent\<close> and \<open>ppl_index\<close> of each child agree, and an exiting
  process hands its children to the parent of its parent.
\<close>

section \<open>Definitions\<close>

definition alloc_pid :: "task_state \<Rightarrow> u32 \<times> task_state" where
  "alloc_pid st = (now_pid st, st\<lparr>now_pid := now_pid st + 1\<rparr>)"

text \<open>
  \<open>create_process\<close>: \<open>a\<close> is the address of the new process, \<open>root\<close> the answer of \<open>get_rootdir\<close> and \<open>new_mm\<close> that of \<open>mm_clone\<close>, 0 when it fails; with
  \<open>CLONE_VM\<close> the address space of the parent is shared.  The answer is the process id, or \<open>-ENOMEM\<close>.
\<close>

definition new_process :: "u32 \<Rightarrow> u64 \<Rightarrow> process \<Rightarrow> nat \<Rightarrow> nat \<Rightarrow> u64 \<Rightarrow> u64 \<Rightarrow> (ipc_message \<times> u64) list \<Rightarrow> u64 cow_arraylist \<Rightarrow> process" where
  "new_process i p pp pli ppli root mm junk l = \<lparr>pid = i, parent = p, pl_index = pli, ppl_index = ppli, threads_of = Some l, children_of = Some l,
     status = T_CREATE, utime = 0, stime = 0, cutime = 0, cstime = 0, ipc_of = Some (ipc_queue_init junk), has_virt_queue = True,
     fds_of = Some (replicate 5 None), exec_node = 0, cwd_node = root, root_node = root, mm_of = mm, tty_of = tty_of pp, retired_threads_pending = 0,
     exit_fds_released = False\<rparr>"

definition undo_process :: "u64 \<Rightarrow> u64 \<Rightarrow> process \<Rightarrow> task_state \<Rightarrow> task_state option" where
  "undo_process a p proc st = do {
     pp \<leftarrow> processes st p;
     l \<leftarrow> children_of pp;
     (_, l) \<leftarrow> cow_list_remove (\<lambda>_. True) True l (ppl_index proc);
     st \<leftarrow> upd_process p (\<lambda>pp. pp\<lparr>children_of := Some l\<rparr>) st;
     st \<leftarrow> refresh_child_process_links p st;
     (_, pl) \<leftarrow> cow_list_clear True (Some (process_list st)) (pl_index proc);
     let st = close_nodes (filter (\<lambda>n. n \<noteq> 0) [cwd_node proc, root_node proc]) (st\<lparr>process_list := the pl\<rparr>);
     Some (st\<lparr>processes := (processes st)(a := None)\<rparr>)
   }"

definition create_process ::
  "bool \<Rightarrow> u64 \<Rightarrow> u64 \<Rightarrow> (ipc_message \<times> u64) list \<Rightarrow> u64 \<Rightarrow> bool \<Rightarrow> u64 \<Rightarrow> task_state \<Rightarrow> (int \<times> task_state) option" where
  "create_process calloc_ok a root junk new_mm clone_vm p st =
     (if \<not> calloc_ok then Some (- 12, st)
      else do {
        (pli, pl) \<leftarrow> cow_list_add True True (process_list st) (Some a);
        let (i, st) = alloc_pid (st\<lparr>process_list := pl\<rparr>);
        let p = (if p = 0 then kernel_process st else p);
        pp \<leftarrow> processes st p;
        l \<leftarrow> cow_list_create True True;
        cl \<leftarrow> children_of pp;
        (ppli, cl) \<leftarrow> cow_list_add True True cl (Some a);
        let mm = (if clone_vm then mm_of pp else new_mm);
        let st = (if clone_vm \<and> mm \<noteq> 0 then effect (Retain_mm mm) st else st);
        let proc = new_process i p pp pli ppli root mm junk l;
        let st = st\<lparr>processes := (processes st)(p \<mapsto> pp\<lparr>children_of := Some cl\<rparr>, a \<mapsto> proc)\<rparr>;
        if mm = 0 then do { st \<leftarrow> undo_process a p proc st; Some (- 12, st) } else Some (sint i, st)
      })"

section \<open>Children and their links\<close>

definition child_list :: "u64 \<Rightarrow> task_state \<Rightarrow> u64 list" where
  "child_list p st = (case processes st p of None \<Rightarrow> [] | Some proc \<Rightarrow> (case children_of proc of None \<Rightarrow> [] | Some l \<Rightarrow> waiting l))"

text \<open>\<open>x\<close> is a process whose children may carry outdated indices, 0 for none.\<close>

definition links_but :: "u64 \<Rightarrow> task_state \<Rightarrow> bool" where
  "links_but x st \<longleftrightarrow> (\<forall>p proc. processes st p = Some proc \<longrightarrow> (\<exists>l. children_of proc = Some l \<and> queue_ok l \<and> distinct (waiting l) \<and>
     (\<forall>i<length (waiting l). \<exists>child. processes st (waiting l ! i) = Some child \<and> parent child = p \<and> (p \<noteq> x \<longrightarrow> ppl_index child = i))))"

abbreviation links_ok :: "task_state \<Rightarrow> bool" where
  "links_ok st \<equiv> links_but 0 st \<and> processes st 0 = None"

lemma links_butD:
  assumes "links_but x st" "processes st p = Some proc"
  obtains l where "children_of proc = Some l" "queue_ok l" "distinct (waiting l)" "child_list p st = waiting l"
    "\<And>i. i < length (waiting l) \<Longrightarrow> \<exists>child. processes st (waiting l ! i) = Some child \<and> parent child = p \<and> (p \<noteq> x \<longrightarrow> ppl_index child = i)"
  using assms unfolding links_but_def child_list_def by (metis (mono_tags, lifting) option.simps(5))

lemma child_of:
  assumes "links_but x st" "c \<in> set (child_list p st)"
  obtains child where "processes st c = Some child" "parent child = p" "processes st p \<noteq> None"
proof -
  obtain proc where proc: "processes st p = Some proc" using assms(2) by (cases "processes st p") (auto simp: child_list_def)
  obtain l where "child_list p st = waiting l"
    "\<And>i. i < length (waiting l) \<Longrightarrow> \<exists>child. processes st (waiting l ! i) = Some child \<and> parent child = p \<and> (p \<noteq> x \<longrightarrow> ppl_index child = i)"
    using links_butD [OF assms(1) proc] by metis
  then show ?thesis using assms(2) that proc by (metis in_set_conv_nth option.distinct(1))
qed

text \<open>A child moves from the front of the list of \<open>p\<close> to the end of the list of \<open>np\<close>.\<close>

lemma move_child:
  assumes "links_but p st" "processes st p = Some proc" "processes st np = Some nproc" "np \<noteq> p" "parent proc \<noteq> p" "parent nproc \<noteq> p"
    "child_list p st = c # cs" "p \<noteq> 0"
  obtains st' where "reparent_loop True p np st = reparent_loop True p np st'" "links_but p st'" "child_list p st' = cs"
    "child_list np st' = child_list np st @ [c]" "\<And>q. q \<noteq> p \<Longrightarrow> q \<noteq> np \<Longrightarrow> child_list q st' = child_list q st"
    "\<exists>proc'. processes st' p = Some proc' \<and> parent proc' = parent proc" "\<exists>nproc'. processes st' np = Some nproc' \<and> parent nproc' = parent nproc"
    "\<And>q. processes st' q = None \<longleftrightarrow> processes st q = None" "threads st' = threads st"
proof -
  obtain l where l: "children_of proc = Some l" "queue_ok l" "distinct (waiting l)" "waiting l = c # cs"
    using links_butD [OF assms(1,2)] assms(7) by metis
  obtain nl where nl: "children_of nproc = Some nl" "queue_ok nl" "distinct (waiting nl)" "child_list np st = waiting nl"
    using links_butD [OF assms(1,3)] by metis
  have "c \<in> set (child_list p st)" using assms(7) by simp
  then obtain child where c: "processes st c = Some child" "parent child = p" using child_of [OF assms(1)] by metis
  have cp: "c \<noteq> p" "c \<noteq> np" using c assms(2,3,5,6) by auto
  have size: "0 < cow_size l" using l(4) length_waiting [of l] by simp
  obtain x l' where l': "cow_list_remove (\<lambda>_. True) True l 0 = Some (x, l')" "queue_ok l'" "waiting l' = cs"
    using queue_remove [OF l(2) size] l(4) by auto
  obtain nl' where nl': "cow_list_add True True nl (Some c) = Some (cow_size nl, nl')" "queue_ok nl'" "waiting nl' = waiting nl @ [c]"
    using queue_add [OF nl(2)] .
  define proc' nproc' child' where "proc' = proc\<lparr>children_of := Some l'\<rparr>" and "nproc' = nproc\<lparr>children_of := Some nl'\<rparr>"
    and "child' = child\<lparr>parent := np, ppl_index := cow_size nl\<rparr>"
  define st' where "st' = st\<lparr>processes := (processes st)(p \<mapsto> proc', c \<mapsto> child\<lparr>parent := np\<rparr>, np \<mapsto> nproc', c \<mapsto> child')\<rparr>"
  have run: "reparent_loop True p np st = reparent_loop True p np st'"
    using assms(2-4) cp l(1,4) l'(1) nl(1) nl'(1) c(1) size queue_get [OF l(2) size]
    by (subst reparent_loop.simps) (simp add: upd_process_def st'_def proc'_def nproc'_def child'_def fun_upd_twist)
  have ps: "processes st' q = (if q = c then Some child' else if q = np then Some nproc' else if q = p then Some proc' else processes st q)" for q
    by (simp add: st'_def)
  have notin: "c \<notin> set (child_list q st)" if "q \<noteq> p" for q using that child_of [OF assms(1)] c by (metis option.inject)
  have cls: "child_list q st' = (if q = p then cs else if q = np then child_list np st @ [c] else child_list q st)" for q
    using cp assms(2-4) c(1) l'(3) nl'(3) nl by (auto simp: child_list_def ps proc'_def nproc'_def child'_def)
  have keep: "\<exists>d'. processes st' u = Some d' \<and> parent d' = parent d \<and> ppl_index d' = ppl_index d" if "u \<noteq> c" "processes st u = Some d" for u d
    using that assms(2,3) by (auto simp: ps proc'_def nproc'_def)
  have old: "\<exists>d. processes st' (waiting ql ! i) = Some d \<and> parent d = q \<and> (q \<noteq> p \<longrightarrow> ppl_index d = i)"
    if q: "processes st q = Some qproc" "children_of qproc = Some ql" "i < length (waiting ql)" "waiting ql ! i \<noteq> c" for q qproc ql i
  proof -
    obtain d where "processes st (waiting ql ! i) = Some d" "parent d = q" "q \<noteq> p \<longrightarrow> ppl_index d = i"
      using links_butD [OF assms(1) q(1)] q(2,3) by (metis option.inject)
    then show ?thesis using keep [OF q(4)] by metis
  qed
  have "links_but p st'" unfolding links_but_def
  proof (intro allI impI)
    fix q qproc assume q: "processes st' q = Some qproc"
    consider "q = p" | "q = np" | "q \<noteq> p" "q \<noteq> np" by blast
    then show "\<exists>l. children_of qproc = Some l \<and> queue_ok l \<and> distinct (waiting l) \<and>
        (\<forall>i<length (waiting l). \<exists>child. processes st' (waiting l ! i) = Some child \<and> parent child = q \<and> (q \<noteq> p \<longrightarrow> ppl_index child = i))"
    proof cases
      case 1
      have "\<exists>d. processes st' (cs ! i) = Some d \<and> parent d = p" if "i < length cs" for i
      proof -
        have "cs ! i \<noteq> c" using l(3,4) that by (metis distinct.simps(2) nth_mem)
        then show ?thesis using old [OF assms(2) l(1), of "Suc i"] l(4) that by (auto simp del: length_waiting)
      qed
      moreover have "children_of qproc = Some l'" using 1 q cp assms(4) by (auto simp: ps proc'_def)
      ultimately show ?thesis using 1 l(3,4) l'(2,3) by (intro exI [of _ l']) (simp del: length_waiting)
    next
      case 2
      have "c \<notin> set (waiting nl)" using notin [of np] assms(4) nl(4) by simp
      moreover have "\<exists>d. processes st' (waiting nl ! i) = Some d \<and> parent d = np \<and> ppl_index d = i" if "i < length (waiting nl)" for i
        using old [OF assms(3) nl(1) that] that \<open>c \<notin> set (waiting nl)\<close> assms(4) by (metis nth_mem)
      moreover have "processes st' c = Some child'" by (simp add: ps)
      moreover have "children_of qproc = Some nl'" using 2 q cp by (auto simp: ps nproc'_def)
      ultimately show ?thesis using 2 nl(3) nl'(2,3)
        by (intro exI [of _ nl']) (auto simp: nth_append child'_def less_Suc_eq simp del: length_waiting, simp)
    next
      case 3
      obtain qproc0 where q0: "processes st q = Some qproc0" "children_of qproc = children_of qproc0"
        using q 3 c(1) by (auto simp: ps child'_def split: if_splits)
      obtain ql where ql: "children_of qproc0 = Some ql" "queue_ok ql" "distinct (waiting ql)" "child_list q st = waiting ql"
        using links_butD [OF assms(1) q0(1)] by metis
      have "c \<notin> set (waiting ql)" using notin [OF 3(1)] ql(4) by simp
      then show ?thesis using q0(2) ql old [OF q0(1) ql(1)] by (metis nth_mem)
    qed
  qed
  moreover have "processes st' u = None \<longleftrightarrow> processes st u = None" for u using assms(2,3) c(1) by (simp add: ps)
  moreover have "\<exists>proc'. processes st' p = Some proc' \<and> parent proc' = parent proc" "\<exists>nproc'. processes st' np = Some nproc' \<and> parent nproc' = parent nproc"
    using keep assms(2,3) cp by metis+
  ultimately show ?thesis using that [OF run] cls assms(4) by (simp add: st'_def)
qed

lemma reparent_loop_spec:
  assumes "links_but p st" "processes st p = Some proc" "processes st np = Some nproc" "np \<noteq> p" "parent proc \<noteq> p" "parent nproc \<noteq> p" "p \<noteq> 0"
  shows "\<exists>st'. reparent_loop True p np st = Some st' \<and> links_but p st' \<and> child_list p st' = [] \<and>
    child_list np st' = child_list np st @ child_list p st \<and> (\<forall>q. q \<noteq> p \<and> q \<noteq> np \<longrightarrow> child_list q st' = child_list q st) \<and>
    (\<forall>q. processes st' q = None \<longleftrightarrow> processes st q = None) \<and> threads st' = threads st"
  using assms
proof (induction "child_list p st" arbitrary: st proc nproc)
  case Nil
  obtain l where l: "children_of proc = Some l" "waiting l = []" using links_butD [OF Nil.prems(1,2)] Nil.hyps by metis
  then have "cow_size l = 0" using length_waiting [of l] by simp
  then have "reparent_loop True p np st = Some st" using Nil.prems(2) l(1) by (subst reparent_loop.simps) simp
  then show ?case using Nil by auto
next
  case (Cons c cs)
  obtain st1 where st1: "reparent_loop True p np st = reparent_loop True p np st1" "links_but p st1" "child_list p st1 = cs"
    "child_list np st1 = child_list np st @ [c]" "\<And>q. q \<noteq> p \<Longrightarrow> q \<noteq> np \<Longrightarrow> child_list q st1 = child_list q st"
    "\<exists>proc'. processes st1 p = Some proc' \<and> parent proc' = parent proc" "\<exists>nproc'. processes st1 np = Some nproc' \<and> parent nproc' = parent nproc"
    "\<And>q. processes st1 q = None \<longleftrightarrow> processes st q = None" "threads st1 = threads st"
    using move_child [OF Cons.prems(1-6) Cons.hyps(2) [symmetric] Cons.prems(7)] by metis
  obtain proc1 nproc1 where p1: "processes st1 p = Some proc1" "parent proc1 \<noteq> p" "processes st1 np = Some nproc1" "parent nproc1 \<noteq> p"
    using st1(6,7) Cons.prems(5,6) by auto
  from Cons.hyps(1) [OF st1(3) [symmetric] st1(2) p1(1,3) Cons.prems(4) p1(2,4) Cons.prems(7)]
  show ?case using st1 Cons.hyps(2) [symmetric] by auto
qed

lemma links_weaken: "links_but 0 st \<Longrightarrow> processes st 0 = None \<Longrightarrow> links_but p st"
  by (fastforce simp: links_but_def)

lemma links_strengthen:
  assumes "links_but p st" "child_list p st = []"
  shows "links_but 0 st"
  unfolding links_but_def
proof (intro allI impI)
  fix q proc assume q: "processes st q = Some proc"
  obtain l where l: "children_of proc = Some l" "queue_ok l" "distinct (waiting l)" "child_list q st = waiting l"
    "\<And>i. i < length (waiting l) \<Longrightarrow> \<exists>child. processes st (waiting l ! i) = Some child \<and> parent child = q \<and> (q \<noteq> p \<longrightarrow> ppl_index child = i)"
    using links_butD [OF assms(1) q] by metis
  show "\<exists>l. children_of proc = Some l \<and> queue_ok l \<and> distinct (waiting l) \<and>
    (\<forall>i<length (waiting l). \<exists>child. processes st (waiting l ! i) = Some child \<and> parent child = q \<and> (q \<noteq> 0 \<longrightarrow> ppl_index child = i))"
  proof (cases "q = p")
    case True
    then show ?thesis using l assms(2) by (intro exI [of _ l]) simp
  next
    case False
    then show ?thesis using l by (intro exI [of _ l]) auto
  qed
qed

section \<open>Properties\<close>

text \<open>
  An exiting process hands all its children to the parent of its parent: the loop ends, the children are appended to the list of the
  new parent in their order, the process has none left, no other list changes, and the back links of every child agree with the lists again.
\<close>

theorem reparent_moves_children:
  assumes "links_ok st" "processes st p = Some proc" "get_reparent_target p st = Some np" "processes st np = Some nproc" "np \<noteq> p"
    "parent proc \<noteq> p" "parent nproc \<noteq> p"
  shows "\<exists>st'. reparent_process_children True p st = Some st' \<and> links_ok st' \<and> child_list p st' = [] \<and>
    child_list np st' = child_list np st @ child_list p st \<and> (\<forall>q. q \<noteq> p \<and> q \<noteq> np \<longrightarrow> child_list q st' = child_list q st) \<and> threads st' = threads st"
proof -
  have p0: "p \<noteq> 0" using assms(1,2) by auto
  have ok: "links_but p st" using assms(1) links_weaken by blast
  obtain l where l: "children_of proc = Some l" "child_list p st = waiting l" using links_butD [OF ok assms(2)] by metis
  show ?thesis
  proof (cases "cow_size l = 0")
    case True
    then have "child_list p st = []" using l(2) by (metis length_waiting length_0_conv)
    then show ?thesis using True p0 assms(1,2) l(1) by (simp add: reparent_process_children_def)
  next
    case False
    obtain st' where st': "reparent_loop True p np st = Some st'" "links_but p st'" "child_list p st' = []"
      "child_list np st' = child_list np st @ child_list p st" "\<And>q. q \<noteq> p \<Longrightarrow> q \<noteq> np \<Longrightarrow> child_list q st' = child_list q st"
      "\<And>q. processes st' q = None \<longleftrightarrow> processes st q = None" "threads st' = threads st"
      using reparent_loop_spec [OF ok assms(2,4-7) p0] by auto
    moreover have "reparent_process_children True p st = reparent_loop True p np st"
      using False p0 assms(2,3) l(1) by (simp add: reparent_process_children_def)
    ultimately show ?thesis using links_strengthen [OF st'(2,3)] assms(1) by auto
  qed
qed

lemma queue_exists: "\<exists>l. queue_ok l \<and> waiting l = ts"
proof (induction ts rule: rev_induct)
  case Nil
  obtain l :: "u64 cow_arraylist" where l: "cow_list_create True True = Some l" by (simp add: cow_list_create_def)
  then show ?case using cow_list_create_ok [of l] by (auto simp: queue_ok_def waiting_def)
next
  case (snoc t ts)
  then show ?case using queue_add by metis
qed

definition example_child :: "u64 \<Rightarrow> nat \<Rightarrow> u64 cow_arraylist \<Rightarrow> process" where
  "example_child p i l = (example_process (ipc_queue_init []))\<lparr>parent := p, ppl_index := i, children_of := Some l\<rparr>"

theorem reparent_moves_children_witness:
  "\<exists>st st'. child_list 24 st = [32, 40] \<and> reparent_process_children True 24 st = Some st' \<and> child_list 8 st' = [16, 32, 40] \<and> child_list 24 st' = []"
proof -
  obtain l0 l1 l2 l3 where l: "queue_ok l0" "waiting l0 = []" "queue_ok l1" "waiting l1 = [16]" "queue_ok l2" "waiting l2 = [24]"
    "queue_ok l3" "waiting l3 = [32, 40]" using queue_exists by metis
  define st where "st = example_tasks\<lparr>kernel_process := 8, processes := [8 \<mapsto> example_child 8 0 l1, 16 \<mapsto> example_child 8 0 l2,
    24 \<mapsto> example_child 16 0 l3, 32 \<mapsto> example_child 24 0 l0, 40 \<mapsto> example_child 24 1 l0]\<rparr>"
  have "links_ok st" using l by (auto simp: links_but_def st_def example_child_def less_Suc_eq simp del: length_waiting split: if_splits)
  moreover have "get_reparent_target 24 st = Some 8" by (simp add: get_reparent_target_def st_def example_child_def)
  moreover have ps: "processes st 24 = Some (example_child 16 0 l3)" "processes st 8 = Some (example_child 8 0 l1)" by (simp_all add: st_def)
  moreover have "parent (example_child 16 0 l3) = 16" "parent (example_child 8 0 l1) = 8" by (simp_all add: example_child_def)
  moreover have "child_list 24 st = [32, 40]" "child_list 8 st = [16]" using ps l by (simp_all add: child_list_def example_child_def)
  ultimately show ?thesis using reparent_moves_children [of st 24 "example_child 16 0 l3" 8 "example_child 8 0 l1"] by auto
qed

section \<open>Creating a process\<close>

lemma refresh_same:
  assumes "queue_ok l" "\<forall>i\<in>set is. i < length (waiting l) \<and> (\<exists>child. processes st (waiting l ! i) = Some child \<and> parent child = p \<and> ppl_index child = i)"
  shows "refresh_children p l is st = Some st"
  using assms(2)
proof (induction "is")
  case (Cons i "is")
  then obtain child where c: "processes st (waiting l ! i) = Some child" "parent child = p" "ppl_index child = i" "i < cow_size l" by auto
  have "child\<lparr>parent := p, ppl_index := i\<rparr> = child" using c by (cases child) simp
  then have "upd_process (waiting l ! i) (\<lambda>child. child\<lparr>parent := p, ppl_index := i\<rparr>) st = Some st"
    using c(1) by (simp add: upd_process_def fun_upd_idem)
  then show ?case using Cons queue_get [OF assms(1) c(4)] by simp
qed simp

lemma add_child:
  assumes "links_but 0 st" "processes st 0 = None" "processes st p = Some pp" "processes st a = None" "a \<noteq> 0" "children_of pp = Some cl"
    "queue_ok cl'" "waiting cl' = waiting cl @ [a]" "parent proc = p" "ppl_index proc = length (waiting cl)" "children_of proc = Some l" "queue_ok l" "waiting l = []"
    "processes st' = (processes st)(p \<mapsto> pp\<lparr>children_of := Some cl'\<rparr>, a \<mapsto> proc)"
  shows "links_ok st'" "child_list q st' = (if q = p then child_list p st @ [a] else child_list q st)"
proof -
  have ap: "a \<noteq> p" using assms(3,4) by auto
  have ps: "processes st' u = (if u = a then Some proc else if u = p then Some (pp\<lparr>children_of := Some cl'\<rparr>) else processes st u)" for u
    using assms(14) by simp
  have cl: "queue_ok cl" "distinct (waiting cl)" "child_list p st = waiting cl"
    "\<And>i. i < length (waiting cl) \<Longrightarrow> \<exists>child. processes st (waiting cl ! i) = Some child \<and> parent child = p \<and> (p \<noteq> 0 \<longrightarrow> ppl_index child = i)"
    using links_butD [OF assms(1,3)] assms(6) by (metis option.inject)+
  have keep: "\<exists>d'. processes st' u = Some d' \<and> parent d' = parent d \<and> ppl_index d' = ppl_index d" if "processes st u = Some d" for u d
    using that assms(3,4) by (auto simp: ps)
  have fresh: "a \<notin> set (child_list q st)" for q using child_of [OF assms(1)] assms(4) by (metis option.distinct(1))
  show "child_list q st' = (if q = p then child_list p st @ [a] else child_list q st)"
    using ap assms(4,6,8,11,13) cl(3) by (auto simp: child_list_def ps)
  have "links_but 0 st'" unfolding links_but_def
  proof (intro allI impI)
    fix q qproc assume q: "processes st' q = Some qproc"
    consider "q = a" | "q = p" "q \<noteq> a" | "q \<noteq> p" "q \<noteq> a" by blast
    then show "\<exists>l. children_of qproc = Some l \<and> queue_ok l \<and> distinct (waiting l) \<and>
        (\<forall>i<length (waiting l). \<exists>child. processes st' (waiting l ! i) = Some child \<and> parent child = q \<and> (q \<noteq> 0 \<longrightarrow> ppl_index child = i))"
    proof cases
      case 1
      then show ?thesis using q assms(11-13) by (intro exI [of _ l]) (simp add: ps del: length_waiting)
    next
      case 2
      have "\<exists>child. processes st' (waiting cl' ! i) = Some child \<and> parent child = p \<and> (p \<noteq> 0 \<longrightarrow> ppl_index child = i)" if i: "i < length (waiting cl')" for i
      proof (cases "i < length (waiting cl)")
        case True
        then obtain child where "processes st (waiting cl ! i) = Some child" "parent child = p" "p \<noteq> 0 \<longrightarrow> ppl_index child = i" using cl(4) by blast
        moreover have "waiting cl' ! i = waiting cl ! i" using True assms(8) by (simp add: nth_append del: length_waiting)
        ultimately show ?thesis using keep by metis
      next
        case False
        then have "i = length (waiting cl)" using i assms(8) by (simp del: length_waiting)
        then show ?thesis using assms(8-10) ps [of a] by (simp add: nth_append del: length_waiting)
      qed
      moreover have "children_of qproc = Some cl'" using 2 q by (auto simp: ps)
      ultimately show ?thesis using 2 assms(7,8) cl(2,3) fresh [of p] by (intro exI [of _ cl']) (simp del: length_waiting)
    next
      case 3
      then have q0: "processes st q = Some qproc" using q by (simp add: ps)
      obtain ql where "children_of qproc = Some ql" "queue_ok ql" "distinct (waiting ql)"
        "\<And>i. i < length (waiting ql) \<Longrightarrow> \<exists>child. processes st (waiting ql ! i) = Some child \<and> parent child = q \<and> (q \<noteq> 0 \<longrightarrow> ppl_index child = i)"
        using links_butD [OF assms(1) q0] by metis
      then show ?thesis using keep by (metis (no_types, lifting))
    qed
  qed
  moreover have "processes st' 0 = None" using assms(2,3,5) by (auto simp: ps)
  ultimately show "links_ok st'" by blast
qed

lemma same_children:
  assumes "links_but 0 st" "processes st 0 = None" "processes st p = Some pp" "children_of pp = Some cl" "queue_ok cl'" "waiting cl' = waiting cl"
    "processes st' = (processes st)(p \<mapsto> pp\<lparr>children_of := Some cl'\<rparr>)"
  shows "links_ok st'" "child_list q st' = child_list q st"
proof -
  have ps: "processes st' u = (if u = p then Some (pp\<lparr>children_of := Some cl'\<rparr>) else processes st u)" for u using assms(7) by simp
  have keep: "\<exists>d'. processes st' u = Some d' \<and> parent d' = parent d \<and> ppl_index d' = ppl_index d" if "processes st u = Some d" for u d
    using that assms(3) by (auto simp: ps)
  show "child_list q st' = child_list q st" using assms(3,4,6) by (auto simp: child_list_def ps)
  have "links_but 0 st'" unfolding links_but_def
  proof (intro allI impI)
    fix q qproc assume q: "processes st' q = Some qproc"
    obtain q0 where q0: "processes st q = Some q0" using q assms(3) by (auto simp: ps split: if_splits)
    obtain ql where ql: "children_of q0 = Some ql" "queue_ok ql" "distinct (waiting ql)"
      "\<And>i. i < length (waiting ql) \<Longrightarrow> \<exists>child. processes st (waiting ql ! i) = Some child \<and> parent child = q \<and> (q \<noteq> 0 \<longrightarrow> ppl_index child = i)"
      using links_butD [OF assms(1) q0] by metis
    have links: "\<exists>child. processes st' (waiting ql ! i) = Some child \<and> parent child = q \<and> (q \<noteq> 0 \<longrightarrow> ppl_index child = i)" if "i < length (waiting ql)" for i
      using ql(4) [OF that] keep by metis
    obtain l where "children_of qproc = Some l" "queue_ok l" "waiting l = waiting ql"
      using q q0 ql(1,2) assms(3-6) that by (auto simp: ps split: if_splits)
    then show "\<exists>l. children_of qproc = Some l \<and> queue_ok l \<and> distinct (waiting l) \<and>
        (\<forall>i<length (waiting l). \<exists>child. processes st' (waiting l ! i) = Some child \<and> parent child = q \<and> (q \<noteq> 0 \<longrightarrow> ppl_index child = i))"
      using links ql(3) by (intro exI [of _ l]) (simp del: length_waiting)
  qed
  moreover have "processes st' 0 = None" using assms(2,3) by (auto simp: ps)
  ultimately show "links_ok st'" by blast
qed

lemma undo_spec:
  assumes "links_but 0 st" "processes st 0 = None" "processes st p = Some pp" "processes st a = None" "children_of pp = Some cl"
    "queue_ok cl'" "waiting cl' = waiting cl @ [a]" "ppl_index proc = length (waiting cl)" "cow_ok (process_list st1)" "pl_index proc < cow_size (process_list st1)"
    "processes st1 = (processes st)(p \<mapsto> pp\<lparr>children_of := Some cl'\<rparr>, a \<mapsto> proc)"
  shows "\<exists>st'. undo_process a p proc st1 = Some st' \<and> links_ok st' \<and> (\<forall>q. child_list q st' = child_list q st) \<and> processes st' a = None \<and>
    cow_contents (process_list st') = (cow_contents (process_list st1))[pl_index proc := None]"
proof -
  have ap: "a \<noteq> p" and p0: "p \<noteq> 0" using assms(2-4) by auto
  have cl: "distinct (waiting cl)"
    "\<And>i. i < length (waiting cl) \<Longrightarrow> \<exists>child. processes st (waiting cl ! i) = Some child \<and> parent child = p \<and> (p \<noteq> 0 \<longrightarrow> ppl_index child = i)"
    using links_butD [OF assms(1,3)] assms(5) by (metis option.inject)+
  have "ppl_index proc < cow_size cl'" using assms(7,8) length_waiting [of cl'] by (simp del: length_waiting)
  then obtain x l where l: "cow_list_remove (\<lambda>_. True) True cl' (ppl_index proc) = Some (x, l)" "queue_ok l" "waiting l = waiting cl"
    using queue_remove [OF assms(6)] assms(7,8) by (metis append_eq_conv_conj drop_eq_Nil le_refl length_append_singleton self_append_conv)
  let ?st2 = "st1\<lparr>processes := (processes st1)(p \<mapsto> pp\<lparr>children_of := Some l\<rparr>)\<rparr>"
  have ps: "processes ?st2 u = (if u = a then Some proc else if u = p then Some (pp\<lparr>children_of := Some l\<rparr>) else processes st u)" for u
    using assms(11) ap by simp
  have links: "i < length (waiting l) \<and> (\<exists>child. processes ?st2 (waiting l ! i) = Some child \<and> parent child = p \<and> ppl_index child = i)" if "i < cow_size l" for i
  proof -
    have i: "i < length (waiting l)" using that by simp
    then obtain child where "processes st (waiting l ! i) = Some child" "parent child = p" "ppl_index child = i" using cl(2) [of i] l(3) p0 by auto
    then show ?thesis unfolding ps using i assms(3,4) by auto
  qed
  have refresh: "refresh_children p l [0..<cow_size l] ?st2 = Some ?st2" using links by (intro refresh_same [OF l(2)]) auto
  obtain pl where pl: "cow_list_clear True (Some (process_list st1)) (pl_index proc) = Some (cow_contents (process_list st1) ! pl_index proc, Some pl)"
    "cow_contents pl = (cow_contents (process_list st1))[pl_index proc := None]"
    using cow_list_clear_spec [OF assms(9,10)] by metis
  let ?st' = "close_nodes (filter (\<lambda>n. n \<noteq> 0) [cwd_node proc, root_node proc]) (?st2\<lparr>process_list := pl\<rparr>)"
  have "undo_process a p proc st1 = Some (?st'\<lparr>processes := (processes ?st')(a := None)\<rparr>)"
    using assms(11) ap p0 l(1) refresh pl(1) by (simp add: undo_process_def upd_process_def refresh_child_process_links_def Let_def)
  moreover have "processes (?st'\<lparr>processes := (processes ?st')(a := None)\<rparr>) = (processes st)(p \<mapsto> pp\<lparr>children_of := Some l\<rparr>)"
    using assms(4,11) ap by (auto simp: close_nodes_def fun_eq_iff)
  note this same_children [OF assms(1-3,5) l(2,3) this]
  moreover have "process_list (?st'\<lparr>processes := (processes ?st')(a := None)\<rparr>) = pl" by (simp add: close_nodes_def)
  ultimately show ?thesis using pl(2) assms(4) ap by simp
qed

text \<open>
  Creating a process: with an address space it becomes the last child of its parent and the last entry of the process table; when the address
  space cannot be cloned, the call answers \<open>-ENOMEM\<close>, the process is gone from its parent's list, whose links agree as before, and of the table only
  an empty slot is left.
\<close>

theorem create_process_or_undo:
  assumes "links_ok st" "processes st p = Some pp" "processes st a = None" "a \<noteq> 0" "cow_ok (process_list st)"
  shows "\<exists>st'. create_process True a root junk new_mm False p st = Some (if new_mm = 0 then - 12 else sint (now_pid st), st') \<and> links_ok st' \<and>
    (\<forall>q. child_list q st' = (if q = p \<and> new_mm \<noteq> 0 then child_list p st @ [a] else child_list q st)) \<and> (processes st' a = None \<longleftrightarrow> new_mm = 0) \<and>
    cow_contents (process_list st') = cow_contents (process_list st) @ [if new_mm = 0 then None else Some a]"
proof -
  have p0: "p \<noteq> 0" using assms(1,2) by auto
  obtain cl where cl: "children_of pp = Some cl" "queue_ok cl" using links_butD [of 0 st p pp] assms(1,2) by metis
  obtain pl where pl: "cow_list_add True True (process_list st) (Some a) = Some (cow_size (process_list st), pl)" "cow_ok pl"
    "cow_contents pl = cow_contents (process_list st) @ [Some a]" using cow_list_add_spec [OF assms(5)] .
  obtain cl' where cl': "cow_list_add True True cl (Some a) = Some (cow_size cl, cl')" "queue_ok cl'" "waiting cl' = waiting cl @ [a]"
    using queue_add [OF cl(2)] .
  obtain l :: "u64 cow_arraylist" where l: "cow_list_create True True = Some l" by (simp add: cow_list_create_def)
  then have lo: "queue_ok l" "waiting l = []" using cow_list_create_ok [of l] by (auto simp: queue_ok_def waiting_def)
  define proc where "proc = new_process (now_pid st) p pp (cow_size (process_list st)) (cow_size cl) root new_mm junk l"
  define st1 where "st1 = st\<lparr>process_list := pl, now_pid := now_pid st + 1, processes := (processes st)(p \<mapsto> pp\<lparr>children_of := Some cl'\<rparr>, a \<mapsto> proc)\<rparr>"
  have pr: "parent proc = p" "ppl_index proc = length (waiting cl)" "children_of proc = Some l" "pl_index proc = cow_size (process_list st)"
    by (simp_all add: proc_def new_process_def)
  have ps: "processes st1 = (processes st)(p \<mapsto> pp\<lparr>children_of := Some cl'\<rparr>, a \<mapsto> proc)" "process_list st1 = pl" by (simp_all add: st1_def)
  have len: "cow_size pl = Suc (cow_size (process_list st))" using arg_cong [OF pl(3), of length] by simp
  have run: "create_process True a root junk new_mm False p st =
      (if new_mm = 0 then do { st \<leftarrow> undo_process a p proc st1; Some (- 12, st) } else Some (sint (now_pid st), st1))"
    using pl(1) p0 assms(2) l cl(1) cl'(1) by (simp add: create_process_def alloc_pid_def st1_def proc_def Let_def)
  show ?thesis
  proof (cases "new_mm = 0")
    case True
    obtain st' where "undo_process a p proc st1 = Some st'" "links_ok st'" "\<And>q. child_list q st' = child_list q st" "processes st' a = None"
      "cow_contents (process_list st') = (cow_contents pl)[cow_size (process_list st) := None]"
      using undo_spec [of st p pp a cl cl' proc st1] assms cl(1) cl'(2,3) pr pl(2) len ps by (auto simp del: length_waiting)
    moreover have "(cow_contents pl)[cow_size (process_list st) := None] = cow_contents (process_list st) @ [None]"
      using pl(3) by (metis length_cow_contents list_update_length)
    ultimately show ?thesis using True run by simp
  next
    case False
    have "links_ok st1" "\<And>q. child_list q st1 = (if q = p then child_list p st @ [a] else child_list q st)"
      using add_child [OF conjunct1 [OF assms(1)] conjunct2 [OF assms(1)] assms(2,3,4) cl(1) cl'(2,3) pr(1-3) lo ps(1)] by blast+
    then show ?thesis using False run ps pl(3) by simp
  qed
qed

theorem create_process_or_undo_witness:
  "\<exists>st st'. child_list 8 st = [16] \<and> create_process True 24 0x100 [] 0x4000 False 8 st = Some (7, st') \<and> child_list 8 st' = [16, 24]"
proof -
  obtain l0 l1 where l: "queue_ok l0" "waiting l0 = []" "queue_ok l1" "waiting l1 = [16]" using queue_exists by metis
  define st where "st = example_tasks\<lparr>kernel_process := 8, now_pid := 7, processes := [8 \<mapsto> example_child 8 0 l1, 16 \<mapsto> example_child 8 0 l0]\<rparr>"
  have "links_ok st" using l by (auto simp: links_but_def st_def example_child_def less_Suc_eq simp del: length_waiting split: if_splits)
  moreover have "processes st 8 = Some (example_child 8 0 l1)" "processes st 24 = None" "now_pid st = 7" by (simp_all add: st_def)
  moreover have "cow_ok (process_list st)" using cow_list_create_ok by (auto simp: st_def example_tasks_def cow_list_create_def)
  moreover have "child_list 8 st = [16]" using l by (simp add: child_list_def st_def example_child_def)
  ultimately show ?thesis using create_process_or_undo [of st 8 "example_child 8 0 l1" 24 "0x100" "[]" "0x4000"] by auto
qed

end
