(* ===== verification/Tick.thy ===== *)
theory Tick
  imports Task
begin

text \<open>
  The scheduler interrupt, \<open>scheduler_handler\<close> of \<^verbatim>\<open>src/src/task/scheduler.c\<close>: it counts time, frees what is retired, wakes what is due and
  switches to the next thread.
\<close>

section \<open>Definitions\<close>

text \<open>\<open>current_cpu\<close> is \<open>arch_current_cpu\<close>, \<open>user\<close> the answer of \<open>arch_check_user_mode\<close>; the pair is the argument of \<open>arch_task_switch\<close>, if it is called.\<close>

definition count_time :: "bool \<Rightarrow> u64 \<Rightarrow> task_state \<Rightarrow> task_state option" where
  "count_time user t st = do {
     th \<leftarrow> threads st t;
     if t_status (th_tcb th) = T_IO_WAIT then Some st
     else upd_process (th_process th) (\<lambda>p. if user then p\<lparr>utime := utime p + 1\<rparr> else p\<lparr>stime := stime p + 1\<rparr>) st
   }"

definition count_jiffies :: "nat \<Rightarrow> task_state \<Rightarrow> task_state option" where
  "count_jiffies c st = upd_cpu c (\<lambda>cpu.
     (if is_yield cpu then cpu
      else cpu\<lparr>jiffies := jiffies cpu + 1, idle_jiffies := (if current_task cpu = idle_task cpu then idle_jiffies cpu + 1 else idle_jiffies cpu)\<rparr>)
     \<lparr>is_yield := False\<rparr>) st"

definition adopt_orphan :: "u64 \<Rightarrow> task_state \<Rightarrow> task_state option" where
  "adopt_orphan t st = do {
     th \<leftarrow> threads st t;
     proc \<leftarrow> processes st (th_process th);
     orphan \<leftarrow> (if parent proc = 0 then Some True
       else do { pp \<leftarrow> processes st (parent proc); Some (status pp = T_DEATH \<or> status pp = T_OUT) });
     if orphan then upd_process (th_process th) (\<lambda>p. p\<lparr>parent := kernel_process st\<rparr>) st else Some st
   }"

definition switch_thread :: "nat \<Rightarrow> u64 \<Rightarrow> u64 \<Rightarrow> task_state \<Rightarrow> ((u64 \<times> u64) option \<times> task_state) option" where
  "switch_thread c current_thread next_thread st =
     (if current_thread = next_thread then Some (None, st)
      else do {
        st \<leftarrow> upd_thread current_thread (set_status T_RUNNING) st;
        st \<leftarrow> upd_thread next_thread (set_status T_START) st;
        st \<leftarrow> upd_cpu c (\<lambda>cpu. cpu\<lparr>current_task := next_thread\<rparr>) st;
        Some (Some (current_thread, next_thread), st)
      })"

definition scheduler_handler ::
  "bool \<Rightarrow> bool \<Rightarrow> u64 \<Rightarrow> bool \<Rightarrow> nat option \<Rightarrow> task_state \<Rightarrow> ((u64 \<times> u64) option \<times> task_state) option" where
  "scheduler_handler mem trylock now user current_cpu st =
     (if \<not> scheduler_status st then Some (None, st)
      else case current_cpu of
        None \<Rightarrow> Some (None, st)
      | Some c \<Rightarrow> do {
          cpu \<leftarrow> aget (cpus st) c;
          let current_thread = current_task cpu;
          if current_thread = 0 then Some (None, st)
          else do {
            st \<leftarrow> count_time user current_thread st;
            st \<leftarrow> count_jiffies c st;
            st \<leftarrow> task_reap_retired st;
            st \<leftarrow> scheduler_check_sleep mem trylock now st;
            (next_thread, st) \<leftarrow> scheduler_pick_next (cl_id cpu) st;
            st \<leftarrow> adopt_orphan next_thread st;
            switch_thread c current_thread next_thread st
          }
        })"

section \<open>Frame conditions\<close>

text \<open>The scheduler's part of the state.\<close>

definition same_sched :: "task_state \<Rightarrow> task_state \<Rightarrow> bool" where
  "same_sched st st' \<longleftrightarrow> sched_state.truncate st' = sched_state.truncate st"

lemma same_sched_fields:
  "same_sched st st' \<longleftrightarrow> entities st' = entities st \<and> next_entity st' = next_entity st \<and> threads st' = threads st \<and> cpus st' = cpus st \<and>
     sleep_list st' = sleep_list st"
  by (cases st; cases st') (auto simp: same_sched_def sched_state.defs)

lemma same_sched_refl [simp]: "same_sched st st" and same_sched_trans: "same_sched a b \<Longrightarrow> same_sched b c \<Longrightarrow> same_sched a c"
  by (simp_all add: same_sched_def)

lemma same_sched_ok: "same_sched st st' \<Longrightarrow> sleep_ok st \<Longrightarrow> sleep_ok st'"
proof -
  assume s: "same_sched st st'" and ok: "sleep_ok st"
  have q: "same_queues st st'" using s by (simp add: same_sched_fields same_queues_def)
  have "view st' = view st" using s same_queues_views(2) [OF q] by (auto simp: same_sched_fields view_def sleepers_def fun_eq_iff)
  then show "sleep_ok st'" using ok same_queues_ok [OF q] s by (simp add: sleep_ok_def same_sched_fields)
qed

lemma same_sched_upd_process: "upd_process p f st = Some st' \<Longrightarrow> same_sched st st'"
  by (auto simp: same_sched_fields upd_process_def split: bind_splits)

lemma same_sched_effect [simp]: "same_sched st (effect e st)" "same_sched st (close_nodes ns st)"
  by (simp_all add: same_sched_fields effect_def close_nodes_def)

lemma same_sched_close: "process_close_fds p st = Some st' \<Longrightarrow> same_sched st st'"
  by (auto simp: process_close_fds_def upd_process_def effect_def close_nodes_def same_sched_fields Let_def split: bind_splits option.splits if_splits)

lemma same_sched_release: "release_process_fds_if_ready p st = Some st' \<Longrightarrow> same_sched st st'"
  by (auto simp: release_process_fds_if_ready_def claim_process_fd_release_def split: bind_splits if_splits
      dest!: same_sched_upd_process same_sched_close intro: same_sched_trans)

lemma same_sched_zombies: "release_zombie_fds ps st = Some st' \<Longrightarrow> same_sched st st'"
proof (induction ps arbitrary: st)
  case (Cons p ps)
  from Cons.prems show ?case
    by (auto split: bind_splits if_splits dest!: Cons.IH same_sched_release intro: same_sched_trans)
qed simp

lemma same_sched_destroy: "destroy_process p st = Some st' \<Longrightarrow> same_sched st st'"
  by (auto simp: destroy_process_def effect_def same_sched_fields Let_def split: bind_splits if_splits option.splits dest!: same_sched_close)

lemma same_sched_reap:
  assumes "reap_processes st = Some st'"
  shows "same_sched st st'"
proof (rule reap_processes.raw_induct [where P = same_sched, OF _ assms], goal_cases)
  case 1: (1 loop st st')
  show ?case
  proof (cases "take_ready (\<lambda>(p, epoch). process_reclaim_ready p epoch st) (retired_processes st)")
    case (Some found)
    show ?thesis
    proof (cases found)
      case None
      then show ?thesis using 1(2) Some by simp
    next
      case found: (Some n)
      obtain p epoch rest where n: "n = ((p, epoch), rest)" by (metis prod.exhaust)
      then obtain st1 st2 where s: "release_process_fds_if_ready p (st\<lparr>retired_processes := rest\<rparr>) = Some st1" "destroy_process p st1 = Some st2"
        "loop st2 = Some st'" using 1(2) Some found by (auto split: bind_splits)
      have "same_sched st st1" using same_sched_release [OF s(1)] by (simp add: same_sched_fields)
      then show ?thesis using same_sched_trans [OF _ same_sched_trans [OF same_sched_destroy [OF s(2)] 1(1) [OF s(3)]]] by blast
    qed
  qed (use 1(2) in simp)
qed

section \<open>Freed threads\<close>

text \<open>The retired threads are in no run queue and in no sleep list.\<close>

definition retired_idle :: "task_state \<Rightarrow> bool" where
  "retired_idle st \<longleftrightarrow> retired_ok st \<and> (\<forall>(t, epoch)\<in>set (retired_threads st). t \<notin> set (sleepers st) \<and> th_handle (the (threads st t)) = None)"

lemma drop_threads_ok:
  assumes "sched_ok st" "entities st' = entities st" "next_entity st' = next_entity st" "cpus st' = cpus st"
    "\<And>t. threads st' t = threads st t \<or> threads st' t = None \<and> (\<forall>th. threads st t = Some th \<longrightarrow> th_handle th = None)"
  shows "sched_ok st'" "run_queue c st' = run_queue c st"
proof -
  have views: "run_entities k st' = run_entities k st" "cpu_ok k st' = cpu_ok k st" for k
    using assms(2,4) by (simp_all add: run_entities_def queue_of_def cpu_ok_def)
  then show "run_queue c st' = run_queue c st" using assms(2) by (simp add: run_queue_def)
  have "handles_ok st'" unfolding handles_ok_def
  proof (intro conjI allI impI ballI)
    fix c e assume c: "c < length (cpus st')" "e \<in> set (tl (run_entities c st'))"
    then obtain th where th: "threads st (se_thread (the (entities st e))) = Some th" "th_handle th = Some e" "get_cpu_local (cpu_id th) (cpus st) = Some c"
      using sched_okD(4) [OF assms(1), of c e] assms(4) views by auto
    moreover have "threads st' (se_thread (the (entities st e))) = Some th" using assms(5) [of "se_thread (the (entities st e))"] th by auto
    ultimately show "\<exists>th. threads st' (se_thread (the (entities st' e))) = Some th \<and> th_handle th = Some e \<and> get_cpu_local (cpu_id th) (cpus st') = Some c"
      using assms(2,4) by simp
  next
    fix t th e assume th: "threads st' t = Some th \<and> th_handle th = Some e"
    then have "threads st t = Some th" using assms(5) [of t] by auto
    then show "\<exists>c. get_cpu_local (cpu_id th) (cpus st') = Some c \<and> e \<in> set (tl (run_entities c st'))" "se_thread (the (entities st' e)) = t"
      using sched_okD(5) [OF assms(1)] th assms(2,4) views(1) by auto
  qed
  then show "sched_ok st'" using assms(1,3,4) views by (simp add: sched_ok_def)
qed

lemma reap_sleep_ok:
  assumes "sleep_ok st" "retired_idle st" "reap_threads st = Some st'"
  shows "sleep_ok st'"
proof -
  have s: "sched_ok st" and v: "view_ok (view st)" using assms(1) by (simp_all add: sleep_ok_def)
  have r: "retired_ok st" using assms(2) by (simp add: retired_idle_def)
  have st': "cpus st' = cpus st" "sleep_list st' = sleep_list st" "entities st' = entities st" "next_entity st' = next_entity st"
    "\<And>t. threads st' t = (if \<exists>epoch. (t, epoch) \<in> set (retired_threads st) \<and> ready st (t, epoch) then None else threads st t)"
    using reap_threads_spec [OF r] assms(3) by auto
  have quiet: "t \<notin> set (sleepers st) \<and> th_handle (the (threads st t)) = None" if "(t, epoch) \<in> set (retired_threads st)" for t epoch
    using assms(2) that by (auto simp: retired_idle_def)
  have drop: "threads st' t = threads st t \<or> threads st' t = None \<and> t \<notin> set (sleepers st) \<and> (\<forall>th. threads st t = Some th \<longrightarrow> th_handle th = None)" for t
    using quiet [of t] unfolding st'(5) by auto
  have ok: "sched_ok st'" "\<And>c. run_queue c st' = run_queue c st"
    using drop_threads_ok [OF s st'(3,4,1)] drop by blast+
  have vw: "runs (view st') = runs (view st)" "sleepers st' = sleepers st" "\<And>i. place (view st') i = place (view st) i"
    using ok(2) st'(1,2) by (auto simp: view_def sleepers_def fun_eq_iff)
  have info: "infos (view st') t = infos (view st) t \<or> infos (view st') t = None \<and> t \<notin> set (sleepers st)" for t
    using drop [of t] by (auto simp: view_infos)
  have "view_ok (view st')" unfolding view_ok_def
  proof (intro conjI allI impI ballI)
    show "distinct (sleeping (view st'))" using v vw(2) by (simp add: view_ok_def)
    show "infos (view st') 0 = None" using v info [of 0] by (auto simp: view_ok_def)
    fix t th assume "infos (view st') t = Some th"
    then have "infos (view st) t = Some th" using info [of t] by auto
    then show "length (actions (th_tcb th)) = 32" using v unfolding view_ok_def by blast
  next
    fix t assume "t \<in> set (sleeping (view st'))"
    then have t: "t \<in> set (sleepers st)" using vw(2) by simp
    then show "\<exists>th c. infos (view st') t = Some th \<and> place (view st') (cpu_id th) = Some c" using v info [of t] vw(3) by (auto simp: view_ok_def)
    show "t \<notin> set (runs (view st') c)" for c using t v vw(1) by (auto simp: view_ok_def)
  qed
  then show ?thesis using ok(1) assms(1) st'(2) by (simp add: sleep_ok_def)
qed

lemma reap_retired_sleep_ok:
  assumes "sleep_ok st" "retired_idle st" "task_reap_retired st = Some st'"
  shows "sleep_ok st'"
proof -
  obtain st1 st2 ps where s: "reap_threads st = Some st1" "release_zombie_fds ps st1 = Some st2" "reap_processes st2 = Some st'"
    using assms(3) by (auto simp: task_reap_retired_def split: bind_splits)
  have "same_sched st1 st'" using same_sched_trans [OF same_sched_zombies [OF s(2)] same_sched_reap [OF s(3)]] .
  then show ?thesis using same_sched_ok reap_sleep_ok [OF assms(1,2) s(1)] by blast
qed

lemma upd_cpu_ok:
  assumes "sleep_ok st" "upd_cpu c f st = Some st'" "\<And>u. cpu_rrs (f u) = cpu_rrs u \<and> cl_id (f u) = cl_id u \<and> enable (f u) = enable u"
  shows "sleep_ok st'" "threads st' = threads st" "sleep_list st' = sleep_list st" "length (cpus st') = length (cpus st)"
proof -
  have c: "c < length (cpus st)" "st' = st\<lparr>cpus := (cpus st)[c := f (cpus st ! c)]\<rparr>"
    using assms(2) by (auto simp: upd_cpu_def aget_def aput_def split: bind_splits if_splits)
  have q: "same_queues st st'" unfolding c(2) using assms(3) by (intro same_queues_cpu) (simp_all add: c(1))
  have "view st' = view st" using same_queues_views(2) [OF q] q c(2) by (auto simp: view_def sleepers_def fun_eq_iff same_queues_def)
  then show "sleep_ok st'" using assms(1) same_queues_ok [OF q] c(2) by (simp add: sleep_ok_def)
  show "threads st' = threads st" "sleep_list st' = sleep_list st" "length (cpus st') = length (cpus st)" using c(2) by simp_all
qed

lemma set_status_ok:
  assumes "sleep_ok st" "upd_thread t (set_status s) st = Some st'"
  shows "sleep_ok st'"
proof -
  obtain th where th: "threads st t = Some th" "st' = st\<lparr>threads := (threads st)(t \<mapsto> set_status s th)\<rparr>"
    using assms(2) by (auto simp: upd_thread_def split: bind_splits)
  have v: "sched_ok st'" "view st' = (view st)\<lparr>infos := (infos (view st))(t \<mapsto> info (set_status s th))\<rparr>"
    using view_update [of st t th "set_status s th"] assms(1) th by (simp_all add: sleep_ok_def set_status_def)
  have i: "cpu_id (info (set_status s th)) = cpu_id th" "actions (th_tcb (info (set_status s th))) = actions (th_tcb th)" by (simp_all add: set_status_def)
  have ok: "view_ok (view st)" using assms(1) by (simp add: sleep_ok_def)
  have a: "length (actions (th_tcb (info th))) = 32" using ok th(1) unfolding view_ok_def view_infos by blast
  have "t \<noteq> 0" using ok th(1) by (auto simp: view_ok_def view_infos)
  then have "view_ok (view st')" using ok a i th(1) unfolding v(2) by (auto simp: view_ok_def view_infos)
  then show ?thesis using v(1) assms(1) th(2) by (simp add: sleep_ok_def)
qed

section \<open>Properties\<close>

lemma check_sleep_ok: "sleep_ok st \<Longrightarrow> scheduler_check_sleep True trylock now st = Some st' \<Longrightarrow> sleep_ok st'"
  using check_sleep_spec [of st now] by (cases trylock) (auto simp: scheduler_check_sleep_def split: option.splits)

lemma pick_sleep_ok: "sleep_ok st \<Longrightarrow> scheduler_pick_next i st = Some (t, st') \<Longrightarrow> sleep_ok st'"
proof -
  assume ok: "sleep_ok st" and run: "scheduler_pick_next i st = Some (t, st')"
  obtain c where "get_cpu_local i (cpus st) = Some c" using run by (auto simp: scheduler_pick_next_def split: bind_splits)
  from pick_view [OF ok this] run show "sleep_ok st'" by auto
qed


text \<open>The idle thread 1 is current, threads 2 and 3 of the same process can run.\<close>

definition example_running :: task_state where
  "example_running = \<lparr>entities = entities example_state, next_entity = next_entity example_state,
     threads = (\<lambda>t. map_option (\<lambda>th. th\<lparr>th_process := 9\<rparr>) (threads example_state t)), cpus = cpus example_state, sleep_list = None,
     processes = [9 \<mapsto> (example_process (ipc_queue_init []))\<lparr>parent := 9\<rparr>], process_list = the (cow_list_create True True), retired_threads = [],
     retired_processes = [], futexes = sample_futexes, fgproc = (\<lambda>_. 0), kernel_process = 9, now_pid = 0, scheduler_status = True, effects = []\<rparr>"

lemma example_running_ok: "sleep_ok example_running"
proof -
  have q: "same_queues example_state example_running"
    by (auto simp: same_queues_def example_running_def placement_def [abs_def] option.map_comp comp_def)
  have len: "length (cpus example_state) = 1" using example_state_ok by simp
  then have "view example_running = (view example_state)\<lparr>infos := \<lambda>t. map_option (\<lambda>th. th\<lparr>th_process := 9\<rparr>) (infos (view example_state) t)\<rparr>"
    using same_queues_views(2) [OF q]
    by (auto simp: view_def fun_eq_iff example_running_def sleepers_def info_def option.map_comp comp_def example_defs)
  then have "view_ok (view example_running)" unfolding example_view by (auto simp: view_ok_def example_thread_def split: if_splits)
  moreover have "sched_ok example_running" using q example_sleep_ok same_queues_ok by (auto simp: sleep_ok_def)
  ultimately show ?thesis by (simp add: sleep_ok_def example_running_def)
qed


end
