(* ===== verification/Heap_Block.thy ===== *)
theory Heap_Block
  imports Kernel_Prelude
begin

text \<open>
  The blocks of the kernel heap (\<^verbatim>\<open>include/mem/alloc/block.h\<close>, \<^verbatim>\<open>area.h\<close>, \<^verbatim>\<open>freelist.h\<close>).  An area of memory is cut into blocks; a block of
  \<open>s\<close> bytes at address \<open>p\<close> has a tag word before it, at \<open>p - 8\<close>, and one behind it, at \<open>p + s\<close>, each with the size and three flags.
  The first two words of a free block link it into a list of free blocks.  Memory is a map from addresses of words to
  words; an access to an address that is not in it is a fault.
\<close>

type_synonym hmem = "nat \<Rightarrow> u64 option"

definition load :: "u64 \<Rightarrow> hmem \<Rightarrow> u64 option" where
  "load a h = h (unat a)"

definition store :: "u64 \<Rightarrow> u64 \<Rightarrow> hmem \<Rightarrow> hmem option" where
  "store a v h = (if h (unat a) = None then None else Some (h(unat a := Some v)))"

section \<open>Tags\<close>

definition FREE_FLAG :: u64 where "FREE_FLAG = 1"
definition AREA_FLAG :: u64 where "AREA_FLAG = 2"
definition SIZE_FLAG :: u64 where "SIZE_FLAG = 4"
definition FLAG_BITS :: u64 where "FLAG_BITS = 7"

lemmas flag_defs = FREE_FLAG_def AREA_FLAG_def SIZE_FLAG_def FLAG_BITS_def

definition PADDING :: "u64 \<Rightarrow> u64" where
  "PADDING n = (n + 2 * 8 - 1) AND NOT (2 * 8 - 1)"

definition PADDING_16k :: "u64 \<Rightarrow> u64" where
  "PADDING_16k n = (n + 16384 - 1) AND NOT (16384 - 1)"

definition PADDING_UP :: "u64 \<Rightarrow> u64 \<Rightarrow> u64" where
  "PADDING_UP n to = (n + to - 1) div to * to"

definition blk_prevtail :: "u64 \<Rightarrow> hmem \<Rightarrow> u64 option" where
  "blk_prevtail p h = load (p - 16) h"

definition blk_head :: "u64 \<Rightarrow> hmem \<Rightarrow> u64 option" where
  "blk_head p h = load (p - 8) h"

definition blk_tail :: "u64 \<Rightarrow> u64 \<Rightarrow> hmem \<Rightarrow> u64 option" where
  "blk_tail p s h = load (p + s) h"

definition blk_nexthead :: "u64 \<Rightarrow> u64 \<Rightarrow> hmem \<Rightarrow> u64 option" where
  "blk_nexthead p s h = load (p + s + 8) h"

definition blk_noprev :: "u64 \<Rightarrow> hmem \<Rightarrow> bool option" where
  "blk_noprev p h = do { w \<leftarrow> blk_prevtail p h; Some (w AND AREA_FLAG \<noteq> 0) }"

definition blk_nonext :: "u64 \<Rightarrow> u64 \<Rightarrow> hmem \<Rightarrow> bool option" where
  "blk_nonext p s h = do { w \<leftarrow> blk_nexthead p s h; Some (w AND AREA_FLAG \<noteq> 0) }"

definition blk_freed :: "u64 \<Rightarrow> hmem \<Rightarrow> bool option" where
  "blk_freed p h = do { w \<leftarrow> blk_head p h; Some (w AND FREE_FLAG \<noteq> 0) }"

text \<open>The setters below read, change and write back the head and then the tail of a block.\<close>

definition retag :: "(u64 \<Rightarrow> u64) \<Rightarrow> u64 \<Rightarrow> u64 \<Rightarrow> hmem \<Rightarrow> hmem option" where
  "retag g p s h = do {
     w \<leftarrow> blk_head p h;
     h \<leftarrow> store (p - 8) (g w) h;
     w \<leftarrow> blk_tail p s h;
     store (p + s) (g w) h
   }"

definition blk_setalloced :: "u64 \<Rightarrow> u64 \<Rightarrow> hmem \<Rightarrow> hmem option" where
  "blk_setalloced = retag (\<lambda>w. w AND NOT FREE_FLAG)"

definition blk_setfreed :: "u64 \<Rightarrow> u64 \<Rightarrow> hmem \<Rightarrow> hmem option" where
  "blk_setfreed = retag (\<lambda>w. w OR FREE_FLAG)"

definition blk_size :: "u64 \<Rightarrow> hmem \<Rightarrow> u64 option" where
  "blk_size p h = do { w \<leftarrow> blk_head p h; Some (w AND NOT FLAG_BITS) }"

definition blk_setsize :: "u64 \<Rightarrow> u64 \<Rightarrow> hmem \<Rightarrow> hmem option" where
  "blk_setsize p s h = do { h \<leftarrow> store (p - 8) s h; store (p + s) s h }"

definition blk_area_is_2M :: "u64 \<Rightarrow> hmem \<Rightarrow> bool option" where
  "blk_area_is_2M p h = do { w \<leftarrow> blk_head p h; Some (w AND SIZE_FLAG \<noteq> 0) }"

definition blk_set_area_4k :: "u64 \<Rightarrow> u64 \<Rightarrow> hmem \<Rightarrow> hmem option" where
  "blk_set_area_4k = retag (\<lambda>w. w AND NOT SIZE_FLAG)"

definition blk_set_area_2M :: "u64 \<Rightarrow> u64 \<Rightarrow> hmem \<Rightarrow> hmem option" where
  "blk_set_area_2M = retag (\<lambda>w. w OR SIZE_FLAG)"

section \<open>Neighbours, merging and splitting\<close>

definition blk_prev :: "u64 \<Rightarrow> hmem \<Rightarrow> u64 option" where
  "blk_prev p h = do {
     noprev \<leftarrow> blk_noprev p h;
     if noprev then Some 0
     else do { w \<leftarrow> blk_prevtail p h; Some (p - 16 - (w AND NOT FLAG_BITS)) }
   }"

definition blk_next :: "u64 \<Rightarrow> hmem \<Rightarrow> u64 option" where
  "blk_next p h = do {
     s \<leftarrow> blk_size p h;
     nonext \<leftarrow> blk_nonext p s h;
     if nonext then Some 0 else Some (p + s + 16)
   }"

text \<open>Splitting keeps the flag for areas of two megabytes and clears the others.\<close>

definition blk_split :: "u64 \<Rightarrow> u64 \<Rightarrow> hmem \<Rightarrow> (u64 \<times> hmem) option" where
  "blk_split p s h = do {
     is_2M \<leftarrow> blk_area_is_2M p h;
     oldsize \<leftarrow> blk_size p h;
     h \<leftarrow> blk_setsize p s h;
     h \<leftarrow> (if is_2M then blk_set_area_2M p s h else Some h);
     let offset = s + 16;
     h \<leftarrow> blk_setsize (p + offset) (oldsize - offset) h;
     h \<leftarrow> (if is_2M then blk_set_area_2M (p + offset) (oldsize - offset) h else Some h);
     Some (p + offset, h)
   }"

section \<open>Areas\<close>

definition allocarea_init :: "u64 \<Rightarrow> u64 \<Rightarrow> u64 \<Rightarrow> hmem \<Rightarrow> hmem option" where
  "allocarea_init addr sz pdata h = do {
     let size_flag = (if sz = 2 * 1024 * 1024 then SIZE_FLAG else 0);
     let len = sz div 8;
     let datum = pdata OR AREA_FLAG OR size_flag;
     h \<leftarrow> store (addr + 8 * (len - 1)) datum h;
     h \<leftarrow> store addr datum h;
     let p = addr + 16;
     let sz = sz - 4 * 8;
     h \<leftarrow> blk_setsize p sz h;
     h \<leftarrow> blk_setfreed p sz h;
     if size_flag \<noteq> 0 then blk_set_area_2M p sz h else blk_set_area_4k p sz h
   }"

definition allocarea_reinit :: "u64 \<Rightarrow> u64 \<Rightarrow> u64 \<Rightarrow> hmem \<Rightarrow> (u64 \<times> hmem) option" where
  "allocarea_reinit addr oldsize newsize h =
     (if newsize = oldsize then Some (0, h)
      else do {
        let len = newsize div 8;
        w \<leftarrow> load addr h;
        let datum = (w AND NOT FLAG_BITS) OR AREA_FLAG OR (if newsize = 2 * 1024 * 1024 then SIZE_FLAG else 0);
        h \<leftarrow> store (addr + 8 * (len - 1)) datum h;
        h \<leftarrow> store addr datum h;
        if newsize < oldsize then Some (0, h)
        else do {
          let blk = addr + oldsize;
          h \<leftarrow> blk_setsize blk (newsize - oldsize - 2 * 8) h;
          Some (blk, h)
        }
      })"

section \<open>Lists of free blocks\<close>

text \<open>\<open>clz\<close> counts the zeros before the first one of a 32-bit number.\<close>

definition clz :: "u32 \<Rightarrow> nat" where
  "clz w = length (takeWhile (\<lambda>i. \<not> bit w i) (rev [0..<32]))"

definition freelists_size2id :: "u64 \<Rightarrow> int" where
  "freelists_size2id s =
     (if s < 64 then 0
      else if s < 256 then 1
      else if s \<ge> 16384 then -1
      else (32 - 9) - int (clz (ucast s)) + 2)"

text \<open>\<open>next\<close> is the word at the block and \<open>prev\<close> the one behind it.\<close>

definition unlink_neighbours :: "u64 \<Rightarrow> hmem \<Rightarrow> hmem option" where
  "unlink_neighbours p h = do {
     n \<leftarrow> load p h;
     h \<leftarrow> (if n \<noteq> 0 then do { b \<leftarrow> load (p + 8) h; store (n + 8) b h } else Some h);
     b \<leftarrow> load (p + 8) h;
     if b \<noteq> 0 then do { n \<leftarrow> load p h; store b n h } else Some h
   }"

definition freelist_detach :: "u64 \<Rightarrow> u64 \<Rightarrow> hmem \<Rightarrow> (u64 \<times> hmem) option" where
  "freelist_detach lst p h =
     (if lst = p then do { n \<leftarrow> load p h; Some (n, h) }
      else do { h \<leftarrow> unlink_neighbours p h; Some (lst, h) })"

definition freelists_detach :: "u64 list \<Rightarrow> nat \<Rightarrow> u64 \<Rightarrow> hmem \<Rightarrow> (u64 list \<times> hmem) option" where
  "freelists_detach fl i p h = do {
     l \<leftarrow> aget fl i;
     if l = p then do { n \<leftarrow> load p h; fl \<leftarrow> aput fl i n; Some (fl, h) }
     else do { h \<leftarrow> unlink_neighbours p h; Some (fl, h) }
   }"

text \<open>The first block of a list with the wanted property, or 0.\<close>

partial_function (option) find_block :: "(u64 \<Rightarrow> bool option) \<Rightarrow> hmem \<Rightarrow> u64 \<Rightarrow> u64 option" where
  "find_block fits h l =
     (if l = 0 then Some 0
      else do {
        ok \<leftarrow> fits l;
        if ok then Some l else do { n \<leftarrow> load l h; find_block fits h n }
      })"

declare find_block.simps [code]

definition holds_size :: "u64 \<Rightarrow> hmem \<Rightarrow> u64 \<Rightarrow> bool option" where
  "holds_size s h l = do { tgt_size \<leftarrow> blk_size l h; Some (s \<le> tgt_size) }"

definition holds_aligned :: "u64 \<Rightarrow> u64 \<Rightarrow> hmem \<Rightarrow> u64 \<Rightarrow> bool option" where
  "holds_aligned s align h l = do {
     b \<leftarrow> blk_size l h;
     Some (sint s \<le> sint (b - (PADDING_UP l align - l)))
   }"

definition list_match :: "(u64 \<Rightarrow> bool option) \<Rightarrow> u64 \<Rightarrow> hmem \<Rightarrow> (u64 \<times> u64 \<times> hmem) option" where
  "list_match fits lst h = do {
     p \<leftarrow> find_block fits h lst;
     if p = 0 then Some (0, lst, h)
     else do { (lst, h) \<leftarrow> freelist_detach lst p h; Some (p, lst, h) }
   }"

definition freelist_match :: "u64 \<Rightarrow> u64 \<Rightarrow> hmem \<Rightarrow> (u64 \<times> u64 \<times> hmem) option" where
  "freelist_match lst s h = list_match (holds_size s h) lst h"

definition freelist_aligned_match :: "u64 \<Rightarrow> u64 \<Rightarrow> u64 \<Rightarrow> hmem \<Rightarrow> (u64 \<times> u64 \<times> hmem) option" where
  "freelist_aligned_match lst s align h = list_match (holds_aligned s align h) lst h"

primrec lists_match :: "(u64 \<Rightarrow> bool option) \<Rightarrow> nat list \<Rightarrow> u64 list \<Rightarrow> hmem \<Rightarrow> (u64 \<times> u64 list \<times> hmem) option" where
  "lists_match fits [] fl h = Some (0, fl, h)"
| "lists_match fits (i # ids) fl h = do {
     l \<leftarrow> aget fl i;
     p \<leftarrow> find_block fits h l;
     if p = 0 then lists_match fits ids fl h
     else do { (fl, h) \<leftarrow> freelists_detach fl i p h; Some (p, fl, h) }
   }"

definition freelists_match :: "u64 list \<Rightarrow> u64 \<Rightarrow> hmem \<Rightarrow> (u64 \<times> u64 list \<times> hmem) option" where
  "freelists_match fl s h =
     (let i = freelists_size2id s in
      if i < 0 then Some (0, fl, h)
      else lists_match (holds_size s h) [nat i..<8] fl h)"

definition freelists_aligned_match :: "u64 list \<Rightarrow> u64 \<Rightarrow> u64 \<Rightarrow> hmem \<Rightarrow> (u64 \<times> u64 list \<times> hmem) option" where
  "freelists_aligned_match fl s align h =
     (let i = freelists_size2id s in
      if i < 0 then Some (0, fl, h)
      else lists_match (holds_aligned s align h) [nat i..<8] fl h)"

definition freelist_put :: "u64 \<Rightarrow> u64 \<Rightarrow> hmem \<Rightarrow> (u64 \<times> hmem) option" where
  "freelist_put lst p h = do {
     h \<leftarrow> store p lst h;
     h \<leftarrow> store (p + 8) 0 h;
     n \<leftarrow> load p h;
     h \<leftarrow> (if n \<noteq> 0 then store (n + 8) p h else Some h);
     Some (p, h)
   }"

definition freelists_put :: "u64 list \<Rightarrow> u64 \<Rightarrow> hmem \<Rightarrow> (bool \<times> u64 list \<times> hmem) option" where
  "freelists_put fl p h = do {
     s \<leftarrow> blk_size p h;
     if s = 0 then Some (True, fl, h)
     else let i = freelists_size2id s in
       if i < 0 then Some (False, fl, h)
       else do {
         l \<leftarrow> aget fl (nat i);
         (l, h) \<leftarrow> freelist_put l p h;
         fl \<leftarrow> aput fl (nat i) l;
         Some (True, fl, h)
       }
   }"

end
