(* ===== verification/Heap_Pool.thy ===== *)
theory Heap_Pool
  imports Heap_Block
begin

text \<open>
  The memory pool of the kernel heap (\<^verbatim>\<open>mem/heap/pool.c\<close>) and the merging of blocks (\<^verbatim>\<open>include/mem/alloc/block.h\<close>), which takes
  them out of the pool's lists.  The state is the pool together with the memory.  \<open>cb_reqmem\<close> asks for memory at an address and
  gives the address where it is, or 0, and the memory then.  A double free stops the processor for good (\<open>Halted\<close>).
\<close>

record mpool =
  pool_ptr :: u64
  pool_size :: u64
  alloced_size :: u64
  cb_reqmem :: "(u64 \<Rightarrow> u64 \<Rightarrow> hmem \<Rightarrow> u64 \<times> hmem) option"
  cb_delmem :: "(u64 \<Rightarrow> u64 \<Rightarrow> hmem \<Rightarrow> hmem) option"
  large_blk :: u64
  freed :: "u64 list"

record heap = mpool +
  hmem :: hmem

datatype 'a halting = Halted | Done 'a

definition on_mem :: "(hmem \<Rightarrow> hmem option) \<Rightarrow> heap \<Rightarrow> heap option" where
  "on_mem f st = do { h \<leftarrow> f (hmem st); Some (st\<lparr>hmem := h\<rparr>) }"

section \<open>Merging\<close>

definition blk_mergeprev :: "u64 \<Rightarrow> (u64 \<Rightarrow> heap \<Rightarrow> heap option) \<Rightarrow> heap \<Rightarrow> (u64 \<times> heap) option" where
  "blk_mergeprev p det st = do {
     prev \<leftarrow> blk_prev p (hmem st);
     s1 \<leftarrow> blk_size p (hmem st);
     s2 \<leftarrow> blk_size prev (hmem st);
     let s = s1 + s2 + 16;
     st \<leftarrow> det prev st;
     st \<leftarrow> on_mem (blk_setsize prev s) st;
     Some (prev, st)
   }"

definition blk_mergenext :: "u64 \<Rightarrow> (u64 \<Rightarrow> heap \<Rightarrow> heap option) \<Rightarrow> heap \<Rightarrow> (u64 \<times> heap) option" where
  "blk_mergenext p det st = do {
     nxt \<leftarrow> blk_next p (hmem st);
     s1 \<leftarrow> blk_size p (hmem st);
     s2 \<leftarrow> blk_size nxt (hmem st);
     let s = s1 + s2 + 16;
     st \<leftarrow> det nxt st;
     st \<leftarrow> on_mem (blk_setsize p s) st;
     Some (p, st)
   }"

definition next_is_free :: "u64 \<Rightarrow> u64 \<Rightarrow> hmem \<Rightarrow> bool option" where
  "next_is_free p s h = do {
     nonext \<leftarrow> blk_nonext p s h;
     if nonext then Some False
     else do { w \<leftarrow> blk_nexthead p s h; Some (w AND FREE_FLAG \<noteq> 0) }
   }"

definition prev_is_free :: "u64 \<Rightarrow> hmem \<Rightarrow> bool option" where
  "prev_is_free p h = do {
     noprev \<leftarrow> blk_noprev p h;
     if noprev then Some False
     else do { w \<leftarrow> blk_prevtail p h; Some (w AND FREE_FLAG \<noteq> 0) }
   }"

definition blk_trymerge :: "u64 \<Rightarrow> (u64 \<Rightarrow> heap \<Rightarrow> heap option) \<Rightarrow> heap \<Rightarrow> (u64 \<times> heap) option" where
  "blk_trymerge p det st = do {
     is_2M \<leftarrow> blk_area_is_2M p (hmem st);
     s \<leftarrow> blk_size p (hmem st);
     b \<leftarrow> next_is_free p s (hmem st);
     (p, st) \<leftarrow> (if b then blk_mergenext p det st else Some (p, st));
     b \<leftarrow> prev_is_free p (hmem st);
     (p, st) \<leftarrow> (if b then blk_mergeprev p det st else Some (p, st));
     st \<leftarrow> (if is_2M then do { s \<leftarrow> blk_size p (hmem st); on_mem (blk_set_area_2M p s) st } else Some st);
     Some (p, st)
   }"

section \<open>The pool\<close>

definition detach :: "u64 \<Rightarrow> heap \<Rightarrow> heap option" where
  "detach p st = do {
     s \<leftarrow> blk_size p (hmem st);
     let i = freelists_size2id s;
     if i < 0 then do { (l, h) \<leftarrow> freelist_detach (large_blk st) p (hmem st); Some (st\<lparr>large_blk := l, hmem := h\<rparr>) }
     else do { (fl, h) \<leftarrow> freelists_detach (freed st) (nat i) p (hmem st); Some (st\<lparr>freed := fl, hmem := h\<rparr>) }
   }"

definition put_large :: "u64 \<Rightarrow> heap \<Rightarrow> heap option" where
  "put_large p st = do { (l, h) \<leftarrow> freelist_put (large_blk st) p (hmem st); Some (st\<lparr>large_blk := l, hmem := h\<rparr>) }"

definition mpool_init :: "u64 \<Rightarrow> u64 \<Rightarrow> heap \<Rightarrow> (bool \<times> heap) option" where
  "mpool_init ptr sz st =
     (if ptr = 0 \<or> sz = 0 then Some (False, st)
      else if sz AND (2 * 8 - 1) \<noteq> 0 then Some (False, st)
      else do {
        let st = st\<lparr>pool_ptr := ptr, pool_size := sz, alloced_size := 0, cb_delmem := None, large_blk := 0,
                    freed := replicate 8 0\<rparr>;
        st \<leftarrow> on_mem (allocarea_init ptr sz 0) st;
        st \<leftarrow> put_large (ptr + 2 * 8) st;
        Some (True, st)
      })"

definition mpool_deinit :: "heap \<Rightarrow> heap" where
  "mpool_deinit st =
     \<lparr>pool_ptr = 0, pool_size = 0, alloced_size = 0, cb_reqmem = None, cb_delmem = None, large_blk = 0, freed = replicate 8 0,
      hmem = (case cb_delmem st of None \<Rightarrow> hmem st | Some del \<Rightarrow> del (pool_ptr st) (pool_size st) (hmem st))\<rparr>"

definition mpool_setcb :: "(u64 \<Rightarrow> u64 \<Rightarrow> hmem \<Rightarrow> u64 \<times> hmem) option \<Rightarrow> (u64 \<Rightarrow> u64 \<Rightarrow> hmem \<Rightarrow> hmem) option \<Rightarrow> heap \<Rightarrow> heap" where
  "mpool_setcb reqmem delmem st = st\<lparr>cb_reqmem := reqmem, cb_delmem := delmem\<rparr>"

definition mpool_alloced_size :: "heap \<Rightarrow> u64" where
  "mpool_alloced_size st = alloced_size st"

definition mpool_total_size :: "heap \<Rightarrow> u64" where
  "mpool_total_size st = pool_size st"

definition mpool_reqmem :: "u64 \<Rightarrow> heap \<Rightarrow> (bool \<times> heap) option" where
  "mpool_reqmem s st = (case cb_reqmem st of
     None \<Rightarrow> Some (False, st)
   | Some reqmem \<Rightarrow> do {
       let memsize = PADDING_16k s;
       let (mem, h) = reqmem (pool_ptr st + pool_size st) memsize (hmem st);
       let st = st\<lparr>hmem := h\<rparr>;
       if mem = 0 then Some (False, st)
       else if mem \<noteq> pool_ptr st + pool_size st then
         Some (False, (case cb_delmem st of None \<Rightarrow> st | Some delmem \<Rightarrow> st\<lparr>hmem := delmem mem memsize (hmem st)\<rparr>))
       else do {
         (p, h) \<leftarrow> allocarea_reinit (pool_ptr st) (pool_size st) (pool_size st + memsize) (hmem st);
         let st = st\<lparr>hmem := h, pool_size := pool_size st + memsize\<rparr>;
         (p, st) \<leftarrow> blk_trymerge p detach st;
         s \<leftarrow> blk_size p (hmem st);
         st \<leftarrow> on_mem (blk_setfreed p s) st;
         st \<leftarrow> put_large p st;
         Some (True, st)
       }
     })"

definition do_free :: "u64 \<Rightarrow> heap \<Rightarrow> heap option" where
  "do_free p st = do {
     s \<leftarrow> blk_size p (hmem st);
     st \<leftarrow> on_mem (blk_setfreed p s) st;
     (puted, fl, h) \<leftarrow> freelists_put (freed st) p (hmem st);
     let st = st\<lparr>freed := fl, hmem := h\<rparr>;
     if puted then Some st else put_large p st
   }"

definition try_split_and_free :: "u64 \<Rightarrow> u64 \<Rightarrow> heap \<Rightarrow> (bool \<times> heap) option" where
  "try_split_and_free p s st = do {
     b \<leftarrow> blk_size p (hmem st);
     if b \<ge> s + 8 * 8 then do {
       (q, h) \<leftarrow> blk_split p s (hmem st);
       st \<leftarrow> do_free q (st\<lparr>hmem := h\<rparr>);
       Some (True, st)
     }
     else Some (False, st)
   }"

definition match_large :: "u64 \<Rightarrow> heap \<Rightarrow> (u64 \<times> heap) option" where
  "match_large s st = do {
     (p, l, h) \<leftarrow> freelist_match (large_blk st) s (hmem st);
     Some (p, st\<lparr>large_blk := l, hmem := h\<rparr>)
   }"

definition match_block :: "u64 \<Rightarrow> heap \<Rightarrow> (u64 \<times> heap) option" where
  "match_block s st = do {
     (p, fl, h) \<leftarrow> freelists_match (freed st) s (hmem st);
     let st = st\<lparr>freed := fl, hmem := h\<rparr>;
     if p \<noteq> 0 then Some (p, st) else match_large s st
   }"

definition take_block :: "u64 \<Rightarrow> u64 \<Rightarrow> heap \<Rightarrow> (u64 \<times> heap) option" where
  "take_block p s st = do {
     (_, st) \<leftarrow> try_split_and_free p s st;
     s \<leftarrow> blk_size p (hmem st);
     st \<leftarrow> on_mem (blk_setalloced p s) st;
     Some (p, st\<lparr>alloced_size := alloced_size st + s\<rparr>)
   }"

definition padded :: "u64 \<Rightarrow> u64" where
  "padded s = (if s = 0 then 2 * 8 else PADDING s)"

definition mpool_alloc :: "u64 \<Rightarrow> heap \<Rightarrow> (u64 \<times> heap) option" where
  "mpool_alloc s st = do {
     let s = padded s;
     (p, st) \<leftarrow> match_block s st;
     if p \<noteq> 0 then take_block p s st
     else do {
       (ok, st) \<leftarrow> mpool_reqmem s st;
       if \<not> ok then Some (0, st)
       else do {
         (p, st) \<leftarrow> match_large s st;
         take_block p s st
       }
     }
   }"

definition match_large_aligned :: "u64 \<Rightarrow> u64 \<Rightarrow> heap \<Rightarrow> (u64 \<times> heap) option" where
  "match_large_aligned s align st = do {
     (p, l, h) \<leftarrow> freelist_aligned_match (large_blk st) s align (hmem st);
     Some (p, st\<lparr>large_blk := l, hmem := h\<rparr>)
   }"

definition match_aligned :: "u64 \<Rightarrow> u64 \<Rightarrow> heap \<Rightarrow> (u64 \<times> heap) option" where
  "match_aligned s align st = do {
     (p, fl, h) \<leftarrow> freelists_aligned_match (freed st) s align (hmem st);
     let st = st\<lparr>freed := fl, hmem := h\<rparr>;
     if p \<noteq> 0 then Some (p, st) else match_large_aligned s align st
   }"

definition skip_to_aligned :: "u64 \<Rightarrow> u64 \<Rightarrow> heap \<Rightarrow> (u64 \<times> heap) option" where
  "skip_to_aligned p align st =
     (let offset = PADDING_UP p align - p in
      if offset > 0 then do {
        (q, h) \<leftarrow> blk_split p (offset - 2 * 8) (hmem st);
        st \<leftarrow> do_free p (st\<lparr>hmem := h\<rparr>);
        Some (q, st)
      }
      else Some (p, st))"

definition mpool_aligned_alloc :: "u64 \<Rightarrow> u64 \<Rightarrow> heap \<Rightarrow> (u64 \<times> heap) option" where
  "mpool_aligned_alloc s align st =
     (if align AND (align - 1) \<noteq> 0 then Some (0, st)
      else if align < 2 * 8 then mpool_alloc s st
      else do {
        let s = padded s;
        (p, st) \<leftarrow> match_aligned s align st;
        if p \<noteq> 0 then do {
          (p, st) \<leftarrow> skip_to_aligned p align st;
          take_block p s st
        }
        else do {
          (ok, st) \<leftarrow> mpool_reqmem (s + align) st;
          if \<not> ok then Some (0, st)
          else do {
            (p, st) \<leftarrow> match_large_aligned s align st;
            (p, st) \<leftarrow> skip_to_aligned p align st;
            take_block p s st
          }
        }
      })"

definition mpool_free :: "u64 \<Rightarrow> heap \<Rightarrow> heap halting option" where
  "mpool_free p st =
     (if p = 0 then Some (Done st)
      else do {
        w \<leftarrow> blk_head p (hmem st);
        if w AND FREE_FLAG \<noteq> 0 then Some Halted
        else do {
          s \<leftarrow> blk_size p (hmem st);
          let st = st\<lparr>alloced_size := alloced_size st - s\<rparr>;
          (p, st) \<leftarrow> blk_trymerge p detach st;
          if p = 0 then Some Halted
          else do { st \<leftarrow> do_free p st; Some (Done st) }
        }
      })"

definition mpool_msize :: "u64 \<Rightarrow> heap \<Rightarrow> u64 option" where
  "mpool_msize p st = (if p = 0 then Some 0 else blk_size p (hmem st))"

text \<open>\<open>memcpy\<close> of a number of bytes that is a multiple of the word size.\<close>

primrec copy_words :: "nat \<Rightarrow> u64 \<Rightarrow> u64 \<Rightarrow> hmem \<Rightarrow> hmem option" where
  "copy_words 0 d s h = Some h"
| "copy_words (Suc n) d s h = do { w \<leftarrow> load s h; h \<leftarrow> store d w h; copy_words n (d + 8) (s + 8) h }"

text \<open>The part that \<open>mpool_realloc\<close> and \<open>mpool_aligned_realloc\<close> share: the block can stay where it is.\<close>

definition resize_in_place :: "u64 \<Rightarrow> u64 \<Rightarrow> u64 \<Rightarrow> heap \<Rightarrow> (u64 \<times> heap) option option" where
  "resize_in_place p s newsize st =
     (if s \<ge> newsize then do {
        (_, st) \<leftarrow> try_split_and_free p newsize st;
        Some (Some (p, st))
      }
      else do {
        nxt \<leftarrow> blk_next p (hmem st);
        free \<leftarrow> (if nxt \<noteq> 0 then blk_freed nxt (hmem st) else Some False);
        if free then do {
          b \<leftarrow> blk_size nxt (hmem st);
          let total_size = s + 2 * 8 + b;
          if total_size \<ge> newsize then do {
            (p, st) \<leftarrow> blk_mergenext p detach st;
            (_, st) \<leftarrow> try_split_and_free p newsize st;
            Some (Some (p, st))
          }
          else Some None
        }
        else Some None
      })"

definition move_block :: "u64 \<Rightarrow> u64 \<Rightarrow> u64 \<Rightarrow> heap \<Rightarrow> (u64 \<times> heap) halting option" where
  "move_block new_ptr p s st = do {
     st \<leftarrow> on_mem (copy_words (unat s div 8) new_ptr p) st;
     r \<leftarrow> mpool_free p st;
     Some (case r of Halted \<Rightarrow> Halted | Done st \<Rightarrow> Done (new_ptr, st))
   }"

definition mpool_realloc :: "u64 \<Rightarrow> u64 \<Rightarrow> heap \<Rightarrow> (u64 \<times> heap) halting option" where
  "mpool_realloc p newsize st =
     (if p = 0 then do { r \<leftarrow> mpool_alloc newsize st; Some (Done r) }
      else do {
        let newsize = padded newsize;
        s \<leftarrow> blk_size p (hmem st);
        r \<leftarrow> resize_in_place p s newsize st;
        case r of
          Some r \<Rightarrow> Some (Done r)
        | None \<Rightarrow> do {
            (new_ptr, st) \<leftarrow> mpool_alloc newsize st;
            move_block new_ptr p s st
          }
      })"

definition mpool_aligned_realloc :: "u64 \<Rightarrow> u64 \<Rightarrow> u64 \<Rightarrow> heap \<Rightarrow> (u64 \<times> heap) halting option" where
  "mpool_aligned_realloc p newsize align st =
     (if p = 0 then do { r \<leftarrow> mpool_aligned_alloc newsize align st; Some (Done r) }
      else if align AND (align - 1) \<noteq> 0 then Some (Done (0, st))
      else if align < 2 * 8 then mpool_realloc p newsize st
      else do {
        let newsize = padded newsize;
        s \<leftarrow> blk_size p (hmem st);
        r \<leftarrow> resize_in_place p s newsize st;
        case r of
          Some r \<Rightarrow> Some (Done r)
        | None \<Rightarrow> do {
            (new_ptr, st) \<leftarrow> mpool_aligned_alloc newsize align st;
            move_block new_ptr p s st
          }
      })"

end
