(* ===== verification/Heap_Rep.thy ===== *)
theory Heap_Rep
  imports Heap_Pool
begin

text \<open>
  What the memory of a pool stands for: a finite map from addresses of blocks to their size and whether they are free,
  and the lists of free blocks.  Each primitive of the heap changes these in one evident way.
\<close>

section \<open>Words and tags\<close>

lemma load_at [simp]: "n < 2 ^ 64 \<Longrightarrow> load (of_nat n) h = h n"
  by (simp add: load_def unat_of_nat)

lemma store_at [simp]: "n < 2 ^ 64 \<Longrightarrow> store (of_nat n) v h = (if h n = None then None else Some (h(n := Some v)))"
  by (simp add: store_def unat_of_nat)

lemma unat_at [simp]: "n < 2 ^ 64 \<Longrightarrow> unat (of_nat n :: u64) = n"
  by (simp add: unat_of_nat)

lemma unat_plus [simp]: "p + s < 2 ^ 64 \<Longrightarrow> unat (of_nat p + of_nat s :: u64) = p + s"
  using unat_at [of "p + s"] by simp

lemma unat_plus_num [simp]: "p + numeral k < 2 ^ 64 \<Longrightarrow> unat (of_nat p + numeral k :: u64) = p + numeral k"
  using unat_plus [of p "numeral k"] by simp

lemma unat_plus2 [simp]: "p + s + numeral k < 2 ^ 64 \<Longrightarrow> unat (of_nat p + of_nat s + numeral k :: u64) = p + s + numeral k"
  using unat_plus_num [of "p + s" k] by simp

lemma unat_minus_num [simp]: "numeral k \<le> p \<Longrightarrow> p < 2 ^ 64 \<Longrightarrow> unat (of_nat p - numeral k :: u64) = p - numeral k"
  using unat_at [of "p - numeral k"] by (simp add: of_nat_diff)

lemma of_nat_inject_u64: "m < 2 ^ 64 \<Longrightarrow> n < 2 ^ 64 \<Longrightarrow> (of_nat m = (of_nat n :: u64)) = (m = n)"
proof -
  assume "m < 2 ^ 64" "n < 2 ^ 64"
  then have "unat (of_nat m :: u64) = m" "unat (of_nat n :: u64) = n" by (simp_all add: unat_of_nat)
  then show ?thesis by metis
qed

lemma of_nat_le_u64: "m < 2 ^ 64 \<Longrightarrow> n < 2 ^ 64 \<Longrightarrow> (of_nat m \<le> (of_nat n :: u64)) = (m \<le> n)"
  by (simp add: word_le_nat_alt unat_of_nat)

definition tag_ok :: "u64 \<Rightarrow> nat \<Rightarrow> bool \<Rightarrow> bool" where
  "tag_ok w s f \<longleftrightarrow> w AND NOT FLAG_BITS = of_nat s \<and> (w AND FREE_FLAG \<noteq> 0) = f \<and> w AND AREA_FLAG = 0"

lemma bit_flags:
  "bit FREE_FLAG n = (n = 0)" "bit AREA_FLAG n = (n = 1)" "bit SIZE_FLAG n = (n = 2)" "bit FLAG_BITS n = (n < 3)"
proof -
  have two: "AREA_FLAG = 2 ^ 1" and four: "SIZE_FLAG = 2 ^ 2" and seven: "FLAG_BITS = mask 3"
    by (simp_all add: flag_defs mask_eq_exp_minus_1)
  show "bit FREE_FLAG n = (n = 0)" by (simp add: flag_defs bit_1_iff)
  show "bit AREA_FLAG n = (n = 1)" by (subst two, subst bit_exp_iff) auto
  show "bit SIZE_FLAG n = (n = 2)" by (subst four, subst bit_exp_iff) auto
  show "bit FLAG_BITS n = (n < 3)" by (subst seven, subst bit_mask_iff) auto
qed

lemma flag_nonzero: "(w AND FREE_FLAG \<noteq> 0) = bit w 0" "(w AND AREA_FLAG \<noteq> 0) = bit w 1" "(w AND AREA_FLAG = 0) = (\<not> bit w 1)" for w :: u64
proof -
  show "(w AND FREE_FLAG \<noteq> 0) = bit w 0" by (simp add: FREE_FLAG_def and_one_eq bit_0 odd_iff_mod_2_eq_one)
  have "(w AND AREA_FLAG = 0) = (\<forall>n<64. bit w n \<longrightarrow> n \<noteq> 1)" by (auto simp: bit_eq_iff [where 'a = "64 word"] bit_and_iff bit_flags)
  also have "\<dots> = (\<not> bit w 1)" by (metis one_less_numeral_iff semiring_norm(76))
  finally show "(w AND AREA_FLAG = 0) = (\<not> bit w 1)" .
  then show "(w AND AREA_FLAG \<noteq> 0) = bit w 1" by simp
qed

lemma size_bits_eq: "(v AND NOT FLAG_BITS = w) = (\<forall>n<64. bit w n = (bit v n \<and> 3 \<le> n))" for v w :: u64
  by (auto simp: bit_eq_iff [where 'a = "64 word"] bit_simps bit_flags not_less)

lemma tag_ok_bits: "tag_ok w s f \<longleftrightarrow> (\<forall>n<64. bit s n = (bit w n \<and> 3 \<le> n)) \<and> bit w 0 = f \<and> \<not> bit w 1"
  by (simp add: tag_ok_def flag_nonzero size_bits_eq bit_of_nat_iff)

lemma low_bits_of_multiple:
  fixes s :: nat
  assumes "16 dvd s" "bit s n"
  shows "3 \<le> n"
proof (rule ccontr)
  assume n: "\<not> 3 \<le> n"
  obtain k where "s = 16 * k" using assms(1) by blast
  moreover have "(16 :: nat) = 2 ^ n * (2 * 2 ^ (3 - n))" using n power_add [of "2 :: nat" n "3 - n"] by simp
  ultimately have "s = 2 ^ n * (2 * (2 ^ (3 - n) * k))" by simp
  then show False using assms(2) by (simp add: bit_iff_odd)
qed

lemma tag_set:
  shows tag_plain: "16 dvd s \<Longrightarrow> tag_ok (of_nat s) s False"
    and tag_freed: "tag_ok w s f \<Longrightarrow> tag_ok (w OR FREE_FLAG) s True"
    and tag_alloced: "tag_ok w s f \<Longrightarrow> tag_ok (w AND NOT FREE_FLAG) s False"
    and tag_2M: "tag_ok w s f \<Longrightarrow> tag_ok (w OR SIZE_FLAG) s f"
    and tag_4k: "tag_ok w s f \<Longrightarrow> tag_ok (w AND NOT SIZE_FLAG) s f"
  by (auto simp: tag_ok_bits bit_simps bit_flags dest: low_bits_of_multiple)

section \<open>The layout of blocks\<close>

type_synonym blocks = "nat \<Rightarrow> (nat \<times> bool) option"

text \<open>The blocks of an area from \<open>B\<close> to \<open>E\<close> follow each other without gaps; the flag says that the block is in a list of free blocks.\<close>

definition layout :: "nat \<Rightarrow> nat \<Rightarrow> blocks \<Rightarrow> bool" where
  "layout B E b \<longleftrightarrow> 64 \<le> B \<and> B + 32 \<le> E \<and> 16 dvd B \<and> E < 2 ^ 64 \<and>
     (\<forall>p s f. b p = Some (s, f) \<longrightarrow> B + 16 \<le> p \<and> 16 dvd p \<and> 16 dvd s \<and> 16 \<le> s \<and> p + s + 16 \<le> E) \<and>
     (\<forall>p s f q t g. b p = Some (s, f) \<longrightarrow> b q = Some (t, g) \<longrightarrow> p < q \<longrightarrow> p + s + 16 \<le> q) \<and>
     (\<forall>a. B + 8 \<le> a \<longrightarrow> a + 8 < E \<longrightarrow> (\<exists>p s f. b p = Some (s, f) \<and> p \<le> a + 8 \<and> a < p + s + 8))"

lemma layoutI:
  assumes "64 \<le> B" "B + 32 \<le> E" "16 dvd B" "E < 2 ^ 64"
    "\<And>p s f. b p = Some (s, f) \<Longrightarrow> B + 16 \<le> p \<and> 16 dvd p \<and> 16 dvd s \<and> 16 \<le> s \<and> p + s + 16 \<le> E"
    "\<And>p s f q t g. b p = Some (s, f) \<Longrightarrow> b q = Some (t, g) \<Longrightarrow> p < q \<Longrightarrow> p + s + 16 \<le> q"
    "\<And>a. B + 8 \<le> a \<Longrightarrow> a + 8 < E \<Longrightarrow> \<exists>p s f. b p = Some (s, f) \<and> p \<le> a + 8 \<and> a < p + s + 8"
  shows "layout B E b"
  using assms unfolding layout_def by blast

lemma layoutD:
  assumes "layout B E b"
  shows layout_area: "64 \<le> B" "B + 32 \<le> E" "16 dvd B" "E < 2 ^ 64"
    and layout_block: "b p = Some (s, f) \<Longrightarrow> B + 16 \<le> p \<and> 16 dvd p \<and> 16 dvd s \<and> 16 \<le> s \<and> p + s + 16 \<le> E"
    and layout_order: "b p = Some (s, f) \<Longrightarrow> b q = Some (t, g) \<Longrightarrow> p < q \<Longrightarrow> p + s + 16 \<le> q"
    and layout_cover: "B + 8 \<le> a \<Longrightarrow> a + 8 < E \<Longrightarrow> \<exists>p s f. b p = Some (s, f) \<and> p \<le> a + 8 \<and> a < p + s + 8"
  using assms unfolding layout_def by blast+

lemma layout_apart:
  assumes "layout B E b" "b p = Some (s, f)" "b q = Some (t, g)" "p \<noteq> q"
  shows "p + s + 16 \<le> q \<or> q + t + 16 \<le> p"
  using layout_order [OF assms(1)] assms(2-) by (metis nat_neq_iff)

lemma layout_gap:
  assumes "layout B E b" "b p = Some (s, f)" "p < q" "q < p + s + 16"
  shows "b q = None"
proof (cases "b q")
  case (Some x)
  then show ?thesis using layout_order [OF assms(1,2), of q "fst x" "snd x"] assms(3,4) by simp
qed

text \<open>So each block but the last is followed by another, and each but the first follows one.\<close>

lemma layout_next:
  assumes "layout B E b" "b p = Some (s, f)" "p + s + 16 \<noteq> E"
  shows "\<exists>t g. b (p + s + 16) = Some (t, g)"
proof -
  have "B + 8 \<le> p + s + 8" "p + s + 8 + 8 < E" using layout_block [OF assms(1,2)] assms(3) by auto
  then obtain q t g where q: "b q = Some (t, g)" "q \<le> p + s + 8 + 8" "p + s + 8 < q + t + 8" using layout_cover [OF assms(1)] by blast
  have "q \<noteq> p" using q assms(2) by auto
  then have "q = p + s + 16" using layout_apart [OF assms(1,2) q(1)] q layout_block [OF assms(1) q(1)] by auto
  then show ?thesis using q(1) by auto
qed

lemma layout_prev:
  assumes "layout B E b" "b p = Some (s, f)" "p \<noteq> B + 16"
  shows "\<exists>q t g. b q = Some (t, g) \<and> q + t + 16 = p"
proof -
  have "16 dvd p" "16 dvd B" "B + 16 \<le> p" using layout_block [OF assms(1,2)] layout_area [OF assms(1)] by simp_all
  then have "B + 32 \<le> p" using assms(3) by presburger
  then have "B + 8 \<le> p - 9" "p - 9 + 8 < E" using layout_block [OF assms(1,2)] by auto
  then obtain q t g where q: "b q = Some (t, g)" "q \<le> p - 9 + 8" "p - 9 < q + t + 8" using layout_cover [OF assms(1)] by blast
  have "q \<noteq> p" using q \<open>B + 32 \<le> p\<close> by auto
  then have "q + t + 16 = p" using layout_apart [OF assms(1,2) q(1)] q \<open>B + 32 \<le> p\<close> by auto
  then show ?thesis using q(1) by auto
qed

lemma layout_last:
  assumes "layout B E b"
  shows "\<exists>q t g. b q = Some (t, g) \<and> q + t + 16 = E"
proof -
  have "B + 8 \<le> E - 9" "E - 9 + 8 < E" using layout_area [OF assms] by auto
  then obtain q t g where q: "b q = Some (t, g)" "q \<le> E - 9 + 8" "E - 9 < q + t + 8" using layout_cover [OF assms] by blast
  then have "q + t + 16 = E" using layout_block [OF assms q(1)] by auto
  then show ?thesis using q(1) by auto
qed

text \<open>Every address in a block belongs to one block only.\<close>

lemma layout_inside:
  assumes "layout B E b" "b p = Some (s, f)" "b q = Some (t, g)" "p \<le> a + 8" "a < p + s + 8" "q \<le> a + 8" "a < q + t + 8"
  shows "p = q"
  using layout_apart [OF assms(1-3)] assms(4-) by fastforce

section \<open>Tags in memory\<close>

text \<open>A loose block is in no list, whatever its tags say; its contents may be overwritten.\<close>

definition tagged :: "hmem \<Rightarrow> nat \<Rightarrow> nat \<Rightarrow> bool \<Rightarrow> bool \<Rightarrow> bool" where
  "tagged h a s loose f \<longleftrightarrow> (\<exists>w g. h a = Some w \<and> tag_ok w s g \<and> (loose \<or> g = f))"

definition sentinel :: "hmem \<Rightarrow> nat \<Rightarrow> bool" where
  "sentinel h a \<longleftrightarrow> (\<exists>w. h a = Some w \<and> w AND AREA_FLAG \<noteq> 0)"

definition tags :: "nat \<Rightarrow> nat \<Rightarrow> nat set \<Rightarrow> blocks \<Rightarrow> hmem \<Rightarrow> bool" where
  "tags B E X b h \<longleftrightarrow> (\<forall>a. B \<le> a \<longrightarrow> a < E \<longrightarrow> 8 dvd a \<longrightarrow> h a \<noteq> None) \<and> sentinel h B \<and> sentinel h (E - 8) \<and>
     (\<forall>p s f. b p = Some (s, f) \<longrightarrow> tagged h (p - 8) s (p \<in> X) f \<and> tagged h (p + s) s (p \<in> X) f)"

lemma tagsD:
  assumes "tags B E X b h"
  shows tags_mapped: "B \<le> a \<Longrightarrow> a < E \<Longrightarrow> 8 dvd a \<Longrightarrow> \<exists>w. h a = Some w"
    and tags_ends: "sentinel h B" "sentinel h (E - 8)"
    and tags_block: "b p = Some (s, f) \<Longrightarrow> tagged h (p - 8) s (p \<in> X) f" "b p = Some (s, f) \<Longrightarrow> tagged h (p + s) s (p \<in> X) f"
  using assms by (auto simp: tags_def)

lemma blk_head_at: "8 \<le> p \<Longrightarrow> p < 2 ^ 64 \<Longrightarrow> blk_head (of_nat p) h = h (p - 8)"
  by (simp add: blk_head_def load_def)

lemma blk_prevtail_at: "16 \<le> p \<Longrightarrow> p < 2 ^ 64 \<Longrightarrow> blk_prevtail (of_nat p) h = h (p - 16)"
  by (simp add: blk_prevtail_def load_def)

lemma blk_tail_at: "p + s < 2 ^ 64 \<Longrightarrow> blk_tail (of_nat p) (of_nat s) h = h (p + s)"
  by (simp add: blk_tail_def load_def)

lemma blk_nexthead_at: "p + s + 8 < 2 ^ 64 \<Longrightarrow> blk_nexthead (of_nat p) (of_nat s) h = h (p + s + 8)"
  by (simp add: blk_nexthead_def load_def)

lemma retag_at:
  assumes "h (p - 8) = Some v" "h (p + s) = Some w" "8 \<le> p" "p + s < 2 ^ 64"
  shows "retag g (of_nat p) (of_nat s) h = Some (h(p - 8 := Some (g v), p + s := Some (g w)))"
proof -
  have "p + s \<noteq> p - 8" using assms(3) by simp
  then show ?thesis using assms by (simp add: retag_def blk_head_at blk_tail_at store_def)
qed

lemma blk_setsize_at:
  assumes "h (p - 8) \<noteq> None" "h (p + s) \<noteq> None" "8 \<le> p" "p + s < 2 ^ 64"
  shows "blk_setsize (of_nat p) (of_nat s) h = Some (h(p - 8 := Some (of_nat s), p + s := Some (of_nat s)))"
  using assms by (simp add: blk_setsize_def store_def)

section \<open>Doubly linked lists in memory\<close>

text \<open>The backward link of the first block of a list is never followed.\<close>

definition link :: "nat list \<Rightarrow> u64" where
  "link xs = (case xs of [] \<Rightarrow> 0 | x # _ \<Rightarrow> of_nat x)"

primrec fwd :: "hmem \<Rightarrow> nat list \<Rightarrow> u64 \<Rightarrow> bool" where
  "fwd h [] e = True"
| "fwd h (x # xs) e = (h x = Some (if xs = [] then e else link xs) \<and> fwd h xs e)"

primrec bwd :: "hmem \<Rightarrow> nat \<Rightarrow> nat list \<Rightarrow> bool" where
  "bwd h b [] = True"
| "bwd h b (x # xs) = (h (x + 8) = Some (of_nat b) \<and> bwd h x xs)"

definition dll :: "hmem \<Rightarrow> nat list \<Rightarrow> bool" where
  "dll h xs \<longleftrightarrow> fwd h xs 0 \<and> (case xs of [] \<Rightarrow> True | x # ys \<Rightarrow> bwd h x ys)"

lemma link_simps [simp]: "link [] = 0" "link (x # xs) = of_nat x" "link (xs @ ys) = (if xs = [] then link ys else link xs)"
  by (cases xs; simp add: link_def)+

lemma dll_simps [simp]: "dll h []" "dll h (x # xs) = (h x = Some (link xs) \<and> fwd h xs 0 \<and> bwd h x xs)"
  by (simp_all add: dll_def)

lemma fwd_append: "fwd h (xs @ ys) e = (fwd h xs (if ys = [] then e else link ys) \<and> fwd h ys e)"
proof (induction xs)
  case (Cons x xs)
  then show ?case by (cases xs; cases ys) auto
qed simp

lemma bwd_append: "bwd h b (xs @ ys) = (bwd h b xs \<and> bwd h (last (b # xs)) ys)"
  by (induction xs arbitrary: b) auto

lemma fwd_write: "a \<notin> set xs \<Longrightarrow> fwd (h(a := v)) xs e = fwd h xs e"
  by (induction xs) auto

lemma bwd_write: "a \<notin> (\<lambda>x. x + 8) ` set xs \<Longrightarrow> bwd (h(a := v)) b xs = bwd h b xs"
  by (induction xs arbitrary: b) auto

lemma fwd_last: "fwd h (xs @ [x]) e = (fwd h xs (of_nat x) \<and> h x = Some e)"
  by (simp add: fwd_append)

lemma dll_write: "a \<notin> set xs \<Longrightarrow> a \<notin> (\<lambda>x. x + 8) ` set xs \<Longrightarrow> dll (h(a := v)) xs = dll h xs"
  by (cases xs) (auto simp: fwd_write bwd_write)

definition cells :: "nat list \<Rightarrow> nat set" where
  "cells xs = set xs \<union> (\<lambda>x. x + 8) ` set xs"

lemma cells_simps [simp]: "cells [] = {}" "cells (x # xs) = {x, x + 8} \<union> cells xs" "cells (xs @ ys) = cells xs \<union> cells ys"
  by (auto simp: cells_def)

lemma dll_frame: "a \<notin> cells xs \<Longrightarrow> dll (h(a := v)) xs = dll h xs"
  by (simp add: cells_def dll_write)

text \<open>Putting a block in front of a list, and taking one out.\<close>

definition linkable :: "hmem \<Rightarrow> nat \<Rightarrow> bool" where
  "linkable h x \<longleftrightarrow> 0 < x \<and> 16 dvd x \<and> x + 8 < 2 ^ 64 \<and> h x \<noteq> None \<and> h (x + 8) \<noteq> None"

lemma links_apart:
  assumes "linkable h x" "linkable h y"
  shows "x + 8 \<noteq> y" "y \<noteq> x + 8"
proof -
  have "16 dvd x" "16 dvd y" using assms by (simp_all add: linkable_def)
  then show "x + 8 \<noteq> y" "y \<noteq> x + 8" by presburger+
qed

lemma links_apart_set:
  assumes "linkable h x" "\<forall>y \<in> set ys. linkable h y"
  shows "x + 8 \<notin> set ys" "x \<notin> (\<lambda>x. x + 8) ` set ys" "x + 8 \<in> (\<lambda>x. x + 8) ` set ys \<longleftrightarrow> x \<in> set ys"
  using assms links_apart [OF assms(1)] links_apart(2) [OF _ assms(1)] by auto

lemma of_nat_linkable: "linkable h x \<Longrightarrow> (of_nat x :: u64) \<noteq> 0"
  using of_nat_inject_u64 [of x 0] by (auto simp: linkable_def)

lemma freelist_put_at:
  assumes "dll h xs" "distinct (p # xs)" "\<forall>x \<in> set (p # xs). linkable h x"
  obtains h' where "freelist_put (link xs) (of_nat p) h = Some (of_nat p, h')" "dll h' (p # xs)"
    "\<And>a. a \<notin> cells (p # xs) \<Longrightarrow> h' a = h a" "\<And>a. (h' a = None) = (h a = None)"
proof (cases xs)
  case Nil
  then show ?thesis using assms
    by (intro that [of "h(p := Some 0, p + 8 := Some 0)"]) (auto simp: freelist_put_def load_def store_def linkable_def)
next
  case (Cons y ys)
  have k: "linkable h p" "linkable h y" "\<forall>y \<in> set ys. linkable h y" "p \<notin> set ys" "y \<notin> set ys" "p \<noteq> y" using assms(2,3) Cons by auto
  note f = links_apart_set [OF k(1,3)] links_apart_set [OF k(2,3)] links_apart [OF k(1,2)] links_apart [OF k(2,1)]
  define h' where "h' = h(p := Some (of_nat y), p + 8 := Some 0, y + 8 := Some (of_nat p))"
  show ?thesis
  proof (rule that [of h'])
    show "freelist_put (link xs) (of_nat p) h = Some (of_nat p, h')"
      using k Cons f of_nat_linkable [OF k(2)] by (auto simp: freelist_put_def load_def store_def h'_def linkable_def)
    show "dll h' (p # xs)" using assms(1) Cons k(4-) f by (auto simp: h'_def fwd_write bwd_write)
    show "\<And>a. a \<notin> cells (p # xs) \<Longrightarrow> h' a = h a" using Cons by (auto simp: h'_def)
    show "\<And>a. (h' a = None) = (h a = None)" using k(1,2) by (auto simp: h'_def linkable_def)
  qed
qed

lemma dll_split:
  "dll h (us @ u # x # vs) \<longleftrightarrow> fwd h us (of_nat u) \<and> h u = Some (of_nat x) \<and> h x = Some (link vs) \<and> fwd h vs 0 \<and>
     (case us @ [u] of [] \<Rightarrow> True | y # ys \<Rightarrow> bwd h y ys) \<and> h (x + 8) = Some (of_nat u) \<and> bwd h x vs"
proof (cases us)
  case (Cons y ys)
  then show ?thesis by (cases ys; cases vs) (auto simp: fwd_append bwd_append)
qed (cases vs; auto)

lemma unlink_at:
  assumes "dll h (us @ u # x # vs)" "distinct (us @ u # x # vs)" "\<forall>x \<in> set (us @ u # x # vs). linkable h x"
  obtains h' where "unlink_neighbours (of_nat x) h = Some h'" "dll h' (us @ u # vs)"
    "\<And>a. a \<notin> cells (us @ u # vs) \<Longrightarrow> h' a = h a" "\<And>a. (h' a = None) = (h a = None)"
proof (cases vs)
  case Nil
  have k: "linkable h u" "linkable h x" "\<forall>y \<in> set us. linkable h y" "u \<notin> set us" "x \<notin> set us" "u \<noteq> x" using assms(2,3) by auto
  note f = links_apart_set [OF k(1,3)] links_apart_set [OF k(2,3)] links_apart [OF k(1,2)] links_apart [OF k(2,1)]
  show ?thesis
  proof (rule that [of "h(u := Some 0)"])
    show "unlink_neighbours (of_nat x) h = Some (h(u := Some 0))"
      using assms(1) k Nil of_nat_linkable [OF k(1)] by (simp add: dll_split unlink_neighbours_def load_def store_def linkable_def)
    show "dll (h(u := Some 0)) (us @ u # vs)"
      using assms(1) k f Nil by (cases us) (auto simp: dll_split fwd_append bwd_append fwd_write bwd_write)
  qed (use Nil k in \<open>auto simp: linkable_def\<close>)
next
  case (Cons y ys)
  have k: "linkable h u" "linkable h x" "\<forall>y \<in> set us. linkable h y" "u \<notin> set us" "x \<notin> set us" "u \<noteq> x"
    "linkable h y" "\<forall>y \<in> set ys. linkable h y" "u \<notin> set ys" "x \<notin> set ys" "y \<notin> set us" "y \<notin> set ys" "u \<noteq> y" "x \<noteq> y"
    using assms(2,3) Cons by auto
  note f = links_apart_set [OF k(1,3)] links_apart_set [OF k(2,3)] links_apart [OF k(1,2)] links_apart [OF k(2,1)]
    links_apart_set [OF k(1,8)] links_apart_set [OF k(2,8)] links_apart_set [OF k(7,3)] links_apart_set [OF k(7,8)]
    links_apart [OF k(1,7)] links_apart [OF k(7,1)] links_apart [OF k(2,7)] links_apart [OF k(7,2)]
  define h' where "h' = h(y + 8 := Some (of_nat u), u := Some (of_nat y))"
  have w: "h u = Some (of_nat x)" "h x = Some (of_nat y)" "h (x + 8) = Some (of_nat u)" using assms(1) Cons by (simp_all add: dll_split)
  have c: "h (y + 8) \<noteq> None" "u < 2 ^ 64" using k(1,7) by (simp_all add: linkable_def)
  have b: "x < 2 ^ 64" "x + 8 < 2 ^ 64" "y + 8 < 2 ^ 64" using k(2,7) by (simp_all add: linkable_def)
  show ?thesis
  proof (rule that [of h'])
    show "unlink_neighbours (of_nat x) h = Some h'"
    proof -
      have "u \<noteq> y + 8" "x \<noteq> y + 8" "x + 8 \<noteq> y + 8" using links_apart [OF k(7,1)] links_apart [OF k(7,2)] k(14) by auto
      then show ?thesis using w c b of_nat_linkable [OF k(1)] of_nat_linkable [OF k(7)]
        by (simp add: unlink_neighbours_def load_def store_def h'_def fun_upd_def)
    qed
    show "dll h' (us @ u # vs)"
    proof -
      have "y + 8 \<notin> (\<lambda>x. x + 8) ` set (us @ [u])" "u \<notin> (\<lambda>x. x + 8) ` set (us @ [u])" using k(3,11,13) f by auto
      then have "y + 8 \<notin> (\<lambda>x. x + 8) ` set (tl (us @ [u]))" "u \<notin> (\<lambda>x. x + 8) ` set (tl (us @ [u]))"
        using list.set_sel(2) [of "us @ [u]"] by blast+
      then have "bwd h' z (tl (us @ [u])) = bwd h z (tl (us @ [u]))" for z unfolding h'_def by (simp add: bwd_write)
      then have "(case us @ [u] of [] \<Rightarrow> True | z # zs \<Rightarrow> bwd h' z zs)" using assms(1) unfolding dll_split by (cases "us @ [u]") simp_all
      moreover have "fwd h' us (of_nat u)" "fwd h' ys 0" "bwd h' y ys" "h' u = Some (of_nat y)" "h' y = Some (link ys)" "h' (y + 8) = Some (of_nat u)"
        using assms(1) k(4,9-13) f unfolding dll_split Cons h'_def by (simp_all add: fwd_write bwd_write split: if_splits)
      ultimately show ?thesis unfolding Cons dll_split by blast
    qed
  qed (use Cons k in \<open>auto simp: linkable_def h'_def\<close>)
qed

section \<open>Searching a list, and the list a size belongs to\<close>

lemma find_block_at:
  assumes "fwd h xs 0" "\<forall>x \<in> set xs. linkable h x" "\<And>x. x \<in> set xs \<Longrightarrow> fits (of_nat x) = Some (P x)"
  shows "find_block fits h (link xs) = Some (link (dropWhile (\<lambda>x. \<not> P x) xs))"
  using assms
proof (induction xs)
  case Nil
  then show ?case by (simp add: find_block.simps)
next
  case (Cons x xs)
  have "(of_nat x :: u64) \<noteq> 0" "x < 2 ^ 64" using Cons.prems(2) of_nat_linkable by (auto simp: linkable_def)
  moreover have "link xs = (if xs = [] then 0 else link xs)" by simp
  ultimately show ?case using Cons by (simp add: find_block.simps [of fits h "of_nat x"])
qed

definition list_id :: "nat \<Rightarrow> nat" where
  "list_id s = (let i = freelists_size2id (of_nat s) in if i < 0 then 8 else nat i)"

lemma clz_at:
  assumes "2 ^ k \<le> n" "n < 2 ^ Suc k" "k < 32"
  shows "clz (of_nat n) = 31 - k"
proof -
  have b: "bit (of_nat n :: u32) i = (i < 32 \<and> odd (n div 2 ^ i))" for i by (simp add: bit_of_nat_iff) (auto simp: bit_iff_odd [where 'a = nat])
  have "n div 2 ^ k = 1" using assms(1,2) by (simp add: div_nat_eqI)
  then have top: "bit (of_nat n :: u32) k" using b assms(3) by simp
  have above: "\<not> bit (of_nat n :: u32) i" if "k < i" for i
  proof -
    have "(2 :: nat) ^ Suc k \<le> 2 ^ i" using that by (intro power_increasing) auto
    then show ?thesis using assms(2) b by simp
  qed
  have "[0..<32] = [0..<k] @ k # [Suc k..<32]" using assms(3) upt_add_eq_append [of 0 k "32 - k"] by (simp add: upt_conv_Cons)
  then have "clz (of_nat n) = length (takeWhile (\<lambda>i. \<not> bit (of_nat n :: u32) i) (rev [Suc k..<32] @ k # rev [0..<k]))"
    by (simp add: clz_def)
  also have "\<dots> = length (rev [Suc k..<32])" using top above by (subst takeWhile_append2) auto
  finally show ?thesis by simp
qed

lemma list_id_middle:
  assumes "2 ^ k \<le> s" "s < 2 ^ Suc k" "8 \<le> k" "k < 14"
  shows "list_id s = k - 6"
proof -
  have "(2 :: nat) ^ 8 \<le> 2 ^ k" "(2 :: nat) ^ Suc k \<le> 2 ^ 14" using assms(3,4) by (intro power_increasing; simp)+
  then have s: "256 \<le> s" "s < 16384" using assms(1,2) by auto
  have "(ucast (of_nat s :: u64) :: u32) = of_nat s" by (rule bit_word_eqI) (auto simp: bit_simps bit_of_nat_iff)
  then have "freelists_size2id (of_nat s) = 25 - int (31 - k)"
    using s assms clz_at [OF assms(1,2)] by (simp add: freelists_size2id_def word_less_nat_alt word_le_nat_alt)
  then show ?thesis using assms(3,4) by (simp add: list_id_def)
qed

lemma list_id_small: "s < 64 \<Longrightarrow> list_id s = 0" "64 \<le> s \<Longrightarrow> s < 256 \<Longrightarrow> list_id s = 1"
  and list_id_large: "16384 \<le> s \<Longrightarrow> s < 2 ^ 64 \<Longrightarrow> list_id s = 8"
  by (simp_all add: list_id_def freelists_size2id_def word_less_nat_alt word_le_nat_alt)

lemma list_id_between:
  assumes "256 \<le> s" "s < 16384"
  obtains k where "2 ^ k \<le> s" "s < 2 ^ Suc k" "8 \<le> k" "k < 14" "list_id s = k - 6"
proof -
  obtain k where k: "2 ^ k \<le> s" "s < 2 ^ Suc k" using ex_power_ivl1 [of 2 s] assms by auto
  have "(2 :: nat) ^ 8 < 2 ^ Suc k" "(2 :: nat) ^ k < 2 ^ 14" using k assms by auto
  then have "8 \<le> k" "k < 14" using power_less_imp_less_exp [of "2 :: nat" 8 "Suc k"] power_less_imp_less_exp [of "2 :: nat" k 14] by simp_all
  then show ?thesis using that k list_id_middle by blast
qed

lemma list_id_mono:
  assumes "s \<le> t" "t < 2 ^ 64"
  shows "list_id s \<le> list_id t"
proof -
  consider "s < 64" | "64 \<le> s" "s < 256" | "256 \<le> s" "s < 16384" | "16384 \<le> s" by linarith
  then show ?thesis
  proof cases
    case 3
    obtain k where k: "2 ^ k \<le> s" "k < 14" "list_id s = k - 6" using list_id_between [OF 3] by metis
    show ?thesis
    proof (cases "t < 16384")
      case True
      obtain j where j: "t < 2 ^ Suc j" "list_id t = j - 6" using list_id_between [of t] True 3 assms by (metis le_trans)
      have "(2 :: nat) ^ k < 2 ^ Suc j" using k j assms by linarith
      then have "k \<le> j" using power_less_imp_less_exp [of "2 :: nat" k "Suc j"] by simp
      then show ?thesis using k j by simp
    qed (use k assms in \<open>simp add: list_id_large\<close>)
  next
    case 2
    consider "t < 256" | "256 \<le> t" "t < 16384" | "16384 \<le> t" by linarith
    then show ?thesis
    proof cases
      assume "256 \<le> t" "t < 16384"
      then obtain j where "8 \<le> j" "list_id t = j - 6" using list_id_between by metis
      then show ?thesis using 2 by (simp add: list_id_small)
    qed (use 2 assms in \<open>simp_all add: list_id_small list_id_large\<close>)
  qed (use assms in \<open>simp_all add: list_id_small list_id_large\<close>)
qed

lemma size2id_list_id:
  assumes "s < 2 ^ 64"
  shows "freelists_size2id (of_nat s) = (if s < 16384 then int (list_id s) else -1)" "list_id s \<le> 8" "(list_id s = 8) = (16384 \<le> s)"
proof -
  consider "s < 64" | "64 \<le> s" "s < 256" | "256 \<le> s" "s < 16384" | "16384 \<le> s" by linarith
  then have "freelists_size2id (of_nat s) = (if s < 16384 then int (list_id s) else -1) \<and> list_id s \<le> 8 \<and> (list_id s = 8) = (16384 \<le> s)"
  proof cases
    case 3
    then obtain k where k: "8 \<le> k" "k < 14" "list_id s = k - 6" using list_id_between by metis
    then have "nat (freelists_size2id (of_nat s)) = k - 6 \<and> 0 \<le> freelists_size2id (of_nat s)" by (simp add: list_id_def Let_def split: if_splits)
    then show ?thesis using k 3 by auto
  qed (use assms in \<open>auto simp: list_id_small list_id_large freelists_size2id_def word_less_nat_alt word_le_nat_alt\<close>)
  then show "freelists_size2id (of_nat s) = (if s < 16384 then int (list_id s) else -1)" "list_id s \<le> 8" "(list_id s = 8) = (16384 \<le> s)" by blast+
qed

end
