(* ===== verification/Heap_Inv.thy ===== *)
theory Heap_Inv
  imports Heap_Rep
begin

text \<open>
  The state of a pool and what it stands for, and what each step of the allocator does to it.  Throughout, \<open>X\<close> is the set of loose
  blocks, \<open>Y\<close> the set of blocks in the list of large ones although their size belongs elsewhere, and \<open>A\<close> a set of addresses in
  allocated blocks or outside the area where the memory has not changed since \<open>h0\<close>.
\<close>

definition heads :: "'a mpool_scheme \<Rightarrow> nat \<Rightarrow> u64" where
  "heads st i = (if i < 8 then freed st ! i else if i = 8 then large_blk st else 0)"

definition home :: "nat set \<Rightarrow> nat \<Rightarrow> nat \<Rightarrow> nat" where
  "home Y p s = (if p \<in> Y then 8 else list_id s)"

definition lists_ok :: "nat set \<Rightarrow> blocks \<Rightarrow> hmem \<Rightarrow> (nat \<Rightarrow> u64) \<Rightarrow> (nat \<Rightarrow> nat list) \<Rightarrow> bool" where
  "lists_ok Y b h H L \<longleftrightarrow> (\<forall>i\<le>8. H i = link (L i) \<and> dll h (L i) \<and> distinct (L i) \<and>
     (\<forall>p. p \<in> set (L i) \<longleftrightarrow> (\<exists>s. b p = Some (s, True) \<and> home Y p s = i)))"

definition safe :: "nat \<Rightarrow> nat \<Rightarrow> nat set \<Rightarrow> blocks \<Rightarrow> nat \<Rightarrow> bool" where
  "safe B E X b a \<longleftrightarrow> a < B \<or> E \<le> a \<or> (\<exists>p s. b p = Some (s, False) \<and> p \<notin> X \<and> p \<le> a \<and> a < p + s)"

definition kept :: "nat \<Rightarrow> nat \<Rightarrow> nat set \<Rightarrow> nat set \<Rightarrow> hmem \<Rightarrow> blocks \<Rightarrow> hmem \<Rightarrow> bool" where
  "kept B E X A h0 b h \<longleftrightarrow> (\<forall>a \<in> A. h a = h0 a \<and> safe B E X b a)"

definition mem_rep :: "nat \<Rightarrow> nat \<Rightarrow> nat set \<Rightarrow> nat set \<Rightarrow> nat set \<Rightarrow> hmem \<Rightarrow> hmem \<Rightarrow> (nat \<Rightarrow> u64) \<Rightarrow> blocks \<Rightarrow> (nat \<Rightarrow> nat list) \<Rightarrow> bool" where
  "mem_rep B E X Y A h0 h H b L \<longleftrightarrow> layout B E b \<and> tags B E X b h \<and> lists_ok Y b h H L \<and> kept B E X A h0 b h \<and>
     (\<forall>p \<in> X. \<exists>s. b p = Some (s, False))"

lemma mem_repD:
  assumes "mem_rep B E X Y A h0 h H b L"
  shows rep_layout: "layout B E b" and rep_tags: "tags B E X b h" and rep_lists: "lists_ok Y b h H L" and rep_kept: "kept B E X A h0 b h"
    and rep_loose: "p \<in> X \<Longrightarrow> \<exists>s. b p = Some (s, False)"
  using assms by (auto simp: mem_rep_def)

section \<open>Frames\<close>

text \<open>Addresses that no list link and no allocated block uses may be written.\<close>

lemma lists_write:
  assumes "lists_ok Y b h H L" "\<And>p s. b p = Some (s, True) \<Longrightarrow> a < p \<or> p + 16 \<le> a"
  shows "lists_ok Y b (h(a := v)) H L"
proof -
  have "a \<notin> cells (L i)" if "i \<le> 8" for i
    using assms(1) assms(2) that by (fastforce simp: lists_ok_def cells_def)
  then show ?thesis using assms(1) by (simp add: lists_ok_def dll_frame)
qed

lemma lists_blocks:
  assumes "lists_ok Y b h H L" "\<And>p s. (b' p = Some (s, True)) = (b p = Some (s, True))"
  shows "lists_ok Y b' h H L"
  using assms by (simp add: lists_ok_def)

lemma tagged_write: "a \<noteq> x \<Longrightarrow> tagged (h(a := v)) x s l f = tagged h x s l f"
  by (simp add: tagged_def)

lemma tagged_here: "tagged (h(a := Some w)) a s l f \<longleftrightarrow> (\<exists>g. tag_ok w s g \<and> (l \<or> g = f))"
  by (simp add: tagged_def)

lemma tagged_loose: "tagged h x s l f \<Longrightarrow> tagged h x s True g"
  by (auto simp: tagged_def)

lemma sentinel_write: "a \<noteq> x \<Longrightarrow> sentinel (h(a := v)) x = sentinel h x"
  by (simp add: sentinel_def)

text \<open>Where the blocks of a layout and their tags are.\<close>

lemma block_bounds:
  assumes "layout B E b" "b p = Some (s, f)"
  shows "B + 16 \<le> p" "16 \<le> s" "p + s + 16 \<le> E" "p + s + 8 < 2 ^ 64" "p < 2 ^ 64" "s < 2 ^ 64" "16 \<le> p" "0 < p"
    "16 dvd p" "16 dvd s"
  using layout_block [OF assms] layout_area(4) [OF assms(1)] by auto

lemma tags_writable:
  assumes "layout B E b" "tags B E X b h" "b p = Some (s, f)"
  shows "h (p - 8) \<noteq> None" "h (p + s) \<noteq> None" "linkable h p"
proof -
  show "h (p - 8) \<noteq> None" "h (p + s) \<noteq> None" using tags_block [OF assms(2,3)] by (auto simp: tagged_def)
  note k = block_bounds [OF assms(1,3)]
  have "8 dvd p" using k(9) by (rule dvd_trans [rotated]) simp
  then show "linkable h p" using k tags_mapped [OF assms(2), of p] tags_mapped [OF assms(2), of "p + 8"] by (auto simp: linkable_def)
qed

section \<open>Reading tags\<close>

lemma blk_size_at:
  assumes "layout B E b" "tags B E X b h" "b p = Some (s, f)"
  shows "blk_size (of_nat p) h = Some (of_nat s)"
  using tags_block(1) [OF assms(2,3)] block_bounds [OF assms(1,3)] by (auto simp: tagged_def tag_ok_def blk_size_def blk_head_at)

lemma blk_flag_at:
  assumes "layout B E b" "tags B E X b h" "b p = Some (s, f)" "p \<notin> X"
  shows "\<exists>w. blk_head (of_nat p) h = Some w \<and> (w AND FREE_FLAG \<noteq> 0) = f \<and> w AND AREA_FLAG = 0"
  using tags_block(1) [OF assms(2,3)] block_bounds [OF assms(1,3)] assms(4) by (auto simp: tagged_def tag_ok_def blk_head_at)

lemma next_is_free_at:
  assumes "layout B E b" "tags B E X b h" "b p = Some (s, f)" "p + s + 16 \<notin> X"
  shows "next_is_free (of_nat p) (of_nat s) h = Some (\<exists>t. b (p + s + 16) = Some (t, True))"
    and "blk_nonext (of_nat p) (of_nat s) h = Some (p + s + 16 = E)"
proof -
  note k = block_bounds [OF assms(1,3)]
  have *: "next_is_free (of_nat p) (of_nat s) h = Some (\<exists>t. b (p + s + 16) = Some (t, True)) \<and>
    blk_nonext (of_nat p) (of_nat s) h = Some (p + s + 16 = E)"
  proof (cases "p + s + 16 = E")
    case True
    have "b E = None" using block_bounds(3) [OF assms(1), of E] by (cases "b E"; force)
    moreover have "E - 8 = p + s + 8" using True by simp
    ultimately have "sentinel h (p + s + 8)" "b (p + s + 16) = None" using tags_ends(2) [OF assms(2)] True by simp_all
    then show ?thesis using True k by (auto simp: next_is_free_def blk_nonext_def blk_nexthead_at sentinel_def)
  next
    case False
    then obtain t g where q: "b (p + s + 16) = Some (t, g)" using layout_next [OF assms(1,3)] by blast
    moreover have "p + s + 16 - 8 = p + s + 8" by simp
    ultimately have "tagged h (p + s + 8) t False g" using tags_block(1) [OF assms(2) q] assms(4) by metis
    then show ?thesis using False k q by (auto simp: next_is_free_def blk_nonext_def blk_nexthead_at tagged_def tag_ok_def)
  qed
  then show "next_is_free (of_nat p) (of_nat s) h = Some (\<exists>t. b (p + s + 16) = Some (t, True))"
    "blk_nonext (of_nat p) (of_nat s) h = Some (p + s + 16 = E)" by simp_all
qed

lemma prev_is_free_at:
  assumes "layout B E b" "tags B E X b h" "b p = Some (s, f)" "\<And>q t g. b q = Some (t, g) \<Longrightarrow> q + t + 16 = p \<Longrightarrow> q \<notin> X"
  shows "prev_is_free (of_nat p) h = Some (\<exists>q t. b q = Some (t, True) \<and> q + t + 16 = p)"
    and "b q = Some (t, g) \<Longrightarrow> q + t + 16 = p \<Longrightarrow> blk_prev (of_nat p) h = Some (of_nat q)"
proof -
  note k = block_bounds [OF assms(1,3)]
  have "prev_is_free (of_nat p) h = Some g \<and> blk_prev (of_nat p) h = Some (of_nat q)" if q: "b q = Some (t, g)" "q + t + 16 = p" for q t g
  proof -
    have "p - 16 = q + t" using q(2) by simp
    then have "tagged h (p - 16) t False g" using tags_block(2) [OF assms(2) q(1)] assms(4) [OF q] by simp
    moreover have "of_nat p - 16 - of_nat t = (of_nat q :: u64)" using q(2) by auto
    ultimately show ?thesis using k by (auto simp: prev_is_free_def blk_noprev_def blk_prevtail_at blk_prev_def tagged_def tag_ok_def)
  qed
  note prev = this
  then show "b q = Some (t, g) \<Longrightarrow> q + t + 16 = p \<Longrightarrow> blk_prev (of_nat p) h = Some (of_nat q)" by blast
  show "prev_is_free (of_nat p) h = Some (\<exists>q t. b q = Some (t, True) \<and> q + t + 16 = p)"
  proof (cases "p = B + 16")
    case True
    then have "sentinel h (p - 16)" using tags_ends(1) [OF assms(2)] by simp
    moreover have "\<not> (\<exists>q t. b q = Some (t, True) \<and> q + t + 16 = p)" using True block_bounds(1) [OF assms(1)] by fastforce
    ultimately show ?thesis using k by (auto simp: prev_is_free_def blk_noprev_def blk_prevtail_at sentinel_def)
  next
    case False
    then obtain q t g where q: "b q = Some (t, g)" "q + t + 16 = p" using layout_prev [OF assms(1,3)] by blast
    have "(\<exists>q t. b q = Some (t, True) \<and> q + t + 16 = p) = g"
      using q layout_apart [OF assms(1) q(1)] by fastforce
    then show ?thesis using prev [OF q] by simp
  qed
qed

section \<open>Changing tags\<close>

text \<open>The two tags of a block are apart from everything else: other tags, links of free blocks and contents.\<close>

lemma tags_apart:
  assumes "layout B E b" "b p = Some (s, f)" "b q = Some (t, g)"
  shows "p \<noteq> q \<Longrightarrow> p - 8 \<noteq> q - 8" "p - 8 \<noteq> q + t" "p \<noteq> q \<Longrightarrow> p + s \<noteq> q + t" "p + s \<noteq> q - 8"
    "p - 8 < q \<or> q + t \<le> p - 8" "p + s < q \<or> q + t \<le> p + s" "p - 8 \<noteq> B" "p - 8 \<noteq> E - 8" "p + s \<noteq> B" "p + s \<noteq> E - 8"
proof -
  note k = block_bounds [OF assms(1,2)] block_bounds [OF assms(1,3)]
  have d: "p = q \<and> s = t \<or> p + s + 16 \<le> q \<or> q + t + 16 \<le> p" using layout_apart [OF assms] assms(2,3) by (cases "p = q") auto
  show "p \<noteq> q \<Longrightarrow> p - 8 \<noteq> q - 8" "p - 8 \<noteq> q + t" "p \<noteq> q \<Longrightarrow> p + s \<noteq> q + t" "p + s \<noteq> q - 8"
    "p - 8 < q \<or> q + t \<le> p - 8" "p + s < q \<or> q + t \<le> p + s" "p - 8 \<noteq> B" "p - 8 \<noteq> E - 8" "p + s \<noteq> B" "p + s \<noteq> E - 8"
    using k d by linarith+
qed

lemma lists_tags:
  assumes "layout B E b" "lists_ok Y b h H L" "b p = Some (s, f)"
  shows "lists_ok Y b (h(p - 8 := v, p + s := w)) H L"
proof (intro lists_write assms(2))
  fix q t
  assume q: "b q = Some (t, True)"
  show "p - 8 < q \<or> q + 16 \<le> p - 8" "p + s < q \<or> q + 16 \<le> p + s"
    using tags_apart(5,6) [OF assms(1,3) q] block_bounds(2) [OF assms(1) q] by auto
qed

lemma kept_safe:
  assumes "kept B E X A h0 b h" "\<And>x. x \<in> A \<Longrightarrow> safe B E X b x \<Longrightarrow> safe B E' X' b' x"
  shows "kept B E' X' A h0 b' h"
  using assms by (auto simp: kept_def)

lemma kept_tags:
  assumes "layout B E b" "kept B E X A h0 b h" "b p = Some (s, f)"
  shows "kept B E X A h0 b (h(p - 8 := v, p + s := w))"
proof -
  have "x \<noteq> p - 8 \<and> x \<noteq> p + s" if x: "safe B E X b x" for x
  proof -
    consider "x < B \<or> E \<le> x" | q t where "b q = Some (t, False)" "q \<le> x" "x < q + t" using x by (auto simp: safe_def)
    then show ?thesis
    proof cases
      case 1
      then show ?thesis using block_bounds [OF assms(1,3)] by auto
    next
      case 2
      then show ?thesis using tags_apart(5,6) [OF assms(1,3) 2(1)] by auto
    qed
  qed
  then show ?thesis using assms(2) by (auto simp: kept_def)
qed

lemma rep_retag:
  assumes r: "mem_rep B E X Y A h0 h H b L" and p: "b p = Some (s, f)"
    and v: "tag_ok v s g" and w: "tag_ok w s g'" and g: "p \<in> X' \<or> g = f \<and> g' = f" and X': "X' = X \<or> X' = X - {p} \<and> \<not> f"
  shows "mem_rep B E X' Y A h0 (h(p - 8 := Some v, p + s := Some w)) H b L"
proof -
  let ?h = "h(p - 8 := Some v, p + s := Some w)"
  note l = rep_layout [OF r] and t = rep_tags [OF r]
  have "tagged ?h (q - 8) t (q \<in> X') e \<and> tagged ?h (q + t) t (q \<in> X') e" if q: "b q = Some (t, e)" for q t e
  proof (cases "q = p")
    case True
    then show ?thesis using q p v w g tags_apart(2) [OF l p p] by (auto simp: tagged_write tagged_here)
  next
    case False
    then have "(q \<in> X') = (q \<in> X)" using X' by auto
    then show ?thesis using False tags_apart(1-4) [OF l p q] tags_block [OF t q] by (simp add: tagged_write)
  qed
  then have "tags B E X' b ?h"
    using tags_mapped [OF t] tags_ends [OF t] tags_apart(7-) [OF l p p] by (auto simp: tags_def sentinel_write)
  moreover have "kept B E X' A h0 b ?h"
    by (rule kept_safe [OF kept_tags [OF l rep_kept [OF r] p]]) (use X' in \<open>auto simp: safe_def\<close>)
  ultimately show ?thesis using l lists_tags [OF l rep_lists [OF r] p] rep_loose [OF r] X' by (auto simp: mem_rep_def)
qed

section \<open>Splitting and merging\<close>

lemma layout_merge:
  assumes l: "layout B E b" and p: "b p = Some (s, f)" and q: "b (p + s + 16) = Some (t, g)"
  shows "layout B E (b(p + s + 16 := None, p := Some (s + t + 16, e)))"
proof -
  let ?b = "b(p + s + 16 := None, p := Some (s + t + 16, e))"
  have old: "?b x = Some (n, m) \<longleftrightarrow> x = p \<and> n = s + t + 16 \<and> m = e \<or> x \<noteq> p \<and> x \<noteq> p + s + 16 \<and> b x = Some (n, m)" for x n m by auto
  note k = layout_block [OF l p] layout_block [OF l q]
  show ?thesis
  proof (rule layoutI)
    show "B + 16 \<le> x \<and> 16 dvd x \<and> 16 dvd n \<and> 16 \<le> n \<and> x + n + 16 \<le> E" if "?b x = Some (n, m)" for x n m
      using that k layout_block [OF l, of x n m] unfolding old by auto
    show "x + n + 16 \<le> y" if "?b x = Some (n, m)" "?b y = Some (n', m')" "x < y" for x n m y n' m'
      using that layout_order [OF l, of x n m y n' m'] layout_apart [OF l p, of y n' m'] layout_apart [OF l q, of y n' m']
        layout_apart [OF l p, of x n m] unfolding old by auto
    show "\<exists>x n m. ?b x = Some (n, m) \<and> x \<le> a + 8 \<and> a < x + n + 8" if a: "B + 8 \<le> a" "a + 8 < E" for a
    proof -
      obtain x n m where x: "b x = Some (n, m)" "x \<le> a + 8" "a < x + n + 8" using layout_cover [OF l a] by blast
      show ?thesis
      proof (cases "x = p \<or> x = p + s + 16")
        case True
        then have "?b p = Some (s + t + 16, e)" "p \<le> a + 8" "a < p + (s + t + 16) + 8" using x p q by auto
        then show ?thesis by blast
      next
        case False
        then have "?b x = Some (n, m)" using x(1) by simp
        then show ?thesis using x(2,3) by blast
      qed
    qed
  qed (use layout_area [OF l] in auto)
qed

lemma layout_split:
  assumes l: "layout B E b" and p: "b p = Some (s + t + 16, f)" and s: "16 dvd s" "16 dvd t" "16 \<le> s" "16 \<le> t"
  shows "layout B E (b(p := Some (s, d), p + s + 16 := Some (t, e)))"
proof -
  let ?b = "b(p := Some (s, d), p + s + 16 := Some (t, e))"
  have old: "?b x = Some (n, m) \<longleftrightarrow> x = p \<and> n = s \<and> m = d \<or> x = p + s + 16 \<and> n = t \<and> m = e \<or> x \<noteq> p \<and> x \<noteq> p + s + 16 \<and> b x = Some (n, m)"
    for x n m by auto
  note k = layout_block [OF l p]
  show ?thesis
  proof (rule layoutI)
    show "B + 16 \<le> x \<and> 16 dvd x \<and> 16 dvd n \<and> 16 \<le> n \<and> x + n + 16 \<le> E" if "?b x = Some (n, m)" for x n m
      using that k s layout_block [OF l, of x n m] unfolding old by auto
    show "x + n + 16 \<le> y" if "?b x = Some (n, m)" "?b y = Some (n', m')" "x < y" for x n m y n' m'
      using that layout_order [OF l, of x n m y n' m'] layout_apart [OF l p, of y n' m'] layout_apart [OF l p, of x n m] s
      unfolding old by auto
    show "\<exists>x n m. ?b x = Some (n, m) \<and> x \<le> a + 8 \<and> a < x + n + 8" if a: "B + 8 \<le> a" "a + 8 < E" for a
    proof -
      obtain x n m where x: "b x = Some (n, m)" "x \<le> a + 8" "a < x + n + 8" using layout_cover [OF l a] by blast
      consider "x \<noteq> p" "x \<noteq> p + s + 16" | "x = p" "a < p + s + 8" | "x = p" "p + s + 8 \<le> a"
        using layout_apart [OF l p x(1)] s by fastforce
      then show ?thesis
      proof cases
        case 1
        then have "?b x = Some (n, m)" using x(1) by simp
        then show ?thesis using x(2,3) by blast
      next
        case 2
        then have "?b p = Some (s, d)" "p \<le> a + 8" using x by auto
        then show ?thesis using 2 by blast
      next
        case 3
        then have "?b (p + s + 16) = Some (t, e)" "p + s + 16 \<le> a + 8" "a < p + s + 16 + t + 8" using x p by auto
        then show ?thesis by blast
      qed
    qed
  qed (use layout_area [OF l] in auto)
qed

text \<open>
  Merging writes the tags of the sum of the sizes; splitting those of the two parts.  The second block of a merge is loose and
  so is that of a split.
\<close>

lemma rep_merge:
  assumes r: "mem_rep B E X Y A h0 h H b L" and p: "b p = Some (s, False)" and q: "b (p + s + 16) = Some (t, False)" "p + s + 16 \<in> X"
  shows "mem_rep B E (X - {p + s + 16}) Y A h0 (h(p - 8 := Some (of_nat (s + t + 16)), p + (s + t + 16) := Some (of_nat (s + t + 16)))) H
    (b(p + s + 16 := None, p := Some (s + t + 16, False))) L"
proof -
  let ?q = "p + s + 16" and ?n = "s + t + 16"
  let ?b = "b(?q := None, p := Some (?n, False))" and ?h = "h(p - 8 := Some (of_nat ?n), p + ?n := Some (of_nat ?n))"
  note l = rep_layout [OF r] and t = rep_tags [OF r]
  have l': "layout B E ?b" by (rule layout_merge [OF l p q(1)])
  have pb: "?b p = Some (?n, False)" by simp
  have n: "tag_ok (of_nat ?n) ?n False" using block_bounds(10) [OF l' pb] by (rule tag_plain)
  have old: "?b x = Some (m, e) \<longleftrightarrow> x = p \<and> m = ?n \<and> \<not> e \<or> x \<noteq> p \<and> x \<noteq> ?q \<and> b x = Some (m, e)" for x m e by auto
  have "tagged ?h (x - 8) m (x \<in> X - {?q}) e \<and> tagged ?h (x + m) m (x \<in> X - {?q}) e" if x: "?b x = Some (m, e)" for x m e
  proof (cases "x = p")
    case True
    then show ?thesis using x n tags_apart(2) [OF l' pb pb] by (auto simp: tagged_write tagged_here)
  next
    case False
    then show ?thesis using x tags_apart(1-4) [OF l' pb x] tags_block [OF t] unfolding old by (simp add: tagged_write)
  qed
  moreover have "sentinel ?h B" "sentinel ?h (E - 8)" using tags_ends [OF t] tags_apart(7-) [OF l' pb pb] by (simp_all add: sentinel_write)
  ultimately have "tags B E (X - {?q}) ?b ?h" using tags_mapped [OF t] by (auto simp: tags_def)
  moreover have "lists_ok Y ?b h H L" by (rule lists_blocks [OF rep_lists [OF r]]) (use p q(1) in auto)
  then have "lists_ok Y ?b ?h H L" by (rule lists_tags [OF l' _ pb])
  moreover have "kept B E (X - {?q}) A h0 ?b h"
  proof (rule kept_safe [OF rep_kept [OF r]])
    fix a
    assume "safe B E X b a"
    then consider "a < B \<or> E \<le> a" | x m where "b x = Some (m, False)" "x \<notin> X" "x \<le> a" "a < x + m" by (auto simp: safe_def)
    then show "safe B E (X - {?q}) ?b a"
    proof cases
      case 2
      then have "?b x = Some (if x = p then ?n else m, False)" "a < x + (if x = p then ?n else m)" using p q by auto
      then show ?thesis unfolding safe_def using 2 by blast
    qed (auto simp: safe_def)
  qed
  then have "kept B E (X - {?q}) A h0 ?b ?h" by (rule kept_tags [OF l' _ pb])
  ultimately show ?thesis using l' rep_loose [OF r] p by (fastforce simp: mem_rep_def)
qed

lemma rep_split:
  assumes r: "mem_rep B E X Y A h0 h H b L" and p: "b p = Some (s + t + 16, False)" and s: "16 dvd s" "16 dvd t" "16 \<le> s" "16 \<le> t"
    and A: "p \<in> X \<or> A \<inter> {p + s..<p + s + t + 16} = {}"
    and v: "tag_ok v s False" "tag_ok w t False"
  shows "mem_rep B E (insert (p + s + 16) X) Y A h0
    (h(p - 8 := Some v, p + s := Some v, p + s + 16 - 8 := Some w, p + s + 16 + t := Some w)) H
    (b(p := Some (s, False), p + s + 16 := Some (t, False))) L"
proof -
  let ?q = "p + s + 16"
  let ?b = "b(p := Some (s, False), ?q := Some (t, False))"
  let ?h = "h(p - 8 := Some v, p + s := Some v)" and ?h' = "h(p - 8 := Some v, p + s := Some v, ?q - 8 := Some w, ?q + t := Some w)"
  note l = rep_layout [OF r] and t = rep_tags [OF r]
  have l': "layout B E ?b" by (rule layout_split [OF l p s])
  have pb: "?b p = Some (s, False)" and qb: "?b ?q = Some (t, False)" by simp_all
  have qn: "b ?q = None" by (rule layout_gap [OF l p]) (use s in auto)
  have old: "?b x = Some (m, e) \<Longrightarrow> x = p \<and> m = s \<and> \<not> e \<or> x = ?q \<and> m = t \<and> \<not> e \<or> x \<noteq> p \<and> x \<noteq> ?q \<and> b x = Some (m, e)" for x m e
    by (auto split: if_splits)
  have "tagged ?h' (x - 8) m (x \<in> insert ?q X) e \<and> tagged ?h' (x + m) m (x \<in> insert ?q X) e" if x: "?b x = Some (m, e)" for x m e
  proof -
    consider "x = p" "m = s" "\<not> e" | "x = ?q" "m = t" "\<not> e" | "x \<noteq> p" "x \<noteq> ?q" "b x = Some (m, e)" using old [OF x] by blast
    then show ?thesis
    proof cases
      case 1
      then show ?thesis using v tags_apart(1-4) [OF l' qb pb] tags_apart(2) [OF l' pb pb] by (auto simp: tagged_write tagged_here)
    next
      case 2
      then show ?thesis using v tags_apart(2) [OF l' qb qb] by (auto simp: tagged_write tagged_here)
    next
      case 3
      then show ?thesis using tags_apart(1-4) [OF l' qb x] tags_apart(1-4) [OF l' pb x] tags_block [OF t 3(3)] by (simp add: tagged_write)
    qed
  qed
  moreover have "sentinel ?h' B" "sentinel ?h' (E - 8)"
    using tags_ends [OF t] tags_apart(7-) [OF l' pb pb] tags_apart(7-) [OF l' qb qb] by (simp_all add: sentinel_write)
  ultimately have "tags B E (insert ?q X) ?b ?h'" using tags_mapped [OF t] by (auto simp: tags_def)
  moreover have "lists_ok Y ?b h H L" by (rule lists_blocks [OF rep_lists [OF r]]) (use p qn in auto)
  then have "lists_ok Y ?b ?h' H L" by (rule lists_tags [OF l' lists_tags [OF l' _ pb] qb])
  moreover have "kept B E (insert ?q X) A h0 ?b h"
  proof (rule kept_safe [OF rep_kept [OF r]])
    fix a
    assume a: "a \<in> A" "safe B E X b a"
    then consider "a < B \<or> E \<le> a" | x m where "b x = Some (m, False)" "x \<notin> X" "x \<le> a" "a < x + m" by (auto simp: safe_def)
    then show "safe B E (insert ?q X) ?b a"
    proof cases
      case 2
      have "x \<noteq> ?q" using qn 2(1) by auto
      moreover have "x = p \<Longrightarrow> a < p + s" using A a(1) 2 p by fastforce
      ultimately have "?b x = Some (if x = p then s else m, False)" "a < x + (if x = p then s else m)" "x \<notin> insert ?q X" using 2 by auto
      then show ?thesis unfolding safe_def using 2(3) by blast
    qed (auto simp: safe_def)
  qed
  then have "kept B E (insert ?q X) A h0 ?b ?h'" by (rule kept_tags [OF l' kept_tags [OF l' _ pb] qb])
  ultimately show ?thesis using l' rep_loose [OF r] p by (fastforce simp: mem_rep_def)
qed

end
