(* ===== verification/Heap_Links.thy ===== *)
theory Heap_Links
  imports Heap_Inv
begin

text \<open>Taking blocks out of the lists of free blocks and putting them in.\<close>

lemma layout_reflag:
  assumes "layout B E b" "b p = Some (s, f)"
  shows "layout B E (b(p := Some (s, g)))"
proof -
  have old: "(b(p := Some (s, g))) q = Some (t, e) \<Longrightarrow> \<exists>e. b q = Some (t, e)" for q t e using assms(2) by (auto split: if_splits)
  have new: "b q = Some (t, e) \<Longrightarrow> \<exists>e. (b(p := Some (s, g))) q = Some (t, e)" for q t e using assms(2) by auto
  note l = assms(1)
  show ?thesis
  proof (rule layoutI)
    show "B + 16 \<le> q \<and> 16 dvd q \<and> 16 dvd t \<and> 16 \<le> t \<and> q + t + 16 \<le> E" if "(b(p := Some (s, g))) q = Some (t, e)" for q t e
      using old [OF that] layout_block [OF l] by blast
    show "q + t + 16 \<le> q'" if "(b(p := Some (s, g))) q = Some (t, e)" "(b(p := Some (s, g))) q' = Some (t', e')" "q < q'" for q t e q' t' e'
      using old [OF that(1)] old [OF that(2)] that(3) layout_order [OF l] by blast
    show "\<exists>q t e. (b(p := Some (s, g))) q = Some (t, e) \<and> q \<le> a + 8 \<and> a < q + t + 8" if "B + 8 \<le> a" "a + 8 < E" for a
      using layout_cover [OF l that] new by blast
  qed (use layout_area [OF l] in auto)
qed

section \<open>What a change of links leaves alone\<close>

definition relinked :: "nat set \<Rightarrow> hmem \<Rightarrow> hmem \<Rightarrow> bool" where
  "relinked Q h h' \<longleftrightarrow> (\<forall>a. a \<notin> Q \<and> a \<notin> (\<lambda>x. x + 8) ` Q \<longrightarrow> h' a = h a) \<and> (\<forall>a. (h' a = None) = (h a = None))"

lemma relinked_mono: "relinked Q h h' \<Longrightarrow> Q \<subseteq> R \<Longrightarrow> relinked R h h'"
  unfolding relinked_def by blast

lemma relinked_apart:
  assumes "layout B E b" "relinked Q h h'" "\<And>q. q \<in> Q \<Longrightarrow> b q \<noteq> None" "b p = Some (s, f)"
  shows "h' (p - 8) = h (p - 8)" "h' (p + s) = h (p + s)"
    and "p \<notin> Q \<Longrightarrow> p \<le> a \<Longrightarrow> a < p + s \<Longrightarrow> h' a = h a" and "h' B = h B" "h' (E - 8) = h (E - 8)"
proof -
  have out: "a \<notin> Q \<and> a \<notin> (\<lambda>x. x + 8) ` Q" if "\<And>q t g. q \<in> Q \<Longrightarrow> b q = Some (t, g) \<Longrightarrow> a < q \<or> q + t \<le> a" for a
  proof -
    have "a < q \<or> q + 16 \<le> a" if q: "q \<in> Q" for q
    proof -
      obtain t g where t: "b q = Some (t, g)" using assms(3) [OF q] by auto
      then show ?thesis using block_bounds(2) [OF assms(1) t] \<open>\<And>q t g. q \<in> Q \<Longrightarrow> b q = Some (t, g) \<Longrightarrow> a < q \<or> q + t \<le> a\<close> [OF q t] by auto
    qed
    then show ?thesis by fastforce
  qed
  have eq: "h' a = h a" if "a \<notin> Q \<and> a \<notin> (\<lambda>x. x + 8) ` Q" for a using assms(2) that by (simp add: relinked_def)
  show "h' (p - 8) = h (p - 8)" "h' (p + s) = h (p + s)" using tags_apart(5,6) [OF assms(1,4)] by (blast intro: eq [OF out])+
  show "p \<notin> Q \<Longrightarrow> p \<le> a \<Longrightarrow> a < p + s \<Longrightarrow> h' a = h a" using layout_apart [OF assms(1,4)] by (intro eq out) fastforce
  show "h' B = h B" "h' (E - 8) = h (E - 8)" using layout_block [OF assms(1)] by (intro eq out; fastforce)+
qed

lemma relinked_tags:
  assumes "layout B E b" "relinked Q h h'" "\<And>q. q \<in> Q \<Longrightarrow> b q \<noteq> None" "tags B E X b h"
  shows "tags B E X b h'"
proof -
  have "\<forall>a. (h' a = None) = (h a = None)" using assms(2) by (simp add: relinked_def)
  moreover obtain p s f where p: "b p = Some (s, f)" using layout_last [OF assms(1)] by blast
  ultimately show ?thesis
    using assms(4) relinked_apart(1,2) [OF assms(1-3)] relinked_apart(4,5) [OF assms(1-3) p]
    by (simp add: tags_def tagged_def sentinel_def)
qed

lemma relinked_kept:
  assumes "layout B E b" "relinked Q h h'" "\<And>q. q \<in> Q \<Longrightarrow> q \<in> X \<and> b q \<noteq> None \<or> (\<exists>s. b q = Some (s, True))" "kept B E X A h0 b h"
  shows "kept B E X A h0 b h'"
proof -
  have nn: "q \<in> Q \<Longrightarrow> b q \<noteq> None" for q using assms(3) [of q] by auto
  have "h' a = h a" if a: "safe B E X b a" for a
  proof -
    consider "a < B \<or> E \<le> a" | p s where "b p = Some (s, False)" "p \<notin> X" "p \<le> a" "a < p + s" using a by (auto simp: safe_def)
    then show ?thesis
    proof cases
      case 1
      have "x \<noteq> a \<and> x + 8 \<noteq> a" if x: "x \<in> Q" for x
      proof -
        obtain t g where "b x = Some (t, g)" using nn [OF x] by auto
        then show ?thesis using 1 block_bounds(1-3) [OF assms(1)] by fastforce
      qed
      then show ?thesis using assms(2) unfolding relinked_def by blast
    next
      case 2
      then have "p \<notin> Q" using assms(3) [of p] by auto
      then show ?thesis using relinked_apart(3) [OF assms(1,2) nn 2(1)] 2(3,4) by blast
    qed
  qed
  then show ?thesis using assms(4) by (simp add: kept_def)
qed

lemma dll_cong:
  assumes "\<And>a. a \<in> cells xs \<Longrightarrow> h' a = h a"
  shows "dll h' xs = dll h xs"
proof -
  have "fwd h' xs e = fwd h xs e" for e using assms by (induction xs) auto
  moreover have "bwd h' z xs = bwd h z xs" if "\<And>a. a \<in> cells xs \<Longrightarrow> h' a = h a" for z xs using that by (induction xs arbitrary: z) auto
  ultimately show ?thesis using assms by (cases xs) (auto simp: dll_def)
qed

lemma relinked_dll:
  assumes "layout B E b" "relinked Q h h'" "\<And>q. q \<in> Q \<Longrightarrow> b q \<noteq> None" "\<And>x. x \<in> set xs \<Longrightarrow> b x \<noteq> None" "set xs \<inter> Q = {}"
  shows "dll h' xs = dll h xs"
proof (rule dll_cong)
  fix a
  assume "a \<in> cells xs"
  then obtain x where x: "x \<in> set xs" "a = x \<or> a = x + 8" by (auto simp: cells_def)
  then obtain s f where s: "b x = Some (s, f)" using assms(4) by fastforce
  have "x \<le> a" "a < x + s" using x block_bounds(2) [OF assms(1) s] by auto
  moreover have "x \<notin> Q" using x assms(5) by auto
  ultimately show "h' a = h a" using relinked_apart(3) [OF assms(1-3) s] by auto
qed

lemma kept_reflag:
  assumes "kept B E X A h0 b h" "b p = Some (s, True)"
  shows "kept B E (insert p X) A h0 (b(p := Some (s, False))) h"
proof (rule kept_safe [OF assms(1)])
  fix a
  assume "safe B E X b a"
  then consider "a < B \<or> E \<le> a" | q t where "b q = Some (t, False)" "q \<notin> X" "q \<le> a" "a < q + t" by (auto simp: safe_def)
  then show "safe B E (insert p X) (b(p := Some (s, False))) a"
  proof cases
    case 2
    then have "(b(p := Some (s, False))) q = Some (t, False)" "q \<notin> insert p X" using assms(2) by auto
    then show ?thesis unfolding safe_def using 2(3,4) by blast
  qed (auto simp: safe_def)
qed

section \<open>Taking a block out\<close>

lemma list_detach_at:
  assumes "dll h xs" "distinct xs" "\<forall>x \<in> set xs. linkable h x" "p \<in> set xs"
  obtains h' where "freelist_detach (link xs) (of_nat p) h = Some (link (remove1 p xs), h')" "dll h' (remove1 p xs)" "relinked (set xs) h h'"
proof -
  obtain us vs where xs: "xs = us @ p # vs" "p \<notin> set us" using split_list_first [OF assms(4)] by blast
  have p: "linkable h p" "p < 2 ^ 64" using assms(3,4) by (auto simp: linkable_def)
  have rm: "remove1 p xs = us @ vs" using xs by (simp add: remove1_append)
  show ?thesis
  proof (cases us rule: rev_cases)
    case Nil
    then have "freelist_detach (link xs) (of_nat p) h = Some (link vs, h)" "dll h vs"
      using assms(1) p xs by (auto simp: freelist_detach_def) (cases vs; auto)
    then show ?thesis using that [of h] rm Nil by (auto simp: relinked_def)
  next
    case (snoc ys u)
    have e: "ys @ u # p # vs = xs" using snoc xs by simp
    obtain h' where h': "unlink_neighbours (of_nat p) h = Some h'" "dll h' (ys @ u # vs)"
      "\<And>a. a \<notin> cells (ys @ u # vs) \<Longrightarrow> h' a = h a" "\<And>a. (h' a = None) = (h a = None)"
      using unlink_at [of h ys u p vs] assms(1-3) unfolding e by metis
    have "us \<noteq> []" using snoc by simp
    then have "hd us \<in> set us" by simp
    have "hd us < 2 ^ 64" using bspec [OF assms(3), of "hd us"] xs(1) \<open>hd us \<in> set us\<close> by (simp add: linkable_def)
    moreover have "link us = of_nat (hd us)" using \<open>us \<noteq> []\<close> by (cases us) simp_all
    moreover have "hd us \<noteq> p" using xs(2) \<open>hd us \<in> set us\<close> by blast
    ultimately have "link xs \<noteq> of_nat p" using xs(1) \<open>us \<noteq> []\<close> p(2) of_nat_inject_u64 [of "hd us" p] by simp
    then have "freelist_detach (link xs) (of_nat p) h = Some (link (us @ vs), h')" using h'(1) xs snoc by (simp add: freelist_detach_def)
    moreover have "relinked (set xs) h h'" unfolding relinked_def using h'(3,4) e by (auto simp: cells_def)
    ultimately show ?thesis using that rm h'(2) snoc by simp
  qed
qed

lemma lists_linkable:
  assumes "mem_rep B E X Y A h0 h H b L" "i \<le> 8"
  shows "\<forall>x \<in> set (L i). linkable h x" "\<And>x. x \<in> set (L i) \<Longrightarrow> \<exists>s. b x = Some (s, True) \<and> home Y x s = i"
    "H i = link (L i)" "dll h (L i)" "distinct (L i)"
proof -
  show m: "\<And>x. x \<in> set (L i) \<Longrightarrow> \<exists>s. b x = Some (s, True) \<and> home Y x s = i" and "H i = link (L i)" "dll h (L i)" "distinct (L i)"
    using rep_lists [OF assms(1)] assms(2) by (simp_all add: lists_ok_def)
  show "\<forall>x \<in> set (L i). linkable h x" using m tags_writable(3) [OF rep_layout [OF assms(1)] rep_tags [OF assms(1)]] by blast
qed

lemma rep_detach:
  assumes r: "mem_rep B E X Y A h0 h H b L" and i: "i \<le> 8" and p: "p \<in> set (L i)" "b p = Some (s, True)"
  obtains h' where "freelist_detach (H i) (of_nat p) h = Some (link (remove1 p (L i)), h')"
    "mem_rep B E (insert p X) Y A h0 h' (H(i := link (remove1 p (L i)))) (b(p := Some (s, False))) (L(i := remove1 p (L i)))"
proof -
  note k = lists_linkable [OF r i] and l = rep_layout [OF r]
  obtain h' where h': "freelist_detach (H i) (of_nat p) h = Some (link (remove1 p (L i)), h')" "dll h' (remove1 p (L i))" "relinked (set (L i)) h h'"
    using list_detach_at [OF k(4,5,1) p(1)] k(3) by metis
  have free: "q \<in> set (L i) \<Longrightarrow> \<exists>t. b q = Some (t, True)" for q using k(2) by blast
  have nn: "q \<in> set (L i) \<Longrightarrow> b q \<noteq> None" for q using free [of q] by auto
  let ?b = "b(p := Some (s, False))"
  have "layout B E ?b" by (rule layout_reflag [OF l p(2)])
  moreover have "tags B E X b h'" by (rule relinked_tags [OF l h'(3) nn rep_tags [OF r]])
  then have "tags B E (insert p X) ?b h'" using p(2) tagged_loose unfolding tags_def by (simp (no_asm_simp)) blast
  moreover have "kept B E X A h0 b h'" by (rule relinked_kept [OF l h'(3) _ rep_kept [OF r]]) (use free in blast)
  then have "kept B E (insert p X) A h0 ?b h'" using p(2) by (rule kept_reflag)
  moreover have "lists_ok Y ?b h' (H(i := link (remove1 p (L i)))) (L(i := remove1 p (L i)))" unfolding lists_ok_def
  proof (intro allI impI)
    fix j :: nat
    assume j: "j \<le> 8"
    note kj = lists_linkable [OF r j]
    have set: "q \<in> set (L j) \<longleftrightarrow> (\<exists>t. b q = Some (t, True) \<and> home Y q t = j)" for q using rep_lists [OF r] j by (simp add: lists_ok_def)
    show "(H(i := link (remove1 p (L i)))) j = link ((L(i := remove1 p (L i))) j) \<and> dll h' ((L(i := remove1 p (L i))) j) \<and>
      distinct ((L(i := remove1 p (L i))) j) \<and> (\<forall>q. (q \<in> set ((L(i := remove1 p (L i))) j)) = (\<exists>t. ?b q = Some (t, True) \<and> home Y q t = j))"
    proof (cases "j = i")
      case True
      then show ?thesis using h'(2) k(5) set by (auto split: if_splits)
    next
      case False
      have "set (L j) \<inter> set (L i) = {}" using kj(2) k(2) False by fastforce
      then have "dll h' (L j)" using relinked_dll [OF l h'(3) nn, of "L j"] kj(2,4) by force
      moreover have "p \<notin> set (L j)" using \<open>set (L j) \<inter> set (L i) = {}\<close> p(1) by blast
      ultimately show ?thesis using False kj(3,5) set by auto
    qed
  qed
  moreover have "\<forall>q \<in> insert p X. \<exists>t. ?b q = Some (t, False)" using rep_loose [OF r] by auto
  ultimately show ?thesis using that h'(1) unfolding mem_rep_def by blast
qed

section \<open>Putting a block in\<close>

lemma list_put_at:
  assumes "dll h xs" "distinct (p # xs)" "\<forall>x \<in> set (p # xs). linkable h x"
  obtains h' where "freelist_put (link xs) (of_nat p) h = Some (of_nat p, h')" "dll h' (p # xs)" "relinked (set (p # xs)) h h'"
proof -
  obtain h' where h': "freelist_put (link xs) (of_nat p) h = Some (of_nat p, h')" "dll h' (p # xs)"
    "\<And>a. a \<notin> cells (p # xs) \<Longrightarrow> h' a = h a" "\<And>a. (h' a = None) = (h a = None)"
    using freelist_put_at [OF assms] by metis
  then have "relinked (set (p # xs)) h h'" unfolding relinked_def cells_def by blast
  then show ?thesis using that h'(1,2) by blast
qed

lemma rep_put:
  assumes r: "mem_rep B E X Y A h0 h H b L" and i: "i \<le> 8" and p: "b p = Some (s, False)" "p \<in> X"
    and t: "tagged h (p - 8) s False True" "tagged h (p + s) s False True"
    and Y: "home Y' p s = i" "\<And>q t. b q = Some (t, True) \<Longrightarrow> home Y' q t = home Y q t"
  obtains h' where "freelist_put (H i) (of_nat p) h = Some (of_nat p, h')"
    "mem_rep B E (X - {p}) Y' A h0 h' (H(i := of_nat p)) (b(p := Some (s, True))) (L(i := p # L i))"
proof -
  note k = lists_linkable [OF r i] and l = rep_layout [OF r]
  have np: "p \<notin> set (L j)" if "j \<le> 8" for j using lists_linkable(2) [OF r that] p(1) by fastforce
  have "linkable h p" by (rule tags_writable(3) [OF l rep_tags [OF r] p(1)])
  then obtain h' where h': "freelist_put (H i) (of_nat p) h = Some (of_nat p, h')" "dll h' (p # L i)" "relinked (set (p # L i)) h h'"
    using list_put_at [OF k(4), of p] k(1,3,5) np [OF i] by (metis distinct.simps(2) set_ConsD)
  have nn: "q \<in> set (p # L i) \<Longrightarrow> b q \<noteq> None" for q using k(2) [of q] p(1) by auto
  let ?b = "b(p := Some (s, True))"
  have "layout B E ?b" by (rule layout_reflag [OF l p(1)])
  moreover have "tags B E X b h'" by (rule relinked_tags [OF l h'(3) nn rep_tags [OF r]])
  moreover have "tagged h' (p - 8) s False True" "tagged h' (p + s) s False True"
    using t relinked_apart(1,2) [OF l h'(3) nn p(1)] by (simp_all add: tagged_def)
  ultimately have "tags B E (X - {p}) ?b h'" unfolding tags_def by simp
  moreover have "q \<in> X \<and> b q \<noteq> None \<or> (\<exists>s. b q = Some (s, True))" if "q \<in> set (p # L i)" for q
    using that k(2) [of q] p by (cases "q = p") auto
  then have "kept B E X A h0 b h'" by (rule relinked_kept [OF l h'(3) _ rep_kept [OF r]])
  then have "kept B E (X - {p}) A h0 ?b h'"
  proof (rule kept_safe)
    show "safe B E (X - {p}) ?b a" if "safe B E X b a" for a using that p(2) unfolding safe_def by (metis DiffD1 fun_upd_other)
  qed
  moreover have "lists_ok Y' ?b h' (H(i := of_nat p)) (L(i := p # L i))" unfolding lists_ok_def
  proof (intro allI impI)
    fix j :: nat
    assume j: "j \<le> 8"
    note kj = lists_linkable [OF r j]
    have "q \<in> set (L j) \<longleftrightarrow> (\<exists>t. b q = Some (t, True) \<and> home Y q t = j)" for q using rep_lists [OF r] j by (simp add: lists_ok_def)
    then have set: "q \<in> set (L j) \<longleftrightarrow> (\<exists>t. b q = Some (t, True) \<and> home Y' q t = j)" for q using Y(2) by metis
    show "(H(i := of_nat p)) j = link ((L(i := p # L i)) j) \<and> dll h' ((L(i := p # L i)) j) \<and>
      distinct ((L(i := p # L i)) j) \<and> (\<forall>q. (q \<in> set ((L(i := p # L i)) j)) = (\<exists>t. ?b q = Some (t, True) \<and> home Y' q t = j))"
    proof (cases "j = i")
      case True
      then show ?thesis using h'(2) k(5) set np [OF i] Y(1) by auto
    next
      case False
      have "set (L j) \<inter> set (p # L i) = {}" using kj(2) k(2) False np [OF j] by fastforce
      then have "dll h' (L j)" using relinked_dll [OF l h'(3) nn, of "L j"] kj(2,4) by force
      then show ?thesis using False kj(3,5) set p(1) Y(1) by auto
    qed
  qed
  moreover have "\<forall>q \<in> X - {p}. \<exists>t. ?b q = Some (t, False)" using rep_loose [OF r] by auto
  ultimately show ?thesis using that h'(1) layout_reflag [OF l p(1)] unfolding mem_rep_def by blast
qed

end
