(* ===== verification/Heap_Ops.thy ===== *)
theory Heap_Ops
  imports Heap_Links
begin

text \<open>
  The operations of the pool on what its state stands for.  A client sees the live blocks: those allocated and not loose.
\<close>

definition rep :: "nat \<Rightarrow> nat \<Rightarrow> nat set \<Rightarrow> nat set \<Rightarrow> nat set \<Rightarrow> hmem \<Rightarrow> heap \<Rightarrow> blocks \<Rightarrow> (nat \<Rightarrow> nat list) \<Rightarrow> bool" where
  "rep B E X Y A h0 st b L \<longleftrightarrow> mem_rep B E X Y A h0 (hmem st) (heads st) b L \<and> length (freed st) = 8 \<and>
     pool_ptr st = of_nat B \<and> pool_size st = of_nat (E - B)"

definition live :: "nat set \<Rightarrow> blocks \<Rightarrow> nat \<Rightarrow> nat option" where
  "live X b p = (case b p of Some (s, False) \<Rightarrow> if p \<in> X then None else Some s | _ \<Rightarrow> None)"

definition pool_kept :: "heap \<Rightarrow> heap \<Rightarrow> bool" where
  "pool_kept st st' \<longleftrightarrow> pool_ptr st' = pool_ptr st \<and> pool_size st' = pool_size st \<and> alloced_size st' = alloced_size st \<and>
     cb_reqmem st' = cb_reqmem st \<and> cb_delmem st' = cb_delmem st"

lemma pool_kept_refl [simp]: "pool_kept st st"
  by (simp add: pool_kept_def)

lemma pool_kept_updates [simp]:
  "pool_kept st (st'\<lparr>hmem := h\<rparr>) = pool_kept st st'" "pool_kept st (st'\<lparr>freed := fl\<rparr>) = pool_kept st st'"
  "pool_kept st (st'\<lparr>large_blk := l\<rparr>) = pool_kept st st'"
  by (simp_all add: pool_kept_def)

lemma pool_kept_trans: "pool_kept st st' \<Longrightarrow> pool_kept st' st'' \<Longrightarrow> pool_kept st st''"
  by (simp add: pool_kept_def)

lemma heads_updates [simp]:
  "heads (st\<lparr>hmem := h\<rparr>) = heads st" "heads (st\<lparr>alloced_size := n\<rparr>) = heads st" "heads (st\<lparr>pool_size := n\<rparr>) = heads st"
  "heads (st\<lparr>large_blk := l\<rparr>) = (heads st)(8 := l)"
  "length (freed st) = 8 \<Longrightarrow> i < 8 \<Longrightarrow> heads (st\<lparr>freed := (freed st)[i := l]\<rparr>) = (heads st)(i := l)"
  "i < 8 \<Longrightarrow> heads st i = freed st ! i" "heads st 8 = large_blk st"
  by (auto simp: heads_def fun_eq_iff nth_list_update)

lemma repD:
  assumes "rep B E X Y A h0 st b L"
  shows rep_mem: "mem_rep B E X Y A h0 (hmem st) (heads st) b L" and rep_freed: "length (freed st) = 8"
    and rep_pool: "pool_ptr st = of_nat B" "pool_size st = of_nat (E - B)"
    and repl: "layout B E b" and rept: "tags B E X b (hmem st)"
  using assms by (auto simp: rep_def dest: mem_repD)

lemma rep_pool_kept:
  assumes "rep B E X Y A h0 st b L" "pool_kept st st'" "length (freed st') = 8" "mem_rep B E X' Y' A' h0' (hmem st') (heads st') b' L'"
  shows "rep B E X' Y' A' h0' st' b' L'"
  using assms by (simp add: rep_def pool_kept_def)

lemmas rep_size = blk_size_at [OF repl rept]

text \<open>The tags a setter writes.\<close>

lemma on_mem_retag:
  assumes "rep B E X Y A h0 st b L" "b p = Some (s, f)"
  obtains v w e e' where "hmem st (p - 8) = Some v" "hmem st (p + s) = Some w" "tag_ok v s e" "tag_ok w s e'" "p \<notin> X \<Longrightarrow> e = f \<and> e' = f"
    "\<And>g. on_mem (retag g (of_nat p) (of_nat s)) st = Some (st\<lparr>hmem := (hmem st)(p - 8 := Some (g v), p + s := Some (g w))\<rparr>)"
proof -
  obtain v w e e' where t: "hmem st (p - 8) = Some v" "hmem st (p + s) = Some w" "tag_ok v s e" "tag_ok w s e'" "p \<notin> X \<Longrightarrow> e = f \<and> e' = f"
    using tags_block [OF rept [OF assms(1)] assms(2)] unfolding tagged_def by metis
  moreover have "8 \<le> p" "p + s < 2 ^ 64" using block_bounds [OF repl [OF assms(1)] assms(2)] by simp_all
  ultimately show ?thesis using that by (simp add: on_mem_def retag_at)
qed

lemma setalloced_rep:
  assumes r: "rep B E X Y A h0 st b L" and p: "b p = Some (s, False)"
  obtains st' where "on_mem (blk_setalloced (of_nat p) (of_nat s)) st = Some st'" "pool_kept st st'" "rep B E (X - {p}) Y A h0 st' b L"
proof -
  obtain v w e e' where t: "tag_ok v s e" "tag_ok w s e'"
    "\<And>g. on_mem (retag g (of_nat p) (of_nat s)) st = Some (st\<lparr>hmem := (hmem st)(p - 8 := Some (g v), p + s := Some (g w))\<rparr>)"
    using on_mem_retag [OF r p] by metis
  let ?st = "st\<lparr>hmem := (hmem st)(p - 8 := Some (v AND NOT FREE_FLAG), p + s := Some (w AND NOT FREE_FLAG))\<rparr>"
  have "rep B E (X - {p}) Y A h0 ?st b L"
    by (rule rep_pool_kept [OF r]) (use rep_retag [OF rep_mem [OF r] p tag_alloced [OF t(1)] tag_alloced [OF t(2)], of "X - {p}"] rep_freed [OF r] in auto)
  then show ?thesis using that [of ?st] t(3) by (simp add: blk_setalloced_def)
qed

lemma setfreed_rep:
  assumes r: "rep B E X Y A h0 st b L" and p: "b p = Some (s, False)" "p \<in> X"
  obtains st' where "on_mem (blk_setfreed (of_nat p) (of_nat s)) st = Some st'" "pool_kept st st'" "freed st' = freed st" "large_blk st' = large_blk st"
    "rep B E X Y A h0 st' b L" "tagged (hmem st') (p - 8) s False True" "tagged (hmem st') (p + s) s False True"
proof -
  obtain v w e e' where t: "tag_ok v s e" "tag_ok w s e'"
    "\<And>g. on_mem (retag g (of_nat p) (of_nat s)) st = Some (st\<lparr>hmem := (hmem st)(p - 8 := Some (g v), p + s := Some (g w))\<rparr>)"
    using on_mem_retag [OF r p(1)] by metis
  let ?st = "st\<lparr>hmem := (hmem st)(p - 8 := Some (v OR FREE_FLAG), p + s := Some (w OR FREE_FLAG))\<rparr>"
  have "rep B E X Y A h0 ?st b L"
    by (rule rep_pool_kept [OF r]) (use rep_retag [OF rep_mem [OF r] p(1) tag_freed [OF t(1)] tag_freed [OF t(2)], of X] rep_freed [OF r] p(2) in auto)
  moreover have "tagged (hmem ?st) (p - 8) s False True" "tagged (hmem ?st) (p + s) s False True"
    using tag_freed [OF t(1)] tag_freed [OF t(2)] tags_apart(2) [OF repl [OF r] p(1) p(1)] by (auto simp: tagged_def)
  ultimately show ?thesis using that [of ?st] t(3) by (simp add: blk_setfreed_def)
qed

lemma set_2M_rep:
  assumes r: "rep B E X Y A h0 st b L" and p: "b p = Some (s, False)" "p \<in> X"
  obtains st' where "on_mem (blk_set_area_2M (of_nat p) (of_nat s)) st = Some st'" "pool_kept st st'" "rep B E X Y A h0 st' b L"
proof -
  obtain v w e e' where t: "tag_ok v s e" "tag_ok w s e'"
    "\<And>g. on_mem (retag g (of_nat p) (of_nat s)) st = Some (st\<lparr>hmem := (hmem st)(p - 8 := Some (g v), p + s := Some (g w))\<rparr>)"
    using on_mem_retag [OF r p(1)] by metis
  let ?st = "st\<lparr>hmem := (hmem st)(p - 8 := Some (v OR SIZE_FLAG), p + s := Some (w OR SIZE_FLAG))\<rparr>"
  have "rep B E X Y A h0 ?st b L"
    by (rule rep_pool_kept [OF r]) (use rep_retag [OF rep_mem [OF r] p(1) tag_2M [OF t(1)] tag_2M [OF t(2)], of X] rep_freed [OF r] p(2) in auto)
  then show ?thesis using that [of ?st] t(3) by (simp add: blk_set_area_2M_def)
qed

section \<open>Lists\<close>

lemma freelists_detach_eq:
  assumes "i < length fl"
  shows "freelists_detach fl i p h = (case freelist_detach (fl ! i) p h of None \<Rightarrow> None | Some (l, h') \<Rightarrow> Some (fl[i := l], h'))"
  using assms by (auto simp: freelists_detach_def freelist_detach_def split: option.splits Option.bind_splits)

lemma free_in_list:
  assumes "rep B E X Y A h0 st b L" "b p = Some (s, True)"
  shows "p \<in> set (L (home Y p s))" "home Y p s \<le> 8"
proof -
  show "home Y p s \<le> 8" using block_bounds(6) [OF repl [OF assms(1)] assms(2)] size2id_list_id(2) by (simp add: home_def)
  then show "p \<in> set (L (home Y p s))" using rep_lists [OF rep_mem [OF assms(1)]] assms(2) by (auto simp: lists_ok_def)
qed

text \<open>A block is taken out of list \<open>i\<close>; for the first eight lists \<open>freelists_detach\<close> does it, for the last \<open>freelist_detach\<close>.\<close>

lemma unlist_rep:
  assumes r: "rep B E X Y A h0 st b L" and p: "b p = Some (s, True)" "p \<in> set (L i)" "i \<le> 8"
  obtains l h' where "freelist_detach (heads st i) (of_nat p) (hmem st) = Some (l, h')"
    "i < 8 \<Longrightarrow> freelists_detach (freed st) i (of_nat p) (hmem st) = Some ((freed st)[i := l], h')"
    "i < 8 \<Longrightarrow> rep B E (insert p X) Y A h0 (st\<lparr>freed := (freed st)[i := l], hmem := h'\<rparr>) (b(p := Some (s, False))) (L(i := remove1 p (L i)))"
    "i = 8 \<Longrightarrow> rep B E (insert p X) Y A h0 (st\<lparr>large_blk := l, hmem := h'\<rparr>) (b(p := Some (s, False))) (L(i := remove1 p (L i)))"
proof -
  obtain h' where h': "freelist_detach (heads st i) (of_nat p) (hmem st) = Some (link (remove1 p (L i)), h')"
    "mem_rep B E (insert p X) Y A h0 h' ((heads st)(i := link (remove1 p (L i)))) (b(p := Some (s, False))) (L(i := remove1 p (L i)))"
    using rep_detach [OF rep_mem [OF r] p(3,2,1)] by metis
  show ?thesis by (rule that [OF h'(1)]) (use h' r in \<open>auto simp: rep_def freelists_detach_eq\<close>)
qed

lemma detach_rep:
  assumes r: "rep B E X Y A h0 st b L" and p: "b p = Some (s, True)" "p \<notin> Y"
  obtains st' L' where "detach (of_nat p) st = Some st'" "pool_kept st st'" "rep B E (insert p X) Y A h0 st' (b(p := Some (s, False))) L'"
proof -
  have s: "s < 2 ^ 64" using block_bounds(6) [OF repl [OF r] p(1)] .
  have i: "p \<in> set (L (list_id s))" "list_id s \<le> 8" using free_in_list [OF r p(1)] p(2) by (simp_all add: home_def)
  obtain l h' where u: "freelist_detach (heads st (list_id s)) (of_nat p) (hmem st) = Some (l, h')"
    "list_id s < 8 \<Longrightarrow> freelists_detach (freed st) (list_id s) (of_nat p) (hmem st) = Some ((freed st)[list_id s := l], h')"
    "list_id s < 8 \<Longrightarrow> rep B E (insert p X) Y A h0 (st\<lparr>freed := (freed st)[list_id s := l], hmem := h'\<rparr>) (b(p := Some (s, False))) (L(list_id s := remove1 p (L (list_id s))))"
    "list_id s = 8 \<Longrightarrow> rep B E (insert p X) Y A h0 (st\<lparr>large_blk := l, hmem := h'\<rparr>) (b(p := Some (s, False))) (L(list_id s := remove1 p (L (list_id s))))"
    using unlist_rep [OF r p(1) i] by metis
  show ?thesis
  proof (cases "list_id s < 8")
    case True
    then show ?thesis using that u(2,3) size2id_list_id [OF s] rep_size [OF r r p(1)] by (auto simp: detach_def)
  next
    case False
    then have "list_id s = 8" using i(2) by simp
    then show ?thesis using that u(1,4) size2id_list_id [OF s] rep_size [OF r r p(1)] by (auto simp: detach_def)
  qed
qed

lemma put_large_rep:
  assumes r: "rep B E X Y A h0 st b L" and p: "b p = Some (s, False)" "p \<in> X"
    and t: "tagged (hmem st) (p - 8) s False True" "tagged (hmem st) (p + s) s False True"
    and Y: "home Y' p s = 8" "\<And>q t. b q = Some (t, True) \<Longrightarrow> home Y' q t = home Y q t"
  obtains st' where "put_large (of_nat p) st = Some st'" "pool_kept st st'" "rep B E (X - {p}) Y' A h0 st' (b(p := Some (s, True))) (L(8 := p # L 8))"
proof -
  obtain h' where h': "freelist_put (heads st 8) (of_nat p) (hmem st) = Some (of_nat p, h')"
    "mem_rep B E (X - {p}) Y' A h0 h' ((heads st)(8 := of_nat p)) (b(p := Some (s, True))) (L(8 := p # L 8))"
    using rep_put [OF rep_mem [OF r] _ p t Y] by (metis le_refl)
  show ?thesis using that [of "st\<lparr>large_blk := of_nat p, hmem := h'\<rparr>"] h' r by (simp add: put_large_def rep_def)
qed

lemma do_free_rep:
  assumes r: "rep B E X Y A h0 st b L" and p: "b p = Some (s, False)" "p \<in> X" "p \<notin> Y"
  obtains st' L' where "do_free (of_nat p) st = Some st'" "pool_kept st st'" "rep B E (X - {p}) Y A h0 st' (b(p := Some (s, True))) L'"
proof -
  obtain st1 where s1: "on_mem (blk_setfreed (of_nat p) (of_nat s)) st = Some st1" "pool_kept st st1"
    "rep B E X Y A h0 st1 b L" "tagged (hmem st1) (p - 8) s False True" "tagged (hmem st1) (p + s) s False True"
    using setfreed_rep [OF r p(1,2)] by metis
  have s: "s < 2 ^ 64" "(of_nat s :: u64) \<noteq> 0" using block_bounds [OF repl [OF r] p(1)] of_nat_inject_u64 [of s 0] by auto
  note sz = rep_size [OF r r p(1)] rep_size [OF s1(3,3) p(1)] and id = size2id_list_id [OF s(1)]
  show ?thesis
  proof (cases "s < 16384")
    case True
    then have i: "list_id s < 8" using id by fastforce
    obtain h' where h': "freelist_put (heads st1 (list_id s)) (of_nat p) (hmem st1) = Some (of_nat p, h')"
      "mem_rep B E (X - {p}) Y A h0 h' ((heads st1)(list_id s := of_nat p)) (b(p := Some (s, True))) (L(list_id s := p # L (list_id s)))"
      using rep_put [OF rep_mem [OF s1(3)] id(2) p(1,2) s1(4,5), of Y] p(3) by (auto simp: home_def)
    show ?thesis
      using that [of "st1\<lparr>freed := (freed st1)[list_id s := of_nat p], hmem := h'\<rparr>"] h' s1 sz id(1) i True s rep_freed [OF s1(3)]
      by (simp add: do_free_def freelists_put_def rep_def Let_def)
  next
    case False
    obtain st2 where "put_large (of_nat p) st1 = Some st2" "pool_kept st1 st2" "rep B E (X - {p}) Y A h0 st2 (b(p := Some (s, True))) (L(8 := p # L 8))"
      using put_large_rep [OF s1(3) p(1,2) s1(4,5), of Y] p(3) id False by (auto simp: home_def)
    then show ?thesis using that s1(1,2) sz id(1) False s pool_kept_trans by (simp add: do_free_def freelists_put_def)
  qed
qed

section \<open>Splitting and merging\<close>

lemma split_tags:
  assumes "rep B E X Y A h0 st b L" "b p = Some (n, f)" "s + t + 16 = n" "16 dvd s" "16 dvd t" "16 \<le> s" "16 \<le> t"
  obtains v w where "tag_ok v s False" "tag_ok w t False"
    "blk_split (of_nat p) (of_nat s) (hmem st) = Some (of_nat (p + s + 16),
       (hmem st)(p - 8 := Some v, p + s := Some v, p + s + 16 - 8 := Some w, p + s + 16 + t := Some w))"
proof -
  note l = repl [OF assms(1)] and tg = rept [OF assms(1)]
  note k = block_bounds [OF l assms(2)]
  let ?h = "hmem st" and ?q = "p + s + 16"
  obtain x where x: "?h (p - 8) = Some x" using tags_writable(1) [OF l tg assms(2)] by auto
  have "8 dvd p" "8 dvd s" "8 dvd t" using k(9) assms(4,5) by (auto elim!: dvdE)
  then have "8 dvd p + s" "8 dvd ?q - 8" "8 dvd ?q + t" by auto
  then have m: "?h (p - 8) \<noteq> None" "?h (p + s) \<noteq> None" "?h (?q - 8) \<noteq> None" "?h (?q + t) \<noteq> None"
    using tags_mapped [OF tg] x k assms(3,6,7) by auto
  have sub: "of_nat n - (of_nat s + 16) = (of_nat t :: u64)" using assms(3) by (auto simp: algebra_simps)
  have q: "of_nat p + (of_nat s + 16) = (of_nat ?q :: u64)" by simp
  have b: "8 \<le> p" "p + s < 2 ^ 64" "8 \<le> ?q" "?q + t < 2 ^ 64" using k assms(3) by auto
  let ?g = "\<lambda>w. if x AND SIZE_FLAG \<noteq> 0 then w OR SIZE_FLAG else w"
  let ?v = "?g (of_nat s)" and ?w = "?g (of_nat t)"
  have "tag_ok ?v s False" "tag_ok ?w t False" using tag_plain assms(4,5) by (auto intro: tag_2M)
  moreover have "blk_split (of_nat p) (of_nat s) ?h = Some (of_nat ?q, ?h(p - 8 := Some ?v, p + s := Some ?v, ?q - 8 := Some ?w, ?q + t := Some ?w))"
  proof -
    have s1: "blk_setsize (of_nat p) (of_nat s) ?h = Some (?h(p - 8 := Some (of_nat s), p + s := Some (of_nat s)))"
      by (rule blk_setsize_at [OF m(1,2) b(1,2)])
    let ?h1 = "?h(p - 8 := Some (of_nat s), p + s := Some (of_nat s))"
    have ne: "p - 8 \<noteq> p + s" "p - 8 \<noteq> ?q - 8" "p - 8 \<noteq> ?q + t" "p + s \<noteq> ?q - 8" "p + s \<noteq> ?q + t" "?q - 8 \<noteq> ?q + t" using b by auto
    have s2: "(if x AND SIZE_FLAG \<noteq> 0 then blk_set_area_2M (of_nat p) (of_nat s) ?h1 else Some ?h1) = Some (?h(p - 8 := Some ?v, p + s := Some ?v))"
      using retag_at [of ?h1 p "of_nat s" s "of_nat s"] b ne by (auto simp: blk_set_area_2M_def fun_upd_twist)
    let ?h2 = "?h(p - 8 := Some ?v, p + s := Some ?v)"
    have s3: "blk_setsize (of_nat ?q) (of_nat t) ?h2 = Some (?h2(?q - 8 := Some (of_nat t), ?q + t := Some (of_nat t)))"
      by (rule blk_setsize_at) (use m b ne in auto)
    let ?h3 = "?h2(?q - 8 := Some (of_nat t), ?q + t := Some (of_nat t))"
    have s4: "(if x AND SIZE_FLAG \<noteq> 0 then blk_set_area_2M (of_nat ?q) (of_nat t) ?h3 else Some ?h3) = Some (?h2(?q - 8 := Some ?w, ?q + t := Some ?w))"
      using retag_at [of ?h3 ?q "of_nat t" t "of_nat t"] b ne by (auto simp: blk_set_area_2M_def fun_upd_twist)
    have hd: "blk_head (of_nat p) ?h = Some x" "blk_size (of_nat p) ?h = Some (of_nat n)"
      using x k blk_size_at [OF l tg assms(2)] by (simp_all add: blk_head_at)
    show ?thesis unfolding blk_split_def blk_area_is_2M_def Let_def hd bind.bind_lunit s1 s2 q sub s3 s4 ..
  qed
  ultimately show ?thesis using that by blast
qed

lemma split_rep:
  assumes r: "rep B E X Y A h0 st b L" and p: "b p = Some (s + t + 16, False)" and s: "16 dvd s" "16 dvd t" "16 \<le> s" "16 \<le> t"
    and A: "p \<in> X \<or> A \<inter> {p + s..<p + s + t + 16} = {}"
  obtains h' where "blk_split (of_nat p) (of_nat s) (hmem st) = Some (of_nat (p + s + 16), h')"
    "rep B E (insert (p + s + 16) X) Y A h0 (st\<lparr>hmem := h'\<rparr>) (b(p := Some (s, False), p + s + 16 := Some (t, False))) L"
proof -
  obtain v w where vw: "tag_ok v s False" "tag_ok w t False"
    "blk_split (of_nat p) (of_nat s) (hmem st) = Some (of_nat (p + s + 16),
       (hmem st)(p - 8 := Some v, p + s := Some v, p + s + 16 - 8 := Some w, p + s + 16 + t := Some w))"
    using split_tags [OF r p refl s] by metis
  show ?thesis by (rule that [OF vw(3)]) (use rep_split [OF rep_mem [OF r] p s A vw(1,2)] r in \<open>simp add: rep_def\<close>)
qed

text \<open>What splitting off the rest of a block does to the blocks.\<close>

definition split_blocks :: "nat \<Rightarrow> nat \<Rightarrow> nat \<Rightarrow> blocks \<Rightarrow> blocks" where
  "split_blocks p s n b = (if s + 64 \<le> n then b(p := Some (s, False), p + s + 16 := Some (n - s - 16, True)) else b)"

lemma try_split_rep:
  assumes r: "rep B E X Y A h0 st b L" and p: "b p = Some (n, False)" and s: "16 dvd s" "16 \<le> s" "s \<le> n"
    and A: "p \<in> X \<or> A \<inter> {p + s..<p + n} = {}" and Y: "Y \<subseteq> {p}"
  obtains f st' L' where "try_split_and_free (of_nat p) (of_nat s) st = Some (f, st')" "pool_kept st st'" "rep B E X Y A h0 st' (split_blocks p s n b) L'"
proof -
  note k = block_bounds [OF repl [OF r] p]
  have "s + 64 < 2 ^ 64" using k(1,3) layout_area(1,4) [OF repl [OF r]] s(3) by simp
  then have le: "(of_nat s + 64 \<le> (of_nat n :: u64)) = (s + 64 \<le> n)" using of_nat_le_u64 [of "s + 64" n] k(6) by simp
  show ?thesis
  proof (cases "s + 64 \<le> n")
    case True
    let ?t = "n - s - 16" and ?q = "p + s + 16"
    have n: "s + ?t + 16 = n" "16 dvd ?t" "16 \<le> ?t" using True s k(10) by (auto intro!: dvd_diff_nat)
    have p': "b p = Some (s + ?t + 16, False)" using p n(1) by simp
    have A': "p \<in> X \<or> A \<inter> {p + s..<p + s + ?t + 16} = {}" using A n(1) by (metis add.assoc)
    obtain h' where h': "blk_split (of_nat p) (of_nat s) (hmem st) = Some (of_nat ?q, h')"
      "rep B E (insert ?q X) Y A h0 (st\<lparr>hmem := h'\<rparr>) (b(p := Some (s, False), ?q := Some (?t, False))) L"
      using split_rep [OF r p' s(1) n(2) s(2) n(3) A'] by metis
    have "b ?q = None" by (rule layout_gap [OF repl [OF r] p]) (use True in auto)
    then have X: "insert ?q X - {?q} = X" using rep_loose [OF rep_mem [OF r], of ?q] by auto
    have q: "(b(p := Some (s, False), ?q := Some (?t, False))) ?q = Some (?t, False)" "?q \<in> insert ?q X" "?q \<notin> Y" using Y by auto
    obtain st' L' where st': "do_free (of_nat ?q) (st\<lparr>hmem := h'\<rparr>) = Some st'" "pool_kept (st\<lparr>hmem := h'\<rparr>) st'"
      "rep B E X Y A h0 st' ((b(p := Some (s, False), ?q := Some (?t, False)))(?q := Some (?t, True))) L'"
      using do_free_rep [OF h'(2) q] unfolding X by metis
    have "try_split_and_free (of_nat p) (of_nat s) st = Some (True, st')"
      using st'(1) h'(1) True le rep_size [OF r r p] by (simp add: try_split_and_free_def)
    then show ?thesis using that st'(2,3) True by (simp add: split_blocks_def pool_kept_def)
  next
    case False
    then show ?thesis using that r rep_size [OF r r p] le by (simp add: try_split_and_free_def split_blocks_def)
  qed
qed

text \<open>A block merges with the next one, which is free and is taken out of its list, or with the one before it.\<close>

lemma setsize_rep:
  assumes r: "rep B E X Y A h0 st b L" and p: "b p = Some (s, False)" and q: "b (p + s + 16) = Some (t, False)" "p + s + 16 \<in> X"
  obtains st' where "on_mem (blk_setsize (of_nat p) (of_nat (s + t + 16))) st = Some st'" "pool_kept st st'"
    "rep B E (X - {p + s + 16}) Y A h0 st' (b(p + s + 16 := None, p := Some (s + t + 16, False))) L"
proof -
  let ?n = "s + t + 16" and ?h = "hmem st"
  note w = tags_writable [OF repl [OF r] rept [OF r]] and k = block_bounds [OF repl [OF r] p] block_bounds [OF repl [OF r] q(1)]
  have e: "p + ?n = p + s + 16 + t" by simp
  have "blk_setsize (of_nat p) (of_nat ?n) ?h = Some (?h(p - 8 := Some (of_nat ?n), p + ?n := Some (of_nat ?n)))"
    by (rule blk_setsize_at [OF w(1) [OF p] w(2) [OF q(1), folded e]]) (use k in auto)
  then show ?thesis using that [of "st\<lparr>hmem := ?h(p - 8 := Some (of_nat ?n), p + ?n := Some (of_nat ?n))\<rparr>"]
      rep_merge [OF rep_mem [OF r] p q] r by (simp add: on_mem_def rep_def del: of_nat_add)
qed

lemma mergenext_rep:
  assumes r: "rep B E X Y A h0 st b L" and p: "b p = Some (s, False)" and q: "b (p + s + 16) = Some (t, True)" "p + s + 16 \<notin> Y" "p + s + 16 \<notin> X"
  obtains st' L' where "blk_mergenext (of_nat p) detach st = Some (of_nat p, st')" "pool_kept st st'"
    "rep B E X Y A h0 st' (b(p + s + 16 := None, p := Some (s + t + 16, False))) L'"
proof -
  let ?q = "p + s + 16" and ?b = "b(p + s + 16 := Some (t, False))"
  note k = block_bounds [OF repl [OF r] p]
  obtain st1 L1 where st1: "detach (of_nat ?q) st = Some st1" "pool_kept st st1" "rep B E (insert ?q X) Y A h0 st1 ?b L1"
    using detach_rep [OF r q(1,2)] by metis
  have b1: "?b p = Some (s, False)" "?b ?q = Some (t, False)" "?q \<in> insert ?q X" using p by auto
  obtain st2 where st2: "on_mem (blk_setsize (of_nat p) (of_nat (s + t + 16))) st1 = Some st2" "pool_kept st1 st2"
    "rep B E (insert ?q X - {?q}) Y A h0 st2 (?b(?q := None, p := Some (s + t + 16, False))) L1"
    using setsize_rep [OF st1(3) b1] by metis
  have X: "insert ?q X - {?q} = X" using q(3) by auto
  have "p + s + 16 \<noteq> E" using block_bounds(3) [OF repl [OF r] q(1)] by auto
  then have "blk_next (of_nat p) (hmem st) = Some (of_nat ?q)"
    using next_is_free_at(2) [OF repl [OF r] rept [OF r] p q(3)] rep_size [OF r r p] by (simp add: blk_next_def)
  then have "blk_mergenext (of_nat p) detach st = Some (of_nat p, st2)"
    using rep_size [OF r r p] rep_size [OF r r q(1)] st1(1) st2(1) by (simp add: blk_mergenext_def del: of_nat_add) (simp add: add.assoc)
  then show ?thesis using that st1(2) st2(2,3) pool_kept_trans unfolding X by (simp add: fun_upd_twist)
qed

lemma mergeprev_rep:
  assumes r: "rep B E X Y A h0 st b L" and p: "b p = Some (s, False)" "p \<in> X" and q: "b q = Some (t, True)" "q + t + 16 = p" "q \<notin> Y" "q \<notin> X"
  obtains st' L' where "blk_mergeprev (of_nat p) detach st = Some (of_nat q, st')" "pool_kept st st'"
    "rep B E (insert q X - {p}) Y A h0 st' (b(p := None, q := Some (t + s + 16, False))) L'"
proof -
  let ?b = "b(q := Some (t, False))"
  obtain st1 L1 where st1: "detach (of_nat q) st = Some st1" "pool_kept st st1" "rep B E (insert q X) Y A h0 st1 ?b L1"
    using detach_rep [OF r q(1,3)] by metis
  have b1: "?b q = Some (t, False)" "?b (q + t + 16) = Some (s, False)" "q + t + 16 \<in> insert q X" using p q(2) by auto
  obtain st2 where st2: "on_mem (blk_setsize (of_nat q) (of_nat (t + s + 16))) st1 = Some st2" "pool_kept st1 st2"
    "rep B E (insert q X - {p}) Y A h0 st2 (?b(p := None, q := Some (t + s + 16, False))) L1"
    using setsize_rep [OF st1(3) b1] unfolding q(2) by metis
  have "x = q" if x: "b x = Some (u, g)" "x + u + 16 = p" for x u g
    using layout_apart [OF repl [OF r] q(1) x(1)] x(2) q(2) by auto
  then have "blk_prev (of_nat p) (hmem st) = Some (of_nat q)"
    using prev_is_free_at(2) [OF repl [OF r] rept [OF r] p(1) _ q(1,2)] q(4) by blast
  moreover have "(of_nat s + of_nat t + 16 :: u64) = of_nat (t + s + 16)" by simp
  ultimately have "blk_mergeprev (of_nat p) detach st = Some (of_nat q, st2)"
    using rep_size [OF r r p(1)] rep_size [OF r r q(1)] st1(1) st2(1) by (simp add: blk_mergeprev_def del: of_nat_add)
  then show ?thesis using that st1(2) st2(2,3) pool_kept_trans by (simp add: fun_upd_twist)
qed

lemma live_upd: "live X (b(p := v)) = (live X b)(p := (case v of Some (s, False) \<Rightarrow> if p \<in> X then None else Some s | _ \<Rightarrow> None))"
  by (auto simp: live_def fun_eq_iff)

lemma live_None: "b p = None \<Longrightarrow> live X b p = None" "b p = Some (s, True) \<Longrightarrow> live X b p = None" "p \<in> X \<Longrightarrow> live X b p = None"
  by (auto simp: live_def split: option.splits prod.splits bool.splits)

lemma live_loose: "live (insert p X) b = (live X b)(p := None)"
  by (auto simp: live_def fun_eq_iff split: option.splits prod.splits bool.splits)

lemma live_kept: "p \<notin> X \<Longrightarrow> b p = Some (s, False) \<Longrightarrow> live X b p = Some s"
  by (simp add: live_def)

lemma try_next_rep:
  assumes r: "rep B E {p} {} A h0 st b L" and p: "b p = Some (s, False)"
  obtains f s' b' st' L' where "next_is_free (of_nat p) (of_nat s) (hmem st) = Some f" "(if f then blk_mergenext (of_nat p) detach st else Some (of_nat p, st)) = Some (of_nat p, st')"
    "pool_kept st st'" "rep B E {p} {} A h0 st' b' L'" "b' p = Some (s', False)" "live {p} b' = live {p} b" "s \<le> s'"
    "s' = s \<or> (\<exists>t. b (p + s + 16) = Some (t, True))" "\<forall>q t. b' q = Some (t, True) \<longrightarrow> b q = Some (t, True)" "\<forall>q < p. b' q = b q"
proof -
  have nf: "next_is_free (of_nat p) (of_nat s) (hmem st) = Some (\<exists>t. b (p + s + 16) = Some (t, True))"
    by (rule next_is_free_at(1) [OF repl [OF r] rept [OF r] p]) simp
  show ?thesis
  proof (cases "\<exists>t. b (p + s + 16) = Some (t, True)")
    case True
    then obtain t where q: "b (p + s + 16) = Some (t, True)" by blast
    let ?b = "b(p + s + 16 := None, p := Some (s + t + 16, False))"
    obtain st1 L1 where m: "blk_mergenext (of_nat p) detach st = Some (of_nat p, st1)" "pool_kept st st1" "rep B E {p} {} A h0 st1 ?b L1"
      using mergenext_rep [OF r p q] by auto
    show ?thesis
    proof (rule that [of True st1 ?b L1 "s + t + 16"])
      show "next_is_free (of_nat p) (of_nat s) (hmem st) = Some True" using nf True by simp
      show "live {p} ?b = live {p} b" using q by (auto simp: live_def fun_eq_iff split: option.splits prod.splits bool.splits)
      show "s + t + 16 = s \<or> (\<exists>t. b (p + s + 16) = Some (t, True))" using True by blast
    qed (use m in auto)
  next
    case False
    then show ?thesis using that [of False st b L s] r p nf by simp
  qed
qed

lemma try_prev_rep:
  assumes r: "rep B E {p} {} A h0 st b L" and p: "b p = Some (s, False)"
  obtains f p' s' b' st' L' where "prev_is_free (of_nat p) (hmem st) = Some f" "(if f then blk_mergeprev (of_nat p) detach st else Some (of_nat p, st)) = Some (of_nat p', st')"
    "pool_kept st st'" "rep B E {p'} {} A h0 st' b' L'" "b' p' = Some (s', False)" "live {p'} b' = live {p} b" "p' \<le> p" "p' + s' = p + s"
    "(p' = p) = (\<not> (\<exists>q t. b q = Some (t, True) \<and> q + t + 16 = p))" "\<forall>q t. b' q = Some (t, True) \<longrightarrow> b q = Some (t, True)"
proof -
  have pf: "prev_is_free (of_nat p) (hmem st) = Some (\<exists>q t. b q = Some (t, True) \<and> q + t + 16 = p)"
    by (rule prev_is_free_at(1) [OF repl [OF r] rept [OF r] p]) simp
  show ?thesis
  proof (cases "\<exists>q t. b q = Some (t, True) \<and> q + t + 16 = p")
    case True
    then obtain q t where q: "b q = Some (t, True)" "q + t + 16 = p" by blast
    then have "q \<noteq> p" by auto
    then have X: "insert q {p} - {p} = {q}" by auto
    let ?b = "b(p := None, q := Some (t + s + 16, False))"
    obtain st2 L2 where m: "blk_mergeprev (of_nat p) detach st = Some (of_nat q, st2)" "pool_kept st st2" "rep B E {q} {} A h0 st2 ?b L2"
      using mergeprev_rep [OF r p _ q] \<open>q \<noteq> p\<close> unfolding X by auto
    show ?thesis
    proof (rule that [of True q st2 ?b L2 "t + s + 16"])
      show "prev_is_free (of_nat p) (hmem st) = Some True" using pf True by simp
      show "live {q} ?b = live {p} b"
        using q(1) \<open>q \<noteq> p\<close> by (auto simp: live_def fun_eq_iff split: option.splits prod.splits bool.splits)
      show "(q = p) = (\<not> (\<exists>q t. b q = Some (t, True) \<and> q + t + 16 = p))" using \<open>q \<noteq> p\<close> True by blast
    qed (use m q in auto)
  next
    case False
    then have "prev_is_free (of_nat p) (hmem st) = Some False" using pf by simp
    then show ?thesis using that [of False p st b L s] False r p by auto
  qed
qed

lemma trymerge_rep:
  assumes r: "rep B E {p} {} A h0 st b L" and p: "b p = Some (s, False)"
  obtains p' s' b' st' L' where "blk_trymerge (of_nat p) detach st = Some (of_nat p', st')" "pool_kept st st'" "rep B E {p'} {} A h0 st' b' L'"
    "b' p' = Some (s', False)" "live {p'} b' = live {p} b" "p' \<le> p" "p + s \<le> p' + s'"
    "p' + s' = p + s \<or> (\<exists>t. b (p + s + 16) = Some (t, True))" "(p' = p) = (\<not> (\<exists>q t. b q = Some (t, True) \<and> q + t + 16 = p))"
    "\<forall>q t. b' q = Some (t, True) \<longrightarrow> b q = Some (t, True)"
proof -
  obtain two where two: "blk_area_is_2M (of_nat p) (hmem st) = Some two"
    using tags_writable(1) [OF repl [OF r] rept [OF r] p] block_bounds [OF repl [OF r] p] by (auto simp: blk_area_is_2M_def blk_head_at)
  obtain f s1 b1 st1 L1 where m1: "next_is_free (of_nat p) (of_nat s) (hmem st) = Some f" "(if f then blk_mergenext (of_nat p) detach st else Some (of_nat p, st)) = Some (of_nat p, st1)"
    "pool_kept st st1" "rep B E {p} {} A h0 st1 b1 L1" "b1 p = Some (s1, False)" "live {p} b1 = live {p} b" "s \<le> s1"
    "s1 = s \<or> (\<exists>t. b (p + s + 16) = Some (t, True))" "\<forall>q t. b1 q = Some (t, True) \<longrightarrow> b q = Some (t, True)" "\<forall>q < p. b1 q = b q"
    by (rule try_next_rep [OF r p]) blast
  obtain g p' s2 b2 st2 L2 where m2: "prev_is_free (of_nat p) (hmem st1) = Some g" "(if g then blk_mergeprev (of_nat p) detach st1 else Some (of_nat p, st1)) = Some (of_nat p', st2)"
    "pool_kept st1 st2" "rep B E {p'} {} A h0 st2 b2 L2" "b2 p' = Some (s2, False)" "live {p'} b2 = live {p} b1" "p' \<le> p" "p' + s2 = p + s1"
    "(p' = p) = (\<not> (\<exists>q t. b1 q = Some (t, True) \<and> q + t + 16 = p))" "\<forall>q t. b2 q = Some (t, True) \<longrightarrow> b1 q = Some (t, True)"
    by (rule try_prev_rep [OF m1(4,5)]) blast
  obtain st3 where m3: "(if two then do { s \<leftarrow> blk_size (of_nat p') (hmem st2); on_mem (blk_set_area_2M (of_nat p') s) st2 } else Some st2) = Some st3"
    "pool_kept st2 st3" "rep B E {p'} {} A h0 st3 b2 L2"
  proof (cases two)
    case True
    obtain st3 where "on_mem (blk_set_area_2M (of_nat p') (of_nat s2)) st2 = Some st3" "pool_kept st2 st3" "rep B E {p'} {} A h0 st3 b2 L2"
      using set_2M_rep [OF m2(4,5)] by blast
    then show ?thesis using that True rep_size [OF m2(4,4,5)] by simp
  qed (use that m2(4) in simp)
  have "blk_trymerge (of_nat p) detach st = Some (of_nat p', st3)"
    unfolding blk_trymerge_def two rep_size [OF r r p] bind.bind_lunit m1(1,2) prod.case m2(1,2) m3(1) ..
  moreover have "pool_kept st st3" using m1(3) m2(3) m3(2) pool_kept_trans by blast
  moreover have "(\<exists>q t. b1 q = Some (t, True) \<and> q + t + 16 = p) = (\<exists>q t. b q = Some (t, True) \<and> q + t + 16 = p)"
  proof -
    have "b1 q = b q" if "q + t + 16 = p" for q t using m1(10) that by simp
    then show ?thesis by metis
  qed
  ultimately have "(p' = p) = (\<not> (\<exists>q t. b q = Some (t, True) \<and> q + t + 16 = p))" "pool_kept st st3"
    "blk_trymerge (of_nat p) detach st = Some (of_nat p', st3)" using m2(9) by simp_all
  moreover have "\<forall>q t. b2 q = Some (t, True) \<longrightarrow> b q = Some (t, True)" using m1(9) m2(10) by blast
  moreover have "p' + s2 = p + s \<or> (\<exists>t. b (p + s + 16) = Some (t, True))" using m1(8) m2(8) by metis
  moreover have "p + s \<le> p' + s2" "live {p'} b2 = live {p} b" using m1(6,7) m2(6,8) by simp_all
  ultimately show ?thesis using that m2(5,7) m3(3) by blast
qed

end
