(* ===== verification/Heap_Spec.thy ===== *)
theory Heap_Spec
  imports Heap_Ops
begin

text \<open>What \<open>mpool_alloc\<close>, \<open>mpool_free\<close> and \<open>mpool_realloc\<close> do to the live blocks and their contents.\<close>

section \<open>Finding a block\<close>

definition size_of :: "blocks \<Rightarrow> nat \<Rightarrow> nat" where
  "size_of b p = (case b p of Some (s, _) \<Rightarrow> s | None \<Rightarrow> 0)"

lemma find_rep:
  assumes r: "rep B E X Y A h0 st b L" and i: "i \<le> 8" and s: "s < 2 ^ 64"
  shows "(\<exists>p t. find_block (holds_size (of_nat s) (hmem st)) (hmem st) (heads st i) = Some (of_nat p) \<and> p \<in> set (L i) \<and> b p = Some (t, True) \<and> s \<le> t \<and>
      p = hd (dropWhile (\<lambda>x. \<not> s \<le> size_of b x) (L i))) \<or>
    find_block (holds_size (of_nat s) (hmem st)) (hmem st) (heads st i) = Some 0 \<and> (\<forall>p \<in> set (L i). size_of b p < s)"
proof -
  note k = lists_linkable [OF rep_mem [OF r] i]
  have fits: "holds_size (of_nat s) (hmem st) (of_nat x) = Some (s \<le> size_of b x)" if x: "x \<in> set (L i)" for x
  proof -
    obtain t where t: "b x = Some (t, True)" using k(2) [OF x] by blast
    then show ?thesis using rep_size [OF r r t] block_bounds(6) [OF repl [OF r] t] of_nat_le_u64 [OF s, of t] by (simp add: holds_size_def size_of_def)
  qed
  let ?d = "dropWhile (\<lambda>x. \<not> s \<le> size_of b x) (L i)"
  have "fwd (hmem st) (L i) 0" using k(4) by (simp add: dll_def)
  then have f: "find_block (holds_size (of_nat s) (hmem st)) (hmem st) (heads st i) = Some (link ?d)"
    unfolding k(3) using k(1) fits by (rule find_block_at)
  show ?thesis
  proof (cases ?d)
    case Nil
    then have "\<forall>p \<in> set (L i). size_of b p < s" by (simp add: dropWhile_eq_Nil_conv not_le)
    then show ?thesis using f unfolding Nil by simp
  next
    case (Cons p ps)
    then have "p \<in> set ?d" by simp
    then have "p \<in> set (L i)" by (rule set_dropWhileD)
    moreover have "s \<le> size_of b p" using hd_dropWhile [of "\<lambda>x. \<not> s \<le> size_of b x" "L i"] Cons by simp
    moreover obtain t where "b p = Some (t, True)" using k(2) [OF \<open>p \<in> set (L i)\<close>] by blast
    ultimately show ?thesis using f Cons by (auto simp: size_of_def)
  qed
qed

lemma lists_match_rep:
  assumes r: "rep B E X Y A h0 st b L" and s: "s < 2 ^ 64" and ids: "set ids \<subseteq> {..<8}"
  shows "(\<exists>p t fl h' L'. lists_match (holds_size (of_nat s) (hmem st)) ids (freed st) (hmem st) = Some (of_nat p, fl, h') \<and>
      b p = Some (t, True) \<and> s \<le> t \<and> rep B E (insert p X) Y A h0 (st\<lparr>freed := fl, hmem := h'\<rparr>) (b(p := Some (t, False))) L') \<or>
    lists_match (holds_size (of_nat s) (hmem st)) ids (freed st) (hmem st) = Some (0, freed st, hmem st) \<and> (\<forall>i \<in> set ids. \<forall>p \<in> set (L i). size_of b p < s)"
  using ids
proof (induction ids)
  case (Cons i ids)
  have i: "i < 8" "i \<le> 8" "aget (freed st) i = Some (heads st i)" using Cons.prems rep_freed [OF r] by auto
  from find_rep [OF r i(2) s] show ?case
  proof
    assume "\<exists>p t. find_block (holds_size (of_nat s) (hmem st)) (hmem st) (heads st i) = Some (of_nat p) \<and> p \<in> set (L i) \<and> b p = Some (t, True) \<and> s \<le> t \<and>
      p = hd (dropWhile (\<lambda>x. \<not> s \<le> size_of b x) (L i))"
    then obtain p t where p: "find_block (holds_size (of_nat s) (hmem st)) (hmem st) (heads st i) = Some (of_nat p)"
      "p \<in> set (L i)" "b p = Some (t, True)" "s \<le> t" by blast
    have nz: "(of_nat p :: u64) \<noteq> 0" using lists_linkable(1) [OF rep_mem [OF r] i(2)] p(2) of_nat_linkable by blast
    obtain l h' where "freelists_detach (freed st) i (of_nat p) (hmem st) = Some ((freed st)[i := l], h')"
      "rep B E (insert p X) Y A h0 (st\<lparr>freed := (freed st)[i := l], hmem := h'\<rparr>) (b(p := Some (t, False))) (L(i := remove1 p (L i)))"
      using unlist_rep [OF r p(3,2) i(2)] i(1) by metis
    then have "lists_match (holds_size (of_nat s) (hmem st)) (i # ids) (freed st) (hmem st) = Some (of_nat p, (freed st)[i := l], h')"
      "rep B E (insert p X) Y A h0 (st\<lparr>freed := (freed st)[i := l], hmem := h'\<rparr>) (b(p := Some (t, False))) (L(i := remove1 p (L i)))"
      using i(3) p(1) nz by simp_all
    then show ?case using p(3,4) by blast
  next
    assume n: "find_block (holds_size (of_nat s) (hmem st)) (hmem st) (heads st i) = Some 0 \<and> (\<forall>p \<in> set (L i). size_of b p < s)"
    then have "lists_match (holds_size (of_nat s) (hmem st)) (i # ids) (freed st) (hmem st) = lists_match (holds_size (of_nat s) (hmem st)) ids (freed st) (hmem st)"
      using i(3) by simp
    then show ?case using Cons.IH Cons.prems n by auto
  qed
qed simp

lemma match_large_rep:
  assumes r: "rep B E X Y A h0 st b L" and s: "s < 2 ^ 64"
  shows "(\<exists>p t st' L'. match_large (of_nat s) st = Some (of_nat p, st') \<and> pool_kept st st' \<and> p = hd (dropWhile (\<lambda>x. \<not> s \<le> size_of b x) (L 8)) \<and>
      b p = Some (t, True) \<and> s \<le> t \<and> rep B E (insert p X) Y A h0 st' (b(p := Some (t, False))) L') \<or>
    match_large (of_nat s) st = Some (0, st) \<and> (\<forall>p \<in> set (L 8). size_of b p < s)"
  using find_rep [OF r order.refl s]
proof
  assume "\<exists>p t. find_block (holds_size (of_nat s) (hmem st)) (hmem st) (heads st 8) = Some (of_nat p) \<and> p \<in> set (L 8) \<and> b p = Some (t, True) \<and> s \<le> t \<and>
    p = hd (dropWhile (\<lambda>x. \<not> s \<le> size_of b x) (L 8))"
  then obtain p t where p: "find_block (holds_size (of_nat s) (hmem st)) (hmem st) (heads st 8) = Some (of_nat p)"
    "p \<in> set (L 8)" "b p = Some (t, True)" "s \<le> t" "p = hd (dropWhile (\<lambda>x. \<not> s \<le> size_of b x) (L 8))" by blast
  have nz: "(of_nat p :: u64) \<noteq> 0" using lists_linkable(1) [OF rep_mem [OF r], of 8] p(2) of_nat_linkable by blast
  obtain l h' where "freelist_detach (heads st 8) (of_nat p) (hmem st) = Some (l, h')"
    "rep B E (insert p X) Y A h0 (st\<lparr>large_blk := l, hmem := h'\<rparr>) (b(p := Some (t, False))) (L(8 := remove1 p (L 8)))"
    using unlist_rep [OF r p(3,2)] by (metis order.refl)
  then have "match_large (of_nat s) st = Some (of_nat p, st\<lparr>large_blk := l, hmem := h'\<rparr>)"
    "rep B E (insert p X) Y A h0 (st\<lparr>large_blk := l, hmem := h'\<rparr>) (b(p := Some (t, False))) (L(8 := remove1 p (L 8)))"
    using p(1) nz by (simp_all add: match_large_def freelist_match_def list_match_def)
  then show ?thesis using p(3-5) pool_kept_refl pool_kept_updates by metis
next
  assume "find_block (holds_size (of_nat s) (hmem st)) (hmem st) (heads st 8) = Some 0 \<and> (\<forall>p \<in> set (L 8). size_of b p < s)"
  then show ?thesis by (simp add: match_large_def freelist_match_def list_match_def)
qed

lemma match_block_rep:
  assumes r: "rep B E X {} A h0 st b L" and s: "s < 2 ^ 64"
  shows "(\<exists>p t st' L'. match_block (of_nat s) st = Some (of_nat p, st') \<and> pool_kept st st' \<and> b p = Some (t, True) \<and> s \<le> t \<and>
      rep B E (insert p X) {} A h0 st' (b(p := Some (t, False))) L') \<or>
    match_block (of_nat s) st = Some (0, st) \<and> (\<forall>p t. b p = Some (t, True) \<longrightarrow> t < s)"
proof -
  note id = size2id_list_id [OF s]
  let ?ids = "if s < 16384 then [list_id s..<8] else []"
  have fm: "freelists_match (freed st) (of_nat s) (hmem st) = lists_match (holds_size (of_nat s) (hmem st)) ?ids (freed st) (hmem st)"
    using id(1) by (simp add: freelists_match_def)
  have "set ?ids \<subseteq> {..<8}" by auto
  from lists_match_rep [OF r s this] show ?thesis
  proof
    assume "\<exists>p t fl h' L'. lists_match (holds_size (of_nat s) (hmem st)) ?ids (freed st) (hmem st) = Some (of_nat p, fl, h') \<and>
      b p = Some (t, True) \<and> s \<le> t \<and> rep B E (insert p X) {} A h0 (st\<lparr>freed := fl, hmem := h'\<rparr>) (b(p := Some (t, False))) L'"
    then obtain p t fl h' L' where p: "freelists_match (freed st) (of_nat s) (hmem st) = Some (of_nat p, fl, h')"
      "b p = Some (t, True)" "s \<le> t" "rep B E (insert p X) {} A h0 (st\<lparr>freed := fl, hmem := h'\<rparr>) (b(p := Some (t, False))) L'" unfolding fm by blast
    have "(of_nat p :: u64) \<noteq> 0" using tags_writable(3) [OF repl [OF r] rept [OF r] p(2)] of_nat_linkable by blast
    then have "match_block (of_nat s) st = Some (of_nat p, st\<lparr>freed := fl, hmem := h'\<rparr>)" using p(1) by (simp add: match_block_def)
    then show ?thesis using p(2-4) pool_kept_refl pool_kept_updates by metis
  next
    assume n: "lists_match (holds_size (of_nat s) (hmem st)) ?ids (freed st) (hmem st) = Some (0, freed st, hmem st) \<and>
      (\<forall>i \<in> set ?ids. \<forall>p \<in> set (L i). size_of b p < s)"
    then have m: "match_block (of_nat s) st = match_large (of_nat s) st" unfolding match_block_def fm by simp
    have small: "t < s" if none: "\<forall>p \<in> set (L 8). size_of b p < s" and p: "b p = Some (t, True)" for p t
    proof (rule ccontr)
      assume "\<not> t < s"
      then have st: "s \<le> t" by simp
      have t: "t < 2 ^ 64" by (rule block_bounds(6) [OF repl [OF r] p])
      have i: "p \<in> set (L (list_id t))" "list_id t \<le> 8" using free_in_list [OF r p] by (simp_all add: home_def)
      have "size_of b p = t" using p by (simp add: size_of_def)
      moreover have "list_id s \<le> list_id t" by (rule list_id_mono [OF st t])
      moreover have "list_id t \<noteq> 8 \<Longrightarrow> list_id t \<in> set ?ids" using i(2) calculation(2) size2id_list_id(3) [OF t] st by auto
      ultimately show False using n none i st by (cases "list_id t = 8") fastforce+
    qed
    show ?thesis using match_large_rep [OF r s] unfolding m using small by blast
  qed
qed

section \<open>Rounding\<close>

lemma unat_round_down: "unat (x AND NOT (mask k)) = unat x div 2 ^ k * 2 ^ k" for x :: u64
proof -
  have "x AND NOT (mask k) = push_bit k (drop_bit k x)" by (rule bit_word_eqI) (auto simp: bit_simps)
  moreover have "unat x div 2 ^ k * 2 ^ k < 2 ^ 64" using unsigned_less [of x, where 'a = nat] le_less_trans [OF div_times_less_eq_dividend] by auto
  moreover have "unat (push_bit k (drop_bit k x)) = take_bit 64 (push_bit k (drop_bit k (unat x)))"
    using unsigned_less [of x, where 'a = nat] by (simp add: unsigned_push_bit_eq unsigned_drop_bit_eq take_bit_nat_eq_self)
  ultimately show ?thesis by (simp add: push_bit_eq_mult [where 'a = nat] drop_bit_eq_div [where 'a = nat] take_bit_nat_eq_self)
qed

definition up16 :: "nat \<Rightarrow> nat" where "up16 n = (if n = 0 then 16 else (n + 15) div 16 * 16)"
definition up16k :: "nat \<Rightarrow> nat" where "up16k n = (n + 16383) div 16384 * 16384"

lemma padded_nat:
  assumes "unat s + 15 < 2 ^ 64"
  shows "padded s = of_nat (up16 (unat s))"
proof -
  have "PADDING s = (s + 15) AND NOT (mask 4)" by (simp add: PADDING_def mask_eq_exp_minus_1 add.commute)
  then have "unat (PADDING s) = (unat s + 15) div 16 * 16" using unat_round_down [of "s + 15" 4] unat_add_no_wrap [of s 15] assms by simp
  then have "PADDING s = of_nat ((unat s + 15) div 16 * 16)" by (metis of_nat_unat ucast_id)
  then show ?thesis by (auto simp: padded_def up16_def unat_eq_zero)
qed

lemma up16: "n \<le> up16 n" "16 \<le> up16 n" "16 dvd up16 n" "up16 n \<le> n + 16"
  unfolding up16_def by (auto intro: dvd_triv_right)

lemma PADDING_16k_nat:
  assumes "n + 16383 < 2 ^ 64"
  shows "PADDING_16k (of_nat n) = of_nat (up16k n)"
proof -
  have "PADDING_16k (of_nat n) = (of_nat n + 16383) AND NOT (mask 14)" by (simp add: PADDING_16k_def mask_eq_exp_minus_1 add.commute)
  then have "unat (PADDING_16k (of_nat n)) = (n + 16383) div 16384 * 16384" using unat_round_down [of "of_nat n + 16383" 14] assms by simp
  then show ?thesis unfolding up16k_def by (metis of_nat_unat ucast_id)
qed

lemma up16k: "n \<le> up16k n" "16384 dvd up16k n" "0 < n \<Longrightarrow> 16384 \<le> up16k n" "up16k n < n + 16384"
  unfolding up16k_def by (auto intro: dvd_triv_right)

text \<open>Two words of the new memory are for tags: only a size that is a multiple of 16 KB leaves no room for them.\<close>

lemma up16k_room: "16 dvd n \<Longrightarrow> n + 16 \<le> up16k n \<or> 16384 dvd n"
proof -
  assume n: "16 dvd n"
  have "(16 :: nat) dvd 16384" by simp
  then have "16 dvd up16k n" using up16k(2) dvd_trans by blast
  then have "n = up16k n" if "\<not> n + 16 \<le> up16k n" using that n up16k(1) [of n] by presburger
  then show ?thesis using up16k(2) [of n] by metis
qed

section \<open>Taking a block\<close>

lemma rep_home:
  assumes "rep B E X Y A h0 st b L" "\<And>p s. p \<in> Y \<Longrightarrow> b p \<noteq> Some (s, True)"
  shows "rep B E X {} A h0 st b L"
proof -
  have "(b p = Some (s, True) \<and> home Y p s = i) = (b p = Some (s, True) \<and> home {} p s = i)" for p s i using assms(2) by (auto simp: home_def)
  then have "lists_ok {} b (hmem st) (heads st) L" using rep_lists [OF rep_mem [OF assms(1)]] unfolding lists_ok_def by simp
  then show ?thesis using assms(1) by (simp add: rep_def mem_rep_def)
qed

lemma split_blocks_at:
  assumes "layout B E b" "b p = Some (n, False)" "s \<le> n"
  shows "\<exists>k. split_blocks p s n b p = Some (k, False) \<and> s \<le> k \<and> k < s + 64 \<and> live X (split_blocks p s n b) = (live X b)(p := (if p \<in> X then None else Some k))"
proof (cases "s + 64 \<le> n")
  case True
  have "b (p + s + 16) = None" by (rule layout_gap [OF assms(1,2)]) (use True in auto)
  then have "live X (split_blocks p s n b) = (live X b)(p := (if p \<in> X then None else Some s))"
    using True live_None(1) [of b "p + s + 16" X] by (auto simp: split_blocks_def live_upd fun_eq_iff)
  then show ?thesis using True by (intro exI [of _ s]) (simp add: split_blocks_def)
next
  case False
  have "live X b = (live X b)(p := (if p \<in> X then None else Some n))" using assms(2) by (auto simp: live_def fun_eq_iff)
  then show ?thesis using assms(2,3) False by (intro exI [of _ n]) (simp add: split_blocks_def)
qed

lemma take_block_rep:
  assumes r: "rep B E {p} Y A h0 st b L" and p: "b p = Some (t, False)" and s: "16 dvd s" "16 \<le> s" "s \<le> t" and Y: "Y \<subseteq> {p}"
  obtains k st' b' L' where "take_block (of_nat p) (of_nat s) st = Some (of_nat p, st')" "rep B E {} {} A h0 st' b' L'"
    "live {} b' = (live {p} b)(p := Some k)" "s \<le> k" "k < s + 64" "b' p = Some (k, False)"
    "cb_reqmem st' = cb_reqmem st" "cb_delmem st' = cb_delmem st" "alloced_size st' = alloced_size st + of_nat k"
proof -
  obtain f st1 L1 where s1: "try_split_and_free (of_nat p) (of_nat s) st = Some (f, st1)" "pool_kept st st1" "rep B E {p} Y A h0 st1 (split_blocks p s t b) L1"
    using try_split_rep [OF r p s _ Y] by blast
  obtain k where k: "split_blocks p s t b p = Some (k, False)" "s \<le> k" "k < s + 64" "live {} (split_blocks p s t b) = (live {} b)(p := Some k)"
    using split_blocks_at [OF repl [OF r] p s(3), of "{}"] by auto
  obtain st2 where s2: "on_mem (blk_setalloced (of_nat p) (of_nat k)) st1 = Some st2" "pool_kept st1 st2" "rep B E ({p} - {p}) Y A h0 st2 (split_blocks p s t b) L1"
    using setalloced_rep [OF s1(3) k(1)] by metis
  have "rep B E {} Y A h0 (st2\<lparr>alloced_size := alloced_size st2 + of_nat k\<rparr>) (split_blocks p s t b) L1" using s2(3) by (simp add: rep_def)
  then have "rep B E {} {} A h0 (st2\<lparr>alloced_size := alloced_size st2 + of_nat k\<rparr>) (split_blocks p s t b) L1" by (rule rep_home) (use Y k(1) in auto)
  moreover have "take_block (of_nat p) (of_nat s) st = Some (of_nat p, st2\<lparr>alloced_size := alloced_size st2 + of_nat k\<rparr>)"
    using s1(1) s2(1) rep_size [OF s1(3,3) k(1)] by (simp add: take_block_def)
  moreover have "live {} (split_blocks p s t b) = (live {p} b)(p := Some k)" using k(4) by (simp add: live_loose)
  ultimately show ?thesis using that k s1(2) s2(2) by (simp add: pool_kept_def)
qed

section \<open>Freeing\<close>

lemma tagged_mono: "tagged h x s l f \<Longrightarrow> (l \<Longrightarrow> l') \<Longrightarrow> tagged h x s l' f"
  by (auto simp: tagged_def)

lemma tags_loosen:
  assumes "tags B E X b h" "X \<subseteq> X'"
  shows "tags B E X' b h"
  unfolding tags_def
proof (intro conjI allI impI)
  show "tagged h (p - 8) s (p \<in> X') f" "tagged h (p + s) s (p \<in> X') f" if "b p = Some (s, f)" for p s f
    using tags_block [OF assms(1) that] assms(2) by (auto elim: tagged_mono)
qed (use assms(1) in \<open>auto simp: tags_def\<close>)

lemma rep_loosen:
  assumes "rep B E X Y A h0 st b L" "b p = Some (s, False)" "A \<inter> {p..<p + s} = {}"
  shows "rep B E (insert p X) Y A h0 st b L"
proof -
  note m = rep_mem [OF assms(1)]
  have "tags B E (insert p X) b (hmem st)" using rep_tags [OF m] by (rule tags_loosen) auto
  moreover have "kept B E (insert p X) A h0 b (hmem st)"
  proof (rule kept_safe [OF rep_kept [OF m]])
    fix a
    assume a: "a \<in> A" "safe B E X b a"
    then consider "a < B \<or> E \<le> a" | q t where "b q = Some (t, False)" "q \<notin> X" "q \<le> a" "a < q + t" by (auto simp: safe_def)
    then show "safe B E (insert p X) b a"
    proof cases
      case 2
      then have "q \<noteq> p" using a(1) assms(2,3) by auto
      then show ?thesis unfolding safe_def using 2 by blast
    qed (auto simp: safe_def)
  qed
  ultimately show ?thesis using assms(1,2) rep_loose [OF m] by (auto simp: rep_def mem_rep_def)
qed

lemma mpool_free_rep:
  assumes r: "rep B E {} {} A h0 st b L" and p: "b p = Some (s, False)" and A: "A \<inter> {p..<p + s} = {}"
  obtains st' b' L' where "mpool_free (of_nat p) st = Some (Done st')" "rep B E {} {} A h0 st' b' L'" "live {} b' = (live {} b)(p := None)"
    "cb_reqmem st' = cb_reqmem st" "cb_delmem st' = cb_delmem st" "alloced_size st' = alloced_size st - of_nat s"
proof -
  let ?st = "st\<lparr>alloced_size := alloced_size st - of_nat s\<rparr>"
  have r': "rep B E {p} {} A h0 ?st b L" using rep_loosen [OF r p A] by (simp add: rep_def)
  obtain p' s' b1 st1 L1 where m: "blk_trymerge (of_nat p) detach ?st = Some (of_nat p', st1)" "pool_kept ?st st1" "rep B E {p'} {} A h0 st1 b1 L1"
    "b1 p' = Some (s', False)" "live {p'} b1 = live {p} b"
    by (rule trymerge_rep [OF r' p]) blast
  obtain st2 L2 where f: "do_free (of_nat p') st1 = Some st2" "pool_kept st1 st2" "rep B E ({p'} - {p'}) {} A h0 st2 (b1(p' := Some (s', True))) L2"
    using do_free_rep [OF m(3,4)] by blast
  have nz: "(of_nat p :: u64) \<noteq> 0" "(of_nat p' :: u64) \<noteq> 0"
    using tags_writable(3) [OF repl [OF r] rept [OF r] p] tags_writable(3) [OF repl [OF m(3)] rept [OF m(3)] m(4)] of_nat_linkable by blast+
  obtain w where "blk_head (of_nat p) (hmem st) = Some w" "w AND FREE_FLAG = 0" using blk_flag_at [OF repl [OF r] rept [OF r] p] by auto
  then have "mpool_free (of_nat p) st = Some (Done st2)"
    using nz rep_size [OF r r p] m(1) f(1) by (simp add: mpool_free_def)
  moreover have "live {} (b1(p' := Some (s', True))) = (live {} b)(p := None)"
    using m(5) by (auto simp: live_upd live_loose fun_eq_iff split: if_splits)
  ultimately show ?thesis using that f(2,3) m(2) by (simp add: pool_kept_def)
qed

end
