(* ===== verification/Heap_Grow.thy ===== *)
theory Heap_Grow
  imports Heap_Spec
begin

text \<open>Growing the pool, and allocation over any source of memory that gives what it is asked for.\<close>

section \<open>A longer area\<close>

lemma layout_extend:
  assumes l: "layout B E b" and n: "16 dvd n" "32 \<le> n" "E + n < 2 ^ 64"
  shows "layout B (E + n) (b(E := Some (n - 16, f)))"
proof -
  let ?b = "b(E := Some (n - 16, f))"
  obtain q t g where q: "b q = Some (t, g)" "q + t + 16 = E" using layout_last [OF l] by blast
  then have E: "16 dvd E" using layout_block [OF l q(1)] by auto
  have out: "b E = None" using layout_block [OF l, of E] by (cases "b E"; force)
  have n16: "16 dvd n - 16" using n(1) by (simp add: dvd_diff_nat)
  show ?thesis
  proof (rule layoutI)
    show "B + 16 \<le> p \<and> 16 dvd p \<and> 16 dvd s \<and> 16 \<le> s \<and> p + s + 16 \<le> E + n" if "?b p = Some (s, e)" for p s e
      using that layout_block [OF l, of p s e] layout_area [OF l] E n n16 by (auto split: if_splits)
    show "p + s + 16 \<le> p'" if "?b p = Some (s, e)" "?b p' = Some (s', e')" "p < p'" for p s e p' s' e'
      using that layout_order [OF l, of p s e p' s' e'] layout_block [OF l, of p s e] layout_block [OF l, of p' s' e'] by (auto split: if_splits)
    show "\<exists>p s e. ?b p = Some (s, e) \<and> p \<le> a + 8 \<and> a < p + s + 8" if a: "B + 8 \<le> a" "a + 8 < E + n" for a
    proof (cases "a + 8 < E")
      case True
      then obtain p s e where "b p = Some (s, e)" "p \<le> a + 8" "a < p + s + 8" using layout_cover [OF l a(1)] by blast
      then show ?thesis using out by (intro exI [of _ p] exI [of _ s] exI [of _ e]) auto
    next
      case False
      then show ?thesis using a n by (intro exI [of _ E] exI [of _ "n - 16"] exI [of _ f]) auto
    qed
  qed (use layout_area [OF l] n in auto)
qed

lemma extend_mem:
  assumes r: "mem_rep B E {} {} A h0 h H b L" and n: "16 dvd n" "32 \<le> n" "E + n < 2 ^ 64"
    and A: "A \<inter> {E..<E + n} = {}" and apart: "\<And>a. a < B \<or> E + n \<le> a \<Longrightarrow> h' a = h a" and old: "\<And>a. B < a \<Longrightarrow> a < E - 8 \<Longrightarrow> h' a = h a" and mapped: "\<And>a. B \<le> a \<Longrightarrow> a < E + n \<Longrightarrow> 8 dvd a \<Longrightarrow> h' a \<noteq> None"
    and ends: "sentinel h' B" "sentinel h' (E + n - 8)" and new: "h' (E - 8) = Some (of_nat (n - 16))" "h' (E + (n - 16)) = Some (of_nat (n - 16))"
  shows "mem_rep B (E + n) {E} {} A h0 h' H (b(E := Some (n - 16, False))) L"
proof -
  let ?b = "b(E := Some (n - 16, False))"
  note l = rep_layout [OF r] and t = rep_tags [OF r]
  have out: "b E = None" using layout_block [OF l, of E] by (cases "b E"; force)
  have cell: "h' a = h a" if "b p = Some (s, f)" "p \<le> a + 8" "a \<le> p + s" for p s f a
    using that layout_block [OF l that(1)] layout_area [OF l] by (intro old) auto
  have "tag_ok (of_nat (n - 16)) (n - 16) False" using n(1) by (intro tag_plain dvd_diff_nat) auto
  then have "tagged h' (E - 8) (n - 16) True False" "tagged h' (E + (n - 16)) (n - 16) True False" using new by (auto simp: tagged_def)
  moreover have "tagged h' (p - 8) s False f \<and> tagged h' (p + s) s False f" if p: "b p = Some (s, f)" for p s f
    using tags_block [OF t p] cell [OF p, of "p - 8"] cell [OF p, of "p + s"] layout_block [OF l p] by (simp add: tagged_def)
  ultimately have "tags B (E + n) {E} ?b h'" using mapped ends out unfolding tags_def by (auto elim: tagged_mono)
  moreover have "lists_ok {} ?b h' H L"
  proof -
    have "dll h' (L i) = dll h (L i)" if i: "i \<le> 8" for i
    proof (rule dll_cong)
      fix a
      assume "a \<in> cells (L i)"
      then obtain x where x: "x \<in> set (L i)" "a = x \<or> a = x + 8" by (auto simp: cells_def)
      obtain s where s: "b x = Some (s, True)" using lists_linkable(2) [OF r i x(1)] by blast
      show "h' a = h a" using x(2) block_bounds(2) [OF l s] by (intro cell [OF s]) auto
    qed
    then have "lists_ok {} b h' H L" using rep_lists [OF r] unfolding lists_ok_def by blast
    then show ?thesis by (rule lists_blocks) (use out in auto)
  qed
  moreover have "kept B (E + n) {E} A h0 ?b h'" unfolding kept_def
  proof
    fix a
    assume a: "a \<in> A"
    then have "h a = h0 a" "safe B E {} b a" using rep_kept [OF r] by (auto simp: kept_def)
    then consider "a < B \<or> E \<le> a" | p s where "b p = Some (s, False)" "p \<le> a" "a < p + s" by (auto simp: safe_def)
    then show "h' a = h0 a \<and> safe B (E + n) {E} ?b a"
    proof cases
      case 1
      then show ?thesis using disjoint_iff [THEN iffD1, OF A, rule_format, OF a] \<open>h a = h0 a\<close> apart [of a] by (auto simp: safe_def not_le)
    next
      case 2
      moreover have "p \<noteq> E" using 2(1) out by auto
      moreover have "h' a = h a" using 2 by (intro cell [OF 2(1)]) auto
      ultimately have "?b p = Some (s, False)" "p \<notin> {E}" "h' a = h0 a" using \<open>h a = h0 a\<close> by auto
      then show ?thesis unfolding safe_def using 2(2,3) by blast
    qed
  qed
  ultimately show ?thesis using layout_extend [OF l n] by (simp add: mem_rep_def)
qed

lemma reinit_rep:
  assumes r: "rep B E {} {} A h0 st b L" and n: "16 dvd n" "32 \<le> n" "E + n < 2 ^ 64"
    and A: "A \<inter> {E..<E + n} = {}" and old: "\<And>a. a < E \<or> E + n \<le> a \<Longrightarrow> h1 a = hmem st a" and mapped: "\<And>a. E \<le> a \<Longrightarrow> a < E + n \<Longrightarrow> 8 dvd a \<Longrightarrow> h1 a \<noteq> None"
  obtains h2 where "allocarea_reinit (pool_ptr st) (pool_size st) (pool_size st + of_nat n) h1 = Some (of_nat E, h2)"
    "rep B (E + n) {E} {} A h0 (st\<lparr>hmem := h2, pool_size := pool_size st + of_nat n\<rparr>) (b(E := Some (n - 16, False))) L"
proof -
  note l = repl [OF r] and t = rept [OF r] and m = rep_mem [OF r]
  note k = layout_area [OF l]
  let ?N = "E + n - B"
  obtain q u g where q: "b q = Some (u, g)" "q + u + 16 = E" using layout_last [OF l] by blast
  have d8: "8 dvd B" "8 dvd E" "8 dvd n" using k(3) q n(1) layout_block [OF l q(1)] by (auto elim!: dvdE)
  have all: "h1 a \<noteq> None" if "B \<le> a" "a < E + n" "8 dvd a" for a
    using that old [of a] mapped [of a] tags_mapped [OF t, of a] by (cases "a < E") auto
  obtain w where w: "h1 B = Some w" using all [of B] k d8 by auto
  define datum where "datum = (w AND NOT FLAG_BITS) OR AREA_FLAG OR (if of_nat ?N = (2 * 1024 * 1024 :: u64) then SIZE_FLAG else 0)"
  have area: "datum AND AREA_FLAG \<noteq> 0" unfolding flag_nonzero datum_def by (simp add: bit_simps bit_flags)
  have size: "pool_size st + of_nat n = of_nat ?N" "pool_size st = of_nat (E - B)" "pool_ptr st = of_nat B"
    using rep_pool [OF r] k by (simp_all add: of_nat_diff)
  have b: "?N < 2 ^ 64" "E - B < 2 ^ 64" using n(3) k by simp_all
  have ne: "of_nat ?N \<noteq> (of_nat (E - B) :: u64)" "\<not> of_nat ?N < (of_nat (E - B) :: u64)"
    using of_nat_inject_u64 [OF b] of_nat_le_u64 [OF b(2,1)] n(2) k by (auto simp: not_less)
  have len: "of_nat B + 8 * (of_nat ?N div 8 - 1) = (of_nat (E + n - 8) :: u64)"
  proof -
    obtain c where c: "?N = 8 * c" using d8 by (metis dvdE dvd_add dvd_diff_nat)
    have "unat (of_nat ?N :: u64) = ?N" by (rule unat_at [OF b(1)])
    then have "unat (of_nat ?N div 8 :: u64) = c" unfolding unat_div_distrib using c by simp
    then have "of_nat ?N div 8 = (of_nat c :: u64)" by (metis of_nat_unat ucast_id)
    moreover have "8 * (of_nat c - 1) = (of_nat (8 * c) - 8 :: u64)" by (simp add: algebra_simps)
    moreover have "E + n - 8 = B + 8 * c - 8" "8 \<le> B + 8 * c" using c k n by linarith+
    then have "of_nat (E + n - 8) = (of_nat B + of_nat (8 * c) - 8 :: u64)" by (simp add: of_nat_diff)
    ultimately show ?thesis by (simp add: algebra_simps)
  qed
  let ?h = "h1(E + n - 8 := Some datum, B := Some datum)"
  let ?h2 = "?h(E - 8 := Some (of_nat (n - 16)), E + (n - 16) := Some (of_nat (n - 16)))"
  have blk: "of_nat B + of_nat (E - B) = (of_nat E :: u64)" "of_nat ?N - of_nat (E - B) - 2 * 8 = (of_nat (n - 16) :: u64)"
    using k n by (simp_all add: of_nat_diff)
  have "blk_setsize (of_nat E) (of_nat (n - 16)) ?h = Some ?h2"
    by (rule blk_setsize_at) (use all [of "E - 8"] all [of "E + (n - 16)"] k n d8 in auto)
  moreover have "h1 (E + n - 8) \<noteq> None" by (rule all) (use k n d8 in \<open>auto intro: dvd_diff_nat\<close>)
  then have "store (of_nat (E + n - 8)) datum h1 = Some (h1(E + n - 8 := Some datum))" by (subst store_at) (use n in auto)
  moreover have "store (of_nat B) datum (h1(E + n - 8 := Some datum)) = Some ?h" "load (of_nat B) h1 = Some w"
    using w k n by (auto simp: store_def load_def)
  ultimately have "allocarea_reinit (pool_ptr st) (pool_size st) (pool_size st + of_nat n) h1 = Some (of_nat E, ?h2)"
    unfolding allocarea_reinit_def Let_def size(2,3) unfolding size(1) [unfolded size(2)] len blk
    using ne by (simp add: datum_def)
  moreover have "mem_rep B (E + n) {E} {} A h0 ?h2 (heads st) (b(E := Some (n - 16, False))) L"
  proof (rule extend_mem [OF m n A])
    show "\<And>a. a < B \<or> E + n \<le> a \<Longrightarrow> ?h2 a = hmem st a" using old n k by auto
    show "?h2 a = hmem st a" if "B < a" "a < E - 8" for a
    proof -
      have "a < E" using that(2) by simp
      then show ?thesis using that old [of a] n k by auto
    qed
    show "\<And>a. B \<le> a \<Longrightarrow> a < E + n \<Longrightarrow> 8 dvd a \<Longrightarrow> ?h2 a \<noteq> None" using all by auto
    show "sentinel ?h2 B" "sentinel ?h2 (E + n - 8)" using area n k by (auto simp: sentinel_def)
    show "?h2 (E - 8) = Some (of_nat (n - 16))" "?h2 (E + (n - 16)) = Some (of_nat (n - 16))" using n k by auto
  qed
  ultimately show ?thesis using that r size by (simp add: rep_def)
qed

section \<open>Sources of memory\<close>

text \<open>
  The documented duty of \<open>cb_reqmem\<close>, for whole pages at a page boundary: it maps the memory it is asked for at the address it is
  given and leaves all other memory alone.
\<close>

locale memory_source =
  fixes req :: "u64 \<Rightarrow> u64 \<Rightarrow> hmem \<Rightarrow> u64 \<times> hmem"
  assumes granted: "a \<noteq> 0 \<Longrightarrow> fst (req a n h) = a"
    and outside: "a \<noteq> 0 \<Longrightarrow> 4096 dvd unat a \<Longrightarrow> 4096 dvd unat n \<Longrightarrow> x < unat a \<or> unat a + unat n \<le> x \<Longrightarrow> snd (req a n h) x = h x"
    and inside: "a \<noteq> 0 \<Longrightarrow> 4096 dvd unat a \<Longrightarrow> 4096 dvd unat n \<Longrightarrow> unat a \<le> x \<Longrightarrow> x < unat a + unat n \<Longrightarrow> 8 dvd x \<Longrightarrow> snd (req a n h) x \<noteq> None"
begin

lemma reqmem_rep:
  assumes r: "rep B E {} {} A h0 st b L" and cb: "cb_reqmem st = Some req" and s: "0 < s" "E + up16k s < 2 ^ 64"
    and pg: "4096 dvd E" and A: "A \<inter> {E..<E + up16k s} = {}"
  obtains p k b' st' L' where "mpool_reqmem (of_nat s) st = Some (True, st')" "cb_reqmem st' = Some req" "alloced_size st' = alloced_size st"
    "rep B (E + up16k s) {} {p} A h0 st' b' L'" "b' p = Some (k, True)" "live {} b' = live {} b" "L' 8 \<noteq> []" "hd (L' 8) = p" "up16k s - 16 \<le> k"
    "if \<exists>q t. b q = Some (t, True) \<and> q + t + 16 = E then up16k s \<le> k else k = up16k s - 16" "\<forall>q t. b' q = Some (t, True) \<longrightarrow> q = p \<or> b q = Some (t, True)"
proof -
  let ?n = "up16k s"
  note u = up16k [of s] and k = layout_area [OF repl [OF r]]
  have n: "16 dvd ?n" "32 \<le> ?n" using u(2,3) s(1) by (auto elim!: dvdE)
  obtain c where c: "?n = 16384 * c" using u(2) by blast
  have "16384 * c < 16384 * 2 ^ 50" using c s(2) by simp
  then have "c + 1 \<le> 2 ^ 50" by simp
  then have "16384 * c + 16384 \<le> 2 ^ 64" by simp
  then have "s + 16383 < 2 ^ 64" using c u(1) by simp
  then have pad: "PADDING_16k (of_nat s) = of_nat ?n" by (rule PADDING_16k_nat)
  have E: "pool_ptr st + pool_size st = of_nat E" "(of_nat E :: u64) \<noteq> 0" "unat (of_nat E :: u64) = E" "unat (of_nat ?n :: u64) = ?n"
    using rep_pool [OF r] k s(2) of_nat_inject_u64 [of E 0] by (auto simp: of_nat_diff)
  have pages: "4096 dvd unat (of_nat E :: u64)" "4096 dvd unat (of_nat ?n :: u64)" unfolding E(3,4) using pg u(2) by (auto elim: dvd_trans [rotated])
  obtain a1 h1 where q: "req (of_nat E) (of_nat ?n) (hmem st) = (a1, h1)" by fastforce
  have a1: "a1 = of_nat E" using granted [OF E(2), of "of_nat ?n" "hmem st"] q by simp
  obtain h2 where h2: "allocarea_reinit (pool_ptr st) (pool_size st) (pool_size st + of_nat ?n) h1 = Some (of_nat E, h2)"
    "rep B (E + ?n) {E} {} A h0 (st\<lparr>hmem := h2, pool_size := pool_size st + of_nat ?n\<rparr>) (b(E := Some (?n - 16, False))) L"
  proof (rule reinit_rep [OF r n s(2) A])
    show "h1 a = hmem st a" if "a < E \<or> E + ?n \<le> a" for a using outside [OF E(2) pages, of a "hmem st"] that q E(3,4) by simp
    show "h1 a \<noteq> None" if "E \<le> a" "a < E + ?n" "8 dvd a" for a using inside [OF E(2) pages, of a "hmem st"] that q E(3,4) by simp
  qed
  let ?st = "st\<lparr>hmem := h2, pool_size := pool_size st + of_nat ?n\<rparr>" and ?b = "b(E := Some (?n - 16, False))"
  have out: "b E = None" using layout_block [OF repl [OF r], of E] by (cases "b E"; force)
  have bE: "?b E = Some (?n - 16, False)" by simp
  obtain p k' b1 st1 L1 where m: "blk_trymerge (of_nat E) detach ?st = Some (of_nat p, st1)" "pool_kept ?st st1" "rep B (E + ?n) {p} {} A h0 st1 b1 L1"
    "b1 p = Some (k', False)" "live {p} b1 = live {E} ?b" "p \<le> E" "E + (?n - 16) \<le> p + k'"
    "p + k' = E + (?n - 16) \<or> (\<exists>t. ?b (E + (?n - 16) + 16) = Some (t, True))" "(p = E) = (\<not> (\<exists>q t. ?b q = Some (t, True) \<and> q + t + 16 = E))"
    "\<forall>q t. b1 q = Some (t, True) \<longrightarrow> ?b q = Some (t, True)"
    by (rule trymerge_rep [OF h2(2) bE]) blast
  obtain st2 where f: "on_mem (blk_setfreed (of_nat p) (of_nat k')) st1 = Some st2" "pool_kept st1 st2" "rep B (E + ?n) {p} {} A h0 st2 b1 L1"
    "tagged (hmem st2) (p - 8) k' False True" "tagged (hmem st2) (p + k') k' False True"
    using setfreed_rep [OF m(3,4)] by blast
  have Y: "home {p} p k' = 8" "\<And>q t. b1 q = Some (t, True) \<Longrightarrow> home {p} q t = home {} q t" using m(4) by (auto simp: home_def)
  obtain st3 where g: "put_large (of_nat p) st2 = Some st3" "pool_kept st2 st3"
    "rep B (E + ?n) ({p} - {p}) {p} A h0 st3 (b1(p := Some (k', True))) (L1(8 := p # L1 8))"
    using put_large_rep [OF f(3) m(4) _ f(4,5) Y] by blast
  have "mpool_reqmem (of_nat s) st = Some (True, st3)"
    using cb pad q a1 E(1,2) h2(1) m(1) f(1) g(1) rep_size [OF m(3,3,4)] by (simp add: mpool_reqmem_def)
  moreover have "live {} (b1(p := Some (k', True))) = live {} b"
    using m(5) live_None(1) [where b = b and p = E and X = "{}"] out by (auto simp: live_upd live_loose fun_eq_iff split: if_splits)
  moreover have "cb_reqmem st3 = Some req" "alloced_size st3 = alloced_size st" using cb m(2) f(2) g(2) by (simp_all add: pool_kept_def)
  moreover have "if \<exists>q t. b q = Some (t, True) \<and> q + t + 16 = E then ?n \<le> k' else k' = ?n - 16"
  proof -
    have "E + (?n - 16) + 16 = E + ?n" using n(2) by simp
    moreover have "b (E + ?n) = None" using layout_block [OF repl [OF r], of "E + ?n"] by (cases "b (E + ?n)"; force)
    ultimately have pk: "p + k' = E + (?n - 16)" using m(8) n(2) by auto
    have same: "(\<exists>q t. ?b q = Some (t, True) \<and> q + t + 16 = E) = (\<exists>q t. b q = Some (t, True) \<and> q + t + 16 = E)" using out by (metis fun_upd_apply option.distinct(1) option.inject prod.inject)
    show ?thesis
    proof (cases "p = E")
      case False
      then have "p < E" "16 dvd p" "16 dvd E" using m(6) block_bounds(9) [OF repl [OF m(3)] m(4)] block_bounds(9) [OF repl [OF h2(2)] bE] by auto
      then have "p + 16 \<le> E" by presburger
      then have "?n \<le> k'" using pk n(2) by linarith
      then show ?thesis using False m(9) same by auto
    qed (use m(9) same pk in auto)
  qed
  moreover have "\<forall>q t. (b1(p := Some (k', True))) q = Some (t, True) \<longrightarrow> q = p \<or> b q = Some (t, True)"
    using m(10) by (auto split: if_splits)
  ultimately show ?thesis using that [of st3 p "b1(p := Some (k', True))" "L1(8 := p # L1 8)" k'] g(3) m(6,7) by simp
qed

end

end
