(* ===== verification/Heap_Alloc.thy ===== *)
theory Heap_Alloc
  imports Heap_Grow
begin

text \<open>
  \<open>mpool_alloc\<close> on the live blocks and their contents, over any source of memory that gives what it is
  asked for.
\<close>

lemma live_found: "b p = Some (t, True) \<Longrightarrow> live {p} (b(p := Some (t, False))) = live {} b" "b p = Some (t, True) \<Longrightarrow> live {} b p = None"
  by (auto simp: live_def fun_eq_iff split: option.splits prod.splits bool.splits)

context memory_source
begin

lemma alloc_rep:
  assumes r: "rep B E {} {} A h0 st b L" and cb: "cb_reqmem st = Some req" and s: "unat s + 15 < 2 ^ 64"
    and n: "n = up16 (unat s)" "E + up16k n < 2 ^ 64" and pg: "4096 dvd E" and A: "A \<inter> {E..<E + up16k n} = {}"
    and room: "\<not> 16384 dvd n \<or> (\<exists>p t. b p = Some (t, True) \<and> (n \<le> t \<or> p + t + 16 = E))"
  obtains p k E' st' b' L' where "mpool_alloc s st = Some (of_nat p, st')" "rep B E' {} {} A h0 st' b' L'"
    "live {} b' = (live {} b)(p := Some k)" "live {} b p = None" "n \<le> k" "k < n + 64" "b' p = Some (k, False)"
    "E' = E \<or> E' = E + up16k n" "cb_reqmem st' = Some req" "alloced_size st' = alloced_size st + of_nat k"
    "E' = E \<or> (\<forall>q t. b q = Some (t, True) \<longrightarrow> t < n)"
proof -
  note u = up16 [of "unat s", folded n(1)] and pad = padded_nat [OF s, folded n(1)]
  have n64: "n < 2 ^ 64" using up16k(1) [of n] n(2) by simp
  from match_block_rep [OF r n64] show ?thesis
  proof
    assume "\<exists>p t st' L'. match_block (of_nat n) st = Some (of_nat p, st') \<and> pool_kept st st' \<and> b p = Some (t, True) \<and> n \<le> t \<and>
      rep B E (insert p {}) {} A h0 st' (b(p := Some (t, False))) L'"
    then obtain p t st1 L1 where m: "match_block (of_nat n) st = Some (of_nat p, st1)" "pool_kept st st1" "b p = Some (t, True)" "n \<le> t"
      "rep B E {p} {} A h0 st1 (b(p := Some (t, False))) L1" by blast
    have bp: "(b(p := Some (t, False))) p = Some (t, False)" by simp
    have nz: "(of_nat p :: u64) \<noteq> 0" using tags_writable(3) [OF repl [OF r] rept [OF r] m(3)] of_nat_linkable by blast
    obtain k st' b' L' where t: "take_block (of_nat p) (of_nat n) st1 = Some (of_nat p, st')" "rep B E {} {} A h0 st' b' L'"
      "live {} b' = (live {p} (b(p := Some (t, False))))(p := Some k)" "n \<le> k" "k < n + 64" "b' p = Some (k, False)"
      "cb_reqmem st' = cb_reqmem st1" "alloced_size st' = alloced_size st1 + of_nat k"
      by (rule take_block_rep [OF m(5) bp u(3,2) m(4)]) blast+
    have "mpool_alloc s st = Some (of_nat p, st')" using m(1) nz t(1) by (simp add: mpool_alloc_def pad)
    then show ?thesis using that t(2-) live_found [of b p t, OF m(3)] m(2) cb by (simp add: pool_kept_def)
  next
    assume none: "match_block (of_nat n) st = Some (0, st) \<and> (\<forall>p t. b p = Some (t, True) \<longrightarrow> t < n)"
    have "0 < n" using u(2) by simp
    then obtain p k b1 st1 L1 where g: "mpool_reqmem (of_nat n) st = Some (True, st1)" "cb_reqmem st1 = Some req" "alloced_size st1 = alloced_size st"
      "rep B (E + up16k n) {} {p} A h0 st1 b1 L1" "b1 p = Some (k, True)" "live {} b1 = live {} b" "L1 8 \<noteq> []" "hd (L1 8) = p" "up16k n - 16 \<le> k"
      "if \<exists>q t. b q = Some (t, True) \<and> q + t + 16 = E then up16k n \<le> k else k = up16k n - 16"
      by (rule reqmem_rep [OF r cb _ n(2) pg A]) blast
    have nk: "n \<le> k"
    proof (cases "\<exists>q t. b q = Some (t, True) \<and> q + t + 16 = E")
      case True
      then show ?thesis using g(10) up16k(1) [of n] by (simp add: if_P)
    next
      case False
      then have "\<not> 16384 dvd n" using room none by (metis not_le)
      then show ?thesis using up16k_room [OF u(3)] g(9) by auto
    qed
    then have hd: "hd (dropWhile (\<lambda>x. \<not> n \<le> size_of b1 x) (L1 8)) = p" using g(5,7,8) by (cases "L1 8") (auto simp: size_of_def)
    have "p \<in> set (L1 8)" "size_of b1 p = k" using g(5,7,8) by (cases "L1 8"; auto simp: size_of_def)+
    then obtain st2 L2 where m: "match_large (of_nat n) st1 = Some (of_nat p, st2)" "pool_kept st1 st2"
      "rep B (E + up16k n) {p} {p} A h0 st2 (b1(p := Some (k, False))) L2"
      using match_large_rep [OF g(4) n64] nk hd g(5) by fastforce
    have bp: "(b1(p := Some (k, False))) p = Some (k, False)" by simp
    obtain k' st' b' L' where t: "take_block (of_nat p) (of_nat n) st2 = Some (of_nat p, st')" "rep B (E + up16k n) {} {} A h0 st' b' L'"
      "live {} b' = (live {p} (b1(p := Some (k, False))))(p := Some k')" "n \<le> k'" "k' < n + 64" "b' p = Some (k', False)"
      "cb_reqmem st' = cb_reqmem st2" "alloced_size st' = alloced_size st2 + of_nat k'"
      by (rule take_block_rep [OF m(3) bp u(3,2) nk]) blast+
    have "mpool_alloc s st = Some (of_nat p, st')" using none g(1) m(1) t(1) by (simp add: mpool_alloc_def pad)
    then show ?thesis using that t(2-) live_found [of b1 p k, OF g(5)] m(2) g(2,3,6) none by (simp add: pool_kept_def)
  qed
qed

lemma alloc_fault:
  assumes r: "rep B E {} {} A h0 st b L" and cb: "cb_reqmem st = Some req" and s: "unat s + 15 < 2 ^ 64"
    and n: "n = up16 (unat s)" "E + up16k n < 2 ^ 64" and pg: "4096 dvd E" and A: "A \<inter> {E..<E + up16k n} = {}"
    and room: "16384 dvd n" "\<And>p t. b p = Some (t, True) \<Longrightarrow> t < n \<and> p + t + 16 \<noteq> E"
    and null: "2 ^ 64 - 8 \<in> A" "h0 (2 ^ 64 - 8) = None"
  shows "mpool_alloc s st = None"
proof -
  note u = up16 [of "unat s", folded n(1)] and pad = padded_nat [OF s, folded n(1)]
  have n64: "n < 2 ^ 64" "0 < n" using up16k(1) [of n] n(2) u(2) by simp_all
  have none: "match_block (of_nat n) st = Some (0, st)" using match_block_rep [OF r n64(1)] room(2) by (meson not_le)
  obtain p k b1 st1 L1 where g: "mpool_reqmem (of_nat n) st = Some (True, st1)" "rep B (E + up16k n) {} {p} A h0 st1 b1 L1" "b1 p = Some (k, True)"
    "if \<exists>q t. b q = Some (t, True) \<and> q + t + 16 = E then up16k n \<le> k else k = up16k n - 16"
    "\<forall>q t. b1 q = Some (t, True) \<longrightarrow> q = p \<or> b q = Some (t, True)"
    by (rule reqmem_rep [OF r cb n64(2) n(2) pg A]) blast
  have "up16k n = n" using room(1) by (auto simp: up16k_def)
  then have "k < n" using g(4) room(2) n64(2) u(2) by (auto split: if_splits)
  then have "size_of b1 q < n" if "q \<in> set (L1 8)" for q
    using lists_linkable(2) [OF rep_mem [OF g(2)] _ that] g(3,5) room(2) by (fastforce simp: size_of_def)
  then have "match_large (of_nat n) st1 = Some (0, st1)" using match_large_rep [OF g(2) n64(1)] room(2) g(3,5) \<open>k < n\<close> by fastforce
  moreover have "hmem st1 (2 ^ 64 - 8) = None" using rep_kept [OF rep_mem [OF g(2)]] null by (auto simp: kept_def)
  then have "blk_size 0 (hmem st1) = None" by (simp add: blk_size_def blk_head_def load_def)
  ultimately show ?thesis using none g(1) by (simp add: mpool_alloc_def pad take_block_def try_split_and_free_def)
qed

end

end
