(* ===== verification/Heap_Realloc.thy ===== *)
theory Heap_Realloc
  imports Heap_Alloc
begin

text \<open>\<open>mpool_realloc\<close>: a block is resized in place, merged with its free successor, or moved.\<close>

lemma rep_rebase:
  assumes "rep B E X Y A h0 st b L" "\<And>a. a \<in> A' \<Longrightarrow> safe B E X b a"
  shows "rep B E X Y A' (hmem st) st b L"
  using assms by (simp add: rep_def mem_rep_def kept_def)

lemma rep_same: "rep B E X Y A h0 st b L \<Longrightarrow> a \<in> A \<Longrightarrow> hmem st a = h0 a"
  using rep_kept [OF rep_mem] by (auto simp: kept_def)

section \<open>In place\<close>

lemma split_live:
  assumes r: "rep B E {} {} A h0 st b L" and p: "b p = Some (s, False)" and n: "16 dvd n" "16 \<le> n" "n \<le> s" and A: "A \<inter> {p + n..<p + s} = {}"
  obtains f k st' b' L' where "try_split_and_free (of_nat p) (of_nat n) st = Some (f, st')" "pool_kept st st'" "rep B E {} {} A h0 st' b' L'"
    "live {} b' = (live {} b)(p := Some k)" "n \<le> k" "k < n + 64"
proof -
  obtain f st1 L1 where s1: "try_split_and_free (of_nat p) (of_nat n) st = Some (f, st1)" "pool_kept st st1" "rep B E {} {} A h0 st1 (split_blocks p n s b) L1"
    using try_split_rep [OF r p n] A by blast
  obtain k where "n \<le> k" "k < n + 64" "live {} (split_blocks p n s b) = (live {} b)(p := Some k)"
    using split_blocks_at [OF repl [OF r] p n(3), of "{}"] by auto
  then show ?thesis using that s1 by blast
qed

text \<open>No kept address is in a free block or in a tag.\<close>

lemma kept_not_next:
  assumes r: "rep B E {} {} A h0 st b L" and p: "b p = Some (s, False)" and q: "b (p + s + 16) = Some (t, True)"
  shows "A \<inter> {p + s..<p + s + 16 + t + 16} = {}"
proof (rule ccontr)
  assume "A \<inter> {p + s..<p + s + 16 + t + 16} \<noteq> {}"
  then obtain a where a: "a \<in> A" "p + s \<le> a" "a < p + s + 16 + t + 16" by auto
  note l = repl [OF r]
  have "safe B E {} b a" using rep_kept [OF rep_mem [OF r]] a(1) by (auto simp: kept_def)
  then consider "a < B \<or> E \<le> a" | x m where "b x = Some (m, False)" "x \<le> a" "a < x + m" by (auto simp: safe_def)
  then show False
  proof cases
    case 1
    then show ?thesis using a block_bounds [OF l p] block_bounds [OF l q] by auto
  next
    case 2
    have "x \<noteq> p" "x \<noteq> p + s + 16" using 2 p q a(2) by auto
    then show ?thesis using layout_apart [OF l 2(1) p] layout_apart [OF l 2(1) q] 2 a by auto
  qed
qed

lemma resize_rep:
  assumes r: "rep B E {} {} A h0 st b L" and p: "b p = Some (s, False)" and n: "16 dvd n" "16 \<le> n" "n < 2 ^ 64"
    and A: "A \<inter> {p + n..<p + s} = {}"
  shows "(\<exists>k st' b' L'. resize_in_place (of_nat p) (of_nat s) (of_nat n) st = Some (Some (of_nat p, st')) \<and> pool_kept st st' \<and>
      rep B E {} {} A h0 st' b' L' \<and> live {} b' = (live {} b)(p := Some k) \<and> n \<le> k) \<or>
    resize_in_place (of_nat p) (of_nat s) (of_nat n) st = Some None \<and> s < n"
proof -
  note l = repl [OF r] and t = rept [OF r]
  note k = block_bounds [OF l p]
  have le: "(of_nat n \<le> (of_nat s :: u64)) = (n \<le> s)" by (rule of_nat_le_u64 [OF n(3) k(6)])
  show ?thesis
  proof (cases "n \<le> s")
    case True
    obtain f k st' b' L' where "try_split_and_free (of_nat p) (of_nat n) st = Some (f, st')" "pool_kept st st'" "rep B E {} {} A h0 st' b' L'"
      "live {} b' = (live {} b)(p := Some k)" "n \<le> k" by (rule split_live [OF r p n(1,2) True A]) blast
    then show ?thesis using le True by (auto simp: resize_in_place_def)
  next
    case False
    have nx: "blk_next (of_nat p) (hmem st) = Some (if p + s + 16 = E then 0 else of_nat (p + s + 16))"
      using next_is_free_at(2) [OF l t p] rep_size [OF r r p] by (simp add: blk_next_def)
    show ?thesis
    proof (cases "\<exists>t. b (p + s + 16) = Some (t, True) \<and> n \<le> s + 16 + t")
      case True
      then obtain u where q: "b (p + s + 16) = Some (u, True)" "n \<le> s + 16 + u" by blast
      note kq = block_bounds [OF l q(1)]
      have ne: "p + s + 16 \<noteq> E" using kq by auto
      have nz: "(of_nat (p + s + 16) :: u64) \<noteq> 0" using tags_writable(3) [OF l t q(1)] of_nat_linkable by blast
      have fr: "blk_freed (of_nat (p + s + 16)) (hmem st) = Some True" using blk_flag_at [OF l t q(1)] by (auto simp: blk_freed_def)
      have tot: "(of_nat n \<le> (of_nat s + 16 + of_nat u :: u64))" using of_nat_le_u64 [of n "s + 16 + u"] q(2) n(3) k kq by simp
      let ?b = "b(p + s + 16 := None, p := Some (s + u + 16, False))"
      obtain st1 L1 where m: "blk_mergenext (of_nat p) detach st = Some (of_nat p, st1)" "pool_kept st st1" "rep B E {} {} A h0 st1 ?b L1"
        using mergenext_rep [OF r p q(1)] by auto
      have bp: "?b p = Some (s + u + 16, False)" by simp
      have A': "A \<inter> {p + n..<p + (s + u + 16)} = {}" using kept_not_next [OF r p q(1)] False by fastforce
      have nu: "n \<le> s + u + 16" using q(2) by simp
      obtain f k st' b' L' where v: "try_split_and_free (of_nat p) (of_nat n) st1 = Some (f, st')" "pool_kept st1 st'" "rep B E {} {} A h0 st' b' L'"
        "live {} b' = (live {} ?b)(p := Some k)" "n \<le> k" by (rule split_live [OF m(3) bp n(1,2) nu A']) blast
      have "live {} b' = (live {} b)(p := Some k)" using v(4) q(1) by (auto simp: live_upd live_None fun_eq_iff)
      moreover have "resize_in_place (of_nat p) (of_nat s) (of_nat n) st = Some (Some (of_nat p, st'))"
        using False le nx ne nz fr tot m(1) v(1) rep_size [OF r r q(1)] by (simp add: resize_in_place_def)
      ultimately show ?thesis using v(3,5) pool_kept_trans [OF m(2) v(2)] by blast
    next
      case no: False
      have "resize_in_place (of_nat p) (of_nat s) (of_nat n) st = Some None"
      proof (cases "p + s + 16 = E")
        case True
        then show ?thesis using False le nx by (simp add: resize_in_place_def)
      next
        case ne: False
        then obtain u g where q: "b (p + s + 16) = Some (u, g)" using layout_next [OF l p] by blast
        note kq = block_bounds [OF l q]
        have fr: "blk_freed (of_nat (p + s + 16)) (hmem st) = Some g" using blk_flag_at [OF l t q] by (auto simp: blk_freed_def)
        have nz: "(of_nat (p + s + 16) :: u64) \<noteq> 0" using tags_writable(3) [OF l t q] of_nat_linkable by blast
        have "g \<Longrightarrow> \<not> of_nat n \<le> (of_nat s + 16 + of_nat u :: u64)" using of_nat_le_u64 [of n "s + 16 + u"] no q n(3) k kq by simp
        then show ?thesis using False le nx ne nz fr rep_size [OF r r q] by (auto simp: resize_in_place_def)
      qed
      then show ?thesis using False by simp
    qed
  qed
qed

section \<open>Moving\<close>

lemma copy_words_at:
  assumes "\<And>j. j < i \<Longrightarrow> h (P + 8 * j) \<noteq> None \<and> h (D + 8 * j) \<noteq> None" "D + 8 * i \<le> P \<or> P + 8 * i \<le> D" "D + 8 * i < 2 ^ 64" "P + 8 * i < 2 ^ 64"
  obtains h' where "copy_words i (of_nat D) (of_nat P) h = Some h'" "\<And>j. j < i \<Longrightarrow> h' (D + 8 * j) = h (P + 8 * j)"
    "\<And>a. a < D \<or> D + 8 * i \<le> a \<Longrightarrow> h' a = h a" "\<And>a. (h' a = None) = (h a = None)"
  using assms
proof (induction i arbitrary: D P h thesis)
  case 0
  show ?case by (rule 0(1) [of h]) simp_all
next
  case (Suc i)
  obtain w where w: "h P = Some w" using Suc.prems(2) [of 0] by auto
  have d: "h D \<noteq> None" using Suc.prems(2) [of 0] by auto
  let ?h = "h(D := Some w)"
  have "\<And>j. j < i \<Longrightarrow> ?h (P + 8 + 8 * j) \<noteq> None \<and> ?h (D + 8 + 8 * j) \<noteq> None"
  proof -
    fix j
    assume "j < i"
    then show "?h (P + 8 + 8 * j) \<noteq> None \<and> ?h (D + 8 + 8 * j) \<noteq> None" using Suc.prems(2) [of "Suc j"] by (simp add: add.assoc)
  qed
  moreover have "D + 8 + 8 * i \<le> P + 8 \<or> P + 8 + 8 * i \<le> D + 8" "D + 8 + 8 * i < 2 ^ 64" "P + 8 + 8 * i < 2 ^ 64" using Suc.prems(3-5) by auto
  ultimately obtain h' where h': "copy_words i (of_nat (D + 8)) (of_nat (P + 8)) ?h = Some h'" "\<And>j. j < i \<Longrightarrow> h' (D + 8 + 8 * j) = ?h (P + 8 + 8 * j)"
    "\<And>a. a < D + 8 \<or> D + 8 + 8 * i \<le> a \<Longrightarrow> h' a = ?h a" "\<And>a. (h' a = None) = (?h a = None)"
    using Suc.IH [where D = "D + 8" and P = "P + 8" and h = ?h] by blast
  show ?case
  proof (rule Suc.prems(1) [of h'])
    show "copy_words (Suc i) (of_nat D) (of_nat P) h = Some h'" using w d h'(1) Suc.prems(4,5) by (simp add: load_def store_def)
    show "h' (D + 8 * j) = h (P + 8 * j)" if "j < Suc i" for j
    proof (cases j)
      case 0
      then show ?thesis using h'(3) [of D] w by simp
    next
      case j: (Suc m)
      have "P + 8 + 8 * m \<noteq> D" using Suc.prems(3) that j by auto
      then show ?thesis using h'(2) [of m] that j by (simp add: add.assoc)
    qed
    show "h' a = h a" if "a < D \<or> D + 8 * Suc i \<le> a" for a using h'(3) [of a] that by auto
    show "(h' a = None) = (h a = None)" for a using h'(4) [of a] d by auto
  qed
qed

lemma rep_data:
  assumes r: "rep B E {} {} A h0 st b L" and d: "b d = Some (k, False)" and A: "A \<inter> {d..<d + k} = {}"
    and h': "\<And>a. a < d \<or> d + k \<le> a \<Longrightarrow> h' a = hmem st a" "\<And>a. (h' a = None) = (hmem st a = None)"
  shows "rep B E {} {} A h0 (st\<lparr>hmem := h'\<rparr>) b L"
proof -
  note l = repl [OF r] and t = rept [OF r] and m = rep_mem [OF r]
  have "h' (p - 8) = hmem st (p - 8)" "h' (p + s) = hmem st (p + s)" if "b p = Some (s, f)" for p s f
    using tags_apart(5,6) [OF l that d] by (auto intro: h'(1))
  moreover have "h' B = hmem st B" "h' (E - 8) = hmem st (E - 8)" using block_bounds [OF l d] by (auto intro!: h'(1))
  ultimately have "tags B E {} b h'" using t h'(2) by (simp add: tags_def tagged_def sentinel_def)
  moreover have "lists_ok {} b h' (heads st) L"
  proof -
    have "dll h' (L i) = dll (hmem st) (L i)" if i: "i \<le> 8" for i
    proof (rule dll_cong)
      fix a
      assume "a \<in> cells (L i)"
      then obtain x where x: "x \<in> set (L i)" "a = x \<or> a = x + 8" by (auto simp: cells_def)
      obtain s where s: "b x = Some (s, True)" using lists_linkable(2) [OF m i x(1)] by blast
      have "x \<noteq> d" using s d by auto
      then show "h' a = hmem st a" using x(2) layout_apart [OF l s d] block_bounds(2) [OF l s] by (intro h'(1)) auto
    qed
    then show ?thesis using rep_lists [OF m] unfolding lists_ok_def by blast
  qed
  moreover have "kept B E {} A h0 b h'" using rep_kept [OF m] A h'(1) unfolding kept_def by (metis disjoint_iff atLeastLessThan_iff not_le)
  ultimately show ?thesis using r by (simp add: rep_def mem_rep_def)
qed

lemma rep_weaken:
  assumes "rep B E X Y A' h0' st b L" "A \<subseteq> A'" "\<And>a. a \<in> A \<Longrightarrow> h0' a = h0 a"
  shows "rep B E X Y A h0 st b L"
  using assms by (auto simp: rep_def mem_rep_def kept_def)

lemma live_block: "live X b p = Some s \<longleftrightarrow> b p = Some (s, False) \<and> p \<notin> X"
  by (auto simp: live_def split: option.splits prod.splits bool.splits if_splits)

lemma safe_data: "b p = Some (s, False) \<Longrightarrow> p \<le> a \<Longrightarrow> a < p + s \<Longrightarrow> safe B E {} b a"
  by (auto simp: safe_def)

lemma rep_safe: "rep B E X Y A h0 st b L \<Longrightarrow> a \<in> A \<Longrightarrow> safe B E X b a"
  using rep_kept [OF rep_mem] by (auto simp: kept_def)

text \<open>A block that was not there before is apart from all that is kept.\<close>

lemma new_block_apart:
  assumes r: "rep B E {} {} A h0 st b L" and r': "rep B E' {} {} A h0 st' b' L'" and n: "live {} b' = (live {} b)(q := Some k)" "live {} b q = None"
    and E: "E \<le> E'" "A \<inter> {E..<E'} = {}"
  shows "A \<inter> {q..<q + k} = {}"
proof (rule ccontr)
  assume "A \<inter> {q..<q + k} \<noteq> {}"
  then obtain a where a: "a \<in> A" "q \<le> a" "a < q + k" by auto
  have bq: "b' q = Some (k, False)" using n(1) live_block [of "{}" b' q k] by simp
  note kq = block_bounds [OF repl [OF r'] bq]
  from rep_safe [OF r a(1)] consider "a < B \<or> E \<le> a" | x m where "b x = Some (m, False)" "x \<le> a" "a < x + m" by (auto simp: safe_def)
  then show False
  proof cases
    case 1
    then show ?thesis using a kq E by (auto simp: disjoint_iff)
  next
    case 2
    then have "live {} b x = Some m" by (simp add: live_block)
    then have "x \<noteq> q" using n(2) by auto
    then have "live {} b' x = Some m" using n(1) \<open>live {} b x = Some m\<close> by simp
    then have x: "x \<noteq> q" "b' x = Some (m, False)" using \<open>x \<noteq> q\<close> by (simp_all add: live_block)
    then show ?thesis using layout_apart [OF repl [OF r'] bq x(2)] 2 a by auto
  qed
qed

text \<open>Copying a block into a new one and freeing it.\<close>

lemma move_rep:
  assumes r: "rep B E {} {} A h0 st b L" and p: "b p = Some (s, False)" and q: "b q = Some (k, False)" "q \<noteq> p" "s \<le> k"
    and A: "A \<inter> {p..<p + s} = {}" "A \<inter> {q..<q + k} = {}"
  obtains st' b' L' where "move_block (of_nat q) (of_nat p) (of_nat s) st = Some (Done (of_nat q, st'))" "rep B E {} {} A h0 st' b' L'"
    "live {} b' = (live {} b)(p := None)" "cb_reqmem st' = cb_reqmem st" "\<And>i. i < s \<Longrightarrow> 8 dvd i \<Longrightarrow> hmem st' (q + i) = hmem st (p + i)"
proof -
  note l = repl [OF r] and t = rept [OF r]
  note kp = block_bounds [OF l p] and kq = block_bounds [OF l q(1)]
  have ap: "p + s + 16 \<le> q \<or> q + k + 16 \<le> p" using layout_apart [OF l p q(1)] q(2) by auto
  have d8: "8 dvd s" "8 dvd p" "8 dvd q" using kp(9,10) kq(9) by (auto elim!: dvdE)
  then have s8: "8 * (s div 8) = s" by simp
  have mapped: "hmem st (p + 8 * j) \<noteq> None \<and> hmem st (q + 8 * j) \<noteq> None" if "j < s div 8" for j
    using tags_mapped [OF t, of "p + 8 * j"] tags_mapped [OF t, of "q + 8 * j"] that s8 kp kq q(3) d8 by auto
  obtain h' where h': "copy_words (s div 8) (of_nat q) (of_nat p) (hmem st) = Some h'" "\<And>j. j < s div 8 \<Longrightarrow> h' (q + 8 * j) = hmem st (p + 8 * j)"
    "\<And>a. a < q \<or> q + s \<le> a \<Longrightarrow> h' a = hmem st a" "\<And>a. (h' a = None) = (hmem st a = None)"
  proof (rule copy_words_at [of "s div 8" "hmem st" p q])
    show "q + 8 * (s div 8) \<le> p \<or> p + 8 * (s div 8) \<le> q" "q + 8 * (s div 8) < 2 ^ 64" "p + 8 * (s div 8) < 2 ^ 64"
      unfolding s8 using ap kp kq q(3) by auto
    show "\<And>j. j < s div 8 \<Longrightarrow> hmem st (p + 8 * j) \<noteq> None \<and> hmem st (q + 8 * j) \<noteq> None" using mapped .
  qed (use that s8 in auto)
  have r1: "rep B E {} {} A h0 (st\<lparr>hmem := h'\<rparr>) b L" by (rule rep_data [OF r q(1) A(2)]) (use h'(3,4) q(3) in auto)
  let ?A = "A \<union> {q..<q + s}"
  have r2: "rep B E {} {} ?A (hmem (st\<lparr>hmem := h'\<rparr>)) (st\<lparr>hmem := h'\<rparr>) b L"
    by (rule rep_rebase [OF r1]) (use rep_safe [OF r1] safe_data [of b q k, OF q(1)] q(3) in auto)
  obtain st' b' L' where f: "mpool_free (of_nat p) (st\<lparr>hmem := h'\<rparr>) = Some (Done st')" "rep B E {} {} ?A (hmem (st\<lparr>hmem := h'\<rparr>)) st' b' L'"
    "live {} b' = (live {} b)(p := None)" "cb_reqmem st' = cb_reqmem (st\<lparr>hmem := h'\<rparr>)"
    by (rule mpool_free_rep [OF r2 p]) (use A ap q(3) in auto)
  show ?thesis
  proof (rule that [of st' b' L'])
    show "move_block (of_nat q) (of_nat p) (of_nat s) st = Some (Done (of_nat q, st'))"
      using h'(1) f(1) kp(6) by (simp add: move_block_def on_mem_def)
    show "rep B E {} {} A h0 st' b' L'" using rep_weaken [OF f(2)] rep_same [OF r1] by auto
    show "hmem st' (q + i) = hmem st (p + i)" if i: "i < s" "8 dvd i" for i
    proof -
      obtain j where j: "i = 8 * j" using i(2) by blast
      then have "h' (q + i) = hmem st (p + i)" using h'(2) [of j] i(1) s8 by auto
      then show ?thesis using rep_same [OF f(2), of "q + i"] i(1) by simp
    qed
  qed (use f in auto)
qed

context memory_source
begin

lemma realloc_rep:
  assumes r: "rep B E {} {} A h0 st b L" and cb: "cb_reqmem st = Some req" and p: "b p = Some (s, False)" and A: "A \<inter> {p..<p + s} = {}"
    and ns: "unat ns + 15 < 2 ^ 64" and n: "n = up16 (unat ns)" "E + up16k n < 2 ^ 64" and pg: "4096 dvd E" and AE: "A \<inter> {E..<E + up16k n} = {}"
    and room: "\<not> 16384 dvd n \<or> (\<exists>p t. b p = Some (t, True) \<and> (n \<le> t \<or> p + t + 16 = E))"
  obtains p' k E' st' b' L' where "mpool_realloc (of_nat p) ns st = Some (Done (of_nat p', st'))" "rep B E' {} {} A h0 st' b' L'"
    "live {} b' = ((live {} b)(p := None))(p' := Some k)" "n \<le> k" "p' = p \<or> live {} b p' = None" "E' = E \<or> E' = E + up16k n"
    "cb_reqmem st' = Some req" "\<And>i. i < s \<Longrightarrow> i < n \<Longrightarrow> 8 dvd i \<Longrightarrow> hmem st' (p' + i) = hmem st (p + i)"
proof -
  note u = up16 [of "unat ns", folded n(1)] and pad = padded_nat [OF ns, folded n(1)]
  have n64: "n < 2 ^ 64" using up16k(1) [of n] n(2) by simp
  note kp = block_bounds [OF repl [OF r] p]
  have nz: "(of_nat p :: u64) \<noteq> 0" using tags_writable(3) [OF repl [OF r] rept [OF r] p] of_nat_linkable by blast
  let ?A = "A \<union> {p..<p + min s n}"
  have r1: "rep B E {} {} ?A (hmem st) st b L" by (rule rep_rebase [OF r]) (use rep_safe [OF r] safe_data [of b p s, OF p] in auto)
  have A1: "?A \<inter> {p + n..<p + s} = {}" using A by (auto simp: disjoint_iff)
  have AE1: "?A \<inter> {E..<E + up16k n} = {}" using AE kp by (auto simp: disjoint_iff)
  from resize_rep [OF r1 p u(3,2) n64 A1] show ?thesis
  proof
    assume "\<exists>k st' b' L'. resize_in_place (of_nat p) (of_nat s) (of_nat n) st = Some (Some (of_nat p, st')) \<and> pool_kept st st' \<and>
      rep B E {} {} ?A (hmem st) st' b' L' \<and> live {} b' = (live {} b)(p := Some k) \<and> n \<le> k"
    then obtain k st' b' L' where v: "resize_in_place (of_nat p) (of_nat s) (of_nat n) st = Some (Some (of_nat p, st'))" "pool_kept st st'"
      "rep B E {} {} ?A (hmem st) st' b' L'" "live {} b' = (live {} b)(p := Some k)" "n \<le> k" by blast
    show ?thesis
    proof (rule that [of p st' E b' L' k])
      show "mpool_realloc (of_nat p) ns st = Some (Done (of_nat p, st'))" using nz pad v(1) rep_size [OF r r p] by (simp add: mpool_realloc_def)
      show "rep B E {} {} A h0 st' b' L'" using rep_weaken [OF v(3)] rep_same [OF r] by auto
      show "hmem st' (p + i) = hmem st (p + i)" if "i < s" "i < n" for i using rep_same [OF v(3), of "p + i"] that by simp
    qed (use v cb in \<open>auto simp: pool_kept_def\<close>)
  next
    assume m: "resize_in_place (of_nat p) (of_nat s) (of_nat n) st = Some None \<and> s < n"
    have "n + 15 < 2 ^ 64" using up16k(1) [of n] n(2) layout_area(1,2) [OF repl [OF r]] by simp
    moreover have "up16 n = n" using u(2,3) by (auto simp: up16_def elim!: dvdE)
    ultimately have pn: "unat (of_nat n :: u64) + 15 < 2 ^ 64" "up16 (unat (of_nat n :: u64)) = n" by simp_all
    obtain q k E' st1 b1 L1 where a: "mpool_alloc (of_nat n) st = Some (of_nat q, st1)" "rep B E' {} {} ?A (hmem st) st1 b1 L1"
      "live {} b1 = (live {} b)(q := Some k)" "live {} b q = None" "n \<le> k" "b1 q = Some (k, False)" "E' = E \<or> E' = E + up16k n" "cb_reqmem st1 = Some req"
      by (rule alloc_rep [OF r1 cb pn(1) pn(2) [symmetric] n(2) pg AE1 room]) blast
    have "live {} b p = Some s" using p by (simp add: live_block)
    then have qp: "q \<noteq> p" using a(4) by auto
    then have "live {} b1 p = Some s" using a(3) \<open>live {} b p = Some s\<close> by simp
    then have p1: "b1 p = Some (s, False)" by (simp add: live_block)
    have "?A \<inter> {q..<q + k} = {}" by (rule new_block_apart [OF r1 a(2-4)]) (use a(7) AE1 in auto)
    then have Aq: "A \<inter> {q..<q + k} = {}" by blast
    have r2: "rep B E' {} {} A h0 st1 b1 L1" using rep_weaken [OF a(2)] rep_same [OF r] by auto
    obtain st' b' L' where v: "move_block (of_nat q) (of_nat p) (of_nat s) st1 = Some (Done (of_nat q, st'))" "rep B E' {} {} A h0 st' b' L'"
      "live {} b' = (live {} b1)(p := None)" "cb_reqmem st' = cb_reqmem st1" "\<And>i. i < s \<Longrightarrow> 8 dvd i \<Longrightarrow> hmem st' (q + i) = hmem st1 (p + i)"
      by (rule move_rep [OF r2 p1 a(6) qp _ A Aq]) (use m a(5) in auto)
    show ?thesis
    proof (rule that [of q st' E' b' L' k])
      show "mpool_realloc (of_nat p) ns st = Some (Done (of_nat q, st'))" using nz pad m a(1) v(1) rep_size [OF r r p] by (simp add: mpool_realloc_def)
      show "live {} b' = ((live {} b)(p := None))(q := Some k)" using v(3) a(3) qp by (simp add: fun_upd_twist)
      show "hmem st' (q + i) = hmem st (p + i)" if "i < s" "8 dvd i" for i using v(5) [OF that] rep_same [OF a(2), of "p + i"] that(1) m by simp
    qed (use v a in auto)
  qed
qed

end

end
