(* ===== verification/Kernel_Heap.thy ===== *)
theory Kernel_Heap
  imports Heap_Realloc
begin

text \<open>
  The allocation functions of the kernel (\<^verbatim>\<open>mem/heap/heap.c\<close>) for the architectures that use the memory pool, as configured: without
  \<^verbatim>\<open>HEAP_CHECK\<close> and \<^verbatim>\<open>KASAN_CHECK\<close>.  Each runs under one lock with interrupts off and is one step.
\<close>

section \<open>Definitions\<close>

definition KERNEL_HEAP_START :: u64 where "KERNEL_HEAP_START = 0xffff900000000000"
definition KERNEL_HEAP_SIZE :: u64 where "KERNEL_HEAP_SIZE = 0x18000000"

text \<open>\<open>page_map_range_to_random\<close> puts a new frame under each page of a range; \<open>fresh\<close> is what the frames hold.\<close>

definition page_map_range_to_random :: "(nat \<Rightarrow> u64) \<Rightarrow> u64 \<Rightarrow> u64 \<Rightarrow> hmem \<Rightarrow> hmem" where
  "page_map_range_to_random fresh addr len h =
     (\<lambda>x. if unat addr div 4096 \<le> x div 4096 \<and> x div 4096 < unat addr div 4096 + (unat len + 4095) div 4096 \<and> x mod 8 = 0
          then Some (fresh x) else h x)"

text \<open>\<open>page_alloc_random\<close> maps frames at their own address \<open>found\<close>, the answer of \<open>alloc_frames\<close>; \<open>heap_alloc\<close> asserts that it is not 0.\<close>

definition page_alloc_random :: "(nat \<Rightarrow> u64) \<Rightarrow> u64 \<Rightarrow> u64 \<Rightarrow> hmem \<Rightarrow> u64 \<times> hmem" where
  "page_alloc_random fresh found len h = (if len = 0 then (- 1, h) else (found, page_map_range_to_random fresh found len h))"

definition heap_alloc :: "(nat \<Rightarrow> u64) \<Rightarrow> u64 \<Rightarrow> u64 \<Rightarrow> u64 \<Rightarrow> hmem \<Rightarrow> u64 \<times> hmem" where
  "heap_alloc fresh found ptr sz h =
     (if ptr = 0 then page_alloc_random fresh found sz h
      else (ptr, page_map_range_to_random fresh ptr sz h))"

definition malloc :: "u64 \<Rightarrow> heap \<Rightarrow> (u64 \<times> heap) option" where
  "malloc sz st = mpool_alloc sz st"

definition free :: "u64 \<Rightarrow> heap \<Rightarrow> heap halting option" where
  "free ptr st = (if ptr = 0 then Some (Done st) else mpool_free ptr st)"

definition xmalloc :: "u64 \<Rightarrow> heap \<Rightarrow> (u64 \<times> heap) halting option" where
  "xmalloc sz st = do { (ptr, st) \<leftarrow> malloc sz st; Some (if ptr = 0 then Halted else Done (ptr, st)) }"

text \<open>\<open>memset\<close> with 0: whole words, then the low bytes of the last one.\<close>

primrec zero_words :: "nat \<Rightarrow> u64 \<Rightarrow> hmem \<Rightarrow> hmem option" where
  "zero_words 0 p h = Some h"
| "zero_words (Suc n) p h = do { h \<leftarrow> store p 0 h; zero_words n (p + 8) h }"

definition memset_zero :: "u64 \<Rightarrow> u64 \<Rightarrow> hmem \<Rightarrow> hmem option" where
  "memset_zero p sz h = do {
     h \<leftarrow> zero_words (unat sz div 8) p h;
     if unat sz mod 8 = 0 then Some h
     else do {
       let q = p + 8 * of_nat (unat sz div 8);
       w \<leftarrow> load q h;
       store q (w AND NOT (mask (8 * (unat sz mod 8)))) h
     }
   }"

definition calloc :: "u64 \<Rightarrow> u64 \<Rightarrow> heap \<Rightarrow> (u64 \<times> heap) option" where
  "calloc n sz st =
     (if unat n * unat sz \<ge> 2 ^ 64 then Some (0, st)
      else do {
        let sz = n * sz;
        (ptr, st) \<leftarrow> malloc sz st;
        if ptr = 0 then Some (0, st)
        else do { st \<leftarrow> on_mem (memset_zero ptr sz) st; Some (ptr, st) }
      })"

definition realloc :: "u64 \<Rightarrow> u64 \<Rightarrow> heap \<Rightarrow> (u64 \<times> heap) halting option" where
  "realloc ptr newsize st = do {
     _ \<leftarrow> (if ptr \<noteq> 0 then mpool_msize ptr st else Some 0);
     mpool_realloc ptr newsize st
   }"

definition reallocarray :: "u64 \<Rightarrow> u64 \<Rightarrow> u64 \<Rightarrow> heap \<Rightarrow> (u64 \<times> heap) halting option" where
  "reallocarray ptr n sz st = realloc ptr (n * sz) st"

definition aligned_alloc :: "u64 \<Rightarrow> u64 \<Rightarrow> heap \<Rightarrow> (u64 \<times> heap) option" where
  "aligned_alloc align sz st = mpool_aligned_alloc sz align st"

definition malloc_usable_size :: "u64 \<Rightarrow> heap \<Rightarrow> u64 option" where
  "malloc_usable_size ptr st = mpool_msize ptr st"

definition memalign :: "u64 \<Rightarrow> u64 \<Rightarrow> heap \<Rightarrow> (u64 \<times> heap) option" where
  "memalign align sz st = mpool_aligned_alloc sz align st"

text \<open>The result code and, when it is 0, the block.\<close>

definition posix_memalign :: "u64 \<Rightarrow> u64 \<Rightarrow> heap \<Rightarrow> (int \<times> u64 option \<times> heap) option" where
  "posix_memalign alignment sz st = do {
     (ptr, st) \<leftarrow> mpool_aligned_alloc sz alignment st;
     Some (if ptr = 0 then (1, None, st) else (0, Some ptr, st))
   }"

definition valloc :: "u64 \<Rightarrow> heap \<Rightarrow> (u64 \<times> heap) option" where
  "valloc sz st = mpool_aligned_alloc sz 4096 st"

definition pvalloc :: "u64 \<Rightarrow> heap \<Rightarrow> (u64 \<times> heap) option" where
  "pvalloc sz st = mpool_aligned_alloc sz 4096 st"

definition init_heap :: "(nat \<Rightarrow> u64) \<Rightarrow> u64 \<Rightarrow> hmem \<Rightarrow> heap option" where
  "init_heap fresh found h = do {
     let h = page_map_range_to_random fresh KERNEL_HEAP_START KERNEL_HEAP_SIZE h;
     let st = \<lparr>pool_ptr = 0, pool_size = 0, alloced_size = 0, cb_reqmem = Some (heap_alloc fresh found), cb_delmem = None,
               large_blk = 0, freed = replicate 8 0, hmem = h\<rparr>;
     (_, st) \<leftarrow> mpool_init KERNEL_HEAP_START KERNEL_HEAP_SIZE st;
     Some st
   }"

section \<open>The kernel's source of memory\<close>

lemma pages_of_range:
  assumes "4096 dvd (a :: nat)" "4096 dvd n"
  shows "(a div 4096 \<le> x div 4096 \<and> x div 4096 < a div 4096 + (n + 4095) div 4096) = (a \<le> x \<and> x < a + n)"
proof -
  obtain i j where i: "a = 4096 * i" "n = 4096 * j" using assms by blast
  then show ?thesis by auto
qed

interpretation src: memory_source "heap_alloc fresh found" for fresh found
proof
  fix a n :: u64 and h x
  assume a: "a \<noteq> 0"
  show "fst (heap_alloc fresh found a n h) = a" using a by (simp add: heap_alloc_def)
  assume p: "4096 dvd unat a" "4096 dvd unat n"
  show "x < unat a \<or> unat a + unat n \<le> x \<Longrightarrow> snd (heap_alloc fresh found a n h) x = h x"
    using a pages_of_range [OF p, of x] by (auto simp: heap_alloc_def page_map_range_to_random_def)
  show "unat a \<le> x \<Longrightarrow> x < unat a + unat n \<Longrightarrow> 8 dvd x \<Longrightarrow> snd (heap_alloc fresh found a n h) x \<noteq> None"
    using a pages_of_range [OF p, of x] by (auto simp: heap_alloc_def page_map_range_to_random_def dvd_eq_mod_eq_0)
qed

section \<open>Initialisation\<close>

lemma layout_single:
  assumes "64 \<le> B" "16 dvd B" "16 dvd n" "16 \<le> n" "B + n + 32 < 2 ^ 64"
  shows "layout B (B + n + 32) [B + 16 \<mapsto> (n, f)]"
  by (rule layoutI) (use assms in \<open>auto split: if_splits\<close>)

lemma init_tags:
  assumes B: "64 \<le> B" "16 dvd B" and n: "16 dvd n" "16 \<le> n" "B + n + 32 < 2 ^ 64"
    and h: "\<And>a. B \<le> a \<Longrightarrow> a < B + n + 32 \<Longrightarrow> 8 dvd a \<Longrightarrow> h a \<noteq> None"
  obtains d w where "allocarea_init (of_nat B) (of_nat (n + 32)) 0 h =
      Some (h(B + n + 24 := Some d, B := Some d, B + 8 := Some w, B + 16 + n := Some w))"
    "d AND AREA_FLAG \<noteq> 0" "tag_ok w n True"
proof -
  let ?f = "of_nat (n + 32) = (2 * 1024 * 1024 :: u64)"
  define d where "d = (0 OR AREA_FLAG OR (if ?f then SIZE_FLAG else 0) :: u64)"
  define w where "w = (if ?f then (of_nat n OR FREE_FLAG) OR SIZE_FLAG else (of_nat n OR FREE_FLAG) AND NOT SIZE_FLAG :: u64)"
  have d8: "8 dvd B" "8 dvd n" using B n by (auto elim!: dvdE)
  have len: "of_nat B + 8 * (of_nat (n + 32) div 8 - 1) = (of_nat (B + n + 24) :: u64)"
  proof -
    obtain c where c: "n = 8 * c" using d8 by blast
    have "unat (of_nat (n + 32) :: u64) = n + 32" by (rule unat_at) (use n in simp)
    then have "unat (of_nat (n + 32) div 8 :: u64) = c + 4" unfolding unat_div_distrib using c by simp
    then have "of_nat (n + 32) div 8 = (of_nat (c + 4) :: u64)" by (metis of_nat_unat ucast_id)
    then show ?thesis using c by (simp add: algebra_simps)
  qed
  have ad: "of_nat B + 16 = (of_nat (B + 16) :: u64)" "of_nat (n + 32) - 4 * 8 = (of_nat n :: u64)" by simp_all
  let ?h = "h(B + n + 24 := Some d, B := Some d)"
  let ?p = "B + 16"
  have p8: "?p - 8 = B + 8" by simp
  have m: "h (B + n + 24) \<noteq> None" "h B \<noteq> None" "h (?p - 8) \<noteq> None" "h (?p + n) \<noteq> None"
    unfolding p8 using h [of "B + n + 24"] h [of B] h [of "B + 8"] h [of "B + 16 + n"] d8 by auto
  have st: "store (of_nat (B + n + 24)) d h = Some (h(B + n + 24 := Some d))" "store (of_nat B) d (h(B + n + 24 := Some d)) = Some ?h"
    using m n by (simp_all add: store_def)
  have s1: "blk_setsize (of_nat ?p) (of_nat n) ?h = Some (?h(?p - 8 := Some (of_nat n), ?p + n := Some (of_nat n)))"
    by (rule blk_setsize_at) (use m n in auto)
  let ?h1 = "?h(?p - 8 := Some (of_nat n), ?p + n := Some (of_nat n))"
  let ?v = "of_nat n OR FREE_FLAG"
  have ne: "?p - 8 \<noteq> ?p + n" by simp
  have s2: "blk_setfreed (of_nat ?p) (of_nat n) ?h1 = Some (?h(?p - 8 := Some ?v, ?p + n := Some ?v))"
    using retag_at [of ?h1 ?p "of_nat n" n "of_nat n"] n ne by (simp add: blk_setfreed_def fun_upd_twist)
  let ?h2 = "?h(?p - 8 := Some ?v, ?p + n := Some ?v)"
  have s3: "(if ?f then blk_set_area_2M (of_nat ?p) (of_nat n) ?h2 else blk_set_area_4k (of_nat ?p) (of_nat n) ?h2) = Some (?h(?p - 8 := Some w, ?p + n := Some w))"
  proof -
    have rt: "retag g (of_nat ?p) (of_nat n) ?h2 = Some (?h2(?p - 8 := Some (g ?v), ?p + n := Some (g ?v)))" for g
      by (rule retag_at) (use n in auto)
    have eq: "?h2(?p - 8 := x, ?p + n := y) = ?h(?p - 8 := x, ?p + n := y)" for x y by (rule ext) simp
    show ?thesis
    proof (cases ?f)
      case True
      show ?thesis unfolding w_def if_P [OF True] blk_set_area_2M_def rt eq ..
    next
      case False
      show ?thesis unfolding w_def if_not_P [OF False] blk_set_area_4k_def rt eq ..
    qed
  qed
  have "(if ?f then SIZE_FLAG else 0) \<noteq> 0 \<longleftrightarrow> ?f" by (simp add: SIZE_FLAG_def)
  then have "allocarea_init (of_nat B) (of_nat (n + 32)) 0 h = Some (?h(?p - 8 := Some w, ?p + n := Some w))"
    unfolding allocarea_init_def Let_def d_def [symmetric] len st bind.bind_lunit ad s1 s2 using s3 by simp
  moreover have "?p - 8 = B + 8" by simp
  moreover have "d AND AREA_FLAG \<noteq> 0" unfolding flag_nonzero d_def by (simp add: bit_simps bit_flags)
  moreover have "tag_ok w n True" unfolding w_def using tag_freed [OF tag_plain [OF n(1)]] by (auto intro: tag_2M tag_4k)
  ultimately show ?thesis using that by metis
qed

lemma init_rep:
  assumes B: "64 \<le> B" "16 dvd B" and n: "16 dvd n" "16384 \<le> n" "B + n + 32 < 2 ^ 64"
    and h: "\<And>a. B \<le> a \<Longrightarrow> a < B + n + 32 \<Longrightarrow> 8 dvd a \<Longrightarrow> hmem st a \<noteq> None"
  obtains st' L where "mpool_init (of_nat B) (of_nat (n + 32)) st = Some (True, st')" "rep B (B + n + 32) {} {} {a. a < B \<or> B + n + 32 \<le> a} (hmem st) st' [B + 16 \<mapsto> (n, True)] L"
    "cb_reqmem st' = cb_reqmem st" "alloced_size st' = 0"
proof -
  have n16: "16 \<le> n" using n(2) by simp
  obtain d w where i: "allocarea_init (of_nat B) (of_nat (n + 32)) 0 (hmem st) =
      Some ((hmem st)(B + n + 24 := Some d, B := Some d, B + 8 := Some w, B + 16 + n := Some w))" "d AND AREA_FLAG \<noteq> 0" "tag_ok w n True"
    by (rule init_tags [OF B n(1) n16 n(3) h]) blast
  let ?h = "(hmem st)(B + n + 24 := Some d, B := Some d, B + 8 := Some w, B + 16 + n := Some w)" and ?p = "B + 16" and ?E = "B + n + 32" and ?A = "{a. a < B \<or> B + n + 32 \<le> a}"
  let ?st = "st\<lparr>pool_ptr := of_nat B, pool_size := of_nat (n + 32), alloced_size := 0, cb_delmem := None, large_blk := 0, freed := replicate 8 0, hmem := ?h\<rparr>"
  let ?b = "[?p \<mapsto> (n, False)]"
  have tg: "tagged ?h (?p - 8) n False True" "tagged ?h (?p + n) n False True" using i(3) by (auto simp: tagged_def)
  have "sentinel ?h B" "sentinel ?h (?E - 8)" using i(2) by (auto simp: sentinel_def)
  moreover have "\<And>a. B \<le> a \<Longrightarrow> a < ?E \<Longrightarrow> 8 dvd a \<Longrightarrow> ?h a \<noteq> None" using h by simp
  ultimately have "tags B ?E {?p} ?b ?h" unfolding tags_def using tagged_loose [OF tg(1)] tagged_loose [OF tg(2)] by (simp del: fun_upd_apply) simp
  moreover have "heads ?st i = 0" for i by (simp add: heads_def)
  then have "lists_ok {} ?b ?h (heads ?st) (\<lambda>_. [])" by (simp add: lists_ok_def)
  ultimately have "mem_rep B ?E {?p} {} ?A (hmem st) ?h (heads ?st) ?b (\<lambda>_. [])"
    using layout_single [OF B n(1) n16 n(3)] by (auto simp: mem_rep_def kept_def safe_def)
  then have r: "rep B ?E {?p} {} ?A (hmem st) ?st ?b (\<lambda>_. [])" by (simp add: rep_def)
  have bp: "?b ?p = Some (n, False)" "?p \<in> {?p}" by simp_all
  have tg': "tagged (hmem ?st) (?p - 8) n False True" "tagged (hmem ?st) (?p + n) n False True" using tg by simp_all
  have Y: "home {} ?p n = 8" using list_id_large [OF n(2)] n(3) by (simp add: home_def)
  obtain st' where s: "put_large (of_nat ?p) ?st = Some st'" "pool_kept ?st st'" "rep B ?E ({?p} - {?p}) {} ?A (hmem st) st' (?b(?p := Some (n, True))) ((\<lambda>_. [])(8 := [?p]))"
    using put_large_rep [OF r bp tg' Y refl] by blast
  have "(of_nat (n + 32) :: u64) AND (2 * 8 - 1) = 0"
  proof -
    have "16 dvd unat (of_nat (n + 32) :: u64)" using n(1,3) unat_at [of "n + 32"] by simp
    then show ?thesis using aligned_iff_dvd [of 4 "of_nat (n + 32)"] by simp
  qed
  moreover have "(of_nat B :: u64) \<noteq> 0" "(of_nat (n + 32) :: u64) \<noteq> 0"
    using of_nat_inject_u64 [of B 0] of_nat_inject_u64 [of "n + 32" 0] B n by auto
  ultimately have "mpool_init (of_nat B) (of_nat (n + 32)) st = Some (True, st')"
    using i(1) s(1) by (simp add: mpool_init_def on_mem_def)
  then show ?thesis using that s(2,3) by (simp add: pool_kept_def)
qed

section \<open>What a client sees\<close>

text \<open>
  \<open>heap_ok B E st b\<close>: the pool from \<open>B\<close> to \<open>E\<close> consists of the blocks \<open>b\<close>, each with its size and whether it is free.  \<open>live {} b\<close> are the allocated ones.
\<close>

definition heap_ok :: "nat \<Rightarrow> nat \<Rightarrow> heap \<Rightarrow> blocks \<Rightarrow> bool" where
  "heap_ok B E st b \<longleftrightarrow> 4096 dvd E \<and> (\<exists>L. rep B E {} {} {} (\<lambda>_. None) st b L)"

definition fits :: "nat \<Rightarrow> blocks \<Rightarrow> nat \<Rightarrow> bool" where
  "fits E b n \<longleftrightarrow> \<not> 16384 dvd n \<or> (\<exists>p t. b p = Some (t, True) \<and> (n \<le> t \<or> p + t + 16 = E))"

definition untouched :: "nat \<Rightarrow> nat \<Rightarrow> (nat \<Rightarrow> nat option) \<Rightarrow> heap \<Rightarrow> heap \<Rightarrow> bool" where
  "untouched B E m st st' \<longleftrightarrow> (\<forall>a. a < B \<or> E \<le> a \<or> (\<exists>p s. m p = Some s \<and> p \<le> a \<and> a < p + s) \<longrightarrow> hmem st' a = hmem st a)"

text \<open>All addresses that the pool may not change while it grows to \<open>E'\<close>, less the block at \<open>q\<close>.\<close>

definition others :: "nat \<Rightarrow> nat \<Rightarrow> nat \<Rightarrow> (nat \<Rightarrow> nat option) \<Rightarrow> nat set" where
  "others B E E' m = {a. a < B \<or> E' \<le> a \<or> (\<exists>p s. m p = Some s \<and> p \<le> a \<and> a < p + s \<and> a < E)}"

lemma others_rep:
  assumes "rep B E {} {} {} h0 st b L" "E \<le> E'" "\<And>p s. m p = Some s \<Longrightarrow> live {} b p = Some s"
  shows "rep B E {} {} (others B E E' m) (hmem st) st b L" "others B E E' m \<inter> {E..<E'} = {}"
proof -
  show "rep B E {} {} (others B E E' m) (hmem st) st b L"
    by (rule rep_rebase [OF assms(1)]) (use assms(2,3) in \<open>fastforce simp: others_def safe_def live_block\<close>)
  have "B \<le> E" using layout_area(2) [OF repl [OF assms(1)]] by simp
  then show "others B E E' m \<inter> {E..<E'} = {}" by (auto simp: others_def)
qed

lemma others_untouched:
  assumes "rep B E1 {} {} (others B E E' m) (hmem st) st' b' L'" "rep B E {} {} {} h0 st b L" "\<And>p s. m p = Some s \<Longrightarrow> live {} b p = Some s"
  shows "untouched B E' m st st'"
proof -
  have "a < E" if "m p = Some s" "a < p + s" for p s a
    using block_bounds(3) [OF repl [OF assms(2)], of p s False] assms(3) [OF that(1)] that(2) by (simp add: live_block)
  then show ?thesis unfolding untouched_def using rep_same [OF assms(1)] unfolding others_def by blast
qed

lemma live_apart:
  assumes "rep B E X Y A h0 st b L" "live {} b p = Some s" "live {} b q = Some t" "p \<noteq> q"
  shows "p + s \<le> q \<or> q + t \<le> p"
  using layout_apart [OF repl [OF assms(1)], of p s False q t False] assms(2-) by (auto simp: live_block)

lemma heap_ok_rep: "rep B E {} {} A h0 st b L \<Longrightarrow> 4096 dvd E \<Longrightarrow> heap_ok B E st b"
  unfolding heap_ok_def by (blast intro: rep_weaken)

lemma heap_ok_ends:
  assumes "heap_ok B E st b"
  shows "unat (pool_ptr st) = B" "unat (pool_size st) = E - B" "B < E" "E < 2 ^ 64"
proof -
  obtain L where r: "rep B E {} {} {} (\<lambda>_. None) st b L" using assms by (auto simp: heap_ok_def)
  note a = layout_area [OF repl [OF r]]
  show "B < E" "E < 2 ^ 64" using a by simp_all
  then have "unat (of_nat B :: u64) = B" "unat (of_nat (E - B) :: u64) = E - B" by (simp_all only: unat_at)
  then show "unat (pool_ptr st) = B" "unat (pool_size st) = E - B" using r by (simp_all only: rep_def)
qed

lemma live_bounds:
  assumes "heap_ok B E st b" "live {} b p = Some s"
  shows "16 dvd p" "16 dvd s" "B < p" "p + s < E" "64 \<le> p"
proof -
  obtain L where r: "rep B E {} {} {} (\<lambda>_. None) st b L" using assms by (auto simp: heap_ok_def)
  have "b p = Some (s, False)" using assms(2) by (simp add: live_block)
  then show "16 dvd p" "16 dvd s" "B < p" "p + s < E" "64 \<le> p"
    using block_bounds [OF repl [OF r], of p s False] layout_area [OF repl [OF r]] by auto
qed

lemma live_disjoint:
  assumes "heap_ok B E st b" "live {} b p = Some s" "live {} b q = Some t" "p \<noteq> q"
  shows "p + s \<le> q \<or> q + t \<le> p"
  using assms live_apart [of B E _ _ _ _ st b _ p s q t] unfolding heap_ok_def by blast

lemma malloc_ok:
  assumes "heap_ok B E st b" "cb_reqmem st = Some (heap_alloc fresh found)" "unat s + 15 < 2 ^ 64" "E + up16k (up16 (unat s)) < 2 ^ 64"
    "fits E b (up16 (unat s))"
  obtains p k E' st' b' where "malloc s st = Some (of_nat p, st')" "heap_ok B E' st' b'" "live {} b' = (live {} b)(p := Some k)"
    "live {} b p = None" "unat s \<le> k" "E' = E \<or> (\<forall>q t. b q = Some (t, True) \<longrightarrow> t < up16 (unat s))" "untouched B (E + up16k (up16 (unat s))) (live {} b) st st'" "cb_reqmem st' = cb_reqmem st"
proof -
  let ?n = "up16 (unat s)" and ?E = "E + up16k (up16 (unat s))"
  obtain L where r: "rep B E {} {} {} (\<lambda>_. None) st b L" "4096 dvd E" using assms(1) by (auto simp: heap_ok_def)
  have r1: "rep B E {} {} (others B E ?E (live {} b)) (hmem st) st b L" "others B E ?E (live {} b) \<inter> {E..<?E} = {}"
    using others_rep [OF r(1), of ?E "live {} b"] by auto
  obtain p k E' st' b' L' where a: "mpool_alloc s st = Some (of_nat p, st')" "rep B E' {} {} (others B E ?E (live {} b)) (hmem st) st' b' L'"
    "live {} b' = (live {} b)(p := Some k)" "live {} b p = None" "?n \<le> k" "b' p = Some (k, False)" "E' = E \<or> E' = ?E"
    "cb_reqmem st' = Some (heap_alloc fresh found)" "E' = E \<or> (\<forall>q t. b q = Some (t, True) \<longrightarrow> t < ?n)"
    by (rule src.alloc_rep [OF r1(1) assms(2,3) refl assms(4) r(2) r1(2) assms(5) [unfolded fits_def]]) blast
  have "4096 dvd up16k ?n" using up16k(2) [of ?n] by (auto elim: dvd_trans [rotated])
  then have "heap_ok B E' st' b'" using heap_ok_rep [OF a(2)] a(7) r(2) by auto
  moreover have "untouched B ?E (live {} b) st st'" by (rule others_untouched [OF a(2) r(1)])
  ultimately show ?thesis using that a up16(1) [of "unat s"] assms(2) by (simp add: malloc_def)
qed

lemma free_ok:
  assumes "heap_ok B E st b" "live {} b p = Some s"
  obtains st' b' where "free (of_nat p) st = Some (Done st')" "heap_ok B E st' b'" "live {} b' = (live {} b)(p := None)"
    "untouched B E ((live {} b)(p := None)) st st'" "alloced_size st' = alloced_size st - of_nat s" "cb_reqmem st' = cb_reqmem st"
proof -
  let ?m = "(live {} b)(p := None)"
  obtain L where r: "rep B E {} {} {} (\<lambda>_. None) st b L" "4096 dvd E" using assms(1) by (auto simp: heap_ok_def)
  have bp: "b p = Some (s, False)" using assms(2) by (simp add: live_block)
  have m: "\<And>q t. ?m q = Some t \<Longrightarrow> live {} b q = Some t" by (simp split: if_splits)
  have r1: "rep B E {} {} (others B E E ?m) (hmem st) st b L" using others_rep [OF r(1) order_refl m] by blast
  have A: "others B E E ?m \<inter> {p..<p + s} = {}"
    using live_apart [OF r(1) assms(2)] block_bounds [OF repl [OF r(1)] bp] by (fastforce simp: others_def split: if_splits)
  obtain st' b' L' where f: "mpool_free (of_nat p) st = Some (Done st')" "rep B E {} {} (others B E E ?m) (hmem st) st' b' L'"
    "live {} b' = ?m" "cb_reqmem st' = cb_reqmem st" "alloced_size st' = alloced_size st - of_nat s"
    by (rule mpool_free_rep [OF r1 bp A]) blast
  have "untouched B E ?m st st'" by (rule others_untouched [OF f(2) r(1) m])
  moreover have "(of_nat p :: u64) \<noteq> 0" using tags_writable(3) [OF repl [OF r(1)] rept [OF r(1)] bp] of_nat_linkable by blast
  ultimately show ?thesis using that f heap_ok_rep [OF f(2) r(2)] by (simp add: free_def)
qed

lemma realloc_ok:
  assumes "heap_ok B E st b" "cb_reqmem st = Some (heap_alloc fresh found)" "live {} b p = Some s" "unat ns + 15 < 2 ^ 64"
    "E + up16k (up16 (unat ns)) < 2 ^ 64" "fits E b (up16 (unat ns))"
  obtains q k E' st' b' where "realloc (of_nat p) ns st = Some (Done (of_nat q, st'))" "heap_ok B E' st' b'"
    "live {} b' = (live {} b)(p := None, q := Some k)" "unat ns \<le> k" "q = p \<or> live {} b q = None"
    "\<forall>i. i < s \<longrightarrow> i < unat ns \<longrightarrow> 8 dvd i \<longrightarrow> hmem st' (q + i) = hmem st (p + i)"
    "untouched B (E + up16k (up16 (unat ns))) ((live {} b)(p := None)) st st'" "cb_reqmem st' = cb_reqmem st"
proof -
  let ?n = "up16 (unat ns)" and ?E = "E + up16k (up16 (unat ns))" and ?m = "(live {} b)(p := None)"
  obtain L where r: "rep B E {} {} {} (\<lambda>_. None) st b L" "4096 dvd E" using assms(1) by (auto simp: heap_ok_def)
  have bp: "b p = Some (s, False)" using assms(3) by (simp add: live_block)
  have m: "\<And>q t. ?m q = Some t \<Longrightarrow> live {} b q = Some t" by (simp split: if_splits)
  have r1: "rep B E {} {} (others B E ?E ?m) (hmem st) st b L" "others B E ?E ?m \<inter> {E..<?E} = {}" by (rule others_rep [OF r(1) _ m]; simp)+
  have A: "others B E ?E ?m \<inter> {p..<p + s} = {}"
    using live_apart [OF r(1) assms(3)] block_bounds [OF repl [OF r(1)] bp] by (fastforce simp: others_def split: if_splits)
  obtain q k E' st' b' L' where a: "mpool_realloc (of_nat p) ns st = Some (Done (of_nat q, st'))" "rep B E' {} {} (others B E ?E ?m) (hmem st) st' b' L'"
    "live {} b' = ?m(q := Some k)" "?n \<le> k" "q = p \<or> live {} b q = None" "E' = E \<or> E' = ?E" "cb_reqmem st' = Some (heap_alloc fresh found)"
    "\<forall>i. i < s \<longrightarrow> i < ?n \<longrightarrow> 8 dvd i \<longrightarrow> hmem st' (q + i) = hmem st (p + i)"
    by (rule src.realloc_rep [OF r1(1) assms(2) bp A assms(4) refl assms(5) r(2) r1(2) assms(6) [unfolded fits_def]]) blast
  have "4096 dvd up16k ?n" using up16k(2) [of ?n] by (auto elim: dvd_trans [rotated])
  then have "heap_ok B E' st' b'" using heap_ok_rep [OF a(2)] a(6) r(2) by auto
  moreover have "untouched B ?E ?m st st'" by (rule others_untouched [OF a(2) r(1) m])
  moreover have "mpool_msize (of_nat p) st = Some (of_nat s)" "(of_nat p :: u64) \<noteq> 0"
    using rep_size [OF r(1) r(1) bp] tags_writable(3) [OF repl [OF r(1)] rept [OF r(1)] bp] of_nat_linkable by (auto simp: mpool_msize_def)
  ultimately show ?thesis using that a up16(1) [of "unat ns"] assms(2) by (simp add: realloc_def)
qed

text \<open>The heap at boot is one free block; this is the input of the witnesses below.\<close>

abbreviation heap_start :: nat where "heap_start \<equiv> 0xffff900000000000"
abbreviation heap_end :: nat where "heap_end \<equiv> 0xffff900018000000"

lemma init_heap_ok:
  obtains st where "init_heap fresh found h = Some st" "heap_ok heap_start heap_end st [heap_start + 16 \<mapsto> (0x17ffffe0, True)]"
    "cb_reqmem st = Some (heap_alloc fresh found)" "alloced_size st = 0" "\<forall>a. a < heap_start \<or> heap_end \<le> a \<longrightarrow> hmem st a = h a"
proof -
  let ?h = "page_map_range_to_random fresh KERNEL_HEAP_START KERNEL_HEAP_SIZE h"
  let ?st = "\<lparr>pool_ptr = 0, pool_size = 0, alloced_size = 0, cb_reqmem = Some (heap_alloc fresh found), cb_delmem = None,
    large_blk = 0, freed = replicate 8 0, hmem = ?h\<rparr>"
  have h: "?h a = (if heap_start \<le> a \<and> a < heap_end \<and> a mod 8 = 0 then Some (fresh a) else h a)" for a
    using pages_of_range [of heap_start "0x18000000" a] by (simp add: page_map_range_to_random_def KERNEL_HEAP_START_def KERNEL_HEAP_SIZE_def) blast
  have m: "?h a \<noteq> None" if "heap_start \<le> a" "a < heap_start + 0x17ffffe0 + 32" "8 dvd a" for a
    using that by (simp add: h dvd_eq_mod_eq_0)
  obtain st L where i: "mpool_init (of_nat heap_start) (of_nat (0x17ffffe0 + 32)) ?st = Some (True, st)"
    "rep heap_start (heap_start + 0x17ffffe0 + 32) {} {} {a. a < heap_start \<or> heap_start + 0x17ffffe0 + 32 \<le> a} ?h st [heap_start + 16 \<mapsto> (0x17ffffe0, True)] L"
    "cb_reqmem st = cb_reqmem ?st" "alloced_size st = 0"
    by (rule init_rep [of heap_start "0x17ffffe0" ?st]) (use m in auto)
  have "init_heap fresh found h = Some st"
    using i(1) by (simp add: init_heap_def KERNEL_HEAP_START_def KERNEL_HEAP_SIZE_def)
  moreover have "heap_ok heap_start heap_end st [heap_start + 16 \<mapsto> (0x17ffffe0, True)]"
    using heap_ok_rep [OF i(2)] by simp
  moreover have "hmem st a = h a" if "a < heap_start \<or> heap_end \<le> a" for a
    using rep_same [OF i(2), of a] that by (auto simp: h)
  ultimately show ?thesis using that i(3,4) by simp
qed

definition booted_heap :: heap where
  "booted_heap = the (init_heap (\<lambda>_. 0) 1 (\<lambda>_. None))"

lemma booted_heap_ok:
  "heap_ok heap_start heap_end booted_heap [heap_start + 16 \<mapsto> (0x17ffffe0, True)]" "cb_reqmem booted_heap = Some (heap_alloc (\<lambda>_. 0) 1)"
  "heap_end \<le> a \<Longrightarrow> hmem booted_heap a = None"
  by (rule init_heap_ok [of "\<lambda>_. 0" 1 "\<lambda>_. None"]; simp add: booted_heap_def)+

end
