(* ===== verification/Heap_Session.thy ===== *)
theory Heap_Session
  imports Kernel_Heap
begin

text \<open>
  The kernel heap (\<^verbatim>\<open>mem/heap/heap.c\<close>) as its clients see it: what each call does to the live blocks and to the memory, and what a client can rely
  on over a whole session of calls.
\<close>

section \<open>Single calls\<close>




section \<open>Sessions\<close>

text \<open>
  What clients know of their blocks: for each address that \<open>malloc\<close> gave and that has not been freed, the size asked for and the
  words that have been written.  A session is a sequence of calls from the start of the kernel, and of writes to blocks.
\<close>

type_synonym client = "nat \<rightharpoonup> nat \<times> (nat \<rightharpoonup> u64)"

text \<open>Sizes for which the pool can grow if it must; the last section is about the others.\<close>

definition proper_size :: "u64 \<Rightarrow> heap \<Rightarrow> bool" where
  "proper_size s st \<longleftrightarrow> unat s + 15 < 2 ^ 64 \<and> unat (pool_ptr st) + unat (pool_size st) + up16k (up16 (unat s)) < 2 ^ 64 \<and> \<not> 16384 dvd up16 (unat s)"

inductive session :: "heap \<Rightarrow> client \<Rightarrow> bool" where
  boot: "init_heap fresh found h = Some st \<Longrightarrow> session st Map.empty"
| malloc: "session st m \<Longrightarrow> proper_size s st \<Longrightarrow> malloc s st = Some (a, st') \<Longrightarrow> session st' (m(unat a \<mapsto> (unat s, Map.empty)))"
| free: "session st m \<Longrightarrow> m p = Some c \<Longrightarrow> free (of_nat p) st = Some (Done st') \<Longrightarrow> session st' (m(p := None))"
| realloc: "session st m \<Longrightarrow> m p = Some (s, c) \<Longrightarrow> proper_size ns st \<Longrightarrow> realloc (of_nat p) ns st = Some (Done (a, st')) \<Longrightarrow>
    session st' (m(p := None, unat a \<mapsto> (unat ns, c |` {i. i < unat ns})))"
| assign: "session st m \<Longrightarrow> m p = Some (s, c) \<Longrightarrow> 8 dvd i \<Longrightarrow> i + 8 \<le> s \<Longrightarrow> store (of_nat (p + i)) v (hmem st) = Some h \<Longrightarrow>
    session (st\<lparr>hmem := h\<rparr>) (m(p \<mapsto> (s, c(i \<mapsto> v))))"

lemma proper_fits:
  assumes "heap_ok B E st b" "proper_size s st"
  shows "unat s + 15 < 2 ^ 64" "E + up16k (up16 (unat s)) < 2 ^ 64" "fits E b (up16 (unat s))"
  using assms heap_ok_ends [OF assms(1)] by (auto simp: proper_size_def fits_def)

text \<open>A block with what its client knows of it.\<close>

definition agrees :: "hmem \<Rightarrow> nat \<Rightarrow> nat option \<Rightarrow> (nat \<times> (nat \<rightharpoonup> u64)) option \<Rightarrow> bool" where
  "agrees h p l c = (case c of None \<Rightarrow> l = None | Some (s, w) \<Rightarrow> \<exists>k. l = Some k \<and> s \<le> k \<and> (\<forall>i v. w i = Some v \<longrightarrow> 8 dvd i \<and> i < s \<and> h (p + i) = Some v))"

lemma agrees_simps [simp]: "agrees h p l None \<longleftrightarrow> l = None" "agrees h p None (Some c) \<longleftrightarrow> False"
  "agrees h p (Some k) (Some (s, w)) \<longleftrightarrow> s \<le> k \<and> (\<forall>i v. w i = Some v \<longrightarrow> 8 dvd i \<and> i < s \<and> h (p + i) = Some v)"
  by (auto simp: agrees_def split: prod.splits)

lemma agrees_cases:
  assumes "agrees h p l (Some (s, w))"
  obtains k where "l = Some k" "s \<le> k" "\<forall>i v. w i = Some v \<longrightarrow> 8 dvd i \<and> i < s \<and> h (p + i) = Some v"
  using assms by (auto simp: agrees_def)

lemma agrees_untouched:
  assumes "agrees (hmem st) p l c" "untouched B E m st st'" "m p = l"
  shows "agrees (hmem st') p l c"
proof (cases c)
  case (Some x)
  obtain s w where c: "c = Some (s, w)" using Some by (cases x) auto
  obtain k where k: "l = Some k" "s \<le> k" "\<forall>i v. w i = Some v \<longrightarrow> 8 dvd i \<and> i < s \<and> hmem st (p + i) = Some v"
    using agrees_cases [OF assms(1) [unfolded c]] by blast
  have "hmem st' (p + i) = hmem st (p + i)" if "i < s" for i
    using assms(2,3) k(1,2) that unfolding untouched_def by (metis add_less_cancel_left le_add1 order_less_le_trans)
  then show ?thesis using k c by simp
qed (use assms in simp)

definition session_ok :: "heap \<Rightarrow> client \<Rightarrow> bool" where
  "session_ok st m \<longleftrightarrow> (\<exists>fresh found E b. heap_ok heap_start E st b \<and> cb_reqmem st = Some (heap_alloc fresh found) \<and>
     (\<forall>p. agrees (hmem st) p (live {} b p) (m p)))"

lemma session_okI:
  "heap_ok heap_start E st b \<Longrightarrow> cb_reqmem st = Some (heap_alloc fresh found) \<Longrightarrow> (\<And>p. agrees (hmem st) p (live {} b p) (m p)) \<Longrightarrow> session_ok st m"
  by (auto simp: session_ok_def)

lemma session_okE:
  assumes "session_ok st m"
  obtains fresh found E b where "heap_ok heap_start E st b" "cb_reqmem st = Some (heap_alloc fresh found)" "\<forall>p. agrees (hmem st) p (live {} b p) (m p)"
  using assms by (auto simp: session_ok_def)

lemma session_malloc:
  assumes "session_ok st m" "proper_size s st"
  obtains p st' where "malloc s st = Some (of_nat p, st')" "p < 2 ^ 64" "0 < p" "session_ok st' (m(p \<mapsto> (unat s, Map.empty)))"
proof (rule session_okE [OF assms(1)])
  fix fresh found E b
  assume h: "heap_ok heap_start E st b" "cb_reqmem st = Some (heap_alloc fresh found)" "\<forall>p. agrees (hmem st) p (live {} b p) (m p)"
  obtain p k E' st' b' where a: "malloc s st = Some (of_nat p, st')" "heap_ok heap_start E' st' b'" "live {} b' = (live {} b)(p := Some k)"
    "live {} b p = None" "unat s \<le> k" "untouched heap_start (E + up16k (up16 (unat s))) (live {} b) st st'" "cb_reqmem st' = cb_reqmem st"
    by (rule malloc_ok [OF h(1,2) proper_fits [OF h(1) assms(2)]]) blast
  have "session_ok st' (m(p \<mapsto> (unat s, Map.empty)))"
    by (rule session_okI [OF a(2) a(7) [unfolded h(2)]]) (use a(3,5) h(3) agrees_untouched [OF _ a(6) refl] in auto)
  moreover have "p < 2 ^ 64" "0 < p" using live_bounds [OF a(2), of p k] heap_ok_ends(4) [OF a(2)] a(3) by auto
  ultimately show ?thesis using that a(1) by blast
qed

lemma session_free:
  assumes "session_ok st m" "m p = Some c"
  obtains st' where "free (of_nat p) st = Some (Done st')" "session_ok st' (m(p := None))"
proof (rule session_okE [OF assms(1)])
  fix fresh found E b
  assume h: "heap_ok heap_start E st b" "cb_reqmem st = Some (heap_alloc fresh found)" "\<forall>p. agrees (hmem st) p (live {} b p) (m p)"
  obtain k where k: "live {} b p = Some k" using h(3) [rule_format, of p] assms(2) by (cases "live {} b p") simp_all
  obtain st' b' where a: "free (of_nat p) st = Some (Done st')" "heap_ok heap_start E st' b'" "live {} b' = (live {} b)(p := None)"
    "untouched heap_start E ((live {} b)(p := None)) st st'" "cb_reqmem st' = cb_reqmem st"
    by (rule free_ok [OF h(1) k]) blast
  have "session_ok st' (m(p := None))"
  proof (rule session_okI [OF a(2) a(5) [unfolded h(2)]])
    fix q
    show "agrees (hmem st') q (live {} b' q) ((m(p := None)) q)"
      using agrees_untouched [OF _ a(4), of q "live {} b q" "m q"] h(3) by (simp add: a(3))
  qed
  then show ?thesis using that a(1) by blast
qed

lemma session_realloc:
  assumes "session_ok st m" "m p = Some (s, c)" "proper_size ns st"
  obtains q st' where "realloc (of_nat p) ns st = Some (Done (of_nat q, st'))" "q < 2 ^ 64" "session_ok st' (m(p := None, q \<mapsto> (unat ns, c |` {i. i < unat ns})))"
proof (rule session_okE [OF assms(1)])
  fix fresh found E b
  assume h: "heap_ok heap_start E st b" "cb_reqmem st = Some (heap_alloc fresh found)" "\<forall>p. agrees (hmem st) p (live {} b p) (m p)"
  obtain k where k: "live {} b p = Some k" "s \<le> k" "\<forall>i v. c i = Some v \<longrightarrow> 8 dvd i \<and> i < s \<and> hmem st (p + i) = Some v"
    using agrees_cases [OF h(3) [rule_format, of p, unfolded assms(2)]] by blast
  obtain q t E' st' b' where a: "realloc (of_nat p) ns st = Some (Done (of_nat q, st'))" "heap_ok heap_start E' st' b'"
    "live {} b' = (live {} b)(p := None, q := Some t)" "unat ns \<le> t"
    "\<forall>i. i < k \<longrightarrow> i < unat ns \<longrightarrow> 8 dvd i \<longrightarrow> hmem st' (q + i) = hmem st (p + i)"
    "untouched heap_start (E + up16k (up16 (unat ns))) ((live {} b)(p := None)) st st'" "cb_reqmem st' = cb_reqmem st"
    by (rule realloc_ok [OF h(1,2) k(1) proper_fits [OF h(1) assms(3)]]) blast
  have "session_ok st' (m(p := None, q \<mapsto> (unat ns, c |` {i. i < unat ns})))"
  proof (rule session_okI [OF a(2) a(7) [unfolded h(2)]])
    fix r
    show "agrees (hmem st') r (live {} b' r) ((m(p := None, q \<mapsto> (unat ns, c |` {i. i < unat ns}))) r)"
    proof (cases "r = q")
      case True
      have "8 dvd i \<and> i < unat ns \<and> hmem st' (q + i) = Some v" if "(c |` {i. i < unat ns}) i = Some v" for i v
      proof -
        have "c i = Some v" "i < unat ns" using that by (auto simp: restrict_map_def split: if_splits)
        moreover have "8 dvd i" "i < s" "hmem st (p + i) = Some v" using k(3) calculation(1) by blast+
        moreover have "i < k" using calculation(4) k(2) by simp
        ultimately show ?thesis using a(5) by simp
      qed
      moreover have "live {} b' q = Some t" using a(3) by simp
      ultimately show ?thesis unfolding True fun_upd_same agrees_def option.case prod.case using a(4) by blast
    next
      case False
      then show ?thesis using agrees_untouched [OF _ a(6), of r "live {} b r" "m r"] h(3) by (simp add: a(3))
    qed
  qed
  moreover have "q < 2 ^ 64" using live_bounds [OF a(2), of q t] heap_ok_ends(4) [OF a(2)] a(3) by auto
  ultimately show ?thesis using that a(1) by blast
qed

lemma session_assign:
  assumes "session_ok st m" "m p = Some (s, c)" "8 dvd i" "i + 8 \<le> s"
  shows "store (of_nat (p + i)) v (hmem st) = Some ((hmem st)(p + i := Some v))"
    "session_ok (st\<lparr>hmem := (hmem st)(p + i := Some v)\<rparr>) (m(p \<mapsto> (s, c(i \<mapsto> v))))"
proof -
  let ?st = "st\<lparr>hmem := (hmem st)(p + i := Some v)\<rparr>"
  obtain fresh found E b where h: "heap_ok heap_start E st b" "cb_reqmem st = Some (heap_alloc fresh found)" "\<forall>p. agrees (hmem st) p (live {} b p) (m p)"
    by (rule session_okE [OF assms(1)])
  obtain k where k: "live {} b p = Some k" "s \<le> k" "\<forall>i v. c i = Some v \<longrightarrow> 8 dvd i \<and> i < s \<and> hmem st (p + i) = Some v"
    using agrees_cases [OF h(3) [rule_format, of p, unfolded assms(2)]] by blast
  obtain L where r: "rep heap_start E {} {} {} (\<lambda>_. None) st b L" "4096 dvd E" using h(1) by (auto simp: heap_ok_def)
  have bp: "b p = Some (k, False)" using k(1) by (simp add: live_block)
  note n = live_bounds [OF h(1) k(1)] heap_ok_ends [OF h(1)]
  have "8 dvd p + i" using assms(3) n(1) by (auto elim!: dvdE)
  then obtain w where w: "hmem st (p + i) = Some w" using tags_mapped [OF rept [OF r(1)], of "p + i"] n assms(4) k(2) by auto
  have "unat (of_nat (p + i) :: u64) = p + i" by (rule unat_at) (use n assms(4) k(2) in simp)
  then show "store (of_nat (p + i)) v (hmem st) = Some ((hmem st)(p + i := Some v))" using w by (simp add: store_def del: of_nat_add)
  have "rep heap_start E {} {} {} (\<lambda>_. None) ?st b L"
    by (rule rep_data [OF r(1) bp]) (use w assms(4) k(2) in auto)
  then have ok: "heap_ok heap_start E ?st b" using r(2) heap_ok_rep by blast
  show "session_ok ?st (m(p \<mapsto> (s, c(i \<mapsto> v))))"
  proof (rule session_okI [OF ok])
    fix q
    show "agrees (hmem ?st) q (live {} b q) ((m(p \<mapsto> (s, c(i \<mapsto> v)))) q)"
    proof (cases "q = p")
      case True
      then show ?thesis using k assms(3,4) by auto
    next
      case False
      have "q + j \<noteq> p + i" if "live {} b q = Some t" "j < t" for j t
        using live_disjoint [OF h(1) k(1) that(1)] False that(2) assms(4) k(2) by auto
      then show ?thesis using h(3) [rule_format, of q] False by (force simp: agrees_def split: option.splits)
    qed
  qed (use h(2) in simp)
qed

lemma session_sound: "session st m \<Longrightarrow> session_ok st m"
proof (induction rule: session.induct)
  case (boot fresh found h st)
  obtain st' where i: "init_heap fresh found h = Some st'" "heap_ok heap_start heap_end st' [heap_start + 16 \<mapsto> (0x17ffffe0, True)]"
    "cb_reqmem st' = Some (heap_alloc fresh found)" by (rule init_heap_ok)
  have "st' = st" using i(1) boot by simp
  then show ?case using session_okI [OF i(2,3), of Map.empty] by (simp add: live_def)
next
  case (malloc st m s a st')
  then show ?case by (auto elim!: session_malloc [of st m s] simp: unat_at simp del: fun_upd_apply)
next
  case (free st m p c st')
  then show ?case by (auto elim!: session_free [of st m p c] simp del: fun_upd_apply)
next
  case (realloc st m p s c ns a st')
  then show ?case by (auto elim!: session_realloc [of st m p s c ns] simp: unat_at simp del: fun_upd_apply)
next
  case (assign st m p s c i v h)
  then show ?case using session_assign [OF assign.IH, of p s c i v] by (auto simp del: fun_upd_apply)
qed



section \<open>A request that faults\<close>

text \<open>C38: when no free block is large enough and the last block is in use, \<open>malloc\<close> of a multiple of 16 kilobytes reads the head of
  block 0: \<open>mpool_reqmem\<close> asks for as many bytes as the block has, without room for its tags, so the new block is still too small.\<close>

theorem malloc_16k_faults:
  assumes "heap_ok B E st b" "cb_reqmem st = Some (heap_alloc fresh found)" "16384 dvd up16 (unat s)" "unat s + 15 < 2 ^ 64"
    "E + up16k (up16 (unat s)) + 8 < 2 ^ 64" "\<forall>p t. b p = Some (t, True) \<longrightarrow> t < up16 (unat s) \<and> p + t + 16 \<noteq> E" "hmem st (2 ^ 64 - 8) = None"
  shows "malloc s st = None"
proof -
  obtain L where r: "rep B E {} {} {} (\<lambda>_. None) st b L" "4096 dvd E" using assms(1) by (auto simp: heap_ok_def)
  have r1: "rep B E {} {} {2 ^ 64 - 8} (hmem st) st b L"
    by (rule rep_rebase [OF r(1)]) (use assms(5) in \<open>simp add: safe_def\<close>)
  have "mpool_alloc s st = None"
    by (rule src.alloc_fault [OF r1 assms(2,4) refl _ r(2) _ assms(3)]) (use assms in auto)
  then show ?thesis by (simp add: malloc_def)
qed

section \<open>Witnesses\<close>

text \<open>The heap after a first call of \<open>malloc\<close> for \<open>s\<close> bytes, for which the block of the start is large enough.\<close>

lemma booted_malloc:
  assumes "up16 (unat s) \<le> 0x17ffffe0" "unat s + 15 < 2 ^ 64" "heap_end + up16k (up16 (unat s)) < 2 ^ 64"
  obtains p k st b where "malloc s booted_heap = Some (of_nat p, st)" "heap_ok heap_start heap_end st b" "live {} b = [p \<mapsto> k]" "unat s \<le> k"
    "cb_reqmem st = Some (heap_alloc (\<lambda>_. 0) 1)" "hmem st (2 ^ 64 - 8) = None"
proof -
  let ?b = "[heap_start + 16 \<mapsto> (0x17ffffe0 :: nat, True)]"
  have f: "fits heap_end ?b (up16 (unat s))" by (simp add: fits_def)
  obtain p k E st b where m: "malloc s booted_heap = Some (of_nat p, st)" "heap_ok heap_start E st b" "live {} b = (live {} ?b)(p := Some k)"
    "unat s \<le> k" "E = heap_end \<or> (\<forall>q t. ?b q = Some (t, True) \<longrightarrow> t < up16 (unat s))"
    "untouched heap_start (heap_end + up16k (up16 (unat s))) (live {} ?b) booted_heap st" "cb_reqmem st = cb_reqmem booted_heap"
    by (rule malloc_ok [OF booted_heap_ok(1,2) assms(2,3) f]) blast
  have "?b (heap_start + 16) = Some (0x17ffffe0, True)" by simp
  then have "E = heap_end" using m(5) assms(1) by (metis not_le)
  moreover have "live {} ?b = Map.empty" by (simp add: live_def fun_eq_iff)
  moreover have "hmem st (2 ^ 64 - 8) = None" using m(6) booted_heap_ok(3) assms(3) up16k(2) [of "up16 (unat s)"]
    unfolding untouched_def by (auto elim!: dvdE)
  ultimately show ?thesis using that m booted_heap_ok(2) by simp
qed

lemma small_sizes: "up16 100 = 112" "up16 200 = 208" "up16 16384 = 16384" "up16 0x17ffffe0 = 0x17ffffe0"
  "up16k 112 = 16384" "up16k 208 = 16384" "up16k 16384 = 16384" "up16k 0x17ffffe0 = 0x18000000"
  by (simp_all add: up16_def up16k_def)




lemma booted_session: "session booted_heap Map.empty"
proof (rule init_heap_ok [of "\<lambda>_. 0" 1 "\<lambda>_. None"])
  fix st
  assume "init_heap (\<lambda>_. 0) 1 (\<lambda>_. None) = Some st"
  then show ?thesis using session.boot [of "\<lambda>_. 0" 1 "\<lambda>_. None"] by (simp add: booted_heap_def)
qed

lemma booted_proper: "proper_size 100 booted_heap"
  using heap_ok_ends [OF booted_heap_ok(1)] by (simp add: proper_size_def small_sizes)



theorem malloc_16k_faults_witness: "\<exists>a st. malloc 0x17ffffe0 booted_heap = Some (a, st) \<and> malloc 16384 st = None"
proof (rule booted_malloc [of "0x17ffffe0"])
  fix p k st b
  assume m: "malloc 0x17ffffe0 booted_heap = Some (of_nat p, st)" "heap_ok heap_start heap_end st b" "live {} b = [p \<mapsto> k]" "unat (0x17ffffe0 :: u64) \<le> k"
    "cb_reqmem st = Some (heap_alloc (\<lambda>_. 0) 1)" "hmem st (2 ^ 64 - 8) = None"
  obtain L where r: "rep heap_start heap_end {} {} {} (\<lambda>_. None) st b L" using m(2) by (auto simp: heap_ok_def)
  have p: "b p = Some (k, False)" using m(3) live_block [of "{}" b p k] by simp
  have none: "b q \<noteq> Some (t, True)" for q t
  proof
    assume q: "b q = Some (t, True)"
    then have "q \<noteq> p" using p by auto
    then show False using layout_apart [OF repl [OF r] p q] block_bounds [OF repl [OF r] p] block_bounds [OF repl [OF r] q] m(4) by auto
  qed
  have "malloc 16384 st = None" by (rule malloc_16k_faults [OF m(2,5)]) (use none m(6) in \<open>simp_all add: small_sizes\<close>)
  then show ?thesis using m(1) by blast
qed (simp_all add: small_sizes)

end
