(* ===== verification/Vfs.thy ===== *)
theory Vfs
  imports Krlibc
begin

text \<open>
  The tree of nodes of the virtual file system (\<^verbatim>\<open>fs/vfs.c\<close>), over any file systems given by their callbacks.  Nodes are kept in a map, and
  a node that has been freed is no longer in it, so that its use is a fault.  A node is named by the number of its allocation.
  The allocation of nodes, names and list cells succeeds; \<open>not_null_assert\<close> stops the kernel otherwise.
\<close>

section \<open>Nodes\<close>

definition file_none :: u16 where "file_none = 0x1"
definition file_dir :: u16 where "file_dir = 0x2"
definition file_block :: u16 where "file_block = 0x4"
definition file_stream :: u16 where "file_stream = 0x8"
definition file_symlink :: u16 where "file_symlink = 0x10"
definition file_pipe :: u16 where "file_pipe = 0x100"
definition file_socket :: u16 where "file_socket = 0x200"
definition file_proxy :: u16 where "file_proxy = 0x2000"
definition file_delete :: u16 where "file_delete = 0x4000"

lemmas file_types = file_none_def file_dir_def file_block_def file_stream_def file_symlink_def file_pipe_def file_socket_def file_proxy_def file_delete_def

definition VFS_NODE_FLAG_PRIVATE_FD :: u64 where "VFS_NODE_FLAG_PRIVATE_FD = push_bit 63 1"

record vnode =
  nd_parent :: "nat option"
  nd_linkto :: "nat option"
  nd_name :: "string option"
  nd_size :: u64
  nd_inode :: u64
  nd_owner :: u32
  nd_group :: u32
  nd_type :: u16
  nd_refcount :: u32
  nd_mode :: u16
  nd_fsid :: nat
  nd_handle :: "nat option"
  nd_flags :: u64
  nd_child :: "nat list"
  nd_root :: nat
  nd_is_mount :: bool
  nd_dev :: u64
  nd_rdev :: u64
  nd_linkto_path :: "string option"

record vfs =
  nds :: "nat \<rightharpoonup> vnode"
  rootdir :: nat
  inode_now :: u64
  next_node :: nat

text \<open>The callbacks of a file system that the functions below call.  A handle is an address or NULL.\<close>

record 'a vfs_callback =
  cb_mount :: "nat \<Rightarrow> 'a vfs_scheme \<Rightarrow> (int \<times> 'a vfs_scheme) option"
  cb_unmount :: "nat option \<Rightarrow> 'a vfs_scheme \<Rightarrow> 'a vfs_scheme option"
  cb_open :: "nat option \<Rightarrow> string option \<Rightarrow> nat \<Rightarrow> 'a vfs_scheme \<Rightarrow> 'a vfs_scheme option"
  cb_close :: "nat option \<Rightarrow> 'a vfs_scheme \<Rightarrow> (bool \<times> 'a vfs_scheme) option"
  cb_read :: "nat option \<Rightarrow> u64 \<Rightarrow> u64 \<Rightarrow> 'a vfs_scheme \<Rightarrow> (u64 \<times> u8 list) option"
  cb_write :: "nat option \<Rightarrow> u8 list \<Rightarrow> u64 \<Rightarrow> 'a vfs_scheme \<Rightarrow> (u64 \<times> 'a vfs_scheme) option"
  cb_readlink :: "nat option \<Rightarrow> u64 \<Rightarrow> u64 \<Rightarrow> 'a vfs_scheme \<Rightarrow> string option"
  cb_mkdir :: "nat option \<Rightarrow> string \<Rightarrow> nat \<Rightarrow> 'a vfs_scheme \<Rightarrow> (int \<times> 'a vfs_scheme) option"
  cb_mkfile :: "nat option \<Rightarrow> string \<Rightarrow> nat \<Rightarrow> 'a vfs_scheme \<Rightarrow> (int \<times> 'a vfs_scheme) option"
  cb_link :: "nat option \<Rightarrow> string \<Rightarrow> nat \<Rightarrow> 'a vfs_scheme \<Rightarrow> (int \<times> 'a vfs_scheme) option"
  cb_symlink :: "nat option \<Rightarrow> string \<Rightarrow> nat \<Rightarrow> 'a vfs_scheme \<Rightarrow> (int \<times> 'a vfs_scheme) option"
  cb_stat :: "nat option \<Rightarrow> nat \<Rightarrow> 'a vfs_scheme \<Rightarrow> (int \<times> 'a vfs_scheme) option"
  cb_poll :: "nat option \<Rightarrow> u32 \<Rightarrow> 'a vfs_scheme \<Rightarrow> int option"
  cb_delete :: "nat option \<Rightarrow> nat \<Rightarrow> 'a vfs_scheme \<Rightarrow> (int \<times> 'a vfs_scheme) option"
  cb_rename :: "nat option \<Rightarrow> string \<Rightarrow> 'a vfs_scheme \<Rightarrow> (int \<times> 'a vfs_scheme) option"
  cb_free :: "nat option \<Rightarrow> 'a vfs_scheme \<Rightarrow> (int \<times> 'a vfs_scheme) option"
  cb_mknod :: "nat option \<Rightarrow> string \<Rightarrow> nat \<Rightarrow> u16 \<Rightarrow> int \<Rightarrow> 'a vfs_scheme \<Rightarrow> (int \<times> 'a vfs_scheme) option"
  cb_chmod :: "nat \<Rightarrow> u16 \<Rightarrow> 'a vfs_scheme \<Rightarrow> (int \<times> 'a vfs_scheme) option"

type_synonym 'a callbacks = "nat \<Rightarrow> 'a vfs_callback"

definition upd_nd :: "nat \<Rightarrow> (vnode \<Rightarrow> vnode) \<Rightarrow> 'a vfs_scheme \<Rightarrow> 'a vfs_scheme option" where
  "upd_nd n f st = do { v \<leftarrow> nds st n; Some (st\<lparr>nds := (nds st)(n \<mapsto> f v)\<rparr>) }"

definition has :: "u16 \<Rightarrow> u16 \<Rightarrow> bool" where
  "has t flag \<longleftrightarrow> t AND flag \<noteq> 0"

definition vfs_node_alloc :: "nat option \<Rightarrow> string option \<Rightarrow> 'a vfs_scheme \<Rightarrow> (nat \<times> 'a vfs_scheme) option" where
  "vfs_node_alloc parent nm st = do {
     let n = next_node st;
     p \<leftarrow> (case parent of None \<Rightarrow> Some None | Some p \<Rightarrow> map_option Some (nds st p));
     let v = \<lparr>nd_parent = parent, nd_linkto = None, nd_name = nm, nd_size = 0, nd_inode = inode_now st, nd_owner = 0, nd_group = 0,
              nd_type = file_none, nd_refcount = 1, nd_mode = 0x1ff, nd_fsid = (case p of None \<Rightarrow> 0 | Some p \<Rightarrow> nd_fsid p), nd_handle = None,
              nd_flags = 0, nd_child = [], nd_root = (case p of None \<Rightarrow> n | Some p \<Rightarrow> nd_root p), nd_is_mount = False,
              nd_dev = (case p of None \<Rightarrow> 0 | Some p \<Rightarrow> nd_dev p), nd_rdev = 0, nd_linkto_path = None\<rparr>;
     let st = st\<lparr>nds := (nds st)(n \<mapsto> v), inode_now := inode_now st + 1, next_node := n + 1\<rparr>;
     st \<leftarrow> (case parent of None \<Rightarrow> Some st | Some p \<Rightarrow> upd_nd p (\<lambda>v. v\<lparr>nd_child := n # nd_child v\<rparr>) st);
     Some (n, st)
   }"

definition vfs_child_append :: "nat \<Rightarrow> string \<Rightarrow> nat option \<Rightarrow> 'a vfs_scheme \<Rightarrow> (nat \<times> 'a vfs_scheme) option" where
  "vfs_child_append parent nm handle st = do {
     (n, st) \<leftarrow> vfs_node_alloc (Some parent) (Some nm) st;
     st \<leftarrow> upd_nd n (\<lambda>v. v\<lparr>nd_handle := handle\<rparr>) st;
     Some (n, st)
   }"

primrec first_named :: "string \<Rightarrow> nat list \<Rightarrow> 'a vfs_scheme \<Rightarrow> nat option option" where
  "first_named nm [] st = Some None"
| "first_named nm (n # ns) st = do {
     v \<leftarrow> nds st n;
     if nd_name v = Some nm then Some (Some n) else first_named nm ns st
   }"

definition vfs_child_find :: "nat \<Rightarrow> string \<Rightarrow> 'a vfs_scheme \<Rightarrow> nat option option" where
  "vfs_child_find parent nm st = do { v \<leftarrow> nds st parent; first_named nm (nd_child v) st }"

definition pathtok :: "string \<Rightarrow> (string \<times> string) option" where
  "pathtok s =
     (let e = dropWhile (\<lambda>c. c = CHR ''/'') s in
      if e = [] then None
      else Some (takeWhile (\<lambda>c. c \<noteq> CHR ''/'') e, tl (dropWhile (\<lambda>c. c \<noteq> CHR ''/'') e)))"

section \<open>Bringing a node up to date\<close>

definition do_open :: "'a callbacks \<Rightarrow> nat \<Rightarrow> 'a vfs_scheme \<Rightarrow> 'a vfs_scheme option" where
  "do_open cbs n st = do {
     v \<leftarrow> nds st n;
     if nd_handle v \<noteq> None then do { (_, st) \<leftarrow> cb_stat (cbs (nd_fsid v)) (nd_handle v) n st; Some st }
     else do {
       p \<leftarrow> nd_parent v;
       pv \<leftarrow> nds st p;
       cb_open (cbs (nd_fsid v)) (nd_handle pv) (nd_name v) n st
     }
   }"

definition do_update :: "'a callbacks \<Rightarrow> nat \<Rightarrow> 'a vfs_scheme \<Rightarrow> 'a vfs_scheme option" where
  "do_update cbs n st = do {
     v \<leftarrow> nds st n;
     let t = nd_type v;
     if has t file_none \<or> nd_handle v = None \<or> has t file_dir \<or> has t file_symlink \<or> has t file_pipe \<or> has t file_socket
     then do_open cbs n st else Some st
   }"

definition vfs_update :: "'a callbacks \<Rightarrow> nat \<Rightarrow> 'a vfs_scheme \<Rightarrow> 'a vfs_scheme option" where
  "vfs_update cbs n st = do_update cbs n st"

section \<open>Full paths\<close>

partial_function (option) ancestors :: "'a vfs_scheme \<Rightarrow> nat option \<Rightarrow> nat list option" where
  "ancestors st cur =
     (case cur of
        None \<Rightarrow> Some []
      | Some n \<Rightarrow> do { v \<leftarrow> nds st n; ns \<leftarrow> ancestors st (nd_parent v); Some (n # ns) })"

declare ancestors.simps [code]

text \<open>\<open>j\<close> counts down to the node itself, after which there is no slash.\<close>

fun append_names :: "nat list \<Rightarrow> string \<Rightarrow> 'a vfs_scheme \<Rightarrow> string option" where
  "append_names [] buff st = Some buff"
| "append_names (n # ns) buff st =
     (if n = rootdir st then append_names ns buff st
      else do {
        v \<leftarrow> nds st n;
        nm \<leftarrow> nd_name v;
        buff \<leftarrow> strcat 256 buff nm;
        buff \<leftarrow> (if ns \<noteq> [] then strcat 256 buff ''/'' else Some buff);
        append_names ns buff st
      })"

definition vfs_get_fullpath :: "nat option \<Rightarrow> 'a vfs_scheme \<Rightarrow> string option option" where
  "vfs_get_fullpath n st =
     (if n = None then Some None
      else do { ns \<leftarrow> ancestors st n; map_option Some (append_names (rev ns) ''/'' st) })"

definition vfs_cwd_path_build :: "nat option \<Rightarrow> string \<Rightarrow> 'a vfs_scheme \<Rightarrow> string option option" where
  "vfs_cwd_path_build cwd src st = do {
     path \<leftarrow> (if hd0 src = CHR ''/'' then Some src
               else do { bpath \<leftarrow> vfs_get_fullpath cwd st; bpath \<leftarrow> bpath; pathacat bpath src });
     normalize_path (\<lambda>_. True) (Some path)
   }"

section \<open>Looking up paths\<close>

text \<open>The absolute path that a symbolic link stands for.\<close>

definition link_path :: "nat \<Rightarrow> string \<Rightarrow> 'a vfs_scheme \<Rightarrow> string option option" where
  "link_path n lp st =
     (if hd0 lp = CHR ''/'' then Some (Some lp)
      else do {
        v \<leftarrow> nds st n;
        base \<leftarrow> vfs_get_fullpath (Some (case nd_parent v of Some p \<Rightarrow> p | None \<Rightarrow> rootdir st)) st;
        (case base of
           None \<Rightarrow> Some None
         | Some base \<Rightarrow> do { joined \<leftarrow> pathacat base lp; normalize_path (\<lambda>_. True) (Some joined) })
      })"

text \<open>
  The loop of \<open>vfs_open\<close> from a node along a path without its first slash.  A link is resolved by a call of \<open>vfs_open\<close> in its turn, so
  links in a circle make it run forever.  For the path of the root directory the loop makes no round.
\<close>

partial_function (option) open_walk :: "'a callbacks \<Rightarrow> nat \<Rightarrow> string \<Rightarrow> 'a vfs_scheme \<Rightarrow> (nat option \<times> 'a vfs_scheme) option" where
  "open_walk cbs current path st =
     (case pathtok path of
        None \<Rightarrow> Some (Some current, st)
      | Some (buf, rest) \<Rightarrow>
          if buf = ''.'' then open_walk cbs current rest st
          else if buf = ''..'' then do {
            v \<leftarrow> nds st current;
            open_walk cbs (case nd_parent v of Some p \<Rightarrow> p | None \<Rightarrow> current) rest st
          }
          else do {
            c \<leftarrow> vfs_child_find current buf st;
            (case c of
               None \<Rightarrow> Some (None, st)
             | Some n \<Rightarrow> do {
                 st \<leftarrow> do_update cbs n st;
                 v \<leftarrow> nds st n;
                 if has (nd_type v) file_symlink then
                   if nd_parent v = None \<or> (nd_linkto v = None \<and> nd_linkto_path v = None) then Some (None, st)
                   else do {
                     st \<leftarrow> upd_nd n (\<lambda>v. v\<lparr>nd_type := file_symlink OR file_proxy\<rparr>) st;
                     (target, st) \<leftarrow> (case nd_linkto v of
                        Some t \<Rightarrow> Some (Some t, st)
                      | None \<Rightarrow> do {
                          lp \<leftarrow> nd_linkto_path v;
                          p \<leftarrow> link_path n lp st;
                          (case p of
                             None \<Rightarrow> Some (None, st)
                           | Some p \<Rightarrow> if hd0 p = CHR ''/'' then open_walk cbs (rootdir st) (tl p) st else Some (None, st))
                        });
                     (case target of
                        None \<Rightarrow> Some (None, st)
                      | Some t \<Rightarrow> do {
                          st \<leftarrow> upd_nd t (\<lambda>v. v\<lparr>nd_refcount := nd_refcount v + 1\<rparr>) st;
                          open_walk cbs t rest st
                        })
                   }
                 else open_walk cbs n rest st
               })
          })"

declare open_walk.simps [code]

definition vfs_open :: "'a callbacks \<Rightarrow> string \<Rightarrow> 'a vfs_scheme \<Rightarrow> (nat option \<times> 'a vfs_scheme) option" where
  "vfs_open cbs str st =
     (if hd0 str \<noteq> CHR ''/'' then Some (None, st)
      else if tl str = [] then Some (Some (rootdir st), st)
      else open_walk cbs (rootdir st) (tl str) st)"

definition vfs_resolve_symlink_target :: "'a callbacks \<Rightarrow> nat \<Rightarrow> 'a vfs_scheme \<Rightarrow> (nat option \<times> 'a vfs_scheme) option" where
  "vfs_resolve_symlink_target cbs n st = do {
     v \<leftarrow> nds st n;
     (case nd_linkto v of
        Some t \<Rightarrow> Some (Some t, st)
      | None \<Rightarrow>
          (case nd_linkto_path v of
             None \<Rightarrow> Some (None, st)
           | Some lp \<Rightarrow> do {
               p \<leftarrow> link_path n lp st;
               (case p of None \<Rightarrow> Some (None, st) | Some p \<Rightarrow> vfs_open cbs p st)
             }))
   }"

partial_function (option) nofollow_walk :: "'a callbacks \<Rightarrow> nat \<Rightarrow> string \<Rightarrow> 'a vfs_scheme \<Rightarrow> (nat option \<times> 'a vfs_scheme) option" where
  "nofollow_walk cbs current path st =
     (case pathtok path of
        None \<Rightarrow> Some (Some current, st)
      | Some (buf, rest) \<Rightarrow>
          if buf = ''.'' then nofollow_walk cbs current rest st
          else if buf = ''..'' then do {
            v \<leftarrow> nds st current;
            nofollow_walk cbs (case nd_parent v of Some p \<Rightarrow> p | None \<Rightarrow> current) rest st
          }
          else do {
            c \<leftarrow> vfs_child_find current buf st;
            (case c of
               None \<Rightarrow> Some (None, st)
             | Some n \<Rightarrow> do {
                 st \<leftarrow> do_update cbs n st;
                 v \<leftarrow> nds st n;
                 if has (nd_type v) file_symlink then
                   if rest = [] then do {
                     st \<leftarrow> upd_nd n (\<lambda>v. v\<lparr>nd_type := nd_type v AND NOT file_proxy\<rparr>) st;
                     Some (Some n, st)
                   }
                   else if nd_parent v = None \<or> (nd_linkto v = None \<and> nd_linkto_path v = None) then Some (None, st)
                   else do {
                     st \<leftarrow> upd_nd n (\<lambda>v. v\<lparr>nd_type := file_symlink OR file_proxy\<rparr>) st;
                     (target, st) \<leftarrow> vfs_resolve_symlink_target cbs n st;
                     (case target of
                        None \<Rightarrow> Some (None, st)
                      | Some t \<Rightarrow> do {
                          st \<leftarrow> upd_nd t (\<lambda>v. v\<lparr>nd_refcount := nd_refcount v + 1\<rparr>) st;
                          nofollow_walk cbs t rest st
                        })
                   }
                 else nofollow_walk cbs n rest st
               })
          })"

declare nofollow_walk.simps [code]

definition vfs_open_nofollow :: "'a callbacks \<Rightarrow> string \<Rightarrow> 'a vfs_scheme \<Rightarrow> (nat option \<times> 'a vfs_scheme) option" where
  "vfs_open_nofollow cbs str st =
     (if hd0 str \<noteq> CHR ''/'' then Some (None, st)
      else if tl str = [] then Some (Some (rootdir st), st)
      else nofollow_walk cbs (rootdir st) (tl str) st)"

section \<open>Creating nodes\<close>

text \<open>\<open>vfs_mkdir\<close>: for each name of the path the child is taken, or made when there is none.  True is success.\<close>

definition make_dir :: "'a callbacks \<Rightarrow> nat \<Rightarrow> string \<Rightarrow> 'a vfs_scheme \<Rightarrow> (nat \<times> 'a vfs_scheme) option" where
  "make_dir cbs father buf st = do {
     (n, st) \<leftarrow> vfs_node_alloc (Some father) (Some buf) st;
     st \<leftarrow> upd_nd n (\<lambda>v. v\<lparr>nd_type := file_dir\<rparr>) st;
     f \<leftarrow> nds st father;
     (_, st) \<leftarrow> cb_mkdir (cbs (nd_fsid f)) (nd_handle f) buf n st;
     Some (n, st)
   }"

definition enter_dir :: "'a callbacks \<Rightarrow> nat \<Rightarrow> 'a vfs_scheme \<Rightarrow> (nat option \<times> 'a vfs_scheme) option" where
  "enter_dir cbs n st = do {
     st \<leftarrow> do_update cbs n st;
     v \<leftarrow> nds st n;
     (target, st) \<leftarrow> (if has (nd_type v) file_symlink then do {
        (target, st) \<leftarrow> vfs_resolve_symlink_target cbs n st;
        (case target of None \<Rightarrow> Some (None, st) | Some t \<Rightarrow> do { st \<leftarrow> do_update cbs t st; Some (Some t, st) })
      } else Some (Some n, st));
     (case target of
        None \<Rightarrow> Some (None, st)
      | Some t \<Rightarrow> do { v \<leftarrow> nds st t; Some (if has (nd_type v) file_dir then Some t else None, st) })
   }"

partial_function (option) mkdir_walk :: "'a callbacks \<Rightarrow> nat \<Rightarrow> string \<Rightarrow> 'a vfs_scheme \<Rightarrow> (bool \<times> 'a vfs_scheme) option" where
  "mkdir_walk cbs current path st =
     (case pathtok path of
        None \<Rightarrow> Some (True, st)
      | Some (buf, rest) \<Rightarrow>
          if buf = ''.'' then mkdir_walk cbs current rest st
          else do {
            v \<leftarrow> nds st current;
            if buf = ''..'' \<and> \<not> (nd_parent v \<noteq> None \<and> has (nd_type v) file_dir) then Some (False, st)
            else do {
              c \<leftarrow> (if buf = ''..'' then Some (nd_parent v) else vfs_child_find current buf st);
              (case c of
                 None \<Rightarrow> do {
                   (n, st) \<leftarrow> make_dir cbs current buf st;
                   st \<leftarrow> do_update cbs n st;
                   mkdir_walk cbs n rest st
                 }
               | Some n \<Rightarrow> do {
                   (t, st) \<leftarrow> enter_dir cbs n st;
                   (case t of None \<Rightarrow> Some (False, st) | Some t \<Rightarrow> mkdir_walk cbs t rest st)
                 })
            }
          })"

declare mkdir_walk.simps [code]

definition vfs_mkdir :: "'a callbacks \<Rightarrow> string \<Rightarrow> 'a vfs_scheme \<Rightarrow> (int \<times> 'a vfs_scheme) option" where
  "vfs_mkdir cbs nm st =
     (if hd0 nm \<noteq> CHR ''/'' then Some (- 22, st)
      else do {
        (ok, st) \<leftarrow> mkdir_walk cbs (rootdir st) (tl nm) st;
        Some (if ok then 0 else - 20, st)
      })"

text \<open>
  The path of a new link, without its first slash, up to and after its last slash, if that is not at the start.  For the empty path the
  code reads before its start.
\<close>

definition split_last :: "string \<Rightarrow> (string option \<times> string) option" where
  "split_last path =
     (if path = [] then None
      else
        let after = takeWhile (\<lambda>c. c \<noteq> CHR ''/'') (rev path) in
        let k = length path - length after in
        Some (if k \<ge> 2 then (Some (take (k - 1) path), drop k path) else (None, path)))"

text \<open>The directories on the way to a new link, made when they are missing; links among them are not followed.\<close>

partial_function (option) link_walk :: "'a callbacks \<Rightarrow> nat \<Rightarrow> string \<Rightarrow> 'a vfs_scheme \<Rightarrow> (nat option \<times> 'a vfs_scheme) option" where
  "link_walk cbs current path st =
     (case pathtok path of
        None \<Rightarrow> Some (Some current, st)
      | Some (buf, rest) \<Rightarrow>
          if buf = ''.'' then link_walk cbs current rest st
          else if buf = ''..'' then do {
            v \<leftarrow> nds st current;
            (case nd_parent v of
               None \<Rightarrow> Some (None, st)
             | Some p \<Rightarrow> if has (nd_type v) file_dir then link_walk cbs p rest st else Some (None, st))
          }
          else do {
            c \<leftarrow> vfs_child_find current buf st;
            (n, st) \<leftarrow> (case c of Some n \<Rightarrow> Some (n, st) | None \<Rightarrow> make_dir cbs current buf st);
            st \<leftarrow> do_update cbs n st;
            v \<leftarrow> nds st n;
            if has (nd_type v) file_dir then link_walk cbs n rest st else Some (None, st)
          })"

declare link_walk.simps [code]

definition link_parent :: "'a callbacks \<Rightarrow> string option \<Rightarrow> 'a vfs_scheme \<Rightarrow> (nat option \<times> 'a vfs_scheme) option" where
  "link_parent cbs dir st = (case dir of None \<Rightarrow> Some (Some (rootdir st), st) | Some dir \<Rightarrow> link_walk cbs (rootdir st) dir st)"

definition vfs_link :: "'a callbacks \<Rightarrow> string \<Rightarrow> string \<Rightarrow> 'a vfs_scheme \<Rightarrow> (int \<times> 'a vfs_scheme) option" where
  "vfs_link cbs nm target_name st = do {
     (dir, filename) \<leftarrow> split_last (tl nm);
     (current, st) \<leftarrow> link_parent cbs dir st;
     (case current of
        None \<Rightarrow> Some (- 20, st)
      | Some current \<Rightarrow> do {
          (n, st) \<leftarrow> vfs_child_append current filename None st;
          st \<leftarrow> upd_nd n (\<lambda>v. v\<lparr>nd_type := file_none\<rparr>) st;
          c \<leftarrow> nds st current;
          (_, st) \<leftarrow> cb_link (cbs (nd_fsid c)) (nd_handle c) target_name n st;
          (target, st) \<leftarrow> vfs_open cbs target_name st;
          st \<leftarrow> upd_nd n (\<lambda>v. v\<lparr>nd_linkto := target\<rparr>) st;
          Some (0, st)
        })
   }"

definition vfs_symlink :: "'a callbacks \<Rightarrow> string \<Rightarrow> string \<Rightarrow> 'a vfs_scheme \<Rightarrow> (int \<times> 'a vfs_scheme) option" where
  "vfs_symlink cbs nm target_name st = do {
     (dir, filename) \<leftarrow> split_last (tl nm);
     (current, st) \<leftarrow> link_parent cbs dir st;
     (case current of
        None \<Rightarrow> Some (- 5, st)
      | Some current \<Rightarrow> do {
          (n, st) \<leftarrow> vfs_child_append current filename None st;
          st \<leftarrow> upd_nd n (\<lambda>v. v\<lparr>nd_type := file_symlink\<rparr>) st;
          c \<leftarrow> nds st current;
          (_, st) \<leftarrow> cb_symlink (cbs (nd_fsid c)) (nd_handle c) target_name n st;
          (target, st) \<leftarrow> vfs_open cbs target_name st;
          st \<leftarrow> upd_nd n (\<lambda>v. v\<lparr>nd_linkto := target, nd_linkto_path := Some target_name\<rparr>) st;
          Some (0, st)
        })
   }"

text \<open>The directory of a new file and its name, from the last slash on.\<close>

definition file_parent :: "'a callbacks \<Rightarrow> string \<Rightarrow> 'a vfs_scheme \<Rightarrow> ((nat option \<times> string) \<times> 'a vfs_scheme) option" where
  "file_parent cbs nm st = do {
     lastslash \<leftarrow> strrchr nm (CHR ''/'');
     if length lastslash = length nm then Some ((Some (rootdir st), tl nm), st)
     else do {
       (parent, st) \<leftarrow> vfs_open cbs (take (length nm - length lastslash) nm) st;
       Some ((parent, tl lastslash), st)
     }
   }"

definition vfs_mkfile :: "'a callbacks \<Rightarrow> string \<Rightarrow> 'a vfs_scheme \<Rightarrow> (int \<times> 'a vfs_scheme) option" where
  "vfs_mkfile cbs nm st =
     (if hd0 nm \<noteq> CHR ''/'' then Some (- 22, st)
      else do {
        ((parent, filename), st) \<leftarrow> file_parent cbs nm st;
        (case parent of
           None \<Rightarrow> Some (- 2, st)
         | Some p \<Rightarrow> do {
             v \<leftarrow> nds st p;
             if nd_type v \<noteq> file_dir then Some (- 2, st)
             else do {
               (n, st) \<leftarrow> vfs_child_append p filename None st;
               st \<leftarrow> upd_nd n (\<lambda>v. v\<lparr>nd_type := file_none\<rparr>) st;
               v \<leftarrow> nds st p;
               cb_mkfile (cbs (nd_fsid v)) (nd_handle v) filename n st
             }
           })
      })"

definition vfs_mknod :: "'a callbacks \<Rightarrow> string \<Rightarrow> u16 \<Rightarrow> int \<Rightarrow> 'a vfs_scheme \<Rightarrow> (int \<times> 'a vfs_scheme) option" where
  "vfs_mknod cbs nm mode dev st =
     (if hd0 nm \<noteq> CHR ''/'' then Some (- 22, st)
      else do {
        ((parent, filename), st) \<leftarrow> file_parent cbs nm st;
        (case parent of
           None \<Rightarrow> Some (- 2, st)
         | Some p \<Rightarrow> do {
             v \<leftarrow> nds st p;
             if nd_type v \<noteq> file_dir then Some (- 2, st)
             else do {
               c \<leftarrow> vfs_child_find p filename st;
               if c \<noteq> None then Some (- 17, st)
               else do {
                 (n, st) \<leftarrow> vfs_child_append p filename None st;
                 v \<leftarrow> nds st p;
                 cb_mknod (cbs (nd_fsid v)) (nd_handle v) filename n mode dev st
               }
             }
           })
      })"

section \<open>Removing nodes\<close>

primrec some_live :: "nat list \<Rightarrow> 'a vfs_scheme \<Rightarrow> bool option" where
  "some_live [] st = Some False"
| "some_live (n # ns) st = do { v \<leftarrow> nds st n; if \<not> has (nd_type v) file_delete then Some True else some_live ns st }"

definition vfs_dir_has_live_child :: "nat \<Rightarrow> 'a vfs_scheme \<Rightarrow> bool option" where
  "vfs_dir_has_live_child n st = do { v \<leftarrow> nds st n; some_live (nd_child v) st }"

definition unlink_child :: "nat option \<Rightarrow> nat \<Rightarrow> 'a vfs_scheme \<Rightarrow> 'a vfs_scheme option" where
  "unlink_child parent n st = (case parent of None \<Rightarrow> Some st | Some p \<Rightarrow> upd_nd p (\<lambda>v. v\<lparr>nd_child := remove1 n (nd_child v)\<rparr>) st)"

definition vfs_delete :: "nat \<Rightarrow> 'a vfs_scheme \<Rightarrow> (int \<times> 'a vfs_scheme) option" where
  "vfs_delete n st =
     (if n = rootdir st then Some (- 22, st)
      else do {
        v \<leftarrow> nds st n;
        live \<leftarrow> (if has (nd_type v) file_dir then vfs_dir_has_live_child n st else Some False);
        if live then Some (- 39, st)
        else do {
          st \<leftarrow> upd_nd n (\<lambda>v. v\<lparr>nd_type := nd_type v OR file_delete\<rparr>) st;
          st \<leftarrow> unlink_child (nd_parent v) n st;
          Some (0, st)
        }
      })"

definition vfs_rename :: "'a callbacks \<Rightarrow> nat \<Rightarrow> string \<Rightarrow> 'a vfs_scheme \<Rightarrow> (int \<times> 'a vfs_scheme) option" where
  "vfs_rename cbs n new st = do { v \<leftarrow> nds st n; cb_rename (cbs (nd_fsid v)) (nd_handle v) new st }"

text \<open>
  \<open>vfs_close\<close> up to the point where it destroys the node: the result, and whether it does.  \<open>special\<close> stands for the branches of pipes and
  sockets.
\<close>

definition delete_and_unlink :: "'a callbacks \<Rightarrow> nat \<Rightarrow> 'a vfs_scheme \<Rightarrow> (int \<times> bool \<times> 'a vfs_scheme) option" where
  "delete_and_unlink cbs n st = do {
     v \<leftarrow> nds st n;
     p \<leftarrow> nd_parent v;
     pv \<leftarrow> nds st p;
     (res, st) \<leftarrow> cb_delete (cbs (nd_fsid v)) (nd_handle pv) n st;
     if res < 0 then Some (res, False, st)
     else do {
       st \<leftarrow> unlink_child (Some p) n st;
       st \<leftarrow> upd_nd n (\<lambda>v. v\<lparr>nd_handle := None\<rparr>) st;
       Some (0, True, st)
     }
   }"

definition close_step :: "'a callbacks \<Rightarrow> (nat \<Rightarrow> 'a vfs_scheme \<Rightarrow> (int \<times> 'a vfs_scheme) option) \<Rightarrow> nat \<Rightarrow> 'a vfs_scheme \<Rightarrow> (int \<times> bool \<times> 'a vfs_scheme) option" where
  "close_step cbs special n st =
     (if n = rootdir st then Some (0, False, st)
      else do {
        st \<leftarrow> upd_nd n (\<lambda>v. v\<lparr>nd_refcount := nd_refcount v - 1\<rparr>) st;
        v \<leftarrow> nds st n;
        if nd_handle v = None \<or> has (nd_type v) file_proxy then Some (0, False, st)
        else if has (nd_type v) file_pipe \<or> has (nd_type v) file_socket then do { (r, st) \<leftarrow> special n st; Some (r, False, st) }
        else if has (nd_type v) file_dir then
          if \<not> has (nd_type v) file_delete then Some (0, False, st)
          else do {
            live \<leftarrow> vfs_dir_has_live_child n st;
            if live then Some (- 39, False, st) else delete_and_unlink cbs n st
          }
        else if nd_refcount v \<noteq> 0 then Some (0, False, st)
        else if has (nd_type v) file_delete then delete_and_unlink cbs n st
        else do {
          (close_drop, st) \<leftarrow> cb_close (cbs (nd_fsid v)) (nd_handle v) st;
          if nd_flags v AND VFS_NODE_FLAG_PRIVATE_FD \<noteq> 0 then do {
            (_, st) \<leftarrow> cb_free (cbs (nd_fsid v)) (nd_handle v) st;
            Some (0, False, st\<lparr>nds := (nds st)(n := None)\<rparr>)
          }
          else do {
            st \<leftarrow> (if close_drop then upd_nd n (\<lambda>v. v\<lparr>nd_handle := None\<rparr>) st else Some st);
            Some (0, False, st)
          }
        }
      })"

definition release_node :: "'a callbacks \<Rightarrow> nat \<Rightarrow> 'a vfs_scheme \<Rightarrow> 'a vfs_scheme option" where
  "release_node cbs n st = do {
     v \<leftarrow> nds st n;
     (_, st) \<leftarrow> cb_free (cbs (nd_fsid v)) (nd_handle v) st;
     Some (st\<lparr>nds := (nds st)(n := None)\<rparr>)
   }"

text \<open>\<open>vfs_free\<close> of each node of a list, with what hangs below it.\<close>

partial_function (option) free_all ::
  "'a callbacks \<Rightarrow> (nat \<Rightarrow> 'a vfs_scheme \<Rightarrow> (int \<times> 'a vfs_scheme) option) \<Rightarrow> nat list \<Rightarrow> 'a vfs_scheme \<Rightarrow> 'a vfs_scheme option" where
  "free_all cbs special ns st =
     (case ns of
        [] \<Rightarrow> Some st
      | n # ns \<Rightarrow> do {
          v \<leftarrow> nds st n;
          st \<leftarrow> free_all cbs special (nd_child v) st;
          (_, destroy, st) \<leftarrow> close_step cbs special n st;
          st \<leftarrow> (if destroy then do {
             v \<leftarrow> nds st n;
             st \<leftarrow> free_all cbs special (nd_child v) st;
             release_node cbs n st
           } else Some st);
          st \<leftarrow> release_node cbs n st;
          free_all cbs special ns st
        })"

declare free_all.simps [code]

definition vfs_free :: "'a callbacks \<Rightarrow> (nat \<Rightarrow> 'a vfs_scheme \<Rightarrow> (int \<times> 'a vfs_scheme) option) \<Rightarrow> nat option \<Rightarrow> 'a vfs_scheme \<Rightarrow> 'a vfs_scheme option" where
  "vfs_free cbs special n st = (case n of None \<Rightarrow> Some st | Some n \<Rightarrow> free_all cbs special [n] st)"

definition vfs_free_child :: "'a callbacks \<Rightarrow> (nat \<Rightarrow> 'a vfs_scheme \<Rightarrow> (int \<times> 'a vfs_scheme) option) \<Rightarrow> nat \<Rightarrow> 'a vfs_scheme \<Rightarrow> 'a vfs_scheme option" where
  "vfs_free_child cbs special n st = do { v \<leftarrow> nds st n; free_all cbs special (nd_child v) st }"

definition vfs_destroy_closed_node ::
  "'a callbacks \<Rightarrow> (nat \<Rightarrow> 'a vfs_scheme \<Rightarrow> (int \<times> 'a vfs_scheme) option) \<Rightarrow> nat \<Rightarrow> 'a vfs_scheme \<Rightarrow> 'a vfs_scheme option" where
  "vfs_destroy_closed_node cbs special n st = do { st \<leftarrow> vfs_free_child cbs special n st; release_node cbs n st }"

definition vfs_close ::
  "'a callbacks \<Rightarrow> (nat \<Rightarrow> 'a vfs_scheme \<Rightarrow> (int \<times> 'a vfs_scheme) option) \<Rightarrow> nat option \<Rightarrow> 'a vfs_scheme \<Rightarrow> (int \<times> 'a vfs_scheme) option" where
  "vfs_close cbs special n st =
     (case n of
        None \<Rightarrow> Some (- 22, st)
      | Some n \<Rightarrow> do {
          (r, destroy, st) \<leftarrow> close_step cbs special n st;
          st \<leftarrow> (if destroy then vfs_destroy_closed_node cbs special n st else Some st);
          Some (r, st)
        })"

section \<open>Mounting\<close>

text \<open>\<open>fs\<close> is the file system of the given name, if it is registered.\<close>

definition vfs_mount :: "'a callbacks \<Rightarrow> nat option \<Rightarrow> nat option \<Rightarrow> 'a vfs_scheme \<Rightarrow> (int \<times> 'a vfs_scheme) option" where
  "vfs_mount cbs fs n st =
     (case n of
        None \<Rightarrow> Some (- 22, st)
      | Some n \<Rightarrow> do {
          v \<leftarrow> nds st n;
          if nd_type v \<noteq> file_dir then Some (- 22, st)
          else if nd_is_mount v then Some (- 16, st)
          else (case fs of
            None \<Rightarrow> Some (- 19, st)
          | Some fs \<Rightarrow> do {
              (ret, st) \<leftarrow> cb_mount (cbs fs) n st;
              if ret = 0 then do {
                st \<leftarrow> upd_nd n (\<lambda>v. v\<lparr>nd_fsid := fs, nd_root := n, nd_is_mount := True\<rparr>) st;
                Some (0, st)
              }
              else Some (if ret < 0 then ret else - 5, st)
            })
        })"

definition vfs_unmount ::
  "'a callbacks \<Rightarrow> (nat \<Rightarrow> 'a vfs_scheme \<Rightarrow> (int \<times> 'a vfs_scheme) option) \<Rightarrow> string \<Rightarrow> 'a vfs_scheme \<Rightarrow> (int \<times> 'a vfs_scheme) option" where
  "vfs_unmount cbs special path st = do {
     (cur, st) \<leftarrow> vfs_open cbs path st;
     (case cur of
        None \<Rightarrow> Some (- 22, st)
      | Some cur \<Rightarrow> do {
          v \<leftarrow> nds st cur;
          if nd_type v \<noteq> file_dir then Some (- 20, st)
          else if nd_fsid v = 0 then Some (- 22, st)
          else (case nd_parent v of
            None \<Rightarrow> Some (- 2, st)
          | Some p \<Rightarrow>
              if nd_root v \<noteq> cur then Some (- 2, st)
              else do {
                st \<leftarrow> vfs_free_child cbs special cur st;
                v \<leftarrow> nds st cur;
                st \<leftarrow> cb_unmount (cbs (nd_fsid v)) (nd_handle v) st;
                pv \<leftarrow> nds st p;
                st \<leftarrow> upd_nd cur (\<lambda>v. v\<lparr>nd_fsid := nd_fsid pv, nd_root := nd_root pv, nd_handle := None, nd_child := [], nd_is_mount := False\<rparr>) st;
                st \<leftarrow> (if nd_fsid pv \<noteq> 0 then do_update cbs cur st else Some st);
                Some (0, st)
              })
        })
   }"

section \<open>Reading and writing\<close>

text \<open>The value returned and the bytes that are copied out, or a value alone where there is none.\<close>

definition vfs_read :: "'a callbacks \<Rightarrow> nat option \<Rightarrow> u64 \<Rightarrow> u64 \<Rightarrow> 'a vfs_scheme \<Rightarrow> ((u64 \<times> u8 list) \<times> 'a vfs_scheme) option" where
  "vfs_read cbs n offset sz st =
     (case n of
        None \<Rightarrow> Some ((- 1, []), st)
      | Some n \<Rightarrow> do {
          st \<leftarrow> do_update cbs n st;
          v \<leftarrow> nds st n;
          if nd_type v = file_dir then Some ((- 1, []), st)
          else do { r \<leftarrow> cb_read (cbs (nd_fsid v)) (nd_handle v) offset sz st; Some (r, st) }
        })"

definition vfs_write :: "'a callbacks \<Rightarrow> nat option \<Rightarrow> u8 list \<Rightarrow> u64 \<Rightarrow> 'a vfs_scheme \<Rightarrow> (u64 \<times> 'a vfs_scheme) option" where
  "vfs_write cbs n bytes offset st =
     (case n of
        None \<Rightarrow> Some (- 1, st)
      | Some n \<Rightarrow> do {
          st \<leftarrow> do_update cbs n st;
          v \<leftarrow> nds st n;
          if nd_type v = file_dir then Some (- 1, st)
          else do {
            (ret, st) \<leftarrow> cb_write (cbs (nd_fsid v)) (nd_handle v) bytes offset st;
            st \<leftarrow> do_update cbs n st;
            Some (ret, st)
          }
        })"

definition vfs_chmod :: "'a callbacks \<Rightarrow> nat option \<Rightarrow> u16 \<Rightarrow> 'a vfs_scheme \<Rightarrow> (int \<times> 'a vfs_scheme) option" where
  "vfs_chmod cbs n mode st =
     (case n of
        None \<Rightarrow> Some (- 22, st)
      | Some n \<Rightarrow> do {
          st \<leftarrow> do_update cbs n st;
          v \<leftarrow> nds st n;
          (ret, st) \<leftarrow> cb_chmod (cbs (nd_fsid v)) n mode st;
          st \<leftarrow> (if ret = 0 then upd_nd n (\<lambda>v. v\<lparr>nd_mode := mode\<rparr>) st else Some st);
          Some (ret, st)
        })"

definition vfs_readlink :: "'a callbacks \<Rightarrow> nat \<Rightarrow> u64 \<Rightarrow> 'a vfs_scheme \<Rightarrow> string option" where
  "vfs_readlink cbs n bufsize st = do { v \<leftarrow> nds st n; cb_readlink (cbs (nd_fsid v)) (Some n) 0 bufsize st }"

definition set_rootdir :: "nat \<Rightarrow> 'a vfs_scheme \<Rightarrow> 'a vfs_scheme option" where
  "set_rootdir n st = upd_nd n (\<lambda>v. v\<lparr>nd_parent := None\<rparr>) (st\<lparr>rootdir := n\<rparr>)"

definition at_fdcwd :: int where "at_fdcwd = - 100"

text \<open>\<open>fds\<close> gives the node of each open descriptor.\<close>

definition at_resolve_pathname :: "nat option \<Rightarrow> (int \<rightharpoonup> nat) \<Rightarrow> int \<Rightarrow> string \<Rightarrow> 'a vfs_scheme \<Rightarrow> string option option" where
  "at_resolve_pathname cwd fds dirfd pathname st =
     (if hd0 pathname = CHR ''/'' then Some (Some pathname)
      else if dirfd = at_fdcwd then vfs_cwd_path_build cwd pathname st
      else (case fds dirfd of
        None \<Rightarrow> Some None
      | Some n \<Rightarrow> do {
          v \<leftarrow> nds st n;
          if nd_type v \<noteq> file_dir then Some None
          else do { dirname \<leftarrow> vfs_get_fullpath (Some n) st; dirname \<leftarrow> dirname; Some (Some (dirname @ ''/'' @ pathname)) }
        }))"

section \<open>Registered file systems\<close>

text \<open>The list of file systems; there is room for 255 tables of callbacks and for names of nine characters.\<close>

record vfs_filesystem =
  fs_name :: string
  fs_fsid :: nat
  fs_magic :: u64
  fs_flags :: u64

record filesystems =
  fs_nextid :: nat
  fs_metadata_list :: "vfs_filesystem list"

text \<open>The search does not stop at the first file system of the name.\<close>

definition get_filesystem :: "string \<Rightarrow> filesystems \<Rightarrow> vfs_filesystem option" where
  "get_filesystem ty st = foldl (\<lambda>found pos. if fs_name pos = ty then Some pos else found) None (fs_metadata_list st)"

definition get_filesystem_node :: "nat \<Rightarrow> filesystems \<Rightarrow> vfs_filesystem option" where
  "get_filesystem_node fsid st = foldl (\<lambda>found pos. if fs_fsid pos = fsid then Some pos else found) None (fs_metadata_list st)"

text \<open>\<open>complete\<close>: there is a table of callbacks, and none of them is NULL.\<close>

definition vfs_regist :: "bool \<Rightarrow> string \<Rightarrow> u64 \<Rightarrow> u64 \<Rightarrow> filesystems \<Rightarrow> (int \<times> filesystems) option" where
  "vfs_regist complete nm magic flags st =
     (if \<not> complete then Some (- 22, st)
      else if fs_nextid st \<ge> 256 \<or> length nm \<ge> 10 then None
      else Some (int (fs_nextid st),
        st\<lparr>fs_nextid := fs_nextid st + 1,
           fs_metadata_list := fs_metadata_list st @ [\<lparr>fs_name = nm, fs_fsid = fs_nextid st, fs_magic = magic, fs_flags = flags\<rparr>]\<rparr>))"

section \<open>Start\<close>

text \<open>The first node, before any file system is mounted.\<close>

definition vfs_init :: "'a vfs_scheme \<Rightarrow> 'a vfs_scheme option" where
  "vfs_init st = do {
     (n, st) \<leftarrow> vfs_node_alloc None (Some ''/'') st;
     upd_nd n (\<lambda>v. v\<lparr>nd_type := file_dir\<rparr>) (st\<lparr>rootdir := n\<rparr>)
   }"

end
