(* ===== verification/Tmpfs.thy ===== *)
theory Tmpfs
  imports Vfs Data_Refinement
begin

text \<open>
  The file system in memory (\<^verbatim>\<open>fs/tmpfs.c\<close>).  The data of a file are a run of page frames, here the list of their bytes; \<open>held_pages\<close> counts the
  frames that files hold.  \<open>frames_ok\<close> says for which numbers of pages \<open>alloc_frames\<close> finds memory.
\<close>

section \<open>Definitions\<close>

datatype tmpfs_type = tp_file_dir | tp_file_file | tp_file_symlink | tp_file_char | tp_file_blk | tp_file_socket

record tmpfs_file =
  tf_type :: tmpfs_type
  tf_name :: string
  tf_data :: "u8 list"
  tf_size :: u64
  tf_page_num :: u64
  tf_link_count :: u64
  tf_node :: nat
  tf_capacity :: u64

record tmpfs = vfs +
  files :: "nat \<rightharpoonup> tmpfs_file"
  next_file :: nat
  held_pages :: nat
  mount_dev_now :: u64

definition PAGE_SIZE :: u64 where "PAGE_SIZE = 4096"

definition new_file :: "tmpfs_type \<Rightarrow> string \<Rightarrow> nat \<Rightarrow> tmpfs_file" where
  "new_file ty nm n = \<lparr>tf_type = ty, tf_name = take 64 nm, tf_data = [], tf_size = 0, tf_page_num = 0, tf_link_count = 1, tf_node = n, tf_capacity = 0\<rparr>"

definition put_file :: "tmpfs_file \<Rightarrow> tmpfs \<Rightarrow> nat \<times> tmpfs" where
  "put_file f st = (next_file st, st\<lparr>files := (files st)(next_file st \<mapsto> f), next_file := next_file st + 1\<rparr>)"

definition upd_file :: "nat \<Rightarrow> (tmpfs_file \<Rightarrow> tmpfs_file) \<Rightarrow> tmpfs \<Rightarrow> tmpfs option" where
  "upd_file h g st = do { f \<leftarrow> files st h; Some (st\<lparr>files := (files st)(h \<mapsto> g f)\<rparr>) }"

definition tmpfs_size_to_pages :: "u64 \<Rightarrow> u64 option" where
  "tmpfs_size_to_pages sz =
     (if sz = 0 then Some 0
      else if sz > - 1 - (PAGE_SIZE - 1) then None
      else Some ((sz + PAGE_SIZE - 1) div PAGE_SIZE))"

definition tmpfs_release_pages :: "nat \<Rightarrow> tmpfs \<Rightarrow> tmpfs option" where
  "tmpfs_release_pages h st = do {
     f \<leftarrow> files st h;
     let st = (if tf_data f \<noteq> [] \<and> tf_page_num f \<noteq> 0 then st\<lparr>held_pages := held_pages st - unat (tf_page_num f)\<rparr> else st);
     upd_file h (\<lambda>f. f\<lparr>tf_data := [], tf_page_num := 0, tf_capacity := 0\<rparr>) st
   }"

partial_function (option) grow_pages :: "u64 \<Rightarrow> u64 \<Rightarrow> u64 option" where
  "grow_pages new_pages need_pages =
     (if new_pages < need_pages then
        if new_pages > - 1 div 2 then Some need_pages else grow_pages (new_pages * 2) need_pages
      else Some new_pages)"

declare grow_pages.simps [code]

definition tmpfs_ensure_capacity :: "(u64 \<Rightarrow> bool) \<Rightarrow> nat \<Rightarrow> u64 \<Rightarrow> tmpfs \<Rightarrow> (bool \<times> tmpfs) option" where
  "tmpfs_ensure_capacity frames_ok h end_off st = do {
     f \<leftarrow> files st h;
     if end_off \<le> tf_capacity f then Some (True, st)
     else (case tmpfs_size_to_pages end_off of
       None \<Rightarrow> Some (False, st)
     | Some need_pages \<Rightarrow>
         if need_pages = 0 then Some (False, st)
         else do {
           new_pages \<leftarrow> grow_pages (if tf_page_num f \<noteq> 0 then tf_page_num f else 1) need_pages;
           if new_pages > - 1 div PAGE_SIZE then Some (False, st)
           else if \<not> frames_ok new_pages then Some (False, st)
           else do {
             let new_capacity = new_pages * PAGE_SIZE;
             let new_data = replicate (unat new_capacity) 0;
             let st = st\<lparr>held_pages := held_pages st + unat new_pages\<rparr>;
             new_data \<leftarrow> (if tf_data f \<noteq> [] \<and> tf_size f \<noteq> 0 then
                if unat (tf_size f) \<le> length (tf_data f) \<and> unat (tf_size f) \<le> length new_data
                then Some (take (unat (tf_size f)) (tf_data f) @ drop (unat (tf_size f)) new_data) else None
              else Some new_data);
             st \<leftarrow> tmpfs_release_pages h st;
             st \<leftarrow> upd_file h (\<lambda>f. f\<lparr>tf_data := new_data, tf_page_num := new_pages, tf_capacity := new_capacity\<rparr>) st;
             Some (True, st)
           }
         })
   }"

text \<open>The handle of the root comes from \<open>malloc\<close>; \<open>junk\<close> is what the fields that \<open>tmpfs_mount\<close> does not set hold.\<close>

definition tmpfs_mount :: "nat \<Rightarrow> tmpfs_file \<Rightarrow> nat \<Rightarrow> tmpfs \<Rightarrow> (int \<times> tmpfs) option" where
  "tmpfs_mount tmpfs_id junk n st = do {
     let (h, st) = put_file (junk\<lparr>tf_type := tp_file_dir, tf_name := ''tmp'', tf_link_count := 1, tf_node := n\<rparr>) st;
     st \<leftarrow> upd_nd n (\<lambda>v. v\<lparr>nd_fsid := tmpfs_id, nd_handle := Some h, nd_dev := mount_dev_now st\<rparr>) st;
     Some (0, st\<lparr>mount_dev_now := mount_dev_now st + 1\<rparr>)
   }"

definition tmpfs_umount :: "(nat option \<Rightarrow> tmpfs \<Rightarrow> tmpfs option) \<Rightarrow> nat option \<Rightarrow> tmpfs \<Rightarrow> tmpfs option" where
  "tmpfs_umount free_node root st = do { h \<leftarrow> root; f \<leftarrow> files st h; free_node (Some (tf_node f)) st }"

definition tmpfs_mk :: "nat option \<Rightarrow> string \<Rightarrow> nat \<Rightarrow> bool \<Rightarrow> tmpfs \<Rightarrow> (int \<times> tmpfs) option" where
  "tmpfs_mk parent nm n is_dir st = do {
     let (h, st) = put_file (new_file (if is_dir then tp_file_dir else tp_file_file) nm n) st;
     st \<leftarrow> upd_nd n (\<lambda>v. v\<lparr>nd_type := nd_type v OR (if is_dir then file_dir else file_none), nd_handle := Some h\<rparr>) st;
     Some (0, st)
   }"

definition tmpfs_mkdir :: "nat option \<Rightarrow> string \<Rightarrow> nat \<Rightarrow> tmpfs \<Rightarrow> (int \<times> tmpfs) option" where
  "tmpfs_mkdir parent nm n st = tmpfs_mk parent nm n True st"

definition tmpfs_mkfile :: "nat option \<Rightarrow> string \<Rightarrow> nat \<Rightarrow> tmpfs \<Rightarrow> (int \<times> tmpfs) option" where
  "tmpfs_mkfile parent nm n st = tmpfs_mk parent nm n False st"

text \<open>\<open>open_path\<close> is \<open>vfs_open\<close>, \<open>cwd\<close> the directory of the process.\<close>

definition tmpfs_link :: "(string \<Rightarrow> tmpfs \<Rightarrow> (nat option \<times> tmpfs) option) \<Rightarrow> nat option \<Rightarrow> nat option \<Rightarrow> string \<Rightarrow> nat \<Rightarrow> tmpfs \<Rightarrow> (int \<times> tmpfs) option" where
  "tmpfs_link open_path cwd parent nm n st = do {
     path \<leftarrow> (if hd0 nm = CHR ''/'' then Some (Some nm) else vfs_cwd_path_build cwd nm st);
     (case path of
        None \<Rightarrow> Some (- 2, st)
      | Some path \<Rightarrow> do {
          (target, st) \<leftarrow> open_path path st;
          (case target of
             None \<Rightarrow> Some (- 2, st)
           | Some t \<Rightarrow> do {
               tv \<leftarrow> nds st t;
               (case nd_handle tv of
                  None \<Rightarrow> Some (- 2, st)
                | Some h \<Rightarrow>
                    if has (nd_type tv) file_dir then Some (- 2, st)
                    else do {
                      st \<leftarrow> upd_file h (\<lambda>f. f\<lparr>tf_link_count := tf_link_count f + 1\<rparr>) st;
                      st \<leftarrow> upd_nd n (\<lambda>v. v\<lparr>nd_handle := Some h, nd_type := nd_type tv, nd_size := nd_size tv, nd_inode := nd_inode tv,
                        nd_mode := nd_mode tv, nd_owner := nd_owner tv, nd_group := nd_group tv\<rparr>) st;
                      Some (0, st)
                    })
             })
        })
   }"

definition tmpfs_read :: "nat option \<Rightarrow> u64 \<Rightarrow> u64 \<Rightarrow> tmpfs \<Rightarrow> (u64 \<times> u8 list) option" where
  "tmpfs_read h offset sz st = do {
     h \<leftarrow> h;
     f \<leftarrow> files st h;
     if offset \<ge> tf_size f then Some (0, [])
     else do {
       let actual = (if offset + sz > tf_size f then tf_size f - offset else sz);
       if unat offset + unat actual \<le> length (tf_data f) then Some (actual, take (unat actual) (drop (unat offset) (tf_data f))) else None
     }
   }"

text \<open>\<open>splice\<close> is \<open>memcpy\<close> into the data at an offset.\<close>

definition splice :: "nat \<Rightarrow> u8 list \<Rightarrow> u8 list \<Rightarrow> u8 list option" where
  "splice k bytes ds = (if k + length bytes \<le> length ds then Some (take k ds @ bytes @ drop (k + length bytes) ds) else None)"

definition tmpfs_write :: "(u64 \<Rightarrow> bool) \<Rightarrow> nat option \<Rightarrow> u8 list \<Rightarrow> u64 \<Rightarrow> tmpfs \<Rightarrow> (u64 \<times> tmpfs) option" where
  "tmpfs_write frames_ok h bytes offset st =
     (let sz = of_nat (length bytes) in
      if sz = 0 then Some (0, st)
      else do {
        let end_off = offset + sz;
        if unat offset + unat sz \<ge> 2 ^ 64 then Some (0, st)
        else (case h of None \<Rightarrow> Some (0, st) | Some h \<Rightarrow> do {
          (ok, st) \<leftarrow> tmpfs_ensure_capacity frames_ok h end_off st;
          if \<not> ok then Some (0, st)
          else do {
            f \<leftarrow> files st h;
            ds \<leftarrow> (if offset > tf_size f then splice (unat (tf_size f)) (replicate (unat (offset - tf_size f)) 0) (tf_data f) else Some (tf_data f));
            ds \<leftarrow> splice (unat offset) bytes ds;
            let new_size = (if end_off > tf_size f then end_off else tf_size f);
            st \<leftarrow> upd_file h (\<lambda>f. f\<lparr>tf_data := ds, tf_size := new_size\<rparr>) st;
            st \<leftarrow> upd_nd (tf_node f) (\<lambda>v. v\<lparr>nd_size := new_size\<rparr>) st;
            Some (sz, st)
          }
        })
      })"

definition node_type :: "tmpfs_type \<Rightarrow> u16" where
  "node_type ty = (case ty of tp_file_symlink \<Rightarrow> file_symlink | tp_file_dir \<Rightarrow> file_dir | tp_file_blk \<Rightarrow> file_block | tp_file_char \<Rightarrow> file_stream
     | tp_file_socket \<Rightarrow> file_socket | tp_file_file \<Rightarrow> file_none)"

text \<open>The size is 0 for the type whose number is that of the node type \<open>file_dir\<close>, which is the symbolic link.\<close>

definition tmpfs_stat :: "nat option \<Rightarrow> nat \<Rightarrow> tmpfs \<Rightarrow> (int \<times> tmpfs) option" where
  "tmpfs_stat h n st =
     (case h of
        None \<Rightarrow> Some (- 2, st)
      | Some h \<Rightarrow> do {
          f \<leftarrow> files st h;
          st \<leftarrow> upd_nd n (\<lambda>v. v\<lparr>nd_type := node_type (tf_type f), nd_size := (if tf_type f = tp_file_symlink then 0 else tf_size f)\<rparr>) st;
          Some (0, st)
        })"

definition drop_file :: "nat \<Rightarrow> tmpfs \<Rightarrow> tmpfs" where
  "drop_file h st = st\<lparr>files := (files st)(h := None)\<rparr>"

definition tmpfs_delete :: "nat option \<Rightarrow> nat \<Rightarrow> tmpfs \<Rightarrow> (int \<times> tmpfs) option" where
  "tmpfs_delete parent n st = do {
     v \<leftarrow> nds st n;
     (case nd_handle v of
        None \<Rightarrow> Some (0, st)
      | Some h \<Rightarrow> do {
          f \<leftarrow> files st h;
          if tf_link_count f > 1 then do { st \<leftarrow> upd_file h (\<lambda>f. f\<lparr>tf_link_count := tf_link_count f - 1\<rparr>) st; Some (0, st) }
          else do { st \<leftarrow> tmpfs_release_pages h st; Some (0, drop_file h st) }
        })
   }"

definition tmpfs_rename :: "nat option \<Rightarrow> string \<Rightarrow> tmpfs \<Rightarrow> (int \<times> tmpfs) option" where
  "tmpfs_rename h new_name st = do { h \<leftarrow> h; st \<leftarrow> upd_file h (\<lambda>f. f\<lparr>tf_name := take 64 new_name\<rparr>) st; Some (0, st) }"

definition tmpfs_symlink :: "nat option \<Rightarrow> string \<Rightarrow> nat \<Rightarrow> tmpfs \<Rightarrow> (int \<times> tmpfs) option" where
  "tmpfs_symlink parent nm n st = do {
     let (h, st) = put_file (new_file tp_file_symlink nm n) st;
     st \<leftarrow> upd_nd n (\<lambda>v. v\<lparr>nd_handle := Some h\<rparr>) st;
     Some (0, st)
   }"

definition tmpfs_readlink :: "nat option \<Rightarrow> u64 \<Rightarrow> u64 \<Rightarrow> tmpfs \<Rightarrow> string option" where
  "tmpfs_readlink n offset sz st =
     (case n of
        None \<Rightarrow> Some []
      | Some n \<Rightarrow>
          if sz = 0 then Some []
          else do {
            v \<leftarrow> nds st n;
            target \<leftarrow> (if nd_linkto_path v = None \<and> nd_linkto v \<noteq> None then vfs_get_fullpath (nd_linkto v) st else Some (nd_linkto_path v));
            target \<leftarrow> target;
            Some (take (unat sz) (drop (unat offset) target))
          })"

definition tmpfs_free :: "nat option \<Rightarrow> tmpfs \<Rightarrow> (int \<times> tmpfs) option" where
  "tmpfs_free h st =
     (case h of
        None \<Rightarrow> Some (0, st)
      | Some h \<Rightarrow> do {
          f \<leftarrow> files st h;
          if tf_link_count f > 1 then do { st \<leftarrow> upd_file h (\<lambda>f. f\<lparr>tf_link_count := tf_link_count f - 1\<rparr>) st; Some (0, st) }
          else do {
            st \<leftarrow> (if tf_type f = tp_file_file then tmpfs_release_pages h st else Some st);
            Some (0, drop_file h st)
          }
        })"

definition tmpfs_chmod :: "nat \<Rightarrow> u16 \<Rightarrow> tmpfs \<Rightarrow> (int \<times> tmpfs) option" where
  "tmpfs_chmod n mode st = do { st \<leftarrow> upd_nd n (\<lambda>v. v\<lparr>nd_mode := mode\<rparr>) st; Some (0, st) }"

definition tmpfs_poll :: "u64 \<Rightarrow> u64" where
  "tmpfs_poll events = events AND (1 OR 4)"

definition tmpfs_dup :: "nat \<Rightarrow> tmpfs \<Rightarrow> (nat \<times> tmpfs) option" where
  "tmpfs_dup n st = do {
     v \<leftarrow> nds st n;
     (c, st) \<leftarrow> vfs_node_alloc (nd_parent v) (nd_name v) st;
     st \<leftarrow> (case nd_handle v of None \<Rightarrow> Some st | Some h \<Rightarrow> upd_file h (\<lambda>f. f\<lparr>tf_link_count := tf_link_count f + 1\<rparr>) st);
     st \<leftarrow> upd_nd c (\<lambda>w. w\<lparr>nd_handle := nd_handle v, nd_type := nd_type v, nd_size := nd_size v, nd_flags := nd_flags v, nd_owner := nd_owner v,
       nd_child := nd_child v, nd_inode := nd_inode v\<rparr>) st;
     Some (c, st)
   }"

definition tmpfs_mknod :: "nat option \<Rightarrow> string \<Rightarrow> nat \<Rightarrow> u16 \<Rightarrow> int \<Rightarrow> tmpfs \<Rightarrow> (int \<times> tmpfs) option" where
  "tmpfs_mknod parent nm n mode dev st = do {
     let fmt = mode AND 0xf000;
     let ty = (if fmt = 0x6000 then tp_file_blk else if fmt = 0x2000 then tp_file_char else if fmt = 0xc000 then tp_file_socket else tp_file_file);
     let (h, st) = put_file (new_file ty nm n) st;
     st \<leftarrow> upd_nd n (\<lambda>v. v\<lparr>nd_dev := of_int dev, nd_rdev := of_int dev, nd_mode := mode AND 0x1ff, nd_type := node_type ty, nd_handle := Some h\<rparr>) st;
     Some (0, st)
   }"

text \<open>\<open>tmpfs_callbacks\<close>; \<open>open_path\<close> and \<open>free_node\<close> are \<open>vfs_open\<close> and \<open>vfs_free\<close>, which two of them call.\<close>

definition tmpfs_callbacks ::
  "nat \<Rightarrow> tmpfs_file \<Rightarrow> (u64 \<Rightarrow> bool) \<Rightarrow> (string \<Rightarrow> tmpfs \<Rightarrow> (nat option \<times> tmpfs) option) \<Rightarrow> nat option \<Rightarrow> (nat option \<Rightarrow> tmpfs \<Rightarrow> tmpfs option) \<Rightarrow>
   \<lparr>files :: nat \<rightharpoonup> tmpfs_file, next_file :: nat, held_pages :: nat, mount_dev_now :: u64\<rparr> vfs_callback" where
  "tmpfs_callbacks tmpfs_id junk frames_ok open_path cwd free_node =
     \<lparr>cb_mount = tmpfs_mount tmpfs_id junk, cb_unmount = tmpfs_umount free_node, cb_open = (\<lambda>_ _ _ st. Some st), cb_close = (\<lambda>_ st. Some (False, st)),
      cb_read = tmpfs_read, cb_write = tmpfs_write frames_ok, cb_readlink = tmpfs_readlink, cb_mkdir = tmpfs_mkdir, cb_mkfile = tmpfs_mkfile, cb_link = tmpfs_link open_path cwd,
      cb_symlink = tmpfs_symlink, cb_stat = tmpfs_stat, cb_poll = (\<lambda>_ events _. Some (uint (tmpfs_poll (ucast events)))), cb_delete = tmpfs_delete, cb_rename = tmpfs_rename, cb_free = tmpfs_free,
      cb_mknod = tmpfs_mknod, cb_chmod = tmpfs_chmod\<rparr>"

section \<open>A file is a sequence of bytes\<close>

definition file_ok :: "tmpfs_file \<Rightarrow> bool" where
  "file_ok f \<longleftrightarrow> length (tf_data f) = unat (tf_capacity f) \<and> tf_size f \<le> tf_capacity f \<and> unat (tf_capacity f) = 4096 * unat (tf_page_num f)"

definition bytes_of :: "tmpfs_file \<Rightarrow> u8 list" where
  "bytes_of f = take (unat (tf_size f)) (tf_data f)"

definition overwrite :: "nat \<Rightarrow> u8 list \<Rightarrow> u8 list \<Rightarrow> u8 list" where
  "overwrite k bytes c = take k (c @ replicate (k - length c) 0) @ bytes @ drop (k + length bytes) c"

lemma length_overwrite: "length (overwrite k bytes c) = max (length c) (k + length bytes)"
  by (simp add: overwrite_def)

lemma length_bytes_of: "file_ok f \<Longrightarrow> length (bytes_of f) = unat (tf_size f)"
  by (simp add: bytes_of_def file_ok_def word_le_nat_alt)

lemma grow_pages_spec:
  assumes "0 < unat a" "unat need \<le> 2 ^ 50"
  obtains r where "grow_pages a need = Some r" "need \<le> r" "unat r \<le> max (unat a) (2 * unat need)"
  using assms
proof (induction "unat need - unat a" arbitrary: a thesis rule: less_induct)
  case less
  show ?case
  proof (cases "a < need")
    case False
    then have "grow_pages a need = Some a" by (subst grow_pages.simps) simp
    then show ?thesis using less.prems(1) False by simp
  next
    case True
    then have lt: "unat a < unat need" by (simp add: word_less_nat_alt)
    then have d: "unat (a * 2) = unat a * 2" using less.prems(3) by (simp add: unat_word_ariths)
    have "\<not> a > - 1 div 2" using lt less.prems(3) by (simp add: word_less_nat_alt unat_div)
    then have g: "grow_pages a need = grow_pages (a * 2) need" using True by (subst grow_pages.simps) simp
    have "unat need - unat (a * 2) < unat need - unat a" "0 < unat (a * 2)" using d lt less.prems(2) by simp_all
    then obtain r where r: "grow_pages (a * 2) need = Some r" "need \<le> r" "unat r \<le> max (unat (a * 2)) (2 * unat need)"
      using less.hyps [of "a * 2"] less.prems(3) by blast
    have "unat r \<le> max (unat a) (2 * unat need)" using r(3) d lt by simp
    then show ?thesis using less.prems(1) g r(1,2) by simp
  qed
qed

lemma size_to_pages_spec:
  assumes "unat sz \<le> 2 ^ 62" "sz \<noteq> 0"
  obtains n where "tmpfs_size_to_pages sz = Some n" "unat sz \<le> 4096 * unat n" "unat n \<le> 2 ^ 50" "n \<noteq> 0"
proof -
  have u: "unat (sz + PAGE_SIZE - 1) = unat sz + 4095"
  proof -
    have e: "sz + PAGE_SIZE - 1 = sz + 4095" by (simp add: PAGE_SIZE_def)
    show ?thesis unfolding e using unat_add_no_wrap [of sz 4095] assms(1) by simp
  qed
  have n: "unat ((sz + PAGE_SIZE - 1) div PAGE_SIZE) = (unat sz + 4095) div 4096" by (simp add: unat_div u) (simp add: PAGE_SIZE_def)
  have "\<not> sz > - 1 - (PAGE_SIZE - 1)" using assms(1) by (simp add: PAGE_SIZE_def word_less_nat_alt)
  then have s: "tmpfs_size_to_pages sz = Some ((sz + PAGE_SIZE - 1) div PAGE_SIZE)" using assms(2) by (simp add: tmpfs_size_to_pages_def)
  have p: "0 < unat sz" using assms(2) by (simp add: unat_gt_0)
  have "(unat sz + 4095) div 4096 \<noteq> 0" using p by simp
  then have "(sz + PAGE_SIZE - 1) div PAGE_SIZE \<noteq> 0" using n by (metis unat_0)
  moreover have "unat sz \<le> 4096 * ((unat sz + 4095) div 4096)" by arith
  ultimately show ?thesis using that s n assms(1) by simp
qed

definition same_but_files :: "nat \<Rightarrow> tmpfs_file \<Rightarrow> tmpfs \<Rightarrow> tmpfs \<Rightarrow> bool" where
  "same_but_files h f' st st' \<longleftrightarrow> files st' = (files st)(h \<mapsto> f') \<and> nds st' = nds st \<and> rootdir st' = rootdir st \<and> next_node st' = next_node st"

lemma same_but_filesD:
  assumes "same_but_files h f' st st'"
  shows "files st' h = Some f'" "nds st' = nds st" "h' \<noteq> h \<Longrightarrow> files st' h' = files st h'"
  using assms by (auto simp: same_but_files_def)

lemma release_pages_spec:
  assumes "files st h = Some f"
  obtains st' where "tmpfs_release_pages h st = Some st'" "same_but_files h (f\<lparr>tf_data := [], tf_page_num := 0, tf_capacity := 0\<rparr>) st st'"
proof -
  let ?st = "if tf_data f \<noteq> [] \<and> tf_page_num f \<noteq> 0 then st\<lparr>held_pages := held_pages st - unat (tf_page_num f)\<rparr> else st"
  have "files ?st = files st" "nds ?st = nds st" "rootdir ?st = rootdir st" "next_node ?st = next_node st" by simp_all
  then show ?thesis using that assms unfolding tmpfs_release_pages_def upd_file_def same_but_files_def Let_def by simp
qed

lemma ensure_capacity_spec:
  assumes f: "files st h = Some f" "file_ok f" and e: "unat e \<le> 2 ^ 62"
  obtains "tmpfs_ensure_capacity ok h e st = Some (False, st)" "\<exists>n. \<not> ok n"
  | st' f' where "tmpfs_ensure_capacity ok h e st = Some (True, st')" "same_but_files h f' st st'" "file_ok f'" "e \<le> tf_capacity f'"
      "tf_size f' = tf_size f" "bytes_of f' = bytes_of f" "tf_node f' = tf_node f"
proof (cases "e \<le> tf_capacity f")
  case True
  then have "tmpfs_ensure_capacity ok h e st = Some (True, st)" using f(1) by (simp add: tmpfs_ensure_capacity_def)
  then show ?thesis using that(2) [of st f] True f by (simp add: same_but_files_def fun_upd_idem)
next
  case False
  then have ne: "e \<noteq> 0" by auto
  obtain need where need: "tmpfs_size_to_pages e = Some need" "unat e \<le> 4096 * unat need" "unat need \<le> 2 ^ 50" "need \<noteq> 0"
    by (rule size_to_pages_spec [OF e ne])
  let ?a = "if tf_page_num f \<noteq> 0 then tf_page_num f else 1"
  have a: "0 < unat ?a" "unat ?a < 2 ^ 52"
    using f(2) unsigned_less [of "tf_capacity f", where 'a = nat] by (auto simp: file_ok_def unat_gt_0)
  obtain n where n: "grow_pages ?a need = Some n" "need \<le> n" "unat n \<le> max (unat ?a) (2 * unat need)"
    by (rule grow_pages_spec [OF a(1) need(3)])
  have n52: "unat n < 2 ^ 52" using n(3) a(2) need(3) by simp
  have cap: "unat (n * PAGE_SIZE) = 4096 * unat n" using n52 by (simp add: unat_word_ariths PAGE_SIZE_def)
  have lim: "\<not> n > - 1 div PAGE_SIZE" using n52 by (simp add: word_less_nat_alt unat_div PAGE_SIZE_def)
  show ?thesis
  proof (cases "ok n")
    case no: False
    then have "tmpfs_ensure_capacity ok h e st = Some (False, st)"
      using f(1) False need(1,4) n(1) lim by (simp add: tmpfs_ensure_capacity_def)
    then show ?thesis using that(1) no by blast
  next
    case yes: True
    let ?new = "replicate (unat (n * PAGE_SIZE)) 0 :: u8 list"
    let ?s = "unat (tf_size f)"
    have e_cap: "e \<le> n * PAGE_SIZE" using need(2) n(2) by (simp add: word_le_nat_alt cap)
    then have s_cap: "tf_size f \<le> n * PAGE_SIZE" using f(2) False by (auto simp: file_ok_def)
    let ?ds = "if tf_data f \<noteq> [] \<and> tf_size f \<noteq> 0 then take ?s (tf_data f) @ drop ?s ?new else ?new"
    let ?f = "f\<lparr>tf_data := ?ds, tf_page_num := n, tf_capacity := n * PAGE_SIZE\<rparr>"
    have sl: "?s \<le> length (tf_data f)" "?s \<le> unat (n * PAGE_SIZE)" using f(2) s_cap by (simp_all add: file_ok_def word_le_nat_alt)
    have len: "length ?ds = unat (n * PAGE_SIZE)" using sl by simp
    have ok: "file_ok ?f" using len s_cap cap by (simp add: file_ok_def)
    have bytes: "bytes_of ?f = bytes_of f" using sl f(2) by (auto simp: bytes_of_def)
    have nd: "(if tf_data f \<noteq> [] \<and> tf_size f \<noteq> 0 then
        if ?s \<le> length (tf_data f) \<and> ?s \<le> length ?new then Some (take ?s (tf_data f) @ drop ?s ?new) else None else Some ?new) = Some ?ds"
      using sl by simp
    let ?held = "st\<lparr>held_pages := held_pages st + unat n\<rparr>"
    have "files ?held h = Some f" using f(1) by simp
    then obtain st1 where r: "tmpfs_release_pages h ?held = Some st1" "same_but_files h (f\<lparr>tf_data := [], tf_page_num := 0, tf_capacity := 0\<rparr>) ?held st1"
      by (rule release_pages_spec)
    let ?st = "st1\<lparr>files := (files st)(h \<mapsto> ?f)\<rparr>"
    have u: "upd_file h (\<lambda>f. f\<lparr>tf_data := ?ds, tf_page_num := n, tf_capacity := n * PAGE_SIZE\<rparr>) st1 = Some ?st"
      using r(2) by (simp add: upd_file_def same_but_files_def)
    have "tmpfs_ensure_capacity ok h e st = Some (True, ?st)"
      unfolding tmpfs_ensure_capacity_def f(1) bind.bind_lunit if_not_P [OF False] need(1) option.case if_not_P [OF need(4)] n(1) if_not_P [OF lim]
        Let_def nd r(1) u using yes by simp
    moreover have "same_but_files h ?f st ?st" using r(2) by (simp add: same_but_files_def)
    ultimately obtain st' where "tmpfs_ensure_capacity ok h e st = Some (True, st')" "same_but_files h ?f st st'" by blast
    then show ?thesis using that(2) [OF _ _ ok] e_cap bytes by simp
  qed
qed

lemma splice_overwrite:
  assumes "c = take m ds" "m \<le> length ds" "k + length bytes \<le> length ds"
  obtains ds1 ds2 where "(if k > m then splice m (replicate (k - m) 0) ds else Some ds) = Some ds1" "splice k bytes ds1 = Some ds2"
    "length ds2 = length ds" "take (max m (k + length bytes)) ds2 = overwrite k bytes c"
proof (cases "k > m")
  case True
  let ?ds1 = "take m ds @ replicate (k - m) 0 @ drop k ds"
  have 1: "splice m (replicate (k - m) 0) ds = Some ?ds1" using assms True by (simp add: splice_def)
  have l: "length ?ds1 = length ds" using assms True by simp
  let ?ds2 = "take k ?ds1 @ bytes @ drop (k + length bytes) ?ds1"
  have 2: "splice k bytes ?ds1 = Some ?ds2" using assms l by (simp add: splice_def)
  have "take (max m (k + length bytes)) ?ds2 = overwrite k bytes c" using assms True by (simp add: overwrite_def)
  then show ?thesis using that [of ?ds1 ?ds2] True 1 2 l assms by simp
next
  case False
  let ?ds2 = "take k ds @ bytes @ drop (k + length bytes) ds"
  have 2: "splice k bytes ds = Some ?ds2" using assms by (simp add: splice_def)
  have l: "length (take k ds) = k" "k \<le> m" using assms(3) False by simp_all
  have "take (max m (k + length bytes)) ?ds2 = take k ds @ bytes @ drop (k + length bytes) (take m ds)"
  proof (cases "m \<le> k + length bytes")
    case True
    then show ?thesis using assms(3) l by (simp add: max_def)
  next
    case gt: False
    then have "max m (k + length bytes) - k - length bytes = m - (k + length bytes)" "max m (k + length bytes) - k \<ge> length bytes" "max m (k + length bytes) \<ge> k" by simp_all
    then show ?thesis using l by (simp add: drop_take)
  qed
  moreover have "take k (c @ replicate (k - length c) 0) = take k ds" using assms(1,2) l by simp
  ultimately have "take (max m (k + length bytes)) ?ds2 = overwrite k bytes c" using assms(1) by (simp add: overwrite_def)
  then show ?thesis using that [of ds ?ds2] False 2 assms by simp
qed

lemma tmpfs_write_spec:
  assumes f: "files st h = Some f" "file_ok f" and v: "nds st (tf_node f) = Some v" and b: "unat offset + length bytes \<le> 2 ^ 62"
  obtains "tmpfs_write ok (Some h) bytes offset st = Some (0, st)" "bytes = [] \<or> (\<exists>n. \<not> ok n)"
  | st' f' v' where "tmpfs_write ok (Some h) bytes offset st = Some (of_nat (length bytes), st')" "file_ok f'" "files st' = (files st)(h \<mapsto> f')"
      "nds st' = (nds st)(tf_node f \<mapsto> v\<lparr>nd_size := tf_size f'\<rparr>)" "tf_node f' = tf_node f" "bytes_of f' = overwrite (unat offset) bytes (bytes_of f)"
proof -
  let ?sz = "of_nat (length bytes) :: u64"
  have sz: "unat ?sz = length bytes" using b by (simp add: unsigned_of_nat take_bit_nat_eq_self)
  show ?thesis
  proof (cases "bytes = []")
    case True
    then show ?thesis using that(1) by (simp add: tmpfs_write_def)
  next
    case False
    then have nz: "?sz \<noteq> 0" using sz by (metis length_0_conv unat_0)
    have no: "\<not> unat offset + unat ?sz \<ge> 2 ^ 64" using sz b by simp
    have en: "unat (offset + ?sz) = unat offset + length bytes" using unat_add_no_wrap [of offset ?sz] sz b by simp
    then have e62: "unat (offset + ?sz) \<le> 2 ^ 62" using b by simp
    show ?thesis
    proof (rule ensure_capacity_spec [OF f e62, of ok])
      assume "tmpfs_ensure_capacity ok h (offset + ?sz) st = Some (False, st)" "\<exists>n. \<not> ok n"
      then show ?thesis using that(1) nz no by (simp add: tmpfs_write_def Let_def)
    next
      fix st1 f1
      assume g: "tmpfs_ensure_capacity ok h (offset + ?sz) st = Some (True, st1)" "same_but_files h f1 st st1" "file_ok f1"
        "offset + ?sz \<le> tf_capacity f1" "tf_size f1 = tf_size f" "bytes_of f1 = bytes_of f" "tf_node f1 = tf_node f"
      have l: "unat (tf_size f1) \<le> length (tf_data f1)" "unat offset + length bytes \<le> length (tf_data f1)"
        using g(3,4) en by (simp_all add: file_ok_def word_le_nat_alt)
      obtain ds1 ds2 where d: "(if unat offset > unat (tf_size f1) then splice (unat (tf_size f1)) (replicate (unat offset - unat (tf_size f1)) 0) (tf_data f1)
          else Some (tf_data f1)) = Some ds1" "splice (unat offset) bytes ds1 = Some ds2" "length ds2 = length (tf_data f1)"
        "take (max (unat (tf_size f1)) (unat offset + length bytes)) ds2 = overwrite (unat offset) bytes (bytes_of f1)"
        by (rule splice_overwrite [OF bytes_of_def l])
      let ?ns = "if offset + ?sz > tf_size f1 then offset + ?sz else tf_size f1"
      let ?f = "f1\<lparr>tf_data := ds2, tf_size := ?ns\<rparr>"
      have ns: "unat ?ns = max (unat (tf_size f1)) (unat offset + length bytes)" by (simp add: word_less_nat_alt en)
      have ok: "file_ok ?f" using g(3,4) d(3) by (simp add: file_ok_def)
      have bts: "bytes_of ?f = overwrite (unat offset) bytes (bytes_of f)" using d(4) ns g(6) by (simp add: bytes_of_def)
      have gap: "(if offset > tf_size f1 then splice (unat (tf_size f1)) (replicate (unat (offset - tf_size f1)) 0) (tf_data f1) else Some (tf_data f1)) = Some ds1"
        using d(1) by (simp add: word_less_nat_alt unat_sub_no_wrap word_le_nat_alt split: if_splits)
      let ?st = "st1\<lparr>files := (files st1)(h \<mapsto> ?f), nds := (nds st1)(tf_node f \<mapsto> v\<lparr>nd_size := ?ns\<rparr>)\<rparr>"
      have "tmpfs_write ok (Some h) bytes offset st = Some (?sz, ?st)"
        using nz no g(1,7) same_but_filesD [OF g(2)] gap d(2) v unfolding tmpfs_write_def Let_def by (simp add: upd_file_def upd_nd_def)
      moreover have "files ?st = (files st)(h \<mapsto> ?f)" "nds ?st = (nds st)(tf_node f \<mapsto> v\<lparr>nd_size := tf_size ?f\<rparr>)"
        using g(2) by (simp_all add: same_but_files_def)
      ultimately show ?thesis using that(2) [OF _ ok] bts g(7) by simp
    qed
  qed
qed

lemma tmpfs_read_spec:
  assumes "files st h = Some f" "file_ok f" "unat offset + unat sz < 2 ^ 64"
  shows "tmpfs_read (Some h) offset sz st =
    Some (of_nat (length (take (unat sz) (drop (unat offset) (bytes_of f)))), take (unat sz) (drop (unat offset) (bytes_of f)))"
proof -
  have s: "unat (tf_size f) \<le> length (tf_data f)" using assms(2) by (simp add: file_ok_def word_le_nat_alt)
  have e: "unat (offset + sz) = unat offset + unat sz" by (rule unat_add_no_wrap [OF assms(3)])
  show ?thesis
  proof (cases "offset \<ge> tf_size f")
    case True
    then show ?thesis using assms(1) s by (simp add: tmpfs_read_def bytes_of_def word_le_nat_alt)
  next
    case False
    let ?n = "if offset + sz > tf_size f then tf_size f - offset else sz"
    have o: "offset \<le> tf_size f" "unat offset < unat (tf_size f)" using False by (auto simp: word_le_nat_alt)
    have n: "unat ?n = min (unat sz) (unat (tf_size f) - unat offset)"
      using unat_sub_no_wrap [OF o(1)] e by (simp add: word_less_nat_alt)
    have "take (unat ?n) (drop (unat offset) (tf_data f)) = take (unat sz) (drop (unat offset) (bytes_of f))"
      unfolding n by (simp add: bytes_of_def drop_take min.commute)
    moreover have "unat offset + unat ?n \<le> length (tf_data f)" using n s o by simp
    moreover have "length (take (unat sz) (drop (unat offset) (bytes_of f))) = unat ?n" using n s by (simp add: bytes_of_def)
    then have "of_nat (length (take (unat sz) (drop (unat offset) (bytes_of f)))) = ?n" by (simp only: of_nat_unat ucast_id)
    ultimately show ?thesis using assms(1) False unfolding tmpfs_read_def Let_def by simp
  qed
qed

text \<open>Writes to one file, each with its place, over a machine that always finds memory.\<close>

type_synonym file_write = "u64 \<times> u8 list"

definition write_step :: "nat \<Rightarrow> file_write \<Rightarrow> tmpfs \<Rightarrow> tmpfs option" where
  "write_step h w st = do { (_, st) \<leftarrow> tmpfs_write (\<lambda>_. True) (Some h) (snd w) (fst w) st; Some st }"

definition write_spec :: "file_write \<Rightarrow> u8 list \<Rightarrow> u8 list" where
  "write_spec w c = (if snd w = [] then c else overwrite (unat (fst w)) (snd w) c)"

definition open_file :: "nat \<Rightarrow> tmpfs \<Rightarrow> bool" where
  "open_file h st \<longleftrightarrow> (\<exists>f v. files st h = Some f \<and> file_ok f \<and> nds st (tf_node f) = Some v)"

definition file_bytes :: "nat \<Rightarrow> tmpfs \<Rightarrow> u8 list" where
  "file_bytes h st = bytes_of (the (files st h))"

interpretation byte_file: data_refinement "write_step h" write_spec "\<lambda>w _. unat (fst w) + length (snd w) \<le> 2 ^ 62" "open_file h" "file_bytes h" for h
proof
  fix st and w :: file_write
  assume "open_file h st" and w: "unat (fst w) + length (snd w) \<le> 2 ^ 62"
  then obtain f v where f: "files st h = Some f" "file_ok f" "nds st (tf_node f) = Some v" by (auto simp: open_file_def)
  show "\<exists>st'. write_step h w st = Some st' \<and> open_file h st' \<and> file_bytes h st' = write_spec w (file_bytes h st)"
  proof (cases "snd w = []")
    case True
    then have "write_step h w st = Some st" by (simp add: write_step_def tmpfs_write_def)
    then show ?thesis using f True by (auto simp: open_file_def write_spec_def)
  next
    case False
    then show ?thesis
      by (rule_tac tmpfs_write_spec [OF f w, of "\<lambda>_. True"]) (use f False in \<open>auto simp: write_step_def open_file_def file_bytes_def write_spec_def\<close>)
  qed
qed

lemma all_legal: "(\<forall>w \<in> set ws. unat (fst w) + length (snd w) \<le> 2 ^ 62) \<Longrightarrow> byte_file.legal_ops ws c"
  by (induction ws arbitrary: c) (simp_all only: byte_file.legal_ops.simps list.set insert_iff ball_simps simp_thms, blast)

text \<open>A small file system: the root directory and one file in it.\<close>

definition demo_root :: vnode where
  "demo_root = \<lparr>nd_parent = None, nd_linkto = None, nd_name = Some ''/'', nd_size = 0, nd_inode = 0, nd_owner = 0, nd_group = 0, nd_type = file_dir,
     nd_refcount = 1, nd_mode = 0x1ff, nd_fsid = 1, nd_handle = Some 0, nd_flags = 0, nd_child = [1], nd_root = 0, nd_is_mount = True, nd_dev = 0,
     nd_rdev = 0, nd_linkto_path = None\<rparr>"

definition demo_leaf :: vnode where
  "demo_leaf = \<lparr>nd_parent = Some 0, nd_linkto = None, nd_name = Some ''a'', nd_size = 0, nd_inode = 1, nd_owner = 0, nd_group = 0, nd_type = file_none,
     nd_refcount = 1, nd_mode = 0x1ff, nd_fsid = 1, nd_handle = Some 1, nd_flags = 0, nd_child = [], nd_root = 0, nd_is_mount = False, nd_dev = 0,
     nd_rdev = 0, nd_linkto_path = None\<rparr>"

definition demo_fs :: "tmpfs_file \<Rightarrow> tmpfs" where
  "demo_fs f = \<lparr>nds = [0 \<mapsto> demo_root, 1 \<mapsto> demo_leaf], rootdir = 0, inode_now = 2, next_node = 2,
     files = [0 \<mapsto> new_file tp_file_dir ''tmp'' 0, 1 \<mapsto> f], next_file = 2, held_pages = unat (tf_page_num f), mount_dev_now = 1\<rparr>"

definition demo_file :: tmpfs_file where
  "demo_file = new_file tp_file_file ''a'' 1"

lemma demo_files [simp]: "files (demo_fs f) 1 = Some f" "files (demo_fs f) (Suc 0) = Some f" "file_ok demo_file" "tf_node demo_file = 1"
  "tf_link_count demo_file = 1" "bytes_of demo_file = []" "tf_type demo_file = tp_file_file"
  by (simp_all add: demo_fs_def demo_file_def new_file_def file_ok_def bytes_of_def)

lemma demo_nodes [simp]: "nds (demo_fs f) 1 = Some demo_leaf" "nds (demo_fs f) (Suc 0) = Some demo_leaf" "nds (demo_fs f) 0 = Some demo_root" "rootdir (demo_fs f) = 0"
  by (simp_all add: demo_fs_def)



text \<open>A write for which there is no memory returns 0 and changes nothing; otherwise it returns the number of bytes and writes all of
  them.\<close>

theorem tmpfs_write_all_or_nothing:
  assumes "files st h = Some f" "file_ok f" "nds st (tf_node f) = Some v" "unat offset + length bytes \<le> 2 ^ 62"
  shows "tmpfs_write ok (Some h) bytes offset st = Some (0, st) \<and> (bytes = [] \<or> (\<exists>n. \<not> ok n)) \<or>
    (\<exists>st' f'. tmpfs_write ok (Some h) bytes offset st = Some (of_nat (length bytes), st') \<and> file_ok f' \<and> files st' = (files st)(h \<mapsto> f') \<and>
      bytes_of f' = overwrite (unat offset) bytes (bytes_of f) \<and> nds st' = (nds st)(tf_node f \<mapsto> v\<lparr>nd_size := tf_size f'\<rparr>))"
  by (rule tmpfs_write_spec [OF assms, of ok]) blast+

end
