(* ===== verification/Vfs_Path.thy ===== *)
theory Vfs_Path
  imports Vfs
begin

text \<open>
  What a path of the virtual file system stands for, and that \<open>vfs_open\<close> finds it and \<open>vfs_mkdir\<close> makes it, for every file system that
  keeps the laws of \<open>node_store\<close>.
\<close>

section \<open>Paths\<close>

lemma pathtok_None:
  assumes "pathtok s = None"
  shows "components s = []"
proof -
  have "dropWhile (\<lambda>c. c = CHR ''/'') s = []" using assms unfolding pathtok_def Let_def by (metis option.distinct(1))
  then show ?thesis using components_dropWhile [of s] by (metis components_slash(2))
qed

lemma pathtok_Some:
  assumes "pathtok s = Some (t, r)"
  shows "components s = t # components r"
proof -
  let ?e = "dropWhile (\<lambda>c. c = CHR ''/'') s" and ?p = "\<lambda>c. c \<noteq> CHR ''/''"
  have e: "?e \<noteq> []" "t = takeWhile ?p ?e" "r = tl (dropWhile ?p ?e)"
    using assms by (auto simp: pathtok_def Let_def split: if_splits)
  have "hd ?e \<noteq> CHR ''/''" using e(1) hd_dropWhile by blast
  then have "t \<noteq> []" unfolding e(2) using e(1) by (cases ?e) simp_all
  moreover have "c \<noteq> CHR ''/''" if "c \<in> set t" for c using that unfolding e(2) by (rule set_takeWhileD [THEN conjunct2])
  ultimately have w: "t \<noteq> []" "CHR ''/'' \<notin> set t" by blast+
  have "components ?e = t # components r"
  proof (cases "dropWhile ?p ?e")
    case Nil
    then have "?e = t" using e(2) takeWhile_dropWhile_id [of ?p ?e] by (metis append_Nil2)
    moreover have "r = []" using e(3) Nil by (simp only: list.sel)
    ultimately show ?thesis using components_word(1) [OF w] by (metis components_slash(2))
  next
    case (Cons c q)
    have "c = CHR ''/''" using hd_dropWhile [of ?p ?e] Cons by (metis list.distinct(1) list.sel(1))
    moreover have "?e = t @ c # q" using e(2) takeWhile_dropWhile_id [of ?p ?e] Cons by metis
    moreover have "r = q" using e(3) Cons by (simp only: list.sel)
    ultimately show ?thesis using components_word(2) [OF w] by metis
  qed
  then show ?thesis by (simp add: components_dropWhile)
qed

lemma pathtok_eq:
  "components s = [] \<Longrightarrow> pathtok s = None"
  "components s = t # ts \<Longrightarrow> \<exists>r. pathtok s = Some (t, r) \<and> components r = ts"
  using pathtok_None [of s] pathtok_Some [of s] by (cases "pathtok s"; force)+

section \<open>What may change when a path is looked up\<close>

text \<open>Looking up a path may change sizes, reference counts and the mark that a link has been followed.\<close>

definition erased :: "vnode \<Rightarrow> vnode" where
  "erased v = v\<lparr>nd_size := 0, nd_refcount := 0, nd_type := nd_type v AND NOT file_proxy\<rparr>"

definition same_tree :: "'a vfs_scheme \<Rightarrow> 'a vfs_scheme \<Rightarrow> bool" where
  "same_tree st st' \<longleftrightarrow> rootdir st' = rootdir st \<and> next_node st' = next_node st \<and> (\<forall>n. map_option erased (nds st' n) = map_option erased (nds st n))"

lemma same_tree_refl [simp]: "same_tree st st"
  by (simp add: same_tree_def)

lemma same_tree_trans: "same_tree st st1 \<Longrightarrow> same_tree st1 st2 \<Longrightarrow> same_tree st st2"
  by (simp add: same_tree_def)

lemma same_tree_sym: "same_tree st st' \<Longrightarrow> same_tree st' st"
  by (simp add: same_tree_def)

lemma same_tree_node:
  assumes "same_tree st st'" "nds st n = Some v"
  obtains v' where "nds st' n = Some v'" "erased v' = erased v"
proof -
  have "map_option erased (nds st' n) = Some (erased v)" using assms by (simp add: same_tree_def)
  then show ?thesis using that by blast
qed

lemma erased_eqD:
  assumes "erased v' = erased v"
  shows "nd_parent v' = nd_parent v" "nd_linkto v' = nd_linkto v" "nd_name v' = nd_name v" "nd_child v' = nd_child v" "nd_linkto_path v' = nd_linkto_path v"
    "nd_fsid v' = nd_fsid v" "nd_handle v' = nd_handle v" "nd_type v' AND NOT file_proxy = nd_type v AND NOT file_proxy"
proof -
  have e: "nd_parent (erased v') = nd_parent (erased v)" "nd_linkto (erased v') = nd_linkto (erased v)" "nd_name (erased v') = nd_name (erased v)"
    "nd_child (erased v') = nd_child (erased v)" "nd_linkto_path (erased v') = nd_linkto_path (erased v)" "nd_fsid (erased v') = nd_fsid (erased v)"
    "nd_handle (erased v') = nd_handle (erased v)" "nd_type (erased v') = nd_type (erased v)" using assms by simp_all
  then show "nd_parent v' = nd_parent v" "nd_linkto v' = nd_linkto v" "nd_name v' = nd_name v" "nd_child v' = nd_child v" "nd_linkto_path v' = nd_linkto_path v"
    "nd_fsid v' = nd_fsid v" "nd_handle v' = nd_handle v" "nd_type v' AND NOT file_proxy = nd_type v AND NOT file_proxy"
    by (simp_all add: erased_def)
qed

lemma has_erased: "flag AND file_proxy = 0 \<Longrightarrow> nd_type v' AND NOT file_proxy = nd_type v AND NOT file_proxy \<Longrightarrow> has (nd_type v') flag = has (nd_type v) flag"
proof -
  assume f: "flag AND file_proxy = 0" and t: "nd_type v' AND NOT file_proxy = nd_type v AND NOT file_proxy"
  have "x AND flag = (x AND NOT file_proxy) AND flag" for x
    using f by (simp add: bit_eq_iff bit_simps) blast
  then show ?thesis using t unfolding has_def by metis
qed

lemma same_tree_put:
  assumes "nds st n = Some v" "erased v' = erased v"
  shows "same_tree st (st\<lparr>nds := (nds st)(n \<mapsto> v')\<rparr>)"
  using assms by (simp add: same_tree_def)

lemma first_named_cong: "(\<And>n. map_option nd_name (nds st' n) = map_option nd_name (nds st n)) \<Longrightarrow> first_named nm ns st' = first_named nm ns st"
proof (induction ns)
  case (Cons n ns)
  have "map_option nd_name (nds st' n) = map_option nd_name (nds st n)" using Cons.prems by blast
  then show ?case using Cons by (cases "nds st n"; cases "nds st' n") auto
qed simp

lemma same_tree_names: "same_tree st st' \<Longrightarrow> map_option nd_name (nds st' n) = map_option nd_name (nds st n)"
proof (cases "nds st n")
  case None
  moreover assume "same_tree st st'"
  then have "map_option erased (nds st' n) = map_option erased (nds st n)" by (simp add: same_tree_def)
  ultimately show ?thesis by simp
next
  case (Some v)
  moreover assume "same_tree st st'"
  ultimately obtain v' where "nds st' n = Some v'" "erased v' = erased v" using same_tree_node by blast
  then have "nds st' n = Some v'" "nd_name v' = nd_name v" using erased_eqD(3) by blast+
  then show ?thesis using Some by simp
qed

lemma same_tree_find: "same_tree st st' \<Longrightarrow> vfs_child_find n nm st' = vfs_child_find n nm st"
proof (cases "nds st n")
  case None
  moreover assume "same_tree st st'"
  then have "map_option erased (nds st' n) = map_option erased (nds st n)" by (simp add: same_tree_def)
  ultimately show ?thesis by (simp add: vfs_child_find_def)
next
  case (Some v)
  moreover assume s: "same_tree st st'"
  ultimately obtain v' where "nds st' n = Some v'" "erased v' = erased v" using same_tree_node by blast
  then have "nds st' n = Some v'" "nd_child v' = nd_child v" using erased_eqD(4) by blast+
  then show ?thesis using Some first_named_cong [of st' st, OF same_tree_names [OF s]] by (simp add: vfs_child_find_def)
qed

text \<open>A tree that has all nodes of another under the same names, and perhaps more.\<close>

definition extends :: "'a vfs_scheme \<Rightarrow> 'a vfs_scheme \<Rightarrow> bool" where
  "extends st st' \<longleftrightarrow> rootdir st' = rootdir st \<and>
     (\<forall>n v. nds st n = Some v \<longrightarrow> (\<exists>v'. nds st' n = Some v' \<and> erased (v'\<lparr>nd_child := []\<rparr>) = erased (v\<lparr>nd_child := []\<rparr>))) \<and>
     (\<forall>n c m. vfs_child_find n c st = Some (Some m) \<longrightarrow> vfs_child_find n c st' = Some (Some m))"

lemma extends_trans: "extends st st1 \<Longrightarrow> extends st1 st2 \<Longrightarrow> extends st st2"
proof -
  assume a: "extends st st1" "extends st1 st2"
  have "\<exists>v'. nds st2 n = Some v' \<and> erased (v'\<lparr>nd_child := []\<rparr>) = erased (v\<lparr>nd_child := []\<rparr>)" if n: "nds st n = Some v" for n v
  proof -
    obtain v1 where v1: "nds st1 n = Some v1" "erased (v1\<lparr>nd_child := []\<rparr>) = erased (v\<lparr>nd_child := []\<rparr>)"
      using a(1) n unfolding extends_def by blast
    then obtain v2 where "nds st2 n = Some v2" "erased (v2\<lparr>nd_child := []\<rparr>) = erased (v1\<lparr>nd_child := []\<rparr>)"
      using a(2) unfolding extends_def by blast
    then show ?thesis using v1(2) by simp
  qed
  moreover have "rootdir st2 = rootdir st" "\<forall>n c m. vfs_child_find n c st = Some (Some m) \<longrightarrow> vfs_child_find n c st2 = Some (Some m)"
    using a unfolding extends_def by auto
  ultimately show ?thesis unfolding extends_def by blast
qed

lemma erased_child: "erased v' = erased v \<Longrightarrow> erased (v'\<lparr>nd_child := []\<rparr>) = erased (v\<lparr>nd_child := []\<rparr>)"
  by (cases v; cases v') (simp add: erased_def)

lemma same_tree_extends: "same_tree st st' \<Longrightarrow> extends st st'"
proof -
  assume s: "same_tree st st'"
  have "\<exists>v'. nds st' n = Some v' \<and> erased (v'\<lparr>nd_child := []\<rparr>) = erased (v\<lparr>nd_child := []\<rparr>)" if "nds st n = Some v" for n v
    using same_tree_node [OF s that] erased_child by metis
  then show ?thesis using s same_tree_find [OF s] by (simp add: extends_def same_tree_def)
qed

lemma extends_node:
  assumes "extends st st'" "nds st n = Some v"
  obtains v' where "nds st' n = Some v'" "nd_parent v' = nd_parent v" "nd_name v' = nd_name v" "nd_linkto v' = nd_linkto v"
    "nd_linkto_path v' = nd_linkto_path v" "nd_type v' AND NOT file_proxy = nd_type v AND NOT file_proxy"
proof -
  obtain v' where v: "nds st' n = Some v'" "erased (v'\<lparr>nd_child := []\<rparr>) = erased (v\<lparr>nd_child := []\<rparr>)" using assms unfolding extends_def by blast
  show ?thesis by (rule that [OF v(1)]) (use erased_eqD [OF v(2)] in simp_all)
qed

lemma ancestors_extends:
  assumes a: "ancestors st cur = Some ns" and e: "extends st st'"
  shows "ancestors st' cur = Some ns"
proof -
  have "\<forall>st'. extends st st' \<longrightarrow> ancestors st' cur = Some ns"
  proof (rule ancestors.raw_induct [where P = "\<lambda>st cur ns. \<forall>st'. extends st st' \<longrightarrow> ancestors st' cur = Some ns", OF _ a])
    fix anc :: "'a vfs_scheme \<Rightarrow> nat option \<Rightarrow> nat list option" and st cur ns
    assume IH: "\<And>st cur ns. anc st cur = Some ns \<Longrightarrow> \<forall>st'. extends st st' \<longrightarrow> ancestors st' cur = Some ns"
      and b: "(case cur of None \<Rightarrow> Some [] | Some n \<Rightarrow> nds st n \<bind> (\<lambda>v. anc st (nd_parent v) \<bind> (\<lambda>ns. Some (n # ns)))) = Some ns"
    show "\<forall>st'. extends st st' \<longrightarrow> ancestors st' cur = Some ns"
    proof (intro allI impI)
      fix st'
      assume e: "extends st st'"
      show "ancestors st' cur = Some ns"
      proof (cases cur)
        case None
        then show ?thesis using b by (subst ancestors.simps) simp
      next
        case (Some n)
        then obtain v ms where v: "nds st n = Some v" "anc st (nd_parent v) = Some ms" "ns = n # ms"
          using b by (auto simp: bind_eq_Some_conv)
        obtain v' where v': "nds st' n = Some v'" "nd_parent v' = nd_parent v" by (rule extends_node [OF e v(1)])
        have "ancestors st' (nd_parent v) = Some ms" using IH [OF v(2)] e by blast
        then show ?thesis using Some v v' by (subst ancestors.simps) simp
      qed
    qed
  qed
  then show ?thesis using e by blast
qed

lemma append_names_extends: "append_names ns buff st = Some p \<Longrightarrow> extends st st' \<Longrightarrow> append_names ns buff st' = Some p"
proof (induction ns buff st arbitrary: p rule: append_names.induct)
  case (2 n ns buff st)
  have r: "rootdir st' = rootdir st" using 2(4) by (simp add: extends_def)
  show ?case
  proof (cases "n = rootdir st")
    case True
    then show ?thesis using 2 r by simp
  next
    case False
    obtain v nm b1 b2 where v: "nds st n = Some v" "nd_name v = Some nm" "strcat 256 buff nm = Some b1"
      "(if ns \<noteq> [] then strcat 256 b1 ''/'' else Some b1) = Some b2" "append_names ns b2 st = Some p"
      using 2(3) False by (auto simp: bind_eq_Some_conv)
    obtain v' where v': "nds st' n = Some v'" "nd_name v' = nd_name v" by (rule extends_node [OF 2(4) v(1)])
    have "append_names ns b2 st' = Some p" using 2(2) [OF False v(1-5) 2(4)] .
    then show ?thesis using v v' False r by simp
  qed
qed simp

lemma link_path_extends: "link_path n lp st = Some p \<Longrightarrow> extends st st' \<Longrightarrow> link_path n lp st' = Some p"
proof -
  assume l: "link_path n lp st = Some p" and e: "extends st st'"
  show ?thesis
  proof (cases "hd0 lp = CHR ''/''")
    case False
    then obtain v base where v: "nds st n = Some v"
      "vfs_get_fullpath (Some (case nd_parent v of Some p \<Rightarrow> p | None \<Rightarrow> rootdir st)) st = Some base"
      "(case base of None \<Rightarrow> Some None | Some base \<Rightarrow> pathacat base lp \<bind> (\<lambda>joined. normalize_path (\<lambda>_. True) (Some joined))) = Some p"
      using l by (auto simp: link_path_def bind_eq_Some_conv)
    obtain v' where v': "nds st' n = Some v'" "nd_parent v' = nd_parent v" by (rule extends_node [OF e v(1)])
    have "(case nd_parent v of Some p \<Rightarrow> p | None \<Rightarrow> rootdir st') = (case nd_parent v of Some p \<Rightarrow> p | None \<Rightarrow> rootdir st)"
      using e by (simp add: extends_def split: option.split)
    moreover have "vfs_get_fullpath (Some (case nd_parent v of Some p \<Rightarrow> p | None \<Rightarrow> rootdir st)) st' = Some base"
      using v(2) ancestors_extends [OF _ e] append_names_extends [OF _ e] by (auto simp: vfs_get_fullpath_def bind_eq_Some_conv)
    ultimately show ?thesis using False v v' by (simp add: link_path_def)
  qed (use l in \<open>simp add: link_path_def\<close>)
qed

section \<open>What a path stands for\<close>

text \<open>
  \<open>resolves st n cs r\<close>: the names \<open>cs\<close> lead from node \<open>n\<close> to node \<open>r\<close>, or nowhere.  Links are followed, those whose target is not known by the path they
  hold.
\<close>

inductive resolves :: "'a vfs_scheme \<Rightarrow> nat \<Rightarrow> string list \<Rightarrow> nat option \<Rightarrow> bool" for st where
  here: "resolves st n [] (Some n)"
| dot: "resolves st n cs r \<Longrightarrow> resolves st n (''.'' # cs) r"
| up: "nds st n = Some v \<Longrightarrow> resolves st (case nd_parent v of Some p \<Rightarrow> p | None \<Rightarrow> n) cs r \<Longrightarrow> resolves st n (''..'' # cs) r"
| missing: "c \<noteq> ''.'' \<Longrightarrow> c \<noteq> ''..'' \<Longrightarrow> vfs_child_find n c st = Some None \<Longrightarrow> resolves st n (c # cs) None"
| child: "c \<noteq> ''.'' \<Longrightarrow> c \<noteq> ''..'' \<Longrightarrow> vfs_child_find n c st = Some (Some m) \<Longrightarrow> nds st m = Some v \<Longrightarrow> \<not> has (nd_type v) file_symlink \<Longrightarrow>
    resolves st m cs r \<Longrightarrow> resolves st n (c # cs) r"
| link: "c \<noteq> ''.'' \<Longrightarrow> c \<noteq> ''..'' \<Longrightarrow> vfs_child_find n c st = Some (Some m) \<Longrightarrow> nds st m = Some v \<Longrightarrow> has (nd_type v) file_symlink \<Longrightarrow>
    nd_parent v \<noteq> None \<Longrightarrow> nd_linkto v = Some t \<Longrightarrow> nds st t \<noteq> None \<Longrightarrow> resolves st t cs r \<Longrightarrow> resolves st n (c # cs) r"
| path: "c \<noteq> ''.'' \<Longrightarrow> c \<noteq> ''..'' \<Longrightarrow> vfs_child_find n c st = Some (Some m) \<Longrightarrow> nds st m = Some v \<Longrightarrow> has (nd_type v) file_symlink \<Longrightarrow>
    nd_parent v \<noteq> None \<Longrightarrow> nd_linkto v = None \<Longrightarrow> nd_linkto_path v = Some lp \<Longrightarrow> link_path m lp st = Some (Some (CHR ''/'' # p)) \<Longrightarrow>
    resolves st (rootdir st) (components p) (Some t) \<Longrightarrow> nds st t \<noteq> None \<Longrightarrow> resolves st t cs r \<Longrightarrow> resolves st n (c # cs) r"
| dangling: "c \<noteq> ''.'' \<Longrightarrow> c \<noteq> ''..'' \<Longrightarrow> vfs_child_find n c st = Some (Some m) \<Longrightarrow> nds st m = Some v \<Longrightarrow> has (nd_type v) file_symlink \<Longrightarrow>
    nd_parent v \<noteq> None \<Longrightarrow> nd_linkto v = None \<Longrightarrow> nd_linkto_path v = Some lp \<Longrightarrow> link_path m lp st = Some (Some (CHR ''/'' # p)) \<Longrightarrow>
    resolves st (rootdir st) (components p) None \<Longrightarrow> resolves st n (c # cs) None"

text \<open>A path that leads somewhere still leads there when the tree has grown.\<close>

lemma resolves_extends:
  assumes "resolves st n cs r" "extends st st'" "r \<noteq> None"
  shows "resolves st' n cs r"
  using assms
proof (induction rule: resolves.induct)
  case (up n v cs r)
  obtain v' where "nds st' n = Some v'" "nd_parent v' = nd_parent v" by (rule extends_node [OF up.prems(1) up.hyps(1)])
  then show ?case using resolves.up [of st' n v' cs r] up by simp
next
  case (child c n m v cs r)
  obtain v' where v': "nds st' m = Some v'" "nd_type v' AND NOT file_proxy = nd_type v AND NOT file_proxy"
    by (rule extends_node [OF child.prems(1) child.hyps(4)])
  have "\<not> has (nd_type v') file_symlink" using has_erased [OF _ v'(2), of file_symlink] child.hyps(5) by (simp add: file_types)
  then show ?case using resolves.child [of c n st' m v' cs r] child v'(1) by (auto simp: extends_def)
next
  case (link c n m v t cs r)
  obtain v' where v': "nds st' m = Some v'" "nd_type v' AND NOT file_proxy = nd_type v AND NOT file_proxy" "nd_parent v' = nd_parent v" "nd_linkto v' = nd_linkto v"
    by (rule extends_node [OF link.prems(1) link.hyps(4)])
  have "has (nd_type v') file_symlink" using has_erased [OF _ v'(2), of file_symlink] link.hyps(5) by (simp add: file_types)
  moreover have "nds st' t \<noteq> None" using link.hyps(8) link.prems(1) by (auto elim: extends_node)
  ultimately show ?case using resolves.link [of c n st' m v' t cs r] link v' by (auto simp: extends_def)
next
  case (path c n m v lp p t cs r)
  obtain v' where v': "nds st' m = Some v'" "nd_type v' AND NOT file_proxy = nd_type v AND NOT file_proxy" "nd_parent v' = nd_parent v" "nd_linkto v' = nd_linkto v"
    "nd_linkto_path v' = nd_linkto_path v"
    by (rule extends_node [OF path.prems(1) path.hyps(4)])
  have "has (nd_type v') file_symlink" using has_erased [OF _ v'(2), of file_symlink] path.hyps(5) by (simp add: file_types)
  moreover have "nds st' t \<noteq> None" using path.hyps(11) path.prems(1) by (auto elim: extends_node)
  moreover have "rootdir st' = rootdir st" using path.prems(1) by (simp add: extends_def)
  ultimately show ?case using resolves.path [of c n st' m v' lp p t cs r] path v' link_path_extends [OF path.hyps(9) path.prems(1)] by (auto simp: extends_def)
qed (auto intro: resolves.intros)

section \<open>File systems\<close>

text \<open>
  What the lookup and creation of paths rely on: bringing a node up to date changes no more than a lookup may, and a new
  directory is the first child of its parent and is empty.  \<open>good\<close> is the invariant of the file system.
\<close>

locale node_store =
  fixes cbs :: "'a callbacks"
    and good :: "'a vfs_scheme \<Rightarrow> bool"
  assumes update_law: "good st \<Longrightarrow> nds st n = Some v \<Longrightarrow> \<exists>st'. do_update cbs n st = Some st' \<and> good st' \<and> same_tree st st'"
    and link_law: "good st \<Longrightarrow> nds st n = Some v \<Longrightarrow> has (nd_type v) file_symlink \<Longrightarrow> nd_type v AND NOT file_proxy = file_symlink"
    and touch_law: "good st \<Longrightarrow> nds st n = Some v \<Longrightarrow> erased v' = erased v \<Longrightarrow> good (st\<lparr>nds := (nds st)(n \<mapsto> v')\<rparr>)"
    and fresh_law: "good st \<Longrightarrow> nds st (next_node st) = None"
    and make_law: "good st \<Longrightarrow> nds st f = Some fv \<Longrightarrow> \<exists>st' v. make_dir cbs f buf st = Some (next_node st, st') \<and> good st' \<and> rootdir st' = rootdir st \<and>
      nds st' = (nds st)(f \<mapsto> fv\<lparr>nd_child := next_node st # nd_child fv\<rparr>, next_node st \<mapsto> v) \<and>
      nd_name v = Some buf \<and> nd_type v = file_dir \<and> nd_child v = []"
begin

lemma update:
  assumes "same_tree st st1" "good st1" "nds st m = Some v"
  obtains st2 v2 where "do_update cbs m st1 = Some st2" "same_tree st st2" "good st2" "nds st2 m = Some v2" "erased v2 = erased v"
proof -
  obtain v1 where "nds st1 m = Some v1" "erased v1 = erased v" by (rule same_tree_node [OF assms(1,3)])
  then obtain st2 where s: "do_update cbs m st1 = Some st2" "good st2" "same_tree st1 st2" using update_law [OF assms(2)] by blast
  have t: "same_tree st st2" by (rule same_tree_trans [OF assms(1) s(3)])
  show ?thesis by (rule same_tree_node [OF t assms(3)]) (rule that [OF s(1) t s(2)])
qed

lemma touch:
  assumes "same_tree st st1" "good st1" "nds st1 m = Some v" "erased (g v) = erased v"
  obtains st2 where "upd_nd m g st1 = Some st2" "same_tree st st2" "good st2" "st2 = st1\<lparr>nds := (nds st1)(m \<mapsto> g v)\<rparr>"
  using that [of "st1\<lparr>nds := (nds st1)(m \<mapsto> g v)\<rparr>"] touch_law [OF assms(2,3,4)] same_tree_trans [OF assms(1) same_tree_put [OF assms(3,4)]] assms(3)
  by (simp add: upd_nd_def)

lemma symlink_like: "erased v2 = erased v \<Longrightarrow> has (nd_type v2) file_symlink = has (nd_type v) file_symlink"
  by (rule has_erased [OF _ erased_eqD(8)]) (simp_all add: file_types)

lemma dir_like: "erased v2 = erased v \<Longrightarrow> has (nd_type v2) file_dir = has (nd_type v) file_dir"
  by (rule has_erased [OF _ erased_eqD(8)]) (simp_all add: file_types)

text \<open>The step over a link up to the call that looks up its target.\<close>

lemma at_link:
  assumes "same_tree st st1" "good st1" "nds st m = Some v" "has (nd_type v) file_symlink"
  obtains st2 v2 st3 where "do_update cbs m st1 = Some st2" "nds st2 m = Some v2" "erased v2 = erased v" "has (nd_type v2) file_symlink"
    "upd_nd m (\<lambda>v. v\<lparr>nd_type := file_symlink OR file_proxy\<rparr>) st2 = Some st3" "same_tree st st3" "good st3"
proof -
  obtain st2 v2 where u: "do_update cbs m st1 = Some st2" "same_tree st st2" "good st2" "nds st2 m = Some v2" "erased v2 = erased v"
    by (rule update [OF assms(1-3)])
  have l: "has (nd_type v2) file_symlink" using symlink_like [OF u(5)] assms(4) by simp
  have "nd_type v2 AND NOT file_proxy = (file_symlink OR file_proxy) AND NOT file_proxy" using link_law [OF u(3,4) l] by (simp add: file_types)
  then have "erased (v2\<lparr>nd_type := file_symlink OR file_proxy\<rparr>) = erased v2" by (cases v2) (simp add: erased_def)
  then show ?thesis using touch [OF u(2,3,4), of "\<lambda>v. v\<lparr>nd_type := file_symlink OR file_proxy\<rparr>"] that [OF u(1,4,5) l] by blast
qed

lemma count_up:
  assumes "same_tree st st1" "good st1" "nds st t \<noteq> None"
  obtains st2 where "upd_nd t (\<lambda>v. v\<lparr>nd_refcount := nd_refcount v + 1\<rparr>) st1 = Some st2" "same_tree st st2" "good st2"
proof -
  obtain v where "nds st t = Some v" using assms(3) by blast
  then obtain v1 where v: "nds st1 t = Some v1" by (rule same_tree_node [OF assms(1)])
  have "erased (v1\<lparr>nd_refcount := nd_refcount v1 + 1\<rparr>) = erased v1" by (cases v1) (simp add: erased_def)
  then show ?thesis using touch [OF assms(1,2) v, of "\<lambda>v. v\<lparr>nd_refcount := nd_refcount v + 1\<rparr>"] that by blast
qed

theorem open_resolves:
  assumes "resolves st n cs r"
  shows "same_tree st st1 \<Longrightarrow> good st1 \<Longrightarrow> components path = cs \<Longrightarrow> \<exists>st2. open_walk cbs n path st1 = Some (r, st2) \<and> same_tree st st2 \<and> good st2"
  using assms
proof (induction arbitrary: st1 path rule: resolves.induct)
  case (here n)
  then show ?case using pathtok_eq(1) [OF here(3)] by (subst open_walk.simps) simp
next
  case (dot n cs r)
  obtain rest where p: "pathtok path = Some (''.'', rest)" "components rest = cs" using pathtok_eq(2) [OF dot.prems(3)] by blast
  show ?case using dot.IH [OF dot.prems(1,2) p(2)] p(1) by (subst open_walk.simps) simp
next
  case (up n v cs r)
  obtain rest where p: "pathtok path = Some (''..'', rest)" "components rest = cs" using pathtok_eq(2) [OF up.prems(3)] by blast
  obtain v1 where v1: "nds st1 n = Some v1" "erased v1 = erased v" by (rule same_tree_node [OF up.prems(1) up.hyps(1)])
  show ?case using up.IH [OF up.prems(1,2) p(2)] p(1) v1(1) erased_eqD(1) [OF v1(2)] by (subst open_walk.simps) simp
next
  case (missing c n cs)
  obtain rest where p: "pathtok path = Some (c, rest)" using pathtok_eq(2) [OF missing.prems(3)] by blast
  show ?case using p missing same_tree_find [OF missing.prems(1), of n c] by (subst open_walk.simps) simp
next
  case (child c n m v cs r)
  obtain rest where p: "pathtok path = Some (c, rest)" "components rest = cs" using pathtok_eq(2) [OF child.prems(3)] by blast
  obtain st2 v2 where u: "do_update cbs m st1 = Some st2" "same_tree st st2" "good st2" "nds st2 m = Some v2" "erased v2 = erased v"
    by (rule update [OF child.prems(1,2) child.hyps(4)])
  have "open_walk cbs n path st1 = open_walk cbs m rest st2"
    using p(1) child.hyps(1-3,5) same_tree_find [OF child.prems(1), of n c] u symlink_like [OF u(5)] by (subst open_walk.simps) simp
  then show ?case using child.IH [OF u(2,3) p(2)] by simp
next
  case (link c n m v t cs r)
  obtain rest where p: "pathtok path = Some (c, rest)" "components rest = cs" using pathtok_eq(2) [OF link.prems(3)] by blast
  obtain st2 v2 st3 where u: "do_update cbs m st1 = Some st2" "nds st2 m = Some v2" "erased v2 = erased v" "has (nd_type v2) file_symlink"
    "upd_nd m (\<lambda>v. v\<lparr>nd_type := file_symlink OR file_proxy\<rparr>) st2 = Some st3" "same_tree st st3" "good st3"
    by (rule at_link [OF link.prems(1,2) link.hyps(4,5)])
  obtain st4 where w: "upd_nd t (\<lambda>v. v\<lparr>nd_refcount := nd_refcount v + 1\<rparr>) st3 = Some st4" "same_tree st st4" "good st4"
    by (rule count_up [OF u(6,7) link.hyps(8)])
  obtain q where q: "nd_parent v = Some q" using link.hyps(6) by blast
  have "open_walk cbs n path st1 = open_walk cbs t rest st4"
    using p(1) q link.hyps(1-3,7) same_tree_find [OF link.prems(1), of n c] u(1,2,4,5) w(1) erased_eqD(1,2) [OF u(3)] by (subst open_walk.simps) simp
  then show ?case using link.IH [OF w(2,3) p(2)] by simp
next
  case (path c n m v lp p t cs r)
  obtain rest where p: "pathtok path = Some (c, rest)" "components rest = cs" using pathtok_eq(2) [OF path.prems(3)] by blast
  obtain st2 v2 st3 where u: "do_update cbs m st1 = Some st2" "nds st2 m = Some v2" "erased v2 = erased v" "has (nd_type v2) file_symlink"
    "upd_nd m (\<lambda>v. v\<lparr>nd_type := file_symlink OR file_proxy\<rparr>) st2 = Some st3" "same_tree st st3" "good st3"
    by (rule at_link [OF path.prems(1,2) path.hyps(4,5)])
  have lp: "link_path m lp st3 = Some (Some (CHR ''/'' # p))" by (rule link_path_extends [OF path.hyps(9) same_tree_extends [OF u(6)]])
  have root: "rootdir st3 = rootdir st" using u(6) by (simp add: same_tree_def)
  obtain st4 where t: "open_walk cbs (rootdir st) p st3 = Some (Some t, st4)" "same_tree st st4" "good st4" using path.IH(1) [OF u(6,7) refl] by blast
  obtain st5 where w: "upd_nd t (\<lambda>v. v\<lparr>nd_refcount := nd_refcount v + 1\<rparr>) st4 = Some st5" "same_tree st st5" "good st5"
    by (rule count_up [OF t(2,3) path.hyps(11)])
  obtain q where q: "nd_parent v = Some q" using path.hyps(6) by blast
  have "open_walk cbs n path st1 = open_walk cbs t rest st5"
    using p(1) q path.hyps(1-3,7,8) same_tree_find [OF path.prems(1), of n c] u(1,2,4,5) w(1) t(1) lp root erased_eqD(1,2,5) [OF u(3)]
    by (subst open_walk.simps) (simp add: hd0_def)
  then show ?case using path.IH(2) [OF w(2,3) p(2)] by simp
next
  case (dangling c n m v lp p cs)
  obtain rest where p: "pathtok path = Some (c, rest)" using pathtok_eq(2) [OF dangling.prems(3)] by blast
  obtain st2 v2 st3 where u: "do_update cbs m st1 = Some st2" "nds st2 m = Some v2" "erased v2 = erased v" "has (nd_type v2) file_symlink"
    "upd_nd m (\<lambda>v. v\<lparr>nd_type := file_symlink OR file_proxy\<rparr>) st2 = Some st3" "same_tree st st3" "good st3"
    by (rule at_link [OF dangling.prems(1,2) dangling.hyps(4,5)])
  have lp: "link_path m lp st3 = Some (Some (CHR ''/'' # p))" by (rule link_path_extends [OF dangling.hyps(9) same_tree_extends [OF u(6)]])
  have root: "rootdir st3 = rootdir st" using u(6) by (simp add: same_tree_def)
  obtain st4 where t: "open_walk cbs (rootdir st) p st3 = Some (None, st4)" "same_tree st st4" "good st4" using dangling.IH [OF u(6,7) refl] by blast
  obtain q where q: "nd_parent v = Some q" using dangling.hyps(6) by blast
  have "open_walk cbs n path st1 = Some (None, st4)"
    using p q dangling.hyps(1-3,7,8) same_tree_find [OF dangling.prems(1), of n c] u(1,2,4,5) t(1) lp root erased_eqD(1,2,5) [OF u(3)]
    by (subst open_walk.simps) (simp add: hd0_def)
  then show ?case using t(2,3) by blast
qed

end

section \<open>Making directories\<close>

text \<open>The names lead through directories as far as there are nodes; none is a dot or two.\<close>

fun dir_path :: "'a vfs_scheme \<Rightarrow> nat \<Rightarrow> string list \<Rightarrow> bool" where
  "dir_path st n [] \<longleftrightarrow> True"
| "dir_path st n (c # cs) \<longleftrightarrow> c \<noteq> ''.'' \<and> c \<noteq> ''..'' \<and>
     (case vfs_child_find n c st of
        None \<Rightarrow> False
      | Some None \<Rightarrow> (\<forall>c \<in> set cs. c \<noteq> ''.'' \<and> c \<noteq> ''..'')
      | Some (Some m) \<Rightarrow> (case nds st m of None \<Rightarrow> False | Some v \<Rightarrow> has (nd_type v) file_dir \<and> \<not> has (nd_type v) file_symlink) \<and> dir_path st m cs)"

lemma has_of_erased:
  assumes "erased v' = erased v"
  shows "has (nd_type v') file_symlink = has (nd_type v) file_symlink" "has (nd_type v') file_dir = has (nd_type v) file_dir"
  by (rule has_erased [OF _ erased_eqD(8) [OF assms]]; simp add: file_types)+

lemma dir_path_same_tree: "same_tree st st' \<Longrightarrow> dir_path st n cs \<Longrightarrow> dir_path st' n cs"
proof (induction cs arbitrary: n)
  case (Cons c cs)
  note f = same_tree_find [OF Cons.prems(1), of n c]
  show ?case
  proof (cases "vfs_child_find n c st")
    case None
    then show ?thesis using Cons.prems(2) by simp
  next
    case s: (Some r)
    show ?thesis
    proof (cases r)
      case None
      then show ?thesis using Cons.prems(2) s f by simp
    next
      case (Some m)
      then obtain v where v: "nds st m = Some v" "has (nd_type v) file_dir" "\<not> has (nd_type v) file_symlink" "dir_path st m cs"
        using Cons.prems(2) s by (auto split: option.splits)
      obtain v' where "nds st' m = Some v'" "erased v' = erased v" by (rule same_tree_node [OF Cons.prems(1) v(1)])
      then show ?thesis using v(2,3) has_of_erased [of v' v] Cons.IH [OF Cons.prems(1) v(4)] Cons.prems(2) s Some f by simp
    qed
  qed
qed simp

lemma dir_path_empty: "nds st n = Some v \<Longrightarrow> nd_child v = [] \<Longrightarrow> \<forall>c \<in> set cs. c \<noteq> ''.'' \<and> c \<noteq> ''..'' \<Longrightarrow> dir_path st n cs"
  by (cases cs) (simp_all add: vfs_child_find_def)

lemma first_named_mono:
  assumes "\<And>n v. nds st n = Some v \<Longrightarrow> \<exists>v'. nds st' n = Some v' \<and> nd_name v' = nd_name v"
  shows "first_named c ns st = Some (Some k) \<Longrightarrow> first_named c ns st' = Some (Some k)"
proof (induction ns)
  case (Cons n ns)
  then obtain v where v: "nds st n = Some v" by (auto simp: bind_eq_Some_conv)
  then obtain v' where "nds st' n = Some v'" "nd_name v' = nd_name v" using assms by blast
  then show ?case using Cons v by (simp split: if_splits)
qed simp

lemma new_child_extends:
  assumes f: "nds st f = Some fv" and m: "nds st m = None" and find: "vfs_child_find f c st = Some None"
    and st': "nds st' = (nds st)(f \<mapsto> fv\<lparr>nd_child := m # nd_child fv\<rparr>, m \<mapsto> v)" "rootdir st' = rootdir st" "nd_name v = Some c"
  shows "extends st st'" "vfs_child_find f c st' = Some (Some m)"
proof -
  have fm: "f \<noteq> m" using f m by auto
  have nodes: "\<exists>v'. nds st' n = Some v' \<and> nd_name v' = nd_name w \<and> erased (v'\<lparr>nd_child := []\<rparr>) = erased (w\<lparr>nd_child := []\<rparr>)" if "nds st n = Some w" for n w
    using that f m by (cases "n = f"; cases "n = m") (auto simp: st'(1))
  have keep: "first_named c' ns st = Some (Some k) \<Longrightarrow> first_named c' ns st' = Some (Some k)" for c' ns k
    using first_named_mono [of st st' c' ns k] nodes by blast
  show find': "vfs_child_find f c st' = Some (Some m)" using fm st'(1,3) by (simp add: vfs_child_find_def)
  have "vfs_child_find n c' st' = Some (Some k)" if k: "vfs_child_find n c' st = Some (Some k)" for n c' k
  proof (cases "n = f")
    case True
    then have "c' \<noteq> c" using k find by auto
    then show ?thesis using k True f fm st'(1,3) keep by (simp add: vfs_child_find_def)
  next
    case False
    then show ?thesis using k m keep by (auto simp: vfs_child_find_def st'(1) bind_eq_Some_conv)
  qed
  then show "extends st st'" unfolding extends_def using st'(2) nodes by blast
qed

context node_store
begin

lemma enter_known:
  assumes "good st" "nds st m = Some v" "has (nd_type v) file_dir" "\<not> has (nd_type v) file_symlink"
  obtains st' where "enter_dir cbs m st = Some (Some m, st')" "same_tree st st'" "good st'"
proof (rule update [OF same_tree_refl assms(1,2)])
  fix st2 v2
  assume u: "do_update cbs m st = Some st2" "same_tree st st2" "good st2" "nds st2 m = Some v2" "erased v2 = erased v"
  have "enter_dir cbs m st = Some (Some m, st2)" using u(1,4) has_of_erased [OF u(5)] assms(3,4) by (simp add: enter_dir_def)
  then show ?thesis using that u(2,3) by blast
qed

theorem mkdir_resolves:
  "good st \<Longrightarrow> nds st n = Some w \<Longrightarrow> components path = cs \<Longrightarrow> dir_path st n cs \<Longrightarrow>
   \<exists>st' d v. mkdir_walk cbs n path st = Some (True, st') \<and> good st' \<and> extends st st' \<and> resolves st' n cs (Some d) \<and> nds st' d = Some v \<and>
     (cs \<noteq> [] \<longrightarrow> has (nd_type v) file_dir)"
proof (induction cs arbitrary: n w path st)
  case Nil
  then show ?case using pathtok_eq(1) [OF Nil(3)] same_tree_extends [OF same_tree_refl] by (subst mkdir_walk.simps) (auto intro: resolves.here)
next
  case (Cons c cs)
  obtain rest where p: "pathtok path = Some (c, rest)" "components rest = cs" using pathtok_eq(2) [OF Cons.prems(3)] by blast
  have c: "c \<noteq> ''.''" "c \<noteq> ''..''" using Cons.prems(4) by auto
  obtain m st1 v where m: "mkdir_walk cbs n path st = mkdir_walk cbs m rest st1" "good st1" "extends st st1" "vfs_child_find n c st1 = Some (Some m)"
    "nds st1 m = Some v" "has (nd_type v) file_dir" "\<not> has (nd_type v) file_symlink" "dir_path st1 m cs"
  proof (cases "vfs_child_find n c st")
    case None
    then show ?thesis using Cons.prems(4) by simp
  next
    case s: (Some r)
    show ?thesis
    proof (cases r)
      case None
      obtain st1 v where k: "make_dir cbs n c st = Some (next_node st, st1)" "good st1" "rootdir st1 = rootdir st"
        "nds st1 = (nds st)(n \<mapsto> w\<lparr>nd_child := next_node st # nd_child w\<rparr>, next_node st \<mapsto> v)" "nd_name v = Some c" "nd_type v = file_dir" "nd_child v = []"
        using make_law [OF Cons.prems(1,2)] by blast
      have x: "extends st st1" "vfs_child_find n c st1 = Some (Some (next_node st))"
        using new_child_extends [OF Cons.prems(2) fresh_law [OF Cons.prems(1)] _ k(4,3,5)] s None by blast+
      have v1: "nds st1 (next_node st) = Some v" using k(4) by simp
      obtain st2 v2 where u: "do_update cbs (next_node st) st1 = Some st2" "same_tree st1 st2" "good st2" "nds st2 (next_node st) = Some v2" "erased v2 = erased v"
        by (rule update [OF same_tree_refl k(2) v1])
      have "mkdir_walk cbs n path st = mkdir_walk cbs (next_node st) rest st2"
        using p(1) c Cons.prems(2) s None k(1) u(1) by (subst mkdir_walk.simps) simp
      moreover have "dir_path st2 (next_node st) cs"
        by (rule dir_path_empty [OF u(4)]) (use k(7) erased_eqD(4) [OF u(5)] Cons.prems(4) s None in simp_all)
      moreover have "has (nd_type v2) file_dir" "\<not> has (nd_type v2) file_symlink" using has_of_erased [OF u(5)] k(6) by (simp_all add: has_def file_types)
      ultimately show ?thesis
        using that u(3,4) extends_trans [OF x(1) same_tree_extends [OF u(2)]] same_tree_find [OF u(2)] x(2) by simp
    next
      case (Some m)
      then obtain v where v: "nds st m = Some v" "has (nd_type v) file_dir" "\<not> has (nd_type v) file_symlink" "dir_path st m cs"
        using Cons.prems(4) s by (auto split: option.splits)
      obtain st1 where e: "enter_dir cbs m st = Some (Some m, st1)" "same_tree st st1" "good st1" by (rule enter_known [OF Cons.prems(1) v(1-3)])
      obtain v1 where v1: "nds st1 m = Some v1" "erased v1 = erased v" by (rule same_tree_node [OF e(2) v(1)])
      have "mkdir_walk cbs n path st = mkdir_walk cbs m rest st1"
        using p(1) c Cons.prems(2) s Some e(1) by (subst mkdir_walk.simps) simp
      then show ?thesis
        using that [of m st1 v1] e(3) same_tree_extends [OF e(2)] same_tree_find [OF e(2)] s Some v1 has_of_erased [OF v1(2)] v(2,3) dir_path_same_tree [OF e(2) v(4)]
        by simp
    qed
  qed
  obtain st' d v' where r: "mkdir_walk cbs m rest st1 = Some (True, st')" "good st'" "extends st1 st'" "resolves st' m cs (Some d)" "nds st' d = Some v'"
    "cs \<noteq> [] \<longrightarrow> has (nd_type v') file_dir" using Cons.IH [OF m(2,5) p(2) m(8)] by blast
  obtain v2 where v2: "nds st' m = Some v2" "nd_type v2 AND NOT file_proxy = nd_type v AND NOT file_proxy" by (rule extends_node [OF r(3) m(5)])
  have h: "has (nd_type v2) file_dir" "\<not> has (nd_type v2) file_symlink"
    using has_erased [OF _ v2(2)] m(6,7) by (simp_all add: file_types)
  have "vfs_child_find n c st' = Some (Some m)" using r(3) m(4) by (simp add: extends_def)
  then have "resolves st' n (c # cs) (Some d)" using resolves.child [OF c _ v2(1) h(2) r(4)] by blast
  moreover have "has (nd_type v') file_dir"
  proof (cases "cs = []")
    case True
    then have "d = m" using r(4) by (auto elim: resolves.cases)
    then show ?thesis using r(5) v2(1) h(1) by simp
  qed (use r(6) in blast)
  ultimately show ?case using m(1) r(1,2,5) extends_trans [OF m(3) r(3)] by auto
qed

end

end
