(* ===== verification/Tmpfs_Tree.thy ===== *)
theory Tmpfs_Tree
  imports Tmpfs Vfs_Path
begin

text \<open>
  The virtual file system over the file system in memory: paths, directories, and what happens to a file that is removed while
  it is in use.
\<close>

section \<open>The memory file system as a store of nodes\<close>

definition tmpfs_ok :: "nat \<Rightarrow> tmpfs \<Rightarrow> bool" where
  "tmpfs_ok k st \<longleftrightarrow> (\<forall>n v. nds st n = Some v \<longrightarrow> n < next_node st \<and> nd_fsid v = k \<and>
     (\<exists>h f. nd_handle v = Some h \<and> h < next_file st \<and> files st h = Some f \<and> nd_type v AND NOT file_proxy = node_type (tf_type f)))"

lemma tmpfs_okD:
  assumes "tmpfs_ok k st" "nds st n = Some v"
  obtains h f where "n < next_node st" "nd_fsid v = k" "nd_handle v = Some h" "h < next_file st" "files st h = Some f"
    "nd_type v AND NOT file_proxy = node_type (tf_type f)"
  using assms unfolding tmpfs_ok_def by blast

lemma node_type_simps: "node_type ty AND NOT file_proxy = node_type ty" "has (node_type ty) file_symlink \<longleftrightarrow> ty = tp_file_symlink"
  by (cases ty; simp add: node_type_def file_types has_def)+

lemma tmpfs_touch:
  assumes "tmpfs_ok k st" "nds st n = Some v" "nd_fsid v' = nd_fsid v" "nd_handle v' = nd_handle v" "nd_type v' AND NOT file_proxy = nd_type v AND NOT file_proxy"
  shows "tmpfs_ok k (st\<lparr>nds := (nds st)(n \<mapsto> v')\<rparr>)"
  using assms unfolding tmpfs_ok_def by (auto split: if_splits)

lemma tmpfs_stat_spec:
  assumes "tmpfs_ok k st" "nds st n = Some v"
  obtains st' where "tmpfs_stat (nd_handle v) n st = Some (0, st')" "tmpfs_ok k st'" "same_tree st st'"
proof (rule tmpfs_okD [OF assms])
  fix h f
  assume f: "nd_handle v = Some h" "files st h = Some f" "nd_type v AND NOT file_proxy = node_type (tf_type f)"
  let ?v = "v\<lparr>nd_type := node_type (tf_type f), nd_size := (if tf_type f = tp_file_symlink then 0 else tf_size f)\<rparr>"
  let ?st = "st\<lparr>nds := (nds st)(n \<mapsto> ?v)\<rparr>"
  have "tmpfs_stat (nd_handle v) n st = Some (0, ?st)" using f assms(2) by (simp add: tmpfs_stat_def upd_nd_def)
  moreover have "tmpfs_ok k ?st" by (rule tmpfs_touch [OF assms]) (use f(3) node_type_simps(1) in simp_all)
  moreover have "erased ?v = erased v" using f(3) node_type_simps(1) by (cases v) (simp add: erased_def)
  ultimately show ?thesis using that same_tree_put [OF assms(2)] by blast
qed

definition tmpfs_only ::
  "nat \<Rightarrow> tmpfs_file \<Rightarrow> (u64 \<Rightarrow> bool) \<Rightarrow> (string \<Rightarrow> tmpfs \<Rightarrow> (nat option \<times> tmpfs) option) \<Rightarrow> nat option \<Rightarrow> (nat option \<Rightarrow> tmpfs \<Rightarrow> tmpfs option) \<Rightarrow>
   \<lparr>files :: nat \<rightharpoonup> tmpfs_file, next_file :: nat, held_pages :: nat, mount_dev_now :: u64\<rparr> callbacks" where
  "tmpfs_only k junk frames_ok open_path cwd free_node = (\<lambda>_. tmpfs_callbacks k junk frames_ok open_path cwd free_node)"

lemma make_dir_spec:
  assumes ok: "tmpfs_ok k st" and f: "nds st f = Some fv"
  obtains st' v where "make_dir (tmpfs_only k junk frames_ok open_path cwd free_node) f buf st = Some (next_node st, st')" "tmpfs_ok k st'"
    "rootdir st' = rootdir st" "nds st' = (nds st)(f \<mapsto> fv\<lparr>nd_child := next_node st # nd_child fv\<rparr>, next_node st \<mapsto> v)"
    "nd_name v = Some buf" "nd_type v = file_dir" "nd_child v = []"
proof (rule tmpfs_okD [OF ok f])
  fix h g
  assume g: "f < next_node st" "nd_fsid fv = k"
  then have ne: "f \<noteq> next_node st" by simp
  let ?m = "next_node st" and ?h = "next_file st"
  let ?v = "\<lparr>nd_parent = Some f, nd_linkto = None, nd_name = Some buf, nd_size = 0, nd_inode = inode_now st, nd_owner = 0, nd_group = 0,
    nd_type = file_dir, nd_refcount = 1, nd_mode = 0x1ff, nd_fsid = k, nd_handle = Some ?h, nd_flags = 0, nd_child = [], nd_root = nd_root fv,
    nd_is_mount = False, nd_dev = nd_dev fv, nd_rdev = 0, nd_linkto_path = None\<rparr>"
  let ?f = "fv\<lparr>nd_child := ?m # nd_child fv\<rparr>"
  let ?st = "st\<lparr>nds := (nds st)(f \<mapsto> ?f, ?m \<mapsto> ?v), inode_now := inode_now st + 1, next_node := ?m + 1,
    files := (files st)(?h \<mapsto> new_file tp_file_dir buf ?m), next_file := ?h + 1\<rparr>"
  have "make_dir (tmpfs_only k junk frames_ok open_path cwd free_node) f buf st = Some (?m, ?st)"
    using f g ne by (simp add: make_dir_def vfs_node_alloc_def upd_nd_def tmpfs_only_def tmpfs_callbacks_def tmpfs_mkdir_def tmpfs_mk_def put_file_def
      Let_def fun_upd_twist [of f ?m])
  moreover have "tmpfs_ok k ?st"
    unfolding tmpfs_ok_def
  proof (intro allI impI)
    fix n w
    assume w: "nds ?st n = Some w"
    consider "n = ?m" "w = ?v" | "n = f" "w = ?f" "n \<noteq> ?m" | "n \<noteq> f" "n \<noteq> ?m" "nds st n = Some w" using w by (auto split: if_splits)
    then show "n < next_node ?st \<and> nd_fsid w = k \<and> (\<exists>h f. nd_handle w = Some h \<and> h < next_file ?st \<and> files ?st h = Some f \<and> nd_type w AND NOT file_proxy = node_type (tf_type f))"
    proof cases
      case 1
      then show ?thesis by (simp add: new_file_def node_type_def file_types)
    next
      case 2
      obtain h' g' where h': "nd_handle fv = Some h'" "h' < next_file st" "files st h' = Some g'" "nd_type fv AND NOT file_proxy = node_type (tf_type g')"
        by (rule tmpfs_okD [OF ok f])
      then show ?thesis using 2 g by (intro conjI exI [of _ h'] exI [of _ g']) simp_all
    next
      case 3
      obtain h' g' where h': "n < next_node st" "nd_fsid w = k" "nd_handle w = Some h'" "h' < next_file st" "files st h' = Some g'"
        "nd_type w AND NOT file_proxy = node_type (tf_type g')" by (rule tmpfs_okD [OF ok 3(3)])
      then show ?thesis by (intro conjI exI [of _ h'] exI [of _ g']) simp_all
    qed
  qed
  ultimately show ?thesis using that [of ?st ?v] by simp
qed

interpretation tmp: node_store "tmpfs_only k junk frames_ok open_path cwd free_node" "tmpfs_ok k" for k junk frames_ok open_path cwd free_node
proof
  fix st :: tmpfs and n v v' f fv buf
  assume ok: "tmpfs_ok k st"
  show "nds st (next_node st) = None"
    using ok unfolding tmpfs_ok_def by (metis less_irrefl option.exhaust)
  show "\<exists>st' v. make_dir (tmpfs_only k junk frames_ok open_path cwd free_node) f buf st = Some (next_node st, st') \<and> tmpfs_ok k st' \<and> rootdir st' = rootdir st \<and>
      nds st' = (nds st)(f \<mapsto> fv\<lparr>nd_child := next_node st # nd_child fv\<rparr>, next_node st \<mapsto> v) \<and> nd_name v = Some buf \<and> nd_type v = file_dir \<and> nd_child v = []"
    if "nds st f = Some fv"
    by (rule make_dir_spec [OF ok that, of junk frames_ok open_path cwd free_node buf]) blast
  assume v: "nds st n = Some v"
  show "tmpfs_ok k (st\<lparr>nds := (nds st)(n \<mapsto> v')\<rparr>)" if "erased v' = erased v"
    by (rule tmpfs_touch [OF ok v]) (use erased_eqD [OF that] in simp_all)
  obtain h f where f: "nd_handle v = Some h" "files st h = Some f" "nd_type v AND NOT file_proxy = node_type (tf_type f)" by (rule tmpfs_okD [OF ok v])
  have hs: "has (nd_type v) file_symlink \<longleftrightarrow> tf_type f = tp_file_symlink"
  proof -
    have "has (nd_type v) file_symlink = has (nd_type (v\<lparr>nd_type := node_type (tf_type f)\<rparr>)) file_symlink"
      by (rule has_erased) (use f(3) node_type_simps(1) in \<open>simp_all add: file_types\<close>)
    then show ?thesis using node_type_simps(2) by simp
  qed
  then show "nd_type v AND NOT file_proxy = file_symlink" if "has (nd_type v) file_symlink" using that f(3) by (simp add: node_type_def)
  show "\<exists>st'. do_update (tmpfs_only k junk frames_ok open_path cwd free_node) n st = Some st' \<and> tmpfs_ok k st' \<and> same_tree st st'"
  proof (rule tmpfs_stat_spec [OF ok v])
    fix st'
    assume s: "tmpfs_stat (nd_handle v) n st = Some (0, st')" "tmpfs_ok k st'" "same_tree st st'"
    show ?thesis using s ok v f(1) same_tree_refl by (auto simp: do_update_def do_open_def tmpfs_only_def tmpfs_callbacks_def Let_def)
  qed
qed

section \<open>Paths\<close>

text \<open>C14: \<open>vfs_open\<close> finds what a path stands for: it takes the names one by one, goes up at two dots, follows links to their target or
  by the path they hold, and answers NULL exactly where a name or a target is missing.  It changes no more than sizes,
  reference counts and the mark of followed links.\<close>

theorem vfs_open_follows_path:
  assumes "tmpfs_ok k st" "resolves st (rootdir st) (components path) r"
  shows "\<exists>st'. vfs_open (tmpfs_only k junk frames_ok open_path cwd free_node) (CHR ''/'' # path) st = Some (r, st') \<and> tmpfs_ok k st' \<and> same_tree st st'"
proof (cases "path = []")
  case True
  then have "r = Some (rootdir st)" using assms(2) by (auto elim: resolves.cases)
  then show ?thesis using assms(1) True by (simp add: vfs_open_def hd0_def)
next
  case False
  then show ?thesis using tmp.open_resolves [OF assms(2) same_tree_refl assms(1) refl] by (simp add: vfs_open_def hd0_def) blast
qed


section \<open>Removing files\<close>

text \<open>The node of a file with one reference in a directory, as \<open>vfs_mkfile\<close> leaves it; \<open>open\<close> does not count.\<close>

definition plain_file :: "nat \<Rightarrow> nat \<Rightarrow> nat \<Rightarrow> tmpfs \<Rightarrow> bool" where
  "plain_file n p h st \<longleftrightarrow> n \<noteq> rootdir st \<and> n \<noteq> p \<and> nds st p \<noteq> None \<and>
     (\<exists>v. nds st n = Some v \<and> nd_type v = file_none \<and> nd_refcount v = 1 \<and> nd_handle v = Some h \<and> nd_child v = [] \<and> nd_parent v = Some p)"

lemma tmpfs_delete_spec:
  assumes v: "nds st n = Some v" "nd_handle v = Some h" and f: "files st h = Some f"
  obtains st' where "tmpfs_delete q n st = Some (0, st')" "nds st' = nds st" "rootdir st' = rootdir st"
    "files st' = (if tf_link_count f > 1 then (files st)(h \<mapsto> f\<lparr>tf_link_count := tf_link_count f - 1\<rparr>) else (files st)(h := None))"
proof (cases "tf_link_count f > 1")
  case True
  then show ?thesis using that v f by (simp add: tmpfs_delete_def upd_file_def)
next
  case False
  obtain st1 where r: "tmpfs_release_pages h st = Some st1" "same_but_files h (f\<lparr>tf_data := [], tf_page_num := 0, tf_capacity := 0\<rparr>) st st1"
    by (rule release_pages_spec [OF f])
  show ?thesis
    by (rule that [of "drop_file h st1"]) (use False v f r in \<open>simp_all add: tmpfs_delete_def drop_file_def same_but_files_def\<close>)
qed

lemma unlink_frees_node:
  assumes pf: "plain_file n p h st" and f: "files st h = Some f"
  obtains st1 st2 where "vfs_delete n st = Some (0, st1)" "vfs_close (tmpfs_only k junk frames_ok open_path cwd free_node) special (Some n) st1 = Some (0, st2)"
    "nds st2 n = None" "\<And>m. m \<noteq> n \<Longrightarrow> m \<noteq> p \<Longrightarrow> nds st2 m = nds st m"
    "files st2 = (if tf_link_count f > 1 then (files st)(h \<mapsto> f\<lparr>tf_link_count := tf_link_count f - 1\<rparr>) else (files st)(h := None))"
proof -
  let ?cbs = "tmpfs_only k junk frames_ok open_path cwd free_node"
  obtain v pv where v: "n \<noteq> rootdir st" "n \<noteq> p" "nds st n = Some v" "nds st p = Some pv" "nd_type v = file_none" "nd_refcount v = 1" "nd_handle v = Some h"
    "nd_child v = []" "nd_parent v = Some p" using pf by (auto simp: plain_file_def)
  let ?v = "v\<lparr>nd_type := file_none OR file_delete\<rparr>" and ?p = "pv\<lparr>nd_child := remove1 n (nd_child pv)\<rparr>"
  let ?st1 = "st\<lparr>nds := (nds st)(n \<mapsto> ?v, p \<mapsto> ?p)\<rparr>"
  have d: "vfs_delete n st = Some (0, ?st1)"
    using v by (simp add: vfs_delete_def upd_nd_def unlink_child_def has_def file_types)
  let ?w = "?v\<lparr>nd_refcount := 0\<rparr>"
  let ?st2 = "?st1\<lparr>nds := (nds ?st1)(n \<mapsto> ?w)\<rparr>"
  have w: "nds ?st2 n = Some ?w" "nd_handle ?w = Some h" "files ?st2 h = Some f" using v f by simp_all
  obtain st3 where t: "tmpfs_delete (nd_handle ?p) n ?st2 = Some (0, st3)" "nds st3 = nds ?st2" "rootdir st3 = rootdir ?st2"
    "files st3 = (if tf_link_count f > 1 then (files ?st2)(h \<mapsto> f\<lparr>tf_link_count := tf_link_count f - 1\<rparr>) else (files ?st2)(h := None))"
    by (rule tmpfs_delete_spec [OF w])
  let ?st4 = "st3\<lparr>nds := (nds st3)(p \<mapsto> ?p\<lparr>nd_child := remove1 n (nd_child ?p)\<rparr>, n \<mapsto> ?w\<lparr>nd_handle := None\<rparr>)\<rparr>"
  have "delete_and_unlink ?cbs n ?st2 = Some (0, True, ?st4)"
    using t v by (simp add: delete_and_unlink_def tmpfs_only_def tmpfs_callbacks_def unlink_child_def upd_nd_def)
  moreover have "upd_nd n (\<lambda>v. v\<lparr>nd_refcount := nd_refcount v - 1\<rparr>) ?st1 = Some ?st2" using v by (simp add: upd_nd_def)
  ultimately have c: "close_step ?cbs special n ?st1 = Some (0, True, ?st4)"
    using v by (simp add: close_step_def has_def file_types)
  have "free_all ?cbs special [] ?st4 = Some ?st4" by (subst free_all.simps) simp
  then have "vfs_destroy_closed_node ?cbs special n ?st4 = Some (?st4\<lparr>nds := (nds ?st4)(n := None)\<rparr>)"
    using v by (simp add: vfs_destroy_closed_node_def vfs_free_child_def release_node_def tmpfs_only_def tmpfs_callbacks_def tmpfs_free_def)
  then have "vfs_close ?cbs special (Some n) ?st1 = Some (0, ?st4\<lparr>nds := (nds ?st4)(n := None)\<rparr>)" using c by (simp add: vfs_close_def)
  then show ?thesis by (rule that [OF d]) (use t(2,4) in simp_all)
qed


lemma write_without_node:
  assumes "files st h = Some f" "file_ok f" "nds st (tf_node f) = None" "bytes \<noteq> []" "unat offset + length bytes \<le> 2 ^ 62"
  shows "tmpfs_write (\<lambda>_. True) (Some h) bytes offset st = None"
proof -
  let ?sz = "of_nat (length bytes) :: u64"
  have sz: "unat ?sz = length bytes" using assms(5) by (simp add: unsigned_of_nat take_bit_nat_eq_self)
  then have nz: "?sz \<noteq> 0" using assms(4) by (metis length_0_conv unat_0)
  have e: "unat (offset + ?sz) \<le> 2 ^ 62" using unat_add_no_wrap [of offset ?sz] sz assms(5) by simp
  show ?thesis
  proof (rule ensure_capacity_spec [OF assms(1,2) e, of "\<lambda>_. True"])
    fix st1 f1
    assume g: "tmpfs_ensure_capacity (\<lambda>_. True) h (offset + ?sz) st = Some (True, st1)" "same_but_files h f1 st st1" "tf_node f1 = tf_node f"
    have u: "upd_nd (tf_node f1) g (st1\<lparr>files := fs\<rparr>) = None" for g fs using same_but_filesD(2) [OF g(2)] assms(3) g(3) by (simp add: upd_nd_def)
    show ?thesis using nz sz assms(5) g(1) same_but_filesD(1) [OF g(2)] u
      by (auto simp: tmpfs_write_def Let_def upd_file_def bind_eq_None_conv split: option.splits)
  qed simp
qed

text \<open>When a file has a second hard link and the name it was made under is removed, a write through the second link stores its
  size in the freed node of the first.\<close>

theorem hard_link_write_after_free:
  assumes "plain_file n p h st" "files st h = Some f" "file_ok f" "tf_link_count f = 2" "tf_node f = n"
    "bytes \<noteq> []" "unat offset + length bytes \<le> 2 ^ 62"
  shows "\<exists>st1 st2. vfs_delete n st = Some (0, st1) \<and> vfs_close (tmpfs_only k junk (\<lambda>_. True) open_path cwd free_node) special (Some n) st1 = Some (0, st2) \<and>
    files st2 h = Some (f\<lparr>tf_link_count := 1\<rparr>) \<and> tmpfs_write (\<lambda>_. True) (Some h) bytes offset st2 = None"
proof (rule unlink_frees_node [OF assms(1,2), of k junk "\<lambda>_. True" open_path cwd free_node special])
  fix st1 st2
  assume d: "vfs_delete n st = Some (0, st1)" "vfs_close (tmpfs_only k junk (\<lambda>_. True) open_path cwd free_node) special (Some n) st1 = Some (0, st2)"
    "nds st2 n = None" "files st2 = (if tf_link_count f > 1 then (files st)(h \<mapsto> f\<lparr>tf_link_count := tf_link_count f - 1\<rparr>) else (files st)(h := None))"
  have h: "files st2 h = Some (f\<lparr>tf_link_count := 1\<rparr>)" using d(4) assms(4) by simp
  then have "tmpfs_write (\<lambda>_. True) (Some h) bytes offset st2 = None"
    by (rule write_without_node) (use assms d(3) in \<open>simp_all add: file_ok_def\<close>)
  then show ?thesis using d h by blast
qed

text \<open>A read whose offset lies in the file and whose end wraps around copies as many bytes as were asked for, past the end of the data.\<close>

theorem tmpfs_read_wraps:
  assumes "files st h = Some f" "file_ok f" "offset < tf_size f" "2 ^ 64 \<le> unat offset + unat sz"
  shows "tmpfs_read (Some h) offset sz st = None"
proof -
  have "offset + sz < offset" using wrap_check_iff [of offset sz] assms(4) by simp
  then have "\<not> offset + sz > tf_size f" "\<not> offset \<ge> tf_size f" using assms(3) by auto
  moreover have "length (tf_data f) < 2 ^ 64" using assms(2) unsigned_less [of "tf_capacity f", where 'a = nat] by (simp add: file_ok_def)
  ultimately show ?thesis using assms(1,4) by (simp add: tmpfs_read_def Let_def)
qed

section \<open>Examples\<close>

lemma demo_ok:
  assumes "tf_type f = tp_file_file"
  shows "tmpfs_ok 1 (demo_fs f)"
  unfolding tmpfs_ok_def
proof (intro allI impI)
  fix n v
  assume v: "nds (demo_fs f) n = Some v"
  then consider "n = 0" "v = demo_root" | "n = 1" "v = demo_leaf" by (auto simp: demo_fs_def split: if_splits)
  then show "n < next_node (demo_fs f) \<and> nd_fsid v = 1 \<and> (\<exists>h g. nd_handle v = Some h \<and> h < next_file (demo_fs f) \<and> files (demo_fs f) h = Some g \<and>
      nd_type v AND NOT file_proxy = node_type (tf_type g))"
    by cases (use assms in \<open>simp_all add: demo_fs_def demo_root_def demo_leaf_def new_file_def node_type_def file_types\<close>)
qed

lemma demo_plain: "plain_file 1 0 1 (demo_fs f)"
  by (simp add: plain_file_def demo_leaf_def)

lemma demo_find: "vfs_child_find 0 c (demo_fs f) = Some (if c = ''a'' then Some 1 else None)"
  by (auto simp: vfs_child_find_def demo_root_def demo_leaf_def)

abbreviation demo_callbacks ::
  "\<lparr>files :: nat \<rightharpoonup> tmpfs_file, next_file :: nat, held_pages :: nat, mount_dev_now :: u64\<rparr> callbacks" where
  "demo_callbacks \<equiv> tmpfs_only 1 demo_file (\<lambda>_. True) (\<lambda>_ st. Some (None, st)) None (\<lambda>_ st. Some st)"

theorem vfs_open_follows_path_witness:
  "resolves (demo_fs demo_file) 0 [''..'', ''a''] (Some 1) \<and> (\<exists>st'. vfs_open demo_callbacks ''/../a'' (demo_fs demo_file) = Some (Some 1, st'))"
proof -
  have "resolves (demo_fs demo_file) 0 [''a''] (Some 1)"
    by (rule resolves.child [where m = 1 and v = demo_leaf]) (simp_all add: demo_find demo_leaf_def file_types has_def resolves.here)
  then have r: "resolves (demo_fs demo_file) 0 [''..'', ''a''] (Some 1)"
    by (intro resolves.up [where v = demo_root]) (simp_all add: demo_root_def)
  have "components ''../a'' = [''..'', ''a'']" by code_simp
  then show ?thesis using r vfs_open_follows_path [OF demo_ok [of demo_file], of "''../a''" "Some 1"] by simp blast
qed



theorem hard_link_write_after_free_witness:
  "\<exists>st1 st2. vfs_delete 1 (demo_fs (demo_file\<lparr>tf_link_count := 2\<rparr>)) = Some (0, st1) \<and>
    vfs_close demo_callbacks (\<lambda>_ st. Some (0, st)) (Some 1) st1 = Some (0, st2) \<and> tmpfs_write (\<lambda>_. True) (Some 1) [1] 0 st2 = None"
proof -
  have "file_ok (demo_file\<lparr>tf_link_count := 2\<rparr>)" by (simp add: file_ok_def demo_file_def new_file_def)
  then show ?thesis
    using hard_link_write_after_free [OF demo_plain [of "demo_file\<lparr>tf_link_count := 2\<rparr>"], of "demo_file\<lparr>tf_link_count := 2\<rparr>" "[1]" 0] by simp blast
qed

theorem tmpfs_read_wraps_witness:
  "tmpfs_read (Some 1) 1 0xffffffffffffffff (demo_fs (demo_file\<lparr>tf_data := replicate 4096 0, tf_size := 2, tf_page_num := 1, tf_capacity := 4096\<rparr>)) = None"
  by (rule tmpfs_read_wraps [OF demo_files(1)]) (simp_all add: file_ok_def)

end
