(* ===== verification/Vfs_Poll.thy ===== *)
theory Vfs_Poll
  imports Vfs
begin

text \<open>
  Polling of nodes and the threads that wait for them (\<^verbatim>\<open>fs/vfs.c\<close>).  A \<open>vfs_poll_wait_t\<close> is a variable of the waiting thread, linked into a list
  of the node while it is armed.  \<open>waits\<close> has the waits that exist, \<open>waiters\<close> the list of each node that exists; touching
  another is a fault, and so is initialising a wait that is linked.
\<close>

section \<open>Asking a node\<close>

definition EPOLLIN :: u32 where "EPOLLIN = 0x1"
definition EPOLLPRI :: u32 where "EPOLLPRI = 0x2"
definition EPOLLOUT :: u32 where "EPOLLOUT = 0x4"
definition EPOLLERR :: u32 where "EPOLLERR = 0x8"
definition EPOLLHUP :: u32 where "EPOLLHUP = 0x10"
definition EPOLLNVAL :: u32 where "EPOLLNVAL = 0x20"
definition EPOLLRDNORM :: u32 where "EPOLLRDNORM = 0x40"
definition EPOLLRDBAND :: u32 where "EPOLLRDBAND = 0x80"
definition EPOLLWRNORM :: u32 where "EPOLLWRNORM = 0x100"
definition EPOLLRDHUP :: u32 where "EPOLLRDHUP = 0x2000"

lemmas poll_events = EPOLLIN_def EPOLLPRI_def EPOLLOUT_def EPOLLERR_def EPOLLHUP_def EPOLLNVAL_def EPOLLRDNORM_def EPOLLRDBAND_def EPOLLWRNORM_def
  EPOLLRDHUP_def

definition any_of :: "u32 \<Rightarrow> u32 \<Rightarrow> bool" where
  "any_of events flags \<longleftrightarrow> events AND flags \<noteq> 0"

definition vfs_poll_normalize_events :: "u32 \<Rightarrow> u32" where
  "vfs_poll_normalize_events events =
     (let events = (if any_of events EPOLLRDNORM then events OR EPOLLIN else events);
          events = (if any_of events EPOLLRDBAND then events OR EPOLLPRI else events)
      in if any_of events EPOLLWRNORM then events OR EPOLLOUT else events)"

definition vfs_poll_restore_aliases :: "u32 \<Rightarrow> u32 \<Rightarrow> u32" where
  "vfs_poll_restore_aliases requested revents =
     (let revents = (if any_of requested EPOLLRDNORM \<and> any_of revents EPOLLIN then revents OR EPOLLRDNORM else revents);
          revents = (if any_of requested EPOLLRDBAND \<and> any_of revents EPOLLPRI then revents OR EPOLLRDBAND else revents)
      in if any_of requested EPOLLWRNORM \<and> any_of revents EPOLLOUT then revents OR EPOLLWRNORM else revents)"

definition vfs_poll :: "'a callbacks \<Rightarrow> nat \<Rightarrow> u32 \<Rightarrow> 'a vfs_scheme \<Rightarrow> (int \<times> 'a vfs_scheme) option" where
  "vfs_poll cbs n requested st = do {
     st \<leftarrow> do_update cbs n st;
     v \<leftarrow> nds st n;
     if has (nd_type v) file_dir then Some (- 1, st)
     else do {
       ret \<leftarrow> cb_poll (cbs (nd_fsid v)) (nd_handle v) (vfs_poll_normalize_events requested) st;
       Some (if ret < 0 then ret else sint (vfs_poll_restore_aliases requested (of_int ret)), st)
     }
   }"

section \<open>Waiting\<close>

record vfs_poll_wait =
  pw_task :: "nat option"
  pw_watch_node :: "nat option"
  pw_events :: u32
  pw_revents :: u32
  pw_armed :: bool

record poll_state =
  waits :: "nat \<rightharpoonup> vfs_poll_wait"
  waiters :: "nat \<rightharpoonup> nat list"

definition vfs_poll_wait_init :: "nat option \<Rightarrow> nat option \<Rightarrow> u32 \<Rightarrow> poll_state \<Rightarrow> poll_state option" where
  "vfs_poll_wait_init wt task events st =
     (case wt of
        None \<Rightarrow> Some st
      | Some w \<Rightarrow>
          (case waits st w of
             Some p \<Rightarrow>
               if pw_armed p then None
               else Some (st\<lparr>waits := (waits st)(w \<mapsto> \<lparr>pw_task = task, pw_watch_node = None, pw_events = events, pw_revents = 0, pw_armed = False\<rparr>)\<rparr>)
           | None \<Rightarrow> None))"

definition vfs_poll_wait_arm :: "nat option \<Rightarrow> nat option \<Rightarrow> poll_state \<Rightarrow> (int \<times> poll_state) option" where
  "vfs_poll_wait_arm node wt st =
     (case (node, wt) of
        (Some n, Some w) \<Rightarrow> do {
          p \<leftarrow> waits st w;
          if pw_task p = None then Some (- 22, st)
          else if pw_armed p then Some (0, st)
          else do {
            ws \<leftarrow> waiters st n;
            Some (0, st\<lparr>waits := (waits st)(w \<mapsto> p\<lparr>pw_watch_node := Some n, pw_revents := 0, pw_armed := True\<rparr>), waiters := (waiters st)(n \<mapsto> ws @ [w])\<rparr>)
          }
        }
      | _ \<Rightarrow> Some (- 22, st))"

definition vfs_poll_wait_disarm :: "nat option \<Rightarrow> poll_state \<Rightarrow> poll_state option" where
  "vfs_poll_wait_disarm wt st =
     (case wt of
        None \<Rightarrow> Some st
      | Some w \<Rightarrow> do {
          p \<leftarrow> waits st w;
          if \<not> pw_armed p then Some st
          else (case pw_watch_node p of
            None \<Rightarrow> Some st
          | Some n \<Rightarrow> do {
              ws \<leftarrow> waiters st n;
              Some (st\<lparr>waits := (waits st)(w \<mapsto> p\<lparr>pw_watch_node := None, pw_armed := False\<rparr>), waiters := (waiters st)(n \<mapsto> remove1 w ws)\<rparr>)
            })
        })"

text \<open>The events that a wait gets whether it asked for them or not.\<close>

definition poll_always :: u32 where
  "poll_always = EPOLLERR OR EPOLLHUP OR EPOLLNVAL OR EPOLLRDHUP"

text \<open>The loop over the list of a node; the second component has the threads that are unblocked, in order.\<close>

primrec notify_each :: "u32 \<Rightarrow> nat list \<Rightarrow> (nat \<rightharpoonup> vfs_poll_wait) \<Rightarrow> ((nat \<rightharpoonup> vfs_poll_wait) \<times> nat list) option" where
  "notify_each events [] m = Some (m, [])"
| "notify_each events (w # ws) m = do {
     p \<leftarrow> m w;
     (case pw_task p of
        None \<Rightarrow> notify_each events ws m
      | Some t \<Rightarrow>
          let ready = events AND (pw_events p OR poll_always) in
          if \<not> pw_armed p \<or> ready = 0 then notify_each events ws m
          else do {
            (m, ts) \<leftarrow> notify_each events ws (m(w \<mapsto> p\<lparr>pw_revents := pw_revents p OR ready\<rparr>));
            Some (m, t # ts)
          })
   }"

definition vfs_poll_notify :: "nat option \<Rightarrow> u32 \<Rightarrow> poll_state \<Rightarrow> (nat list \<times> poll_state) option" where
  "vfs_poll_notify node events st =
     (case node of
        None \<Rightarrow> Some ([], st)
      | Some n \<Rightarrow>
          if events = 0 then Some ([], st)
          else do {
            ws \<leftarrow> waiters st n;
            (m, ts) \<leftarrow> notify_each events ws (waits st);
            Some (ts, st\<lparr>waits := m\<rparr>)
          })"

text \<open>
  The loop of \<open>vfs_poll_wait_sleep\<close>.  A round has the events that notifications have added to the wait, the answer of \<open>vfs_poll\<close>, the time
  before the sleep, the answer of \<open>scheduler_block_current\<close> and the time after it.  The result has the times for which the thread
  slept and, unless it still sleeps, the value returned with the events of the wait.
\<close>

record sleep_round =
  sr_notified :: u32
  sr_poll :: int
  sr_now :: u64
  sr_block :: int
  sr_woken :: u64

definition poll_timed_out :: int where "poll_timed_out = 110"

primrec sleep_loop :: "u32 \<Rightarrow> bool \<Rightarrow> u64 \<Rightarrow> u64 \<Rightarrow> sleep_round list \<Rightarrow> u32 \<Rightarrow> u64 list \<times> (int \<times> u32) option" where
  "sleep_loop want endless start timeout [] revents = ([], None)"
| "sleep_loop want endless start timeout (r # rs) revents =
     (let revents = revents OR sr_notified r; polled = of_int (sr_poll r) AND want in
      if any_of revents want then ([], Some (0, revents))
      else if polled \<noteq> 0 then ([], Some (0, revents OR polled))
      else if \<not> endless \<and> sr_now r - start \<ge> timeout then ([], Some (poll_timed_out, revents))
      else
        let block_ns = (if endless then 10000000 else min (timeout - (sr_now r - start)) 10000000) in
        if sr_block r = 0 \<or> (sr_block r = poll_timed_out \<and> (endless \<or> sr_woken r - start < timeout)) then
          let (bs, res) = sleep_loop want endless start timeout rs revents in (block_ns # bs, res)
        else ([block_ns], Some (sr_block r, revents)))"

definition vfs_poll_wait_sleep :: "nat option \<Rightarrow> nat option \<Rightarrow> int \<Rightarrow> u64 \<Rightarrow> sleep_round list \<Rightarrow> poll_state \<Rightarrow> (u64 list \<times> (int \<times> u32) option) option" where
  "vfs_poll_wait_sleep node wt timeout_ns start rounds st =
     (case (node, wt) of
        (Some n, Some w) \<Rightarrow> do {
          p \<leftarrow> waits st w;
          if pw_task p = None then Some ([], Some (- 22, pw_revents p))
          else Some (sleep_loop (pw_events p OR poll_always) (timeout_ns < 0) start (if timeout_ns < 0 then 0 else of_int timeout_ns) rounds (pw_revents p))
        }
      | _ \<Rightarrow> Some ([], Some (- 22, 0)))"

section \<open>Waits are linked where they say\<close>

text \<open>
  What threads and file systems do: a thread makes a wait, uses it and leaves it when it is no longer armed; a node appears, and goes
  when nobody waits for it.
\<close>

datatype poll_op = Enter nat | Leave nat | Make nat | Remove nat | Init nat "nat option" u32 | Arm nat nat | Disarm nat | Notify nat u32

primrec poll_step :: "poll_op \<Rightarrow> poll_state \<Rightarrow> poll_state option" where
  "poll_step (Enter w) st =
     Some (st\<lparr>waits := (waits st)(w \<mapsto> \<lparr>pw_task = None, pw_watch_node = None, pw_events = 0, pw_revents = 0, pw_armed = False\<rparr>)\<rparr>)"
| "poll_step (Leave w) st = Some (st\<lparr>waits := (waits st)(w := None)\<rparr>)"
| "poll_step (Make n) st = Some (st\<lparr>waiters := (waiters st)(n \<mapsto> [])\<rparr>)"
| "poll_step (Remove n) st = Some (st\<lparr>waiters := (waiters st)(n := None)\<rparr>)"
| "poll_step (Init w t e) st = vfs_poll_wait_init (Some w) t e st"
| "poll_step (Arm n w) st = map_option snd (vfs_poll_wait_arm (Some n) (Some w) st)"
| "poll_step (Disarm w) st = vfs_poll_wait_disarm (Some w) st"
| "poll_step (Notify n e) st = map_option snd (vfs_poll_notify (Some n) e st)"

definition unarmed :: "nat \<Rightarrow> poll_state \<Rightarrow> bool" where
  "unarmed w st \<longleftrightarrow> (case waits st w of None \<Rightarrow> True | Some p \<Rightarrow> \<not> pw_armed p)"

primrec poll_legal :: "poll_op \<Rightarrow> poll_state \<Rightarrow> bool" where
  "poll_legal (Enter w) st \<longleftrightarrow> waits st w = None"
| "poll_legal (Leave w) st \<longleftrightarrow> unarmed w st"
| "poll_legal (Make n) st \<longleftrightarrow> waiters st n = None"
| "poll_legal (Remove n) st \<longleftrightarrow> waiters st n = Some []"
| "poll_legal (Init w t e) st \<longleftrightarrow> waits st w \<noteq> None \<and> unarmed w st"
| "poll_legal (Arm n w) st \<longleftrightarrow> waits st w \<noteq> None \<and> waiters st n \<noteq> None"
| "poll_legal (Disarm w) st \<longleftrightarrow> waits st w \<noteq> None"
| "poll_legal (Notify n e) st \<longleftrightarrow> waiters st n \<noteq> None"

inductive poll_reachable :: "poll_state \<Rightarrow> bool" where
  start: "poll_reachable \<lparr>waits = Map.empty, waiters = Map.empty\<rparr>"
| step: "poll_reachable st \<Longrightarrow> poll_legal op st \<Longrightarrow> poll_step op st = Some st' \<Longrightarrow> poll_reachable st'"

definition armed_on :: "nat \<Rightarrow> vfs_poll_wait \<Rightarrow> bool" where
  "armed_on n p \<longleftrightarrow> pw_armed p \<and> pw_watch_node p = Some n \<and> pw_task p \<noteq> None"

definition poll_inv :: "poll_state \<Rightarrow> bool" where
  "poll_inv st \<longleftrightarrow>
     (\<forall>n ws. waiters st n = Some ws \<longrightarrow> distinct ws \<and> (\<forall>w. w \<in> set ws \<longleftrightarrow> (\<exists>p. waits st w = Some p \<and> armed_on n p))) \<and>
     (\<forall>w p. waits st w = Some p \<longrightarrow> pw_armed p \<longrightarrow> (\<exists>n ws. armed_on n p \<and> waiters st n = Some ws))"

lemma poll_invD:
  assumes "poll_inv st" "waiters st n = Some ws"
  shows "distinct ws" "w \<in> set ws \<longleftrightarrow> (\<exists>p. waits st w = Some p \<and> armed_on n p)"
  using assms by (auto simp: poll_inv_def)

lemma poll_inv_armed:
  assumes "poll_inv st" "waits st w = Some p" "pw_armed p"
  obtains n ws where "armed_on n p" "waiters st n = Some ws" "w \<in> set ws"
  using assms unfolding poll_inv_def by blast

definition told :: "u32 \<Rightarrow> vfs_poll_wait \<Rightarrow> vfs_poll_wait" where
  "told e p = p\<lparr>pw_revents := pw_revents p OR (e AND (pw_events p OR poll_always))\<rparr>"

lemma told_simps [simp]: "armed_on n (told e p) = armed_on n p" "pw_armed (told e p) = pw_armed p" "pw_task (told e p) = pw_task p"
  by (simp_all add: told_def armed_on_def)

lemma notify_each_spec:
  assumes "distinct ws" "\<forall>w \<in> set ws. \<exists>p. m w = Some p \<and> armed_on n p"
  shows "notify_each e ws m = Some (\<lambda>w. if w \<in> set ws then map_option (told e) (m w) else m w,
    map (\<lambda>w. the (pw_task (the (m w)))) (filter (\<lambda>w. any_of e (pw_events (the (m w)) OR poll_always)) ws))"
  using assms
proof (induction ws arbitrary: m)
  case (Cons w ws)
  obtain p t where p: "m w = Some p" "pw_armed p" "pw_task p = Some t" using Cons.prems(2) by (auto simp: armed_on_def)
  have rest: "\<forall>v \<in> set ws. \<exists>p. m v = Some p \<and> armed_on n p" and w: "w \<notin> set ws" using Cons.prems by auto
  let ?r = "e AND (pw_events p OR poll_always)"
  have put: "(\<lambda>v. if v \<in> set ws then map_option (told e) ((m(w \<mapsto> told e p)) v) else (m(w \<mapsto> told e p)) v) =
      (\<lambda>v. if v \<in> set (w # ws) then map_option (told e) (m v) else m v)" using w p(1) by (auto simp: fun_eq_iff)
  have same: "map (\<lambda>v. the (pw_task (the ((m(w \<mapsto> told e p)) v)))) (filter (\<lambda>v. any_of e (pw_events (the ((m(w \<mapsto> told e p)) v)) OR poll_always)) ws) =
      map (\<lambda>v. the (pw_task (the (m v)))) (filter (\<lambda>v. any_of e (pw_events (the (m v)) OR poll_always)) ws)"
  proof -
    have "filter (\<lambda>v. any_of e (pw_events (the ((m(w \<mapsto> told e p)) v)) OR poll_always)) ws = filter (\<lambda>v. any_of e (pw_events (the (m v)) OR poll_always)) ws"
      using w by (intro filter_cong) auto
    then show ?thesis using w by (intro map_cong) auto
  qed
  have ih: "notify_each e ws (m(w \<mapsto> told e p)) = Some (\<lambda>v. if v \<in> set (w # ws) then map_option (told e) (m v) else m v,
      map (\<lambda>v. the (pw_task (the (m v)))) (filter (\<lambda>v. any_of e (pw_events (the (m v)) OR poll_always)) ws))"
  proof -
    have d: "distinct ws" using Cons.prems(1) by simp
    have a: "\<forall>v \<in> set ws. \<exists>q. (m(w \<mapsto> told e p)) v = Some q \<and> armed_on n q" using rest w by auto
    show ?thesis unfolding Cons.IH [OF d a] put same ..
  qed
  show ?case
  proof (cases "?r = 0")
    case True
    then have "told e p = p" by (cases p) (simp add: told_def)
    then have "m(w \<mapsto> told e p) = m" using p(1) by auto
    then show ?thesis using ih p True by (simp add: any_of_def)
  next
    case False
    then show ?thesis using ih p by (simp add: any_of_def told_def Let_def)
  qed
qed simp

lemma notify_spec:
  assumes "poll_inv st" "waiters st n = Some ws" "e \<noteq> 0"
  shows "vfs_poll_notify (Some n) e st = Some
    (map (\<lambda>w. the (pw_task (the (waits st w)))) (filter (\<lambda>w. any_of e (pw_events (the (waits st w)) OR poll_always)) ws),
     st\<lparr>waits := (\<lambda>w. if w \<in> set ws then map_option (told e) (waits st w) else waits st w)\<rparr>)"
  using notify_each_spec [of ws "waits st" n e] poll_invD [OF assms(1,2)] assms(2,3) by (auto simp: vfs_poll_notify_def)

lemma inv_told:
  assumes "poll_inv st"
  shows "poll_inv (st\<lparr>waits := (\<lambda>w. if w \<in> A then map_option (told e) (waits st w) else waits st w)\<rparr>)"
proof -
  have "(\<exists>p. (if w \<in> A then map_option (told e) (waits st w) else waits st w) = Some p \<and> armed_on n p) = (\<exists>p. waits st w = Some p \<and> armed_on n p)" for w n
    by (auto split: if_splits)
  then show ?thesis using assms unfolding poll_inv_def by (auto split: if_splits)
qed

lemma inv_put:
  assumes "poll_inv st" "unarmed w st" "\<And>p. new = Some p \<Longrightarrow> \<not> pw_armed p"
  shows "poll_inv (st\<lparr>waits := (waits st)(w := new)\<rparr>)"
proof -
  have "(\<exists>p. ((waits st)(w := new)) v = Some p \<and> armed_on n p) = (\<exists>p. waits st v = Some p \<and> armed_on n p)" for v n
    using assms(2,3) by (cases "new") (auto simp: unarmed_def armed_on_def)
  then show ?thesis using assms unfolding poll_inv_def by (auto split: if_splits)
qed

lemma step_inv:
  assumes inv: "poll_inv st" and legal: "poll_legal op st"
  shows "\<exists>st'. poll_step op st = Some st' \<and> poll_inv st'"
proof (cases op)
  case (Enter w)
  then show ?thesis using legal by (auto intro!: inv_put [OF inv] simp: unarmed_def)
next
  case (Leave w)
  then show ?thesis using inv_put [OF inv, of w None] legal by auto
next
  case (Make n)
  then show ?thesis using inv legal unfolding poll_inv_def by (auto simp: armed_on_def) (metis option.distinct(1) option.inject)+
next
  case (Remove n)
  then have "\<nexists>w p. waits st w = Some p \<and> armed_on n p" using poll_invD(2) [OF inv, of n "[]"] legal by auto
  then show ?thesis using Remove inv legal unfolding poll_inv_def by auto (metis)
next
  case (Init w t e)
  then show ?thesis using legal by (auto intro!: inv_put [OF inv] simp: unarmed_def vfs_poll_wait_init_def)
next
  case (Arm n w)
  then obtain p ws where p: "waits st w = Some p" "waiters st n = Some ws" using legal by auto
  show ?thesis
  proof (cases "pw_task p = None \<or> pw_armed p")
    case True
    then show ?thesis using Arm p inv by (auto simp: vfs_poll_wait_arm_def)
  next
    case False
    let ?p = "p\<lparr>pw_watch_node := Some n, pw_revents := 0, pw_armed := True\<rparr>"
    let ?st = "st\<lparr>waits := (waits st)(w \<mapsto> ?p), waiters := (waiters st)(n \<mapsto> ws @ [w])\<rparr>"
    have a: "(\<exists>q. waits ?st v = Some q \<and> armed_on k q) = (if v = w then k = n else \<exists>q. waits st v = Some q \<and> armed_on k q)" for v k
      using False by (auto simp: armed_on_def)
    have nw: "\<not> (\<exists>q. waits st w = Some q \<and> armed_on k q)" for k using False p by (auto simp: armed_on_def)
    then have "w \<notin> set ws" using poll_invD(2) [OF inv p(2)] by blast
    then have 1: "distinct vs \<and> (\<forall>v. v \<in> set vs \<longleftrightarrow> (\<exists>q. waits ?st v = Some q \<and> armed_on k q))" if vs: "waiters ?st k = Some vs" for k vs
      unfolding a using vs poll_invD [OF inv] p(2) nw by (cases "k = n") (auto split: if_splits)
    have 2: "\<exists>k vs. armed_on k q \<and> waiters ?st k = Some vs" if q: "waits ?st v = Some q" "pw_armed q" for v q
    proof (cases "v = w")
      case True
      then show ?thesis using q False by (auto simp: armed_on_def)
    next
      case ne: False
      then have "waits st v = Some q" using q(1) by simp
      then obtain k vs where "armed_on k q" "waiters st k = Some vs" by (rule poll_inv_armed [OF inv _ q(2)])
      then show ?thesis by (auto intro: exI [of _ k])
    qed
    have "poll_inv ?st" unfolding poll_inv_def using 1 2 by blast
    then show ?thesis using Arm p False by (auto simp: vfs_poll_wait_arm_def)
  qed
next
  case (Disarm w)
  then obtain p where p: "waits st w = Some p" using legal by auto
  show ?thesis
  proof (cases "pw_armed p")
    case False
    then show ?thesis using Disarm p inv by (simp add: vfs_poll_wait_disarm_def)
  next
    case True
    obtain n ws where n: "armed_on n p" "waiters st n = Some ws" "w \<in> set ws" by (rule poll_inv_armed [OF inv p True])
    let ?p = "p\<lparr>pw_watch_node := None, pw_armed := False\<rparr>"
    let ?st = "st\<lparr>waits := (waits st)(w \<mapsto> ?p), waiters := (waiters st)(n \<mapsto> remove1 w ws)\<rparr>"
    have a: "(\<exists>q. waits ?st v = Some q \<and> armed_on k q) = (v \<noteq> w \<and> (\<exists>q. waits st v = Some q \<and> armed_on k q))" for v k
      by (auto simp: armed_on_def)
    have other: "\<not> (\<exists>q. waits st w = Some q \<and> armed_on k q)" if "k \<noteq> n" for k using n(1) p that by (auto simp: armed_on_def)
    have 1: "distinct vs \<and> (\<forall>v. v \<in> set vs \<longleftrightarrow> (\<exists>q. waits ?st v = Some q \<and> armed_on k q))" if vs: "waiters ?st k = Some vs" for k vs
      unfolding a using vs poll_invD [OF inv] n(2) other by (cases "k = n") (auto split: if_splits)
    have 2: "\<exists>k vs. armed_on k q \<and> waiters ?st k = Some vs" if q: "waits ?st v = Some q" "pw_armed q" for v q
    proof -
      have "v \<noteq> w" using q by auto
      then have "waits st v = Some q" using q(1) by simp
      then obtain k vs where "armed_on k q" "waiters st k = Some vs" by (rule poll_inv_armed [OF inv _ q(2)])
      then show ?thesis by (auto intro: exI [of _ k])
    qed
    have "poll_inv ?st" unfolding poll_inv_def using 1 2 by blast
    then show ?thesis using Disarm p True n by (simp add: vfs_poll_wait_disarm_def armed_on_def)
  qed
next
  case (Notify n e)
  then obtain ws where "waiters st n = Some ws" using legal by auto
  then show ?thesis using Notify inv notify_spec [OF inv, of n ws e] inv_told [OF inv, of "set ws" e] by (cases "e = 0") (auto simp: vfs_poll_notify_def)
qed

lemma poll_reachable_inv: "poll_reachable st \<Longrightarrow> poll_inv st"
proof (induction rule: poll_reachable.induct)
  case start
  then show ?case by (simp add: poll_inv_def)
next
  case (step st op st')
  then show ?case using step_inv [OF step.IH step.hyps(2)] by auto
qed

text \<open>A notification reaches exactly the waits that are armed on the node: each gets those of the events that it asked for or always
  gets, its thread is unblocked if there are any, in the order in which the waits were armed, and no other wait and no list
  changes.  No freed wait is touched, as long as threads leave only waits that are not armed.\<close>

theorem poll_notify_exact:
  assumes "poll_reachable st" "waiters st n = Some ws" "e \<noteq> 0"
  shows "\<exists>ts st'. vfs_poll_notify (Some n) e st = Some (ts, st') \<and> waiters st' = waiters st \<and>
    (\<forall>w. w \<in> set ws \<longleftrightarrow> (\<exists>p. waits st w = Some p \<and> armed_on n p)) \<and>
    ts = map (\<lambda>w. the (pw_task (the (waits st w)))) (filter (\<lambda>w. any_of e (pw_events (the (waits st w)) OR poll_always)) ws) \<and>
    (\<forall>w. waits st' w = (if w \<in> set ws then map_option (told e) (waits st w) else waits st w))"
  using notify_spec [OF poll_reachable_inv [OF assms(1)] assms(2,3)] poll_invD(2) [OF poll_reachable_inv [OF assms(1)] assms(2)] by simp

text \<open>One thread waits for input on a node.\<close>

definition demo_waits :: "vfs_poll_wait \<Rightarrow> poll_state" where
  "demo_waits p = \<lparr>waits = [7 \<mapsto> p], waiters = [1 \<mapsto> if pw_armed p then [7] else []]\<rparr>"

lemma demo_reachable: "poll_reachable (demo_waits \<lparr>pw_task = Some 3, pw_watch_node = Some 1, pw_events = EPOLLIN, pw_revents = 0, pw_armed = True\<rparr>)"
proof -
  let ?s0 = "\<lparr>waits = Map.empty, waiters = Map.empty\<rparr>" and ?n = "\<lparr>pw_task = None, pw_watch_node = None, pw_events = 0, pw_revents = 0, pw_armed = False\<rparr>"
  let ?i = "\<lparr>pw_task = Some 3, pw_watch_node = None, pw_events = EPOLLIN, pw_revents = 0, pw_armed = False\<rparr>"
  have "poll_reachable (?s0\<lparr>waiters := [1 \<mapsto> []]\<rparr>)" by (rule poll_reachable.step [OF poll_reachable.start, of "Make 1"]) simp_all
  then have "poll_reachable (demo_waits ?n)" by (rule poll_reachable.step [of _ "Enter 7"]) (simp_all add: demo_waits_def)
  then have "poll_reachable (demo_waits ?i)"
    by (rule poll_reachable.step [of _ "Init 7 (Some 3) EPOLLIN"]) (simp_all add: demo_waits_def unarmed_def vfs_poll_wait_init_def)
  then show ?thesis by (rule poll_reachable.step [of _ "Arm 1 7"]) (simp_all add: demo_waits_def vfs_poll_wait_arm_def)
qed

theorem poll_notify_exact_witness:
  "\<exists>st' p. vfs_poll_notify (Some 1) (EPOLLIN OR EPOLLOUT) (demo_waits \<lparr>pw_task = Some 3, pw_watch_node = Some 1, pw_events = EPOLLIN, pw_revents = 0, pw_armed = True\<rparr>) =
    Some ([3], st') \<and> waits st' 7 = Some p \<and> pw_revents p = EPOLLIN"
proof -
  have w: "waiters (demo_waits \<lparr>pw_task = Some 3, pw_watch_node = Some 1, pw_events = EPOLLIN, pw_revents = 0, pw_armed = True\<rparr>) 1 = Some [7]"
    by (simp add: demo_waits_def)
  have "EPOLLIN OR EPOLLOUT \<noteq> 0" by (simp add: poll_events)
  from poll_notify_exact [OF demo_reachable w this] show ?thesis
    by (auto simp: demo_waits_def any_of_def poll_always_def told_def poll_events)
qed

section \<open>Sleeping\<close>

text \<open>A notification is not lost: the call returns in the first round that finds an awaited event, without another sleep.  No sleep
  is longer than ten milliseconds.\<close>

theorem poll_sleep_heeds_notification:
  assumes "i < length rounds" "any_of (sr_notified (rounds ! i)) want"
  shows "\<exists>bs ret events. sleep_loop want endless start timeout rounds revents = (bs, Some (ret, events)) \<and> length bs \<le> i \<and> (\<forall>b \<in> set bs. b \<le> 10000000)"
  using assms
proof (induction rounds arbitrary: i revents)
  case (Cons r rs)
  let ?rev = "revents OR sr_notified r"
  let ?stop = "any_of ?rev want \<or> of_int (sr_poll r) AND want \<noteq> 0 \<or> \<not> endless \<and> sr_now r - start \<ge> timeout"
  show ?case
  proof (cases "?stop")
    case True
    then show ?thesis by (auto simp: Let_def)
  next
    case go: False
    have "i \<noteq> 0"
    proof
      assume "i = 0"
      then have "any_of ?rev want" using Cons.prems(2) by (simp add: any_of_def bit.conj_disj_distrib2 or_eq_0_iff)
      then show False using go by simp
    qed
    then obtain j where j: "i = Suc j" "j < length rs" "any_of (sr_notified (rs ! j)) want" using Cons.prems by (cases i) auto
    obtain bs ret ev where ih: "sleep_loop want endless start timeout rs ?rev = (bs, Some (ret, ev))" "length bs \<le> j" "\<forall>b \<in> set bs. b \<le> 10000000"
      using Cons.IH [OF j(2,3)] by blast
    show ?thesis using go ih j(1) by (auto simp: Let_def)
  qed
qed simp

text \<open>An error of \<open>vfs_poll\<close> is taken for events: a wait for a directory, whose answer is -1, returns at once with all that it asked for.\<close>

theorem poll_error_is_ready:
  assumes "sr_poll r = - 1" "\<not> any_of (revents OR sr_notified r) want" "want \<noteq> 0"
  shows "sleep_loop want endless start timeout (r # rs) revents = ([], Some (0, revents OR sr_notified r OR want))"
  using assms by (simp add: Let_def or.assoc)

end
