(* ===== verification/Epoll.thy ===== *)
theory Epoll
  imports Vfs_Poll Data_Refinement
begin

text \<open>
  Event polls and event counters (\<^verbatim>\<open>task/poll.c\<close>).  The entries of an instance up to its count are a list.  What a file answers during a scan
  is an argument: nothing where the descriptor is not open, and otherwise whether its file system has no poll of its own and
  what \<open>vfs_poll\<close> returns for it.
\<close>

section \<open>Entries\<close>

definition EPOLLEXCLUSIVE :: u32 where "EPOLLEXCLUSIVE = push_bit 28 1"
definition EPOLLWAKEUP :: u32 where "EPOLLWAKEUP = push_bit 29 1"
definition EPOLLONESHOT :: u32 where "EPOLLONESHOT = push_bit 30 1"
definition EPOLLET :: u32 where "EPOLLET = push_bit 31 1"
definition EPOLL_ALWAYS_EVENTS :: u32 where "EPOLL_ALWAYS_EVENTS = EPOLLERR OR EPOLLHUP OR EPOLLNVAL"
definition EPOLL_MAX_ENTRIES :: nat where "EPOLL_MAX_ENTRIES = 128"
definition file_epoll :: u16 where "file_epoll = 0x400"
definition file_eventfd :: u16 where "file_eventfd = 0x8000"

record epoll_entry =
  en_fd :: int
  en_events :: u32
  en_data :: u64
  en_last_events :: u32
  en_edge_trigger :: bool
  en_one_shot :: bool
  en_disabled :: bool

type_synonym epoll_event = "u32 \<times> u64"
type_synonym answers = "int \<Rightarrow> (bool \<times> (u32 \<Rightarrow> int)) option"

definition epoll_filter_events :: "u32 \<Rightarrow> u32" where
  "epoll_filter_events events = events AND NOT (EPOLLET OR EPOLLONESHOT OR EPOLLWAKEUP OR EPOLLEXCLUSIVE)"

definition epoll_query_ready_events :: "epoll_entry \<Rightarrow> bool \<times> (u32 \<Rightarrow> int) \<Rightarrow> u32" where
  "epoll_query_ready_events e handle =
     (let request_events = en_events e OR EPOLL_ALWAYS_EVENTS in
      if fst handle then request_events AND (EPOLLIN OR EPOLLOUT OR EPOLLERR OR EPOLLHUP OR EPOLLNVAL)
      else of_int (snd handle request_events) OR (of_int (snd handle EPOLL_ALWAYS_EVENTS) AND EPOLL_ALWAYS_EVENTS))"

definition epoll_should_emit :: "epoll_entry \<Rightarrow> u32 \<Rightarrow> bool \<times> epoll_entry" where
  "epoll_should_emit e ready_events =
     (if en_disabled e \<or> ready_events = 0 then (False, e)
      else if en_edge_trigger e then
        let state_events = ready_events AND NOT EPOLL_ALWAYS_EVENTS; raised = state_events AND NOT (en_last_events e) in
        (raised \<noteq> 0 \<or> any_of ready_events EPOLL_ALWAYS_EVENTS, e\<lparr>en_last_events := state_events\<rparr>)
      else (True, e\<lparr>en_last_events := ready_events AND NOT EPOLL_ALWAYS_EVENTS\<rparr>))"

definition epoll_would_emit :: "epoll_entry \<Rightarrow> u32 \<Rightarrow> bool" where
  "epoll_would_emit e ready_events =
     (if en_disabled e \<or> ready_events = 0 then False
      else if en_edge_trigger e then
        (ready_events AND NOT EPOLL_ALWAYS_EVENTS) AND NOT (en_last_events e) \<noteq> 0 \<or> any_of ready_events EPOLL_ALWAYS_EVENTS
      else True)"

section \<open>The events of poll and select\<close>

definition POLLWRBAND :: u32 where "POLLWRBAND = 0x200"

definition epoll_to_poll_comp :: "u32 \<Rightarrow> u32" where
  "epoll_to_poll_comp e =
     (if any_of e (EPOLLIN OR EPOLLRDNORM) then EPOLLIN OR EPOLLRDNORM else 0) OR
     (if any_of e (EPOLLPRI OR EPOLLRDBAND) then EPOLLPRI OR EPOLLRDBAND else 0) OR
     (if any_of e (EPOLLOUT OR EPOLLWRNORM) then EPOLLOUT OR EPOLLWRNORM else 0) OR
     (if any_of e POLLWRBAND then POLLWRBAND else 0) OR (if any_of e EPOLLERR then EPOLLERR else 0) OR (if any_of e EPOLLHUP then EPOLLHUP else 0) OR
     (if any_of e EPOLLNVAL then EPOLLNVAL else 0) OR (if any_of e EPOLLRDHUP then EPOLLRDHUP else 0)"

definition poll_to_epoll_comp :: "u32 \<Rightarrow> u32" where
  "poll_to_epoll_comp e =
     (if any_of e (EPOLLIN OR EPOLLRDNORM) then EPOLLIN OR EPOLLRDNORM else 0) OR
     (if any_of e (EPOLLPRI OR EPOLLRDBAND) then EPOLLPRI OR EPOLLRDBAND else 0) OR
     (if any_of e (EPOLLOUT OR EPOLLWRNORM OR POLLWRBAND) then EPOLLOUT OR EPOLLWRNORM OR (if any_of e POLLWRBAND then POLLWRBAND else 0) else 0) OR
     (if any_of e EPOLLERR then EPOLLERR else 0) OR (if any_of e EPOLLHUP then EPOLLHUP else 0) OR
     (if any_of e EPOLLNVAL then EPOLLNVAL else 0) OR (if any_of e EPOLLRDHUP then EPOLLRDHUP else 0)"

definition select_bitmap :: "u8 list \<Rightarrow> nat \<Rightarrow> bool option" where
  "select_bitmap bits index = (if index div 8 < length bits then Some (bit (bits ! (index div 8)) (index mod 8)) else None)"

definition select_bitmap_set :: "u8 list \<Rightarrow> nat \<Rightarrow> u8 list option" where
  "select_bitmap_set bits index =
     (if index div 8 < length bits then Some (bits[index div 8 := bits ! (index div 8) OR push_bit (index mod 8) 1]) else None)"

section \<open>Control\<close>

primrec entry_index :: "int \<Rightarrow> epoll_entry list \<Rightarrow> nat option" where
  "entry_index fd [] = None"
| "entry_index fd (e # es) = (if en_fd e = fd then Some 0 else map_option Suc (entry_index fd es))"

definition new_entry :: "int \<Rightarrow> epoll_event \<Rightarrow> epoll_entry" where
  "new_entry fd event = \<lparr>en_fd = fd, en_events = epoll_filter_events (fst event), en_data = snd event, en_last_events = 0,
     en_edge_trigger = any_of (fst event) EPOLLET, en_one_shot = any_of (fst event) EPOLLONESHOT, en_disabled = False\<rparr>"

text \<open>The part of \<open>epoll_ctl\<close> under the lock; operations 1, 2 and 3 are ADD, DEL and MOD.\<close>

definition ctl_entries :: "int \<Rightarrow> int \<Rightarrow> epoll_event option \<Rightarrow> epoll_entry list \<Rightarrow> (int \<times> epoll_entry list) option" where
  "ctl_entries op fd event es =
     (if op = 1 then
        if entry_index fd es \<noteq> None then Some (- 17, es)
        else if length es \<ge> EPOLL_MAX_ENTRIES then Some (- 12, es)
        else do { ev \<leftarrow> event; Some (0, es @ [new_entry fd ev]) }
      else if op = 2 then
        (case entry_index fd es of None \<Rightarrow> Some (- 2, es) | Some found \<Rightarrow> Some (0, butlast (es[found := last es])))
      else if op = 3 then
        (case entry_index fd es of None \<Rightarrow> Some (- 2, es) | Some found \<Rightarrow> do { ev \<leftarrow> event; Some (0, es[found := new_entry fd ev]) })
      else Some (- 22, es))"

record eventfd_ctx =
  ec_count :: u64
  ec_flags :: u32

record epoll_heap = vfs +
  epolls :: "nat \<rightharpoonup> epoll_entry list"
  eventfds :: "nat \<rightharpoonup> eventfd_ctx"
  next_handle :: nat
  epollfd_id :: nat
  eventfd_nid :: nat

text \<open>The instance behind a descriptor: \<open>Inl\<close> is the error; \<open>get\<close> gives the nodes of the open descriptors.\<close>

definition epoll_of :: "(int \<rightharpoonup> nat) \<Rightarrow> int \<Rightarrow> epoll_heap \<Rightarrow> (int + nat) option" where
  "epoll_of get epfd st =
     (case get epfd of
        None \<Rightarrow> Some (Inl (- 9))
      | Some n \<Rightarrow> do {
          v \<leftarrow> nds st n;
          if \<not> has (nd_type v) file_epoll then Some (Inl (- 22))
          else (case nd_handle v of None \<Rightarrow> Some (Inl (- 9)) | Some h \<Rightarrow> Some (Inr h))
        })"

definition epoll_ctl :: "(int \<rightharpoonup> nat) \<Rightarrow> int \<Rightarrow> int \<Rightarrow> int \<Rightarrow> epoll_event option \<Rightarrow> epoll_heap \<Rightarrow> (int \<times> epoll_heap) option" where
  "epoll_ctl get epfd op fd event st = do {
     ep \<leftarrow> epoll_of get epfd st;
     (case ep of
        Inl err \<Rightarrow> Some (err, st)
      | Inr h \<Rightarrow>
          if get fd = None then Some (- 9, st)
          else if fd = epfd then Some (- 22, st)
          else if (op = 1 \<or> op = 3) \<and> event = None then Some (- 14, st)
          else do {
            es \<leftarrow> epolls st h;
            (r, es) \<leftarrow> ctl_entries op fd event es;
            Some (r, st\<lparr>epolls := (epolls st)(h \<mapsto> es)\<rparr>)
          })
   }"

fun decimal :: "nat \<Rightarrow> string" where
  "decimal n = (if n < 10 then [char_of (48 + n)] else decimal (n div 10) @ [char_of (48 + n mod 10)])"

definition O_CLOEXEC :: u32 where "O_CLOEXEC = 0x80000"
definition O_NONBLOCK :: u32 where "O_NONBLOCK = 0x800"

text \<open>The node of a new object under the root of its file system; \<open>add_fd\<close> gives the number of the descriptor for a node and its flags.\<close>

definition anonymous_node :: "nat \<Rightarrow> nat \<Rightarrow> string \<Rightarrow> u16 \<Rightarrow> epoll_heap \<Rightarrow> (nat \<times> epoll_heap) option" where
  "anonymous_node root fsid nm ty st = do {
     (n, st) \<leftarrow> vfs_node_alloc (Some root) (Some nm) st;
     st \<leftarrow> upd_nd n (\<lambda>v. v\<lparr>nd_type := ty, nd_fsid := fsid, nd_mode := 0x1c0, nd_handle := Some (next_handle st)\<rparr>) st;
     Some (n, st\<lparr>next_handle := next_handle st + 1\<rparr>)
   }"

definition epoll_create1 :: "nat option \<Rightarrow> nat \<Rightarrow> bool \<Rightarrow> (nat \<Rightarrow> u32 \<Rightarrow> int) \<Rightarrow> u32 \<Rightarrow> epoll_heap \<Rightarrow> (int \<times> epoll_heap) option" where
  "epoll_create1 root fsid calloc_ok add_fd flags st =
     (if flags AND NOT O_CLOEXEC \<noteq> 0 then Some (- 22, st)
      else (case root of
        None \<Rightarrow> Some (- 12, st)
      | Some root \<Rightarrow>
          if \<not> calloc_ok then Some (- 12, st)
          else do {
            let h = next_handle st;
            (n, st) \<leftarrow> anonymous_node root fsid (''epoll'' @ decimal (epollfd_id st)) file_epoll st;
            Some (add_fd n (flags AND O_CLOEXEC), st\<lparr>epolls := (epolls st)(h \<mapsto> []), epollfd_id := epollfd_id st + 1\<rparr>)
          }))"

text \<open>\<open>node\<close> is the node of the instance.\<close>

definition epollfs_close :: "nat option \<Rightarrow> nat option \<Rightarrow> epoll_heap \<Rightarrow> (bool \<times> epoll_heap) option" where
  "epollfs_close current node st =
     (case current of
        None \<Rightarrow> Some (True, st)
      | Some h \<Rightarrow> do {
          _ \<leftarrow> epolls st h;
          st \<leftarrow> (case node of None \<Rightarrow> Some st | Some n \<Rightarrow> upd_nd n (\<lambda>v. v\<lparr>nd_handle := None\<rparr>) st);
          Some (True, st\<lparr>epolls := (epolls st)(h := None)\<rparr>)
        })"

section \<open>Waiting for events\<close>

text \<open>One scan of the entries for at most \<open>maxevents\<close> events, of which \<open>n\<close> have been found.\<close>

primrec scan_entries :: "answers \<Rightarrow> nat \<Rightarrow> epoll_entry list \<Rightarrow> nat \<Rightarrow> epoll_entry list \<times> epoll_event list" where
  "scan_entries answer maxevents [] n = ([], [])"
| "scan_entries answer maxevents (e # es) n =
     (if n \<ge> maxevents then (e # es, [])
      else if en_disabled e then let (es, out) = scan_entries answer maxevents es n in (e # es, out)
      else (case answer (en_fd e) of
        None \<Rightarrow> let (es, out) = scan_entries answer maxevents es n in (e # es, out)
      | Some handle \<Rightarrow>
          let revents = epoll_query_ready_events e handle;
              (emit, e1) = (if revents \<noteq> 0 then epoll_should_emit e revents else (False, e)) in
          if emit then
            let e2 = (if en_one_shot e1 then e1\<lparr>en_disabled := True\<rparr> else e1);
                (es, out) = scan_entries answer maxevents es (n + 1) in
            (e2 # es, (revents, en_data e1) # out)
          else
            let e2 = (if en_edge_trigger e1 \<and> revents = 0 then e1\<lparr>en_last_events := 0\<rparr> else e1);
                (es, out) = scan_entries answer maxevents es n in
            (e2 # es, out)))"

primrec poll_entries :: "answers \<Rightarrow> epoll_entry list \<Rightarrow> bool" where
  "poll_entries answer [] = False"
| "poll_entries answer (e # es) =
     (if en_disabled e then poll_entries answer es
      else (case answer (en_fd e) of
        None \<Rightarrow> poll_entries answer es
      | Some handle \<Rightarrow>
          let revents = epoll_query_ready_events e handle in
          if revents \<noteq> 0 \<and> epoll_would_emit e revents then True else poll_entries answer es))"

definition epollfs_poll :: "answers \<Rightarrow> epoll_entry list option \<Rightarrow> u32 \<Rightarrow> u32" where
  "epollfs_poll answer file events =
     (case file of None \<Rightarrow> 0 | Some es \<Rightarrow> if poll_entries answer es \<and> any_of events EPOLLIN then EPOLLIN else 0)"

text \<open>The waits that \<open>epoll_wait\<close> arms, in an array at \<open>base\<close>.\<close>

primrec epoll_arm_waiters_locked :: "(int \<rightharpoonup> nat) \<Rightarrow> nat \<Rightarrow> nat \<Rightarrow> nat \<Rightarrow> epoll_entry list \<Rightarrow> nat \<Rightarrow> poll_state \<Rightarrow> (nat \<times> poll_state) option" where
  "epoll_arm_waiters_locked get current base max_waits [] count st = Some (count, st)"
| "epoll_arm_waiters_locked get current base max_waits (e # es) count st =
     (if count \<ge> max_waits then Some (count, st)
      else if en_disabled e then epoll_arm_waiters_locked get current base max_waits es count st
      else (case get (en_fd e) of
        None \<Rightarrow> epoll_arm_waiters_locked get current base max_waits es count st
      | Some n \<Rightarrow> do {
          st \<leftarrow> vfs_poll_wait_init (Some (base + count)) (Some current) (en_events e OR EPOLL_ALWAYS_EVENTS) st;
          (r, st) \<leftarrow> vfs_poll_wait_arm (Some n) (Some (base + count)) st;
          epoll_arm_waiters_locked get current base max_waits es (if r = 0 then count + 1 else count) st
        }))"

primrec epoll_disarm_waiters :: "nat \<Rightarrow> nat \<Rightarrow> poll_state \<Rightarrow> poll_state option" where
  "epoll_disarm_waiters w 0 st = Some st"
| "epoll_disarm_waiters w (Suc count) st = do {
     p \<leftarrow> waits st w;
     st \<leftarrow> (if pw_armed p then vfs_poll_wait_disarm (Some w) st else Some st);
     epoll_disarm_waiters (Suc w) count st
   }"

text \<open>
  The loop of \<open>epoll_wait\<close>, while no other thread changes the instance.  A round has the answers during its two scans, whether signals are
  pending at the three places where the code looks, and the time before the sleep and at the end.  The result has the
  times slept, the entries and, unless the call still waits, the value returned with the events.
\<close>

record wait_round =
  wr_first :: answers
  wr_signal1 :: bool
  wr_second :: answers
  wr_signal2 :: bool
  wr_now :: u64
  wr_signal3 :: bool
  wr_end :: u64

definition block_time :: "bool \<Rightarrow> u64 \<Rightarrow> u64 \<Rightarrow> u64" where
  "block_time endless elapsed timeout_ns = (if endless then 10000000 else if elapsed \<ge> timeout_ns then 0 else min (timeout_ns - elapsed) 10000000)"

primrec wait_loop :: "int \<Rightarrow> u64 \<Rightarrow> nat \<Rightarrow> wait_round list \<Rightarrow> epoll_entry list \<Rightarrow> u64 list \<times> epoll_entry list \<times> (int \<times> epoll_event list) option" where
  "wait_loop timeout start maxevents [] es = ([], es, None)"
| "wait_loop timeout start maxevents (r # rs) es =
     (let timeout_ns = (if timeout < 0 then 0 else of_int timeout * 1000000);
          again = (timeout < 0 \<or> wr_end r - start < timeout_ns);
          (es, out) = scan_entries (wr_first r) maxevents es 0 in
      if out \<noteq> [] then ([], es, Some (int (length out), out))
      else if wr_signal1 r then ([], es, Some (- 4, []))
      else if timeout = 0 then ([], es, Some (0, []))
      else if \<exists>e \<in> set es. \<not> en_disabled e \<and> wr_second r (en_fd e) \<noteq> None then
        let (es, out) = scan_entries (wr_second r) maxevents es 0;
            slept = (if out = [] \<and> \<not> wr_signal2 r then [block_time (timeout < 0) (wr_now r - start) timeout_ns] else []) in
        if out \<noteq> [] then (slept, es, Some (int (length out), out))
        else if wr_signal3 r then (slept, es, Some (- 4, []))
        else if again then let (bs, es, res) = wait_loop timeout start maxevents rs es in (slept @ bs, es, res)
        else (slept, es, Some (0, []))
      else if again then wait_loop timeout start maxevents rs es
      else ([], es, Some (0, [])))"

definition epoll_wait ::
  "(int \<rightharpoonup> nat) \<Rightarrow> bool \<Rightarrow> int \<Rightarrow> bool \<Rightarrow> int \<Rightarrow> int \<Rightarrow> u64 \<Rightarrow> wait_round list \<Rightarrow> epoll_heap \<Rightarrow> ((int \<times> epoll_event list) option \<times> epoll_heap) option" where
  "epoll_wait get calloc_ok epfd events_ok maxevents timeout start rounds st =
     (if maxevents \<le> 0 \<or> \<not> events_ok then Some (Some (- 22, []), st)
      else do {
        ep \<leftarrow> epoll_of get epfd st;
        (case ep of
           Inl err \<Rightarrow> Some (Some (err, []), st)
         | Inr h \<Rightarrow> do {
             es \<leftarrow> epolls st h;
             if \<not> calloc_ok then Some (Some (- 12, []), st)
             else
               let (_, es, res) = wait_loop timeout start (nat maxevents) rounds es in
               Some (res, st\<lparr>epolls := (epolls st)(h \<mapsto> es)\<rparr>)
           })
      })"

section \<open>Event counters\<close>

definition EFD_SEMAPHORE :: u32 where "EFD_SEMAPHORE = 1"
definition EFD_CLOEXEC :: u32 where "EFD_CLOEXEC = 0x80000"
definition EFD_NONBLOCK :: u32 where "EFD_NONBLOCK = 0x800"

definition eventfd_take :: "eventfd_ctx \<Rightarrow> (u64 \<times> eventfd_ctx) option" where
  "eventfd_take ctx =
     (if ec_count ctx > 0 then
        Some (if any_of (ec_flags ctx) EFD_SEMAPHORE then (1, ctx\<lparr>ec_count := ec_count ctx - 1\<rparr>) else (ec_count ctx, ctx\<lparr>ec_count := 0\<rparr>))
      else None)"

definition eventfd_put :: "u64 \<Rightarrow> eventfd_ctx \<Rightarrow> eventfd_ctx option" where
  "eventfd_put val ctx = (if ec_count ctx \<le> - 1 - 2 - val then Some (ctx\<lparr>ec_count := ec_count ctx + val\<rparr>) else None)"

text \<open>
  The loops of \<open>eventfdfs_read\<close> and \<open>eventfdfs_write\<close>.  A round has whether a signal is pending and what other threads do to the counter while this one
  yields.  A call that is still waiting at the end has no value.
\<close>

primrec read_loop :: "(bool \<times> (eventfd_ctx \<Rightarrow> eventfd_ctx)) list \<Rightarrow> eventfd_ctx \<Rightarrow> (u64 \<times> u64) option \<times> eventfd_ctx" where
  "read_loop [] ctx =
     (case eventfd_take ctx of
        Some (val, ctx) \<Rightarrow> (Some (8, val), ctx)
      | None \<Rightarrow> (if any_of (ec_flags ctx) EFD_NONBLOCK then Some (- 1, 0) else None, ctx))"
| "read_loop (r # rs) ctx =
     (case eventfd_take ctx of
        Some (val, ctx) \<Rightarrow> (Some (8, val), ctx)
      | None \<Rightarrow> if any_of (ec_flags ctx) EFD_NONBLOCK \<or> fst r then (Some (- 1, 0), ctx) else read_loop rs (snd r ctx))"

primrec write_loop :: "u64 \<Rightarrow> (bool \<times> (eventfd_ctx \<Rightarrow> eventfd_ctx)) list \<Rightarrow> eventfd_ctx \<Rightarrow> u64 option \<times> eventfd_ctx" where
  "write_loop val [] ctx =
     (case eventfd_put val ctx of
        Some ctx \<Rightarrow> (Some 8, ctx)
      | None \<Rightarrow> (if any_of (ec_flags ctx) EFD_NONBLOCK then Some (- 1) else None, ctx))"
| "write_loop val (r # rs) ctx =
     (case eventfd_put val ctx of
        Some ctx \<Rightarrow> (Some 8, ctx)
      | None \<Rightarrow> if any_of (ec_flags ctx) EFD_NONBLOCK \<or> fst r then (Some (- 1), ctx) else write_loop val rs (snd r ctx))"

definition eventfdfs_read :: "u64 \<Rightarrow> (bool \<times> (eventfd_ctx \<Rightarrow> eventfd_ctx)) list \<Rightarrow> eventfd_ctx option \<Rightarrow> (u64 \<times> u64) option \<times> eventfd_ctx option" where
  "eventfdfs_read sz rounds file =
     (case file of
        None \<Rightarrow> (Some (- 1, 0), None)
      | Some ctx \<Rightarrow> if sz < 8 then (Some (- 1, 0), file) else let (r, ctx) = read_loop rounds ctx in (r, Some ctx))"

definition eventfdfs_write :: "u64 \<Rightarrow> u64 \<Rightarrow> (bool \<times> (eventfd_ctx \<Rightarrow> eventfd_ctx)) list \<Rightarrow> eventfd_ctx option \<Rightarrow> u64 option \<times> eventfd_ctx option" where
  "eventfdfs_write val sz rounds file =
     (case file of
        None \<Rightarrow> (Some (- 1), None)
      | Some ctx \<Rightarrow> if sz < 8 \<or> val = - 1 then (Some (- 1), file) else let (r, ctx) = write_loop val rounds ctx in (r, Some ctx))"

definition eventfdfs_poll :: "eventfd_ctx option \<Rightarrow> u32 \<Rightarrow> u32" where
  "eventfdfs_poll file events =
     (case file of
        None \<Rightarrow> 0
      | Some ctx \<Rightarrow> (if any_of events EPOLLIN \<and> ec_count ctx > 0 then EPOLLIN else 0) OR
          (if any_of events EPOLLOUT \<and> ec_count ctx < - 1 - 1 then EPOLLOUT else 0))"

definition eventfdfs_close :: "nat option \<Rightarrow> nat option \<Rightarrow> epoll_heap \<Rightarrow> (bool \<times> epoll_heap) option" where
  "eventfdfs_close current node st =
     (case current of
        None \<Rightarrow> Some (True, st)
      | Some h \<Rightarrow> do {
          _ \<leftarrow> eventfds st h;
          st \<leftarrow> (case node of None \<Rightarrow> Some st | Some n \<Rightarrow> upd_nd n (\<lambda>v. v\<lparr>nd_handle := None\<rparr>) st);
          Some (True, st\<lparr>eventfds := (eventfds st)(h := None)\<rparr>)
        })"

definition eventfd2 :: "nat option \<Rightarrow> nat \<Rightarrow> bool \<Rightarrow> (nat \<Rightarrow> u32 \<Rightarrow> int) \<Rightarrow> u64 \<Rightarrow> u32 \<Rightarrow> epoll_heap \<Rightarrow> (int \<times> epoll_heap) option" where
  "eventfd2 root fsid calloc_ok add_fd initval flags st =
     (if flags AND NOT (EFD_CLOEXEC OR EFD_NONBLOCK OR EFD_SEMAPHORE) \<noteq> 0 then Some (- 22, st)
      else (case root of
        None \<Rightarrow> Some (- 12, st)
      | Some root \<Rightarrow>
          if \<not> calloc_ok then Some (- 12, st)
          else do {
            let h = next_handle st;
            (n, st) \<leftarrow> anonymous_node root fsid (''eventfd'' @ decimal (eventfd_nid st)) file_eventfd st;
            let fd_flags = (if any_of flags EFD_CLOEXEC then O_CLOEXEC else 0) OR (if any_of flags EFD_NONBLOCK then O_NONBLOCK else 0);
            Some (add_fd n fd_flags, st\<lparr>eventfds := (eventfds st)(h \<mapsto> \<lparr>ec_count = initval, ec_flags = flags\<rparr>), eventfd_nid := eventfd_nid st + 1\<rparr>)
          }))"

end
