(* ===== verification/Epoll_Spec.thy ===== *)
theory Epoll_Spec
  imports Epoll
begin

text \<open>
  An event poll as a map from descriptors to what is wanted of them, what a scan reports, the lifetime of the waits, and an event
  counter as a number.
\<close>

section \<open>The table of an instance is a map\<close>

definition entries_ok :: "epoll_entry list \<Rightarrow> bool" where
  "entries_ok es \<longleftrightarrow> distinct (map en_fd es) \<and> length es \<le> EPOLL_MAX_ENTRIES"

definition table_of :: "epoll_entry list \<Rightarrow> int \<rightharpoonup> epoll_entry" where
  "table_of es = map_of (map (\<lambda>e. (en_fd e, e)) es)"

lemma table_of_Some: "distinct (map en_fd es) \<Longrightarrow> table_of es k = Some e \<longleftrightarrow> e \<in> set es \<and> en_fd e = k"
  unfolding table_of_def by (subst map_of_eq_Some_iff) (auto simp: comp_def)

lemma table_of_eqI:
  assumes "distinct (map en_fd es)" "\<And>k e. m k = Some e \<longleftrightarrow> e \<in> set es \<and> en_fd e = k"
  shows "table_of es = m"
proof
  fix k
  show "table_of es k = m k"
  proof (cases "m k")
    case None
    then have "\<nexists>e. table_of es k = Some e" using table_of_Some [OF assms(1)] assms(2) [of k] by (metis option.distinct(1))
    then show ?thesis using None by auto
  next
    case (Some e)
    then show ?thesis using table_of_Some [OF assms(1)] assms(2) by metis
  qed
qed

lemma dom_table: "dom (table_of es) = en_fd ` set es"
  by (auto simp: table_of_def dom_map_of_conv_image_fst image_image)

lemma card_table: "distinct (map en_fd es) \<Longrightarrow> card (dom (table_of es)) = length es"
  using distinct_card [of "map en_fd es"] by (simp add: dom_table)

lemma entry_index_None: "entry_index fd es = None \<longleftrightarrow> fd \<notin> en_fd ` set es"
  by (induction es) auto

lemma entry_index_Some: "entry_index fd es = Some i \<Longrightarrow> i < length es \<and> en_fd (es ! i) = fd"
  by (induction es arbitrary: i) (auto split: if_splits)

lemma set_swap_last:
  assumes "distinct es" "i < length es"
  shows "set (butlast (es[i := last es])) = set es - {es ! i}"
proof -
  obtain xs l where es: "es = xs @ [l]" using assms(2) by (cases es rule: rev_cases) auto
  show ?thesis
  proof (cases "i = length xs")
    case True
    then show ?thesis using assms es by auto
  next
    case False
    then have "i < length xs" using assms es by simp
    moreover have "distinct xs" "l \<notin> set xs" using assms(1) es by auto
    moreover have "xs ! i \<noteq> l" using \<open>i < length xs\<close> \<open>l \<notin> set xs\<close> nth_mem by metis
    ultimately show ?thesis using set_update_distinct [of xs i l] by (auto simp: es nth_append list_update_append butlast_append)
  qed
qed

lemma distinct_swap_last:
  assumes "distinct (map en_fd es)" "i < length es"
  shows "distinct (map en_fd (butlast (es[i := last es])))"
proof -
  obtain xs l where es: "es = xs @ [l]" using assms(2) by (cases es rule: rev_cases) auto
  show ?thesis
  proof (cases "i = length xs")
    case True
    then show ?thesis using assms es by simp
  next
    case False
    then have i: "i < length xs" using assms es by simp
    have "distinct ((map en_fd xs)[i := en_fd l])" using assms(1) es by (intro distinct_list_update) auto
    then show ?thesis using i by (simp add: es list_update_append butlast_append map_update)
  qed
qed

type_synonym ctl_call = "int \<times> int \<times> epoll_event option"

text \<open>What the calls mean on the map, with their results.\<close>

definition ctl_spec :: "ctl_call \<Rightarrow> (int \<rightharpoonup> epoll_entry) \<times> int list \<Rightarrow> (int \<rightharpoonup> epoll_entry) \<times> int list" where
  "ctl_spec call s =
     (let (op, fd, event) = call; (m, rs) = s in
      if op = 1 then
        if fd \<in> dom m then (m, rs @ [- 17])
        else if card (dom m) \<ge> EPOLL_MAX_ENTRIES then (m, rs @ [- 12])
        else (m(fd \<mapsto> new_entry fd (the event)), rs @ [0])
      else if op = 2 then (if fd \<in> dom m then (m(fd := None), rs @ [0]) else (m, rs @ [- 2]))
      else if op = 3 then (if fd \<in> dom m then (m(fd \<mapsto> new_entry fd (the event)), rs @ [0]) else (m, rs @ [- 2]))
      else (m, rs @ [- 22]))"

definition ctl_step :: "ctl_call \<Rightarrow> epoll_entry list \<times> int list \<Rightarrow> (epoll_entry list \<times> int list) option" where
  "ctl_step call s = (case call of (op, fd, event) \<Rightarrow> map_option (\<lambda>(r, es). (es, snd s @ [r])) (ctl_entries op fd event (fst s)))"

definition call_ok :: "ctl_call \<Rightarrow> bool" where
  "call_ok call \<longleftrightarrow> (case call of (op, _, event) \<Rightarrow> (op = 1 \<or> op = 3) \<longrightarrow> event \<noteq> None)"

lemma ctl_add:
  assumes "entries_ok es" "fd \<notin> en_fd ` set es" "length es < EPOLL_MAX_ENTRIES"
  shows "entries_ok (es @ [new_entry fd ev])" "table_of (es @ [new_entry fd ev]) = (table_of es)(fd \<mapsto> new_entry fd ev)"
proof -
  have fd: "en_fd (new_entry fd ev) = fd" by (simp add: new_entry_def)
  then show ok: "entries_ok (es @ [new_entry fd ev])" using assms by (simp add: entries_ok_def)
  show "table_of (es @ [new_entry fd ev]) = (table_of es)(fd \<mapsto> new_entry fd ev)"
    using ok assms(1,2) fd by (intro table_of_eqI) (auto simp: entries_ok_def table_of_Some)
qed

lemma ctl_del:
  assumes "entries_ok es" "entry_index fd es = Some i"
  shows "entries_ok (butlast (es[i := last es]))" "table_of (butlast (es[i := last es])) = (table_of es)(fd := None)"
proof -
  have i: "i < length es" "en_fd (es ! i) = fd" using entry_index_Some [OF assms(2)] by auto
  have d: "distinct (map en_fd es)" "distinct es" using assms(1) by (auto simp: entries_ok_def distinct_map)
  show ok: "entries_ok (butlast (es[i := last es]))" using distinct_swap_last [OF d(1) i(1)] assms(1) by (auto simp: entries_ok_def)
  have u: "e = es ! i" if "e \<in> set es" "en_fd e = fd" for e using d(1) that i by (auto simp: distinct_map inj_on_def)
  show "table_of (butlast (es[i := last es])) = (table_of es)(fd := None)"
    using distinct_swap_last [OF d(1) i(1)] set_swap_last [OF d(2) i(1)] d i u by (intro table_of_eqI) (auto simp: table_of_Some)
qed

lemma ctl_mod:
  assumes "entries_ok es" "entry_index fd es = Some i"
  shows "entries_ok (es[i := new_entry fd ev])" "table_of (es[i := new_entry fd ev]) = (table_of es)(fd \<mapsto> new_entry fd ev)"
proof -
  have i: "i < length es" "en_fd (es ! i) = fd" using entry_index_Some [OF assms(2)] by auto
  have n: "en_fd (new_entry fd ev) = fd" by (simp add: new_entry_def)
  have d: "distinct (map en_fd es)" "distinct es" using assms(1) by (auto simp: entries_ok_def distinct_map)
  have "map en_fd (es[i := new_entry fd ev]) = map en_fd es" using i n by (simp add: map_update list_update_same_conv)
  then show ok: "entries_ok (es[i := new_entry fd ev])" using assms(1) by (simp add: entries_ok_def)
  have u: "e = es ! i" if "e \<in> set es" "en_fd e = fd" for e using d(1) that i by (auto simp: distinct_map inj_on_def)
  have dm: "distinct (map en_fd (es[i := new_entry fd ev]))" using ok by (simp add: entries_ok_def)
  show "table_of (es[i := new_entry fd ev]) = (table_of es)(fd \<mapsto> new_entry fd ev)"
  proof (rule table_of_eqI [OF dm])
    fix k e
    show "((table_of es)(fd \<mapsto> new_entry fd ev)) k = Some e \<longleftrightarrow> e \<in> set (es[i := new_entry fd ev]) \<and> en_fd e = k"
      using set_update_distinct [OF d(2) i(1), of "new_entry fd ev"] table_of_Some [OF d(1)] n i u by auto
  qed
qed

interpretation epoll_table: data_refinement ctl_step ctl_spec "\<lambda>call _. call_ok call" "\<lambda>s. entries_ok (fst s)" "\<lambda>s. (table_of (fst s), snd s)"
proof
  fix s :: "epoll_entry list \<times> int list" and call :: ctl_call
  assume ok: "entries_ok (fst s)" and legal: "call_ok call"
  obtain es rs op fd event where s: "s = (es, rs)" "call = (op, fd, event)" by (cases s, cases call)
  have d: "distinct (map en_fd es)" using ok s by (simp add: entries_ok_def)
  have dom: "fd \<in> dom (table_of es) \<longleftrightarrow> entry_index fd es \<noteq> None" using entry_index_None [of fd es] by (simp add: dom_table)
  have c: "card (dom (table_of es)) = length es" by (rule card_table [OF d])
  have e: "entries_ok es" using ok s by simp
  show "\<exists>s'. ctl_step call s = Some s' \<and> entries_ok (fst s') \<and> (table_of (fst s'), snd s') = ctl_spec call (table_of (fst s), snd s)"
  proof (cases "entry_index fd es")
    case None
    then have "fd \<notin> en_fd ` set es" using entry_index_None by blast
    then show ?thesis using None s legal dom c e ctl_add [OF e, of fd] by (auto simp: ctl_step_def ctl_entries_def ctl_spec_def call_ok_def split: if_splits)
  next
    case (Some i)
    then show ?thesis using s legal dom c e ctl_del [OF e Some] ctl_mod [OF e Some]
      by (auto simp: ctl_step_def ctl_entries_def ctl_spec_def call_ok_def split: if_splits)
  qed
qed

lemma all_calls_legal: "\<forall>c \<in> set calls. call_ok c \<Longrightarrow> epoll_table.legal_ops calls a"
  by (induction calls arbitrary: a) auto



section \<open>What a scan reports\<close>

definition ready_of :: "answers \<Rightarrow> epoll_entry \<Rightarrow> u32" where
  "ready_of answer e = (case answer (en_fd e) of None \<Rightarrow> 0 | Some handle \<Rightarrow> epoll_query_ready_events e handle)"

definition reported :: "answers \<Rightarrow> epoll_entry \<Rightarrow> bool" where
  "reported answer e \<longleftrightarrow> epoll_would_emit e (ready_of answer e)"

text \<open>The entry after a scan has looked at it.\<close>

definition scanned :: "answers \<Rightarrow> epoll_entry \<Rightarrow> epoll_entry" where
  "scanned answer e =
     (let r = ready_of answer e in
      if en_disabled e \<or> answer (en_fd e) = None then e
      else if r = 0 then (if en_edge_trigger e then e\<lparr>en_last_events := 0\<rparr> else e)
      else e\<lparr>en_last_events := r AND NOT EPOLL_ALWAYS_EVENTS, en_disabled := en_one_shot e \<and> reported answer e\<rparr>)"

lemma should_emit: "\<not> en_disabled e \<Longrightarrow> r \<noteq> 0 \<Longrightarrow> epoll_should_emit e r = (epoll_would_emit e r, e\<lparr>en_last_events := r AND NOT EPOLL_ALWAYS_EVENTS\<rparr>)"
  by (simp add: epoll_should_emit_def epoll_would_emit_def Let_def)

lemma not_reported: "en_disabled e \<or> ready_of answer e = 0 \<Longrightarrow> \<not> reported answer e"
  by (auto simp: reported_def epoll_would_emit_def)

lemma scan_step:
  assumes "n < m"
  shows "scan_entries answer m (e # es) n = (let (es', out) = scan_entries answer m es (if reported answer e then n + 1 else n) in
    (scanned answer e # es', if reported answer e then (ready_of answer e, en_data e) # out else out))"
proof -
  consider "en_disabled e \<or> answer (en_fd e) = None" | h where "\<not> en_disabled e" "answer (en_fd e) = Some h"
    by (cases "en_disabled e"; cases "answer (en_fd e)") blast+
  then show ?thesis
  proof cases
    case 1
    then have "\<not> reported answer e" by (intro not_reported) (auto simp: ready_of_def)
    then show ?thesis using 1 assms by (auto simp: scanned_def Let_def split: prod.splits)
  next
    case (2 h)
    let ?r = "epoll_query_ready_events e h"
    have r: "ready_of answer e = ?r" using 2 by (simp add: ready_of_def)
    show ?thesis
    proof (cases "?r = 0")
      case True
      then show ?thesis using 2 assms r not_reported [of e answer] by (auto simp: scanned_def Let_def split: prod.splits)
    next
      case False
      have e: "(e\<lparr>en_last_events := ?r AND NOT EPOLL_ALWAYS_EVENTS\<rparr>)\<lparr>en_disabled := False\<rparr> = e\<lparr>en_last_events := ?r AND NOT EPOLL_ALWAYS_EVENTS\<rparr>"
        using 2(1) by (cases e) simp
      show ?thesis using 2 assms r False should_emit [OF 2(1) False] e
        by (auto simp: scanned_def reported_def Let_def split: prod.splits)
    qed
  qed
qed

lemma scan_spec:
  assumes "n \<le> m"
  shows "\<exists>k. scan_entries answer m es n = (map (scanned answer) (take k es) @ drop k es, map (\<lambda>e. (ready_of answer e, en_data e)) (filter (reported answer) (take k es))) \<and>
    filter (reported answer) (take k es) = take (m - n) (filter (reported answer) es) \<and> (k \<ge> length es \<or> length (filter (reported answer) (take k es)) = m - n)"
  using assms
proof (induction es arbitrary: n)
  case (Cons e es)
  show ?case
  proof (cases "n = m")
    case True
    then show ?thesis by (intro exI [of _ 0]) simp
  next
    case False
    then have lt: "n < m" using Cons.prems by simp
    let ?n = "if reported answer e then n + 1 else n"
    have le: "?n \<le> m" using lt by simp
    obtain k where k: "scan_entries answer m es ?n = (map (scanned answer) (take k es) @ drop k es, map (\<lambda>e. (ready_of answer e, en_data e)) (filter (reported answer) (take k es)))"
      "filter (reported answer) (take k es) = take (m - ?n) (filter (reported answer) es)" "k \<ge> length es \<or> length (filter (reported answer) (take k es)) = m - ?n"
      using Cons.IH [of ?n, OF le] by blast
    have "m - n = Suc (m - (n + 1))" using lt by simp
    then show ?thesis unfolding scan_step [OF lt] k(1) using k(2,3) by (intro exI [of _ "Suc k"]) (auto simp: Let_def)
  qed
qed simp

text \<open>C26: a scan of \<open>epoll_wait\<close> reports, in the order of the table and up to \<open>maxevents\<close>, exactly the entries that are due: enabled, with an open descriptor
  that has ready events, and for edge-triggered ones an event that was not ready at the last scan or an error.  An entry past the
  limit is not touched, so that it is due at the next scan.  A one-shot entry that was reported is not reported again, a
  level-triggered one is while its file is ready.\<close>

theorem epoll_scan_reports:
  shows "\<exists>k. scan_entries answer maxevents es 0 =
      (map (scanned answer) (take k es) @ drop k es, map (\<lambda>e. (ready_of answer e, en_data e)) (take maxevents (filter (reported answer) es))) \<and>
    filter (reported answer) (take k es) = take maxevents (filter (reported answer) es) \<and>
    (k \<ge> length es \<or> length (filter (reported answer) (take k es)) = maxevents) \<and>
    (\<forall>e. reported answer e \<longrightarrow> reported answer (scanned answer e) =
      (\<not> en_one_shot e \<and> (en_edge_trigger e \<longrightarrow> any_of (ready_of answer e) EPOLL_ALWAYS_EVENTS)))"
proof -
  obtain k where k: "scan_entries answer maxevents es 0 =
      (map (scanned answer) (take k es) @ drop k es, map (\<lambda>e. (ready_of answer e, en_data e)) (filter (reported answer) (take k es)))"
    "filter (reported answer) (take k es) = take maxevents (filter (reported answer) es)" "k \<ge> length es \<or> length (filter (reported answer) (take k es)) = maxevents"
    using scan_spec [of 0 maxevents answer es] unfolding diff_zero by blast
  have "reported answer (scanned answer e) = (\<not> en_one_shot e \<and> (en_edge_trigger e \<longrightarrow> any_of (ready_of answer e) EPOLL_ALWAYS_EVENTS))"
    if e: "reported answer e" for e
  proof -
    have ne: "\<not> en_disabled e" "ready_of answer e \<noteq> 0" using e not_reported by blast+
    have s: "scanned answer e = e\<lparr>en_last_events := ready_of answer e AND NOT EPOLL_ALWAYS_EVENTS, en_disabled := en_one_shot e\<rparr>"
      using ne e by (auto simp: scanned_def ready_of_def Let_def split: option.splits)
    have "ready_of answer (scanned answer e) = ready_of answer e" unfolding s by (simp add: ready_of_def epoll_query_ready_events_def split: option.splits)
    moreover have "(r AND NOT EPOLL_ALWAYS_EVENTS) AND (NOT r OR EPOLL_ALWAYS_EVENTS) = 0" for r
      using bit.conj_cancel_right [of "r AND NOT EPOLL_ALWAYS_EVENTS"] by simp
    ultimately show ?thesis using ne by (auto simp: reported_def epoll_would_emit_def s)
  qed
  then show ?thesis using k by (intro exI [of _ k]) simp
qed

theorem epoll_scan_reports_witness:
  "\<exists>es. scan_entries (\<lambda>fd. if fd = 3 then Some (False, \<lambda>_. 1) else None) 4 [new_entry 3 (EPOLLIN OR EPOLLET, 7), new_entry 5 (EPOLLIN, 8)] 0 = (es, [(EPOLLIN, 7)]) \<and>
    scan_entries (\<lambda>fd. if fd = 3 then Some (False, \<lambda>_. 1) else None) 4 [scanned (\<lambda>fd. if fd = 3 then Some (False, \<lambda>_. 1) else None) (new_entry 3 (EPOLLIN OR EPOLLET, 7))] 0 =
      ([scanned (\<lambda>fd. if fd = 3 then Some (False, \<lambda>_. 1) else None) (new_entry 3 (EPOLLIN OR EPOLLET, 7))], [])"
proof -
  let ?a = "\<lambda>fd :: int. if fd = 3 then Some (False, \<lambda>_ :: u32. 1 :: int) else None" and ?e = "new_entry 3 (EPOLLIN OR EPOLLET, 7)" and ?f = "new_entry 5 (EPOLLIN, 8)"
  have r: "ready_of ?a ?e = EPOLLIN" by (simp add: ready_of_def new_entry_def epoll_query_ready_events_def EPOLL_ALWAYS_EVENTS_def poll_events)
  have rf: "\<not> reported ?a ?f" by (simp add: reported_def ready_of_def new_entry_def epoll_would_emit_def)
  have re: "reported ?a ?e"
    unfolding reported_def r by (simp add: new_entry_def epoll_would_emit_def any_of_def EPOLLET_def EPOLL_ALWAYS_EVENTS_def poll_events)
  have d: "en_data ?e = 7" by (simp add: new_entry_def)
  obtain k where 1: "scan_entries ?a 4 [?e, ?f] 0 = (map (scanned ?a) (take k [?e, ?f]) @ drop k [?e, ?f], [(EPOLLIN, 7)])"
    using epoll_scan_reports [of ?a 4 "[?e, ?f]"] re rf r d by auto
  have "en_edge_trigger ?e" "\<not> any_of EPOLLIN EPOLL_ALWAYS_EVENTS"
    by (simp_all add: new_entry_def any_of_def EPOLLET_def EPOLL_ALWAYS_EVENTS_def poll_events)
  then have "\<not> reported ?a (scanned ?a ?e)" using epoll_scan_reports [of ?a 4 "[?e]"] re r by auto
  then obtain j where 2: "scan_entries ?a 4 [scanned ?a ?e] 0 = (map (scanned ?a) (take j [scanned ?a ?e]) @ drop j [scanned ?a ?e], [])"
    using epoll_scan_reports [of ?a 4 "[scanned ?a ?e]"] by auto
  have "scanned ?a (scanned ?a ?e) = scanned ?a ?e" by (simp add: scanned_def Let_def ready_of_def epoll_query_ready_events_def reported_def new_entry_def epoll_would_emit_def
    EPOLLET_def EPOLLONESHOT_def EPOLL_ALWAYS_EVENTS_def any_of_def poll_events epoll_filter_events_def)
  then have "map (scanned ?a) (take j [scanned ?a ?e]) @ drop j [scanned ?a ?e] = [scanned ?a ?e]" by (cases j) simp_all
  then show ?thesis using 1 2 by auto
qed

section \<open>Event counters\<close>

text \<open>A counter below its limit as a number; a write of \<open>2^64 - 1\<close> is refused, and so is one that would pass the limit.\<close>

datatype counter_call = Read | Write u64

definition counter_limit :: nat where "counter_limit = 2 ^ 64 - 3"

definition counter_step :: "counter_call \<Rightarrow> eventfd_ctx \<times> u64 list \<Rightarrow> (eventfd_ctx \<times> u64 list) option" where
  "counter_step call s =
     (case call of
        Read \<Rightarrow> (case eventfdfs_read 8 [] (Some (fst s)) of (Some (_, val), Some ctx) \<Rightarrow> Some (ctx, snd s @ [val]) | _ \<Rightarrow> None)
      | Write val \<Rightarrow> (case eventfdfs_write val 8 [] (Some (fst s)) of (Some ret, Some ctx) \<Rightarrow> Some (ctx, snd s @ [ret]) | _ \<Rightarrow> None))"

definition counter_spec :: "bool \<Rightarrow> counter_call \<Rightarrow> nat \<times> u64 list \<Rightarrow> nat \<times> u64 list" where
  "counter_spec semaphore call s =
     (let (c, rs) = s in
      case call of
        Read \<Rightarrow> if c = 0 then (0, rs @ [0]) else if semaphore then (c - 1, rs @ [1]) else (0, rs @ [of_nat c])
      | Write val \<Rightarrow> if c + unat val \<le> counter_limit then (c + unat val, rs @ [8]) else (c, rs @ [- 1]))"

definition counter_ok :: "bool \<Rightarrow> eventfd_ctx \<Rightarrow> bool" where
  "counter_ok semaphore ctx \<longleftrightarrow> unat (ec_count ctx) \<le> counter_limit \<and> any_of (ec_flags ctx) EFD_NONBLOCK \<and> any_of (ec_flags ctx) EFD_SEMAPHORE = semaphore"

lemma unat_high: "unat (- 1 :: u64) = 2 ^ 64 - 1" "unat (- 2 :: u64) = 2 ^ 64 - 2" "unat (- 3 :: u64) = counter_limit"
proof -
  have "(- 1 :: u64) = 0xffffffffffffffff" "(- 2 :: u64) = 0xfffffffffffffffe" "(- 3 :: u64) = 0xfffffffffffffffd" by simp_all
  then show "unat (- 1 :: u64) = 2 ^ 64 - 1" "unat (- 2 :: u64) = 2 ^ 64 - 2" "unat (- 3 :: u64) = counter_limit" by (simp_all only: counter_limit_def) simp_all
qed

lemma put_spec:
  assumes "unat (ec_count ctx) \<le> counter_limit" "val \<noteq> - 2" "val \<noteq> - 1"
  shows "eventfd_put val ctx = (if unat (ec_count ctx) + unat val \<le> counter_limit then Some (ctx\<lparr>ec_count := ec_count ctx + val\<rparr>) else None)"
proof -
  have lt: "unat val < 2 ^ 64 - 2"
  proof -
    have "unat val \<noteq> unat (- 2 :: u64)" "unat val \<noteq> unat (- 1 :: u64)" using assms(2,3) by (metis word_unat_eq_iff)+
    moreover note unat_high(1,2)
    moreover have "unat val < 2 ^ 64" using unsigned_less [of val, where 'a = nat] by simp
    ultimately show ?thesis by linarith
  qed
  note u = unat_high(3)
  have "val \<le> - 3" using lt u by (simp add: word_le_nat_alt counter_limit_def)
  then have "unat (- 3 - val) = counter_limit - unat val" using unat_sub [of val "- 3"] u by simp
  then have "ec_count ctx \<le> - 1 - 2 - val \<longleftrightarrow> unat (ec_count ctx) + unat val \<le> counter_limit"
    using lt assms(1) by (simp add: word_le_nat_alt counter_limit_def) linarith
  then show ?thesis by (simp add: eventfd_put_def)
qed

interpretation counter: data_refinement counter_step "counter_spec sem" "\<lambda>call _. call \<noteq> Write (- 2)" "\<lambda>s. counter_ok sem (fst s)"
  "\<lambda>s. (unat (ec_count (fst s)), snd s)" for sem
proof
  fix s :: "eventfd_ctx \<times> u64 list" and call
  assume "counter_ok sem (fst s)" and legal: "call \<noteq> Write (- 2)"
  then obtain ctx rs where s: "s = (ctx, rs)" and ok: "unat (ec_count ctx) \<le> counter_limit" "any_of (ec_flags ctx) EFD_NONBLOCK"
    "any_of (ec_flags ctx) EFD_SEMAPHORE = sem" by (cases s) (simp add: counter_ok_def)
  show "\<exists>s'. counter_step call s = Some s' \<and> counter_ok sem (fst s') \<and> (unat (ec_count (fst s')), snd s') = counter_spec sem call (unat (ec_count (fst s)), snd s)"
  proof (cases call)
    case Read
    show ?thesis
    proof (cases "ec_count ctx = 0")
      case True
      then show ?thesis using Read s ok by (simp add: counter_step_def eventfdfs_read_def eventfd_take_def counter_spec_def counter_ok_def)
    next
      case False
      then have "unat (ec_count ctx - 1) = unat (ec_count ctx) - 1" "0 < ec_count ctx" "unat (ec_count ctx) \<noteq> 0"
        using unat_minus_one [OF False] by (simp_all add: word_gt_0 unat_eq_0)
      then show ?thesis using Read s ok by (auto simp: counter_step_def eventfdfs_read_def eventfd_take_def counter_spec_def counter_ok_def)
    qed
  next
    case (Write val)
    show ?thesis
    proof (cases "val = - 1")
      case True
      show ?thesis using unat_high(1) Write True s ok by (simp add: counter_step_def eventfdfs_write_def counter_spec_def counter_ok_def counter_limit_def)
    next
      case False
      note p = put_spec [OF ok(1) _ False]
      show ?thesis
      proof (cases "unat (ec_count ctx) + unat val \<le> counter_limit")
        case True
        then have "unat (ec_count ctx + val) = unat (ec_count ctx) + unat val" by (intro unat_add_no_wrap) (simp add: counter_limit_def)
        then show ?thesis using Write False True legal s ok p by (simp add: counter_step_def eventfdfs_write_def counter_spec_def counter_ok_def)
      next
        case no: False
        then show ?thesis using Write False legal s ok p by (simp add: counter_step_def eventfdfs_write_def counter_spec_def counter_ok_def)
      qed
    qed
  qed
qed

lemma counter_calls_legal: "Write (- 2) \<notin> set calls \<Longrightarrow> counter.legal_ops sem calls a"
  by (induction calls arbitrary: a) auto

text \<open>Over any sequence of non-blocking reads and writes other than of \<open>2^64 - 2\<close>, an event counter is a number below its limit: a write adds
  its value or is refused as a whole, a read takes the whole number, or one of it for a semaphore; nothing wraps around.\<close>

theorem eventfd_counts:
  assumes "counter_ok sem ctx" "Write (- 2) \<notin> set calls"
  shows "\<exists>ctx' rs. run_ops counter_step calls (ctx, []) = Some (ctx', rs) \<and> counter_ok sem ctx' \<and>
    (unat (ec_count ctx'), rs) = spec_ops (counter_spec sem) calls (unat (ec_count ctx), [])"
  using counter.run_refines [of sem "(ctx, [])" calls, OF _ counter_calls_legal [OF assms(2)]] assms(1) by auto

theorem eventfd_counts_witness:
  "\<exists>ctx'. run_ops counter_step [Write 5, Write 2, Read, Read] (\<lparr>ec_count = 1, ec_flags = EFD_NONBLOCK\<rparr>, []) = Some (ctx', [8, 8, 8, 0])"
proof -
  have ok: "counter_ok False \<lparr>ec_count = 1, ec_flags = EFD_NONBLOCK\<rparr>" by (simp add: counter_ok_def counter_limit_def any_of_def EFD_NONBLOCK_def EFD_SEMAPHORE_def)
  have l: "Write (- 2) \<notin> set [Write 5, Write 2, Read, Read]" by simp
  have "spec_ops (counter_spec False) [Write 5, Write 2, Read, Read] (1, []) = (0, [8, 8, 8, 0])"
    by (simp add: counter_spec_def counter_limit_def)
  then show ?thesis using eventfd_counts [OF ok l] by auto
qed

text \<open>A write of \<open>2^64 - 2\<close> succeeds whatever the counter holds, because the test for the limit wraps around, and takes two from the
  counter instead of adding to it.\<close>

theorem eventfd_write_wraps:
  assumes "2 \<le> ec_count ctx"
  shows "eventfdfs_write (- 2) 8 rounds (Some ctx) = (Some 8, Some (ctx\<lparr>ec_count := ec_count ctx - 2\<rparr>)) \<and> ec_count ctx - 2 < ec_count ctx"
proof -
  have "eventfd_put (- 2) ctx = Some (ctx\<lparr>ec_count := ec_count ctx - 2\<rparr>)" by (simp add: eventfd_put_def)
  then have "write_loop (- 2) rounds ctx = (Some 8, ctx\<lparr>ec_count := ec_count ctx - 2\<rparr>)" by (cases rounds) simp_all
  moreover have "ec_count ctx - 2 < ec_count ctx" using unat_sub [OF assms] assms by (simp add: word_less_nat_alt word_le_nat_alt)
  ultimately show ?thesis by (simp add: eventfdfs_write_def)
qed

theorem eventfd_write_wraps_witness:
  "eventfdfs_write (- 2) 8 [] (Some \<lparr>ec_count = 5, ec_flags = 0\<rparr>) = (Some 8, Some \<lparr>ec_count = 3, ec_flags = 0\<rparr>)"
  using eventfd_write_wraps [of "\<lparr>ec_count = 5, ec_flags = 0\<rparr>" "[]"] by simp

section \<open>Edges between two calls\<close>

text \<open>The answers of an instance that watches an event counter.\<close>

definition counter_answers :: "int \<Rightarrow> eventfd_ctx \<Rightarrow> answers" where
  "counter_answers fd ctx = (\<lambda>k. if k = fd then
     Some (False, \<lambda>events. uint (vfs_poll_restore_aliases events (eventfdfs_poll (Some ctx) (vfs_poll_normalize_events events)))) else None)"

definition edge_entry :: "int \<Rightarrow> u64 \<Rightarrow> u32 \<Rightarrow> epoll_entry" where
  "edge_entry fd data last_events = (new_entry fd (EPOLLIN OR EPOLLET, data))\<lparr>en_last_events := last_events\<rparr>"

lemma edge_entry_fields [simp]: "en_fd (edge_entry fd d l) = fd" "en_edge_trigger (edge_entry fd d l)" "\<not> en_one_shot (edge_entry fd d l)" "\<not> en_disabled (edge_entry fd d l)"
  "en_events (edge_entry fd d l) = EPOLLIN" "en_data (edge_entry fd d l) = d" "en_last_events (edge_entry fd d l) = l"
  "edge_entry fd d l\<lparr>en_last_events := k\<rparr> = edge_entry fd d k"
  by (simp_all add: edge_entry_def new_entry_def epoll_filter_events_def any_of_def EPOLLET_def EPOLLONESHOT_def EPOLLWAKEUP_def EPOLLEXCLUSIVE_def poll_events)

lemma edge_ready: "0 < ec_count ctx \<Longrightarrow> epoll_query_ready_events (edge_entry fd d l)
  (False, \<lambda>events. uint (vfs_poll_restore_aliases events (eventfdfs_poll (Some ctx) (vfs_poll_normalize_events events)))) = EPOLLIN"
  by (simp add: epoll_query_ready_events_def vfs_poll_restore_aliases_def vfs_poll_normalize_events_def eventfdfs_poll_def any_of_def Let_def
    EPOLL_ALWAYS_EVENTS_def poll_events)

lemma edge_scan:
  assumes "0 < ec_count ctx"
  shows "scan_entries (counter_answers fd ctx) 1 [edge_entry fd d 0] 0 = ([edge_entry fd d EPOLLIN], [(EPOLLIN, d)])"
    "scan_entries (counter_answers fd ctx) 1 [edge_entry fd d EPOLLIN] 0 = ([edge_entry fd d EPOLLIN], [])"
  using edge_ready [OF assms, of fd d 0] edge_ready [OF assms, of fd d EPOLLIN]
  by (simp_all add: counter_answers_def epoll_should_emit_def any_of_def EPOLL_ALWAYS_EVENTS_def poll_events)

text \<open>C40: an edge-triggered entry misses an event that comes between two calls of \<open>epoll_wait\<close>: after a first report, the counter is read down to zero and written
  again, and the next call waits forever although the counter can be read, because the code only compares what is ready at one
  scan with what was ready at the scan before.\<close>

theorem epoll_edge_lost:
  assumes "0 < ec_count ctx" "\<not> any_of (ec_flags ctx) EFD_SEMAPHORE" "0 < v" "v < - 2"
  shows "\<exists>e ctx1 ctx2. scan_entries (counter_answers fd ctx) 1 [new_entry fd (EPOLLIN OR EPOLLET, d)] 0 = ([e], [(EPOLLIN, d)]) \<and>
    eventfdfs_read 8 [] (Some ctx) = (Some (8, ec_count ctx), Some ctx1) \<and> ec_count ctx1 = 0 \<and>
    eventfdfs_write v 8 [] (Some ctx1) = (Some 8, Some ctx2) \<and> ec_count ctx2 = v \<and>
    (\<forall>rounds start. (\<forall>r \<in> set rounds. wr_first r = counter_answers fd ctx2 \<and> wr_second r = counter_answers fd ctx2 \<and> \<not> wr_signal1 r \<and> \<not> wr_signal3 r) \<longrightarrow>
      snd (snd (wait_loop (- 1) start 1 rounds [e])) = None)"
proof -
  let ?ctx1 = "ctx\<lparr>ec_count := 0\<rparr>" and ?ctx2 = "ctx\<lparr>ec_count := v\<rparr>" and ?e = "edge_entry fd d EPOLLIN"
  have r: "eventfdfs_read 8 [] (Some ctx) = (Some (8, ec_count ctx), Some ?ctx1)" using assms by (simp add: eventfdfs_read_def eventfd_take_def)
  have v: "unat v < 2 ^ 64 - 2" using assms(4) unat_high(2) by (simp add: word_less_nat_alt)
  then have ne: "v \<noteq> - 1" "v \<noteq> - 2" using unat_high(1,2) by auto
  have "eventfd_put v ?ctx1 = Some ?ctx2" using put_spec [of ?ctx1 v] ne v by (simp add: counter_limit_def)
  then have w: "eventfdfs_write v 8 [] (Some ?ctx1) = (Some 8, Some ?ctx2)" using ne by (simp add: eventfdfs_write_def)
  have first: "scan_entries (counter_answers fd ctx) 1 [new_entry fd (EPOLLIN OR EPOLLET, d)] 0 = ([?e], [(EPOLLIN, d)])"
  proof -
    have "new_entry fd (EPOLLIN OR EPOLLET, d) = edge_entry fd d 0" by (simp add: edge_entry_def new_entry_def)
    then show ?thesis using edge_scan(1) [OF assms(1)] by simp
  qed
  have waiting: "snd (snd (wait_loop (- 1) start 1 rounds [?e])) = None"
    if "\<forall>r \<in> set rounds. wr_first r = counter_answers fd ?ctx2 \<and> wr_second r = counter_answers fd ?ctx2 \<and> \<not> wr_signal1 r \<and> \<not> wr_signal3 r" for rounds start
    using that
  proof (induction rounds)
    case (Cons r rs)
    have s: "scan_entries (counter_answers fd ?ctx2) 1 [?e] 0 = ([?e], [])" using edge_scan(2) [of ?ctx2 fd d] assms(3) by simp
    have "snd (snd (wait_loop (- 1) start 1 (r # rs) [?e])) = snd (snd (wait_loop (- 1) start 1 rs [?e]))"
      using Cons.prems s by (simp only: wait_loop.simps Let_def) (simp del: scan_entries.simps split: prod.splits)
    also have "\<dots> = None" using Cons.IH Cons.prems by (meson list.set_intros(2))
    finally show ?case .
  qed simp
  show ?thesis
  proof (rule exI [of _ ?e], rule exI [of _ ?ctx1], rule exI [of _ ?ctx2], intro conjI)
    show "ec_count ?ctx1 = 0" "ec_count ?ctx2 = v" by simp_all
  qed (use first r w waiting in \<open>blast+\<close>)
qed

theorem epoll_edge_lost_witness:
  "\<exists>e ctx2. scan_entries (counter_answers 3 \<lparr>ec_count = 1, ec_flags = 0\<rparr>) 1 [new_entry 3 (EPOLLIN OR EPOLLET, 9)] 0 = ([e], [(EPOLLIN, 9)]) \<and> ec_count ctx2 = 5 \<and>
    snd (snd (wait_loop (- 1) 0 1 [\<lparr>wr_first = counter_answers 3 ctx2, wr_signal1 = False, wr_second = counter_answers 3 ctx2, wr_signal2 = False, wr_now = 0,
      wr_signal3 = False, wr_end = 10\<rparr>] [e])) = None"
proof -
  have "(5 :: u64) < - 2" "\<not> any_of (ec_flags \<lparr>ec_count = 1, ec_flags = 0\<rparr>) EFD_SEMAPHORE" by (simp_all add: any_of_def)
  then obtain e ctx2 where e: "scan_entries (counter_answers 3 \<lparr>ec_count = 1, ec_flags = 0\<rparr>) 1 [new_entry 3 (EPOLLIN OR EPOLLET, 9)] 0 = ([e], [(EPOLLIN, 9)])"
      "ec_count ctx2 = 5"
    and f: "\<forall>rounds start. (\<forall>r \<in> set rounds. wr_first r = counter_answers 3 ctx2 \<and> wr_second r = counter_answers 3 ctx2 \<and> \<not> wr_signal1 r \<and> \<not> wr_signal3 r) \<longrightarrow>
      snd (snd (wait_loop (- 1) start 1 rounds [e])) = None"
    using epoll_edge_lost [of "\<lparr>ec_count = 1, ec_flags = 0\<rparr>" 5 3 9] by auto
  have "snd (snd (wait_loop (- 1) 0 1 [\<lparr>wr_first = counter_answers 3 ctx2, wr_signal1 = False, wr_second = counter_answers 3 ctx2, wr_signal2 = False, wr_now = 0,
      wr_signal3 = False, wr_end = 10\<rparr>] [e])) = None" by (rule f [rule_format]) (auto simp del: wait_loop.simps)
  then show ?thesis using e by blast
qed

section \<open>The waits of a call\<close>

definition outside :: "nat set \<Rightarrow> poll_state \<Rightarrow> nat \<Rightarrow> nat list option" where
  "outside S st n = map_option (filter (\<lambda>w. w \<notin> S)) (waiters st n)"

lemma filter_remove1_in: "w \<in> S \<Longrightarrow> filter (\<lambda>x. x \<notin> S) (remove1 w ws) = filter (\<lambda>x. x \<notin> S) ws"
  by (induction ws) auto

text \<open>What arming, notifying and disarming the waits of a set keep.\<close>

definition kept :: "nat set \<Rightarrow> poll_state \<Rightarrow> poll_state \<Rightarrow> bool" where
  "kept S st st' \<longleftrightarrow> poll_inv st' \<and> outside S st' = outside S st \<and> dom (waits st') = dom (waits st) \<and> dom (waiters st') = dom (waiters st)"

lemma kept_refl: "poll_inv st \<Longrightarrow> kept S st st"
  by (simp add: kept_def)

lemma kept_trans: "kept S st st1 \<Longrightarrow> kept S st1 st2 \<Longrightarrow> kept S st st2"
  by (simp add: kept_def)

lemma init_kept:
  assumes "poll_inv st" "waits st w \<noteq> None" "unarmed w st"
  obtains st' where "vfs_poll_wait_init (Some w) t e st = Some st'" "kept S st st'" "\<And>v. v \<noteq> w \<Longrightarrow> waits st' v = waits st v" "unarmed w st'"
    "\<exists>p. waits st' w = Some p \<and> pw_task p = t \<and> \<not> pw_armed p"
proof -
  obtain st' where s: "vfs_poll_wait_init (Some w) t e st = Some st'" "poll_inv st'" using step_inv [OF assms(1), of "Init w t e"] assms(2,3) by auto
  then show ?thesis using assms(2,3) by (intro that [OF s(1)]) (auto simp: vfs_poll_wait_init_def kept_def outside_def unarmed_def fun_eq_iff split: option.splits if_splits)
qed

lemma arm_kept:
  assumes "poll_inv st" "waits st w = Some p" "pw_task p \<noteq> None" "\<not> pw_armed p" "waiters st n \<noteq> None" "w \<in> S"
  obtains st' where "vfs_poll_wait_arm (Some n) (Some w) st = Some (0, st')" "kept S st st'" "\<And>v. v \<noteq> w \<Longrightarrow> waits st' v = waits st v"
proof -
  obtain st' where s: "map_option snd (vfs_poll_wait_arm (Some n) (Some w) st) = Some st'" "poll_inv st'"
    using step_inv [OF assms(1), of "Arm n w"] assms(2,5) by auto
  then have a: "vfs_poll_wait_arm (Some n) (Some w) st = Some (0, st')" using assms by (auto simp: vfs_poll_wait_arm_def)
  then show ?thesis using s assms by (intro that [OF a]) (auto simp: vfs_poll_wait_arm_def kept_def outside_def fun_eq_iff split: if_splits)
qed

lemma disarm_kept:
  assumes "poll_inv st" "waits st w \<noteq> None" "w \<in> S"
  obtains st' where "vfs_poll_wait_disarm (Some w) st = Some st'" "kept S st st'" "\<And>v. v \<noteq> w \<Longrightarrow> waits st' v = waits st v" "unarmed w st'"
proof -
  obtain p where p: "waits st w = Some p" using assms(2) by auto
  obtain st' where s: "vfs_poll_wait_disarm (Some w) st = Some st'" "poll_inv st'" using step_inv [OF assms(1), of "Disarm w"] assms(2) by auto
  show ?thesis
  proof (cases "pw_armed p")
    case False
    then show ?thesis using s p assms(1) by (intro that [OF s(1)]) (auto simp: vfs_poll_wait_disarm_def kept_def unarmed_def)
  next
    case True
    obtain n ws where n: "armed_on n p" "waiters st n = Some ws" by (rule poll_inv_armed [OF assms(1) p True])
    then show ?thesis using s p True assms(3)
      by (intro that [OF s(1)]) (auto simp: vfs_poll_wait_disarm_def kept_def unarmed_def armed_on_def outside_def fun_eq_iff filter_remove1_in split: if_splits)
  qed
qed

lemma notify_kept:
  assumes "poll_inv st" "waiters st n \<noteq> None"
  obtains ts st' where "vfs_poll_notify (Some n) e st = Some (ts, st')" "kept S st st'" "\<And>w. unarmed w st' = unarmed w st"
proof (cases "e = 0")
  case True
  then show ?thesis using that [of "[]" st] assms(1) by (simp add: vfs_poll_notify_def kept_refl)
next
  case False
  obtain ws where ws: "waiters st n = Some ws" using assms(2) by auto
  show ?thesis
    by (rule that [OF notify_spec [OF assms(1) ws False]])
      (auto simp: kept_def outside_def unarmed_def fun_eq_iff inv_told [OF assms(1)] split: if_splits option.splits)
qed

lemma arm_waiters_kept:
  assumes "poll_inv st" "\<forall>i. count \<le> i \<and> i < m \<longrightarrow> waits st (base + i) \<noteq> None \<and> unarmed (base + i) st" "{base..<base + m} \<subseteq> S"
    "\<forall>e \<in> set es. \<forall>n. get (en_fd e) = Some n \<longrightarrow> waiters st n \<noteq> None" "count \<le> m"
  shows "\<exists>c st'. epoll_arm_waiters_locked get t base m es count st = Some (c, st') \<and> kept S st st' \<and> count \<le> c \<and> c \<le> m \<and>
    (\<forall>i. c \<le> i \<and> i < m \<longrightarrow> unarmed (base + i) st')"
  using assms
proof (induction es arbitrary: count st)
  case Nil
  then show ?case by (simp add: kept_refl)
next
  case (Cons e es)
  have skip: ?case if "epoll_arm_waiters_locked get t base m (e # es) count st = epoll_arm_waiters_locked get t base m es count st"
    unfolding that using Cons.IH [OF Cons.prems(1,2,3) _ Cons.prems(5)] Cons.prems(4) by auto
  show ?case
  proof (cases "count = m")
    case True
    then show ?thesis using Cons.prems(1) by (auto simp: kept_refl)
  next
    case False
    then have lt: "count < m" using Cons.prems(5) by simp
    show ?thesis
    proof (cases "en_disabled e \<or> get (en_fd e) = None")
      case True
      then show ?thesis using lt by (intro skip) auto
    next
      case act: False
      then obtain n where n: "get (en_fd e) = Some n" "waiters st n \<noteq> None" using Cons.prems(4) by auto
      let ?w = "base + count" and ?ev = "en_events e OR EPOLL_ALWAYS_EVENTS"
      have w: "waits st ?w \<noteq> None" "unarmed ?w st" "?w \<in> S" using Cons.prems(2,3) lt by auto
      obtain st1 where 1: "vfs_poll_wait_init (Some ?w) (Some t) ?ev st = Some st1" "kept S st st1" "\<And>v. v \<noteq> ?w \<Longrightarrow> waits st1 v = waits st v"
        "\<exists>p. waits st1 ?w = Some p \<and> pw_task p = Some t \<and> \<not> pw_armed p" using init_kept [OF Cons.prems(1) w(1,2), of "Some t" ?ev S] by metis
      then obtain p where p: "waits st1 ?w = Some p" "pw_task p = Some t" "\<not> pw_armed p" by blast
      have i1: "poll_inv st1" "waiters st1 n \<noteq> None" using 1(2) n(2) by (auto simp: kept_def)
      obtain st2 where 2: "vfs_poll_wait_arm (Some n) (Some ?w) st1 = Some (0, st2)" "kept S st1 st2" "\<And>v. v \<noteq> ?w \<Longrightarrow> waits st2 v = waits st1 v"
        using arm_kept [OF i1(1) p(1) _ p(3) i1(2) w(3)] p(2) by (metis option.distinct(1))
      have i2: "poll_inv st2" using 2(2) by (simp add: kept_def)
      have k2: "kept S st st2" by (rule kept_trans [OF 1(2) 2(2)])
      have o2: "\<forall>i. count + 1 \<le> i \<and> i < m \<longrightarrow> waits st2 (base + i) \<noteq> None \<and> unarmed (base + i) st2"
        using Cons.prems(2) 1(3) 2(3) by (auto simp: unarmed_def)
      have n2: "\<forall>e \<in> set es. \<forall>n. get (en_fd e) = Some n \<longrightarrow> waiters st2 n \<noteq> None"
        using Cons.prems(4) k2 by (auto simp: kept_def dom_def set_eq_iff)
      obtain c st' where 3: "epoll_arm_waiters_locked get t base m es (count + 1) st2 = Some (c, st')" "kept S st2 st'" "count + 1 \<le> c" "c \<le> m"
        "\<forall>i. c \<le> i \<and> i < m \<longrightarrow> unarmed (base + i) st'" using Cons.IH [OF i2 o2 Cons.prems(3) n2] lt by auto
      have "epoll_arm_waiters_locked get t base m (e # es) count st = Some (c, st')" using act n(1) lt 1(1) 2(1) 3(1) by simp
      then show ?thesis using kept_trans [OF k2 3(2)] 3(3,4,5) by auto
    qed
  qed
qed

lemma disarm_waiters_kept:
  assumes "poll_inv st" "{w..<w + c} \<subseteq> dom (waits st)" "{w..<w + c} \<subseteq> S"
  shows "\<exists>st'. epoll_disarm_waiters w c st = Some st' \<and> kept S st st' \<and> (\<forall>v. unarmed v st' = (v \<in> {w..<w + c} \<or> unarmed v st))"
  using assms
proof (induction c arbitrary: w st)
  case 0
  then show ?case by (simp add: kept_refl)
next
  case (Suc c)
  have "w \<in> dom (waits st)" using Suc.prems(2) by (rule subsetD) simp
  then have w: "waits st w \<noteq> None" "w \<in> S" using Suc.prems(3) by auto
  obtain st1 where 1: "vfs_poll_wait_disarm (Some w) st = Some st1" "kept S st st1" "\<And>v. v \<noteq> w \<Longrightarrow> waits st1 v = waits st v" "unarmed w st1"
    using disarm_kept [OF Suc.prems(1) w] by metis
  have u1: "unarmed v st1 = (v = w \<or> unarmed v st)" for v using 1(3,4) by (cases "v = w") (simp_all add: unarmed_def)
  have sub: "{Suc w..<Suc w + c} \<subseteq> {w..<w + Suc c}" by auto
  have "poll_inv st1" "dom (waits st1) = dom (waits st)" using 1(2) by (simp_all add: kept_def)
  then have "{Suc w..<Suc w + c} \<subseteq> dom (waits st1)" "{Suc w..<Suc w + c} \<subseteq> S" "poll_inv st1"
    using subset_trans [OF sub Suc.prems(2)] subset_trans [OF sub Suc.prems(3)] by simp_all
  from Suc.IH [OF this(3,1,2)] obtain st' where st': "epoll_disarm_waiters (Suc w) c st1 = Some st'" "kept S st1 st'"
    "\<forall>v. unarmed v st' = (v \<in> {Suc w..<Suc w + c} \<or> unarmed v st1)" by blast
  have "epoll_disarm_waiters w (Suc c) st = Some st'"
    using w(1) 1(1) st'(1) by (auto simp: vfs_poll_wait_disarm_def split: if_splits)
  moreover have "unarmed v st' = (v \<in> {w..<w + Suc c} \<or> unarmed v st)" for v using st'(3) u1 by auto
  ultimately show ?case using kept_trans [OF 1(2) st'(2)] by blast
qed

definition notify_all :: "(nat \<times> u32) list \<Rightarrow> poll_state \<Rightarrow> poll_state option" where
  "notify_all ns st = run_ops (\<lambda>(n, e) st. map_option snd (vfs_poll_notify (Some n) e st)) ns st"

lemma notify_all_kept:
  assumes "poll_inv st" "\<forall>x \<in> set ns. waiters st (fst x) \<noteq> None"
  shows "\<exists>st'. notify_all ns st = Some st' \<and> kept S st st' \<and> (\<forall>w. unarmed w st' = unarmed w st)"
  using assms
proof (induction ns arbitrary: st)
  case Nil
  then show ?case by (simp add: notify_all_def kept_refl)
next
  case (Cons x ns)
  obtain n e where x: "x = (n, e)" by (cases x)
  have n: "waiters st n \<noteq> None" using Cons.prems(2) x by simp
  obtain ts st1 where 1: "vfs_poll_notify (Some n) e st = Some (ts, st1)" "kept S st st1" "\<And>w. unarmed w st1 = unarmed w st"
    using notify_kept [OF Cons.prems(1) n, of e S] by metis
  have "poll_inv st1" "\<forall>x \<in> set ns. waiters st1 (fst x) \<noteq> None" using Cons.prems(2) 1(2) by (auto simp: kept_def dom_def set_eq_iff)
  from Cons.IH [OF this] show ?case using 1 x kept_trans [OF 1(2)] by (auto simp: notify_all_def)
qed

text \<open>C27: the waits that a round of \<open>epoll_wait\<close> arms are all unlinked again before it ends, whatever notifications come in between: the
  lists of waiting threads of all nodes are as before, so that freeing the waits leaves no pointer to them.\<close>

theorem epoll_wait_leaves_no_waits:
  assumes "poll_reachable st" "{base..<base + EPOLL_MAX_ENTRIES} \<subseteq> dom (waits st)" "\<forall>w \<in> {base..<base + EPOLL_MAX_ENTRIES}. unarmed w st"
    "\<forall>e \<in> set es. \<forall>n. get (en_fd e) = Some n \<longrightarrow> waiters st n \<noteq> None" "\<forall>x \<in> set ns. waiters st (fst x) \<noteq> None"
  shows "\<exists>c st1 st2 st3. epoll_arm_waiters_locked get t base EPOLL_MAX_ENTRIES es 0 st = Some (c, st1) \<and> notify_all ns st1 = Some st2 \<and>
    epoll_disarm_waiters base c st2 = Some st3 \<and> waiters st3 = waiters st \<and> (\<forall>w \<in> {base..<base + EPOLL_MAX_ENTRIES}. unarmed w st3)"
proof -
  let ?m = EPOLL_MAX_ENTRIES
  let ?S = "{base..<base + ?m}"
  have inv: "poll_inv st" by (rule poll_reachable_inv [OF assms(1)])
  have "waits st w \<noteq> None" if w: "w \<in> ?S" for w using subsetD [OF assms(2) w] by auto
  then have free: "\<forall>i. 0 \<le> i \<and> i < ?m \<longrightarrow> waits st (base + i) \<noteq> None \<and> unarmed (base + i) st" using assms(3) by auto
  obtain c st1 where a: "epoll_arm_waiters_locked get t base ?m es 0 st = Some (c, st1)" "kept ?S st st1" "c \<le> ?m" "\<forall>i. c \<le> i \<and> i < ?m \<longrightarrow> unarmed (base + i) st1"
    using arm_waiters_kept [OF inv free order_refl assms(4), of t] by blast
  have "poll_inv st1" "\<forall>x \<in> set ns. waiters st1 (fst x) \<noteq> None" using assms(5) a(2) by (auto simp: kept_def dom_def set_eq_iff)
  from notify_all_kept [OF this] obtain st2 where b: "notify_all ns st1 = Some st2" "kept ?S st1 st2" "\<forall>w. unarmed w st2 = unarmed w st1" by blast
  have sub: "{base..<base + c} \<subseteq> ?S" using a(3) by auto
  have "poll_inv st2" "dom (waits st2) = dom (waits st)" using a(2) b(2) by (simp_all add: kept_def)
  then have "poll_inv st2" "{base..<base + c} \<subseteq> dom (waits st2)" "{base..<base + c} \<subseteq> ?S" using subset_trans [OF sub assms(2)] sub by simp_all
  from disarm_waiters_kept [OF this] obtain st3 where d: "epoll_disarm_waiters base c st2 = Some st3" "kept ?S st2 st3"
    "\<forall>v. unarmed v st3 = (v \<in> {base..<base + c} \<or> unarmed v st2)" by blast
  have un: "\<forall>w \<in> ?S. unarmed w st3"
  proof
    fix w
    assume w: "w \<in> ?S"
    show "unarmed w st3"
    proof (cases "w < base + c")
      case True
      then show ?thesis using d(3) w by simp
    next
      case False
      then have "c \<le> w - base \<and> w - base < ?m" "base + (w - base) = w" using w by auto
      then show ?thesis using d(3) b(3) a(4) by metis
    qed
  qed
  have clean: "outside ?S x = waiters x" if x: "poll_inv x" "\<forall>w \<in> ?S. unarmed w x" for x
  proof
    fix n
    have "w \<notin> ?S" if ws: "waiters x n = Some ws" "w \<in> set ws" for ws w
    proof -
      obtain p where "waits x w = Some p" "pw_armed p" using poll_invD(2) [OF x(1) ws(1), of w] ws(2) by (auto simp: armed_on_def)
      then have "\<not> unarmed w x" by (simp add: unarmed_def)
      then show ?thesis using x(2) by blast
    qed
    then show "outside ?S x n = waiters x n" by (cases "waiters x n") (auto simp: outside_def filter_id_conv)
  qed
  have "waiters st3 = outside ?S st3" using clean [of st3] d(2) un by (simp add: kept_def)
  also have "\<dots> = outside ?S st" using a(2) b(2) d(2) by (simp add: kept_def)
  also have "\<dots> = waiters st" using clean [OF inv] assms(3) by simp
  finally show ?thesis using a(1) b(1) d(1) un by blast
qed

text \<open>The waits of a call before it arms any, and one node.\<close>

definition demo_slots :: "nat \<Rightarrow> poll_state" where
  "demo_slots k = \<lparr>waits = (\<lambda>w. if w < k then Some \<lparr>pw_task = None, pw_watch_node = None, pw_events = 0, pw_revents = 0, pw_armed = False\<rparr> else None), waiters = [1 \<mapsto> []]\<rparr>"

lemma demo_slots_reachable: "poll_reachable (demo_slots k)"
proof (induction k)
  case 0
  show ?case by (rule poll_reachable.step [OF poll_reachable.start, of "Make 1"]) (simp_all add: demo_slots_def)
next
  case (Suc k)
  then show ?case by (rule poll_reachable.step [of _ "Enter k"]) (auto simp: demo_slots_def fun_eq_iff)
qed

theorem epoll_wait_leaves_no_waits_witness:
  "\<exists>c st1 st2 st3. epoll_arm_waiters_locked [3 \<mapsto> 1] 5 0 EPOLL_MAX_ENTRIES [new_entry 3 (EPOLLIN, 7)] 0 (demo_slots 128) = Some (c, st1) \<and>
    notify_all [(1, EPOLLIN)] st1 = Some st2 \<and> epoll_disarm_waiters 0 c st2 = Some st3 \<and> waiters st3 = [1 \<mapsto> []]"
proof -
  have "{0..<0 + EPOLL_MAX_ENTRIES} \<subseteq> dom (waits (demo_slots 128))" "\<forall>w \<in> {0..<0 + EPOLL_MAX_ENTRIES}. unarmed w (demo_slots 128)"
    "\<forall>e \<in> set [new_entry 3 (EPOLLIN, 7)]. \<forall>n. [3 \<mapsto> 1] (en_fd e) = Some n \<longrightarrow> waiters (demo_slots 128) n \<noteq> None"
    "\<forall>x \<in> set [(1, EPOLLIN)]. waiters (demo_slots 128) (fst x) \<noteq> None"
    by (auto simp: demo_slots_def EPOLL_MAX_ENTRIES_def unarmed_def new_entry_def split: if_splits)
  from epoll_wait_leaves_no_waits [OF demo_slots_reachable this, of 5] obtain c st1 st2 st3 where
    "epoll_arm_waiters_locked [3 \<mapsto> 1] 5 0 EPOLL_MAX_ENTRIES [new_entry 3 (EPOLLIN, 7)] 0 (demo_slots 128) = Some (c, st1)"
    "notify_all [(1, EPOLLIN)] st1 = Some st2" "epoll_disarm_waiters 0 c st2 = Some st3" "waiters st3 = waiters (demo_slots 128)" by blast
  moreover have "waiters (demo_slots 128) = [1 \<mapsto> []]" by (simp add: demo_slots_def)
  ultimately show ?thesis by metis
qed

end
