(* ===== verification/Atom_Queue.thy ===== *)
theory Atom_Queue
  imports Ring_Queue
begin

text \<open>
  The byte queues of \<^verbatim>\<open>src/src/util/atom_queue.c\<close>: a single-producer single-consumer ring and a
  variant whose indices move by compare-and-exchange.  A queue of \<open>size\<close> bytes, a power of two,
  holds \<open>size - 1\<close> of them.  \<open>junk\<close> is what \<open>malloc\<close> leaves in the buffer.  Both are providers of the
  contract of theory \<open>Ring_Queue\<close> as long as operations do not overlap; the last section shows what
  the second one does when they do.
\<close>

section \<open>Definitions\<close>

record atom_queue =
  aq_buf :: "u8 list option"
  aq_mask :: u64
  aq_head :: u64
  aq_tail :: u64
  aq_size :: u64

text \<open>\<open>store\<close> takes its value as a \<open>uint32_t\<close>.\<close>

definition store :: "u64 \<Rightarrow> u64" where
  "store value = ucast (ucast value :: u32)"

definition create_atom_queue :: "bool \<Rightarrow> u8 list option \<Rightarrow> u64 \<Rightarrow> atom_queue option option" where
  "create_atom_queue malloc_ok junk sz =
     (if sz = 0 \<or> sz AND (sz - 1) \<noteq> 0 then Some None
      else if \<not> malloc_ok then None
      else Some (Some \<lparr>aq_buf = junk, aq_mask = sz - 1, aq_head = 0, aq_tail = 0, aq_size = 0\<rparr>))"

definition atom_push :: "atom_queue \<Rightarrow> u8 \<Rightarrow> (atom_queue \<times> bool) option" where
  "atom_push queue data =
     (case aq_buf queue of
        None \<Rightarrow> Some (queue, False)
      | Some buf \<Rightarrow>
          let head = aq_head queue; next = (head + 1) AND aq_mask queue in
          if next = aq_tail queue then Some (queue, False)
          else do {
            buf' \<leftarrow> aput buf (unat head) data;
            Some (queue\<lparr>aq_buf := Some buf', aq_head := store next, aq_size := aq_size queue + 1\<rparr>, True)
          })"

definition atom_pop :: "atom_queue \<Rightarrow> (atom_queue \<times> u8 option) option" where
  "atom_pop queue =
     (case aq_buf queue of
        None \<Rightarrow> Some (queue, None)
      | Some buf \<Rightarrow>
          let tail = aq_tail queue in
          if tail = aq_head queue then Some (queue, None)
          else do {
            data \<leftarrow> aget buf (unat tail);
            Some (queue\<lparr>aq_tail := store ((tail + 1) AND aq_mask queue), aq_size := aq_size queue - 1\<rparr>, Some data)
          })"

definition create_atom_queue_mpmc :: "bool \<Rightarrow> u8 list option \<Rightarrow> u64 \<Rightarrow> atom_queue option" where
  "create_atom_queue_mpmc malloc_ok junk sz =
     (if sz = 0 \<or> sz AND (sz - 1) \<noteq> 0 then None
      else if \<not> malloc_ok then None
      else case junk of
        None \<Rightarrow> None
      | Some buf \<Rightarrow> Some \<lparr>aq_buf = Some buf, aq_mask = sz - 1, aq_head = 0, aq_tail = 0, aq_size = sz\<rparr>)"

text \<open>One round of the loop of \<open>atom_push_mpmc\<close>, with no other thread in between.\<close>

definition atom_push_mpmc :: "atom_queue \<Rightarrow> u8 \<Rightarrow> (atom_queue \<times> bool) option" where
  "atom_push_mpmc queue data =
     (let head = aq_head queue; tail = aq_tail queue; next = (head + 1) AND aq_mask queue in
      if next = tail then Some (queue, False)
      else do {
        buf \<leftarrow> aq_buf queue;
        buf' \<leftarrow> aput buf (unat head) data;
        Some (queue\<lparr>aq_head := next, aq_buf := Some buf', aq_size := aq_size queue + 1\<rparr>, True)
      })"

definition atom_pop_mpmc :: "atom_queue \<Rightarrow> (atom_queue \<times> u8 option) option" where
  "atom_pop_mpmc queue =
     (let tail = aq_tail queue; head = aq_head queue in
      if tail = head then Some (queue, None)
      else do {
        buf \<leftarrow> aq_buf queue;
        data \<leftarrow> aget buf (unat tail);
        Some (queue\<lparr>aq_tail := (tail + 1) AND aq_mask queue, aq_size := aq_size queue - 1\<rparr>, Some data)
      })"

section \<open>The ring invariant\<close>

definition aq_cap :: "atom_queue \<Rightarrow> nat" where
  "aq_cap q = length (the (aq_buf q))"

definition aq_count :: "atom_queue \<Rightarrow> nat" where
  "aq_count q = (unat (aq_head q) + aq_cap q - unat (aq_tail q)) mod aq_cap q"

definition aq_contents :: "atom_queue \<Rightarrow> u8 list" where
  "aq_contents q = ring_contents (the (aq_buf q)) (unat (aq_tail q)) (aq_count q)"

definition aq_wf :: "nat \<Rightarrow> atom_queue \<Rightarrow> bool" where
  "aq_wf w q \<longleftrightarrow> aq_buf q \<noteq> None \<and> unat (aq_head q) < aq_cap q \<and> unat (aq_tail q) < aq_cap q \<and>
     (\<exists>n\<le>w. aq_cap q = 2 ^ n \<and> aq_mask q + 1 = 2 ^ n)"

lemma store_small:
  assumes "unat v < 2 ^ 32"
  shows "store v = v"
proof -
  have "store v = take_bit 32 v" by (rule bit_word_eqI) (auto simp: store_def bit_simps)
  also have "\<dots> = v" using assms
    by (simp only: word_unat_eq_iff unsigned_take_bit_eq take_bit_nat_eq_self)
  finally show ?thesis .
qed

lemma next_index:
  fixes h m :: u64
  assumes "m + 1 = 2 ^ n" "n < 64" "unat h < 2 ^ n"
  shows "unat ((h + 1) AND m) = (unat h + 1) mod 2 ^ n"
proof -
  have "unat h + 1 < 2 ^ 64"
  proof -
    have "(2::nat) ^ n \<le> 2 ^ 63" using assms(2) by (intro power_increasing) auto
    then show ?thesis using assms(3) by simp
  qed
  then have "unat (h + 1) = unat h + 1" by (simp add: unat_word_ariths)
  then show ?thesis using unat_and_mask [OF assms(1,2), of "h + 1"] by simp
qed

text \<open>Index arithmetic of the ring, on numbers.\<close>

lemma ring_full_iff:
  fixes h t C :: nat
  assumes "h < C" "t < C"
  shows "(h + 1) mod C = t \<longleftrightarrow> (h + C - t) mod C = C - 1"
proof (cases "t \<le> h")
  case True
  then have "(h + C - t) mod C = h - t" using assms by (simp add: mod_if)
  moreover have "(h + 1) mod C = (if h + 1 = C then 0 else h + 1)" using assms by (simp add: mod_if)
  ultimately show ?thesis using True assms by auto
next
  case False
  then have "(h + C - t) mod C = h + C - t" using assms by simp
  moreover have "(h + 1) mod C = h + 1" using False assms by simp
  ultimately show ?thesis using False assms by auto
qed

lemma ring_push_index:
  fixes h t C :: nat
  assumes "h < C" "t < C" "(h + 1) mod C \<noteq> t"
  shows "((h + 1) mod C + C - t) mod C = Suc ((h + C - t) mod C)" "h = (t + (h + C - t) mod C) mod C"
proof -
  show "h = (t + (h + C - t) mod C) mod C"
    using assms by (simp add: mod_add_right_eq)
  show "((h + 1) mod C + C - t) mod C = Suc ((h + C - t) mod C)"
  proof (cases "t \<le> h")
    case True
    then have "(h + C - t) mod C = h - t" using assms by (simp add: mod_if)
    then show ?thesis using True assms by (cases "h + 1 = C") (auto simp: mod_if)
  next
    case False
    then show ?thesis using assms by (auto simp: mod_if)
  qed
qed

lemma ring_pop_index:
  fixes h t C :: nat
  assumes "h < C" "t < C" "h \<noteq> t"
  shows "(h + C - (t + 1) mod C) mod C = (h + C - t) mod C - 1" "0 < (h + C - t) mod C"
  using assms by (cases "t \<le> h"; cases "t + 1 = C"; auto simp: mod_if)+

lemma aq_push_index:
  assumes wf: "aq_wf w q" "w < 64" and nx: "next = (aq_head q + 1) AND aq_mask q"
  shows "unat next = (unat (aq_head q) + 1) mod aq_cap q" "unat next < 2 ^ w"
    "next = aq_tail q \<longleftrightarrow> aq_count q = aq_cap q - 1"
proof -
  obtain n where n: "n \<le> w" "aq_cap q = 2 ^ n" "aq_mask q + 1 = 2 ^ n" using wf by (auto simp: aq_wf_def)
  have b: "unat (aq_head q) < aq_cap q" "unat (aq_tail q) < aq_cap q" using wf by (auto simp: aq_wf_def)
  show u: "unat next = (unat (aq_head q) + 1) mod aq_cap q"
    using next_index [of "aq_mask q" n "aq_head q"] n b(1) wf(2) by (simp add: nx)
  have "(2::nat) ^ n \<le> 2 ^ w" using n(1) by (intro power_increasing) auto
  moreover have "unat next < 2 ^ n" using u n(2) by simp
  ultimately show "unat next < 2 ^ w" by linarith
  show "next = aq_tail q \<longleftrightarrow> aq_count q = aq_cap q - 1"
    using ring_full_iff [OF b] u by (simp add: aq_count_def word_unat_eq_iff)
qed

lemma aq_pushed:
  assumes wf: "aq_wf w q" "w < 64" and nx: "next = (aq_head q + 1) AND aq_mask q" "next \<noteq> aq_tail q"
    and buf: "aq_buf q = Some buf"
    and q': "q' = q\<lparr>aq_buf := Some (buf[unat (aq_head q) := x]), aq_head := next, aq_size := n\<rparr>"
  shows "aq_wf w q'" "aq_contents q' = aq_contents q @ [x]" "aq_cap q' = aq_cap q" "unat (aq_head q) < length buf"
proof -
  note ix = aq_push_index [OF wf nx(1)]
  have b: "unat (aq_head q) < aq_cap q" "unat (aq_tail q) < aq_cap q" using wf by (auto simp: aq_wf_def)
  have ne: "(unat (aq_head q) + 1) mod aq_cap q \<noteq> unat (aq_tail q)" using ix(1) nx(2) by (simp add: word_unat_eq_iff)
  note r = ring_push_index [OF b ne]
  show cap: "aq_cap q' = aq_cap q" by (simp add: q' buf aq_cap_def)
  show "unat (aq_head q) < length buf" using b(1) by (simp add: aq_cap_def buf)
  have "unat next < aq_cap q" using ix(1) b(1) by (metis mod_less_divisor gr_implies_not0 not_gr0)
  then show "aq_wf w q'" using wf cap by (auto simp: aq_wf_def q')
  have count: "aq_count q' = Suc (aq_count q)" using r(1) ix(1) cap by (simp add: aq_count_def q')
  have lt: "aq_count q < aq_cap q" using b by (simp add: aq_count_def)
  have h: "unat (aq_head q) = (unat (aq_tail q) + aq_count q) mod length buf"
    using r(2) by (simp add: aq_count_def aq_cap_def buf)
  have "aq_contents q' = ring_contents (buf[unat (aq_head q) := x]) (unat (aq_tail q)) (Suc (aq_count q))"
    by (simp only: aq_contents_def count) (simp add: q')
  also have "\<dots> = ring_contents buf (unat (aq_tail q)) (aq_count q) @ [x]"
    unfolding h using lt b by (intro ring_push) (simp_all add: aq_cap_def buf)
  finally show "aq_contents q' = aq_contents q @ [x]" by (simp add: aq_contents_def buf)
qed

lemma aq_popped:
  assumes wf: "aq_wf w q" "w < 64" and ne: "aq_tail q \<noteq> aq_head q" and buf: "aq_buf q = Some buf"
    and nx: "next = (aq_tail q + 1) AND aq_mask q" and q': "q' = q\<lparr>aq_tail := next, aq_size := n\<rparr>"
  shows "aq_wf w q'" "aq_contents q = buf ! unat (aq_tail q) # aq_contents q'" "aq_cap q' = aq_cap q"
    "unat (aq_tail q) < length buf" "unat next < 2 ^ w"
proof -
  obtain m where m: "m \<le> w" "aq_cap q = 2 ^ m" "aq_mask q + 1 = 2 ^ m" using wf by (auto simp: aq_wf_def)
  have b: "unat (aq_head q) < aq_cap q" "unat (aq_tail q) < aq_cap q" using wf by (auto simp: aq_wf_def)
  have u: "unat next = (unat (aq_tail q) + 1) mod aq_cap q"
    using next_index [of "aq_mask q" m "aq_tail q"] m b(2) wf(2) by (simp add: nx)
  have ne': "unat (aq_head q) \<noteq> unat (aq_tail q)" using ne by (simp add: word_unat_eq_iff)
  note r = ring_pop_index [OF b ne']
  show cap: "aq_cap q' = aq_cap q" by (simp add: q' aq_cap_def)
  show lt: "unat (aq_tail q) < length buf" using b(2) by (simp add: aq_cap_def buf)
  have nlt: "unat next < aq_cap q" using u b(1) by (metis mod_less_divisor gr_implies_not0 not_gr0)
  have "(2::nat) ^ m \<le> 2 ^ w" using m(1) by (intro power_increasing) auto
  then show "unat next < 2 ^ w" using nlt m(2) by linarith
  show "aq_wf w q'" using wf cap nlt by (auto simp: aq_wf_def q')
  have "aq_count q' = aq_count q - 1" using r(1) u cap by (simp add: aq_count_def q')
  moreover have "0 < aq_count q" using r(2) by (simp add: aq_count_def)
  ultimately show "aq_contents q = buf ! unat (aq_tail q) # aq_contents q'"
    using ring_pop [of "aq_count q" "unat (aq_tail q)" buf] lt u
    by (simp add: aq_contents_def buf q' aq_cap_def)
qed

lemma aq_empty_iff:
  assumes "aq_wf w q"
  shows "aq_tail q = aq_head q \<longleftrightarrow> aq_contents q = []"
proof -
  have b: "unat (aq_head q) < aq_cap q" "unat (aq_tail q) < aq_cap q" using assms by (auto simp: aq_wf_def)
  have "aq_contents q = [] \<longleftrightarrow> aq_count q = 0"
    unfolding aq_contents_def by (metis length_0_conv length_ring_contents)
  moreover have "aq_count q = 0 \<longleftrightarrow> unat (aq_head q) = unat (aq_tail q)"
    using ring_pop_index(2) [OF b] by (cases "unat (aq_head q) = unat (aq_tail q)") (simp_all add: aq_count_def)
  ultimately show ?thesis by (auto simp: word_unat_eq_iff)
qed

lemma aq_room:
  assumes "aq_wf w q"
  shows "length (aq_contents q) < aq_cap q - 1 \<longleftrightarrow> aq_count q \<noteq> aq_cap q - 1"
proof -
  have "aq_count q < aq_cap q" using assms by (simp add: aq_wf_def aq_count_def)
  then show ?thesis by (auto simp: aq_contents_def)
qed

interpretation spsc: bounded_queue atom_push atom_pop "aq_wf 32" aq_contents "\<lambda>q. aq_cap q - 1"
proof unfold_locales
  fix q x assume wf: "aq_wf 32 q"
  obtain buf where buf: "aq_buf q = Some buf" using wf by (auto simp: aq_wf_def)
  let ?n = "(aq_head q + 1) AND aq_mask q"
  have st: "store ?n = ?n" using aq_push_index(2) [OF wf _ refl] by (intro store_small) simp
  show "\<exists>q' ok. atom_push q x = Some (q', ok) \<and> aq_wf 32 q' \<and> aq_cap q' - 1 = aq_cap q - 1 \<and>
    ok = (length (aq_contents q) < aq_cap q - 1) \<and> aq_contents q' = (if ok then aq_contents q @ [x] else aq_contents q)"
  proof (cases "?n = aq_tail q")
    case True
    then show ?thesis using wf buf aq_push_index(3) [OF wf _ refl] aq_room [OF wf]
      by (intro exI [of _ q] exI [of _ False]) (simp add: atom_push_def)
  next
    case False
    note p = aq_pushed [OF wf _ refl False buf refl]
    show ?thesis using p False buf st aq_push_index(3) [OF wf _ refl] aq_room [OF wf]
      by (intro exI [of _ "q\<lparr>aq_buf := Some (buf[unat (aq_head q) := x]), aq_head := ?n, aq_size := aq_size q + 1\<rparr>"]
          exI [of _ True]) (simp add: atom_push_def Let_def)
  qed
next
  fix q assume wf: "aq_wf 32 q"
  obtain buf where buf: "aq_buf q = Some buf" using wf by (auto simp: aq_wf_def)
  let ?n = "(aq_tail q + 1) AND aq_mask q"
  show "\<exists>q' r. atom_pop q = Some (q', r) \<and> aq_wf 32 q' \<and> aq_cap q' - 1 = aq_cap q - 1 \<and>
    (case r of None \<Rightarrow> aq_contents q = [] \<and> aq_contents q' = [] | Some x \<Rightarrow> aq_contents q = x # aq_contents q')"
  proof (cases "aq_tail q = aq_head q")
    case True
    then show ?thesis using wf buf aq_empty_iff [OF wf] by (simp add: atom_pop_def)
  next
    case False
    note p = aq_popped [OF wf _ False buf refl refl]
    have "store ?n = ?n" using p(5) by (intro store_small) simp
    then show ?thesis using p False buf
      by (intro exI [of _ "q\<lparr>aq_tail := ?n, aq_size := aq_size q - 1\<rparr>"] exI [of _ "Some (buf ! unat (aq_tail q))"])
        (simp add: atom_pop_def Let_def)
  qed
qed

interpretation mpmc: bounded_queue atom_push_mpmc atom_pop_mpmc "aq_wf 63" aq_contents "\<lambda>q. aq_cap q - 1"
proof unfold_locales
  fix q x assume wf: "aq_wf 63 q"
  obtain buf where buf: "aq_buf q = Some buf" using wf by (auto simp: aq_wf_def)
  let ?n = "(aq_head q + 1) AND aq_mask q"
  show "\<exists>q' ok. atom_push_mpmc q x = Some (q', ok) \<and> aq_wf 63 q' \<and> aq_cap q' - 1 = aq_cap q - 1 \<and>
    ok = (length (aq_contents q) < aq_cap q - 1) \<and> aq_contents q' = (if ok then aq_contents q @ [x] else aq_contents q)"
  proof (cases "?n = aq_tail q")
    case True
    then show ?thesis using wf buf aq_push_index(3) [OF wf _ refl] aq_room [OF wf]
      by (intro exI [of _ q] exI [of _ False]) (simp add: atom_push_mpmc_def)
  next
    case False
    note p = aq_pushed [OF wf _ refl False buf refl]
    show ?thesis using p False buf aq_push_index(3) [OF wf _ refl] aq_room [OF wf]
      by (intro exI [of _ "q\<lparr>aq_buf := Some (buf[unat (aq_head q) := x]), aq_head := ?n, aq_size := aq_size q + 1\<rparr>"]
          exI [of _ True]) (simp add: atom_push_mpmc_def Let_def)
  qed
next
  fix q assume wf: "aq_wf 63 q"
  obtain buf where buf: "aq_buf q = Some buf" using wf by (auto simp: aq_wf_def)
  show "\<exists>q' r. atom_pop_mpmc q = Some (q', r) \<and> aq_wf 63 q' \<and> aq_cap q' - 1 = aq_cap q - 1 \<and>
    (case r of None \<Rightarrow> aq_contents q = [] \<and> aq_contents q' = [] | Some x \<Rightarrow> aq_contents q = x # aq_contents q')"
  proof (cases "aq_tail q = aq_head q")
    case True
    then show ?thesis using wf buf aq_empty_iff [OF wf] by (simp add: atom_pop_mpmc_def)
  next
    case False
    note p = aq_popped [OF wf _ False buf refl refl]
    show ?thesis using p False buf
      by (intro exI [of _ "q\<lparr>aq_tail := (aq_tail q + 1) AND aq_mask q, aq_size := aq_size q - 1\<rparr>"]
          exI [of _ "Some (buf ! unat (aq_tail q))"]) (simp add: atom_pop_mpmc_def Let_def)
  qed
qed

lemma create_atom_queue_wf:
  assumes "create_atom_queue ok (Some junk) sz = Some (Some q)" "length junk = unat sz" "unat sz \<le> 2 ^ 32"
  shows "aq_wf 32 q" "aq_contents q = []" "aq_cap q = unat sz"
proof -
  have s: "sz \<noteq> 0" "sz AND (sz - 1) = 0" and q: "q = \<lparr>aq_buf = Some junk, aq_mask = sz - 1, aq_head = 0, aq_tail = 0, aq_size = 0\<rparr>"
    using assms(1) by (auto simp: create_atom_queue_def split: if_splits)
  obtain n where n: "n < 64" "sz = 2 ^ n" by (rule power_of_two_check [OF s])
  have u: "unat sz = 2 ^ n" using n by (simp add: unat_pow2)
  then have "(2::nat) ^ n \<le> 2 ^ 32" using assms(3) by simp
  then have "n \<le> 32" by (rule power_le_imp_le_exp [rotated]) simp
  then show "aq_wf 32 q" using n u assms(2) by (auto simp: aq_wf_def aq_cap_def q)
  show "aq_contents q = []" using assms(2) u by (simp add: aq_contents_def aq_count_def aq_cap_def q)
  show "aq_cap q = unat sz" using assms(2) by (simp add: aq_cap_def q)
qed

section \<open>Overlapping pushes and pops\<close>

text \<open>
  With several threads, \<open>atom_push_mpmc\<close> is two steps: the exchange that publishes the new \<open>head\<close>,
  and the write of the byte into the slot reserved.  A pop may come in between.  The state carries
  the reserved slots not yet written, the bytes pushed and the bytes popped so far.
\<close>

record mpmc_state =
  ms_queue :: atom_queue
  ms_pending :: "(u64 \<times> u8) list"
  ms_pushed :: "u8 list"
  ms_popped :: "u8 list"

inductive mpmc_step :: "mpmc_state \<Rightarrow> mpmc_state \<Rightarrow> bool" where
  reserve: "aq_head (ms_queue s) = head \<Longrightarrow> next = (head + 1) AND aq_mask (ms_queue s) \<Longrightarrow>
    next \<noteq> aq_tail (ms_queue s) \<Longrightarrow>
    mpmc_step s (s\<lparr>ms_queue := (ms_queue s)\<lparr>aq_head := next\<rparr>, ms_pending := (head, x) # ms_pending s,
                   ms_pushed := ms_pushed s @ [x]\<rparr>)"
| fill: "(slot, x) \<in> set (ms_pending s) \<Longrightarrow> aq_buf (ms_queue s) = Some buf \<Longrightarrow> aput buf (unat slot) x = Some buf' \<Longrightarrow>
    mpmc_step s (s\<lparr>ms_queue := (ms_queue s)\<lparr>aq_buf := Some buf', aq_size := aq_size (ms_queue s) + 1\<rparr>,
                   ms_pending := remove1 (slot, x) (ms_pending s)\<rparr>)"
| take: "atom_pop_mpmc (ms_queue s) = Some (q, Some y) \<Longrightarrow>
    mpmc_step s (s\<lparr>ms_queue := q, ms_popped := ms_popped s @ [y]\<rparr>)"

inductive_cases mpmc_stepE: "mpmc_step s t"

lemma mpmc_race_run:
  assumes q: "q = \<lparr>aq_buf = Some [0, 0, 0, 0], aq_mask = 3, aq_head = 0, aq_tail = 0, aq_size = 4\<rparr>"
  shows "\<exists>s'. mpmc_step\<^sup>*\<^sup>* \<lparr>ms_queue = q, ms_pending = [], ms_pushed = [], ms_popped = []\<rparr> s' \<and>
    ms_pushed s' = [7] \<and> ms_popped s' = [0]"
proof -
  let ?s0 = "\<lparr>ms_queue = q, ms_pending = [], ms_pushed = [], ms_popped = []\<rparr>"
  let ?s1 = "\<lparr>ms_queue = q\<lparr>aq_head := 1\<rparr>, ms_pending = [(0, 7)], ms_pushed = [7], ms_popped = []\<rparr>"
  let ?s2 = "\<lparr>ms_queue = q\<lparr>aq_head := 1, aq_tail := 1, aq_size := 3\<rparr>, ms_pending = [(0, 7)], ms_pushed = [7],
     ms_popped = [0]\<rparr>"
  have "mpmc_step ?s0 ?s1"
    using mpmc_step.reserve [of ?s0 0 1 7] by (simp add: q)
  moreover have "mpmc_step ?s1 ?s2"
    using mpmc_step.take [of ?s1 "q\<lparr>aq_head := 1, aq_tail := 1, aq_size := 3\<rparr>" 0]
    by (simp add: q atom_pop_mpmc_def)
  ultimately have "mpmc_step\<^sup>*\<^sup>* ?s0 ?s2" by (meson r_into_rtranclp rtranclp_trans)
  then show ?thesis by (intro exI [of _ ?s2]) simp
qed

section \<open>Properties\<close>

lemma demo_atom_queue:
  obtains q where "create_atom_queue True (Some (replicate 4 0)) 4 = Some (Some q)" "aq_wf 32 q" "aq_contents q = []" "aq_cap q = 4"
proof -
  obtain q where q: "create_atom_queue True (Some (replicate 4 0)) 4 = Some (Some q)" by (simp add: create_atom_queue_def)
  from create_atom_queue_wf [OF q] show ?thesis by (intro that [OF q]) simp_all
qed

text \<open>
  The single-producer single-consumer queue is a lossless FIFO: over any sequence of pushes and pops, what was in the
  queue followed by the bytes accepted equals the bytes popped followed by what remains, and no operation faults.
\<close>

theorem atom_queue_fifo:
  assumes "aq_wf 32 q"
  shows "\<exists>q' acc out. queue_run atom_push atom_pop ops q = Some (q', acc, out) \<and> aq_wf 32 q' \<and>
    aq_contents q @ acc = out @ aq_contents q'"
  using spsc.run_fifo [OF assms, of ops] by blast

theorem atom_queue_fifo_witness:
  "\<exists>q q' acc out. create_atom_queue True (Some (replicate 4 0)) 4 = Some (Some q) \<and>
    queue_run atom_push atom_pop [Push 1, Push 2, Pop, Push 3, Push 4, Push 5, Pop] q = Some (q', acc, out) \<and>
    acc = out @ aq_contents q'"
proof (rule demo_atom_queue)
  fix q assume q: "create_atom_queue True (Some (replicate 4 0)) 4 = Some (Some q)" "aq_wf 32 q" "aq_contents q = []"
  from atom_queue_fifo [OF q(2), of "[Push 1, Push 2, Pop, Push 3, Push 4, Push 5, Pop]"] q(1,3) show ?thesis by auto
qed

text \<open>
  The multi-producer queue is not linearizable: because a push publishes the new head before it writes the byte, a
  concurrent pop can return a byte that was never pushed.
\<close>

theorem mpmc_pop_returns_stale_byte:
  "\<exists>s'. mpmc_step\<^sup>*\<^sup>*
      \<lparr>ms_queue = \<lparr>aq_buf = Some [0, 0, 0, 0], aq_mask = 3, aq_head = 0, aq_tail = 0, aq_size = 4\<rparr>, ms_pending = [],
       ms_pushed = [], ms_popped = []\<rparr> s' \<and>
    ms_pushed s' = [7] \<and> ms_popped s' = [0]"
  using mpmc_race_run [OF refl] .

end
