(* ===== verification/Id_Alloc.thy ===== *)
theory Id_Alloc
  imports Kernel_Prelude
begin

text \<open>
  The identifier allocator of \<^verbatim>\<open>src/src/util/id_alloc.c\<close>: a bitmap of 32-bit words, a count of free
  identifiers and a cursor.  The result -1 is \<^const>\<open>None\<close>; identifiers are returned as \<open>int32_t\<close>.
  \<open>calloc_ok\<close> says whether the two allocations succeed.
\<close>

section \<open>Definitions\<close>

record id_allocator =
  ia_bitmap :: "u32 list"
  ia_max_ids :: u32
  ia_free_count :: u32
  ia_next_id :: u32

definition id_allocator_create :: "bool \<Rightarrow> u32 \<Rightarrow> id_allocator option" where
  "id_allocator_create calloc_ok max_ids =
     (if \<not> calloc_ok then None
      else Some \<lparr>ia_bitmap = replicate (unat ((max_ids + 32 - 1) div 32)) 0, ia_max_ids = max_ids,
                 ia_free_count = max_ids, ia_next_id = 0\<rparr>)"

definition id_alloc_set :: "id_allocator \<Rightarrow> u64 \<Rightarrow> id_allocator option" where
  "id_alloc_set a ident =
     (if ident \<ge> ucast (ia_max_ids a) then Some a
      else
        let word_index = unat (ident div 32); mask = push_bit (unat (ident mod 32)) 1 in do {
          w \<leftarrow> aget (ia_bitmap a) word_index;
          if w AND mask = 0 then do {
            bm \<leftarrow> aput (ia_bitmap a) word_index (w OR mask);
            Some (a\<lparr>ia_bitmap := bm, ia_free_count := ia_free_count a - 1\<rparr>)
          }
          else Some a
        })"

text \<open>The search loop; the fuel is the number of rounds left.\<close>

primrec id_alloc_loop :: "nat \<Rightarrow> u32 \<Rightarrow> u32 \<Rightarrow> id_allocator \<Rightarrow> (id_allocator \<times> int option) option" where
  "id_alloc_loop 0 start ident a = None"
| "id_alloc_loop (Suc fuel) start ident a =
     (let word_index = unat (ident div 32); mask = push_bit (unat (ident mod 32)) 1 in do {
        w \<leftarrow> aget (ia_bitmap a) word_index;
        if w AND mask = 0 then do {
          bm \<leftarrow> aput (ia_bitmap a) word_index (w OR mask);
          Some (a\<lparr>ia_bitmap := bm, ia_free_count := ia_free_count a - 1,
                  ia_next_id := (ident + 1) mod ia_max_ids a\<rparr>, Some (sint ident))
        }
        else
          let ident = (ident + 1) mod ia_max_ids a in
          if ident \<noteq> start then id_alloc_loop fuel start ident a else Some (a, None)
      })"

definition id_alloc :: "id_allocator \<Rightarrow> (id_allocator \<times> int option) option" where
  "id_alloc a =
     (if ia_free_count a = 0 then Some (a, None)
      else id_alloc_loop (unat (ia_max_ids a)) (ia_next_id a) (ia_next_id a) a)"

definition id_free :: "id_allocator \<Rightarrow> u32 \<Rightarrow> (id_allocator \<times> bool) option" where
  "id_free a ident =
     (if ident \<ge> ia_max_ids a then Some (a, False)
      else
        let word_index = unat (ident div 32); mask = push_bit (unat (ident mod 32)) 1 in do {
          w \<leftarrow> aget (ia_bitmap a) word_index;
          if w AND mask \<noteq> 0 then do {
            bm \<leftarrow> aput (ia_bitmap a) word_index (w AND NOT mask);
            Some (a\<lparr>ia_bitmap := bm, ia_free_count := ia_free_count a + 1\<rparr>, True)
          }
          else Some (a, False)
        })"

section \<open>The set of identifiers in use\<close>

definition id_bit :: "id_allocator \<Rightarrow> nat \<Rightarrow> bool" where
  "id_bit a i = bit (ia_bitmap a ! (i div 32)) (i mod 32)"

definition ids_used :: "id_allocator \<Rightarrow> nat set" where
  "ids_used a = {i. i < unat (ia_max_ids a) \<and> id_bit a i}"

definition ids_wf :: "id_allocator \<Rightarrow> bool" where
  "ids_wf a \<longleftrightarrow> unat (ia_max_ids a) \<le> 32 * length (ia_bitmap a) \<and>
     unat (ia_free_count a) + card (ids_used a) = unat (ia_max_ids a) \<and>
     (ia_max_ids a \<noteq> 0 \<longrightarrow> ia_next_id a < ia_max_ids a)"

lemma mask_test: "k < 32 \<Longrightarrow> (w AND push_bit k 1 = 0) = (\<not> bit w k)" for w :: u32
  by (simp add: and_exp_eq_0_iff_not_bit)

lemma finite_ids_used [simp]: "finite (ids_used a)"
  by (simp add: ids_used_def)

lemma ids_used_card: "card (ids_used a) \<le> unat (ia_max_ids a)"
  using card_mono [of "{..<unat (ia_max_ids a)}" "ids_used a"] by (auto simp: ids_used_def)

lemma word_slot:
  fixes ident :: u32
  assumes "unat (ia_max_ids a) \<le> 32 * length (ia_bitmap a)" "ident < ia_max_ids a"
  shows "unat (ident div 32) < length (ia_bitmap a)" "unat (ident div 32) = unat ident div 32"
    "unat (ident mod 32) = unat ident mod 32"
  using assms by (auto simp: unat_div_distrib unat_mod_distrib word_less_nat_alt)

lemma ids_used_update:
  assumes "i < unat (ia_max_ids a)" "i div 32 < length (ia_bitmap a)"
    and "w' = (if v then ia_bitmap a ! (i div 32) OR push_bit (i mod 32) 1
               else ia_bitmap a ! (i div 32) AND NOT (push_bit (i mod 32) 1))"
  shows "ids_used (a\<lparr>ia_bitmap := (ia_bitmap a)[i div 32 := w']\<rparr>) =
    (if v then insert i (ids_used a) else ids_used a - {i})"
proof -
  have "id_bit (a\<lparr>ia_bitmap := (ia_bitmap a)[i div 32 := w']\<rparr>) j = (if j = i then v else id_bit a j)" for j
  proof (cases "j div 32 = i div 32")
    case False
    then have "j \<noteq> i" by auto
    then show ?thesis using False by (simp add: id_bit_def)
  next
    case True
    have "j = i \<longleftrightarrow> j mod 32 = i mod 32" using True by (metis div_mult_mod_eq)
    moreover have "j mod 32 < 32" by simp
    ultimately show ?thesis using True assms by (auto simp: id_bit_def bit_simps)
  qed
  then show ?thesis using assms(1) by (auto simp: ids_used_def)
qed

lemma ids_used_fields [simp]:
  "ids_used (a\<lparr>ia_free_count := x\<rparr>) = ids_used a" "ids_used (a\<lparr>ia_next_id := y\<rparr>) = ids_used a"
  by (simp_all add: ids_used_def id_bit_def)

lemma id_free_spec:
  assumes wf: "ids_wf a"
  shows "\<exists>a' r. id_free a ident = Some (a', r) \<and> ids_wf a' \<and> ia_max_ids a' = ia_max_ids a \<and>
    (r \<longleftrightarrow> unat ident \<in> ids_used a) \<and> ids_used a' = ids_used a - {unat ident}"
proof (cases "ident \<ge> ia_max_ids a")
  case True
  then have "unat ident \<notin> ids_used a" by (auto simp: ids_used_def word_le_nat_alt)
  then show ?thesis using True wf by (intro exI [of _ a] exI [of _ False]) (simp add: id_free_def)
next
  case False
  then have lt: "ident < ia_max_ids a" by simp
  note sl = word_slot [OF _ lt]
  have len: "unat (ia_max_ids a) \<le> 32 * length (ia_bitmap a)" using wf by (simp add: ids_wf_def)
  let ?i = "unat ident"
  have i: "?i < unat (ia_max_ids a)" using lt by (simp add: word_less_nat_alt)
  have test: "(ia_bitmap a ! (?i div 32) AND push_bit (?i mod 32) 1 \<noteq> 0) = (?i \<in> ids_used a)"
    using mask_test [of "?i mod 32" "ia_bitmap a ! (?i div 32)"] i by (simp add: ids_used_def id_bit_def)
  show ?thesis
  proof (cases "?i \<in> ids_used a")
    case False
    then show ?thesis using lt test sl [OF len] wf
      by (intro exI [of _ a] exI [of _ False]) (simp add: id_free_def Let_def)
  next
    case True
    let ?bm = "(ia_bitmap a)[?i div 32 := ia_bitmap a ! (?i div 32) AND NOT (push_bit (?i mod 32) 1)]"
    let ?a = "a\<lparr>ia_bitmap := ?bm, ia_free_count := ia_free_count a + 1\<rparr>"
    have u: "ids_used ?a = ids_used a - {?i}"
      using ids_used_update [OF i _ refl, of False] sl [OF len] by simp
    have "0 < card (ids_used a)" using True by (auto simp: card_gt_0_iff)
    then have "unat (ia_free_count a) + 1 \<le> unat (ia_max_ids a)" using wf by (simp add: ids_wf_def)
    moreover have "unat (ia_max_ids a) < 2 ^ 32" using unsigned_less [of "ia_max_ids a", where 'a = nat] by simp
    ultimately have "unat (ia_free_count a + 1) = unat (ia_free_count a) + 1" by (simp add: unat_word_ariths)
    then have "ids_wf ?a" using wf u True card_Diff_singleton [OF True] \<open>0 < card (ids_used a)\<close>
      by (simp add: ids_wf_def)
    moreover have "id_free a ident = Some (?a, True)" using lt test True sl [OF len] by (simp add: id_free_def Let_def)
    ultimately show ?thesis using u True by (intro exI [of _ ?a] exI [of _ True]) simp
  qed
qed

text \<open>The search visits the identifiers from the cursor on, round the table.\<close>

lemma id_alloc_loop_spec:
  assumes wf: "ids_wf a" and k: "k < M" and M: "M = unat (ia_max_ids a)" "M - k \<le> fuel"
    and st: "start < ia_max_ids a" and ident: "unat ident = (unat start + k) mod M"
    and seen: "\<forall>j<k. (unat start + j) mod M \<in> ids_used a" and free: "card (ids_used a) < M"
  shows "\<exists>a' (i :: u32). id_alloc_loop fuel start ident a = Some (a', Some (sint i)) \<and> unat i < M \<and> unat i \<notin> ids_used a \<and>
    ids_wf a' \<and> ids_used a' = insert (unat i) (ids_used a) \<and> ia_max_ids a' = ia_max_ids a"
  using k M(2) ident seen
proof (induction fuel arbitrary: k ident)
  case (Suc fuel)
  note P = Suc.prems
  have M0: "0 < M" using P(1) by simp
  have il: "unat ident < M" using P(3) M0 by simp
  then have lt: "ident < ia_max_ids a" using M(1) by (simp add: word_less_nat_alt)
  have len: "unat (ia_max_ids a) \<le> 32 * length (ia_bitmap a)" using wf by (simp add: ids_wf_def)
  note sl = word_slot [OF len lt]
  let ?i = "unat ident"
  have test: "(ia_bitmap a ! (?i div 32) AND push_bit (?i mod 32) 1 = 0) = (?i \<notin> ids_used a)"
    using mask_test [of "?i mod 32" "ia_bitmap a ! (?i div 32)"] il M(1) by (simp add: ids_used_def id_bit_def)
  have Mw: "M < 2 ^ 32" using unsigned_less [of "ia_max_ids a", where 'a = nat] M(1) by simp
  have nx: "unat ((ident + 1) mod ia_max_ids a) = (?i + 1) mod M"
    using il Mw M(1) by (simp add: unat_mod_distrib unat_word_ariths)
  show ?case
  proof (cases "?i \<in> ids_used a")
    case False
    let ?bm = "(ia_bitmap a)[?i div 32 := ia_bitmap a ! (?i div 32) OR push_bit (?i mod 32) 1]"
    let ?a = "a\<lparr>ia_bitmap := ?bm, ia_free_count := ia_free_count a - 1, ia_next_id := (ident + 1) mod ia_max_ids a\<rparr>"
    have u: "ids_used ?a = insert ?i (ids_used a)"
      using ids_used_update [of ?i a _ True] il M(1) sl by simp
    have "0 < unat (ia_free_count a)" using wf free M(1) by (simp add: ids_wf_def)
    then have "unat (ia_free_count a - 1) = unat (ia_free_count a) - 1"
      by (subst unat_sub) (auto simp: word_le_nat_alt)
    moreover have "(ident + 1) mod ia_max_ids a < ia_max_ids a"
      using nx M0 M(1) by (simp add: word_less_nat_alt)
    ultimately have "ids_wf ?a"
      using wf u False \<open>0 < unat (ia_free_count a)\<close> by (simp add: ids_wf_def)
    moreover have "id_alloc_loop (Suc fuel) start ident a = Some (?a, Some (sint ident))"
      using test False sl by (simp add: Let_def)
    ultimately show ?thesis using u False il by (intro exI [of _ ?a] exI [of _ ident]) simp
  next
    case True
    let ?n = "(ident + 1) mod ia_max_ids a"
    have n: "unat ?n = (unat start + (k + 1)) mod M" using nx P(3) by (simp add: mod_Suc_eq)
    have seen': "\<forall>j<k + 1. (unat start + j) mod M \<in> ids_used a" using P(4) True P(3) by (auto simp: less_Suc_eq)
    have "k + 1 \<noteq> M"
    proof
      assume e: "k + 1 = M"
      have "{..<M} \<subseteq> ids_used a"
      proof
        fix i assume "i \<in> {..<M}"
        then have i: "i < M" by simp
        define j where "j = (i + M - unat start) mod M"
        have sM: "unat start < M" using st M(1) by (simp add: word_less_nat_alt)
        have "(unat start + j) mod M = i"
          using i sM by (simp add: j_def mod_add_right_eq)
        moreover have "j < k + 1" using M0 e by (simp add: j_def)
        ultimately show "i \<in> ids_used a" using seen' by blast
      qed
      then have "M \<le> card (ids_used a)" using card_mono [OF finite_ids_used, of "{..<M}" a] by simp
      then show False using free by simp
    qed
    then have k1: "k + 1 < M" using P(1) by simp
    have "?n \<noteq> start"
    proof
      assume "?n = start"
      then have e: "(unat start + (k + 1)) mod M = unat start" using n by simp
      have sM: "unat start < M" using st M(1) by (simp add: word_less_nat_alt)
      have "(unat start + (k + 1)) mod M = unat start + (k + 1) - M" if "M \<le> unat start + (k + 1)"
        using that sM k1 by (subst le_mod_geq) auto
      then show False using e sM k1 by (cases "unat start + (k + 1) < M") auto
    qed
    moreover have "\<exists>a' (i :: u32). id_alloc_loop fuel start ?n a = Some (a', Some (sint i)) \<and> unat i < M \<and> unat i \<notin> ids_used a \<and>
        ids_wf a' \<and> ids_used a' = insert (unat i) (ids_used a) \<and> ia_max_ids a' = ia_max_ids a"
      using Suc.IH [OF k1 _ n seen'] P(2) by simp
    moreover have "id_alloc_loop (Suc fuel) start ident a = id_alloc_loop fuel start ?n a"
      using test True sl \<open>?n \<noteq> start\<close> by (simp add: Let_def)
    ultimately show ?thesis by simp
  qed
qed simp

lemma id_alloc_spec:
  assumes wf: "ids_wf a"
  shows "\<exists>a' r. id_alloc a = Some (a', r) \<and> ids_wf a' \<and> ia_max_ids a' = ia_max_ids a \<and>
    (case r of
       None \<Rightarrow> a' = a \<and> ids_used a = {..<unat (ia_max_ids a)}
     | Some n \<Rightarrow> \<exists>i :: u32. n = sint i \<and> unat i < unat (ia_max_ids a) \<and> unat i \<notin> ids_used a \<and>
         ids_used a' = insert (unat i) (ids_used a))"
proof (cases "ia_free_count a = 0")
  case True
  then have "card (ids_used a) = card {..<unat (ia_max_ids a)}" using wf by (simp add: ids_wf_def)
  then have "ids_used a = {..<unat (ia_max_ids a)}"
    by (intro card_subset_eq) (auto simp: ids_used_def)
  then show ?thesis using True wf by (simp add: id_alloc_def)
next
  case False
  then have "0 < unat (ia_free_count a)" by (simp add: unat_gt_0)
  then have free: "card (ids_used a) < unat (ia_max_ids a)" using wf by (simp add: ids_wf_def)
  then have st: "ia_next_id a < ia_max_ids a" using wf by (auto simp: ids_wf_def)
  obtain a' and i :: u32 where "id_alloc_loop (unat (ia_max_ids a)) (ia_next_id a) (ia_next_id a) a = Some (a', Some (sint i))"
      "unat i < unat (ia_max_ids a)" "unat i \<notin> ids_used a" "ids_wf a'"
      "ids_used a' = insert (unat i) (ids_used a)" "ia_max_ids a' = ia_max_ids a"
    using id_alloc_loop_spec [OF wf _ refl _ st, of 0 "unat (ia_max_ids a)" "ia_next_id a"] free st
    by (auto simp: word_less_nat_alt)
  then show ?thesis using False
    by (intro exI [of _ a'] exI [of _ "Some (sint i)"]) (simp add: id_alloc_def, blast)
qed

lemma id_allocator_create_wf:
  assumes "id_allocator_create True n = Some a" "unat n + 31 < 2 ^ 32"
  shows "ids_wf a" "ids_used a = {}" "ia_max_ids a = n"
proof -
  have "n + 32 - 1 = n + 31" by simp
  moreover have "unat (n + 31) = unat n + 31" using assms(2) by (simp add: unat_word_ariths)
  ultimately have "unat (n + 32 - 1) = unat n + 31" by metis
  then have len: "unat ((n + 32 - 1) div 32) = (unat n + 31) div 32" unfolding unat_div_distrib by simp
  have a: "a = \<lparr>ia_bitmap = replicate (unat ((n + 32 - 1) div 32)) 0, ia_max_ids = n, ia_free_count = n, ia_next_id = 0\<rparr>"
    using assms(1) by (simp add: id_allocator_create_def)
  have bm: "ia_bitmap a = replicate ((unat n + 31) div 32) 0" unfolding a len by simp
  have "x div 32 < (unat n + 31) div 32" if "x < unat n" for x using that by linarith
  then show e: "ids_used a = {}" by (auto simp: ids_used_def id_bit_def bm) (simp add: a)
  have "unat n \<le> 32 * ((unat n + 31) div 32)" by linarith
  then show "ids_wf a" using e bm by (simp add: ids_wf_def) (simp add: a word_neq_0_conv)
  show "ia_max_ids a = n" by (simp add: a)
qed

section \<open>Properties\<close>

text \<open>
  \<open>id_alloc\<close> returns an identifier in range that was not in use and marks exactly it as used; it fails only when all
  identifiers are in use, and then changes nothing.
\<close>

theorem id_alloc_fresh:
  assumes "ids_wf a"
  shows "\<exists>a' r. id_alloc a = Some (a', r) \<and> ids_wf a' \<and> ia_max_ids a' = ia_max_ids a \<and>
    (case r of
       None \<Rightarrow> a' = a \<and> ids_used a = {..<unat (ia_max_ids a)}
     | Some n \<Rightarrow> \<exists>i :: u32. n = sint i \<and> unat i < unat (ia_max_ids a) \<and> unat i \<notin> ids_used a \<and>
         ids_used a' = insert (unat i) (ids_used a))"
  using id_alloc_spec [OF assms] .

theorem id_alloc_fresh_witness:
  "\<exists>a a' r. id_allocator_create True 40 = Some a \<and> id_alloc a = Some (a', r) \<and> r \<noteq> None"
proof -
  obtain a where a: "id_allocator_create True 40 = Some a" by (simp add: id_allocator_create_def Let_def)
  then have "ids_wf a" "ids_used a = {}" "ia_max_ids a = 40" using id_allocator_create_wf [OF a] by simp_all
  moreover have "0 \<in> {..<40 :: nat}" by simp
  then have "{..<40 :: nat} \<noteq> {}" by blast
  ultimately show ?thesis using id_alloc_fresh [of a] a by (force split: option.splits)
qed

end
