(* ===== verification/Spec2Isabelle.thy ===== *)
theory Spec2Isabelle
  imports Frame_Properties Memsys_Spec Signal_Frame Family Tick Heap_Session Tmpfs_Tree Epoll_Spec Atom_Queue Id_Alloc Bootarg
begin

text \<open>
  The CoolPotOS kernel: memory, threads and processes, files, signals and the data structures under them.

  \<^bold>\<open>The program.\<close>  CoolPotOS is a Unix-like kernel.  At boot \<open>init_frame\<close> turns the memory map of the boot loader into a bitmap of
  usable frames, builds one buddy allocator per zone from it and starts counting references to pages.  Every later part
  takes frames from \<open>alloc_frames\<close>, and small objects from \<open>malloc\<close>, which divides a range of frames into blocks with a tag at each
  end and keeps the free ones in lists by size.  A process has an ordered chain of areas and a queue of reserved ranges; the memory system
  calls change both, and a page fault takes one page out of the queue and maps it.  It has a table of descriptors, whose
  descriptions share nodes of the file system, pipes among them, and every thread has pending and blocked signals, looked at
  at the end of each system call.  Each processor has a round-robin queue of threads; a timer interrupt on it frees the
  threads and processes that have exited, wakes the sleepers that are due and switches to the next thread of the queue.
  A thread leaves its queue to sleep, to wait on a futex or to exit; a process that exits sends its parent a message, which
  \<open>waitpid\<close> looks for, and its children get another parent.

  \<^bold>\<open>Theories and sources\<close> (paths under \<^verbatim>\<open>src/src/\<close>).
  \<^item> \<open>Kernel_Prelude\<close>: array access as options, word arithmetic without wrap-around, list and map lemmas.
  \<^item> \<open>Bitmap\<close>: \<^verbatim>\<open>mem/bitmap.c\<close>, a byte list with a length in bits.
  \<^item> \<open>Buddy_Lists\<close>, \<open>Buddy\<close>, \<open>Buddy_Blocks\<close>, \<open>Buddy_Alloc\<close>, \<open>Buddy_Zone\<close>, \<open>Buddy_Regions\<close>: \<^verbatim>\<open>mem/buddy.c\<close>, the free lists kept in metadata pages,
    splitting and merging, zones, memory regions.
  \<^item> \<open>Page_Ref\<close>: \<^verbatim>\<open>mem/page_ref.c\<close>, 32-bit counters.
  \<^item> \<open>Frames\<close>, \<open>Frames_Spec\<close>, \<open>Frame_Interface\<close>, \<open>Frame_Init\<close>, \<open>Frame_Properties\<close>: \<open>alloc_frames\<close>, \<open>free_frames\<close> and their variants (\<^verbatim>\<open>mem/buddy.c\<close>) and
    the start-up code of \<^verbatim>\<open>mem/frame.c\<close>.
  \<^item> \<open>Heap_Block\<close>: \<^verbatim>\<open>include/mem/alloc/block.h\<close>, \<^verbatim>\<open>area.h\<close> and \<^verbatim>\<open>freelist.h\<close>, the tags and the list links in a memory of words, where reading or
    writing what is not mapped is a fault.  \<open>Heap_Pool\<close>: \<^verbatim>\<open>mem/heap/pool.c\<close>.  \<open>Kernel_Heap\<close>: \<^verbatim>\<open>mem/heap/heap.c\<close>.
  \<^item> \<open>Heap_Rep\<close>, \<open>Heap_Inv\<close>, \<open>Heap_Links\<close>, \<open>Heap_Ops\<close>: when a memory is a sequence of tagged blocks with doubly linked lists of the free ones, and
    that writing tags, linking, unlinking, splitting and merging keep this.  \<open>Heap_Spec\<close>, \<open>Heap_Grow\<close>, \<open>Heap_Alloc\<close>, \<open>Heap_Realloc\<close>: the
    operations of the pool on the map of live blocks; \<open>memory_source\<close> is the interface to what gives it memory, a locale that
    \<open>Kernel_Heap\<close> interprets with \<open>heap_alloc\<close>.  \<open>Heap_Session\<close>: the calls and sequences of calls as clients see them.
  \<^item> \<open>Vma\<close>: \<^verbatim>\<open>mem/vma.c\<close>, the chain of areas as a list.  \<open>Llist_Queue\<close>: \<^verbatim>\<open>util/llist_queue.c\<close>.  \<open>Lazy_Alloc\<close>: \<^verbatim>\<open>mem/lazy_alloc.c\<close>.
  \<^item> \<open>Memsys\<close>, \<open>Memsys_Spec\<close>: \<^verbatim>\<open>mem/memsys.c\<close> over the three theories before and the descriptor table.
  \<^item> \<open>Pipefs\<close>: \<^verbatim>\<open>fs/pipefs.c\<close>, the pipe branches of \<open>vfs_close\<close> and \<open>fd_dup\<close>, and the objects of \<open>pipe2\<close>; nodes, ends and pipes in maps from
    addresses, so that a use after free is a fault of the model.
  \<^item> \<open>Fds\<close>: \<^verbatim>\<open>fs/fds.c\<close> and \<open>close\<close>, \<open>dup\<close>, \<open>dup2\<close>, \<open>dup3\<close>, \<open>dup_with_minfd\<close> of \<^verbatim>\<open>fs/fssys.c\<close>.
  \<^item> \<open>Vfs\<close>: \<^verbatim>\<open>fs/vfs.c\<close>, the tree of nodes over file systems given by their callbacks, and the list of file systems.  \<open>Tmpfs\<close>: \<^verbatim>\<open>fs/tmpfs.c\<close>, whose
    state extends that of the tree.  \<open>Vfs_Path\<close>: what a path stands for, as the inductive relation \<open>resolves\<close>, and the locale \<open>node_store\<close>, the
    laws of callbacks under which lookup and \<open>vfs_mkdir\<close> are correct.  \<open>Tmpfs_Tree\<close>: the memory file system as such a store.
  \<^item> \<open>Vfs_Poll\<close>: polling of nodes and the waits linked to them (\<^verbatim>\<open>fs/vfs.c\<close>).  \<open>Epoll\<close>, \<open>Epoll_Spec\<close>: \<^verbatim>\<open>task/poll.c\<close>, event polls and event counters.
  \<^item> \<open>Signals\<close>: \<^verbatim>\<open>task/signal.c\<close> and the signal calls of \<^verbatim>\<open>task/prsys.c\<close>.  \<open>Signal_Frame\<close>: \<^verbatim>\<open>arch/x86_64/task/signal_x64.c\<close> and \<open>syscall_handler\<close>
    of \<^verbatim>\<open>arch/x86_64/syscall.c\<close>.
  \<^item> \<open>Krlibc\<close>, \<open>Bootarg\<close>: string functions, paths and numbers of \<^verbatim>\<open>util/krlibc.c\<close>; \<^verbatim>\<open>util/bootarg.c\<close>.
  \<^item> \<open>Ring_Queue\<close>, \<open>Atom_Queue\<close>, \<open>Ipc\<close>: an interface of bounded queues, \<^verbatim>\<open>util/atom_queue.c\<close> and \<^verbatim>\<open>task/ipc.c\<close>, which implement it.
  \<^item> \<open>Id_Alloc\<close>: \<^verbatim>\<open>util/id_alloc.c\<close>.  \<open>Hash_Map\<close>: \<^verbatim>\<open>util/map.c\<close>.
  \<^item> \<open>Data_Refinement\<close>: what it means that operations on a concrete state implement an abstract machine, as a locale, with the
    statement on sequences of operations proved once.
  \<^item> \<open>Cow_List\<close>: \<^verbatim>\<open>util/cow_arraylist.c\<close>, the lists of blocks that all tables of threads and processes are.
  \<^item> \<open>Futex\<close>: \<^verbatim>\<open>task/futex.c\<close> over \<open>Hash_Map\<close> and \<open>Cow_List\<close>, and the \<open>futex\<close> call of \<^verbatim>\<open>task/prsys.c\<close>.
  \<^item> \<open>Rrs\<close>: \<^verbatim>\<open>task/rrs.c\<close>, the round-robin queue of a processor over \<open>Llist_Queue\<close>, and the state of the scheduler.  \<open>Scheduler\<close>:
    \<^verbatim>\<open>task/scheduler.c\<close> and \<^verbatim>\<open>task/smp.c\<close>.
  \<^item> \<open>Task\<close>, \<open>Family\<close>: \<^verbatim>\<open>task/task.c\<close>, exit, the freeing of what has exited, \<open>waitpid\<close>; parents, children and \<open>create_process\<close>.  The
    state extends that of the scheduler by the processes.  \<open>Tick\<close>: \<open>scheduler_handler\<close>, the timer interrupt, over all of these.

  \<^bold>\<open>Conventions.\<close>  Machine integers are words of their width, so sums wrap as in C; where a proof needs that they do not, the bound is a
  hypothesis.  A write or read outside an array, the use of a freed object, a taken lock taken again and a loop that never
  ends are all \<^const>\<open>None\<close>; a theorem that says a call gives \<^const>\<open>Some\<close> result says that none of these happens.  What the kernel
  does to hardware or to a part that is not modelled (page-table writes, poll notifications, the kill of a process) is
  returned or logged in order.  The answers of \<open>malloc\<close>, of the page-table walk, of callbacks into file systems and of the scheduler
  are arguments.  Nodes and files of the file system are named by the number of their
  allocation.  Code under a spin lock is one step.  A processor is named by its index.  Where a call allocates more than
  once, one argument is the answer to each.  A call of \<^verbatim>\<open>task/task.c\<close> into descriptors, address spaces, stacks or \<^verbatim>\<open>/proc\<close> is
  logged as an effect.

  \<^bold>\<open>What is shown.\<close>
  \<^item> Frames: blocks handed out never overlap and with the free frames are all frames of the zones; allocation is sound and
    complete; freeing gives back exactly the block; metadata pages suffice; no reachable request faults.  \<open>Frame_Interface\<close> states
    the contract of an allocator as a locale that the model interprets, and the safety of its clients is proved there.
  \<^item> Heap: over any sequence of \<open>malloc\<close>, \<open>free\<close>, \<open>realloc\<close> and writes, the live blocks are apart and hold what was written to them; each call
    returns, without a fault, for sizes that are no multiple of 16 kilobytes; other sizes can fault.
  \<^item> Address spaces: the abstract state is a partial map from addresses to what is seen there, and a set of reserved
    addresses.  \<open>vma_insert\<close>, \<open>vma_unmap_range\<close>, \<open>mmap\<close>, \<open>munmap\<close>, \<open>mprotect\<close> and page faults refine the evident updates of these.
  \<^item> User pointers: \<open>copy_to_user\<close> writes only where the process may, for ranges that do not wrap.
  \<^item> Pipes: over all interleavings of calls of any number of readers and writers, the stream is a FIFO, nothing freed is touched,
    and all is freed in the end.
  \<^item> Descriptors: the lowest free number is handed out; \<open>dup2\<close> and \<open>copy_fdt\<close> share nodes and count them.  \<open>descriptor_table\<close> is the
    interface as a locale.
  \<^item> Files: a file of the memory file system is the sequence of bytes that its writes put one over the other, and reads
    return it; \<open>vfs_open\<close> returns the node a path stands for, links and parents included; \<open>vfs_mkdir\<close> makes what is missing of a path and
    changes no other.  Removing a file in use, or the first of two hard links, leaves pointers to freed memory.
  \<^item> Events: the table of an event poll is a map from descriptors to interests; a scan reports exactly the entries that are
    due; a notification reaches exactly the waits armed on a node, and no wait stays linked after a call; event counters do not
    wrap but for one value.  Edge triggering misses an event that comes between two calls.
  \<^item> Signals: delivery is lowest number first; SIGKILL stays deliverable over all sequences of calls; a signal frame restores
    what it saved.
  \<^item> Scheduling: entities, queues, handles and the sleep list implement plain lists of threads over any sequence of
    operations; \<open>n\<close> picks with \<open>n\<close> runnable threads return each of them; the sleepers that are due, and no others, are woken; a
    timer interrupt keeps all this and switches only to a live thread.
  \<^item> Futexes: the table implements one FIFO of waiting threads for each address; a wake takes those that waited longest.
  \<^item> Threads and processes: what has exited is freed exactly when no processor can still use it; a thread exits once; the
    exit code of a process reaches its parent; children move in order to their new parent; a process that cannot be
    created leaves nothing but an empty slot.
  \<^item> Data structures: queues are FIFOs, the hash map is a finite map, copy-on-write lists are lists, ids are fresh, printed
    command lines parse back.
  \<^item> Defects: the theorems of kind error state what the code does where it departs from what its comments or its callers expect.

  \<^bold>\<open>Bounds and fuel.\<close>  \<open>write_loop\<close> of a pipe has fuel for each byte, and each of its rounds writes one; \<open>min_loop\<close> of \<open>dup_with_minfd\<close> has two rounds
  more than the table has slots; \<open>id_alloc_loop\<close> tries each id once; the loops over pages of \<^verbatim>\<open>mem/memsys.c\<close> have one round per page
  or are partial functions whose result is proved to exist.  \<open>wake_loop\<close> and \<open>purge_loop\<close> of the futex table have a round for
  each waiter and each thread to wake, and a last one.  \<open>resche\<close>, \<open>check_loop\<close>, \<open>reap_threads\<close> and \<open>reparent_loop\<close> are partial functions
  proved to return, as are \<open>find_block\<close> on the lists of the heap, \<open>grow_pages\<close> of the memory file system and, for paths that stand for something, \<open>open_walk\<close> and
  \<open>mkdir_walk\<close>; \<open>nofollow_walk\<close>, \<open>link_walk\<close>, \<open>ancestors\<close> and \<open>free_all\<close> of the tree are partial functions of which no termination is claimed; \<open>reap_processes\<close> and \<open>drop_threads\<close> are partial functions whose results are used only where they exist.  The wake-ups a sleeping reader, writer or \<open>sigtimedwait\<close> gets are a
  list, and a call that is still asleep at its end is a result of its own; so are the rounds of \<open>vfs_poll_wait_sleep\<close>, \<open>epoll_wait\<close> and the event counters.

  \<^bold>\<open>Not modelled.\<close>  Device drivers, the three architectures' start-up and interrupt code with the context switch, and third-party
  code (file systems under \<^verbatim>\<open>module/\<close>, ACPI, compression): they are input and output, assembly, or not the kernel's own.  Of
  \<^verbatim>\<open>task/\<close>: \<^verbatim>\<open>eevdf.c\<close>, which the configuration leaves out, \<open>setup_task\<close>, \<open>create_kernel_thread\<close>, the address space objects and the wait
  of \<open>waitpid\<close> without WNOHANG, which ends in the context switch.  Of the heap: on x86_64 an external library takes its
  place; \<^verbatim>\<open>mman.c\<close> and \<^verbatim>\<open>size-pool.c\<close> have no caller; the checks of HEAP_CHECK and KASAN_CHECK are not configured; the aligned calls are
  defined, but no property is stated of them, because they can leave an empty block that no list holds.  Of the
  file system: devices, overlays, partitions and the initial archive are further instances of the callbacks; \<open>vfs_ioctl\<close> and \<open>vfs_map\<close> only
  pass their arguments on.  Of event polls: \<open>epoll_pwait\<close> and changes of an instance by other threads during a wait.  Sockets and the ELF loader are outside the scope.
\<close>

end
